(* ===== verification/Prelude.thy ===== *)
theory Prelude
  imports Main "HOL-Library.Word" "HOL-Library.Monad_Syntax"
begin

section \<open>Prelude: types, faults and shared lemmas\<close>

text \<open>
  The types of the C and C++ sources, the value that stands for a failed
  assertion or for undefined behaviour, and the generic facts on words, lists
  and function updates that several components share.

  A C function that may die in \<open>HASSERT\<close> or that may touch memory out of
  bounds returns \<open>fault + 'a\<close> or, inside a longer computation written with
  the do-notation, \<open>'a option\<close> with \<open>None\<close> for such a death.
\<close>

unbundle bit_operations_syntax

subsection \<open>Machine types\<close>

type_synonym u1 = "1 word"
type_synonym u4 = "4 word"
type_synonym u8 = "8 word"
type_synonym u16 = "16 word"
type_synonym u32 = "32 word"
type_synonym u64 = "64 word"

text \<open>\<open>NodeID\<close> and \<open>NodeAlias\<close> of \<open>openlcb/Defs.hxx\<close>.\<close>

type_synonym node_id = u64
type_synonym node_alias = u16

datatype fault = Assertion_failed | Out_of_bounds

type_synonym 'a result = "fault + 'a"

named_theorems field_simps_can "extraction of bit fields"

subsection \<open>Guards in the option monad\<close>

definition hassert :: "bool \<Rightarrow> unit option" where
  "hassert b = (if b then Some () else None)"

lemma hassert_True [simp]: "hassert True = Some ()"
  by (simp add: hassert_def)

lemma hassert_False [simp]: "hassert False = None"
  by (simp add: hassert_def)

lemma hassert_eq_Some [simp]: "hassert b = Some u \<longleftrightarrow> b"
  by (simp add: hassert_def)

lemma hassert_bind [simp]:
  "Option.bind (hassert b) f = (if b then f () else None)"
  by (simp add: hassert_def)

text \<open>Reading an array element: out of range is a fault, not an arbitrary value.\<close>

definition array_get :: "'a list \<Rightarrow> nat \<Rightarrow> 'a option" where
  "array_get xs i = (if i < length xs then Some (xs ! i) else None)"

definition array_set :: "'a list \<Rightarrow> nat \<Rightarrow> 'a \<Rightarrow> 'a list option" where
  "array_set xs i x = (if i < length xs then Some (xs[i := x]) else None)"

lemma array_get_in [simp]: "i < length xs \<Longrightarrow> array_get xs i = Some (xs ! i)"
  by (simp add: array_get_def)

lemma array_get_eq_Some: "array_get xs i = Some x \<longleftrightarrow> i < length xs \<and> xs ! i = x"
  by (auto simp: array_get_def)

lemma array_set_in [simp]: "i < length xs \<Longrightarrow> array_set xs i x = Some (xs[i := x])"
  by (simp add: array_set_def)

lemma array_set_eq_Some: "array_set xs i x = Some ys \<longleftrightarrow> i < length xs \<and> ys = xs[i := x]"
  by (auto simp: array_set_def)

lemma array_set_length: "array_set xs i x = Some ys \<Longrightarrow> length ys = length xs"
  by (auto simp: array_set_eq_Some)

subsection \<open>Words\<close>

lemma unat_less_power: "unat (w :: 'a::len word) < 2 ^ LENGTH('a)"
  by (rule unsigned_less)

lemma word_and_mask_bound: "unat (w AND mask n :: 'a::len word) < 2 ^ n"
proof -
  have "unat (w AND mask n) = take_bit n (unat w)"
    by (simp add: unsigned_take_bit_eq flip: take_bit_eq_mask)
  then show ?thesis by simp
qed

lemma take_bit_unat_less: "unat (w :: 'a::len word) < 2 ^ n \<Longrightarrow> take_bit n w = w"
  by (simp add: word_unat_eq_iff unsigned_take_bit_eq take_bit_nat_eq_self_iff)

lemma take_bit_full [simp]: "LENGTH('a) \<le> n \<Longrightarrow> take_bit n (w :: 'a::len word) = w"
  by (rule bit_word_eqI) (simp add: bit_simps)

lemma word8_lt_256 [simp]: "unat (w :: u8) < 256"
  using unat_less_power [of w] by simp

lemma word4_lt_16 [simp]: "unat (w :: u4) < 16"
  using unat_less_power [of w] by simp

text \<open>A literal of the form \<open>2 ^ n - 1\<close> masks the low bits.\<close>

lemma and_literal_mask:
  "(w :: 'a::len word) AND 0xF = take_bit 4 w"
  "w AND 0xFF = take_bit 8 w"
  "w AND 0x7FF = take_bit 11 w"
  "w AND 0xFFF = take_bit 12 w"
  "w AND 0xFFFF = take_bit 16 w"
  "w AND 0xFFFFFFFF = take_bit 32 w"
  "w AND 0xFFFFFFFFFFFF = take_bit 48 w"
  by (simp_all add: take_bit_eq_mask mask_eq_exp_minus_1)

subsection \<open>Lists\<close>

lemma nth_update_neq: "i \<noteq> j \<Longrightarrow> (xs[i := x]) ! j = xs ! j"
  by simp

lemma map_fun_upd_notin: "i \<notin> set xs \<Longrightarrow> map (f(i := v)) xs = map f xs"
  by (induction xs) auto

end
