(* ===== verification/CanFrame.thy ===== *)
theory CanFrame
  imports Prelude
begin

section \<open>CAN frames (can\_frame.h)\<close>

text \<open>
  \<open>struct can_frame\<close> and the accessor macros of \<open>src/can_frame.h\<close>. The
  one-bit flags of the bit field are booleans, the four-bit length is a
  four-bit word, the payload is the array \<open>data[8]\<close>. \<open>IS_CAN_FRAME_ERR\<close> is
  the constant 0 of the header: the flag \<open>can_err\<close> can be written but never
  be observed through the macro.
\<close>

record can_frame =
  can_id :: u32
  can_dlc :: u4
  can_rtr :: bool
  can_eff :: bool
  can_err :: bool
  can_data :: "u8 list"

definition SET_CAN_FRAME_EFF :: "can_frame \<Rightarrow> can_frame" where
  "SET_CAN_FRAME_EFF f = f\<lparr>can_eff := True\<rparr>"

definition SET_CAN_FRAME_RTR :: "can_frame \<Rightarrow> can_frame" where
  "SET_CAN_FRAME_RTR f = f\<lparr>can_rtr := True\<rparr>"

definition SET_CAN_FRAME_ERR :: "can_frame \<Rightarrow> can_frame" where
  "SET_CAN_FRAME_ERR f = f\<lparr>can_err := True\<rparr>"

definition CLR_CAN_FRAME_EFF :: "can_frame \<Rightarrow> can_frame" where
  "CLR_CAN_FRAME_EFF f = f\<lparr>can_eff := False\<rparr>"

definition CLR_CAN_FRAME_RTR :: "can_frame \<Rightarrow> can_frame" where
  "CLR_CAN_FRAME_RTR f = f\<lparr>can_rtr := False\<rparr>"

definition CLR_CAN_FRAME_ERR :: "can_frame \<Rightarrow> can_frame" where
  "CLR_CAN_FRAME_ERR f = f\<lparr>can_err := False\<rparr>"

definition IS_CAN_FRAME_EFF :: "can_frame \<Rightarrow> bool" where
  "IS_CAN_FRAME_EFF f = can_eff f"

definition IS_CAN_FRAME_RTR :: "can_frame \<Rightarrow> bool" where
  "IS_CAN_FRAME_RTR f = can_rtr f"

definition IS_CAN_FRAME_ERR :: "can_frame \<Rightarrow> bool" where
  "IS_CAN_FRAME_ERR f = False"

definition GET_CAN_FRAME_ID_EFF :: "can_frame \<Rightarrow> u32" where
  "GET_CAN_FRAME_ID_EFF f = can_id f"

definition GET_CAN_FRAME_ID :: "can_frame \<Rightarrow> u32" where
  "GET_CAN_FRAME_ID f = can_id f"

definition SET_CAN_FRAME_ID_EFF :: "can_frame \<Rightarrow> u32 \<Rightarrow> can_frame" where
  "SET_CAN_FRAME_ID_EFF f v = f\<lparr>can_id := v AND 0x1FFFFFFF\<rparr>"

definition SET_CAN_FRAME_ID :: "can_frame \<Rightarrow> u32 \<Rightarrow> can_frame" where
  "SET_CAN_FRAME_ID f v = f\<lparr>can_id := v AND 0x7ff\<rparr>"

lemmas can_frame_macros =
  SET_CAN_FRAME_EFF_def SET_CAN_FRAME_RTR_def SET_CAN_FRAME_ERR_def
  CLR_CAN_FRAME_EFF_def CLR_CAN_FRAME_RTR_def CLR_CAN_FRAME_ERR_def
  IS_CAN_FRAME_EFF_def IS_CAN_FRAME_RTR_def IS_CAN_FRAME_ERR_def
  GET_CAN_FRAME_ID_EFF_def GET_CAN_FRAME_ID_def
  SET_CAN_FRAME_ID_EFF_def SET_CAN_FRAME_ID_def

text \<open>
  A frame as a CAN controller delivers it: eight bytes of storage, at most
  eight of them used, and an identifier that fits its format.
\<close>

definition frame_wf :: "can_frame \<Rightarrow> bool" where
  "frame_wf f \<longleftrightarrow> length (can_data f) = 8 \<and> unat (can_dlc f) \<le> 8 \<and>
     (if can_eff f then unat (can_id f) < 2 ^ 29 else unat (can_id f) < 2 ^ 11)"

definition frame_payload :: "can_frame \<Rightarrow> u8 list" where
  "frame_payload f = take (unat (can_dlc f)) (can_data f)"

end
