(* ===== verification/GcFormat.thy ===== *)
theory GcFormat
  imports CanFrame
begin

section \<open>GridConnect text format (utils/gc\_format.cpp)\<close>

text \<open>
  Parser and printer of the GridConnect text form of CAN frames, and the
  stream parser of \<open>utils/GcStreamParser.cpp\<close> that cuts a byte stream into
  packets. A C string is a \<open>char list\<close> without its terminator; reading at the
  end gives the NUL character. Storing past \<open>data[8]\<close> is a fault.
\<close>

subsection \<open>Nibbles\<close>

definition char_code :: "char \<Rightarrow> nat" where
  "char_code c = of_char c"

definition nibble_to_ascii :: "nat \<Rightarrow> char" where
  "nibble_to_ascii n = (let m = n mod 16 in
     if m < 10 then char_of (48 + m) else char_of (65 + (m - 10)))"

definition ascii_to_nibble :: "char \<Rightarrow> int" where
  "ascii_to_nibble c = (let x = char_code c in
     if 48 \<le> x \<and> x \<le> 57 then int x - 48
     else if 65 \<le> x \<and> x \<le> 70 then int x - 65 + 10
     else if 97 \<le> x \<and> x \<le> 102 then int x - 97 + 10
     else -1)"

definition NUL :: char where
  "NUL = CHR 0x00"

fun peek :: "string \<Rightarrow> char" where
  "peek [] = NUL"
| "peek (c # _) = c"

subsection \<open>Parsing a packet\<close>

text \<open>The loop over the identifier digits, up to the \<open>N\<close> or \<open>R\<close> that ends it.\<close>

fun parse_id :: "string \<Rightarrow> u32 \<Rightarrow> (u32 \<times> bool \<times> string) option" where
  "parse_id [] i = None"
| "parse_id (c # cs) i =
     (let nibble = ascii_to_nibble c in
      if nibble \<ge> 0 then parse_id cs (push_bit 4 i OR word_of_int nibble)
      else if c = CHR ''N'' then Some (i, False, cs)
      else if c = CHR ''R'' then Some (i, True, cs)
      else None)"

text \<open>
  The loop over the data digits. The flag of the result says whether the loop
  ended properly; the bytes stored before a bad digit stay stored.
\<close>

fun parse_data :: "nat \<Rightarrow> string \<Rightarrow> u8 list \<Rightarrow> (bool \<times> nat \<times> u8 list) result" where
  "parse_data index [] d = Inr (True, index, d)"
| "parse_data index (c # cs) d =
     (if c = NUL \<or> c = CHR '';'' then Inr (True, index, d)
      else let nh = ascii_to_nibble c; nl = ascii_to_nibble (peek cs) in
        if nh < 0 \<or> nl < 0 then Inr (False, index, d)
        else if length d \<le> index then Inl Out_of_bounds
        else parse_data (Suc index) (drop 1 cs)
               (d[index := push_bit 4 (word_of_int nh) OR word_of_int nl]))"

definition gc_format_parse :: "string \<Rightarrow> can_frame \<Rightarrow> (int \<times> can_frame) result" where
  "gc_format_parse buf frame =
     (let f0 = CLR_CAN_FRAME_ERR frame;
          b0 = (if peek buf = CHR '':'' then drop 1 buf else buf)
      in if peek b0 \<noteq> CHR ''X'' \<and> peek b0 \<noteq> CHR ''S''
         then Inr (-1, SET_CAN_FRAME_ERR f0)
         else let f1 = (if peek b0 = CHR ''X'' then SET_CAN_FRAME_EFF f0
                        else CLR_CAN_FRAME_EFF f0)
           in (case parse_id (drop 1 b0) 0 of
                 None \<Rightarrow> Inr (-1, SET_CAN_FRAME_ERR f1)
               | Some (i, rtr, b1) \<Rightarrow>
                   let f2 = (if rtr then SET_CAN_FRAME_RTR f1 else CLR_CAN_FRAME_RTR f1);
                       f3 = (if IS_CAN_FRAME_EFF f2 then SET_CAN_FRAME_ID_EFF f2 i
                             else SET_CAN_FRAME_ID f2 i)
                   in (case parse_data 0 b1 (can_data f3) of
                         Inl e \<Rightarrow> Inl e
                       | Inr (ok, index, d) \<Rightarrow>
                           if ok then Inr (0, CLR_CAN_FRAME_ERR
                                 (f3\<lparr>can_data := d, can_dlc := of_nat index\<rparr>))
                           else Inr (-1, SET_CAN_FRAME_ERR (f3\<lparr>can_data := d\<rparr>)))))"

subsection \<open>Printing a packet\<close>

definition output_single :: "char \<Rightarrow> string" where
  "output_single v = [v]"

definition output_double :: "char \<Rightarrow> string" where
  "output_double v = [v, v]"

text \<open>The digits for the offsets \<open>4 * k\<close>, \<open>4 * (k - 1)\<close>, down to \<open>0\<close>.\<close>

fun id_digits :: "nat \<Rightarrow> u32 \<Rightarrow> string" where
  "id_digits 0 i = [nibble_to_ascii (unat (i AND 0xf))]"
| "id_digits (Suc k) i =
     nibble_to_ascii (unat (drop_bit (4 * Suc k) i AND 0xf)) # id_digits k i"

definition byte_digits :: "u8 \<Rightarrow> string" where
  "byte_digits b = [nibble_to_ascii (unat (drop_bit 4 b)), nibble_to_ascii (unat (b AND 0xf))]"

text \<open>The first \<open>n\<close> bytes of the payload array; past its end is a fault.\<close>

fun data_digits :: "nat \<Rightarrow> u8 list \<Rightarrow> string result" where
  "data_digits 0 d = Inr []"
| "data_digits (Suc n) [] = Inl Out_of_bounds"
| "data_digits (Suc n) (b # d) =
     (case data_digits n d of Inl e \<Rightarrow> Inl e | Inr s \<Rightarrow> Inr (byte_digits b @ s))"

definition gc_format_generate :: "can_frame \<Rightarrow> bool \<Rightarrow> bool \<Rightarrow> string result" where
  "gc_format_generate f double_format newlines =
     (if IS_CAN_FRAME_ERR f then Inr []
      else let output = (if double_format then output_double else output_single);
               start = output (if double_format then CHR ''!'' else CHR '':'');
               body = (if IS_CAN_FRAME_EFF f
                       then CHR ''X'' # id_digits 7 (GET_CAN_FRAME_ID_EFF f)
                       else CHR ''S'' # id_digits 2 (GET_CAN_FRAME_ID f))
                      @ [if IS_CAN_FRAME_RTR f then CHR ''R'' else CHR ''N'']
        in (case data_digits (unat (can_dlc f)) (can_data f) of
              Inl e \<Rightarrow> Inl e
            | Inr ds \<Rightarrow>
                Inr (start @ concat (map output (body @ ds @ CHR '';'' #
                      (if newlines then [CHR 0x0A] else []))))))"

subsection \<open>Cutting a stream into packets (GcStreamParser)\<close>

record gc_stream_parser =
  cbuf :: string
  offset :: int

definition CBUF_SIZE :: nat where
  "CBUF_SIZE = 32"

definition gc_stream_wf :: "gc_stream_parser \<Rightarrow> bool" where
  "gc_stream_wf p \<longleftrightarrow> length (cbuf p) = CBUF_SIZE \<and> -1 \<le> offset p \<and> offset p < int CBUF_SIZE"

text \<open>The constructor leaves \<open>cbuf_\<close> uninitialised: any 32 characters.\<close>

definition gc_stream_init :: "string \<Rightarrow> gc_stream_parser" where
  "gc_stream_init garbage = \<lparr>cbuf = garbage, offset = -1\<rparr>"

definition consume_byte :: "char \<Rightarrow> gc_stream_parser \<Rightarrow> (bool \<times> gc_stream_parser) option" where
  "consume_byte c p =
     (if c = CHR '':'' then Some (False, p\<lparr>offset := 0\<rparr>)
      else if c = CHR '';'' then
        (if offset p < 0 then Some (False, p)
         else do {
           b \<leftarrow> array_set (cbuf p) (nat (offset p)) NUL;
           Some (True, p\<lparr>cbuf := b, offset := -1\<rparr>)
         })
      else if offset p \<ge> int CBUF_SIZE - 1 then Some (False, p\<lparr>offset := -1\<rparr>)
      else if offset p \<ge> 0 then
        do {
          b \<leftarrow> array_set (cbuf p) (nat (offset p)) c;
          Some (False, p\<lparr>cbuf := b, offset := offset p + 1\<rparr>)
        }
      else Some (False, p))"

text \<open>A buffer read as a C string: up to the first NUL, which must exist.\<close>

definition c_string :: "string \<Rightarrow> string option" where
  "c_string b = (if NUL \<in> set b then Some (takeWhile (\<lambda>c. c \<noteq> NUL) b) else None)"

definition frame_buffer :: "gc_stream_parser \<Rightarrow> string option" where
  "frame_buffer p = (if offset p \<ge> 0 then Some (take (nat (offset p)) (cbuf p))
                     else c_string (cbuf p))"

definition parse_frame_to_output ::
  "gc_stream_parser \<Rightarrow> can_frame \<Rightarrow> (bool \<times> can_frame) result" where
  "parse_frame_to_output p f =
     (case c_string (cbuf p) of
        None \<Rightarrow> Inl Out_of_bounds
      | Some s \<Rightarrow> (case gc_format_parse s f of
          Inl e \<Rightarrow> Inl e
        | Inr (ret, g) \<Rightarrow> Inr (ret = 0, g)))"

text \<open>Feeding a string byte by byte; the list says where a packet was complete.\<close>

fun consume_all :: "string \<Rightarrow> gc_stream_parser \<Rightarrow> (bool list \<times> gc_stream_parser) option" where
  "consume_all [] p = Some ([], p)"
| "consume_all (c # cs) p = do {
     (done, q) \<leftarrow> consume_byte c p;
     (ds, r) \<leftarrow> consume_all cs q;
     Some (done # ds, r)
   }"

subsection \<open>Nibbles are inverse to each other\<close>

lemma ascii_to_nibble_inverse [simp]: "ascii_to_nibble (nibble_to_ascii n) = int (n mod 16)"
proof -
  have "n mod 16 < 16" by simp
  then show ?thesis
    by (auto simp: nibble_to_ascii_def ascii_to_nibble_def char_code_def Let_def
        of_char_of)
qed

lemma nibble_range: "ascii_to_nibble c \<ge> 0 \<Longrightarrow> ascii_to_nibble c < 16"
  by (auto simp: ascii_to_nibble_def Let_def)

lemma ascii_to_nibble_special [simp]:
  "ascii_to_nibble (CHR '';'') = -1" "ascii_to_nibble (CHR '':'') = -1"
  "ascii_to_nibble NUL = -1" "ascii_to_nibble (CHR ''N'') = -1"
  "ascii_to_nibble (CHR ''R'') = -1" "ascii_to_nibble (CHR ''X'') = -1"
  "ascii_to_nibble (CHR ''S'') = -1"
  by (simp_all add: ascii_to_nibble_def char_code_def NUL_def)

lemma nibble_to_ascii_special [simp]:
  "nibble_to_ascii n \<noteq> CHR '';''" "nibble_to_ascii n \<noteq> CHR '':''"
  "nibble_to_ascii n \<noteq> NUL"
proof -
  have ge: "ascii_to_nibble (nibble_to_ascii n) \<ge> 0" by simp
  show "nibble_to_ascii n \<noteq> CHR '';''"
    using ge by (metis ascii_to_nibble_special(1) neg_0_le_iff_le not_one_le_zero)
  show "nibble_to_ascii n \<noteq> CHR '':''"
    using ge by (metis ascii_to_nibble_special(2) neg_0_le_iff_le not_one_le_zero)
  show "nibble_to_ascii n \<noteq> NUL"
    using ge by (metis ascii_to_nibble_special(3) neg_0_le_iff_le not_one_le_zero)
qed

subsection \<open>Identifier digits\<close>

lemma and_0xf_mask: "(i :: 'a::len word) AND 0xf = take_bit 4 i"
proof -
  have "(0xf :: 'a word) = mask 4"
    by (simp add: mask_numeral)
  then show ?thesis by (simp add: take_bit_eq_mask)
qed

lemma unat_take_bit_4: "unat (take_bit 4 (w :: 'a::len word)) mod 16 = unat (take_bit 4 w)"
proof -
  have "unat (take_bit 4 w) = take_bit 4 (unat w)"
    by (simp add: unsigned_take_bit_eq)
  then show ?thesis by (simp add: take_bit_eq_mod)
qed

lemma parse_id_digits:
  "parse_id (id_digits k i @ rest) acc
     = parse_id rest (push_bit (4 * Suc k) acc OR take_bit (4 * Suc k) i)"
proof (induction k arbitrary: acc)
  case 0
  show ?case
    by (simp add: and_0xf_mask unat_take_bit_4)
next
  case (Suc k)
  have "push_bit (4 * Suc k) (push_bit 4 acc OR take_bit 4 (drop_bit (4 * Suc k) i))
      OR take_bit (4 * Suc k) i
    = push_bit (4 * Suc (Suc k)) acc OR take_bit (4 * Suc (Suc k)) i"
    by (rule bit_word_eqI) (auto simp: bit_simps ac_simps)
  with Suc.IH show ?case
    by (simp add: and_0xf_mask unat_take_bit_4 del: mult_Suc_right)
qed

subsection \<open>Data digits\<close>

lemma byte_digits_join:
  "push_bit 4 (word_of_int (int (unat (drop_bit 4 b)))) OR word_of_int (int (unat (b AND 0xf)))
     = (b :: u8)"
proof -
  have "push_bit 4 (drop_bit 4 b) OR take_bit 4 b = b"
    by (rule bit_word_eqI) (auto simp: bit_simps)
  then show ?thesis by (simp add: and_0xf_mask)
qed

lemma unat_high_nibble: "unat (drop_bit 4 (b::u8)) mod 16 = unat (drop_bit 4 b)"
proof -
  have "unat (drop_bit 4 b) = unat b div 16"
    by (simp add: drop_bit_eq_div unat_div)
  moreover have "unat b div 16 < 16"
    using word8_lt_256 [of b] by linarith
  ultimately show ?thesis by simp
qed

lemma unat_low_nibble: "unat ((b::u8) AND 0xf) mod 16 = unat (b AND 0xf)"
  by (simp add: and_0xf_mask unat_take_bit_4)

lemma parse_data_byte:
  assumes "index < length d"
  shows "parse_data index (byte_digits b @ rest) d = parse_data (Suc index) rest (d[index := b])"
  using assms byte_digits_join [of b]
  by (simp add: byte_digits_def unat_high_nibble unat_low_nibble)

lemma parse_data_stop: "c = NUL \<or> c = CHR '';'' \<Longrightarrow> parse_data index (c # rest) d = Inr (True, index, d)"
  by auto

text \<open>What ends the data digits: the end of the string, or a semicolon.\<close>

definition data_end :: "string \<Rightarrow> bool" where
  "data_end rest \<longleftrightarrow> rest = [] \<or> hd rest = NUL \<or> hd rest = CHR '';''"

lemma parse_data_end: "data_end rest \<Longrightarrow> parse_data index rest d = Inr (True, index, d)"
  by (cases rest) (auto simp: data_end_def parse_data_stop simp del: parse_data.simps(2))

lemma parse_data_bytes:
  "index + length bs \<le> length d \<Longrightarrow> data_end rest \<Longrightarrow>
   parse_data index (concat (map byte_digits bs) @ rest) d
     = Inr (True, index + length bs, take index d @ bs @ drop (index + length bs) d)"
proof (induction bs arbitrary: index d)
  case Nil
  then show ?case by (simp add: parse_data_end)
next
  case (Cons b bs)
  have "parse_data index (concat (map byte_digits (b # bs)) @ rest) d
      = parse_data (Suc index) (concat (map byte_digits bs) @ rest) (d[index := b])"
    using Cons.prems by (simp add: parse_data_byte)
  also have "\<dots> = Inr (True, Suc index + length bs,
      take (Suc index) (d[index := b]) @ bs @ drop (Suc index + length bs) (d[index := b]))"
    using Cons.prems by (intro Cons.IH) simp
  finally show ?case
    using Cons.prems by (simp add: take_Suc_conv_app_nth)
qed

lemma data_digits_ok:
  "n \<le> length d \<Longrightarrow> data_digits n d = Inr (concat (map byte_digits (take n d)))"
  by (induction n d rule: data_digits.induct) auto

lemma data_digits_fault: "length d < n \<Longrightarrow> data_digits n d = Inl Out_of_bounds"
  by (induction n d rule: data_digits.induct) auto

lemma length_concat_bytes: "length (concat (map byte_digits bs)) = 2 * length bs"
  by (induction bs) (auto simp: byte_digits_def)

lemma length_id_digits: "length (id_digits k i) = Suc k"
  by (induction k) auto

subsection \<open>The printer\<close>

definition gc_body :: "can_frame \<Rightarrow> string" where
  "gc_body f = (if can_eff f then CHR ''X'' # id_digits 7 (can_id f) else CHR ''S'' # id_digits 2 (can_id f))
     @ [if can_rtr f then CHR ''R'' else CHR ''N''] @ concat (map byte_digits (frame_payload f))"

lemma concat_output_single [simp]: "concat (map output_single s) = s"
  by (induction s) (auto simp: output_single_def)

lemma generate_single:
  assumes "frame_wf f"
  shows "gc_format_generate f False nl
    = Inr (CHR '':'' # gc_body f @ CHR '';'' # (if nl then [CHR 0x0A] else []))"
  using assms
  by (simp add: gc_format_generate_def can_frame_macros output_single_def data_digits_ok
      frame_wf_def gc_body_def frame_payload_def)

lemma length_double: "length (concat (map output_double s)) = 2 * length s"
  by (induction s) (auto simp: output_double_def)

lemma generate_double:
  assumes "frame_wf f"
  shows "gc_format_generate f True nl
    = Inr (''!!'' @ concat (map output_double (gc_body f @ CHR '';'' # (if nl then [CHR 0x0A] else []))))"
  using assms
  by (simp add: gc_format_generate_def can_frame_macros output_double_def data_digits_ok
      frame_wf_def gc_body_def frame_payload_def)

lemma length_gc_body:
  "frame_wf f \<Longrightarrow> length (gc_body f) \<le> 26"
  by (auto simp: gc_body_def length_id_digits length_concat_bytes frame_payload_def frame_wf_def)

lemma id_fits_eff:
  assumes "unat (i::u32) < 2 ^ 29"
  shows "take_bit 32 i AND 0x1FFFFFFF = i"
proof -
  have "x AND 0x1FFFFFFF = take_bit 29 x" for x :: u32
    by (simp add: take_bit_eq_mask mask_eq_exp_minus_1)
  moreover have "take_bit 29 i = i"
    using assms by (rule take_bit_unat_less)
  ultimately show ?thesis by simp
qed

lemma id_fits_std:
  assumes "unat (i::u32) < 2 ^ 11"
  shows "take_bit 12 i AND 0x7ff = i"
proof -
  have "x AND 0x7ff = take_bit 11 x" for x :: u32
    by (simp add: take_bit_eq_mask mask_eq_exp_minus_1)
  moreover have "take_bit 11 i = i"
    using assms by (rule take_bit_unat_less)
  ultimately show ?thesis by simp
qed

text \<open>Parsing what follows the optional colon of a printed frame.\<close>

lemma parse_id_stop:
  "parse_id ((if rtr then CHR ''R'' else CHR ''N'') # rest) acc = Some (acc, rtr, rest)"
  by auto

lemma of_nat_dlc: "of_nat (unat (w::u4)) = w"
  by simp

lemma parse_body:
  assumes f: "frame_wf f" and g: "length (can_data g) = 8" and e: "data_end rest"
  shows "\<exists>h. gc_format_parse (gc_body f @ rest) g = Inr (0, h) \<and>
    can_id h = can_id f \<and> can_eff h = can_eff f \<and> can_rtr h = can_rtr f \<and> \<not> can_err h \<and>
    can_dlc h = can_dlc f \<and> frame_payload h = frame_payload f \<and> length (can_data h) = 8"
proof -
  let ?bs = "frame_payload f"
  have len: "length ?bs = unat (can_dlc f)" "length ?bs \<le> length (can_data g)"
    using f g by (auto simp: frame_payload_def frame_wf_def)
  have data: "parse_data 0 (concat (map byte_digits ?bs) @ rest) (can_data g)
      = Inr (True, length ?bs, ?bs @ drop (length ?bs) (can_data g))"
    using parse_data_bytes [of 0 ?bs "can_data g" rest] len e by simp
  show ?thesis
  proof (cases "can_eff f")
    case True
    have pid: "parse_id (id_digits 7 (can_id f) @ (if can_rtr f then CHR ''R'' else CHR ''N'')
        # concat (map byte_digits ?bs) @ rest) 0
      = Some (can_id f, can_rtr f, concat (map byte_digits ?bs) @ rest)"
      by (simp add: parse_id_digits parse_id_stop del: parse_id.simps)
    have "unat (can_id f) < 2 ^ 29" using f True by (simp add: frame_wf_def)
    from id_fits_eff [OF this] have "can_id f AND 0x1FFFFFFF = can_id f" by simp
    with True show ?thesis
      using pid data len g
      by (simp add: gc_format_parse_def gc_body_def can_frame_macros frame_payload_def
          Let_def of_nat_dlc min_absorb2 del: parse_id.simps parse_data.simps)
  next
    case False
    have pid: "parse_id (id_digits 2 (can_id f) @ (if can_rtr f then CHR ''R'' else CHR ''N'')
        # concat (map byte_digits ?bs) @ rest) 0
      = Some (take_bit 12 (can_id f), can_rtr f, concat (map byte_digits ?bs) @ rest)"
      by (simp add: parse_id_digits parse_id_stop del: parse_id.simps)
    have "unat (can_id f) < 2 ^ 11" using f False by (simp add: frame_wf_def)
    note idf = id_fits_std [OF this]
    with False show ?thesis
      using pid data len g idf
      by (simp add: gc_format_parse_def gc_body_def can_frame_macros frame_payload_def
          Let_def of_nat_dlc min_absorb2 del: parse_id.simps parse_data.simps)
  qed
qed

subsection \<open>The stream parser\<close>

definition packet_char :: "char \<Rightarrow> bool" where
  "packet_char c \<longleftrightarrow> c \<noteq> CHR '':'' \<and> c \<noteq> CHR '';'' \<and> c \<noteq> NUL"

lemma packet_char_nibble [simp]: "packet_char (nibble_to_ascii n)"
  by (simp add: packet_char_def)

lemma packet_char_letters [simp]:
  "packet_char (CHR ''X'')" "packet_char (CHR ''S'')" "packet_char (CHR ''R'')" "packet_char (CHR ''N'')"
  by (simp_all add: packet_char_def NUL_def)

lemma packet_id_digits [simp]: "list_all packet_char (id_digits k i)"
  by (induction k) auto

lemma packet_byte_digits [simp]: "list_all packet_char (concat (map byte_digits bs))"
  by (induction bs) (auto simp: byte_digits_def)

lemma packet_gc_body: "list_all packet_char (gc_body f)"
  by (simp add: gc_body_def)

lemma consume_byte_wf:
  assumes "gc_stream_wf p"
  shows "\<exists>d q. consume_byte c p = Some (d, q) \<and> gc_stream_wf q"
  using assms by (auto simp: consume_byte_def gc_stream_wf_def CBUF_SIZE_def)

lemma consume_all_wf:
  "gc_stream_wf p \<Longrightarrow> \<exists>ds q. consume_all cs p = Some (ds, q) \<and> gc_stream_wf q \<and> length ds = length cs"
proof (induction cs arbitrary: p)
  case Nil
  then show ?case by simp
next
  case (Cons c cs)
  from consume_byte_wf [OF Cons.prems] obtain d q
    where "consume_byte c p = Some (d, q)" "gc_stream_wf q" by blast
  with Cons.IH [of q] show ?case by auto
qed

lemma consume_all_append:
  "consume_all (xs @ ys) p = do {
     (ds, q) \<leftarrow> consume_all xs p; (es, r) \<leftarrow> consume_all ys q; Some (ds @ es, r) }"
  by (induction xs arbitrary: p) (auto split: Option.bind_splits prod.splits)

lemma consume_packet_char:
  assumes "packet_char c" "length (cbuf p) = CBUF_SIZE" "0 \<le> offset p" "offset p < 31"
  shows "consume_byte c p
    = Some (False, p\<lparr>cbuf := (cbuf p)[nat (offset p) := c], offset := offset p + 1\<rparr>)"
  using assms by (simp add: consume_byte_def packet_char_def CBUF_SIZE_def)

text \<open>Inside a packet the characters pile up in the buffer.\<close>

lemma consume_packet_chars:
  "\<lbrakk> list_all packet_char s; length (cbuf p) = CBUF_SIZE; offset p = int k; k + length s \<le> 31 \<rbrakk> \<Longrightarrow>
   consume_all s p = Some (replicate (length s) False,
     p\<lparr>cbuf := take k (cbuf p) @ s @ drop (k + length s) (cbuf p), offset := int (k + length s)\<rparr>)"
proof (induction s arbitrary: p k)
  case Nil
  then show ?case by (cases p) simp
next
  case (Cons c s)
  let ?q = "p\<lparr>cbuf := (cbuf p)[k := c], offset := int (Suc k)\<rparr>"
  have "consume_byte c p = Some (False, ?q)"
    using Cons.prems by (subst consume_packet_char) (auto simp: add.commute)
  moreover have "consume_all s ?q = Some (replicate (length s) False,
     ?q\<lparr>cbuf := take (Suc k) (cbuf ?q) @ s @ drop (Suc k + length s) (cbuf ?q),
        offset := int (Suc k + length s)\<rparr>)"
    using Cons.prems by (intro Cons.IH) auto
  ultimately show ?case
    using Cons.prems by (simp add: take_Suc_conv_app_nth CBUF_SIZE_def)
qed

lemma consume_idle:
  "\<lbrakk> list_all packet_char s; offset p < 0 \<rbrakk> \<Longrightarrow> consume_all s p = Some (replicate (length s) False, p)"
proof (induction s)
  case Nil
  then show ?case by simp
next
  case (Cons c s)
  then have "consume_byte c p = Some (False, p)"
    by (simp add: consume_byte_def packet_char_def CBUF_SIZE_def)
  with Cons show ?case by simp
qed

lemma c_string_packet:
  "list_all packet_char s \<Longrightarrow> c_string (s @ NUL # rest) = Some s"
  by (auto simp: c_string_def takeWhile_append2 list_all_iff packet_char_def)

text \<open>A packet that fits is delivered, whatever the parser saw before.\<close>

lemma consume_packet:
  assumes wf: "gc_stream_wf p" and s: "list_all packet_char s" and len: "length s \<le> 31"
  shows "\<exists>q. consume_all (CHR '':'' # s @ [CHR '';'']) p
      = Some (replicate (Suc (length s)) False @ [True], q)
    \<and> c_string (cbuf q) = Some s \<and> gc_stream_wf q \<and> offset q = -1"
proof -
  let ?p0 = "p\<lparr>offset := 0\<rparr>"
  let ?p1 = "?p0\<lparr>cbuf := s @ drop (length s) (cbuf p), offset := int (length s)\<rparr>"
  let ?b = "(s @ drop (length s) (cbuf p))[length s := NUL]"
  have lb: "length (cbuf p) = 32" using wf by (simp add: gc_stream_wf_def CBUF_SIZE_def)
  have 1: "consume_byte (CHR '':'') p = Some (False, ?p0)"
    by (simp add: consume_byte_def)
  have 2: "consume_all s ?p0 = Some (replicate (length s) False, ?p1)"
    using consume_packet_chars [of s ?p0 0] s len lb by (simp add: CBUF_SIZE_def)
  have 3: "consume_byte (CHR '';'') ?p1 = Some (True, ?p1\<lparr>cbuf := ?b, offset := -1\<rparr>)"
    using len lb by (simp add: consume_byte_def)
  have b: "?b = s @ NUL # drop (Suc (length s)) (cbuf p)"
    using len lb by (cases "drop (length s) (cbuf p)") (auto simp: drop_Suc tl_drop dest: arg_cong [where f = tl])
  have "consume_all (CHR '':'' # s @ [CHR '';'']) p
      = Some (replicate (Suc (length s)) False @ [True], ?p1\<lparr>cbuf := ?b, offset := -1\<rparr>)"
    using 1 2 3 by (simp add: consume_all_append)
  moreover have "c_string ?b = Some s"
    using s by (simp add: b c_string_packet)
  moreover have "gc_stream_wf (?p1\<lparr>cbuf := ?b, offset := -1\<rparr>)"
    using len lb by (simp add: gc_stream_wf_def CBUF_SIZE_def)
  ultimately show ?thesis by auto
qed

lemma consume_two:
  "consume_all xs p = Some (ds, q) \<Longrightarrow> consume_all ys q = Some (es, r) \<Longrightarrow>
   consume_all (xs @ ys) p = Some (ds @ es, r)"
  by (simp add: consume_all_append)

text \<open>A packet of 32 or more characters overruns the buffer and is dropped.\<close>

lemma consume_overrun:
  assumes wf: "gc_stream_wf p" and s: "list_all packet_char s" and len: "32 \<le> length s"
  shows "\<exists>q. consume_all (CHR '':'' # s @ [CHR '';'']) p = Some (replicate (length s + 2) False, q)"
proof -
  let ?p0 = "p\<lparr>offset := 0\<rparr>"
  define a where "a = take 31 s"
  define b where "b = drop 31 s"
  have s_ab: "s = a @ b" and la: "length a = 31" and pa: "list_all packet_char a"
    and pb: "list_all packet_char b"
    using s len by (auto simp: a_def b_def list_all_iff dest: in_set_takeD in_set_dropD)
  obtain c b' where b: "b = c # b'" using len by (cases b) (auto simp: b_def)
  have lb: "length (cbuf p) = 32" using wf by (simp add: gc_stream_wf_def CBUF_SIZE_def)
  obtain p1 where 1: "consume_all a ?p0 = Some (replicate 31 False, p1)" and o1: "offset p1 = 31"
    using consume_packet_chars [of a ?p0 0] pa la lb by (auto simp: CBUF_SIZE_def)
  let ?p2 = "p1\<lparr>offset := -1\<rparr>"
  have 2: "consume_byte c p1 = Some (False, ?p2)"
    using pb o1 by (simp add: b consume_byte_def packet_char_def CBUF_SIZE_def)
  have 3: "consume_all b' ?p2 = Some (replicate (length b') False, ?p2)"
    using pb by (intro consume_idle) (simp_all add: b)
  have 4: "consume_all [CHR '';''] ?p2 = Some ([False], ?p2)"
    by (simp add: consume_byte_def)
  have "consume_all (b @ [CHR '';'']) p1
      = Some (replicate (Suc (length b')) False @ [False], ?p2)"
    using 2 consume_two [OF 3 4] by (simp add: b)
  from consume_two [OF 1 this] have "consume_all (s @ [CHR '';'']) ?p0
      = Some (replicate 31 False @ replicate (Suc (length b')) False @ [False], ?p2)"
    by (simp add: s_ab)
  moreover have "replicate 31 False @ replicate (Suc (length b')) False @ [False]
      = replicate (Suc (length s)) False"
    by (rule replicate_eqI) (auto simp: s_ab la b)
  moreover have "consume_byte (CHR '':'') p = Some (False, ?p0)"
    by (simp add: consume_byte_def)
  ultimately show ?thesis by simp
qed

subsection \<open>Properties\<close>

text \<open>
  A well-formed CAN frame printed in the GridConnect format, fed byte by byte through
  the stream parser in any state and parsed from its buffer gives the frame back; exactly
  one packet is reported.
\<close>

theorem gc_stream_roundtrip:
  assumes f: "frame_wf f" and p: "gc_stream_wf p" and g: "length (can_data g) = 8"
  shows "\<exists>s ds q h. gc_format_generate f False nl = Inr s \<and> consume_all s p = Some (ds, q) \<and>
    count_list ds True = 1 \<and> gc_stream_wf q \<and> parse_frame_to_output q g = Inr (True, h) \<and>
    can_id h = can_id f \<and> can_eff h = can_eff f \<and> can_rtr h = can_rtr f \<and> \<not> can_err h \<and>
    can_dlc h = can_dlc f \<and> frame_payload h = frame_payload f"
proof -
  let ?s = "gc_body f" and ?nl = "if nl then [CHR 0x0A] else []"
  have "length ?s \<le> 31" using length_gc_body [OF f] by simp
  from consume_packet [OF p packet_gc_body this] obtain q where
    q: "consume_all (CHR '':'' # ?s @ [CHR '';'']) p
        = Some (replicate (Suc (length ?s)) False @ [True], q)"
    and cs: "c_string (cbuf q) = Some ?s" and qwf: "gc_stream_wf q" and "offset q = -1"
    by blast
  then have "consume_all ?nl q = Some (replicate (length ?nl) False, q)"
    by (simp add: consume_byte_def CBUF_SIZE_def)
  from consume_two [OF q this] have all: "consume_all (CHR '':'' # ?s @ CHR '';'' # ?nl) p
      = Some ((replicate (Suc (length ?s)) False @ [True]) @ replicate (length ?nl) False, q)"
    by simp
  have cnt: "count_list ((replicate (Suc n) False @ [True]) @ replicate m False) True = 1" for n m
    by (induction n; induction m) auto
  obtain h where h: "gc_format_parse ?s g = Inr (0, h)"
    "can_id h = can_id f" "can_eff h = can_eff f" "can_rtr h = can_rtr f" "\<not> can_err h"
    "can_dlc h = can_dlc f" "frame_payload h = frame_payload f"
    using parse_body [OF f g, of "[]"] by (auto simp: data_end_def)
  with h cs have "parse_frame_to_output q g = Inr (True, h)"
    by (simp add: parse_frame_to_output_def)
  with generate_single [OF f] all cnt qwf h show ?thesis by blast
qed

text \<open>The witness frame: an extended data frame of two bytes.\<close>

definition sample_frame :: can_frame where
  "sample_frame = \<lparr>can_id = 0x195B4123, can_dlc = 2, can_rtr = False, can_eff = True,
     can_err = False, can_data = [0xF0, 0x0B, 0, 0, 0, 0, 0, 0]\<rparr>"

definition sample_parser :: gc_stream_parser where
  "sample_parser = gc_stream_init (replicate 32 (CHR ''?''))"

lemma sample_frame_wf: "frame_wf sample_frame" "length (can_data sample_frame) = 8"
  by (simp_all add: sample_frame_def frame_wf_def)

lemma sample_parser_wf: "gc_stream_wf sample_parser"
  by (simp add: sample_parser_def gc_stream_init_def gc_stream_wf_def CBUF_SIZE_def)

theorem gc_stream_roundtrip_witness:
  "\<exists>s ds q h. gc_format_generate sample_frame False True = Inr s \<and>
    consume_all s sample_parser = Some (ds, q) \<and> count_list ds True = 1 \<and>
    parse_frame_to_output q sample_frame = Inr (True, h) \<and> frame_payload h = [0xF0, 0x0B]"
proof -
  have "frame_payload sample_frame = [0xF0, 0x0B]"
    by (simp add: frame_payload_def sample_frame_def)
  with gc_stream_roundtrip [OF sample_frame_wf(1) sample_parser_wf sample_frame_wf(2), of True]
  show ?thesis by metis
qed

text \<open>
  The stream parser never touches its buffer out of bounds: from any well-formed state
  it consumes any input and stays well-formed, one answer per byte.
\<close>

theorem gc_stream_safe:
  assumes "gc_stream_wf p"
  shows "\<exists>ds q. consume_all cs p = Some (ds, q) \<and> gc_stream_wf q \<and> length ds = length cs"
  by (rule consume_all_wf [OF assms])

theorem gc_stream_safe_witness:
  "\<exists>ds q. consume_all ('':X'' @ replicate 40 (CHR ''0'') @ '';'') sample_parser = Some (ds, q) \<and>
     gc_stream_wf q \<and> length ds = 43"
  using gc_stream_safe [OF sample_parser_wf, of "'':X'' @ replicate 40 (CHR ''0'') @ '';''"] by simp

text \<open>
  Framing: between a colon and a semicolon, a packet of at most 31 characters is reported
  exactly once and left in the buffer, and a longer one is dropped without a report.
\<close>

theorem gc_stream_framing:
  assumes "gc_stream_wf p" and "list_all packet_char s"
  shows "\<exists>q. consume_all (CHR '':'' # s @ [CHR '';'']) p
      = Some (replicate (Suc (length s)) False @ [length s \<le> 31], q)
    \<and> (length s \<le> 31 \<longrightarrow> c_string (cbuf q) = Some s)"
proof (cases "length s \<le> 31")
  case True
  with consume_packet [OF assms True] show ?thesis by fastforce
next
  case False
  then have "32 \<le> length s" by simp
  from consume_overrun [OF assms this] obtain q
    where "consume_all (CHR '':'' # s @ [CHR '';'']) p = Some (replicate (length s + 2) False, q)"
    by blast
  moreover have "replicate (length s + 2) False = replicate (Suc (length s)) False @ [length s \<le> 31]"
    using False by (simp add: replicate_append_same)
  ultimately show ?thesis using False by auto
qed

theorem gc_stream_framing_witness:
  "\<exists>q. consume_all '':X1N;'' sample_parser = Some (replicate 4 False @ [True], q)
     \<and> c_string (cbuf q) = Some ''X1N''"
proof -
  have s: "list_all packet_char ''X1N''" by (simp add: packet_char_def NUL_def)
  from gc_stream_framing [OF sample_parser_wf s] show ?thesis by (simp add: numeral_eq_Suc)
qed

lemma parse_data_overflow:
  "length d < index + length bs \<Longrightarrow> index \<le> length d \<Longrightarrow>
   parse_data index (concat (map byte_digits bs) @ rest) d = Inl Out_of_bounds"
proof (induction bs arbitrary: index d)
  case Nil
  then show ?case by simp
next
  case (Cons b bs)
  show ?case
  proof (cases "index < length d")
    case True
    with Cons.prems Cons.IH [of "d[index := b]" "Suc index"] show ?thesis
      by (simp add: parse_data_byte)
  next
    case False
    with Cons.prems show ?thesis
      by (simp add: byte_digits_def)
  qed
qed

lemma parse_header:
  "gc_format_parse (CHR ''X'' # id_digits k i @ CHR ''N'' # rest) g
   = (case parse_data 0 rest (can_data g) of
        Inl e \<Rightarrow> Inl e
      | Inr (ok, index, d) \<Rightarrow>
          if ok then Inr (0, CLR_CAN_FRAME_ERR (g\<lparr>can_eff := True, can_rtr := False,
              can_err := False, can_id := take_bit (4 * Suc k) i AND 0x1FFFFFFF,
              can_data := d, can_dlc := of_nat index\<rparr>))
          else Inr (-1, SET_CAN_FRAME_ERR (g\<lparr>can_eff := True, can_rtr := False,
              can_err := False, can_id := take_bit (4 * Suc k) i AND 0x1FFFFFFF, can_data := d\<rparr>)))"
  by (simp add: gc_format_parse_def parse_id_digits can_frame_macros Let_def
      split: sum.splits prod.splits)

text \<open>
  The parser has no bound on the number of data bytes: a packet with an extended header
  and \<open>n\<close> data bytes is accepted when \<open>n\<close> is at most 8 and writes past the payload array
  as soon as \<open>n\<close> is larger.
\<close>

theorem gc_parse_payload_bound:
  assumes "length (can_data g) = 8"
  shows "gc_format_parse (CHR ''X'' # id_digits k i @ CHR ''N'' # concat (map byte_digits bs)) g
      = Inl Out_of_bounds \<longleftrightarrow> 8 < length bs"
proof (cases "8 < length bs")
  case True
  with assms have "parse_data 0 (concat (map byte_digits bs)) (can_data g) = Inl Out_of_bounds"
    using parse_data_overflow [of "can_data g" 0 bs "[]"] by simp
  with True show ?thesis by (simp add: parse_header)
next
  case False
  with assms have "parse_data 0 (concat (map byte_digits bs)) (can_data g)
      = Inr (True, length bs, bs @ drop (length bs) (can_data g))"
    using parse_data_bytes [of 0 bs "can_data g" "[]"] by (simp add: data_end_def)
  with False show ?thesis by (simp add: parse_header)
qed

theorem gc_parse_payload_bound_witness:
  "gc_format_parse (CHR ''X'' # id_digits 0 5 @ CHR ''N'' # concat (map byte_digits (replicate 9 1)))
     sample_frame = Inl Out_of_bounds"
  using gc_parse_payload_bound [OF sample_frame_wf(2), of 0 5 "replicate 9 1"] by simp

text \<open>
  Parsing answers 0 with the error flag clear, or -1 with the error flag set; nothing else.
\<close>

theorem gc_parse_error_flag:
  assumes "gc_format_parse s f = Inr (ret, g)"
  shows "ret = 0 \<and> \<not> can_err g \<or> ret = -1 \<and> can_err g"
  using assms
  by (auto simp: gc_format_parse_def can_frame_macros Let_def
      split: if_splits option.splits sum.splits prod.splits)

theorem gc_parse_error_flag_witness:
  "\<exists>g. gc_format_parse ''X12Q'' sample_frame = Inr (-1, g) \<and> can_err g"
proof -
  obtain g where g: "gc_format_parse ''X12Q'' sample_frame = Inr (-1, g)"
    by (simp add: gc_format_parse_def can_frame_macros Let_def ascii_to_nibble_def char_code_def)
  from gc_parse_error_flag [OF g] g show ?thesis by simp
qed

text \<open>
  The error flag of a frame has no effect on the printer: a frame marked as an error
  frame is printed like any other one.
\<close>

theorem gc_generate_ignores_error:
  "gc_format_generate (SET_CAN_FRAME_ERR f) dbl nl = gc_format_generate (CLR_CAN_FRAME_ERR f) dbl nl"
  unfolding gc_format_generate_def can_frame_macros by (simp split: sum.split)

text \<open>
  The size of the printed form: at most 28 characters, twice that in the doubled
  format, and one more character, doubled as well, when newlines are configured.
\<close>

theorem gc_generate_length:
  assumes "frame_wf f"
  shows "\<exists>s. gc_format_generate f dbl nl = Inr s \<and>
    length s \<le> (if dbl then 2 else 1) * (28 + (if nl then 1 else 0))"
proof (cases dbl)
  case True
  have "length (concat (map output_double (gc_body f @ CHR '';'' # (if nl then [CHR 0x0A] else []))))
      = 2 * (length (gc_body f) + 1 + (if nl then 1 else 0))"
    unfolding length_double by simp
  with True generate_double [OF assms, of nl] length_gc_body [OF assms] show ?thesis by auto
next
  case False
  with generate_single [OF assms, of nl] length_gc_body [OF assms] show ?thesis by auto
qed

theorem gc_generate_length_witness:
  "\<exists>s. gc_format_generate sample_frame True True = Inr s \<and> length s \<le> 58"
  using gc_generate_length [OF sample_frame_wf(1), of True True] by simp

end
