(* ===== verification/SortedListSet.thy ===== *)
theory SortedListSet
  imports Prelude
begin

section \<open>Sorted vector used as a set (utils/SortedListMap.hxx)\<close>

text \<open>
  \<open>SortedListSet<D, CMP>\<close>: a vector whose first \<open>sortedCount\<close> elements are
  sorted and which is sorted again before the next search. The comparator of
  every user compares one key of the elements, so it is modelled as a key
  function; iterators are positions in the vector. \<open>std::sort\<close> is stable
  sorting by the key: on distinct keys, the only case the users have, the
  sorted sequence is unique. \<open>std::lower_bound\<close> and \<open>std::upper_bound\<close> are
  the partition points of the sorted vector.

  The locale \<open>keyed_set\<close> is the contract that the alias cache relies on.
\<close>

record 'd sorted_list_set =
  container :: "'d list"
  sortedCount :: nat

definition sls_new :: "'d sorted_list_set" where
  "sls_new = \<lparr>container = [], sortedCount = 0\<rparr>"

definition sls_lazy_init :: "('d \<Rightarrow> 'k::linorder) \<Rightarrow> 'd sorted_list_set \<Rightarrow> 'd sorted_list_set" where
  "sls_lazy_init key s =
     (if sortedCount s \<noteq> length (container s)
      then s\<lparr>container := sort_key key (container s), sortedCount := length (container s)\<rparr>
      else s)"

definition sls_begin :: "('d \<Rightarrow> 'k::linorder) \<Rightarrow> 'd sorted_list_set \<Rightarrow> 'd sorted_list_set \<times> nat" where
  "sls_begin key s = (sls_lazy_init key s, 0)"

definition sls_end :: "'d sorted_list_set \<Rightarrow> nat" where
  "sls_end s = sortedCount s"

definition sls_size :: "'d sorted_list_set \<Rightarrow> nat" where
  "sls_size s = length (container s)"

definition sls_lower_bound ::
  "('d \<Rightarrow> 'k::linorder) \<Rightarrow> 'k \<Rightarrow> 'd sorted_list_set \<Rightarrow> 'd sorted_list_set \<times> nat" where
  "sls_lower_bound key k s = (let t = sls_lazy_init key s in
     (t, length (takeWhile (\<lambda>d. key d < k) (container t))))"

definition sls_upper_bound ::
  "('d \<Rightarrow> 'k::linorder) \<Rightarrow> 'k \<Rightarrow> 'd sorted_list_set \<Rightarrow> 'd sorted_list_set \<times> nat" where
  "sls_upper_bound key k s = (let t = sls_lazy_init key s in
     (t, length (takeWhile (\<lambda>d. \<not> k < key d) (container t))))"

definition sls_find ::
  "('d \<Rightarrow> 'k::linorder) \<Rightarrow> 'k \<Rightarrow> 'd sorted_list_set \<Rightarrow> 'd sorted_list_set \<times> nat" where
  "sls_find key k s = (let t = sls_lazy_init key s;
      (t1, lb) = sls_lower_bound key k t;
      (t2, ub) = sls_upper_bound key k t1
    in if ub = lb then (t2, sls_end t2) else (t2, lb))"

definition sls_insert :: "'d \<Rightarrow> 'd sorted_list_set \<Rightarrow> 'd sorted_list_set" where
  "sls_insert d s = s\<lparr>container := container s @ [d]\<rparr>"

definition sls_erase :: "nat \<Rightarrow> 'd sorted_list_set \<Rightarrow> 'd sorted_list_set option" where
  "sls_erase it s = do {
     hassert (sortedCount s > 0);
     hassert (it < length (container s));
     Some (s\<lparr>container := take it (container s) @ drop (Suc it) (container s),
             sortedCount := sortedCount s - 1\<rparr>)
   }"

definition sls_clear :: "'d sorted_list_set \<Rightarrow> 'd sorted_list_set" where
  "sls_clear s = s\<lparr>container := [], sortedCount := 0\<rparr>"

subsection \<open>The contract\<close>

locale keyed_set =
  fixes key :: "'d \<Rightarrow> 'k::linorder"
    and find :: "'k \<Rightarrow> 's \<Rightarrow> 's \<times> nat"
    and the_end :: "'s \<Rightarrow> nat"
    and get :: "'s \<Rightarrow> nat \<Rightarrow> 'd"
    and ins :: "'d \<Rightarrow> 's \<Rightarrow> 's"
    and erase :: "nat \<Rightarrow> 's \<Rightarrow> 's option"
    and elems :: "'s \<Rightarrow> 'd set"
    and ok :: "'s \<Rightarrow> bool"
  assumes find_ok: "ok s \<Longrightarrow> find k s = (t, i) \<Longrightarrow> ok t \<and> elems t = elems s"
    and find_hit: "ok s \<Longrightarrow> find k s = (t, i) \<Longrightarrow> d \<in> elems s \<Longrightarrow> inj_on key (elems s) \<Longrightarrow>
      key d = k \<Longrightarrow> i \<noteq> the_end t \<and> get t i = d"
    and find_miss: "ok s \<Longrightarrow> find k s = (t, i) \<Longrightarrow> k \<notin> key ` elems s \<Longrightarrow> i = the_end t"
    and ins_ok: "ok s \<Longrightarrow> d \<notin> elems s \<Longrightarrow> ok (ins d s) \<and> elems (ins d s) = insert d (elems s)"
    and erase_ok: "ok s \<Longrightarrow> find k s = (t, i) \<Longrightarrow> d \<in> elems s \<Longrightarrow> inj_on key (elems s) \<Longrightarrow>
      key d = k \<Longrightarrow> \<exists>u. erase i t = Some u \<and> ok u \<and> elems u = elems s - {d}"
begin

text \<open>A key that was just inserted is found, with the element inserted for it.\<close>

lemma find_inserted:
  assumes "ok s" "d \<notin> elems s" "inj_on key (insert d (elems s))" "find (key d) (ins d s) = (t, i)"
  shows "i \<noteq> the_end t \<and> get t i = d"
  using ins_ok [OF assms(1,2)] assms(3,4) by (intro find_hit) auto

text \<open>After erasing what was found, the key is not found any more.\<close>

lemma find_erased:
  assumes s: "ok s" and f: "find (key d) s = (t, i)" and d: "d \<in> elems s"
    and inj: "inj_on key (elems s)"
  shows "\<exists>u. erase i t = Some u \<and> (\<forall>v j. find (key d) u = (v, j) \<longrightarrow> j = the_end v)"
proof -
  obtain u where u: "erase i t = Some u" "ok u" "elems u = elems s - {d}"
    using erase_ok [OF s f d inj] by auto
  then have "key d \<notin> key ` elems u"
    using inj d by (auto simp: inj_on_def)
  with u find_miss [OF u(2)] show ?thesis by blast
qed

end

subsection \<open>The vector keeps the contract\<close>

definition sls_ok :: "('d \<Rightarrow> 'k::linorder) \<Rightarrow> 'd sorted_list_set \<Rightarrow> bool" where
  "sls_ok key s \<longleftrightarrow> distinct (container s) \<and> sortedCount s \<le> length (container s) \<and>
     (sortedCount s = length (container s) \<longrightarrow> sorted (map key (container s)))"

definition sls_elems :: "'d sorted_list_set \<Rightarrow> 'd set" where
  "sls_elems s = set (container s)"

definition sls_get :: "'d sorted_list_set \<Rightarrow> nat \<Rightarrow> 'd" where
  "sls_get s i = container s ! i"

lemma sls_lazy_sorted:
  assumes "sls_ok key s"
  defines "t \<equiv> sls_lazy_init key s"
  shows "sorted (map key (container t))" "sortedCount t = length (container t)"
    "distinct (container t)" "set (container t) = set (container s)"
    "length (container t) = length (container s)"
  using assms by (auto simp: sls_ok_def sls_lazy_init_def)

lemma sls_lazy_idem: "sls_lazy_init key (sls_lazy_init key s) = sls_lazy_init key s"
  by (simp add: sls_lazy_init_def)

lemma sls_find_unfold:
  "sls_find key k s = (let t = sls_lazy_init key s;
      lb = length (takeWhile (\<lambda>d. key d < k) (container t));
      ub = length (takeWhile (\<lambda>d. \<not> k < key d) (container t))
    in (t, if ub = lb then sls_end t else lb))"
  by (simp add: sls_find_def sls_lower_bound_def sls_upper_bound_def Let_def sls_lazy_idem)

lemma sls_lazy_ok: "sls_ok key s \<Longrightarrow> sls_ok key (sls_lazy_init key s)"
  using sls_lazy_sorted [of key s] by (simp add: sls_ok_def)

text \<open>Positions in a sorted vector with distinct keys.\<close>

lemma takeWhile_split_less:
  assumes "sorted (map key (xs @ d # ys))" "inj_on key (set (xs @ d # ys))" "distinct (xs @ d # ys)"
  shows "takeWhile (\<lambda>e. key e < key d) (xs @ d # ys) = xs"
    "takeWhile (\<lambda>e. \<not> key d < key e) (xs @ d # ys) = xs @ [d]"
proof -
  have lt: "key e < key d" if "e \<in> set xs" for e
  proof -
    have "key e \<le> key d" using assms(1) that by (auto simp: sorted_append)
    moreover have "key e \<noteq> key d" using assms(2,3) that by (auto simp: inj_on_def)
    ultimately show ?thesis by simp
  qed
  then show "takeWhile (\<lambda>e. key e < key d) (xs @ d # ys) = xs"
    by (simp add: takeWhile_append2 del: takeWhile_append)
  have gt: "key d < key e" if "e \<in> set ys" for e
  proof -
    have "key d \<le> key e" using assms(1) that by (auto simp: sorted_append)
    moreover have "key d \<noteq> key e" using assms(2,3) that by (auto simp: inj_on_def)
    ultimately show ?thesis by simp
  qed
  have "takeWhile (\<lambda>e. \<not> key d < key e) ys = []"
    using gt by (cases ys) auto
  then show "takeWhile (\<lambda>e. \<not> key d < key e) (xs @ d # ys) = xs @ [d]"
    using lt by (subst takeWhile_append2) (auto dest: less_asym)
qed

lemma sls_find_hit:
  assumes s: "sls_ok key s" and f: "sls_find key k s = (t, i)" and d: "d \<in> sls_elems s"
    and inj: "inj_on key (sls_elems s)" and k: "key d = k"
  shows "t = sls_lazy_init key s \<and> i < length (container t) \<and> container t ! i = d"
proof -
  let ?t = "sls_lazy_init key s"
  note t = sls_lazy_sorted [OF s]
  have "d \<in> set (container ?t)" using d t(4) by (simp add: sls_elems_def)
  then obtain xs ys where c: "container ?t = xs @ d # ys" by (meson split_list)
  have "inj_on key (set (xs @ d # ys))" using inj t(4) by (simp add: sls_elems_def flip: c)
  moreover have "sorted (map key (xs @ d # ys))" using t(1) by (simp flip: c)
  moreover have "distinct (xs @ d # ys)" using t(3) by (simp flip: c)
  ultimately have "takeWhile (\<lambda>e. key e < k) (container ?t) = xs"
    "takeWhile (\<lambda>e. \<not> k < key e) (container ?t) = xs @ [d]"
    using takeWhile_split_less [of key xs d ys] unfolding c k by auto
  then have "sls_find key k s = (?t, length xs)"
    by (simp add: sls_find_unfold Let_def)
  with f c show ?thesis by auto
qed

lemma sls_find_miss:
  assumes s: "sls_ok key s" and f: "sls_find key k s = (t, i)" and k: "k \<notin> key ` sls_elems s"
  shows "t = sls_lazy_init key s \<and> i = sls_end t"
proof -
  let ?t = "sls_lazy_init key s"
  have "takeWhile (\<lambda>e. key e < k) (container ?t) = takeWhile (\<lambda>e. \<not> k < key e) (container ?t)"
    using k sls_lazy_sorted(4) [OF s]
    by (intro takeWhile_cong) (auto simp: sls_elems_def not_less order.order_iff_strict image_iff)
  with f show ?thesis by (auto simp: sls_find_unfold Let_def)
qed

lemma sls_find_state:
  "sls_find key k s = (t, i) \<Longrightarrow> t = sls_lazy_init key s"
  by (auto simp: sls_find_unfold Let_def)

interpretation sls: keyed_set key "sls_find key" sls_end sls_get sls_insert sls_erase sls_elems "sls_ok key"
  for key :: "'d \<Rightarrow> 'k::linorder"
proof (unfold_locales, goal_cases)
  case (1 s k t i)
  then show ?case
    using sls_lazy_ok [of key s] sls_lazy_sorted(4) [of key s] sls_find_state [of key k s t i]
    by (simp add: sls_elems_def)
next
  case (2 s k t i d)
  then show ?case
    using sls_find_hit [of key s k t i d] sls_lazy_sorted(2) [of key s]
    by (auto simp: sls_end_def sls_get_def)
next
  case (3 s k t i)
  then show ?case using sls_find_miss [of key s k t i] by simp
next
  case (4 s d)
  then show ?case by (auto simp: sls_ok_def sls_insert_def sls_elems_def)
next
  case (5 s k t i d)
  then have h: "t = sls_lazy_init key s" "i < length (container t)" "container t ! i = d"
    using sls_find_hit [of key s k t i d] by auto
  note t = sls_lazy_sorted [OF 5(1), folded h(1)]
  let ?c = "container t"
  let ?r = "take i ?c @ drop (Suc i) ?c"
  have split: "?c = take i ?c @ d # drop (Suc i) ?c"
    using id_take_nth_drop [OF h(2)] h(3) by simp
  have "sorted (map key (take i ?c @ d # drop (Suc i) ?c))" "distinct (take i ?c @ d # drop (Suc i) ?c)"
    using t(1,3) split by simp_all
  then have "sorted (map key ?r)" "distinct ?r" "d \<notin> set ?r"
    by (auto simp: sorted_append)
  moreover have "set ?r = set ?c - {d}"
    using arg_cong [OF split, of set] \<open>d \<notin> set ?r\<close> by auto
  ultimately show ?case
    using h(2) t by (auto simp: sls_erase_def sls_ok_def sls_elems_def)
qed

end
