(* ===== verification/AliasCache.thy ===== *)
theory AliasCache
  imports SortedListSet
begin

section \<open>The alias cache (openlcb/AliasCache.hxx, openlcb/AliasCache.cpp)\<close>

text \<open>
  The operations of \<open>AliasCache\<close> on its pool of metadata entries, with the
  doubly linked list of used entries, the singly linked list of free ones and
  the two sorted index vectors. A \<open>PoolIdx\<close> is a natural number below
  65536, \<open>NONE_ENTRY\<close> the empty one; storing a \<open>size_t\<close> or a pointer
  difference into it truncates to 16 bits. \<open>None\<close> is a failed \<open>HASSERT\<close>
  (or \<open>DASSERT\<close>) or an access outside the pool. The calls of the removal
  callback are returned as a list, oldest call first.
\<close>

definition NOT_RESPONDING :: node_alias where
  "NOT_RESPONDING = 0xF000"

definition NONE_ENTRY :: nat where
  "NONE_ENTRY = 0xFFFF"

record metadata =
  nodeIdLow :: u32
  nodeIdHigh :: u16
  md_alias :: node_alias
  newer :: nat
  older :: nat

definition metadata_init :: metadata where
  "metadata_init = \<lparr>nodeIdLow = 0, nodeIdHigh = 0, md_alias = 0, newer = NONE_ENTRY, older = NONE_ENTRY\<rparr>"

definition set_node_id :: "node_id \<Rightarrow> metadata \<Rightarrow> metadata" where
  "set_node_id i m = m\<lparr>nodeIdLow := ucast (i AND 0xFFFFFFFF),
     nodeIdHigh := ucast (drop_bit 32 i AND 0xFFFF)\<rparr>"

definition get_node_id :: "metadata \<Rightarrow> node_id" where
  "get_node_id m = (let h = ucast (nodeIdHigh m) in push_bit 32 h OR ucast (nodeIdLow m))"

record alias_cache =
  pool :: "metadata list"
  aliasMap :: "nat sorted_list_set"
  idMap :: "nat sorted_list_set"
  freeList :: nat
  oldest :: nat
  newest :: nat
  seed :: u64
  entries :: nat
  has_callback :: bool

type_synonym remove_log = "(node_id \<times> node_alias) list"

subsection \<open>Pool indices\<close>

definition pool_idx :: "nat \<Rightarrow> nat" where
  "pool_idx n = n mod 65536"

definition deref :: "alias_cache \<Rightarrow> nat \<Rightarrow> metadata option" where
  "deref c i = do { hassert (i \<noteq> NONE_ENTRY); array_get (pool c) i }"

definition update :: "nat \<Rightarrow> (metadata \<Rightarrow> metadata) \<Rightarrow> alias_cache \<Rightarrow> alias_cache option" where
  "update i f c = do { m \<leftarrow> deref c i; Some (c\<lparr>pool := (pool c)[i := f m]\<rparr>) }"

text \<open>\<open>metadata == idx.deref(this)\<close>, a comparison of pool positions.\<close>

definition same_entry :: "nat \<Rightarrow> nat \<Rightarrow> bool option" where
  "same_entry md i = do { hassert (i \<noteq> NONE_ENTRY); Some (md = i) }"

subsection \<open>Searching the index vectors\<close>

definition akey :: "alias_cache \<Rightarrow> nat \<Rightarrow> node_alias" where
  "akey c i = md_alias (pool c ! i)"

definition ikey :: "alias_cache \<Rightarrow> nat \<Rightarrow> node_id" where
  "ikey c i = get_node_id (pool c ! i)"

text \<open>The comparators dereference elements of the vector: all must be in the pool.\<close>

definition in_pool :: "alias_cache \<Rightarrow> nat sorted_list_set \<Rightarrow> bool" where
  "in_pool c s \<longleftrightarrow> list_all (\<lambda>i. i < length (pool c)) (container s)"

definition find_alias :: "node_alias \<Rightarrow> alias_cache \<Rightarrow> (alias_cache \<times> nat) option" where
  "find_alias a c = do {
     hassert (in_pool c (aliasMap c));
     let (m, it) = sls_find (akey c) a (aliasMap c);
     Some (c\<lparr>aliasMap := m\<rparr>, it)
   }"

definition find_id :: "node_id \<Rightarrow> alias_cache \<Rightarrow> (alias_cache \<times> nat) option" where
  "find_id i c = do {
     hassert (in_pool c (idMap c));
     let (m, it) = sls_find (ikey c) i (idMap c);
     Some (c\<lparr>idMap := m\<rparr>, it)
   }"

definition erase_alias :: "nat \<Rightarrow> alias_cache \<Rightarrow> alias_cache option" where
  "erase_alias it c = do { m \<leftarrow> sls_erase it (aliasMap c); Some (c\<lparr>aliasMap := m\<rparr>) }"

definition erase_id :: "nat \<Rightarrow> alias_cache \<Rightarrow> alias_cache option" where
  "erase_id it c = do { m \<leftarrow> sls_erase it (idMap c); Some (c\<lparr>idMap := m\<rparr>) }"

definition resolve_notresponding :: "node_alias \<Rightarrow> node_alias" where
  "resolve_notresponding stored =
     (if stored AND NOT_RESPONDING = NOT_RESPONDING then NOT_RESPONDING else stored)"

subsection \<open>Construction and clearing\<close>

definition clear_entry :: "nat \<Rightarrow> alias_cache \<Rightarrow> alias_cache" where
  "clear_entry i c = c\<lparr>pool := (pool c)[i := (pool c ! i)\<lparr>newer := NONE_ENTRY, older := freeList c\<rparr>],
     freeList := pool_idx i\<rparr>"

definition clear :: "alias_cache \<Rightarrow> alias_cache" where
  "clear c = fold clear_entry [0..<entries c]
     (c\<lparr>idMap := sls_clear (idMap c), aliasMap := sls_clear (aliasMap c),
        oldest := NONE_ENTRY, newest := NONE_ENTRY, freeList := NONE_ENTRY\<rparr>)"

definition alias_cache_new :: "node_id \<Rightarrow> nat \<Rightarrow> bool \<Rightarrow> alias_cache" where
  "alias_cache_new s n cb = clear
     \<lparr>pool = replicate n metadata_init, aliasMap = sls_new, idMap = sls_new,
      freeList = NONE_ENTRY, oldest = NONE_ENTRY, newest = NONE_ENTRY,
      seed = s, entries = n, has_callback = cb\<rparr>"

subsection \<open>Removal\<close>

text \<open>Unlinking an entry from the list of used entries and pushing it on the free list.\<close>

definition unlink_entry :: "nat \<Rightarrow> alias_cache \<Rightarrow> alias_cache option" where
  "unlink_entry md c = do {
     m \<leftarrow> deref c md;
     c \<leftarrow> (if newer m \<noteq> NONE_ENTRY then update (newer m) (\<lambda>x. x\<lparr>older := older m\<rparr>) c else Some c);
     m \<leftarrow> deref c md;
     c \<leftarrow> (if older m \<noteq> NONE_ENTRY then update (older m) (\<lambda>x. x\<lparr>newer := newer m\<rparr>) c else Some c);
     m \<leftarrow> deref c md;
     is_newest \<leftarrow> same_entry md (newest c);
     let c = (if is_newest then c\<lparr>newest := older m\<rparr> else c);
     is_oldest \<leftarrow> same_entry md (oldest c);
     let c = (if is_oldest then c\<lparr>oldest := newer m\<rparr> else c);
     c \<leftarrow> update md (\<lambda>x. x\<lparr>older := freeList c\<rparr>) c;
     Some (c\<lparr>freeList := pool_idx md\<rparr>)
   }"

definition remove :: "node_alias \<Rightarrow> alias_cache \<Rightarrow> alias_cache option" where
  "remove a c = do {
     (c, it) \<leftarrow> find_alias a c;
     if it \<noteq> sls_end (aliasMap c) then do {
       let md = sls_get (aliasMap c) it;
       m \<leftarrow> deref c md;
       c \<leftarrow> erase_alias it c;
       (c, nit) \<leftarrow> find_id (get_node_id m) c;
       c \<leftarrow> erase_id nit c;
       c \<leftarrow> update md (set_node_id 0) c;
       unlink_entry md c
     } else Some c
   }"

subsection \<open>Adding a mapping\<close>

text \<open>The two blocks of \<open>add\<close> that drop an existing mapping and report it.\<close>

definition drop_reported :: "nat \<Rightarrow> alias_cache \<Rightarrow> (alias_cache \<times> remove_log) option" where
  "drop_reported ins c = do {
     m \<leftarrow> deref c ins;
     let nid = get_node_id m;
     c \<leftarrow> remove (md_alias m) c;
     m \<leftarrow> deref c ins;
     Some (c, if has_callback c then [(nid, md_alias m)] else [])
   }"

definition add_drop_alias :: "node_alias \<Rightarrow> alias_cache \<Rightarrow> (alias_cache \<times> remove_log) option" where
  "add_drop_alias a c = do {
     (c, it) \<leftarrow> find_alias a c;
     let it = (if a = NOT_RESPONDING then sls_end (aliasMap c) else it);
     if it \<noteq> sls_end (aliasMap c) then drop_reported (sls_get (aliasMap c) it) c
     else Some (c, [])
   }"

definition add_drop_id :: "node_id \<Rightarrow> alias_cache \<Rightarrow> (alias_cache \<times> remove_log) option" where
  "add_drop_id i c = do {
     (c, nit) \<leftarrow> find_id i c;
     if nit \<noteq> sls_end (idMap c) then drop_reported (sls_get (idMap c) nit) c
     else Some (c, [])
   }"

text \<open>Taking a slot: from the free list, or by evicting the oldest entry.\<close>

definition unlink_oldest :: "alias_cache \<Rightarrow> (alias_cache \<times> nat) option" where
  "unlink_oldest c = do {
     hassert (oldest c \<noteq> NONE_ENTRY \<and> newest c \<noteq> NONE_ENTRY);
     let ins = oldest c;
     m \<leftarrow> deref c ins;
     let second = newer m;
     c \<leftarrow> (if second \<noteq> NONE_ENTRY then update second (\<lambda>x. x\<lparr>older := NONE_ENTRY\<rparr>) c else Some c);
     is_newest \<leftarrow> same_entry ins (newest c);
     let c = (if is_newest then c\<lparr>newest := NONE_ENTRY\<rparr> else c);
     Some (c\<lparr>oldest := second\<rparr>, ins)
   }"

definition evict_oldest :: "alias_cache \<Rightarrow> (alias_cache \<times> nat \<times> remove_log) option" where
  "evict_oldest c = do {
     (c, ins) \<leftarrow> unlink_oldest c;
     m \<leftarrow> deref c ins;
     (c, it) \<leftarrow> find_alias (md_alias m) c;
     c \<leftarrow> erase_alias it c;
     (c, nit) \<leftarrow> find_id (get_node_id m) c;
     c \<leftarrow> erase_id nit c;
     Some (c, ins, if has_callback c then [(get_node_id m, md_alias m)] else [])
   }"

definition take_slot :: "alias_cache \<Rightarrow> (alias_cache \<times> nat \<times> remove_log) option" where
  "take_slot c =
     (if freeList c \<noteq> NONE_ENTRY then do {
        let ins = freeList c;
        m \<leftarrow> deref c ins;
        Some (c\<lparr>freeList := older m\<rparr>, ins, [])
      } else evict_oldest c)"

text \<open>Filling the slot and linking it as the newest entry.\<close>

definition link_newest :: "nat \<Rightarrow> alias_cache \<Rightarrow> alias_cache option" where
  "link_newest ins c = do {
     let n = pool_idx ins;
     c \<leftarrow> update ins (\<lambda>x. x\<lparr>newer := NONE_ENTRY\<rparr>) c;
     c \<leftarrow> (if newest c = NONE_ENTRY then do {
             hassert (oldest c = NONE_ENTRY);
             c \<leftarrow> update ins (\<lambda>x. x\<lparr>older := NONE_ENTRY\<rparr>) c;
             Some (c\<lparr>oldest := n\<rparr>)
           } else do {
             c \<leftarrow> update ins (\<lambda>x. x\<lparr>older := newest c\<rparr>) c;
             update (newest c) (\<lambda>x. x\<lparr>newer := n\<rparr>) c
           });
     Some (c\<lparr>newest := n\<rparr>)
   }"

definition fill_slot :: "node_id \<Rightarrow> node_alias \<Rightarrow> nat \<Rightarrow> alias_cache \<Rightarrow> alias_cache option" where
  "fill_slot i a ins c = do {
     (a, c) \<leftarrow> (if a = NOT_RESPONDING then do {
                  let a = NOT_RESPONDING OR of_nat ins;
                  (c, it) \<leftarrow> find_alias a c;
                  hassert (it = sls_end (aliasMap c));
                  Some (a, c)
                } else Some (a, c));
     c \<leftarrow> update ins (\<lambda>x. (set_node_id i x)\<lparr>md_alias := a\<rparr>) c;
     let n = pool_idx ins;
     let c = c\<lparr>aliasMap := sls_insert n (aliasMap c), idMap := sls_insert n (idMap c)\<rparr>;
     link_newest ins c
   }"

definition add :: "node_id \<Rightarrow> node_alias \<Rightarrow> alias_cache \<Rightarrow> (alias_cache \<times> remove_log) option" where
  "add i a c = do {
     hassert (i \<noteq> 0);
     hassert (a \<noteq> 0);
     (c, log1) \<leftarrow> add_drop_alias a c;
     (c, log2) \<leftarrow> add_drop_id i c;
     (c, ins, log3) \<leftarrow> take_slot c;
     c \<leftarrow> fill_slot i a ins c;
     Some (c, log1 @ log2 @ log3)
   }"

subsection \<open>Lookups\<close>

definition touch :: "nat \<Rightarrow> alias_cache \<Rightarrow> alias_cache option" where
  "touch md c = do {
     is_newest \<leftarrow> same_entry md (newest c);
     if is_newest then Some c
     else do {
       is_oldest \<leftarrow> same_entry md (oldest c);
       m \<leftarrow> deref c md;
       c \<leftarrow> (if is_oldest then update (newer m) (\<lambda>x. x\<lparr>older := NONE_ENTRY\<rparr>) (c\<lparr>oldest := newer m\<rparr>)
             else update (older m) (\<lambda>x. x\<lparr>newer := newer m\<rparr>) c);
       m \<leftarrow> deref c md;
       c \<leftarrow> update (newer m) (\<lambda>x. x\<lparr>older := older m\<rparr>) c;
       c \<leftarrow> update md (\<lambda>x. x\<lparr>newer := NONE_ENTRY\<rparr>) c;
       c \<leftarrow> update md (\<lambda>x. x\<lparr>older := newest c\<rparr>) c;
       c \<leftarrow> update (newest c) (\<lambda>x. x\<lparr>newer := pool_idx md\<rparr>) c;
       Some (c\<lparr>newest := pool_idx md\<rparr>)
     }
   }"

definition lookup_id :: "node_id \<Rightarrow> alias_cache \<Rightarrow> (alias_cache \<times> node_alias) option" where
  "lookup_id i c = do {
     hassert (i \<noteq> 0);
     (c, it) \<leftarrow> find_id i c;
     if it \<noteq> sls_end (idMap c) then do {
       let md = sls_get (idMap c) it;
       c \<leftarrow> touch md c;
       m \<leftarrow> deref c md;
       Some (c, resolve_notresponding (md_alias m))
     } else Some (c, 0)
   }"

definition lookup_alias :: "node_alias \<Rightarrow> alias_cache \<Rightarrow> (alias_cache \<times> node_id) option" where
  "lookup_alias a c =
     (if a = 0 then Some (c, 0)
      else do {
        (c, it) \<leftarrow> find_alias a c;
        if it \<noteq> sls_end (aliasMap c) then do {
          let md = sls_get (aliasMap c) it;
          c \<leftarrow> touch md c;
          m \<leftarrow> deref c md;
          Some (c, get_node_id m)
        } else Some (c, 0)
      })"

definition retrieve :: "nat \<Rightarrow> alias_cache \<Rightarrow> (node_id \<times> node_alias) option option" where
  "retrieve entry c = do {
     hassert (entry < entries c);
     md \<leftarrow> array_get (pool c) entry;
     Some (if md_alias md = 0 then None
           else Some (get_node_id md, resolve_notresponding (md_alias md)))
   }"

definition next_entry :: "node_id \<Rightarrow> alias_cache \<Rightarrow> (alias_cache \<times> (node_id \<times> node_alias) option) option" where
  "next_entry bound c = do {
     hassert (in_pool c (idMap c));
     let (m, it) = sls_upper_bound (ikey c) bound (idMap c);
     let c = c\<lparr>idMap := m\<rparr>;
     if it = sls_end (idMap c) then Some (c, None)
     else do {
       md \<leftarrow> deref c (sls_get (idMap c) it);
       Some (c, Some (get_node_id md, resolve_notresponding (md_alias md)))
     }
   }"

text \<open>
  \<open>for_each\<close>, as the list of the pairs given to the callback. The walk follows
  the links of the pool; a list of used entries never has more than \<open>entries\<close>
  elements, so \<open>entries\<close> steps are enough unless the links form a cycle.
\<close>

fun for_each_from :: "nat \<Rightarrow> nat \<Rightarrow> alias_cache \<Rightarrow> (node_id \<times> node_alias) list option" where
  "for_each_from fuel i c =
     (if i = NONE_ENTRY then Some []
      else case fuel of
        0 \<Rightarrow> None
      | Suc fuel' \<Rightarrow> do {
          m \<leftarrow> deref c i;
          rest \<leftarrow> for_each_from fuel' (older m) c;
          Some ((get_node_id m, resolve_notresponding (md_alias m)) # rest)
        })"

declare for_each_from.simps [simp del]

definition for_each :: "alias_cache \<Rightarrow> (node_id \<times> node_alias) list option" where
  "for_each c = for_each_from (entries c) (newest c) c"

subsection \<open>Generating an alias\<close>

definition seed_alias :: "u64 \<Rightarrow> node_alias" where
  "seed_alias s = ucast ((s XOR drop_bit 12 s XOR drop_bit 24 s XOR drop_bit 36 s) AND 0xfff)"

definition next_seed :: "u64 \<Rightarrow> u64" where
  "next_seed s = ((push_bit 9 1 + 1) * s + 0x1B0CA37ABA9) AND 0xffffffffffff"

text \<open>The loop of \<open>generate\<close>, with fuel: \<open>None\<close> inside is "still searching".\<close>

fun generate :: "nat \<Rightarrow> alias_cache \<Rightarrow> (alias_cache \<times> node_alias) option" where
  "generate 0 c = None"
| "generate (Suc fuel) c = do {
     let a = seed_alias (seed c);
     let c = c\<lparr>seed := next_seed (seed c)\<rparr>;
     if a = 0 then generate fuel c
     else do {
       (c, i) \<leftarrow> lookup_alias a c;
       if i \<noteq> 0 then generate fuel c else Some (c, a)
     }
   }"

end
