(* ===== verification/LinkedList.thy ===== *)
theory LinkedList
  imports Prelude
begin

section \<open>Index-linked lists\<close>

text \<open>
  Segments of singly and doubly linked lists whose links are indices into an
  array. \<open>chain nx xs n\<close>: following \<open>nx\<close> from the first element of \<open>xs\<close>
  visits \<open>xs\<close> and then leads to \<open>n\<close>. \<open>dlseg bk nx p xs n\<close>: a doubly
  linked segment entered from \<open>p\<close> and left towards \<open>n\<close>.
\<close>

definition hd_or :: "'a list \<Rightarrow> 'a \<Rightarrow> 'a" where
  "hd_or xs n = (case xs of [] \<Rightarrow> n | x # _ \<Rightarrow> x)"

definition last_or :: "'a list \<Rightarrow> 'a \<Rightarrow> 'a" where
  "last_or xs p = (if xs = [] then p else last xs)"

lemma hd_or_simps [simp]: "hd_or [] n = n" "hd_or (x # xs) n = x" "hd_or (xs @ ys) n = hd_or xs (hd_or ys n)"
  by (auto simp: hd_or_def split: list.split)

lemma last_or_simps [simp]: "last_or [] p = p" "last_or (x # xs) p = last_or xs x"
  "last_or (xs @ ys) p = last_or ys (last_or xs p)"
  by (auto simp: last_or_def)

lemma hd_or_in: "xs \<noteq> [] \<Longrightarrow> hd_or xs n \<in> set xs"
  by (cases xs) auto

lemma last_or_in: "xs \<noteq> [] \<Longrightarrow> last_or xs p \<in> set xs"
  by (simp add: last_or_def)

lemma hd_or_in_or: "hd_or xs n \<in> insert n (set xs)"
  by (cases xs) auto

lemma last_or_in_or: "last_or xs p \<in> insert p (set xs)"
  by (simp add: last_or_def)

fun chain :: "('a \<Rightarrow> 'a) \<Rightarrow> 'a list \<Rightarrow> 'a \<Rightarrow> bool" where
  "chain nx [] n = True"
| "chain nx (x # xs) n = (nx x = hd_or xs n \<and> chain nx xs n)"

lemma chain_upd [simp]: "x \<notin> set xs \<Longrightarrow> chain (nx(x := v)) xs n = chain nx xs n"
  by (induction xs) auto

lemma chain_cong: "(\<And>x. x \<in> set xs \<Longrightarrow> nx x = nx' x) \<Longrightarrow> chain nx xs n = chain nx' xs n"
  by (induction xs) auto

fun dlseg :: "('a \<Rightarrow> 'a) \<Rightarrow> ('a \<Rightarrow> 'a) \<Rightarrow> 'a \<Rightarrow> 'a list \<Rightarrow> 'a \<Rightarrow> bool" where
  "dlseg bk nx p [] n = True"
| "dlseg bk nx p (x # xs) n = (bk x = p \<and> nx x = hd_or xs n \<and> dlseg bk nx x xs n)"

lemma dlseg_append [simp]:
  "dlseg bk nx p (xs @ ys) n
    \<longleftrightarrow> dlseg bk nx p xs (hd_or ys n) \<and> dlseg bk nx (last_or xs p) ys n"
  by (induction xs arbitrary: p) auto

lemma dlseg_upd [simp]:
  "x \<notin> set xs \<Longrightarrow> dlseg (bk(x := v)) nx p xs n = dlseg bk nx p xs n"
  "x \<notin> set xs \<Longrightarrow> dlseg bk (nx(x := v)) p xs n = dlseg bk nx p xs n"
  by (induction xs arbitrary: p) auto

lemma dlseg_cong:
  "(\<And>x. x \<in> set xs \<Longrightarrow> bk x = bk' x) \<Longrightarrow> (\<And>x. x \<in> set xs \<Longrightarrow> nx x = nx' x) \<Longrightarrow>
   dlseg bk nx p xs n = dlseg bk' nx' p xs n"
  by (induction xs arbitrary: p) auto

text \<open>Relinking the ends of a segment.\<close>

lemma dlseg_set_last:
  assumes "dlseg bk nx p xs n" "distinct xs" "xs \<noteq> []"
  shows "dlseg bk (nx(last_or xs p := n')) p xs n'"
proof -
  obtain ys y where xs: "xs = ys @ [y]" using assms(3) by (cases xs rule: rev_cases) auto
  then show ?thesis using assms by auto
qed

lemma dlseg_set_first:
  assumes "dlseg bk nx p xs n" "distinct xs" "xs \<noteq> []"
  shows "dlseg (bk(hd_or xs n := p')) nx p' xs n"
  using assms by (cases xs) auto

lemma dlseg_nx: "dlseg bk nx p (xs @ x # ys) n \<Longrightarrow> nx x = hd_or ys n"
  by simp

lemma dlseg_bk: "dlseg bk nx p (xs @ x # ys) n \<Longrightarrow> bk x = last_or xs p"
  by simp

lemma dlseg_chain: "dlseg bk nx p xs n \<Longrightarrow> chain nx xs n"
  by (induction xs arbitrary: p) auto

text \<open>Taking an element out of the middle.\<close>

lemma dlseg_unlink:
  assumes seg: "dlseg bk nx e (xs @ x # ys) e" and d: "distinct (xs @ x # ys)" and e: "e \<notin> set (xs @ x # ys)"
  shows "dlseg (if ys = [] then bk else bk(hd_or ys e := last_or xs e))
               (if xs = [] then nx else nx(last_or xs e := hd_or ys e)) e (xs @ ys) e"
proof -
  have 1: "dlseg bk nx e xs x" "dlseg bk nx x ys e" using seg by auto
  have xs: "dlseg bk (if xs = [] then nx else nx(last_or xs e := hd_or ys e)) e xs (hd_or ys e)"
    using dlseg_set_last [OF 1(1)] d by auto
  have ys: "dlseg (if ys = [] then bk else bk(hd_or ys e := last_or xs e)) nx (last_or xs e) ys e"
    using dlseg_set_first [OF 1(2)] d by (auto simp del: last_or_simps hd_or_simps)
  have h: "ys \<noteq> [] \<Longrightarrow> hd_or ys e \<notin> set xs" using d hd_or_in [of ys e] by auto
  have l: "xs \<noteq> [] \<Longrightarrow> last_or xs e \<notin> set ys" using d last_or_in [of xs e] by auto
  show ?thesis using xs ys h l by (auto simp del: last_or_simps hd_or_simps)
qed

end
