(* ===== verification/AliasCacheInv.thy ===== *)
theory AliasCacheInv
  imports AliasCache LinkedList
begin

section \<open>The alias cache: representation invariant\<close>

text \<open>
  \<open>ac_links\<close> says that the links of the pool form a doubly linked list of
  the used entries, newest first, and a free list of the others; \<open>ac_maps\<close>
  that both index vectors hold exactly the used entries, under distinct keys.
  Every operation of the cache is shown to succeed under \<open>ac_repr\<close> and to
  keep it, with the list of used entries it leaves.
\<close>

definition nw :: "alias_cache \<Rightarrow> nat \<Rightarrow> nat" where
  "nw c i = newer (pool c ! i)"

definition ol :: "alias_cache \<Rightarrow> nat \<Rightarrow> nat" where
  "ol c i = older (pool c ! i)"

definition good_alias :: "nat \<Rightarrow> node_alias \<Rightarrow> bool" where
  "good_alias i a \<longleftrightarrow> a \<noteq> 0 \<and> (unat a < 4096 \<or> a = NOT_RESPONDING OR of_nat i)"

definition ac_links :: "alias_cache \<Rightarrow> nat list \<Rightarrow> nat list \<Rightarrow> bool" where
  "ac_links c lru free \<longleftrightarrow>
     length (pool c) = entries c \<and> entries c \<le> 4096 \<and>
     distinct (lru @ free) \<and> set (lru @ free) = {..<entries c} \<and>
     dlseg (nw c) (ol c) NONE_ENTRY lru NONE_ENTRY \<and>
     newest c = hd_or lru NONE_ENTRY \<and> oldest c = last_or lru NONE_ENTRY \<and>
     chain (ol c) free NONE_ENTRY \<and> freeList c = hd_or free NONE_ENTRY"

definition ac_maps :: "alias_cache \<Rightarrow> nat set \<Rightarrow> bool" where
  "ac_maps c used \<longleftrightarrow>
     sls_ok (akey c) (aliasMap c) \<and> sls_elems (aliasMap c) = used \<and> inj_on (akey c) used \<and>
     sls_ok (ikey c) (idMap c) \<and> sls_elems (idMap c) = used \<and> inj_on (ikey c) used"

definition ac_data :: "alias_cache \<Rightarrow> nat set \<Rightarrow> bool" where
  "ac_data c used \<longleftrightarrow> (\<forall>i \<in> used. good_alias i (akey c i) \<and> ikey c i \<noteq> 0)"

definition ac_repr :: "alias_cache \<Rightarrow> nat list \<Rightarrow> nat list \<Rightarrow> bool" where
  "ac_repr c lru free \<longleftrightarrow> ac_links c lru free \<and> ac_maps c (set lru) \<and> ac_data c (set lru)"

definition ac_inv :: "alias_cache \<Rightarrow> bool" where
  "ac_inv c \<longleftrightarrow> (\<exists>lru free. ac_repr c lru free)"

text \<open>What the operations that only relink leave alone.\<close>

definition same_data :: "alias_cache \<Rightarrow> alias_cache \<Rightarrow> bool" where
  "same_data c d \<longleftrightarrow> akey d = akey c \<and> ikey d = ikey c \<and> aliasMap d = aliasMap c \<and>
     idMap d = idMap c \<and> seed d = seed c \<and> entries d = entries c \<and> has_callback d = has_callback c"

subsection \<open>Field updates of one pool entry\<close>

definition upd :: "nat \<Rightarrow> (metadata \<Rightarrow> metadata) \<Rightarrow> alias_cache \<Rightarrow> alias_cache" where
  "upd i f c = c\<lparr>pool := (pool c)[i := f (pool c ! i)]\<rparr>"

lemma upd_fields [simp]:
  "length (pool (upd i f c)) = length (pool c)" "entries (upd i f c) = entries c"
  "newest (upd i f c) = newest c" "oldest (upd i f c) = oldest c" "freeList (upd i f c) = freeList c"
  "aliasMap (upd i f c) = aliasMap c" "idMap (upd i f c) = idMap c" "seed (upd i f c) = seed c"
  "has_callback (upd i f c) = has_callback c"
  by (simp_all add: upd_def)

lemma pool_upd: "i < length (pool c) \<Longrightarrow> pool (upd i f c) ! j = (if j = i then f (pool c ! i) else pool c ! j)"
  by (simp add: upd_def nth_list_update)

lemma pool_updates [simp]:
  "pool (c\<lparr>newest := n\<rparr>) = pool c" "pool (c\<lparr>oldest := n\<rparr>) = pool c" "pool (c\<lparr>freeList := n\<rparr>) = pool c"
  "pool (c\<lparr>aliasMap := m\<rparr>) = pool c" "pool (c\<lparr>idMap := m\<rparr>) = pool c" "pool (c\<lparr>seed := s\<rparr>) = pool c"
  by simp_all

lemma get_node_id_links [simp]:
  "get_node_id (m\<lparr>older := v\<rparr>) = get_node_id m" "get_node_id (m\<lparr>newer := v\<rparr>) = get_node_id m"
  "get_node_id (m\<lparr>md_alias := a\<rparr>) = get_node_id m"
  by (simp_all add: get_node_id_def)

lemma set_node_id_links [simp]:
  "newer (set_node_id i m) = newer m" "older (set_node_id i m) = older m"
  "md_alias (set_node_id i m) = md_alias m"
  by (simp_all add: set_node_id_def)

lemma keys_upd_link [simp]:
  assumes "i < length (pool c)"
  shows "nw (upd i (\<lambda>x. x\<lparr>older := v\<rparr>) c) = nw c" "ol (upd i (\<lambda>x. x\<lparr>older := v\<rparr>) c) = (ol c)(i := v)"
    "akey (upd i (\<lambda>x. x\<lparr>older := v\<rparr>) c) = akey c" "ikey (upd i (\<lambda>x. x\<lparr>older := v\<rparr>) c) = ikey c"
    "nw (upd i (\<lambda>x. x\<lparr>newer := v\<rparr>) c) = (nw c)(i := v)" "ol (upd i (\<lambda>x. x\<lparr>newer := v\<rparr>) c) = ol c"
    "akey (upd i (\<lambda>x. x\<lparr>newer := v\<rparr>) c) = akey c" "ikey (upd i (\<lambda>x. x\<lparr>newer := v\<rparr>) c) = ikey c"
  using assms by (auto simp: nw_def ol_def akey_def ikey_def pool_upd fun_eq_iff)

lemma keys_updates [simp]:
  "nw (c\<lparr>newest := n\<rparr>) = nw c" "nw (c\<lparr>oldest := n\<rparr>) = nw c" "nw (c\<lparr>freeList := n\<rparr>) = nw c"
  "nw (c\<lparr>aliasMap := m\<rparr>) = nw c" "nw (c\<lparr>idMap := m\<rparr>) = nw c" "nw (c\<lparr>seed := s\<rparr>) = nw c"
  "ol (c\<lparr>newest := n\<rparr>) = ol c" "ol (c\<lparr>oldest := n\<rparr>) = ol c" "ol (c\<lparr>freeList := n\<rparr>) = ol c"
  "ol (c\<lparr>aliasMap := m\<rparr>) = ol c" "ol (c\<lparr>idMap := m\<rparr>) = ol c" "ol (c\<lparr>seed := s\<rparr>) = ol c"
  "akey (c\<lparr>newest := n\<rparr>) = akey c" "akey (c\<lparr>oldest := n\<rparr>) = akey c" "akey (c\<lparr>freeList := n\<rparr>) = akey c"
  "akey (c\<lparr>aliasMap := m\<rparr>) = akey c" "akey (c\<lparr>idMap := m\<rparr>) = akey c" "akey (c\<lparr>seed := s\<rparr>) = akey c"
  "ikey (c\<lparr>newest := n\<rparr>) = ikey c" "ikey (c\<lparr>oldest := n\<rparr>) = ikey c" "ikey (c\<lparr>freeList := n\<rparr>) = ikey c"
  "ikey (c\<lparr>aliasMap := m\<rparr>) = ikey c" "ikey (c\<lparr>idMap := m\<rparr>) = ikey c" "ikey (c\<lparr>seed := s\<rparr>) = ikey c"
  by (simp_all add: nw_def ol_def akey_def ikey_def fun_eq_iff)

lemma deref_in:
  assumes "length (pool c) \<le> 4096" "i < length (pool c)"
  shows "deref c i = Some (pool c ! i)"
  using assms by (simp add: deref_def NONE_ENTRY_def)

lemma update_in:
  assumes "length (pool c) \<le> 4096" "i < length (pool c)"
  shows "update i f c = Some (upd i f c)"
  using assms by (simp add: update_def deref_in upd_def)

lemma fields_of_pool:
  "newer (pool c ! i) = nw c i" "older (pool c ! i) = ol c i" "md_alias (pool c ! i) = akey c i"
  "get_node_id (pool c ! i) = ikey c i"
  by (simp_all add: nw_def ol_def akey_def ikey_def)

lemma same_entry_in: "j \<noteq> NONE_ENTRY \<Longrightarrow> same_entry i j = Some (i = j)"
  by (simp add: same_entry_def)

lemma pool_idx_in: "i < 4096 \<Longrightarrow> pool_idx i = i"
  by (simp add: pool_idx_def)

lemma below_none: "i < 4096 \<Longrightarrow> i \<noteq> NONE_ENTRY"
  by (simp add: NONE_ENTRY_def)

lemmas ac_step_simps = deref_in update_in fields_of_pool same_entry_in pool_idx_in

subsection \<open>Unlinking\<close>

lemma ac_links_bounds:
  assumes "ac_links c lru free" "i \<in> set lru \<union> set free"
  shows "i < length (pool c)" "i < 4096" "i \<noteq> NONE_ENTRY" "length (pool c) \<le> 4096"
  using assms by (auto simp: ac_links_def NONE_ENTRY_def)

lemma ac_links_none:
  assumes "ac_links c lru free"
  shows "NONE_ENTRY \<notin> set lru" "NONE_ENTRY \<notin> set free"
  using ac_links_bounds(3) [OF assms] by auto

lemma unlink_entry_ok:
  assumes l: "ac_links c (xs @ x # ys) free"
  shows "\<exists>d. unlink_entry x c = Some d \<and> ac_links d (xs @ ys) (x # free) \<and> same_data c d"
proof -
  have mem: "i < length (pool c)" "i < entries c" "i \<noteq> NONE_ENTRY" "i < 4096"
    if "i \<in> set (xs @ x # ys) \<union> set free" for i
    using ac_links_bounds [OF l, of i] that l by (auto simp: ac_links_def)
  have x: "x < length (pool c)" "x < entries c" "x \<noteq> NONE_ENTRY" "x < 4096"
    using mem [of x] by auto
  have len: "length (pool c) \<le> 4096" using l by (simp add: ac_links_def)
  note l' = l [unfolded ac_links_def]
  note step = unlink_entry_def ac_step_simps same_data_def ac_links_def insert_commute
  show ?thesis
  proof (cases xs rule: rev_cases)
    case Nil
    show ?thesis
    proof (cases ys)
      case Nil2: Nil
      show ?thesis using l' x len Nil Nil2 by (simp add: step)
    next
      case (Cons b zs)
      then have b: "b < length (pool c)" "b < entries c" "b \<noteq> NONE_ENTRY" "b < 4096"
        "last_or zs b \<noteq> NONE_ENTRY" "last_or zs b \<noteq> x"
        using mem [of b] mem [of "last_or zs b"] last_or_in_or [of zs b] l' by auto
      show ?thesis using l' x b len Nil Cons by (simp add: step)
    qed
  next
    case (snoc ws a)
    then have a: "a < length (pool c)" "a < entries c" "a \<noteq> NONE_ENTRY" "a < 4096"
      "hd_or ws a \<noteq> NONE_ENTRY" "hd_or ws a \<noteq> x"
      using mem [of a] mem [of "hd_or ws a"] hd_or_in_or [of ws a] l' by auto
    show ?thesis
    proof (cases ys)
      case Nil
      show ?thesis using l' x a len snoc Nil by (simp add: step)
    next
      case (Cons b zs)
      then have b: "b < length (pool c)" "b < entries c" "b \<noteq> NONE_ENTRY" "b < 4096"
        "last_or zs b \<noteq> NONE_ENTRY" "last_or zs b \<noteq> x"
        using mem [of b] mem [of "last_or zs b"] last_or_in_or [of zs b] l' by auto
      have "b \<noteq> a" "b \<noteq> x" using l' snoc Cons by auto
      with b show ?thesis using l' x a len snoc Cons by (simp add: step)
    qed
  qed
qed

subsection \<open>Moving an entry to the front\<close>

lemma touch_links:
  assumes l: "ac_links c (xs @ x # ys) free"
  shows "\<exists>d. touch x c = Some d \<and> ac_links d (x # xs @ ys) free \<and> same_data c d"
proof -
  have mem: "i < length (pool c)" "i < entries c" "i \<noteq> NONE_ENTRY" "i < 4096"
    if "i \<in> set (xs @ x # ys) \<union> set free" for i
    using ac_links_bounds [OF l, of i] that l by (auto simp: ac_links_def)
  have x: "x < length (pool c)" "x < entries c" "x \<noteq> NONE_ENTRY" "x < 4096"
    using mem [of x] by auto
  have len: "length (pool c) \<le> 4096" using l by (simp add: ac_links_def)
  note l' = l [unfolded ac_links_def]
  note step = touch_def ac_step_simps same_data_def ac_links_def insert_commute
  show ?thesis
  proof (cases xs rule: rev_cases)
    case Nil
    show ?thesis using l' x len Nil by (simp add: step)
  next
    case (snoc ws a)
    then have a: "a < length (pool c)" "a < entries c" "a \<noteq> NONE_ENTRY" "a < 4096" "a \<noteq> x"
      using mem [of a] l' by auto
    show ?thesis
    proof (cases ys)
      case ys: Nil
      show ?thesis
      proof (cases ws)
        case Nil
        show ?thesis using l' x a len snoc ys Nil by (simp add: step)
      next
        case (Cons w vs)
        then have w: "w < length (pool c)" "w < entries c" "w \<noteq> NONE_ENTRY" "w < 4096" "w \<noteq> x" "w \<noteq> a"
          using mem [of w] l' snoc by auto
        show ?thesis using l' x a w len snoc ys Cons by (simp add: step)
      qed
    next
      case ys: (Cons b zs)
      then have b: "b < length (pool c)" "b < entries c" "b \<noteq> NONE_ENTRY" "b < 4096" "b \<noteq> x" "b \<noteq> a"
        "last_or zs b \<noteq> NONE_ENTRY" "last_or zs b \<noteq> x"
        using mem [of b] mem [of "last_or zs b"] last_or_in_or [of zs b] l' snoc by auto
      show ?thesis
      proof (cases ws)
        case Nil
        show ?thesis using l' x a b len snoc ys Nil by (simp add: step)
      next
        case (Cons w vs)
        then have w: "w < length (pool c)" "w < entries c" "w \<noteq> NONE_ENTRY" "w < 4096" "w \<noteq> x" "w \<noteq> a" "w \<noteq> b"
          using mem [of w] l' snoc ys by auto
        show ?thesis using l' x a b w len snoc ys Cons by (simp add: step)
      qed
    qed
  qed
qed

subsection \<open>Searching\<close>

lemma sls_ok_cong:
  assumes "\<And>d. d \<in> sls_elems s \<Longrightarrow> key d = key' d"
  shows "sls_ok key s \<longleftrightarrow> sls_ok key' s"
proof -
  have "map key (container s) = map key' (container s)"
    using assms by (simp add: sls_elems_def)
  then show ?thesis by (simp only: sls_ok_def)
qed

lemma in_pool_elems: "in_pool c s \<longleftrightarrow> (\<forall>i \<in> sls_elems s. i < length (pool c))"
  by (simp add: in_pool_def sls_elems_def list_all_iff)

text \<open>Searching and erasing in one index vector, as the contract of the vector gives it.\<close>

lemma find_erase_map:
  assumes ok: "sls_ok key s" and inj: "inj_on key (sls_elems s)" and f: "sls_find key k s = (m, it)"
  shows "sls_ok key m" "sls_elems m = sls_elems s"
    "k \<notin> key ` sls_elems s \<Longrightarrow> it = sls_end m"
    "d \<in> sls_elems s \<Longrightarrow> key d = k \<Longrightarrow> it \<noteq> sls_end m \<and> sls_get m it = d \<and>
       (\<exists>u. sls_erase it m = Some u \<and> sls_ok key u \<and> sls_elems u = sls_elems s - {d})"
  using sls.find_ok [OF ok f] sls.find_miss [OF ok f] sls.find_hit [OF ok f _ inj]
    sls.erase_ok [OF ok f _ inj] by auto

lemma find_alias_ok:
  assumes m: "ac_maps c used" and b: "\<And>i. i \<in> used \<Longrightarrow> i < length (pool c)"
  obtains m it where "find_alias a c = Some (c\<lparr>aliasMap := m\<rparr>, it)"
    "ac_maps (c\<lparr>aliasMap := m\<rparr>) used"
    "a \<notin> akey c ` used \<Longrightarrow> it = sls_end m"
    "\<And>d. d \<in> used \<Longrightarrow> akey c d = a \<Longrightarrow> it \<noteq> sls_end m \<and> sls_get m it = d \<and>
       (\<exists>u. sls_erase it m = Some u \<and> sls_ok (akey c) u \<and> sls_elems u = used - {d})"
proof -
  obtain m it where f: "sls_find (akey c) a (aliasMap c) = (m, it)" by fastforce
  have o: "sls_ok (akey c) (aliasMap c)" "inj_on (akey c) (sls_elems (aliasMap c))"
    "sls_elems (aliasMap c) = used"
    using m by (auto simp: ac_maps_def)
  note r = find_erase_map [OF o(1,2) f, unfolded o(3)]
  have "find_alias a c = Some (c\<lparr>aliasMap := m\<rparr>, it)"
    using b by (simp add: find_alias_def in_pool_elems o(3) f)
  moreover have "ac_maps (c\<lparr>aliasMap := m\<rparr>) used"
    using m r(1,2) by (simp add: ac_maps_def)
  ultimately show ?thesis using r(3,4) that by blast
qed

lemma find_id_ok:
  assumes m: "ac_maps c used" and b: "\<And>i. i \<in> used \<Longrightarrow> i < length (pool c)"
  obtains m it where "find_id a c = Some (c\<lparr>idMap := m\<rparr>, it)"
    "ac_maps (c\<lparr>idMap := m\<rparr>) used"
    "a \<notin> ikey c ` used \<Longrightarrow> it = sls_end m"
    "\<And>d. d \<in> used \<Longrightarrow> ikey c d = a \<Longrightarrow> it \<noteq> sls_end m \<and> sls_get m it = d \<and>
       (\<exists>u. sls_erase it m = Some u \<and> sls_ok (ikey c) u \<and> sls_elems u = used - {d})"
proof -
  obtain m it where f: "sls_find (ikey c) a (idMap c) = (m, it)" by fastforce
  have o: "sls_ok (ikey c) (idMap c)" "inj_on (ikey c) (sls_elems (idMap c))"
    "sls_elems (idMap c) = used"
    using m by (auto simp: ac_maps_def)
  note r = find_erase_map [OF o(1,2) f, unfolded o(3)]
  have "find_id a c = Some (c\<lparr>idMap := m\<rparr>, it)"
    using b by (simp add: find_id_def in_pool_elems o(3) f)
  moreover have "ac_maps (c\<lparr>idMap := m\<rparr>) used"
    using m r(1,2) by (simp add: ac_maps_def)
  ultimately show ?thesis using r(3,4) that by blast
qed

text \<open>What no operation changes but \<open>generate\<close>.\<close>

definition same_config :: "alias_cache \<Rightarrow> alias_cache \<Rightarrow> bool" where
  "same_config c d \<longleftrightarrow> seed d = seed c \<and> entries d = entries c \<and> has_callback d = has_callback c"

lemma same_config_trans: "same_config a b \<Longrightarrow> same_config b c \<Longrightarrow> same_config a c"
  by (simp add: same_config_def)

lemma ac_links_cong:
  assumes "nw d = nw c" "ol d = ol c" "length (pool d) = length (pool c)" "entries d = entries c"
    "newest d = newest c" "oldest d = oldest c" "freeList d = freeList c"
  shows "ac_links d lru free \<longleftrightarrow> ac_links c lru free"
  using assms by (simp add: ac_links_def)

text \<open>Erasing one entry from both index vectors.\<close>

lemma erase_both:
  assumes m: "ac_maps c used" and b: "\<And>i. i \<in> used \<Longrightarrow> i < length (pool c)"
    and x: "x \<in> used"
  shows "\<exists>am it im nit u v. find_alias (akey c x) c = Some (c\<lparr>aliasMap := am\<rparr>, it) \<and>
      it \<noteq> sls_end am \<and> sls_get am it = x \<and> sls_erase it am = Some u \<and>
      find_id (ikey c x) (c\<lparr>aliasMap := u\<rparr>) = Some (c\<lparr>aliasMap := u, idMap := im\<rparr>, nit) \<and>
      sls_erase nit im = Some v \<and> ac_maps (c\<lparr>aliasMap := u, idMap := v\<rparr>) (used - {x})"
proof -
  obtain am it u where a: "find_alias (akey c x) c = Some (c\<lparr>aliasMap := am\<rparr>, it)"
    "it \<noteq> sls_end am" "sls_get am it = x" "sls_erase it am = Some u"
    "sls_ok (akey c) u" "sls_elems u = used - {x}"
    using find_alias_ok [OF m b, of "akey c x"] x by metis
  obtain im nit where f: "sls_find (ikey c) (ikey c x) (idMap c) = (im, nit)" by fastforce
  have o: "sls_ok (ikey c) (idMap c)" "inj_on (ikey c) (sls_elems (idMap c))"
    "sls_elems (idMap c) = used" "inj_on (akey c) used"
    using m by (auto simp: ac_maps_def)
  obtain v where v: "sls_erase nit im = Some v" "sls_ok (ikey c) v" "sls_elems v = used - {x}"
    using find_erase_map(4) [OF o(1,2) f, of x] x o(3) by auto
  have "find_id (ikey c x) (c\<lparr>aliasMap := u\<rparr>) = Some (c\<lparr>aliasMap := u, idMap := im\<rparr>, nit)"
    using b by (simp add: find_id_def in_pool_elems o(3) f)
  moreover have "ac_maps (c\<lparr>aliasMap := u, idMap := v\<rparr>) (used - {x})"
    using a(5,6) v o by (simp add: ac_maps_def inj_on_diff)
  ultimately show ?thesis using a v by blast
qed

lemma get_set_node_id:
  assumes "unat i < 2 ^ 48"
  shows "get_node_id (set_node_id i m) = i"
proof -
  have i: "take_bit 48 i = i" using assms by (rule take_bit_unat_less)
  have "get_node_id (set_node_id i m) = take_bit 48 i"
    by (rule bit_word_eqI)
      (auto simp: get_node_id_def set_node_id_def Let_def and_literal_mask bit_simps)
  with i show ?thesis by simp
qed

end
