(* ===== verification/AliasCacheOps.thy ===== *)
theory AliasCacheOps
  imports AliasCacheInv
begin

section \<open>The alias cache: every operation keeps the invariant\<close>

text \<open>
  One lemma per operation of the cache: under \<open>ac_repr\<close> it succeeds, and the
  used entries, the free entries and the stored pairs after it are given.
\<close>

lemma ac_reprD:
  assumes "ac_repr c lru free"
  shows "ac_links c lru free" "ac_maps c (set lru)" "ac_data c (set lru)"
    "distinct lru" "distinct free" "set lru \<inter> set free = {}"
    "length (pool c) = entries c" "entries c \<le> 4096" "set lru \<union> set free = {..<entries c}"
  using assms by (auto simp: ac_repr_def ac_links_def)

lemma ac_repr_mem:
  assumes "ac_repr c lru free" "i \<in> set lru \<union> set free"
  shows "i < length (pool c)" "i < entries c" "i < 4096" "i \<noteq> NONE_ENTRY"
  using ac_links_bounds [of c lru free i] ac_reprD [OF assms(1)] assms(2) by auto

lemma ac_maps_cong:
  assumes "ac_maps c used" "aliasMap d = aliasMap c" "idMap d = idMap c"
    "\<And>i. i \<in> used \<Longrightarrow> akey d i = akey c i" "\<And>i. i \<in> used \<Longrightarrow> ikey d i = ikey c i"
  shows "ac_maps d used"
proof -
  have "sls_ok (akey d) (aliasMap d)" "sls_ok (ikey d) (idMap d)"
    using assms sls_ok_cong [of "aliasMap c" "akey d" "akey c"] sls_ok_cong [of "idMap c" "ikey d" "ikey c"]
    by (auto simp: ac_maps_def)
  moreover have "inj_on (akey d) used" "inj_on (ikey d) used"
    using assms by (auto simp: ac_maps_def cong: inj_on_cong)
  ultimately show ?thesis using assms by (simp add: ac_maps_def)
qed

lemma ac_data_cong:
  "ac_data c used \<Longrightarrow> (\<And>i. i \<in> used \<Longrightarrow> akey d i = akey c i) \<Longrightarrow>
   (\<And>i. i \<in> used \<Longrightarrow> ikey d i = ikey c i) \<Longrightarrow> ac_data d used"
  by (simp add: ac_data_def)

lemma ac_data_mono: "ac_data c used \<Longrightarrow> used' \<subseteq> used \<Longrightarrow> ac_data c used'"
  by (auto simp: ac_data_def)

text \<open>A change of the map vectors that keeps their contract changes nothing else.\<close>

lemma ac_links_maps [simp]:
  "ac_links (c\<lparr>aliasMap := m\<rparr>) lru free = ac_links c lru free"
  "ac_links (c\<lparr>idMap := m\<rparr>) lru free = ac_links c lru free"
  by (rule ac_links_cong; simp)+

lemma ac_data_maps [simp]:
  "ac_data (c\<lparr>aliasMap := m\<rparr>) used = ac_data c used" "ac_data (c\<lparr>idMap := m\<rparr>) used = ac_data c used"
  by (simp_all add: ac_data_def)

lemma keys_set_node_id:
  assumes "i < length (pool c)"
  shows "nw (upd i (set_node_id v) c) = nw c" "ol (upd i (set_node_id v) c) = ol c"
    "akey (upd i (set_node_id v) c) = akey c"
    "ikey (upd i (set_node_id v) c) = (ikey c)(i := get_node_id (set_node_id v (pool c ! i)))"
  using assms by (auto simp: nw_def ol_def akey_def ikey_def pool_upd fun_eq_iff)

lemma get_node_id_0 [simp]: "get_node_id (set_node_id 0 m) = 0"
  by (rule get_set_node_id) simp

subsection \<open>remove\<close>

lemma remove_miss:
  assumes r: "ac_repr c lru free" and a: "a \<notin> akey c ` set lru"
  shows "\<exists>d. remove a c = Some d \<and> ac_repr d lru free \<and> pool d = pool c \<and> same_config c d"
proof -
  note D = ac_reprD [OF r]
  obtain m it where f: "find_alias a c = Some (c\<lparr>aliasMap := m\<rparr>, it)"
    "ac_maps (c\<lparr>aliasMap := m\<rparr>) (set lru)" "it = sls_end m"
    using find_alias_ok [OF D(2), of a] ac_repr_mem [OF r] a by (metis Un_iff)
  then have "remove a c = Some (c\<lparr>aliasMap := m\<rparr>)"
    by (simp add: remove_def)
  moreover have "ac_repr (c\<lparr>aliasMap := m\<rparr>) lru free"
    using D f by (simp add: ac_repr_def)
  ultimately show ?thesis by (auto simp: same_config_def)
qed

lemma remove_hit:
  assumes r: "ac_repr c (xs @ x # ys) free"
  shows "\<exists>d. remove (akey c x) c = Some d \<and> ac_repr d (xs @ ys) (x # free) \<and>
    akey d = akey c \<and> ikey d = (ikey c)(x := 0) \<and> same_config c d"
proof -
  let ?lru = "xs @ x # ys"
  note D = ac_reprD [OF r]
  have x: "x < length (pool c)" "x < 4096" "x \<noteq> NONE_ENTRY" "length (pool c) \<le> 4096"
    using ac_repr_mem [OF r, of x] D by auto
  have bnd: "\<And>i. i \<in> set ?lru \<Longrightarrow> i < length (pool c)" using ac_repr_mem [OF r] by blast
  from erase_both [OF D(2) bnd, of x] obtain am it im nit u v where
    e: "find_alias (akey c x) c = Some (c\<lparr>aliasMap := am\<rparr>, it)"
      "it \<noteq> sls_end am" "sls_get am it = x" "sls_erase it am = Some u"
      "find_id (ikey c x) (c\<lparr>aliasMap := u\<rparr>) = Some (c\<lparr>aliasMap := u, idMap := im\<rparr>, nit)"
      "sls_erase nit im = Some v" "ac_maps (c\<lparr>aliasMap := u, idMap := v\<rparr>) (set ?lru - {x})"
    by auto
  let ?c1 = "c\<lparr>aliasMap := u, idMap := v\<rparr>"
  let ?c2 = "upd x (set_node_id 0) ?c1"
  have k: "nw ?c2 = nw c" "ol ?c2 = ol c" "akey ?c2 = akey c" "ikey ?c2 = (ikey c)(x := 0)"
    using x keys_set_node_id [of x ?c1 0] by simp_all
  have "ac_links ?c2 ?lru free"
    using D(1) k by (subst ac_links_cong [of _ c]) simp_all
  from unlink_entry_ok [OF this] obtain d where
    d: "unlink_entry x ?c2 = Some d" "ac_links d (xs @ ys) (x # free)" "same_data ?c2 d" by blast
  have kd: "akey d = akey c" "ikey d = (ikey c)(x := 0)" "aliasMap d = u" "idMap d = v"
    "same_config c d"
    using d(3) k by (simp_all add: same_data_def same_config_def)
  have nx: "i \<noteq> x" if "i \<in> set (xs @ ys)" for i using D(4) that by auto
  have "remove (akey c x) c = Some d"
    using e d(1) x by (simp add: remove_def deref_in fields_of_pool erase_alias_def erase_id_def update_in)
  moreover have "ac_maps d (set (xs @ ys))"
  proof -
    have "set ?lru - {x} = set (xs @ ys)" using D(4) by auto
    with e(7) have "ac_maps ?c1 (set (xs @ ys))" by simp
    then show ?thesis
      by (rule ac_maps_cong) (simp_all add: kd nx)
  qed
  moreover have "ac_data d (set (xs @ ys))"
  proof -
    have "ac_data c (set (xs @ ys))" using D(3) by (rule ac_data_mono) auto
    then show ?thesis
      by (rule ac_data_cong) (simp_all add: kd nx)
  qed
  ultimately show ?thesis
    using d(2) kd by (simp add: ac_repr_def)
qed

subsection \<open>Taking a slot\<close>

text \<open>The state between taking a slot and filling it: one entry is in no list.\<close>

definition ac_hole :: "alias_cache \<Rightarrow> nat list \<Rightarrow> nat list \<Rightarrow> nat \<Rightarrow> bool" where
  "ac_hole c lru free x \<longleftrightarrow>
     length (pool c) = entries c \<and> entries c \<le> 4096 \<and>
     distinct (x # lru @ free) \<and> set (x # lru @ free) = {..<entries c} \<and>
     dlseg (nw c) (ol c) NONE_ENTRY lru NONE_ENTRY \<and>
     newest c = hd_or lru NONE_ENTRY \<and> oldest c = last_or lru NONE_ENTRY \<and>
     chain (ol c) free NONE_ENTRY \<and> freeList c = hd_or free NONE_ENTRY"

lemma ac_hole_mem:
  assumes "ac_hole c lru free x" "i \<in> insert x (set lru \<union> set free)"
  shows "i < length (pool c)" "i < entries c" "i < 4096" "i \<noteq> NONE_ENTRY" "length (pool c) \<le> 4096"
proof -
  have "insert x (set lru \<union> set free) = {..<entries c}" using assms(1) by (simp add: ac_hole_def)
  with assms show "i < entries c" by blast
  with assms show "i < length (pool c)" "i < 4096" "i \<noteq> NONE_ENTRY" "length (pool c) \<le> 4096"
    by (auto simp: ac_hole_def NONE_ENTRY_def)
qed

lemma take_slot_free:
  assumes r: "ac_repr c lru (f # fs)"
  shows "\<exists>d. take_slot c = Some (d, f, []) \<and> ac_hole d lru fs f \<and> ac_maps d (set lru) \<and>
    ac_data d (set lru) \<and> akey d = akey c \<and> ikey d = ikey c \<and> same_config c d"
proof -
  note D = ac_reprD [OF r]
  have f: "f < length (pool c)" "f \<noteq> NONE_ENTRY" "length (pool c) \<le> 4096" "freeList c = f"
    using ac_repr_mem [OF r, of f] D by (auto simp: ac_links_def)
  then have "take_slot c = Some (c\<lparr>freeList := ol c f\<rparr>, f, [])"
    by (simp add: take_slot_def deref_in fields_of_pool)
  moreover have "ac_hole (c\<lparr>freeList := ol c f\<rparr>) lru fs f"
    using D(1) by (simp add: ac_hole_def ac_links_def)
  moreover have "ac_maps (c\<lparr>freeList := ol c f\<rparr>) (set lru)"
    using D(2) by (rule ac_maps_cong) simp_all
  moreover have "ac_data (c\<lparr>freeList := ol c f\<rparr>) (set lru)"
    using D(3) by (rule ac_data_cong) simp_all
  ultimately show ?thesis by (simp add: same_config_def)
qed

text \<open>Unlinking the oldest entry, without putting it anywhere.\<close>

lemma unlink_oldest_ok:
  assumes l: "ac_links c (xs @ [x]) []"
  shows "\<exists>d. unlink_oldest c = Some (d, x) \<and> ac_hole d xs [] x \<and> same_data c d"
proof -
  have mem: "i < length (pool c)" "i < entries c" "i \<noteq> NONE_ENTRY" if "i \<in> set (xs @ [x])" for i
    using ac_links_bounds [OF l, of i] that l by (auto simp: ac_links_def)
  have x: "x < length (pool c)" "x < entries c" "x \<noteq> NONE_ENTRY" "length (pool c) \<le> 4096"
    using mem [of x] l by (auto simp: ac_links_def)
  note l' = l [unfolded ac_links_def]
  note step = unlink_oldest_def ac_step_simps ac_hole_def same_data_def
  show ?thesis
  proof (cases xs rule: rev_cases)
    case Nil
    then show ?thesis using l' x by (simp add: step)
  next
    case (snoc ws a)
    have "distinct (xs @ [x])" using l' by simp
    then have "a \<noteq> x" "hd_or ws a \<noteq> x"
      using snoc hd_or_in_or [of ws a] by auto
    moreover have "a < length (pool c)" "a < entries c" "a \<noteq> NONE_ENTRY" "hd_or ws a \<noteq> NONE_ENTRY"
      using mem [of a] mem [of "hd_or ws a"] snoc hd_or_in_or [of ws a] by auto
    ultimately show ?thesis using l' x snoc by (simp add: step insert_commute)
  qed
qed

lemma take_slot_evict:
  assumes r: "ac_repr c (xs @ [x]) []"
  shows "\<exists>d. take_slot c = Some (d, x, if has_callback c then [(ikey c x, akey c x)] else []) \<and>
    ac_hole d xs [] x \<and> ac_maps d (set xs) \<and> ac_data d (set xs) \<and>
    akey d = akey c \<and> ikey d = ikey c \<and> same_config c d"
proof -
  note D = ac_reprD [OF r]
  obtain e where e: "unlink_oldest c = Some (e, x)" "ac_hole e xs [] x" "same_data c e"
    using unlink_oldest_ok [OF D(1)] by blast
  have k: "akey e = akey c" "ikey e = ikey c" "aliasMap e = aliasMap c" "idMap e = idMap c"
    "same_config c e"
    using e(3) by (simp_all add: same_data_def same_config_def)
  have len: "length (pool e) = length (pool c)"
    using e(2) k D by (simp add: ac_hole_def same_config_def)
  from D(2) have maps: "ac_maps e (set (xs @ [x]))"
    by (rule ac_maps_cong) (simp_all add: k)
  have bnd: "i < length (pool e)" if "i \<in> set (xs @ [x])" for i
    using ac_repr_mem(1) [OF r, of i] that len by simp
  obtain am it im nit u v where
    f: "find_alias (akey c x) e = Some (e\<lparr>aliasMap := am\<rparr>, it)" "sls_erase it am = Some u"
      "find_id (ikey c x) (e\<lparr>aliasMap := u\<rparr>) = Some (e\<lparr>aliasMap := u, idMap := im\<rparr>, nit)"
      "sls_erase nit im = Some v" "ac_maps (e\<lparr>aliasMap := u, idMap := v\<rparr>) (set (xs @ [x]) - {x})"
    using erase_both [OF maps bnd, of x] by (auto simp: k)
  let ?d = "e\<lparr>aliasMap := u, idMap := v\<rparr>"
  have x: "x < length (pool e)" "length (pool e) \<le> 4096" "freeList c = NONE_ENTRY"
    using bnd [of x] D len by (auto simp: ac_links_def)
  have "take_slot c = Some (?d, x, if has_callback c then [(ikey c x, akey c x)] else [])"
    using e(1) x f k
    by (simp add: take_slot_def evict_oldest_def deref_in fields_of_pool erase_alias_def
        erase_id_def same_config_def)
  moreover have "ac_hole ?d xs [] x"
    using e(2) by (simp add: ac_hole_def)
  moreover have "ac_maps ?d (set xs)"
  proof -
    have "set (xs @ [x]) - {x} = set xs" using D(4) by auto
    with f(5) show ?thesis by simp
  qed
  moreover have "ac_data ?d (set xs)"
  proof -
    have "ac_data c (set xs)" using D(3) by (rule ac_data_mono) auto
    then show ?thesis by (rule ac_data_cong) (simp_all add: k)
  qed
  ultimately show ?thesis using k by (simp add: same_config_def)
qed

subsection \<open>Filling a slot\<close>

definition stored_alias :: "node_alias \<Rightarrow> nat \<Rightarrow> node_alias" where
  "stored_alias a i = (if a = NOT_RESPONDING then NOT_RESPONDING OR of_nat i else a)"

lemma nat_or_push_bit:
  assumes "b < 2 ^ n"
  shows "or (push_bit n a) b = push_bit n a + (b :: nat)"
proof (rule disjunctive_add [symmetric])
  fix m
  have "take_bit n b = b" using assms by (simp add: take_bit_nat_eq_self_iff)
  then have "bit b m \<Longrightarrow> m < n" by (metis bit_take_bit_iff)
  then show "\<not> bit (push_bit n a) m \<or> \<not> bit b m"
    by (auto simp: bit_push_bit_iff)
qed

lemma unat_not_responding_or:
  assumes "i < 4096"
  shows "unat (NOT_RESPONDING OR of_nat i) = 0xF000 + i"
proof -
  have i: "unat (of_nat i :: u16) = i"
    using assms by (simp add: unat_of_nat take_bit_eq_mod)
  have "unat (NOT_RESPONDING OR of_nat i :: u16) = or (61440 :: nat) i"
    by (simp add: NOT_RESPONDING_def unsigned_or_eq i)
  also have "\<dots> = or (push_bit 12 15) i" by (simp add: push_bit_eq_mult)
  also have "\<dots> = push_bit 12 15 + i" using assms by (intro nat_or_push_bit) simp
  finally show ?thesis by (simp add: push_bit_eq_mult)
qed

lemma not_responding_or_inj:
  assumes "i < 4096" "j < 4096" "NOT_RESPONDING OR of_nat i = NOT_RESPONDING OR of_nat j"
  shows "i = j"
proof -
  have "0xF000 + i = 0xF000 + j"
    using arg_cong [OF assms(3), of unat]
    by (simp only: unat_not_responding_or [OF assms(1)] unat_not_responding_or [OF assms(2)])
  then show ?thesis by simp
qed

lemma stored_alias_fresh:
  assumes d: "ac_data c used" and i: "i \<in> used" "i < 4096" "j < 4096" "i \<noteq> j"
  shows "akey c i \<noteq> NOT_RESPONDING OR of_nat j"
proof
  assume e: "akey c i = NOT_RESPONDING OR of_nat j"
  have "good_alias i (akey c i)" using d i by (simp add: ac_data_def)
  then show False
    using e unat_not_responding_or [OF i(3)] not_responding_or_inj [OF i(2,3)] i(4)
    by (auto simp: good_alias_def)
qed

definition valid_alias :: "node_alias \<Rightarrow> bool" where
  "valid_alias a \<longleftrightarrow> a \<noteq> 0 \<and> (unat a < 4096 \<or> a = NOT_RESPONDING)"

lemma good_stored_alias:
  assumes "valid_alias a" "i < 4096"
  shows "good_alias i (stored_alias a i)"
proof (cases "a = NOT_RESPONDING")
  case True
  have "NOT_RESPONDING OR of_nat i \<noteq> (0 :: u16)"
    using unat_not_responding_or [OF assms(2)] by auto
  with True show ?thesis by (simp add: stored_alias_def good_alias_def)
next
  case False
  with assms show ?thesis by (simp add: stored_alias_def good_alias_def valid_alias_def)
qed

lemma link_newest_ok:
  assumes h: "ac_hole c lru free x"
  shows "\<exists>d. link_newest x c = Some d \<and> ac_links d (x # lru) free \<and> same_data c d"
proof -
  have mem: "i < length (pool c)" "i < entries c" "i < 4096" "i \<noteq> NONE_ENTRY"
    if "i \<in> insert x (set lru)" for i
    using ac_hole_mem [OF h, of i] that by auto
  have x: "x < length (pool c)" "x < entries c" "x < 4096" "x \<noteq> NONE_ENTRY" "length (pool c) \<le> 4096"
    using mem [of x] ac_hole_mem(5) [OF h, of x] by auto
  note h' = h [unfolded ac_hole_def]
  note step = link_newest_def ac_step_simps ac_links_def same_data_def
  show ?thesis
  proof (cases lru)
    case Nil
    with h' x show ?thesis by (simp add: step)
  next
    case (Cons w ws)
    then have w: "w < length (pool c)" "w < entries c" "w < 4096" "w \<noteq> NONE_ENTRY"
      using mem [of w] by auto
    have "distinct (x # lru)" using h' by simp
    then have "w \<noteq> x" "x \<noteq> w" using Cons by auto
    with h' x w Cons show ?thesis by (simp add: step)
  qed
qed

lemma ikey_fill:
  assumes "x < length (pool c)" "unat i < 2 ^ 48"
  shows "nw (upd x (\<lambda>m. (set_node_id i m)\<lparr>md_alias := a\<rparr>) c) = nw c"
    "ol (upd x (\<lambda>m. (set_node_id i m)\<lparr>md_alias := a\<rparr>) c) = ol c"
    "akey (upd x (\<lambda>m. (set_node_id i m)\<lparr>md_alias := a\<rparr>) c) = (akey c)(x := a)"
    "ikey (upd x (\<lambda>m. (set_node_id i m)\<lparr>md_alias := a\<rparr>) c) = (ikey c)(x := i)"
  using assms by (auto simp: nw_def ol_def akey_def ikey_def pool_upd fun_eq_iff get_set_node_id)

lemma ac_hole_cong:
  assumes "nw d = nw c" "ol d = ol c" "length (pool d) = length (pool c)" "entries d = entries c"
    "newest d = newest c" "oldest d = oldest c" "freeList d = freeList c"
  shows "ac_hole d lru free x \<longleftrightarrow> ac_hole c lru free x"
  using assms by (simp add: ac_hole_def)

text \<open>The part of \<open>fill_slot\<close> after the alias is made unique.\<close>

lemma fill_tail:
  assumes h: "ac_hole c lru free x" and m: "ac_maps c (set lru)" and d: "ac_data c (set lru)"
    and i: "i \<noteq> 0" "unat i < 2 ^ 48" "i \<notin> ikey c ` set lru"
    and a: "good_alias x a" "a \<notin> akey c ` set lru"
  defines "c1 \<equiv> upd x (\<lambda>m. (set_node_id i m)\<lparr>md_alias := a\<rparr>) c"
  defines "c2 \<equiv> c1\<lparr>aliasMap := sls_insert x (aliasMap c1), idMap := sls_insert x (idMap c1)\<rparr>"
  shows "\<exists>e. link_newest x c2 = Some e \<and> ac_repr e (x # lru) free \<and>
    akey e = (akey c)(x := a) \<and> ikey e = (ikey c)(x := i) \<and> same_config c e"
proof -
  have x: "x < length (pool c)" "x < 4096" "x \<notin> set lru"
    using ac_hole_mem [OF h, of x] h by (auto simp: ac_hole_def)
  note k = ikey_fill [OF x(1) i(2), of a, folded c1_def]
  have "ac_hole c2 lru free x"
    using h k by (subst ac_hole_cong [of _ c]) (simp_all add: c2_def c1_def)
  from link_newest_ok [OF this] obtain e where
    e: "link_newest x c2 = Some e" "ac_links e (x # lru) free" "same_data c2 e" by blast
  have ke: "akey e = (akey c)(x := a)" "ikey e = (ikey c)(x := i)"
    "aliasMap e = sls_insert x (aliasMap c)" "idMap e = sls_insert x (idMap c)" "same_config c e"
    using e(3) k by (simp_all add: same_data_def same_config_def c2_def c1_def)
  have nx: "j \<noteq> x" if "j \<in> set lru" for j using that x(3) by auto
  have m1: "sls_ok (akey e) (aliasMap c)" "sls_ok (ikey e) (idMap c)"
    "sls_elems (aliasMap c) = set lru" "sls_elems (idMap c) = set lru"
    using m nx sls_ok_cong [of "aliasMap c" "akey e" "akey c"] sls_ok_cong [of "idMap c" "ikey e" "ikey c"]
    by (auto simp: ac_maps_def ke)
  have "ac_maps e (set (x # lru))"
  proof -
    have "inj_on (akey e) (set (x # lru))" "inj_on (ikey e) (set (x # lru))"
      using m a(2) i(3) nx by (auto simp: ac_maps_def ke inj_on_def)
    moreover have "sls_ok (akey e) (aliasMap e) \<and> sls_elems (aliasMap e) = insert x (set lru)"
      using sls.ins_ok [OF m1(1), of x] m1(3) x(3) by (simp add: ke(3))
    moreover have "sls_ok (ikey e) (idMap e) \<and> sls_elems (idMap e) = insert x (set lru)"
      using sls.ins_ok [OF m1(2), of x] m1(4) x(3) by (simp add: ke(4))
    ultimately show ?thesis by (simp add: ac_maps_def)
  qed
  moreover have "ac_data e (set (x # lru))"
    using d a(1) i(1) nx by (auto simp: ac_data_def ke)
  ultimately show ?thesis
    using e ke by (simp add: ac_repr_def)
qed

lemma fill_slot_ok:
  assumes h: "ac_hole c lru free x" and m: "ac_maps c (set lru)" and d: "ac_data c (set lru)"
    and i: "i \<noteq> 0" "unat i < 2 ^ 48" "i \<notin> ikey c ` set lru"
    and a: "valid_alias a" "a \<noteq> NOT_RESPONDING \<Longrightarrow> a \<notin> akey c ` set lru"
  shows "\<exists>e. fill_slot i a x c = Some e \<and> ac_repr e (x # lru) free \<and>
    akey e = (akey c)(x := stored_alias a x) \<and> ikey e = (ikey c)(x := i) \<and> same_config c e"
proof -
  have x: "x < length (pool c)" "x < 4096" "length (pool c) \<le> 4096" "x \<notin> set lru"
    using ac_hole_mem [OF h, of x] h by (auto simp: ac_hole_def)
  have bnd: "j < length (pool c) \<and> j < 4096 \<and> j \<noteq> x" if "j \<in> set lru" for j
    using ac_hole_mem [OF h, of j] that x(4) by auto
  have good: "good_alias x (stored_alias a x)" by (rule good_stored_alias [OF a(1) x(2)])
  have fresh: "stored_alias a x \<notin> akey c ` set lru"
  proof (cases "a = NOT_RESPONDING")
    case True
    have "akey c j \<noteq> NOT_RESPONDING OR of_nat x" if "j \<in> set lru" for j
      using stored_alias_fresh [OF d that] bnd [OF that] x(2) by simp
    then show ?thesis
      unfolding stored_alias_def if_P [OF True] by (metis (no_types) imageE)
  next
    case False
    with a(2) show ?thesis by (simp add: stored_alias_def)
  qed
  show ?thesis
  proof (cases "a = NOT_RESPONDING")
    case True
    obtain am it where f: "find_alias (stored_alias a x) c = Some (c\<lparr>aliasMap := am\<rparr>, it)"
      "ac_maps (c\<lparr>aliasMap := am\<rparr>) (set lru)" "it = sls_end am"
      using find_alias_ok [OF m, of "stored_alias a x"] bnd fresh by metis
    let ?c = "c\<lparr>aliasMap := am\<rparr>"
    have "ac_hole ?c lru free x" using h by (subst ac_hole_cong [of _ c]) simp_all
    from fill_tail [OF this f(2) _ i(1,2) _ good] d i(3) fresh show ?thesis
      using f(1,3) x True
      by (simp add: fill_slot_def stored_alias_def update_in pool_idx_in same_config_def Let_def)
  next
    case False
    from fill_tail [OF h m d i good fresh] show ?thesis
      using x False by (simp add: fill_slot_def stored_alias_def update_in pool_idx_in Let_def)
  qed
qed

end
