(* ===== verification/AliasCacheAdd.thy ===== *)
theory AliasCacheAdd
  imports AliasCacheOps
begin

section \<open>The alias cache: add\<close>

text \<open>
  The contents of a cache as the list of its (node id, stored alias) pairs,
  newest first, and what \<open>add\<close> does to that list and reports.
\<close>

definition pairs :: "alias_cache \<Rightarrow> nat list \<Rightarrow> (node_id \<times> node_alias) list" where
  "pairs c xs = map (\<lambda>i. (ikey c i, akey c i)) xs"

lemma pairs_simps [simp]:
  "pairs c [] = []" "pairs c (x # xs) = (ikey c x, akey c x) # pairs c xs"
  "pairs c (xs @ ys) = pairs c xs @ pairs c ys" "length (pairs c xs) = length xs"
  by (simp_all add: pairs_def)

lemma pairs_cong:
  "(\<And>i. i \<in> set xs \<Longrightarrow> ikey d i = ikey c i) \<Longrightarrow> (\<And>i. i \<in> set xs \<Longrightarrow> akey d i = akey c i) \<Longrightarrow>
   pairs d xs = pairs c xs"
  by (simp add: pairs_def)

lemma filter_pairs_snd [simp]:
  "filter (\<lambda>p. snd p \<noteq> a) (pairs c xs) = pairs c (filter (\<lambda>i. akey c i \<noteq> a) xs)"
  "filter (\<lambda>p. snd p = a) (pairs c xs) = pairs c (filter (\<lambda>i. akey c i = a) xs)"
  "filter (\<lambda>p. fst p \<noteq> n) (pairs c xs) = pairs c (filter (\<lambda>i. ikey c i \<noteq> n) xs)"
  "filter (\<lambda>p. fst p = n) (pairs c xs) = pairs c (filter (\<lambda>i. ikey c i = n) xs)"
  by (simp_all add: pairs_def filter_map o_def)

lemma filter_inj_split:
  assumes "inj_on f (set (xs @ x # ys))" "distinct (xs @ x # ys)"
  shows "filter (\<lambda>i. f i \<noteq> f x) (xs @ x # ys) = xs @ ys" "filter (\<lambda>i. f i = f x) (xs @ x # ys) = [x]"
proof -
  have ne: "f i \<noteq> f x" if "i \<in> set xs \<union> set ys" for i
  proof
    assume "f i = f x"
    then have "i = x" using inj_onD [OF assms(1), of i x] that by auto
    with that assms(2) show False by auto
  qed
  then have "filter (\<lambda>i. f i \<noteq> f x) xs = xs" "filter (\<lambda>i. f i \<noteq> f x) ys = ys"
    "filter (\<lambda>i. f i = f x) xs = []" "filter (\<lambda>i. f i = f x) ys = []"
    by (auto simp: filter_id_conv filter_empty_conv)
  then show "filter (\<lambda>i. f i \<noteq> f x) (xs @ x # ys) = xs @ ys"
    "filter (\<lambda>i. f i = f x) (xs @ x # ys) = [x]" by simp_all
qed

lemma filter_absent:
  assumes "a \<notin> f ` set xs"
  shows "filter (\<lambda>i. f i \<noteq> a) xs = xs" "filter (\<lambda>i. f i = a) xs = []"
  using assms by (auto simp: filter_id_conv filter_empty_conv)

lemma same_config_refl [simp]: "same_config c c"
  by (simp add: same_config_def)

lemma ac_repr_inj:
  assumes "ac_repr c lru free"
  shows "inj_on (akey c) (set lru)" "inj_on (ikey c) (set lru)" "distinct lru"
  using ac_reprD [OF assms] by (simp_all add: ac_maps_def)

text \<open>The log entries of the callback, when there is one.\<close>

definition reported :: "alias_cache \<Rightarrow> remove_log \<Rightarrow> remove_log" where
  "reported c l = (if has_callback c then l else [])"

lemma reported_cong: "same_config c d \<Longrightarrow> reported d l = reported c l"
  by (simp add: reported_def same_config_def)

lemma reported_append: "reported c (l @ m) = reported c l @ reported c m"
  by (simp add: reported_def)

lemma drop_reported_ok:
  assumes r: "ac_repr c (xs @ x # ys) free"
  shows "\<exists>d. drop_reported x c = Some (d, reported c [(ikey c x, akey c x)]) \<and>
    ac_repr d (xs @ ys) (x # free) \<and> pairs d (xs @ ys) = pairs c (xs @ ys) \<and> same_config c d"
proof -
  obtain d where d: "remove (akey c x) c = Some d" "ac_repr d (xs @ ys) (x # free)"
    "akey d = akey c" "ikey d = (ikey c)(x := 0)" "same_config c d"
    using remove_hit [OF r] by blast
  have x: "x < length (pool c)" "length (pool c) \<le> 4096" "x < length (pool d)" "length (pool d) \<le> 4096"
    using ac_repr_mem [OF r, of x] ac_repr_mem [OF d(2), of x] ac_reprD [OF r] ac_reprD [OF d(2)] by auto
  have "drop_reported x c = Some (d, reported c [(ikey c x, akey c x)])"
    using d x by (simp add: drop_reported_def deref_in fields_of_pool reported_def same_config_def)
  moreover have "pairs d (xs @ ys) = pairs c (xs @ ys)"
    using ac_repr_inj(3) [OF r] by (intro pairs_cong) (auto simp: d(3,4))
  ultimately show ?thesis using d by blast
qed

lemma ac_repr_maps:
  assumes "ac_repr c lru free"
  shows "ac_maps (c\<lparr>aliasMap := m\<rparr>) (set lru) \<Longrightarrow> ac_repr (c\<lparr>aliasMap := m\<rparr>) lru free"
    "ac_maps (c\<lparr>idMap := n\<rparr>) (set lru) \<Longrightarrow> ac_repr (c\<lparr>idMap := n\<rparr>) lru free"
  using assms by (simp_all add: ac_repr_def)

lemma pairs_maps [simp]:
  "pairs (c\<lparr>aliasMap := m\<rparr>) xs = pairs c xs" "pairs (c\<lparr>idMap := n\<rparr>) xs = pairs c xs"
  by (simp_all add: pairs_def)

lemma same_config_maps [simp]:
  "same_config (c\<lparr>aliasMap := m\<rparr>) d = same_config c d" "same_config (c\<lparr>idMap := n\<rparr>) d = same_config c d"
  "same_config c (d\<lparr>aliasMap := m\<rparr>) = same_config c d" "same_config c (d\<lparr>idMap := n\<rparr>) = same_config c d"
  by (simp_all add: same_config_def)

lemma reported_maps [simp]:
  "reported (c\<lparr>aliasMap := m\<rparr>) l = reported c l" "reported (c\<lparr>idMap := n\<rparr>) l = reported c l"
  by (simp_all add: reported_def)

lemma add_drop_id_ok:
  assumes r: "ac_repr c lru free"
  shows "\<exists>d lru' free'. add_drop_id n c = Some (d, reported c (filter (\<lambda>p. fst p = n) (pairs c lru))) \<and>
    ac_repr d lru' free' \<and> pairs d lru' = filter (\<lambda>p. fst p \<noteq> n) (pairs c lru) \<and> same_config c d"
proof -
  have bnd: "\<And>i. i \<in> set lru \<Longrightarrow> i < length (pool c)" using ac_repr_mem [OF r] by blast
  obtain m it where f: "find_id n c = Some (c\<lparr>idMap := m\<rparr>, it)"
    "ac_maps (c\<lparr>idMap := m\<rparr>) (set lru)"
    "n \<notin> ikey c ` set lru \<Longrightarrow> it = sls_end m"
    "\<And>d. d \<in> set lru \<Longrightarrow> ikey c d = n \<Longrightarrow> it \<noteq> sls_end m \<and> sls_get m it = d"
    using find_id_ok [OF ac_reprD(2) [OF r] bnd, of n] by metis
  have r': "ac_repr (c\<lparr>idMap := m\<rparr>) lru free" using ac_repr_maps(2) [OF r f(2)] .
  show ?thesis
  proof (cases "n \<in> ikey c ` set lru")
    case False
    have "add_drop_id n c = Some (c\<lparr>idMap := m\<rparr>, [])"
      using f(1,3) False by (simp add: add_drop_id_def)
    with r' filter_absent [OF False] show ?thesis
      by (intro exI [of _ "c\<lparr>idMap := m\<rparr>"] exI [of _ lru] exI [of _ free]) (simp add: reported_def)
  next
    case True
    then obtain x where x: "x \<in> set lru" "ikey c x = n" by auto
    then obtain xs ys where s: "lru = xs @ x # ys" by (meson split_list)
    from drop_reported_ok [OF r' [unfolded s]] obtain d where
      d: "drop_reported x (c\<lparr>idMap := m\<rparr>) = Some (d, reported c [(n, akey c x)])"
        "ac_repr d (xs @ ys) (x # free)" "pairs d (xs @ ys) = pairs c (xs @ ys)" "same_config c d"
      using x(2) by auto
    have "add_drop_id n c = Some (d, reported c [(n, akey c x)])"
      using f(1) f(4) [OF x] d(1) by (simp add: add_drop_id_def)
    moreover have "filter (\<lambda>i. ikey c i \<noteq> n) lru = xs @ ys" "filter (\<lambda>i. ikey c i = n) lru = [x]"
      using filter_inj_split [of "ikey c" xs x ys] ac_repr_inj [OF r] x(2) s by simp_all
    ultimately show ?thesis using d x(2)
      by (intro exI [of _ d] exI [of _ "xs @ ys"] exI [of _ "x # free"]) simp
  qed
qed

lemma add_drop_alias_ok:
  assumes r: "ac_repr c lru free"
  shows "\<exists>d lru' free'. add_drop_alias a c =
      Some (d, reported c (filter (\<lambda>p. a \<noteq> NOT_RESPONDING \<and> snd p = a) (pairs c lru))) \<and>
    ac_repr d lru' free' \<and> pairs d lru' = filter (\<lambda>p. \<not> (a \<noteq> NOT_RESPONDING \<and> snd p = a)) (pairs c lru) \<and>
    same_config c d"
proof -
  have bnd: "\<And>i. i \<in> set lru \<Longrightarrow> i < length (pool c)" using ac_repr_mem [OF r] by blast
  obtain m it where f: "find_alias a c = Some (c\<lparr>aliasMap := m\<rparr>, it)"
    "ac_maps (c\<lparr>aliasMap := m\<rparr>) (set lru)"
    "a \<notin> akey c ` set lru \<Longrightarrow> it = sls_end m"
    "\<And>d. d \<in> set lru \<Longrightarrow> akey c d = a \<Longrightarrow> it \<noteq> sls_end m \<and> sls_get m it = d"
    using find_alias_ok [OF ac_reprD(2) [OF r] bnd, of a] by metis
  have r': "ac_repr (c\<lparr>aliasMap := m\<rparr>) lru free" using ac_repr_maps(1) [OF r f(2)] .
  consider (nr) "a = NOT_RESPONDING" | (miss) "a \<noteq> NOT_RESPONDING" "a \<notin> akey c ` set lru"
    | (hit) "a \<noteq> NOT_RESPONDING" "a \<in> akey c ` set lru" by blast
  then show ?thesis
  proof cases
    case nr
    then have "add_drop_alias a c = Some (c\<lparr>aliasMap := m\<rparr>, [])"
      using f(1) by (simp add: add_drop_alias_def)
    with r' nr show ?thesis
      by (intro exI [of _ "c\<lparr>aliasMap := m\<rparr>"] exI [of _ lru] exI [of _ free]) (simp add: reported_def)
  next
    case miss
    have "add_drop_alias a c = Some (c\<lparr>aliasMap := m\<rparr>, [])"
      using f(1,3) miss by (simp add: add_drop_alias_def)
    with r' miss filter_absent [OF miss(2)] show ?thesis
      by (intro exI [of _ "c\<lparr>aliasMap := m\<rparr>"] exI [of _ lru] exI [of _ free]) (simp add: reported_def)
  next
    case hit
    then obtain x where x: "x \<in> set lru" "akey c x = a" by auto
    then obtain xs ys where s: "lru = xs @ x # ys" by (meson split_list)
    from drop_reported_ok [OF r' [unfolded s]] obtain d where
      d: "drop_reported x (c\<lparr>aliasMap := m\<rparr>) = Some (d, reported c [(ikey c x, a)])"
        "ac_repr d (xs @ ys) (x # free)" "pairs d (xs @ ys) = pairs c (xs @ ys)" "same_config c d"
      using x(2) by auto
    have "add_drop_alias a c = Some (d, reported c [(ikey c x, a)])"
      using f(1) f(4) [OF x] d(1) hit(1) by (simp add: add_drop_alias_def)
    moreover have "filter (\<lambda>i. akey c i \<noteq> a) lru = xs @ ys" "filter (\<lambda>i. akey c i = a) lru = [x]"
      using filter_inj_split [of "akey c" xs x ys] ac_repr_inj [OF r] x(2) s by simp_all
    ultimately show ?thesis using d x(2) hit(1)
      by (intro exI [of _ d] exI [of _ "xs @ ys"] exI [of _ "x # free"]) simp
  qed
qed

subsection \<open>What add does to the contents\<close>

definition drops :: "node_alias \<Rightarrow> node_id \<times> node_alias \<Rightarrow> bool" where
  "drops a p \<longleftrightarrow> a \<noteq> NOT_RESPONDING \<and> snd p = a"

text \<open>
  The abstract \<open>add\<close> on a list of pairs with room for \<open>n\<close>: \<open>s\<close> is the alias
  stored. The second component lists what was dropped.
\<close>

definition spec_add :: "nat \<Rightarrow> node_id \<Rightarrow> node_alias \<Rightarrow> node_alias \<Rightarrow> remove_log \<Rightarrow> remove_log \<times> remove_log" where
  "spec_add n i a s l =
     (let l1 = filter (\<lambda>p. \<not> drops a p) l;
          l2 = filter (\<lambda>p. fst p \<noteq> i) l1;
          l3 = (if length l2 < n then l2 else butlast l2)
      in ((i, s) # l3, filter (drops a) l @ filter (\<lambda>p. fst p = i) l1 @ drop (length l3) l2))"

lemma take_slot_ok:
  assumes r: "ac_repr c lru free" and n: "0 < entries c"
  shows "\<exists>d x lru' free'. take_slot c = Some (d, x, reported c (drop (length lru') (pairs c lru))) \<and>
    ac_hole d lru' free' x \<and> ac_maps d (set lru') \<and> ac_data d (set lru') \<and>
    pairs d lru' = (if length (pairs c lru) < entries c then pairs c lru else butlast (pairs c lru)) \<and>
    same_config c d"
proof -
  note D = ac_reprD [OF r]
  have len: "length lru + length free = entries c"
  proof -
    have "length (lru @ free) = card (set (lru @ free))"
      using D(1) by (metis ac_links_def distinct_card)
    also have "\<dots> = entries c" using D(9) by simp
    finally show ?thesis by simp
  qed
  show ?thesis
  proof (cases free)
    case (Cons f fs)
    from take_slot_free [OF r [unfolded Cons]] obtain d where
      d: "take_slot c = Some (d, f, [])" "ac_hole d lru fs f" "ac_maps d (set lru)" "ac_data d (set lru)"
      "akey d = akey c" "ikey d = ikey c" "same_config c d" by blast
    moreover have "length lru < entries c" using len Cons by simp
    ultimately show ?thesis
      by (intro exI [of _ d] exI [of _ f] exI [of _ lru] exI [of _ fs]) (simp add: reported_def pairs_def)
  next
    case Nil
    with len n obtain xs x where s: "lru = xs @ [x]" by (cases lru rule: rev_cases) auto
    from take_slot_evict [OF r [unfolded s Nil]] obtain d where
      d: "take_slot c = Some (d, x, if has_callback c then [(ikey c x, akey c x)] else [])"
      "ac_hole d xs [] x" "ac_maps d (set xs)" "ac_data d (set xs)"
      "akey d = akey c" "ikey d = ikey c" "same_config c d" by blast
    have "drop (length xs) (pairs c lru) = [(ikey c x, akey c x)]" by (simp add: s pairs_def)
    moreover have "\<not> length lru < entries c" "butlast (pairs c lru) = pairs d xs"
      using len Nil by (simp_all add: s pairs_def d(5,6) butlast_append)
    ultimately show ?thesis using d
      by (intro exI [of _ d] exI [of _ x] exI [of _ xs] exI [of _ "[]"]) (simp add: reported_def)
  qed
qed

lemma ac_repr_pairs_fst: "ikey c ` set lru = fst ` set (pairs c lru)"
  by (force simp: pairs_def)

lemma ac_repr_pairs_snd: "akey c ` set lru = snd ` set (pairs c lru)"
  by (force simp: pairs_def)

lemma fst_set_butlast_filter:
  "i \<notin> fst ` set (if b then filter (\<lambda>p. fst p \<noteq> i) l else butlast (filter (\<lambda>p. fst p \<noteq> i) l))"
  by (auto dest: in_set_butlastD)

lemma set_butlast_filter_subset:
  "set (if b then filter P l else butlast (filter P l)) \<subseteq> set l"
  by (auto dest: in_set_butlastD)

lemma add_ok:
  assumes r: "ac_repr c lru free" and n: "0 < entries c"
    and i: "i \<noteq> 0" "unat i < 2 ^ 48" and a: "valid_alias a"
  shows "\<exists>d x lru' free' l. x < entries c \<and>
    spec_add (entries c) i a (stored_alias a x) (pairs c lru) = (pairs d (x # lru'), l) \<and>
    add i a c = Some (d, reported c l) \<and> ac_repr d (x # lru') free' \<and> same_config c d"
proof -
  from add_drop_alias_ok [OF r, of a] obtain c1 l1 f1 where
    c1: "add_drop_alias a c = Some (c1, reported c (filter (drops a) (pairs c lru)))"
      "ac_repr c1 l1 f1" "pairs c1 l1 = filter (\<lambda>p. \<not> drops a p) (pairs c lru)" "same_config c c1"
    unfolding drops_def by blast
  from add_drop_id_ok [OF c1(2), of i] obtain c2 l2 f2 where
    c2: "add_drop_id i c1 = Some (c2, reported c1 (filter (\<lambda>p. fst p = i) (pairs c1 l1)))"
      "ac_repr c2 l2 f2" "pairs c2 l2 = filter (\<lambda>p. fst p \<noteq> i) (pairs c1 l1)" "same_config c1 c2"
    by blast
  have en: "entries c2 = entries c" using c1(4) c2(4) by (simp add: same_config_def)
  with n have "0 < entries c2" by simp
  from take_slot_ok [OF c2(2) this] obtain c3 x l3 f3 where
    c3: "take_slot c2 = Some (c3, x, reported c2 (drop (length l3) (pairs c2 l2)))"
      "ac_hole c3 l3 f3 x" "ac_maps c3 (set l3)" "ac_data c3 (set l3)"
      "pairs c3 l3 = (if length (pairs c2 l2) < entries c2 then pairs c2 l2 else butlast (pairs c2 l2))"
      "same_config c2 c3" by blast
  have fi: "i \<notin> ikey c3 ` set l3"
    unfolding ac_repr_pairs_fst c3(5) c2(3) by (rule fst_set_butlast_filter)
  have sub: "set (pairs c3 l3) \<subseteq> set (pairs c1 l1)"
    unfolding c3(5) c2(3) by (rule set_butlast_filter_subset)
  have "a \<noteq> NOT_RESPONDING \<Longrightarrow> a \<notin> snd ` set (pairs c1 l1)"
    unfolding c1(3) drops_def by (auto simp del: filter_pairs_snd)
  with sub have fa: "a \<noteq> NOT_RESPONDING \<Longrightarrow> a \<notin> akey c3 ` set l3"
    unfolding ac_repr_pairs_snd by blast
  from fill_slot_ok [OF c3(2-4) i fi a fa] obtain d where
    d: "fill_slot i a x c3 = Some d" "ac_repr d (x # l3) f3"
      "akey d = (akey c3)(x := stored_alias a x)" "ikey d = (ikey c3)(x := i)" "same_config c3 d"
    by blast
  have cfg: "same_config c c2" "same_config c c3" "same_config c d"
    using c1(4) c2(4) c3(6) d(5) by (simp_all add: same_config_def)
  have "x \<notin> set l3" using c3(2) by (simp add: ac_hole_def)
  then have p: "pairs d (x # l3) = (i, stored_alias a x) # pairs c3 l3"
    by (auto simp: d(3,4) intro: pairs_cong)
  define l where "l = filter (drops a) (pairs c lru) @ filter (\<lambda>p. fst p = i) (pairs c1 l1) @
    drop (length l3) (pairs c2 l2)"
  have "x < entries c"
    using ac_hole_mem(2) [OF c3(2), of x] cfg by (simp add: same_config_def)
  moreover have "spec_add (entries c) i a (stored_alias a x) (pairs c lru) = (pairs d (x # l3), l)"
  proof -
    have "length l3 = length (pairs c3 l3)" by simp
    also note c3(5) [unfolded en]
    finally have "length l3 = length (if length (pairs c2 l2) < entries c then pairs c2 l2 else butlast (pairs c2 l2))" .
    with p c3(5) show ?thesis
      by (simp only: spec_add_def Let_def c1(3) [symmetric] c2(3) [symmetric] en l_def)
  qed
  moreover have "a \<noteq> 0" using a by (simp add: valid_alias_def)
  then have "add i a c = Some (d, reported c l)"
    using i(1) c1(1) c2(1) c3(1) d(1) reported_cong [OF c1(4)] reported_cong [OF cfg(1)]
    by (simp add: add_def l_def reported_append)
  ultimately show ?thesis using d(2) cfg by blast
qed

end
