(* ===== verification/AliasCacheSpec.thy ===== *)
theory AliasCacheSpec
  imports AliasCacheAdd "HOL-Library.Multiset"
begin

section \<open>The alias cache: abstract specification\<close>

text \<open>
  The abstract state of a cache is the list of (node id, alias) pairs that
  \<open>for_each\<close> reports, newest first. The operations of the cache are shown
  to be functions of that list: \<open>add\<close> and the evictions, \<open>remove\<close>, both
  lookups with their move to the front, \<open>clear\<close> and \<open>next_entry\<close>.
\<close>

definition resolved :: "remove_log \<Rightarrow> remove_log" where
  "resolved l = map (apsnd resolve_notresponding) l"

lemma resolved_simps [simp]:
  "resolved [] = []" "resolved (p # l) = (fst p, resolve_notresponding (snd p)) # resolved l"
  "resolved (l @ m) = resolved l @ resolved m" "length (resolved l) = length l"
  by (simp_all add: resolved_def apsnd_def map_prod_def split: prod.split)

subsection \<open>for\_each\<close>

lemma for_each_chain:
  assumes "chain (ol c) xs NONE_ENTRY" "\<And>i. i \<in> set xs \<Longrightarrow> i < length (pool c)"
    "length (pool c) \<le> 4096" "length xs \<le> fuel"
  shows "for_each_from fuel (hd_or xs NONE_ENTRY) c = Some (resolved (pairs c xs))"
  using assms
proof (induction xs arbitrary: fuel)
  case Nil
  then show ?case by (simp add: for_each_from.simps)
next
  case (Cons x xs)
  then obtain f where f: "fuel = Suc f" by (cases fuel) auto
  have x: "x < length (pool c)" using Cons.prems(2) by simp
  then have "x \<noteq> NONE_ENTRY" using Cons.prems(3) by (simp add: NONE_ENTRY_def)
  with Cons f x show ?case
    by (subst for_each_from.simps) (simp add: deref_in fields_of_pool)
qed

lemma ac_repr_length:
  assumes "ac_repr c lru free"
  shows "length lru + length free = entries c"
proof -
  have "length (lru @ free) = card (set (lru @ free))"
    using ac_reprD(1) [OF assms] by (metis ac_links_def distinct_card)
  also have "\<dots> = entries c" using ac_reprD(9) [OF assms] by simp
  finally show ?thesis by simp
qed

lemma for_each_ok:
  assumes r: "ac_repr c lru free"
  shows "for_each c = Some (resolved (pairs c lru))"
proof -
  note D = ac_reprD [OF r]
  have "chain (ol c) lru NONE_ENTRY" "newest c = hd_or lru NONE_ENTRY"
    using D(1) dlseg_chain by (auto simp: ac_links_def)
  moreover have "length lru \<le> entries c" using ac_repr_length [OF r] by simp
  ultimately show ?thesis
    using D(7,8) ac_repr_mem(1) [OF r] for_each_chain [of c lru "entries c"] by (simp add: for_each_def)
qed

subsection \<open>Resolving\<close>

lemma resolve_small:
  assumes "unat a < 4096"
  shows "resolve_notresponding a = a"
proof -
  have "take_bit 12 a = a" using assms by (intro take_bit_unat_less) simp
  moreover have "\<not> bit (take_bit 12 a) 15" by (simp add: bit_take_bit_iff)
  ultimately have "\<not> bit a 15" by simp
  moreover have "bit (a AND NOT_RESPONDING) 15 = bit a 15" by (simp add: bit_simps NOT_RESPONDING_def)
  moreover have "bit NOT_RESPONDING 15" by (simp add: NOT_RESPONDING_def)
  ultimately have "a AND NOT_RESPONDING \<noteq> NOT_RESPONDING" by metis
  then show ?thesis by (simp add: resolve_notresponding_def)
qed

lemma resolve_not_responding [simp]: "resolve_notresponding (NOT_RESPONDING OR x) = NOT_RESPONDING"
proof -
  have "(NOT_RESPONDING OR x) AND NOT_RESPONDING = NOT_RESPONDING"
    by (rule bit_word_eqI) (auto simp: bit_simps)
  then show ?thesis by (simp add: resolve_notresponding_def)
qed

lemma resolve_stored: "valid_alias a \<Longrightarrow> resolve_notresponding (stored_alias a x) = a"
  by (auto simp: valid_alias_def stored_alias_def resolve_small)

lemma resolve_good:
  assumes "good_alias i s" "a \<noteq> NOT_RESPONDING" "unat a < 4096"
  shows "resolve_notresponding s = a \<longleftrightarrow> s = a"
  using assms resolve_small [of s] resolve_small [of a]
  by (auto simp: good_alias_def resolve_notresponding_def split: if_splits)

lemma valid_resolved: "good_alias i s \<Longrightarrow> valid_alias (resolve_notresponding s)"
  by (auto simp: good_alias_def valid_alias_def resolve_small) (simp add: NOT_RESPONDING_def)

lemma drops_resolved:
  assumes "valid_alias a" "good_alias i (snd p)"
  shows "drops a (apsnd resolve_notresponding p) = drops a p"
proof (cases "a = NOT_RESPONDING")
  case False
  with assms resolve_good [of i "snd p" a] show ?thesis by (simp add: drops_def valid_alias_def)
qed (simp add: drops_def)

lemma filter_resolved:
  assumes "\<And>p. p \<in> set l \<Longrightarrow> P (apsnd resolve_notresponding p) = Q p"
  shows "filter P (resolved l) = resolved (filter Q l)"
proof -
  have "filter (P \<circ> apsnd resolve_notresponding) l = filter Q l"
    using assms by (intro filter_cong) simp_all
  then show ?thesis by (simp add: resolved_def filter_map)
qed

lemma spec_add_resolved:
  assumes a: "valid_alias a" and g: "\<And>p. p \<in> set l \<Longrightarrow> \<exists>i. good_alias i (snd p)"
    and s: "resolve_notresponding s = a" and e: "spec_add n i a s l = (l', log)"
  shows "spec_add n i a a (resolved l) = (resolved l', resolved log)"
proof -
  have f: "filter (drops a) (resolved l) = resolved (filter (drops a) l)"
    "filter (\<lambda>p. \<not> drops a p) (resolved l) = resolved (filter (\<lambda>p. \<not> drops a p) l)"
    using g drops_resolved [OF a] by (metis (no_types, lifting) filter_resolved)+
  have f2: "filter (\<lambda>p. fst p = i) (resolved l) = resolved (filter (\<lambda>p. fst p = i) l)"
    "filter (\<lambda>p. fst p \<noteq> i) (resolved l) = resolved (filter (\<lambda>p. fst p \<noteq> i) l)" for l
    by (auto intro: filter_resolved)
  have b: "butlast (resolved l) = resolved (butlast l)" "drop k (resolved l) = resolved (drop k l)" for l k
    by (simp_all add: resolved_def map_butlast drop_map)
  show ?thesis
    using e unfolding spec_add_def Let_def f f2
    by (auto simp: s b)
qed

lemma ac_repr_good:
  assumes "ac_repr c lru free" "p \<in> set (pairs c lru)"
  shows "\<exists>i. good_alias i (snd p)" "fst p \<noteq> 0"
proof -
  obtain j where j: "j \<in> set lru" "p = (ikey c j, akey c j)" using assms(2) by (auto simp: pairs_def)
  with ac_reprD(3) [OF assms(1)] show "\<exists>i. good_alias i (snd p)" "fst p \<noteq> 0"
    by (auto simp: ac_data_def)
qed

subsection \<open>add\<close>

lemma add_contents:
  assumes "ac_inv c" "0 < entries c" "i \<noteq> 0" "unat i < 2 ^ 48" "valid_alias a"
    "for_each c = Some l"
  shows "\<exists>d log. add i a c = Some (d, log) \<and> ac_inv d \<and> same_config c d \<and>
    for_each d = Some (fst (spec_add (entries c) i a a l)) \<and>
    resolved log = (if has_callback c then snd (spec_add (entries c) i a a l) else [])"
proof -
  obtain lru free where r: "ac_repr c lru free" using assms(1) by (auto simp: ac_inv_def)
  then have l: "l = resolved (pairs c lru)" using for_each_ok assms(6) by simp
  obtain d x lru' free' log where d: "x < entries c"
    "spec_add (entries c) i a (stored_alias a x) (pairs c lru) = (pairs d (x # lru'), log)"
    "add i a c = Some (d, reported c log)" "ac_repr d (x # lru') free'" "same_config c d"
    using add_ok [OF r assms(2-5)] by blast
  have "spec_add (entries c) i a a l = (resolved (pairs d (x # lru')), resolved log)"
    unfolding l using assms(5) ac_repr_good(1) [OF r] resolve_stored [OF assms(5)] d(2)
    by (rule spec_add_resolved)
  then show ?thesis
    using d for_each_ok [OF d(4)] by (auto simp: ac_inv_def reported_def)
qed


text \<open>
  C9: \<open>add\<close> never fails on a consistent cache and does to the contents what
  the abstract \<open>spec_add\<close> says: the new pair is the newest one, the other
  mappings of its alias and of its node id are gone, and when there is no
  room left the oldest pair is evicted. The removal callback is called
  exactly for the pairs dropped, in the order of \<open>spec_add\<close>.
\<close>

theorem add_refines_spec:
  assumes "ac_inv c" "0 < entries c" "i \<noteq> 0" "unat i < 2 ^ 48" "valid_alias a"
    "for_each c = Some l"
  shows "\<exists>d log. add i a c = Some (d, log) \<and> ac_inv d \<and> same_config c d \<and>
    for_each d = Some (fst (spec_add (entries c) i a a l)) \<and>
    resolved log = (if has_callback c then snd (spec_add (entries c) i a a l) else [])"
  by (rule add_contents [OF assms])

subsection \<open>Lookups and remove\<close>

definition to_front :: "('a \<Rightarrow> bool) \<Rightarrow> 'a list \<Rightarrow> 'a list" where
  "to_front P l = filter P l @ filter (\<lambda>x. \<not> P x) l"

lemma to_front_absent: "(\<And>x. x \<in> set l \<Longrightarrow> \<not> P x) \<Longrightarrow> to_front P l = l"
  by (auto simp: to_front_def filter_empty_conv filter_id_conv)

lemma find_none: "(\<And>x. x \<in> set l \<Longrightarrow> \<not> P x) \<Longrightarrow> List.find P l = None"
  by (auto simp: find_None_iff)

lemma find_filter_singleton: "filter P l = [x] \<Longrightarrow> List.find P l = Some x"
  by (induction l) (auto split: if_splits)

lemma touch_ok:
  assumes r: "ac_repr c (xs @ x # ys) free"
  shows "\<exists>d. touch x c = Some d \<and> ac_repr d (x # xs @ ys) free \<and> akey d = akey c \<and> ikey d = ikey c \<and>
    same_config c d"
proof -
  note D = ac_reprD [OF r]
  obtain d where d: "touch x c = Some d" "ac_links d (x # xs @ ys) free" "same_data c d"
    using touch_links [OF D(1)] by blast
  have k: "akey d = akey c" "ikey d = ikey c" "aliasMap d = aliasMap c" "idMap d = idMap c" "same_config c d"
    using d(3) by (simp_all add: same_data_def same_config_def)
  have "ac_maps d (set (xs @ x # ys))" using D(2) by (rule ac_maps_cong) (simp_all add: k)
  moreover have "ac_data d (set (xs @ x # ys))" using D(3) by (rule ac_data_cong) (simp_all add: k)
  moreover have "set (xs @ x # ys) = set (x # xs @ ys)" by auto
  ultimately show ?thesis using d(1,2) k by (simp add: ac_repr_def)
qed

text \<open>Moving the only match to the front, and its pair.\<close>

lemma to_front_pairs:
  assumes r: "ac_repr c (xs @ x # ys) free"
    and P: "\<And>i. i \<in> set (xs @ x # ys) \<Longrightarrow> P (ikey c i, resolve_notresponding (akey c i)) \<longleftrightarrow> i = x"
  defines "p \<equiv> (ikey c x, resolve_notresponding (akey c x))"
  shows "to_front P (resolved (pairs c (xs @ x # ys))) = p # resolved (pairs c (xs @ ys))"
    "List.find P (resolved (pairs c (xs @ x # ys))) = Some p"
    "filter (\<lambda>p. \<not> P p) (resolved (pairs c (xs @ x # ys))) = resolved (pairs c (xs @ ys))"
proof -
  have res: "resolved (pairs c zs) = map (\<lambda>i. (ikey c i, resolve_notresponding (akey c i))) zs" for zs
    by (simp add: resolved_def pairs_def)
  have ne: "\<not> P (ikey c i, resolve_notresponding (akey c i))" if "i \<in> set xs \<union> set ys" for i
    using P [of i] that ac_reprD(4) [OF r] by auto
  have px: "P p" using P [of x] by (simp add: p_def)
  have f: "filter P (resolved (pairs c xs)) = []" "filter P (resolved (pairs c ys)) = []"
    "filter (\<lambda>p. \<not> P p) (resolved (pairs c xs)) = resolved (pairs c xs)"
    "filter (\<lambda>p. \<not> P p) (resolved (pairs c ys)) = resolved (pairs c ys)"
    using ne by (auto simp: res filter_empty_conv filter_id_conv)
  show "to_front P (resolved (pairs c (xs @ x # ys))) = p # resolved (pairs c (xs @ ys))"
    using f px by (simp add: to_front_def p_def)
  show "List.find P (resolved (pairs c (xs @ x # ys))) = Some p"
    using f px by (intro find_filter_singleton) (simp add: p_def)
  show "filter (\<lambda>p. \<not> P p) (resolved (pairs c (xs @ x # ys))) = resolved (pairs c (xs @ ys))"
    using f px by (simp add: p_def)
qed

text \<open>An alias below 4096 identifies the entry that stores it.\<close>

lemma alias_identifies:
  assumes r: "ac_repr c lru free" and a: "unat a < 4096" and i: "i \<in> set lru"
  shows "resolve_notresponding (akey c i) = a \<longleftrightarrow> akey c i = a"
proof (rule resolve_good [OF _ _ a])
  show "good_alias i (akey c i)" using ac_reprD(3) [OF r] i by (simp add: ac_data_def)
  show "a \<noteq> NOT_RESPONDING" using a by (auto simp: NOT_RESPONDING_def)
qed

lemma alias_match:
  assumes r: "ac_repr c lru free" and a: "unat a < 4096" and x: "x \<in> set lru" "akey c x = a"
    and i: "i \<in> set lru"
  shows "resolve_notresponding (akey c i) = a \<longleftrightarrow> i = x"
  using alias_identifies [OF r a i] x i ac_repr_inj(1) [OF r] by (auto simp: inj_on_def)

lemma id_match:
  assumes "ac_repr c lru free" "x \<in> set lru" "i \<in> set lru"
  shows "ikey c i = ikey c x \<longleftrightarrow> i = x"
  using assms ac_repr_inj(2) [OF assms(1)] by (auto simp: inj_on_def)

lemma resolved_pairs_mem:
  "p \<in> set (resolved (pairs c xs)) \<longleftrightarrow> (\<exists>i \<in> set xs. p = (ikey c i, resolve_notresponding (akey c i)))"
  by (auto simp: resolved_def pairs_def)

lemma deref_repr:
  assumes "ac_repr c lru free" "x \<in> set lru"
  shows "deref c x = Some (pool c ! x)"
  using ac_repr_mem [OF assms(1), of x] ac_reprD(7,8) [OF assms(1)] assms(2) by (simp add: deref_in)

lemma lookup_alias_contents:
  assumes "ac_inv c" "unat a < 4096" "for_each c = Some l"
  shows "\<exists>d. lookup_alias a c = Some (d, case List.find (\<lambda>p. snd p = a) l of None \<Rightarrow> 0 | Some p \<Rightarrow> fst p) \<and>
    ac_inv d \<and> same_config c d \<and> for_each d = Some (to_front (\<lambda>p. snd p = a) l)"
proof -
  obtain lru free where r: "ac_repr c lru free" using assms(1) by (auto simp: ac_inv_def)
  then have l: "l = resolved (pairs c lru)" using for_each_ok assms(3) by simp
  have bnd: "\<And>i. i \<in> set lru \<Longrightarrow> i < length (pool c)" using ac_repr_mem [OF r] by blast
  show ?thesis
  proof (cases "a \<in> akey c ` set lru")
    case False
    have no: "\<not> snd p = a" if "p \<in> set l" for p
      using that False alias_identifies [OF r assms(2)] unfolding l by (metis imageI resolved_pairs_mem snd_conv)
    obtain m it where f: "find_alias a c = Some (c\<lparr>aliasMap := m\<rparr>, it)"
      "ac_maps (c\<lparr>aliasMap := m\<rparr>) (set lru)" "it = sls_end m"
      using find_alias_ok [OF ac_reprD(2) [OF r] bnd, of a] False by metis
    have r': "ac_repr (c\<lparr>aliasMap := m\<rparr>) lru free" using ac_repr_maps(1) [OF r f(2)] .
    show ?thesis
    proof (cases "a = 0")
      case True
      with r assms(3) find_none [of l, OF no] to_front_absent [of l, OF no] show ?thesis
        by (auto simp: lookup_alias_def ac_inv_def)
    next
      case False
      with r' f(1,3) for_each_ok [OF r'] find_none [of l, OF no] to_front_absent [of l, OF no] show ?thesis
        by (auto simp: lookup_alias_def ac_inv_def l)
    qed
  next
    case True
    then obtain x where x: "x \<in> set lru" "akey c x = a" by auto
    obtain m it where f: "find_alias a c = Some (c\<lparr>aliasMap := m\<rparr>, it)"
      "ac_maps (c\<lparr>aliasMap := m\<rparr>) (set lru)" "it \<noteq> sls_end m" "sls_get m it = x"
      using find_alias_ok [OF ac_reprD(2) [OF r] bnd, of a] x by metis
    have r': "ac_repr (c\<lparr>aliasMap := m\<rparr>) lru free" using ac_repr_maps(1) [OF r f(2)] .
    obtain xs ys where s: "lru = xs @ x # ys" using x(1) by (meson split_list)
    obtain d where d: "touch x (c\<lparr>aliasMap := m\<rparr>) = Some d" "ac_repr d (x # xs @ ys) free"
      "akey d = akey c" "ikey d = ikey c" "same_config c d"
      using touch_ok [OF r' [unfolded s]] by auto
    have "a \<noteq> 0" using ac_reprD(3) [OF r] x by (auto simp: ac_data_def good_alias_def)
    then have e: "lookup_alias a c = Some (d, ikey c x)"
      using f d(1) deref_repr [OF d(2), of x] by (simp add: lookup_alias_def fields_of_pool d(4))
    note t = to_front_pairs [OF r [unfolded s], of "\<lambda>p. snd p = a"]
    have m: "snd (ikey c i, resolve_notresponding (akey c i)) = a \<longleftrightarrow> i = x" if "i \<in> set (xs @ x # ys)" for i
      using alias_match [OF r assms(2) x, of i] that s by simp
    have "for_each d = Some (to_front (\<lambda>p. snd p = a) l)"
      using for_each_ok [OF d(2)] t(1) [OF m] d(3,4) by (simp add: l s pairs_def)
    with e d t(2) [OF m] show ?thesis by (auto simp: l s ac_inv_def)
  qed
qed


text \<open>
  C34: looking an alias up returns the node id it is mapped to, or 0, and moves
  the pair found to the front: it becomes the newest one, the last that an
  \<open>add\<close> will evict. Nothing else changes.
\<close>

theorem lookup_alias_refines:
  assumes "ac_inv c" "unat a < 4096" "for_each c = Some l"
  shows "\<exists>d. lookup_alias a c = Some (d, case List.find (\<lambda>p. snd p = a) l of None \<Rightarrow> 0 | Some p \<Rightarrow> fst p) \<and>
    ac_inv d \<and> same_config c d \<and> for_each d = Some (to_front (\<lambda>p. snd p = a) l)"
  by (rule lookup_alias_contents [OF assms])

text \<open>
  looking a node id up returns its alias (\<open>NOT_RESPONDING\<close> when that is
  what is recorded), or 0, and moves the pair found to the front.
\<close>

lemma lookup_id_contents:
  assumes "ac_inv c" "i \<noteq> 0" "for_each c = Some l"
  shows "\<exists>d. lookup_id i c = Some (d, case List.find (\<lambda>p. fst p = i) l of None \<Rightarrow> 0 | Some p \<Rightarrow> snd p) \<and>
    ac_inv d \<and> same_config c d \<and> for_each d = Some (to_front (\<lambda>p. fst p = i) l)"
proof -
  obtain lru free where r: "ac_repr c lru free" using assms(1) by (auto simp: ac_inv_def)
  then have l: "l = resolved (pairs c lru)" using for_each_ok assms(3) by simp
  have bnd: "\<And>i. i \<in> set lru \<Longrightarrow> i < length (pool c)" using ac_repr_mem [OF r] by blast
  show ?thesis
  proof (cases "i \<in> ikey c ` set lru")
    case False
    have no: "\<not> fst p = i" if "p \<in> set l" for p
      using that False unfolding l by (metis imageI resolved_pairs_mem fst_conv)
    obtain m it where f: "find_id i c = Some (c\<lparr>idMap := m\<rparr>, it)"
      "ac_maps (c\<lparr>idMap := m\<rparr>) (set lru)" "it = sls_end m"
      using find_id_ok [OF ac_reprD(2) [OF r] bnd, of i] False by metis
    have r': "ac_repr (c\<lparr>idMap := m\<rparr>) lru free" using ac_repr_maps(2) [OF r f(2)] .
    with assms(2) f(1,3) for_each_ok [OF r'] find_none [of l, OF no] to_front_absent [of l, OF no] show ?thesis
      by (auto simp: lookup_id_def ac_inv_def l)
  next
    case True
    then obtain x where x: "x \<in> set lru" "ikey c x = i" by auto
    obtain m it where f: "find_id i c = Some (c\<lparr>idMap := m\<rparr>, it)"
      "ac_maps (c\<lparr>idMap := m\<rparr>) (set lru)" "it \<noteq> sls_end m" "sls_get m it = x"
      using find_id_ok [OF ac_reprD(2) [OF r] bnd, of i] x by metis
    have r': "ac_repr (c\<lparr>idMap := m\<rparr>) lru free" using ac_repr_maps(2) [OF r f(2)] .
    obtain xs ys where s: "lru = xs @ x # ys" using x(1) by (meson split_list)
    obtain d where d: "touch x (c\<lparr>idMap := m\<rparr>) = Some d" "ac_repr d (x # xs @ ys) free"
      "akey d = akey c" "ikey d = ikey c" "same_config c d"
      using touch_ok [OF r' [unfolded s]] by auto
    have e: "lookup_id i c = Some (d, resolve_notresponding (akey c x))"
      using assms(2) f d(1) deref_repr [OF d(2), of x] by (simp add: lookup_id_def fields_of_pool d(3))
    note t = to_front_pairs [OF r [unfolded s], of "\<lambda>p. fst p = i"]
    have m: "fst (ikey c j, resolve_notresponding (akey c j)) = i \<longleftrightarrow> j = x" if "j \<in> set (xs @ x # ys)" for j
      using id_match [OF r x(1), of j] x(2) that s by simp
    have "for_each d = Some (to_front (\<lambda>p. fst p = i) l)"
      using for_each_ok [OF d(2)] t(1) [OF m] d(3,4) by (simp add: l s pairs_def)
    with e d t(2) [OF m] show ?thesis by (auto simp: l s ac_inv_def)
  qed
qed

text \<open>\<open>remove\<close> drops the mapping of the alias, silently, and nothing else.\<close>

lemma remove_contents:
  assumes "ac_inv c" "unat a < 4096" "for_each c = Some l"
  shows "\<exists>d. remove a c = Some d \<and> ac_inv d \<and> same_config c d \<and>
    for_each d = Some (filter (\<lambda>p. snd p \<noteq> a) l)"
proof -
  obtain lru free where r: "ac_repr c lru free" using assms(1) by (auto simp: ac_inv_def)
  then have l: "l = resolved (pairs c lru)" using for_each_ok assms(3) by simp
  show ?thesis
  proof (cases "a \<in> akey c ` set lru")
    case False
    have no: "snd p \<noteq> a" if "p \<in> set l" for p
      using that False alias_identifies [OF r assms(2)] unfolding l by (metis imageI resolved_pairs_mem snd_conv)
    obtain d where d: "remove a c = Some d" "ac_repr d lru free" "pool d = pool c" "same_config c d"
      using remove_miss [OF r False] by blast
    have "pairs d lru = pairs c lru" by (rule pairs_cong) (simp_all add: akey_def ikey_def d(3))
    with d for_each_ok [OF d(2)] show ?thesis
      using no filter_True [of l "\<lambda>p. snd p \<noteq> a"] by (auto simp: ac_inv_def l)
  next
    case True
    then obtain x where x: "x \<in> set lru" "akey c x = a" by auto
    obtain xs ys where s: "lru = xs @ x # ys" using x(1) by (meson split_list)
    obtain d where d: "remove a c = Some d" "ac_repr d (xs @ ys) (x # free)" "akey d = akey c"
      "ikey d = (ikey c)(x := 0)" "same_config c d"
      using remove_hit [OF r [unfolded s]] x(2) by auto
    note t = to_front_pairs [OF r [unfolded s], of "\<lambda>p. snd p = a"]
    have m: "snd (ikey c i, resolve_notresponding (akey c i)) = a \<longleftrightarrow> i = x" if "i \<in> set (xs @ x # ys)" for i
      using alias_match [OF r assms(2) x, of i] that s by simp
    have "pairs d (xs @ ys) = pairs c (xs @ ys)"
      using ac_repr_inj(3) [OF r] by (intro pairs_cong) (auto simp: d(3,4) s)
    with for_each_ok [OF d(2)] t(3) [OF m] have "for_each d = Some (filter (\<lambda>p. snd p \<noteq> a) l)"
      by (simp add: l s)
    with d show ?thesis by (auto simp: ac_inv_def)
  qed
qed

subsection \<open>clear and the constructor\<close>

lemma clear_entry_fields [simp]:
  "length (pool (clear_entry i c)) = length (pool c)" "entries (clear_entry i c) = entries c"
  "newest (clear_entry i c) = newest c" "oldest (clear_entry i c) = oldest c"
  "aliasMap (clear_entry i c) = aliasMap c" "idMap (clear_entry i c) = idMap c"
  "seed (clear_entry i c) = seed c" "has_callback (clear_entry i c) = has_callback c"
  by (simp_all add: clear_entry_def)

lemma clear_fold:
  assumes "n \<le> length (pool c)" "length (pool c) \<le> 4096" "freeList c = NONE_ENTRY"
  defines "d \<equiv> fold clear_entry [0..<n] c"
  shows "chain (ol d) (rev [0..<n]) NONE_ENTRY \<and> freeList d = hd_or (rev [0..<n]) NONE_ENTRY \<and>
    length (pool d) = length (pool c) \<and> entries d = entries c \<and> newest d = newest c \<and>
    oldest d = oldest c \<and> aliasMap d = aliasMap c \<and> idMap d = idMap c \<and> seed d = seed c \<and>
    has_callback d = has_callback c"
  using assms(1) unfolding d_def
proof (induction n)
  case 0
  with assms(3) show ?case by simp
next
  case (Suc n)
  let ?e = "fold clear_entry [0..<n] c"
  let ?d = "clear_entry n ?e"
  have ih: "chain (ol ?e) (rev [0..<n]) NONE_ENTRY" "freeList ?e = hd_or (rev [0..<n]) NONE_ENTRY"
    "length (pool ?e) = length (pool c)"
    using Suc by simp_all
  have ol: "ol ?d = (ol ?e)(n := freeList ?e)"
    using Suc.prems ih(3) by (auto simp: ol_def clear_entry_def fun_eq_iff nth_list_update)
  have "chain (ol ?d) (rev [0..<n]) NONE_ENTRY"
    using ih(1) by (simp add: ol)
  then have "chain (ol ?d) (rev [0..<Suc n]) NONE_ENTRY"
    using ih(2) by (simp add: ol)
  moreover have "freeList ?d = n"
    using Suc.prems assms(2) by (simp add: clear_entry_def pool_idx_in)
  ultimately show ?case using Suc by simp
qed

lemma clear_ok:
  assumes "length (pool c) = entries c" "entries c \<le> 4096"
  shows "ac_repr (clear c) [] (rev [0..<entries c])" "same_config c (clear c)"
proof -
  let ?c = "c\<lparr>idMap := sls_clear (idMap c), aliasMap := sls_clear (aliasMap c),
    oldest := NONE_ENTRY, newest := NONE_ENTRY, freeList := NONE_ENTRY\<rparr>"
  have f: "chain (ol (clear c)) (rev [0..<entries c]) NONE_ENTRY"
    "freeList (clear c) = hd_or (rev [0..<entries c]) NONE_ENTRY"
    "length (pool (clear c)) = length (pool c)" "entries (clear c) = entries c"
    "newest (clear c) = NONE_ENTRY" "oldest (clear c) = NONE_ENTRY"
    "aliasMap (clear c) = sls_clear (aliasMap c)" "idMap (clear c) = sls_clear (idMap c)"
    "seed (clear c) = seed c" "has_callback (clear c) = has_callback c"
    using clear_fold [of "entries c" ?c] assms by (simp_all add: clear_def)
  show "same_config c (clear c)" using f by (simp add: same_config_def)
  show "ac_repr (clear c) [] (rev [0..<entries c])"
    using f assms
    by (auto simp: ac_repr_def ac_links_def ac_maps_def ac_data_def sls_ok_def sls_clear_def sls_elems_def)
qed

lemma ac_inv_sizes:
  assumes "ac_inv c"
  shows "length (pool c) = entries c" "entries c \<le> 4096"
  using assms by (auto simp: ac_inv_def dest: ac_reprD)

lemma clear_contents:
  assumes "length (pool c) = entries c" "entries c \<le> 4096"
  shows "ac_inv (clear c) \<and> for_each (clear c) = Some [] \<and> same_config c (clear c)"
  using clear_ok [OF assms] for_each_ok [OF clear_ok(1) [OF assms]] by (auto simp: ac_inv_def)

text \<open>
  \<open>clear\<close> brings a cache, in whatever state its links are, to a
  consistent state without any mapping. The constructor ends with it.
\<close>

theorem clear_establishes_invariant:
  assumes "length (pool c) = entries c" "entries c \<le> 4096"
  shows "ac_inv (clear c) \<and> for_each (clear c) = Some [] \<and> same_config c (clear c)"
  by (rule clear_contents [OF assms])

lemma alias_cache_new_ok:
  assumes "n \<le> 4096"
  shows "ac_repr (alias_cache_new s n cb) [] (rev [0..<n])" "entries (alias_cache_new s n cb) = n"
    "has_callback (alias_cache_new s n cb) = cb" "seed (alias_cache_new s n cb) = s"
proof -
  let ?c = "\<lparr>pool = replicate n metadata_init, aliasMap = sls_new, idMap = sls_new,
    freeList = NONE_ENTRY, oldest = NONE_ENTRY, newest = NONE_ENTRY, seed = s, entries = n, has_callback = cb\<rparr>"
  have c: "length (pool ?c) = entries ?c" "entries ?c \<le> 4096" using assms by simp_all
  show "ac_repr (alias_cache_new s n cb) [] (rev [0..<n])"
    using clear_ok(1) [OF c] by (simp add: alias_cache_new_def)
  show "entries (alias_cache_new s n cb) = n" "has_callback (alias_cache_new s n cb) = cb"
    "seed (alias_cache_new s n cb) = s"
    using clear_ok(2) [OF c] by (simp_all add: alias_cache_new_def same_config_def)
qed


subsection \<open>A concrete cache\<close>

text \<open>
  A cache for two mappings with both in use: 0x50101 is known as 0x123 and is
  the older one, 0x50102 does not respond.
\<close>

definition demo_cache :: alias_cache where
  "demo_cache = fst (the (do {
     (c, _) \<leftarrow> add 0x50101 0x123 (alias_cache_new 1 2 True);
     add 0x50102 NOT_RESPONDING c
   }))"

lemma demo_valid: "valid_alias 0x123" "valid_alias NOT_RESPONDING" "valid_alias 0x7FF"
  by (simp_all add: valid_alias_def NOT_RESPONDING_def)

lemma alias_cache_new_contents:
  assumes "n \<le> 4096"
  shows "ac_inv (alias_cache_new s n cb)" "for_each (alias_cache_new s n cb) = Some []"
  using alias_cache_new_ok(1) [OF assms] for_each_ok [OF alias_cache_new_ok(1) [OF assms]]
  by (auto simp: ac_inv_def)

lemma demo_cache_ok:
  "ac_inv demo_cache" "entries demo_cache = 2" "has_callback demo_cache"
  "for_each demo_cache = Some [(0x50102, NOT_RESPONDING), (0x50101, 0x123)]"
proof -
  let ?n = "alias_cache_new 1 2 True"
  have n: "ac_inv ?n" "entries ?n = 2" "has_callback ?n" "for_each ?n = Some []"
    using alias_cache_new_ok [of 2 1 True] alias_cache_new_contents [of 2 1 True] by auto
  have s: "spec_add 2 0x50101 0x123 0x123 [] = ([(0x50101, 0x123)], [])"
    "spec_add 2 0x50102 NOT_RESPONDING NOT_RESPONDING [(0x50101, 0x123)] =
      ([(0x50102, NOT_RESPONDING), (0x50101, 0x123)], [])" by code_simp+
  obtain c l where c: "add 0x50101 0x123 ?n = Some (c, l)" "ac_inv c" "same_config ?n c"
    "for_each c = Some [(0x50101, 0x123)]"
    using add_contents [OF n(1) _ _ _ demo_valid(1) n(4), of "0x50101"] n(2) s(1) by auto
  have c': "entries c = 2" "has_callback c" using n c(3) by (simp_all add: same_config_def)
  obtain d m where d: "add 0x50102 NOT_RESPONDING c = Some (d, m)" "ac_inv d" "same_config c d"
    "for_each d = Some [(0x50102, NOT_RESPONDING), (0x50101, 0x123)]"
    using add_contents [OF c(2) _ _ _ demo_valid(2) c(4), of "0x50102"] c' s(2) by auto
  with c c' show "ac_inv demo_cache" "entries demo_cache = 2" "has_callback demo_cache"
    "for_each demo_cache = Some [(0x50102, NOT_RESPONDING), (0x50101, 0x123)]"
    by (simp_all add: demo_cache_def same_config_def)
qed

lemmas demo_cache_contents = demo_cache_ok(4)

theorem add_refines_spec_witness:
  "\<exists>d log. add 0x50103 0x7FF demo_cache = Some (d, log) \<and> ac_inv d \<and>
    for_each d = Some [(0x50103, 0x7FF), (0x50102, NOT_RESPONDING)] \<and> resolved log = [(0x50101, 0x123)]"
proof -
  have "spec_add 2 0x50103 0x7FF 0x7FF [(0x50102, NOT_RESPONDING), (0x50101, 0x123)] =
    ([(0x50103, 0x7FF), (0x50102, NOT_RESPONDING)], [(0x50101, 0x123)])" by code_simp
  then show ?thesis
    using add_refines_spec [OF demo_cache_ok(1) _ _ _ demo_valid(3) demo_cache_contents, of "0x50103"]
      demo_cache_ok(2,3) by auto
qed

theorem lookup_alias_refines_witness:
  "\<exists>d. lookup_alias 0x123 demo_cache = Some (d, 0x50101) \<and>
    for_each d = Some [(0x50101, 0x123), (0x50102, NOT_RESPONDING)]"
  using lookup_alias_refines [OF demo_cache_ok(1) _ demo_cache_contents, of "0x123"]
  by (auto simp: to_front_def NOT_RESPONDING_def)

theorem clear_establishes_invariant_witness:
  "ac_inv (clear demo_cache) \<and> for_each (clear demo_cache) = Some []"
  using clear_establishes_invariant [OF ac_inv_sizes [OF demo_cache_ok(1)]] by simp

end
