(* ===== verification/AliasCacheRun.thy ===== *)
theory AliasCacheRun
  imports AliasCacheSpec
begin

section \<open>The alias cache: sequences of operations\<close>

text \<open>
  Facts about whole runs of the cache: what can be in it, that no mapping is
  ever lost silently, the iteration by node id, and that a client that only
  passes valid arguments never hits an assertion.
\<close>

subsection \<open>What a consistent cache contains\<close>

lemma inv_contents:
  assumes "ac_inv c"
  obtains lru free where "ac_repr c lru free" "for_each c = Some (resolved (pairs c lru))"
  using assms for_each_ok by (auto simp: ac_inv_def)

lemma contents_distinct:
  assumes "ac_inv c" "for_each c = Some l"
  shows "distinct (map fst l) \<and> distinct (filter (\<lambda>a. a \<noteq> NOT_RESPONDING) (map snd l)) \<and>
    length l \<le> entries c \<and> list_all (\<lambda>p. fst p \<noteq> 0 \<and> valid_alias (snd p)) l"
proof -
  obtain lru free where r: "ac_repr c lru free" "l = resolved (pairs c lru)"
    using inv_contents [OF assms(1)] assms(2) by (metis option.inject)
  have l: "map fst l = map (ikey c) lru" "map snd l = map (resolve_notresponding \<circ> akey c) lru"
    by (simp_all add: r(2) resolved_def pairs_def)
  have "distinct (map fst l)"
    using ac_repr_inj [OF r(1)] by (simp add: l distinct_map)
  moreover have "distinct (filter (\<lambda>a. a \<noteq> NOT_RESPONDING) (map snd l))"
  proof -
    have "inj_on (resolve_notresponding \<circ> akey c)
      (set (filter (\<lambda>i. resolve_notresponding (akey c i) \<noteq> NOT_RESPONDING) lru))"
    proof (rule inj_onI)
      fix i j
      assume i: "i \<in> set (filter (\<lambda>i. resolve_notresponding (akey c i) \<noteq> NOT_RESPONDING) lru)"
        and j: "j \<in> set (filter (\<lambda>i. resolve_notresponding (akey c i) \<noteq> NOT_RESPONDING) lru)"
        and e: "(resolve_notresponding \<circ> akey c) i = (resolve_notresponding \<circ> akey c) j"
      have "akey c i = akey c j"
        using i j e by (auto simp: resolve_notresponding_def split: if_splits)
      with i j ac_repr_inj(1) [OF r(1)] show "i = j" by (auto simp: inj_on_def)
    qed
    then show ?thesis
      using ac_repr_inj(3) [OF r(1)] by (simp add: l filter_map o_def distinct_map)
  qed
  moreover have "length l \<le> entries c"
    using ac_repr_length [OF r(1)] by (simp add: r(2))
  moreover have "list_all (\<lambda>p. fst p \<noteq> 0 \<and> valid_alias (snd p)) l"
    using ac_reprD(3) [OF r(1)] valid_resolved
    by (fastforce simp: list_all_iff r(2) resolved_pairs_mem ac_data_def)
  ultimately show ?thesis by blast
qed

subsection \<open>No mapping is lost silently\<close>

lemma spec_add_conserves:
  assumes "spec_add n i a s l = (l', log)"
  shows "mset l' + mset log = add_mset (i, s) (mset l)"
proof -
  define l1 where "l1 = filter (\<lambda>p. \<not> drops a p) l"
  define l2 where "l2 = filter (\<lambda>p. fst p \<noteq> i) l1"
  define l3 where "l3 = (if length l2 < n then l2 else butlast l2)"
  have 1: "mset l = mset (filter (drops a) l) + mset l1"
    by (simp add: l1_def)
  have 2: "mset l1 = mset (filter (\<lambda>p. fst p = i) l1) + mset l2"
    using multiset_partition [of "mset l1" "\<lambda>p. fst p = i"] by (simp add: l2_def)
  have 3: "mset l2 = mset l3 + mset (drop (length l3) l2)"
  proof -
    have "take (length l3) l2 = l3" by (simp add: l3_def butlast_conv_take)
    then show ?thesis by (metis append_take_drop_id mset_append)
  qed
  have 4: "l' = (i, s) # l3"
    "log = filter (drops a) l @ filter (\<lambda>p. fst p = i) l1 @ drop (length l3) l2"
  proof -
    have "spec_add n i a s l =
        ((i, s) # l3, filter (drops a) l @ filter (\<lambda>p. fst p = i) l1 @ drop (length l3) l2)"
      by (simp only: spec_add_def Let_def l3_def l2_def l1_def)
    with assms show "l' = (i, s) # l3"
      "log = filter (drops a) l @ filter (\<lambda>p. fst p = i) l1 @ drop (length l3) l2" by simp_all
  qed
  have "mset l = mset (filter (drops a) l) + (mset (filter (\<lambda>p. fst p = i) l1) +
      (mset l3 + mset (drop (length l3) l2)))"
    by (simp only: 1 2 3)
  then show ?thesis by (simp only: 4 mset.simps mset_append union_mset_add_mset_left
      union_mset_add_mset_right ac_simps)
qed

text \<open>
  C30: with a removal callback, \<open>add\<close> accounts for every mapping: what was in
  the cache and the new pair are, together, exactly what is in the cache
  afterwards and what the callback was told about, each exactly once.
\<close>

theorem add_conserves_mappings:
  assumes "ac_inv c" "0 < entries c" "i \<noteq> 0" "unat i < 2 ^ 48" "valid_alias a"
    "has_callback c" "for_each c = Some l"
  shows "\<exists>d log l'. add i a c = Some (d, log) \<and> for_each d = Some l' \<and>
    mset l' + mset (resolved log) = add_mset (i, a) (mset l)"
proof -
  obtain d log where d: "add i a c = Some (d, log)"
    "for_each d = Some (fst (spec_add (entries c) i a a l))"
    "resolved log = snd (spec_add (entries c) i a a l)"
    using add_contents [OF assms(1-5) assms(7)] assms(6) by auto
  with spec_add_conserves [of "entries c" i a a l] show ?thesis by force
qed

theorem add_conserves_mappings_witness:
  "\<exists>d log l'. add 0x50103 0x123 demo_cache = Some (d, log) \<and> for_each d = Some l' \<and>
    mset l' + mset (resolved log) = {#(0x50103, 0x123), (0x50102, NOT_RESPONDING), (0x50101, 0x123)#}"
  using add_conserves_mappings [OF demo_cache_ok(1) _ _ _ demo_valid(1) demo_cache_ok(3) demo_cache_contents,
    of "0x50103"] demo_cache_ok(2) by simp

subsection \<open>Iteration by node id\<close>

lemma upper_bound_sorted:
  assumes s: "sls_ok key s" and u: "sls_upper_bound key k s = (t, n)"
  shows "t = sls_lazy_init key s" "n \<le> length (container t)" "sls_end t = length (container t)"
    "n = length (container t) \<Longrightarrow> d \<in> sls_elems s \<Longrightarrow> \<not> k < key d"
    "n < length (container t) \<Longrightarrow> container t ! n \<in> sls_elems s \<and> k < key (container t ! n) \<and>
      (\<forall>d \<in> sls_elems s. k < key d \<longrightarrow> key (container t ! n) \<le> key d)"
proof -
  let ?P = "\<lambda>d. \<not> k < key d"
  let ?cs = "container (sls_lazy_init key s)"
  note L = sls_lazy_sorted [OF s]
  show t: "t = sls_lazy_init key s" using u by (simp add: sls_upper_bound_def Let_def)
  have n: "n = length (takeWhile ?P ?cs)" using u by (auto simp: sls_upper_bound_def Let_def)
  show "n \<le> length (container t)" by (simp add: n t length_takeWhile_le)
  show "sls_end t = length (container t)" using L(2) by (simp add: t sls_end_def)
  show "\<not> k < key d" if "n = length (container t)" "d \<in> sls_elems s"
  proof -
    have "takeWhile ?P ?cs = ?cs" using that(1) n t by (metis takeWhile_eq_take take_all_iff order_refl)
    moreover have "d \<in> set ?cs" using that(2) L(4) by (simp add: sls_elems_def)
    ultimately show ?thesis by (metis set_takeWhileD)
  qed
  assume lt: "n < length (container t)"
  have nth: "k < key (?cs ! n)" using nth_length_takeWhile [of ?P ?cs] lt n t by simp
  moreover have "?cs ! n \<in> set ?cs" using lt t by simp
  moreover have "key (?cs ! n) \<le> key d" if d: "d \<in> set ?cs" "k < key d" for d
  proof -
    obtain j where j: "j < length ?cs" "?cs ! j = d"
      using d(1) unfolding in_set_conv_nth by blast
    have "\<not> j < n"
    proof
      assume "j < n"
      then have "takeWhile ?P ?cs ! j = d" "j < length (takeWhile ?P ?cs)"
        using n j by (simp_all add: takeWhile_nth)
      then have "?P d" by (metis nth_mem set_takeWhileD)
      with d(2) show False by simp
    qed
    with j L(1) show ?thesis by (auto simp: sorted_iff_nth_mono)
  qed
  ultimately show "container t ! n \<in> sls_elems s \<and> k < key (container t ! n) \<and>
      (\<forall>d \<in> sls_elems s. k < key d \<longrightarrow> key (container t ! n) \<le> key d)"
    using L(4) by (simp add: t sls_elems_def)
qed

lemma next_entry_contents:
  assumes "ac_inv c" "for_each c = Some l"
  shows "\<exists>d res. next_entry bound c = Some (d, res) \<and> ac_inv d \<and> for_each d = Some l \<and>
    (case res of
       None \<Rightarrow> (\<forall>p \<in> set l. fst p \<le> bound)
     | Some p \<Rightarrow> p \<in> set l \<and> bound < fst p \<and> (\<forall>q \<in> set l. bound < fst q \<longrightarrow> fst p \<le> fst q))"
proof -
  obtain lru free where r: "ac_repr c lru free" "l = resolved (pairs c lru)"
    using inv_contents [OF assms(1)] assms(2) by (metis option.inject)
  have o: "sls_ok (ikey c) (idMap c)" "sls_elems (idMap c) = set lru"
    using ac_reprD(2) [OF r(1)] by (simp_all add: ac_maps_def)
  obtain m n where u: "sls_upper_bound (ikey c) bound (idMap c) = (m, n)" by fastforce
  note U = upper_bound_sorted [OF o(1) u, unfolded o(2)]
  let ?d = "c\<lparr>idMap := m\<rparr>"
  have "ac_maps ?d (set lru)"
    using ac_reprD(2) [OF r(1)] sls_lazy_ok [OF o(1)] sls_lazy_sorted(4) [OF o(1)]
    by (simp add: ac_maps_def U(1) sls_elems_def)
  then have d: "ac_repr ?d lru free" by (rule ac_repr_maps(2) [OF r(1)])
  then have fe: "for_each ?d = Some l" "ac_inv ?d"
    using for_each_ok [OF d] by (auto simp: r(2) ac_inv_def)
  have ip: "in_pool c (idMap c)"
    using ac_repr_mem [OF r(1)] by (simp add: in_pool_elems o(2))
  show ?thesis
  proof (cases "n = length (container m)")
    case True
    then have "next_entry bound c = Some (?d, None)"
      using ip u U(3) by (simp add: next_entry_def)
    moreover have "\<forall>p \<in> set l. fst p \<le> bound"
      using U(4) [OF True] by (auto simp: r(2) resolved_pairs_mem not_less)
    ultimately show ?thesis using fe by auto
  next
    case False
    let ?x = "container m ! n"
    have x: "?x \<in> set lru" "bound < ikey c ?x" "\<And>i. i \<in> set lru \<Longrightarrow> bound < ikey c i \<Longrightarrow> ikey c ?x \<le> ikey c i"
      using U(2,5) False by auto
    let ?p = "(ikey c ?x, resolve_notresponding (akey c ?x))"
    have "next_entry bound c = Some (?d, Some ?p)"
      using ip u U(3) False deref_repr [OF d x(1)]
      by (simp add: next_entry_def sls_get_def) (simp add: fields_of_pool)
    moreover have "?p \<in> set l" "\<forall>q \<in> set l. bound < fst q \<longrightarrow> fst ?p \<le> fst q"
      using x by (auto simp: r(2) resolved_pairs_mem)
    ultimately show ?thesis using fe x(2) by auto
  qed
qed

text \<open>
  C36: \<open>next_entry\<close> finds the mapping with the least node id above the bound,
  or reports that there is none, and leaves the contents and their order alone.
\<close>

theorem next_entry_least:
  assumes "ac_inv c" "for_each c = Some l"
  shows "\<exists>d res. next_entry bound c = Some (d, res) \<and> ac_inv d \<and> for_each d = Some l \<and>
    (case res of
       None \<Rightarrow> (\<forall>p \<in> set l. fst p \<le> bound)
     | Some p \<Rightarrow> p \<in> set l \<and> bound < fst p \<and> (\<forall>q \<in> set l. bound < fst q \<longrightarrow> fst p \<le> fst q))"
  by (rule next_entry_contents [OF assms])

theorem next_entry_least_witness:
  "\<exists>d. next_entry 0x50000 demo_cache = Some (d, Some (0x50101, 0x123))"
proof -
  let ?l = "[(0x50102, NOT_RESPONDING), (0x50101, 0x123)] :: remove_log"
  from next_entry_least [OF demo_cache_ok(1) demo_cache_contents, of "0x50000"] obtain d res where
    d: "next_entry 0x50000 demo_cache = Some (d, res)" and
    r: "case res of None \<Rightarrow> \<forall>p \<in> set ?l. fst p \<le> 0x50000
     | Some p \<Rightarrow> p \<in> set ?l \<and> 0x50000 < fst p \<and> (\<forall>q \<in> set ?l. 0x50000 < fst q \<longrightarrow> fst p \<le> fst q)"
    by (elim exE conjE) (rule that)
  from r have "res = Some (0x50101, 0x123)" by (auto split: option.splits)
  with d show ?thesis by blast
qed


subsection \<open>Runs\<close>

text \<open>
  The calls a client can make, with the answer each gives; the callback log
  of a call is the second component, empty for all but \<open>add\<close>.
\<close>

datatype ac_op =
  Add node_id node_alias
| Remove node_alias
| Lookup_id node_id
| Lookup_alias node_alias
| Next node_id
| Retrieve nat
| Clear

datatype ac_answer =
  Done
| Alias_is node_alias
| Id_is node_id
| Entry "(node_id \<times> node_alias) option"

fun run_op :: "ac_op \<Rightarrow> alias_cache \<Rightarrow> (alias_cache \<times> ac_answer \<times> remove_log) option" where
  "run_op (Add i a) c = do { (d, log) \<leftarrow> add i a c; Some (d, Done, log) }"
| "run_op (Remove a) c = do { d \<leftarrow> remove a c; Some (d, Done, []) }"
| "run_op (Lookup_id i) c = do { (d, a) \<leftarrow> lookup_id i c; Some (d, Alias_is a, []) }"
| "run_op (Lookup_alias a) c = do { (d, i) \<leftarrow> lookup_alias a c; Some (d, Id_is i, []) }"
| "run_op (Next b) c = do { (d, r) \<leftarrow> next_entry b c; Some (d, Entry r, []) }"
| "run_op (Retrieve n) c = do { r \<leftarrow> retrieve n c; Some (c, Entry r, []) }"
| "run_op Clear c = Some (clear c, Done, [])"

fun run_ops :: "ac_op list \<Rightarrow> alias_cache \<Rightarrow> (alias_cache \<times> remove_log) option" where
  "run_ops [] c = Some (c, [])"
| "run_ops (x # xs) c = do {
     (d, _, log) \<leftarrow> run_op x c;
     (e, log') \<leftarrow> run_ops xs d;
     Some (e, log @ log')
   }"

fun valid_op :: "nat \<Rightarrow> ac_op \<Rightarrow> bool" where
  "valid_op n (Add i a) \<longleftrightarrow> i \<noteq> 0 \<and> unat i < 2 ^ 48 \<and> valid_alias a"
| "valid_op n (Remove a) \<longleftrightarrow> unat a < 4096"
| "valid_op n (Lookup_id i) \<longleftrightarrow> i \<noteq> 0"
| "valid_op n (Lookup_alias a) \<longleftrightarrow> unat a < 4096"
| "valid_op n (Retrieve e) \<longleftrightarrow> e < n"
| "valid_op n _ \<longleftrightarrow> True"

text \<open>The abstract machine: the contents, newest first, and what is reported.\<close>

fun spec_op :: "nat \<Rightarrow> ac_op \<Rightarrow> remove_log \<Rightarrow> remove_log \<times> remove_log" where
  "spec_op n (Add i a) l = spec_add n i a a l"
| "spec_op n (Remove a) l = (filter (\<lambda>p. snd p \<noteq> a) l, [])"
| "spec_op n (Lookup_id i) l = (to_front (\<lambda>p. fst p = i) l, [])"
| "spec_op n (Lookup_alias a) l = (to_front (\<lambda>p. snd p = a) l, [])"
| "spec_op n Clear l = ([], [])"
| "spec_op n _ l = (l, [])"

fun spec_ops :: "nat \<Rightarrow> ac_op list \<Rightarrow> remove_log \<Rightarrow> remove_log \<times> remove_log" where
  "spec_ops n [] l = (l, [])"
| "spec_ops n (x # xs) l =
     (let (m, log) = spec_op n x l; (m', log') = spec_ops n xs m in (m', log @ log'))"

lemma run_op_refines:
  assumes "ac_inv c" "0 < entries c" "valid_op (entries c) x" "for_each c = Some l"
  shows "\<exists>d r log. run_op x c = Some (d, r, log) \<and> ac_inv d \<and> same_config c d \<and>
    for_each d = Some (fst (spec_op (entries c) x l)) \<and>
    resolved log = (if has_callback c then snd (spec_op (entries c) x l) else [])"
proof (cases x)
  case (Add i a)
  with add_contents [OF assms(1,2) _ _ _ assms(4), of i a] assms(3) show ?thesis by auto
next
  case (Remove a)
  with remove_contents [OF assms(1) _ assms(4), of a] assms(3) show ?thesis by auto
next
  case (Lookup_id i)
  with lookup_id_contents [OF assms(1) _ assms(4), of i] assms(3) show ?thesis by auto
next
  case (Lookup_alias a)
  with lookup_alias_contents [OF assms(1) _ assms(4), of a] assms(3) show ?thesis by auto
next
  case (Next b)
  have "\<exists>d r. next_entry b c = Some (d, r) \<and> ac_inv d \<and> same_config c d \<and> for_each d = Some l"
  proof -
    obtain d r where d: "next_entry b c = Some (d, r)" "ac_inv d" "for_each d = Some l"
      using next_entry_contents [OF assms(1,4), of b] by blast
    have "same_config c d"
      using d(1) by (auto simp: next_entry_def same_config_def Let_def split: prod.splits if_splits
          bind_splits)
    with d show ?thesis by blast
  qed
  with Next show ?thesis by auto
next
  case (Retrieve n)
  with assms ac_inv_sizes(1) [OF assms(1)] show ?thesis by (auto simp: retrieve_def)
next
  case Clear
  with clear_contents [OF ac_inv_sizes [OF assms(1)]] show ?thesis by simp
qed

lemma run_ops_refines:
  assumes "ac_inv c" "0 < entries c" "list_all (valid_op (entries c)) ops" "for_each c = Some l"
  shows "\<exists>d log. run_ops ops c = Some (d, log) \<and> ac_inv d \<and> same_config c d \<and>
    for_each d = Some (fst (spec_ops (entries c) ops l)) \<and>
    resolved log = (if has_callback c then snd (spec_ops (entries c) ops l) else [])"
  using assms
proof (induction ops arbitrary: c l)
  case Nil
  then show ?case by simp
next
  case (Cons x xs)
  obtain m1 k1 where m1: "spec_op (entries c) x l = (m1, k1)" by fastforce
  obtain d r log where d: "run_op x c = Some (d, r, log)" "ac_inv d" "same_config c d"
    "for_each d = Some m1" "resolved log = (if has_callback c then k1 else [])"
    using run_op_refines [OF Cons.prems(1,2) _ Cons.prems(4), of x] Cons.prems(3) m1 by auto
  have cfg: "entries d = entries c" "has_callback d = has_callback c"
    using d(3) by (simp_all add: same_config_def)
  obtain e log' where e: "run_ops xs d = Some (e, log')" "ac_inv e" "same_config d e"
    "for_each e = Some (fst (spec_ops (entries c) xs m1))"
    "resolved log' = (if has_callback c then snd (spec_ops (entries c) xs m1) else [])"
    using Cons.IH [OF d(2) _ _ d(4)] Cons.prems(2,3) cfg by auto
  show ?case
    using d(1,5) e m1 same_config_trans [OF d(3) e(3)] by (auto simp: split_beta)
qed

text \<open>
  C2: from construction on, every sequence of calls with valid arguments
  runs without a failed assertion or an access outside the pool, and the cache
  ends with exactly the contents, in exactly the order, and with exactly the
  callback log of the abstract machine that works on a list of pairs.
\<close>

theorem cache_runs_refine_spec:
  assumes "0 < n" "n \<le> 4096" "list_all (valid_op n) ops"
  shows "\<exists>c log. run_ops ops (alias_cache_new s n cb) = Some (c, log) \<and> ac_inv c \<and>
    for_each c = Some (fst (spec_ops n ops [])) \<and>
    resolved log = (if cb then snd (spec_ops n ops []) else [])"
  using run_ops_refines [OF alias_cache_new_contents(1) [OF assms(2)] _ _ alias_cache_new_contents(2) [OF assms(2)],
      of s cb ops] assms alias_cache_new_ok(2,3) [OF assms(2), of s cb] by auto

theorem cache_runs_refine_spec_witness:
  "\<exists>c log. run_ops [Add 1 5, Add 2 6, Lookup_alias 5, Add 3 7, Next 1, Remove 7, Retrieve 1]
      (alias_cache_new 9 2 True) = Some (c, log) \<and>
    for_each c = Some [(1, 5)] \<and> resolved log = [(2, 6)]"
proof -
  let ?ops = "[Add 1 5, Add 2 6, Lookup_alias 5, Add 3 7, Next 1, Remove 7, Retrieve 1]"
  have "list_all (valid_op 2) ?ops" by (simp add: valid_alias_def)
  moreover have "spec_ops 2 ?ops [] = ([(1, 5)], [(2, 6)])" by code_simp
  ultimately show ?thesis
    using cache_runs_refine_spec [of 2 ?ops 9 True] by auto
qed

text \<open>
  C22: from construction on, after every sequence of calls with valid arguments the cache maps no node id
  twice and no alias twice (except \<open>NOT_RESPONDING\<close>, which several nodes may have), its aliases are
  valid and it holds at most as many pairs as it was constructed for.
\<close>

theorem contents_unique:
  assumes "0 < n" "n \<le> 4096" "list_all (valid_op n) ops"
  shows "\<exists>c log l. run_ops ops (alias_cache_new s n cb) = Some (c, log) \<and> for_each c = Some l \<and>
    distinct (map fst l) \<and> distinct (filter (\<lambda>a. a \<noteq> NOT_RESPONDING) (map snd l)) \<and>
    length l \<le> n \<and> list_all (\<lambda>p. fst p \<noteq> 0 \<and> valid_alias (snd p)) l"
proof -
  note new = alias_cache_new_contents [OF assms(2)] alias_cache_new_ok(2,3) [OF assms(2), of s cb]
  obtain c log where c: "run_ops ops (alias_cache_new s n cb) = Some (c, log)" "ac_inv c"
    "same_config (alias_cache_new s n cb) c" "for_each c = Some (fst (spec_ops n ops []))"
    using run_ops_refines [OF new(1) _ _ new(2), of s cb ops] assms new(3,4) by auto
  have "entries c = n" using c(3) new by (simp add: same_config_def)
  then show ?thesis using contents_distinct [OF c(2,4)] c(1,4) by auto
qed

theorem contents_unique_witness:
  "\<exists>c log. run_ops [Add 1 5, Add 2 NOT_RESPONDING, Add 3 5, Add 3 6, Add 4 NOT_RESPONDING, Add 5 6] (alias_cache_new 9 3 False) =
      Some (c, log) \<and> (\<exists>l. for_each c = Some l \<and> distinct (map fst l) \<and> length l \<le> 3)"
proof -
  have "list_all (valid_op 3) [Add 1 5, Add 2 NOT_RESPONDING, Add 3 5, Add 3 6, Add 4 NOT_RESPONDING, Add 5 6]"
    by (simp add: valid_alias_def NOT_RESPONDING_def)
  then show ?thesis using contents_unique [of 3 _ 9 False] by fastforce
qed

subsection \<open>Entries that are not allocated\<close>

lemma clear_pool_entry:
  assumes "i < length (pool c)"
  shows "md_alias (pool (clear c) ! i) = md_alias (pool c ! i)"
    "get_node_id (pool (clear c) ! i) = get_node_id (pool c ! i)"
proof -
  have "length (pool (fold clear_entry xs d)) = length (pool d) \<and>
      md_alias (pool (fold clear_entry xs d) ! i) = md_alias (pool d ! i) \<and>
      get_node_id (pool (fold clear_entry xs d) ! i) = get_node_id (pool d ! i)"
    if "i < length (pool d)" for xs d
    using that
  proof (induction xs arbitrary: d)
    case (Cons x xs)
    have "md_alias (pool (clear_entry x d) ! i) = md_alias (pool d ! i)"
      "get_node_id (pool (clear_entry x d) ! i) = get_node_id (pool d ! i)"
      using Cons.prems by (cases "x = i"; simp add: clear_entry_def)+
    with Cons show ?case by simp
  qed simp
  then show "md_alias (pool (clear c) ! i) = md_alias (pool c ! i)"
    "get_node_id (pool (clear c) ! i) = get_node_id (pool c ! i)"
    using assms by (simp_all add: clear_def)
qed

text \<open>
  the documentation of \<open>retrieve\<close> says that it returns false for an entry
  that is not allocated. It tests the stored alias, which \<open>clear\<close> does not
  reset: after \<open>clear\<close> every entry is free and still reports its old mapping.
\<close>

theorem retrieve_survives_clear:
  assumes "length (pool c) = entries c" "entries c \<le> 4096" "i < entries c"
    "retrieve i c = Some (Some p)"
  shows "retrieve i (clear c) = Some (Some p) \<and> for_each (clear c) = Some []"
proof -
  have "entries (clear c) = entries c" "length (pool (clear c)) = entries c"
    "for_each (clear c) = Some []"
    using clear_contents [OF assms(1,2)] ac_inv_sizes [of "clear c"]
    by (simp_all add: same_config_def)
  with assms clear_pool_entry [of i c] show ?thesis
    by (auto simp: retrieve_def split: if_splits)
qed

theorem retrieve_survives_clear_witness:
  "retrieve 0 (clear (alias_cache_new 1 1 True\<lparr>pool := [metadata_init\<lparr>nodeIdLow := 7, md_alias := 5\<rparr>]\<rparr>)) =
    Some (Some (7, 5))"
proof -
  let ?c = "alias_cache_new 1 1 True\<lparr>pool := [metadata_init\<lparr>nodeIdLow := 7, md_alias := 5\<rparr>]\<rparr>"
  have "entries ?c = 1" using alias_cache_new_ok(2) [of 1 1 True] by simp
  moreover from this have "retrieve 0 ?c = Some (Some (7, 5))"
    by (simp add: retrieve_def metadata_init_def get_node_id_def resolve_notresponding_def NOT_RESPONDING_def)
  ultimately show ?thesis
    using retrieve_survives_clear [of ?c 0 "(7, 5)"] by simp
qed

end
