(* ===== verification/AliasCacheGen.thy ===== *)
theory AliasCacheGen
  imports AliasCacheSpec
begin

section \<open>The alias cache: generating an unused alias\<close>

text \<open>
  \<open>AliasCache::generate\<close> draws pseudo-random aliases until one is not in the
  cache. It has no bound in the source. The generator of seeds is a linear
  congruential one on 48 bits whose period is shown to be full, so every 12-bit
  alias comes up, and the loop ends as soon as one alias is unused.
\<close>

subsection \<open>A full period\<close>

text \<open>
  \<open>2 ^ j\<close> steps of \<open>z \<mapsto> 513 z + c\<close>, with \<open>c\<close> odd, are \<open>z \<mapsto> a z + b\<close> with
  \<open>a\<close> one modulo \<open>2 ^ (j + 2)\<close> and \<open>b\<close> an odd multiple of \<open>2 ^ j\<close>.
\<close>

lemma lcg_power:
  fixes c :: int
  assumes "odd c"
  shows "\<exists>m u. \<forall>z. ((\<lambda>z. 513 * z + c) ^^ (2 ^ j)) z = (1 + m * 2 ^ (j + 2)) * z + (1 + 2 * u) * 2 ^ j"
proof (induction j)
  case 0
  obtain u where "c = 1 + 2 * u" using assms by (metis oddE add.commute)
  then have "\<forall>z. 513 * z + c = (1 + 128 * 2 ^ (0 + 2)) * z + (1 + 2 * u) * 2 ^ 0" by simp
  then show ?case by (intro exI [of _ 128] exI [of _ u]) simp
next
  case (Suc j)
  then obtain m u where
    h: "\<And>z. ((\<lambda>z. 513 * z + c) ^^ (2 ^ j)) z = (1 + m * 2 ^ (j + 2)) * z + (1 + 2 * u) * 2 ^ j" by blast
  define p :: int where "p = 2 ^ j"
  have "((\<lambda>z. 513 * z + c) ^^ (2 ^ Suc j)) z =
      (1 + (m + 2 * p * m * m) * 2 ^ (Suc j + 2)) * z +
      (1 + 2 * (u + (1 + 2 * u) * m * p)) * 2 ^ Suc j" for z
  proof -
    have "((\<lambda>z. 513 * z + c) ^^ (2 ^ Suc j)) z =
        ((\<lambda>z. 513 * z + c) ^^ (2 ^ j)) (((\<lambda>z. 513 * z + c) ^^ (2 ^ j)) z)"
      by (simp only: power_Suc mult_2 funpow_add o_apply)
    also have "\<dots> = (1 + m * (4 * p)) * ((1 + m * (4 * p)) * z + (1 + 2 * u) * p) + (1 + 2 * u) * p"
      by (simp only: h p_def) (simp add: power_add)
    also have "\<dots> = (1 + (m + 2 * p * m * m) * (8 * p)) * z + (1 + 2 * (u + (1 + 2 * u) * m * p)) * (2 * p)"
      by (simp add: algebra_simps)
    finally show ?thesis by (simp add: p_def power_add)
  qed
  then show ?case by blast
qed

lemma lcg_reaches:
  fixes c :: int
  assumes "odd c"
  shows "\<exists>k < 2 ^ j. ((\<lambda>z. 513 * z + c) ^^ k) x mod 2 ^ j = y mod 2 ^ j"
proof (induction j)
  case 0
  then show ?case by simp
next
  case (Suc j)
  let ?f = "\<lambda>z. 513 * z + c"
  obtain k where k: "k < 2 ^ j" "(?f ^^ k) x mod 2 ^ j = y mod 2 ^ j" using Suc by blast
  define z where "z = (?f ^^ k) x"
  obtain q where q: "y - z = 2 ^ j * q"
    using k(2) by (metis dvdE mod_eq_dvd_iff z_def)
  show ?case
  proof (cases "even q")
    case True
    then obtain r where "q = 2 * r" by blast
    then have "2 ^ Suc j dvd y - z" using q by simp
    then have "z mod 2 ^ Suc j = y mod 2 ^ Suc j" by (metis mod_eq_dvd_iff)
    moreover have "k < 2 ^ Suc j" using k(1) by simp
    ultimately show ?thesis unfolding z_def by blast
  next
    case False
    then obtain r where r: "q = 2 * r + 1" by (metis oddE)
    obtain m u where h: "\<And>z. (?f ^^ (2 ^ j)) z = (1 + m * 2 ^ (j + 2)) * z + (1 + 2 * u) * 2 ^ j"
      using lcg_power [OF assms, of j] by blast
    have "(?f ^^ (2 ^ j + k)) x = (?f ^^ (2 ^ j)) z"
      by (simp only: funpow_add o_apply z_def)
    also have "\<dots> = y + 2 ^ Suc j * (2 * m * z + u - r)"
      using q unfolding h r by (simp add: algebra_simps power_add)
    finally have "(?f ^^ (2 ^ j + k)) x mod 2 ^ Suc j = y mod 2 ^ Suc j" by simp
    moreover have "2 ^ j + k < 2 ^ Suc j" using k(1) by simp
    ultimately show ?thesis by blast
  qed
qed

lemma uint_next_seed: "uint (next_seed s) = (513 * uint s + 0x1B0CA37ABA9) mod 2 ^ 48"
proof -
  have m: "next_seed s = take_bit 48 (513 * s + 0x1B0CA37ABA9)"
    by (simp add: next_seed_def and_literal_mask push_bit_eq_mult)
  have "uint (next_seed s) = take_bit 48 (uint (513 * s + 0x1B0CA37ABA9))"
    by (simp add: m unsigned_take_bit_eq)
  also have "\<dots> = (uint (513 * s + 0x1B0CA37ABA9)) mod 2 ^ 48"
    by (simp only: take_bit_eq_mod)
  also have "uint (513 * s + 0x1B0CA37ABA9) = (513 * uint s + 0x1B0CA37ABA9) mod 2 ^ 64"
    by (simp add: uint_word_ariths mod_simps)
  also have "\<dots> mod 2 ^ 48 = (513 * uint s + 0x1B0CA37ABA9) mod 2 ^ 48"
    by (rule mod_mod_cancel) simp
  finally show ?thesis .
qed

lemma uint_next_seeds:
  "uint ((next_seed ^^ k) s) mod 2 ^ 48 = ((\<lambda>z. 513 * z + 0x1B0CA37ABA9) ^^ k) (uint s) mod 2 ^ 48"
proof (induction k)
  case (Suc k)
  have "uint ((next_seed ^^ Suc k) s) mod 2 ^ 48 = (513 * uint ((next_seed ^^ k) s) + 0x1B0CA37ABA9) mod 2 ^ 48"
    by (simp only: funpow.simps o_apply uint_next_seed mod_mod_trivial)
  also have "\<dots> = (513 * ((\<lambda>z. 513 * z + 0x1B0CA37ABA9) ^^ k) (uint s) + 0x1B0CA37ABA9) mod 2 ^ 48"
    by (intro mod_add_cong mod_mult_cong Suc refl)
  finally show ?case by (simp only: funpow.simps o_apply)
qed simp

text \<open>From any seed, every 48-bit seed comes up within \<open>2 ^ 48\<close> steps.\<close>

lemma seeds_full_period:
  assumes "unat t < 2 ^ 48"
  shows "\<exists>k. 0 < k \<and> k \<le> 2 ^ 48 \<and> (next_seed ^^ k) s = t"
proof -
  obtain k where k: "k < 2 ^ 48"
    "((\<lambda>z. 513 * z + 0x1B0CA37ABA9) ^^ k) (uint (next_seed s)) mod 2 ^ 48 = uint t mod 2 ^ 48"
    using lcg_reaches [of "0x1B0CA37ABA9" 48 "uint (next_seed s)" "uint t"] by auto
  let ?v = "(next_seed ^^ k) (next_seed s)"
  have "uint ?v mod 2 ^ 48 = uint ?v"
    by (cases k) (simp_all only: funpow.simps o_apply id_apply uint_next_seed mod_mod_trivial)
  moreover have "uint t mod 2 ^ 48 = uint t"
  proof (rule mod_pos_pos_trivial)
    show "uint t < 2 ^ 48" using assms unfolding uint_nat by (metis of_nat_less_iff of_nat_numeral of_nat_power)
  qed simp
  ultimately have "uint ?v = uint t"
    using uint_next_seeds [of k "next_seed s"] k(2) by simp
  then have "(next_seed ^^ Suc k) s = t"
    by (simp only: funpow_Suc_right o_apply word_uint_eq_iff)
  with k(1) show ?thesis by (intro exI [of _ "Suc k"]) simp
qed

lemma seed_alias_small:
  assumes "unat a < 4096"
  shows "seed_alias (ucast (a :: node_alias)) = a"
proof -
  have a: "take_bit 12 a = a" using assms by (intro take_bit_unat_less) simp
  have "seed_alias (ucast a) = take_bit 12 a"
  proof (rule bit_word_eqI)
    fix n
    assume "n < LENGTH(16)"
    have "\<not> bit a m" if "12 \<le> m" for m
      using that by (subst a [symmetric]) (simp add: bit_take_bit_iff)
    then show "bit (seed_alias (ucast a)) n = bit (take_bit 12 a) n"
      by (auto simp: seed_alias_def and_literal_mask bit_simps)
  qed
  with a show ?thesis by simp
qed

lemma seed_alias_bound: "unat (seed_alias s) < 4096"
proof -
  have "seed_alias s = take_bit 12 (seed_alias s)"
    by (rule bit_word_eqI) (auto simp: seed_alias_def and_literal_mask bit_simps)
  then have "unat (seed_alias s) = take_bit 12 (unat (seed_alias s))"
    by (metis unsigned_take_bit_eq)
  also have "\<dots> < 4096" using take_bit_nat_less_exp [of 12] by simp
  finally show ?thesis .
qed


subsection \<open>The loop\<close>

lemma ac_inv_seed:
  assumes "ac_inv c"
  shows "ac_inv (c\<lparr>seed := s\<rparr>)"
proof -
  obtain lru free where r: "ac_repr c lru free" using assms by (auto simp: ac_inv_def)
  have "ac_links (c\<lparr>seed := s\<rparr>) lru free"
    using ac_reprD(1) [OF r] by (subst ac_links_cong [of _ c]) simp_all
  moreover have "ac_maps (c\<lparr>seed := s\<rparr>) (set lru)"
    using ac_reprD(2) [OF r] by (rule ac_maps_cong) simp_all
  moreover have "ac_data (c\<lparr>seed := s\<rparr>) (set lru)"
    using ac_reprD(3) [OF r] by (rule ac_data_cong) simp_all
  ultimately show ?thesis by (auto simp: ac_inv_def ac_repr_def)
qed

lemma for_each_seed [simp]: "for_each (c\<lparr>seed := s\<rparr>) = for_each c"
proof -
  have "for_each_from f i (c\<lparr>seed := s\<rparr>) = for_each_from f i c" for f i
    by (induction f arbitrary: i) (simp_all add: for_each_from.simps [of _ _ "c\<lparr>seed := s\<rparr>"]
        for_each_from.simps [of _ _ c] deref_def)
  then show ?thesis by (simp add: for_each_def)
qed

lemma mset_to_front: "mset (to_front P l) = mset l"
  by (simp add: to_front_def)

lemma contents_ids:
  assumes "ac_inv c" "for_each c = Some l" "p \<in> set l"
  shows "fst p \<noteq> 0"
proof -
  obtain lru free where r: "ac_repr c lru free" using assms(1) by (auto simp: ac_inv_def)
  then show ?thesis
    using for_each_ok [OF r] ac_reprD(3) [OF r] assms(2,3)
    by (auto simp: resolved_pairs_mem ac_data_def)
qed

lemma lookup_alias_zero:
  assumes "ac_inv c" "unat a < 4096" "for_each c = Some l"
  obtains d i l' where "lookup_alias a c = Some (d, i)" "i = 0 \<longleftrightarrow> a \<notin> snd ` set l"
    "ac_inv d" "same_config c d" "for_each d = Some l'" "mset l' = mset l"
proof -
  let ?r = "case List.find (\<lambda>p. snd p = a) l of None \<Rightarrow> 0 | Some p \<Rightarrow> fst p"
  have "?r = 0 \<longleftrightarrow> a \<notin> snd ` set l"
  proof (cases "List.find (\<lambda>p. snd p = a) l")
    case None
    then have "a \<notin> snd ` set l" by (auto simp: find_None_iff)
    with None show ?thesis by simp
  next
    case (Some p)
    then have "p \<in> set l" "snd p = a" by (auto simp: find_Some_iff)
    with Some contents_ids [OF assms(1,3)] show ?thesis by auto
  qed
  with lookup_alias_contents [OF assms] that mset_to_front show ?thesis by metis
qed

lemma generate_reaches:
  assumes "ac_inv c" "for_each c = Some l" "k < fuel"
    "seed_alias ((next_seed ^^ k) (seed c)) \<notin> insert 0 (snd ` set l)"
  shows "\<exists>d a l'. generate fuel c = Some (d, a) \<and> a \<noteq> 0 \<and> unat a < 4096 \<and> a \<notin> snd ` set l \<and>
    ac_inv d \<and> for_each d = Some l' \<and> mset l' = mset l"
  using assms
proof (induction k arbitrary: c l fuel)
  case 0
  then obtain f where f: "fuel = Suc f" by (cases fuel) auto
  let ?a = "seed_alias (seed c)"
  have fe: "for_each (c\<lparr>seed := next_seed (seed c)\<rparr>) = Some l" using 0(2) by simp
  obtain d i l' where d: "lookup_alias ?a (c\<lparr>seed := next_seed (seed c)\<rparr>) = Some (d, i)"
    "i = 0 \<longleftrightarrow> ?a \<notin> snd ` set l" "ac_inv d" "same_config (c\<lparr>seed := next_seed (seed c)\<rparr>) d"
    "for_each d = Some l'" "mset l' = mset l"
    by (rule lookup_alias_zero [OF ac_inv_seed [OF 0(1)] seed_alias_bound fe])
  with 0 f seed_alias_bound show ?case by (auto simp: Let_def)
next
  case (Suc k)
  then obtain f where f: "fuel = Suc f" "k < f" by (cases fuel) auto
  let ?a = "seed_alias (seed c)"
  let ?c = "c\<lparr>seed := next_seed (seed c)\<rparr>"
  have fe: "for_each ?c = Some l" using Suc.prems(2) by simp
  have later: "seed_alias ((next_seed ^^ k) (next_seed (seed c))) \<notin> insert 0 (snd ` set l)"
    using Suc.prems(4) unfolding funpow_Suc_right o_apply .
  obtain d i l' where d: "lookup_alias ?a ?c = Some (d, i)"
    "i = 0 \<longleftrightarrow> ?a \<notin> snd ` set l" "ac_inv d" "same_config ?c d" "for_each d = Some l'" "mset l' = mset l"
    by (rule lookup_alias_zero [OF ac_inv_seed [OF Suc.prems(1)] seed_alias_bound fe])
  have set: "set l' = set l" using d(6) by (metis set_mset_mset)
  have sd: "seed d = next_seed (seed c)" using d(4) by (simp add: same_config_def)
  consider "?a = 0" | "?a \<noteq> 0" "i = 0" | "?a \<noteq> 0" "i \<noteq> 0" by blast
  then show ?case
  proof cases
    case 1
    with Suc.IH [OF ac_inv_seed [OF Suc.prems(1)] _ f(2), of _ l] later Suc.prems(2) show ?thesis
      by (simp add: f(1) Let_def)
  next
    case 2
    with d seed_alias_bound show ?thesis by (auto simp: f(1) Let_def)
  next
    case 3
    with Suc.IH [OF d(3,5) f(2)] later d(1,6) sd set show ?thesis
      by (auto simp: f(1) Let_def)
  qed
qed

text \<open>
  C11: as long as one 12-bit alias is unused, \<open>generate\<close> returns after at most
  \<open>2 ^ 48 + 1\<close> rounds, from any seed and any consistent cache. What it returns
  is a valid alias that is not in the cache, and the mappings are unchanged up
  to the order of use.
\<close>

theorem generate_terminates_fresh:
  assumes "ac_inv c" "for_each c = Some l" "unat a < 4096" "a \<notin> insert 0 (snd ` set l)"
  shows "\<exists>d b l'. generate (2 ^ 48 + 1) c = Some (d, b) \<and> b \<noteq> 0 \<and> unat b < 4096 \<and>
    b \<notin> snd ` set l \<and> ac_inv d \<and> for_each d = Some l' \<and> mset l' = mset l"
proof -
  have "unat (ucast a :: u64) = unat a"
    by (simp add: unsigned_ucast_eq take_bit_nat_eq_self_iff order.strict_trans [OF unat_less_power])
  then have "unat (ucast a :: u64) < 2 ^ 48" using assms(3) by simp
  then obtain k where k: "k \<le> 2 ^ 48" "(next_seed ^^ k) (seed c) = ucast a"
    using seeds_full_period by blast
  then have "seed_alias ((next_seed ^^ k) (seed c)) = a"
    using seed_alias_small [OF assms(3)] by simp
  with generate_reaches [OF assms(1,2), of k "2 ^ 48 + 1"] k(1) assms(4) show ?thesis by auto
qed

theorem generate_terminates_fresh_witness:
  "\<exists>d b. generate (2 ^ 48 + 1) demo_cache = Some (d, b) \<and> b \<noteq> 0 \<and> b \<noteq> 0x123 \<and> unat b < 4096"
  using generate_terminates_fresh [OF demo_cache_ok(1) demo_cache_contents, of 1]
  by (auto simp: NOT_RESPONDING_def)

end
