(* ===== verification/AliasCacheCheck.thy ===== *)
theory AliasCacheCheck
  imports AliasCacheSpec
begin

section \<open>The alias cache: the self check\<close>

text \<open>
  \<open>AliasCache::check_consistency\<close> returns 0 or the number of the check that
  failed. The three walks over links take fuel; \<open>None\<close> is running out of it
  or an access outside the pool. \<open>entries + 1\<close> rounds are enough for the
  walk of the free list, which stops at a duplicate, and \<open>entries\<close> for the
  other two, which stop at a broken back link.
\<close>

definition check_sizes :: "alias_cache \<Rightarrow> int" where
  "check_sizes c =
     (if sls_size (idMap c) \<noteq> sls_size (aliasMap c) then 1
      else if sls_size (aliasMap c) = entries c \<and> freeList c \<noteq> NONE_ENTRY then 2
      else if sls_size (aliasMap c) \<noteq> entries c \<and> freeList c = NONE_ENTRY then 3
      else if sls_size (aliasMap c) = 0 \<and> (oldest c \<noteq> NONE_ENTRY \<or> newest c \<noteq> NONE_ENTRY) then 4
      else 0)"

fun walk_free :: "nat \<Rightarrow> nat \<Rightarrow> alias_cache \<Rightarrow> nat set \<Rightarrow> (int + nat set) option" where
  "walk_free fuel p c seen =
     (if p = NONE_ENTRY then Some (Inr seen)
      else case fuel of
        0 \<Rightarrow> None
      | Suc fuel' \<Rightarrow> do {
          m \<leftarrow> deref c p;
          if p \<in> seen then Some (Inl 5) else walk_free fuel' (older m) c (insert p seen)
        })"

declare walk_free.simps [simp del]

definition check_map_free :: "nat set \<Rightarrow> nat sorted_list_set \<Rightarrow> int \<Rightarrow> int" where
  "check_map_free free s code = (if list_ex (\<lambda>i. i \<in> free) (take (sortedCount s) (container s)) then code else 0)"

definition check_ends :: "nat set \<Rightarrow> alias_cache \<Rightarrow> int" where
  "check_ends free c =
     (if sls_size (aliasMap c) = 0 then
        (if oldest c \<noteq> NONE_ENTRY then 7 else if newest c \<noteq> NONE_ENTRY then 8 else 0)
      else
        (if oldest c = NONE_ENTRY then 9 else if newest c = NONE_ENTRY then 10
         else if oldest c \<in> free then 11 else if newest c \<in> free then 12 else 0))"

fun walk_newer :: "nat \<Rightarrow> nat \<Rightarrow> nat \<Rightarrow> nat set \<Rightarrow> alias_cache \<Rightarrow> (int + nat \<times> nat) option" where
  "walk_newer fuel prev cnt free c = do {
     m \<leftarrow> deref c prev;
     if newer m = NONE_ENTRY then Some (Inr (prev, cnt))
     else case fuel of
       0 \<Rightarrow> None
     | Suc fuel' \<Rightarrow> do {
         let nxt = newer m;
         mn \<leftarrow> deref c nxt;
         if nxt \<in> free then Some (Inl 21)
         else if older mn \<noteq> prev then Some (Inl 14)
         else walk_newer fuel' nxt (cnt + 1) free c
       }
   }"

declare walk_newer.simps [simp del]

fun walk_older :: "nat \<Rightarrow> nat \<Rightarrow> nat set \<Rightarrow> alias_cache \<Rightarrow> (int + nat) option" where
  "walk_older fuel nxt free c = do {
     m \<leftarrow> deref c nxt;
     if older m = NONE_ENTRY then Some (Inr nxt)
     else case fuel of
       0 \<Rightarrow> None
     | Suc fuel' \<Rightarrow> do {
         let prev = older m;
         mp \<leftarrow> deref c prev;
         if prev \<in> free then Some (Inl 22)
         else if newer mp \<noteq> nxt then Some (Inl 16)
         else walk_older fuel' prev free c
       }
   }"

declare walk_older.simps [simp del]

definition check_newer :: "nat set \<Rightarrow> alias_cache \<Rightarrow> int option" where
  "check_newer free c = do {
     m \<leftarrow> deref c (oldest c);
     if older m \<noteq> NONE_ENTRY then Some 13
     else do {
       r \<leftarrow> walk_newer (entries c) (oldest c) 1 free c;
       Some (case r of
           Inl e \<Rightarrow> e
         | Inr (prev, cnt) \<Rightarrow>
             if prev \<noteq> newest c then 18 else if cnt \<noteq> sls_size (aliasMap c) then 27 else 0)
     }
   }"

definition check_older :: "nat set \<Rightarrow> alias_cache \<Rightarrow> int option" where
  "check_older free c = do {
     m \<leftarrow> deref c (newest c);
     if newer m \<noteq> NONE_ENTRY then Some 15
     else do {
       r \<leftarrow> walk_older (entries c) (newest c) free c;
       Some (case r of Inl e \<Rightarrow> e | Inr nxt \<Rightarrow> if nxt \<noteq> oldest c then 17 else 0)
     }
   }"

definition check_entry :: "nat set \<Rightarrow> nat \<Rightarrow> alias_cache \<Rightarrow> (alias_cache \<times> int) option" where
  "check_entry free i c =
     (if i \<in> free then Some (c, 0)
      else do {
        e \<leftarrow> array_get (pool c) i;
        (c, nit) \<leftarrow> find_id (get_node_id e) c;
        if nit = sls_end (idMap c) then Some (c, 23)
        else if sls_get (idMap c) nit \<noteq> i then Some (c, 24)
        else do {
          (c, it) \<leftarrow> find_alias (md_alias e) c;
          if it = sls_end (aliasMap c) then Some (c, 25)
          else if sls_get (aliasMap c) it \<noteq> i then Some (c, 26)
          else Some (c, 0)
        }
      })"

fun check_entries :: "nat set \<Rightarrow> nat list \<Rightarrow> alias_cache \<Rightarrow> (alias_cache \<times> int) option" where
  "check_entries free [] c = Some (c, 0)"
| "check_entries free (i # is) c = do {
     (c, r) \<leftarrow> check_entry free i c;
     if r \<noteq> 0 then Some (c, r) else check_entries free is c
   }"

definition check_links :: "nat set \<Rightarrow> alias_cache \<Rightarrow> (alias_cache \<times> int) option" where
  "check_links free c = do {
     r \<leftarrow> check_newer free c;
     if r \<noteq> 0 then Some (c, r)
     else do {
       r \<leftarrow> check_older free c;
       if r \<noteq> 0 then Some (c, r) else check_entries free [0..<entries c] c
     }
   }"

definition check_used :: "nat set \<Rightarrow> alias_cache \<Rightarrow> (alias_cache \<times> int) option" where
  "check_used free c = do {
     hassert (in_pool c (aliasMap c) \<and> in_pool c (idMap c));
     let (am, _) = sls_begin (akey c) (aliasMap c);
     let c = c\<lparr>aliasMap := am\<rparr>;
     let r = check_map_free free am 19;
     if r \<noteq> 0 then Some (c, r)
     else do {
       let (im, _) = sls_begin (ikey c) (idMap c);
       let c = c\<lparr>idMap := im\<rparr>;
       let r = check_map_free free im 20;
       if r \<noteq> 0 then Some (c, r)
       else do {
         let r = check_ends free c;
         if r \<noteq> 0 then Some (c, r)
         else if sls_size (aliasMap c) = 0 then Some (c, 0)
         else check_links free c
       }
     }
   }"

definition check_consistency :: "alias_cache \<Rightarrow> (alias_cache \<times> int) option" where
  "check_consistency c =
     (let r = check_sizes c in
      if r \<noteq> 0 then Some (c, r)
      else do {
        w \<leftarrow> walk_free (entries c + 1) (freeList c) c {};
        case w of
          Inl e \<Rightarrow> Some (c, e)
        | Inr free \<Rightarrow>
            if card free + sls_size (aliasMap c) \<noteq> entries c then Some (c, 6) else check_used free c
      })"

subsection \<open>A consistent cache passes\<close>

lemma walk_free_ok:
  assumes "chain (ol c) xs NONE_ENTRY" "\<And>i. i \<in> set xs \<Longrightarrow> i < length (pool c)"
    "length (pool c) \<le> 4096" "distinct xs" "set xs \<inter> seen = {}" "length xs \<le> fuel"
  shows "walk_free fuel (hd_or xs NONE_ENTRY) c seen = Some (Inr (set xs \<union> seen))"
  using assms
proof (induction xs arbitrary: fuel seen)
  case Nil
  then show ?case by (simp add: walk_free.simps)
next
  case (Cons x xs)
  then obtain f where f: "fuel = Suc f" by (cases fuel) auto
  have x: "x < length (pool c)" "x \<notin> seen" using Cons.prems(2,5) by auto
  then have "x \<noteq> NONE_ENTRY" using Cons.prems(3) by (simp add: NONE_ENTRY_def)
  moreover have "walk_free f (hd_or xs NONE_ENTRY) c (insert x seen) = Some (Inr (set xs \<union> insert x seen))"
    using Cons.prems f by (intro Cons.IH) auto
  ultimately show ?case
    using Cons.prems(1,3) x f by (subst walk_free.simps) (simp add: deref_in fields_of_pool)
qed

lemma walk_newer_ok:
  assumes "dlseg (nw c) (ol c) NONE_ENTRY (xs @ x # ys) NONE_ENTRY"
    "\<And>i. i \<in> set (xs @ x # ys) \<Longrightarrow> i < length (pool c) \<and> i \<notin> free"
    "length (pool c) \<le> 4096" "length xs \<le> fuel"
  shows "walk_newer fuel x n free c = Some (Inr (hd_or xs x, n + length xs))"
  using assms
proof (induction xs arbitrary: x ys n fuel rule: rev_induct)
  case Nil
  then show ?case by (subst walk_newer.simps) (simp add: deref_in fields_of_pool)
next
  case (snoc a xs)
  then obtain f where f: "fuel = Suc f" by (cases fuel) auto
  have x: "x < length (pool c)" "a < length (pool c)" "a \<notin> free" using snoc.prems(2) by auto
  then have "a \<noteq> NONE_ENTRY" using snoc.prems(3) by (simp add: NONE_ENTRY_def)
  moreover have "nw c x = a" "ol c a = x" using snoc.prems(1) by auto
  moreover have "walk_newer f a (n + 1) free c = Some (Inr (hd_or xs a, n + 1 + length xs))"
    using snoc.prems f by (intro snoc.IH [of a "x # ys"]) auto
  ultimately show ?case
    using x snoc.prems(3) f by (subst walk_newer.simps) (simp add: deref_in fields_of_pool)
qed

lemma walk_older_ok:
  assumes "dlseg (nw c) (ol c) p (x # ys) NONE_ENTRY"
    "\<And>i. i \<in> set (x # ys) \<Longrightarrow> i < length (pool c) \<and> i \<notin> free"
    "length (pool c) \<le> 4096" "length ys \<le> fuel"
  shows "walk_older fuel x free c = Some (Inr (last_or ys x))"
  using assms
proof (induction ys arbitrary: x p fuel)
  case Nil
  then show ?case by (subst walk_older.simps) (simp add: deref_in fields_of_pool)
next
  case (Cons a ys)
  then obtain f where f: "fuel = Suc f" by (cases fuel) auto
  have x: "x < length (pool c)" "a < length (pool c)" "a \<notin> free" using Cons.prems(2) by auto
  then have "a \<noteq> NONE_ENTRY" using Cons.prems(3) by (simp add: NONE_ENTRY_def)
  moreover have "ol c x = a" "nw c a = x" using Cons.prems(1) by auto
  moreover have "walk_older f a free c = Some (Inr (last_or ys a))"
    using Cons.prems f by (intro Cons.IH [of x]) auto
  ultimately show ?case
    using x Cons.prems(3) f by (subst walk_older.simps) (simp add: deref_in fields_of_pool)
qed

lemma find_id_repr:
  assumes r: "ac_repr c lru free" and i: "i \<in> set lru"
  obtains m it where "find_id (ikey c i) c = Some (c\<lparr>idMap := m\<rparr>, it)" "it \<noteq> sls_end m" "sls_get m it = i"
    "ac_repr (c\<lparr>idMap := m\<rparr>) lru free"
  using find_id_ok [OF ac_reprD(2) [OF r], of "ikey c i"] ac_repr_mem(1) [OF r] ac_repr_maps(2) [OF r] i
  by (metis UnI1)

lemma find_alias_repr:
  assumes r: "ac_repr c lru free" and i: "i \<in> set lru"
  obtains m it where "find_alias (akey c i) c = Some (c\<lparr>aliasMap := m\<rparr>, it)" "it \<noteq> sls_end m" "sls_get m it = i"
    "ac_repr (c\<lparr>aliasMap := m\<rparr>) lru free"
  using find_alias_ok [OF ac_reprD(2) [OF r], of "akey c i"] ac_repr_mem(1) [OF r] ac_repr_maps(1) [OF r] i
  by (metis UnI1)

lemma check_entry_ok:
  assumes r: "ac_repr c lru free" and i: "i < entries c"
  shows "\<exists>d. check_entry (set free) i c = Some (d, 0) \<and> ac_repr d lru free \<and> pool d = pool c \<and> entries d = entries c"
proof (cases "i \<in> set free")
  case True
  with r show ?thesis by (simp add: check_entry_def)
next
  case False
  then have lru: "i \<in> set lru" "i < length (pool c)" using ac_reprD(7,9) [OF r] i by auto
  obtain m it where m: "find_id (ikey c i) c = Some (c\<lparr>idMap := m\<rparr>, it)" "it \<noteq> sls_end m" "sls_get m it = i"
    "ac_repr (c\<lparr>idMap := m\<rparr>) lru free" by (rule find_id_repr [OF r lru(1)])
  obtain m' it' where m': "find_alias (akey c i) (c\<lparr>idMap := m\<rparr>) = Some (c\<lparr>idMap := m, aliasMap := m'\<rparr>, it')"
    "it' \<noteq> sls_end m'" "sls_get m' it' = i" "ac_repr (c\<lparr>idMap := m, aliasMap := m'\<rparr>) lru free"
    using find_alias_repr [OF m(4) lru(1)] by auto
  from m m' lru False show ?thesis
    by (simp add: check_entry_def fields_of_pool)
qed

lemma check_entries_ok:
  assumes "ac_repr c lru free" "\<And>i. i \<in> set is \<Longrightarrow> i < entries c"
  shows "\<exists>d. check_entries (set free) is c = Some (d, 0) \<and> ac_repr d lru free \<and> pool d = pool c"
  using assms
proof (induction "is" arbitrary: c)
  case Nil
  then show ?case by simp
next
  case (Cons i "is")
  obtain d where d: "check_entry (set free) i c = Some (d, 0)" "ac_repr d lru free" "pool d = pool c"
    "entries d = entries c"
    using check_entry_ok [OF Cons.prems(1), of i] Cons.prems(2) by auto
  with Cons.IH [OF d(2)] Cons.prems(2) show ?case by auto
qed

lemma check_links_ok:
  assumes r: "ac_repr c lru free" and ne: "lru \<noteq> []" and n: "sls_size (aliasMap c) = length lru"
  shows "\<exists>d. check_links (set free) c = Some (d, 0) \<and> ac_repr d lru free \<and> pool d = pool c"
proof -
  note D = ac_reprD [OF r]
  have bnd: "i < length (pool c) \<and> i \<notin> set free" if "i \<in> set lru" for i
    using ac_repr_mem(1) [OF r, of i] D(6) that by blast
  have dl: "dlseg (nw c) (ol c) NONE_ENTRY lru NONE_ENTRY" "newest c = hd_or lru NONE_ENTRY"
    "oldest c = last_or lru NONE_ENTRY"
    using D(1) by (simp_all add: ac_links_def)
  have len: "length lru \<le> entries c" "length (pool c) \<le> 4096"
    using ac_repr_length [OF r] D(7,8) by auto
  have newer: "check_newer (set free) c = Some 0"
  proof -
    obtain xs x where s: "lru = xs @ [x]" using ne by (cases lru rule: rev_cases) auto
    have w: "walk_newer (entries c) x 1 (set free) c = Some (Inr (hd_or xs x, 1 + length xs))"
      using dl(1) bnd len s by (intro walk_newer_ok [of c xs x "[]"]) auto
    have "x < length (pool c)" "ol c x = NONE_ENTRY" using bnd [of x] dl(1) s by auto
    with w dl(2,3) len n s show ?thesis
      by (simp add: check_newer_def deref_in fields_of_pool)
  qed
  have older: "check_older (set free) c = Some 0"
  proof -
    obtain x ys where s: "lru = x # ys" using ne by (cases lru) auto
    have w: "walk_older (entries c) x (set free) c = Some (Inr (last_or ys x))"
      using dl(1) bnd len s by (intro walk_older_ok [of c NONE_ENTRY x ys]) auto
    have "x < length (pool c)" "nw c x = NONE_ENTRY" using bnd [of x] dl(1) s by auto
    with w dl(2,3) len s show ?thesis
      by (simp add: check_older_def deref_in fields_of_pool)
  qed
  show ?thesis
    using newer older check_entries_ok [OF r, of "[0..<entries c]"] by (simp add: check_links_def)
qed

lemma lazy_size:
  assumes "sls_ok key s" "sls_elems s = set xs" "distinct xs"
  shows "sls_size s = length xs" "sls_size (sls_lazy_init key s) = length xs"
    "sls_elems (sls_lazy_init key s) = set xs" "sls_ok key (sls_lazy_init key s)"
proof -
  have "length (container s) = length xs"
    using assms by (metis distinct_card sls_elems_def sls_ok_def)
  then show "sls_size s = length xs" "sls_size (sls_lazy_init key s) = length xs"
    using sls_lazy_sorted(5) [OF assms(1)] by (simp_all add: sls_size_def)
  show "sls_elems (sls_lazy_init key s) = set xs" "sls_ok key (sls_lazy_init key s)"
    using sls_lazy_sorted(4) [OF assms(1)] sls_lazy_ok [OF assms(1)] assms(2) by (simp_all add: sls_elems_def)
qed

lemma check_map_free_ok:
  assumes "sls_elems s = used" "used \<inter> free = {}"
  shows "check_map_free free s code = 0"
  using assms by (fastforce simp: check_map_free_def list_ex_iff sls_elems_def dest: in_set_takeD)

lemma check_used_ok:
  assumes r: "ac_repr c lru free"
  shows "\<exists>d. check_used (set free) c = Some (d, 0) \<and> ac_repr d lru free \<and> pool d = pool c"
proof -
  note D = ac_reprD [OF r]
  have o: "sls_ok (akey c) (aliasMap c)" "sls_elems (aliasMap c) = set lru"
    "sls_ok (ikey c) (idMap c)" "sls_elems (idMap c) = set lru"
    using D(2) by (simp_all add: ac_maps_def)
  note A = lazy_size [OF o(1,2) D(4)] and I = lazy_size [OF o(3,4) D(4)]
  let ?c = "c\<lparr>aliasMap := sls_lazy_init (akey c) (aliasMap c)\<rparr>"
  let ?d = "?c\<lparr>idMap := sls_lazy_init (ikey c) (idMap c)\<rparr>"
  have r1: "ac_repr ?c lru free"
    using D(2) A(3,4) by (intro ac_repr_maps(1) [OF r]) (simp add: ac_maps_def)
  have r2: "ac_repr ?d lru free"
    using ac_reprD(2) [OF r1] I(3,4) by (intro ac_repr_maps(2) [OF r1]) (simp add: ac_maps_def)
  have ip: "in_pool c (aliasMap c)" "in_pool c (idMap c)"
    using ac_repr_mem(1) [OF r] o by (simp_all add: in_pool_elems)
  have free: "check_map_free (set free) (sls_lazy_init (akey c) (aliasMap c)) 19 = 0"
    "check_map_free (set free) (sls_lazy_init (ikey c) (idMap c)) 20 = 0"
    using check_map_free_ok A(3) I(3) D(6) by metis+
  have l: "newest c = hd_or lru NONE_ENTRY" "oldest c = last_or lru NONE_ENTRY"
    using D(1) by (simp_all add: ac_links_def)
  have ends: "check_ends (set free) ?d = 0"
  proof (cases lru)
    case Nil
    with l A(2) show ?thesis by (simp add: check_ends_def)
  next
    case (Cons x xs)
    have "newest c \<in> set lru" "oldest c \<in> set lru"
      using l Cons hd_or_in [of lru] last_or_in [of lru] by auto
    with D(6) ac_repr_mem(4) [OF r] have "newest c \<noteq> NONE_ENTRY" "oldest c \<noteq> NONE_ENTRY"
      "newest c \<notin> set free" "oldest c \<notin> set free" by blast+
    with A(2) Cons show ?thesis by (simp add: check_ends_def)
  qed
  show ?thesis
  proof (cases "lru = []")
    case True
    with A(2) ip free ends r2 show ?thesis
      by (simp add: check_used_def sls_begin_def Let_def)
  next
    case False
    with check_links_ok [OF r2 False] A(2) ip free ends show ?thesis
      by (simp add: check_used_def sls_begin_def Let_def)
  qed
qed

text \<open>
  C12: the self check of the code agrees with the invariant: on a consistent
  cache every walk it makes ends, no numbered check fails, the result is 0 and
  the contents are as before.
\<close>

theorem check_consistency_passes:
  assumes "ac_inv c"
  shows "\<exists>d. check_consistency c = Some (d, 0) \<and> ac_inv d \<and> for_each d = for_each c"
proof -
  obtain lru free where r: "ac_repr c lru free" using assms by (auto simp: ac_inv_def)
  note D = ac_reprD [OF r]
  have l: "newest c = hd_or lru NONE_ENTRY" "oldest c = last_or lru NONE_ENTRY"
    "freeList c = hd_or free NONE_ENTRY" "chain (ol c) free NONE_ENTRY"
    using D(1) by (simp_all add: ac_links_def)
  have len: "length lru + length free = entries c" by (rule ac_repr_length [OF r])
  have size: "sls_size (aliasMap c) = length lru" "sls_size (idMap c) = length lru"
    using lazy_size(1) D(2,4) unfolding ac_maps_def by metis+
  have fl: "freeList c = NONE_ENTRY \<longleftrightarrow> free = []"
    using l(3) ac_repr_mem(4) [OF r] by (cases free) auto
  have "check_sizes c = 0"
    using size len fl l by (auto simp: check_sizes_def)
  moreover have "walk_free (entries c + 1) (freeList c) c {} = Some (Inr (set free))"
  proof -
    have "i < length (pool c)" if "i \<in> set free" for i using ac_repr_mem(1) [OF r, of i] that by simp
    then show ?thesis
      using walk_free_ok [OF l(4), of "{}" "entries c + 1"] D(5,7,8) len by (simp add: l(3))
  qed
  moreover have "card (set free) + sls_size (aliasMap c) = entries c"
    using D(5) size len by (simp add: distinct_card)
  ultimately obtain d where d: "check_consistency c = Some (d, 0)" "ac_repr d lru free" "pool d = pool c"
    using check_used_ok [OF r] by (auto simp: check_consistency_def)
  have "pairs d lru = pairs c lru" by (rule pairs_cong) (simp_all add: akey_def ikey_def d(3))
  with for_each_ok [OF d(2)] for_each_ok [OF r] d show ?thesis by (auto simp: ac_inv_def)
qed

theorem check_consistency_passes_witness:
  "\<exists>d. check_consistency demo_cache = Some (d, 0)"
  using check_consistency_passes [OF demo_cache_ok(1)] by blast

end
