(* ===== verification/HalfPrecision.thy ===== *)
theory HalfPrecision
  imports Prelude
begin

section \<open>Half precision floating point (utils/ieeehalfprecision.c)\<close>

text \<open>
  The four conversions between 16-bit floating point numbers and 32-bit or
  64-bit ones. Each loop body is a function on bit patterns; the loops run over
  arrays with the bounds checked, \<open>None\<close> being an access outside of one. The
  static variables of a routine are its \<open>ieee_state\<close>, and the two 32-bit words
  in which the machine stores the double \<open>1.0\<close> are a parameter.
\<close>

subsection \<open>The loop bodies\<close>

definition single_to_half :: "u32 \<Rightarrow> u16" where
  "single_to_half x =
     (if x AND 0x7FFFFFFF = 0 then ucast (drop_bit 16 x)
      else let xs = x AND 0x80000000; xe = x AND 0x7F800000; xm = x AND 0x007FFFFF in
        if xe = 0 then ucast (drop_bit 16 xs)
        else if xe = 0x7F800000 then
          (if xm = 0 then ucast (drop_bit 16 xs OR 0x7C00) else ucast (drop_bit 16 x))
        else let hs = ucast (drop_bit 16 xs); hes = uint (drop_bit 23 xe) - 127 + 15 in
          if hes \<ge> 0x1F then ucast (drop_bit 16 xs OR 0x7C00)
          else if hes \<le> 0 then
            (let hm = (if 14 - hes > 24 then 0
                       else let xm = xm OR 0x00800000; hm = ucast (drop_bit (nat (14 - hes)) xm) in
                         if drop_bit (nat (13 - hes)) xm AND 1 \<noteq> 0 then hm + 1 else hm)
             in hs OR hm)
          else let he = word_of_int (hes * 2 ^ 10); hm = ucast (drop_bit 13 xm) in
            if xm AND 0x00001000 \<noteq> 0 then (hs OR he OR hm) + 1 else hs OR he OR hm)"

definition double_to_half :: "u32 \<Rightarrow> u16" where
  "double_to_half x =
     (if x AND 0x7FFFFFFF = 0 then ucast (drop_bit 16 x)
      else let xs = x AND 0x80000000; xe = x AND 0x7FF00000; xm = x AND 0x000FFFFF in
        if xe = 0 then ucast (drop_bit 16 xs)
        else if xe = 0x7FF00000 then
          (if xm = 0 then ucast (drop_bit 16 xs OR 0x7C00) else 0xFE00)
        else let hs = ucast (drop_bit 16 xs); hes = uint (drop_bit 20 xe) - 1023 + 15 in
          if hes \<ge> 0x1F then ucast (drop_bit 16 xs OR 0x7C00)
          else if hes \<le> 0 then
            (let hm = (if 10 - hes > 21 then 0
                       else let xm = xm OR 0x00100000; hm = ucast (drop_bit (nat (11 - hes)) xm) in
                         if drop_bit (nat (10 - hes)) xm AND 1 \<noteq> 0 then hm + 1 else hm)
             in hs OR hm)
          else let he = word_of_int (hes * 2 ^ 10); hm = ucast (drop_bit 10 xm) in
            if xm AND 0x00000200 \<noteq> 0 then (hs OR he OR hm) + 1 else hs OR he OR hm)"

text \<open>
  The do-while loop that normalizes a denormal mantissa, from \<open>e = -1\<close>. Sixteen
  rounds shift every bit out, so the fuel of the callers is enough for any
  mantissa that is not zero.
\<close>

fun normalize :: "nat \<Rightarrow> int \<Rightarrow> u16 \<Rightarrow> (int \<times> u16) option" where
  "normalize 0 e hm = None"
| "normalize (Suc fuel) e hm =
     (let e = e + 1; hm = push_bit 1 hm in
      if hm AND 0x0400 = 0 then normalize fuel e hm else Some (e, hm))"

definition half_to_single :: "u16 \<Rightarrow> u32 option" where
  "half_to_single h =
     (if h AND 0x7FFF = 0 then Some (push_bit 16 (ucast h))
      else let hs = h AND 0x8000; he = h AND 0x7C00; hm = h AND 0x03FF; xs = push_bit 16 (ucast hs) in
        if he = 0 then do {
          (e, hm) \<leftarrow> normalize 16 (- 1) hm;
          let xes = uint (drop_bit 10 he) - 15 + 127 - e;
          let xe = word_of_int (xes * 2 ^ 23);
          let xm = push_bit 13 (ucast (hm AND 0x03FF));
          Some (xs OR xe OR xm)
        }
        else if he = 0x7C00 then
          (if hm = 0 then Some (push_bit 16 (ucast hs) OR 0x7F800000) else Some (push_bit 16 (ucast h)))
        else let xes = uint (drop_bit 10 he) - 15 + 127; xe = word_of_int (xes * 2 ^ 23);
                 xm = push_bit 13 (ucast hm)
          in Some (xs OR xe OR xm))"

definition half_to_double :: "u16 \<Rightarrow> u32 option" where
  "half_to_double h =
     (if h AND 0x7FFF = 0 then Some (push_bit 16 (ucast h))
      else let hs = h AND 0x8000; he = h AND 0x7C00; hm = h AND 0x03FF; xs = push_bit 16 (ucast hs) in
        if he = 0 then do {
          (e, hm) \<leftarrow> normalize 16 (- 1) hm;
          let xes = uint (drop_bit 10 he) - 15 + 1023 - e;
          let xe = word_of_int (xes * 2 ^ 20);
          let xm = push_bit 10 (ucast (hm AND 0x03FF));
          Some (xs OR xe OR xm)
        }
        else if he = 0x7C00 then
          (if hm = 0 then Some (push_bit 16 (ucast hs) OR 0x7FF00000) else Some 0xFFF80000)
        else let xes = uint (drop_bit 10 he) - 15 + 1023; xe = word_of_int (xes * 2 ^ 20);
                 xm = push_bit 10 (ucast hm)
          in Some (xs OR xe OR xm))"

subsection \<open>The routines\<close>

record ieee_state =
  checkieee :: bool
  next_adj :: nat

definition ieee_init :: ieee_state where
  "ieee_init = \<lparr>checkieee = True, next_adj = 0\<rparr>"

text \<open>The check on the first call; the flag of the result says whether to go on.\<close>

definition check_ieee :: "u32 \<times> u32 \<Rightarrow> ieee_state \<Rightarrow> ieee_state \<times> bool" where
  "check_ieee one st =
     (if checkieee st then
        (let (adj, ip) = (if fst one \<noteq> 0 then (0, fst one) else (1, snd one));
             st = st\<lparr>next_adj := adj\<rparr>
         in if ip \<noteq> 0x3FF00000 then (st, False) else (st\<lparr>checkieee := False\<rparr>, True))
      else (st, True))"

text \<open>
  \<open>while (numel--)\<close>, reading at \<open>i\<close> and storing at \<open>j\<close> with the given strides
  (less one). A negative count runs until an array ends.
\<close>

function convert_loop ::
  "('a \<Rightarrow> 'b option) \<Rightarrow> nat \<Rightarrow> nat \<Rightarrow> int \<Rightarrow> nat \<Rightarrow> nat \<Rightarrow> 'a list \<Rightarrow> 'b list \<Rightarrow> 'b list option" where
  "convert_loop f si sj numel i j source target =
     (if numel = 0 then Some target
      else if i < length source \<and> j < length target then do {
        y \<leftarrow> f (source ! i);
        convert_loop f si sj (numel - 1) (i + 1 + si) (j + 1 + sj) source (target[j := y])
      }
      else None)"
  by pat_completeness auto
termination by (relation "measure (\<lambda>(f, si, sj, n, i, j, s, t). length s - i)") auto

declare convert_loop.simps [simp del]

text \<open>The four routines: \<open>None\<close> for a null pointer, the result with the array.\<close>

definition singles2halfp ::
  "u32 \<times> u32 \<Rightarrow> u16 list option \<Rightarrow> u32 list option \<Rightarrow> int \<Rightarrow> ieee_state \<Rightarrow>
   (int \<times> ieee_state \<times> u16 list option) option" where
  "singles2halfp one target source numel st =
     (let (st, go_on) = check_ieee one st in
      if \<not> go_on then Some (1, st, target)
      else case (target, source) of
        (Some t, Some s) \<Rightarrow> do {
          t \<leftarrow> convert_loop (\<lambda>x. Some (single_to_half x)) 0 0 numel 0 0 s t;
          Some (0, st, Some t)
        }
      | _ \<Rightarrow> Some (0, st, target))"

definition doubles2halfp ::
  "u32 \<times> u32 \<Rightarrow> u16 list option \<Rightarrow> u32 list option \<Rightarrow> int \<Rightarrow> ieee_state \<Rightarrow>
   (int \<times> ieee_state \<times> u16 list option) option" where
  "doubles2halfp one target source numel st =
     (let (st, go_on) = check_ieee one st in
      if \<not> go_on then Some (1, st, target)
      else case (target, source) of
        (Some t, Some s) \<Rightarrow> do {
          t \<leftarrow> convert_loop (\<lambda>x. Some (double_to_half x)) 1 0 numel (next_adj st) 0 s t;
          Some (0, st, Some t)
        }
      | _ \<Rightarrow> Some (0, st, target))"

definition halfp2singles ::
  "u32 \<times> u32 \<Rightarrow> u32 list option \<Rightarrow> u16 list option \<Rightarrow> int \<Rightarrow> ieee_state \<Rightarrow>
   (int \<times> ieee_state \<times> u32 list option) option" where
  "halfp2singles one target source numel st =
     (let (st, go_on) = check_ieee one st in
      if \<not> go_on then Some (1, st, target)
      else case (target, source) of
        (Some t, Some s) \<Rightarrow> do {
          t \<leftarrow> convert_loop half_to_single 0 0 numel 0 0 s t;
          Some (0, st, Some t)
        }
      | _ \<Rightarrow> Some (0, st, target))"

definition halfp2doubles ::
  "u32 \<times> u32 \<Rightarrow> u32 list option \<Rightarrow> u16 list option \<Rightarrow> int \<Rightarrow> ieee_state \<Rightarrow>
   (int \<times> ieee_state \<times> u32 list option) option" where
  "halfp2doubles one target source numel st =
     (let (st, go_on) = check_ieee one st in
      if \<not> go_on then Some (1, st, target)
      else case (target, source) of
        (Some t, Some s) \<Rightarrow> do {
          t \<leftarrow> convert_loop half_to_double 0 1 numel 0 (next_adj st) s t;
          Some (0, st, Some t)
        }
      | _ \<Rightarrow> Some (0, st, target))"

subsection \<open>Bit patterns as numbers\<close>

text \<open>A pattern as a sign and a magnitude.\<close>

definition pk16 :: "bool \<Rightarrow> nat \<Rightarrow> u16" where
  "pk16 s n = of_nat ((if s then 32768 else 0) + n)"

definition pk32 :: "bool \<Rightarrow> nat \<Rightarrow> u32" where
  "pk32 s n = of_nat ((if s then 2147483648 else 0) + n)"

lemma unat_of_nat_lt: "n < 2 ^ LENGTH('a) \<Longrightarrow> unat (of_nat n :: 'a::len word) = n"
  by (simp add: unat_of_nat take_bit_nat_eq_self_iff)

lemma unat_pk16: "n < 32768 \<Longrightarrow> unat (pk16 s n) = (if s then 32768 else 0) + n"
  unfolding pk16_def by (rule unat_of_nat_lt) simp

lemma unat_pk32: "n < 2147483648 \<Longrightarrow> unat (pk32 s n) = (if s then 2147483648 else 0) + n"
  unfolding pk32_def by (rule unat_of_nat_lt) simp

lemma split_sign: "n < 2 * k \<Longrightarrow> n = (if k \<le> n then k else 0) + n mod (k :: nat)"
  by (auto simp: le_mod_geq)

lemma pk16_cases: obtains s n where "h = pk16 s n" "n < 32768"
proof -
  have h: "unat h < 65536" using unat_less_power [of h] by simp
  have "h = pk16 (32768 \<le> unat h) (unat h mod 32768)"
  proof (rule word_unat_eq_iff [THEN iffD2])
    have "unat h = (if 32768 \<le> unat h then 32768 else 0) + unat h mod 32768"
      using h by (intro split_sign) simp
    then show "unat h = unat (pk16 (32768 \<le> unat h) (unat h mod 32768))"
      by (subst unat_pk16) simp_all
  qed
  then show ?thesis by (rule that) simp
qed

lemma pk32_cases: obtains s n where "x = pk32 s n" "n < 2147483648"
proof -
  have h: "unat x < 4294967296" using unat_less_power [of x] by simp
  have "x = pk32 (2147483648 \<le> unat x) (unat x mod 2147483648)"
  proof (rule word_unat_eq_iff [THEN iffD2])
    have "unat x = (if 2147483648 \<le> unat x then 2147483648 else 0) + unat x mod 2147483648"
      using h by (intro split_sign) simp
    then show "unat x = unat (pk32 (2147483648 \<le> unat x) (unat x mod 2147483648))"
      by (subst unat_pk32) simp_all
  qed
  then show ?thesis by (rule that) simp
qed

subsection \<open>Fields of a word\<close>

lemma nat_and_field: "and (a :: nat) (push_bit k (mask n)) = a div 2 ^ k mod 2 ^ n * 2 ^ k"
proof -
  have "and a (push_bit k (mask n)) = push_bit k (take_bit n (drop_bit k a))"
    by (rule bit_eqI) (auto simp: bit_simps)
  then show ?thesis by (simp add: push_bit_eq_mult take_bit_eq_mod drop_bit_eq_div)
qed

lemma unat_and_field:
  assumes "unat v = push_bit k (mask n)"
  shows "unat (w AND v) = unat w div 2 ^ k mod 2 ^ n * 2 ^ k"
  using assms by (simp only: unsigned_and_eq nat_and_field)

lemma nat_or_low: "b < 2 ^ n \<Longrightarrow> 2 ^ n dvd a \<Longrightarrow> or a b = a + (b :: nat)"
proof -
  assume b: "b < 2 ^ n" and "2 ^ n dvd a"
  then obtain c where c: "a = push_bit n c" by (auto simp: push_bit_eq_mult mult.commute)
  show "or a b = a + b"
    unfolding c
  proof (rule disjunctive_add [symmetric])
    fix m
    have "take_bit n b = b" using b by (simp add: take_bit_nat_eq_self_iff)
    then have "bit b m \<Longrightarrow> m < n" by (metis bit_take_bit_iff)
    then show "\<not> bit (push_bit n c) m \<or> \<not> bit b m" by (auto simp: bit_push_bit_iff)
  qed
qed

lemma unat_or_low: "unat b < 2 ^ n \<Longrightarrow> 2 ^ n dvd unat a \<Longrightarrow> unat (a OR b) = unat a + unat b"
  by (simp only: unsigned_or_eq nat_or_low)

lemma fields32:
  "unat (x AND 0x7FFFFFFF :: u32) = unat x mod 2147483648"
  "unat (x AND 0x80000000 :: u32) = unat x div 2147483648 mod 2 * 2147483648"
  "unat (x AND 0x7F800000 :: u32) = unat x div 8388608 mod 256 * 8388608"
  "unat (x AND 0x007FFFFF :: u32) = unat x mod 8388608"
  "unat (x AND 0x7FF00000 :: u32) = unat x div 1048576 mod 2048 * 1048576"
  "unat (x AND 0x000FFFFF :: u32) = unat x mod 1048576"
  "unat (x AND 0x00001000 :: u32) = unat x div 4096 mod 2 * 4096"
  "unat (x AND 0x00000200 :: u32) = unat x div 512 mod 2 * 512"
  "unat (x AND 1 :: u32) = unat x mod 2"
proof -
  show "unat (x AND 0x7FFFFFFF :: u32) = unat x mod 2147483648"
    using unat_and_field [of "0x7FFFFFFF :: u32" 0 31 x]
    by (simp add: push_bit_eq_mult mask_eq_exp_minus_1)
  show "unat (x AND 0x80000000 :: u32) = unat x div 2147483648 mod 2 * 2147483648"
    using unat_and_field [of "0x80000000 :: u32" 31 1 x]
    by (simp add: push_bit_eq_mult mask_eq_exp_minus_1)
  show "unat (x AND 0x7F800000 :: u32) = unat x div 8388608 mod 256 * 8388608"
    using unat_and_field [of "0x7F800000 :: u32" 23 8 x]
    by (simp add: push_bit_eq_mult mask_eq_exp_minus_1)
  show "unat (x AND 0x007FFFFF :: u32) = unat x mod 8388608"
    using unat_and_field [of "0x007FFFFF :: u32" 0 23 x]
    by (simp add: push_bit_eq_mult mask_eq_exp_minus_1)
  show "unat (x AND 0x7FF00000 :: u32) = unat x div 1048576 mod 2048 * 1048576"
    using unat_and_field [of "0x7FF00000 :: u32" 20 11 x]
    by (simp add: push_bit_eq_mult mask_eq_exp_minus_1)
  show "unat (x AND 0x000FFFFF :: u32) = unat x mod 1048576"
    using unat_and_field [of "0x000FFFFF :: u32" 0 20 x]
    by (simp add: push_bit_eq_mult mask_eq_exp_minus_1)
  show "unat (x AND 0x00001000 :: u32) = unat x div 4096 mod 2 * 4096"
    using unat_and_field [of "0x00001000 :: u32" 12 1 x]
    by (simp add: push_bit_eq_mult mask_eq_exp_minus_1)
  show "unat (x AND 0x00000200 :: u32) = unat x div 512 mod 2 * 512"
    using unat_and_field [of "0x00000200 :: u32" 9 1 x]
    by (simp add: push_bit_eq_mult mask_eq_exp_minus_1)
  show "unat (x AND 1 :: u32) = unat x mod 2"
    using unat_and_field [of "1 :: u32" 0 1 x]
    by (simp add: push_bit_eq_mult mask_eq_exp_minus_1)
qed

lemma fields16:
  "unat (h AND 0x7FFF :: u16) = unat h mod 32768"
  "unat (h AND 0x8000 :: u16) = unat h div 32768 mod 2 * 32768"
  "unat (h AND 0x7C00 :: u16) = unat h div 1024 mod 32 * 1024"
  "unat (h AND 0x03FF :: u16) = unat h mod 1024"
  "unat (h AND 0x0400 :: u16) = unat h div 1024 mod 2 * 1024"
proof -
  show "unat (h AND 0x7FFF :: u16) = unat h mod 32768"
    using unat_and_field [of "0x7FFF :: u16" 0 15 h]
    by (simp add: push_bit_eq_mult mask_eq_exp_minus_1)
  show "unat (h AND 0x8000 :: u16) = unat h div 32768 mod 2 * 32768"
    using unat_and_field [of "0x8000 :: u16" 15 1 h]
    by (simp add: push_bit_eq_mult mask_eq_exp_minus_1)
  show "unat (h AND 0x7C00 :: u16) = unat h div 1024 mod 32 * 1024"
    using unat_and_field [of "0x7C00 :: u16" 10 5 h]
    by (simp add: push_bit_eq_mult mask_eq_exp_minus_1)
  show "unat (h AND 0x03FF :: u16) = unat h mod 1024"
    using unat_and_field [of "0x03FF :: u16" 0 10 h]
    by (simp add: push_bit_eq_mult mask_eq_exp_minus_1)
  show "unat (h AND 0x0400 :: u16) = unat h div 1024 mod 2 * 1024"
    using unat_and_field [of "0x0400 :: u16" 10 1 h]
    by (simp add: push_bit_eq_mult mask_eq_exp_minus_1)
qed

text \<open>Rounding half up as the code does it: by the bit below the cut.\<close>

lemma round_half_up: "(q :: nat) div 2 ^ Suc k + q div 2 ^ k mod 2 = (q + 2 ^ k) div 2 ^ Suc k"
proof -
  define r where "r = q div 2 ^ k"
  have "q div 2 ^ Suc k = r div 2" by (simp only: r_def power_Suc2 div_mult2_eq)
  moreover have "(q + 2 ^ k) div 2 ^ k = r + 1" unfolding r_def by (rule div_add_self2) simp
  then have "(q + 2 ^ k) div 2 ^ Suc k = (r + 1) div 2"
    by (simp only: power_Suc2 div_mult2_eq)
  moreover have "r div 2 + r mod 2 = (r + 1) div 2" by presburger
  ultimately show ?thesis by (simp only: r_def)
qed

subsection \<open>The loop bodies on magnitudes\<close>

lemma sign_div:
  fixes k j n :: nat
  assumes "n < 2 ^ j * 2 ^ k"
  shows "(2 ^ j * 2 ^ k + n) div 2 ^ k mod 2 ^ j = n div 2 ^ k" "(2 ^ j * 2 ^ k + n) mod 2 ^ k = n mod 2 ^ k"
proof -
  have "n div 2 ^ k < 2 ^ j" using assms by (simp add: less_mult_imp_div_less)
  then show "(2 ^ j * 2 ^ k + n) div 2 ^ k mod 2 ^ j = n div 2 ^ k" by simp
  show "(2 ^ j * 2 ^ k + n) mod 2 ^ k = n mod 2 ^ k" by simp
qed

lemma eq_pk32: "m < 2147483648 \<Longrightarrow> unat x = (if s then 2147483648 else 0) + m \<Longrightarrow> x = pk32 s m"
  by (simp add: word_unat_eq_iff unat_pk32)

lemma eq_pk16: "m < 32768 \<Longrightarrow> unat x = (if s then 32768 else 0) + m \<Longrightarrow> x = pk16 s m"
  by (simp add: word_unat_eq_iff unat_pk16)

lemma pk32_eq: "n < 2147483648 \<Longrightarrow> m < 2147483648 \<Longrightarrow> pk32 s n = pk32 s m \<longleftrightarrow> n = m"
  by (simp add: word_unat_eq_iff unat_pk32)

lemma pk32_0 [simp]: "pk32 False 0 = 0" by (simp add: pk32_def)

lemma pk32_zero: "n < 2147483648 \<Longrightarrow> pk32 False n = 0 \<longleftrightarrow> n = 0"
  by (metis pk32_0 pk32_eq zero_less_numeral)

lemma pk32_fields:
  assumes n: "n < 2147483648"
  shows "pk32 s n AND 0x7FFFFFFF = pk32 False n"
    "pk32 s n AND 0x80000000 = pk32 s 0"
    "pk32 s n AND 0x7F800000 = pk32 False (n div 8388608 * 8388608)"
    "pk32 s n AND 0x007FFFFF = pk32 False (n mod 8388608)"
    "pk32 s n AND 0x7FF00000 = pk32 False (n div 1048576 * 1048576)"
    "pk32 s n AND 0x000FFFFF = pk32 False (n mod 1048576)"
proof -
  have u: "unat (pk32 s n) = (if s then 2147483648 else 0) + n" by (rule unat_pk32 [OF n])
  have d: "n div 8388608 < 256" "n div 1048576 < 2048" using n by simp_all
  have b: "n div 8388608 * 8388608 < 2147483648" "n div 1048576 * 1048576 < 2147483648"
    "n mod 8388608 < 2147483648" "n mod 1048576 < 2147483648"
    using n by (auto intro: order.strict_trans1 [OF div_times_less_eq_dividend]
        order.strict_trans [OF mod_less_divisor])
  show "pk32 s n AND 0x7FFFFFFF = pk32 False n"
    by (rule eq_pk32 [OF n]) (simp add: fields32 u n)
  show "pk32 s n AND 0x80000000 = pk32 s 0"
  proof (rule eq_pk32)
    have "(2147483648 + n) div 2147483648 = 1" using n by (intro div_nat_eqI) simp_all
    with n show "unat (pk32 s n AND 0x80000000) = (if s then 2147483648 else 0) + 0"
      by (simp add: fields32 u)
  qed simp
  show "pk32 s n AND 0x7F800000 = pk32 False (n div 8388608 * 8388608)"
    using sign_div(1) [of n 8 23] n d by (intro eq_pk32 [OF b(1)]) (simp add: fields32 u)
  show "pk32 s n AND 0x007FFFFF = pk32 False (n mod 8388608)"
    using sign_div(2) [of n 8 23] n by (intro eq_pk32 [OF b(3)]) (simp add: fields32 u)
  show "pk32 s n AND 0x7FF00000 = pk32 False (n div 1048576 * 1048576)"
    using sign_div(1) [of n 11 20] n d by (intro eq_pk32 [OF b(2)]) (simp add: fields32 u)
  show "pk32 s n AND 0x000FFFFF = pk32 False (n mod 1048576)"
    using sign_div(2) [of n 11 20] n by (intro eq_pk32 [OF b(4)]) (simp add: fields32 u)
qed

lemma unat_high_half: "unat (ucast (drop_bit 16 (x :: u32)) :: u16) = unat x div 65536"
proof -
  have "unat x div 65536 < 65536" using unat_less_power [of x] by (simp add: less_mult_imp_div_less)
  moreover have "unat (ucast (drop_bit 16 x) :: u16) = take_bit 16 (drop_bit 16 (unat x))"
    by (simp only: unsigned_ucast_eq unat_drop_bit_eq) simp
  ultimately show ?thesis by (simp add: drop_bit_eq_div take_bit_nat_eq_self_iff)
qed

lemma high_half:
  assumes n: "n < 2147483648"
  shows "ucast (drop_bit 16 (pk32 s n)) = pk16 s (n div 65536)"
proof (rule eq_pk16)
  show "n div 65536 < 32768" using n by simp
  show "unat (ucast (drop_bit 16 (pk32 s n)) :: u16) = (if s then 32768 else 0) + n div 65536"
    using div_mult_self3 [of 65536 32768 n] by (simp add: unat_high_half unat_pk32 [OF n])
qed

lemma inf_half: "ucast (drop_bit 16 (pk32 s 0) OR 0x7C00) = pk16 s 31744"
proof (cases s)
  case True
  then have "pk32 s 0 = 0x80000000" by (simp add: pk32_def)
  with True show ?thesis by (simp add: pk16_def)
next
  case False
  then show ?thesis by (simp add: pk16_def)
qed

lemma pk16_or_low:
  assumes "a + b < 32768" "2 ^ k dvd a" "b < 2 ^ k" "k \<le> 15"
  shows "pk16 s a OR pk16 False b = pk16 s (a + b)"
proof (rule eq_pk16 [OF assms(1)])
  have ab: "a < 32768" "b < 32768" using assms(1) by auto
  have "(2 :: nat) ^ k dvd 2 ^ 15" using assms(4) by (rule le_imp_power_dvd)
  then have "2 ^ k dvd (if s then 32768 else 0) + a" using assms(2) by simp
  then show "unat (pk16 s a OR pk16 False b) = (if s then 32768 else 0) + (a + b)"
    using assms(3) ab by (subst unat_or_low [of _ k]) (simp_all add: unat_pk16)
qed

lemma pk16_or_sign: "n < 32768 \<Longrightarrow> pk16 s 0 OR pk16 False n = pk16 s n"
  using pk16_or_low [of 0 n 15 s] by simp

lemma pk16_inc: "n < 32767 \<Longrightarrow> pk16 s n + 1 = pk16 s (n + 1)"
  by (simp add: pk16_def)


lemma unat_cut:
  assumes "q < 2147483648"
  shows "unat (drop_bit k (pk32 False q)) = q div 2 ^ k"
  unfolding unat_drop_bit_eq unat_pk32 [OF assms] by (simp add: drop_bit_eq_div)

lemma round_bit:
  assumes "q < 2147483648"
  shows "drop_bit k (pk32 False q) AND 1 \<noteq> 0 \<longleftrightarrow> q div 2 ^ k mod 2 = 1"
proof -
  have "unat (drop_bit k (pk32 False q) AND 1) = q div 2 ^ k mod 2"
    by (simp only: fields32 unat_cut [OF assms])
  moreover have "q div 2 ^ k mod 2 = 1 \<longleftrightarrow> q div 2 ^ k mod 2 \<noteq> 0" by presburger
  ultimately show ?thesis by (simp only: unat_eq_zero [symmetric])
qed

lemma cut_word:
  assumes "q < 2147483648" "q div 2 ^ k < 32768"
  shows "ucast (drop_bit k (pk32 False q)) = pk16 False (q div 2 ^ k)"
proof (rule eq_pk16 [OF assms(2)])
  have "unat (ucast (drop_bit k (pk32 False q)) :: u16) = take_bit 16 (drop_bit k (unat (pk32 False q)))"
    by (simp only: unsigned_ucast_eq unat_drop_bit_eq) simp
  then show "unat (ucast (drop_bit k (pk32 False q)) :: u16) = (if False then 32768 else 0) + q div 2 ^ k"
    using assms by (simp add: unat_pk32 drop_bit_eq_div take_bit_nat_eq_self_iff)
qed

lemma round_word:
  assumes "q < 2147483648" "q div 2 ^ Suc k < 32767"
  shows "(if drop_bit k (pk32 False q) AND 1 \<noteq> 0 then ucast (drop_bit (Suc k) (pk32 False q)) + 1
      else ucast (drop_bit (Suc k) (pk32 False q))) = pk16 False ((q + 2 ^ k) div 2 ^ Suc k)"
proof -
  have c: "ucast (drop_bit (Suc k) (pk32 False q)) = pk16 False (q div 2 ^ Suc k)"
    using assms by (intro cut_word) simp_all
  have m: "q div 2 ^ k mod 2 = 0 \<or> q div 2 ^ k mod 2 = 1" by auto
  show ?thesis
    unfolding c round_bit [OF assms(1)] round_half_up [symmetric]
    using m pk16_inc [OF assms(2), of False] by auto
qed

lemma add_bit_word:
  assumes "q < 2147483648"
  shows "pk32 False q AND 0x1000 \<noteq> 0 \<longleftrightarrow> q div 2 ^ 12 mod 2 = 1"
    "pk32 False q AND 0x200 \<noteq> 0 \<longleftrightarrow> q div 2 ^ 9 mod 2 = 1"
proof -
  have *: "a * k = 0 \<longleftrightarrow> a \<noteq> 1" if "a < 2" "0 < k" for a k :: nat using that by auto
  have "unat (pk32 False q AND 0x1000) = 0 \<longleftrightarrow> q div 2 ^ 12 mod 2 \<noteq> 1"
    using assms by (simp add: fields32 unat_pk32)
  then show "pk32 False q AND 0x1000 \<noteq> 0 \<longleftrightarrow> q div 2 ^ 12 mod 2 = 1" by (simp add: unat_eq_zero)
  have "unat (pk32 False q AND 0x200) = 0 \<longleftrightarrow> q div 2 ^ 9 mod 2 \<noteq> 1"
    using assms by (simp add: fields32 unat_pk32)
  then show "pk32 False q AND 0x200 \<noteq> 0 \<longleftrightarrow> q div 2 ^ 9 mod 2 = 1" by (simp add: unat_eq_zero)
qed

text \<open>The fields of an exponent word.\<close>

lemma exponent_word:
  assumes "e * 2 ^ k < 2147483648"
  shows "uint (drop_bit k (pk32 False (e * 2 ^ k))) = int e"
proof -
  have "unat (drop_bit k (pk32 False (e * 2 ^ k))) = e"
    by (simp only: unat_cut [OF assms]) simp
  then show ?thesis by (metis uint_nat)
qed

lemma he_word:
  assumes "b < e" "e < b + 31"
  shows "word_of_int ((int e - int b) * 2 ^ 10) = pk16 False ((e - b) * 1024)"
proof -
  have "(int e - int b) * 2 ^ 10 = int ((e - b) * 1024)" using assms by (simp add: of_nat_diff)
  then show ?thesis by (simp only: pk16_def of_int_of_nat_eq if_False add_0)
qed

lemma hidden_bit:
  "m < 8388608 \<Longrightarrow> pk32 False m OR 0x00800000 = pk32 False (8388608 + m)"
  "m < 1048576 \<Longrightarrow> pk32 False m OR 0x00100000 = pk32 False (1048576 + m)"
proof -
  assume "m < 8388608"
  then show "pk32 False m OR 0x00800000 = pk32 False (8388608 + m)"
    using unat_or_low [of "pk32 False m" 23 "0x00800000"] by (intro eq_pk32) (simp_all add: unat_pk32 or.commute)
next
  assume "m < 1048576"
  then show "pk32 False m OR 0x00100000 = pk32 False (1048576 + m)"
    using unat_or_low [of "pk32 False m" 20 "0x00100000"] by (intro eq_pk32) (simp_all add: unat_pk32 or.commute)
qed

text \<open>
  What the conversion from 32 bits does to the magnitude. An overflow of the
  mantissa when rounding up goes into the exponent, as the sum does here.
\<close>

definition s2h :: "nat \<Rightarrow> nat" where
  "s2h n = (let e = n div 8388608; m = n mod 8388608 in
     if e = 255 \<and> m \<noteq> 0 then n div 65536
     else if e \<ge> 143 then 31744
     else if e < 102 then 0
     else if e \<le> 112 then (8388608 + m + 2 ^ (125 - e)) div 2 ^ Suc (125 - e)
     else (e - 112) * 1024 + (m + 4096) div 8192)"

lemma single_to_half_pk:
  assumes n: "n < 2147483648"
  shows "single_to_half (pk32 s n) = pk16 s (s2h n)"
proof -
  define e m where "e = n div 8388608" "m = n mod 8388608"
  have em: "e < 256" "m < 8388608" "n = e * 8388608 + m" using n by (auto simp: e_m_def)
  have e8: "e * 8388608 < 2147483648" using em by simp
  note F = pk32_fields [OF n, of s, folded e_m_def]
  have z: "pk32 False n = 0 \<longleftrightarrow> n = 0" "pk32 False (e * 8388608) = 0 \<longleftrightarrow> e = 0" "pk32 False m = 0 \<longleftrightarrow> m = 0"
    using pk32_zero [OF n] pk32_zero [OF e8] pk32_zero [of m] em by auto
  have top: "pk32 False (e * 8388608) = 0x7F800000 \<longleftrightarrow> e = 255"
  proof -
    have "(0x7F800000 :: u32) = pk32 False (255 * 8388608)" by (simp add: pk32_def)
    moreover have "255 * 8388608 < (2147483648 :: nat)" by simp
    ultimately show ?thesis using pk32_eq [OF e8, of "255 * 8388608" False] by simp
  qed
  have hes: "uint (drop_bit 23 (pk32 False (e * 8388608))) = int e"
    using exponent_word [of e 23] e8 by simp
  have hs: "ucast (drop_bit 16 (pk32 s 0)) = pk16 s 0" using high_half [of 0 s] by simp
  have hn: "ucast (drop_bit 16 (pk32 s n)) = pk16 s (n div 65536)" by (rule high_half [OF n])
  have S: "s2h n = (if e = 255 \<and> m \<noteq> 0 then n div 65536 else if e \<ge> 143 then 31744
      else if e < 102 then 0 else if e \<le> 112 then (8388608 + m + 2 ^ (125 - e)) div 2 ^ Suc (125 - e)
      else (e - 112) * 1024 + (m + 4096) div 8192)"
    by (simp only: s2h_def Let_def e_m_def)
  note D = single_to_half_def [of "pk32 s n", unfolded F z top hes hs hn inf_half Let_def]
  consider "e = 0" | "e = 255" | "143 \<le> e" "e < 255" | "0 < e" "e < 102" | "102 \<le> e" "e \<le> 112"
    | "112 < e" "e < 143" using em(1) by linarith
  then show ?thesis
  proof cases
    case 1
    have s0: "s2h n = 0" using S 1 by simp
    show ?thesis unfolding D s0 using 1 em by auto
  next
    case 2
    then have s0: "s2h n = (if m \<noteq> 0 then n div 65536 else 31744)" "n \<noteq> 0" using S em(3) by auto
    show ?thesis unfolding D s0(1) using 2 s0(2) by auto
  next
    case 3
    then have s0: "s2h n = 31744" "n \<noteq> 0" using S em(3) by auto
    show ?thesis unfolding D s0(1) using 3 s0(2) by auto
  next
    case 4
    then have s0: "s2h n = 0" "n \<noteq> 0" using S em(3) by auto
    show ?thesis unfolding D s0(1) using 4 s0(2) pk16_or_sign [of 0 s] by (auto simp: pk16_def)
  next
    case 5
    let ?q = "8388608 + m"
    have k: "nat (14 - (int e - 127 + 15)) = Suc (125 - e)" "nat (13 - (int e - 127 + 15)) = 125 - e"
      using 5 by auto
    have "(2 :: nat) ^ 14 \<le> 2 ^ Suc (125 - e)" using 5 by (intro power_increasing) auto
    then have "?q div 2 ^ Suc (125 - e) \<le> ?q div 2 ^ 14" by (intro div_le_mono2) auto
    also have "\<dots> \<le> 1023" using em(2) by simp
    finally have small: "?q div 2 ^ Suc (125 - e) \<le> 1023" .
    have r: "(?q + 2 ^ (125 - e)) div 2 ^ Suc (125 - e) < 32768"
      using small by (simp only: round_half_up [symmetric])
    have "single_to_half (pk32 s n) = pk16 s 0 OR pk16 False ((?q + 2 ^ (125 - e)) div 2 ^ Suc (125 - e))"
    proof -
      have "?q div 2 ^ Suc (125 - e) < 32767" "?q < 2147483648" using small em(2) by simp_all
      note R = round_word [OF this(2,1)]
      have n0: "n \<noteq> 0" "e \<noteq> 0" "e \<noteq> 255" "\<not> 31 \<le> int e - 127 + 15" "int e - 127 + 15 \<le> 0"
        "\<not> 24 < 14 - (int e - 127 + 15)" using 5 em(3) by auto
      show ?thesis
        unfolding D k hidden_bit(1) [OF em(2)] R by (simp only: n0 if_False if_True simp_thms)
    qed
    with r 5 show ?thesis
      by (simp add: pk16_or_sign S)
  next
    case 6
    have "single_to_half (pk32 s n) = pk16 s ((e - 112) * 1024 + (m div 8192 + m div 4096 mod 2))"
    proof -
      have a: "(e - 112) * 1024 + m div 8192 < 31744" using 6 em(2) by (simp add: less_mult_imp_div_less)
      have "word_of_int ((int e - 127 + 15) * 2 ^ 10) = pk16 False ((e - 112) * 1024)"
        using he_word [of 112 e] 6 by simp
      moreover have "ucast (drop_bit 13 (pk32 False m)) = pk16 False (m div 8192)"
        using cut_word [of m 13] em(2) by simp
      moreover have "pk16 False ((e - 112) * 1024) OR pk16 False (m div 8192) =
          pk16 False ((e - 112) * 1024 + m div 8192)"
        using a em(2) by (intro pk16_or_low [of _ _ 10]) (auto simp: less_mult_imp_div_less)
      ultimately show ?thesis
        using 6 em a unfolding D by (auto simp: pk16_or_sign pk16_inc add_bit_word)
    qed
    also have "m div 8192 + m div 4096 mod 2 = (m + 4096) div 8192"
      using round_half_up [of m 12] by simp
    finally show ?thesis using 6 by (simp add: S)
  qed
qed


text \<open>The same for the high word of a 64-bit number; the sign of a NaN is lost.\<close>

definition d2h :: "nat \<Rightarrow> nat" where
  "d2h n = (let e = n div 1048576; m = n mod 1048576 in
     if e \<ge> 1039 then 31744
     else if e < 997 then 0
     else if e \<le> 1008 then (1048576 + m + 2 ^ (1018 - e)) div 2 ^ Suc (1018 - e)
     else (e - 1008) * 1024 + (m + 512) div 1024)"

lemma double_to_half_pk:
  assumes n: "n < 2147483648"
  shows "double_to_half (pk32 s n) = (if n > 2146435072 then 0xFE00 else pk16 s (d2h n))"
proof -
  define e m where "e = n div 1048576" "m = n mod 1048576"
  have em: "e < 2048" "m < 1048576" "n = e * 1048576 + m" using n by (auto simp: e_m_def)
  have e8: "e * 1048576 < 2147483648" using em by simp
  note F = pk32_fields [OF n, of s, folded e_m_def]
  have z: "pk32 False n = 0 \<longleftrightarrow> n = 0" "pk32 False (e * 1048576) = 0 \<longleftrightarrow> e = 0" "pk32 False m = 0 \<longleftrightarrow> m = 0"
    using pk32_zero [OF n] pk32_zero [OF e8] pk32_zero [of m] em by auto
  have top: "pk32 False (e * 1048576) = 0x7FF00000 \<longleftrightarrow> e = 2047"
  proof -
    have "(0x7FF00000 :: u32) = pk32 False (2047 * 1048576)" by (simp add: pk32_def)
    moreover have "2047 * 1048576 < (2147483648 :: nat)" by simp
    ultimately show ?thesis using pk32_eq [OF e8, of "2047 * 1048576" False] by simp
  qed
  have hes: "uint (drop_bit 20 (pk32 False (e * 1048576))) = int e"
    using exponent_word [of e 20] e8 by simp
  have hs: "ucast (drop_bit 16 (pk32 s 0)) = pk16 s 0" using high_half [of 0 s] by simp
  have hn: "ucast (drop_bit 16 (pk32 s n)) = pk16 s (n div 65536)" by (rule high_half [OF n])
  have S: "d2h n = (if e \<ge> 1039 then 31744
      else if e < 997 then 0 else if e \<le> 1008 then (1048576 + m + 2 ^ (1018 - e)) div 2 ^ Suc (1018 - e)
      else (e - 1008) * 1024 + (m + 512) div 1024)"
    by (simp only: d2h_def Let_def e_m_def)
  note D = double_to_half_def [of "pk32 s n", unfolded F z top hes hs hn inf_half Let_def]
  have nan: "n > 2146435072 \<longleftrightarrow> e = 2047 \<and> m \<noteq> 0" using em by auto
  consider "e = 0" | "e = 2047" | "1039 \<le> e" "e < 2047" | "0 < e" "e < 997" | "997 \<le> e" "e \<le> 1008"
    | "1008 < e" "e < 1039" using em(1) by linarith
  then show ?thesis
  proof cases
    case 1
    then have s0: "d2h n = 0" using S by simp
    show ?thesis unfolding D s0 nan using 1 em by auto
  next
    case 2
    then have s0: "d2h n = 31744" "n \<noteq> 0" using S em(3) by auto
    show ?thesis unfolding D s0(1) nan using 2 s0(2) by auto
  next
    case 3
    then have s0: "d2h n = 31744" "n \<noteq> 0" using S em(3) by auto
    show ?thesis unfolding D s0(1) nan using 3 s0(2) by auto
  next
    case 4
    then have s0: "d2h n = 0" "n \<noteq> 0" using S em(3) by auto
    show ?thesis unfolding D s0(1) nan using 4 s0(2) pk16_or_sign [of 0 s] by (auto simp: pk16_def)
  next
    case 5
    let ?q = "1048576 + m"
    have k: "nat (11 - (int e - 1023 + 15)) = Suc (1018 - e)" "nat (10 - (int e - 1023 + 15)) = 1018 - e"
      using 5 by auto
    have "(2 :: nat) ^ 11 \<le> 2 ^ Suc (1018 - e)" using 5 by (intro power_increasing) auto
    then have "?q div 2 ^ Suc (1018 - e) \<le> ?q div 2 ^ 11" by (intro div_le_mono2) auto
    also have "\<dots> \<le> 1023" using em(2) by simp
    finally have small: "?q div 2 ^ Suc (1018 - e) \<le> 1023" .
    have r: "(?q + 2 ^ (1018 - e)) div 2 ^ Suc (1018 - e) < 32768"
      using small by (simp only: round_half_up [symmetric])
    have "double_to_half (pk32 s n) = pk16 s 0 OR pk16 False ((?q + 2 ^ (1018 - e)) div 2 ^ Suc (1018 - e))"
    proof -
      have "?q div 2 ^ Suc (1018 - e) < 32767" "?q < 2147483648" using small em(2) by simp_all
      note R = round_word [OF this(2,1)]
      have n0: "n \<noteq> 0" "e \<noteq> 0" "e \<noteq> 2047" "\<not> 31 \<le> int e - 1023 + 15" "int e - 1023 + 15 \<le> 0"
        "\<not> 21 < 10 - (int e - 1023 + 15)" using 5 em(3) by auto
      show ?thesis
        unfolding D k hidden_bit(2) [OF em(2)] R by (simp only: n0 if_False if_True simp_thms)
    qed
    with r 5 show ?thesis
      unfolding nan by (simp add: pk16_or_sign S)
  next
    case 6
    have "double_to_half (pk32 s n) = pk16 s ((e - 1008) * 1024 + (m div 1024 + m div 512 mod 2))"
    proof -
      have a: "(e - 1008) * 1024 + m div 1024 < 31744" using 6 em(2) by (simp add: less_mult_imp_div_less)
      have "word_of_int ((int e - 1023 + 15) * 2 ^ 10) = pk16 False ((e - 1008) * 1024)"
        using he_word [of 1008 e] 6 by simp
      moreover have "ucast (drop_bit 10 (pk32 False m)) = pk16 False (m div 1024)"
        using cut_word [of m 10] em(2) by simp
      moreover have "pk16 False ((e - 1008) * 1024) OR pk16 False (m div 1024) =
          pk16 False ((e - 1008) * 1024 + m div 1024)"
        using a em(2) by (intro pk16_or_low [of _ _ 10]) (auto simp: less_mult_imp_div_less)
      ultimately show ?thesis
        using 6 em a unfolding D by (auto simp: pk16_or_sign pk16_inc add_bit_word)
    qed
    also have "m div 1024 + m div 512 mod 2 = (m + 512) div 1024"
      using round_half_up [of m 9] by simp
    finally show ?thesis using 6 unfolding nan by (simp add: S)
  qed
qed

subsection \<open>Widening\<close>

lemma normalize_ok:
  assumes "1024 \<le> a * 2 ^ k" "a < 1024" "k \<le> fuel"
  shows "\<exists>j. 1 \<le> j \<and> j \<le> k \<and> 1024 \<le> a * 2 ^ j \<and> a * 2 ^ j < 2048 \<and>
    normalize fuel e (of_nat a) = Some (e + int j, of_nat (a * 2 ^ j))"
  using assms
proof (induction k arbitrary: a e fuel)
  case 0
  then show ?case by simp
next
  case (Suc k)
  then obtain f where f: "fuel = Suc f" "k \<le> f" by (cases fuel) auto
  have p: "push_bit 1 (of_nat a :: u16) = of_nat (2 * a)" by (simp add: push_bit_eq_mult)
  have "unat (of_nat (2 * a) AND 0x400 :: u16) = 2 * a div 1024 mod 2 * 1024"
  proof -
    have "unat (of_nat (2 * a) :: u16) = 2 * a" using Suc.prems(2) by (intro unat_of_nat_lt) simp
    then show ?thesis by (simp only: fields16)
  qed
  note u = this
  have b: "of_nat (2 * a) AND (0x400 :: u16) = 0 \<longleftrightarrow> 2 * a < 1024"
  proof -
    have "2 * a div 1024 mod 2 * 1024 = 0 \<longleftrightarrow> 2 * a < 1024"
      using Suc.prems(2) by (cases "2 * a < 1024") (simp_all add: div_nat_eqI)
    with u show ?thesis by (simp only: unat_eq_zero [symmetric])
  qed
  show ?case
  proof (cases "2 * a < 1024")
    case True
    obtain j where j: "1 \<le> j" "j \<le> k" "1024 \<le> 2 * a * 2 ^ j" "2 * a * 2 ^ j < 2048"
      "normalize f (e + 1) (of_nat (2 * a)) = Some (e + 1 + int j, of_nat (2 * a * 2 ^ j))"
      using Suc.IH [of "2 * a" f "e + 1"] Suc.prems(1) True f(2) by (auto simp: mult.assoc mult.left_commute)
    have "normalize fuel e (of_nat a) = normalize f (e + 1) (of_nat (2 * a))"
      unfolding f normalize.simps Let_def p using b True by (simp only: if_True)
    with j show ?thesis
      by (intro exI [of _ "Suc j"]) (simp add: mult.assoc mult.left_commute add.assoc)
  next
    case False
    have "normalize fuel e (of_nat a) = Some (e + 1, of_nat (2 * a))"
      unfolding f normalize.simps Let_def p using b False by (simp only: if_False)
    with False Suc.prems(2) show ?thesis by (intro exI [of _ 1]) (simp add: mult.commute)
  qed
qed

text \<open>
  What widening does to the magnitude, for an exponent bias that differs by \<open>b\<close>
  and \<open>2 ^ k\<close> as the unit of the exponent field. A denormal mantissa is shifted
  left by \<open>j\<close> until it reaches the hidden bit.
\<close>

definition widened :: "nat \<Rightarrow> nat \<Rightarrow> nat \<Rightarrow> nat \<Rightarrow> bool" where
  "widened b k n v \<longleftrightarrow>
     (if n = 0 then v = 0
      else if n < 1024 then \<exists>j. 1 \<le> j \<and> j \<le> 10 \<and> 1024 \<le> n * 2 ^ j \<and> n * 2 ^ j < 2048 \<and>
        v = (b + 1 - j) * 2 ^ k + (n * 2 ^ j - 1024) * 2 ^ (k - 10)
      else v = (n div 1024 + b) * 2 ^ k + n mod 1024 * 2 ^ (k - 10))"

lemma pk16_fields:
  assumes n: "n < 32768"
  shows "pk16 s n AND 0x7FFF = pk16 False n"
    "pk16 s n AND 0x8000 = pk16 s 0"
    "pk16 s n AND 0x7C00 = pk16 False (n div 1024 * 1024)"
    "pk16 s n AND 0x03FF = pk16 False (n mod 1024)"
proof -
  have u: "unat (pk16 s n) = (if s then 32768 else 0) + n" by (rule unat_pk16 [OF n])
  have d: "n div 1024 < 32" using n by simp
  have b: "n div 1024 * 1024 < 32768" "n mod 1024 < 32768"
    using n by (auto intro: order.strict_trans1 [OF div_times_less_eq_dividend]
        order.strict_trans [OF mod_less_divisor])
  show "pk16 s n AND 0x7FFF = pk16 False n"
    by (rule eq_pk16 [OF n]) (simp add: fields16 u n)
  show "pk16 s n AND 0x8000 = pk16 s 0"
  proof (rule eq_pk16)
    have "(32768 + n) div 32768 = 1" using n by (intro div_nat_eqI) simp_all
    with n show "unat (pk16 s n AND 0x8000) = (if s then 32768 else 0) + 0"
      by (simp add: fields16 u)
  qed simp
  show "pk16 s n AND 0x7C00 = pk16 False (n div 1024 * 1024)"
    using sign_div(1) [of n 5 10] n d by (intro eq_pk16 [OF b(1)]) (simp add: fields16 u)
  show "pk16 s n AND 0x03FF = pk16 False (n mod 1024)"
    using sign_div(2) [of n 5 10] n by (intro eq_pk16 [OF b(2)]) (simp add: fields16 u)
qed


lemma pk32_or_low:
  assumes "a + b < 2147483648" "2 ^ k dvd a" "b < 2 ^ k" "k \<le> 31"
  shows "pk32 s a OR pk32 False b = pk32 s (a + b)"
proof (rule eq_pk32 [OF assms(1)])
  have ab: "a < 2147483648" "b < 2147483648" using assms(1) by auto
  have "(2 :: nat) ^ k dvd 2 ^ 31" using assms(4) by (rule le_imp_power_dvd)
  then have "2 ^ k dvd (if s then 2147483648 else 0) + a" using assms(2) by simp
  then show "unat (pk32 s a OR pk32 False b) = (if s then 2147483648 else 0) + (a + b)"
    using assms(3) ab by (subst unat_or_low [of _ k]) (simp_all add: unat_pk32)
qed

lemma ucast_pk16:
  assumes "n < 32768"
  shows "(ucast (pk16 s n) :: u32) = of_nat ((if s then 32768 else 0) + n)"
proof (rule word_unat_eq_iff [THEN iffD2])
  have "unat (ucast (pk16 s n) :: u32) = take_bit 32 ((if s then 32768 else 0) + n)"
    by (simp only: unsigned_ucast_eq unat_pk16 [OF assms]) simp
  also have "\<dots> = (if s then 32768 else 0) + n" using assms by (simp add: take_bit_nat_eq_self_iff)
  also have "\<dots> = unat (of_nat ((if s then 32768 else 0) + n) :: u32)"
    by (rule unat_of_nat_lt [symmetric]) (use assms in simp)
  finally show "unat (ucast (pk16 s n) :: u32) = unat (of_nat ((if s then 32768 else 0) + n) :: u32)" .
qed

lemma shifted_half:
  assumes "n < 32768"
  shows "push_bit k (ucast (pk16 False n)) = pk32 False (n * 2 ^ k)"
  unfolding ucast_pk16 [OF assms] by (simp add: pk32_def push_bit_eq_mult)

lemma widened_sign:
  assumes "n < 32768"
  shows "push_bit 16 (ucast (pk16 s n)) = pk32 s (n * 65536)"
  unfolding ucast_pk16 [OF assms] by (cases s) (simp_all add: pk32_def push_bit_eq_mult algebra_simps)

lemma exponent16:
  assumes "e < 32"
  shows "uint (drop_bit 10 (pk16 False (e * 1024))) = int e"
proof -
  have "unat (drop_bit 10 (pk16 False (e * 1024))) = e"
    using assms unfolding unat_drop_bit_eq by (simp add: drop_bit_eq_div unat_pk16)
  then show ?thesis by (metis uint_nat)
qed

lemma xe_word: "x = int v \<Longrightarrow> word_of_int (x * 2 ^ k) = pk32 False (v * 2 ^ k)"
  by (simp add: pk32_def)

lemma assemble:
  assumes "v * 2 ^ k < 2147483648" "k \<le> 31" "m < 1024" "10 \<le> k" "v * 2 ^ k + 2 ^ k \<le> 2147483648"
  shows "pk32 s 0 OR pk32 False (v * 2 ^ k) OR pk32 False (m * 2 ^ (k - 10)) =
    pk32 s (v * 2 ^ k + m * 2 ^ (k - 10))"
proof -
  have m: "m * 2 ^ (k - 10) < 2 ^ k"
  proof -
    have "m * 2 ^ (k - 10) < 2 ^ 10 * 2 ^ (k - 10)" using assms(3) by simp
    also have "\<dots> = 2 ^ k" using assms(4) by (simp only: power_add [symmetric]) simp
    finally show ?thesis .
  qed
  have "pk32 False (v * 2 ^ k) OR pk32 False (m * 2 ^ (k - 10)) = pk32 False (v * 2 ^ k + m * 2 ^ (k - 10))"
    using m assms by (intro pk32_or_low [of _ _ k]) auto
  moreover have "pk32 s 0 OR pk32 False (v * 2 ^ k + m * 2 ^ (k - 10)) =
      pk32 s (0 + (v * 2 ^ k + m * 2 ^ (k - 10)))"
    using m assms by (intro pk32_or_low [of _ _ 31]) auto
  ultimately show ?thesis by simp
qed

lemma pk16_zero: "n < 32768 \<Longrightarrow> pk16 False n = 0 \<longleftrightarrow> n = 0"
  using unat_pk16 [of n False] by (auto simp: unat_eq_zero [symmetric] pk16_def)

lemma inf_word: "k < 2147483648 \<Longrightarrow> pk32 s 0 OR of_nat k = pk32 s k"
  using pk32_or_low [of 0 k 31 s] by (simp add: pk32_def)

text \<open>Both widenings of a number that is not a NaN.\<close>

lemma half_to_single_pk:
  assumes n: "n < 32768"
  shows "\<exists>v. half_to_single (pk16 s n) = Some (pk32 s v) \<and>
    (if n < 31744 then widened 112 23 n v else if n = 31744 then v = 2139095040 else v = n * 65536)"
proof -
  define e m where "e = n div 1024" "m = n mod 1024"
  have em: "e < 32" "m < 1024" "n = e * 1024 + m" using n by (auto simp: e_m_def)
  have e8: "e * 1024 < 32768" using em by simp
  note F = pk16_fields [OF n, of s, folded e_m_def]
  have z: "pk16 False n = 0 \<longleftrightarrow> n = 0" "pk16 False (e * 1024) = 0 \<longleftrightarrow> e = 0" "pk16 False m = 0 \<longleftrightarrow> m = 0"
    using pk16_zero [OF n] pk16_zero [OF e8] pk16_zero [of m] em by auto
  have top: "pk16 False (e * 1024) = 0x7C00 \<longleftrightarrow> e = 31"
  proof -
    have "unat (pk16 False (e * 1024)) = e * 1024" using unat_pk16 [OF e8] by simp
    moreover have "pk16 False (e * 1024) = 0x7C00 \<longleftrightarrow> unat (pk16 False (e * 1024)) = 31 * 1024"
      by (simp add: word_unat_eq_iff)
    ultimately show ?thesis by simp
  qed
  have xs: "push_bit 16 (ucast (pk16 s 0)) = pk32 s 0" using widened_sign [of 0 s] by simp
  have xn: "push_bit 16 (ucast (pk16 s n)) = pk32 s (n * 65536)" by (rule widened_sign [OF n])
  have inf: "pk32 s 0 OR 0x7F800000 = pk32 s 2139095040" using inf_word [of 2139095040 s] by simp
  note D = half_to_single_def [of "pk16 s n", unfolded F z top xs xn inf exponent16 [OF em(1)] Let_def]
  consider "n = 0" | "0 < n" "n < 1024" | "1024 \<le> n" "n < 31744" | "31744 \<le> n" by linarith
  then show ?thesis
  proof cases
    case 1
    then show ?thesis unfolding D by (auto simp: widened_def)
  next
    case 2
    then have e: "e = 0" "m = n" by (simp_all add: e_m_def)
    obtain j where j: "1 \<le> j" "j \<le> 10" "1024 \<le> n * 2 ^ j" "n * 2 ^ j < 2048"
      "normalize 16 (- 1) (of_nat n) = Some (- 1 + int j, of_nat (n * 2 ^ j))"
      using normalize_ok [of n 10 16 "- 1"] 2 by auto
    have pn: "pk16 False n = of_nat n" by (simp add: pk16_def)
    have low: "of_nat (n * 2 ^ j) AND (0x3FF :: u16) = pk16 False (n * 2 ^ j - 1024)"
    proof (rule eq_pk16)
      have "n * 2 ^ j mod 1024 = n * 2 ^ j - 1024" using j(3,4) by (simp add: le_mod_geq)
      moreover have "unat (of_nat (n * 2 ^ j) :: u16) = n * 2 ^ j" using j(4) by (intro unat_of_nat_lt) simp
      ultimately show "unat (of_nat (n * 2 ^ j) AND (0x3FF :: u16)) = (if False then 32768 else 0) + (n * 2 ^ j - 1024)"
        by (simp only: fields16 if_False add_0)
    qed (use j(4) in simp)
    have xe: "word_of_int ((int 0 - 15 + 127 - (- 1 + int j)) * 2 ^ 23) = pk32 False ((113 - j) * 2 ^ 23)"
      using j(2) by (intro xe_word) auto
    have xm: "push_bit 13 (ucast (pk16 False (n * 2 ^ j - 1024))) = pk32 False ((n * 2 ^ j - 1024) * 2 ^ (23 - 10))"
      using j(4) shifted_half [of "n * 2 ^ j - 1024" 13] by simp
    have "half_to_single (pk16 s n) = Some (pk32 s ((113 - j) * 2 ^ 23 + (n * 2 ^ j - 1024) * 2 ^ (23 - 10)))"
      using 2 j(4) unfolding D e j(5) pn
      by (simp only: simp_thms if_True if_False bind.bind_lunit case_prod_conv low xe xm neq0_conv option.simps)
        (subst assemble; simp)
    moreover have "widened 112 23 n ((113 - j) * 2 ^ 23 + (n * 2 ^ j - 1024) * 2 ^ (23 - 10))"
      using 2 j(1-4) by (auto simp: widened_def)
    ultimately show ?thesis using 2 by auto
  next
    case 3
    then have e: "1 \<le> e" "e < 31" using em by auto
    have xe: "word_of_int ((int e - 15 + 127) * 2 ^ 23) = pk32 False ((e + 112) * 2 ^ 23)"
      by (rule xe_word) simp
    have xm: "push_bit 13 (ucast (pk16 False m)) = pk32 False (m * 2 ^ (23 - 10))"
      using em(2) shifted_half [of m 13] by simp
    have "half_to_single (pk16 s n) = Some (pk32 s ((e + 112) * 2 ^ 23 + m * 2 ^ (23 - 10)))"
      using 3 e em(2) unfolding D xe xm by (subst assemble) auto
    then show ?thesis using 3 by (auto simp: widened_def e_m_def)
  next
    case 4
    then have e: "e = 31" using em n by auto
    with 4 em show ?thesis unfolding D by auto
  qed
qed


lemma half_to_double_pk:
  assumes n: "n < 32768"
  shows "\<exists>v. half_to_double (pk16 s n) = Some (if n > 31744 then 0xFFF80000 else pk32 s v) \<and>
    (n < 31744 \<longrightarrow> widened 1008 20 n v) \<and> (n = 31744 \<longrightarrow> v = 2146435072)"
proof -
  define e m where "e = n div 1024" "m = n mod 1024"
  have em: "e < 32" "m < 1024" "n = e * 1024 + m" using n by (auto simp: e_m_def)
  have e8: "e * 1024 < 32768" using em by simp
  note F = pk16_fields [OF n, of s, folded e_m_def]
  have z: "pk16 False n = 0 \<longleftrightarrow> n = 0" "pk16 False (e * 1024) = 0 \<longleftrightarrow> e = 0" "pk16 False m = 0 \<longleftrightarrow> m = 0"
    using pk16_zero [OF n] pk16_zero [OF e8] pk16_zero [of m] em by auto
  have top: "pk16 False (e * 1024) = 0x7C00 \<longleftrightarrow> e = 31"
  proof -
    have "unat (pk16 False (e * 1024)) = e * 1024" using unat_pk16 [OF e8] by simp
    moreover have "pk16 False (e * 1024) = 0x7C00 \<longleftrightarrow> unat (pk16 False (e * 1024)) = 31 * 1024"
      by (simp add: word_unat_eq_iff)
    ultimately show ?thesis by simp
  qed
  have xs: "push_bit 16 (ucast (pk16 s 0)) = pk32 s 0" using widened_sign [of 0 s] by simp
  have xn: "push_bit 16 (ucast (pk16 s n)) = pk32 s (n * 65536)" by (rule widened_sign [OF n])
  have inf: "pk32 s 0 OR 0x7FF00000 = pk32 s 2146435072" using inf_word [of 2146435072 s] by simp
  note D = half_to_double_def [of "pk16 s n", unfolded F z top xs xn inf exponent16 [OF em(1)] Let_def]
  consider "n = 0" | "0 < n" "n < 1024" | "1024 \<le> n" "n < 31744" | "31744 \<le> n" by linarith
  then show ?thesis
  proof cases
    case 1
    then show ?thesis unfolding D by (auto simp: widened_def)
  next
    case 2
    then have e: "e = 0" "m = n" by (simp_all add: e_m_def)
    obtain j where j: "1 \<le> j" "j \<le> 10" "1024 \<le> n * 2 ^ j" "n * 2 ^ j < 2048"
      "normalize 16 (- 1) (of_nat n) = Some (- 1 + int j, of_nat (n * 2 ^ j))"
      using normalize_ok [of n 10 16 "- 1"] 2 by auto
    have pn: "pk16 False n = of_nat n" by (simp add: pk16_def)
    have low: "of_nat (n * 2 ^ j) AND (0x3FF :: u16) = pk16 False (n * 2 ^ j - 1024)"
    proof (rule eq_pk16)
      have "n * 2 ^ j mod 1024 = n * 2 ^ j - 1024" using j(3,4) by (simp add: le_mod_geq)
      moreover have "unat (of_nat (n * 2 ^ j) :: u16) = n * 2 ^ j" using j(4) by (intro unat_of_nat_lt) simp
      ultimately show "unat (of_nat (n * 2 ^ j) AND (0x3FF :: u16)) = (if False then 32768 else 0) + (n * 2 ^ j - 1024)"
        by (simp only: fields16 if_False add_0)
    qed (use j(4) in simp)
    have xe: "word_of_int ((int 0 - 15 + 1023 - (- 1 + int j)) * 2 ^ 20) = pk32 False ((1009 - j) * 2 ^ 20)"
      using j(2) by (intro xe_word) auto
    have xm: "push_bit 10 (ucast (pk16 False (n * 2 ^ j - 1024))) = pk32 False ((n * 2 ^ j - 1024) * 2 ^ (20 - 10))"
      using j(4) shifted_half [of "n * 2 ^ j - 1024" 10] by simp
    have "half_to_double (pk16 s n) = Some (pk32 s ((1009 - j) * 2 ^ 20 + (n * 2 ^ j - 1024) * 2 ^ (20 - 10)))"
      using 2 j(4) unfolding D e j(5) pn
      by (simp only: simp_thms if_True if_False bind.bind_lunit case_prod_conv low xe xm neq0_conv option.simps)
        (subst assemble; simp)
    moreover have "widened 1008 20 n ((1009 - j) * 2 ^ 20 + (n * 2 ^ j - 1024) * 2 ^ (20 - 10))"
      using 2 j(1-4) by (auto simp: widened_def)
    ultimately show ?thesis using 2 by auto
  next
    case 3
    then have e: "1 \<le> e" "e < 31" using em by auto
    have xe: "word_of_int ((int e - 15 + 1023) * 2 ^ 20) = pk32 False ((e + 1008) * 2 ^ 20)"
      by (rule xe_word) simp
    have xm: "push_bit 10 (ucast (pk16 False m)) = pk32 False (m * 2 ^ (20 - 10))"
      using em(2) shifted_half [of m 10] by simp
    have "half_to_double (pk16 s n) = Some (pk32 s ((e + 1008) * 2 ^ 20 + m * 2 ^ (20 - 10)))"
      using 3 e em(2) unfolding D xe xm by (subst assemble) auto
    then show ?thesis using 3 by (auto simp: widened_def e_m_def)
  next
    case 4
    then have e: "e = 31" using em n by auto
    with 4 em show ?thesis unfolding D by auto
  qed
qed

end
