(* ===== verification/HalfSpec.thy ===== *)
theory HalfSpec
  imports HalfPrecision
begin

section \<open>Half precision: values, rounding and round trips\<close>

text \<open>
  A magnitude with \<open>k\<close> mantissa bits stands for the number \<open>fval k n\<close> in units
  of its smallest denormal. The unit of a half is \<open>2 ^ 125\<close> units of a single
  and \<open>2 ^ 1050\<close> units of a double, so values are compared as natural numbers.
\<close>

definition fval :: "nat \<Rightarrow> nat \<Rightarrow> nat" where
  "fval k n = (let e = n div 2 ^ k; m = n mod 2 ^ k in if e = 0 then m else (2 ^ k + m) * 2 ^ (e - 1))"

text \<open>The mantissa may be full: rounding up across a power of two is continuous.\<close>

lemma fval_at:
  assumes "m \<le> 2 ^ k"
  shows "fval k (e * 2 ^ k + m) = (if e = 0 then m else (2 ^ k + m) * 2 ^ (e - 1))"
proof (cases "m = 2 ^ k")
  case True
  then have n: "e * 2 ^ k + m = (e + 1) * 2 ^ k" by simp
  have "(e + 1) * 2 ^ k div 2 ^ k = e + 1" "(e + 1) * 2 ^ k mod 2 ^ k = 0" by simp_all
  with True show ?thesis
    unfolding n fval_def Let_def by (cases e) simp_all
next
  case False
  with assms have "m < 2 ^ k" by simp
  then show ?thesis by (simp add: fval_def Let_def)
qed

subsection \<open>Widening is exact\<close>

lemma widened_exact:
  assumes w: "widened b k n v" and n: "n < 31744" and b: "10 \<le> b" and k: "10 \<le> k"
  shows "fval k v = fval 10 n * 2 ^ (b + k - 10)"
proof -
  have pk: "(2 :: nat) ^ k = 1024 * 2 ^ (k - 10)"
  proof -
    have "(2 :: nat) ^ k = 2 ^ (10 + (k - 10))" using k by simp
    then show ?thesis by (simp only: power_add) simp
  qed
  consider "n = 0" | "0 < n" "n < 1024" | "1024 \<le> n" by linarith
  then show ?thesis
  proof cases
    case 1
    with w show ?thesis by (simp add: widened_def fval_def)
  next
    case 2
    with w obtain j where j: "1 \<le> j" "j \<le> 10" "1024 \<le> n * 2 ^ j" "n * 2 ^ j < 2048"
      "v = (b + 1 - j) * 2 ^ k + (n * 2 ^ j - 1024) * 2 ^ (k - 10)"
      by (auto simp: widened_def)
    have m: "(n * 2 ^ j - 1024) * 2 ^ (k - 10) \<le> 2 ^ k" unfolding pk using j(4) by (intro mult_right_mono) auto
    have "fval k v = (2 ^ k + (n * 2 ^ j - 1024) * 2 ^ (k - 10)) * 2 ^ (b - j)"
      using j(2) b unfolding j(5) by (subst fval_at [OF m]) auto
    also have "\<dots> = (n * 2 ^ j) * 2 ^ (k - 10) * 2 ^ (b - j)"
      using j(3) unfolding pk by (simp only: add_mult_distrib [symmetric]) simp
    also have "\<dots> = n * 2 ^ (j + (k - 10) + (b - j))" by (simp only: power_add mult.assoc)
    also have "j + (k - 10) + (b - j) = b + k - 10" using j(2) b k by simp
    finally show ?thesis using 2 by (simp add: fval_def)
  next
    case 3
    define e m where "e = n div 1024" "m = n mod 1024"
    have em: "1 \<le> e" "m < 1024" "n = e * 2 ^ 10 + m" using 3 by (auto simp: e_m_def)
    have v: "v = (e + b) * 2 ^ k + m * 2 ^ (k - 10)" using w 3 by (simp add: widened_def e_m_def)
    have m: "m * 2 ^ (k - 10) \<le> 2 ^ k" unfolding pk using em(2) by (intro mult_right_mono) auto
    have "fval k v = (2 ^ k + m * 2 ^ (k - 10)) * 2 ^ (e + b - 1)"
      using em(1) unfolding v by (subst fval_at [OF m]) auto
    also have "\<dots> = (1024 + m) * (2 ^ (k - 10) * 2 ^ (e + b - 1))"
      unfolding pk by (simp only: add_mult_distrib [symmetric] mult.assoc)
    also have "2 ^ (k - 10) * 2 ^ (e + b - 1) = (2 :: nat) ^ (e - 1 + (b + k - 10))"
      using em(1) b k by (simp add: power_add [symmetric])
    also have "(1024 + m) * 2 ^ (e - 1 + (b + k - 10)) = (1024 + m) * 2 ^ (e - 1) * 2 ^ (b + k - 10)"
      by (simp only: power_add mult.assoc)
    also have "(1024 + m) * 2 ^ (e - 1) = fval 10 n"
      unfolding em(3) using em(1,2) by (subst fval_at) auto
    finally show ?thesis .
  qed
qed

subsection \<open>Narrowing rounds to the nearest\<close>

text \<open>Both narrowings, for \<open>k\<close> mantissa bits and a bias that differs by \<open>b\<close>.\<close>

definition narrow :: "nat \<Rightarrow> nat \<Rightarrow> nat \<Rightarrow> nat" where
  "narrow k b n = (let e = n div 2 ^ k; m = n mod 2 ^ k in
     if b + 31 \<le> e then 31744
     else if e + 10 < b then 0
     else if e \<le> b then (2 ^ k + m + 2 ^ (k + b - 10 - e)) div 2 ^ Suc (k + b - 10 - e)
     else (e - b) * 1024 + (m + 2 ^ (k - 11)) div 2 ^ (k - 10))"

lemma s2h_narrow: "n \<le> 2139095040 \<Longrightarrow> s2h n = narrow 23 112 n"
proof -
  assume n: "n \<le> 2139095040"
  then have "\<not> (n div 8388608 = 255 \<and> n mod 8388608 \<noteq> 0)"
    using div_mult_mod_eq [of n 8388608, symmetric] n by linarith
  then show ?thesis by (auto simp: s2h_def narrow_def Let_def)
qed

lemma div_nested: "(x * 2 ^ j + l) div 2 ^ (i + j) = (x div 2 ^ i :: nat)" if "l < 2 ^ j"
proof -
  have "(x * 2 ^ j + l) div 2 ^ (i + j) = (x * 2 ^ j + l) div 2 ^ j div 2 ^ i"
    by (simp only: power_add mult.commute [of "2 ^ i"] div_mult2_eq)
  also have "(x * 2 ^ j + l) div 2 ^ j = x" using that by simp
  finally show ?thesis .
qed

text \<open>The low word of a double has no influence on the rounding.\<close>

lemma d2h_narrow:
  assumes l: "l < 2 ^ 32" and n: "n < 2147483648"
  shows "d2h n = narrow 52 1008 (n * 2 ^ 32 + l)"
proof -
  define e m where "e = n div 1048576" "m = n mod 1048576"
  have em: "m < 1048576" "n = e * 1048576 + m" by (auto simp: e_m_def)
  let ?N = "n * 2 ^ 32 + l"
  let ?M = "m * 2 ^ 32 + l"
  have M: "?M < 2 ^ 52"
  proof -
    have "?M < (m + 1) * 2 ^ 32" using l by simp
    also have "\<dots> \<le> 1048576 * 2 ^ 32" using em(1) by (intro mult_right_mono) auto
    finally show ?thesis by simp
  qed
  have N: "?N = e * 2 ^ 52 + ?M" using em(2) by simp
  have d: "?N div 2 ^ 52 = e" "?N mod 2 ^ 52 = ?M" unfolding N using M by simp_all
  have r1: "(2 ^ 52 + ?M + 2 ^ (52 + 1008 - 10 - e)) div 2 ^ Suc (52 + 1008 - 10 - e) =
      (1048576 + m + 2 ^ (1018 - e)) div 2 ^ Suc (1018 - e)" if "e \<le> 1008"
  proof -
    have x: "52 + 1008 - 10 - e = 1018 - e + 32" "Suc (52 + 1008 - 10 - e) = Suc (1018 - e) + 32" using that by auto
    have "2 ^ 52 + ?M + 2 ^ (52 + 1008 - 10 - e) = (1048576 + m + 2 ^ (1018 - e)) * 2 ^ 32 + l"
      unfolding x(1) by (simp add: power_add algebra_simps)
    then show ?thesis unfolding x(2) by (simp only: div_nested [OF l])
  qed
  have r2: "(?M + 2 ^ (52 - 11)) div 2 ^ (52 - 10) = (m + 512) div 1024"
  proof -
    have "?M + 2 ^ (52 - 11) = (m + 512) * 2 ^ 32 + l" by simp
    then show ?thesis using div_nested [OF l, of "m + 512" 10] by simp
  qed
  have edge: "(1048576 + m + 2 ^ (1018 - e)) div 2 ^ Suc (1018 - e) = 0" if "e = 997"
    using that em(1) by simp
  show ?thesis
    unfolding d2h_def narrow_def Let_def d e_m_def [symmetric] r2
    using r1 edge by (cases "e = 997") auto
qed

text \<open>
  The unit in the last place of the result, and the error: at most half of it.
\<close>

lemma narrow_error:
  assumes e: "n div 2 ^ k < b + 31" and b: "12 \<le> b" and k: "11 \<le> k"
  defines "ulp \<equiv> 2 ^ (k + b - 10 + (n div 2 ^ k - b - 1))"
  shows "2 * (fval 10 (narrow k b n) * 2 ^ (k + b - 10)) \<le> 2 * fval k n + ulp \<and>
    2 * fval k n \<le> 2 * (fval 10 (narrow k b n) * 2 ^ (k + b - 10)) + ulp"
proof -
  define e m where "e = n div 2 ^ k" "m = n mod 2 ^ k"
  have em: "m < 2 ^ k" "n = e * 2 ^ k + m" "e < b + 31"
    using assms(1) div_mult_mod_eq [of n "2 ^ k", symmetric] by (simp_all only: e_m_def) simp
  have fn: "fval k n = (if e = 0 then m else (2 ^ k + m) * 2 ^ (e - 1))"
    unfolding em(2) using em(1) by (intro fval_at) simp
  have round: "(x + 2 ^ i) div 2 ^ Suc i * 2 ^ Suc i \<le> x + 2 ^ i \<and>
      x \<le> (x + 2 ^ i) div 2 ^ Suc i * 2 ^ Suc i + (2 ^ i :: nat)" for x i
  proof -
    have "(x + 2 ^ i) mod 2 ^ Suc i < 2 ^ Suc i" by simp
    moreover have "(x + 2 ^ i) div 2 ^ Suc i * 2 ^ Suc i + (x + 2 ^ i) mod 2 ^ Suc i = x + 2 ^ i"
      by (rule div_mult_mod_eq)
    moreover have "(2 :: nat) ^ Suc i = 2 ^ i + 2 ^ i" by simp
    ultimately show ?thesis by linarith
  qed
  consider "e + 10 < b" | "b \<le> e + 10" "e \<le> b" | "b < e" by linarith
  then show ?thesis
  proof cases
    case 1
    then have r: "narrow k b n = 0" by (simp add: narrow_def e_m_def [symmetric] Let_def)
    have "fval k n \<le> 2 ^ (k + 1 + (e - 1))"
    proof -
      have "m \<le> 2 ^ (k + 1 + (e - 1))"
        using em(1) power_increasing [of k "k + 1 + (e - 1)" "2 :: nat"] by simp
      moreover have "(2 ^ k + m) * 2 ^ (e - 1) \<le> 2 ^ (k + 1) * 2 ^ (e - 1)"
        using em(1) by (intro mult_right_mono) auto
      ultimately show ?thesis unfolding fn by (simp add: power_add)
    qed
    also have "\<dots> \<le> 2 ^ (k + b - 10 - 1)" using 1 b by (intro power_increasing) auto
    finally have "2 * fval k n \<le> 2 * 2 ^ (k + b - 10 - 1)" by simp
    also have "\<dots> = 2 ^ (k + b - 10)" using b k by (simp flip: power_Suc)
    finally have "2 * fval k n \<le> ulp" using 1 by (simp add: ulp_def e_m_def [symmetric])
    then show ?thesis by (simp add: r fval_def)
  next
    case 2
    define i where "i = k + b - 10 - e"
    let ?q = "2 ^ k + m"
    have r: "narrow k b n = (?q + 2 ^ i) div 2 ^ Suc i"
      using 2 by (simp add: narrow_def e_m_def [symmetric] Let_def i_def)
    have e1: "1 \<le> e" "Suc i + (e - 1) = k + b - 10" using 2 b k by (auto simp: i_def)
    have "(?q + 2 ^ i) div 2 ^ Suc i \<le> 1024"
    proof -
      have "k \<le> 10 + i" "i \<le> k" using 2 by (auto simp: i_def)
      then have "(2 :: nat) ^ k \<le> 2 ^ (10 + i)" by (intro power_increasing) auto
      then have "?q + 2 ^ i < 1025 * 2 ^ Suc i" using em(1) by (simp add: power_add)
      then have "(?q + 2 ^ i) div 2 ^ Suc i < 1025" by (rule less_mult_imp_div_less)
      then show ?thesis by linarith
    qed
    then have fr: "fval 10 (narrow k b n) = (?q + 2 ^ i) div 2 ^ Suc i"
      using fval_at [of "(?q + 2 ^ i) div 2 ^ Suc i" 10 0] by (simp add: r)
    have B: "fval 10 (narrow k b n) * 2 ^ (k + b - 10) = (?q + 2 ^ i) div 2 ^ Suc i * 2 ^ Suc i * 2 ^ (e - 1)"
      unfolding fr e1(2) [symmetric] power_add by (simp only: mult.assoc)
    have A: "fval k n = ?q * 2 ^ (e - 1)" using e1(1) fn by simp
    have "k + b - 10 + (e - b - 1) = Suc i + (e - 1)" using 2 e1 by simp
    then have u: "ulp = 2 * 2 ^ i * 2 ^ (e - 1)"
      by (simp only: ulp_def e_m_def [symmetric] power_add) simp
    have "(?q + 2 ^ i) div 2 ^ Suc i * 2 ^ Suc i * 2 ^ (e - 1) \<le> (?q + 2 ^ i) * 2 ^ (e - 1)"
      "?q * 2 ^ (e - 1) \<le> ((?q + 2 ^ i) div 2 ^ Suc i * 2 ^ Suc i + 2 ^ i) * 2 ^ (e - 1)"
      using round [of ?q i] by (intro mult_right_mono; simp)+
    then show ?thesis unfolding A B u by (simp add: algebra_simps)
  next
    case 3
    define i where "i = k - 11"
    define a where "a = (m + 2 ^ i) div 2 ^ Suc i"
    have k10: "Suc i = k - 10" "k = i + 11" using k by (auto simp: i_def)
    have r: "narrow k b n = (e - b) * 2 ^ 10 + a"
    proof -
      have "k - 10 = Suc i" "k - 11 = i" "\<not> b + 31 \<le> e" "\<not> e + 10 < b" "\<not> e \<le> b"
        using 3 em(3) k10 by simp_all
      then show ?thesis
        by (simp only: narrow_def e_m_def [symmetric] Let_def a_def if_False) simp
    qed
    have "a \<le> 2 ^ 10"
    proof -
      have "m + 2 ^ i < 1025 * 2 ^ Suc i" using em(1) unfolding k10(2) by (simp add: power_add)
      then have "a < 1025" unfolding a_def by (rule less_mult_imp_div_less)
      then show ?thesis by simp
    qed
    then have fr: "fval 10 (narrow k b n) = (1024 + a) * 2 ^ (e - b - 1)"
      unfolding r using 3 by (subst fval_at) auto
    have x: "e - b - 1 + (k + b - 10) = Suc i + (e - 1)" using 3 k10 by auto
    have B: "fval 10 (narrow k b n) * 2 ^ (k + b - 10) = (1024 + a) * 2 ^ Suc i * 2 ^ (e - 1)"
      unfolding fr mult.assoc power_add [symmetric] x ..
    have q: "2 ^ k = (1024 :: nat) * 2 ^ Suc i" unfolding k10(2) by (simp add: power_add)
    have A: "fval k n = (1024 * 2 ^ Suc i + m) * 2 ^ (e - 1)" using 3 fn q by simp
    have "k + b - 10 + (e - b - 1) = Suc i + (e - 1)" using x by simp
    then have u: "ulp = 2 * 2 ^ i * 2 ^ (e - 1)"
      by (simp only: ulp_def e_m_def [symmetric] power_add) simp
    have "a * 2 ^ Suc i * 2 ^ (e - 1) \<le> (m + 2 ^ i) * 2 ^ (e - 1)"
      "m * 2 ^ (e - 1) \<le> (a * 2 ^ Suc i + 2 ^ i) * 2 ^ (e - 1)"
      using round [of m i] unfolding a_def by (intro mult_right_mono; simp)+
    then show ?thesis unfolding A B u by (simp add: algebra_simps)
  qed
qed


subsection \<open>Narrowing undoes widening\<close>

lemma narrow_widened:
  assumes w: "widened b k n v" and n: "n < 31744" and b: "12 \<le> b" and k: "11 \<le> k"
  shows "narrow k b v = n"
proof -
  have pk: "(2 :: nat) ^ k = 1024 * 2 ^ (k - 10)"
  proof -
    have "(2 :: nat) ^ k = 2 ^ (10 + (k - 10))" using k by simp
    then show ?thesis by (simp only: power_add) simp
  qed
  have half: "(x * 2 ^ Suc i + 2 ^ i) div 2 ^ Suc i = (x :: nat)" for x i by simp
  have at: "(e * 2 ^ k + m) div 2 ^ k = e" "(e * 2 ^ k + m) mod 2 ^ k = m" if "m < 2 ^ k" for e m :: nat
    using that by simp_all
  consider "n = 0" | "0 < n" "n < 1024" | "1024 \<le> n" by linarith
  then show ?thesis
  proof cases
    case 1
    with w b show ?thesis by (simp add: widened_def narrow_def)
  next
    case 2
    with w obtain j where j: "1 \<le> j" "j \<le> 10" "1024 \<le> n * 2 ^ j" "n * 2 ^ j < 2048"
      "v = (b + 1 - j) * 2 ^ k + (n * 2 ^ j - 1024) * 2 ^ (k - 10)"
      by (auto simp: widened_def)
    define i where "i = k - 11 + j"
    have i: "k + b - 10 - (b + 1 - j) = i" "j + (k - 10) = Suc i" using j(1,2) k b by (auto simp: i_def)
    have m: "(n * 2 ^ j - 1024) * 2 ^ (k - 10) < 2 ^ k" unfolding pk using j(4) by (intro mult_strict_right_mono) auto
    have q: "2 ^ k + (n * 2 ^ j - 1024) * 2 ^ (k - 10) = n * 2 ^ Suc i"
    proof -
      have "2 ^ k + (n * 2 ^ j - 1024) * 2 ^ (k - 10) = n * 2 ^ j * 2 ^ (k - 10)"
        using j(3) unfolding pk by (simp only: add_mult_distrib [symmetric]) simp
      then show ?thesis by (simp only: i(2) [symmetric] power_add mult.assoc)
    qed
    have c: "\<not> b + 31 \<le> b + 1 - j" "\<not> b + 1 - j + 10 < b" "b + 1 - j \<le> b" using j b by auto
    show ?thesis
      unfolding j(5) narrow_def at [OF m] Let_def i(1) q half using c by (simp only: if_False if_True)
  next
    case 3
    define e m where "e = n div 1024" "m = n mod 1024"
    have em: "1 \<le> e" "m < 1024" "n = e * 1024 + m" "e < 31" using 3 n by (auto simp: e_m_def)
    have v: "v = (e + b) * 2 ^ k + m * 2 ^ (k - 10)" using w 3 by (simp add: widened_def e_m_def)
    have m: "m * 2 ^ (k - 10) < 2 ^ k" unfolding pk using em(2) by (intro mult_strict_right_mono) auto
    have i: "k - 10 = Suc (k - 11)" using k by simp
    have c: "\<not> b + 31 \<le> e + b" "\<not> e + b + 10 < b" "\<not> e + b \<le> b" using em by auto
    have "narrow k b v = (e + b - b) * 1024 + m"
      unfolding v narrow_def at [OF m] Let_def using c half [of m "k - 11"] unfolding i
      by (simp only: if_False)
    then show ?thesis using em(3) by simp
  qed
qed

subsection \<open>Words\<close>

definition mag16 :: "u16 \<Rightarrow> nat" where "mag16 h = unat (h AND 0x7FFF)"
definition mag32 :: "u32 \<Rightarrow> nat" where "mag32 x = unat (x AND 0x7FFFFFFF)"
definition neg16 :: "u16 \<Rightarrow> bool" where "neg16 h \<longleftrightarrow> h AND 0x8000 \<noteq> 0"
definition neg32 :: "u32 \<Rightarrow> bool" where "neg32 x \<longleftrightarrow> x AND 0x80000000 \<noteq> 0"

lemma mag16_pk: "n < 32768 \<Longrightarrow> mag16 (pk16 s n) = n"
  by (simp add: mag16_def pk16_fields unat_pk16)

lemma mag32_pk: "n < 2147483648 \<Longrightarrow> mag32 (pk32 s n) = n"
  by (simp add: mag32_def pk32_fields unat_pk32)

lemma neg16_pk: "n < 32768 \<Longrightarrow> neg16 (pk16 s n) = s"
  by (simp add: neg16_def pk16_fields) (simp add: pk16_def)

lemma neg32_pk: "n < 2147483648 \<Longrightarrow> neg32 (pk32 s n) = s"
  by (simp add: neg32_def pk32_fields) (simp add: pk32_def)

lemma pk16_self: "pk16 (neg16 h) (mag16 h) = h" "mag16 h < 32768"
proof -
  obtain s n where h: "h = pk16 s n" "n < 32768" by (rule pk16_cases)
  then show "pk16 (neg16 h) (mag16 h) = h" "mag16 h < 32768"
    by (simp_all add: mag16_pk neg16_pk)
qed

lemma pk32_self: "pk32 (neg32 x) (mag32 x) = x" "mag32 x < 2147483648"
proof -
  obtain s n where x: "x = pk32 s n" "n < 2147483648" by (rule pk32_cases)
  then show "pk32 (neg32 x) (mag32 x) = x" "mag32 x < 2147483648"
    by (simp_all add: mag32_pk neg32_pk)
qed

definition half_nan :: "u16 \<Rightarrow> bool" where "half_nan h \<longleftrightarrow> mag16 h > 0x7C00"

lemma widened_bound:
  assumes "widened b k n v" "n < 31744" "10 \<le> k"
  shows "v < (b + 32) * 2 ^ k"
proof -
  have pk: "(2 :: nat) ^ k = 1024 * 2 ^ (k - 10)"
  proof -
    have "(2 :: nat) ^ k = 2 ^ (10 + (k - 10))" using assms(3) by simp
    then show ?thesis by (simp only: power_add) simp
  qed
  have low: "m * 2 ^ (k - 10) < 2 ^ k" if "m < 1024" for m :: nat
    unfolding pk using that by (intro mult_strict_right_mono) auto
  have le: "x * 2 ^ k + m * 2 ^ (k - 10) < (b + 32) * 2 ^ k" if "x \<le> b + 31" "m < 1024" for x m
  proof -
    have "x * 2 ^ k + m * 2 ^ (k - 10) < x * 2 ^ k + 2 ^ k" using low [OF that(2)] by simp
    also have "\<dots> = (x + 1) * 2 ^ k" by simp
    also have "\<dots> \<le> (b + 32) * 2 ^ k" using that(1) by (intro mult_right_mono) auto
    finally show ?thesis .
  qed
  consider "n = 0" | "0 < n" "n < 1024" | "1024 \<le> n" by linarith
  then show ?thesis
  proof cases
    case 1
    with assms(1) show ?thesis by (simp add: widened_def)
  next
    case 2
    with assms(1) obtain j where "1 \<le> j" "n * 2 ^ j < 2048"
      "v = (b + 1 - j) * 2 ^ k + (n * 2 ^ j - 1024) * 2 ^ (k - 10)" by (auto simp: widened_def)
    with le [of "b + 1 - j" "n * 2 ^ j - 1024"] show ?thesis by auto
  next
    case 3
    then have "n div 1024 + b \<le> b + 31" "n mod 1024 < 1024" using assms(2) by auto
    with le [of "n div 1024 + b" "n mod 1024"] 3 assms(1) show ?thesis by (simp add: widened_def)
  qed
qed

lemma widened_shift:
  assumes w: "widened b k n v" and k: "10 \<le> k"
  shows "widened b (k + i) n (v * 2 ^ i)"
proof -
  have k': "k + i - 10 = k - 10 + i" using k by simp
  have d: "(x * 2 ^ k + y * 2 ^ (k - 10)) * 2 ^ i = x * 2 ^ (k + i) + y * 2 ^ (k + i - 10)" for x y :: nat
    unfolding k' by (simp only: add_mult_distrib power_add mult.assoc)
  show ?thesis
  proof (cases "0 < n \<and> n < 1024")
    case True
    with w obtain j where j: "1 \<le> j" "j \<le> 10" "1024 \<le> n * 2 ^ j" "n * 2 ^ j < 2048"
      "v * 2 ^ i = (b + 1 - j) * 2 ^ (k + i) + (n * 2 ^ j - 1024) * 2 ^ (k + i - 10)"
      by (auto simp: widened_def d)
    with True show ?thesis unfolding widened_def by auto
  next
    case False
    with w show ?thesis unfolding widened_def by (auto simp: d)
  qed
qed

lemma single_exact:
  assumes "\<not> half_nan h"
  obtains x where "half_to_single h = Some x" "single_to_half x = h" "neg32 x = neg16 h"
    "mag16 h < 0x7C00 \<Longrightarrow> mag32 x < 0x7F800000 \<and> fval 23 (mag32 x) = fval 10 (mag16 h) * 2 ^ 125"
    "mag16 h = 0x7C00 \<Longrightarrow> mag32 x = 0x7F800000"
proof -
  let ?n = "mag16 h" and ?s = "neg16 h"
  have h: "h = pk16 ?s ?n" "?n < 32768" using pk16_self [of h] by auto
  obtain v where v: "half_to_single (pk16 ?s ?n) = Some (pk32 ?s v)"
    "if ?n < 31744 then widened 112 23 ?n v else if ?n = 31744 then v = 2139095040 else v = ?n * 65536"
    using half_to_single_pk [OF h(2)] by blast
  show ?thesis
  proof (cases "?n < 31744")
    case True
    then have w: "widened 112 23 ?n v" using v(2) by simp
    have b: "v < 2139095040"
    proof -
      have "v < (112 + 32) * 2 ^ 23" using widened_bound [OF w True] by simp
      then show ?thesis by simp
    qed
    have "s2h v = ?n" using b narrow_widened [OF w True] by (subst s2h_narrow) auto
    then have "single_to_half (pk32 ?s v) = h" using b h by (simp add: single_to_half_pk)
    moreover have "fval 23 v = fval 10 ?n * 2 ^ 125" using widened_exact [OF w True] by simp
    ultimately show ?thesis using b v(1) h True by (intro that [of "pk32 ?s v"]) (auto simp: mag32_pk neg32_pk)
  next
    case False
    then have n: "?n = 31744" "v = 2139095040" using assms v(2) by (auto simp: half_nan_def split: if_splits)
    have "s2h 2139095040 = 31744" by (simp add: s2h_def)
    then have "single_to_half (pk32 ?s v) = h" using n h(1) by (simp add: single_to_half_pk)
    then show ?thesis using v(1) h n by (intro that [of "pk32 ?s v"]) (auto simp: mag32_pk neg32_pk)
  qed
qed

lemma double_exact:
  assumes "\<not> half_nan h"
  obtains x where "half_to_double h = Some x" "double_to_half x = h" "neg32 x = neg16 h"
    "mag16 h < 0x7C00 \<Longrightarrow> mag32 x < 0x7FF00000 \<and> fval 20 (mag32 x) = fval 10 (mag16 h) * 2 ^ 1018"
proof -
  let ?n = "mag16 h" and ?s = "neg16 h"
  have h: "h = pk16 ?s ?n" "?n < 32768" using pk16_self [of h] by auto
  have nn: "\<not> ?n > 31744" using assms by (simp add: half_nan_def)
  obtain v where v: "half_to_double (pk16 ?s ?n) = Some (pk32 ?s v)"
    "?n < 31744 \<longrightarrow> widened 1008 20 ?n v" "?n = 31744 \<longrightarrow> v = 2146435072"
    using half_to_double_pk [OF h(2), of ?s] nn by auto
  show ?thesis
  proof (cases "?n < 31744")
    case True
    then have w: "widened 1008 20 ?n v" using v(2) by simp
    have b: "v < 2146435072"
    proof -
      have "v < (1008 + 32) * 2 ^ 20" using widened_bound [OF w True] by simp
      then show ?thesis by simp
    qed
    have "d2h v = ?n"
    proof -
      have "widened 1008 52 ?n (v * 2 ^ 32)"
        using widened_shift [OF w, of 32] by simp
      then have "narrow 52 1008 (v * 2 ^ 32 + 0) = ?n" using narrow_widened [of 1008 52 ?n "v * 2 ^ 32"] True by simp
      then show ?thesis using d2h_narrow [of 0 v] b by simp
    qed
    then have "double_to_half (pk32 ?s v) = h" using b h by (simp add: double_to_half_pk)
    moreover have "fval 20 v = fval 10 ?n * 2 ^ 1018" using widened_exact [OF w True] by simp
    ultimately show ?thesis using b v(1) h True by (intro that [of "pk32 ?s v"]) (auto simp: mag32_pk neg32_pk)
  next
    case False
    then have n: "?n = 31744" "v = 2146435072" using nn v(3) by auto
    have "d2h 2146435072 = 31744" by (simp add: d2h_def)
    then have "double_to_half (pk32 ?s v) = h" using n h(1) by (simp add: double_to_half_pk)
    then show ?thesis using v(1) h n by (intro that [of "pk32 ?s v"]) (auto simp: mag32_pk neg32_pk)
  qed
qed


lemma narrow_bound:
  assumes "12 \<le> b" "11 \<le> k"
  shows "narrow k b n \<le> 31744"
proof -
  define e m where "e = n div 2 ^ k" "m = n mod 2 ^ k"
  have m: "m < 2 ^ k" by (simp add: e_m_def)
  define i where "i = k - 11"
  have k: "k = i + 11" using assms(2) by (simp add: i_def)
  have r1: "(2 ^ k + m + 2 ^ (k + b - 10 - e)) div 2 ^ Suc (k + b - 10 - e) \<le> 1024"
    if "e \<le> b" "b \<le> e + 10"
  proof -
    have "k \<le> 10 + (k + b - 10 - e)" using that by simp
    then have "(2 :: nat) ^ k \<le> 2 ^ (10 + (k + b - 10 - e))" by (intro power_increasing) auto
    then have "2 ^ k + m + 2 ^ (k + b - 10 - e) < 1025 * 2 ^ Suc (k + b - 10 - e)"
      using m by (simp add: power_add)
    then have "(2 ^ k + m + 2 ^ (k + b - 10 - e)) div 2 ^ Suc (k + b - 10 - e) < 1025"
      by (rule less_mult_imp_div_less)
    then show ?thesis by linarith
  qed
  have r2: "(m + 2 ^ (k - 11)) div 2 ^ (k - 10) \<le> 1024"
  proof -
    have "m + 2 ^ (k - 11) < 1025 * 2 ^ (k - 10)" using m unfolding k by (simp add: power_add)
    then have "(m + 2 ^ (k - 11)) div 2 ^ (k - 10) < 1025" by (rule less_mult_imp_div_less)
    then show ?thesis by linarith
  qed
  consider "b + 31 \<le> e" | "e + 10 < b" | "e \<le> b" "b \<le> e + 10" | "b < e" "e < b + 31" by linarith
  then show ?thesis
  proof cases
    case 3
    with r1 show ?thesis by (simp add: narrow_def e_m_def [symmetric] Let_def)
  next
    case 4
    then have "(e - b) * 1024 \<le> 30 * 1024" by (intro mult_right_mono) auto
    with 4 r2 show ?thesis by (simp add: narrow_def e_m_def [symmetric] Let_def)
  qed (simp_all add: narrow_def e_m_def [symmetric] Let_def)
qed

lemma abs_diff_bound:
  fixes x y u :: nat
  assumes "2 * x \<le> 2 * y + u" "2 * y \<le> 2 * x + u"
  shows "2 * \<bar>int x - int y\<bar> \<le> int u"
  using assms by presburger

subsection \<open>The loops\<close>

text \<open>What a run of the loop stores, and that it stores nothing else.\<close>

lemma convert_loop_ok:
  assumes "\<And>k. k < n \<Longrightarrow> i + k * (1 + si) < length s \<and> j + k * (1 + sj) < length t"
    "\<And>x. x \<in> set s \<Longrightarrow> f x \<noteq> None"
  shows "\<exists>r. convert_loop f si sj (int n) i j s t = Some r \<and> length r = length t \<and>
    (\<forall>k < n. f (s ! (i + k * (1 + si))) = Some (r ! (j + k * (1 + sj)))) \<and>
    (\<forall>p < length t. (\<forall>k < n. p \<noteq> j + k * (1 + sj)) \<longrightarrow> r ! p = t ! p)"
  using assms(1)
proof (induction n arbitrary: i j t)
  case 0
  then show ?case by (simp add: convert_loop.simps)
next
  case (Suc n)
  have ij: "i < length s" "j < length t" using Suc.prems [of 0] by auto
  then obtain y where y: "f (s ! i) = Some y" using assms(2) [of "s ! i"] by (metis nth_mem not_None_eq)
  have "i + 1 + si + k * (1 + si) < length s \<and> j + 1 + sj + k * (1 + sj) < length (t[j := y])" if "k < n" for k
    using Suc.prems [of "Suc k"] that by simp
  from Suc.IH [OF this] obtain r where
    r: "convert_loop f si sj (int n) (i + 1 + si) (j + 1 + sj) s (t[j := y]) = Some r" "length r = length t"
      "\<And>k. k < n \<Longrightarrow> f (s ! (i + 1 + si + k * (1 + si))) = Some (r ! (j + 1 + sj + k * (1 + sj)))"
      "\<And>p. p < length t \<Longrightarrow> (\<And>k. k < n \<Longrightarrow> p \<noteq> j + 1 + sj + k * (1 + sj)) \<Longrightarrow> r ! p = t[j := y] ! p"
    by auto
  have "convert_loop f si sj (int (Suc n)) i j s t = Some r"
    using r(1) y ij by (subst convert_loop.simps) simp
  moreover have "f (s ! (i + k * (1 + si))) = Some (r ! (j + k * (1 + sj)))" if "k < Suc n" for k
  proof (cases k)
    case 0
    have "r ! j = t[j := y] ! j" using ij(2) by (intro r(4)) auto
    with 0 y ij show ?thesis by simp
  next
    case (Suc k')
    with that r(3) [of k'] show ?thesis by (simp add: algebra_simps)
  qed
  moreover have "r ! p = t ! p" if p: "p < length t" "\<forall>k < Suc n. p \<noteq> j + k * (1 + sj)" for p
  proof -
    have "p \<noteq> j + 1 + sj + k * (1 + sj)" if "k < n" for k using p(2) that by (auto dest: spec [of _ "Suc k"])
    then have "r ! p = t[j := y] ! p" using r(4) p(1) by blast
    moreover have "p \<noteq> j" using p(2) by (auto dest: spec [of _ 0])
    ultimately show ?thesis by simp
  qed
  ultimately show ?case using r(2) by blast
qed

text \<open>Dense arrays: the loop maps the body over the source.\<close>

lemma convert_loop_map:
  assumes "\<And>x. x \<in> set s \<Longrightarrow> f x = Some (g x)" "length t = length s"
  shows "convert_loop f 0 0 (int (length s)) 0 0 s t = Some (map g s)"
proof -
  have "\<exists>r. convert_loop f 0 0 (int (length s)) 0 0 s t = Some r \<and> length r = length t \<and>
    (\<forall>k < length s. f (s ! (0 + k * (1 + 0))) = Some (r ! (0 + k * (1 + 0)))) \<and>
    (\<forall>p < length t. (\<forall>k < length s. p \<noteq> 0 + k * (1 + 0)) \<longrightarrow> r ! p = t ! p)"
    using assms by (intro convert_loop_ok) auto
  then obtain r where r: "convert_loop f 0 0 (int (length s)) 0 0 s t = Some r" "length r = length s"
    "\<And>k. k < length s \<Longrightarrow> f (s ! k) = Some (r ! k)"
    using assms(2) by auto
  have "r = map g s"
  proof (rule nth_equalityI)
    show "length r = length (map g s)" using r(2) by simp
    fix k assume "k < length r"
    with r(2,3) assms(1) [of "s ! k"] show "r ! k = map g s ! k" by simp
  qed
  with r(1) show ?thesis by simp
qed

text \<open>The words of \<open>1.0\<close> on a machine with IEEE doubles, of either endianness.\<close>

definition ieee_words :: "u32 \<times> u32 \<Rightarrow> bool" where
  "ieee_words one \<longleftrightarrow> one = (0, 0x3FF00000) \<or> one = (0x3FF00000, 0)"

lemma check_ieee_ok: "ieee_words one \<Longrightarrow> \<exists>st'. check_ieee one st = (st', True)"
  by (auto simp: ieee_words_def check_ieee_def Let_def)

lemma check_ieee_little: "check_ieee (0, 0x3FF00000) ieee_init = (\<lparr>checkieee = False, next_adj = 1\<rparr>, True)"
  by (simp add: check_ieee_def ieee_init_def Let_def)

subsection \<open>Properties\<close>

text \<open>
  Widening an array of halves without NaNs to singles is exact, sign
  included, and narrowing the singles again gives back the same array. Both
  routines answer 0 on an IEEE machine, whatever they were called with before.
\<close>

theorem halfp_singles_roundtrip:
  assumes "ieee_words one" "list_all (\<lambda>h. \<not> half_nan h) hs" "length ts = length hs" "length us = length hs"
  shows "\<exists>st1 st2 xs.
    halfp2singles one (Some ts) (Some hs) (int (length hs)) st = Some (0, st1, Some xs) \<and>
    list_all2 (\<lambda>h x. neg32 x = neg16 h \<and>
      (if mag16 h < 0x7C00 then mag32 x < 0x7F800000 \<and> fval 23 (mag32 x) = fval 10 (mag16 h) * 2 ^ 125
       else mag32 x = 0x7F800000)) hs xs \<and>
    singles2halfp one (Some us) (Some xs) (int (length hs)) st' = Some (0, st2, Some hs)"
proof -
  obtain st1 st2 where c: "check_ieee one st = (st1, True)" "check_ieee one st' = (st2, True)"
    using check_ieee_ok [OF assms(1)] by blast
  define g where "g h = the (half_to_single h)" for h
  have nn: "\<not> half_nan h" if "h \<in> set hs" for h using assms(2) that by (simp add: list_all_iff)
  have g: "half_to_single h = Some (g h)" "single_to_half (g h) = h" "neg32 (g h) = neg16 h"
    "if mag16 h < 0x7C00 then mag32 (g h) < 0x7F800000 \<and> fval 23 (mag32 (g h)) = fval 10 (mag16 h) * 2 ^ 125
     else mag32 (g h) = 0x7F800000" if "h \<in> set hs" for h
    using single_exact [OF nn [OF that]] nn [OF that] unfolding g_def half_nan_def
    by (metis option.sel linorder_neqE_nat)+
  have "convert_loop half_to_single 0 0 (int (length hs)) 0 0 hs ts = Some (map g hs)"
    using g(1) assms(3) by (rule convert_loop_map)
  then have 1: "halfp2singles one (Some ts) (Some hs) (int (length hs)) st = Some (0, st1, Some (map g hs))"
    using c by (simp add: halfp2singles_def)
  have "convert_loop (\<lambda>x. Some (single_to_half x)) 0 0 (int (length (map g hs))) 0 0 (map g hs) us =
      Some (map single_to_half (map g hs))"
    using assms(4) by (intro convert_loop_map) simp_all
  moreover have "map single_to_half (map g hs) = hs" using g(2) by (simp add: map_idI)
  ultimately have 2: "singles2halfp one (Some us) (Some (map g hs)) (int (length hs)) st' = Some (0, st2, Some hs)"
    using c by (simp add: singles2halfp_def)
  show ?thesis
    using 1 2 g(3,4) by (intro exI [of _ st1] exI [of _ st2] exI [of _ "map g hs"])
      (simp add: list_all2_map2 list.rel_refl_strong)
qed

theorem halfp_singles_roundtrip_witness:
  "\<exists>st1 st2 xs. halfp2singles (0, 0x3FF00000) (Some [9, 9]) (Some [0x3C00, 0x8001]) 2 ieee_init =
      Some (0, st1, Some xs) \<and>
    singles2halfp (0, 0x3FF00000) (Some [7, 7]) (Some xs) 2 ieee_init = Some (0, st2, Some [0x3C00, 0x8001])"
proof -
  have "list_all (\<lambda>h. \<not> half_nan h) [0x3C00, 0x8001]" by (simp add: half_nan_def mag16_def)
  then show ?thesis
    using halfp_singles_roundtrip [of "(0, 0x3FF00000)" "[0x3C00, 0x8001]" "[9, 9]" "[7, 7]" ieee_init ieee_init]
    by (auto simp: ieee_words_def)
qed

text \<open>
  Narrowing a single rounds to the nearest half: for every number below 65536
  in size the sign is kept and the error is at most half a unit in the last
  place of the result, denormals and underflow included; from 65536 on the
  result is an infinity of the same sign.
\<close>

theorem single_to_half_nearest:
  assumes "mag32 x \<le> 0x7F800000"
  shows "neg16 (single_to_half x) = neg32 x \<and>
    (if mag32 x < 0x47800000 then
       2 * \<bar>int (fval 10 (mag16 (single_to_half x)) * 2 ^ 125) - int (fval 23 (mag32 x))\<bar>
         \<le> 2 ^ (125 + (mag32 x div 2 ^ 23 - 113))
     else mag16 (single_to_half x) = 0x7C00)"
proof -
  let ?n = "mag32 x" and ?s = "neg32 x"
  have x: "x = pk32 ?s ?n" "?n < 2147483648" using pk32_self [of x] by auto
  have h: "single_to_half x = pk16 ?s (narrow 23 112 ?n)"
    using single_to_half_pk [OF x(2), of ?s] s2h_narrow [OF assms] x(1) by simp
  have b: "narrow 23 112 ?n \<le> 31744" by (rule narrow_bound) simp_all
  have m: "mag16 (single_to_half x) = narrow 23 112 ?n" "neg16 (single_to_half x) = ?s"
    using b unfolding h by (simp_all add: mag16_pk neg16_pk)
  show ?thesis
  proof (cases "?n < 0x47800000")
    case True
    then have e: "?n div 2 ^ 23 < 112 + 31" by (simp add: less_mult_imp_div_less)
    from narrow_error [OF e] have
      "2 * (fval 10 (narrow 23 112 ?n) * 2 ^ 125) \<le> 2 * fval 23 ?n + 2 ^ (125 + (?n div 2 ^ 23 - 113))"
      "2 * fval 23 ?n \<le> 2 * (fval 10 (narrow 23 112 ?n) * 2 ^ 125) + 2 ^ (125 + (?n div 2 ^ 23 - 113))"
      by simp_all
    from abs_diff_bound [OF this] show ?thesis using m True by simp
  next
    case False
    then have "112 + 31 \<le> ?n div 2 ^ 23" using div_le_mono [of "0x47800000" ?n "2 ^ 23"] by simp
    then have "narrow 23 112 ?n = 31744" by (simp add: narrow_def)
    with m False show ?thesis by simp
  qed
qed


theorem single_to_half_nearest_witness:
  "neg16 (single_to_half 0xC5100803) \<and> mag16 (single_to_half 0xC5100803) = 0x6880 \<and>
    2 * \<bar>int (fval 10 0x6880 * 2 ^ 125) - int (fval 23 0x45100803)\<bar> \<le> 2 ^ 150"
proof -
  have m: "mag32 0xC5100803 = 0x45100803" "neg32 0xC5100803" by (simp_all add: mag32_def neg32_def)
  have h: "mag16 (single_to_half 0xC5100803) = 0x6880"
    by (simp add: single_to_half_def mag16_def Let_def)
  show ?thesis using single_to_half_nearest [of "0xC5100803"] unfolding m h by (simp add: m)
qed

text \<open>
  The same for doubles, given as high word \<open>x\<close> and low word \<open>l\<close>: although the
  code never reads the low word, the rounding is the correct one for the whole
  64-bit number.
\<close>

theorem double_to_half_nearest:
  assumes "mag32 x < 0x40F00000"
  shows "neg16 (double_to_half x) = neg32 x \<and>
    2 * \<bar>int (fval 10 (mag16 (double_to_half x)) * 2 ^ 1050) - int (fval 52 (mag32 x * 2 ^ 32 + unat (l :: u32)))\<bar>
      \<le> 2 ^ (1050 + (mag32 x div 2 ^ 20 - 1009))"
proof -
  let ?n = "mag32 x" and ?s = "neg32 x"
  let ?N = "?n * 2 ^ 32 + unat l"
  have x: "x = pk32 ?s ?n" "?n < 2147483648" using pk32_self [of x] by auto
  have l: "unat l < 2 ^ 32" using unat_less_power [of l] by simp
  have h: "double_to_half x = pk16 ?s (narrow 52 1008 ?N)"
    using double_to_half_pk [OF x(2), of ?s] d2h_narrow [OF l x(2)] x(1) assms by simp
  have b: "narrow 52 1008 ?N \<le> 31744" by (rule narrow_bound) simp_all
  have m: "mag16 (double_to_half x) = narrow 52 1008 ?N" "neg16 (double_to_half x) = ?s"
    using b unfolding h by (simp_all add: mag16_pk neg16_pk)
  have d: "?N div 2 ^ 52 = ?n div 2 ^ 20" using div_nested [OF l, of ?n 20] by simp
  have "?n div 2 ^ 20 < 1008 + 31" using assms by (simp add: less_mult_imp_div_less)
  then have e: "?N div 2 ^ 52 < 1008 + 31" by (simp only: d)
  have u: "52 + 1008 - 10 + (?N div 2 ^ 52 - 1008 - 1) = 1050 + (?n div 2 ^ 20 - 1009)"
    unfolding d by simp
  from narrow_error [OF e, unfolded u] have
    "2 * (fval 10 (narrow 52 1008 ?N) * 2 ^ 1050) \<le> 2 * fval 52 ?N + 2 ^ (1050 + (?n div 2 ^ 20 - 1009))"
    "2 * fval 52 ?N \<le> 2 * (fval 10 (narrow 52 1008 ?N) * 2 ^ 1050) + 2 ^ (1050 + (?n div 2 ^ 20 - 1009))"
    by simp_all
  from abs_diff_bound [OF this] show ?thesis
    unfolding m by (simp only: of_nat_power of_nat_numeral simp_thms)
qed

theorem double_to_half_nearest_witness:
  "mag16 (double_to_half 0x3FF00200) = 0x3C01 \<and>
    2 * \<bar>int (fval 10 0x3C01 * 2 ^ 1050) - int (fval 52 (0x3FF00200 * 2 ^ 32 + unat (5 :: u32)))\<bar> \<le> 2 ^ 1064"
proof -
  have m: "mag32 0x3FF00200 = 0x3FF00200" by (simp add: mag32_def)
  have h: "mag16 (double_to_half 0x3FF00200) = 0x3C01"
    by (simp add: double_to_half_def mag16_def Let_def)
  have e: "1050 + (0x3FF00200 div 2 ^ 20 - 1009) = (1064 :: nat)" by simp
  show ?thesis
    using double_to_half_nearest [of "0x3FF00200" 5] unfolding m h e by simp
qed

text \<open>
  A NaN whose upper mantissa bits are clear does not survive widening to a
  single: the pattern is only shifted, so the exponent field of the result is
  not all ones and the result is a finite number.
\<close>

theorem half_nan_becomes_finite:
  assumes "0x7C00 < mag16 h" "mag16 h < 0x7F80"
  shows "\<exists>x. half_to_single h = Some x \<and> mag32 x < 0x7F800000"
proof -
  have h: "h = pk16 (neg16 h) (mag16 h)" "mag16 h < 32768" using pk16_self [of h] by auto
  have b: "mag16 h * 65536 < 2147483648" using h(2) by simp
  obtain v where "half_to_single (pk16 (neg16 h) (mag16 h)) = Some (pk32 (neg16 h) v)" "v = mag16 h * 65536"
    using half_to_single_pk [OF h(2), of "neg16 h"] assms(1) by auto
  with h(1) b assms(2) show ?thesis by (auto simp: mag32_pk)
qed

theorem half_nan_becomes_finite_witness:
  "\<exists>x. half_to_single 0x7E00 = Some x \<and> mag32 x < 0x7F800000"
  by (rule half_nan_becomes_finite) (simp_all add: mag16_def)

text \<open>
  Widening to doubles on a little-endian machine stores the high words only:
  every second word of the target array keeps its old contents and becomes the
  low half of a mantissa, so the numbers are the halves exactly only where
  the caller has cleared the array.
\<close>

theorem halfp2doubles_layout:
  assumes "list_all (\<lambda>h. \<not> half_nan h) hs" "length ts = 2 * length hs"
  shows "\<exists>st1 xs. halfp2doubles (0, 0x3FF00000) (Some ts) (Some hs) (int (length hs)) ieee_init =
      Some (0, st1, Some xs) \<and> length xs = length ts \<and>
    list_all (\<lambda>k. xs ! (2 * k) = ts ! (2 * k) \<and> half_to_double (hs ! k) = Some (xs ! (2 * k + 1)) \<and>
      double_to_half (xs ! (2 * k + 1)) = hs ! k) [0..<length hs]"
proof -
  have nn: "\<not> half_nan h" if "h \<in> set hs" for h using assms(1) that by (simp add: list_all_iff)
  have "\<exists>r. convert_loop half_to_double 0 1 (int (length hs)) 0 1 hs ts = Some r \<and> length r = length ts \<and>
    (\<forall>k < length hs. half_to_double (hs ! (0 + k * (1 + 0))) = Some (r ! (1 + k * (1 + 1)))) \<and>
    (\<forall>p < length ts. (\<forall>k < length hs. p \<noteq> 1 + k * (1 + 1)) \<longrightarrow> r ! p = ts ! p)"
    using assms(2) nn double_exact by (intro convert_loop_ok) (auto, metis option.distinct(1))
  moreover have "0 + k * (1 + 0) = k" "1 + k * (1 + 1) = 2 * k + 1" for k :: nat by simp_all
  ultimately obtain r where r: "convert_loop half_to_double 0 1 (int (length hs)) 0 1 hs ts = Some r" "length r = length ts"
    "\<And>k. k < length hs \<Longrightarrow> half_to_double (hs ! k) = Some (r ! (2 * k + 1))"
    "\<And>p. p < length ts \<Longrightarrow> (\<And>k. k < length hs \<Longrightarrow> p \<noteq> 2 * k + 1) \<Longrightarrow> r ! p = ts ! p"
    by (simp only:) blast
  have "r ! (2 * k) = ts ! (2 * k)" if "k < length hs" for k
    using that assms(2) by (intro r(4)) (auto, presburger)
  moreover have "double_to_half (r ! (2 * k + 1)) = hs ! k" if "k < length hs" for k
    using double_exact [OF nn [of "hs ! k"]] r(3) [OF that] that by (metis nth_mem option.inject)
  moreover have "halfp2doubles (0, 0x3FF00000) (Some ts) (Some hs) (int (length hs)) ieee_init =
      Some (0, \<lparr>checkieee = False, next_adj = 1\<rparr>, Some r)"
    using r(1) by (simp add: halfp2doubles_def check_ieee_little)
  ultimately show ?thesis using r(2,3) by (auto simp: list_all_iff)
qed

theorem halfp2doubles_layout_witness:
  "\<exists>st1 xs. halfp2doubles (0, 0x3FF00000) (Some [7, 7]) (Some [0x3C00]) 1 ieee_init = Some (0, st1, Some xs) \<and>
    xs ! 0 = 7"
  using halfp2doubles_layout [of "[0x3C00]" "[7, 7]"] by (auto simp: half_nan_def mag16_def)

text \<open>
  A double NaN whose payload is only in the low word becomes an infinity: on a
  little-endian machine \<open>doubles2halfp\<close> sees the high word of an infinity.
\<close>

theorem double_nan_becomes_infinity:
  "\<exists>st1. doubles2halfp (0, 0x3FF00000) (Some [t]) (Some [low, 0x7FF00000]) 1 ieee_init =
    Some (0, st1, Some [0x7C00])"
proof -
  have "double_to_half 0x7FF00000 = 0x7C00" by (simp add: double_to_half_def Let_def)
  then show ?thesis
    by (simp add: doubles2halfp_def check_ieee_little convert_loop.simps)
qed

end
