(* ===== verification/Fifo.thy ===== *)
theory Fifo
  imports Prelude
begin

section \<open>Bounded first-in first-out queues\<close>

text \<open>
  The contract of a bounded queue, as its users rely on it: what is received is
  what was sent, in order, sending works exactly while there is room and
  receiving exactly while there is something to receive. The message queue of
  the single-threaded port and the ring buffers keep it.
\<close>

text \<open>
  A schedule goes through exactly when it never sends to a full queue and never
  receives from an empty one; \<open>n\<close> counts what is in the queue.
\<close>

fun fits :: "nat \<Rightarrow> nat \<Rightarrow> 'b option list \<Rightarrow> bool" where
  "fits c n [] \<longleftrightarrow> True"
| "fits c n (Some x # ops) \<longleftrightarrow> n < c \<and> fits c (Suc n) ops"
| "fits c n (None # ops) \<longleftrightarrow> 0 < n \<and> fits c (n - 1) ops"

locale bounded_fifo =
  fixes ok :: "'s \<Rightarrow> bool"
    and item :: "'s \<Rightarrow> 'a \<Rightarrow> bool"
    and contents :: "'s \<Rightarrow> 'a list"
    and cap :: "'s \<Rightarrow> nat"
    and send :: "'a \<Rightarrow> 's \<Rightarrow> 's option"
    and receive :: "'s \<Rightarrow> ('s \<times> 'a) option"
  assumes send_ok: "ok s \<Longrightarrow> item s x \<Longrightarrow> length (contents s) < cap s \<Longrightarrow>
      \<exists>t. send x s = Some t \<and> ok t \<and> item t = item s \<and> contents t = contents s @ [x] \<and> cap t = cap s"
    and send_full: "ok s \<Longrightarrow> length (contents s) = cap s \<Longrightarrow> send x s = None"
    and receive_ok: "ok s \<Longrightarrow> contents s = x # xs \<Longrightarrow>
      \<exists>t. receive s = Some (t, x) \<and> ok t \<and> item t = item s \<and> contents t = xs \<and> cap t = cap s"
    and receive_empty: "ok s \<Longrightarrow> contents s = [] \<Longrightarrow> receive s = None"
begin

text \<open>A schedule: \<open>Some x\<close> sends \<open>x\<close>, \<open>None\<close> receives; the result lists what was received.\<close>

fun run :: "'a option list \<Rightarrow> 's \<Rightarrow> ('s \<times> 'a list) option" where
  "run [] s = Some (s, [])"
| "run (Some x # ops) s = do { t \<leftarrow> send x s; run ops t }"
| "run (None # ops) s = do { (t, x) \<leftarrow> receive s; (u, ys) \<leftarrow> run ops t; Some (u, x # ys) }"

definition sent :: "'a option list \<Rightarrow> 'a list" where
  "sent ops = map the (filter (\<lambda>x. x \<noteq> None) ops)"

lemma sent_simps [simp]: "sent [] = []" "sent (Some x # ops) = x # sent ops" "sent (None # ops) = sent ops"
  by (simp_all add: sent_def)

text \<open>
  Whatever the schedule: what was in the queue and what was sent is, in order,
  what was received followed by what is still in the queue.
\<close>

lemma run_order:
  assumes "ok s" "length (contents s) \<le> cap s" "list_all (\<lambda>x. x \<noteq> None \<longrightarrow> item s (the x)) ops"
    "run ops s = Some (t, ys)"
  shows "ok t \<and> length (contents t) \<le> cap t \<and> contents s @ sent ops = ys @ contents t"
  using assms
proof (induction ops arbitrary: s ys)
  case Nil
  then show ?case by simp
next
  case (Cons op ops)
  show ?case
  proof (cases op)
    case (Some x)
    have "length (contents s) < cap s"
    proof (rule ccontr)
      assume "\<not> ?thesis"
      with Cons.prems(2) have "length (contents s) = cap s" by simp
      with send_full [OF Cons.prems(1) this, of x] Cons.prems(4) Some show False by simp
    qed
    with send_ok [OF Cons.prems(1)] Cons.prems(3) Some obtain u where
      u: "send x s = Some u" "ok u" "item u = item s" "contents u = contents s @ [x]" "cap u = cap s"
      by fastforce
    have "length (contents u) \<le> cap u" using u \<open>length (contents s) < cap s\<close> by simp
    with Cons.IH [OF u(2) this, of ys] Cons.prems(3,4) Some u show ?thesis by simp
  next
    case None
    have "contents s \<noteq> []" using receive_empty [OF Cons.prems(1)] Cons.prems(4) None by fastforce
    then obtain x xs where xs: "contents s = x # xs" by (cases "contents s") auto
    obtain u where u: "receive s = Some (u, x)" "ok u" "item u = item s" "contents u = xs" "cap u = cap s"
      using receive_ok [OF Cons.prems(1) xs] by blast
    obtain zs where zs: "run ops u = Some (t, zs)" "ys = x # zs"
      using Cons.prems(4) None u(1) by (auto split: prod.splits bind_splits)
    have "length (contents u) \<le> cap u" using Cons.prems(2) xs u by simp
    with Cons.IH [OF u(2) this _ zs(1)] Cons.prems(3) None u zs(2) xs show ?thesis by simp
  qed
qed

lemma run_fits:
  assumes "ok s" "length (contents s) \<le> cap s" "list_all (\<lambda>x. x \<noteq> None \<longrightarrow> item s (the x)) ops"
  shows "run ops s \<noteq> None \<longleftrightarrow> fits (cap s) (length (contents s)) ops"
  using assms
proof (induction ops arbitrary: s)
  case Nil
  then show ?case by simp
next
  case (Cons op ops)
  show ?case
  proof (cases op)
    case (Some x)
    show ?thesis
    proof (cases "length (contents s) < cap s")
      case True
      with send_ok [OF Cons.prems(1)] Cons.prems(3) Some obtain u where
        u: "send x s = Some u" "ok u" "item u = item s" "contents u = contents s @ [x]" "cap u = cap s"
        by fastforce
      with Cons.IH [OF u(2)] Cons.prems True Some show ?thesis by simp
    next
      case False
      with send_full [OF Cons.prems(1), of x] Cons.prems(2) Some show ?thesis by simp
    qed
  next
    case None
    show ?thesis
    proof (cases "contents s")
      case Nil
      with receive_empty [OF Cons.prems(1)] None show ?thesis by simp
    next
      case (Cons x xs)
      obtain u where u: "receive s = Some (u, x)" "ok u" "item u = item s" "contents u = xs" "cap u = cap s"
        using receive_ok [OF \<open>ok s\<close> Cons] by blast
      have "run (None # ops) s \<noteq> None \<longleftrightarrow> run ops u \<noteq> None"
        using u(1) by (cases "run ops u") auto
      with Cons.IH [OF u(2)] \<open>list_all _ (op # ops)\<close> \<open>length (contents s) \<le> cap s\<close> None u Cons
      show ?thesis by simp
    qed
  qed
qed

text \<open>Filling an empty queue within its capacity and draining it gives back the sequence.\<close>

lemma fill_all:
  assumes "ok s" "list_all (item s) xs" "length (contents s) + length xs \<le> cap s"
  shows "\<exists>t. run (map Some xs @ ops) s = run ops t \<and> ok t \<and> contents t = contents s @ xs \<and> cap t = cap s"
  using assms
proof (induction xs arbitrary: s)
  case Nil
  then show ?case by auto
next
  case (Cons x xs)
  then obtain u where u: "send x s = Some u" "ok u" "item u = item s" "contents u = contents s @ [x]" "cap u = cap s"
    using send_ok [of s x] by auto
  with Cons.IH [OF u(2)] Cons.prems show ?case by auto
qed

lemma drain_all:
  assumes "ok s" "contents s = xs"
  shows "\<exists>t. run (replicate (length xs) None) s = Some (t, xs) \<and> ok t \<and> contents t = []"
  using assms
proof (induction xs arbitrary: s)
  case Nil
  then show ?case by simp
next
  case (Cons x xs)
  then obtain u where u: "receive s = Some (u, x)" "ok u" "contents u = xs"
    using receive_ok [of s x xs] by blast
  with Cons.IH [OF u(2,3)] show ?case by auto
qed

lemma fill_drain:
  assumes "ok s" "contents s = []" "list_all (item s) xs" "length xs \<le> cap s"
  shows "\<exists>t. run (map Some xs @ replicate (length xs) None) s = Some (t, xs) \<and> ok t \<and> contents t = []"
proof -
  obtain u where u: "run (map Some xs @ replicate (length xs) None) s = run (replicate (length xs) None) u"
    "ok u" "contents u = xs"
    using fill_all [OF assms(1,3), of "replicate (length xs) None"] assms(2,4) by auto
  with drain_all [OF u(2,3)] show ?thesis by simp
qed

end

subsection \<open>Slots of a byte buffer\<close>

text \<open>\<open>memcpy\<close> into and out of a buffer, with the bounds checked.\<close>

definition copy_in :: "nat \<Rightarrow> 'a list \<Rightarrow> 'a list \<Rightarrow> 'a list option" where
  "copy_in i xs buf =
     (if i + length xs \<le> length buf then Some (take i buf @ xs @ drop (i + length xs) buf) else None)"

definition copy_out :: "nat \<Rightarrow> nat \<Rightarrow> 'a list \<Rightarrow> 'a list option" where
  "copy_out i n buf = (if i + n \<le> length buf then Some (take n (drop i buf)) else None)"

definition slot :: "nat \<Rightarrow> 'a list \<Rightarrow> nat \<Rightarrow> 'a list" where
  "slot sz buf k = take sz (drop (k * sz) buf)"

lemma copy_in_length: "copy_in i xs buf = Some b \<Longrightarrow> length b = length buf"
  by (auto simp: copy_in_def split: if_splits)

lemma slot_bound: "k < n \<Longrightarrow> k * sz + sz \<le> n * (sz :: nat)"
  by (metis Suc_leI add.commute mult_Suc mult_le_mono1)

lemma copy_in_slot:
  assumes "length buf = n * sz" "k < n" "length xs = sz"
  shows "\<exists>b. copy_in (k * sz) xs buf = Some b \<and> length b = length buf \<and>
    (\<forall>j < n. slot sz b j = (if j = k then xs else slot sz buf j))"
proof -
  have k: "k * sz + sz \<le> length buf" using slot_bound [OF assms(2)] assms(1) by simp
  define b where "b = take (k * sz) buf @ xs @ drop (k * sz + sz) buf"
  have len: "length b = length buf" using k assms(3) by (simp add: b_def)
  have nth: "b ! i = (if k * sz \<le> i \<and> i < k * sz + sz then xs ! (i - k * sz) else buf ! i)" if "i < length buf" for i
    using that k assms(3) by (auto simp: b_def nth_append min_def not_less not_le)
  have "slot sz b j = (if j = k then xs else slot sz buf j)" if j: "j < n" for j
  proof -
    have js: "j * sz + sz \<le> length buf" using slot_bound [OF j] assms(1) by simp
    have l: "length (slot sz b j) = sz" "length (slot sz buf j) = sz"
      using js len by (simp_all add: slot_def)
    show ?thesis
    proof (rule nth_equalityI)
      show "length (slot sz b j) = length (if j = k then xs else slot sz buf j)"
        using l assms(3) by simp
      fix i assume "i < length (slot sz b j)"
      then have i: "i < sz" using l by simp
      have "slot sz b j ! i = b ! (j * sz + i)" "slot sz buf j ! i = buf ! (j * sz + i)"
        using i js len by (simp_all add: slot_def)
      moreover have "(k * sz \<le> j * sz + i \<and> j * sz + i < k * sz + sz) \<longleftrightarrow> j = k"
      proof
        assume h: "k * sz \<le> j * sz + i \<and> j * sz + i < k * sz + sz"
        then have "k * sz < (j + 1) * sz" "j * sz < (k + 1) * sz" using i by auto
        then have "k < j + 1" "j < k + 1" by (metis mult_less_cancel2)+
        then show "j = k" by simp
      qed (use i in simp)
      ultimately show "slot sz b j ! i = (if j = k then xs else slot sz buf j) ! i"
        using nth [of "j * sz + i"] i js by auto
    qed
  qed
  with len show ?thesis
    using k assms(3) by (auto simp: copy_in_def b_def)
qed

lemma copy_out_slot:
  assumes "length buf = n * sz" "k < n"
  shows "copy_out (k * sz) sz buf = Some (slot sz buf k)"
  using slot_bound [OF assms(2), of sz] assms(1) by (simp add: copy_out_def slot_def)

lemma slot_length: "length buf = n * sz \<Longrightarrow> k < n \<Longrightarrow> length (slot sz buf k) = sz"
  using slot_bound [of k n sz] by (simp add: slot_def)

end
