(* ===== verification/OsHost.thy ===== *)
theory OsHost
  imports Fifo
begin

section \<open>The single-threaded port (os/os.h)\<close>

text \<open>
  The mutex, semaphore and message queue that \<open>os.h\<close> defines when no RTOS is
  configured, and its time conversion macros. \<open>None\<close> is \<open>DIE\<close>, a memory
  access out of bounds, a null pointer or a signed overflow. \<open>malloc\<close> is not
  part of the program: its results are arguments of \<open>os_mq_create\<close>.
\<close>

type_synonym size = u32

definition INT_MAX :: int where "INT_MAX = 2147483647"

subsection \<open>Threads\<close>

definition host_thread_self :: u32 where "host_thread_self = 0xdeadbeef"
definition host_thread_get_priority :: "u32 \<Rightarrow> int" where "host_thread_get_priority t = 2"
definition host_thread_get_priority_min :: int where "host_thread_get_priority_min = 2"
definition host_thread_get_priority_max :: int where "host_thread_get_priority_max = 2"

subsection \<open>Mutexes\<close>

record host_mutex =
  locked :: int
  m_recursive :: bool

definition HOST_MUTEX_INITIALIZER :: host_mutex where
  "HOST_MUTEX_INITIALIZER = \<lparr>locked = 0, m_recursive = False\<rparr>"

definition HOST_RECURSIVE_MUTEX_INITIALIZER :: host_mutex where
  "HOST_RECURSIVE_MUTEX_INITIALIZER = \<lparr>locked = 0, m_recursive = True\<rparr>"

definition host_mutex_init :: "host_mutex \<Rightarrow> host_mutex" where
  "host_mutex_init m = m\<lparr>locked := 0, m_recursive := False\<rparr>"

definition host_recursive_mutex_init :: "host_mutex \<Rightarrow> host_mutex" where
  "host_recursive_mutex_init m = m\<lparr>locked := 0, m_recursive := True\<rparr>"

definition host_mutex_destroy :: "host_mutex \<Rightarrow> host_mutex" where
  "host_mutex_destroy m = m\<lparr>locked := 0\<rparr>"

definition host_mutex_lock :: "host_mutex \<Rightarrow> host_mutex option" where
  "host_mutex_lock m = do {
     hassert (\<not> (locked m \<noteq> 0 \<and> \<not> m_recursive m));
     hassert (locked m < INT_MAX);
     Some (m\<lparr>locked := locked m + 1\<rparr>)
   }"

definition host_mutex_unlock :: "host_mutex \<Rightarrow> host_mutex option" where
  "host_mutex_unlock m = do {
     hassert (\<not> locked m \<le> 0);
     Some (m\<lparr>locked := locked m - 1\<rparr>)
   }"

subsection \<open>Semaphores\<close>

type_synonym host_sem = u32

definition host_sem_init :: "u32 \<Rightarrow> host_sem" where "host_sem_init value = value"

definition host_sem_destroy :: "host_sem \<Rightarrow> host_sem" where "host_sem_destroy s = s"

definition host_sem_post :: "host_sem \<Rightarrow> host_sem" where "host_sem_post s = s + 1"

definition host_sem_wait :: "host_sem \<Rightarrow> host_sem option" where
  "host_sem_wait s = do { hassert (s \<noteq> 0); Some (s - 1) }"

subsection \<open>Message queues\<close>

record queue_priv =
  semSend :: host_sem
  semReceive :: host_sem
  buffer :: "u8 list option"
  itemSize :: size
  bytes :: size
  indexSend :: u32
  indexReceive :: u32
  mq_mutex :: host_mutex

text \<open>
  The arguments \<open>q\<close> and \<open>buf\<close> are what the two calls of \<open>malloc\<close> return: the
  queue structure with whatever its fields hold, and a buffer of
  \<open>length * item_size\<close> bytes. \<open>None\<close> is a null pointer, returned as such for the
  first and stored without a check for the second.
\<close>

definition host_mq_create :: "queue_priv option \<Rightarrow> u8 list option \<Rightarrow> size \<Rightarrow> size \<Rightarrow> queue_priv option" where
  "host_mq_create q buf len item_size =
     (case q of None \<Rightarrow> None
      | Some q \<Rightarrow> Some (q\<lparr>semSend := host_sem_init len, semReceive := host_sem_init 0,
          buffer := buf, itemSize := item_size, bytes := len * item_size,
          indexSend := 0, indexReceive := 0, mq_mutex := host_mutex_init (mq_mutex q)\<rparr>))"

definition advance :: "u32 \<Rightarrow> queue_priv \<Rightarrow> u32" where
  "advance i q = (let i = i + itemSize q in if i \<ge> bytes q then 0 else i)"

definition host_mq_send :: "u8 list \<Rightarrow> queue_priv \<Rightarrow> queue_priv option" where
  "host_mq_send data q = do {
     s \<leftarrow> host_sem_wait (semSend q);
     m \<leftarrow> host_mutex_lock (mq_mutex q);
     buf \<leftarrow> buffer q;
     d \<leftarrow> copy_out 0 (unat (itemSize q)) data;
     buf \<leftarrow> copy_in (unat (indexSend q)) d buf;
     let i = advance (indexSend q) q;
     m \<leftarrow> host_mutex_unlock m;
     Some (q\<lparr>semSend := s, mq_mutex := m, buffer := Some buf, indexSend := i,
            semReceive := host_sem_post (semReceive q)\<rparr>)
   }"

definition host_mq_receive :: "queue_priv \<Rightarrow> (queue_priv \<times> u8 list) option" where
  "host_mq_receive q = do {
     r \<leftarrow> host_sem_wait (semReceive q);
     m \<leftarrow> host_mutex_lock (mq_mutex q);
     buf \<leftarrow> buffer q;
     d \<leftarrow> copy_out (unat (indexReceive q)) (unat (itemSize q)) buf;
     let i = advance (indexReceive q) q;
     m \<leftarrow> host_mutex_unlock m;
     Some (q\<lparr>semReceive := r, mq_mutex := m, indexReceive := i,
            semSend := host_sem_post (semSend q)\<rparr>, d)
   }"

subsection \<open>The queue as a list of items\<close>

definition mq_cap :: "queue_priv \<Rightarrow> nat" where
  "mq_cap q = unat (bytes q) div unat (itemSize q)"

definition mq_first :: "queue_priv \<Rightarrow> nat" where
  "mq_first q = unat (indexReceive q) div unat (itemSize q)"

definition mq_contents :: "queue_priv \<Rightarrow> u8 list list" where
  "mq_contents q = map (\<lambda>k. slot (unat (itemSize q)) (the (buffer q)) ((mq_first q + k) mod mq_cap q))
     [0..<unat (semReceive q)]"

definition mq_item :: "queue_priv \<Rightarrow> u8 list \<Rightarrow> bool" where
  "mq_item q d \<longleftrightarrow> length d = unat (itemSize q)"

definition mq_ok :: "queue_priv \<Rightarrow> bool" where
  "mq_ok q \<longleftrightarrow>
     (let sz = unat (itemSize q); n = mq_cap q; r = mq_first q in
      0 < sz \<and> 0 < n \<and> unat (bytes q) = n * sz \<and>
      (\<exists>buf. buffer q = Some buf \<and> length buf = n * sz) \<and>
      unat (indexReceive q) = r * sz \<and> r < n \<and>
      unat (indexSend q) = (r + unat (semReceive q)) mod n * sz \<and>
      unat (semSend q) + unat (semReceive q) = n \<and>
      mq_mutex q = \<lparr>locked = 0, m_recursive = False\<rparr>)"

lemma mq_okE:
  assumes "mq_ok q"
  obtains sz n r m buf where "sz = unat (itemSize q)" "n = mq_cap q" "r = mq_first q" "m = unat (semReceive q)"
    "0 < sz" "0 < n" "unat (bytes q) = n * sz" "buffer q = Some buf" "length buf = n * sz"
    "unat (indexReceive q) = r * sz" "r < n" "unat (indexSend q) = (r + m) mod n * sz"
    "unat (semSend q) + m = n" "mq_mutex q = \<lparr>locked = 0, m_recursive = False\<rparr>"
  using assms that by (auto simp: mq_ok_def Let_def)

text \<open>Moving an index by one slot, as the code does it.\<close>

lemma advance_slot:
  assumes "unat i = k * sz" "k < n" "sz = unat (itemSize q)" "unat (bytes q) = n * sz" "0 < sz"
  shows "unat (advance i q) = Suc k mod n * sz"
proof -
  have b: "n * sz < 2 ^ 32" using unat_less_power [of "bytes q"] assms(4) by simp
  have "k * sz + sz \<le> n * sz" using slot_bound [OF assms(2)] .
  with b have "unat (i + itemSize q) = k * sz + sz"
    using assms(1,3) by (subst unat_word_ariths) (simp add: take_bit_eq_mod)
  then have u: "unat (i + itemSize q) = Suc k * sz" by simp
  have "bytes q \<le> i + itemSize q \<longleftrightarrow> n * sz \<le> Suc k * sz"
    by (simp only: word_le_nat_alt u assms(4))
  also have "\<dots> \<longleftrightarrow> n \<le> Suc k" by (simp only: mult_le_cancel2) (use assms(5) in simp)
  also have "\<dots> \<longleftrightarrow> Suc k = n" using assms(2) by auto
  finally have le: "bytes q \<le> i + itemSize q \<longleftrightarrow> Suc k = n" .
  show ?thesis
  proof (cases "Suc k = n")
    case True
    then show ?thesis using le by (simp add: advance_def Let_def)
  next
    case False
    then have "Suc k < n" using assms(2) by simp
    then show ?thesis using le u False by (simp add: advance_def Let_def)
  qed
qed

lemma unat_pred: "s \<noteq> 0 \<Longrightarrow> unat (s - 1 :: u32) = unat s - 1"
  by (simp add: unat_minus_one)

lemma unat_succ: "unat (s :: u32) < k \<Longrightarrow> k < 2 ^ 32 \<Longrightarrow> unat (s + 1) = unat s + 1"
  by (subst unat_word_ariths) simp

lemma unlocked [simp]:
  "host_mutex_lock \<lparr>locked = 0, m_recursive = r\<rparr> = Some \<lparr>locked = 1, m_recursive = r\<rparr>"
  "host_mutex_unlock \<lparr>locked = 1, m_recursive = r\<rparr> = Some \<lparr>locked = 0, m_recursive = r\<rparr>"
  by (simp_all add: host_mutex_lock_def host_mutex_unlock_def INT_MAX_def)

lemma mq_send_ok:
  assumes q: "mq_ok q" and x: "mq_item q x" and room: "length (mq_contents q) < mq_cap q"
  shows "\<exists>t. host_mq_send x q = Some t \<and> mq_ok t \<and> mq_item t = mq_item q \<and>
    mq_contents t = mq_contents q @ [x] \<and> mq_cap t = mq_cap q"
proof -
  from q obtain sz n r m buf where Q: "sz = unat (itemSize q)" "n = mq_cap q" "r = mq_first q"
    "m = unat (semReceive q)" "0 < sz" "0 < n" "unat (bytes q) = n * sz" "buffer q = Some buf"
    "length buf = n * sz" "unat (indexReceive q) = r * sz" "r < n"
    "unat (indexSend q) = (r + m) mod n * sz" "unat (semSend q) + m = n"
    "mq_mutex q = \<lparr>locked = 0, m_recursive = False\<rparr>"
    by (rule mq_okE)
  have mn: "m < n" using room Q(2,4) by (simp add: mq_contents_def)
  then have s: "semSend q \<noteq> 0" using Q(13) by auto
  have lx: "length x = sz" using x Q(1) by (simp add: mq_item_def)
  have p: "(r + m) mod n < n" using Q(6) by simp
  obtain b where b: "copy_in ((r + m) mod n * sz) x buf = Some b" "length b = n * sz"
    "\<And>j. j < n \<Longrightarrow> slot sz b j = (if j = (r + m) mod n then x else slot sz buf j)"
    using copy_in_slot [OF Q(9) p lx] Q(9) by auto
  define t where "t = q\<lparr>semSend := semSend q - 1, mq_mutex := \<lparr>locked = 0, m_recursive = False\<rparr>,
    buffer := Some b, indexSend := advance (indexSend q) q, semReceive := semReceive q + 1\<rparr>"
  have send: "host_mq_send x q = Some t"
    using s lx b(1) Q(1,8,12,14)
    by (simp add: host_mq_send_def host_sem_wait_def host_sem_post_def copy_out_def t_def Let_def)
  have cap: "mq_cap t = n" "mq_first t = r" "unat (itemSize t) = sz"
    using Q(1-3) by (simp_all add: t_def mq_cap_def mq_first_def)
  have big: "n < 2 ^ 32"
  proof -
    have "n \<le> n * sz" using Q(5) by (cases sz) auto
    also have "\<dots> < 2 ^ 32" using unat_less_power [of "bytes q"] Q(7) by simp
    finally show ?thesis .
  qed
  have sr: "unat (semReceive t) = m + 1" using unat_succ [of "semReceive q" n] mn big Q(4) by (simp add: t_def)
  have ss: "unat (semSend t) = unat (semSend q) - 1" using unat_pred [OF s] by (simp add: t_def)
  have ix: "unat (indexSend t) = Suc ((r + m) mod n) mod n * sz"
    using advance_slot [OF Q(12) p Q(1,7,5)] by (simp add: t_def)
  have "mq_ok t"
  proof -
    have "Suc ((r + m) mod n) mod n = (r + (m + 1)) mod n" by (simp add: mod_Suc_eq)
    with ix show ?thesis
      unfolding mq_ok_def Let_def cap sr ss using Q b(2) mn by (simp add: t_def)
  qed
  moreover have "mq_contents t = mq_contents q @ [x]"
  proof -
    have old: "slot sz b ((r + k) mod n) = slot sz buf ((r + k) mod n)" if "k < m" for k
    proof -
      have "(r + k) mod n \<noteq> (r + m) mod n"
      proof
        assume "(r + k) mod n = (r + m) mod n"
        then have "n dvd (r + m) - (r + k)" by (metis mod_eq_dvd_iff_nat nat_le_linear add_le_mono that less_imp_le order_refl)
        then have "n dvd m - k" by simp
        with that mn show False by (auto dest: dvd_imp_le)
      qed
      with b(3) Q(6) show ?thesis by simp
    qed
    have "mq_contents t = map (\<lambda>k. slot sz b ((r + k) mod n)) [0..<m] @ [slot sz b ((r + m) mod n)]"
      unfolding mq_contents_def cap sr by (simp add: t_def)
    also have "slot sz b ((r + m) mod n) = x" using b(3) p by simp
    also have "map (\<lambda>k. slot sz b ((r + k) mod n)) [0..<m] = mq_contents q"
      using old Q(1-4,8) by (simp add: mq_contents_def)
    finally show ?thesis .
  qed
  ultimately show ?thesis
    using send cap Q(1,2) by (auto simp: mq_item_def fun_eq_iff)
qed

lemma mq_receive_ok:
  assumes q: "mq_ok q" and c: "mq_contents q = x # xs"
  shows "\<exists>t. host_mq_receive q = Some (t, x) \<and> mq_ok t \<and> mq_item t = mq_item q \<and>
    mq_contents t = xs \<and> mq_cap t = mq_cap q"
proof -
  from q obtain sz n r m buf where Q: "sz = unat (itemSize q)" "n = mq_cap q" "r = mq_first q"
    "m = unat (semReceive q)" "0 < sz" "0 < n" "unat (bytes q) = n * sz" "buffer q = Some buf"
    "length buf = n * sz" "unat (indexReceive q) = r * sz" "r < n"
    "unat (indexSend q) = (r + m) mod n * sz" "unat (semSend q) + m = n"
    "mq_mutex q = \<lparr>locked = 0, m_recursive = False\<rparr>"
    by (rule mq_okE)
  have cq: "mq_contents q = map (\<lambda>k. slot sz buf ((r + k) mod n)) [0..<m]"
    using Q(1-4,8) by (simp add: mq_contents_def)
  have m0: "0 < m" using c cq by (cases m) auto
  then have s: "semReceive q \<noteq> 0" using Q(4) by auto
  have x: "x = slot sz buf r" "xs = map (\<lambda>k. slot sz buf ((r + Suc k) mod n)) [0..<m - 1]"
  proof -
    have "[0..<m] = 0 # map Suc [0..<m - 1]" using m0 by (metis Suc_pred' map_Suc_upt upt_conv_Cons)
    then have "x # xs = slot sz buf (r mod n) # map (\<lambda>k. slot sz buf ((r + Suc k) mod n)) [0..<m - 1]"
      using c cq by (simp add: o_def)
    with Q(11) show "x = slot sz buf r" "xs = map (\<lambda>k. slot sz buf ((r + Suc k) mod n)) [0..<m - 1]" by simp_all
  qed
  have out: "copy_out (r * sz) sz buf = Some x" using copy_out_slot [OF Q(9,11)] x(1) by simp
  define t where "t = q\<lparr>semReceive := semReceive q - 1, mq_mutex := \<lparr>locked = 0, m_recursive = False\<rparr>,
    indexReceive := advance (indexReceive q) q, semSend := semSend q + 1\<rparr>"
  have rec: "host_mq_receive q = Some (t, x)"
    using s out Q(1,8,10,14)
    by (simp add: host_mq_receive_def host_sem_wait_def host_sem_post_def t_def Let_def)
  have ix: "unat (indexReceive t) = Suc r mod n * sz"
    using advance_slot [OF Q(10,11) Q(1,7,5)] by (simp add: t_def)
  have cap: "mq_cap t = n" "mq_first t = Suc r mod n" "unat (itemSize t) = sz"
    using Q(1,2,5) ix by (simp_all add: t_def mq_cap_def mq_first_def)
  have big: "n < 2 ^ 32"
  proof -
    have "n \<le> n * sz" using Q(5) by (cases sz) auto
    also have "\<dots> < 2 ^ 32" using unat_less_power [of "bytes q"] Q(7) by simp
    finally show ?thesis .
  qed
  have sr: "unat (semReceive t) = m - 1" using unat_pred [OF s] Q(4) by (simp add: t_def)
  have ss: "unat (semSend t) = unat (semSend q) + 1"
    using unat_succ [of "semSend q" n] Q(13) m0 big by (simp add: t_def)
  have "mq_ok t"
  proof -
    have "Suc r + (m - 1) = r + m" using m0 by simp
    then have "(Suc r mod n + (m - 1)) mod n = (r + m) mod n" by (metis mod_add_left_eq)
    then show ?thesis
      unfolding mq_ok_def Let_def cap sr ss using Q ix m0 by (simp add: t_def)
  qed
  moreover have "mq_contents t = xs"
  proof -
    have "(Suc r mod n + k) mod n = (r + Suc k) mod n" for k by (simp add: mod_add_left_eq)
    then show ?thesis
      unfolding mq_contents_def cap sr x(2) using Q(8) by (simp add: t_def)
  qed
  ultimately show ?thesis
    using rec cap Q(1,2) by (auto simp: mq_item_def fun_eq_iff)
qed

lemma mq_full: "mq_ok q \<Longrightarrow> length (mq_contents q) = mq_cap q \<Longrightarrow> host_mq_send x q = None"
proof -
  assume "mq_ok q" "length (mq_contents q) = mq_cap q"
  then have "semSend q = 0" by (auto elim!: mq_okE simp: mq_contents_def unat_eq_zero)
  then show ?thesis by (simp add: host_mq_send_def host_sem_wait_def)
qed

lemma mq_empty: "mq_ok q \<Longrightarrow> mq_contents q = [] \<Longrightarrow> host_mq_receive q = None"
proof -
  assume "mq_ok q" "mq_contents q = []"
  then have "semReceive q = 0" by (auto simp: mq_contents_def unat_eq_zero)
  then show ?thesis by (simp add: host_mq_receive_def host_sem_wait_def)
qed

interpretation mq: bounded_fifo mq_ok mq_item mq_contents mq_cap host_mq_send host_mq_receive
  by unfold_locales (simp_all add: mq_send_ok mq_receive_ok mq_full mq_empty)

lemma mq_create_ok:
  assumes "0 < len" "0 < item_size" "unat len * unat item_size < 2 ^ 32"
    "length buf = unat len * unat item_size"
  shows "\<exists>t. host_mq_create (Some q) (Some buf) len item_size = Some t \<and> mq_ok t \<and> mq_contents t = [] \<and>
    mq_cap t = unat len \<and> (\<forall>d. mq_item t d \<longleftrightarrow> length d = unat item_size)"
proof -
  have b: "unat (len * item_size) = unat len * unat item_size"
    using assms(3) by (subst unat_word_ariths) simp
  have pos: "0 < unat len" "0 < unat item_size" using assms(1,2) by (simp_all add: word_less_nat_alt)
  show ?thesis
    using b pos assms(4)
    by (auto simp: host_mq_create_def mq_ok_def mq_contents_def mq_cap_def mq_first_def mq_item_def
        host_sem_init_def host_mutex_init_def Let_def)
qed

subsection \<open>Properties\<close>

text \<open>A schedule of the queue: \<open>Some x\<close> is \<open>os_mq_send\<close> of \<open>x\<close>, \<open>None\<close> is \<open>os_mq_receive\<close>.\<close>

fun host_mq_run :: "u8 list option list \<Rightarrow> queue_priv \<Rightarrow> (queue_priv \<times> u8 list list) option" where
  "host_mq_run [] q = Some (q, [])"
| "host_mq_run (Some x # ops) q = do { q \<leftarrow> host_mq_send x q; host_mq_run ops q }"
| "host_mq_run (None # ops) q =
     do { (q, x) \<leftarrow> host_mq_receive q; (q, ys) \<leftarrow> host_mq_run ops q; Some (q, x # ys) }"

lemma host_mq_run_eq: "host_mq_run ops q = mq.run ops q"
proof (induction ops arbitrary: q)
  case (Cons op ops)
  then have "host_mq_run ops = mq.run ops" by (intro ext)
  then show ?case by (cases op) simp_all
qed simp

text \<open>
  Whatever the order of the calls on a queue that was created with room for
  \<open>len\<close> items: what was received, followed by what is still in the queue, is
  what was sent, in order.
\<close>

theorem host_mq_order:
  assumes "0 < len" "0 < item_size" "unat len * unat item_size < 2 ^ 32"
    "length buf = unat len * unat item_size"
    "host_mq_create (Some q0) (Some buf) len item_size = Some q"
    "list_all (\<lambda>x. x \<noteq> None \<longrightarrow> length (the x) = unat item_size) ops"
    "host_mq_run ops q = Some (t, ys)"
  shows "map the (filter (\<lambda>x. x \<noteq> None) ops) = ys @ mq_contents t"
proof -
  obtain "mq_ok q" "mq_contents q = []" "mq_cap q = unat len" "\<And>d. mq_item q d \<longleftrightarrow> length d = unat item_size"
    using mq_create_ok [OF assms(1-4), of q0] assms(5) by auto
  with mq.run_order [of q ops t ys] assms(6,7) show ?thesis
    by (simp add: host_mq_run_eq mq.sent_def)
qed

definition demo_mq :: queue_priv where
  "demo_mq = \<lparr>semSend = 7, semReceive = 9, buffer = None, itemSize = 0, bytes = 0, indexSend = 5,
    indexReceive = 6, mq_mutex = \<lparr>locked = 3, m_recursive = True\<rparr>\<rparr>"

lemma demo_mq_create:
  "host_mq_create (Some demo_mq) (Some [0, 0, 0, 0, 0, 0]) 3 2 = Some \<lparr>semSend = 3, semReceive = 0,
    buffer = Some [0, 0, 0, 0, 0, 0], itemSize = 2, bytes = 6, indexSend = 0, indexReceive = 0,
    mq_mutex = \<lparr>locked = 0, m_recursive = False\<rparr>\<rparr>"
  by (simp add: host_mq_create_def demo_mq_def host_sem_init_def host_mutex_init_def)

theorem host_mq_order_witness:
  "\<exists>q t. host_mq_create (Some demo_mq) (Some [0, 0, 0, 0, 0, 0]) 3 2 = Some q \<and>
     host_mq_run [Some [1, 2], Some [3, 4], None, Some [5, 6]] q = Some (t, [[1, 2]]) \<and>
     mq_contents t = [[3, 4], [5, 6]]"
proof -
  define q where "q = the (host_mq_create (Some demo_mq) (Some [0, 0, 0, 0, 0, 0]) 3 2)"
  have c: "host_mq_create (Some demo_mq) (Some [0, 0, 0, 0, 0, 0]) 3 2 = Some q"
    by (simp add: q_def demo_mq_create)
  have "\<exists>t. host_mq_run [Some [1, 2], Some [3, 4], None, Some [5, 6]] q = Some (t, [[1, 2]])"
    by (simp add: q_def demo_mq_create host_mq_send_def host_mq_receive_def host_sem_wait_def host_sem_post_def
        copy_in_def copy_out_def advance_def Let_def word_le_nat_alt)
  then obtain t where t: "host_mq_run [Some [1, 2], Some [3, 4], None, Some [5, 6]] q = Some (t, [[1, 2]])" ..
  show ?thesis
    using c t host_mq_order [OF _ _ _ _ c _ t] by auto
qed

text \<open>
  The calls go through exactly when no send finds the queue full and no receive
  finds it empty; otherwise the program dies.
\<close>

theorem host_mq_succeeds:
  assumes "0 < len" "0 < item_size" "unat len * unat item_size < 2 ^ 32"
    "length buf = unat len * unat item_size"
    "host_mq_create (Some q0) (Some buf) len item_size = Some q"
    "list_all (\<lambda>x. x \<noteq> None \<longrightarrow> length (the x) = unat item_size) ops"
  shows "host_mq_run ops q \<noteq> None \<longleftrightarrow> fits (unat len) 0 ops"
proof -
  obtain "mq_ok q" "mq_contents q = []" "mq_cap q = unat len" "\<And>d. mq_item q d \<longleftrightarrow> length d = unat item_size"
    using mq_create_ok [OF assms(1-4), of q0] assms(5) by auto
  with mq.run_fits [of q ops] assms(6) show ?thesis
    by (simp add: host_mq_run_eq)
qed

theorem host_mq_succeeds_witness:
  "\<exists>q. host_mq_create (Some demo_mq) (Some [0, 0, 0, 0, 0, 0]) 3 2 = Some q \<and>
     host_mq_run [Some [1, 2], Some [3, 4], None, Some [5, 6], Some [7, 8]] q \<noteq> None \<and>
     host_mq_run [Some [1, 2], None, None] q = None"
proof -
  define q where "q = the (host_mq_create (Some demo_mq) (Some [0, 0, 0, 0, 0, 0]) 3 2)"
  have c: "host_mq_create (Some demo_mq) (Some [0, 0, 0, 0, 0, 0]) 3 2 = Some q"
    by (simp add: q_def demo_mq_create)
  have "host_mq_run [Some [1, 2], Some [3, 4], None, Some [5, 6], Some [7, 8]] q \<noteq> None"
    by (subst host_mq_succeeds [OF _ _ _ _ c]) simp_all
  moreover have "host_mq_run [Some [1, 2], None, None] q = None"
    using host_mq_succeeds [OF _ _ _ _ c, of "[Some [1, 2], None, None]"] by (simp del: not_None_eq host_mq_run.simps)
  ultimately show ?thesis using c by (intro exI [of _ q] conjI)
qed

text \<open>
  The result of the second \<open>malloc\<close> is not checked: when it fails the queue is
  returned like any other and the first send copies to a null pointer.
\<close>

theorem host_mq_no_buffer:
  "\<exists>q. host_mq_create (Some q0) None len item_size = Some q \<and> host_mq_send x q = None"
  by (simp add: host_mq_create_def host_mq_send_def)

fun times :: "nat \<Rightarrow> ('s \<Rightarrow> 's option) \<Rightarrow> 's \<Rightarrow> 's option" where
  "times 0 f s = Some s"
| "times (Suc n) f s = do { t \<leftarrow> f s; times n f t }"

lemma times_lock:
  "0 \<le> l \<Longrightarrow> l + int n \<le> INT_MAX \<Longrightarrow>
   times n host_mutex_lock \<lparr>locked = l, m_recursive = True\<rparr> = Some \<lparr>locked = l + int n, m_recursive = True\<rparr>"
  by (induction n arbitrary: l) (auto simp: host_mutex_lock_def)

lemma times_unlock:
  "int k \<le> l \<Longrightarrow>
   times k host_mutex_unlock \<lparr>locked = l, m_recursive = r\<rparr> = Some \<lparr>locked = l - int k, m_recursive = r\<rparr>"
  by (induction k arbitrary: l) (auto simp: host_mutex_unlock_def)

lemma times_unlock_fail:
  "0 \<le> l \<Longrightarrow> l < int k \<Longrightarrow> times k host_mutex_unlock \<lparr>locked = l, m_recursive = r\<rparr> = None"
  by (induction k arbitrary: l) (auto simp: host_mutex_unlock_def)

text \<open>
  A recursive mutex that was locked \<open>n\<close> times is free after \<open>n\<close> unlocks and not
  before; one more unlock dies.
\<close>

theorem host_mutex_balance:
  assumes "int n \<le> INT_MAX"
  shows "do { m \<leftarrow> times n host_mutex_lock (host_recursive_mutex_init m0);
              times k host_mutex_unlock m } =
         (if k \<le> n then Some (m0\<lparr>locked := int (n - k), m_recursive := True\<rparr>) else None)"
proof -
  obtain l r where m0: "m0 = \<lparr>locked = l, m_recursive = r\<rparr>" by (cases m0)
  show ?thesis
    using times_lock [of 0 n] times_unlock [of k "int n"] times_unlock_fail [of "int n" k] assms
    by (auto simp: m0 host_recursive_mutex_init_def of_nat_diff)
qed

theorem host_mutex_balance_witness:
  "do { m \<leftarrow> times 3 host_mutex_lock (host_recursive_mutex_init HOST_MUTEX_INITIALIZER);
        times 3 host_mutex_unlock m } = Some HOST_RECURSIVE_MUTEX_INITIALIZER"
  by (subst host_mutex_balance)
    (simp_all add: INT_MAX_def HOST_MUTEX_INITIALIZER_def HOST_RECURSIVE_MUTEX_INITIALIZER_def)

lemma host_mutex_deadlock:
  "m = host_mutex_init m0 \<Longrightarrow> Option.bind (host_mutex_lock m) host_mutex_lock = None"
  by (simp add: host_mutex_init_def host_mutex_lock_def INT_MAX_def)

end
