(* ===== verification/OsTime.thy ===== *)
theory OsTime
  imports OsHost "HOL-Library.Signed_Division"
begin

section \<open>Clocks, sleeping and units of time\<close>

text \<open>
  The conversion macros of \<open>os.h\<close> and \<open>rtos_includes.h\<close>, the monotonic clock of
  \<open>os.c\<close>, and the clock and sleep functions of \<open>freertos_time.c\<close> and
  \<open>cmsis_time.c\<close>. A \<open>long long\<close> is an \<open>int\<close> with \<open>None\<close> for a signed overflow;
  unsigned values are words. What the kernel or the clock of the system returns is
  an argument, and a sleep function is modelled by what it hands to the kernel.
\<close>

definition LLONG_MAX :: int where "LLONG_MAX = 9223372036854775807"

definition ll :: "int \<Rightarrow> int option" where
  "ll x = (if - LLONG_MAX - 1 \<le> x \<and> x \<le> LLONG_MAX then Some x else None)"

definition OPENMRN_OS_WAIT_FOREVER :: int where "OPENMRN_OS_WAIT_FOREVER = LLONG_MAX"

lemma ll_Some: "ll x = Some y \<longleftrightarrow> y = x \<and> - LLONG_MAX - 1 \<le> x \<and> x \<le> LLONG_MAX"
  by (auto simp: ll_def)

lemma ll_in [simp]: "\<bar>x\<bar> \<le> LLONG_MAX \<Longrightarrow> ll x = Some x"
  by (auto simp: ll_def abs_le_iff)

subsection \<open>Conversion macros\<close>

definition NSEC_TO_USEC :: "int \<Rightarrow> int" where "NSEC_TO_USEC n = n sdiv 1000"
definition NSEC_TO_MSEC :: "int \<Rightarrow> int" where "NSEC_TO_MSEC n = n sdiv 1000000"
definition NSEC_TO_SEC :: "int \<Rightarrow> int" where "NSEC_TO_SEC n = n sdiv 1000000000"
definition NSEC_TO_MIN :: "int \<Rightarrow> int" where "NSEC_TO_MIN n = n sdiv 60000000000"
definition USEC_TO_NSEC :: "int \<Rightarrow> int option" where "USEC_TO_NSEC u = ll (u * 1000)"
definition USEC_TO_MSEC :: "int \<Rightarrow> int" where "USEC_TO_MSEC u = u sdiv 1000"
definition USEC_TO_SEC :: "int \<Rightarrow> int" where "USEC_TO_SEC u = u sdiv 1000000"
definition MSEC_TO_NSEC :: "int \<Rightarrow> int option" where "MSEC_TO_NSEC m = ll (m * 1000000)"
definition MSEC_TO_USEC :: "int \<Rightarrow> int option" where "MSEC_TO_USEC m = ll (m * 1000)"
definition MSEC_TO_SEC :: "int \<Rightarrow> int" where "MSEC_TO_SEC m = m sdiv 1000"
definition SEC_TO_NSEC :: "int \<Rightarrow> int option" where "SEC_TO_NSEC s = ll (s * 1000000000)"
definition SEC_TO_USEC :: "int \<Rightarrow> int option" where "SEC_TO_USEC s = ll (s * 1000000)"
definition SEC_TO_MSEC :: "int \<Rightarrow> int option" where "SEC_TO_MSEC s = ll (s * 1000)"

definition NSEC_TO_USEC_ROUNDED :: "int \<Rightarrow> int option" where
  "NSEC_TO_USEC_ROUNDED n = do { m \<leftarrow> ll (n + 500); Some (m sdiv 1000) }"
definition NSEC_TO_MSEC_ROUNDED :: "int \<Rightarrow> int option" where
  "NSEC_TO_MSEC_ROUNDED n = do { m \<leftarrow> ll (n + 500000); Some (m sdiv 1000000) }"
definition NSEC_TO_SEC_ROUNDED :: "int \<Rightarrow> int option" where
  "NSEC_TO_SEC_ROUNDED n = do { m \<leftarrow> ll (n + 500000000); Some (m sdiv 1000000000) }"
definition NSEC_TO_MIN_ROUNDED :: "int \<Rightarrow> int option" where
  "NSEC_TO_MIN_ROUNDED n = do { m \<leftarrow> ll (n + 30000000000); Some (m sdiv 60000000000) }"
definition USEC_TO_MSEC_ROUNDED :: "int \<Rightarrow> int option" where
  "USEC_TO_MSEC_ROUNDED u = do { m \<leftarrow> ll (u + 500); Some (m sdiv 1000) }"
definition USEC_TO_SEC_ROUNDED :: "int \<Rightarrow> int option" where
  "USEC_TO_SEC_ROUNDED u = do { m \<leftarrow> ll (u + 500000); Some (m sdiv 1000000) }"
definition MSEC_TO_SEC_ROUNDED :: "int \<Rightarrow> int option" where
  "MSEC_TO_SEC_ROUNDED n = do { m \<leftarrow> ll (n + 500); Some (m sdiv 1000) }"

lemmas time_macros = NSEC_TO_USEC_def NSEC_TO_MSEC_def NSEC_TO_SEC_def NSEC_TO_MIN_def USEC_TO_NSEC_def
  USEC_TO_MSEC_def USEC_TO_SEC_def MSEC_TO_NSEC_def MSEC_TO_USEC_def MSEC_TO_SEC_def SEC_TO_NSEC_def
  SEC_TO_USEC_def SEC_TO_MSEC_def

lemmas rounded_macros = NSEC_TO_USEC_ROUNDED_def NSEC_TO_MSEC_ROUNDED_def NSEC_TO_SEC_ROUNDED_def
  NSEC_TO_MIN_ROUNDED_def USEC_TO_MSEC_ROUNDED_def USEC_TO_SEC_ROUNDED_def MSEC_TO_SEC_ROUNDED_def

lemma sdiv_mult_self: "0 < k \<Longrightarrow> (x * k) sdiv k = (x :: int)"
  by (simp add: signed_divide_int_eq_divide_int)

lemma sdiv_nonneg: "0 \<le> x \<Longrightarrow> 0 < k \<Longrightarrow> x sdiv k = x div (k :: int)"
  by (auto simp: signed_divide_int_eq_divide_int sgn_if zero_less_mult_iff)

lemma rounded_nearest:
  assumes "0 \<le> n" "0 < k" "k = 2 * h" "n + h \<le> LLONG_MAX"
  shows "\<exists>r. do { m \<leftarrow> ll (n + h); Some (m sdiv k) } = Some r \<and> \<bar>n - r * k\<bar> \<le> h"
proof -
  have "ll (n + h) = Some (n + h)" using assms by (intro ll_in) simp
  moreover have "\<bar>n - (n + h) div k * k\<bar> \<le> h"
    using pos_mod_bound [OF assms(2), of "n + h"] pos_mod_sign [OF assms(2), of "n + h"]
      div_mult_mod_eq [of "n + h" k] assms(3) unfolding abs_le_iff by linarith
  ultimately show ?thesis using assms by (simp add: sdiv_nonneg)
qed

text \<open>Ticks of the kernels from nanoseconds: the product and the result have the C types.\<close>

definition freertos_NSEC_TO_TICK :: "u32 \<Rightarrow> int \<Rightarrow> u32" where
  "freertos_NSEC_TO_TICK hz ns = ucast ((word_of_int ns * ucast hz :: u64) div 1000000000)"

definition threadx_NSEC_TO_TICK :: "u32 \<Rightarrow> int \<Rightarrow> u32 option" where
  "threadx_NSEC_TO_TICK hz ns =
     do { p \<leftarrow> ll (ns * uint hz); Some (ucast ((word_of_int p :: u64) div 1000000000)) }"

definition cmsis_NSEC_TO_TICK :: "u32 \<Rightarrow> int \<Rightarrow> u32 option" where
  "cmsis_NSEC_TO_TICK hz ns =
     do { p \<leftarrow> ll (ns * uint hz); Some (ucast ((word_of_int p :: u64) div 1000000000)) }"

subsection \<open>The clock of os.c\<close>

text \<open>What the three ports read; \<open>shift\<close> is \<open>NSEC_TO_TICK_SHIFT\<close> of the board.\<close>

definition freertos_reading :: "nat \<Rightarrow> u32 \<Rightarrow> int \<Rightarrow> int option" where
  "freertos_reading shift tick partial_ns = do { t \<leftarrow> ll (uint tick * 2 ^ shift); ll (t + partial_ns) }"

definition threadx_reading :: "u32 \<Rightarrow> u32 \<Rightarrow> int option" where
  "threadx_reading tps tick =
     do { t \<leftarrow> ll (uint tick * 1000000000); hassert (tps \<noteq> 0); Some (t sdiv uint tps) }"

definition posix_reading :: "int \<Rightarrow> int \<Rightarrow> int option" where
  "posix_reading tv_sec tv_nsec = do { s \<leftarrow> ll (tv_sec * 1000000000); ll (s + tv_nsec) }"

text \<open>
  The section under the atomic lock: the static variable \<open>last\<close> (here \<open>prev\<close>) and the reading
  give the returned time and its new value.
\<close>

definition clock_step :: "int \<Rightarrow> int \<Rightarrow> (int \<times> int) option" where
  "clock_step prev time =
     (if time \<le> prev then do { prev \<leftarrow> ll (prev + 1); Some (prev, prev) } else Some (time, time))"

definition os_get_time_monotonic :: "int option \<Rightarrow> int \<Rightarrow> (int \<times> int) option" where
  "os_get_time_monotonic reading prev = do { time \<leftarrow> reading; clock_step prev time }"

text \<open>Calls in the order in which they take the lock, with what each had read before.\<close>

fun clock_run :: "int list \<Rightarrow> int \<Rightarrow> int list option" where
  "clock_run [] prev = Some []"
| "clock_run (time # rs) prev =
     do { (t, prev) \<leftarrow> os_get_time_monotonic (Some time) prev; ts \<leftarrow> clock_run rs prev; Some (t # ts) }"

lemma clock_step_Some:
  "clock_step prev time = Some (t, l) \<longleftrightarrow>
     t = max time (prev + 1) \<and> l = t \<and> (time \<le> prev \<longrightarrow> - LLONG_MAX - 1 \<le> prev + 1 \<and> prev + 1 \<le> LLONG_MAX)"
  by (auto simp: clock_step_def ll_def split: bind_splits)

lemma clock_run_Cons:
  "clock_run (time # rs) prev = Some us \<longleftrightarrow>
     (\<exists>t ts. us = t # ts \<and> clock_step prev time = Some (t, t) \<and> clock_run rs t = Some ts)"
  by (auto simp: os_get_time_monotonic_def bind_eq_Some_conv clock_step_Some)

declare clock_run.simps(2) [simp del]

text \<open>
  Whatever the readings and the order of the calls: every call returns a value of
  its own, later than all earlier ones and not before what it read.
\<close>

theorem clock_strictly_increasing:
  assumes "clock_run rs prev = Some ts"
  shows "sorted_wrt (<) (prev # ts) \<and> list_all2 (\<le>) rs ts"
  using assms
proof (induction rs arbitrary: prev ts)
  case Nil
  then show ?case by simp
next
  case (Cons time rs)
  then obtain t us where t: "ts = t # us" "clock_step prev time = Some (t, t)" "clock_run rs t = Some us"
    by (auto simp: clock_run_Cons)
  with Cons.IH [OF t(3)] show ?case by (auto simp: clock_step_Some)
qed

text \<open>
  The clock runs ahead of its source by at most one nanosecond per call, and it
  goes through whenever this stays within a \<open>long long\<close>.
\<close>

theorem clock_drift_bounded:
  assumes "\<forall>r \<in> set rs. r \<le> b" "prev \<le> b" "- LLONG_MAX - 1 \<le> prev" "b + int (length rs) \<le> LLONG_MAX"
  shows "\<exists>ts. clock_run rs prev = Some ts \<and> (\<forall>i < length ts. ts ! i \<le> b + int i + 1)"
  using assms
proof (induction rs arbitrary: prev b)
  case Nil
  then show ?case by simp
next
  case (Cons time rs)
  define t where "t = max time (prev + 1)"
  have s: "clock_step prev time = Some (t, t)" using Cons.prems by (auto simp: clock_step_Some t_def)
  have tb: "t \<le> b + 1" using Cons.prems by (simp add: t_def)
  have "\<exists>ts. clock_run rs t = Some ts \<and> (\<forall>i < length ts. ts ! i \<le> (b + 1) + int i + 1)"
    using Cons.prems tb by (intro Cons.IH) (auto simp: t_def)
  then obtain ts where ts: "clock_run rs t = Some ts" "\<forall>i < length ts. ts ! i \<le> (b + 1) + int i + 1" by blast
  have "clock_run (time # rs) prev = Some (t # ts)" using s ts(1) by (simp add: clock_run_Cons)
  moreover have "\<forall>i < length (t # ts). (t # ts) ! i \<le> b + int i + 1"
    using tb ts(2) by (auto simp: less_Suc_eq_0_disj nth_Cons split: nat.splits)
  ultimately show ?case by blast
qed

subsection \<open>The clocks of freertos\_time.c and cmsis\_time.c\<close>

definition freertos_time :: "u32 \<Rightarrow> u32 \<Rightarrow> int option" where
  "freertos_time tick_hz ticks =
     do { t \<leftarrow> ll (uint ticks * 1000000000); hassert (tick_hz \<noteq> 0); Some (t sdiv uint tick_hz) }"

definition cmsis_time :: "u32 \<Rightarrow> u32 \<Rightarrow> int option" where
  "cmsis_time tick_hz ticks =
     do { t \<leftarrow> ll (uint ticks * 1000000000); hassert (tick_hz \<noteq> 0); Some (t sdiv uint tick_hz) }"

lemma u32_uint: "0 \<le> uint (w :: u32)" "uint (w :: u32) < 4294967296"
  using uint_bounded [of w] by simp_all

lemma ticks_ll: "ll (uint (t :: u32) * 1000000000) = Some (uint t * 1000000000)"
  using u32_uint [of t] by (intro ll_in) (simp add: LLONG_MAX_def)

lemma cmsis_time_eq:
  "hz \<noteq> 0 \<Longrightarrow> cmsis_time hz ticks = Some (uint ticks * 1000000000 div uint hz)"
proof -
  assume "hz \<noteq> 0"
  then have "0 < uint hz" by (simp add: uint_0_iff order_less_le)
  then show ?thesis using \<open>hz \<noteq> 0\<close> by (simp add: cmsis_time_def ticks_ll sdiv_nonneg)
qed

lemma freertos_time_eq: "freertos_time hz ticks = cmsis_time hz ticks"
  by (simp add: freertos_time_def cmsis_time_def)

subsection \<open>Sleeping\<close>

text \<open>The argument of \<open>vTaskDelay\<close>, \<open>tx_thread_sleep\<close> or the \<open>timespec\<close> of \<open>nanosleep\<close>.\<close>

definition freertos_sleep :: "u32 \<Rightarrow> u32 \<Rightarrow> u32" where
  "freertos_sleep tick_rate_hz seconds = seconds * tick_rate_hz"

definition threadx_sleep :: "u32 \<Rightarrow> u32 \<Rightarrow> u32" where
  "threadx_sleep tps seconds = seconds * tps"

definition posix_sleep :: "u32 \<Rightarrow> u32 \<times> u32" where
  "posix_sleep seconds = (seconds, 0)"

definition freertos_usleep :: "nat \<Rightarrow> u32 \<Rightarrow> u32" where
  "freertos_usleep shift usec = word_of_int (uint usec * 1000 div 2 ^ shift)"

definition threadx_usleep :: "u32 \<Rightarrow> u32 \<Rightarrow> u32" where
  "threadx_usleep tps usec =
     (let ticks = usec * tps div 1000000 in if ticks = 0 \<and> usec > 0 then 1 else ticks)"

definition posix_usleep :: "u32 \<Rightarrow> u32 \<times> u32" where
  "posix_usleep usec = (usec div 1000000, usec mod 1000000 * 1000)"

definition shim_usleep_ms :: "u32 \<Rightarrow> u32" where
  "shim_usleep_ms usec = (let ms = (usec + 999) div 1000 in if ms = 0 then 1 else ms)"

definition freertos_shim_usleep :: "(u32 \<Rightarrow> u32) \<Rightarrow> u32 \<Rightarrow> u32" where
  "freertos_shim_usleep pdMS_TO_TICKS usec = pdMS_TO_TICKS (shim_usleep_ms usec)"

definition cmsis_shim_usleep :: "u32 \<Rightarrow> u32" where
  "cmsis_shim_usleep usec = shim_usleep_ms usec"

subsection \<open>Properties\<close>

theorem clock_strictly_increasing_witness:
  "sorted_wrt (<) [0, 5, 6, 7, 20 :: int] \<and> list_all2 (\<le>) [5, 5, 3, 20] [5, 6, 7, 20 :: int]"
  using clock_strictly_increasing [of "[5, 5, 3, 20]" 0 "[5, 6, 7, 20]"]
  by (simp add: clock_run_Cons clock_step_def LLONG_MAX_def)

theorem clock_drift_bounded_witness:
  "\<exists>ts. clock_run [5, 5, 3, 2] 0 = Some ts \<and> (\<forall>i < length ts. ts ! i \<le> 5 + int i + 1)"
  by (rule clock_drift_bounded) (auto simp: LLONG_MAX_def)

text \<open>
  The two shims have no such protection: when the 32-bit tick counter wraps, their
  clock goes back to zero, and two calls within one tick return the same time.
\<close>

theorem shim_clock_wraps:
  assumes "hz \<noteq> 0"
  shows "freertos_time hz (- 1 + 1) = Some 0 \<and>
    (\<exists>t. freertos_time hz (- 1) = Some t \<and> 0 < t \<and> 4294967295 * 1000000000 < (t + 1) * uint hz)"
proof -
  have pos: "0 < uint hz" using assms by (simp add: uint_0_iff order_less_le)
  have m1: "uint (- 1 :: u32) = 4294967295" by (simp add: unsigned_minus_1_eq_mask mask_eq_exp_minus_1)
  have "freertos_time hz (- 1 + 1) = Some 0"
    using assms by (simp add: freertos_time_eq cmsis_time_eq)
  moreover have "freertos_time hz (- 1) = Some (4294967295 * 1000000000 div uint hz)"
    unfolding freertos_time_eq cmsis_time_eq [OF assms] m1 ..
  moreover have "0 < 4294967295 * 1000000000 div uint hz"
    using pos u32_uint(2) [of hz] by (simp add: pos_imp_zdiv_pos_iff)
  moreover have "4294967295 * 1000000000 < (4294967295 * 1000000000 div uint hz + 1) * uint hz"
  proof -
    define d where "d = 4294967295 * 1000000000 div uint hz"
    have "d * uint hz + 4294967295 * 1000000000 mod uint hz = 4294967295 * 1000000000"
      unfolding d_def by (rule div_mult_mod_eq)
    then show ?thesis
      using pos_mod_bound [OF pos, of "4294967295 * 1000000000"] unfolding d_def [symmetric] distrib_right by linarith
  qed
  ultimately show ?thesis by blast
qed

theorem shim_clock_wraps_witness:
  "\<exists>t > 0. freertos_time 1000 (- 1) = Some t \<and> freertos_time 1000 0 = Some 0"
  using shim_clock_wraps [of 1000] by auto

text \<open>
  The sleep of the shims in milliseconds: never shorter than asked for and less
  than a millisecond longer, except in the last millisecond of the argument's range,
  where the addition wraps around and the thread sleeps one millisecond only.
\<close>

theorem shim_usleep_bounds:
  "if 0 < usec \<and> unat usec \<le> 2 ^ 32 - 1000
   then unat usec \<le> 1000 * unat (shim_usleep_ms usec) \<and> 1000 * unat (shim_usleep_ms usec) < unat usec + 1000
   else shim_usleep_ms usec = 1"
proof (cases "unat usec \<le> 2 ^ 32 - 1000")
  case True
  have u: "unat ((usec + 999) div 1000) = (unat usec + 999) div 1000"
    using True by (simp add: unat_div unat_word_ariths)
  show ?thesis
  proof (cases "usec = 0")
    case True
    have "(999 :: u32) div 1000 = 0" by (simp add: word_unat_eq_iff unat_div)
    then show ?thesis using True by (simp add: shim_usleep_ms_def)
  next
    case False
    then have "0 < unat usec" by (simp add: unat_gt_0)
    then have "(unat usec + 999) div 1000 \<noteq> 0" by (simp add: div_eq_0_iff)
    then have "(usec + 999) div 1000 \<noteq> 0" using u by (metis unat_0)
    then have "unat (shim_usleep_ms usec) = (unat usec + 999) div 1000"
      using u by (simp add: shim_usleep_ms_def Let_def)
    moreover have "unat usec \<le> 1000 * ((unat usec + 999) div 1000)"
      "1000 * ((unat usec + 999) div 1000) < unat usec + 1000"
      using div_mult_mod_eq [of "unat usec + 999" 1000] mod_less_divisor [of 1000 "unat usec + 999"] by linarith+
    ultimately show ?thesis using \<open>0 < unat usec\<close> True by (simp add: word_less_nat_alt)
  qed
next
  case False
  have b: "unat usec < 2 ^ 32" using unat_less_power [of usec] by simp
  have "unat (usec + 999) = (unat usec + 999) mod 2 ^ 32" by (simp add: unat_word_ariths)
  also have "\<dots> = (unat usec + 999 - 2 ^ 32) mod 2 ^ 32"
    using False b by (intro mod_if [THEN trans]) auto
  also have "\<dots> < 1000" using b False by (intro le_less_trans [OF mod_less_eq_dividend]) simp
  finally have "(usec + 999) div 1000 = 0" by (simp add: word_unat_eq_iff unat_div)
  then show ?thesis using False by (simp add: shim_usleep_ms_def)
qed

text \<open>Without an RTOS the whole time is handed to \<open>nanosleep\<close>, in a valid \<open>timespec\<close>.\<close>

theorem posix_usleep_exact:
  "posix_usleep usec = (s, ns) \<Longrightarrow>
   unat s * 1000000 * 1000 + unat ns = unat usec * 1000 \<and> unat ns < 1000000000"
proof -
  assume p: "posix_usleep usec = (s, ns)"
  have m: "unat usec mod 1000000 < 1000000" by simp
  have "unat (usec mod 1000000 * 1000) = unat usec mod 1000000 * 1000"
    using m by (subst unat_word_ariths) (simp add: unat_mod)
  then have e: "unat s = unat usec div 1000000" "unat ns = unat usec mod 1000000 * 1000"
    using p by (auto simp: posix_usleep_def unat_div)
  show ?thesis unfolding e using m div_mult_mod_eq [of "unat usec" 1000000] by linarith
qed

theorem posix_usleep_exact_witness:
  "unat (3 :: u32) * 1000000 * 1000 + unat (500000000 :: u32) = unat (3500000 :: u32) * 1000"
  using posix_usleep_exact [of 3500000 3 500000000]
  by (simp add: posix_usleep_def word_unat_eq_iff unat_div unat_mod)

text \<open>
  On ThreadX the product with the tick rate is taken in 32 bits: the sleep is as
  long as asked for, rounded down to a tick, only while that product fits.
\<close>

theorem threadx_usleep_ticks:
  assumes "0 < usec" "unat usec * unat tps < 2 ^ 32"
  shows "unat (threadx_usleep tps usec) = max 1 (unat usec * unat tps div 1000000)"
proof -
  have u: "unat (usec * tps div 1000000) = unat usec * unat tps div 1000000"
    using assms(2) by (simp add: unat_div unat_word_ariths)
  then show ?thesis
    using assms(1) by (auto simp: threadx_usleep_def Let_def word_unat_eq_iff max_def)
qed

theorem threadx_usleep_ticks_witness:
  "unat (threadx_usleep 100 40000000) = 4000 \<and> threadx_usleep 100 43000000 = 5"
proof -
  have "threadx_usleep 100 43000000 = 5" by (simp add: threadx_usleep_def word_unat_eq_iff unat_div Let_def)
  then show ?thesis using threadx_usleep_ticks [of 40000000 100] by simp
qed

text \<open>Converting to a finer unit and back is exact whenever the finer value can be represented.\<close>

theorem time_units_roundtrip:
  "(USEC_TO_NSEC u = Some n \<longrightarrow> NSEC_TO_USEC n = u) \<and> (MSEC_TO_NSEC m = Some n \<longrightarrow> NSEC_TO_MSEC n = m) \<and>
   (SEC_TO_NSEC s = Some n \<longrightarrow> NSEC_TO_SEC n = s) \<and> (MSEC_TO_USEC m = Some n \<longrightarrow> USEC_TO_MSEC n = m) \<and>
   (SEC_TO_USEC s = Some n \<longrightarrow> USEC_TO_SEC n = s) \<and> (SEC_TO_MSEC s = Some n \<longrightarrow> MSEC_TO_SEC n = s)"
  by (auto simp: time_macros ll_Some sdiv_mult_self)

theorem time_units_roundtrip_witness:
  "NSEC_TO_USEC (- 7000) = - 7 \<and> USEC_TO_NSEC (- 7) = Some (- 7000)"
  using time_units_roundtrip [of "- 7" "- 7000"] by (simp add: USEC_TO_NSEC_def LLONG_MAX_def)

text \<open>
  The rounding macros round to the nearest unit for times that are not negative;
  for negative times they do not.
\<close>

theorem rounded_units_nearest:
  assumes "0 \<le> n" "n \<le> LLONG_MAX - 30000000000"
  shows "(\<exists>r. NSEC_TO_USEC_ROUNDED n = Some r \<and> \<bar>n - r * 1000\<bar> \<le> 500) \<and>
    (\<exists>r. NSEC_TO_MSEC_ROUNDED n = Some r \<and> \<bar>n - r * 1000000\<bar> \<le> 500000) \<and>
    (\<exists>r. NSEC_TO_SEC_ROUNDED n = Some r \<and> \<bar>n - r * 1000000000\<bar> \<le> 500000000) \<and>
    (\<exists>r. NSEC_TO_MIN_ROUNDED n = Some r \<and> \<bar>n - r * 60000000000\<bar> \<le> 30000000000) \<and>
    (\<exists>r. USEC_TO_MSEC_ROUNDED n = Some r \<and> \<bar>n - r * 1000\<bar> \<le> 500) \<and>
    (\<exists>r. USEC_TO_SEC_ROUNDED n = Some r \<and> \<bar>n - r * 1000000\<bar> \<le> 500000) \<and>
    (\<exists>r. MSEC_TO_SEC_ROUNDED n = Some r \<and> \<bar>n - r * 1000\<bar> \<le> 500) \<and>
    NSEC_TO_USEC_ROUNDED (- 1499) = Some 0"
proof -
  have "NSEC_TO_USEC_ROUNDED (- 1499) = Some 0"
    by (simp add: NSEC_TO_USEC_ROUNDED_def LLONG_MAX_def signed_divide_int_def)
  then show ?thesis
    unfolding rounded_macros using assms by (intro conjI rounded_nearest) (simp_all add: LLONG_MAX_def)
qed

theorem rounded_units_nearest_witness: "\<exists>r. NSEC_TO_USEC_ROUNDED 1499 = Some r \<and> \<bar>1499 - r * 1000\<bar> \<le> 500"
  using rounded_units_nearest [of 1499] by (simp add: LLONG_MAX_def)

text \<open>
  A timeout becomes the exact number of ticks, rounded down, while neither the
  64-bit product nor the 32-bit result overflows. The value for waiting forever
  does overflow: at 1000 Hz it becomes 1266874889 ticks, about 15 days.
\<close>

theorem freertos_ticks_exact:
  assumes "0 \<le> ns" "ns * uint hz < 2 ^ 64" "ns * uint hz div 1000000000 < 2 ^ 32"
  shows "uint (freertos_NSEC_TO_TICK hz ns) = ns * uint hz div 1000000000 \<and>
    freertos_NSEC_TO_TICK 1000 OPENMRN_OS_WAIT_FOREVER = 1266874889"
proof -
  have "uint (word_of_int ns * ucast hz :: u64) = ns * uint hz mod 2 ^ 64"
    using u32_uint [of hz]
    by (simp add: uint_word_ariths unsigned_ucast_eq uint_word_of_int mod_mult_left_eq take_bit_eq_mod)
  also have "\<dots> = ns * uint hz" using assms by simp
  finally have "uint ((word_of_int ns * ucast hz :: u64) div 1000000000) = ns * uint hz div 1000000000"
    by (simp add: uint_div)
  then have "uint (freertos_NSEC_TO_TICK hz ns) = ns * uint hz div 1000000000 mod 2 ^ 32"
    by (simp add: freertos_NSEC_TO_TICK_def unsigned_ucast_eq take_bit_eq_mod)
  then have "uint (freertos_NSEC_TO_TICK hz ns) = ns * uint hz div 1000000000" 
    using assms by (simp add: pos_imp_zdiv_nonneg_iff)
  moreover have "freertos_NSEC_TO_TICK 1000 OPENMRN_OS_WAIT_FOREVER = 1266874889"
    by (simp add: freertos_NSEC_TO_TICK_def OPENMRN_OS_WAIT_FOREVER_def LLONG_MAX_def)
  ultimately show ?thesis ..
qed

theorem freertos_ticks_exact_witness: "uint (freertos_NSEC_TO_TICK 1000 2500000000) = 2500"
  using freertos_ticks_exact [of 2500000000 1000] by simp

end
