(* ===== verification/OsTasks.thy ===== *)
theory OsTasks
  imports Prelude
begin

section \<open>Threads and the task list of the FreeRTOS port (os/os.c)\<close>

text \<open>
  The list of all tasks that \<open>os.c\<close> keeps for the stack monitor: a thread adds its
  node when it starts and marks it when it ends, the idle task unlinks and frees the
  marked nodes and then walks over the rest. The nodes live in a store from addresses
  to nodes, \<open>0\<close> being the null pointer; a freed or unknown address is \<open>None\<close>, and an
  operation that follows such a pointer is \<open>None\<close>. What \<open>malloc\<close> returns, the
  handles of the tasks, their names and their stack levels come from the kernel
  and are arguments.
\<close>

type_synonym addr = nat

definition DELETED_TASK_MAGIC :: u32 where "DELETED_TASK_MAGIC = 0xb5c5d5e5"

record task_list =
  task :: addr
  name :: addr
  unused :: u32
  nxt :: addr

record start_priv =
  entry :: addr
  arg :: addr
  node :: addr

record tasks =
  store :: "addr \<Rightarrow> task_list option"
  privs :: "addr \<Rightarrow> start_priv option"
  taskList :: addr

subsection \<open>Operations on the list\<close>

definition add_thread_to_task_list :: "addr \<Rightarrow> tasks \<Rightarrow> tasks option" where
  "add_thread_to_task_list task_new s = do {
     n \<leftarrow> store s task_new;
     Some (s\<lparr>store := (store s)(task_new \<mapsto> n\<lparr>nxt := taskList s\<rparr>), taskList := task_new\<rparr>)
   }"

partial_function (option) find_task :: "(addr \<Rightarrow> task_list option) \<Rightarrow> addr \<Rightarrow> addr \<Rightarrow> addr option" where
  "find_task st h cur =
     (if cur = 0 then Some 0
      else do { n \<leftarrow> st cur; if task n = h then Some cur else find_task st h (nxt n) })"

definition del_thread_from_task_list :: "addr \<Rightarrow> tasks \<Rightarrow> tasks option" where
  "del_thread_from_task_list task_handle s = do {
     cur \<leftarrow> find_task (store s) task_handle (taskList s);
     if cur = 0 then Some s
     else do {
       n \<leftarrow> store s cur;
       Some (s\<lparr>store := (store s)(cur \<mapsto> n\<lparr>task := 0, name := 0, unused := DELETED_TASK_MAGIC\<rparr>)\<rparr>)
     }
   }"

text \<open>
  The pointer \<open>ptl\<close> of the idle task points to the variable \<open>taskList\<close> (\<open>None\<close>) or to
  the link of a node (\<open>Some\<close>).
\<close>

definition get_link :: "addr option \<Rightarrow> tasks \<Rightarrow> addr option" where
  "get_link ptl s = (case ptl of None \<Rightarrow> Some (taskList s) | Some a \<Rightarrow> map_option nxt (store s a))"

definition set_link :: "addr option \<Rightarrow> addr \<Rightarrow> tasks \<Rightarrow> tasks option" where
  "set_link ptl v s =
     (case ptl of None \<Rightarrow> Some (s\<lparr>taskList := v\<rparr>)
      | Some a \<Rightarrow> do { n \<leftarrow> store s a; Some (s\<lparr>store := (store s)(a \<mapsto> n\<lparr>nxt := v\<rparr>)\<rparr>) })"

definition free_node :: "addr \<Rightarrow> tasks \<Rightarrow> tasks option" where
  "free_node a s = do { n \<leftarrow> store s a; Some (s\<lparr>store := (store s)(a := None)\<rparr>) }"

partial_function (option) clean_loop :: "addr option \<Rightarrow> tasks \<Rightarrow> tasks option" where
  "clean_loop ptl s = do {
     cur \<leftarrow> get_link ptl s;
     if cur = 0 then Some s
     else do {
       n \<leftarrow> store s cur;
       if unused n = DELETED_TASK_MAGIC
       then do { s \<leftarrow> set_link ptl (nxt n) s; s \<leftarrow> free_node cur s; clean_loop ptl s }
       else clean_loop (Some cur) s
     }
   }"

definition idle_clean :: "tasks \<Rightarrow> tasks option" where
  "idle_clean s = clean_loop None s"

text \<open>The body of the second loop. The scheduler runs at its end, and the link to the next node is read after that.\<close>

definition idle_scan :: "(addr \<Rightarrow> u32) \<Rightarrow> addr \<Rightarrow> tasks \<Rightarrow> tasks option" where
  "idle_scan high_water cur s =
     (if cur = 0 then Some s
      else do {
        n \<leftarrow> store s cur;
        Some (if task n \<noteq> 0 then s\<lparr>store := (store s)(cur \<mapsto> n\<lparr>unused := high_water (task n) * 4\<rparr>)\<rparr> else s)
      })"

definition idle_start :: "(addr \<Rightarrow> u32) \<Rightarrow> tasks \<Rightarrow> (tasks \<times> addr) option" where
  "idle_start high_water s = do {
     s \<leftarrow> idle_clean s;
     let cur = taskList s;
     s \<leftarrow> idle_scan high_water cur s;
     Some (s, cur)
   }"

definition idle_next :: "(addr \<Rightarrow> u32) \<Rightarrow> addr \<Rightarrow> tasks \<Rightarrow> (tasks \<times> addr) option" where
  "idle_next high_water cur s = do {
     n \<leftarrow> store s cur;
     let cur = nxt n;
     s \<leftarrow> idle_scan high_water cur s;
     Some (s, cur)
   }"

subsection \<open>Creating, starting and ending a thread\<close>

definition auto_name :: "u32 \<Rightarrow> u8 list" where
  "auto_name cnt =
     [0x74, 0x68, 0x72, 0x65, 0x61, 0x64, 0x2e, 0x30 + ucast (cnt div 10), 0x30 + ucast (cnt mod 10), 0]"

definition create_priority :: "int \<Rightarrow> int \<Rightarrow> int" where
  "create_priority configMAX_PRIORITIES priority =
     (if priority = 0 then configMAX_PRIORITIES div 2
      else if priority \<ge> configMAX_PRIORITIES then configMAX_PRIORITIES - 1 else priority)"

definition create_stack_size :: "u32 \<Rightarrow> u32" where
  "create_stack_size stack_size = (if stack_size = 0 then 2048 else stack_size)"

text \<open>
  \<open>os_thread_create\<close> up to the call that creates the task: \<open>p\<close> and \<open>q\<close> are what the two
  calls of \<open>malloc\<close> return, with the contents \<open>pc\<close> and \<open>qc\<close>; neither is checked.
\<close>

definition create_prepare ::
  "addr \<Rightarrow> start_priv \<Rightarrow> addr \<Rightarrow> task_list \<Rightarrow> addr \<Rightarrow> addr \<Rightarrow> u32 \<Rightarrow> tasks \<Rightarrow> tasks option" where
  "create_prepare p pc q qc start_routine a stack_size s = do {
     hassert (p \<noteq> 0);
     hassert (q \<noteq> 0);
     Some (s\<lparr>store := (store s)(q \<mapsto> qc\<lparr>name := 0, unused := stack_size\<rparr>),
            privs := (privs s)(p \<mapsto> pc\<lparr>node := q, entry := start_routine, arg := a\<rparr>)\<rparr>)
   }"

text \<open>What it does after the task was created with handle \<open>local_thread\<close>.\<close>

definition create_finish :: "(addr \<Rightarrow> addr) \<Rightarrow> addr \<Rightarrow> addr \<Rightarrow> tasks \<Rightarrow> tasks option" where
  "create_finish pcTaskGetTaskName p local_thread s = do {
     pr \<leftarrow> privs s p;
     n \<leftarrow> store s (node pr);
     Some (s\<lparr>store := (store s)(node pr \<mapsto> n\<lparr>task := local_thread, name := pcTaskGetTaskName local_thread\<rparr>)\<rparr>)
   }"

text \<open>
  The helper: \<open>xTaskCreate\<close> gets the name, the stack in words, the argument and the
  priority and may fail (\<open>None\<close>), in which case \<open>thread\<close> keeps its old value. Its
  result is not looked at.
\<close>

definition os_thread_create_helper ::
  "(u8 list \<Rightarrow> u32 \<Rightarrow> addr \<Rightarrow> int \<Rightarrow> addr option) \<Rightarrow> addr \<Rightarrow> u8 list \<Rightarrow> int \<Rightarrow> u32 \<Rightarrow> addr \<Rightarrow> int \<times> addr" where
  "os_thread_create_helper xTaskCreate thread nm priority stack_size priv =
     (case xTaskCreate nm (stack_size div 4) priv priority of None \<Rightarrow> (0, thread) | Some h \<Rightarrow> (0, h))"

text \<open>
  The whole call, as it runs when the new thread does not start before it returns.
  \<open>cnt\<close> is the static counter of names, \<open>lt\<close> what the local variable for the handle
  holds before; the result is the return value, the handle and the new counter.
\<close>

definition os_thread_create ::
  "(u8 list \<Rightarrow> u32 \<Rightarrow> addr \<Rightarrow> int \<Rightarrow> addr option) \<Rightarrow> (addr \<Rightarrow> addr) \<Rightarrow> int \<Rightarrow> u32 \<Rightarrow> u8 list option \<Rightarrow> int \<Rightarrow>
    u32 \<Rightarrow> addr \<Rightarrow> addr \<Rightarrow> addr \<Rightarrow> start_priv \<Rightarrow> addr \<Rightarrow> task_list \<Rightarrow> addr \<Rightarrow> tasks \<Rightarrow>
    (int \<times> addr \<times> u32 \<times> tasks) option" where
  "os_thread_create xTaskCreate pcTaskGetTaskName mx cnt nm priority stack_size start_routine a p pc q qc lt s =
     (let (nm, cnt) = (case nm of None \<Rightarrow> (auto_name cnt, cnt + 1) | Some nm \<Rightarrow> (nm, cnt)) in do {
        s \<leftarrow> create_prepare p pc q qc start_routine a stack_size s;
        let (result, local_thread) =
          os_thread_create_helper xTaskCreate lt nm (create_priority mx priority) (create_stack_size stack_size) p;
        if result = 0
        then do { s \<leftarrow> create_finish pcTaskGetTaskName p local_thread s; Some (result, local_thread, cnt, s) }
        else Some (result, lt, cnt, s)
      })"

text \<open>\<open>os_thread_start\<close> before and after the call of the entry point.\<close>

definition thread_begin :: "addr \<Rightarrow> addr \<Rightarrow> tasks \<Rightarrow> tasks option" where
  "thread_begin p self s = do {
     pr \<leftarrow> privs s p;
     n \<leftarrow> store s (node pr);
     let s = s\<lparr>store := (store s)(node pr \<mapsto> n\<lparr>task := self\<rparr>)\<rparr>;
     add_thread_to_task_list (node pr) s
   }"

definition free_priv :: "addr \<Rightarrow> tasks \<Rightarrow> tasks option" where
  "free_priv p s = do { pr \<leftarrow> privs s p; Some (s\<lparr>privs := (privs s)(p := None)\<rparr>) }"

definition thread_end :: "addr \<Rightarrow> addr \<Rightarrow> tasks \<Rightarrow> tasks option" where
  "thread_end p self s = do { s \<leftarrow> del_thread_from_task_list self s; free_priv p s }"

subsection \<open>The list as a sequence of nodes\<close>

fun path :: "(addr \<Rightarrow> task_list option) \<Rightarrow> addr \<Rightarrow> addr list \<Rightarrow> addr \<Rightarrow> bool" where
  "path st a [] b \<longleftrightarrow> a = b"
| "path st a (x # xs) b \<longleftrightarrow> a = x \<and> x \<noteq> 0 \<and> (\<exists>n. st x = Some n \<and> path st (nxt n) xs b)"

lemma path_append: "path st a (xs @ ys) c \<longleftrightarrow> (\<exists>b. path st a xs b \<and> path st b ys c)"
  by (induction xs arbitrary: a) auto

lemma path_dom: "path st a xs b \<Longrightarrow> x \<in> set xs \<Longrightarrow> x \<noteq> 0 \<and> (\<exists>n. st x = Some n)"
  by (induction xs arbitrary: a) auto

lemma path_unique: "path st a xs 0 \<Longrightarrow> path st a ys 0 \<Longrightarrow> xs = ys"
proof (induction xs arbitrary: a ys)
  case Nil
  then show ?case by (cases ys) auto
next
  case (Cons x xs)
  then show ?case by (cases ys) auto
qed

lemma path_upd [simp]: "x \<notin> set xs \<Longrightarrow> path (st(x := v)) a xs b = path st a xs b"
  by (induction xs arbitrary: a) auto

lemma path_data: "st x = Some n \<Longrightarrow> nxt m = nxt n \<Longrightarrow> path (st(x \<mapsto> m)) a xs b = path st a xs b"
  by (induction xs arbitrary: a) auto

lemma find_task_path:
  "path st a xs 0 \<Longrightarrow>
   find_task st h a = Some (case find (\<lambda>x. task (the (st x)) = h) xs of None \<Rightarrow> 0 | Some x \<Rightarrow> x)"
  by (induction xs arbitrary: a; subst find_task.simps) auto

definition same_data :: "task_list \<Rightarrow> task_list \<Rightarrow> bool" where
  "same_data n m \<longleftrightarrow> task n = task m \<and> name n = name m \<and> unused n = unused m"

definition marked :: "(addr \<Rightarrow> task_list option) \<Rightarrow> addr \<Rightarrow> bool" where
  "marked st x \<longleftrightarrow> (\<exists>n. st x = Some n \<and> unused n = DELETED_TASK_MAGIC)"

lemma same_data_refl [simp]: "same_data n n"
  by (simp add: same_data_def)

lemma same_data_trans: "same_data n m \<Longrightarrow> same_data m k \<Longrightarrow> same_data n k"
  by (simp add: same_data_def)

lemma set_link_path:
  assumes "path (store s) (taskList s) ys x" "path (store s) v xs 0" "distinct (ys @ xs)"
    "ptl = (if ys = [] then None else Some (last ys))"
  shows "\<exists>t. set_link ptl v s = Some t \<and> path (store t) (taskList t) (ys @ xs) 0 \<and> privs t = privs s \<and>
    (\<forall>a. a \<notin> set ys \<longrightarrow> store t a = store s a) \<and>
    (\<forall>a. store t a = None \<longleftrightarrow> store s a = None) \<and>
    (\<forall>a n. store t a = Some n \<longrightarrow> (\<exists>m. store s a = Some m \<and> same_data n m))"
proof (cases ys rule: rev_cases)
  case Nil
  then show ?thesis using assms by (auto simp: set_link_def)
next
  case (snoc zs z)
  then obtain n where n: "path (store s) (taskList s) zs z" "z \<noteq> 0" "store s z = Some n"
    using assms(1) by (auto simp: path_append)
  define t where "t = s\<lparr>store := (store s)(z \<mapsto> n\<lparr>nxt := v\<rparr>)\<rparr>"
  have "set_link ptl v s = Some t" using assms(4) snoc n(3) by (simp add: set_link_def t_def)
  moreover have "path (store t) (taskList t) (ys @ xs) 0"
    using assms(2,3) snoc n by (simp add: t_def path_append)
  ultimately show ?thesis using snoc n(3) by (auto simp: t_def same_data_def)
qed

text \<open>
  The cleaning loop, entered after the nodes \<open>ys\<close>: it keeps them, unlinks and frees
  exactly the marked ones among the rest and changes nothing else but links.
\<close>

lemma clean_loop_path:
  assumes "path (store s) (taskList s) (ys @ xs) 0" "distinct (ys @ xs)"
    "ptl = (if ys = [] then None else Some (last ys))"
  shows "\<exists>t. clean_loop ptl s = Some t \<and>
    path (store t) (taskList t) (ys @ filter (\<lambda>x. \<not> marked (store s) x) xs) 0 \<and> privs t = privs s \<and>
    (\<forall>a. store t a = None \<longleftrightarrow> store s a = None \<or> (a \<in> set xs \<and> marked (store s) a)) \<and>
    (\<forall>a n. store t a = Some n \<longrightarrow> (\<exists>m. store s a = Some m \<and> same_data n m \<and> (a \<notin> set (ys @ xs) \<longrightarrow> n = m)))"
  using assms
proof (induction xs arbitrary: ys ptl s)
  case Nil
  have link: "get_link ptl s = Some 0"
  proof (cases ys rule: rev_cases)
    case (snoc zs z)
    then show ?thesis using Nil by (auto simp: get_link_def path_append)
  qed (use Nil in \<open>simp add: get_link_def\<close>)
  then have "clean_loop ptl s = Some s" by (subst clean_loop.simps) simp
  then show ?case using Nil by auto
next
  case (Cons x xs)
  then obtain b n where b: "path (store s) (taskList s) ys b" "b = x" "x \<noteq> 0" "store s x = Some n"
    "path (store s) (nxt n) xs 0"
    by (auto simp: path_append)
  have link: "get_link ptl s = Some x"
  proof (cases ys rule: rev_cases)
    case (snoc zs z)
    then show ?thesis using Cons.prems(3) b(1,2) by (auto simp: get_link_def path_append)
  qed (use Cons.prems(3) b(1,2) in \<open>simp add: get_link_def\<close>)
  show ?case
  proof (cases "unused n = DELETED_TASK_MAGIC")
    case False
    then have nm: "\<not> marked (store s) x" using b(4) by (simp add: marked_def)
    have step: "clean_loop ptl s = clean_loop (Some x) s"
      using link b(3,4) False by (subst clean_loop.simps) simp
    show ?thesis
      using Cons.IH [of s "ys @ [x]" "Some x"] Cons.prems nm unfolding step by auto
  next
    case True
    then have m: "marked (store s) x" using b(4) by (simp add: marked_def)
    have d: "distinct (ys @ xs)" "x \<notin> set (ys @ xs)" using Cons.prems(2) by auto
    obtain u where u: "set_link ptl (nxt n) s = Some u" "path (store u) (taskList u) (ys @ xs) 0" "privs u = privs s"
      "\<And>a. a \<notin> set ys \<Longrightarrow> store u a = store s a" "\<And>a. store u a = None \<longleftrightarrow> store s a = None"
      "\<And>a n. store u a = Some n \<Longrightarrow> \<exists>m. store s a = Some m \<and> same_data n m"
      using set_link_path [OF _ b(5) d(1) Cons.prems(3)] b(1) by blast
    have ux: "store u x = Some n" using u(4) [of x] d(2) b(4) by simp
    define w where "w = u\<lparr>store := (store u)(x := None)\<rparr>"
    have step: "clean_loop ptl s = clean_loop ptl w"
      using link b(3,4) True u(1) ux by (subst clean_loop.simps) (simp add: free_node_def w_def)
    have pw: "path (store w) (taskList w) (ys @ xs) 0" using u(2) d(2) by (simp add: w_def)
    have mk: "marked (store w) a \<longleftrightarrow> marked (store s) a" if "a \<in> set xs" for a
    proof -
      have "store w a = store s a" using that d u(4) [of a] by (auto simp: w_def)
      then show ?thesis by (simp add: marked_def)
    qed
    then have f: "filter (\<lambda>x. \<not> marked (store w) x) xs = filter (\<lambda>x. \<not> marked (store s) x) xs"
      by (intro filter_cong) simp_all
    obtain t where t: "clean_loop ptl w = Some t"
      "path (store t) (taskList t) (ys @ filter (\<lambda>x. \<not> marked (store s) x) xs) 0" "privs t = privs w"
      "\<And>a. store t a = None \<longleftrightarrow> store w a = None \<or> (a \<in> set xs \<and> marked (store w) a)"
      "\<And>a n. store t a = Some n \<Longrightarrow> \<exists>m. store w a = Some m \<and> same_data n m \<and> (a \<notin> set (ys @ xs) \<longrightarrow> n = m)"
      using Cons.IH [OF pw d(1) Cons.prems(3)] unfolding f by blast
    have none: "store t a = None \<longleftrightarrow> store s a = None \<or> (a \<in> set (x # xs) \<and> marked (store s) a)" for a
      using t(4) [of a] u(5) [of a] mk [of a] m by (auto simp: w_def)
    have some: "\<exists>m. store s a = Some m \<and> same_data k m \<and> (a \<notin> set (ys @ x # xs) \<longrightarrow> k = m)"
      if k: "store t a = Some k" for a k
    proof -
      obtain m where m: "store w a = Some m" "same_data k m" "a \<notin> set (ys @ xs) \<longrightarrow> k = m"
        using t(5) [OF k] by blast
      then have "store u a = Some m" by (auto simp: w_def split: if_splits)
      with u(6) [OF this] u(4) [of a] m show ?thesis by (auto intro: same_data_trans)
    qed
    show ?thesis
      unfolding step using t(1-3) u(3) none some m by (auto simp: w_def)
  qed
qed

subsection \<open>All threads together\<close>

text \<open>
  The threads, each known by the address of its \<open>OSThreadStartPriv\<close>: \<open>live\<close> holds its
  handle and how far it is, \<open>pend\<close> the calls of \<open>os_thread_create\<close> that have created
  the task and not yet written to its node, \<open>scan\<close> the position of the idle task in
  its second loop. A step is a section that the code runs with the scheduler
  suspended, or one that touches only the thread's own data; \<open>None\<close> is an access
  through a dangling or null pointer. With \<open>sync\<close> a thread does not end before the call
  that created it has returned.
\<close>

datatype phase = Created | Started | Marked

record tsys =
  mem :: tasks
  live :: "addr \<Rightarrow> (addr \<times> phase) option"
  pend :: "addr \<Rightarrow> addr option"
  scan :: "addr option"

inductive tstep :: "bool \<Rightarrow> tsys \<Rightarrow> tsys option \<Rightarrow> bool" where
  create: "create_prepare p pc q qc e a sz (mem s) = Some m \<Longrightarrow> store (mem s) q = None \<Longrightarrow>
    privs (mem s) p = None \<Longrightarrow> h \<noteq> 0 \<Longrightarrow> (\<forall>p' h' ph. live s p' = Some (h', ph) \<longrightarrow> h' \<noteq> h) \<Longrightarrow>
    sz \<noteq> DELETED_TASK_MAGIC \<Longrightarrow>
    tstep sync s (Some (s\<lparr>mem := m, live := (live s)(p \<mapsto> (h, Created)), pend := (pend s)(p \<mapsto> h)\<rparr>))"
| finish: "pend s p = Some h \<Longrightarrow>
    tstep sync s (map_option (\<lambda>m. s\<lparr>mem := m, pend := (pend s)(p := None)\<rparr>) (create_finish nm p h (mem s)))"
| start: "live s p = Some (h, Created) \<Longrightarrow>
    tstep sync s (map_option (\<lambda>m. s\<lparr>mem := m, live := (live s)(p \<mapsto> (h, Started))\<rparr>) (thread_begin p h (mem s)))"
| mark: "live s p = Some (h, Started) \<Longrightarrow> (sync \<Longrightarrow> pend s p = None) \<Longrightarrow>
    tstep sync s (map_option (\<lambda>m. s\<lparr>mem := m, live := (live s)(p \<mapsto> (h, Marked))\<rparr>)
      (del_thread_from_task_list h (mem s)))"
| leave: "live s p = Some (h, Marked) \<Longrightarrow>
    tstep sync s (map_option (\<lambda>m. s\<lparr>mem := m, live := (live s)(p := None)\<rparr>) (free_priv p (mem s)))"
| clean: "scan s = None \<Longrightarrow>
    tstep sync s (map_option (\<lambda>(m, b). s\<lparr>mem := m, scan := Some b\<rparr>) (idle_start hw (mem s)))"
| scan: "scan s = Some a \<Longrightarrow> a \<noteq> 0 \<Longrightarrow>
    tstep sync s (map_option (\<lambda>(m, b). s\<lparr>mem := m, scan := Some b\<rparr>) (idle_next hw a (mem s)))"
| scanned: "scan s = Some 0 \<Longrightarrow> tstep sync s (Some (s\<lparr>scan := None\<rparr>))"

definition tsys_init :: tsys where
  "tsys_init = \<lparr>mem = \<lparr>store = \<lambda>_. None, privs = \<lambda>_. None, taskList = 0\<rparr>, live = \<lambda>_. None,
    pend = \<lambda>_. None, scan = None\<rparr>"

inductive treach :: "bool \<Rightarrow> tsys option \<Rightarrow> bool" where
  init: "treach sync (Some tsys_init)"
| step: "treach sync (Some s) \<Longrightarrow> tstep sync s r \<Longrightarrow> treach sync r"

subsubsection \<open>Invariant\<close>

definition node_of :: "tsys \<Rightarrow> addr \<Rightarrow> addr" where
  "node_of s p = node (the (privs (mem s) p))"

definition list_ok :: "addr list \<Rightarrow> tsys \<Rightarrow> bool" where
  "list_ok xs s \<longleftrightarrow> path (store (mem s)) (taskList (mem s)) xs 0 \<and> distinct xs \<and>
     (\<forall>x \<in> set xs. \<forall>n. store (mem s) x = Some n \<longrightarrow>
        (task n = 0 \<longrightarrow> unused n = DELETED_TASK_MAGIC) \<and>
        (task n \<noteq> 0 \<longrightarrow> unused n \<noteq> DELETED_TASK_MAGIC \<and>
           (\<exists>p. live s p = Some (task n, Started) \<and> node_of s p = x)))"

definition thr_ok :: "addr list \<Rightarrow> tsys \<Rightarrow> addr \<Rightarrow> bool" where
  "thr_ok xs s p \<longleftrightarrow> (\<forall>h ph. live s p = Some (h, ph) \<longrightarrow> h \<noteq> 0 \<and> privs (mem s) p \<noteq> None \<and>
     (ph = Created \<longrightarrow> node_of s p \<noteq> 0 \<and> node_of s p \<notin> set xs \<and>
        (\<exists>n. store (mem s) (node_of s p) = Some n \<and> unused n \<noteq> DELETED_TASK_MAGIC)) \<and>
     (ph = Started \<longrightarrow> node_of s p \<in> set xs \<and> (\<exists>n. store (mem s) (node_of s p) = Some n \<and> task n = h)))"

definition uniq :: "tsys \<Rightarrow> bool" where
  "uniq s \<longleftrightarrow> (\<forall>p p' h h' ph ph'. live s p = Some (h, ph) \<longrightarrow> live s p' = Some (h', ph') \<longrightarrow> p \<noteq> p' \<longrightarrow>
     h \<noteq> h' \<and> (ph \<noteq> Marked \<longrightarrow> ph' \<noteq> Marked \<longrightarrow> node_of s p \<noteq> node_of s p'))"

definition pend_ok :: "tsys \<Rightarrow> bool" where
  "pend_ok s \<longleftrightarrow> (\<forall>p h. pend s p = Some h \<longrightarrow> (\<exists>ph. live s p = Some (h, ph) \<and> ph \<noteq> Marked))"

definition scan_ok :: "addr list \<Rightarrow> tsys \<Rightarrow> bool" where
  "scan_ok xs s \<longleftrightarrow> (\<forall>a. scan s = Some a \<longrightarrow> a = 0 \<or> a \<in> set xs)"

definition tinv :: "addr list \<Rightarrow> tsys \<Rightarrow> bool" where
  "tinv xs s \<longleftrightarrow> list_ok xs s \<and> (\<forall>p. thr_ok xs s p) \<and> uniq s \<and> pend_ok s \<and> scan_ok xs s"

lemmas tinv_defs = tinv_def list_ok_def thr_ok_def uniq_def pend_ok_def scan_ok_def

text \<open>What the invariant says of one thread.\<close>

lemma tinv_live:
  "tinv xs s \<Longrightarrow> live s p = Some (h, ph) \<Longrightarrow> h \<noteq> 0 \<and> privs (mem s) p = Some (the (privs (mem s) p))"
  unfolding tinv_def thr_ok_def by auto

lemma tinv_Created:
  "tinv xs s \<Longrightarrow> live s p = Some (h, Created) \<Longrightarrow> node_of s p \<noteq> 0 \<and> node_of s p \<notin> set xs \<and>
     (\<exists>n. store (mem s) (node_of s p) = Some n \<and> unused n \<noteq> DELETED_TASK_MAGIC)"
  unfolding tinv_def thr_ok_def by blast

lemma tinv_Started:
  "tinv xs s \<Longrightarrow> live s p = Some (h, Started) \<Longrightarrow> node_of s p \<in> set xs \<and>
     (\<exists>n. store (mem s) (node_of s p) = Some n \<and> task n = h)"
  unfolding tinv_def thr_ok_def by blast

lemma tinv_pend:
  "tinv xs s \<Longrightarrow> pend s p = Some h \<Longrightarrow> \<exists>ph. live s p = Some (h, ph) \<and> ph \<noteq> Marked"
  unfolding tinv_def pend_ok_def by blast

lemma tinv_own:
  "tinv xs s \<Longrightarrow> x \<in> set xs \<Longrightarrow> store (mem s) x = Some n \<Longrightarrow> task n \<noteq> 0 \<Longrightarrow>
     \<exists>p. live s p = Some (task n, Started) \<and> node_of s p = x"
  unfolding tinv_def list_ok_def by blast

lemma tinv_uniq:
  "tinv xs s \<Longrightarrow> live s p = Some (h, ph) \<Longrightarrow> live s p' = Some (h', ph') \<Longrightarrow> p' \<noteq> p \<Longrightarrow>
     h' \<noteq> h \<and> (ph' \<noteq> Marked \<longrightarrow> ph \<noteq> Marked \<longrightarrow> node_of s p' \<noteq> node_of s p)"
  unfolding tinv_def uniq_def by metis

lemma tinv_init: "tinv [] tsys_init"
  by (simp add: tinv_defs tsys_init_def)

lemma tinv_create:
  assumes inv: "tinv xs s" and c: "create_prepare p pc q qc e a sz (mem s) = Some m" "store (mem s) q = None"
    "privs (mem s) p = None" "h \<noteq> 0" "\<forall>p' h' ph. live s p' = Some (h', ph) \<longrightarrow> h' \<noteq> h"
    "sz \<noteq> DELETED_TASK_MAGIC"
  shows "tinv xs (s\<lparr>mem := m, live := (live s)(p \<mapsto> (h, Created)), pend := (pend s)(p \<mapsto> h)\<rparr>)"
proof -
  have m: "m = mem s\<lparr>store := (store (mem s))(q \<mapsto> qc\<lparr>name := 0, unused := sz\<rparr>),
    privs := (privs (mem s))(p \<mapsto> pc\<lparr>node := q, entry := e, arg := a\<rparr>)\<rparr>" and q0: "q \<noteq> 0"
    using c(1) by (auto simp: create_prepare_def split: if_splits)
  have lp: "live s p = None" using tinv_live [OF inv, of p] c(3) by (cases "live s p") auto
  have qx: "q \<notin> set xs" using inv c(2) by (auto simp: tinv_def list_ok_def dest: path_dom)
  have other: "node_of s p' \<noteq> q" if "live s p' = Some (h', ph)" "ph \<noteq> Marked" for p' h' ph
    using that c(2) tinv_Created [OF inv, of p' h'] tinv_Started [OF inv, of p' h'] by (cases ph) auto
  let ?t = "s\<lparr>mem := m, live := (live s)(p \<mapsto> (h, Created)), pend := (pend s)(p \<mapsto> h)\<rparr>"
  have nd: "node_of ?t p' = (if p' = p then q else node_of s p')" for p'
    by (simp add: node_of_def m)
  have "list_ok xs ?t"
    using inv qx lp unfolding tinv_def list_ok_def nd by (auto simp: m) (metis option.distinct(1))
  moreover have "thr_ok xs ?t p'" for p'
    using inv qx other [of p'] q0 c(4,6) lp unfolding tinv_def thr_ok_def nd by (auto simp: m)
  moreover have "uniq ?t"
    using inv other c(5) unfolding tinv_def uniq_def nd by (auto; metis)
  moreover have "pend_ok ?t" using inv by (auto simp: tinv_def pend_ok_def)
  moreover have "scan_ok xs ?t" using inv by (auto simp: tinv_def scan_ok_def)
  ultimately show ?thesis by (simp add: tinv_def)
qed

text \<open>A step that changes the data of one node and neither its link nor the threads.\<close>

lemma tinv_finish:
  assumes inv: "tinv xs s" and p: "pend s p = Some h"
  shows "\<exists>m. create_finish nm p h (mem s) = Some m \<and> tinv xs (s\<lparr>mem := m, pend := (pend s)(p := None)\<rparr>)"
proof -
  obtain ph where ph: "live s p = Some (h, ph)" "ph \<noteq> Marked" using tinv_pend [OF inv p] by blast
  have pr: "privs (mem s) p = Some (the (privs (mem s) p))" "h \<noteq> 0"
    using tinv_live [OF inv ph(1)] by simp_all
  have "\<exists>n. store (mem s) (node_of s p) = Some n"
    using ph tinv_Created [OF inv, of p h] tinv_Started [OF inv, of p h] by (cases ph) auto
  then obtain n where n: "store (mem s) (node_of s p) = Some n" ..
  define k where "k = n\<lparr>task := h, name := nm h\<rparr>"
  define m where "m = mem s\<lparr>store := (store (mem s))(node_of s p \<mapsto> k)\<rparr>"
  have fin: "create_finish nm p h (mem s) = Some m"
    using n unfolding create_finish_def by (subst pr(1)) (simp add: node_of_def m_def k_def)
  let ?t = "s\<lparr>mem := m, pend := (pend s)(p := None)\<rparr>"
  have nd: "node_of ?t p' = node_of s p'" for p' by (simp add: node_of_def m_def)
  have st: "ph = Started \<Longrightarrow> task n = h \<and> node_of s p \<in> set xs" "ph = Created \<Longrightarrow> node_of s p \<notin> set xs"
    using ph n tinv_Created [OF inv, of p h] tinv_Started [OF inv, of p h] by auto
  have same: "node_of s p' \<noteq> node_of s p" if "live s p' = Some (h', ph')" "ph' \<noteq> Marked" "p' \<noteq> p" for p' h' ph'
    using tinv_uniq [OF inv ph(1) that(1,3)] ph(2) that(2) by simp
  have "list_ok xs ?t"
    using inv n st ph pr(2) path_data [of "store (mem s)" "node_of s p" n k, OF n] unfolding tinv_def list_ok_def nd
    by (cases ph) (auto simp: m_def k_def)
  moreover have "thr_ok xs ?t p'" for p'
  proof (cases "p' = p")
    case True
    then show ?thesis
      using ph pr(2) n tinv_Created [OF inv, of p h] tinv_Started [OF inv, of p h] pr(1)
      unfolding thr_ok_def nd by (auto simp: m_def k_def)
  next
    case False
    have "thr_ok xs s p'" using inv by (simp add: tinv_def)
    then show ?thesis
      using same [OF _ _ False] unfolding thr_ok_def nd by (auto simp: m_def k_def)
  qed
  moreover have "uniq ?t" "pend_ok ?t" "scan_ok xs ?t"
    using inv unfolding tinv_def uniq_def pend_ok_def scan_ok_def nd by auto
  ultimately show ?thesis using fin by (auto simp: tinv_def)
qed

lemma tinv_start:
  assumes inv: "tinv xs s" and p: "live s p = Some (h, Created)"
  shows "\<exists>m. thread_begin p h (mem s) = Some m \<and>
    tinv (node_of s p # xs) (s\<lparr>mem := m, live := (live s)(p \<mapsto> (h, Started))\<rparr>)"
proof -
  have pr: "privs (mem s) p = Some (the (privs (mem s) p))" "h \<noteq> 0" "node_of s p \<noteq> 0" "node_of s p \<notin> set xs"
    using tinv_live [OF inv p] tinv_Created [OF inv p] by simp_all
  obtain n where n: "store (mem s) (node_of s p) = Some n" "unused n \<noteq> DELETED_TASK_MAGIC"
    using tinv_Created [OF inv p] by blast
  define k where "k = n\<lparr>task := h, nxt := taskList (mem s)\<rparr>"
  define m where "m = mem s\<lparr>store := (store (mem s))(node_of s p \<mapsto> k), taskList := node_of s p\<rparr>"
  have beg: "thread_begin p h (mem s) = Some m"
    using n unfolding thread_begin_def
    by (subst pr(1)) (simp add: node_of_def m_def k_def add_thread_to_task_list_def Let_def)
  let ?t = "s\<lparr>mem := m, live := (live s)(p \<mapsto> (h, Started))\<rparr>"
  have nd: "node_of ?t p' = node_of s p'" for p' by (simp add: node_of_def m_def)
  have same: "node_of s p' \<noteq> node_of s p" if "live s p' = Some (h', ph')" "ph' \<noteq> Marked" "p' \<noteq> p" for p' h' ph'
    using tinv_uniq [OF inv p that(1,3)] that(2) by simp
  have "\<exists>p'. p' \<noteq> p \<and> live s p' = Some (task n', Started) \<and> node_of s p' = x"
    if t: "x \<in> set xs" "store (mem s) x = Some n'" "task n' \<noteq> 0" for x n'
  proof -
    obtain p' where "live s p' = Some (task n', Started)" "node_of s p' = x"
      using tinv_own [OF inv t(1-3)] by blast
    moreover from this p have "p' \<noteq> p" by auto
    ultimately show ?thesis by blast
  qed
  then have "list_ok (node_of s p # xs) ?t"
    using inv n pr unfolding tinv_def list_ok_def nd by (auto simp: m_def k_def)
  moreover have "thr_ok (node_of s p # xs) ?t p'" for p'
  proof (cases "p' = p")
    case True
    then show ?thesis using pr unfolding thr_ok_def nd by (auto simp: m_def k_def)
  next
    case False
    have "thr_ok xs s p'" using inv by (simp add: tinv_def)
    then show ?thesis
      using same [OF _ _ False] False unfolding thr_ok_def nd by (auto simp: m_def k_def)
  qed
  moreover have "uniq ?t"
    using inv p unfolding tinv_def uniq_def nd by (auto; metis phase.distinct)
  moreover have "pend_ok ?t" "scan_ok (node_of s p # xs) ?t"
    using inv p unfolding tinv_def pend_ok_def scan_ok_def nd by fastforce+
  ultimately show ?thesis using beg by (auto simp: tinv_def)
qed

lemma tinv_mark:
  assumes inv: "tinv xs s" and p: "live s p = Some (h, Started)" "pend s p = None"
  shows "\<exists>m. del_thread_from_task_list h (mem s) = Some m \<and>
    tinv xs (s\<lparr>mem := m, live := (live s)(p \<mapsto> (h, Marked))\<rparr>)"
proof -
  have pr: "h \<noteq> 0" "node_of s p \<in> set xs"
    using tinv_live [OF inv p(1)] tinv_Started [OF inv p(1)] by simp_all
  obtain n where n: "store (mem s) (node_of s p) = Some n" "task n = h"
    using tinv_Started [OF inv p(1)] by blast
  have path: "path (store (mem s)) (taskList (mem s)) xs 0" using inv by (simp add: tinv_def list_ok_def)
  have only: "x = node_of s p" if x: "x \<in> set xs" "task (the (store (mem s) x)) = h" for x
  proof -
    obtain n' where n': "store (mem s) x = Some n'" using path_dom [OF path x(1)] by auto
    then obtain p' where "live s p' = Some (h, Started)" "node_of s p' = x"
      using tinv_own [OF inv x(1) n'] x(2) pr(1) by auto
    then show ?thesis using tinv_uniq [OF inv p(1), of p' h Started] by auto
  qed
  have "find (\<lambda>x. task (the (store (mem s) x)) = h) xs = Some (node_of s p)"
  proof (cases "find (\<lambda>x. task (the (store (mem s) x)) = h) xs")
    case None
    then show ?thesis using pr(2) n by (auto simp: find_None_iff)
  next
    case (Some x)
    then show ?thesis using only [of x] by (auto simp: find_Some_iff)
  qed
  then have f: "find_task (store (mem s)) h (taskList (mem s)) = Some (node_of s p)"
    using find_task_path [OF path] by simp
  have q0: "node_of s p \<noteq> 0" using path_dom [OF path pr(2)] by simp
  define k where "k = n\<lparr>task := 0, name := 0, unused := DELETED_TASK_MAGIC\<rparr>"
  define m where "m = mem s\<lparr>store := (store (mem s))(node_of s p \<mapsto> k)\<rparr>"
  have del: "del_thread_from_task_list h (mem s) = Some m"
    using f q0 n by (simp add: del_thread_from_task_list_def m_def k_def)
  let ?t = "s\<lparr>mem := m, live := (live s)(p \<mapsto> (h, Marked))\<rparr>"
  have nd: "node_of ?t p' = node_of s p'" for p' by (simp add: node_of_def m_def)
  have same: "node_of s p' \<noteq> node_of s p" if "live s p' = Some (h', ph')" "ph' \<noteq> Marked" "p' \<noteq> p" for p' h' ph'
    using tinv_uniq [OF inv p(1) that(1,3)] that(2) by simp
  have own: "\<exists>p'. p' \<noteq> p \<and> live s p' = Some (task n', Started) \<and> node_of s p' = x"
    if t: "x \<in> set xs" "store (mem s) x = Some n'" "task n' \<noteq> 0" "x \<noteq> node_of s p" for x n'
  proof -
    obtain p' where "live s p' = Some (task n', Started)" "node_of s p' = x"
      using tinv_own [OF inv t(1-3)] by blast
    moreover from this t(4) have "p' \<noteq> p" by auto
    ultimately show ?thesis by blast
  qed
  have "list_ok xs ?t"
    unfolding list_ok_def nd
  proof (intro conjI ballI allI impI)
    show "path (store (mem ?t)) (taskList (mem ?t)) xs 0"
      using path path_data [of "store (mem s)" "node_of s p" n k, OF n(1)] by (simp add: m_def k_def)
    show "distinct xs" using inv by (simp add: tinv_def list_ok_def)
  next
    fix x n' assume x: "x \<in> set xs" "store (mem ?t) x = Some n'" and z: "task n' = 0"
    then show "unused n' = DELETED_TASK_MAGIC"
      using inv by (cases "x = node_of s p") (auto simp: m_def k_def tinv_def list_ok_def)
  next
    fix x n' assume x: "x \<in> set xs" "store (mem ?t) x = Some n'" and z: "task n' \<noteq> 0"
    then have d: "x \<noteq> node_of s p" "store (mem s) x = Some n'" by (auto simp: m_def k_def split: if_splits)
    then show "unused n' \<noteq> DELETED_TASK_MAGIC" using inv x(1) z by (auto simp: tinv_def list_ok_def)
    show "\<exists>p'. live ?t p' = Some (task n', Started) \<and> node_of s p' = x"
      using own [OF x(1) d(2) z d(1)] by auto
  qed
  moreover have "thr_ok xs ?t p'" for p'
  proof (cases "p' = p")
    case True
    then show ?thesis using pr tinv_live [OF inv p(1)] unfolding thr_ok_def nd by (auto simp: m_def k_def)
  next
    case False
    have "thr_ok xs s p'" using inv by (simp add: tinv_def)
    then show ?thesis
      using same [OF _ _ False] False unfolding thr_ok_def nd by (auto simp: m_def k_def)
  qed
  moreover have "uniq ?t"
    using inv p unfolding tinv_def uniq_def nd by (auto; metis phase.distinct)
  moreover have "pend_ok ?t" "scan_ok xs ?t"
    using inv p unfolding tinv_def pend_ok_def scan_ok_def nd by fastforce+
  ultimately show ?thesis using del by (auto simp: tinv_def)
qed

lemma tinv_leave:
  assumes inv: "tinv xs s" and p: "live s p = Some (h, Marked)"
  shows "\<exists>m. free_priv p (mem s) = Some m \<and> tinv xs (s\<lparr>mem := m, live := (live s)(p := None)\<rparr>)"
proof -
  obtain pr where pr: "privs (mem s) p = Some pr" using tinv_live [OF inv p] by blast
  define m where "m = mem s\<lparr>privs := (privs (mem s))(p := None)\<rparr>"
  have fr: "free_priv p (mem s) = Some m" using pr by (simp add: free_priv_def m_def)
  let ?t = "s\<lparr>mem := m, live := (live s)(p := None)\<rparr>"
  have nd: "p' \<noteq> p \<Longrightarrow> node_of ?t p' = node_of s p'" for p' by (simp add: node_of_def m_def)
  have np: "pend s p = None" using tinv_pend [OF inv, of p] p by (cases "pend s p") auto
  have "\<exists>p'. p' \<noteq> p \<and> live s p' = Some (task n', Started) \<and> node_of ?t p' = x"
    if t: "x \<in> set xs" "store (mem s) x = Some n'" "task n' \<noteq> 0" for x n'
  proof -
    obtain p' where "live s p' = Some (task n', Started)" "node_of s p' = x"
      using tinv_own [OF inv t(1-3)] by blast
    moreover from this p have "p' \<noteq> p" by auto
    ultimately show ?thesis using nd by blast
  qed
  then have "list_ok xs ?t"
    using inv unfolding tinv_def list_ok_def by (fastforce simp: m_def)
  moreover have "thr_ok xs ?t p'" for p'
    using inv nd [of p'] unfolding tinv_def thr_ok_def by (auto simp: m_def)
  moreover have "uniq ?t"
    using inv p nd unfolding tinv_def uniq_def by auto
  moreover have "pend_ok ?t" "scan_ok xs ?t"
    using inv p np unfolding tinv_def pend_ok_def scan_ok_def by fastforce+
  ultimately show ?thesis using fr by (auto simp: tinv_def)
qed

lemma high_water_not_magic: "w * 4 \<noteq> DELETED_TASK_MAGIC"
proof
  assume "w * 4 = DELETED_TASK_MAGIC"
  then have "unat (w * 4) mod 2 = unat DELETED_TASK_MAGIC mod 2" by simp
  moreover have "unat (w * 4) mod 2 = 0"
    by (subst unat_word_ariths) (simp add: mod_mod_cancel)
  ultimately show False by (simp add: DELETED_TASK_MAGIC_def)
qed

lemma tinv_clean:
  assumes inv: "tinv xs s" and sc: "scan s = None"
  shows "\<exists>m. idle_clean (mem s) = Some m \<and>
    tinv (filter (\<lambda>x. \<not> marked (store (mem s)) x) xs) (s\<lparr>mem := m, scan := Some (taskList m)\<rparr>) \<and>
    (\<forall>a. store m a = None \<longleftrightarrow> store (mem s) a = None \<or> (a \<in> set xs \<and> marked (store (mem s)) a))"
proof -
  let ?ys = "filter (\<lambda>x. \<not> marked (store (mem s)) x) xs"
  have path: "path (store (mem s)) (taskList (mem s)) xs 0" "distinct xs" using inv by (simp_all add: tinv_def list_ok_def)
  obtain m where m: "idle_clean (mem s) = Some m" "path (store m) (taskList m) ?ys 0" "privs m = privs (mem s)"
    "\<And>a. store m a = None \<longleftrightarrow> store (mem s) a = None \<or> (a \<in> set xs \<and> marked (store (mem s)) a)"
    "\<And>a n. store m a = Some n \<Longrightarrow> \<exists>k. store (mem s) a = Some k \<and> same_data n k \<and> (a \<notin> set xs \<longrightarrow> n = k)"
    using clean_loop_path [of "mem s" "[]" xs None] path unfolding idle_clean_def by auto
  let ?t = "s\<lparr>mem := m, scan := Some (taskList m)\<rparr>"
  have nd: "node_of ?t p' = node_of s p'" for p' by (simp add: node_of_def m(3))
  have "list_ok ?ys ?t"
    unfolding list_ok_def nd
  proof (intro conjI ballI allI impI)
    show "path (store (mem ?t)) (taskList (mem ?t)) ?ys 0" "distinct ?ys" using m(2) path by simp_all
  next
    fix x n assume x: "x \<in> set ?ys" "store (mem ?t) x = Some n"
    then obtain k where k: "store (mem s) x = Some k" "same_data n k" using m(5) [of x n] by auto
    then have u: "unused k \<noteq> DELETED_TASK_MAGIC" using x(1) by (auto simp: marked_def)
    { assume "task n = 0"
      then show "unused n = DELETED_TASK_MAGIC"
        using u k inv x(1) by (auto simp: same_data_def tinv_def list_ok_def) }
    { assume "task n \<noteq> 0"
      then show "unused n \<noteq> DELETED_TASK_MAGIC" "\<exists>p. live ?t p = Some (task n, Started) \<and> node_of s p = x"
        using u k x(1) tinv_own [OF inv, of x k] by (auto simp: same_data_def) }
  qed
  moreover have "thr_ok ?ys ?t p'" for p'
  proof -
    have "\<exists>n. store m (node_of s p') = Some n \<and> unused n \<noteq> DELETED_TASK_MAGIC" if l: "live s p' = Some (h, Created)" for h
    proof -
      obtain n where n: "store (mem s) (node_of s p') = Some n" "unused n \<noteq> DELETED_TASK_MAGIC" "node_of s p' \<notin> set xs"
        using tinv_Created [OF inv l] by blast
      then show ?thesis using m(4) [of "node_of s p'"] m(5) [of "node_of s p'"] by fastforce
    qed
    moreover have "node_of s p' \<in> set ?ys \<and> (\<exists>n. store m (node_of s p') = Some n \<and> task n = h)"
      if l: "live s p' = Some (h, Started)" for h
    proof -
      obtain n where n: "store (mem s) (node_of s p') = Some n" "task n = h" "node_of s p' \<in> set xs"
        using tinv_Started [OF inv l] by blast
      moreover have "h \<noteq> 0" using tinv_live [OF inv l] by simp
      ultimately have nm: "\<not> marked (store (mem s)) (node_of s p')"
        using inv by (auto simp: tinv_def list_ok_def marked_def)
      then obtain k where "store m (node_of s p') = Some k" using m(4) [of "node_of s p'"] n(1) by auto
      with m(5) [OF this] n nm show ?thesis by (auto simp: same_data_def)
    qed
    ultimately show ?thesis
      using tinv_live [OF inv, of p'] tinv_Created [OF inv, of p'] unfolding thr_ok_def nd by (auto simp: m(3))
  qed
  moreover have "uniq ?t" "pend_ok ?t" using inv unfolding tinv_def uniq_def pend_ok_def nd by auto
  moreover have "scan_ok ?ys ?t"
    using m(2) by (cases ?ys) (auto simp: scan_ok_def)
  ultimately show ?thesis using m(1,4) by (auto simp: tinv_def)
qed

lemma tinv_scan:
  assumes inv: "tinv xs s" and sc: "scan s = Some a"
  shows "\<exists>m. idle_scan hw a (mem s) = Some m \<and> tinv xs (s\<lparr>mem := m\<rparr>)"
proof (cases "a = 0")
  case True
  then show ?thesis using inv by (simp add: idle_scan_def)
next
  case False
  have path: "path (store (mem s)) (taskList (mem s)) xs 0" "distinct xs" using inv by (simp_all add: tinv_def list_ok_def)
  have a: "a \<in> set xs" using inv sc False by (auto simp: tinv_def scan_ok_def)
  obtain n where n: "store (mem s) a = Some n" using path_dom [OF path(1) a] by blast
  define k where "k = (if task n \<noteq> 0 then n\<lparr>unused := hw (task n) * 4\<rparr> else n)"
  define m where "m = mem s\<lparr>store := (store (mem s))(a \<mapsto> k)\<rparr>"
  have "(store (mem s))(a \<mapsto> n) = store (mem s)" using n by auto
  then have sca: "idle_scan hw a (mem s) = Some m"
    using n False by (cases "task n = 0") (simp_all add: idle_scan_def m_def k_def)
  have k: "task k = task n" "nxt k = nxt n" "task n \<noteq> 0 \<Longrightarrow> unused k \<noteq> DELETED_TASK_MAGIC" "task n = 0 \<Longrightarrow> k = n"
    by (simp_all add: k_def high_water_not_magic)
  let ?t = "s\<lparr>mem := m\<rparr>"
  have nd: "node_of ?t p' = node_of s p'" for p' by (simp add: node_of_def m_def)
  have "list_ok xs ?t"
    using inv k n path_data [of "store (mem s)" a n k, OF n k(2)] unfolding tinv_def list_ok_def nd
    by (auto simp: m_def)
  moreover have "thr_ok xs ?t p'" for p'
  proof -
    have "thr_ok xs s p'" using inv by (simp add: tinv_def)
    then show ?thesis using a k n unfolding thr_ok_def nd by (auto simp: m_def)
  qed
  moreover have "uniq ?t" "pend_ok ?t" "scan_ok xs ?t"
    using inv unfolding tinv_def uniq_def pend_ok_def scan_ok_def nd by auto
  ultimately show ?thesis using sca by (auto simp: tinv_def)
qed

lemma swap_updates: "s\<lparr>scan := a, mem := m\<rparr> = s\<lparr>mem := m, scan := a\<rparr>" for s :: tsys
  by (cases s) simp

lemma tinv_start_pass:
  assumes "tinv xs s" "scan s = None"
  shows "\<exists>m b ys. idle_start hw (mem s) = Some (m, b) \<and> tinv ys (s\<lparr>mem := m, scan := Some b\<rparr>)"
proof -
  obtain m ys where m: "idle_clean (mem s) = Some m" "tinv ys (s\<lparr>mem := m, scan := Some (taskList m)\<rparr>)"
    using tinv_clean [OF assms] by blast
  then show ?thesis using tinv_scan [OF m(2), of "taskList m" hw] by (auto simp: idle_start_def Let_def swap_updates)
qed

lemma tinv_next:
  assumes inv: "tinv xs s" and sc: "scan s = Some a" "a \<noteq> 0"
  shows "\<exists>m b. idle_next hw a (mem s) = Some (m, b) \<and> tinv xs (s\<lparr>mem := m, scan := Some b\<rparr>)"
proof -
  have path: "path (store (mem s)) (taskList (mem s)) xs 0" using inv by (simp add: tinv_def list_ok_def)
  have a: "a \<in> set xs" using inv sc by (auto simp: tinv_def scan_ok_def)
  obtain n where n: "store (mem s) a = Some n" using path_dom [OF path a] by blast
  obtain ys zs where xs: "xs = ys @ a # zs" using a by (auto simp: in_set_conv_decomp)
  then have "path (store (mem s)) (nxt n) zs 0" using path n by (auto simp: path_append)
  then have "nxt n = 0 \<or> nxt n \<in> set xs" by (cases zs) (auto simp: xs)
  then have "tinv xs (s\<lparr>scan := Some (nxt n)\<rparr>)"
    using inv unfolding tinv_def list_ok_def thr_ok_def uniq_def pend_ok_def scan_ok_def node_of_def by simp
  then show ?thesis using tinv_scan [of xs "s\<lparr>scan := Some (nxt n)\<rparr>" "nxt n" hw] n by (auto simp: idle_next_def Let_def swap_updates)
qed

lemma tinv_step:
  assumes "tstep True s r" "tinv xs s"
  shows "\<exists>t ys. r = Some t \<and> tinv ys t"
  using assms
proof (cases rule: tstep.cases)
  case (create p pc q qc e a sz m h)
  then show ?thesis using tinv_create [OF assms(2)] by blast
next
  case (finish p h nm)
  then show ?thesis using tinv_finish [OF assms(2), of p h nm] by fastforce
next
  case (start p h)
  then show ?thesis using tinv_start [OF assms(2), of p h] by fastforce
next
  case (mark p h)
  then show ?thesis using tinv_mark [OF assms(2), of p h] by fastforce
next
  case (leave p h)
  then show ?thesis using tinv_leave [OF assms(2), of p h] by fastforce
next
  case (clean hw)
  then show ?thesis using tinv_start_pass [OF assms(2), of hw] by fastforce
next
  case (scan a hw)
  then show ?thesis using tinv_next [OF assms(2), of a hw] by fastforce
next
  case scanned
  then show ?thesis using assms(2) by (intro exI [of _ "s\<lparr>scan := None\<rparr>"] exI [of _ xs])
    (simp add: tinv_defs node_of_def)
qed

lemma treach_tinv: "treach True r \<Longrightarrow> \<exists>s xs. r = Some s \<and> tinv xs s"
proof (induction "True" r rule: treach.induct)
  case init
  then show ?case using tinv_init by blast
next
  case (step s r)
  then show ?case using tinv_step by blast
qed

subsection \<open>Properties\<close>

text \<open>
  C37: In every interleaving in which no thread ends before the call that created it has
  returned, no operation follows a null or dangling pointer, and the nodes of all
  running threads are in the list, which has no cycle.
\<close>

theorem tasks_memory_safe:
  assumes "treach True r"
  shows "\<exists>s xs. r = Some s \<and> path (store (mem s)) (taskList (mem s)) xs 0 \<and> distinct xs \<and>
    (\<forall>p h. live s p = Some (h, Started) \<longrightarrow> node_of s p \<in> set xs)"
proof -
  obtain s xs where s: "r = Some s" and inv: "tinv xs s" using treach_tinv [OF assms] by blast
  have "path (store (mem s)) (taskList (mem s)) xs 0" "distinct xs" using inv by (simp_all add: tinv_def list_ok_def)
  then show ?thesis using tinv_Started [OF inv] s by blast
qed

text \<open>
  C38: The cleaning pass of the idle task frees exactly the nodes of the list that are marked: it frees every one
  of them and no other, and the list it leaves has the other nodes in their old order, which are the
  nodes of the running threads.
\<close>

theorem idle_clean_exact:
  assumes "treach True (Some s)" "scan s = None"
  shows "\<exists>m xs. path (store (mem s)) (taskList (mem s)) xs 0 \<and> idle_clean (mem s) = Some m \<and>
    (\<forall>a. store m a = None \<longleftrightarrow> store (mem s) a = None \<or> a \<in> set xs \<and> marked (store (mem s)) a) \<and>
    path (store m) (taskList m) (filter (\<lambda>x. \<not> marked (store (mem s)) x) xs) 0 \<and>
    set (filter (\<lambda>x. \<not> marked (store (mem s)) x) xs) = {node_of s p | p h. live s p = Some (h, Started)}"
proof -
  obtain xs where inv: "tinv xs s" using treach_tinv [OF assms(1)] by blast
  let ?ys = "filter (\<lambda>x. \<not> marked (store (mem s)) x) xs"
  obtain m where m: "idle_clean (mem s) = Some m" "tinv ?ys (s\<lparr>mem := m, scan := Some (taskList m)\<rparr>)"
    "\<forall>a. store m a = None \<longleftrightarrow> store (mem s) a = None \<or> (a \<in> set xs \<and> marked (store (mem s)) a)"
    using tinv_clean [OF inv assms(2)] by blast
  let ?t = "s\<lparr>mem := m, scan := Some (taskList m)\<rparr>"
  have pv: "privs m = privs (mem s)"
    using m(1) clean_loop_path [of "mem s" "[]" xs None] inv by (auto simp: idle_clean_def tinv_def list_ok_def)
  then have nd: "node_of ?t p = node_of s p" for p by (simp add: node_of_def)
  have "set ?ys = {node_of s p | p h. live s p = Some (h, Started)}"
  proof (intro set_eqI iffI)
    fix x assume x: "x \<in> set ?ys"
    then obtain n where n: "store (mem s) x = Some n"
      using inv by (auto simp: tinv_def list_ok_def dest: path_dom)
    then have "task n \<noteq> 0" using x inv by (auto simp: tinv_def list_ok_def marked_def)
    then show "x \<in> {node_of s p | p h. live s p = Some (h, Started)}"
      using tinv_own [OF inv _ n] x by auto
  next
    fix x assume "x \<in> {node_of s p | p h. live s p = Some (h, Started)}"
    then obtain p h where "x = node_of s p" "live ?t p = Some (h, Started)" by auto
    then show "x \<in> set ?ys" using tinv_Started [OF m(2), of p h] nd by simp
  qed
  moreover have "path (store m) (taskList m) ?ys 0" using m(2) by (simp add: tinv_def list_ok_def)
  moreover have "path (store (mem s)) (taskList (mem s)) xs 0" using inv by (simp add: tinv_def list_ok_def)
  ultimately show ?thesis using m(1,3) by blast
qed

text \<open>A run: thread 1 with node 2 and handle 5 is created, starts and ends.\<close>

definition demo_node :: task_list where
  "demo_node = \<lparr>task = 77, name = 78, unused = 79, nxt = 80\<rparr>"

definition demo_created :: tsys where
  "demo_created = \<lparr>mem = \<lparr>store = [2 \<mapsto> demo_node\<lparr>name := 0, unused := 1024\<rparr>],
     privs = [1 \<mapsto> \<lparr>entry = 9, arg = 8, node = 2\<rparr>], taskList = 0\<rparr>,
     live = [1 \<mapsto> (5, Created)], pend = [1 \<mapsto> 5], scan = None\<rparr>"

definition demo_started :: tsys where
  "demo_started = \<lparr>mem = \<lparr>store = [2 \<mapsto> \<lparr>task = 5, name = 0, unused = 1024, nxt = 0\<rparr>],
     privs = [1 \<mapsto> \<lparr>entry = 9, arg = 8, node = 2\<rparr>], taskList = 2\<rparr>,
     live = [1 \<mapsto> (5, Started)], pend = [1 \<mapsto> 5], scan = None\<rparr>"

definition demo_marked :: "(addr \<Rightarrow> addr option) \<Rightarrow> tsys" where
  "demo_marked pnd = \<lparr>mem = \<lparr>store = [2 \<mapsto> \<lparr>task = 0, name = 0, unused = DELETED_TASK_MAGIC, nxt = 0\<rparr>],
     privs = [1 \<mapsto> \<lparr>entry = 9, arg = 8, node = 2\<rparr>], taskList = 2\<rparr>,
     live = [1 \<mapsto> (5, Marked)], pend = pnd, scan = None\<rparr>"

lemma reach_created: "treach sync (Some demo_created)"
proof -
  have "tstep sync tsys_init (Some demo_created)"
    using tstep.create [of 1 "\<lparr>entry = 0, arg = 0, node = 0\<rparr>" 2 demo_node 9 8 1024 tsys_init "mem demo_created" 5 sync]
    by (simp add: create_prepare_def tsys_init_def demo_created_def DELETED_TASK_MAGIC_def)
  then show ?thesis by (rule treach.step [OF treach.init])
qed

lemma reach_started: "treach sync (Some demo_started)"
proof -
  have "tstep sync demo_created (Some demo_started)"
    using tstep.start [of demo_created 1 5 sync]
    by (simp add: thread_begin_def add_thread_to_task_list_def demo_created_def demo_started_def demo_node_def Let_def)
  then show ?thesis by (rule treach.step [OF reach_created])
qed

lemma find_demo: "find_task [2 \<mapsto> n] h 2 = (if task n = h then Some 2 else find_task [2 \<mapsto> n] h (nxt n))"
  by (subst find_task.simps) simp

lemma del_demo: "del_thread_from_task_list 5 \<lparr>store = [2 \<mapsto> \<lparr>task = 5, name = c, unused = u, nxt = 0\<rparr>], privs = p, taskList = 2\<rparr> =
  Some \<lparr>store = [2 \<mapsto> \<lparr>task = 0, name = 0, unused = DELETED_TASK_MAGIC, nxt = 0\<rparr>], privs = p, taskList = 2\<rparr>"
  by (simp add: del_thread_from_task_list_def find_demo)

lemma clean_demo: "idle_clean (mem (demo_marked pnd)) = Some (mem (demo_marked pnd)\<lparr>store := Map.empty, taskList := 0\<rparr>)"
  unfolding idle_clean_def demo_marked_def
  by (subst clean_loop.simps, simp add: get_link_def set_link_def free_node_def, subst clean_loop.simps, simp add: get_link_def)

lemma reach_marked: "treach True (Some (demo_marked (\<lambda>_. None)))"
proof -
  let ?s = "demo_started\<lparr>mem := mem demo_started\<lparr>store := [2 \<mapsto> \<lparr>task = 5, name = 3, unused = 1024, nxt = 0\<rparr>]\<rparr>,
    pend := \<lambda>_. None\<rparr>"
  have "tstep True demo_started (Some ?s)"
    using tstep.finish [of demo_started 1 5 True "\<lambda>_. 3"]
    by (simp add: create_finish_def demo_started_def)
  moreover have "tstep True ?s (Some (demo_marked (\<lambda>_. None)))"
    using tstep.mark [of ?s 1 5 True] by (simp add: demo_started_def demo_marked_def del_demo)
  ultimately show ?thesis using reach_started treach.step by blast
qed

theorem tasks_memory_safe_witness:
  "treach True (Some (demo_marked (\<lambda>_. None))) \<and>
   (\<exists>s xs. Some (demo_marked (\<lambda>_. None)) = Some s \<and> path (store (mem s)) (taskList (mem s)) xs 0)"
  using tasks_memory_safe [OF reach_marked] reach_marked by blast

text \<open>While its node waits for the idle task, thread 3 with node 4 and handle 6 starts.\<close>

definition demo_two :: tsys where
  "demo_two = \<lparr>mem = \<lparr>store = [2 \<mapsto> \<lparr>task = 0, name = 0, unused = DELETED_TASK_MAGIC, nxt = 0\<rparr>,
       4 \<mapsto> \<lparr>task = 6, name = 0, unused = 1024, nxt = 2\<rparr>],
     privs = [1 \<mapsto> \<lparr>entry = 9, arg = 8, node = 2\<rparr>, 3 \<mapsto> \<lparr>entry = 9, arg = 8, node = 4\<rparr>], taskList = 4\<rparr>,
     live = [1 \<mapsto> (5, Marked), 3 \<mapsto> (6, Started)], pend = [3 \<mapsto> 6], scan = None\<rparr>"

lemma reach_two: "treach True (Some demo_two)"
proof -
  let ?m = "demo_marked (\<lambda>_. None)"
  let ?s = "?m\<lparr>mem := mem ?m\<lparr>store := (store (mem ?m))(4 \<mapsto> demo_node\<lparr>name := 0, unused := 1024\<rparr>),
      privs := (privs (mem ?m))(3 \<mapsto> \<lparr>entry = 9, arg = 8, node = 4\<rparr>)\<rparr>,
    live := (live ?m)(3 \<mapsto> (6, Created)), pend := [3 \<mapsto> 6]\<rparr>"
  have "tstep True ?m (Some ?s)"
    using tstep.create [of 3 "\<lparr>entry = 0, arg = 0, node = 0\<rparr>" 4 demo_node 9 8 1024 ?m "mem ?s" 6 True]
    by (simp add: create_prepare_def demo_marked_def DELETED_TASK_MAGIC_def)
  moreover have "tstep True ?s (Some demo_two)"
    using tstep.start [of ?s 3 6 True]
    by (simp add: thread_begin_def add_thread_to_task_list_def demo_marked_def demo_two_def demo_node_def Let_def)
  ultimately show ?thesis using reach_marked treach.step by blast
qed

theorem idle_clean_exact_witness:
  "\<exists>m. idle_clean (mem demo_two) = Some m \<and> store m 2 = None \<and> store m 4 \<noteq> None \<and> path (store m) (taskList m) [4] 0"
proof -
  let ?st = "store (mem demo_two)"
  have "scan demo_two = None" by (simp add: demo_two_def)
  from idle_clean_exact [OF reach_two this] obtain m xs where m: "path ?st 4 xs 0"
    "idle_clean (mem demo_two) = Some m" "\<forall>a. store m a = None \<longleftrightarrow> ?st a = None \<or> a \<in> set xs \<and> marked ?st a"
    "path (store m) (taskList m) (filter (\<lambda>x. \<not> marked ?st x) xs) 0"
    by (auto simp: demo_two_def)
  have "path ?st 4 [4, 2] 0" by (simp add: demo_two_def)
  then have xs: "xs = [4, 2]" using m(1) path_unique by blast
  have k: "marked ?st 2" "\<not> marked ?st 4" "?st 4 \<noteq> None" by (simp_all add: marked_def demo_two_def DELETED_TASK_MAGIC_def)
  have "filter (\<lambda>x. \<not> marked ?st x) xs = [4]" using k by (simp add: xs)
  then show ?thesis using m(2,3,4) k xs by auto
qed

text \<open>
  When the new thread ends before \<open>os_thread_create\<close> has written to its node, the idle
  task can free the node first: the write then goes to freed memory.
\<close>

theorem create_races_with_exit: "treach False None"
proof -
  let ?p = "[1 \<mapsto> 5]"
  have "tstep False demo_started (Some (demo_marked ?p))"
    using tstep.mark [of demo_started 1 5 False] by (simp add: demo_started_def demo_marked_def del_demo)
  then have 1: "treach False (Some (demo_marked ?p))" by (rule treach.step [OF reach_started])
  let ?c = "demo_marked ?p\<lparr>mem := mem (demo_marked ?p)\<lparr>store := Map.empty, taskList := 0\<rparr>, scan := Some 0\<rparr>"
  have "tstep False (demo_marked ?p) (Some ?c)"
    using tstep.clean [of "demo_marked ?p" False "\<lambda>_. 0"] unfolding idle_start_def clean_demo
    by (simp add: demo_marked_def idle_scan_def Let_def)
  then have 2: "treach False (Some ?c)" by (rule treach.step [OF 1])
  have "tstep False ?c None"
    using tstep.finish [of ?c 1 5 False "\<lambda>_. 3"] by (simp add: create_finish_def demo_marked_def)
  then show ?thesis by (rule treach.step [OF 2])
qed

text \<open>
  The generated names of the first 100 unnamed threads are \<open>thread.00\<close> to \<open>thread.99\<close>,
  with decimal digits; names stay different up to the 2560th, but no longer with digits.
\<close>

theorem auto_name_digits:
  assumes "cnt < 100"
  shows "\<exists>a b. auto_name cnt = [0x74, 0x68, 0x72, 0x65, 0x61, 0x64, 0x2e, 0x30 + a, 0x30 + b, 0] \<and>
    unat a < 10 \<and> unat b < 10 \<and> unat cnt = 10 * unat a + unat b \<and> auto_name 100 ! 7 = 0x3a"
proof -
  have c: "unat cnt < 100" using assms by (simp add: word_less_nat_alt)
  have a: "unat (ucast (cnt div 10) :: u8) = unat cnt div 10" using c
    by (simp add: unsigned_ucast_eq unat_div take_bit_nat_eq_self)
  have b: "unat (ucast (cnt mod 10) :: u8) = unat cnt mod 10" using c
    by (simp add: unsigned_ucast_eq unat_mod take_bit_nat_eq_self)
  have d: "unat cnt div 10 < 10" "unat cnt mod 10 < 10" "unat cnt = 10 * (unat cnt div 10) + unat cnt mod 10"
    using c by simp_all
  have "(ucast ((100 :: u32) div 10) :: u8) = 10" by (simp add: word_unat_eq_iff unat_div unsigned_ucast_eq)
  then have "auto_name 100 ! 7 = 0x3a" by (simp add: auto_name_def)
  then show ?thesis
    using a b d by (intro exI [of _ "ucast (cnt div 10)"] exI [of _ "ucast (cnt mod 10)"]) (simp add: auto_name_def)
qed

theorem auto_name_digits_witness: "unat (42 :: u32) = 10 * 4 + 2 \<and> (\<exists>a. auto_name 42 ! 7 = 0x30 + a \<and> unat a < 10)"
  using auto_name_digits [of 42] by (auto simp: word_less_nat_alt)

text \<open>The priority of a new thread is one that the kernel has, unless a negative one was asked for.\<close>

lemma create_priority_range:
  "0 \<le> p \<Longrightarrow> 2 \<le> mx \<Longrightarrow> 0 < create_priority mx p \<and> create_priority mx p < mx"
  by (auto simp: create_priority_def)

lemma create_finish_prepared:
  assumes "create_prepare p pc q qc e a sz s = Some m"
  shows "\<exists>n. create_finish nm p h m = Some (m\<lparr>store := (store m)(q \<mapsto> n)\<rparr>) \<and> task n = h \<and> name n = nm h \<and> unused n = sz"
  using assms by (auto simp: create_prepare_def create_finish_def split: if_splits)

text \<open>
  When the kernel has no memory for a task, \<open>os_thread_create\<close> still returns success,
  with a handle that it never set, and its two allocations stay behind.
\<close>

theorem create_hides_failure:
  assumes "p \<noteq> 0" "q \<noteq> 0" "\<And>n sz a pr. xTaskCreate n sz a pr = None"
  shows "\<exists>c t. os_thread_create xTaskCreate tn mx cnt nm priority stack_size e a p pc q qc lt s = Some (0, lt, c, t) \<and>
    privs t p \<noteq> None \<and> (\<exists>n. store t q = Some n \<and> task n = lt)"
proof -
  obtain m where m: "create_prepare p pc q qc e a stack_size s = Some m" "privs m p \<noteq> None"
    using assms(1,2) by (auto simp: create_prepare_def)
  from create_finish_prepared [OF m(1)] obtain n where
    "create_finish tn p lt m = Some (m\<lparr>store := (store m)(q \<mapsto> n)\<rparr>)" "task n = lt" by blast
  then show ?thesis
    using m assms(3) by (cases nm) (simp_all add: os_thread_create_def os_thread_create_helper_def)
qed

theorem create_hides_failure_witness:
  "\<exists>c t. os_thread_create (\<lambda>_ _ _ _. None) (\<lambda>_. 0) 8 0 None 0 0 9 8 1 \<lparr>entry = 0, arg = 0, node = 0\<rparr> 2 demo_node 4242
     (mem tsys_init) = Some (0, 4242, c, t)"
  using create_hides_failure [of 1 2 "\<lambda>_ _ _ _. None" "\<lambda>_. 0" 8 0 None 0 0 9 8 "\<lparr>entry = 0, arg = 0, node = 0\<rparr>"
      demo_node 4242 "mem tsys_init"] by auto

text \<open>
  When the kernel creates the task, it is asked for a stack of the default size if
  the caller gave none and for a priority that it has; the node belongs to the handle.
\<close>

theorem create_success:
  assumes "p \<noteq> 0" "q \<noteq> 0" "0 \<le> priority" "2 \<le> mx"
    "\<And>n sz a pr. 0 < pr \<Longrightarrow> pr < mx \<Longrightarrow> sz \<noteq> 0 \<Longrightarrow> xTaskCreate n sz a pr = Some h" "stack_size = 0 \<or> 4 \<le> stack_size"
  shows "\<exists>c t n. os_thread_create xTaskCreate tn mx cnt nm priority stack_size e a p pc q qc lt s = Some (0, h, c, t) \<and>
    store t q = Some n \<and> task n = h \<and> name n = tn h \<and> (nm = None \<longleftrightarrow> c = cnt + 1)"
proof -
  obtain m where m: "create_prepare p pc q qc e a stack_size s = Some m"
    using assms(1,2) by (auto simp: create_prepare_def)
  have "create_stack_size stack_size div 4 \<noteq> 0"
  proof -
    have "4 \<le> unat (create_stack_size stack_size)" using assms(6)
      by (auto simp: create_stack_size_def word_le_nat_alt)
    then have "unat (create_stack_size stack_size div 4) \<noteq> 0" by (simp add: unat_div div_eq_0_iff)
    then show ?thesis by auto
  qed
  then have "os_thread_create_helper xTaskCreate lt n' (create_priority mx priority) (create_stack_size stack_size) p = (0, h)" for n'
    using assms(5) create_priority_range [OF assms(3,4)] by (simp add: os_thread_create_helper_def)
  moreover from create_finish_prepared [OF m] obtain n where
    "create_finish tn p h m = Some (m\<lparr>store := (store m)(q \<mapsto> n)\<rparr>)" "task n = h" "name n = tn h" by blast
  ultimately show ?thesis
    using m by (cases nm) (simp_all add: os_thread_create_def)
qed

theorem create_success_witness:
  "\<exists>c t n. os_thread_create (\<lambda>_ _ _ _. Some 5) (\<lambda>_. 3) 8 7 None 0 0 9 8 1 \<lparr>entry = 0, arg = 0, node = 0\<rparr> 2 demo_node 4242
     (mem tsys_init) = Some (0, 5, c, t) \<and> store t 2 = Some n \<and> task n = 5 \<and> c = 8"
  using create_success [of 1 2 0 8 "\<lambda>_ _ _ _. Some 5" 5 0 "\<lambda>_. 3" 7 None 9 8 "\<lparr>entry = 0, arg = 0, node = 0\<rparr>"
      demo_node 4242 "mem tsys_init"] by auto

end
