(* ===== verification/OsHeap.thy ===== *)
theory OsHeap
  imports OsTime
begin

section \<open>The heap of the bare-metal C library (os/os.c)\<close>

text \<open>
  \<open>_sbrk_r\<close> hands out memory from one or two regions that the linker lays out, and
  \<open>os_get_free_heap\<close> tells what is left. Addresses are integers, \<open>0\<close> is the null
  pointer; \<open>None\<close> is \<open>diewith(BLINK_DIE_OUTOFMEM)\<close>. The second region is absent when
  its bounds are equal.
\<close>

record layout =
  heap_start :: int
  heap_limit :: int
  heap2_start :: int
  heap2_limit :: int

record brk =
  heap_end :: int
  heap2_end :: int

definition brk_init :: brk where "brk_init = \<lparr>heap_end = 0, heap2_end = 0\<rparr>"

definition sbrk_setup :: "layout \<Rightarrow> brk \<Rightarrow> brk" where
  "sbrk_setup l b =
     (let b = (if heap_end b = 0 then b\<lparr>heap_end := heap_start l\<rparr> else b)
      in if heap2_end b = 0 then b\<lparr>heap2_end := heap2_start l\<rparr> else b)"

definition sbrk_r :: "layout \<Rightarrow> int \<Rightarrow> brk \<Rightarrow> (brk \<times> int) option" where
  "sbrk_r l incr b =
     (let b = sbrk_setup l b; prev_heap_end = heap_end b in
      if heap_end b + incr > heap_limit l
      then (if heap2_start l \<noteq> heap2_limit l \<and> heap2_end b + incr \<le> heap2_limit l
            then Some (b\<lparr>heap2_end := heap2_end b + incr\<rparr>, heap2_end b)
            else None)
      else Some (b\<lparr>heap_end := heap_end b + incr\<rparr>, prev_heap_end))"

definition os_get_free_heap :: "layout \<Rightarrow> brk \<Rightarrow> u32" where
  "os_get_free_heap l b =
     word_of_int (heap_limit l - heap_end b) + word_of_int (heap2_limit l - heap2_end b)"

text \<open>A sequence of calls, with the blocks they return.\<close>

fun sbrk_run :: "layout \<Rightarrow> int list \<Rightarrow> brk \<Rightarrow> (brk \<times> (int \<times> int) list) option" where
  "sbrk_run l [] b = Some (b, [])"
| "sbrk_run l (n # ns) b =
     do { (b, a) \<leftarrow> sbrk_r l n b; (b, bs) \<leftarrow> sbrk_run l ns b; Some (b, (a, n) # bs) }"

text \<open>
  The guards of \<open>malloc\<close>: the scheduler is suspended around the real functions when
  it was started. \<open>n\<close> counts nested suspensions.
\<close>

definition malloc_lock :: "bool \<Rightarrow> nat \<Rightarrow> nat" where
  "malloc_lock started n = (if started then n + 1 else n)"

definition malloc_unlock :: "bool \<Rightarrow> nat \<Rightarrow> nat" where
  "malloc_unlock started n = (if started then n - 1 else n)"

definition wrap_malloc_r :: "bool \<Rightarrow> (nat \<Rightarrow> nat \<Rightarrow> 'h \<Rightarrow> 'h \<times> nat) \<Rightarrow> nat \<Rightarrow> nat \<times> 'h \<Rightarrow> (nat \<times> 'h) \<times> nat" where
  "wrap_malloc_r started real_malloc sz s =
     (let n = malloc_lock started (fst s); (h, result) = real_malloc n sz (snd s)
      in ((malloc_unlock started n, h), result))"

definition wrap_free_r :: "bool \<Rightarrow> (nat \<Rightarrow> nat \<Rightarrow> 'h \<Rightarrow> 'h) \<Rightarrow> nat \<Rightarrow> nat \<times> 'h \<Rightarrow> nat \<times> 'h" where
  "wrap_free_r started real_free a s =
     (let n = malloc_lock started (fst s); h = real_free n a (snd s) in (malloc_unlock started n, h))"

subsection \<open>Disjoint blocks\<close>

definition layout_ok :: "layout \<Rightarrow> bool" where
  "layout_ok l \<longleftrightarrow> 0 < heap_start l \<and> heap_start l \<le> heap_limit l \<and> 0 < heap2_start l \<and>
     heap2_start l \<le> heap2_limit l \<and> (heap_limit l \<le> heap2_start l \<or> heap2_limit l \<le> heap_start l)"

definition brk_ok :: "layout \<Rightarrow> brk \<Rightarrow> bool" where
  "brk_ok l b \<longleftrightarrow> (let b = sbrk_setup l b in
     heap_start l \<le> heap_end b \<and> heap_end b \<le> heap_limit l \<and>
     heap2_start l \<le> heap2_end b \<and> heap2_end b \<le> heap2_limit l)"

text \<open>Addresses that have not been handed out.\<close>

definition fresh :: "layout \<Rightarrow> brk \<Rightarrow> int set" where
  "fresh l b = (let b = sbrk_setup l b in {heap_end b..<heap_limit l} \<union> {heap2_end b..<heap2_limit l})"

definition block :: "int \<times> int \<Rightarrow> int set" where
  "block p = {fst p..<fst p + snd p}"

lemma setup_simps:
  "layout_ok l \<Longrightarrow> sbrk_setup l (sbrk_setup l b) = sbrk_setup l b"
  by (auto simp: sbrk_setup_def layout_ok_def Let_def)

lemma brk_ok_init: "layout_ok l \<Longrightarrow> brk_ok l brk_init"
  by (auto simp: brk_ok_def brk_init_def sbrk_setup_def layout_ok_def Let_def)

lemma setup_id: "0 < heap_end b \<Longrightarrow> 0 < heap2_end b \<Longrightarrow> sbrk_setup l b = b"
  by (simp add: sbrk_setup_def)

lemma brk_ok_pos: "layout_ok l \<Longrightarrow> brk_ok l b \<Longrightarrow> 0 < heap_end (sbrk_setup l b) \<and> 0 < heap2_end (sbrk_setup l b)"
  by (auto simp: brk_ok_def layout_ok_def Let_def)

lemma sbrk_step:
  assumes l: "layout_ok l" and b: "brk_ok l b" and n: "0 \<le> n" and s: "sbrk_r l n b = Some (c, a)"
  shows "brk_ok l c \<and> block (a, n) \<subseteq> fresh l b \<and> block (a, n) \<inter> fresh l c = {} \<and> fresh l c \<subseteq> fresh l b"
proof -
  define d where "d = sbrk_setup l b"
  have d: "heap_start l \<le> heap_end d" "heap_end d \<le> heap_limit l" "heap2_start l \<le> heap2_end d"
    "heap2_end d \<le> heap2_limit l" "0 < heap_end d" "0 < heap2_end d"
    using b brk_ok_pos [OF l b] by (simp_all add: brk_ok_def d_def Let_def)
  have f: "fresh l b = {heap_end d..<heap_limit l} \<union> {heap2_end d..<heap2_limit l}"
    by (simp add: fresh_def d_def Let_def)
  show ?thesis
  proof (cases "heap_end d + n > heap_limit l")
    case True
    then have c: "c = d\<lparr>heap2_end := heap2_end d + n\<rparr>" "a = heap2_end d" "heap2_end d + n \<le> heap2_limit l"
      using s by (auto simp: sbrk_r_def d_def Let_def split: if_splits)
    have "sbrk_setup l c = c" using c d n by (intro setup_id) simp_all
    then show ?thesis
      using c d n l unfolding f by (auto simp: fresh_def brk_ok_def block_def layout_ok_def)
  next
    case False
    then have c: "c = d\<lparr>heap_end := heap_end d + n\<rparr>" "a = heap_end d"
      using s by (auto simp: sbrk_r_def d_def Let_def split: if_splits)
    have "sbrk_setup l c = c" using c d n by (intro setup_id) simp_all
    then show ?thesis
      using c d n l False unfolding f by (auto simp: fresh_def brk_ok_def block_def layout_ok_def)
  qed
qed

lemma sbrk_run_step:
  assumes "layout_ok l" "brk_ok l b" "\<forall>n \<in> set ns. 0 \<le> n" "sbrk_run l ns b = Some (c, bs)"
  shows "brk_ok l c \<and> (\<forall>x \<in> set bs. block x \<subseteq> fresh l b) \<and> map snd bs = ns \<and>
    sorted_wrt (\<lambda>x y. block x \<inter> block y = {}) bs"
  using assms(2-4)
proof (induction ns arbitrary: b bs)
  case Nil
  then show ?case by simp
next
  case (Cons n ns)
  obtain d a cs where s: "sbrk_r l n b = Some (d, a)" "sbrk_run l ns d = Some (c, cs)" "bs = (a, n) # cs"
    using Cons.prems(3) by (auto split: bind_splits prod.splits)
  have st: "brk_ok l d" "block (a, n) \<subseteq> fresh l b" "block (a, n) \<inter> fresh l d = {}" "fresh l d \<subseteq> fresh l b"
    using sbrk_step [OF assms(1) Cons.prems(1) _ s(1)] Cons.prems(2) by auto
  have r: "brk_ok l c" "\<forall>x \<in> set cs. block x \<subseteq> fresh l d" "map snd cs = ns"
    "sorted_wrt (\<lambda>x y. block x \<inter> block y = {}) cs"
    using Cons.IH [OF st(1) _ s(2)] Cons.prems(2) by auto
  then have "\<forall>x \<in> set cs. block (a, n) \<inter> block x = {}" using st(3) by blast
  moreover have "\<forall>x \<in> set cs. block x \<subseteq> fresh l b" using r(2) st(4) by blast
  ultimately show ?case using r st(2) s(3) by auto
qed

subsection \<open>Properties\<close>

definition demo_layout :: layout where
  "demo_layout = \<lparr>heap_start = 100, heap_limit = 200, heap2_start = 300, heap2_limit = 400\<rparr>"

lemma demo_layout_ok: "layout_ok demo_layout"
  by (simp add: layout_ok_def demo_layout_def)

text \<open>
  The blocks handed out by any sequence of requests lie in the two regions and do
  not overlap.
\<close>

theorem sbrk_blocks_disjoint:
  assumes "layout_ok l" "\<forall>n \<in> set ns. 0 \<le> n" "sbrk_run l ns brk_init = Some (c, bs)"
  shows "map snd bs = ns \<and> sorted_wrt (\<lambda>x y. block x \<inter> block y = {}) bs \<and>
    (\<forall>x \<in> set bs. block x \<subseteq> {heap_start l..<heap_limit l} \<union> {heap2_start l..<heap2_limit l})"
proof -
  have "fresh l brk_init = {heap_start l..<heap_limit l} \<union> {heap2_start l..<heap2_limit l}"
    using assms(1) by (auto simp: fresh_def sbrk_setup_def brk_init_def layout_ok_def Let_def)
  then show ?thesis
    using sbrk_run_step [OF assms(1) brk_ok_init [OF assms(1)] assms(2,3)] by simp
qed

theorem sbrk_blocks_disjoint_witness:
  "\<exists>c. sbrk_run demo_layout [80, 50, 20] brk_init = Some (c, [(100, 80), (300, 50), (180, 20)]) \<and>
     sorted_wrt (\<lambda>x y. block x \<inter> block y = {}) [(100, 80), (300, 50), (180, 20)]"
proof -
  have "\<exists>c. sbrk_run demo_layout [80, 50, 20] brk_init = Some (c, [(100, 80), (300, 50), (180, 20)])"
    by (simp add: sbrk_r_def sbrk_setup_def demo_layout_def brk_init_def Let_def)
  then obtain c where c: "sbrk_run demo_layout [80, 50, 20] brk_init = Some (c, [(100, 80), (300, 50), (180, 20)])" ..
  then show ?thesis using sbrk_blocks_disjoint [OF demo_layout_ok _ c] by auto
qed

text \<open>
  A negative request always shrinks the first region, also when the last block came
  from the second: here the block \<open>[130, 170)\<close> overlaps the live block \<open>[100, 180)\<close>.
\<close>

theorem sbrk_shrink_overlaps:
  "\<exists>c. sbrk_run demo_layout [80, 50, - 50, 40] brk_init =
     Some (c, [(100, 80), (300, 50), (180, - 50), (130, 40)]) \<and> block (100, 80) \<inter> block (130, 40) \<noteq> {}"
  by (simp add: sbrk_r_def sbrk_setup_def demo_layout_def brk_init_def block_def Let_def)

text \<open>
  After the first allocation the free heap is the size of both regions less what was
  handed out; before it, the end addresses themselves are counted.
\<close>

theorem free_heap_exact:
  assumes l: "layout_ok l" "heap2_limit l < 2 ^ 31" "heap_limit l < 2 ^ 31" and ns: "ns \<noteq> []"
    "\<forall>n \<in> set ns. 0 \<le> n" "sbrk_run l ns brk_init = Some (c, bs)"
  shows "uint (os_get_free_heap l c) =
      (heap_limit l - heap_start l) + (heap2_limit l - heap2_start l) - sum_list ns \<and>
    os_get_free_heap l brk_init = word_of_int (heap_limit l + heap2_limit l)"
proof -
  have step: "heap_end c + heap2_end c = heap_end (sbrk_setup l b) + heap2_end (sbrk_setup l b) + n"
    if "sbrk_r l n b = Some (c, a)" for n b c a
    using that by (auto simp: sbrk_r_def Let_def split: if_splits)
  have run: "heap_end (sbrk_setup l c) + heap2_end (sbrk_setup l c) =
      heap_end (sbrk_setup l b) + heap2_end (sbrk_setup l b) + sum_list ns \<and> brk_ok l c \<and>
      (ns \<noteq> [] \<longrightarrow> sbrk_setup l c = c)"
    if "brk_ok l b" "\<forall>n \<in> set ns. 0 \<le> n" "sbrk_run l ns b = Some (c, bs)" for ns b c bs
    using that
  proof (induction ns arbitrary: b bs)
    case (Cons n ns)
    obtain d a cs where s: "sbrk_r l n b = Some (d, a)" "sbrk_run l ns d = Some (c, cs)"
      using Cons.prems(3) by (auto split: bind_splits prod.splits)
    have st: "brk_ok l d" using sbrk_step [OF l(1) Cons.prems(1) _ s(1)] Cons.prems(2) by auto
    have pos: "0 < heap_end (sbrk_setup l b)" "0 < heap2_end (sbrk_setup l b)" "0 \<le> n"
      using brk_ok_pos [OF l(1) Cons.prems(1)] Cons.prems(2) by simp_all
    then have "0 < heap_end d \<and> 0 < heap2_end d"
      using s(1) by (auto simp: sbrk_r_def Let_def split: if_splits)
    then have "sbrk_setup l d = d" by (simp add: setup_id)
    then show ?case using Cons.IH [OF st _ s(2)] Cons.prems(2) step [OF s(1)] s(2) by (cases ns) auto
  qed simp
  have e: "heap_end c + heap2_end c = heap_start l + heap2_start l + sum_list ns" "brk_ok l c" "sbrk_setup l c = c"
    using run [OF brk_ok_init [OF l(1)] ns(2,3)] ns(1) l(1)
    by (auto simp: sbrk_setup_def brk_init_def layout_ok_def Let_def)
  define k where "k = (heap_limit l - heap_end c) + (heap2_limit l - heap2_end c)"
  have "heap_end c \<le> heap_limit l" "heap2_end c \<le> heap2_limit l" "0 < heap_end c" "0 < heap2_end c"
    using e(2,3) brk_ok_pos [OF l(1) e(2)] by (simp_all add: brk_ok_def)
  then have k: "0 \<le> k" "k < 2 ^ 32" using l(2,3) by (simp_all add: k_def)
  have "uint (os_get_free_heap l c) = uint (word_of_int k :: u32)" by (simp add: os_get_free_heap_def k_def)
  also have "\<dots> = k" using k by (simp add: uint_word_of_int)
  finally show ?thesis using e(1) by (simp add: k_def os_get_free_heap_def brk_init_def)
qed

theorem free_heap_exact_witness:
  "\<exists>c bs. sbrk_run demo_layout [80, 50] brk_init = Some (c, bs) \<and> uint (os_get_free_heap demo_layout c) = 70"
proof -
  have "\<exists>c bs. sbrk_run demo_layout [80, 50] brk_init = Some (c, bs)"
    by (simp add: sbrk_r_def sbrk_setup_def demo_layout_def brk_init_def Let_def)
  then obtain c bs where c: "sbrk_run demo_layout [80, 50] brk_init = Some (c, bs)" by blast
  have "uint (os_get_free_heap demo_layout c) = 70"
    using free_heap_exact [OF demo_layout_ok _ _ _ _ c] by (simp add: demo_layout_def)
  with c show ?thesis by blast
qed

text \<open>The allocation functions run with the scheduler suspended and leave it as they found it.\<close>

lemma wrap_malloc_balanced:
  "fst (fst (wrap_malloc_r started real sz s)) = fst s" "fst (wrap_free_r started free a s) = fst s"
  by (simp_all add: wrap_malloc_r_def wrap_free_r_def malloc_lock_def malloc_unlock_def Let_def split_def)

end
