(* ===== verification/Atomics.thy ===== *)
theory Atomics
  imports Prelude
begin

section \<open>Atomic operations on processors without them (libatomic.c)\<close>

text \<open>
  \<open>libatomic.c\<close> implements the atomic builtins for processors without such
  instructions by masking the interrupts around a plain read and write. An operation
  is given by its effect on the cell, \<open>(new value, result)\<close>; the machine below runs
  it step by step, with interrupt handlers in between that change the cell.
\<close>

definition atomic_fetch_add_1 :: "u8 \<Rightarrow> u8 \<Rightarrow> u8 \<times> u8" where
  "atomic_fetch_add_1 val cell = (let ret = (ucast cell :: u16) in (cell + val, ucast ret))"

definition atomic_fetch_add_2 :: "u16 \<Rightarrow> u16 \<Rightarrow> u16 \<times> u16" where
  "atomic_fetch_add_2 val cell = (cell + val, cell)"

definition atomic_fetch_sub_2 :: "u16 \<Rightarrow> u16 \<Rightarrow> u16 \<times> u16" where
  "atomic_fetch_sub_2 val cell = (cell - val, cell)"

definition atomic_fetch_or_1 :: "u8 \<Rightarrow> u8 \<Rightarrow> u8 \<times> u8" where
  "atomic_fetch_or_1 val cell = (cell OR val, cell)"

definition atomic_fetch_or_4 :: "u32 \<Rightarrow> u32 \<Rightarrow> u32 \<times> u32" where
  "atomic_fetch_or_4 val cell = (cell OR val, cell)"

definition atomic_fetch_and_1 :: "u8 \<Rightarrow> u8 \<Rightarrow> u8 \<times> u8" where
  "atomic_fetch_and_1 val cell = (cell AND val, cell)"

definition atomic_fetch_and_4 :: "u32 \<Rightarrow> u32 \<Rightarrow> u32 \<times> u32" where
  "atomic_fetch_and_4 val cell = (cell AND val, cell)"

definition atomic_exchange_1 :: "u8 \<Rightarrow> u8 \<Rightarrow> u8 \<times> u8" where
  "atomic_exchange_1 val cell = (val, cell)"

text \<open>The result of a compare and exchange: success, and the new contents of \<open>*exp\<close>.\<close>

definition atomic_compare_exchange_1 :: "u8 \<Rightarrow> u8 \<Rightarrow> u8 \<Rightarrow> u8 \<times> (bool \<times> u8)" where
  "atomic_compare_exchange_1 expected desired cell =
     (let curr = cell in if curr = expected then (desired, (True, expected)) else (cell, (False, curr)))"

definition atomic_compare_exchange_4 :: "u32 \<Rightarrow> u32 \<Rightarrow> u32 \<Rightarrow> u32 \<times> (bool \<times> u32)" where
  "atomic_compare_exchange_4 expected desired cell =
     (let curr = cell in if curr = expected then (desired, (True, expected)) else (cell, (False, curr)))"

subsection \<open>The machine\<close>

text \<open>
  The steps of a function: \<open>ACQ_LOCK\<close> saves \<open>PRIMASK\<close> and sets it, the cell is
  read, then written, and \<open>REL_LOCK\<close> restores \<open>PRIMASK\<close>. An interrupt handler runs
  to its end between two steps when interrupts are not masked; \<open>handled\<close> lists what
  the handlers did to the cell, in order.
\<close>

datatype pc = Acquire | Load | Store | Release | Return

record ('a, 'r) cpu =
  at :: pc
  primask :: bool
  pastlock :: bool
  cell :: 'a
  reg :: "('a \<times> 'r) option"
  handled :: "('a \<Rightarrow> 'a) list"

definition ACQ_LOCK :: "('a, 'r) cpu \<Rightarrow> ('a, 'r) cpu" where
  "ACQ_LOCK s = s\<lparr>pastlock := primask s, primask := True\<rparr>"

definition REL_LOCK :: "('a, 'r) cpu \<Rightarrow> ('a, 'r) cpu" where
  "REL_LOCK s = s\<lparr>primask := pastlock s\<rparr>"

inductive cstep :: "('a \<Rightarrow> 'a \<times> 'r) \<Rightarrow> ('a, 'r) cpu \<Rightarrow> ('a, 'r) cpu \<Rightarrow> bool" for f where
  acquire: "at s = Acquire \<Longrightarrow> cstep f s (ACQ_LOCK s\<lparr>at := Load\<rparr>)"
| load: "at s = Load \<Longrightarrow> cstep f s (s\<lparr>reg := Some (f (cell s)), at := Store\<rparr>)"
| store: "at s = Store \<Longrightarrow> reg s = Some (v, r) \<Longrightarrow> cstep f s (s\<lparr>cell := v, at := Release\<rparr>)"
| release: "at s = Release \<Longrightarrow> cstep f s (REL_LOCK s\<lparr>at := Return\<rparr>)"
| interrupt: "\<not> primask s \<Longrightarrow> cstep f s (s\<lparr>cell := g (cell s), handled := handled s @ [g]\<rparr>)"

definition start_cpu :: "bool \<Rightarrow> 'a \<Rightarrow> ('a, 'r) cpu" where
  "start_cpu m c = \<lparr>at = Acquire, primask = m, pastlock = False, cell = c, reg = None, handled = []\<rparr>"

inductive creach :: "('a \<Rightarrow> 'a \<times> 'r) \<Rightarrow> bool \<Rightarrow> 'a \<Rightarrow> ('a, 'r) cpu \<Rightarrow> bool" for f m c where
  init: "creach f m c (start_cpu m c)"
| step: "creach f m c s \<Longrightarrow> cstep f s t \<Longrightarrow> creach f m c t"

text \<open>What the handlers of a list, run one after the other, make of a value.\<close>

definition after :: "('a \<Rightarrow> 'a) list \<Rightarrow> 'a \<Rightarrow> 'a" where
  "after gs c = fold (\<lambda>g. g) gs c"

lemma after_simps [simp]: "after [] c = c" "after (gs @ hs) c = after hs (after gs c)" "after [g] c = g c"
  by (simp_all add: after_def)

definition cpu_inv :: "('a \<Rightarrow> 'a \<times> 'r) \<Rightarrow> bool \<Rightarrow> 'a \<Rightarrow> ('a, 'r) cpu \<Rightarrow> bool" where
  "cpu_inv f m c s \<longleftrightarrow> (case at s of
     Acquire \<Rightarrow> primask s = m \<and> cell s = after (handled s) c
   | Load \<Rightarrow> primask s \<and> pastlock s = m \<and> cell s = after (handled s) c
   | Store \<Rightarrow> primask s \<and> pastlock s = m \<and> cell s = after (handled s) c \<and> reg s = Some (f (cell s))
   | Release \<Rightarrow> primask s \<and> pastlock s = m \<and> reg s = Some (f (after (handled s) c)) \<and> cell s = fst (f (after (handled s) c))
   | Return \<Rightarrow> primask s = m \<and> (\<exists>bs as. handled s = bs @ as \<and> reg s = Some (f (after bs c)) \<and>
        cell s = after as (fst (f (after bs c)))))"

lemma cpu_inv_step:
  assumes "cstep f s t" and inv: "cpu_inv f m c s"
  shows "cpu_inv f m c t"
  using assms(1)
proof (cases rule: cstep.cases)
  case (interrupt g)
  show ?thesis
  proof (cases "at s")
    case Return
    then obtain bs as where "primask s = m" "handled s = bs @ as" "reg s = Some (f (after bs c))"
      "cell s = after as (fst (f (after bs c)))"
      using inv by (auto simp: cpu_inv_def)
    then have "handled t = bs @ (as @ [g]) \<and> reg t = Some (f (after bs c)) \<and> cell t = after (as @ [g]) (fst (f (after bs c)))"
      and t: "primask t = m" "at t = Return"
      using interrupt Return by simp_all
    then have "\<exists>bs as. handled t = bs @ as \<and> reg t = Some (f (after bs c)) \<and> cell t = after as (fst (f (after bs c)))"
      by blast
    then show ?thesis unfolding cpu_inv_def t by (simp add: t)
  qed (use inv interrupt in \<open>auto simp: cpu_inv_def\<close>)
next
  case release
  then have t: "at t = Return" "primask t = m" "handled t = handled s @ []" "reg t = Some (f (after (handled s) c))"
    "cell t = after [] (fst (f (after (handled s) c)))"
    using inv by (simp_all add: cpu_inv_def REL_LOCK_def)
  then have "\<exists>bs as. handled t = bs @ as \<and> reg t = Some (f (after bs c)) \<and> cell t = after as (fst (f (after bs c)))"
    by blast
  then show ?thesis unfolding cpu_inv_def t(1) by (simp add: t(2))
next
  case (store v r)
  then have "f (after (handled s) c) = (v, r)" using inv by (simp add: cpu_inv_def)
  then have "v = fst (f (after (handled s) c))" by simp
  then show ?thesis using store(1,2) inv by (simp add: cpu_inv_def)
qed (use inv in \<open>auto simp: cpu_inv_def ACQ_LOCK_def\<close>)

lemma creach_inv: "creach f m c s \<Longrightarrow> cpu_inv f m c s"
proof (induction rule: creach.induct)
  case init
  show ?case by (simp add: cpu_inv_def start_cpu_def)
next
  case (step s t)
  show ?case by (rule cpu_inv_step [OF step(2,3)])
qed

text \<open>
  However the interrupts fall, the function has taken effect at one point between
  them: it returned what it computed from the value that the handlers before that
  point had left, those after it worked on its result, and the mask is as before.
\<close>

theorem atomic_linearizable:
  assumes "creach f m c s" "at s = Return"
  shows "\<exists>bs as. handled s = bs @ as \<and> reg s = Some (f (after bs c)) \<and>
    cell s = after as (fst (f (after bs c))) \<and> primask s = m"
  using creach_inv [OF assms(1)] assms(2) by (auto simp: cpu_inv_def)

lemma demo_run:
  shows "creach f False c \<lparr>at = Return, primask = False, pastlock = False, cell = fst (f (g c)), reg = Some (f (g c)),
    handled = [g]\<rparr>"
proof -
  have "creach f False c \<lparr>at = Acquire, primask = False, pastlock = False, cell = g c, reg = None, handled = [g]\<rparr>"
    using creach.step [OF creach.init cstep.interrupt [of "start_cpu False c" f g]] by (simp add: start_cpu_def)
  from creach.step [OF this cstep.acquire]
  have "creach f False c \<lparr>at = Load, primask = True, pastlock = False, cell = g c, reg = None, handled = [g]\<rparr>"
    by (simp add: ACQ_LOCK_def)
  from creach.step [OF this cstep.load]
  have "creach f False c \<lparr>at = Store, primask = True, pastlock = False, cell = g c, reg = Some (f (g c)), handled = [g]\<rparr>"
    by simp
  from creach.step [OF this cstep.store [where v = "fst (f (g c))" and r = "snd (f (g c))"]]
  have "creach f False c \<lparr>at = Release, primask = True, pastlock = False, cell = fst (f (g c)), reg = Some (f (g c)), handled = [g]\<rparr>"
    by simp
  from creach.step [OF this cstep.release] show ?thesis by (simp add: REL_LOCK_def)
qed

theorem atomic_linearizable_witness:
  "\<exists>s. creach (atomic_compare_exchange_1 6 9) False 5 s \<and> cell s = 9 \<and> handled s = [\<lambda>x. x + 1] \<and>
     reg s = Some (9, (True, 6)) \<and>
     (\<exists>bs as. handled s = bs @ as \<and> cell s = after as (fst (atomic_compare_exchange_1 6 9 (after bs 5))))"
proof -
  let ?s = "\<lparr>at = Return, primask = False, pastlock = False, cell = 9, reg = Some (9, (True, 6)), handled = [\<lambda>x. x + 1]\<rparr>"
  have r: "creach (atomic_compare_exchange_1 6 9) False 5 ?s"
    using demo_run [of "atomic_compare_exchange_1 6 9" 5 "\<lambda>x. x + 1"] by (simp add: atomic_compare_exchange_1_def)
  show ?thesis using r atomic_linearizable [OF r] by fastforce
qed

text \<open>
  Counters lose no update: when every handler adds to the counter, it ends with all
  that was added by them and by the function.
\<close>

lemma after_adds: "after (map (\<lambda>k x. x + k) ks) c = c + sum_list (ks :: 'a::ab_group_add list)"
proof (induction ks arbitrary: c)
  case (Cons k ks)
  then have "after (map (\<lambda>k x. x + k) ks) (c + k) = c + k + sum_list ks" .
  then show ?case by (simp add: after_def add.assoc)
qed simp

theorem fetch_add_no_lost_update:
  assumes "creach (atomic_fetch_add_2 val) m c s" "at s = Return" "handled s = map (\<lambda>k x. x + k) ks"
  shows "cell s = c + val + sum_list ks"
proof -
  obtain bs as where b: "handled s = bs @ as" "cell s = after as (fst (atomic_fetch_add_2 val (after bs c)))"
    using atomic_linearizable [OF assms(1,2)] by blast
  then obtain js ls where j: "ks = js @ ls" "bs = map (\<lambda>k x. x + k) js" "as = map (\<lambda>k x. x + k) ls"
    using assms(3) by (auto simp: map_eq_append_conv)
  show ?thesis unfolding b(2) j(2,3) after_adds by (simp add: atomic_fetch_add_2_def j(1) algebra_simps after_adds)
qed

theorem fetch_add_no_lost_update_witness:
  "\<exists>s. creach (atomic_fetch_add_2 10) False 5 s \<and> handled s = map (\<lambda>k x. x + k) [3] \<and> cell s = 5 + 10 + 3"
proof -
  let ?s = "\<lparr>at = Return, primask = False, pastlock = False, cell = 18, reg = Some (18, 8), handled = map (\<lambda>k x. x + k) [3]\<rparr>"
  have r: "creach (atomic_fetch_add_2 10) False 5 ?s"
    using demo_run [of "atomic_fetch_add_2 10" 5 "\<lambda>x. x + 3"] by (simp add: atomic_fetch_add_2_def)
  from fetch_add_no_lost_update [OF r, of "[3]"] r show ?thesis by fastforce
qed

end
