(* ===== verification/Endian.thy ===== *)
theory Endian
  imports Prelude
begin

section \<open>Byte order (endian.h)\<close>

text \<open>
  The byte swaps and the conversions between host order and big or little endian,
  for a host of either kind (\<open>big\<close> is \<open>CONFIG_ENDIAN_BIG\<close>).
\<close>

definition bswap_16 :: "u16 \<Rightarrow> u16" where
  "bswap_16 x = (drop_bit 8 (x AND 0xff00) OR push_bit 8 (x AND 0x00ff))"

definition bswap_32 :: "u32 \<Rightarrow> u32" where
  "bswap_32 x =
     (drop_bit 24 (x AND 0xff000000) OR drop_bit 8 (x AND 0x00ff0000) OR
      push_bit 8 (x AND 0x0000ff00) OR push_bit 24 (x AND 0x000000ff))"

definition bswap_64 :: "u64 \<Rightarrow> u64" where
  "bswap_64 x =
     (drop_bit 56 (x AND 0xff00000000000000) OR drop_bit 40 (x AND 0x00ff000000000000) OR
      drop_bit 24 (x AND 0x0000ff0000000000) OR drop_bit 8 (x AND 0x000000ff00000000) OR
      push_bit 8 (x AND 0x00000000ff000000) OR push_bit 24 (x AND 0x0000000000ff0000) OR
      push_bit 40 (x AND 0x000000000000ff00) OR push_bit 56 (x AND 0x00000000000000ff))"

definition htobe16 :: "bool \<Rightarrow> u16 \<Rightarrow> u16" where "htobe16 big x = (if big then x else bswap_16 x)"
definition htole16 :: "bool \<Rightarrow> u16 \<Rightarrow> u16" where "htole16 big x = (if big then bswap_16 x else x)"
definition be16toh :: "bool \<Rightarrow> u16 \<Rightarrow> u16" where "be16toh big x = (if big then x else bswap_16 x)"
definition le16toh :: "bool \<Rightarrow> u16 \<Rightarrow> u16" where "le16toh big x = (if big then bswap_16 x else x)"
definition htobe32 :: "bool \<Rightarrow> u32 \<Rightarrow> u32" where "htobe32 big x = (if big then x else bswap_32 x)"
definition htole32 :: "bool \<Rightarrow> u32 \<Rightarrow> u32" where "htole32 big x = (if big then bswap_32 x else x)"
definition be32toh :: "bool \<Rightarrow> u32 \<Rightarrow> u32" where "be32toh big x = (if big then x else bswap_32 x)"
definition le32toh :: "bool \<Rightarrow> u32 \<Rightarrow> u32" where "le32toh big x = (if big then bswap_32 x else x)"
definition htobe64 :: "bool \<Rightarrow> u64 \<Rightarrow> u64" where "htobe64 big x = (if big then x else bswap_64 x)"
definition htole64 :: "bool \<Rightarrow> u64 \<Rightarrow> u64" where "htole64 big x = (if big then bswap_64 x else x)"
definition be64toh :: "bool \<Rightarrow> u64 \<Rightarrow> u64" where "be64toh big x = (if big then x else bswap_64 x)"
definition le64toh :: "bool \<Rightarrow> u64 \<Rightarrow> u64" where "le64toh big x = (if big then bswap_64 x else x)"

text \<open>The bytes of a value in memory, lowest address first, on a host of either kind.\<close>

definition bytes_le :: "nat \<Rightarrow> 'a::len word \<Rightarrow> u8 list" where
  "bytes_le n x = map (\<lambda>i. ucast (drop_bit (8 * i) x)) [0..<n]"

definition in_memory :: "bool \<Rightarrow> nat \<Rightarrow> 'a::len word \<Rightarrow> u8 list" where
  "in_memory big n x = (if big then rev (bytes_le n x) else bytes_le n x)"

lemma byte_eqI: "(\<And>n. n < 8 \<Longrightarrow> bit (a :: u8) n = bit b n) \<Longrightarrow> a = b"
  by (rule bit_word_eqI) simp

lemma less_8: "n < (8 :: nat) \<Longrightarrow> n = 0 \<or> n = 1 \<or> n = 2 \<or> n = 3 \<or> n = 4 \<or> n = 5 \<or> n = 6 \<or> n = 7"
  by linarith

lemma bytes_bswap_16: "bytes_le 2 (bswap_16 x) = rev (bytes_le 2 x)"
  by (simp add: bytes_le_def upt_rec bswap_16_def)
    (intro conjI; rule byte_eqI; drule less_8; elim disjE; simp add: bit_simps)

lemma bytes_bswap_32: "bytes_le 4 (bswap_32 x) = rev (bytes_le 4 x)"
  by (simp add: bytes_le_def upt_rec bswap_32_def)
    (intro conjI; rule byte_eqI; drule less_8; elim disjE; simp add: bit_simps)

lemma bytes_bswap_64: "bytes_le 8 (bswap_64 x) = rev (bytes_le 8 x)"
  by (simp add: bytes_le_def upt_rec bswap_64_def)
    (intro conjI; rule byte_eqI; drule less_8; elim disjE; simp add: bit_simps)

lemma bytes_le_inject:
  fixes x y :: "'a::len word"
  assumes "LENGTH('a) = 8 * n" "bytes_le n x = bytes_le n y"
  shows "x = y"
proof (rule bit_word_eqI)
  fix k assume k: "k < LENGTH('a)"
  then have d: "k div 8 < n" using assms(1) by simp
  have "(ucast (drop_bit (8 * (k div 8)) x) :: u8) = ucast (drop_bit (8 * (k div 8)) y)"
    using assms(2) d by (auto simp: bytes_le_def)
  then have "bit (ucast (drop_bit (8 * (k div 8)) x) :: u8) (k mod 8) =
    bit (ucast (drop_bit (8 * (k div 8)) y) :: u8) (k mod 8)" by simp
  then show "bit x k = bit y k" by (simp add: bit_simps)
qed

lemma bswap_involution [simp]:
  "bswap_16 (bswap_16 x) = x" "bswap_32 (bswap_32 y) = y" "bswap_64 (bswap_64 z) = z"
  using bytes_le_inject [of 2 "bswap_16 (bswap_16 x)" x] bytes_le_inject [of 4 "bswap_32 (bswap_32 y)" y]
    bytes_le_inject [of 8 "bswap_64 (bswap_64 z)" z]
  by (simp_all add: bytes_bswap_16 bytes_bswap_32 bytes_bswap_64)

lemmas bswap_bytes = bytes_bswap_16 bytes_bswap_32 bytes_bswap_64

lemmas host_order_defs = htobe16_def htole16_def be16toh_def le16toh_def htobe32_def htole32_def
  be32toh_def le32toh_def htobe64_def htole64_def be64toh_def le64toh_def

text \<open>
  On hosts of either kind, a converted value has its bytes in memory in big or
  little endian order.
\<close>

theorem converted_bytes_in_memory:
  "in_memory big 2 (htobe16 big x) = rev (bytes_le 2 x) \<and> in_memory big 2 (htole16 big x) = bytes_le 2 x \<and>
   in_memory big 4 (htobe32 big y) = rev (bytes_le 4 y) \<and> in_memory big 4 (htole32 big y) = bytes_le 4 y \<and>
   in_memory big 8 (htobe64 big z) = rev (bytes_le 8 z) \<and> in_memory big 8 (htole64 big z) = bytes_le 8 z"
  by (simp add: in_memory_def host_order_defs bswap_bytes)

text \<open>Converting back gives the value again.\<close>

theorem byte_order_roundtrip:
  "be16toh big (htobe16 big x) = x \<and> le16toh big (htole16 big x) = x \<and>
   be32toh big (htobe32 big y) = y \<and> le32toh big (htole32 big y) = y \<and>
   be64toh big (htobe64 big z) = z \<and> le64toh big (htole64 big z) = z"
  by (simp add: host_order_defs)

end
