(* ===== verification/OsMisc.thy ===== *)
theory OsMisc
  imports Prelude
begin

section \<open>Watchdog, logging and small helpers\<close>

text \<open>
  The watchdog of \<open>os/watchdog.c\<close> as a state with two kinds of events, the \<open>LOG\<close> macro
  of \<open>utils/logging.h\<close> with the buffer that it hands to the output, and the wrappers
  of \<open>malloc\<close>. \<open>None\<close> is the death of the program.
\<close>

subsection \<open>Watchdog\<close>

record watchdog =
  watchdog_period_msec :: int
  watchdog_ticks :: int

definition reset_watchdog :: "watchdog \<Rightarrow> watchdog" where
  "reset_watchdog w = w\<lparr>watchdog_ticks := 0\<rparr>"

text \<open>The new state and the stack size that is asked for the watchdog's thread.\<close>

definition start_watchdog :: "bool \<Rightarrow> int \<Rightarrow> watchdog \<Rightarrow> watchdog \<times> nat" where
  "start_watchdog freertos period_msec w =
     (reset_watchdog (w\<lparr>watchdog_period_msec := period_msec\<rparr>), if freertos then 256 else 2048)"

text \<open>One round of the thread: how long it sleeps, and the check after that.\<close>

definition watchdog_sleep :: "watchdog \<Rightarrow> u32" where
  "watchdog_sleep w = 1000 * word_of_int (watchdog_period_msec w)"

definition watchdog_check :: "watchdog \<Rightarrow> watchdog option" where
  "watchdog_check w =
     (let w = w\<lparr>watchdog_ticks := watchdog_ticks w + 1\<rparr> in if watchdog_ticks w > 1 then None else Some w)"

definition add_watchdog_reset_timer :: "int \<Rightarrow> watchdog \<Rightarrow> watchdog" where
  "add_watchdog_reset_timer period_msec w = w"

datatype event = Period | Fed

fun watchdog_run :: "event list \<Rightarrow> watchdog \<Rightarrow> watchdog option" where
  "watchdog_run [] w = Some w"
| "watchdog_run (Period # es) w = do { w \<leftarrow> watchdog_check w; watchdog_run es w }"
| "watchdog_run (Fed # es) w = watchdog_run es (reset_watchdog w)"

fun starved :: "event list \<Rightarrow> bool" where
  "starved (Period # Period # es) \<longleftrightarrow> True"
| "starved (e # es) \<longleftrightarrow> starved es"
| "starved [] \<longleftrightarrow> False"

lemma starved_iff: "starved es \<longleftrightarrow> (\<exists>as bs. es = as @ [Period, Period] @ bs)"
proof (induction es rule: starved.induct)
  case (1 es)
  then show ?case by (auto intro: exI [of _ "[]"])
qed (auto simp: Cons_eq_append_conv)

lemma watchdog_run_starved:
  "watchdog_ticks w = 0 \<Longrightarrow> (watchdog_run es w = None \<longleftrightarrow> starved es) \<and>
     (watchdog_run (Period # es) w = None \<longleftrightarrow> starved (Period # es))"
proof (induction es arbitrary: w)
  case Nil
  then show ?case by (simp add: watchdog_check_def Let_def)
next
  case (Cons e es)
  show ?case
  proof (cases e)
    case Period
    have "watchdog_run (Period # Period # es) w = None" using Cons.prems by (simp add: watchdog_check_def Let_def)
    moreover have "watchdog_run (Period # es) w = None \<longleftrightarrow> starved (Period # es)"
      using Cons.IH [OF Cons.prems] by (rule conjunct2)
    moreover have "starved (Period # Period # es)" by simp
    ultimately show ?thesis unfolding Period by blast
  next
    case Fed
    have "watchdog_ticks (reset_watchdog v) = 0" for v by (simp add: reset_watchdog_def)
    then have 1: "watchdog_run es (reset_watchdog v) = None \<longleftrightarrow> starved es" for v using Cons.IH by blast
    have "watchdog_check w = Some (w\<lparr>watchdog_ticks := 1\<rparr>)"
      using Cons.prems by (simp add: watchdog_check_def Let_def)
    then have "watchdog_run (Period # Fed # es) w = watchdog_run es (reset_watchdog (w\<lparr>watchdog_ticks := 1\<rparr>))" by simp
    moreover have "starved (Period # Fed # es) \<longleftrightarrow> starved es" "starved (Fed # es) \<longleftrightarrow> starved es" by simp_all
    moreover have "watchdog_run (Fed # es) w = watchdog_run es (reset_watchdog w)" by simp
    ultimately show ?thesis unfolding Fed using 1 by simp
  qed
qed

text \<open>
  A started watchdog kills the program exactly when two periods pass one after the
  other without a reset between them.
\<close>

theorem watchdog_dies_iff:
  "watchdog_run es (fst (start_watchdog rtos p w)) = None \<longleftrightarrow> (\<exists>as bs. es = as @ [Period, Period] @ bs)"
proof -
  have "watchdog_ticks (fst (start_watchdog rtos p w)) = 0" by (simp add: start_watchdog_def reset_watchdog_def)
  from watchdog_run_starved [THEN conjunct1, OF this] show ?thesis by (simp only: starved_iff)
qed

text \<open>
  The timer that should feed the watchdog does not exist: after asking for it the
  watchdog bites like before.
\<close>

theorem watchdog_timer_missing:
  "watchdog_run [Period, Period] (add_watchdog_reset_timer q (fst (start_watchdog rtos p w))) = None"
  by (simp add: add_watchdog_reset_timer_def start_watchdog_def reset_watchdog_def watchdog_check_def Let_def)

subsection \<open>Logging\<close>

definition ALWAYS :: int where "ALWAYS = - 1"
definition FATAL :: int where "FATAL = 0"
definition LEVEL_ERROR :: int where "LEVEL_ERROR = 1"
definition WARNING :: int where "WARNING = 2"
definition INFO :: int where "INFO = 3"
definition VERBOSE :: int where "VERBOSE = 4"

definition LOGLEVEL :: "bool \<Rightarrow> int" where "LOGLEVEL freertos = (if freertos then FATAL else INFO)"

text \<open>\<open>snprintf\<close> of a rendered message into a buffer of 256 bytes: the buffer and the result.\<close>

definition snprintf256 :: "u8 list \<Rightarrow> u8 list \<Rightarrow> u8 list \<times> nat" where
  "snprintf256 msg buf = (let m = take 255 msg in (m @ [0] @ drop (length m + 1) buf, length msg))"

text \<open>
  The calls that a log statement makes: \<open>None\<close> when it ends the program, \<open>Some None\<close>
  for nothing, otherwise the arguments of \<open>log_output\<close>. \<open>loglevel\<close> is the value of
  \<open>LOGLEVEL\<close> where the macro is used.
\<close>

definition LOG :: "int \<Rightarrow> int \<Rightarrow> u8 list \<Rightarrow> u8 list \<Rightarrow> (u8 list \<times> nat) option option" where
  "LOG loglevel level message logbuffer =
     (if level = FATAL then None
      else if loglevel \<ge> level then
        (let (buf, sret) = snprintf256 message logbuffer;
             sret = (if sret > 256 then 256 else sret)
         in Some (Some (buf, sret)))
      else Some None)"

definition print_errno_and_exit :: "int \<Rightarrow> u8 list \<Rightarrow> u8 list \<Rightarrow> (u8 list \<times> nat) option option" where
  "print_errno_and_exit loglevel msg logbuffer = LOG loglevel FATAL msg logbuffer"

definition ERRNOCHECK :: "int \<Rightarrow> int \<Rightarrow> u8 list \<Rightarrow> u8 list \<Rightarrow> unit option" where
  "ERRNOCHECK loglevel x msg logbuffer =
     (if x < 0 then do { r \<leftarrow> print_errno_and_exit loglevel msg logbuffer; Some () } else Some ())"

definition stack_malloc :: "('s \<Rightarrow> nat \<Rightarrow> 's \<times> nat) \<Rightarrow> nat \<Rightarrow> 's \<Rightarrow> 's \<times> nat" where
  "stack_malloc malloc len s = (let (s, v) = malloc s len in (s, v))"

definition buffer_malloc :: "('s \<Rightarrow> nat \<Rightarrow> 's \<times> nat) \<Rightarrow> nat \<Rightarrow> 's \<Rightarrow> 's \<times> nat" where
  "buffer_malloc malloc len s = (let (s, v) = malloc s len in (s, v))"

text \<open>
  A message of less than 256 bytes reaches the output whole and with its
  terminating zero at the given size, whatever the level allows; a longer one gives
  the size 256, one more than the bytes of the message in the buffer, and there is no
  zero at that position, which lies outside the buffer.
\<close>

theorem log_output_buffer:
  assumes "length logbuffer = 256" "level \<noteq> FATAL"
  shows "case LOG loglevel level message logbuffer of
      None \<Rightarrow> False
    | Some None \<Rightarrow> loglevel < level
    | Some (Some (buf, n)) \<Rightarrow> level \<le> loglevel \<and> length buf = 256 \<and>
        (if length message < 256 then take n buf = message \<and> buf ! n = 0
         else n = length buf \<and> take 255 buf = take 255 message)"
proof -
  have "length (take 255 message @ [0] @ drop (length (take 255 message) + 1) logbuffer) = 256"
    using assms(1) by simp
  then show ?thesis
    using assms by (auto simp: LOG_def snprintf256_def Let_def nth_append min_def split: option.split)
qed

theorem log_output_buffer_witness:
  "\<exists>buf. LOG INFO INFO [0x68, 0x69] (replicate 256 0xff) = Some (Some (buf, 2)) \<and> take 2 buf = [0x68, 0x69] \<and> buf ! 2 = 0"
  using log_output_buffer [of "replicate 256 0xff" INFO INFO "[0x68, 0x69]"]
  by (simp add: INFO_def FATAL_def LOG_def snprintf256_def Let_def)

lemma errnocheck_dies: "ERRNOCHECK loglevel x msg logbuffer = None \<longleftrightarrow> x < 0"
  by (simp add: ERRNOCHECK_def print_errno_and_exit_def LOG_def)

end
