(* ===== verification/CrcTables.thy ===== *)
theory CrcTables
  imports Prelude
begin

section \<open>Tables of the CRC computations (utils/Crc.cpp)\<close>

text \<open>The lookup tables, entry by entry, and the bitwise steps that they stand for.\<close>

definition CRC16_IBM_HI :: "u16 list" where
  "CRC16_IBM_HI =
    [0x0000, 0xcc01, 0xd801, 0x1400, 0xf001, 0x3c00, 0x2800, 0xe401,
     0xa001, 0x6c00, 0x7800, 0xb401, 0x5000, 0x9c01, 0x8801, 0x4400]"

definition CRC16_IBM_LO :: "u16 list" where
  "CRC16_IBM_LO =
    [0x0000, 0xc0c1, 0xc181, 0x0140, 0xc301, 0x03c0, 0x0280, 0xc241,
     0xc601, 0x06c0, 0x0780, 0xc741, 0x0500, 0xc5c1, 0xc481, 0x0440]"

definition dallas_table256 :: "u8 list" where
  "dallas_table256 =
    [0x00, 0x5e, 0xbc, 0xe2, 0x61, 0x3f, 0xdd, 0x83,
     0xc2, 0x9c, 0x7e, 0x20, 0xa3, 0xfd, 0x1f, 0x41,
     0x9d, 0xc3, 0x21, 0x7f, 0xfc, 0xa2, 0x40, 0x1e,
     0x5f, 0x01, 0xe3, 0xbd, 0x3e, 0x60, 0x82, 0xdc,
     0x23, 0x7d, 0x9f, 0xc1, 0x42, 0x1c, 0xfe, 0xa0,
     0xe1, 0xbf, 0x5d, 0x03, 0x80, 0xde, 0x3c, 0x62,
     0xbe, 0xe0, 0x02, 0x5c, 0xdf, 0x81, 0x63, 0x3d,
     0x7c, 0x22, 0xc0, 0x9e, 0x1d, 0x43, 0xa1, 0xff,
     0x46, 0x18, 0xfa, 0xa4, 0x27, 0x79, 0x9b, 0xc5,
     0x84, 0xda, 0x38, 0x66, 0xe5, 0xbb, 0x59, 0x07,
     0xdb, 0x85, 0x67, 0x39, 0xba, 0xe4, 0x06, 0x58,
     0x19, 0x47, 0xa5, 0xfb, 0x78, 0x26, 0xc4, 0x9a,
     0x65, 0x3b, 0xd9, 0x87, 0x04, 0x5a, 0xb8, 0xe6,
     0xa7, 0xf9, 0x1b, 0x45, 0xc6, 0x98, 0x7a, 0x24,
     0xf8, 0xa6, 0x44, 0x1a, 0x99, 0xc7, 0x25, 0x7b,
     0x3a, 0x64, 0x86, 0xd8, 0x5b, 0x05, 0xe7, 0xb9,
     0x8c, 0xd2, 0x30, 0x6e, 0xed, 0xb3, 0x51, 0x0f,
     0x4e, 0x10, 0xf2, 0xac, 0x2f, 0x71, 0x93, 0xcd,
     0x11, 0x4f, 0xad, 0xf3, 0x70, 0x2e, 0xcc, 0x92,
     0xd3, 0x8d, 0x6f, 0x31, 0xb2, 0xec, 0x0e, 0x50,
     0xaf, 0xf1, 0x13, 0x4d, 0xce, 0x90, 0x72, 0x2c,
     0x6d, 0x33, 0xd1, 0x8f, 0x0c, 0x52, 0xb0, 0xee,
     0x32, 0x6c, 0x8e, 0xd0, 0x53, 0x0d, 0xef, 0xb1,
     0xf0, 0xae, 0x4c, 0x12, 0x91, 0xcf, 0x2d, 0x73,
     0xca, 0x94, 0x76, 0x28, 0xab, 0xf5, 0x17, 0x49,
     0x08, 0x56, 0xb4, 0xea, 0x69, 0x37, 0xd5, 0x8b,
     0x57, 0x09, 0xeb, 0xb5, 0x36, 0x68, 0x8a, 0xd4,
     0x95, 0xcb, 0x29, 0x77, 0xf4, 0xaa, 0x48, 0x16,
     0xe9, 0xb7, 0x55, 0x0b, 0x88, 0xd6, 0x34, 0x6a,
     0x2b, 0x75, 0x97, 0xc9, 0x4a, 0x14, 0xf6, 0xa8,
     0x74, 0x2a, 0xc8, 0x96, 0x15, 0x4b, 0xa9, 0xf7,
     0xb6, 0xe8, 0x0a, 0x54, 0xd7, 0x89, 0x6b, 0x35]"

definition dallas_tableLo16 :: "u8 list" where
  "dallas_tableLo16 =
    [0x00, 0x5e, 0xbc, 0xe2, 0x61, 0x3f, 0xdd, 0x83,
     0xc2, 0x9c, 0x7e, 0x20, 0xa3, 0xfd, 0x1f, 0x41]"

definition dallas_tableHi16 :: "u8 list" where
  "dallas_tableHi16 =
    [0x00, 0x9d, 0x23, 0xbe, 0x46, 0xdb, 0x65, 0xf8,
     0x8c, 0x11, 0xaf, 0x32, 0xca, 0x57, 0xe9, 0x74]"

definition ccitt_table256 :: "u16 list" where
  "ccitt_table256 =
    [0x0000, 0x1021, 0x2042, 0x3063, 0x4084, 0x50a5, 0x60c6, 0x70e7,
     0x8108, 0x9129, 0xa14a, 0xb16b, 0xc18c, 0xd1ad, 0xe1ce, 0xf1ef,
     0x1231, 0x0210, 0x3273, 0x2252, 0x52b5, 0x4294, 0x72f7, 0x62d6,
     0x9339, 0x8318, 0xb37b, 0xa35a, 0xd3bd, 0xc39c, 0xf3ff, 0xe3de,
     0x2462, 0x3443, 0x0420, 0x1401, 0x64e6, 0x74c7, 0x44a4, 0x5485,
     0xa56a, 0xb54b, 0x8528, 0x9509, 0xe5ee, 0xf5cf, 0xc5ac, 0xd58d,
     0x3653, 0x2672, 0x1611, 0x0630, 0x76d7, 0x66f6, 0x5695, 0x46b4,
     0xb75b, 0xa77a, 0x9719, 0x8738, 0xf7df, 0xe7fe, 0xd79d, 0xc7bc,
     0x48c4, 0x58e5, 0x6886, 0x78a7, 0x0840, 0x1861, 0x2802, 0x3823,
     0xc9cc, 0xd9ed, 0xe98e, 0xf9af, 0x8948, 0x9969, 0xa90a, 0xb92b,
     0x5af5, 0x4ad4, 0x7ab7, 0x6a96, 0x1a71, 0x0a50, 0x3a33, 0x2a12,
     0xdbfd, 0xcbdc, 0xfbbf, 0xeb9e, 0x9b79, 0x8b58, 0xbb3b, 0xab1a,
     0x6ca6, 0x7c87, 0x4ce4, 0x5cc5, 0x2c22, 0x3c03, 0x0c60, 0x1c41,
     0xedae, 0xfd8f, 0xcdec, 0xddcd, 0xad2a, 0xbd0b, 0x8d68, 0x9d49,
     0x7e97, 0x6eb6, 0x5ed5, 0x4ef4, 0x3e13, 0x2e32, 0x1e51, 0x0e70,
     0xff9f, 0xefbe, 0xdfdd, 0xcffc, 0xbf1b, 0xaf3a, 0x9f59, 0x8f78,
     0x9188, 0x81a9, 0xb1ca, 0xa1eb, 0xd10c, 0xc12d, 0xf14e, 0xe16f,
     0x1080, 0x00a1, 0x30c2, 0x20e3, 0x5004, 0x4025, 0x7046, 0x6067,
     0x83b9, 0x9398, 0xa3fb, 0xb3da, 0xc33d, 0xd31c, 0xe37f, 0xf35e,
     0x02b1, 0x1290, 0x22f3, 0x32d2, 0x4235, 0x5214, 0x6277, 0x7256,
     0xb5ea, 0xa5cb, 0x95a8, 0x8589, 0xf56e, 0xe54f, 0xd52c, 0xc50d,
     0x34e2, 0x24c3, 0x14a0, 0x0481, 0x7466, 0x6447, 0x5424, 0x4405,
     0xa7db, 0xb7fa, 0x8799, 0x97b8, 0xe75f, 0xf77e, 0xc71d, 0xd73c,
     0x26d3, 0x36f2, 0x0691, 0x16b0, 0x6657, 0x7676, 0x4615, 0x5634,
     0xd94c, 0xc96d, 0xf90e, 0xe92f, 0x99c8, 0x89e9, 0xb98a, 0xa9ab,
     0x5844, 0x4865, 0x7806, 0x6827, 0x18c0, 0x08e1, 0x3882, 0x28a3,
     0xcb7d, 0xdb5c, 0xeb3f, 0xfb1e, 0x8bf9, 0x9bd8, 0xabbb, 0xbb9a,
     0x4a75, 0x5a54, 0x6a37, 0x7a16, 0x0af1, 0x1ad0, 0x2ab3, 0x3a92,
     0xfd2e, 0xed0f, 0xdd6c, 0xcd4d, 0xbdaa, 0xad8b, 0x9de8, 0x8dc9,
     0x7c26, 0x6c07, 0x5c64, 0x4c45, 0x3ca2, 0x2c83, 0x1ce0, 0x0cc1,
     0xef1f, 0xff3e, 0xcf5d, 0xdf7c, 0xaf9b, 0xbfba, 0x8fd9, 0x9ff8,
     0x6e17, 0x7e36, 0x4e55, 0x5e74, 0x2e93, 0x3eb2, 0x0ed1, 0x1ef0]"

definition ccitt_tableLo16 :: "u16 list" where
  "ccitt_tableLo16 =
    [0x0000, 0x1021, 0x2042, 0x3063, 0x4084, 0x50a5, 0x60c6, 0x70e7,
     0x8108, 0x9129, 0xa14a, 0xb16b, 0xc18c, 0xd1ad, 0xe1ce, 0xf1ef]"

definition ccitt_tableHi16 :: "u16 list" where
  "ccitt_tableHi16 =
    [0x0000, 0x1231, 0x2462, 0x3653, 0x48c4, 0x5af5, 0x6ca6, 0x7e97,
     0x9188, 0x83b9, 0xb5ea, 0xa7db, 0xd94c, 0xcb7d, 0xfd2e, 0xef1f]"


subsection \<open>Bitwise reference\<close>

text \<open>One bit of a CRC that shifts to the right, and of one that shifts to the left.\<close>

definition step_right :: "'a::len word \<Rightarrow> 'a word \<Rightarrow> 'a word" where
  "step_right poly s = (if bit s 0 then drop_bit 1 s XOR poly else drop_bit 1 s)"

definition step_left :: "'a::len word \<Rightarrow> 'a word \<Rightarrow> 'a word" where
  "step_left poly s = (if bit s (LENGTH('a) - 1) then push_bit 1 s XOR poly else push_bit 1 s)"

definition byte_right :: "'a::len word \<Rightarrow> 'a word \<Rightarrow> 'a word" where
  "byte_right poly s = (step_right poly ^^ 8) s"

definition byte_left :: "'a::len word \<Rightarrow> 'a word \<Rightarrow> 'a word" where
  "byte_left poly s = (step_left poly ^^ 8) s"

lemma step_right_xor: "step_right p (a XOR b) = step_right p a XOR step_right p b"
  by (rule bit_word_eqI) (auto simp: step_right_def bit_simps)

lemma step_left_xor: "step_left p (a XOR b) = step_left p a XOR step_left p b"
  by (rule bit_word_eqI) (auto simp: step_left_def bit_simps)

lemma funpow_xor:
  fixes f :: "'a::len word \<Rightarrow> 'a word"
  assumes f: "\<And>a b. f (a XOR b) = f a XOR f b"
  shows "(f ^^ n) (a XOR b) = (f ^^ n) a XOR (f ^^ n) b"
proof (induction n)
  case (Suc n)
  then show ?case by (simp add: f)
qed simp

lemma byte_right_xor: "byte_right p (a XOR b) = byte_right p a XOR byte_right p b"
  unfolding byte_right_def by (rule funpow_xor, rule step_right_xor)

lemma byte_left_xor: "byte_left p (a XOR b) = byte_left p a XOR byte_left p b"
  unfolding byte_left_def by (rule funpow_xor, rule step_left_xor)

subsection \<open>Tables of linear functions\<close>

text \<open>
  The table of a function that commutes with exclusive or is determined by its
  values at the powers of two: every further bit of the index doubles the table.
\<close>

fun linear_table :: "'a::len word list \<Rightarrow> 'a word list" where
  "linear_table [] = [0]"
| "linear_table (v # vs) = (let t = linear_table vs in t @ map (\<lambda>w. w XOR v) t)"

lemma linear_table_length: "length (linear_table vs) = 2 ^ length vs"
  by (induction vs) (simp_all add: Let_def)

lemma linear_table_nth:
  fixes f :: "'a::len word \<Rightarrow> 'b::len word"
  assumes f: "\<And>a b. f (a XOR b) = f a XOR f b" and x: "unat x < 2 ^ k" "k \<le> LENGTH('a)"
  shows "linear_table (map (\<lambda>i. f (2 ^ i)) (rev [0..<k])) ! unat x = f x"
  using x
proof (induction k arbitrary: x)
  case 0
  have "f (0 XOR 0) = f 0 XOR f 0" by (rule f)
  then have "f 0 = 0" by simp
  then show ?case using 0 by (simp add: unat_eq_zero)
next
  case (Suc k)
  let ?t = "linear_table (map (\<lambda>i. f (2 ^ i)) (rev [0..<k]))"
  have len: "length ?t = 2 ^ k" by (simp add: linear_table_length)
  have t: "linear_table (map (\<lambda>i. f (2 ^ i)) (rev [0..<Suc k])) = ?t @ map (\<lambda>w. w XOR f (2 ^ k)) ?t"
    by (simp add: Let_def)
  show ?case
  proof (cases "unat x < 2 ^ k")
    case True
    then have "?t ! unat x = f x" using Suc.IH Suc.prems(2) by simp
    then show ?thesis unfolding t nth_append len using True by simp
  next
    case False
    define y where "y = take_bit k x"
    have "unat y = unat x mod 2 ^ k" unfolding y_def unsigned_take_bit_eq by (rule take_bit_eq_mod)
    also have "\<dots> = unat x - 2 ^ k"
      using Suc.prems(1) False by (subst mod_if) (simp add: not_less le_mod_geq)
    finally have uy: "unat y = unat x - 2 ^ k" .
    have "x = y XOR 2 ^ k"
    proof (rule bit_word_eqI)
      fix n assume n: "n < LENGTH('a)"
      have "take_bit (Suc k) x = x" using Suc.prems(1) by (rule take_bit_unat_less)
      then have hi: "bit x n \<Longrightarrow> n < Suc k" by (metis bit_take_bit_iff)
      have "unat x div 2 ^ k = 1"
        using Suc.prems(1) False by (intro div_nat_eqI) simp_all
      then have "bit (unat x) k" by (simp add: bit_iff_odd)
      then have "bit x k" by (simp add: bit_unsigned_iff)
      then show "bit x n \<longleftrightarrow> bit (y XOR 2 ^ k) n"
        using n hi by (auto simp: y_def bit_simps less_Suc_eq)
    qed
    then have "f x = f y XOR f (2 ^ k)" using f by metis
    moreover have "?t ! unat y = f y" using Suc.IH [of y] uy Suc.prems False by simp
    moreover have "unat y < 2 ^ k" using uy Suc.prems(1) False by simp
    ultimately show ?thesis unfolding t nth_append len using False uy by (simp add: len)
  qed
qed

lemmas linear_simps = linear_table.simps Let_def list.map append.simps

lemma dallas_table_linear:
  "dallas_table256 = linear_table [0x8c, 0x46, 0x23, 0x9d, 0xc2, 0x61, 0xbc, 0x5e]"
  unfolding dallas_table256_def by (simp add: Let_def)

lemma ccitt_table_linear:
  "ccitt_table256 = linear_table [0x9188, 0x48c4, 0x2462, 0x1231, 0x8108, 0x4084, 0x2042, 0x1021]"
  unfolding ccitt_table256_def by (simp add: Let_def)

lemma small_tables_linear:
  "dallas_tableLo16 = linear_table [0xc2, 0x61, 0xbc, 0x5e]"
  "dallas_tableHi16 = linear_table [0x8c, 0x46, 0x23, 0x9d]"
  "ccitt_tableLo16 = linear_table [0x8108, 0x4084, 0x2042, 0x1021]"
  "ccitt_tableHi16 = linear_table [0x9188, 0x48c4, 0x2462, 0x1231]"
  "CRC16_IBM_LO = linear_table [0xc601, 0xc301, 0xc181, 0xc0c1]"
  "CRC16_IBM_HI = linear_table [0xa001, 0xf001, 0xd801, 0xcc01]"
  unfolding dallas_tableLo16_def dallas_tableHi16_def ccitt_tableLo16_def ccitt_tableHi16_def
    CRC16_IBM_LO_def CRC16_IBM_HI_def
  by (simp_all add: Let_def)

lemma funpow_8: "(f ^^ 8) s = f (f (f (f (f (f (f (f s)))))))"
  by (simp add: eval_nat_numeral)

lemma byte_literals:
  "byte_right (0x8c :: u8) 1 = 0x5e" "byte_right (0x8c :: u8) 2 = 0xbc" "byte_right (0x8c :: u8) 4 = 0x61"
  "byte_right (0x8c :: u8) 8 = 0xc2" "byte_right (0x8c :: u8) 16 = 0x9d" "byte_right (0x8c :: u8) 32 = 0x23"
  "byte_right (0x8c :: u8) 64 = 0x46" "byte_right (0x8c :: u8) 128 = 0x8c"
  by (simp_all add: byte_right_def funpow_8 step_right_def bit_0)

lemma byte_left_literals:
  "byte_left (0x1021 :: u16) 0x100 = 0x1021" "byte_left (0x1021 :: u16) 0x200 = 0x2042"
  "byte_left (0x1021 :: u16) 0x400 = 0x4084" "byte_left (0x1021 :: u16) 0x800 = 0x8108"
  "byte_left (0x1021 :: u16) 0x1000 = 0x1231" "byte_left (0x1021 :: u16) 0x2000 = 0x2462"
  "byte_left (0x1021 :: u16) 0x4000 = 0x48c4" "byte_left (0x1021 :: u16) 0x8000 = 0x9188"
  by (simp_all add: byte_left_def funpow_8 step_left_def)

lemma byte_right_16_literals:
  "byte_right (0xa001 :: u16) 1 = 0xc0c1" "byte_right (0xa001 :: u16) 2 = 0xc181"
  "byte_right (0xa001 :: u16) 4 = 0xc301" "byte_right (0xa001 :: u16) 8 = 0xc601"
  "byte_right (0xa001 :: u16) 16 = 0xcc01" "byte_right (0xa001 :: u16) 32 = 0xd801"
  "byte_right (0xa001 :: u16) 64 = 0xf001" "byte_right (0xa001 :: u16) 128 = 0xa001"
  by (simp_all add: byte_right_def funpow_8 step_right_def bit_0)

end
