(* ===== verification/Crc.thy ===== *)
theory Crc
  imports CrcTables
begin

section \<open>CRC-16-IBM, CRC-8-Dallas and CRC-16-CCITT (utils/Crc.hxx, utils/Crc.cpp)\<close>

text \<open>
  The checksum computations, each in all the variants the code has: bit by bit, with
  tables for half bytes and with a table for bytes. A state is the value of the
  register; a class is modelled by its methods on that value.
\<close>

subsection \<open>CRC-16-IBM\<close>

definition crc_16_ibm_init_value :: u16 where "crc_16_ibm_init_value = 0"
definition crc_16_ibm_poly :: u16 where "crc_16_ibm_poly = 0xA001"

definition reverse_step :: "u8 \<times> u8 \<Rightarrow> u8 \<times> u8" where
  "reverse_step p = (case p of (out, data) \<Rightarrow> (push_bit 1 out OR (data AND 1), drop_bit 1 data))"

definition reverse :: "u8 \<Rightarrow> u8" where
  "reverse data = fst ((reverse_step ^^ 8) (0, data))"

definition crc_16_ibm_add :: "u16 \<Rightarrow> u8 \<Rightarrow> u16" where
  "crc_16_ibm_add state data =
     (let state = state XOR ucast data
      in drop_bit 8 state XOR CRC16_IBM_LO ! unat (state AND 0xf) XOR
         CRC16_IBM_HI ! unat (drop_bit 4 state AND 0xf))"

definition basic_bit :: "u16 \<Rightarrow> u16" where
  "basic_bit state = (if state AND 1 \<noteq> 0 then drop_bit 1 state XOR crc_16_ibm_poly else drop_bit 1 state)"

definition crc_16_ibm_add_basic :: "u16 \<Rightarrow> u8 \<Rightarrow> u16" where
  "crc_16_ibm_add_basic state data = (basic_bit ^^ 8) (state XOR ucast data)"

definition crc_16_ibm_finish :: "u16 \<Rightarrow> u16" where
  "crc_16_ibm_finish state = state"

definition crc_16_ibm :: "u8 list \<Rightarrow> u16" where
  "crc_16_ibm data = crc_16_ibm_finish (foldl crc_16_ibm_add crc_16_ibm_init_value data)"

text \<open>The loop of the triple checksum; \<open>i\<close> counts from one.\<close>

fun crc3_ibm_loop :: "nat \<Rightarrow> u8 list \<Rightarrow> u16 \<times> u16 \<times> u16 \<Rightarrow> u16 \<times> u16 \<times> u16" where
  "crc3_ibm_loop i [] s = s"
| "crc3_ibm_loop i (b # bs) (s1, s2, s3) =
     (let s1 = crc_16_ibm_add s1 b
      in if odd i then crc3_ibm_loop (i + 1) bs (s1, crc_16_ibm_add s2 b, s3)
         else crc3_ibm_loop (i + 1) bs (s1, s2, crc_16_ibm_add s3 b))"

definition crc3_crc16_ibm :: "u8 list \<Rightarrow> u16 \<times> u16 \<times> u16" where
  "crc3_crc16_ibm data =
     (let (s1, s2, s3) = crc3_ibm_loop 1 data (crc_16_ibm_init_value, crc_16_ibm_init_value, crc_16_ibm_init_value)
      in (crc_16_ibm_finish s1, crc_16_ibm_finish s2, crc_16_ibm_finish s3))"

subsection \<open>CRC-8 of Dallas and Maxim\<close>

definition dallas_init :: u8 where "dallas_init = 0"
definition dallas_get :: "u8 \<Rightarrow> u8" where "dallas_get state = state"
definition dallas_check_ok :: "u8 \<Rightarrow> bool" where "dallas_check_ok state \<longleftrightarrow> state = 0"
definition dallas_check_ok_byte :: "u8 \<Rightarrow> u8 \<Rightarrow> bool" where
  "dallas_check_ok_byte state checksum_byte \<longleftrightarrow> state = checksum_byte"

definition dallas_update0 :: "u8 \<Rightarrow> u8 \<Rightarrow> u8" where
  "dallas_update0 state message_byte =
     (let data = state XOR message_byte; crc = 0;
          crc = (if data AND 1 \<noteq> 0 then crc XOR 0x5e else crc);
          crc = (if data AND 2 \<noteq> 0 then crc XOR 0xbc else crc);
          crc = (if data AND 4 \<noteq> 0 then crc XOR 0x61 else crc);
          crc = (if data AND 8 \<noteq> 0 then crc XOR 0xc2 else crc);
          crc = (if data AND 0x10 \<noteq> 0 then crc XOR 0x9d else crc);
          crc = (if data AND 0x20 \<noteq> 0 then crc XOR 0x23 else crc);
          crc = (if data AND 0x40 \<noteq> 0 then crc XOR 0x46 else crc);
          crc = (if data AND 0x80 \<noteq> 0 then crc XOR 0x8c else crc)
      in crc)"

definition dallas_update16 :: "u8 \<Rightarrow> u8 \<Rightarrow> u8" where
  "dallas_update16 state message_byte =
     (let data = state XOR message_byte
      in dallas_tableLo16 ! unat (data AND 0xf) XOR dallas_tableHi16 ! unat (drop_bit 4 data))"

definition dallas_update256 :: "u8 \<Rightarrow> u8 \<Rightarrow> u8" where
  "dallas_update256 state message_byte = dallas_table256 ! unat (state XOR message_byte)"

text \<open>\<open>tsize\<close> is \<open>CRC8DALLAS_TABLE_SIZE\<close>; other values than these do not compile.\<close>

definition dallas_update :: "nat \<Rightarrow> u8 \<Rightarrow> u8 \<Rightarrow> u8" where
  "dallas_update tsize =
     (if tsize = 0 then dallas_update0 else if tsize = 16 then dallas_update16 else dallas_update256)"

subsection \<open>CRC-16-CCITT\<close>

definition ccitt_init :: u16 where "ccitt_init = 0xFFFF"
definition ccitt_get :: "u16 \<Rightarrow> u16" where "ccitt_get state = state"
definition ccitt_check_ok :: "u16 \<Rightarrow> bool" where "ccitt_check_ok state \<longleftrightarrow> state = 0"
definition ccitt_check_ok_checksum :: "u16 \<Rightarrow> u16 \<Rightarrow> bool" where
  "ccitt_check_ok_checksum state checksum \<longleftrightarrow> state = checksum"

definition ccitt_update16 :: "u16 \<Rightarrow> u8 \<Rightarrow> u16" where
  "ccitt_update16 state message_byte =
     (let data = ucast (drop_bit 8 state) XOR message_byte :: u8
      in push_bit 8 state XOR ccitt_tableLo16 ! unat (data AND 0xF) XOR ccitt_tableHi16 ! unat (drop_bit 4 data))"

definition ccitt_update256 :: "u16 \<Rightarrow> u8 \<Rightarrow> u16" where
  "ccitt_update256 state message_byte =
     push_bit 8 state XOR ccitt_table256 ! unat (drop_bit 8 state XOR ucast message_byte)"

definition ccitt_update :: "nat \<Rightarrow> u16 \<Rightarrow> u8 \<Rightarrow> u16" where
  "ccitt_update tsize = (if tsize = 16 then ccitt_update16 else ccitt_update256)"

definition ccitt_crc :: "nat \<Rightarrow> u8 list \<Rightarrow> u16" where
  "ccitt_crc tsize data = foldl (ccitt_update tsize) ccitt_init data"

fun crc3_ccitt_loop :: "nat \<Rightarrow> nat \<Rightarrow> u8 list \<Rightarrow> u16 \<times> u16 \<times> u16 \<Rightarrow> u16 \<times> u16 \<times> u16" where
  "crc3_ccitt_loop tsize i [] s = s"
| "crc3_ccitt_loop tsize i (b # bs) (all, ev, od) =
     (let all = ccitt_update tsize all b
      in if odd i then crc3_ccitt_loop tsize (i + 1) bs (all, ev, ccitt_update tsize od b)
         else crc3_ccitt_loop tsize (i + 1) bs (all, ccitt_update tsize ev b, od))"

definition crc3_crc16_ccitt :: "nat \<Rightarrow> u8 list \<Rightarrow> u16 \<times> u16 \<times> u16" where
  "crc3_crc16_ccitt tsize data =
     (let (all, ev, od) = crc3_ccitt_loop tsize 0 data (ccitt_init, ccitt_init, ccitt_init)
      in (ccitt_get all, ccitt_get ev, ccitt_get od))"

subsection \<open>Equivalence of the variants\<close>

lemma nibble_split:
  fixes x :: "'a::len word"
  shows "x = push_bit k (drop_bit k x) XOR take_bit k x"
  by (rule bit_word_eqI) (auto simp: bit_simps)

lemma push_xor: "push_bit k (a XOR b) = push_bit k a XOR (push_bit k b :: 'a::len word)"
  by (rule bit_word_eqI) (auto simp: bit_simps)

lemma ucast_xor: "(ucast (a XOR b) :: 'b::len word) = ucast a XOR ucast (b :: 'a::len word)"
  by (rule bit_word_eqI) (auto simp: bit_simps)

lemma take_bit_bound: "k < LENGTH('a) \<Longrightarrow> unat (take_bit k (x :: 'a::len word)) < 2 ^ k"
  by (simp add: unsigned_take_bit_eq)

lemma upt_rev: "rev [0..<4] = [3, 2, 1, 0 :: nat]" "rev [0..<8] = [7, 6, 5, 4, 3, 2, 1, 0 :: nat]"
  by (simp_all add: upt_rec)

declare linear_table.simps [simp del]

lemma byte_right_push_xor: "byte_right p (push_bit k (a XOR b)) = byte_right p (push_bit k a) XOR byte_right p (push_bit k b)"
  by (simp add: push_xor byte_right_xor)

lemma dallas_256: "dallas_table256 ! unat x = byte_right 0x8c x"
  using linear_table_nth [of "byte_right (0x8c :: u8)" x 8, OF byte_right_xor]
  by (simp add: dallas_table_linear upt_rev byte_literals)

lemma dallas_lo: "unat x < 16 \<Longrightarrow> dallas_tableLo16 ! unat x = byte_right 0x8c x"
  using linear_table_nth [of "byte_right (0x8c :: u8)" x 4, OF byte_right_xor]
  by (simp add: small_tables_linear upt_rev byte_literals)

lemma dallas_hi: "unat x < 16 \<Longrightarrow> dallas_tableHi16 ! unat x = byte_right 0x8c (push_bit 4 x)"
  using linear_table_nth [of "\<lambda>x. byte_right (0x8c :: u8) (push_bit 4 x)" x 4, OF byte_right_push_xor]
  by (simp add: small_tables_linear upt_rev byte_literals)

lemma ibm_lo: "unat x < 16 \<Longrightarrow> CRC16_IBM_LO ! unat x = byte_right 0xA001 x"
  using linear_table_nth [of "byte_right (0xA001 :: u16)" x 4, OF byte_right_xor]
  by (simp add: small_tables_linear upt_rev byte_right_16_literals)

lemma ibm_hi: "unat x < 16 \<Longrightarrow> CRC16_IBM_HI ! unat x = byte_right 0xA001 (push_bit 4 x)"
  using linear_table_nth [of "\<lambda>x. byte_right (0xA001 :: u16) (push_bit 4 x)" x 4, OF byte_right_push_xor]
  by (simp add: small_tables_linear upt_rev byte_right_16_literals)

lemma ccitt_linear: "byte_left p (push_bit k (ucast (a XOR b :: u8))) =
    byte_left p (push_bit k (ucast a)) XOR byte_left (p :: u16) (push_bit k (ucast b))"
  by (simp add: ucast_xor push_xor byte_left_xor)

lemma ccitt_256: "ccitt_table256 ! unat (x :: u8) = byte_left 0x1021 (push_bit 8 (ucast x))"
  using linear_table_nth [of "\<lambda>x. byte_left (0x1021 :: u16) (push_bit 8 (ucast (x :: u8)))" x 8, OF ccitt_linear]
  by (simp add: ccitt_table_linear upt_rev byte_left_literals)

lemma ccitt_lo: "unat (x :: u8) < 16 \<Longrightarrow> ccitt_tableLo16 ! unat x = byte_left 0x1021 (push_bit 8 (ucast (x :: u8)))"
  using linear_table_nth [of "\<lambda>x. byte_left (0x1021 :: u16) (push_bit 8 (ucast (x :: u8)))" x 4, OF ccitt_linear]
  by (simp add: small_tables_linear upt_rev byte_left_literals)

lemma ccitt_hi: "unat (x :: u8) < 16 \<Longrightarrow> ccitt_tableHi16 ! unat x = byte_left 0x1021 (push_bit 12 (ucast (x :: u8)))"
  using linear_table_nth [of "\<lambda>x. byte_left (0x1021 :: u16) (push_bit 12 (ucast (x :: u8)))" x 4, OF ccitt_linear]
  by (simp add: small_tables_linear upt_rev byte_left_literals)

lemma low_nibble: "unat (x AND 0xf :: u8) < 16" "unat (drop_bit 4 (x :: u8)) < 16" "unat (y AND 0xf :: u16) < 16"
proof -
  show "unat (x AND 0xf :: u8) < 16" "unat (y AND 0xf :: u16) < 16"
    using take_bit_bound [of 4 x] take_bit_bound [of 4 y] by (simp_all add: and_literal_mask)
  have "unat (drop_bit 4 x) = unat x div 2 ^ 4" unfolding unat_drop_bit_eq by (rule drop_bit_eq_div)
  then show "unat (drop_bit 4 x) < 16" using word8_lt_256 [of x] by (simp add: less_mult_imp_div_less)
qed

lemma dallas_16_eq: "dallas_update16 s m = byte_right 0x8c (s XOR m)"
proof -
  define d where "d = s XOR m"
  have "dallas_update16 s m = byte_right 0x8c (d AND 0xf) XOR byte_right 0x8c (push_bit 4 (drop_bit 4 d))"
    by (simp only: dallas_update16_def Let_def d_def dallas_lo [OF low_nibble(1)] dallas_hi [OF low_nibble(2)])
  also have "\<dots> = byte_right 0x8c (take_bit 4 d XOR push_bit 4 (drop_bit 4 d))"
    by (simp only: byte_right_xor and_literal_mask)
  also have "take_bit 4 d XOR push_bit 4 (drop_bit 4 d) = d"
    using nibble_split [of d 4] by (simp add: xor.commute)
  finally show ?thesis by (simp add: d_def)
qed

lemma dallas_256_eq: "dallas_update256 s m = byte_right 0x8c (s XOR m)"
  by (simp only: dallas_update256_def dallas_256)

lemma byte_bits:
  fixes d :: u8
  shows "d = (if bit d 0 then 1 else 0) XOR (if bit d 1 then 2 else 0) XOR (if bit d 2 then 4 else 0) XOR
    (if bit d 3 then 8 else 0) XOR (if bit d 4 then 16 else 0) XOR (if bit d 5 then 32 else 0) XOR
    (if bit d 6 then 64 else 0) XOR (if bit d 7 then 128 else 0)"
proof (rule bit_word_eqI)
  fix n assume "n < LENGTH(8)"
  then consider "n = 0" | "n = 1" | "n = 2" | "n = 3" | "n = 4" | "n = 5" | "n = 6" | "n = 7" by fastforce
  then show "bit d n \<longleftrightarrow> bit ((if bit d 0 then 1 else 0) XOR (if bit d 1 then 2 else 0) XOR (if bit d 2 then 4 else 0) XOR
    (if bit d 3 then 8 else 0) XOR (if bit d 4 then 16 else 0) XOR (if bit d 5 then 32 else 0) XOR
    (if bit d 6 then 64 else 0) XOR (if bit d 7 then 128 else 0) :: u8) n"
    by cases (simp_all add: bit_simps bit_0)
qed

lemma and_bit: "(d AND 1 \<noteq> (0 :: u8)) = bit d 0" "(d AND 2 \<noteq> (0 :: u8)) = bit d 1" "(d AND 4 \<noteq> (0 :: u8)) = bit d 2"
  "(d AND 8 \<noteq> (0 :: u8)) = bit d 3" "(d AND 16 \<noteq> (0 :: u8)) = bit d 4" "(d AND 32 \<noteq> (0 :: u8)) = bit d 5"
  "(d AND 64 \<noteq> (0 :: u8)) = bit d 6" "(d AND 128 \<noteq> (0 :: u8)) = bit d 7"
  using and_exp_eq_0_iff_not_bit [of d 0] and_exp_eq_0_iff_not_bit [of d 1] and_exp_eq_0_iff_not_bit [of d 2]
    and_exp_eq_0_iff_not_bit [of d 3] and_exp_eq_0_iff_not_bit [of d 4] and_exp_eq_0_iff_not_bit [of d 5]
    and_exp_eq_0_iff_not_bit [of d 6] and_exp_eq_0_iff_not_bit [of d 7] by simp_all

lemma if_xor: "(if c then w XOR k else w) = w XOR (if c then k else (0 :: u8))"
  by simp

lemma byte_right_if: "byte_right p (if c then v else 0) = (if c then byte_right p v else 0)"
proof -
  have "byte_right p (0 XOR 0) = byte_right p 0 XOR byte_right p 0" by (rule byte_right_xor)
  then show ?thesis by simp
qed

lemma dallas_0_eq: "dallas_update0 s m = byte_right 0x8c (s XOR m)"
proof -
  have "byte_right 0x8c d = 0 XOR (if bit d 0 then 0x5e else 0) XOR (if bit d 1 then 0xbc else 0) XOR
    (if bit d 2 then 0x61 else 0) XOR (if bit d 3 then 0xc2 else 0) XOR (if bit d 4 then 0x9d else 0) XOR
    (if bit d 5 then 0x23 else 0) XOR (if bit d 6 then 0x46 else 0) XOR (if bit d 7 then 0x8c else 0)" for d :: u8
    by (subst byte_bits [of d]) (simp only: byte_right_xor byte_right_if byte_literals xor.assoc xor.left_neutral)
  then show ?thesis unfolding dallas_update0_def Let_def if_xor and_bit by simp
qed

text \<open>The low bits of a register that are zero are shifted out unchanged.\<close>

lemma steps_right_zero: "(\<And>i. i < n \<Longrightarrow> \<not> bit s i) \<Longrightarrow> (step_right p ^^ n) s = drop_bit n s"
proof (induction n)
  case (Suc n)
  have "\<not> bit (drop_bit n s) 0" using Suc.prems [of n] by (simp add: bit_simps)
  then show ?case using Suc by (simp add: step_right_def)
qed simp

lemma steps_left_zero:
  fixes s :: "'a::len word"
  shows "n \<le> LENGTH('a) \<Longrightarrow> (\<And>i. LENGTH('a) - n \<le> i \<Longrightarrow> \<not> bit s i) \<Longrightarrow> (step_left p ^^ n) s = push_bit n s"
proof (induction n)
  case (Suc n)
  have "\<not> bit (push_bit n s) (LENGTH('a) - 1)"
    using Suc.prems(1) Suc.prems(2) [of "LENGTH('a) - 1 - n"] by (auto simp: bit_simps)
  then show ?case using Suc by (simp add: step_left_def)
qed simp

lemma byte_right_split: "byte_right p (s :: u16) = drop_bit 8 s XOR byte_right p (take_bit 8 s)"
proof -
  have "byte_right p (push_bit 8 (drop_bit 8 s)) = drop_bit 8 (push_bit 8 (drop_bit 8 s))"
    unfolding byte_right_def by (rule steps_right_zero) (simp add: bit_simps)
  also have "\<dots> = drop_bit 8 s" by (rule bit_word_eqI) (auto simp: bit_simps dest: bit_imp_le_length)
  finally show ?thesis by (subst nibble_split [of s 8]) (simp only: byte_right_xor)
qed

lemma byte_left_split: "byte_left p (s :: u16) = push_bit 8 s XOR byte_left p (push_bit 8 (drop_bit 8 s))"
proof -
  have "byte_left p (take_bit 8 s) = push_bit 8 (take_bit 8 s)"
    unfolding byte_left_def by (rule steps_left_zero) (simp_all add: bit_simps)
  also have "\<dots> = push_bit 8 s" by (rule bit_word_eqI) (auto simp: bit_simps)
  finally show ?thesis by (subst nibble_split [of s 8]) (simp only: byte_left_xor xor.commute)
qed

lemma ibm_basic_eq: "crc_16_ibm_add_basic s m = byte_right 0xA001 (s XOR ucast m)"
proof -
  have "basic_bit = step_right 0xA001"
    using and_exp_eq_0_iff_not_bit [where n = 0 and 'a = "16 word"]
    by (auto simp: fun_eq_iff basic_bit_def step_right_def crc_16_ibm_poly_def)
  then show ?thesis by (simp add: crc_16_ibm_add_basic_def byte_right_def)
qed

lemma ibm_add_eq: "crc_16_ibm_add state data = byte_right 0xA001 (state XOR ucast data)"
proof -
  define s where "s = state XOR (ucast data :: u16)"
  have lo: "CRC16_IBM_LO ! unat (s AND 0xf) = byte_right 0xA001 (s AND 0xf)"
    by (rule ibm_lo) (rule low_nibble(3))
  have hi: "CRC16_IBM_HI ! unat (drop_bit 4 s AND 0xf) = byte_right 0xA001 (push_bit 4 (drop_bit 4 s AND 0xf))"
    by (rule ibm_hi) (rule low_nibble(3))
  have "take_bit 8 s = (s AND 0xf) XOR push_bit 4 (drop_bit 4 s AND 0xf)"
    by (rule bit_word_eqI) (auto simp: and_literal_mask bit_simps)
  then have "byte_right 0xA001 (take_bit 8 s) =
      byte_right 0xA001 (s AND 0xf) XOR byte_right 0xA001 (push_bit 4 (drop_bit 4 s AND 0xf))"
    by (simp only: byte_right_xor)
  moreover have "crc_16_ibm_add state data = drop_bit 8 s XOR CRC16_IBM_LO ! unat (s AND 0xf) XOR
      CRC16_IBM_HI ! unat (drop_bit 4 s AND 0xf)"
    by (simp only: crc_16_ibm_add_def Let_def s_def)
  ultimately show ?thesis
    unfolding s_def [symmetric] byte_right_split [of _ s] lo hi by (simp only: xor.assoc)
qed

lemma ccitt_256_eq: "ccitt_update256 s m = byte_left 0x1021 (s XOR push_bit 8 (ucast m))"
proof -
  define d where "d = ucast (drop_bit 8 s) XOR m"
  have u: "unat (drop_bit 8 s XOR ucast m) = unat d"
  proof -
    have "drop_bit 8 s XOR ucast m = (ucast d :: u16)"
      by (rule bit_word_eqI) (auto simp: d_def bit_simps dest: bit_imp_le_length)
    moreover have "take_bit 16 (unat d) = unat d"
      by (subst take_bit_nat_eq_self_iff) (rule less_le_trans [OF word8_lt_256], simp)
    ultimately show ?thesis by (simp add: unsigned_ucast_eq)
  qed
  have "push_bit 8 (drop_bit 8 (s XOR push_bit 8 (ucast m))) = push_bit 8 (ucast d :: u16)"
    "push_bit 8 (s XOR push_bit 8 (ucast m)) = push_bit 8 s"
    by (rule bit_word_eqI, auto simp: d_def bit_simps dest: bit_imp_le_length)+
  then show ?thesis
    unfolding ccitt_update256_def u ccitt_256 byte_left_split [of _ "s XOR push_bit 8 (ucast m)"] by simp
qed

lemma ccitt_16_eq: "ccitt_update16 s m = byte_left 0x1021 (s XOR push_bit 8 (ucast m))"
proof -
  define d where "d = ucast (drop_bit 8 s) XOR m"
  have "push_bit 8 (drop_bit 8 (s XOR push_bit 8 (ucast m))) =
      push_bit 8 (ucast (d AND 0xf)) XOR push_bit 12 (ucast (drop_bit 4 d) :: u16)"
    "push_bit 8 (s XOR push_bit 8 (ucast m)) = push_bit 8 s"
    by (rule bit_word_eqI, auto simp: d_def bit_simps and_literal_mask dest: bit_imp_le_length)+
  then show ?thesis
    unfolding ccitt_update16_def Let_def d_def [symmetric] ccitt_lo [OF low_nibble(1)] ccitt_hi [OF low_nibble(2)]
      byte_left_split [of _ "s XOR push_bit 8 (ucast m)"]
    by (simp only: byte_left_xor xor.assoc)
qed

subsection \<open>Properties\<close>

lemma updates_equal_reference_raw:
  "dallas_update tsize state m = byte_right 0x8c (state XOR m)"
  "ccitt_update tsize' state' m = byte_left 0x1021 (state' XOR push_bit 8 (ucast m))"
  by (simp_all add: dallas_update_def ccitt_update_def dallas_0_eq dallas_16_eq dallas_256_eq ccitt_16_eq ccitt_256_eq)

text \<open>
  C23: All variants of the CRC-8 and of the CRC-16-CCITT update compute the same step,
  that of the bitwise definition with the polynomial.
\<close>

theorem updates_equal_reference:
  "dallas_update tsize state m = byte_right 0x8c (state XOR m) \<and>
   ccitt_update tsize' state' m = byte_left 0x1021 (state' XOR push_bit 8 (ucast m))"
  by (simp add: updates_equal_reference_raw)

text \<open>C29: The table implementation of CRC-16-IBM computes what the bitwise one of the code does.\<close>

theorem ibm_add_equals_basic: "crc_16_ibm_add state data = crc_16_ibm_add_basic state data"
  by (simp add: ibm_add_eq ibm_basic_eq)

text \<open>A bitwise step loses no information when the polynomial has the bit that is shifted in.\<close>

lemma step_right_zero_iff: "bit p (LENGTH('a) - 1) \<Longrightarrow> step_right p s = 0 \<longleftrightarrow> s = (0 :: 'a::len word)"
proof
  assume p: "bit p (LENGTH('a) - 1)" and z: "step_right p s = 0"
  have b0: "\<not> bit s 0"
  proof
    assume "bit s 0"
    then have "bit (drop_bit 1 s XOR p) (LENGTH('a) - 1) = bit (0 :: 'a word) (LENGTH('a) - 1)" using z by (simp add: step_right_def)
    then show False using p by (simp add: bit_simps)
  qed
  then have d: "drop_bit 1 s = 0" using z by (simp add: step_right_def)
  show "s = 0"
  proof (rule bit_word_eqI)
    fix n
    have "bit (drop_bit 1 s) (n - 1) = bit s n" if "0 < n" using that by (simp add: bit_simps)
    then show "bit s n = bit 0 n" using d b0 by (cases "n = 0") auto
  qed
qed (simp add: step_right_def)

lemma step_left_zero_iff: "bit p 0 \<Longrightarrow> step_left p s = 0 \<longleftrightarrow> s = (0 :: 'a::len word)"
proof
  assume p: "bit p 0" and z: "step_left p s = 0"
  have b0: "\<not> bit s (LENGTH('a) - 1)"
  proof
    assume "bit s (LENGTH('a) - 1)"
    then have "bit (push_bit 1 s XOR p) 0 = bit (0 :: 'a word) 0" using z by (simp add: step_left_def)
    moreover have "\<not> bit (push_bit 1 s) 0" unfolding bit_push_bit_iff by simp
    ultimately show False using p by (simp only: bit_xor_iff) simp
  qed
  then have d: "push_bit 1 s = 0" using z by (simp add: step_left_def)
  show "s = 0"
  proof (rule bit_word_eqI)
    fix n assume n: "n < LENGTH('a)"
    have "bit (push_bit 1 s) (Suc n) = bit s n" if "Suc n < LENGTH('a)"
      unfolding bit_push_bit_iff using that by simp
    moreover have "\<not> bit s n" if "Suc n = LENGTH('a)" using b0 by (simp flip: that)
    ultimately show "bit s n = bit 0 n" using d n by (cases "Suc n = LENGTH('a)") auto
  qed
qed (simp add: step_left_def)

lemma linear_inject:
  fixes f :: "'a::len word \<Rightarrow> 'b::len word"
  assumes "\<And>a b. f (a XOR b) = f a XOR f b" "\<And>a. f a = 0 \<Longrightarrow> a = 0"
  shows "f a = f b \<longleftrightarrow> a = b"
  using assms(1) [of a b] assms(2) [of "a XOR b"] by (metis xor_self_eq word_bw_same(3) xor.assoc xor.right_neutral)

lemma funpow_zero:
  fixes f :: "'a::len word \<Rightarrow> 'a word"
  assumes "(f ^^ n) s = 0" "\<And>s. f s = 0 \<Longrightarrow> s = 0"
  shows "s = 0"
  using assms(1)
proof (induction n)
  case (Suc n)
  then show ?case using assms(2) [of "(f ^^ n) s"] by simp
qed simp

lemma dallas_step_inject: "byte_right (0x8c :: u8) a = byte_right 0x8c b \<longleftrightarrow> a = b"
proof (rule linear_inject [OF byte_right_xor])
  fix a :: u8
  assume "byte_right 0x8c a = 0"
  then show "a = 0" unfolding byte_right_def
    by (rule funpow_zero) (simp add: step_right_zero_iff)
qed

lemma ibm_step_inject: "byte_right (0xA001 :: u16) a = byte_right 0xA001 b \<longleftrightarrow> a = b"
proof (rule linear_inject [OF byte_right_xor])
  fix a :: u16
  assume "byte_right 0xA001 a = 0"
  then show "a = 0" unfolding byte_right_def
    by (rule funpow_zero) (simp add: step_right_zero_iff)
qed

lemma ccitt_step_inject: "byte_left (0x1021 :: u16) a = byte_left 0x1021 b \<longleftrightarrow> a = b"
proof (rule linear_inject [OF byte_left_xor])
  fix a :: u16
  assume "byte_left 0x1021 a = 0"
  then show "a = 0" unfolding byte_left_def
    by (rule funpow_zero) (simp add: step_left_zero_iff bit_0)
qed

lemma xor_cancel: "a XOR c = b XOR c \<longleftrightarrow> a = (b :: 'a::len word)" "c XOR a = c XOR b \<longleftrightarrow> a = b"
  by (metis xor.assoc xor_self_eq xor.right_neutral) (metis xor.assoc xor_self_eq xor.left_neutral)

lemma ucast_byte_inject: "(ucast (a :: u8) :: u16) = ucast b \<longleftrightarrow> a = b"
proof
  assume "(ucast a :: u16) = ucast b"
  then have "bit (ucast a :: u16) n = bit (ucast b :: u16) n" for n by simp
  then show "a = b" by (intro bit_word_eqI) (fastforce simp: bit_simps)
qed simp

lemma shifted_byte_inject: "push_bit 8 (ucast (a :: u8) :: u16) = push_bit 8 (ucast b) \<longleftrightarrow> a = b"
proof
  assume "push_bit 8 (ucast a :: u16) = push_bit 8 (ucast b)"
  then have "bit (push_bit 8 (ucast a) :: u16) (n + 8) = bit (push_bit 8 (ucast b) :: u16) (n + 8)" for n by simp
  then show "a = b" by (intro bit_word_eqI) (fastforce simp: bit_simps)
qed simp

text \<open>An update distinguishes both different bytes and different states.\<close>

lemma updates_inject:
  "dallas_update ts a m = dallas_update ts b m \<longleftrightarrow> a = b" "dallas_update ts a m = dallas_update ts a n \<longleftrightarrow> m = n"
  "crc_16_ibm_add s m = crc_16_ibm_add t m \<longleftrightarrow> s = t" "crc_16_ibm_add s m = crc_16_ibm_add s n \<longleftrightarrow> m = n"
  "ccitt_update ts s m = ccitt_update ts t m \<longleftrightarrow> s = t" "ccitt_update ts s m = ccitt_update ts s n \<longleftrightarrow> m = n"
  by (simp_all add: updates_equal_reference_raw ibm_add_eq dallas_step_inject ibm_step_inject ccitt_step_inject
      xor_cancel ucast_byte_inject shifted_byte_inject)

lemma foldl_inject:
  assumes "\<And>a b m. f a m = f b m \<longleftrightarrow> a = b" "\<And>a m n. f a m = f a n \<longleftrightarrow> m = n"
  shows "foldl f a (xs @ m # ys) = foldl f a (xs @ n # ys) \<longleftrightarrow> m = n"
proof -
  have "foldl f a ys = foldl f b ys \<longleftrightarrow> a = b" for a b by (induction ys arbitrary: a b) (simp_all add: assms(1))
  then show ?thesis by (simp add: assms(2))
qed

text \<open>
  Every CRC detects a change of any one byte of a message, at any length and with
  each of the tables.
\<close>

theorem crc_detects_byte_errors:
  "(crc_16_ibm (xs @ m # ys) = crc_16_ibm (xs @ n # ys) \<longleftrightarrow> m = n) \<and>
   (foldl (dallas_update ts) dallas_init (xs @ m # ys) = foldl (dallas_update ts) dallas_init (xs @ n # ys) \<longleftrightarrow> m = n) \<and>
   (ccitt_crc ts (xs @ m # ys) = ccitt_crc ts (xs @ n # ys) \<longleftrightarrow> m = n)"
  unfolding crc_16_ibm_def crc_16_ibm_finish_def ccitt_crc_def
  by (intro conjI foldl_inject) (simp_all only: updates_inject)

lemma byte_right_0 [simp]: "byte_right (0x8c :: u8) a = 0 \<longleftrightarrow> a = 0"
proof -
  have "byte_right (0x8c :: u8) 0 = 0" using byte_right_xor [of "0x8c :: u8" 0 0] by simp
  then show ?thesis using dallas_step_inject [where a = a and b = 0] by simp
qed

lemma xor_zero_iff: "a XOR b = 0 \<longleftrightarrow> a = (b :: 'a::len word)"
  using xor_cancel(1) [of a b b] by simp

text \<open>
  A message that is followed by its checksum passes the check: for CRC-8 exactly the
  right checksum byte does, for CRC-16-CCITT the two bytes in big endian order do.
\<close>

theorem check_after_checksum:
  "(dallas_check_ok (foldl (dallas_update ts) dallas_init (msg @ [c])) \<longleftrightarrow>
      dallas_check_ok_byte (foldl (dallas_update ts) dallas_init msg) c) \<and>
   ccitt_check_ok (foldl (ccitt_update ts) (ccitt_crc ts msg)
      [ucast (drop_bit 8 (ccitt_get (ccitt_crc ts msg))), ucast (ccitt_get (ccitt_crc ts msg))])"
proof
  show "dallas_check_ok (foldl (dallas_update ts) dallas_init (msg @ [c])) \<longleftrightarrow>
      dallas_check_ok_byte (foldl (dallas_update ts) dallas_init msg) c"
    by (simp add: dallas_check_ok_def dallas_check_ok_byte_def updates_equal_reference_raw xor_zero_iff)
next
  define s where "s = ccitt_crc ts msg"
  have z: "byte_left (0x1021 :: u16) 0 = 0"
    using byte_left_xor [of "0x1021 :: u16" 0 0] by simp
  have "s XOR push_bit 8 (ucast (ucast (drop_bit 8 s) :: u8)) = take_bit 8 s"
    by (rule bit_word_eqI) (auto simp: bit_simps dest: bit_imp_le_length)
  moreover have "drop_bit 8 (take_bit 8 s) = 0" "push_bit 8 (take_bit 8 s) = push_bit 8 s"
    by (rule bit_word_eqI, auto simp: bit_simps)+
  ultimately have 1: "ccitt_update ts s (ucast (drop_bit 8 s)) = push_bit 8 s"
    unfolding updates_equal_reference_raw by (subst byte_left_split) (simp add: z)
  have "push_bit 8 s XOR push_bit 8 (ucast (ucast s :: u8)) = 0"
    by (rule bit_word_eqI) (auto simp: bit_simps dest: bit_imp_le_length)
  then have "ccitt_update ts (push_bit 8 s) (ucast s) = 0"
    unfolding updates_equal_reference_raw by (simp add: z)
  with 1 show "ccitt_check_ok (foldl (ccitt_update ts) (ccitt_crc ts msg)
      [ucast (drop_bit 8 (ccitt_get (ccitt_crc ts msg))), ucast (ccitt_get (ccitt_crc ts msg))])"
    by (simp add: ccitt_check_ok_def ccitt_get_def flip: s_def)
qed

text \<open>The bytes of a message at the odd positions, the first one being the first.\<close>

fun every_other :: "'a list \<Rightarrow> 'a list" where
  "every_other [] = []"
| "every_other [x] = [x]"
| "every_other (x # y # xs) = x # every_other xs"

lemma every_other_tl: "every_other (y # xs) = y # every_other (tl xs)"
  by (cases xs) simp_all

lemma crc3_ibm_loop_eq:
  "odd i \<Longrightarrow> crc3_ibm_loop i bs (s1, s2, s3) =
    (foldl crc_16_ibm_add s1 bs, foldl crc_16_ibm_add s2 (every_other bs), foldl crc_16_ibm_add s3 (every_other (tl bs)))"
  by (induction bs arbitrary: i s1 s2 s3 rule: every_other.induct) (simp_all add: Let_def every_other_tl)

lemma crc3_ccitt_loop_eq:
  "even i \<Longrightarrow> crc3_ccitt_loop ts i bs (s1, s2, s3) =
    (foldl (ccitt_update ts) s1 bs, foldl (ccitt_update ts) s2 (every_other bs), foldl (ccitt_update ts) s3 (every_other (tl bs)))"
  by (induction bs arbitrary: i s1 s2 s3 rule: every_other.induct) (simp_all add: Let_def every_other_tl)

text \<open>The triple checksums are those of the message and of the bytes at its odd and even positions.\<close>

theorem triple_checksums:
  "crc3_crc16_ibm data = (crc_16_ibm data, crc_16_ibm (every_other data), crc_16_ibm (every_other (tl data))) \<and>
   crc3_crc16_ccitt ts data = (ccitt_crc ts data, ccitt_crc ts (every_other data), ccitt_crc ts (every_other (tl data)))"
  by (simp add: crc3_crc16_ibm_def crc3_crc16_ccitt_def crc3_ibm_loop_eq crc3_ccitt_loop_eq crc_16_ibm_def
      ccitt_crc_def ccitt_get_def crc_16_ibm_finish_def)

text \<open>The published check values, for the nine digits.\<close>

definition digits :: "u8 list" where
  "digits = [0x31, 0x32, 0x33, 0x34, 0x35, 0x36, 0x37, 0x38, 0x39]"

theorem check_values:
  "crc_16_ibm digits = 0xbb3d \<and> foldl (dallas_update ts) dallas_init digits = 0xa1 \<and> ccitt_crc ts' digits = 0x29b1"
  by (simp add: digits_def crc_16_ibm_def crc_16_ibm_finish_def crc_16_ibm_init_value_def ibm_add_eq dallas_init_def
      updates_equal_reference_raw ccitt_crc_def ccitt_init_def byte_right_def byte_left_def funpow_8
      step_right_def step_left_def bit_0)

end
