(* ===== verification/DccDefs.thy ===== *)
theory DccDefs
  imports Prelude
begin

section \<open>DCC constants and addresses (dcc/Defs.hxx, dcc/Defs.cpp, dcc/Address.hxx)\<close>

text \<open>
  The command bytes of the DCC and Marklin protocols, the address partitions of the
  logon protocol with \<open>decode_address_partition\<close>, the two numberings of accessory
  decoders, and the strongly typed address wrappers whose constructors assert a
  range. \<open>unsigned\<close> is 32 bits wide.
\<close>

named_theorems dcc_consts "values of the DCC constants"

subsection \<open>Enumerations\<close>

datatype TrainAddressType =
  DCC_SHORT_ADDRESS | DCC_LONG_ADDRESS | MM | DCC_ACCY_BASIC_OUTPUT | DCC_ACCY_EXT
| UNSUPPORTED | UNSPECIFIED

datatype LogonEnableParam = Logon_NOW | Logon_LOCO | Logon_ACC | Logon_ALL

fun logon_param_value :: "LogonEnableParam \<Rightarrow> u8" where
  "logon_param_value Logon_NOW = 3"
| "logon_param_value Logon_LOCO = 1"
| "logon_param_value Logon_ACC = 2"
| "logon_param_value Logon_ALL = 0"

subsection \<open>Protocol constants\<close>

definition MARKLIN_DEFAULT_CMD :: u8 where [dcc_consts]: "MARKLIN_DEFAULT_CMD = 0x26"
definition MARKLIN_CHANGE_DIR_B2 :: u8 where [dcc_consts]: "MARKLIN_CHANGE_DIR_B2 = 0xC0"
definition DCC_DEFAULT_CMD :: u8 where [dcc_consts]: "DCC_DEFAULT_CMD = 0"
definition DCC_LONG_PREAMBLE_CMD :: u8 where [dcc_consts]: "DCC_LONG_PREAMBLE_CMD = 0x0C"
definition DCC_SERVICE_MODE_5X_WITH_ACK_CMD :: u8 where [dcc_consts]: "DCC_SERVICE_MODE_5X_WITH_ACK_CMD = 0x38"
definition DCC_SERVICE_MODE_5X_CMD :: u8 where [dcc_consts]: "DCC_SERVICE_MODE_5X_CMD = 0x28"
definition DCC_SERVICE_MODE_1X_CMD :: u8 where [dcc_consts]: "DCC_SERVICE_MODE_1X_CMD = 0x08"
definition DCC_LONG_ADDRESS_FIRST :: u8 where [dcc_consts]: "DCC_LONG_ADDRESS_FIRST = 0xC0"
definition DCC_BASELINE_SPEED :: u8 where [dcc_consts]: "DCC_BASELINE_SPEED = 0x40"
definition DCC_BASELINE_SPEED_FORWARD :: u8 where [dcc_consts]: "DCC_BASELINE_SPEED_FORWARD = 0x20"
definition DCC_BASELINE_SPEED_LIGHT :: u8 where [dcc_consts]: "DCC_BASELINE_SPEED_LIGHT = 0x10"
definition DCC_FUNCTION1 :: u8 where [dcc_consts]: "DCC_FUNCTION1 = 0x80"
definition DCC_FUNCTION1_F0 :: u8 where [dcc_consts]: "DCC_FUNCTION1_F0 = 0x10"
definition DCC_FUNCTION2_F5 :: u8 where [dcc_consts]: "DCC_FUNCTION2_F5 = 0xB0"
definition DCC_FUNCTION2_F9 :: u8 where [dcc_consts]: "DCC_FUNCTION2_F9 = 0xA0"
definition DCC_FEATURE_EXP_F13 :: u8 where [dcc_consts]: "DCC_FEATURE_EXP_F13 = 0xDE"
definition DCC_FEATURE_EXP_F21 :: u8 where [dcc_consts]: "DCC_FEATURE_EXP_F21 = 0xDF"
definition DCC_FEATURE_EXP_FNHI :: u8 where [dcc_consts]: "DCC_FEATURE_EXP_FNHI = 0xD8"
definition DCC_BINARY_SHORT :: u8 where [dcc_consts]: "DCC_BINARY_SHORT = 0xDD"
definition DCC_BINARY_LONG :: u8 where [dcc_consts]: "DCC_BINARY_LONG = 0xC0"
definition DCC_ANALOG_FN :: u8 where [dcc_consts]: "DCC_ANALOG_FN = 0x3D"
definition DCC_PROG_READ1 :: u8 where [dcc_consts]: "DCC_PROG_READ1 = 0xE4"
definition DCC_PROG_WRITE1 :: u8 where [dcc_consts]: "DCC_PROG_WRITE1 = 0xEC"
definition DCC_PROG_READ4 :: u8 where [dcc_consts]: "DCC_PROG_READ4 = 0xE0"
definition DCC_SVC_BIT_MANIPULATE :: u8 where [dcc_consts]: "DCC_SVC_BIT_MANIPULATE = 0x78"
definition DCC_SVC_WRITE :: u8 where [dcc_consts]: "DCC_SVC_WRITE = 0x7C"
definition DCC_SVC_VERIFY :: u8 where [dcc_consts]: "DCC_SVC_VERIFY = 0x74"
definition DCC_SVC_MASK :: u8 where [dcc_consts]: "DCC_SVC_MASK = 0xFC"
definition DCC_SVC_BITVAL_WRITE :: u8 where [dcc_consts]: "DCC_SVC_BITVAL_WRITE = 0xF0"
definition DCC_SVC_BITVAL_VERIFY :: u8 where [dcc_consts]: "DCC_SVC_BITVAL_VERIFY = 0xE0"
definition DCC_SVC_BITVAL_VALUE :: u8 where [dcc_consts]: "DCC_SVC_BITVAL_VALUE = 0x08"
definition DCC_SVC_BITVAL_MASK :: u8 where [dcc_consts]: "DCC_SVC_BITVAL_MASK = 0xF0"
definition DCC_SVC_PAGED_WRITE :: u8 where [dcc_consts]: "DCC_SVC_PAGED_WRITE = 0x78"
definition DCC_SVC_PAGED_VERIFY :: u8 where [dcc_consts]: "DCC_SVC_PAGED_VERIFY = 0x70"
definition DCC_SVC_PAGED_MASK :: u8 where [dcc_consts]: "DCC_SVC_PAGED_MASK = 0xF8"
definition DCC_BASIC_ACCESSORY_B1 :: u8 where [dcc_consts]: "DCC_BASIC_ACCESSORY_B1 = 0x80"
definition DCC_BASIC_ACCESSORY_MASK1 :: u8 where [dcc_consts]: "DCC_BASIC_ACCESSORY_MASK1 = 0xC0"
definition DCC_BASIC_ACCESSORY_B2 :: u8 where [dcc_consts]: "DCC_BASIC_ACCESSORY_B2 = 0x80"
definition DCC_BASIC_ACCESSORY_MASK2 :: u8 where [dcc_consts]: "DCC_BASIC_ACCESSORY_MASK2 = 0x80"
definition DCC_EXT_ACCESSORY_B2 :: u8 where [dcc_consts]: "DCC_EXT_ACCESSORY_B2 = 1"
definition DCC_EXT_ACCESSORY_MASK2 :: u8 where [dcc_consts]: "DCC_EXT_ACCESSORY_MASK2 = 0x89"
definition DCC_BASIC_ACCESSORY_B2_ACTIVATE :: u8 where [dcc_consts]: "DCC_BASIC_ACCESSORY_B2_ACTIVATE = 0x08"
definition DCC_BASIC_ACCESSORY_B2_DEACTIVATE :: u8 where [dcc_consts]: "DCC_BASIC_ACCESSORY_B2_DEACTIVATE = 0"
definition DCC_BASIC_ACCESSORY_B2_ACTIVATE_MASK :: u8 where [dcc_consts]: "DCC_BASIC_ACCESSORY_B2_ACTIVATE_MASK = DCC_BASIC_ACCESSORY_B2_ACTIVATE"
definition DCC_BASIC_ACCESSORY_B2_THROWN :: u8 where [dcc_consts]: "DCC_BASIC_ACCESSORY_B2_THROWN = 0"
definition DCC_BASIC_ACCESSORY_B2_CLOSED :: u8 where [dcc_consts]: "DCC_BASIC_ACCESSORY_B2_CLOSED = 1"
definition DCC_BASIC_ACCESSORY_B2_DIR_MASK :: u8 where [dcc_consts]: "DCC_BASIC_ACCESSORY_B2_DIR_MASK = DCC_BASIC_ACCESSORY_B2_CLOSED"
definition DCC_EXT_SPEED :: u8 where [dcc_consts]: "DCC_EXT_SPEED = 0x3F"
definition DCC_EXT_SPEED_FORWARD :: u8 where [dcc_consts]: "DCC_EXT_SPEED_FORWARD = 0x80"
definition ADDRESS_LOGON :: u8 where [dcc_consts]: "ADDRESS_LOGON = 0xFE"
definition ADDRESS_EXT :: u8 where [dcc_consts]: "ADDRESS_EXT = 0xFD"
definition DCC_LOGON_ENABLE :: u8 where [dcc_consts]: "DCC_LOGON_ENABLE = 0xFC"
definition DCC_LOGON_ENABLE_MASK :: u8 where [dcc_consts]: "DCC_LOGON_ENABLE_MASK = 0xFC"
definition DCC_SELECT :: u8 where [dcc_consts]: "DCC_SELECT = 0xD0"
definition DCC_SELECT_MASK :: u8 where [dcc_consts]: "DCC_SELECT_MASK = 0xF0"
definition DCC_GET_DATA_START :: u8 where [dcc_consts]: "DCC_GET_DATA_START = 0"
definition DCC_GET_DATA_CONT :: u8 where [dcc_consts]: "DCC_GET_DATA_CONT = 1"
definition DCC_LOGON_ASSIGN :: u8 where [dcc_consts]: "DCC_LOGON_ASSIGN = 0xE0"
definition DCC_LOGON_ASSIGN_MASK :: u8 where [dcc_consts]: "DCC_LOGON_ASSIGN_MASK = 0xF0"
definition DCC_DID_MIN :: u8 where [dcc_consts]: "DCC_DID_MIN = DCC_SELECT"
definition DCC_DID_MAX :: u8 where [dcc_consts]: "DCC_DID_MAX = DCC_LOGON_ASSIGN + 0xF"
definition DCC_DID_MASK :: u8 where [dcc_consts]: "DCC_DID_MASK = 0xF0"
definition CMD_READ_SHORT_INFO :: u8 where [dcc_consts]: "CMD_READ_SHORT_INFO = 0xFF"
definition CMD_READ_BLOCK :: u8 where [dcc_consts]: "CMD_READ_BLOCK = 0xFE"
definition CMD_READ_BACKGROUND :: u8 where [dcc_consts]: "CMD_READ_BACKGROUND = 0xFD"
definition CMD_WRITE_BLOCK :: u8 where [dcc_consts]: "CMD_WRITE_BLOCK = 0xFC"
definition ADR_MASK :: u8 where [dcc_consts]: "ADR_MASK = 0x3F"
definition ADR_MOBILE_SHORT :: u8 where [dcc_consts]: "ADR_MOBILE_SHORT = 0x38"
definition ADR_MOBILE_SHORT_MASK :: u8 where [dcc_consts]: "ADR_MOBILE_SHORT_MASK = 0xFF"
definition ADR_MOBILE_LONG :: u8 where [dcc_consts]: "ADR_MOBILE_LONG = 0"
definition MAX_MOBILE_LONG :: u8 where [dcc_consts]: "MAX_MOBILE_LONG = 0x27"
definition ADR_ACC_EXT :: u8 where [dcc_consts]: "ADR_ACC_EXT = 0x28"
definition MASK_ACC_EXT :: u8 where [dcc_consts]: "MASK_ACC_EXT = 0x38"
definition ADR_ACC_BASIC :: u8 where [dcc_consts]: "ADR_ACC_BASIC = 0x30"
definition MASK_ACC_BASIC :: u8 where [dcc_consts]: "MASK_ACC_BASIC = 0x38"
definition ADR_INVALID :: u16 where [dcc_consts]: "ADR_INVALID = push_bit 8 (ucast ADR_MOBILE_SHORT)"

subsection \<open>Address partitions\<close>

text \<open>
  The three out parameters are returned together; the code writes each only when
  its pointer is not null, and none when it returns false.
\<close>

definition decode_address_partition :: "u16 \<Rightarrow> (u16 \<times> u8 \<times> TrainAddressType) option" where
  "decode_address_partition addr14 =
     (let addr14 = addr14 AND (push_bit 14 1 - 1);
          hibyte = ucast (drop_bit 8 addr14) :: u8
      in if hibyte \<le> MAX_MOBILE_LONG then Some (addr14, 0, DCC_LONG_ADDRESS)
         else if hibyte AND MASK_ACC_EXT = ADR_ACC_EXT
           then Some (addr14 AND NOT (push_bit 8 (ucast MASK_ACC_EXT)), ADR_ACC_EXT, DCC_ACCY_EXT)
         else if hibyte AND MASK_ACC_BASIC = ADR_ACC_BASIC
           then Some (addr14 AND NOT (push_bit 8 (ucast MASK_ACC_BASIC)), ADR_ACC_BASIC,
                      DCC_ACCY_BASIC_OUTPUT)
         else if hibyte = ADR_MOBILE_SHORT then Some (addr14 AND 0x7f, hibyte, DCC_SHORT_ADDRESS)
         else None)"

subsection \<open>Accessory addresses\<close>

definition accy_address_user_to_binary :: "u32 \<Rightarrow> u32" where
  "accy_address_user_to_binary user = (if user \<ge> 2045 then user - 2045 else user + 3)"

definition accy_address_binary_to_user :: "u32 \<Rightarrow> u32" where
  "accy_address_binary_to_user binary = (if binary < 4 then binary + 2045 else binary - 3)"

subsection \<open>Address wrappers\<close>

text \<open>
  The constructors take an \<open>unsigned\<close>. The two DCC ones truncate it to the member
  before they assert its range, the Marklin one asserts the argument itself.
\<close>

datatype DccShortAddress = DccShortAddress (short_value: u8)
datatype DccLongAddress = DccLongAddress (long_value: u16)
datatype MMAddress = MMAddress (mm_value: u8)

definition new_DccShortAddress :: "u32 \<Rightarrow> DccShortAddress option" where
  "new_DccShortAddress v = do { hassert ((ucast v :: u8) \<le> 127); Some (DccShortAddress (ucast v)) }"

definition new_DccLongAddress :: "u32 \<Rightarrow> DccLongAddress option" where
  "new_DccLongAddress v = do { hassert ((ucast v :: u16) \<le> 10239); Some (DccLongAddress (ucast v)) }"

definition new_MMAddress :: "u32 \<Rightarrow> MMAddress option" where
  "new_MMAddress v = do { hassert (v \<le> 80); Some (MMAddress (ucast v)) }"

end
