(* ===== verification/DccPacket.thy ===== *)
theory DccPacket
  imports DccDefs Crc
begin

section \<open>DCC and Marklin packets (dcc/packet.h, dcc/Packet.hxx, dcc/Packet.cpp)\<close>

text \<open>
  The packet structure and every method that builds one. The header byte is the
  union of the source: the bit fields are read and written as bits of the raw byte,
  least significant first. A write \<open>payload[dlc++] = b\<close> behind the array and a
  failed \<open>HASSERT\<close> are \<open>None\<close>. \<open>unsigned\<close> is 32 bits wide, and so is the
  feedback key as far as these methods set it.
\<close>

subsection \<open>The structure\<close>

record packet =
  header_raw_data :: u8
  dlc :: u8
  payload :: "u8 list"
  feedback_key :: u32

definition MAX_PAYLOAD :: u8 where "MAX_PAYLOAD = 32"
definition EMERGENCY_STOP :: u32 where "EMERGENCY_STOP = 0xFFFF"
definition CHANGE_DIR :: u32 where "CHANGE_DIR = 0xFFFF"
definition PAGE_REGISTER_ID :: u8 where "PAGE_REGISTER_ID = 5"

definition hdr_is_pkt :: "packet \<Rightarrow> bool" where "hdr_is_pkt p = bit (header_raw_data p) 0"
definition hdr_is_marklin :: "packet \<Rightarrow> bool" where "hdr_is_marklin p = bit (header_raw_data p) 1"
definition hdr_skip_ec :: "packet \<Rightarrow> bool" where "hdr_skip_ec p = bit (header_raw_data p) 2"
definition hdr_send_long_preamble :: "packet \<Rightarrow> bool" where
  "hdr_send_long_preamble p = bit (header_raw_data p) 3"
definition hdr_sense_ack :: "packet \<Rightarrow> bool" where "hdr_sense_ack p = bit (header_raw_data p) 4"
definition hdr_rept_count :: "packet \<Rightarrow> u8" where
  "hdr_rept_count p = drop_bit 5 (header_raw_data p) AND 3"
definition hdr_csum_error :: "packet \<Rightarrow> bool" where "hdr_csum_error p = bit (header_raw_data p) 7"
definition hdr_cmd :: "packet \<Rightarrow> u8" where "hdr_cmd p = drop_bit 1 (header_raw_data p)"

definition set_skip_ec :: "packet \<Rightarrow> packet" where
  "set_skip_ec p = p\<lparr>header_raw_data := header_raw_data p OR 4\<rparr>"

definition push_byte :: "u8 \<Rightarrow> packet \<Rightarrow> packet option" where
  "push_byte b p = do {
     payload' \<leftarrow> array_set (payload p) (unat (dlc p)) b;
     Some (p\<lparr>payload := payload', dlc := dlc p + 1\<rparr>)
   }"

definition or_byte :: "nat \<Rightarrow> u8 \<Rightarrow> packet \<Rightarrow> packet" where
  "or_byte i b p = p\<lparr>payload := (payload p)[i := payload p ! i OR b]\<rparr>"

subsection \<open>Starting a packet\<close>

definition packet_clear :: packet where
  "packet_clear = \<lparr>header_raw_data = 0, dlc = 0, payload = replicate (unat MAX_PAYLOAD) 0,
     feedback_key = 0\<rparr>"

definition IsPacket :: "packet \<Rightarrow> bool" where
  "IsPacket p = hdr_is_pkt p"

definition set_cmd :: "u8 \<Rightarrow> packet \<Rightarrow> packet option" where
  "set_cmd cmd p = do {
     let p = p\<lparr>dlc := 0\<rparr>;
     hassert (cmd AND 1 \<noteq> 0);
     Some (p\<lparr>header_raw_data := cmd\<rparr>)
   }"

definition start_dcc_packet :: "packet \<Rightarrow> packet" where
  "start_dcc_packet p = p\<lparr>header_raw_data := 0, dlc := 0\<rparr>"

definition start_dcc_svc_packet :: "packet \<Rightarrow> packet" where
  "start_dcc_svc_packet p =
     (let p = p\<lparr>header_raw_data := 0, dlc := 0\<rparr> in p\<lparr>header_raw_data := header_raw_data p OR 8\<rparr>)"

subsection \<open>Checksum\<close>

fun crc_loop :: "u8 list \<Rightarrow> u8 \<Rightarrow> u8" where
  "crc_loop [] m = m"
| "crc_loop (b # bs) m = crc_loop bs (dallas_update16 m b)"

fun xor_loop :: "u8 list \<Rightarrow> u8 \<Rightarrow> u8" where
  "xor_loop [] cs = cs"
| "xor_loop (b # bs) cs = xor_loop bs (cs XOR b)"

definition used_bytes :: "packet \<Rightarrow> u8 list" where
  "used_bytes p = take (unat (dlc p)) (payload p)"

definition add_dcc_checksum :: "packet \<Rightarrow> packet option" where
  "add_dcc_checksum p = do {
     hassert (dlc p < MAX_PAYLOAD);
     hassert (\<not> hdr_skip_ec p);
     p \<leftarrow> (if (payload p ! 0 = ADDRESS_LOGON \<or> payload p ! 0 = ADDRESS_EXT) \<and> dlc p \<ge> 6
           then push_byte (dallas_get (crc_loop (used_bytes p) dallas_init)) p
           else Some p);
     p \<leftarrow> push_byte (xor_loop (used_bytes p) 0) p;
     Some (set_skip_ec p)
   }"

definition set_dcc_idle :: "packet \<Rightarrow> packet" where
  "set_dcc_idle p =
     (let p = start_dcc_packet p;
          p = p\<lparr>dlc := 3, payload := (payload p)[2 := 0xFF, 0 := 0xFF, 1 := 0]\<rparr>
      in set_skip_ec p)"

definition new_idle_packet :: packet where
  "new_idle_packet = set_dcc_idle packet_clear"

definition set_dcc_reset_all_decoders :: "packet \<Rightarrow> packet" where
  "set_dcc_reset_all_decoders p =
     (let p = start_dcc_packet p;
          p = p\<lparr>dlc := 3, payload := (payload p)[2 := 0, 1 := 0, 0 := 0]\<rparr>
      in set_skip_ec p)"

subsection \<open>Addresses\<close>

definition add_dcc_short_address :: "DccShortAddress \<Rightarrow> packet \<Rightarrow> packet option" where
  "add_dcc_short_address address p = do {
     p \<leftarrow> push_byte (short_value address AND 0x7F) (start_dcc_packet p);
     Some (p\<lparr>feedback_key := ucast (short_value address)\<rparr>)
   }"

definition add_dcc_long_address :: "DccLongAddress \<Rightarrow> packet \<Rightarrow> packet option" where
  "add_dcc_long_address address p = do {
     p \<leftarrow> push_byte (ucast (ucast DCC_LONG_ADDRESS_FIRST OR drop_bit 8 (long_value address)))
            (start_dcc_packet p);
     p \<leftarrow> push_byte (ucast (long_value address AND 0xff)) p;
     Some (p\<lparr>feedback_key := ucast (long_value address)\<rparr>)
   }"

definition add_dcc_accy_address :: "bool \<Rightarrow> u32 \<Rightarrow> packet \<Rightarrow> packet option" where
  "add_dcc_accy_address is_basic address p = do {
     p \<leftarrow> push_byte (ucast (ucast DCC_BASIC_ACCESSORY_B1 OR (drop_bit 2 address AND 0x3F)))
            (start_dcc_packet p);
     let b2 = (if is_basic then DCC_BASIC_ACCESSORY_B2 else DCC_EXT_ACCESSORY_B2);
     let b2 = b2 OR ucast (push_bit 4 (NOT (drop_bit 8 address) AND 7));
     let b2 = b2 OR ucast (push_bit 1 (address AND 3));
     p \<leftarrow> push_byte b2 p;
     Some (p\<lparr>feedback_key := 0x10000 OR address\<rparr>)
   }"

subsection \<open>Speed\<close>

definition add_dcc_speed14 :: "bool \<Rightarrow> bool \<Rightarrow> u32 \<Rightarrow> packet \<Rightarrow> packet option" where
  "add_dcc_speed14 is_fwd light speed p = do {
     let b1 = DCC_BASELINE_SPEED;
     let b1 = (if is_fwd then b1 OR DCC_BASELINE_SPEED_FORWARD else b1);
     let b1 = (if light then b1 OR DCC_BASELINE_SPEED_LIGHT else b1);
     b1 \<leftarrow> (if speed = EMERGENCY_STOP then Some (b1 OR 1)
            else if speed = 0 then Some b1
            else do {
              hassert (speed \<le> 14);
              let speed = speed + 1;
              Some (b1 OR ucast (speed AND 0xf))
            });
     p \<leftarrow> push_byte b1 p;
     add_dcc_checksum p
   }"

definition add_dcc_speed28 :: "bool \<Rightarrow> u32 \<Rightarrow> packet \<Rightarrow> packet option" where
  "add_dcc_speed28 is_fwd speed p = do {
     let b1 = DCC_BASELINE_SPEED;
     let b1 = (if is_fwd then b1 OR DCC_BASELINE_SPEED_FORWARD else b1);
     b1 \<leftarrow> (if speed = EMERGENCY_STOP then Some (b1 OR 1)
            else if speed = 0 then Some b1
            else do {
              hassert (speed \<le> 28);
              let speed = speed + 3;
              let b1 = (if speed AND 1 \<noteq> 0 then b1 OR DCC_BASELINE_SPEED_LIGHT else b1);
              Some (b1 OR ucast (drop_bit 1 speed AND 0xf))
            });
     p \<leftarrow> push_byte b1 p;
     add_dcc_checksum p
   }"

definition add_dcc_speed128 :: "bool \<Rightarrow> u32 \<Rightarrow> packet \<Rightarrow> packet option" where
  "add_dcc_speed128 is_fwd speed p = do {
     p \<leftarrow> push_byte DCC_EXT_SPEED p;
     let b = (if is_fwd then 0 OR DCC_EXT_SPEED_FORWARD else 0);
     b \<leftarrow> (if speed = EMERGENCY_STOP then Some (b OR 1)
           else if speed > 0 then do {
             hassert (speed \<le> 126);
             let speed = speed + 1;
             Some (b OR ucast (speed AND 0x7f))
           }
           else Some b);
     p \<leftarrow> push_byte b p;
     add_dcc_checksum p
   }"

datatype dcc_address = Short DccShortAddress | Long DccLongAddress

fun add_dcc_address :: "dcc_address \<Rightarrow> packet \<Rightarrow> packet option" where
  "add_dcc_address (Short a) p = add_dcc_short_address a p"
| "add_dcc_address (Long a) p = add_dcc_long_address a p"

definition set_dcc_speed14 :: "dcc_address \<Rightarrow> bool \<Rightarrow> bool \<Rightarrow> u32 \<Rightarrow> packet \<Rightarrow> packet option" where
  "set_dcc_speed14 a is_fwd light speed p =
     Option.bind (add_dcc_address a p) (add_dcc_speed14 is_fwd light speed)"

definition set_dcc_speed28 :: "dcc_address \<Rightarrow> bool \<Rightarrow> u32 \<Rightarrow> packet \<Rightarrow> packet option" where
  "set_dcc_speed28 a is_fwd speed p =
     Option.bind (add_dcc_address a p) (add_dcc_speed28 is_fwd speed)"

definition set_dcc_speed128 :: "dcc_address \<Rightarrow> bool \<Rightarrow> u32 \<Rightarrow> packet \<Rightarrow> packet option" where
  "set_dcc_speed128 a is_fwd speed p =
     Option.bind (add_dcc_address a p) (add_dcc_speed128 is_fwd speed)"

subsection \<open>Functions\<close>

definition add_dcc_function0_4 :: "u32 \<Rightarrow> packet \<Rightarrow> packet option" where
  "add_dcc_function0_4 values p = do {
     let b1 = DCC_FUNCTION1;
     let b1 = (if values AND 1 \<noteq> 0 then b1 OR DCC_FUNCTION1_F0 else b1);
     let b1 = b1 OR ucast (drop_bit 1 values AND 0xf);
     p \<leftarrow> push_byte b1 p;
     add_dcc_checksum p
   }"

definition add_dcc_function5_8 :: "u32 \<Rightarrow> packet \<Rightarrow> packet option" where
  "add_dcc_function5_8 values p = do {
     let b1 = DCC_FUNCTION2_F5;
     let b1 = b1 OR ucast (values AND 0xf);
     p \<leftarrow> push_byte b1 p;
     add_dcc_checksum p
   }"

definition add_dcc_function9_12 :: "u32 \<Rightarrow> packet \<Rightarrow> packet option" where
  "add_dcc_function9_12 values p = do {
     let b1 = DCC_FUNCTION2_F9;
     let b1 = b1 OR ucast (values AND 0xf);
     p \<leftarrow> push_byte b1 p;
     add_dcc_checksum p
   }"

definition add_dcc_function_hi :: "u8 \<Rightarrow> u8 \<Rightarrow> packet \<Rightarrow> packet option" where
  "add_dcc_function_hi base values p = do {
     let base = base - 13;
     hassert (base AND 7 = 0);
     hassert (base \<le> 61 - 13);
     let base = drop_bit 3 base;
     let base = base - 2;
     p \<leftarrow> push_byte (DCC_FEATURE_EXP_FNHI OR (base AND 7)) p;
     p \<leftarrow> push_byte values p;
     add_dcc_checksum p
   }"

definition add_dcc_function13_20 :: "u32 \<Rightarrow> packet \<Rightarrow> packet option" where
  "add_dcc_function13_20 values p = add_dcc_function_hi 13 (ucast values) p"

definition add_dcc_function21_28 :: "u32 \<Rightarrow> packet \<Rightarrow> packet option" where
  "add_dcc_function21_28 values p = add_dcc_function_hi 21 (ucast values) p"

definition add_dcc_binary_state :: "u16 \<Rightarrow> bool \<Rightarrow> packet \<Rightarrow> packet option" where
  "add_dcc_binary_state fn val p =
     (if fn \<le> 127 then do {
        p \<leftarrow> push_byte DCC_BINARY_SHORT p;
        p \<leftarrow> push_byte (ucast (fn OR (if val then 0x80 else 0))) p;
        add_dcc_checksum p
      } else do {
        p \<leftarrow> push_byte DCC_BINARY_LONG p;
        p \<leftarrow> push_byte (ucast ((fn AND 0x7F) OR (if val then 0x80 else 0))) p;
        p \<leftarrow> push_byte (ucast (drop_bit 8 fn AND 0xFF)) p;
        add_dcc_checksum p
      })"

definition add_dcc_analog_function :: "u8 \<Rightarrow> u8 \<Rightarrow> packet \<Rightarrow> packet option" where
  "add_dcc_analog_function fn val p = do {
     p \<leftarrow> push_byte DCC_ANALOG_FN p;
     p \<leftarrow> push_byte fn p;
     p \<leftarrow> push_byte val p;
     add_dcc_checksum p
   }"

subsection \<open>Programming\<close>

definition add_dcc_prog_command :: "u8 \<Rightarrow> u32 \<Rightarrow> u8 \<Rightarrow> packet \<Rightarrow> packet option" where
  "add_dcc_prog_command cmd_hi cv_number val p = do {
     p \<leftarrow> push_byte (ucast ((ucast cmd_hi AND NOT 3) OR (drop_bit 8 cv_number AND 3))) p;
     p \<leftarrow> push_byte (ucast (cv_number AND 0xff)) p;
     p \<leftarrow> push_byte val p;
     add_dcc_checksum p
   }"

definition add_dcc_pom_read1 :: "u32 \<Rightarrow> packet \<Rightarrow> packet option" where
  "add_dcc_pom_read1 cv_number p = add_dcc_prog_command DCC_PROG_READ1 cv_number 0 p"

definition add_dcc_pom_write1 :: "u32 \<Rightarrow> u8 \<Rightarrow> packet \<Rightarrow> packet option" where
  "add_dcc_pom_write1 cv_number val p = add_dcc_prog_command DCC_PROG_WRITE1 cv_number val p"

definition set_dcc_svc_verify_byte :: "u32 \<Rightarrow> u8 \<Rightarrow> packet \<Rightarrow> packet option" where
  "set_dcc_svc_verify_byte cv_number val p =
     add_dcc_prog_command DCC_SVC_VERIFY cv_number val (start_dcc_svc_packet p)"

definition set_dcc_svc_write_byte :: "u32 \<Rightarrow> u8 \<Rightarrow> packet \<Rightarrow> packet option" where
  "set_dcc_svc_write_byte cv_number val p =
     add_dcc_prog_command DCC_SVC_WRITE cv_number val (start_dcc_svc_packet p)"

definition set_dcc_svc_verify_bit :: "u32 \<Rightarrow> u32 \<Rightarrow> bool \<Rightarrow> packet \<Rightarrow> packet option" where
  "set_dcc_svc_verify_bit cv_number nr expected p =
     (let p = start_dcc_svc_packet p;
          vvv = DCC_SVC_BITVAL_VERIFY OR (if expected then DCC_SVC_BITVAL_VALUE else 0) OR ucast (nr AND 7)
      in add_dcc_prog_command DCC_SVC_BIT_MANIPULATE cv_number vvv p)"

definition set_dcc_svc_write_bit :: "u32 \<Rightarrow> u32 \<Rightarrow> bool \<Rightarrow> packet \<Rightarrow> packet option" where
  "set_dcc_svc_write_bit cv_number nr desired p =
     (let p = start_dcc_svc_packet p;
          vvv = DCC_SVC_BITVAL_WRITE OR (if desired then DCC_SVC_BITVAL_VALUE else 0) OR ucast (nr AND 7)
      in add_dcc_prog_command DCC_SVC_BIT_MANIPULATE cv_number vvv p)"

definition set_dcc_svc_paged_write_reg :: "u8 \<Rightarrow> u8 \<Rightarrow> packet \<Rightarrow> packet option" where
  "set_dcc_svc_paged_write_reg reg val p = do {
     hassert (reg < 8);
     p \<leftarrow> push_byte (DCC_SVC_PAGED_WRITE OR reg) (start_dcc_svc_packet p);
     p \<leftarrow> push_byte val p;
     add_dcc_checksum p
   }"

definition set_dcc_svc_paged_set_page :: "u32 \<Rightarrow> packet \<Rightarrow> packet option" where
  "set_dcc_svc_paged_set_page page p = set_dcc_svc_paged_write_reg PAGE_REGISTER_ID (ucast page) p"

definition set_dcc_svc_paged_verify_reg :: "u8 \<Rightarrow> u8 \<Rightarrow> packet \<Rightarrow> packet option" where
  "set_dcc_svc_paged_verify_reg reg val p = do {
     hassert (reg < 8);
     p \<leftarrow> push_byte (DCC_SVC_PAGED_VERIFY OR reg) (start_dcc_svc_packet p);
     p \<leftarrow> push_byte val p;
     add_dcc_checksum p
   }"

subsection \<open>Accessories\<close>

definition set_dcc_basic_accy_params :: "bool \<Rightarrow> bool \<Rightarrow> packet \<Rightarrow> packet" where
  "set_dcc_basic_accy_params is_normal is_activate p =
     (let p = if is_normal then or_byte 1 DCC_BASIC_ACCESSORY_B2_CLOSED p
              else or_byte 1 DCC_BASIC_ACCESSORY_B2_THROWN p
      in if is_activate then or_byte 1 DCC_BASIC_ACCESSORY_B2_ACTIVATE p
         else or_byte 1 DCC_BASIC_ACCESSORY_B2_DEACTIVATE p)"

definition add_dcc_basic_accessory :: "u32 \<Rightarrow> bool \<Rightarrow> packet \<Rightarrow> packet option" where
  "add_dcc_basic_accessory address is_activate p = do {
     p \<leftarrow> add_dcc_accy_address True (drop_bit 1 address) p;
     let p = set_dcc_basic_accy_params (address AND 1 \<noteq> 0) is_activate p;
     add_dcc_checksum p
   }"

definition add_dcc_ext_accessory :: "u32 \<Rightarrow> u8 \<Rightarrow> packet \<Rightarrow> packet option" where
  "add_dcc_ext_accessory address aspect p = do {
     p \<leftarrow> add_dcc_accy_address False address p;
     p \<leftarrow> push_byte aspect p;
     add_dcc_checksum p
   }"

subsection \<open>Logon\<close>

definition set_dcc_logon_enable :: "LogonEnableParam \<Rightarrow> u16 \<Rightarrow> u8 \<Rightarrow> packet \<Rightarrow> packet option" where
  "set_dcc_logon_enable param cid session_id p = do {
     p \<leftarrow> push_byte ADDRESS_LOGON (start_dcc_packet p);
     p \<leftarrow> push_byte (DCC_LOGON_ENABLE OR (logon_param_value param AND 3)) p;
     p \<leftarrow> push_byte (ucast (drop_bit 8 cid)) p;
     p \<leftarrow> push_byte (ucast (cid AND 0xff)) p;
     p \<leftarrow> push_byte session_id p;
     add_dcc_checksum p
   }"

definition set_dcc_select_shortinfo :: "u64 \<Rightarrow> packet \<Rightarrow> packet option" where
  "set_dcc_select_shortinfo decoder_id p = do {
     p \<leftarrow> push_byte ADDRESS_LOGON (start_dcc_packet p);
     p \<leftarrow> push_byte (ucast (ucast DCC_SELECT OR (drop_bit 40 decoder_id AND 0xf))) p;
     p \<leftarrow> push_byte (ucast (drop_bit 32 decoder_id AND 0xff)) p;
     p \<leftarrow> push_byte (ucast (drop_bit 24 decoder_id AND 0xff)) p;
     p \<leftarrow> push_byte (ucast (drop_bit 16 decoder_id AND 0xff)) p;
     p \<leftarrow> push_byte (ucast (drop_bit 8 decoder_id AND 0xff)) p;
     p \<leftarrow> push_byte (ucast (decoder_id AND 0xff)) p;
     p \<leftarrow> push_byte CMD_READ_SHORT_INFO p;
     add_dcc_checksum p
   }"

definition set_dcc_logon_assign :: "u64 \<Rightarrow> u16 \<Rightarrow> packet \<Rightarrow> packet option" where
  "set_dcc_logon_assign decoder_id address p = do {
     p \<leftarrow> push_byte ADDRESS_LOGON (start_dcc_packet p);
     p \<leftarrow> push_byte (ucast (ucast DCC_LOGON_ASSIGN OR (drop_bit 40 decoder_id AND 0xf))) p;
     p \<leftarrow> push_byte (ucast (drop_bit 32 decoder_id AND 0xff)) p;
     p \<leftarrow> push_byte (ucast (drop_bit 24 decoder_id AND 0xff)) p;
     p \<leftarrow> push_byte (ucast (drop_bit 16 decoder_id AND 0xff)) p;
     p \<leftarrow> push_byte (ucast (drop_bit 8 decoder_id AND 0xff)) p;
     p \<leftarrow> push_byte (ucast (decoder_id AND 0xff)) p;
     p \<leftarrow> push_byte (ucast ((drop_bit 8 address AND 0xff) XOR 0xC0)) p;
     p \<leftarrow> push_byte (ucast (address AND 0xff)) p;
     add_dcc_checksum p
   }"

subsection \<open>Marklin-Motorola packets\<close>

definition start_mm_packet :: "packet \<Rightarrow> packet" where
  "start_mm_packet p =
     p\<lparr>dlc := 3, payload := (payload p)[0 := 0, 1 := 0, 2 := 0],
       header_raw_data := MARKLIN_DEFAULT_CMD\<rparr>"

definition marklin_address :: "u8 list" where
  "marklin_address = [0, 3, 2]"

definition marklin_fn_bits :: "u8 list" where
  "marklin_fn_bits = [0, 0x50, 0x04, 0x14, 0x54]"

definition add_mm_address :: "MMAddress \<Rightarrow> bool \<Rightarrow> packet \<Rightarrow> packet" where
  "add_mm_address a light p =
     (let address = mm_value a;
          p = or_byte 0 (marklin_address ! unat (address mod 3)) p;
          address = address div 3;
          p = or_byte 1 (push_bit 6 (marklin_address ! unat (address mod 3))) p;
          address = address div 3;
          p = or_byte 1 (push_bit 4 (marklin_address ! unat (address mod 3))) p;
          address = address div 3;
          p = or_byte 1 (push_bit 2 (marklin_address ! unat (address mod 3))) p
      in if light then or_byte 1 3 p else p)"

definition set_mm_speed_bits :: "u32 \<Rightarrow> packet \<Rightarrow> u32 \<times> packet" where
  "set_mm_speed_bits speed p =
     (let p = p\<lparr>payload := (payload p)[2 := 0]\<rparr>;
          speed = if speed > 0 then speed + 1 else speed;
          speed = if speed > 15 then 15 else speed;
          p = if speed AND 1 \<noteq> 0 then or_byte 2 0x80 p else p;
          p = if speed AND 2 \<noteq> 0 then or_byte 2 0x20 p else p;
          p = if speed AND 4 \<noteq> 0 then or_byte 2 0x08 p else p;
          p = if speed AND 8 \<noteq> 0 then or_byte 2 0x02 p else p
      in (speed, p))"

definition mm_change_dir :: "packet \<Rightarrow> packet" where
  "mm_change_dir p =
     p\<lparr>payload := (payload p)[2 := MARKLIN_CHANGE_DIR_B2],
       header_raw_data := header_raw_data p OR 0x60\<rparr>"

definition add_mm_speed :: "u32 \<Rightarrow> packet \<Rightarrow> packet" where
  "add_mm_speed speed p =
     (if speed = CHANGE_DIR \<or> speed = EMERGENCY_STOP then mm_change_dir p
      else let p = snd (set_mm_speed_bits speed p)
           in or_byte 2 (drop_bit 1 (payload p ! 2)) p)"

definition add_mm_new_speed :: "bool \<Rightarrow> u32 \<Rightarrow> packet \<Rightarrow> packet" where
  "add_mm_new_speed is_fwd speed p =
     (if speed = CHANGE_DIR \<or> speed = EMERGENCY_STOP then mm_change_dir p
      else let (speed, p) = set_mm_speed_bits speed p;
               p = if is_fwd then or_byte 2 0x10 p else or_byte 2 0x44 p
           in if speed \<le> 7 then or_byte 2 1 p else p)"

definition add_mm_new_fn :: "u32 \<Rightarrow> bool \<Rightarrow> u32 \<Rightarrow> packet \<Rightarrow> packet" where
  "add_mm_new_fn fn_num val speed p =
     (if speed = CHANGE_DIR \<or> speed = EMERGENCY_STOP \<or> fn_num < 1 \<or> fn_num > 4
      then add_mm_new_speed False speed p
      else let (speed, p) = set_mm_speed_bits speed p;
               p = or_byte 2 (marklin_fn_bits ! unat fn_num) p;
               p = if val then or_byte 2 1 p else p
           in if drop_bit 1 (payload p ! 2 AND 0xaa) = payload p ! 2 AND 0x55
              then let p = p\<lparr>payload := (payload p)[2 := payload p ! 2 AND 0xaa]\<rparr>
                   in if speed \<ge> 8 then or_byte 2 0x11 p else or_byte 2 0x44 p
              else p)"

definition mm_shift :: "packet \<Rightarrow> packet option" where
  "mm_shift p = do {
     hassert (dlc p = 3);
     let p = p\<lparr>dlc := 6\<rparr>;
     let p = p\<lparr>payload := (payload p)[3 := payload p ! 0]\<rparr>;
     let p = p\<lparr>payload := (payload p)[4 := payload p ! 1]\<rparr>;
     Some (p\<lparr>payload := (payload p)[5 := payload p ! 2]\<rparr>)
   }"

end
