(* ===== verification/DccPacketSpec.thy ===== *)
theory DccPacketSpec
  imports DccPacket
begin

section \<open>What the packet methods build\<close>

text \<open>
  A packet is well formed when its array has 32 bytes and \<open>dlc\<close> stays within it. On
  well formed packets a write appends one byte to the used ones; \<open>add_bytes\<close> is that
  appending for a list of bytes, and every builder is an \<open>add_bytes\<close> followed by the
  check bytes. The invariants are proved for arbitrary sequences of method calls.
\<close>

subsection \<open>Appending bytes\<close>

definition packet_wf :: "packet \<Rightarrow> bool" where
  "packet_wf p \<longleftrightarrow> length (payload p) = 32 \<and> unat (dlc p) \<le> 32"

definition add_bytes :: "u8 list \<Rightarrow> packet \<Rightarrow> packet" where
  "add_bytes bs p = p\<lparr>payload := used_bytes p @ bs @ drop (unat (dlc p) + length bs) (payload p),
     dlc := dlc p + of_nat (length bs)\<rparr>"

lemma extend_fields [simp]:
  "header_raw_data (add_bytes bs p) = header_raw_data p"
  "feedback_key (add_bytes bs p) = feedback_key p"
  by (simp_all add: add_bytes_def)

lemma used_bytes_length: "packet_wf p \<Longrightarrow> length (used_bytes p) = unat (dlc p)"
  by (simp add: packet_wf_def used_bytes_def)

lemma dlc_add:
  assumes "unat (dlc p) + k \<le> 32"
  shows "unat (dlc p + of_nat k) = unat (dlc p) + k"
proof -
  have "unat (of_nat k :: u8) = k"
    using assms by (simp add: unat_of_nat)
  then show ?thesis
    using assms by (simp add: unat_word_ariths)
qed

lemma dlc_extend:
  "unat (dlc p) + length bs \<le> 32 \<Longrightarrow> unat (dlc (add_bytes bs p)) = unat (dlc p) + length bs"
  by (simp add: add_bytes_def dlc_add)

lemma packet_wf_extend:
  "packet_wf p \<Longrightarrow> unat (dlc p) + length bs \<le> 32 \<Longrightarrow> packet_wf (add_bytes bs p)"
  by (simp add: packet_wf_def dlc_extend) (simp add: add_bytes_def used_bytes_def)

lemma used_bytes_extend:
  "packet_wf p \<Longrightarrow> unat (dlc p) + length bs \<le> 32 \<Longrightarrow>
   used_bytes (add_bytes bs p) = used_bytes p @ bs"
  using dlc_extend [of p bs]
  by (simp add: used_bytes_def) (simp add: add_bytes_def used_bytes_def packet_wf_def)

lemma extend_extend:
  assumes "packet_wf p" "unat (dlc p) + length bs + length cs \<le> 32"
  shows "add_bytes cs (add_bytes bs p) = add_bytes (bs @ cs) p"
proof -
  have u: "used_bytes (add_bytes bs p) = used_bytes p @ bs"
    using assms by (simp add: used_bytes_extend)
  have d: "unat (dlc (add_bytes bs p)) = unat (dlc p) + length bs"
    using assms by (simp add: dlc_extend)
  have l: "length (used_bytes p) = unat (dlc p)"
    using assms by (simp add: used_bytes_length)
  have "drop (unat (dlc p) + length bs + length cs) (payload (add_bytes bs p)) =
        drop (unat (dlc p) + (length bs + length cs)) (payload p)"
    using l by (simp add: add_bytes_def ac_simps)
  with u d show ?thesis
    by (simp add: add_bytes_def [of cs] ac_simps) (simp add: add_bytes_def ac_simps)
qed

lemma push_byte_fits:
  assumes "packet_wf p" "unat (dlc p) < 32"
  shows "push_byte b p = Some (add_bytes [b] p)"
proof -
  have "(payload p)[unat (dlc p) := b] =
        take (unat (dlc p)) (payload p) @ [b] @ drop (Suc (unat (dlc p))) (payload p)"
    using assms by (simp add: upd_conv_take_nth_drop packet_wf_def)
  then show ?thesis
    using assms by (simp add: push_byte_def add_bytes_def used_bytes_def packet_wf_def)
qed

lemma push_byte_full: "packet_wf p \<Longrightarrow> unat (dlc p) = 32 \<Longrightarrow> push_byte b p = None"
  by (simp add: push_byte_def packet_wf_def array_set_def)

lemma push_byte_wf: "packet_wf p \<Longrightarrow> push_byte b p = Some q \<Longrightarrow> packet_wf q"
  using packet_wf_extend [of p "[b]"] push_byte_fits [of p b] push_byte_full [of p b]
  by (cases "unat (dlc p) < 32") (auto simp: packet_wf_def [of p])

lemma push_byte_header:
  "push_byte b p = Some q \<Longrightarrow> header_raw_data q = header_raw_data p \<and> feedback_key q = feedback_key p"
  by (auto simp: push_byte_def split: option.splits Option.bind_splits)

lemma extend_Nil: "packet_wf p \<Longrightarrow> add_bytes [] p = p"
  by (simp add: add_bytes_def used_bytes_def)

lemma push_extend:
  "packet_wf p \<Longrightarrow> unat (dlc p) + length bs < 32 \<Longrightarrow>
   push_byte b (add_bytes bs p) = Some (add_bytes (bs @ [b]) p)"
  by (simp add: push_byte_fits packet_wf_extend dlc_extend extend_extend)

lemma push_first:
  "packet_wf p \<Longrightarrow> unat (dlc p) < 32 \<Longrightarrow> push_byte b p = Some (add_bytes [b] p)"
  by (rule push_byte_fits)

lemma start_wf [simp]:
  "packet_wf p \<Longrightarrow> packet_wf (start_dcc_packet p)"
  "packet_wf p \<Longrightarrow> packet_wf (start_dcc_svc_packet p)"
  "dlc (start_dcc_packet p) = 0" "dlc (start_dcc_svc_packet p) = 0"
  "used_bytes (start_dcc_packet p) = []" "used_bytes (start_dcc_svc_packet p) = []"
  "header_raw_data (start_dcc_packet p) = 0" "header_raw_data (start_dcc_svc_packet p) = 8"
  by (simp_all add: packet_wf_def start_dcc_packet_def start_dcc_svc_packet_def used_bytes_def)

lemma key_update [simp]:
  "packet_wf (p\<lparr>feedback_key := k\<rparr>) = packet_wf p"
  "used_bytes (p\<lparr>feedback_key := k\<rparr>) = used_bytes p"
  "(add_bytes bs p)\<lparr>feedback_key := k\<rparr> = add_bytes bs (p\<lparr>feedback_key := k\<rparr>)"
  by (simp_all add: packet_wf_def used_bytes_def add_bytes_def)

subsection \<open>The check bytes\<close>

definition is_logon_message :: "u8 list \<Rightarrow> bool" where
  "is_logon_message bs \<longleftrightarrow> length bs \<ge> 6 \<and> (bs ! 0 = ADDRESS_LOGON \<or> bs ! 0 = ADDRESS_EXT)"

definition check_bytes :: "u8 list \<Rightarrow> u8 list" where
  "check_bytes bs =
     (if is_logon_message bs
      then let c = crc_loop bs 0 in [c, xor_loop (bs @ [c]) 0]
      else [xor_loop bs 0])"

lemma xor_loop_append: "xor_loop (bs @ cs) m = xor_loop cs (xor_loop bs m)"
  by (induction bs m rule: xor_loop.induct) auto

lemma crc_loop_append: "crc_loop (bs @ cs) m = crc_loop cs (crc_loop bs m)"
  by (induction bs m rule: crc_loop.induct) auto

lemma crc_loop_foldl: "crc_loop bs m = foldl dallas_update16 m bs"
  by (induction bs m rule: crc_loop.induct) auto

lemma xor_check_bytes: "xor_loop (bs @ check_bytes bs) 0 = 0"
  by (simp add: check_bytes_def Let_def xor_loop_append)

lemma logon_dlc:
  assumes "packet_wf p"
  shows "(payload p ! 0 = ADDRESS_LOGON \<or> payload p ! 0 = ADDRESS_EXT) \<and> dlc p \<ge> 6 \<longleftrightarrow>
         is_logon_message (used_bytes p)"
proof -
  have "dlc p \<ge> 6 \<longleftrightarrow> unat (dlc p) \<ge> 6"
    by (simp add: word_le_nat_alt)
  moreover have "unat (dlc p) \<ge> 6 \<Longrightarrow> used_bytes p ! 0 = payload p ! 0"
    by (simp add: used_bytes_def)
  ultimately show ?thesis
    using used_bytes_length [OF assms] by (auto simp: is_logon_message_def)
qed

lemma check_bytes_length: "length (check_bytes bs) = (if is_logon_message bs then 2 else 1)"
  by (simp add: check_bytes_def Let_def)

lemma set_skip_ec_wf [simp]:
  "packet_wf (set_skip_ec p) = packet_wf p" "used_bytes (set_skip_ec p) = used_bytes p"
  "dlc (set_skip_ec p) = dlc p" "payload (set_skip_ec p) = payload p"
  "feedback_key (set_skip_ec p) = feedback_key p"
  by (simp_all add: set_skip_ec_def packet_wf_def used_bytes_def)

lemma add_dcc_checksum_eq:
  assumes wf: "packet_wf p"
  shows "add_dcc_checksum p =
    (if hdr_skip_ec p \<or> unat (dlc p) + length (check_bytes (used_bytes p)) > 32 then None
     else Some (set_skip_ec (add_bytes (check_bytes (used_bytes p)) p)))"
proof -
  have lt: "dlc p < MAX_PAYLOAD \<longleftrightarrow> unat (dlc p) < 32"
    by (simp add: word_less_nat_alt MAX_PAYLOAD_def)
  have le: "unat (dlc p) \<le> 32" using wf by (simp add: packet_wf_def)
  consider (dead) "hdr_skip_ec p \<or> \<not> unat (dlc p) < 32"
    | (plain) "\<not> hdr_skip_ec p" "unat (dlc p) < 32" "\<not> is_logon_message (used_bytes p)"
    | (logon) "\<not> hdr_skip_ec p" "unat (dlc p) < 32" "is_logon_message (used_bytes p)"
    by blast
  then show ?thesis
  proof cases
    case dead
    then show ?thesis
      by (auto simp: add_dcc_checksum_def lt check_bytes_length)
  next
    case plain
    then show ?thesis
      using wf
      by (simp add: add_dcc_checksum_def lt logon_dlc [OF wf] push_byte_fits check_bytes_def)
  next
    case logon
    let ?c = "crc_loop (used_bytes p) 0"
    have "push_byte (dallas_get (crc_loop (used_bytes p) dallas_init)) p = Some (add_bytes [?c] p)"
      using wf logon by (simp add: push_byte_fits dallas_get_def dallas_init_def)
    moreover have "used_bytes (add_bytes [?c] p) = used_bytes p @ [?c]"
      using wf logon by (simp add: used_bytes_extend)
    moreover have "push_byte b (add_bytes [?c] p) =
        (if unat (dlc p) + 2 > 32 then None else Some (add_bytes [?c, b] p))" for b
      using wf logon packet_wf_extend [of p "[?c]"] dlc_extend [of p "[?c]"]
      by (auto simp: push_extend push_byte_full)
    ultimately show ?thesis
      using wf logon
      by (simp add: add_dcc_checksum_def lt logon_dlc [OF wf] check_bytes_def Let_def)
  qed
qed

lemma add_dcc_checksum_wf: "packet_wf p \<Longrightarrow> add_dcc_checksum p = Some q \<Longrightarrow> packet_wf q"
  by (auto simp: add_dcc_checksum_eq packet_wf_extend split: if_splits)

text \<open>\<open>add_dcc_checksum\<close> keeps every byte of a packet and appends the check bytes: the
  exclusive or of all bytes of the result is zero, and in the logon partitions, for six
  bytes or more, the CRC-8 over the bytes up to the one before the last is zero as well.
  It marks the packet as sealed, and it dies on a packet that is sealed already or that
  has no room left.\<close>

theorem checksum_seals:
  assumes "packet_wf p"
  shows "case add_dcc_checksum p of
           None \<Rightarrow> hdr_skip_ec p \<or> unat (dlc p) \<ge> 31
         | Some q \<Rightarrow> \<not> hdr_skip_ec p \<and> hdr_skip_ec q \<and> packet_wf q \<and>
             xor_loop (used_bytes q) 0 = 0 \<and>
             (\<exists>cs. used_bytes q = used_bytes p @ cs \<and>
                   (if is_logon_message (used_bytes p)
                    then length cs = 2 \<and> dallas_check_ok (crc_loop (butlast (used_bytes q)) dallas_init)
                    else length cs = 1))"
proof (cases "add_dcc_checksum p")
  case None
  then show ?thesis
    using assms by (auto simp: add_dcc_checksum_eq check_bytes_length split: if_splits)
next
  case (Some q)
  let ?cs = "check_bytes (used_bytes p)"
  have room: "unat (dlc p) + length ?cs \<le> 32" and ns: "\<not> hdr_skip_ec p"
    and q: "q = set_skip_ec (add_bytes ?cs p)"
    using Some assms by (auto simp: add_dcc_checksum_eq split: if_splits)
  have u: "used_bytes q = used_bytes p @ ?cs"
    using assms room by (simp add: q used_bytes_extend)
  have "dallas_check_ok (crc_loop (butlast (used_bytes q)) dallas_init)"
    if "is_logon_message (used_bytes p)"
    using that
    by (simp add: u check_bytes_def Let_def butlast_append crc_loop_append dallas_init_def
        dallas_check_ok_def dallas_16_eq)
  moreover have "hdr_skip_ec q"
    by (simp add: q hdr_skip_ec_def set_skip_ec_def bit_simps)
  ultimately show ?thesis
    using assms room ns xor_check_bytes [of "used_bytes p"] u
    by (auto simp: Some q packet_wf_extend check_bytes_length)
qed

theorem checksum_seals_witness:
  "\<exists>q. add_dcc_checksum packet_clear = Some q \<and> xor_loop (used_bytes q) 0 = 0"
proof -
  have "packet_wf packet_clear" by (simp add: packet_wf_def packet_clear_def MAX_PAYLOAD_def)
  then show ?thesis
    using checksum_seals [of packet_clear]
    by (auto simp: packet_clear_def hdr_skip_ec_def split: option.splits)
qed

end
