(* ===== verification/DccCalls.thy ===== *)
theory DccCalls
  imports DccPacketSpec
begin

section \<open>Sequences of method calls on a packet\<close>

text \<open>
  One constructor per public method of \<open>dcc::Packet\<close> and the execution of a list of
  calls, which stops with \<open>None\<close> at the first call that dies. Whatever calls a
  client makes, the packet stays well formed; a client that uses the Marklin methods
  on Marklin packets only, and sets the accessory options before the checksum, never
  holds a sealed DCC packet with a wrong checksum.
\<close>

datatype setup_call =
  Clear | Idle | Reset_all | Set_cmd u8 | Start_dcc | Start_svc
| Address dcc_address | Accy_address bool u32 | Accy_params bool bool | Checksum

datatype loco_call =
  Speed14 bool bool u32 | Speed28 bool u32 | Speed128 bool u32
| Function0_4 u32 | Function5_8 u32 | Function9_12 u32 | Function13_20 u32 | Function21_28 u32
| Function_hi u8 u8 | Binary_state u16 bool | Analog u8 u8

datatype prog_call =
  Prog_command u8 u32 u8 | Pom_read1 u32 | Pom_write1 u32 u8
| Svc_verify_byte u32 u8 | Svc_write_byte u32 u8
| Svc_verify_bit u32 u32 bool | Svc_write_bit u32 u32 bool
| Svc_set_page u32 | Svc_paged_write u8 u8 | Svc_paged_verify u8 u8

datatype other_call =
  Basic_accessory u32 bool | Ext_accessory u32 u8
| Logon_enable LogonEnableParam u16 u8 | Select_shortinfo u64 | Logon_assign u64 u16

datatype mm_call =
  Mm_address MMAddress bool | Mm_speed u32 | Mm_new_speed bool u32
| Mm_new_fn u32 bool u32 | Mm_shift

datatype packet_call =
  Setup setup_call | Loco loco_call | Prog prog_call | Other other_call | Start_mm | Mm mm_call

fun exec_setup :: "setup_call \<Rightarrow> packet \<Rightarrow> packet option" where
  "exec_setup Clear p = Some packet_clear"
| "exec_setup Idle p = Some (set_dcc_idle p)"
| "exec_setup Reset_all p = Some (set_dcc_reset_all_decoders p)"
| "exec_setup (Set_cmd c) p = set_cmd c p"
| "exec_setup Start_dcc p = Some (start_dcc_packet p)"
| "exec_setup Start_svc p = Some (start_dcc_svc_packet p)"
| "exec_setup (Address a) p = add_dcc_address a p"
| "exec_setup (Accy_address b a) p = add_dcc_accy_address b a p"
| "exec_setup (Accy_params n a) p = Some (set_dcc_basic_accy_params n a p)"
| "exec_setup Checksum p = add_dcc_checksum p"

fun exec_loco :: "loco_call \<Rightarrow> packet \<Rightarrow> packet option" where
  "exec_loco (Speed14 f l s) p = add_dcc_speed14 f l s p"
| "exec_loco (Speed28 f s) p = add_dcc_speed28 f s p"
| "exec_loco (Speed128 f s) p = add_dcc_speed128 f s p"
| "exec_loco (Function0_4 v) p = add_dcc_function0_4 v p"
| "exec_loco (Function5_8 v) p = add_dcc_function5_8 v p"
| "exec_loco (Function9_12 v) p = add_dcc_function9_12 v p"
| "exec_loco (Function13_20 v) p = add_dcc_function13_20 v p"
| "exec_loco (Function21_28 v) p = add_dcc_function21_28 v p"
| "exec_loco (Function_hi b v) p = add_dcc_function_hi b v p"
| "exec_loco (Binary_state n x) p = add_dcc_binary_state n x p"
| "exec_loco (Analog n v) p = add_dcc_analog_function n v p"

fun exec_prog :: "prog_call \<Rightarrow> packet \<Rightarrow> packet option" where
  "exec_prog (Prog_command c n v) p = add_dcc_prog_command c n v p"
| "exec_prog (Pom_read1 n) p = add_dcc_pom_read1 n p"
| "exec_prog (Pom_write1 n v) p = add_dcc_pom_write1 n v p"
| "exec_prog (Svc_verify_byte n v) p = set_dcc_svc_verify_byte n v p"
| "exec_prog (Svc_write_byte n v) p = set_dcc_svc_write_byte n v p"
| "exec_prog (Svc_verify_bit n b x) p = set_dcc_svc_verify_bit n b x p"
| "exec_prog (Svc_write_bit n b x) p = set_dcc_svc_write_bit n b x p"
| "exec_prog (Svc_set_page n) p = set_dcc_svc_paged_set_page n p"
| "exec_prog (Svc_paged_write r v) p = set_dcc_svc_paged_write_reg r v p"
| "exec_prog (Svc_paged_verify r v) p = set_dcc_svc_paged_verify_reg r v p"

fun exec_other :: "other_call \<Rightarrow> packet \<Rightarrow> packet option" where
  "exec_other (Basic_accessory a x) p = add_dcc_basic_accessory a x p"
| "exec_other (Ext_accessory a w) p = add_dcc_ext_accessory a w p"
| "exec_other (Logon_enable l c s) p = set_dcc_logon_enable l c s p"
| "exec_other (Select_shortinfo d) p = set_dcc_select_shortinfo d p"
| "exec_other (Logon_assign d a) p = set_dcc_logon_assign d a p"

fun exec_mm :: "mm_call \<Rightarrow> packet \<Rightarrow> packet option" where
  "exec_mm (Mm_address a l) p = Some (add_mm_address a l p)"
| "exec_mm (Mm_speed s) p = Some (add_mm_speed s p)"
| "exec_mm (Mm_new_speed f s) p = Some (add_mm_new_speed f s p)"
| "exec_mm (Mm_new_fn n v s) p = Some (add_mm_new_fn n v s p)"
| "exec_mm Mm_shift p = mm_shift p"

fun exec_call :: "packet_call \<Rightarrow> packet \<Rightarrow> packet option" where
  "exec_call (Setup c) p = exec_setup c p"
| "exec_call (Loco c) p = exec_loco c p"
| "exec_call (Prog c) p = exec_prog c p"
| "exec_call (Other c) p = exec_other c p"
| "exec_call Start_mm p = Some (start_mm_packet p)"
| "exec_call (Mm c) p = exec_mm c p"

fun exec_calls :: "packet_call list \<Rightarrow> packet \<Rightarrow> packet option" where
  "exec_calls [] p = Some p"
| "exec_calls (c # cs) p = Option.bind (exec_call c p) (exec_calls cs)"

subsection \<open>Well-formedness\<close>

lemma or_byte_wf [simp]: "packet_wf (or_byte i b p) = packet_wf p"
  by (simp add: or_byte_def packet_wf_def)

lemma or_byte_header [simp]:
  "header_raw_data (or_byte i b p) = header_raw_data p" "dlc (or_byte i b p) = dlc p"
  by (simp_all add: or_byte_def)

lemma payload_update_wf [simp]:
  "packet_wf (p\<lparr>payload := (payload p)[i := b]\<rparr>) = packet_wf p"
  by (simp add: packet_wf_def)

lemma or_byte_if_wf [simp]:
  "packet_wf (if c then or_byte i b p else p) = packet_wf p"
  "packet_wf (if c then or_byte i b p else or_byte k d p) = packet_wf p"
  "header_raw_data (if c then or_byte i b p else p) = header_raw_data p"
  "header_raw_data (if c then or_byte i b p else or_byte k d p) = header_raw_data p"
  by simp_all

lemma set_mm_speed_bits_wf [simp]:
  "packet_wf (snd (set_mm_speed_bits s p)) = packet_wf p"
  "header_raw_data (snd (set_mm_speed_bits s p)) = header_raw_data p"
  by (simp_all add: set_mm_speed_bits_def Let_def split del: if_split)

lemma mm_change_dir_wf [simp]: "packet_wf (mm_change_dir p) = packet_wf p"
  by (simp add: mm_change_dir_def packet_wf_def)

lemma mm_address_wf [simp]: "packet_wf (add_mm_address a l p) = packet_wf p"
  by (simp add: add_mm_address_def Let_def split del: if_split)

lemma mm_speed_wf [simp]: "packet_wf (add_mm_speed s p) = packet_wf p"
  by (simp add: add_mm_speed_def Let_def)

lemma mm_new_speed_wf [simp]: "packet_wf (add_mm_new_speed f s p) = packet_wf p"
  by (cases "s = CHANGE_DIR \<or> s = EMERGENCY_STOP")
     (simp_all add: add_mm_new_speed_def Let_def split_beta split del: if_split)

lemma mm_new_fn_wf [simp]: "packet_wf (add_mm_new_fn n v s p) = packet_wf p"
proof (cases "s = CHANGE_DIR \<or> s = EMERGENCY_STOP \<or> n < 1 \<or> n > 4")
  case True
  then show ?thesis by (simp add: add_mm_new_fn_def)
next
  case False
  obtain s' p' where s: "set_mm_speed_bits s p = (s', p')" by (cases "set_mm_speed_bits s p")
  have "packet_wf p' = packet_wf p"
    using set_mm_speed_bits_wf(1) [of s p] by (simp add: s)
  then show ?thesis
    using False by (simp only: add_mm_new_fn_def s Let_def prod.case if_False)
      (simp add: if_bool_eq_disj)
qed

lemma mm_shift_wf: "packet_wf p \<Longrightarrow> mm_shift p = Some q \<Longrightarrow> packet_wf q"
  by (auto simp: mm_shift_def packet_wf_def Let_def split: if_splits)

lemma fixed_wf:
  "packet_wf packet_clear"
  "packet_wf p \<Longrightarrow> packet_wf (set_dcc_idle p)"
  "packet_wf p \<Longrightarrow> packet_wf (set_dcc_reset_all_decoders p)"
  "packet_wf p \<Longrightarrow> packet_wf (start_mm_packet p)"
  "packet_wf p \<Longrightarrow> packet_wf (set_dcc_basic_accy_params n a p)"
  by (simp_all add: packet_wf_def packet_clear_def set_dcc_idle_def set_dcc_reset_all_decoders_def
      start_dcc_packet_def set_skip_ec_def MAX_PAYLOAD_def start_mm_packet_def
      set_dcc_basic_accy_params_def or_byte_def Let_def)

text \<open>
  \<open>ends P r\<close>: the result, if there is one, satisfies \<open>P\<close>. The rules follow the
  structure of the methods. A sealed result comes out of \<open>add_dcc_checksum\<close> on a well
  formed packet.
\<close>

definition ends :: "(packet \<Rightarrow> bool) \<Rightarrow> packet option \<Rightarrow> bool" where
  "ends P r \<longleftrightarrow> (\<forall>q. r = Some q \<longrightarrow> P q)"

definition sealed :: "packet option \<Rightarrow> bool" where
  "sealed = ends (\<lambda>q. \<exists>p. packet_wf p \<and> add_dcc_checksum p = Some q)"

named_theorems ends_rules "results of the methods, by their structure"

lemma ends_Some [ends_rules]: "P q \<Longrightarrow> ends P (Some q)"
  by (simp add: ends_def)

lemma ends_push [ends_rules]:
  "packet_wf p \<Longrightarrow> (\<And>q. packet_wf q \<Longrightarrow> ends P (f q)) \<Longrightarrow> ends P (Option.bind (push_byte b p) f)"
  using push_byte_wf [of p b] by (cases "push_byte b p") (auto simp: ends_def)

lemma ends_value [ends_rules]:
  "(\<And>b. ends P (f b)) \<Longrightarrow> ends P (Option.bind (x :: u8 option) f)"
  by (cases x) (simp_all add: ends_def)

lemma ends_assert [ends_rules]: "ends P (f ()) \<Longrightarrow> ends P (Option.bind (hassert c) f)"
  by (cases c) (simp_all add: ends_def)

lemma ends_if [ends_rules]: "ends P x \<Longrightarrow> ends P y \<Longrightarrow> ends P (if c then x else y)"
  by simp

lemma accy_address_wf: "packet_wf p \<Longrightarrow> ends packet_wf (add_dcc_accy_address b a p)"
  unfolding add_dcc_accy_address_def Let_def
  by (intro ends_rules; simp)

lemma address_wf: "packet_wf p \<Longrightarrow> ends packet_wf (add_dcc_address a p)"
  by (cases a; simp only: add_dcc_address.simps add_dcc_short_address_def add_dcc_long_address_def)
     (intro ends_rules; simp)+

lemma ends_accy [ends_rules]:
  "packet_wf p \<Longrightarrow> (\<And>q. packet_wf q \<Longrightarrow> ends P (f q)) \<Longrightarrow>
   ends P (Option.bind (add_dcc_accy_address b a p) f)"
  using accy_address_wf [of p b a]
  by (cases "add_dcc_accy_address b a p") (auto simp: ends_def)

lemma sealed_checksum: "packet_wf p \<Longrightarrow> sealed (add_dcc_checksum p)"
  by (auto simp: sealed_def ends_def)

lemmas sealed_rules = ends_rules [where P = "\<lambda>q. \<exists>p. packet_wf p \<and> add_dcc_checksum p = Some q",
  folded sealed_def] sealed_checksum

lemma sealed_speed:
  assumes "packet_wf p"
  shows "sealed (add_dcc_speed14 f l s p)" "sealed (add_dcc_speed28 f s p)"
    "sealed (add_dcc_speed128 f s p)"
  unfolding add_dcc_speed14_def add_dcc_speed28_def add_dcc_speed128_def Let_def
  by (intro sealed_rules assms; assumption)+

lemma sealed_function:
  assumes "packet_wf p"
  shows "sealed (add_dcc_function0_4 v p)" "sealed (add_dcc_function5_8 v p)"
    "sealed (add_dcc_function9_12 v p)" "sealed (add_dcc_function_hi b w p)"
    "sealed (add_dcc_binary_state n x p)" "sealed (add_dcc_analog_function b w p)"
  unfolding add_dcc_function0_4_def add_dcc_function5_8_def add_dcc_function9_12_def
    add_dcc_function_hi_def add_dcc_binary_state_def add_dcc_analog_function_def Let_def
  by (intro sealed_rules assms; assumption)+

lemma sealed_prog: "packet_wf p \<Longrightarrow> sealed (add_dcc_prog_command c n v p)"
  unfolding add_dcc_prog_command_def by (intro sealed_rules; assumption)

lemma sealed_svc:
  assumes "packet_wf p"
  shows "sealed (set_dcc_svc_verify_byte n v p)" "sealed (set_dcc_svc_write_byte n v p)"
    "sealed (set_dcc_svc_verify_bit n b x p)" "sealed (set_dcc_svc_write_bit n b x p)"
    "sealed (set_dcc_svc_paged_write_reg r v p)" "sealed (set_dcc_svc_paged_verify_reg r v p)"
  unfolding set_dcc_svc_verify_byte_def set_dcc_svc_write_byte_def set_dcc_svc_verify_bit_def
    set_dcc_svc_write_bit_def set_dcc_svc_paged_write_reg_def set_dcc_svc_paged_verify_reg_def Let_def
  by (intro sealed_rules sealed_prog start_wf assms; assumption)+

lemma sealed_accessory:
  assumes "packet_wf p"
  shows "sealed (add_dcc_basic_accessory a x p)" "sealed (add_dcc_ext_accessory a w p)"
  unfolding add_dcc_basic_accessory_def add_dcc_ext_accessory_def Let_def
  by (intro sealed_rules fixed_wf assms; assumption)+

lemma sealed_logon:
  assumes "packet_wf p"
  shows "sealed (set_dcc_logon_enable l c s p)" "sealed (set_dcc_select_shortinfo d p)"
    "sealed (set_dcc_logon_assign d a p)"
  unfolding set_dcc_logon_enable_def set_dcc_select_shortinfo_def set_dcc_logon_assign_def
  by (intro sealed_rules start_wf assms; assumption)+

subsection \<open>Invariants of arbitrary call sequences\<close>

lemma sealed_wf: "sealed r \<Longrightarrow> ends packet_wf r"
  by (auto simp: sealed_def ends_def add_dcc_checksum_wf)

lemma sealed_loco: "packet_wf p \<Longrightarrow> sealed (exec_loco c p)"
  by (cases c) (simp_all add: sealed_speed sealed_function add_dcc_function13_20_def
      add_dcc_function21_28_def)

lemma sealed_prog_call: "packet_wf p \<Longrightarrow> sealed (exec_prog c p)"
  by (cases c) (simp_all add: sealed_prog sealed_svc add_dcc_pom_read1_def add_dcc_pom_write1_def
      set_dcc_svc_paged_set_page_def)

lemma sealed_other: "packet_wf p \<Longrightarrow> sealed (exec_other c p)"
  by (cases c) (simp_all add: sealed_accessory sealed_logon)

lemma set_cmd_wf: "packet_wf p \<Longrightarrow> ends packet_wf (set_cmd c p)"
  by (simp add: ends_def set_cmd_def packet_wf_def)

lemma setup_wf: "packet_wf p \<Longrightarrow> ends packet_wf (exec_setup c p)"
  by (cases c) (simp_all add: ends_Some fixed_wf address_wf accy_address_wf set_cmd_wf
      sealed_wf sealed_checksum)

lemma mm_call_wf: "packet_wf p \<Longrightarrow> ends packet_wf (exec_mm c p)"
  by (cases c) (auto simp: ends_def mm_shift_wf)

lemmas bind_cases = Option.bind_eq_Some_conv

lemma exec_call_wf: "packet_wf p \<Longrightarrow> exec_call c p = Some q \<Longrightarrow> packet_wf q"
  using sealed_wf [OF sealed_loco [of p]] sealed_wf [OF sealed_prog_call [of p]]
    sealed_wf [OF sealed_other [of p]] setup_wf [of p] mm_call_wf [of p]
  by (cases c) (auto simp: ends_def fixed_wf)

text \<open>Whatever public methods a client calls in whatever order, the packet stays well
  typed: the array keeps its 32 bytes and \<open>dlc\<close> never points behind it.\<close>

theorem packet_well_typed:
  "packet_wf p \<Longrightarrow> exec_calls cs p = Some q \<Longrightarrow> packet_wf q"
proof (induction cs arbitrary: p)
  case Nil
  then show ?case by simp
next
  case (Cons c cs)
  then obtain r where "exec_call c p = Some r" "exec_calls cs r = Some q"
    by (auto simp: bind_cases)
  then show ?case using Cons exec_call_wf by blast
qed

theorem packet_well_typed_witness:
  "\<exists>q. exec_calls [Setup Start_dcc, Start_mm, Mm (Mm_speed 3)] packet_clear = Some q \<and> packet_wf q"
  using packet_well_typed [of packet_clear "[Setup Start_dcc, Start_mm, Mm (Mm_speed 3)]"] fixed_wf(1)
  by simp

subsection \<open>Sealed packets have a correct checksum\<close>

definition checksum_ok :: "packet \<Rightarrow> bool" where
  "checksum_ok p \<longleftrightarrow>
     (\<not> hdr_is_pkt p \<longrightarrow> \<not> hdr_is_marklin p \<longrightarrow> hdr_skip_ec p \<longrightarrow> xor_loop (used_bytes p) 0 = 0)"

text \<open>What a client has to respect: no options are set behind a checksum, and the Marklin
  methods are for Marklin packets.\<close>

fun legal :: "packet_call \<Rightarrow> packet \<Rightarrow> bool" where
  "legal (Setup (Accy_params n a)) p = (\<not> hdr_skip_ec p)"
| "legal (Mm c) p = hdr_is_marklin p"
| "legal c p = True"

fun legal_calls :: "packet_call list \<Rightarrow> packet \<Rightarrow> bool" where
  "legal_calls [] p = True"
| "legal_calls (c # cs) p =
     (legal c p \<and> (case exec_call c p of None \<Rightarrow> True | Some q \<Rightarrow> legal_calls cs q))"

lemma sealed_ok:
  assumes "sealed r" shows "ends checksum_ok r"
proof -
  have "checksum_ok q" if "packet_wf p" "add_dcc_checksum p = Some q" for p q
    using that xor_check_bytes [of "used_bytes p"]
    by (auto simp: add_dcc_checksum_eq checksum_ok_def used_bytes_extend split: if_splits)
  then show ?thesis
    using assms by (auto simp: sealed_def ends_def)
qed

lemma unsealed_ok: "\<not> hdr_skip_ec p \<or> hdr_is_marklin p \<or> hdr_is_pkt p \<Longrightarrow> checksum_ok p"
  by (auto simp: checksum_ok_def)

lemma push_unsealed: "push_byte b p = Some q \<Longrightarrow> hdr_skip_ec q = hdr_skip_ec p"
  by (drule push_byte_header) (simp add: hdr_skip_ec_def)

lemma start_unsealed [simp]:
  "\<not> hdr_skip_ec (start_dcc_packet p)" "\<not> hdr_skip_ec (start_dcc_svc_packet p)"
  by (simp_all add: hdr_skip_ec_def)

lemma key_header [simp]: "hdr_skip_ec (p\<lparr>feedback_key := k\<rparr>) = hdr_skip_ec p"
  by (simp add: hdr_skip_ec_def)

lemma address_ok:
  "ends checksum_ok (add_dcc_address a p)" "ends checksum_ok (add_dcc_accy_address b n p)"
  by (cases a)
     (auto simp: add_dcc_short_address_def add_dcc_long_address_def add_dcc_accy_address_def Let_def
       ends_def bind_cases push_unsealed intro!: unsealed_ok)

lemma set_cmd_ok: "ends checksum_ok (set_cmd c p)"
proof -
  have "c AND 1 \<noteq> 0 \<Longrightarrow> bit c 0"
    by (auto simp: and_one_eq odd_iff_mod_2_eq_one bit_0)
  then show ?thesis
    by (auto simp: set_cmd_def ends_def hdr_is_pkt_def intro!: unsealed_ok)
qed

lemma accy_params_header [simp]:
  "header_raw_data (set_dcc_basic_accy_params n a p) = header_raw_data p"
  by (simp add: set_dcc_basic_accy_params_def Let_def)

lemma take_3: "length xs \<ge> 3 \<Longrightarrow> take 3 xs = [xs ! 0, xs ! 1, xs ! 2]"
  by (auto simp: list_eq_iff_nth_eq less_Suc_eq numeral_3_eq_3 numeral_2_eq_2)

lemma fixed_bytes:
  assumes "packet_wf p"
  shows "used_bytes (set_dcc_idle p) = [0xFF, 0, 0xFF]"
    "used_bytes (set_dcc_reset_all_decoders p) = [0, 0, 0]"
  using assms by (simp_all add: set_dcc_idle_def set_dcc_reset_all_decoders_def Let_def packet_wf_def
      used_bytes_def start_dcc_packet_def take_3)

lemma setup_ok:
  assumes "packet_wf p" "checksum_ok p" "legal (Setup c) p"
  shows "ends checksum_ok (exec_setup c p)"
proof (cases c)
  case Idle
  then show ?thesis
    using fixed_bytes(1) [OF assms(1)] by (simp add: ends_def checksum_ok_def)
next
  case Reset_all
  then show ?thesis
    using fixed_bytes(2) [OF assms(1)] by (simp add: ends_def checksum_ok_def)
next
  case (Accy_params n a)
  then show ?thesis
    using assms by (auto simp: ends_Some hdr_skip_ec_def intro!: ends_Some unsealed_ok)
qed (use assms in \<open>auto simp: set_cmd_ok address_ok sealed_ok sealed_checksum packet_clear_def
      hdr_skip_ec_def intro!: ends_Some unsealed_ok\<close>)

lemma mm_new_speed_header:
  "header_raw_data (add_mm_new_speed f s p) = header_raw_data p \<or>
   header_raw_data (add_mm_new_speed f s p) = header_raw_data p OR 0x60"
  by (cases "s = CHANGE_DIR \<or> s = EMERGENCY_STOP")
     (simp_all add: add_mm_new_speed_def Let_def split_beta mm_change_dir_def)

lemma mm_speed_header:
  "header_raw_data (add_mm_speed s p) = header_raw_data p \<or>
   header_raw_data (add_mm_speed s p) = header_raw_data p OR 0x60"
  by (simp add: add_mm_speed_def Let_def mm_change_dir_def)

lemma mm_header:
  assumes that: "exec_mm c p = Some q"
  shows "header_raw_data q = header_raw_data p \<or> header_raw_data q = header_raw_data p OR 0x60"
proof (cases c)
  case (Mm_new_fn n v s)
  obtain s' p' where *: "set_mm_speed_bits s p = (s', p')" by (cases "set_mm_speed_bits s p")
  have h: "header_raw_data p' = header_raw_data p"
    using set_mm_speed_bits_wf(2) [of s p] by (simp add: *)
  show ?thesis
  proof (cases "s = CHANGE_DIR \<or> s = EMERGENCY_STOP \<or> n < 1 \<or> n > 4")
    case True
    then show ?thesis
      using that Mm_new_fn mm_new_speed_header [of False s p] by (auto simp: add_mm_new_fn_def)
  next
    case False
    then show ?thesis
      using that Mm_new_fn h by (auto simp: add_mm_new_fn_def * Let_def)
  qed
next
  case (Mm_speed s)
  then show ?thesis using that mm_speed_header [of s p] by auto
next
  case (Mm_new_speed f s)
  then show ?thesis using that mm_new_speed_header [of f s p] by auto
qed (use that in \<open>auto simp: add_mm_address_def mm_shift_def Let_def split: if_splits\<close>)

lemma exec_call_ok:
  assumes "packet_wf p" "checksum_ok p" "legal c p" "exec_call c p = Some q"
  shows "checksum_ok q"
proof (cases c)
  case (Setup d)
  then show ?thesis using assms setup_ok [of p d] by (simp add: ends_def)
next
  case (Mm d)
  then have "hdr_is_marklin p" "exec_mm d p = Some q" using assms by simp_all
  then have "hdr_is_marklin q"
    using mm_header [of d p q] by (auto simp: hdr_is_marklin_def bit_simps)
  then show ?thesis by (simp add: unsealed_ok)
next
  case Start_mm
  then show ?thesis
    using assms by (auto simp: start_mm_packet_def MARKLIN_DEFAULT_CMD_def hdr_is_marklin_def bit_simps
        intro!: unsealed_ok)
qed (use assms in \<open>auto dest!: sealed_ok simp: ends_def
      intro: sealed_ok [OF sealed_loco, unfolded ends_def, rule_format]
        sealed_ok [OF sealed_prog_call, unfolded ends_def, rule_format]
        sealed_ok [OF sealed_other, unfolded ends_def, rule_format]\<close>)

lemma exec_calls_ok:
  "packet_wf p \<Longrightarrow> checksum_ok p \<Longrightarrow> legal_calls cs p \<Longrightarrow> exec_calls cs p = Some q \<Longrightarrow> checksum_ok q"
proof (induction cs arbitrary: p)
  case Nil
  then show ?case by simp
next
  case (Cons c cs)
  then obtain r where r: "exec_call c p = Some r" "exec_calls cs r = Some q"
    by (auto simp: bind_cases)
  with Cons.prems have "legal c p" "legal_calls cs r" by simp_all
  then show ?case
    using r Cons.IH [of r] exec_call_wf [of p c r] exec_call_ok [of p c r] Cons.prems by blast
qed

text \<open>Whatever sequence of legal method calls a client makes on a fresh packet, a DCC packet
  that is marked as complete (\<open>skip_ec\<close>) carries a correct checksum: the exclusive or over
  all its bytes is zero.\<close>

theorem complete_packets_checked:
  assumes "legal_calls cs packet_clear" "exec_calls cs packet_clear = Some q"
    and "\<not> hdr_is_pkt q" "\<not> hdr_is_marklin q" "hdr_skip_ec q"
  shows "xor_loop (used_bytes q) 0 = 0"
proof -
  have "checksum_ok packet_clear"
    by (auto simp: packet_clear_def hdr_skip_ec_def intro!: unsealed_ok)
  with assms exec_calls_ok [of packet_clear cs q] fixed_wf(1) show ?thesis
    by (auto simp: checksum_ok_def)
qed

theorem complete_packets_checked_witness:
  "\<exists>q. exec_calls [Setup Idle] packet_clear = Some q \<and> xor_loop (used_bytes q) 0 = 0"
  using complete_packets_checked [of "[Setup Idle]" "set_dcc_idle packet_clear"]
  by (simp add: hdr_is_pkt_def hdr_is_marklin_def hdr_skip_ec_def)
    (simp add: set_dcc_idle_def start_dcc_packet_def set_skip_ec_def Let_def)

end
