(* ===== verification/Text.thy ===== *)
theory Text
  imports Prelude
begin

section \<open>Formatted output\<close>

text \<open>
  The conversions of \<open>StringPrintf\<close> the sources use: \<open>%u\<close> and \<open>%d\<close> of a value that is
  not negative, and \<open>%02x\<close> of a byte.
\<close>

fun digit :: "nat \<Rightarrow> char" where
  "digit n = char_of (48 + n mod 10)"

fun dec :: "nat \<Rightarrow> string" where
  "dec n = (if n < 10 then [digit n] else dec (n div 10) @ [digit n])"

declare dec.simps [simp del]

definition hex_digit :: "nat \<Rightarrow> char" where
  "hex_digit n = (if n < 10 then char_of (48 + n) else char_of (87 + n))"

definition hex2 :: "u8 \<Rightarrow> string" where
  "hex2 b = [hex_digit (unat (drop_bit 4 b)), hex_digit (unat (b AND 0xf))]"

lemma digit_inject: "digit m = digit n \<longleftrightarrow> m mod 10 = n mod 10"
proof -
  have "48 + m mod 10 < 256" "48 + n mod 10 < 256" by auto
  then have "char_of (48 + m mod 10) = char_of (48 + n mod 10) \<longleftrightarrow>
             48 + m mod 10 = (48 + n mod 10 :: nat)"
    by (metis of_char_of take_bit_nat_eq_self_iff mod_less of_char_mod_256 char_of_eq_iff)
  then show ?thesis by simp
qed

lemma dec_nonempty [simp]: "dec n \<noteq> []" "[] \<noteq> dec n"
  by (subst dec.simps, simp)+

lemma dec_inject: "dec m = dec n \<longleftrightarrow> m = n"
proof (induction m arbitrary: n rule: dec.induct)
  case (1 m)
  show ?case
  proof (cases "m < 10 \<or> n < 10")
    case True
    then show ?thesis
      by (subst (1 2) dec.simps) (auto simp: digit_inject split: if_splits)
  next
    case False
    then have "dec m = dec n \<longleftrightarrow> m div 10 = n div 10 \<and> m mod 10 = n mod 10"
      using "1.IH" [of "n div 10"] by (subst (1 2) dec.simps) (auto simp: digit_inject)
    then show ?thesis by (metis div_mult_mod_eq)
  qed
qed

lemma digit_chars [simp]:
  "char_of (48 :: nat) = CHR ''0''" "char_of (49 :: nat) = CHR ''1''" "char_of (50 :: nat) = CHR ''2''"
  "char_of (51 :: nat) = CHR ''3''" "char_of (52 :: nat) = CHR ''4''" "char_of (53 :: nat) = CHR ''5''"
  "char_of (54 :: nat) = CHR ''6''" "char_of (55 :: nat) = CHR ''7''" "char_of (56 :: nat) = CHR ''8''"
  "char_of (57 :: nat) = CHR ''9''"
  by (simp_all add: char_of_def bit_0)

end
