(* ===== verification/DccDebug.thy ===== *)
theory DccDebug
  imports DccPacket Text
begin

section \<open>Printing packets (dcc/DccDebug.cpp)\<close>

text \<open>
  \<open>packet_to_string\<close> decodes a packet and renders it as text. The local variables of
  the function are a record, and each section of the function body is one definition
  over it. A read of \<open>payload[ofs]\<close> behind the array is \<open>None\<close>.
\<close>

subsection \<open>Local variables\<close>

record debug_state =
  options :: string
  ofs :: nat
  is_idle_packet :: bool
  is_basic_accy_packet :: bool
  is_unknown_packet :: bool
  is_svc_packet :: bool
  accy_address :: u32

definition emit :: "string \<Rightarrow> debug_state \<Rightarrow> debug_state" where
  "emit t s = s\<lparr>options := options s @ t\<rparr>"

definition skip :: "nat \<Rightarrow> debug_state \<Rightarrow> debug_state" where
  "skip n s = s\<lparr>ofs := ofs s + n\<rparr>"

definition byte_at :: "packet \<Rightarrow> nat \<Rightarrow> u8 option" where
  "byte_at pkt i = array_get (payload pkt) i"

subsection \<open>Option bits and raw payload\<close>

definition show_options :: "packet \<Rightarrow> string" where
  "show_options pkt =
     (let out = (if hdr_is_marklin pkt then ''[marklin]'' else ''[dcc]'');
          out = (if hdr_send_long_preamble pkt then out @ ''[long_preamble]'' else out);
          out = (if hdr_sense_ack pkt then out @ ''[sense_ack]'' else out)
      in if hdr_rept_count pkt \<noteq> 0
         then out @ ''[repeat '' @ dec (unat (hdr_rept_count pkt) + 1) @ '' times]'' else out)"

text \<open>The trailing blank of the last byte is popped; \<open>dlc\<close> is not zero here.\<close>

definition show_payload :: "u8 list \<Rightarrow> string" where
  "show_payload bs = butlast (''['' @ concat (map (\<lambda>b. hex2 b @ '' '') bs)) @ '']''"

subsection \<open>Service mode\<close>

definition show_svc :: "packet \<Rightarrow> debug_state \<Rightarrow> debug_state option" where
  "show_svc pkt s =
     (if \<not> hdr_send_long_preamble pkt then Some s
      else do {
        let s = s\<lparr>is_svc_packet := True\<rparr>;
        cmd \<leftarrow> byte_at pkt (ofs s);
        next_byte \<leftarrow> byte_at pkt (ofs s + 1);
        let cv = (push_bit 8 (ucast cmd AND 3) OR ucast next_byte :: u32) + 1;
        let reg = (ucast cmd AND 7 :: u32) + 1;
        let num_bytes = (if hdr_skip_ec pkt then int (unat (dlc pkt)) - int (ofs s) - 1
                         else int (unat (dlc pkt)) - int (ofs s));
        arg \<leftarrow> byte_at pkt (ofs s + 2);
        let bitnum = unat (arg AND 7);
        let bitval = (if arg AND DCC_SVC_BITVAL_VALUE \<noteq> 0 then 1 else 0 :: nat);
        if num_bytes = 3 \<and> cmd AND DCC_SVC_MASK = DCC_SVC_WRITE
          then Some (skip 2 (emit (''[svc] Direct Write Byte CV '' @ dec (unat cv) @ '' = '' @ dec (unat arg)) s))
        else if num_bytes = 3 \<and> cmd AND DCC_SVC_MASK = DCC_SVC_VERIFY
          then Some (skip 2 (emit (''[svc] Direct Verify Byte CV '' @ dec (unat cv) @ '' =?= '' @ dec (unat arg)) s))
        else if num_bytes = 3 \<and> cmd AND DCC_SVC_MASK = DCC_SVC_BIT_MANIPULATE \<and>
                arg AND DCC_SVC_BITVAL_MASK = DCC_SVC_BITVAL_WRITE
          then Some (skip 2 (emit (''[svc] Direct Write Bit CV '' @ dec (unat cv) @ '' bit '' @ dec bitnum @
                               '' = '' @ dec bitval) s))
        else if num_bytes = 3 \<and> cmd AND DCC_SVC_MASK = DCC_SVC_BIT_MANIPULATE \<and>
                arg AND DCC_SVC_BITVAL_MASK = DCC_SVC_BITVAL_VERIFY
          then Some (skip 2 (emit (''[svc] Direct Verify Bit CV '' @ dec (unat cv) @ '' bit '' @ dec bitnum @
                               '' =?= '' @ dec bitval) s))
        else if num_bytes = 2 \<and> cmd AND DCC_SVC_PAGED_MASK = DCC_SVC_PAGED_WRITE
          then Some (skip 1 (emit (''[svc] Paged Write Byte Reg '' @ dec (unat reg) @ '' = '' @ dec (unat next_byte)) s))
        else if num_bytes = 2 \<and> cmd AND DCC_SVC_PAGED_MASK = DCC_SVC_PAGED_VERIFY
          then Some (skip 1 (emit (''[svc] Paged Verify Byte Reg '' @ dec (unat reg) @ '' =?= '' @ dec (unat next_byte)) s))
        else Some (s\<lparr>is_svc_packet := False\<rparr>)
      })"

subsection \<open>Address\<close>

text \<open>\<open>while (ofs < pkt.dlc)\<close>, which prints the bytes that are left.\<close>

fun show_rest :: "nat \<Rightarrow> packet \<Rightarrow> debug_state \<Rightarrow> debug_state option" where
  "show_rest 0 pkt s = Some s"
| "show_rest (Suc n) pkt s =
     (if ofs s < unat (dlc pkt) then do {
        b \<leftarrow> byte_at pkt (ofs s);
        show_rest n pkt (skip 1 (emit ('' 0x'' @ hex2 b) s))
      } else Some s)"

definition show_address :: "packet \<Rightarrow> debug_state \<Rightarrow> debug_state option" where
  "show_address pkt s =
     (if is_svc_packet s then Some s
      else do {
        b \<leftarrow> byte_at pkt (ofs s);
        if b = 0xff then do {
            let s = skip 1 (emit '' Idle packet'' s);
            c \<leftarrow> byte_at pkt (ofs s);
            let s = (if c \<noteq> 0 then emit ('' unexpected[0x'' @ hex2 c @ '']'') s else s);
            Some (s\<lparr>is_idle_packet := True\<rparr>)
          }
        else if b = 0 then do {
            let s = skip 1 (emit '' Broadcast'' s);
            c \<leftarrow> byte_at pkt (ofs s);
            Some (if c = 0 then emit '' reset'' s else s)
          }
        else if b AND 0x80 = 0 then
            Some (skip 1 (emit ('' Short Address '' @ dec (unat b)) s))
        else if b AND 0xC0 = 0x80 then
            Some (skip 1 (s\<lparr>is_basic_accy_packet := True,
                            accy_address := push_bit 3 (ucast b AND 0x3F)\<rparr>))
        else if b \<ge> 192 \<and> b \<le> 231 then do {
            let addr = (push_bit 8 (ucast b AND 0x3F) :: u32);
            let s = skip 1 s;
            c \<leftarrow> byte_at pkt (ofs s);
            let addr = addr OR ucast c;
            Some (emit ('' Long Address '' @ dec (unat addr)) (skip 1 s))
          }
        else if b = 254 then
            show_rest (unat (dlc pkt)) pkt ((emit '' Logon packet'' s)\<lparr>is_unknown_packet := True\<rparr>)
        else if b = 253 then
            show_rest (unat (dlc pkt)) pkt ((emit '' Advanced extended packet'' s)\<lparr>is_unknown_packet := True\<rparr>)
        else Some s
      })"

subsection \<open>Command\<close>

definition bit_text :: "u8 \<Rightarrow> string" where
  "bit_text b = dec (unat (b AND 1))"

definition show_accessory :: "u8 \<Rightarrow> debug_state \<Rightarrow> debug_state" where
  "show_accessory cmd s =
     (let addr = accy_address s OR (ucast cmd AND 7);
          cmd = drop_bit 3 cmd;
          is_activate = (cmd AND 1 \<noteq> 0);
          cmd = drop_bit 1 cmd;
          addr = addr OR push_bit 9 (NOT (ucast cmd) AND 7);
          user_address = accy_address_binary_to_user (drop_bit 1 addr);
          n_r = (if addr AND 1 \<noteq> 0 then ''closed/normal/on'' else ''thrown/reverse/off'');
          a_d = (if is_activate then ''activate'' else ''deactivate'')
      in emit ('' Accy '' @ dec (unat addr) @ '' (user '' @ dec (unat user_address) @ '' '' @ n_r @ '') '' @ a_d)
           (s\<lparr>accy_address := addr\<rparr>))"

definition show_direction :: "bool \<Rightarrow> string" where
  "show_direction is_forward = (if is_forward then ''F'' else ''R'')"

definition show_speed28 :: "u8 \<Rightarrow> string" where
  "show_speed28 cmd =
     (let is_forward = (cmd AND 0x20 \<noteq> 0);
          speed = push_bit 1 (cmd AND 0xF) OR drop_bit 4 (cmd AND 0x10)
      in '' SPD '' @ show_direction is_forward @
         (if speed = 0 then '' 0''
          else if speed = 1 then '' 0'' @ [CHR 0x27]
          else if speed = 2 then '' E-STOP''
          else if speed = 3 then '' E-STOP'' @ [CHR 0x27]
          else '' '' @ dec (unat speed - 3)))"

definition show_speed128 :: "u8 \<Rightarrow> string" where
  "show_speed128 val =
     (let is_forward = (val AND 0x80 \<noteq> 0);
          speed = val AND 0x7F
      in '' SPD128 '' @ show_direction is_forward @
         (if speed = 0 then '' 0''
          else if speed = 1 then '' E-STOP''
          else '' '' @ dec (unat speed - 1)))"

definition show_function0 :: "u8 \<Rightarrow> string" where
  "show_function0 cmd = '' F[0-4]='' @ bit_text (drop_bit 4 cmd) @ bit_text cmd @
     bit_text (drop_bit 1 cmd) @ bit_text (drop_bit 2 cmd) @ bit_text (drop_bit 3 cmd)"

definition show_function1_2 :: "u8 \<Rightarrow> string" where
  "show_function1_2 cmd = (if cmd AND 0x10 \<noteq> 0 then '' F[5-8]='' else '' F[9-12]='') @
     bit_text cmd @ bit_text (drop_bit 1 cmd) @ bit_text (drop_bit 2 cmd) @ bit_text (drop_bit 3 cmd)"

fun show_bits :: "nat \<Rightarrow> u8 \<Rightarrow> string" where
  "show_bits 0 c = []"
| "show_bits (Suc n) c = char_of (48 + unat (c AND 1)) # show_bits n (drop_bit 1 c)"

definition show_expansion :: "packet \<Rightarrow> u8 \<Rightarrow> debug_state \<Rightarrow> debug_state option" where
  "show_expansion pkt cmd s =
     (let c = cmd AND 0x1F
      in if c AND NOT 1 = 0x1E then do {
           let s = emit (if c AND 1 \<noteq> 0 then '' F[21-28]='' else '' F[13-20]='') s;
           c \<leftarrow> byte_at pkt (ofs s);
           Some (emit (show_bits 8 c) (skip 1 s))
         }
         else Some s)"

definition show_pom :: "packet \<Rightarrow> u8 \<Rightarrow> debug_state \<Rightarrow> debug_state option" where
  "show_pom pkt cmd s = do {
     let s = emit '' POM CV'' s;
     let kk = drop_bit 2 cmd AND 3;
     let cv = (push_bit 8 (ucast (cmd AND 3)) :: u32);
     c \<leftarrow> byte_at pkt (ofs s);
     let cv = cv OR ucast c;
     let s = skip 1 s;
     let s = emit (dec (unat (cv + 1))) s;
     d \<leftarrow> byte_at pkt (ofs s);
     let s = skip 1 s;
     let nr = dec (unat (d AND 7));
     let val = dec (unat (drop_bit 3 d AND 1));
     Some (emit
       (if kk = 0 then '' resvd '' @ hex2 d
        else if kk = 1 then '' read/verify '' @ dec (unat d)
        else if kk = 3 then '' write = '' @ dec (unat d)
        else if d AND 0xE0 \<noteq> 0xE0 then '' bit manipulate unknown ('' @ hex2 d @ '')''
        else if d AND 0x10 = 0x10 then '' bit '' @ nr @ '' write = '' @ val
        else '' bit '' @ nr @ '' verify ?= '' @ val) s)
   }"

definition show_command :: "packet \<Rightarrow> debug_state \<Rightarrow> debug_state option" where
  "show_command pkt s = do {
     cmd \<leftarrow> byte_at pkt (ofs s);
     let s = (if is_unknown_packet s then s else skip 1 s);
     if is_basic_accy_packet s \<and> cmd AND 0x80 = 0x80 then Some (show_accessory cmd s)
     else if is_unknown_packet s \<or> is_svc_packet s then Some s
     else if cmd AND 0xC0 = 0x40 then Some (emit (show_speed28 cmd) s)
     else if cmd = 0x3F then do {
         val \<leftarrow> byte_at pkt (ofs s);
         Some (emit (show_speed128 val) (skip 1 s))
       }
     else if drop_bit 5 cmd = 4 then Some (emit (show_function0 cmd) s)
     else if drop_bit 5 cmd = 5 then Some (emit (show_function1_2 cmd) s)
     else if drop_bit 5 cmd = 6 then show_expansion pkt cmd s
     else if cmd = 0 \<and> is_idle_packet s then Some s
     else if drop_bit 4 cmd = 14 then show_pom pkt cmd s
     else Some s
   }"

subsection \<open>Checksum\<close>

definition show_checksum :: "packet \<Rightarrow> debug_state \<Rightarrow> debug_state option" where
  "show_checksum pkt s =
     (let len = unat (dlc pkt)
      in if ofs s = len \<and> (\<not> hdr_skip_ec pkt \<or> is_unknown_packet s) then Some s
         else if ofs s + 1 = len \<and> hdr_skip_ec pkt then do {
             let x = xor_loop (take (len - 1) (payload pkt)) 0;
             c \<leftarrow> byte_at pkt (len - 1);
             Some (if x \<noteq> c
                   then emit ('' [bad EC expected 0x'' @ hex2 x @ '' actual 0x'' @ hex2 c @ '']'') s
                   else s)
           }
         else show_rest len pkt
                (emit ('' [bad dlc, exp '' @ dec (ofs s + 1) @ '', actual '' @ dec len @ '']'') s))"

definition packet_to_string :: "packet \<Rightarrow> bool \<Rightarrow> string option" where
  "packet_to_string pkt bin_payload =
     (if hdr_is_pkt pkt then Some (''[cmd:'' @ dec (unat (hdr_cmd pkt)) @ '']'')
      else let out = show_options pkt
      in if dlc pkt = 0 then Some (out @ '' no payload'')
      else let out = (if bin_payload \<or> hdr_is_marklin pkt then out @ show_payload (used_bytes pkt) else out)
      in if hdr_is_marklin pkt then Some out
      else do {
        let s = \<lparr>options = out, ofs = 0, is_idle_packet = False, is_basic_accy_packet = False,
                 is_unknown_packet = False, is_svc_packet = False, accy_address = 0\<rparr>;
        s \<leftarrow> show_svc pkt s;
        s \<leftarrow> show_address pkt s;
        s \<leftarrow> show_command pkt s;
        s \<leftarrow> show_checksum pkt s;
        Some (if hdr_csum_error pkt then options s @ '' [csum err]'' else options s)
      })"

end
