(* ===== verification/DccRoundtrip.thy ===== *)
theory DccRoundtrip
  imports DccPacketSpec DccDebug
begin

section \<open>Packets as messages, and the text they print as\<close>

text \<open>
  A complete packet as the builders make it from an arbitrary well formed one: header,
  feedback key and bytes are fixed, and the check bytes follow. Every command is then
  taken through \<open>packet_to_string\<close>: the text shows the address and the values the
  builder was given.
\<close>

subsection \<open>Bytes\<close>

lemma byte_below:
  assumes "\<forall>n\<in>set [0..<k]. P (word_of_nat n :: 'a::len word)" "unat t < k"
  shows "P t"
proof -
  have "P (word_of_nat (unat t))"
    using assms by (metis atLeastLessThan_iff set_upt zero_le)
  then show ?thesis by simp
qed

lemma byte_all: "(\<forall>n\<in>set [0..<256]. P (word_of_nat n :: u8)) \<Longrightarrow> P t"
  by (erule byte_below) simp

lemma below_8: "j < 8 \<Longrightarrow> j = 0 \<or> j = 1 \<or> j = 2 \<or> j = 3 \<or> j = 4 \<or> j = 5 \<or> j = 6 \<or> j = (7 :: nat)"
  by (simp add: less_Suc_eq eval_nat_numeral)

lemma below_12:
  assumes "j < (12 :: nat)"
  shows "j = 0 \<or> j = 1 \<or> j = 2 \<or> j = 3 \<or> j = 4 \<or> j = 5 \<or> j = 6 \<or> j = 7 \<or> j = 8 \<or> j = 9 \<or> j = 10 \<or> j = 11"
proof (cases "j < 8")
  case True
  then show ?thesis using below_8 by blast
next
  case False
  with assms have "j = 8 \<or> j = 9 \<or> j = 10 \<or> j = 11" by linarith
  then show ?thesis by blast
qed

subsection \<open>Messages\<close>

definition fresh :: "u8 \<Rightarrow> u32 \<Rightarrow> packet \<Rightarrow> packet" where
  "fresh h k p = p\<lparr>header_raw_data := h, dlc := 0, feedback_key := k\<rparr>"

definition message :: "u8 \<Rightarrow> u32 \<Rightarrow> u8 list \<Rightarrow> packet \<Rightarrow> packet" where
  "message h k bs p = set_skip_ec (add_bytes (bs @ check_bytes bs) (fresh h k p))"

lemma fresh_simps [simp]:
  "header_raw_data (fresh h k p) = h" "dlc (fresh h k p) = 0" "used_bytes (fresh h k p) = []"
  "packet_wf p \<Longrightarrow> packet_wf (fresh h k p)" "feedback_key (fresh h k p) = k"
  by (simp_all add: fresh_def packet_wf_def used_bytes_def)

lemma start_fresh:
  "start_dcc_packet p = fresh 0 (feedback_key p) p"
  "start_dcc_svc_packet p = fresh 8 (feedback_key p) p"
  "(fresh h k p)\<lparr>feedback_key := k'\<rparr> = fresh h k' p"
  by (simp_all add: fresh_def start_dcc_packet_def start_dcc_svc_packet_def)

lemma check_bytes_le: "length (check_bytes bs) \<le> 2"
  by (simp add: check_bytes_length)

lemma push_fresh:
  "packet_wf p \<Longrightarrow> push_byte b (fresh h k p) = Some (add_bytes [b] (fresh h k p))"
  by (simp add: push_byte_fits)

lemma push_fresh_extend:
  "packet_wf p \<Longrightarrow> length bs < 32 \<Longrightarrow>
   push_byte b (add_bytes bs (fresh h k p)) = Some (add_bytes (bs @ [b]) (fresh h k p))"
  by (simp add: push_extend)

lemma finish_message:
  assumes "packet_wf p" "\<not> bit h 2" "length bs \<le> 30"
  shows "add_dcc_checksum (add_bytes bs (fresh h k p)) = Some (message h k bs p)"
proof -
  have "length (check_bytes bs) \<le> 2" by (rule check_bytes_le)
  with assms show ?thesis
    by (simp add: add_dcc_checksum_eq packet_wf_extend used_bytes_extend dlc_extend extend_extend
        message_def hdr_skip_ec_def)
qed

lemma message_facts:
  assumes "packet_wf p" "length bs \<le> 30"
  shows "packet_wf (message h k bs p)"
    "header_raw_data (message h k bs p) = h OR 4"
    "feedback_key (message h k bs p) = k"
    "used_bytes (message h k bs p) = bs @ check_bytes bs"
    "unat (dlc (message h k bs p)) = length bs + length (check_bytes bs)"
proof -
  have "length (check_bytes bs) \<le> 2" by (rule check_bytes_le)
  with assms show "packet_wf (message h k bs p)"
    "header_raw_data (message h k bs p) = h OR 4"
    "feedback_key (message h k bs p) = k"
    "used_bytes (message h k bs p) = bs @ check_bytes bs"
    "unat (dlc (message h k bs p)) = length bs + length (check_bytes bs)"
    by (simp_all add: message_def packet_wf_extend used_bytes_extend dlc_extend)
      (simp add: set_skip_ec_def)
qed

lemma used_bytes_nth:
  "packet_wf p \<Longrightarrow> i < length (used_bytes p) \<Longrightarrow> byte_at p i = Some (used_bytes p ! i)"
  by (simp add: byte_at_def packet_wf_def used_bytes_def)

lemma message_byte:
  "packet_wf p \<Longrightarrow> length bs \<le> 30 \<Longrightarrow> i < length bs \<Longrightarrow> byte_at (message h k bs p) i = Some (bs ! i)"
  using used_bytes_nth [of "message h k bs p" i]
  by (simp add: message_facts nth_append)

subsection \<open>The builders make messages\<close>

fun address_bytes :: "dcc_address \<Rightarrow> u8 list" where
  "address_bytes (Short a) = [short_value a AND 0x7F]"
| "address_bytes (Long a) = [ucast (0xC0 OR drop_bit 8 (long_value a)), ucast (long_value a AND 0xff)]"

fun address_key :: "dcc_address \<Rightarrow> u32" where
  "address_key (Short a) = ucast (short_value a)"
| "address_key (Long a) = ucast (long_value a)"

lemma address_bytes_length: "length (address_bytes a) \<le> 2"
  by (cases a) simp_all

lemma add_dcc_address_message:
  "packet_wf p \<Longrightarrow> add_dcc_address a p = Some (add_bytes (address_bytes a) (fresh 0 (address_key a) p))"
  by (cases a) (simp_all add: add_dcc_short_address_def add_dcc_long_address_def start_fresh
      push_fresh push_fresh_extend DCC_LONG_ADDRESS_FIRST_def)

definition speed_ok :: "u32 \<Rightarrow> u32 \<Rightarrow> bool" where
  "speed_ok m s \<longleftrightarrow> s \<le> m \<or> s = EMERGENCY_STOP"

definition speed128_byte :: "bool \<Rightarrow> u32 \<Rightarrow> u8" where
  "speed128_byte f s = (if f then 0x80 else 0) OR
     (if s = EMERGENCY_STOP then 1 else if s = 0 then 0 else ucast (s + 1 AND 0x7f))"

definition speed28_byte :: "bool \<Rightarrow> u32 \<Rightarrow> u8" where
  "speed28_byte f s = (if f then 0x60 else 0x40) OR
     (if s = EMERGENCY_STOP then 1 else if s = 0 then 0
      else (if s + 3 AND 1 \<noteq> 0 then 0x10 else 0) OR ucast (drop_bit 1 (s + 3) AND 0xf))"

lemma speed128_message:
  assumes "packet_wf p" "\<not> bit h 2" "length bs \<le> 28" "speed_ok 126 s"
  shows "add_dcc_speed128 f s (add_bytes bs (fresh h k p)) =
         Some (message h k (bs @ [0x3F, speed128_byte f s]) p)"
  using assms
  by (auto simp: add_dcc_speed128_def push_fresh_extend finish_message speed128_byte_def Let_def
      speed_ok_def DCC_EXT_SPEED_def DCC_EXT_SPEED_FORWARD_def EMERGENCY_STOP_def word_gt_0)

lemma speed28_message:
  assumes "packet_wf p" "\<not> bit h 2" "length bs \<le> 28" "speed_ok 28 s"
  shows "add_dcc_speed28 f s (add_bytes bs (fresh h k p)) =
         Some (message h k (bs @ [speed28_byte f s]) p)"
  using assms
  by (auto simp: add_dcc_speed28_def push_fresh_extend finish_message speed28_byte_def Let_def
      speed_ok_def dcc_consts EMERGENCY_STOP_def word_gt_0 or.assoc [symmetric])

lemma prog_message:
  assumes "packet_wf p" "\<not> bit h 2" "length bs \<le> 27"
  shows "add_dcc_prog_command c n v (add_bytes bs (fresh h k p)) =
    Some (message h k (bs @ [ucast ((ucast c AND NOT 3) OR (drop_bit 8 n AND 3)), ucast (n AND 0xff), v]) p)"
  using assms by (simp add: add_dcc_prog_command_def push_fresh_extend finish_message)

lemma prog_message_fresh:
  assumes "packet_wf p" "\<not> bit h 2"
  shows "add_dcc_prog_command c n v (fresh h k p) =
    Some (message h k [ucast ((ucast c AND NOT 3) OR (drop_bit 8 n AND 3)), ucast (n AND 0xff), v] p)"
  using assms by (simp add: add_dcc_prog_command_def push_fresh push_fresh_extend finish_message)

subsection \<open>Printing a message\<close>

definition valid_address :: "dcc_address \<Rightarrow> bool" where
  "valid_address a = (case a of Short n \<Rightarrow> 0 < short_value n \<and> short_value n \<le> 127
                              | Long n \<Rightarrow> long_value n \<le> 10239)"

fun address_text :: "dcc_address \<Rightarrow> string" where
  "address_text (Short n) = '' Short Address '' @ dec (unat (short_value n))"
| "address_text (Long n) = '' Long Address '' @ dec (unat (long_value n))"

definition debug_at :: "string \<Rightarrow> nat \<Rightarrow> debug_state" where
  "debug_at t n = \<lparr>options = t, ofs = n, is_idle_packet = False, is_basic_accy_packet = False,
     is_unknown_packet = False, is_svc_packet = False, accy_address = 0\<rparr>"

lemma debug_at_simps [simp]:
  "options (debug_at t n) = t" "ofs (debug_at t n) = n" "\<not> is_idle_packet (debug_at t n)"
  "\<not> is_basic_accy_packet (debug_at t n)" "\<not> is_unknown_packet (debug_at t n)"
  "\<not> is_svc_packet (debug_at t n)" "emit u (debug_at t n) = debug_at (t @ u) n"
  "skip m (debug_at t n) = debug_at t (n + m)"
  by (simp_all add: debug_at_def emit_def skip_def)

lemma message_payload:
  assumes "packet_wf p" "length bs \<le> 30"
  shows "take (length bs) (payload (message h k bs p)) = bs"
    "\<not> is_logon_message bs \<Longrightarrow> byte_at (message h k bs p) (length bs) = Some (xor_loop bs 0)"
proof -
  let ?q = "message h k bs p"
  have u: "take (unat (dlc ?q)) (payload ?q) = bs @ check_bytes bs"
    using message_facts(4) [OF assms, of h k] by (simp add: used_bytes_def)
  have "take (length bs) (take (unat (dlc ?q)) (payload ?q)) = bs"
    unfolding u by simp
  then show "take (length bs) (payload ?q) = bs"
    by (simp add: message_facts(5) [OF assms] min_def)
  show "byte_at ?q (length bs) = Some (xor_loop bs 0)" if "\<not> is_logon_message bs"
    using used_bytes_nth [OF message_facts(1) [OF assms], of "length bs" h k] that
    by (simp add: message_facts(4) [OF assms] check_bytes_def nth_append)
qed

lemma print_checksum:
  assumes "packet_wf p" "length bs \<le> 30" "\<not> is_logon_message bs"
    "ofs s = length bs" "\<not> is_unknown_packet s"
  shows "show_checksum (message h k bs p) s = Some s"
  using assms message_payload [OF assms(1,2), of h k]
  by (simp add: show_checksum_def message_facts check_bytes_length hdr_skip_ec_def bit_simps
      Let_def)

lemma ucast_or: "(ucast (a OR b) :: 'b::len word) = ucast a OR ucast (b :: 'a::len word)"
  by (rule bit_word_eqI) (auto simp: bit_simps)

lemma seven_bits:
  assumes "unat (t :: u8) < 128"
  shows "t AND 0x7F = t" "t AND 0x80 = 0" "(0x80 OR t) AND 0x7F = t" "(0x80 OR t) AND 0x80 \<noteq> 0"
proof -
  have t: "take_bit 7 t = t" using assms by (intro take_bit_unat_less) simp
  have m: "x AND 0x7F = take_bit 7 x" for x :: u8
    by (simp add: take_bit_eq_mask mask_eq_exp_minus_1)
  show "t AND 0x7F = t"
    by (simp add: m t)
  have "\<not> bit t 7"
    using t by (metis bit_take_bit_iff less_irrefl)
  then show "t AND 0x80 = 0"
    using and_exp_eq_0_iff_not_bit [of t 7] by simp
  show "(0x80 OR t) AND 0x7F = t"
    by (simp add: m t)
  have "bit (0x80 OR t) 7" by (simp add: bit_simps)
  then show "(0x80 OR t) AND 0x80 \<noteq> 0"
    using and_exp_eq_0_iff_not_bit [of "0x80 OR t" 7] by simp
qed

lemma short_first_byte:
  assumes "0 < n" "n \<le> 127"
  shows "n AND 0x7F = (n :: u8)" "n \<noteq> 0xff" "n \<noteq> 0" "n AND 0x80 = 0" "n \<noteq> 0xfd" "n \<noteq> 0xfe"
  using assms seven_bits [of n] by (auto simp: word_le_nat_alt)

lemma long_first_byte:
  assumes "n \<le> 10239"
  defines "b \<equiv> ucast (0xC0 OR drop_bit 8 (n :: u16)) :: u8"
  shows "b \<noteq> 0xff" "b \<noteq> 0" "b AND 0x80 \<noteq> 0" "b AND 0xC0 \<noteq> 0x80" "192 \<le> b" "b \<le> 231"
    "push_bit 8 (ucast b AND 0x3F) OR ucast (ucast (n AND 0xff) :: u8) = (ucast n :: u32)"
proof -
  define m :: u8 where "m = ucast (drop_bit 8 n)"
  have n: "unat (drop_bit 8 n) < 40"
    using assms(1) unfolding unat_drop_bit_eq by (simp add: word_le_nat_alt drop_bit_eq_div)
  then have m: "unat m < 40"
    by (simp add: m_def unsigned_ucast_eq take_bit_nat_eq_self)
  have b: "b = 0xC0 OR m"
    by (simp add: b_def m_def ucast_or)
  have "\<forall>k\<in>set [0..<40]. let b = 0xC0 OR (word_of_nat k :: u8) in
     b \<noteq> 0xff \<and> b \<noteq> 0 \<and> b AND 0x80 \<noteq> 0 \<and> b AND 0xC0 \<noteq> 0x80 \<and> 192 \<le> b \<and> b \<le> 231"
    by (simp add: upt_rec)
  from byte_below [OF this m]
  show "b \<noteq> 0xff" "b \<noteq> 0" "b AND 0x80 \<noteq> 0" "b AND 0xC0 \<noteq> 0x80" "192 \<le> b" "b \<le> 231"
    by (simp_all add: b Let_def)
  have hi: "\<not> bit n j" if "14 \<le> j" for j
  proof -
    have "unat n < 2 ^ 14" using assms(1) by (simp add: word_le_nat_alt)
    then have "take_bit 14 n = n" by (rule take_bit_unat_less)
    then show ?thesis using that by (metis bit_take_bit_iff leD)
  qed
  have eq: "ucast b AND 0x3F = (take_bit 6 (ucast (drop_bit 8 n)) :: u32)"
  proof -
    have "ucast b AND 0x3F = (take_bit 6 (ucast b) :: u32)"
      by (simp add: take_bit_eq_mask mask_eq_exp_minus_1)
    also have "\<dots> = take_bit 6 (0xC0 OR ucast m)"
      by (simp add: b ucast_or)
    also have "\<dots> = take_bit 6 (ucast m)"
      by (simp only: take_bit_or) simp
    finally show ?thesis
      by (simp add: m_def) (rule bit_word_eqI, auto simp: bit_simps)
  qed
  show "push_bit 8 (ucast b AND 0x3F) OR ucast (ucast (n AND 0xff) :: u8) = (ucast n :: u32)"
    unfolding eq and_literal_mask
  proof (rule bit_word_eqI)
    fix j assume "j < LENGTH(32)"
    consider "j < 8" | "8 \<le> j" "j < 14" | "14 \<le> j" by linarith
    then show "bit (push_bit 8 (take_bit 6 (ucast (drop_bit 8 n))) OR
        ucast (ucast (take_bit 8 n) :: u8) :: u32) j = bit (ucast n :: u32) j"
      by cases (auto simp: bit_simps hi)
  qed
qed

text \<open>The address section: the state after it has the text and the length of the address.\<close>

lemma address_not_logon:
  "valid_address a \<Longrightarrow> \<not> is_logon_message (address_bytes a @ cs)"
proof (cases a)
  case (Short n)
  assume "valid_address a"
  then show ?thesis
    using short_first_byte [of "short_value n"]
    by (auto simp: Short valid_address_def is_logon_message_def ADDRESS_LOGON_def ADDRESS_EXT_def)
next
  case (Long n)
  assume "valid_address a"
  then have "ucast (0xC0 OR drop_bit 8 (long_value n)) \<le> (231 :: u8)"
    using long_first_byte(6) by (simp add: Long valid_address_def)
  then show ?thesis
    by (auto simp: Long is_logon_message_def ADDRESS_LOGON_def ADDRESS_EXT_def)
qed

lemma print_address:
  assumes "packet_wf p" "valid_address a" "length cs \<le> 28"
  shows "show_address (message h k (address_bytes a @ cs) p) (debug_at t 0) =
         Some (debug_at (t @ address_text a) (length (address_bytes a)))"
proof (cases a)
  case (Short n)
  have b: "byte_at (message h k (address_bytes a @ cs) p) 0 = Some (short_value n)"
    using assms short_first_byte [of "short_value n"]
    by (simp add: message_byte Short valid_address_def)
  show ?thesis
    unfolding show_address_def using b assms(2) short_first_byte [of "short_value n"]
    by (simp add: Short valid_address_def)
next
  case (Long n)
  define c :: u8 where "c = ucast (0xC0 OR drop_bit 8 (long_value n))"
  define d :: u8 where "d = ucast (long_value n AND 0xff)"
  have b: "byte_at (message h k (address_bytes a @ cs) p) 0 = Some c"
    "byte_at (message h k (address_bytes a @ cs) p) (Suc 0) = Some d"
    using assms by (simp_all add: message_byte Long c_def d_def)
  have "long_value n \<le> 10239" using assms by (simp add: Long valid_address_def)
  note l = long_first_byte [OF this, folded c_def d_def]
  have "unat (ucast (long_value n) :: u32) = unat (long_value n)"
    using less_le_trans [OF unat_less_power [of "long_value n"], of "2 ^ 32"]
    by (simp add: unsigned_ucast_eq take_bit_nat_eq_self_iff)
  then show ?thesis
    unfolding show_address_def using b l by (simp add: Long)
qed

lemma print_message:
  assumes "packet_wf p" "valid_address a" "cs \<noteq> []" "length cs \<le> 28"
    and cmd: "\<And>t. show_command (message 0 k (address_bytes a @ cs) p) (debug_at t (length (address_bytes a))) =
            Some (debug_at (t @ text) (length (address_bytes a) + length cs))"
  shows "packet_to_string (message 0 k (address_bytes a @ cs) p) False =
         Some (''[dcc]'' @ address_text a @ text)"
proof -
  let ?q = "message 0 k (address_bytes a @ cs) p"
  have l: "length (address_bytes a @ cs) \<le> 30"
    using assms(4) address_bytes_length [of a] by simp
  note f = message_facts [OF assms(1) l, of 0 k]
  have h: "\<not> hdr_is_pkt ?q" "\<not> hdr_is_marklin ?q" "\<not> hdr_send_long_preamble ?q"
    "\<not> hdr_sense_ack ?q" "hdr_rept_count ?q = 0" "\<not> hdr_csum_error ?q"
    by (simp_all add: hdr_is_pkt_def hdr_is_marklin_def hdr_send_long_preamble_def hdr_sense_ack_def
        hdr_rept_count_def hdr_csum_error_def f bit_simps)
  have "unat (dlc ?q) \<noteq> 0" using f(5) assms(3) by simp
  then have d: "dlc ?q \<noteq> 0" by auto
  have c: "show_checksum ?q (debug_at t (length (address_bytes a @ cs))) =
           Some (debug_at t (length (address_bytes a @ cs)))" for t
    using assms l by (intro print_checksum address_not_logon) simp_all
  have svc: "show_svc ?q s = Some s" for s
    by (simp add: show_svc_def h)
  show ?thesis
    using d h c [of "''[dcc]'' @ address_text a @ text"] cmd [of "''[dcc]'' @ address_text a"]
    by (simp add: packet_to_string_def svc print_address [OF assms(1,2,4)] show_options_def
        flip: debug_at_def)
qed

subsection \<open>Commands\<close>

lemma command_byte:
  assumes "packet_wf p" "length cs \<le> 28" "j < length cs"
  shows "byte_at (message 0 k (address_bytes a @ cs) p) (length (address_bytes a) + j) = Some (cs ! j)"
  using message_byte [of p "address_bytes a @ cs" "length (address_bytes a) + j" 0 k]
    address_bytes_length [of a] assms by simp

lemma command_first:
  assumes "packet_wf p" "length cs \<le> 27"
  shows "byte_at (message 0 k (address_bytes a @ c # cs) p) (length (address_bytes a)) = Some c"
  using command_byte [OF assms(1), of "c # cs" 0] assms(2) by simp

lemma command_second:
  assumes "packet_wf p" "length cs \<le> 26"
  shows "byte_at (message 0 k (address_bytes a @ c # d # cs) p) (Suc (length (address_bytes a))) = Some d"
  using command_byte [OF assms(1), of "c # d # cs" 1] assms(2) by simp

definition speed_text :: "u32 \<Rightarrow> string" where
  "speed_text s = (if s = EMERGENCY_STOP then '' E-STOP'' else '' '' @ dec (unat s))"

lemma speed128_decode:
  assumes "speed_ok 126 s"
  shows "show_speed128 (speed128_byte f s) = '' SPD128 '' @ show_direction f @ speed_text s"
proof -
  consider (stop) "s = EMERGENCY_STOP" | (zero) "s = 0" | (step) "s \<noteq> EMERGENCY_STOP" "0 < s" "s \<le> 126"
    using assms by (auto simp: speed_ok_def word_gt_0)
  then show ?thesis
  proof cases
    case step
    define t where "t = (ucast (s + 1 AND 0x7f) :: u8)"
    have s: "unat s \<le> 126" using step by (simp add: word_le_nat_alt)
    then have s1: "unat (s + 1) = unat s + 1" by (simp add: unat_word_ariths)
    have "s + 1 AND 0x7f = take_bit 7 (s + 1)"
      by (simp add: take_bit_eq_mask mask_eq_exp_minus_1)
    then have t: "unat t = unat s + 1"
      using s by (simp add: t_def unsigned_ucast_eq unsigned_take_bit_eq s1 take_bit_nat_eq_self)
    note b = seven_bits [of t]
    have "t \<noteq> 0" "t \<noteq> 1" using t step by (auto simp: word_gt_0 unat_eq_0)
    then show ?thesis
      using step b t s
      by (auto simp: show_speed128_def speed128_byte_def speed_text_def Let_def simp flip: t_def)
  qed (auto simp: show_speed128_def speed128_byte_def speed_text_def EMERGENCY_STOP_def Let_def dec.simps)
qed

lemma speed28_decode:
  assumes "speed_ok 28 s"
  shows "show_speed28 (speed28_byte f s) = '' SPD '' @ show_direction f @ speed_text s"
    and "speed28_byte f s AND 0xC0 = 0x40"
proof -
  consider (stop) "s = EMERGENCY_STOP" | (step) "unat s < 29"
    using assms by (auto simp: speed_ok_def word_le_nat_alt)
  then have "show_speed28 (speed28_byte f s) = '' SPD '' @ show_direction f @ speed_text s \<and>
             speed28_byte f s AND 0xC0 = 0x40"
  proof cases
    case stop
    then show ?thesis
      by (simp add: show_speed28_def speed28_byte_def speed_text_def EMERGENCY_STOP_def)
  next
    case step
    have "\<forall>n\<in>set [0..<29]. show_speed28 (speed28_byte f (word_of_nat n)) =
        '' SPD '' @ show_direction f @ speed_text (word_of_nat n) \<and>
        speed28_byte f (word_of_nat n) AND 0xC0 = 0x40"
      by (simp add: upt_rec show_speed28_def speed28_byte_def speed_text_def EMERGENCY_STOP_def dec.simps)
    from byte_below [OF this step] show ?thesis .
  qed
  then show "show_speed28 (speed28_byte f s) = '' SPD '' @ show_direction f @ speed_text s"
    and "speed28_byte f s AND 0xC0 = 0x40" by blast+
qed

text \<open>A 128-step speed packet prints as the address, the direction and the speed step (or the
  emergency stop) that \<open>set_dcc_speed128\<close> was given, for every decoder address and every
  speed it accepts.\<close>

theorem speed128_packet_prints:
  assumes "packet_wf p" "valid_address a" "speed_ok 126 s"
  shows "Option.bind (set_dcc_speed128 a f s p) (\<lambda>q. packet_to_string q False) =
         Some (''[dcc]'' @ address_text a @ '' SPD128 '' @ show_direction f @ speed_text s)"
proof -
  let ?q = "message 0 (address_key a) (address_bytes a @ [0x3F, speed128_byte f s]) p"
  have q: "set_dcc_speed128 a f s p = Some ?q"
    using assms address_bytes_length [of a]
    by (simp add: set_dcc_speed128_def add_dcc_address_message speed128_message)
  have "packet_to_string ?q False =
        Some (''[dcc]'' @ address_text a @ '' SPD128 '' @ show_direction f @ speed_text s)"
    using assms
    by (intro print_message)
       (simp_all add: show_command_def command_first command_second speed128_decode)
  then show ?thesis by (simp add: q)
qed

text \<open>A 28-step speed packet prints as the address, the direction and the speed step (or the
  emergency stop) that \<open>set_dcc_speed28\<close> was given.\<close>

theorem speed28_packet_prints:
  assumes "packet_wf p" "valid_address a" "speed_ok 28 s"
  shows "Option.bind (set_dcc_speed28 a f s p) (\<lambda>q. packet_to_string q False) =
         Some (''[dcc]'' @ address_text a @ '' SPD '' @ show_direction f @ speed_text s)"
proof -
  let ?q = "message 0 (address_key a) (address_bytes a @ [speed28_byte f s]) p"
  have q: "set_dcc_speed28 a f s p = Some ?q"
    using assms address_bytes_length [of a]
    by (simp add: set_dcc_speed28_def add_dcc_address_message speed28_message)
  have "packet_to_string ?q False =
        Some (''[dcc]'' @ address_text a @ '' SPD '' @ show_direction f @ speed_text s)"
    using assms
    by (intro print_message)
       (simp_all add: show_command_def command_first speed28_decode)
  then show ?thesis by (simp add: q)
qed

lemma clear_wf: "packet_wf packet_clear"
  by (simp add: packet_wf_def packet_clear_def MAX_PAYLOAD_def)

theorem speed128_packet_prints_witness:
  "Option.bind (set_dcc_speed128 (Short (DccShortAddress 3)) True 37 packet_clear) (\<lambda>q. packet_to_string q False) =
   Some ''[dcc] Short Address 3 SPD128 F 37''"
  using speed128_packet_prints [OF clear_wf, of "Short (DccShortAddress 3)" 37 True]
  by (simp add: valid_address_def speed_ok_def speed_text_def show_direction_def EMERGENCY_STOP_def dec.simps)

theorem speed28_packet_prints_witness:
  "Option.bind (set_dcc_speed28 (Long (DccLongAddress 384)) False 28 packet_clear) (\<lambda>q. packet_to_string q False) =
   Some ''[dcc] Long Address 384 SPD R 28''"
  using speed28_packet_prints [OF clear_wf, of "Long (DccLongAddress 384)" 28 False]
  by (simp add: valid_address_def speed_ok_def speed_text_def show_direction_def EMERGENCY_STOP_def dec.simps)

end
