(* ===== verification/DccFunctions.thy ===== *)
theory DccFunctions
  imports DccRoundtrip
begin

section \<open>Function, programming and accessory packets and their text\<close>

text \<open>
  The round trips through \<open>packet_to_string\<close> for the function groups, programming on
  the main, service mode and basic accessories.
\<close>

definition flag :: "'a::len word \<Rightarrow> nat \<Rightarrow> char" where
  "flag v i = (if bit v i then CHR ''1'' else CHR ''0'')"

definition flags :: "'a::len word \<Rightarrow> nat list \<Rightarrow> string" where
  "flags v is = map (flag v) is"

lemma bit_text_flag: "bit_text b = [flag b 0]" "bit_text (drop_bit i b) = [flag b i]"
proof -
  have *: "bit_text b = [flag b 0]" for b
    by (cases "bit b 0") (simp_all add: bit_text_def flag_def and_one_eq bit_0 dec.simps even_iff_mod_2_eq_zero)
  show "bit_text b = [flag b 0]" by (rule *)
  show "bit_text (drop_bit i b) = [flag b i]"
    unfolding * by (simp add: flag_def bit_simps)
qed

lemma flag_drop [simp]: "flag (drop_bit i b) j = flag b (i + j)"
  by (simp add: flag_def bit_simps)

lemma show_bits_flags: "show_bits n c = flags c [0..<n]"
proof (induction n arbitrary: c)
  case 0
  then show ?case by (simp add: flags_def)
next
  case (Suc n)
  have "char_of (48 + unat (c AND 1)) = flag c 0"
    by (cases "bit c 0") (simp_all add: flag_def and_one_eq bit_0 even_iff_mod_2_eq_zero)
  then show ?case
    by (simp add: Suc.IH flags_def flag_def upt_conv_Cons map_Suc_upt [symmetric] bit_simps del: upt_Suc)
qed

definition function0_byte :: "u32 \<Rightarrow> u8" where
  "function0_byte v = (if v AND 1 \<noteq> 0 then 0x90 else 0x80) OR ucast (drop_bit 1 v AND 0xf)"

lemma function_messages:
  assumes "packet_wf p" "\<not> bit h 2" "length bs \<le> 28"
  shows "add_dcc_function0_4 v (add_bytes bs (fresh h k p)) = Some (message h k (bs @ [function0_byte v]) p)"
    "add_dcc_function5_8 v (add_bytes bs (fresh h k p)) = Some (message h k (bs @ [0xB0 OR ucast (v AND 0xf)]) p)"
    "add_dcc_function9_12 v (add_bytes bs (fresh h k p)) = Some (message h k (bs @ [0xA0 OR ucast (v AND 0xf)]) p)"
    "add_dcc_function13_20 v (add_bytes bs (fresh h k p)) = Some (message h k (bs @ [0xDE, ucast v]) p)"
    "add_dcc_function21_28 v (add_bytes bs (fresh h k p)) = Some (message h k (bs @ [0xDF, ucast v]) p)"
  using assms
  by (simp_all add: add_dcc_function0_4_def add_dcc_function5_8_def add_dcc_function9_12_def
      add_dcc_function13_20_def add_dcc_function21_28_def add_dcc_function_hi_def
      push_fresh_extend finish_message dcc_consts function0_byte_def Let_def)

lemma low_nibble_bits:
  "unat (ucast (v AND 0xf :: u32) :: u8) < 16"
  "i < 4 \<Longrightarrow> bit (ucast (v AND 0xf :: u32) :: u8) i = bit v i"
proof -
  have m: "v AND 0xf = take_bit 4 v" by (simp add: and_literal_mask)
  have "(ucast (take_bit 4 v) :: u8) = take_bit 4 (ucast v)"
    by (rule bit_word_eqI) (auto simp: bit_simps)
  then show "unat (ucast (v AND 0xf) :: u8) < 16"
    unfolding m using word_and_mask_bound [of "ucast v :: u8" 4] by (simp add: take_bit_eq_mask)
  show "i < 4 \<Longrightarrow> bit (ucast (v AND 0xf :: u32) :: u8) i = bit v i"
    unfolding m by (simp add: bit_simps)
qed

lemma nibble_class:
  assumes "unat (t :: u8) < 16"
  shows "(0x80 OR t) AND 0xC0 = 0x80" "(0x90 OR t) AND 0xC0 = 0x80"
    "(0xA0 OR t) AND 0xC0 = 0x80" "(0xB0 OR t) AND 0xC0 = 0x80"
    "drop_bit 5 (0x80 OR t) = 4" "drop_bit 5 (0x90 OR t) = 4"
    "drop_bit 5 (0xA0 OR t) = 5" "drop_bit 5 (0xB0 OR t) = 5"
    "0x80 OR t \<noteq> 0x3F" "0x90 OR t \<noteq> 0x3F" "0xA0 OR t \<noteq> 0x3F" "0xB0 OR t \<noteq> 0x3F"
    "(0xA0 OR t) AND 0x10 = 0" "(0xB0 OR t) AND 0x10 = 0x10"
proof -
  have "\<forall>n\<in>set [0..<16]. let t = word_of_nat n :: u8 in
      (0x80 OR t) AND 0xC0 = 0x80 \<and> (0x90 OR t) AND 0xC0 = 0x80 \<and>
      (0xA0 OR t) AND 0xC0 = 0x80 \<and> (0xB0 OR t) AND 0xC0 = 0x80 \<and>
      drop_bit 5 (0x80 OR t) = 4 \<and> drop_bit 5 (0x90 OR t) = 4 \<and>
      drop_bit 5 (0xA0 OR t) = 5 \<and> drop_bit 5 (0xB0 OR t) = 5 \<and>
      0x80 OR t \<noteq> 0x3F \<and> 0x90 OR t \<noteq> 0x3F \<and> 0xA0 OR t \<noteq> 0x3F \<and> 0xB0 OR t \<noteq> 0x3F \<and>
      (0xA0 OR t) AND 0x10 = 0 \<and> (0xB0 OR t) AND 0x10 = 0x10"
    by (simp add: upt_rec)
  from byte_below [OF this assms] show "(0x80 OR t) AND 0xC0 = 0x80" "(0x90 OR t) AND 0xC0 = 0x80"
    "(0xA0 OR t) AND 0xC0 = 0x80" "(0xB0 OR t) AND 0xC0 = 0x80"
    "drop_bit 5 (0x80 OR t) = 4" "drop_bit 5 (0x90 OR t) = 4"
    "drop_bit 5 (0xA0 OR t) = 5" "drop_bit 5 (0xB0 OR t) = 5"
    "0x80 OR t \<noteq> 0x3F" "0x90 OR t \<noteq> 0x3F" "0xA0 OR t \<noteq> 0x3F" "0xB0 OR t \<noteq> 0x3F"
    "(0xA0 OR t) AND 0x10 = 0" "(0xB0 OR t) AND 0x10 = 0x10"
    by (simp_all add: Let_def)
qed

lemma function0_decode:
  "show_function0 (function0_byte v) = '' F[0-4]='' @ flags v [0, 1, 2, 3, 4]"
  "function0_byte v AND 0xC0 = 0x80" "drop_bit 5 (function0_byte v) = 4" "function0_byte v \<noteq> 0x3F"
proof -
  define t where "t = (ucast (drop_bit 1 v AND 0xf) :: u8)"
  have b: "function0_byte v = (if bit v 0 then 0x90 else 0x80) OR t"
    by (simp add: function0_byte_def t_def and_one_eq bit_0 even_iff_mod_2_eq_zero odd_iff_mod_2_eq_one)
  have l: "unat t < 16" unfolding t_def by (rule low_nibble_bits)
  have ti: "bit t i = bit v (Suc i)" if "i < 4" for i
    unfolding t_def low_nibble_bits(2) [OF that] by (simp add: bit_simps)
  have "take_bit 4 t = t" using l by (intro take_bit_unat_less) simp
  then have t4: "\<not> bit t 4" by (metis bit_take_bit_iff less_irrefl)
  show "function0_byte v AND 0xC0 = 0x80" "drop_bit 5 (function0_byte v) = 4" "function0_byte v \<noteq> 0x3F"
    using nibble_class [OF l] by (simp_all add: b)
  have "bit (function0_byte v) 4 = bit v 0" "bit (function0_byte v) 0 = bit v 1"
    "bit (function0_byte v) 1 = bit v 2" "bit (function0_byte v) 2 = bit v 3"
    "bit (function0_byte v) 3 = bit v 4"
    using ti [of 0] ti [of 1] ti [of 2] ti [of 3] t4
    by (auto simp: b bit_or_iff eval_nat_numeral)
  then show "show_function0 (function0_byte v) = '' F[0-4]='' @ flags v [0, 1, 2, 3, 4]"
    by (simp add: show_function0_def bit_text_flag flags_def) (simp add: flag_def)
qed

lemma function_nibble_decode:
  fixes v :: u32 and x :: u8
  assumes "x = 0xA0 \<or> x = 0xB0"
  defines "b \<equiv> x OR ucast (v AND 0xf)"
  shows "show_function1_2 b = (if x = 0xB0 then '' F[5-8]='' else '' F[9-12]='') @ flags v [0, 1, 2, 3]"
    "b AND 0xC0 = 0x80" "drop_bit 5 b = 5" "b \<noteq> 0x3F"
proof -
  let ?t = "ucast (v AND 0xf) :: u8"
  note c = nibble_class [OF low_nibble_bits(1) [of v]]
  show "b AND 0xC0 = 0x80" "drop_bit 5 b = 5" "b \<noteq> 0x3F"
    using assms c by auto
  have i: "bit b i = bit v i" if "i < 4" for i
  proof -
    have "\<not> bit (0xA0 :: u8) i" "\<not> bit (0xB0 :: u8) i"
      using that by (auto simp: less_Suc_eq eval_nat_numeral)
    then show ?thesis
      using assms that by (auto simp: b_def bit_or_iff low_nibble_bits)
  qed
  then have "bit b 0 = bit v 0" "bit b 1 = bit v 1" "bit b 2 = bit v 2" "bit b 3 = bit v 3"
    by simp_all
  then have "flags b [0, 1, 2, 3] = flags v [0, 1, 2, 3]"
    by (simp add: flags_def flag_def)
  moreover have "b AND 0x10 \<noteq> 0 \<longleftrightarrow> x = 0xB0"
    using assms c by auto
  ultimately show "show_function1_2 b =
      (if x = 0xB0 then '' F[5-8]='' else '' F[9-12]='') @ flags v [0, 1, 2, 3]"
    by (simp add: show_function1_2_def bit_text_flag) (simp add: flags_def)
qed

lemma print_group_byte:
  assumes "packet_wf p" "valid_address a" "b AND 0xC0 = 0x80" "b \<noteq> 0x3F"
  shows "drop_bit 5 b = 4 \<Longrightarrow> packet_to_string (message 0 k (address_bytes a @ [b]) p) False =
           Some (''[dcc]'' @ address_text a @ show_function0 b)"
    and "drop_bit 5 b = 5 \<Longrightarrow> packet_to_string (message 0 k (address_bytes a @ [b]) p) False =
           Some (''[dcc]'' @ address_text a @ show_function1_2 b)"
  using assms by (intro print_message; simp add: show_command_def command_first)+

definition print_function :: "(u32 \<Rightarrow> packet \<Rightarrow> packet option) \<Rightarrow> dcc_address \<Rightarrow> u32 \<Rightarrow> packet \<Rightarrow> string option" where
  "print_function add a v p = do {
     p \<leftarrow> add_dcc_address a p;
     p \<leftarrow> add v p;
     packet_to_string p False
   }"

lemma function_packets_print_parts:
  assumes "packet_wf p" "valid_address a"
  shows "print_function add_dcc_function0_4 a v p =
           Some (''[dcc]'' @ address_text a @ '' F[0-4]='' @ flags v [0, 1, 2, 3, 4])"
    and "print_function add_dcc_function5_8 a v p =
           Some (''[dcc]'' @ address_text a @ '' F[5-8]='' @ flags v [0, 1, 2, 3])"
    and "print_function add_dcc_function9_12 a v p =
           Some (''[dcc]'' @ address_text a @ '' F[9-12]='' @ flags v [0, 1, 2, 3])"
    and "print_function add_dcc_function13_20 a v p =
           Some (''[dcc]'' @ address_text a @ '' F[13-20]='' @ flags v [0..<8])"
    and "print_function add_dcc_function21_28 a v p =
           Some (''[dcc]'' @ address_text a @ '' F[21-28]='' @ flags v [0..<8])"
proof -
  have l: "length (address_bytes a) \<le> 28" using address_bytes_length [of a] by simp
  note m = add_dcc_address_message [OF assms(1)]
    function_messages [OF assms(1) _ l, where h = 0 and k = "address_key a", simplified]
  have f8: "flags (ucast v :: u8) [0..<8] = flags v [0..<8]"
    by (simp add: flags_def flag_def bit_simps del: upt_Suc)
  show "print_function add_dcc_function0_4 a v p =
           Some (''[dcc]'' @ address_text a @ '' F[0-4]='' @ flags v [0, 1, 2, 3, 4])"
    using print_group_byte(1) [OF assms function0_decode(2,4,3) [of v]]
    by (simp add: print_function_def m function0_decode)
  show "print_function add_dcc_function5_8 a v p =
           Some (''[dcc]'' @ address_text a @ '' F[5-8]='' @ flags v [0, 1, 2, 3])"
    unfolding print_function_def m
    using print_group_byte(2) [OF assms function_nibble_decode(2,4,3) [of "0xB0" v]]
      function_nibble_decode(1) [of "0xB0" v]
    by (simp add: m)
  show "print_function add_dcc_function9_12 a v p =
           Some (''[dcc]'' @ address_text a @ '' F[9-12]='' @ flags v [0, 1, 2, 3])"
    unfolding print_function_def m
    using print_group_byte(2) [OF assms function_nibble_decode(2,4,3) [of "0xA0" v]]
      function_nibble_decode(1) [of "0xA0" v]
    by (simp add: m)
  show "print_function add_dcc_function13_20 a v p =
           Some (''[dcc]'' @ address_text a @ '' F[13-20]='' @ flags v [0..<8])"
    using print_message [OF assms, of "[0xDE, ucast v]" "address_key a" "'' F[13-20]='' @ flags v [0..<8]"] assms
    by (simp add: print_function_def m show_command_def command_first command_second show_expansion_def
        show_bits_flags f8 del: show_bits.simps)
  show "print_function add_dcc_function21_28 a v p =
           Some (''[dcc]'' @ address_text a @ '' F[21-28]='' @ flags v [0..<8])"
    using print_message [OF assms, of "[0xDF, ucast v]" "address_key a" "'' F[21-28]='' @ flags v [0..<8]"] assms
    by (simp add: print_function_def m show_command_def command_first command_second show_expansion_def
        show_bits_flags f8 del: show_bits.simps)
qed

text \<open>A function group packet prints as the address and the states of exactly the functions
  of its group, lowest first, for all the five groups F0 to F28 and all argument bits.\<close>

theorem function_packets_print:
  assumes "packet_wf p" "valid_address a"
  shows "(print_function add_dcc_function0_4 a v p =
           Some (''[dcc]'' @ address_text a @ '' F[0-4]='' @ flags v [0, 1, 2, 3, 4])) \<and>
   (print_function add_dcc_function5_8 a v p =
           Some (''[dcc]'' @ address_text a @ '' F[5-8]='' @ flags v [0, 1, 2, 3])) \<and>
   (print_function add_dcc_function9_12 a v p =
           Some (''[dcc]'' @ address_text a @ '' F[9-12]='' @ flags v [0, 1, 2, 3])) \<and>
   (print_function add_dcc_function13_20 a v p =
           Some (''[dcc]'' @ address_text a @ '' F[13-20]='' @ flags v [0..<8])) \<and>
   (print_function add_dcc_function21_28 a v p =
           Some (''[dcc]'' @ address_text a @ '' F[21-28]='' @ flags v [0..<8]))"
  by (intro conjI function_packets_print_parts [OF assms])

theorem function_packets_print_witness:
  "print_function add_dcc_function5_8 (Short (DccShortAddress 55)) 5 packet_clear =
   Some ''[dcc] Short Address 55 F[5-8]=1010''"
  using function_packets_print [OF clear_wf, of "Short (DccShortAddress 55)" 5]
  by (simp add: valid_address_def flags_def flag_def dec.simps)

end
