(* ===== verification/DccProgramming.thy ===== *)
theory DccProgramming
  imports DccFunctions
begin

section \<open>Programming packets and their text\<close>

text \<open>
  Programming on the main (POM) and the service mode packets: the printed variable
  number, bit and value are the ones the builder was given, numbered from one.
\<close>

subsection \<open>The variable number\<close>

definition prog_byte :: "u8 \<Rightarrow> u32 \<Rightarrow> u8" where
  "prog_byte c n = ucast ((ucast c AND NOT 3) OR (drop_bit 8 n AND 3))"

definition prog_value :: "u8 \<Rightarrow> u32 \<Rightarrow> u8 \<Rightarrow> u8 list" where
  "prog_value c n v = [prog_byte c n, ucast (n AND 0xff), v]"

lemma prog_value_length [simp]: "length (prog_value c n v) = 3" "prog_value c n v \<noteq> []"
  by (simp_all add: prog_value_def)

lemma prog_value_message:
  "packet_wf p \<Longrightarrow> \<not> bit h 2 \<Longrightarrow> length bs \<le> 27 \<Longrightarrow>
   add_dcc_prog_command c n v (add_bytes bs (fresh h k p)) = Some (message h k (bs @ prog_value c n v) p)"
  "packet_wf p \<Longrightarrow> \<not> bit h 2 \<Longrightarrow>
   add_dcc_prog_command c n v (fresh h k p) = Some (message h k (prog_value c n v) p)"
  unfolding prog_value_def prog_byte_def by (rule prog_message prog_message_fresh; assumption)+

lemma two_bits: "(x :: 'a::len word) AND 3 = take_bit 2 x"
  by (simp add: take_bit_eq_mask mask_eq_exp_minus_1)

lemma high_number_small: "unat (ucast (drop_bit 8 (n :: u32) AND 3) :: u8) < 4"
proof -
  have "(ucast (take_bit 2 (drop_bit 8 n)) :: u8) = take_bit 2 (ucast (drop_bit 8 n))"
    by (rule bit_word_eqI) (auto simp: bit_simps)
  then show ?thesis
    unfolding two_bits using word_and_mask_bound [of "ucast (drop_bit 8 n) :: u8" 2]
    by (simp add: take_bit_eq_mask)
qed

lemma prog_byte_eq:
  assumes "c \<in> {0xE4, 0xEC, 0x74, 0x7C, 0x78}"
  shows "prog_byte c n = c OR ucast (drop_bit 8 n AND 3)"
  using assms by (auto simp: prog_byte_def ucast_or)

lemma number_rejoined:
  "push_bit 8 (ucast (ucast (drop_bit 8 (n :: u32) AND 3) :: u8)) OR ucast (ucast (n AND 0xff) :: u8) =
   take_bit 10 n"
  unfolding two_bits and_literal_mask
proof (rule bit_word_eqI)
  fix j assume "j < LENGTH(32)"
  consider "j < 8" | "8 \<le> j" "j < 10" | "10 \<le> j" by linarith
  then show "bit (push_bit 8 (ucast (ucast (take_bit 2 (drop_bit 8 n)) :: u8)) OR
      ucast (ucast (take_bit 8 n) :: u8) :: u32) j = bit (take_bit 10 n) j"
    by cases (auto simp: bit_simps)
qed

lemma number_text: "unat (take_bit 10 (n :: u32) + 1) = unat n mod 1024 + 1"
proof -
  have "unat (take_bit 10 n) = unat n mod 1024"
    unfolding unsigned_take_bit_eq by (simp add: take_bit_eq_mod)
  moreover have "unat n mod 1024 < 1024" by simp
  ultimately show ?thesis by (simp add: unat_word_ariths)
qed

lemma prog_byte_class:
  "prog_byte 0xE4 n AND 0xC0 = 0xC0" "prog_byte 0xEC n AND 0xC0 = 0xC0"
  "prog_byte 0xE4 n \<noteq> 0x3F" "prog_byte 0xEC n \<noteq> 0x3F"
  "drop_bit 5 (prog_byte 0xE4 n) = 7" "drop_bit 5 (prog_byte 0xEC n) = 7"
  "drop_bit 4 (prog_byte 0xE4 n) = 14" "drop_bit 4 (prog_byte 0xEC n) = 14"
  "drop_bit 2 (prog_byte 0xE4 n) AND 3 = 1" "drop_bit 2 (prog_byte 0xEC n) AND 3 = 3"
  "prog_byte 0xE4 n \<noteq> 0" "prog_byte 0xEC n \<noteq> 0"
  "prog_byte 0x7C n AND 0xFC = 0x7C" "prog_byte 0x74 n AND 0xFC = 0x74"
  "prog_byte 0x78 n AND 0xFC = 0x78"
  and prog_byte_number:
  "c \<in> {0xE4, 0xEC, 0x74, 0x7C, 0x78} \<Longrightarrow> prog_byte c n AND 3 = ucast (drop_bit 8 n AND 3)"
proof -
  define t :: u8 where "t = ucast (drop_bit 8 n AND 3)"
  have t: "unat t < 4" unfolding t_def by (rule high_number_small)
  have "\<forall>n\<in>set [0..<4]. let t = word_of_nat n :: u8 in
      (0xE4 OR t) AND 0xC0 = 0xC0 \<and> (0xEC OR t) AND 0xC0 = 0xC0 \<and>
      0xE4 OR t \<noteq> 0x3F \<and> 0xEC OR t \<noteq> 0x3F \<and>
      drop_bit 5 (0xE4 OR t) = 7 \<and> drop_bit 5 (0xEC OR t) = 7 \<and>
      drop_bit 4 (0xE4 OR t) = 14 \<and> drop_bit 4 (0xEC OR t) = 14 \<and>
      drop_bit 2 (0xE4 OR t) AND 3 = 1 \<and> drop_bit 2 (0xEC OR t) AND 3 = 3 \<and>
      0xE4 OR t \<noteq> 0 \<and> 0xEC OR t \<noteq> 0 \<and>
      (0x7C OR t) AND 0xFC = 0x7C \<and> (0x74 OR t) AND 0xFC = 0x74 \<and> (0x78 OR t) AND 0xFC = 0x78"
    by (simp add: upt_rec)
  note f = byte_below [OF this t]
  show "prog_byte 0xE4 n AND 0xC0 = 0xC0" "prog_byte 0xEC n AND 0xC0 = 0xC0"
    "prog_byte 0xE4 n \<noteq> 0x3F" "prog_byte 0xEC n \<noteq> 0x3F"
    "drop_bit 5 (prog_byte 0xE4 n) = 7" "drop_bit 5 (prog_byte 0xEC n) = 7"
    "drop_bit 4 (prog_byte 0xE4 n) = 14" "drop_bit 4 (prog_byte 0xEC n) = 14"
    "drop_bit 2 (prog_byte 0xE4 n) AND 3 = 1" "drop_bit 2 (prog_byte 0xEC n) AND 3 = 3"
    "prog_byte 0xE4 n \<noteq> 0" "prog_byte 0xEC n \<noteq> 0"
    "prog_byte 0x7C n AND 0xFC = 0x7C" "prog_byte 0x74 n AND 0xFC = 0x74"
    "prog_byte 0x78 n AND 0xFC = 0x78"
    using f by (simp_all add: prog_byte_eq Let_def flip: t_def)
  have "\<forall>c\<in>{0xE4, 0xEC, 0x74, 0x7C, 0x78}. \<forall>n\<in>set [0..<4]. (c OR word_of_nat n) AND 3 = (word_of_nat n :: u8)"
    by (simp add: upt_rec)
  moreover assume c: "c \<in> {0xE4, 0xEC, 0x74, 0x7C, 0x78}"
  ultimately have "\<forall>n\<in>set [0..<4]. (c OR word_of_nat n) AND 3 = (word_of_nat n :: u8)"
    by blast
  from byte_below [OF this t] show "prog_byte c n AND 3 = ucast (drop_bit 8 n AND 3)"
    using c by (simp add: prog_byte_eq flip: t_def)
qed

subsection \<open>Programming on the main\<close>

lemma pom_command:
  assumes "byte_at q l = Some b" "byte_at q (Suc l) = Some lo" "byte_at q (Suc (Suc l)) = Some v"
    and "b AND 0xC0 = 0xC0" "b \<noteq> 0x3F" "drop_bit 5 b = 7" "drop_bit 4 b = 14" "b \<noteq> 0"
    and "drop_bit 2 b AND 3 = kk" "kk = 1 \<or> kk = 3"
    and "push_bit 8 (ucast (b AND 3)) OR ucast lo = (x :: u32)"
  shows "show_command q (debug_at t l) = Some (debug_at (t @ '' POM CV'' @ dec (unat (x + 1)) @
      (if kk = 1 then '' read/verify '' else '' write = '') @ dec (unat v)) (l + 3))"
  using assms by (auto simp: show_command_def show_pom_def Let_def numeral_3_eq_3)

lemma pom_text:
  assumes "packet_wf p" "valid_address a" "c = 0xE4 \<or> c = 0xEC"
  shows "packet_to_string (message 0 k (address_bytes a @ prog_value c n v) p) False =
    Some (''[dcc]'' @ address_text a @ '' POM CV'' @ dec (unat n mod 1024 + 1) @
          (if c = 0xE4 then '' read/verify '' else '' write = '') @ dec (unat v))"
proof (rule print_message)
  fix t
  let ?q = "message 0 k (address_bytes a @ prog_value c n v) p"
  let ?l = "length (address_bytes a)"
  have b: "byte_at ?q ?l = Some (prog_byte c n)"
    "byte_at ?q (Suc ?l) = Some (ucast (n AND 0xff))" "byte_at ?q (Suc (Suc ?l)) = Some v"
    using command_byte [OF assms(1), of "prog_value c n v" 0 k a]
      command_byte [OF assms(1), of "prog_value c n v" 1 k a]
      command_byte [OF assms(1), of "prog_value c n v" 2 k a]
    by (simp_all add: prog_value_def)
  have n: "push_bit 8 (ucast (prog_byte c n AND 3)) OR ucast (ucast (n AND 0xff) :: u8) = take_bit 10 n"
    using assms(3) number_rejoined [of n] by (auto simp: prog_byte_number)
  have "show_command ?q (debug_at t ?l) = Some (debug_at (t @ '' POM CV'' @ dec (unat (take_bit 10 n + 1)) @
      (if (if c = 0xE4 then 1 else 3 :: u8) = 1 then '' read/verify '' else '' write = '') @ dec (unat v)) (?l + 3))"
    by (rule pom_command [OF b _ _ _ _ _ _ _ n]) (use assms(3) in \<open>auto simp: prog_byte_class\<close>)
  then show "show_command ?q (debug_at t ?l) =
    Some (debug_at (t @ '' POM CV'' @ dec (unat n mod 1024 + 1) @
      (if c = 0xE4 then '' read/verify '' else '' write = '') @ dec (unat v)) (?l + length (prog_value c n v)))"
    unfolding number_text by (cases "c = 0xE4") simp_all
qed (use assms in simp_all)

lemma pom_packets_print_parts:
  assumes "packet_wf p" "valid_address a"
  shows "do { p \<leftarrow> add_dcc_address a p; p \<leftarrow> add_dcc_pom_read1 n p; packet_to_string p False } =
           Some (''[dcc]'' @ address_text a @ '' POM CV'' @ dec (unat n mod 1024 + 1) @ '' read/verify '' @ dec 0)"
    and "do { p \<leftarrow> add_dcc_address a p; p \<leftarrow> add_dcc_pom_write1 n v p; packet_to_string p False } =
           Some (''[dcc]'' @ address_text a @ '' POM CV'' @ dec (unat n mod 1024 + 1) @ '' write = '' @ dec (unat v))"
proof -
  have l: "length (address_bytes a) \<le> 27" using address_bytes_length [of a] by simp
  note m = add_dcc_address_message [OF assms(1)]
    prog_value_message(1) [OF assms(1) _ l, where h = 0 and k = "address_key a", simplified]
  show "do { p \<leftarrow> add_dcc_address a p; p \<leftarrow> add_dcc_pom_read1 n p; packet_to_string p False } =
           Some (''[dcc]'' @ address_text a @ '' POM CV'' @ dec (unat n mod 1024 + 1) @ '' read/verify '' @ dec 0)"
    using pom_text [OF assms, of "0xE4" "address_key a" n 0]
    by (simp add: m add_dcc_pom_read1_def DCC_PROG_READ1_def)
  show "do { p \<leftarrow> add_dcc_address a p; p \<leftarrow> add_dcc_pom_write1 n v p; packet_to_string p False } =
           Some (''[dcc]'' @ address_text a @ '' POM CV'' @ dec (unat n mod 1024 + 1) @ '' write = '' @ dec (unat v))"
    using pom_text [OF assms, of "0xEC" "address_key a" n v]
    by (simp add: m add_dcc_pom_write1_def DCC_PROG_WRITE1_def)
qed

text \<open>A read or write of a configuration variable on the main prints as the address, the
  number of the variable (from one, modulo 1024) and the value that is written.\<close>

theorem pom_packets_print:
  assumes "packet_wf p" "valid_address a"
  shows "(do { p \<leftarrow> add_dcc_address a p; p \<leftarrow> add_dcc_pom_read1 n p; packet_to_string p False } =
           Some (''[dcc]'' @ address_text a @ '' POM CV'' @ dec (unat n mod 1024 + 1) @ '' read/verify '' @ dec 0)) \<and>
   (do { p \<leftarrow> add_dcc_address a p; p \<leftarrow> add_dcc_pom_write1 n v p; packet_to_string p False } =
           Some (''[dcc]'' @ address_text a @ '' POM CV'' @ dec (unat n mod 1024 + 1) @ '' write = '' @ dec (unat v)))"
  by (intro conjI pom_packets_print_parts [OF assms])

theorem pom_packets_print_witness:
  "do { p \<leftarrow> add_dcc_address (Short (DccShortAddress 3)) packet_clear; p \<leftarrow> add_dcc_pom_write1 13 67 p;
        packet_to_string p False } = Some ''[dcc] Short Address 3 POM CV14 write = 67''"
  using pom_packets_print [OF clear_wf, of "Short (DccShortAddress 3)" 13 67]
  by (simp add: valid_address_def dec.simps)

subsection \<open>Service mode\<close>

definition svc_text :: "string \<Rightarrow> string" where
  "svc_text t = ''[dcc][long_preamble][svc] '' @ t"

lemma print_svc:
  assumes "packet_wf p" "bs \<noteq> []" "length bs \<le> 5"
    and "\<And>q. q = message 8 k bs p \<Longrightarrow>
      show_svc q (debug_at ''[dcc][long_preamble]'' 0) =
      Some ((debug_at (svc_text t) (length bs - 1))\<lparr>is_svc_packet := True\<rparr>)"
  shows "packet_to_string (message 8 k bs p) False = Some (svc_text t)"
proof -
  let ?q = "message 8 k bs p"
  have l: "length bs \<le> 30" using assms(3) by simp
  note f = message_facts [OF assms(1) l, of 8 k]
  have h: "\<not> hdr_is_pkt ?q" "\<not> hdr_is_marklin ?q" "hdr_send_long_preamble ?q"
    "\<not> hdr_sense_ack ?q" "hdr_rept_count ?q = 0" "\<not> hdr_csum_error ?q"
    by (simp_all add: hdr_is_pkt_def hdr_is_marklin_def hdr_send_long_preamble_def hdr_sense_ack_def
        hdr_rept_count_def hdr_csum_error_def f bit_simps)
  let ?s = "(debug_at (svc_text t) (length bs - 1))\<lparr>is_svc_packet := True\<rparr>"
  let ?s' = "(debug_at (svc_text t) (length bs))\<lparr>is_svc_packet := True\<rparr>"
  have "unat (dlc ?q) \<noteq> 0" using f(5) assms(2) by simp
  then have d: "dlc ?q \<noteq> 0" by auto
  have "show_command ?q ?s = Some ?s'"
    using assms(2) message_byte [OF assms(1) l, of "length bs - 1" 8 k]
    by (simp add: show_command_def debug_at_def skip_def)
  moreover have "show_checksum ?q ?s' = Some ?s'"
    using assms l by (intro print_checksum) (simp_all add: is_logon_message_def debug_at_def)
  moreover have "show_address ?q ?s = Some ?s"
    by (simp add: show_address_def)
  moreover have "options ?s' = svc_text t"
    by (simp add: debug_at_def)
  ultimately show ?thesis
    using d h assms(4) [OF refl]
    by (simp add: packet_to_string_def show_options_def flip: debug_at_def)
qed

lemma message_num_bytes:
  assumes "packet_wf p" "length bs \<le> 5"
  shows "int (unat (dlc (message 8 k bs p))) - 1 = int (length bs)" "hdr_skip_ec (message 8 k bs p)"
    "hdr_send_long_preamble (message 8 k bs p)"
  using assms message_facts [of p bs 8 k]
  by (simp_all add: check_bytes_length is_logon_message_def hdr_skip_ec_def hdr_send_long_preamble_def bit_simps)

definition svc_number_text :: "u32 \<Rightarrow> string" where
  "svc_number_text n = '' CV '' @ dec (unat n mod 1024 + 1)"

lemma svc_number:
  assumes "c \<in> {0x74, 0x7C, 0x78}"
  shows "(push_bit 8 (ucast (prog_byte c n) AND 3) OR ucast (ucast (n AND 0xff) :: u8) :: u32) + 1 =
         take_bit 10 n + 1"
proof -
  have "ucast (prog_byte c n) AND 3 = (ucast (prog_byte c n AND 3) :: u32)"
    unfolding two_bits by (rule bit_word_eqI) (auto simp: bit_simps)
  then show ?thesis
    using assms number_rejoined [of n] by (auto simp: prog_byte_number)
qed

lemma svc_bytes:
  fixes k n :: u32 and v :: u8
  assumes "packet_wf p" "c \<in> {0x74, 0x7C, 0x78}"
  defines "q \<equiv> message 8 k (prog_value c n v) p"
  shows "byte_at q 0 = Some (prog_byte c n)" "byte_at q (Suc 0) = Some (ucast (n AND 0xff))"
    "byte_at q (Suc (Suc 0)) = Some v" "prog_byte c n AND 0xFC = c"
    "uint (dlc q) = 4" "hdr_skip_ec q" "hdr_send_long_preamble q"
proof -
  show "byte_at q 0 = Some (prog_byte c n)" "byte_at q (Suc 0) = Some (ucast (n AND 0xff))"
    "byte_at q (Suc (Suc 0)) = Some v"
    using message_byte [OF assms(1), of "prog_value c n v" 0 8 k]
      message_byte [OF assms(1), of "prog_value c n v" 1 8 k]
      message_byte [OF assms(1), of "prog_value c n v" 2 8 k]
    by (simp_all add: q_def) (simp_all add: prog_value_def numeral_2_eq_2)
  show "prog_byte c n AND 0xFC = c"
    using assms(2) prog_byte_class by auto
  show "uint (dlc q) = 4" "hdr_skip_ec q" "hdr_send_long_preamble q"
    using message_num_bytes [OF assms(1), of "prog_value c n v" k] by (simp_all add: q_def)
qed

lemma svc_debug_at [simp]:
  "(debug_at t i)\<lparr>is_svc_packet := True\<rparr>\<lparr>is_svc_packet := False\<rparr> = debug_at t i"
  "skip j ((debug_at t i)\<lparr>is_svc_packet := True\<rparr>) = (debug_at t (i + j))\<lparr>is_svc_packet := True\<rparr>"
  "emit u ((debug_at t i)\<lparr>is_svc_packet := True\<rparr>) = (debug_at (t @ u) i)\<lparr>is_svc_packet := True\<rparr>"
  "ofs ((debug_at t i)\<lparr>is_svc_packet := True\<rparr>) = i"
  by (simp_all add: debug_at_def skip_def emit_def)

lemma debug_at_2: "debug_at t 2 = debug_at t (Suc (Suc 0))"
  by (simp add: numeral_2_eq_2)

lemma svc_three:
  assumes "byte_at q 0 = Some b" "byte_at q (Suc 0) = Some lo" "byte_at q (Suc (Suc 0)) = Some v"
    "b AND 0xFC = c" "uint (dlc q) = 4" "hdr_skip_ec q" "hdr_send_long_preamble q"
    and number: "(push_bit 8 (ucast b AND 3) OR ucast lo) + 1 = (x :: u32)"
  shows "c = 0x7C \<Longrightarrow> show_svc q (debug_at t 0) = Some ((debug_at (t @ ''[svc] Direct Write Byte CV '' @
      dec (unat x) @ '' = '' @ dec (unat v)) 2)\<lparr>is_svc_packet := True\<rparr>)"
    and "c = 0x74 \<Longrightarrow> show_svc q (debug_at t 0) = Some ((debug_at (t @ ''[svc] Direct Verify Byte CV '' @
      dec (unat x) @ '' =?= '' @ dec (unat v)) 2)\<lparr>is_svc_packet := True\<rparr>)"
    and "c = 0x78 \<Longrightarrow> v AND 0xF0 = 0xF0 \<Longrightarrow> show_svc q (debug_at t 0) =
      Some ((debug_at (t @ ''[svc] Direct Write Bit CV '' @ dec (unat x) @ '' bit '' @ dec (unat (v AND 7)) @
        '' = '' @ dec (if v AND 8 \<noteq> 0 then 1 else 0)) 2)\<lparr>is_svc_packet := True\<rparr>)"
    and "c = 0x78 \<Longrightarrow> v AND 0xF0 = 0xE0 \<Longrightarrow> show_svc q (debug_at t 0) =
      Some ((debug_at (t @ ''[svc] Direct Verify Bit CV '' @ dec (unat x) @ '' bit '' @ dec (unat (v AND 7)) @
        '' =?= '' @ dec (if v AND 8 \<noteq> 0 then 1 else 0)) 2)\<lparr>is_svc_packet := True\<rparr>)"
  using assms by (simp_all add: show_svc_def dcc_consts Let_def debug_at_2)

lemma svc_byte_text:
  assumes "packet_wf p"
  shows "packet_to_string (message 8 k (prog_value 0x7C n v) p) False =
      Some (svc_text (''Direct Write Byte'' @ svc_number_text n @ '' = '' @ dec (unat v)))"
    and "packet_to_string (message 8 k (prog_value 0x74 n v) p) False =
      Some (svc_text (''Direct Verify Byte'' @ svc_number_text n @ '' =?= '' @ dec (unat v)))"
  by (rule print_svc [OF assms], simp, simp,
      simp add: svc_three(1) [OF svc_bytes [OF assms, of "0x7C"] svc_number [of "0x7C"]]
        svc_three(2) [OF svc_bytes [OF assms, of "0x74"] svc_number [of "0x74"]]
        svc_text_def svc_number_text_def number_text)+

lemma svc_bit_text:
  assumes "packet_wf p"
  shows "v AND 0xF0 = 0xF0 \<Longrightarrow> packet_to_string (message 8 k (prog_value 0x78 n v) p) False =
      Some (svc_text (''Direct Write Bit'' @ svc_number_text n @ '' bit '' @ dec (unat (v AND 7)) @
                      '' = '' @ dec (if v AND 8 \<noteq> 0 then 1 else 0)))"
    and "v AND 0xF0 = 0xE0 \<Longrightarrow> packet_to_string (message 8 k (prog_value 0x78 n v) p) False =
      Some (svc_text (''Direct Verify Bit'' @ svc_number_text n @ '' bit '' @ dec (unat (v AND 7)) @
                      '' =?= '' @ dec (if v AND 8 \<noteq> 0 then 1 else 0)))"
  by (rule print_svc [OF assms], simp, simp,
      simp add: svc_three(3,4) [OF svc_bytes [OF assms, of "0x78"] svc_number [of "0x78"]]
        svc_text_def svc_number_text_def number_text)+

definition bit_value :: "u8 \<Rightarrow> u32 \<Rightarrow> bool \<Rightarrow> u8" where
  "bit_value c i x = c OR (if x then 8 else 0) OR ucast (i AND 7)"

lemma bit_value_fields:
  assumes "c = 0xF0 \<or> c = 0xE0"
  shows "bit_value c i x AND 0xF0 = c" "unat (bit_value c i x AND 7) = unat i mod 8"
    "bit_value c i x AND 8 \<noteq> 0 \<longleftrightarrow> x"
proof -
  define t :: u8 where "t = ucast (i AND 7)"
  have m: "i AND 7 = take_bit 3 i" by (simp add: take_bit_eq_mask mask_eq_exp_minus_1)
  have "unat (take_bit 3 i) = unat i mod 8"
    unfolding unsigned_take_bit_eq by (simp add: take_bit_eq_mod)
  then have ti: "unat t = unat i mod 8"
    unfolding t_def m unsigned_ucast_eq by (simp add: take_bit_nat_eq_self)
  then have t: "unat t < 8" by simp
  have "\<forall>n\<in>set [0..<8]. let t = word_of_nat n :: u8 in
     (c OR (if x then 8 else 0) OR t) AND 0xF0 = c \<and> (c OR (if x then 8 else 0) OR t) AND 7 = t \<and>
     ((c OR (if x then 8 else 0) OR t) AND 8 \<noteq> 0 \<longleftrightarrow> x)"
    using assms by (cases x) (auto simp: upt_rec)
  from byte_below [OF this t] ti
  show "bit_value c i x AND 0xF0 = c" "unat (bit_value c i x AND 7) = unat i mod 8"
    "bit_value c i x AND 8 \<noteq> 0 \<longleftrightarrow> x"
    by (simp_all add: bit_value_def Let_def flip: t_def)
qed

lemma paged_text:
  assumes "packet_wf p" "reg < 8" "c = 0x78 \<or> c = 0x70"
  shows "packet_to_string (message 8 k [c OR reg, v] p) False =
      Some (svc_text ((if c = 0x78 then ''Paged Write Byte Reg '' else ''Paged Verify Byte Reg '') @
        dec (unat reg + 1) @ (if c = 0x78 then '' = '' else '' =?= '') @ dec (unat v)))"
proof (rule print_svc)
  fix q assume q: "q = message 8 k [c OR reg, v] p"
  have r: "unat reg < 8" using assms(2) by (simp add: word_less_nat_alt)
  have "\<forall>n\<in>set [0..<8]. (0x78 OR word_of_nat n) AND 0xF8 = (0x78 :: u8) \<and>
      (0x70 OR word_of_nat n) AND 0xF8 = (0x70 :: u8) \<and>
      (ucast (0x78 OR word_of_nat n :: u8) AND 7 :: u32) + 1 = word_of_nat (unat (word_of_nat n :: u8) + 1) \<and>
      (ucast (0x70 OR word_of_nat n :: u8) AND 7 :: u32) + 1 = word_of_nat (unat (word_of_nat n :: u8) + 1)"
    by (simp add: upt_rec)
  from byte_below [OF this r] have "(0x78 OR reg) AND 0xF8 = 0x78 \<and> (0x70 OR reg) AND 0xF8 = 0x70 \<and>
      (ucast (0x78 OR reg) AND 7 :: u32) + 1 = word_of_nat (unat reg + 1) \<and>
      (ucast (0x70 OR reg) AND 7 :: u32) + 1 = word_of_nat (unat reg + 1)" .
  then have f: "(c OR reg) AND 0xF8 = c" "(ucast (c OR reg) AND 7 :: u32) + 1 = word_of_nat (unat reg + 1)"
    using assms(3) by auto
  have n: "unat (word_of_nat (unat reg + 1) :: u32) = unat reg + 1"
    using r unat_of_nat [of "unat reg + 1", where 'a = 32] by simp
  have f2: "unat ((ucast (c OR reg) AND 7 :: u32) + 1) = Suc (unat reg)"
    unfolding f(2) n by simp
  have b: "byte_at q 0 = Some (c OR reg)" "byte_at q (Suc 0) = Some v"
    using message_byte [OF assms(1), of "[c OR reg, v]" 0 8 k] message_byte [OF assms(1), of "[c OR reg, v]" 1 8 k]
    by (simp_all add: q)
  obtain x where x: "byte_at q (Suc (Suc 0)) = Some x"
    using message_payload(2) [OF assms(1), of "[c OR reg, v]" 8 k]
    by (simp add: q is_logon_message_def numeral_2_eq_2)
  have d: "uint (dlc q) = 3" "hdr_skip_ec q" "hdr_send_long_preamble q"
    using message_num_bytes [OF assms(1), of "[c OR reg, v]" k] by (simp_all add: q)
  show "show_svc q (debug_at ''[dcc][long_preamble]'' 0) =
    Some ((debug_at (svc_text ((if c = 0x78 then ''Paged Write Byte Reg '' else ''Paged Verify Byte Reg '') @
        dec (unat reg + 1) @ (if c = 0x78 then '' = '' else '' =?= '') @ dec (unat v)))
      (length [c OR reg, v] - 1))\<lparr>is_svc_packet := True\<rparr>)"
    using assms(3) b f(1) f2
    by (auto simp: show_svc_def x d dcc_consts svc_text_def Let_def)
qed (use assms in simp_all)

definition print_result :: "packet option \<Rightarrow> string option" where
  "print_result r = Option.bind r (\<lambda>q. packet_to_string q False)"

lemma svc_packets_print_parts:
  assumes "packet_wf p"
  shows "print_result (set_dcc_svc_write_byte n v p) =
           Some (svc_text (''Direct Write Byte'' @ svc_number_text n @ '' = '' @ dec (unat v)))"
    and "print_result (set_dcc_svc_verify_byte n v p) =
           Some (svc_text (''Direct Verify Byte'' @ svc_number_text n @ '' =?= '' @ dec (unat v)))"
    and "print_result (set_dcc_svc_write_bit n i x p) =
           Some (svc_text (''Direct Write Bit'' @ svc_number_text n @ '' bit '' @ dec (unat i mod 8) @
                           '' = '' @ dec (if x then 1 else 0)))"
    and "print_result (set_dcc_svc_verify_bit n i x p) =
           Some (svc_text (''Direct Verify Bit'' @ svc_number_text n @ '' bit '' @ dec (unat i mod 8) @
                           '' =?= '' @ dec (if x then 1 else 0)))"
    and "print_result (set_dcc_svc_paged_write_reg r v p) =
           (if r < 8 then Some (svc_text (''Paged Write Byte Reg '' @ dec (unat r + 1) @ '' = '' @ dec (unat v)))
            else None)"
    and "print_result (set_dcc_svc_paged_verify_reg r v p) =
           (if r < 8 then Some (svc_text (''Paged Verify Byte Reg '' @ dec (unat r + 1) @ '' =?= '' @ dec (unat v)))
            else None)"
proof -
  note m = start_fresh(2) prog_value_message(2) [OF assms, where h = 8, simplified]
  show "print_result (set_dcc_svc_write_byte n v p) =
           Some (svc_text (''Direct Write Byte'' @ svc_number_text n @ '' = '' @ dec (unat v)))"
    by (simp add: print_result_def set_dcc_svc_write_byte_def m svc_byte_text [OF assms] DCC_SVC_WRITE_def)
  show "print_result (set_dcc_svc_verify_byte n v p) =
           Some (svc_text (''Direct Verify Byte'' @ svc_number_text n @ '' =?= '' @ dec (unat v)))"
    by (simp add: print_result_def set_dcc_svc_verify_byte_def m svc_byte_text [OF assms] DCC_SVC_VERIFY_def)
  have w: "set_dcc_svc_write_bit n i x p = Some (message 8 (feedback_key p) (prog_value 0x78 n (bit_value 0xF0 i x)) p)"
    by (simp add: set_dcc_svc_write_bit_def m dcc_consts bit_value_def Let_def)
  show "print_result (set_dcc_svc_write_bit n i x p) =
           Some (svc_text (''Direct Write Bit'' @ svc_number_text n @ '' bit '' @ dec (unat i mod 8) @
                           '' = '' @ dec (if x then 1 else 0)))"
    unfolding w print_result_def
    by (simp add: svc_bit_text(1) [OF assms] bit_value_fields)
  have w: "set_dcc_svc_verify_bit n i x p = Some (message 8 (feedback_key p) (prog_value 0x78 n (bit_value 0xE0 i x)) p)"
    by (simp add: set_dcc_svc_verify_bit_def m dcc_consts bit_value_def Let_def)
  show "print_result (set_dcc_svc_verify_bit n i x p) =
           Some (svc_text (''Direct Verify Bit'' @ svc_number_text n @ '' bit '' @ dec (unat i mod 8) @
                           '' =?= '' @ dec (if x then 1 else 0)))"
    unfolding w print_result_def
    by (simp add: svc_bit_text(2) [OF assms] bit_value_fields)
  have g: "push_byte b (fresh 8 k p) = Some (add_bytes [b] (fresh 8 k p))"
    "push_byte c (add_bytes [b] (fresh 8 k p)) = Some (add_bytes [b, c] (fresh 8 k p))"
    "add_dcc_checksum (add_bytes [b, c] (fresh 8 k p)) = Some (message 8 k [b, c] p)" for b c k
    using assms by (simp_all add: push_fresh push_fresh_extend finish_message)
  show "print_result (set_dcc_svc_paged_write_reg r v p) =
           (if r < 8 then Some (svc_text (''Paged Write Byte Reg '' @ dec (unat r + 1) @ '' = '' @ dec (unat v)))
            else None)"
    using paged_text [OF assms, of r "0x78"]
    by (simp add: print_result_def set_dcc_svc_paged_write_reg_def m g DCC_SVC_PAGED_WRITE_def)
  show "print_result (set_dcc_svc_paged_verify_reg r v p) =
           (if r < 8 then Some (svc_text (''Paged Verify Byte Reg '' @ dec (unat r + 1) @ '' =?= '' @ dec (unat v)))
            else None)"
    using paged_text [OF assms, of r "0x70"]
    by (simp add: print_result_def set_dcc_svc_paged_verify_reg_def m g DCC_SVC_PAGED_VERIFY_def)
qed

text \<open>A service mode packet that reads, verifies or writes a byte, a bit or a register prints
  as exactly that operation, with the number of the variable (from one, modulo 1024), the
  bit modulo eight and the value that \<open>set_dcc_svc_...\<close> was given; the register variants die
  for a register number above seven.\<close>

theorem svc_packets_print:
  assumes "packet_wf p"
  shows "(print_result (set_dcc_svc_write_byte n v p) =
           Some (svc_text (''Direct Write Byte'' @ svc_number_text n @ '' = '' @ dec (unat v)))) \<and>
   (print_result (set_dcc_svc_verify_byte n v p) =
           Some (svc_text (''Direct Verify Byte'' @ svc_number_text n @ '' =?= '' @ dec (unat v)))) \<and>
   (print_result (set_dcc_svc_write_bit n i x p) =
           Some (svc_text (''Direct Write Bit'' @ svc_number_text n @ '' bit '' @ dec (unat i mod 8) @
                           '' = '' @ dec (if x then 1 else 0)))) \<and>
   (print_result (set_dcc_svc_verify_bit n i x p) =
           Some (svc_text (''Direct Verify Bit'' @ svc_number_text n @ '' bit '' @ dec (unat i mod 8) @
                           '' =?= '' @ dec (if x then 1 else 0)))) \<and>
   (print_result (set_dcc_svc_paged_write_reg r v p) =
           (if r < 8 then Some (svc_text (''Paged Write Byte Reg '' @ dec (unat r + 1) @ '' = '' @ dec (unat v)))
            else None)) \<and>
   (print_result (set_dcc_svc_paged_verify_reg r v p) =
           (if r < 8 then Some (svc_text (''Paged Verify Byte Reg '' @ dec (unat r + 1) @ '' =?= '' @ dec (unat v)))
            else None))"
  by (intro conjI svc_packets_print_parts [OF assms])

theorem svc_packets_print_witness:
  "print_result (set_dcc_svc_write_bit 13 3 True packet_clear) =
   Some ''[dcc][long_preamble][svc] Direct Write Bit CV 14 bit 3 = 1''"
  using svc_packets_print [OF clear_wf, where n = 13 and i = 3 and x = True]
  by (simp add: svc_text_def svc_number_text_def dec.simps)

end
