(* ===== verification/DccAddressing.thy ===== *)
theory DccAddressing
  imports DccFunctions
begin

section \<open>Addresses, accessories and logon\<close>

text \<open>
  The numberings of accessory decoders are inverse to each other, the address
  partitions are an exact split of the 14-bit numbers, the accessory packets carry the
  whole address, the logon packets carry the whole decoder ID, and the commands for the
  high functions. Three theorems show arguments that are cut off without notice.
\<close>

subsection \<open>Numberings and partitions\<close>

text \<open>The two numberings of accessory decoders are inverse to each other, user numbers 1 to
  2048 against binary addresses 0 to 2047.\<close>

theorem accessory_numbering_bijective:
  assumes "1 \<le> user" "user \<le> 2048" "binary \<le> 2047"
  shows "accy_address_binary_to_user (accy_address_user_to_binary user) = user \<and>
         accy_address_user_to_binary user \<le> 2047 \<and>
         accy_address_user_to_binary (accy_address_binary_to_user binary) = binary \<and>
         1 \<le> accy_address_binary_to_user binary \<and> accy_address_binary_to_user binary \<le> 2048"
proof -
  have u: "unat (user - 2045) = unat user - 2045" if "user \<ge> 2045"
    using that by (simp add: unat_sub)
  have u3: "unat (user + 3) = unat user + 3"
    using assms by (simp add: unat_word_ariths word_le_nat_alt)
  have b: "unat (binary + 2045) = unat binary + 2045"
    using assms by (simp add: unat_word_ariths word_le_nat_alt)
  have b3: "unat (binary - 3) = unat binary - 3" if "\<not> binary < 4"
    using that by (simp add: unat_sub word_less_nat_alt word_le_nat_alt)
  show ?thesis
    using assms u u3 b b3
    by (auto simp: accy_address_binary_to_user_def accy_address_user_to_binary_def
        word_le_nat_alt word_less_nat_alt)
qed

theorem accessory_numbering_bijective_witness:
  "accy_address_binary_to_user (accy_address_user_to_binary 2046) = 2046 \<and>
   accy_address_user_to_binary (accy_address_binary_to_user 3) = 3"
  using accessory_numbering_bijective [of 2046 3] by simp

lemma partition_arith:
  fixes a :: u16
  defines "v \<equiv> unat (a AND (push_bit 14 1 - 1))"
  shows "v < 0x4000" "unat (ucast (drop_bit 8 (a AND (push_bit 14 1 - 1))) :: u8) = v div 256"
    "v = unat a mod 0x4000"
proof -
  have m: "a AND (push_bit 14 1 - 1) = take_bit 14 a"
    by (simp add: take_bit_eq_mask mask_eq_exp_minus_1)
  have v: "v = unat a mod 0x4000"
    unfolding v_def m unsigned_take_bit_eq by (simp add: take_bit_eq_mod)
  then show "v = unat a mod 0x4000" "v < 0x4000" by simp_all
  have "unat (drop_bit 8 (take_bit 14 a)) = v div 256"
    unfolding unat_drop_bit_eq v_def m by (simp add: drop_bit_eq_div)
  moreover have "v div 256 < 256" using v by simp
  ultimately show "unat (ucast (drop_bit 8 (a AND (push_bit 14 1 - 1))) :: u8) = v div 256"
    unfolding m unsigned_ucast_eq by (simp add: take_bit_nat_eq_self)
qed

lemma partition_byte:
  assumes "unat (h :: u8) < 64"
  shows "h \<le> 0x27 \<longleftrightarrow> unat h < 0x28"
    "h AND 0x38 = 0x28 \<longleftrightarrow> 0x28 \<le> unat h \<and> unat h < 0x30"
    "h AND 0x38 = 0x30 \<longleftrightarrow> 0x30 \<le> unat h \<and> unat h < 0x38"
    "h = 0x38 \<longleftrightarrow> unat h = 0x38"
proof -
  have "\<forall>n\<in>set [0..<64]. (word_of_nat n AND 0x38 = (0x28 :: u8) \<longleftrightarrow>
      0x28 \<le> unat (word_of_nat n :: u8) \<and> unat (word_of_nat n :: u8) < 0x30) \<and>
      (word_of_nat n AND 0x38 = (0x30 :: u8) \<longleftrightarrow>
      0x30 \<le> unat (word_of_nat n :: u8) \<and> unat (word_of_nat n :: u8) < 0x38)"
    by (simp add: upt_rec)
  from byte_below [OF this assms]
  show "h AND 0x38 = 0x28 \<longleftrightarrow> 0x28 \<le> unat h \<and> unat h < 0x30"
    "h AND 0x38 = 0x30 \<longleftrightarrow> 0x30 \<le> unat h \<and> unat h < 0x38" by simp_all
  show "h \<le> 0x27 \<longleftrightarrow> unat h < 0x28" "h = 0x38 \<longleftrightarrow> unat h = 0x38"
    by (auto simp: word_le_nat_alt word_unat_eq_iff)
qed

lemma partition_rest:
  fixes a :: u16
  defines "b \<equiv> a AND (push_bit 14 1 - 1)"
  shows "unat (b AND NOT (push_bit 8 (ucast (0x38 :: u8)))) = unat b mod 2048"
    "unat (b AND 0x7f) = unat b mod 128"
proof -
  have n: "NOT (push_bit 8 (ucast (0x38 :: u8))) = (0xC7FF :: u16)" by simp
  have b: "b = a AND 0x3FFF" by (simp add: b_def)
  have "take_bit 11 b = b AND 0x7FF" by (simp add: and_literal_mask)
  then have r: "b AND NOT (push_bit 8 (ucast (0x38 :: u8))) = take_bit 11 b"
    unfolding n b by (simp add: and.assoc)
  show "unat (b AND NOT (push_bit 8 (ucast (0x38 :: u8)))) = unat b mod 2048"
    unfolding r unsigned_take_bit_eq by (simp add: take_bit_eq_mod)
  have r: "b AND 0x7f = take_bit 7 b" by (simp add: take_bit_eq_mask mask_eq_exp_minus_1)
  show "unat (b AND 0x7f) = unat b mod 128"
    unfolding r unsigned_take_bit_eq by (simp add: take_bit_eq_mod)
qed

lemma mod_block: "k * m \<le> v \<Longrightarrow> v < k * m + m \<Longrightarrow> v mod m = v - k * (m :: nat)"
  by (auto dest!: le_Suc_ex)

text \<open>\<open>decode_address_partition\<close> splits the 14-bit numbers exactly: below 0x2800 they are
  long addresses, then 2048 extended accessories, then 2048 basic accessories, then the
  short addresses with seven bits, and from 0x3900 on it refuses.\<close>

theorem partitions_exact:
  fixes a :: u16
  defines "v \<equiv> unat a mod 0x4000"
  shows "map_option (\<lambda>(addr, part, type). (unat addr, part, type)) (decode_address_partition a) =
    (if v < 0x2800 then Some (v, 0, DCC_LONG_ADDRESS)
     else if v < 0x3000 then Some (v - 0x2800, ADR_ACC_EXT, DCC_ACCY_EXT)
     else if v < 0x3800 then Some (v - 0x3000, ADR_ACC_BASIC, DCC_ACCY_BASIC_OUTPUT)
     else if v < 0x3900 then Some (v mod 128, ADR_MOBILE_SHORT, DCC_SHORT_ADDRESS)
     else None)"
proof -
  define b where "b = a AND (push_bit 14 1 - 1)"
  define h :: u8 where "h = ucast (drop_bit 8 b)"
  note p = partition_arith [of a, folded b_def, folded h_def]
  note rest = partition_rest [of a, folded b_def]
  have v: "unat b = v" using p(3) by (simp add: v_def)
  have h: "unat h = v div 256" "v < 0x4000" using p v by simp_all
  then have "unat h < 64" by simp
  note cls = partition_byte [OF this]
  consider "v < 0x2800" | "0x2800 \<le> v" "v < 0x3000" | "0x3000 \<le> v" "v < 0x3800"
    | "0x3800 \<le> v" "v < 0x3900" | "0x3900 \<le> v" by linarith
  then show ?thesis
  proof cases
    case 1
    then have "unat h < 0x28" using h by simp
    then show ?thesis
      using 1 cls v unfolding decode_address_partition_def Let_def b_def [symmetric] h_def [symmetric]
      by (simp add: dcc_consts)
  next
    case 2
    then have "0x28 \<le> unat h" "unat h < 0x30" using h by simp_all
    moreover have "v mod 2048 = v - 0x2800" using mod_block [of 5 2048 v] 2 by simp
    ultimately show ?thesis
      using 2 cls v rest unfolding decode_address_partition_def Let_def b_def [symmetric] h_def [symmetric]
      by (simp add: dcc_consts)
  next
    case 3
    then have "0x30 \<le> unat h" "unat h < 0x38" using h by simp_all
    moreover have "v mod 2048 = v - 0x3000" using mod_block [of 6 2048 v] 3 by simp
    ultimately show ?thesis
      using 3 cls v rest unfolding decode_address_partition_def Let_def b_def [symmetric] h_def [symmetric]
      by (simp add: dcc_consts)
  next
    case 4
    then have "unat h = 0x38" using h by simp
    then show ?thesis
      using 4 cls v rest unfolding decode_address_partition_def Let_def b_def [symmetric] h_def [symmetric]
      by (simp add: dcc_consts)
  next
    case 5
    then have "0x39 \<le> unat h" using h by simp
    then show ?thesis
      using 5 cls v rest unfolding decode_address_partition_def Let_def b_def [symmetric] h_def [symmetric]
      by (simp add: dcc_consts)
  qed
qed

subsection \<open>Basic accessory packets\<close>

definition accy_byte1 :: "u32 \<Rightarrow> u8" where
  "accy_byte1 n = ucast (0x80 OR (drop_bit 2 n AND 0x3F))"

definition accy_byte2 :: "u32 \<Rightarrow> u8" where
  "accy_byte2 n = (0x80 OR ucast (push_bit 4 (NOT (drop_bit 8 n) AND 7))) OR ucast (push_bit 1 (n AND 3))"

lemma accy_message:
  "packet_wf p \<Longrightarrow> add_dcc_accy_address True n p =
   Some (add_bytes [accy_byte1 n, accy_byte2 n] (fresh 0 (0x10000 OR n) p))"
  by (simp add: add_dcc_accy_address_def start_fresh push_fresh push_fresh_extend dcc_consts
      accy_byte1_def accy_byte2_def Let_def)

lemma or_second_byte:
  assumes "packet_wf p"
  shows "or_byte 1 x (add_bytes [b, c] (fresh h k p)) = add_bytes [b, c OR x] (fresh h k p)"
proof -
  have "length (payload p) = 32" using assms by (simp add: packet_wf_def)
  then show ?thesis
    by (simp add: or_byte_def add_bytes_def fresh_def used_bytes_def)
qed

definition accy_options :: "u32 \<Rightarrow> bool \<Rightarrow> u8" where
  "accy_options n x = (if n AND 1 \<noteq> 0 then 1 else 0) OR (if x then 8 else 0)"

lemma accy_params:
  "packet_wf p \<Longrightarrow> set_dcc_basic_accy_params (n AND 1 \<noteq> 0) x (add_bytes [b, c] (fresh h k p)) =
   add_bytes [b, c OR accy_options n x] (fresh h k p)"
  by (simp add: set_dcc_basic_accy_params_def or_second_byte [simplified] dcc_consts accy_options_def or.assoc Let_def)

lemma basic_accessory_message:
  "packet_wf p \<Longrightarrow> add_dcc_basic_accessory n x p =
   Some (message 0 (0x10000 OR drop_bit 1 n)
     [accy_byte1 (drop_bit 1 n), accy_byte2 (drop_bit 1 n) OR accy_options n x] p)"
  by (simp add: add_dcc_basic_accessory_def accy_message accy_params [simplified] finish_message Let_def)

text \<open>The bits of the two bytes.\<close>

lemma mask_literals:
  "(w :: 'a::len word) AND 0x3F = take_bit 6 w" "w AND 7 = take_bit 3 w" "w AND 3 = take_bit 2 w"
  by (simp_all add: take_bit_eq_mask mask_eq_exp_minus_1)

lemma accy_byte1_bits:
  "bit (accy_byte1 m) 0 = bit m 2" "bit (accy_byte1 m) 1 = bit m 3" "bit (accy_byte1 m) 2 = bit m 4"
  "bit (accy_byte1 m) 3 = bit m 5" "bit (accy_byte1 m) 4 = bit m 6" "bit (accy_byte1 m) 5 = bit m 7"
  unfolding accy_byte1_def mask_literals bit_ucast_iff bit_or_iff bit_take_bit_iff bit_drop_bit_eq comp_def
  by simp_all

lemma accy_byte2_bits:
  "bit (accy_byte2 m) 1 = bit m 0" "bit (accy_byte2 m) 2 = bit m 1"
  "bit (accy_byte2 m) 4 = (\<not> bit m 8)" "bit (accy_byte2 m) 5 = (\<not> bit m 9)"
  "bit (accy_byte2 m) 6 = (\<not> bit m 10)" "\<not> bit (accy_byte2 m) 0" "\<not> bit (accy_byte2 m) 3"
  "bit (accy_byte2 m) 7"
  unfolding accy_byte2_def mask_literals bit_ucast_iff bit_or_iff bit_push_bit_iff bit_take_bit_iff
    bit_not_iff bit_drop_bit_eq comp_def
  by simp_all

lemma accy_options_bits:
  "bit (accy_options n x) 0 = bit n 0" "bit (accy_options n x) 3 = x" "\<not> bit (accy_options n x) 1"
  "\<not> bit (accy_options n x) 2" "\<not> bit (accy_options n x) 4" "\<not> bit (accy_options n x) 5"
  "\<not> bit (accy_options n x) 6"
proof -
  have "n AND 1 \<noteq> 0 \<longleftrightarrow> bit n 0" by (simp add: and_one_eq bit_0 odd_iff_mod_2_eq_one)
  then show "bit (accy_options n x) 0 = bit n 0" "bit (accy_options n x) 3 = x"
    "\<not> bit (accy_options n x) 1" "\<not> bit (accy_options n x) 2" "\<not> bit (accy_options n x) 4"
    "\<not> bit (accy_options n x) 5" "\<not> bit (accy_options n x) 6"
    by (simp_all add: accy_options_def bit_or_iff)
qed

lemma accy_address_rejoined:
  fixes n :: u32 and x :: bool
  assumes "unat n < 4096"
  defines "m \<equiv> drop_bit 1 n"
  defines "b \<equiv> accy_byte1 m" and "c \<equiv> accy_byte2 m OR accy_options n x"
  shows "push_bit 3 (ucast b AND 0x3F) OR (ucast c AND 7) OR
         push_bit 9 (NOT (ucast (drop_bit 1 (drop_bit 3 c))) AND 7) = n"
    (is "?r = n")
proof (rule bit_word_eqI)
  fix j assume "j < LENGTH(32)"
  have "take_bit 12 n = n" using assms(1) by (intro take_bit_unat_less) simp
  then have hi: "bit n j \<Longrightarrow> j < 12" by (metis bit_take_bit_iff)
  have n: "bit n (Suc i) = bit m i" for i by (simp add: m_def bit_simps)
  have r: "bit ?r i \<longleftrightarrow> (3 \<le> i \<and> i < 9 \<and> bit b (i - 3)) \<or> (i < 3 \<and> bit c i) \<or>
     (9 \<le> i \<and> i < 12 \<and> \<not> bit c (i - 5))" for i
    unfolding mask_literals by (auto simp: bit_simps)
  show "bit ?r j = bit n j"
  proof (cases "j < 12")
    case False
    then show ?thesis unfolding r using hi by auto
  next
    case True
    have "bit n 2 = bit m 1"
      using n [of 1] by (simp add: numeral_2_eq_2)
    moreover have "bit n 1 = bit m 0" "bit n 3 = bit m 2" "bit n 4 = bit m 3"
      "bit n 5 = bit m 4" "bit n 6 = bit m 5" "bit n 7 = bit m 6" "bit n 8 = bit m 7"
      "bit n 9 = bit m 8" "bit n 10 = bit m 9" "bit n 11 = bit m 10"
      using n [of 0] n [of 2] n [of 3] n [of 4] n [of 5] n [of 6] n [of 7] n [of 8]
        n [of 9] n [of 10] by simp_all
    ultimately show ?thesis
      using below_12 [OF True] unfolding r unfolding b_def c_def bit_or_iff
      by (elim disjE; simp only:; simp only: accy_byte1_bits accy_byte2_bits accy_options_bits; simp add: accy_byte1_bits [simplified] accy_byte2_bits [simplified] accy_options_bits [simplified])
  qed
qed

definition accy_text :: "u32 \<Rightarrow> bool \<Rightarrow> string" where
  "accy_text n x = '' Accy '' @ dec (unat n) @ '' (user '' @
     dec (unat (accy_address_binary_to_user (drop_bit 1 n))) @ '' '' @
     (if bit n 0 then ''closed/normal/on'' else ''thrown/reverse/off'') @ '') '' @
     (if x then ''activate'' else ''deactivate'')"

lemma drop_and_one: "drop_bit k (w :: 'a::len word) AND 1 \<noteq> 0 \<longleftrightarrow> bit w k"
  using and_exp_eq_0_iff_not_bit [of "drop_bit k w" 0] by (simp add: bit_drop_bit_eq)

lemma bit7: "bit c 7 \<Longrightarrow> (c :: u8) AND 0x80 = 0x80"
  by (auto intro!: bit_word_eqI dest!: below_8 simp: bit_and_iff)

lemma top_bits:
  fixes b :: u8
  assumes "bit b 7" "\<not> bit b 6"
  shows "b AND 0xC0 = 0x80" "b AND 0x80 = 0x80" "b \<noteq> 0xFF" "b \<noteq> 0" "b \<noteq> 0xFD" "b \<noteq> 0xFE"
proof -
  show "b AND 0xC0 = 0x80" "b AND 0x80 = 0x80"
    using assms by (auto intro!: bit_word_eqI dest!: below_8 simp: bit_and_iff)
  show "b \<noteq> 0xFF" "b \<noteq> 0" "b \<noteq> 0xFD" "b \<noteq> 0xFE" using assms by auto
qed

lemma print_steps:
  fixes k :: u32
  assumes "packet_wf p" "bs \<noteq> []" "length bs \<le> 30"
  defines "q \<equiv> message 0 k bs p"
  shows "packet_to_string q False = do {
    s \<leftarrow> show_address q (debug_at ''[dcc]'' 0);
    s \<leftarrow> show_command q s;
    s \<leftarrow> show_checksum q s;
    Some (options s)
  }"
proof -
  note f = message_facts [OF assms(1,3), of 0 k, folded q_def]
  have h: "\<not> hdr_is_pkt q" "\<not> hdr_is_marklin q" "\<not> hdr_send_long_preamble q"
    "\<not> hdr_sense_ack q" "hdr_rept_count q = 0" "\<not> hdr_csum_error q"
    by (simp_all add: hdr_is_pkt_def hdr_is_marklin_def hdr_send_long_preamble_def hdr_sense_ack_def
        hdr_rept_count_def hdr_csum_error_def f bit_simps)
  have "unat (dlc q) \<noteq> 0" using f(5) assms(2) by simp
  then have "dlc q \<noteq> 0" by auto
  with h show ?thesis
    by (simp add: packet_to_string_def show_svc_def show_options_def flip: debug_at_def)
qed

text \<open>A basic accessory packet prints as the whole 12-bit address it was built for, the user
  number of its decoder, the direction of the output and whether it is activated.\<close>

theorem basic_accessory_prints:
  assumes "packet_wf p" "unat n < 4096"
  shows "Option.bind (add_dcc_basic_accessory n x p) (\<lambda>q. packet_to_string q False) =
         Some (''[dcc]'' @ accy_text n x)"
proof -
  define b where "b = accy_byte1 (drop_bit 1 n)"
  define c where "c = accy_byte2 (drop_bit 1 n) OR accy_options n x"
  define q where "q = message 0 (0x10000 OR drop_bit 1 n) [b, c] p"
  have q: "add_dcc_basic_accessory n x p = Some q"
    using basic_accessory_message [OF assms(1), of n x] by (simp add: q_def b_def c_def)
  have n: "push_bit 3 (ucast b AND 0x3F) OR (ucast c AND 7) OR
         push_bit 9 (NOT (ucast (drop_bit 1 (drop_bit 3 c))) AND 7) = n"
    unfolding b_def c_def by (rule accy_address_rejoined [OF assms(2)])
  have "bit b 7" "\<not> bit b 6"
    by (simp_all add: b_def accy_byte1_def bit_simps mask_literals)
  note b = top_bits [OF this]
  have "bit c 7" "bit c 3 = x"
    by (simp_all add: c_def accy_byte2_bits accy_options_bits bit_or_iff)
  then have c: "c AND 0x80 = 0x80" "drop_bit 3 c AND 1 \<noteq> 0 \<longleftrightarrow> x"
    by (simp_all only: bit7 drop_and_one)
  have bt: "byte_at q 0 = Some b" "byte_at q (Suc 0) = Some c"
    using message_byte [OF assms(1), of "[b, c]" 0] message_byte [OF assms(1), of "[b, c]" 1]
    by (simp_all add: q_def)
  let ?s = "\<lambda>t i a. (debug_at t i)\<lparr>is_basic_accy_packet := True, accy_address := a\<rparr>"
  define A :: u32 where "A = push_bit 3 (ucast b AND 0x3F)"
  have 1: "show_address q (debug_at t 0) = Some (?s t (Suc 0) A)" for t
    using b by (simp add: show_address_def bt debug_at_def skip_def A_def)
  have n0: "n AND 1 \<noteq> 0 \<longleftrightarrow> bit n 0" using drop_and_one [of 0 n] by simp
  have show_accy: "show_accessory c (skip 1 (?s t (Suc 0) A)) = ?s (t @ accy_text n x) 2 n" for t
    unfolding show_accessory_def Let_def using n [folded A_def]
    by (simp only: debug_state.simps or.assoc c(2) n0 debug_at_def skip_def emit_def accy_text_def) (simp add: numeral_2_eq_2)
  have 2: "show_command q (?s t (Suc 0) A) = Some (?s (t @ accy_text n x) 2 n)" for t
    using c(1) show_accy [of t]
    by (simp add: show_command_def bt) (simp add: debug_at_def skip_def)
  have 3: "show_checksum q (?s t 2 n) = Some (?s t 2 n)" for t
    unfolding q_def using assms(1)
    by (intro print_checksum) (simp_all add: is_logon_message_def debug_at_def)
  show ?thesis
    unfolding q Option.bind.simps using print_steps [OF assms(1), of "[b, c]" "0x10000 OR drop_bit 1 n", folded q_def] 3
    by (simp add: 1 2)
qed

theorem basic_accessory_prints_witness:
  "Option.bind (add_dcc_basic_accessory 9 True packet_clear) (\<lambda>q. packet_to_string q False) =
   Some ''[dcc] Accy 9 (user 1 closed/normal/on) activate''"
  using basic_accessory_prints [OF clear_wf, of 9 True]
  by (simp add: accy_text_def accy_address_binary_to_user_def dec.simps)

end
