(* ===== verification/DccLogon.thy ===== *)
theory DccLogon
  imports DccRoundtrip
begin

section \<open>High functions, binary states, logon packets, and arguments that are cut off\<close>

text \<open>
  The commands of the function groups from F13 to F68, the logon packets with the whole
  decoder ID, and three places where an argument loses bits: the long form of the binary
  state command, and the constructors of the two DCC addresses.
\<close>

subsection \<open>Function groups\<close>

definition function_command :: "u8 \<Rightarrow> u8 option" where
  "function_command base = map_of
     [(13, 0xDE), (21, 0xDF), (29, 0xD8), (37, 0xD9), (45, 0xDA), (53, 0xDB), (61, 0xDC)] base"

lemma function_hi_split:
  fixes base :: u8
  defines "b \<equiv> base - 13"
  shows "(if b AND 7 = 0 \<and> b \<le> 61 - 13 then Some (0xD8 OR ((drop_bit 3 b - 2) AND 7)) else None) =
         function_command base"
proof -
  have m: "b AND 7 = 0 \<and> b \<le> 48 \<longleftrightarrow> b \<in> {0, 8, 16, 24, 32, 40, 48}"
  proof
    assume a: "b AND 7 = 0 \<and> b \<le> 48"
    then have l: "unat b < 49" by (simp add: word_le_nat_alt)
    have "\<forall>n\<in>set [0..<49]. (word_of_nat n :: u8) AND 7 = 0 \<longrightarrow>
        (word_of_nat n :: u8) \<in> {0, 8, 16, 24, 32, 40, 48}"
      by (simp add: upt_rec)
    from byte_below [OF this l] a show "b \<in> {0, 8, 16, 24, 32, 40, 48}" by simp
  qed auto
  have base: "base = b + 13" by (simp add: b_def)
  show ?thesis
  proof (cases "b \<in> {0, 8, 16, 24, 32, 40, 48}")
    case True
    then show ?thesis by (auto simp: base function_command_def)
  next
    case False
    have "function_command base = None"
    proof (rule ccontr)
      assume "function_command base \<noteq> None"
      then have "base \<in> {13, 21, 29, 37, 45, 53, 61}"
        by (auto simp: function_command_def split: if_splits)
      then show False using False by (auto simp: b_def)
    qed
    then show ?thesis using False m by simp
  qed
qed

text \<open>\<open>add_dcc_function_hi\<close> accepts exactly the seven bases 13, 21, ..., 61 and builds the
  command byte that the DCC standard gives to the group; for any other base it dies.\<close>

theorem function_hi_bases:
  assumes "packet_wf p" "valid_address a"
  shows "Option.bind (add_dcc_address a p) (add_dcc_function_hi base v) =
    (case function_command base of
       None \<Rightarrow> None
     | Some cmd \<Rightarrow> Some (message 0 (address_key a) (address_bytes a @ [cmd, v]) p))"
proof -
  have l: "length (address_bytes a) \<le> 2" by (rule address_bytes_length)
  show ?thesis
    unfolding function_hi_split [symmetric] using assms l
    by (simp add: add_dcc_address_message add_dcc_function_hi_def push_fresh_extend finish_message
        DCC_FEATURE_EXP_FNHI_def Let_def)
qed

theorem function_hi_bases_witness:
  "Option.bind (add_dcc_address (Short (DccShortAddress 3)) packet_clear) (add_dcc_function_hi 29 5) =
   Some (message 0 3 [3, 0xD8, 5] packet_clear) \<and>
   Option.bind (add_dcc_address (Short (DccShortAddress 3)) packet_clear) (add_dcc_function_hi 30 5) = None"
  using function_hi_bases [OF clear_wf, of "Short (DccShortAddress 3)" 29 5]
    function_hi_bases [OF clear_wf, of "Short (DccShortAddress 3)" 30 5]
  by (simp add: valid_address_def function_command_def)

subsection \<open>Binary states\<close>

text \<open>The long form of the binary state command drops bit 7 of the function number: two
  numbers from 256 on that differ in that bit make the same packet.\<close>

theorem binary_state_loses_bit:
  assumes "fn \<ge> 256"
  shows "add_dcc_binary_state (fn XOR 0x80) x p = add_dcc_binary_state fn x p \<and> fn XOR 0x80 \<noteq> fn"
proof
  have m: "(fn XOR 0x80) AND 0x7F = fn AND 0x7F" "drop_bit 8 (fn XOR 0x80) = drop_bit 8 fn"
    by (simp_all add: bit.conj_xor_distrib2)
  have "unat (drop_bit 8 fn) > 0"
    using assms unfolding unat_drop_bit_eq by (simp add: word_le_nat_alt drop_bit_eq_div)
  then have "drop_bit 8 fn \<noteq> 0" by auto
  moreover have "drop_bit 8 w = 0" if "w \<le> 127" for w :: u16
  proof -
    have "unat (drop_bit 8 w) = 0"
      using that unfolding unat_drop_bit_eq by (simp add: word_le_nat_alt drop_bit_eq_div)
    then show ?thesis by (simp add: unat_eq_0)
  qed
  ultimately have "\<not> fn \<le> 127" "\<not> fn XOR 0x80 \<le> 127" using m(2) by metis+
  then show "add_dcc_binary_state (fn XOR 0x80) x p = add_dcc_binary_state fn x p"
    by (simp add: add_dcc_binary_state_def m)
  show "fn XOR 0x80 \<noteq> fn"
  proof
    assume "fn XOR 0x80 = fn"
    then have "fn XOR (fn XOR 0x80) = fn XOR fn" by (rule arg_cong)
    then show False by (simp flip: xor.assoc)
  qed
qed

theorem binary_state_loses_bit_witness:
  "add_dcc_binary_state (0x100 XOR 0x80) True packet_clear = add_dcc_binary_state 0x100 True packet_clear"
  using binary_state_loses_bit [of "0x100" True packet_clear] by simp

subsection \<open>Logon packets\<close>

definition id_byte :: "nat \<Rightarrow> u64 \<Rightarrow> u8" where
  "id_byte k d = ucast (drop_bit k d AND 0xff)"

definition id_bytes :: "u8 \<Rightarrow> u64 \<Rightarrow> u8 list" where
  "id_bytes c d = [ADDRESS_LOGON, ucast (ucast c OR (drop_bit 40 d AND 0xf)),
     id_byte 32 d, id_byte 24 d, id_byte 16 d, id_byte 8 d, ucast (d AND 0xff)]"

text \<open>How a decoder reads its ID and the assigned address out of a packet.\<close>

definition read_id :: "u8 list \<Rightarrow> u64" where
  "read_id bs = push_bit 40 (ucast (bs ! 1 AND 0xf)) OR push_bit 32 (ucast (bs ! 2)) OR
     push_bit 24 (ucast (bs ! 3)) OR push_bit 16 (ucast (bs ! 4)) OR push_bit 8 (ucast (bs ! 5)) OR
     ucast (bs ! 6)"

definition read_assigned :: "u8 list \<Rightarrow> u16" where
  "read_assigned bs = push_bit 8 (ucast (bs ! 7 XOR 0xC0)) OR ucast (bs ! 8)"

definition assign_bytes :: "u16 \<Rightarrow> u8 list" where
  "assign_bytes a = [ucast ((drop_bit 8 a AND 0xff) XOR 0xC0), ucast (a AND 0xff)]"

lemma logon_messages:
  assumes "packet_wf p"
  shows "set_dcc_select_shortinfo d p =
      Some (message 0 (feedback_key p) (id_bytes DCC_SELECT d @ [CMD_READ_SHORT_INFO]) p)"
    and "set_dcc_logon_assign d a p =
      Some (message 0 (feedback_key p) (id_bytes DCC_LOGON_ASSIGN d @ assign_bytes a) p)"
    and "set_dcc_logon_enable m cid session p =
      Some (message 0 (feedback_key p) [ADDRESS_LOGON, DCC_LOGON_ENABLE OR (logon_param_value m AND 3),
        ucast (drop_bit 8 cid), ucast (cid AND 0xff), session] p)"
  using assms
  by (simp_all add: set_dcc_select_shortinfo_def set_dcc_logon_assign_def set_dcc_logon_enable_def
      start_fresh push_fresh push_fresh_extend finish_message id_bytes_def id_byte_def assign_bytes_def)

lemma id_read_back:
  assumes "c = DCC_SELECT \<or> c = DCC_LOGON_ASSIGN"
  shows "read_id (id_bytes c d @ rest) = take_bit 44 d"
proof (rule bit_word_eqI)
  fix j assume "j < LENGTH(64)"
  have c: "ucast (ucast c OR (drop_bit 40 d AND 0xf)) AND 0xf = (ucast (take_bit 4 (drop_bit 40 d)) :: u8)"
  proof -
    have "take_bit 4 (ucast c) = (0 :: u64)" using assms by (auto simp: dcc_consts)
    then have "take_bit 4 (ucast c OR take_bit 4 (drop_bit 40 d)) = take_bit 4 (drop_bit 40 d)"
      by (simp only: take_bit_or) simp
    moreover have "take_bit 4 (ucast w :: u8) = ucast (take_bit 4 w)" for w :: u64
      by (rule bit_word_eqI) (auto simp: bit_simps)
    ultimately show ?thesis unfolding and_literal_mask by simp
  qed
  consider "j < 8" | "8 \<le> j" "j < 16" | "16 \<le> j" "j < 24" | "24 \<le> j" "j < 32" | "32 \<le> j" "j < 40"
    | "40 \<le> j" "j < 44" | "44 \<le> j" by linarith
  then show "bit (read_id (id_bytes c d @ rest)) j = bit (take_bit 44 d) j"
    unfolding read_id_def id_bytes_def id_byte_def
    by cases (simp_all add: c, simp_all add: and_literal_mask bit_simps, auto)
qed

lemma assigned_read_back: "length bs = 7 \<Longrightarrow> read_assigned (bs @ assign_bytes a @ rest) = a"
proof -
  assume l: "length bs = 7"
  have "(ucast ((drop_bit 8 a AND 0xff) XOR 0xC0) :: u8) XOR 0xC0 = ucast (drop_bit 8 a AND 0xff)"
  proof -
    have "(ucast (w XOR 0xC0) :: u8) = ucast w XOR 0xC0" for w :: u16
      by (simp add: ucast_xor)
    then show ?thesis by (simp add: xor.assoc)
  qed
  moreover have "push_bit 8 (ucast (ucast (drop_bit 8 a AND 0xff) :: u8)) OR ucast (ucast (a AND 0xff) :: u8) = a"
    unfolding and_literal_mask by (rule bit_word_eqI) (auto simp: bit_simps)
  ultimately show ?thesis
    using l by (simp add: read_assigned_def assign_bytes_def nth_append)
qed

text \<open>The select and the logon assign packet carry the 44 bits of the decoder ID and the
  assigned address so that a decoder reads exactly them back, and both check bytes are
  right: the CRC-8 up to the one before the last byte and the exclusive or of all bytes.\<close>

theorem logon_packets_read_back:
  assumes "packet_wf p"
  shows "\<exists>q r. set_dcc_select_shortinfo d p = Some q \<and> set_dcc_logon_assign d a p = Some r \<and>
    read_id (used_bytes q) = take_bit 44 d \<and> read_id (used_bytes r) = take_bit 44 d \<and>
    read_assigned (used_bytes r) = a \<and>
    (\<forall>s \<in> {q, r}. dallas_check_ok (crc_loop (butlast (used_bytes s)) dallas_init) \<and>
                 xor_loop (used_bytes s) 0 = 0)"
proof -
  let ?b = "id_bytes DCC_SELECT d @ [CMD_READ_SHORT_INFO]"
  let ?c = "id_bytes DCC_LOGON_ASSIGN d @ assign_bytes a"
  have l: "length ?b \<le> 30" "length ?c \<le> 30" "is_logon_message ?b" "is_logon_message ?c"
    by (simp_all add: id_bytes_def assign_bytes_def is_logon_message_def)
  have u: "used_bytes (message 0 k ?b p) = ?b @ check_bytes ?b"
    "used_bytes (message 0 k ?c p) = ?c @ check_bytes ?c" for k
    using message_facts(4) [OF assms] l by blast+
  have crc: "dallas_check_ok (crc_loop (butlast (bs @ check_bytes bs)) dallas_init)"
    if "is_logon_message bs" for bs
    using that by (simp add: check_bytes_def Let_def butlast_append crc_loop_append dallas_init_def
        dallas_check_ok_def dallas_16_eq)
  have ids: "read_id (?b @ check_bytes ?b) = take_bit 44 d" "read_id (?c @ check_bytes ?c) = take_bit 44 d"
    by (simp_all add: id_read_back)
  have "read_assigned (?c @ check_bytes ?c) = a"
    using assigned_read_back [of "id_bytes DCC_LOGON_ASSIGN d" a "check_bytes ?c"]
    by (simp add: id_bytes_def)
  then show ?thesis
    unfolding logon_messages [OF assms]
    by (intro exI conjI refl ballI)
       (auto simp: u ids xor_check_bytes crc l simp del: append_assoc)
qed

theorem logon_packets_read_back_witness:
  "\<exists>q. set_dcc_logon_assign 0x123456789AB 0x2345 packet_clear = Some q \<and>
       read_id (used_bytes q) = 0x123456789AB \<and> read_assigned (used_bytes q) = 0x2345"
  using logon_packets_read_back [OF clear_wf, of "0x123456789AB" "0x2345"] by auto

subsection \<open>Address constructors\<close>

lemma address_constructors_parts:
  "new_DccShortAddress 256 = Some (DccShortAddress 0)"
  "new_DccLongAddress 65536 = Some (DccLongAddress 0)"
  "new_MMAddress 256 = None"
  "v \<le> 127 \<Longrightarrow> map_option (unat \<circ> short_value) (new_DccShortAddress v) = Some (unat v)"
  "v \<le> 10239 \<Longrightarrow> map_option (unat \<circ> long_value) (new_DccLongAddress v) = Some (unat v)"
  "map_option (unat \<circ> mm_value) (new_MMAddress v) = (if v \<le> 80 then Some (unat v) else None)"
  by (auto simp: new_DccShortAddress_def new_DccLongAddress_def new_MMAddress_def word_le_nat_alt
      unsigned_ucast_eq take_bit_nat_eq_self)

text \<open>The constructors of the DCC addresses check the truncated member: they accept 256 as the
  short address 0 and 65536 as the long address 0, where the Marklin constructor checks its
  argument. Within the documented ranges all three keep the address.\<close>

theorem address_constructors:
  "(new_DccShortAddress 256 = Some (DccShortAddress 0)) \<and>
   (new_DccLongAddress 65536 = Some (DccLongAddress 0)) \<and>
   (new_MMAddress 256 = None) \<and>
   (v \<le> 127 \<longrightarrow> map_option (unat \<circ> short_value) (new_DccShortAddress v) = Some (unat v)) \<and>
   (v \<le> 10239 \<longrightarrow> map_option (unat \<circ> long_value) (new_DccLongAddress v) = Some (unat v)) \<and>
   (map_option (unat \<circ> mm_value) (new_MMAddress v) = (if v \<le> 80 then Some (unat v) else None))"
  by (intro conjI impI address_constructors_parts)

theorem address_constructors_witness:
  "map_option (unat \<circ> short_value) (new_DccShortAddress 3) = Some 3"
  using address_constructors [of 3] by simp

end
