(* ===== verification/DccMarklin.thy ===== *)
theory DccMarklin
  imports DccCalls DccRoundtrip
begin

section \<open>Marklin-Motorola packets\<close>

text \<open>
  The third byte of a new format packet is the speed in the even bits and the command in
  the odd ones. The encoder has exceptions that keep it from ever producing a byte with
  all bits doubled, which the old format would understand; the theorems show that it
  never does, that the exceptions do not collide with other commands, and that the
  first two bytes determine the address.
\<close>

subsection \<open>The speed bits\<close>

definition mm_step :: "u32 \<Rightarrow> u32" where
  "mm_step s = (let s = (if s > 0 then s + 1 else s) in if s > 15 then 15 else s)"

definition mm_code :: "u32 \<Rightarrow> u8" where
  "mm_code s = (((0 OR (if s AND 1 \<noteq> 0 then 0x80 else 0)) OR (if s AND 2 \<noteq> 0 then 0x20 else 0)) OR
     (if s AND 4 \<noteq> 0 then 0x08 else 0)) OR (if s AND 8 \<noteq> 0 then 0x02 else 0)"

definition third :: "u8 \<Rightarrow> packet \<Rightarrow> packet" where
  "third b p = p\<lparr>payload := (payload p)[2 := b]\<rparr>"

lemma or_third: "packet_wf p \<Longrightarrow> or_byte 2 x (third b p) = third (b OR x) p"
  by (simp add: or_byte_def third_def packet_wf_def)

lemma or_third_if:
  "packet_wf p \<Longrightarrow> (if c then or_byte 2 x (third b p) else third b p) = third (b OR (if c then x else 0)) p"
  by (simp add: or_third)

lemma third_byte [simp]: "packet_wf p \<Longrightarrow> payload (third b p) ! 2 = b"
  by (simp add: third_def packet_wf_def)

lemma third_third [simp]: "third c (third b p) = third c p"
  by (simp add: third_def)

lemma speed_bits_eq:
  assumes "packet_wf p"
  shows "set_mm_speed_bits s p = (mm_step s, third (mm_code (mm_step s)) p)"
  unfolding set_mm_speed_bits_def Let_def mm_code_def mm_step_def third_def [symmetric]
    or_third_if [OF assms] by simp

subsection \<open>Commands of the new format\<close>

datatype mm_command = Direction bool | Function u32 bool

fun mm_apply :: "mm_command \<Rightarrow> u32 \<Rightarrow> packet \<Rightarrow> packet" where
  "mm_apply (Direction f) s p = add_mm_new_speed f s p"
| "mm_apply (Function n x) s p = add_mm_new_fn n x s p"

definition mm_commands :: "mm_command list" where
  "mm_commands = [Direction True, Direction False,
     Function 1 True, Function 1 False, Function 2 True, Function 2 False,
     Function 3 True, Function 3 False, Function 4 True, Function 4 False]"

definition doubled :: "u8 \<Rightarrow> bool" where
  "doubled b \<longleftrightarrow> drop_bit 1 (b AND 0xaa) = b AND 0x55"

fun mm_byte :: "mm_command \<Rightarrow> u32 \<Rightarrow> u8" where
  "mm_byte (Direction f) s = (mm_code s OR (if f then 0x10 else 0x44)) OR (if s \<le> 7 then 1 else 0)"
| "mm_byte (Function n x) s =
     (let b = (mm_code s OR marklin_fn_bits ! unat n) OR (if x then 1 else 0)
      in if doubled b then (b AND 0xaa) OR (if s \<ge> 8 then 0x11 else 0x44) else b)"

lemma mm_apply_byte:
  assumes "packet_wf p" "s \<noteq> EMERGENCY_STOP" "c \<in> set mm_commands"
  shows "mm_apply c s p = third (mm_byte c (mm_step s)) p"
proof -
  have stop: "s \<noteq> CHANGE_DIR" using assms(2) by (simp add: CHANGE_DIR_def EMERGENCY_STOP_def)
  show ?thesis
  proof (cases c)
    case (Direction f)
    then show ?thesis
      using assms(2) stop
      by (simp add: Direction add_mm_new_speed_def speed_bits_eq [OF assms(1)] or_third [OF assms(1)])
  next
    case (Function n x)
    then have "\<not> n < 1" "\<not> n > 4" using assms(3) by (auto simp: mm_commands_def)
    then show ?thesis
      unfolding Function mm_apply.simps add_mm_new_fn_def third_def [symmetric]
        speed_bits_eq [OF assms(1)]
      using assms(2) stop
      by (simp add: or_third [OF assms(1)] or_third_if [OF assms(1)] assms(1) doubled_def Let_def)
  qed
qed

lemma mm_step_bound: "unat (mm_step s) < 16"
  by (simp add: mm_step_def Let_def word_le_nat_alt word_less_nat_alt)

text \<open>The bytes of all commands at each of the sixteen speed steps.\<close>

definition mm_table :: "(u8 \<times> u8 list) list" where
  "mm_table = [
     (0, [17, 69, 81, 80, 5, 4, 21, 20, 85, 84]),
     (128, [145, 197, 209, 208, 133, 132, 149, 148, 213, 212]),
     (32, [49, 101, 113, 112, 37, 36, 53, 52, 117, 116]),
     (160, [177, 229, 241, 228, 165, 164, 181, 180, 245, 244]),
     (8, [25, 77, 89, 88, 13, 76, 29, 28, 93, 92]),
     (136, [153, 205, 217, 216, 141, 140, 157, 156, 221, 220]),
     (40, [57, 109, 121, 120, 45, 44, 61, 108, 125, 124]),
     (168, [185, 237, 249, 248, 173, 172, 189, 188, 253, 236]),
     (2, [18, 70, 83, 82, 7, 6, 23, 22, 87, 86]),
     (130, [146, 198, 211, 210, 135, 134, 151, 150, 215, 214]),
     (34, [50, 102, 115, 114, 39, 38, 55, 54, 119, 118]),
     (162, [178, 230, 179, 242, 167, 166, 183, 182, 247, 246]),
     (10, [26, 78, 91, 90, 27, 14, 31, 30, 95, 94]),
     (138, [154, 206, 219, 218, 143, 142, 159, 158, 223, 222]),
     (42, [58, 110, 123, 122, 47, 46, 59, 62, 127, 126]),
     (170, [186, 238, 251, 250, 175, 174, 191, 190, 187, 254])]"

lemma mm_table_rows:
  "\<forall>n\<in>set [0..<16]. (mm_code (word_of_nat n), map (\<lambda>c. mm_byte c (word_of_nat n)) mm_commands) =
     mm_table ! unat (word_of_nat n :: u32)"
  by (simp add: upt_rec mm_table_def mm_commands_def mm_code_def marklin_fn_bits_def doubled_def Let_def)

lemma mm_table_good:
  "\<forall>(m, bs)\<in>set mm_table. distinct bs \<and> (\<forall>b\<in>set bs. \<not> doubled b \<and> b AND 0xaa = m)"
  by (simp add: mm_table_def doubled_def)

lemma mm_codes_distinct: "distinct (map fst mm_table)"
  by (simp add: mm_table_def)

lemma mm_bytes_good:
  assumes "unat s < 16"
  shows "distinct (map (\<lambda>c. mm_byte c s) mm_commands)"
    "\<forall>c\<in>set mm_commands. \<not> doubled (mm_byte c s) \<and> mm_byte c s AND 0xaa = mm_code s"
proof -
  have "(mm_code s, map (\<lambda>c. mm_byte c s) mm_commands) = mm_table ! unat s"
    by (rule byte_below [OF mm_table_rows assms])
  moreover have "unat s < length mm_table" using assms by (simp add: mm_table_def)
  ultimately have "(mm_code s, map (\<lambda>c. mm_byte c s) mm_commands) \<in> set mm_table" by simp
  with mm_table_good show "distinct (map (\<lambda>c. mm_byte c s) mm_commands)"
    "\<forall>c\<in>set mm_commands. \<not> doubled (mm_byte c s) \<and> mm_byte c s AND 0xaa = mm_code s" by auto
qed

lemma mm_code_inject:
  assumes "unat s < 16" "unat t < 16" "mm_code s = mm_code t"
  shows "s = t"
proof -
  have "fst (mm_table ! unat s) = mm_code s" "fst (mm_table ! unat t) = mm_code t"
    using byte_below [OF mm_table_rows assms(1)] byte_below [OF mm_table_rows assms(2)]
    by (metis fst_conv)+
  moreover have l: "length mm_table = 16" by (simp add: mm_table_def)
  ultimately have "map fst mm_table ! unat s = map fst mm_table ! unat t"
    using assms by simp
  then have "unat s = unat t"
    by (rule nth_eq_iff_index_eq [THEN iffD1, OF mm_codes_distinct, rotated -1])
       (use assms l in simp_all)
  then show ?thesis by (simp add: word_unat_eq_iff)
qed

lemma marklin_commands_distinct_parts:
  assumes "packet_wf p" "packet_wf q" "s \<noteq> EMERGENCY_STOP" "t \<noteq> EMERGENCY_STOP"
    "c \<in> set mm_commands" "d \<in> set mm_commands"
  shows "\<not> doubled (payload (mm_apply c s p) ! 2)"
    and "payload (mm_apply c s p) ! 2 = payload (mm_apply d t q) ! 2 \<longleftrightarrow> c = d \<and> mm_step s = mm_step t"
proof -
  have b: "payload (mm_apply c s p) ! 2 = mm_byte c (mm_step s)"
    "payload (mm_apply d t q) ! 2 = mm_byte d (mm_step t)"
    using assms by (simp_all add: mm_apply_byte)
  note good = mm_bytes_good [OF mm_step_bound]
  show "\<not> doubled (payload (mm_apply c s p) ! 2)"
    using good(2) assms(5) by (simp add: b)
  have "c = d \<and> mm_step s = mm_step t" if "mm_byte c (mm_step s) = mm_byte d (mm_step t)"
  proof -
    have "mm_code (mm_step s) = mm_code (mm_step t)"
      using good(2) assms(5,6) that by metis
    then have st: "mm_step s = mm_step t"
      using mm_code_inject [OF mm_step_bound mm_step_bound] by blast
    have "c = d"
      using good(1) [of t] assms(5,6) that unfolding st distinct_map by (auto dest: inj_onD)
    with st show ?thesis by simp
  qed
  then show "payload (mm_apply c s p) ! 2 = payload (mm_apply d t q) ! 2 \<longleftrightarrow> c = d \<and> mm_step s = mm_step t"
    unfolding b by auto
qed

text \<open>The third byte of a new format packet determines the speed step and the command
  (direction, or function with its state), whatever packets the methods are called on: no
  two of them make the same byte, and none makes a byte with all bits doubled, which a
  decoder of the old format would obey.\<close>

theorem marklin_commands_distinct:
  assumes "packet_wf p" "packet_wf q" "s \<noteq> EMERGENCY_STOP" "t \<noteq> EMERGENCY_STOP"
    "c \<in> set mm_commands" "d \<in> set mm_commands"
  shows "(\<not> doubled (payload (mm_apply c s p) ! 2)) \<and>
   (payload (mm_apply c s p) ! 2 = payload (mm_apply d t q) ! 2 \<longleftrightarrow> c = d \<and> mm_step s = mm_step t)"
  by (intro conjI marklin_commands_distinct_parts [OF assms])

theorem marklin_commands_distinct_witness:
  "\<not> doubled (payload (mm_apply (Function 1 True) 10 packet_clear) ! 2) \<and>
   payload (mm_apply (Function 1 True) 10 packet_clear) ! 2 \<noteq> payload (mm_apply (Direction True) 10 packet_clear) ! 2"
  using marklin_commands_distinct [OF clear_wf clear_wf, of 10 10 "Function 1 True" "Direction True"]
  by (simp add: EMERGENCY_STOP_def mm_commands_def)

subsection \<open>Addresses\<close>

fun trit :: "u8 \<Rightarrow> nat" where
  "trit b = (if b = 3 then 1 else if b = 2 then 2 else 0)"

text \<open>How a decoder reads its address and the light bit out of the first two bytes.\<close>

definition read_mm_address :: "u8 list \<Rightarrow> nat" where
  "read_mm_address bs = trit (bs ! 0) + 3 * trit (drop_bit 6 (bs ! 1)) +
     9 * trit (drop_bit 4 (bs ! 1) AND 3) + 27 * trit (drop_bit 2 (bs ! 1) AND 3)"

definition mm_second :: "nat \<Rightarrow> nat \<Rightarrow> nat \<Rightarrow> bool \<Rightarrow> u8" where
  "mm_second d e f l = (((push_bit 6 (marklin_address ! d) OR push_bit 4 (marklin_address ! e)) OR
     push_bit 2 (marklin_address ! f)) OR (if l then 3 else 0))"

lemma mm_address_payload:
  fixes a :: u8 and l :: bool
  assumes "packet_wf p"
  defines "q \<equiv> add_mm_address (MMAddress a) l (start_mm_packet p)"
  shows "payload q ! 0 = marklin_address ! (unat a mod 3)"
    "payload q ! 1 = mm_second (unat a div 3 mod 3) (unat a div 9 mod 3) (unat a div 27 mod 3) l"
proof -
  have p: "length (payload p) = 32" using assms by (simp add: packet_wf_def)
  have "unat (a div 3 div 3 div 3 mod 3) = unat a div 27 mod 3" "unat (a div 3 div 3 mod 3) = unat a div 9 mod 3"
    "unat (a div 3 mod 3) = unat a div 3 mod 3" "unat (a mod 3) = unat a mod 3"
    by (simp_all add: unat_mod_distrib unat_div_distrib flip: div_mult2_eq)
  then show "payload q ! 0 = marklin_address ! (unat a mod 3)"
    "payload q ! 1 = mm_second (unat a div 3 mod 3) (unat a div 9 mod 3) (unat a div 27 mod 3) l"
    using p unfolding q_def add_mm_address_def mm_second_def Let_def
    by (auto simp: or_byte_def start_mm_packet_def or.assoc)
qed

lemma read_mm_digits:
  assumes "c < 3" "d < 3" "e < 3" "f < 3"
  shows "read_mm_address (marklin_address ! c # mm_second d e f l # bs) = c + 3 * d + 9 * e + 27 * f"
    "mm_second d e f l AND 3 = (if l then 3 else 0)"
proof -
  have all: "\<forall>x\<in>{0, 1, 2 :: nat}. \<forall>y\<in>{0, 1, 2 :: nat}. \<forall>z\<in>{0, 1, 2 :: nat}.
     trit (drop_bit 6 (mm_second x y z l)) = x \<and> trit (drop_bit 4 (mm_second x y z l) AND 3) = y \<and>
     trit (drop_bit 2 (mm_second x y z l) AND 3) = z \<and> mm_second x y z l AND 3 = (if l then 3 else 0)"
    by (cases l) (simp_all add: mm_second_def marklin_address_def)
  have "d \<in> {0, 1, 2}" "e \<in> {0, 1, 2}" "f \<in> {0, 1, 2}" using assms by auto
  note 1 = bspec [OF bspec [OF bspec [OF all this(1)] this(2)] this(3)]
  have "c = 0 \<or> c = 1 \<or> c = 2" using assms(1) by linarith
  then have "trit (marklin_address ! c) = c" by (auto simp: marklin_address_def)
  with 1 show "read_mm_address (marklin_address ! c # mm_second d e f l # bs) = c + 3 * d + 9 * e + 27 * f"
    "mm_second d e f l AND 3 = (if l then 3 else 0)"
    unfolding read_mm_address_def by (simp_all del: trit.simps)
qed

lemma digits_3:
  "n < 81 \<Longrightarrow> n mod 3 + 3 * (n div 3 mod 3) + 9 * (n div 9 mod 3) + 27 * (n div 27 mod 3) = (n :: nat)"
proof -
  assume n: "n < 81"
  define a b c where "a = n div 3" and "b = a div 3" and "c = b div 3"
  have d: "n div 9 = b" "n div 27 = c"
    by (simp_all add: a_def b_def c_def flip: div_mult2_eq)
  have "c < 3" using n by (simp add: a_def b_def c_def flip: div_mult2_eq)
  then have c: "c mod 3 = c" by simp
  have "n = 3 * a + n mod 3" "a = 3 * b + a mod 3" "b = 3 * c + b mod 3"
    unfolding a_def b_def c_def by (rule mult_div_mod_eq [symmetric])+
  then show ?thesis
    unfolding d c a_def [symmetric] by linarith
qed

text \<open>For every Marklin address the constructor accepts, the first two bytes that
  \<open>add_mm_address\<close> sets in a fresh packet determine the address and the light bit.\<close>

theorem marklin_address_read_back:
  assumes "packet_wf p" "new_MMAddress v = Some a"
  shows "read_mm_address (payload (add_mm_address a l (start_mm_packet p))) = unat v \<and>
         (payload (add_mm_address a l (start_mm_packet p)) ! 1 AND 3 = 3 \<longleftrightarrow> l)"
proof -
  have v: "v \<le> 80" and a: "a = MMAddress (ucast v)"
    using assms(2) by (auto simp: new_MMAddress_def split: if_splits)
  have n: "unat (ucast v :: u8) = unat v" "unat v < 81"
    using v by (simp_all add: word_le_nat_alt unsigned_ucast_eq take_bit_nat_eq_self)
  let ?q = "add_mm_address (MMAddress (ucast v)) l (start_mm_packet p)"
  note b = mm_address_payload [OF assms(1), of "ucast v" l, unfolded n(1)]
  have r: "read_mm_address (payload ?q) = read_mm_address [payload ?q ! 0, payload ?q ! 1]"
    by (simp add: read_mm_address_def)
  have "unat v mod 3 + 3 * (unat v div 3 mod 3) + 9 * (unat v div 9 mod 3) + 27 * (unat v div 27 mod 3) = unat v"
    using n(2) digits_3 [of "unat v"] by simp
  moreover have "unat v mod 3 < 3" "unat v div 3 mod 3 < 3" "unat v div 9 mod 3 < 3" "unat v div 27 mod 3 < 3"
    by simp_all
  ultimately show ?thesis
    unfolding a r b by (simp only: read_mm_digits) auto
qed

theorem marklin_address_read_back_witness:
  "read_mm_address (payload (add_mm_address (MMAddress 78) True (start_mm_packet packet_clear))) = 78"
  using marklin_address_read_back [OF clear_wf, of 78 "MMAddress 78" True]
  by (simp add: new_MMAddress_def)

end
