(* ===== verification/DccDecoder.thy ===== *)
theory DccDecoder
  imports DccPacketSpec
begin

section \<open>Decoding the track signal (dcc/Receiver.hxx)\<close>

text \<open>
  The state machine that turns the lengths of the half-waves on the track into DCC and
  Marklin packets. One call of \<open>process_data\<close> takes the length of one half-wave. An
  access through the null packet pointer or behind the payload array is \<open>None\<close>. The
  members the constructor does not set keep the values the memory had, which are the
  argument \<open>d0\<close> of the constructor.
\<close>

subsection \<open>Timings\<close>

record timing =
  min_value :: u32
  max_value :: u32

definition timing_set :: "u32 \<Rightarrow> int \<Rightarrow> int \<Rightarrow> timing \<Rightarrow> timing" where
  "timing_set tick_per_usec min_usec max_usec t =
     (let t = (if min_usec < 0 then t\<lparr>min_value := 0\<rparr>
               else t\<lparr>min_value := tick_per_usec * word_of_int min_usec\<rparr>)
      in if max_usec < 0 then (let max_usec = 0xFFFFFFFF :: u32 in t)
         else t\<lparr>max_value := tick_per_usec * word_of_int max_usec\<rparr>)"

definition timing_match :: "timing \<Rightarrow> u32 \<Rightarrow> bool" where
  "timing_match t value_clocks \<longleftrightarrow> min_value t \<le> value_clocks \<and> value_clocks \<le> max_value t"

datatype timing_info = DCC_ONE | DCC_ZERO | MM_PREAMBLE | MM_SHORT | MM_LONG

subsection \<open>The decoder\<close>

datatype decoder_state =
  UNKNOWN | DCC_PREAMBLE | DCC_END_OF_PREAMBLE | DCC_DATA | DCC_DATA_ONE | DCC_DATA_ZERO
| DCC_MAYBE_CUTOUT | DCC_CUTOUT | DCC_PACKET_FINISHED | MM_DATA | MM_ZERO | MM_ONE
| MM_PACKET_FINISHED

record decoder =
  parse_count :: u8
  have_packet :: bool
  check_crc :: bool
  xor_state :: u8
  crc_state :: u8
  parse_state :: decoder_state
  pkt :: "packet option"
  timings :: "timing_info \<Rightarrow> timing"

definition new_decoder :: "u32 \<Rightarrow> decoder \<Rightarrow> decoder" where
  "new_decoder tick_per_usec d0 =
     d0\<lparr>parse_count := 0, crc_state := dallas_init, parse_state := UNKNOWN, pkt := None,
        timings := (timings d0)
          (DCC_ONE := timing_set tick_per_usec 52 64 (timings d0 DCC_ONE),
           DCC_ZERO := timing_set tick_per_usec 95 9900 (timings d0 DCC_ZERO),
           MM_PREAMBLE := timing_set tick_per_usec 1000 (-1) (timings d0 MM_PREAMBLE),
           MM_SHORT := timing_set tick_per_usec 20 32 (timings d0 MM_SHORT),
           MM_LONG := timing_set tick_per_usec 200 216 (timings d0 MM_LONG))\<rparr>"

definition wave :: "decoder \<Rightarrow> timing_info \<Rightarrow> u32 \<Rightarrow> bool" where
  "wave d i v = timing_match (timings d i) v"

definition clear_packet :: "decoder \<Rightarrow> decoder option" where
  "clear_packet d = do {
     p \<leftarrow> pkt d;
     payload' \<leftarrow> array_set (payload p) 0 0;
     Some (d\<lparr>pkt := Some (p\<lparr>header_raw_data := 0, dlc := 0, feedback_key := 0, payload := payload'\<rparr>),
             check_crc := False, xor_state := 0, crc_state := dallas_init\<rparr>)
   }"

definition set_packet :: "packet option \<Rightarrow> decoder \<Rightarrow> decoder option" where
  "set_packet p d =
     (let d = d\<lparr>pkt := p\<rparr> in if pkt d \<noteq> None then clear_packet d else Some d)"

definition or_header :: "u8 \<Rightarrow> decoder \<Rightarrow> decoder option" where
  "or_header b d = do {
     p \<leftarrow> pkt d;
     Some (d\<lparr>pkt := Some (p\<lparr>header_raw_data := header_raw_data p OR b\<rparr>)\<rparr>)
   }"

definition cur_byte :: "decoder \<Rightarrow> u8 option" where
  "cur_byte d = do {
     p \<leftarrow> pkt d;
     array_get (payload p) (unat (dlc p))
   }"

definition set_cur_byte :: "u8 \<Rightarrow> decoder \<Rightarrow> decoder option" where
  "set_cur_byte b d = do {
     p \<leftarrow> pkt d;
     payload' \<leftarrow> array_set (payload p) (unat (dlc p)) b;
     Some (d\<lparr>pkt := Some (p\<lparr>payload := payload'\<rparr>)\<rparr>)
   }"

definition inc_dlc :: "decoder \<Rightarrow> decoder option" where
  "inc_dlc d = do {
     p \<leftarrow> pkt d;
     Some (d\<lparr>pkt := Some (p\<lparr>dlc := dlc p + 1\<rparr>)\<rparr>)
   }"

definition goto :: "decoder_state \<Rightarrow> decoder \<Rightarrow> decoder" where
  "goto s d = d\<lparr>parse_state := s\<rparr>"

subsection \<open>DCC states\<close>

definition in_idle :: "u32 \<Rightarrow> decoder \<Rightarrow> decoder option" where
  "in_idle v d =
     (if wave d DCC_ONE v then Some (goto DCC_PREAMBLE (d\<lparr>parse_count := 0\<rparr>))
      else do {
        d \<leftarrow> (if wave d MM_PREAMBLE v \<and> pkt d \<noteq> None then do {
               d \<leftarrow> clear_packet d;
               d \<leftarrow> or_header 2 d;
               Some ((goto MM_DATA (d\<lparr>parse_count := push_bit 2 1\<rparr>))\<lparr>have_packet := True\<rparr>)
             } else Some d);
        Some (goto UNKNOWN d)
      })"

definition in_preamble :: "u32 \<Rightarrow> decoder \<Rightarrow> decoder option" where
  "in_preamble v d =
     (if wave d DCC_ONE v then Some (d\<lparr>parse_count := parse_count d + 1\<rparr>)
      else if wave d DCC_ZERO v \<and> parse_count d \<ge> 20 then Some (goto DCC_END_OF_PREAMBLE d)
      else Some (goto UNKNOWN d))"

definition in_end_of_preamble :: "u32 \<Rightarrow> decoder \<Rightarrow> decoder option" where
  "in_end_of_preamble v d =
     (if wave d DCC_ZERO v then do {
        let d = (goto DCC_DATA d)\<lparr>parse_count := push_bit 7 1, xor_state := 0, crc_state := dallas_init\<rparr>;
        if pkt d \<noteq> None then do {
          d \<leftarrow> clear_packet d;
          or_header 4 (d\<lparr>have_packet := True\<rparr>)
        } else Some (d\<lparr>have_packet := False\<rparr>)
      }
      else Some (goto UNKNOWN d))"

definition in_data :: "u32 \<Rightarrow> decoder \<Rightarrow> decoder option" where
  "in_data v d =
     (if wave d DCC_ONE v then Some (goto DCC_DATA_ONE d)
      else if wave d DCC_ZERO v then Some (goto DCC_DATA_ZERO d)
      else Some (goto UNKNOWN d))"

definition finish_packet :: "decoder \<Rightarrow> decoder option" where
  "finish_packet d = do {
     p \<leftarrow> pkt d;
     d \<leftarrow> (if check_crc d \<and> dlc p > 6 \<and> \<not> dallas_check_ok (crc_state d)
           then or_header 0x80 d else Some d);
     b \<leftarrow> cur_byte d;
     let d = d\<lparr>xor_state := xor_state d XOR b\<rparr>;
     d \<leftarrow> (if xor_state d \<noteq> 0 then or_header 0x80 d else Some d);
     inc_dlc d
   }"

definition in_data_one :: "u32 \<Rightarrow> decoder \<Rightarrow> decoder option" where
  "in_data_one v d =
     (if wave d DCC_ONE v then
        (if parse_count d \<noteq> 0 then do {
           d \<leftarrow> (if have_packet d then do {
                  b \<leftarrow> cur_byte d;
                  set_cur_byte (b OR parse_count d) d
                } else Some d);
           Some (goto DCC_DATA (d\<lparr>parse_count := drop_bit 1 (parse_count d)\<rparr>))
         } else do {
           d \<leftarrow> (if have_packet d then finish_packet d else Some d);
           Some (goto DCC_MAYBE_CUTOUT d)
         })
      else Some (goto UNKNOWN d))"

definition finish_byte :: "decoder \<Rightarrow> decoder option" where
  "finish_byte d = do {
     p \<leftarrow> pkt d;
     b \<leftarrow> cur_byte d;
     let d = d\<lparr>xor_state := xor_state d XOR b\<rparr>;
     b0 \<leftarrow> array_get (payload p) 0;
     let d = (if dlc p = 0 \<and> (b0 = 254 \<or> b0 = 253) then d\<lparr>check_crc := True\<rparr> else d);
     let d = (if check_crc d then d\<lparr>crc_state := dallas_update16 (crc_state d) b\<rparr> else d);
     d \<leftarrow> inc_dlc d;
     p \<leftarrow> pkt d;
     if dlc p \<ge> MAX_PAYLOAD then Some (d\<lparr>have_packet := False\<rparr>)
     else set_cur_byte 0 d
   }"

definition in_data_zero :: "u32 \<Rightarrow> decoder \<Rightarrow> decoder option" where
  "in_data_zero v d =
     (if wave d DCC_ZERO v then do {
        d \<leftarrow> (if parse_count d \<noteq> 0 then Some (d\<lparr>parse_count := drop_bit 1 (parse_count d)\<rparr>)
              else do {
                d \<leftarrow> (if have_packet d then finish_byte d else Some d);
                Some (d\<lparr>parse_count := push_bit 7 1\<rparr>)
              });
        Some (goto DCC_DATA d)
      }
      else Some (goto UNKNOWN d))"

definition in_maybe_cutout :: "u32 \<Rightarrow> decoder \<Rightarrow> decoder option" where
  "in_maybe_cutout v d =
     (if v < min_value (timings d DCC_ZERO) then Some (goto DCC_CUTOUT d)
      else Some (goto DCC_PACKET_FINISHED d))"

subsection \<open>Marklin states\<close>

definition in_mm_data :: "u32 \<Rightarrow> decoder \<Rightarrow> decoder option" where
  "in_mm_data v d =
     (if wave d MM_LONG v then Some (goto MM_ZERO d)
      else if wave d MM_SHORT v then Some (goto MM_ONE d)
      else Some (goto UNKNOWN d))"

definition mm_next_bit :: "decoder \<Rightarrow> decoder option" where
  "mm_next_bit d = do {
     let d = d\<lparr>parse_count := drop_bit 1 (parse_count d)\<rparr>;
     if parse_count d = 0 then do {
       p \<leftarrow> pkt d;
       if dlc p = 2 then Some (goto MM_PACKET_FINISHED d)
       else do {
         d \<leftarrow> inc_dlc d;
         d \<leftarrow> set_cur_byte 0 (d\<lparr>parse_count := push_bit 7 1\<rparr>);
         Some (goto MM_DATA d)
       }
     } else Some (goto MM_DATA d)
   }"

definition in_mm_zero :: "u32 \<Rightarrow> decoder \<Rightarrow> decoder option" where
  "in_mm_zero v d = (if wave d MM_SHORT v then mm_next_bit d else Some (goto UNKNOWN d))"

definition in_mm_one :: "u32 \<Rightarrow> decoder \<Rightarrow> decoder option" where
  "in_mm_one v d =
     (if wave d MM_LONG v then do {
        b \<leftarrow> cur_byte d;
        d \<leftarrow> set_cur_byte (b OR parse_count d) d;
        mm_next_bit d
      }
      else Some (goto UNKNOWN d))"

subsection \<open>One half-wave\<close>

definition process_data :: "u32 \<Rightarrow> decoder \<Rightarrow> decoder option" where
  "process_data v d = (case parse_state d of
       DCC_PACKET_FINISHED \<Rightarrow> in_idle v d
     | MM_PACKET_FINISHED \<Rightarrow> in_idle v d
     | UNKNOWN \<Rightarrow> in_idle v d
     | DCC_PREAMBLE \<Rightarrow> in_preamble v d
     | DCC_END_OF_PREAMBLE \<Rightarrow> in_end_of_preamble v d
     | DCC_DATA \<Rightarrow> in_data v d
     | DCC_DATA_ONE \<Rightarrow> in_data_one v d
     | DCC_DATA_ZERO \<Rightarrow> in_data_zero v d
     | DCC_MAYBE_CUTOUT \<Rightarrow> in_maybe_cutout v d
     | DCC_CUTOUT \<Rightarrow> Some (goto DCC_PACKET_FINISHED d)
     | MM_DATA \<Rightarrow> in_mm_data v d
     | MM_ZERO \<Rightarrow> in_mm_zero v d
     | MM_ONE \<Rightarrow> in_mm_one v d)"

definition before_dcc_cutout :: "decoder \<Rightarrow> bool" where
  "before_dcc_cutout d \<longleftrightarrow> parse_count d = 0 \<and> parse_state d = DCC_DATA_ONE"

fun process_all :: "u32 list \<Rightarrow> decoder \<Rightarrow> decoder option" where
  "process_all [] d = Some d"
| "process_all (v # vs) d = Option.bind (process_data v d) (process_all vs)"

end
