(* ===== verification/DccDecoderInv.thy ===== *)
theory DccDecoderInv
  imports DccDecoder
begin

section \<open>Memory safety of the decoder, and the Marklin states\<close>

text \<open>
  The driver feeds half-waves and, between packets, hands over or withdraws the packet
  to decode into. The invariant shows that no such sequence makes the decoder use the
  null pointer or leave the payload array, and that the Marklin states are never
  reached, because the code that enters them falls through to \<open>parseState_ = UNKNOWN\<close>.
\<close>

subsection \<open>Events\<close>

datatype decoder_event = Wave u32 | Use_packet packet | Withdraw_packet

definition in_packet :: "decoder \<Rightarrow> bool" where
  "in_packet d \<longleftrightarrow> parse_state d \<in> {DCC_DATA, DCC_DATA_ONE, DCC_DATA_ZERO}"

fun handle_event :: "decoder_event \<Rightarrow> decoder \<Rightarrow> decoder option" where
  "handle_event (Wave v) d = process_data v d"
| "handle_event (Use_packet p) d = set_packet (Some p) d"
| "handle_event Withdraw_packet d = set_packet None d"

fun event_legal :: "decoder_event \<Rightarrow> decoder \<Rightarrow> bool" where
  "event_legal (Wave v) d = True"
| "event_legal (Use_packet p) d = packet_wf p"
| "event_legal Withdraw_packet d = (\<not> in_packet d)"

inductive decoder_run :: "decoder \<Rightarrow> decoder \<Rightarrow> bool" for d0 where
  run_refl: "decoder_run d0 d0"
| run_step: "decoder_run d0 d \<Longrightarrow> event_legal e d \<Longrightarrow> handle_event e d = Some d' \<Longrightarrow> decoder_run d0 d'"

subsection \<open>The invariant\<close>

definition mm_state :: "decoder_state \<Rightarrow> bool" where
  "mm_state s \<longleftrightarrow> s \<in> {MM_DATA, MM_ZERO, MM_ONE, MM_PACKET_FINISHED}"

definition decoder_inv :: "decoder \<Rightarrow> bool" where
  "decoder_inv d \<longleftrightarrow> \<not> mm_state (parse_state d) \<and>
     (\<forall>p. pkt d = Some p \<longrightarrow> packet_wf p) \<and>
     (in_packet d \<longrightarrow> have_packet d \<longrightarrow> (\<exists>p. pkt d = Some p \<and> unat (dlc p) < 32))"

lemma goto_fields [simp]:
  "pkt (goto s d) = pkt d" "have_packet (goto s d) = have_packet d" "parse_state (goto s d) = s"
  "timings (goto s d) = timings d" "parse_count (goto s d) = parse_count d"
  "xor_state (goto s d) = xor_state d" "crc_state (goto s d) = crc_state d"
  "check_crc (goto s d) = check_crc d"
  by (simp_all add: goto_def)

lemma wf_array: "packet_wf p \<Longrightarrow> length (payload p) = 32"
  by (simp add: packet_wf_def)

definition cleared :: "packet \<Rightarrow> packet" where
  "cleared p = p\<lparr>header_raw_data := 0, dlc := 0, feedback_key := 0, payload := (payload p)[0 := 0]\<rparr>"

lemma cleared_fields [simp]:
  "packet_wf p \<Longrightarrow> packet_wf (cleared p)" "dlc (cleared p) = 0" "header_raw_data (cleared p) = 0"
  "feedback_key (cleared p) = 0" "packet_wf p \<Longrightarrow> payload (cleared p) ! 0 = 0"
  by (simp_all add: cleared_def packet_wf_def)

lemma clear_packet_Some:
  assumes "pkt d = Some p" "packet_wf p"
  shows "clear_packet d = Some (d\<lparr>pkt := Some (cleared p), check_crc := False, xor_state := 0, crc_state := 0\<rparr>)"
  using assms by (simp add: clear_packet_def wf_array dallas_init_def cleared_def)

lemma header_update_wf [simp]: "packet_wf (p\<lparr>header_raw_data := h\<rparr>) = packet_wf p"
  by (simp add: packet_wf_def)

lemma idle_safe:
  assumes "decoder_inv d"
  shows "\<exists>d'. in_idle v d = Some d' \<and> decoder_inv d'"
proof (cases "wave d DCC_ONE v \<or> \<not> wave d MM_PREAMBLE v \<or> pkt d = None")
  case True
  then show ?thesis
    using assms by (auto simp: in_idle_def decoder_inv_def in_packet_def mm_state_def)
next
  case False
  then obtain p where "pkt d = Some p" "packet_wf p"
    using assms by (auto simp: decoder_inv_def)
  then show ?thesis
    using False by (simp add: in_idle_def clear_packet_Some or_header_def decoder_inv_def
        in_packet_def mm_state_def)
qed

lemma end_of_preamble_safe:
  assumes "decoder_inv d"
  shows "\<exists>d'. in_end_of_preamble v d = Some d' \<and> decoder_inv d'"
proof (cases "pkt d")
  case None
  then show ?thesis
    by (simp add: in_end_of_preamble_def decoder_inv_def in_packet_def mm_state_def Let_def)
next
  case (Some p)
  then have "packet_wf p" using assms by (simp add: decoder_inv_def)
  then show ?thesis
    using Some by (simp add: in_end_of_preamble_def clear_packet_Some [where p = p] or_header_def
        decoder_inv_def in_packet_def mm_state_def Let_def)
qed

lemma cur_byte_Some: "pkt d = Some p \<Longrightarrow> packet_wf p \<Longrightarrow> unat (dlc p) < 32 \<Longrightarrow>
   cur_byte d = Some (payload p ! unat (dlc p))"
  by (simp add: cur_byte_def wf_array)

lemma set_cur_byte_Some: "pkt d = Some p \<Longrightarrow> packet_wf p \<Longrightarrow> unat (dlc p) < 32 \<Longrightarrow>
   set_cur_byte b d = Some (d\<lparr>pkt := Some (p\<lparr>payload := (payload p)[unat (dlc p) := b]\<rparr>)\<rparr>)"
  by (simp add: set_cur_byte_def wf_array)

lemma dlc_suc: "unat (dlc p) < 32 \<Longrightarrow> unat (dlc p + 1) = unat (dlc p) + 1"
  by (simp add: unat_word_ariths)

lemma finish_packet_safe:
  assumes "pkt d = Some p" "packet_wf p" "unat (dlc p) < 32"
  shows "\<exists>d' q. finish_packet d = Some d' \<and> pkt d' = Some q \<and> packet_wf q"
  using assms dlc_suc [of p]
  by (auto simp: finish_packet_def or_header_def cur_byte_def inc_dlc_def wf_array Let_def)
     (auto simp: packet_wf_def)

definition byte_done :: "decoder \<Rightarrow> packet \<Rightarrow> decoder" where
  "byte_done d p =
     (let b = payload p ! unat (dlc p);
          c = (check_crc d \<or> (dlc p = 0 \<and> (payload p ! 0 = 254 \<or> payload p ! 0 = 253)))
      in d\<lparr>xor_state := xor_state d XOR b, check_crc := c,
           crc_state := (if c then dallas_update16 (crc_state d) b else crc_state d)\<rparr>)"

lemma byte_done_fields [simp]:
  "parse_state (byte_done d p) = parse_state d" "have_packet (byte_done d p) = have_packet d"
  "timings (byte_done d p) = timings d" "parse_count (byte_done d p) = parse_count d"
  "xor_state (byte_done d p) = xor_state d XOR payload p ! unat (dlc p)"
  "pkt (byte_done d p) = pkt d"
  by (simp_all add: byte_done_def Let_def)

lemma finish_byte_eq:
  assumes "pkt d = Some p" "packet_wf p" "unat (dlc p) < 32"
  shows "finish_byte d = Some
    (if unat (dlc p) = 31 then (byte_done d p)\<lparr>pkt := Some (p\<lparr>dlc := dlc p + 1\<rparr>), have_packet := False\<rparr>
     else (byte_done d p)\<lparr>pkt := Some (p\<lparr>dlc := dlc p + 1, payload := (payload p)[unat (dlc p) + 1 := 0]\<rparr>)\<rparr>)"
proof -
  have "MAX_PAYLOAD \<le> dlc p + 1 \<longleftrightarrow> unat (dlc p) = 31"
    using assms(3) dlc_suc [OF assms(3)] by (auto simp: word_le_nat_alt MAX_PAYLOAD_def)
  moreover have "finish_byte d = do {
      d \<leftarrow> inc_dlc (byte_done d p);
      p \<leftarrow> pkt d;
      if dlc p \<ge> MAX_PAYLOAD then Some (d\<lparr>have_packet := False\<rparr>) else set_cur_byte 0 d
    }"
  proof -
    have "cur_byte d = Some (payload p ! unat (dlc p))" "array_get (payload p) 0 = Some (payload p ! 0)"
      using assms by (simp_all add: cur_byte_Some wf_array)
    then show ?thesis
      using assms(1) by (cases d) (simp add: finish_byte_def byte_done_def Let_def split del: if_split, auto)
  qed
  ultimately show ?thesis
    using assms dlc_suc [OF assms(3)] wf_array [OF assms(2)]
    by (simp add: inc_dlc_def set_cur_byte_def)
qed

lemma finish_byte_safe:
  assumes "pkt d = Some p" "packet_wf p" "unat (dlc p) < 32"
  shows "\<exists>d' q. finish_byte d = Some d' \<and> pkt d' = Some q \<and> packet_wf q \<and>
     (have_packet d' \<longrightarrow> unat (dlc q) < 32) \<and> parse_state d' = parse_state d"
  using assms dlc_suc [OF assms(3)] by (auto simp: finish_byte_eq packet_wf_def)

lemma data_one_safe:
  assumes "decoder_inv d" "in_packet d"
  shows "\<exists>d'. in_data_one v d = Some d' \<and> decoder_inv d'"
proof (cases "wave d DCC_ONE v \<and> have_packet d")
  case False
  then show ?thesis
    using assms by (auto simp: in_data_one_def decoder_inv_def in_packet_def mm_state_def)
next
  case True
  then obtain p where p: "pkt d = Some p" "packet_wf p" "unat (dlc p) < 32"
    using assms by (auto simp: decoder_inv_def)
  show ?thesis
  proof (cases "parse_count d = 0")
    case True
    obtain d' q where "finish_packet d = Some d'" "pkt d' = Some q" "packet_wf q"
      using finish_packet_safe [OF p] by blast
    then show ?thesis
      using True \<open>wave d DCC_ONE v \<and> have_packet d\<close>
      by (simp add: in_data_one_def decoder_inv_def in_packet_def mm_state_def)
  next
    case False
    then show ?thesis
      using \<open>wave d DCC_ONE v \<and> have_packet d\<close> p
      by (simp add: in_data_one_def cur_byte_Some set_cur_byte_Some decoder_inv_def in_packet_def mm_state_def)
         (simp add: packet_wf_def)
  qed
qed

lemma data_zero_safe:
  assumes "decoder_inv d" "in_packet d"
  shows "\<exists>d'. in_data_zero v d = Some d' \<and> decoder_inv d'"
proof (cases "wave d DCC_ZERO v \<and> have_packet d \<and> parse_count d = 0")
  case False
  then show ?thesis
    using assms by (auto simp: in_data_zero_def decoder_inv_def in_packet_def mm_state_def)
next
  case True
  then obtain p where "pkt d = Some p" "packet_wf p" "unat (dlc p) < 32"
    using assms by (auto simp: decoder_inv_def)
  then obtain d' q where "finish_byte d = Some d'" "pkt d' = Some q" "packet_wf q"
    "have_packet d' \<longrightarrow> unat (dlc q) < 32"
    using finish_byte_safe by blast
  then show ?thesis
    using True by (simp add: in_data_zero_def decoder_inv_def in_packet_def mm_state_def)
qed

lemma process_data_safe:
  assumes "decoder_inv d"
  shows "\<exists>d'. process_data v d = Some d' \<and> decoder_inv d'"
proof (cases "parse_state d")
  case DCC_DATA_ONE
  then show ?thesis
    using data_one_safe [OF assms, of v] by (simp add: process_data_def in_packet_def)
next
  case DCC_DATA_ZERO
  then show ?thesis
    using data_zero_safe [OF assms, of v] by (simp add: process_data_def in_packet_def)
next
  case DCC_DATA
  then show ?thesis
    using assms by (auto simp: process_data_def in_data_def decoder_inv_def in_packet_def mm_state_def)
qed (use assms idle_safe [OF assms, of v] end_of_preamble_safe [OF assms, of v] in
    \<open>auto simp: process_data_def in_preamble_def in_maybe_cutout_def decoder_inv_def in_packet_def mm_state_def\<close>)

lemma set_packet_safe:
  assumes "decoder_inv d"
  shows "packet_wf p \<Longrightarrow> \<exists>d'. set_packet (Some p) d = Some d' \<and> decoder_inv d'"
    and "\<not> in_packet d \<Longrightarrow> \<exists>d'. set_packet None d = Some d' \<and> decoder_inv d'"
  using assms clear_packet_Some [of "d\<lparr>pkt := Some p\<rparr>" p]
  by (simp_all add: set_packet_def decoder_inv_def in_packet_def)

lemma event_safe:
  "decoder_inv d \<Longrightarrow> event_legal e d \<Longrightarrow> \<exists>d'. handle_event e d = Some d' \<and> decoder_inv d'"
  using process_data_safe set_packet_safe by (cases e) auto

lemma run_inv: "decoder_run d0 d \<Longrightarrow> decoder_inv d0 \<Longrightarrow> decoder_inv d"
proof (induction rule: decoder_run.induct)
  case (run_step d e d')
  then show ?case using event_safe [of d e] by auto
qed

lemma new_decoder_inv: "decoder_inv (new_decoder t d0)"
  by (simp add: new_decoder_def decoder_inv_def in_packet_def mm_state_def)

text \<open>C16: A fresh decoder, in whatever memory it was constructed, that is fed any half-waves and is
  given packets at any time and deprived of them outside a packet, never uses the null
  pointer and never leaves the payload array, and its packet stays well formed.\<close>

theorem decoder_memory_safe:
  assumes "decoder_run (new_decoder t d0) d" "event_legal e d"
  shows "\<exists>d'. handle_event e d = Some d' \<and> (\<forall>p. pkt d' = Some p \<longrightarrow> packet_wf p)"
  using event_safe [OF run_inv [OF assms(1) new_decoder_inv] assms(2)]
  by (auto simp: decoder_inv_def)

text \<open>The Marklin states are unreachable: the branch that starts a Marklin packet falls through
  to the assignment of \<open>UNKNOWN\<close>, so no sequence of half-waves is ever decoded as one.\<close>

theorem marklin_never_decoded:
  assumes "decoder_run (new_decoder t d0) d"
  shows "parse_state d \<notin> {MM_DATA, MM_ZERO, MM_ONE, MM_PACKET_FINISHED}"
  using run_inv [OF assms new_decoder_inv] by (simp add: decoder_inv_def mm_state_def)

definition zero_memory :: decoder where
  "zero_memory = \<lparr>parse_count = 0, have_packet = False, check_crc = False, xor_state = 0, crc_state = 0,
     parse_state = UNKNOWN, pkt = None, timings = (\<lambda>_. \<lparr>min_value = 0, max_value = 0\<rparr>)\<rparr>"

theorem decoder_memory_safe_witness:
  "\<exists>d'. handle_event (Use_packet packet_clear) (new_decoder 1 zero_memory) = Some d' \<and>
     (\<forall>p. pkt d' = Some p \<longrightarrow> packet_wf p)"
  by (rule decoder_memory_safe [OF run_refl])
     (simp add: packet_wf_def packet_clear_def MAX_PAYLOAD_def)

theorem marklin_never_decoded_witness:
  "parse_state (new_decoder 1 zero_memory) \<notin> {MM_DATA, MM_ZERO, MM_ONE, MM_PACKET_FINISHED}"
  by (rule marklin_never_decoded [OF run_refl])

end
