(* ===== verification/DccDecoderRun.thy ===== *)
theory DccDecoderRun
  imports DccDecoderInv DccRoundtrip
begin

section \<open>Decoding a packet from the track\<close>

text \<open>
  The signal of a packet as the DCC standard has it: each bit is two half-waves of its
  length, bytes are sent from the highest bit, a zero bit stands before each byte and a
  one bit after the last. The decoder takes any half-waves within its tolerances.
\<close>

subsection \<open>The signal\<close>

definition byte_bits :: "u8 \<Rightarrow> bool list" where
  "byte_bits b = map (bit b) [7, 6, 5, 4, 3, 2, 1, 0]"

fun packet_bits :: "u8 list \<Rightarrow> bool list" where
  "packet_bits [] = [True]"
| "packet_bits (b # bs) = False # byte_bits b @ packet_bits bs"

definition half_wave :: "(timing_info \<Rightarrow> timing) \<Rightarrow> bool \<Rightarrow> u32 \<Rightarrow> bool" where
  "half_wave T b v \<longleftrightarrow> timing_match (T (if b then DCC_ONE else DCC_ZERO)) v"

fun signal :: "(timing_info \<Rightarrow> timing) \<Rightarrow> bool list \<Rightarrow> u32 list \<Rightarrow> bool" where
  "signal T [] ws = (ws = [])"
| "signal T (b # bs) ws = (case ws of x # y # vs \<Rightarrow> half_wave T b x \<and> half_wave T b y \<and> signal T bs vs
                                     | _ \<Rightarrow> False)"

definition good_timings :: "(timing_info \<Rightarrow> timing) \<Rightarrow> bool" where
  "good_timings T \<longleftrightarrow> (\<forall>v. \<not> (timing_match (T DCC_ONE) v \<and> timing_match (T DCC_ZERO) v))"

lemma signal_append:
  "signal T (bs @ cs) ws \<Longrightarrow> \<exists>us vs. ws = us @ vs \<and> signal T bs us \<and> signal T cs vs"
proof (induction T bs ws rule: signal.induct)
  case (1 T ws)
  then show ?case by auto
next
  case (2 T b bs ws)
  then obtain x y vs where ws: "ws = x # y # vs" "half_wave T b x" "half_wave T b y" "signal T (bs @ cs) vs"
    by (auto split: list.splits)
  then obtain us vs' where "vs = us @ vs'" "signal T bs us" "signal T cs vs'"
    using 2(1) by blast
  with ws show ?case by (intro exI [of _ "x # y # us"] exI [of _ vs']) auto
qed

lemma process_all_append:
  "process_all (us @ vs) d = Option.bind (process_all us d) (process_all vs)"
  by (induction us d rule: process_all.induct) (auto simp: bind_eq_None_conv split: Option.bind_splits)

subsection \<open>The state while the bytes arrive\<close>

definition logon_first :: "u8 list \<Rightarrow> bool" where
  "logon_first bs \<longleftrightarrow> bs \<noteq> [] \<and> (bs ! 0 = 254 \<or> bs ! 0 = 253)"

definition receiving :: "(timing_info \<Rightarrow> timing) \<Rightarrow> u8 list \<Rightarrow> u8 \<Rightarrow> u8 \<Rightarrow> decoder \<Rightarrow> bool" where
  "receiving T bs cur cnt d \<longleftrightarrow>
     parse_state d = DCC_DATA \<and> have_packet d \<and> parse_count d = cnt \<and> timings d = T \<and>
     xor_state d = xor_loop bs 0 \<and> check_crc d = logon_first bs \<and>
     crc_state d = (if logon_first bs then crc_loop bs 0 else 0) \<and>
     (\<exists>p. pkt d = Some p \<and> packet_wf p \<and> header_raw_data p = 4 \<and> feedback_key p = 0 \<and>
          used_bytes p = bs \<and> unat (dlc p) = length bs \<and> length bs < 32 \<and> payload p ! length bs = cur)"

lemma receivingE:
  assumes "receiving T bs cur cnt d"
  obtains p where "parse_state d = DCC_DATA" "have_packet d" "parse_count d = cnt" "timings d = T"
    "xor_state d = xor_loop bs 0" "check_crc d = logon_first bs"
    "crc_state d = (if logon_first bs then crc_loop bs 0 else 0)"
    "pkt d = Some p" "packet_wf p" "header_raw_data p = 4" "feedback_key p = 0" "used_bytes p = bs"
    "unat (dlc p) = length bs" "length bs < 32" "payload p ! length bs = cur"
  using assms by (auto simp: receiving_def)

lemma bit_one:
  assumes "receiving T bs cur cnt d" "cnt \<noteq> 0" "half_wave T True x" "half_wave T True y"
  shows "\<exists>d'. process_all [x, y] d = Some d' \<and> receiving T bs (cur OR cnt) (drop_bit 1 cnt) d'"
proof -
  from assms(1) obtain p where d: "parse_state d = DCC_DATA" "have_packet d" "parse_count d = cnt" "timings d = T"
    "xor_state d = xor_loop bs 0" "check_crc d = logon_first bs"
    "crc_state d = (if logon_first bs then crc_loop bs 0 else 0)"
    and p: "pkt d = Some p" "packet_wf p" "header_raw_data p = 4" "feedback_key p = 0" "used_bytes p = bs"
    "unat (dlc p) = length bs" "length bs < 32" "payload p ! length bs = cur"
    by (rule receivingE)
  have w: "wave d DCC_ONE x" "wave d DCC_ONE y"
    using assms(3,4) d by (simp_all add: wave_def half_wave_def)
  have 1: "process_data x d = Some (goto DCC_DATA_ONE d)"
    using d w by (simp add: process_data_def in_data_def)
  let ?p = "p\<lparr>payload := (payload p)[length bs := cur OR cnt]\<rparr>"
  have "process_data y (goto DCC_DATA_ONE d) =
      Some (goto DCC_DATA ((goto DCC_DATA_ONE d)\<lparr>pkt := Some ?p, parse_count := drop_bit 1 cnt\<rparr>))"
    using d w p assms(2)
    by (simp add: process_data_def in_data_one_def wave_def cur_byte_Some [where p = p] set_cur_byte_Some [where p = p])
  moreover have "receiving T bs (cur OR cnt) (drop_bit 1 cnt)
      (goto DCC_DATA ((goto DCC_DATA_ONE d)\<lparr>pkt := Some ?p, parse_count := drop_bit 1 cnt\<rparr>))"
    using d p by (simp add: receiving_def packet_wf_def used_bytes_def)
  ultimately show ?thesis by (simp add: 1)
qed

lemma bit_zero:
  assumes "receiving T bs cur cnt d" "good_timings T" "cnt \<noteq> 0" "half_wave T False x" "half_wave T False y"
  shows "\<exists>d'. process_all [x, y] d = Some d' \<and> receiving T bs cur (drop_bit 1 cnt) d'"
proof -
  from assms(1) have d: "parse_state d = DCC_DATA" "parse_count d = cnt" "timings d = T"
    by (simp_all add: receiving_def)
  have w: "wave d DCC_ZERO x" "\<not> wave d DCC_ONE x" "wave d DCC_ZERO y"
    using assms(2,4,5) d by (auto simp: wave_def half_wave_def good_timings_def)
  have "process_all [x, y] d = Some (goto DCC_DATA ((goto DCC_DATA_ZERO d)\<lparr>parse_count := drop_bit 1 cnt\<rparr>))"
    using d w assms(3) by (simp add: process_data_def in_data_def in_data_zero_def wave_def)
  moreover have "receiving T bs cur (drop_bit 1 cnt)
      (goto DCC_DATA ((goto DCC_DATA_ZERO d)\<lparr>parse_count := drop_bit 1 cnt\<rparr>))"
    using assms(1) by (simp add: receiving_def)
  ultimately show ?thesis by blast
qed

lemma bit_any:
  assumes "receiving T bs cur cnt d" "good_timings T" "cnt \<noteq> 0" "signal T [b] ws"
  shows "\<exists>d'. process_all ws d = Some d' \<and>
     receiving T bs (if b then cur OR cnt else cur) (drop_bit 1 cnt) d'"
proof -
  obtain x y where "ws = [x, y]" "half_wave T b x" "half_wave T b y"
    using assms(4) by (auto split: list.splits)
  then show ?thesis
    using bit_one [OF assms(1,3), of x y] bit_zero [OF assms(1-3), of x y] by (cases b) auto
qed

text \<open>The bits of a byte, from the mask \<open>cnt\<close> down.\<close>

fun gather :: "bool list \<Rightarrow> u8 \<Rightarrow> u8 \<Rightarrow> u8" where
  "gather [] cur cnt = cur"
| "gather (b # bs) cur cnt = gather bs (if b then cur OR cnt else cur) (drop_bit 1 cnt)"

lemma some_bits:
  assumes "receiving T bs cur cnt d" "good_timings T" "\<forall>i < length cs. drop_bit i cnt \<noteq> 0" "signal T cs ws"
  shows "\<exists>d'. process_all ws d = Some d' \<and> receiving T bs (gather cs cur cnt) (drop_bit (length cs) cnt) d'"
  using assms
proof (induction cs arbitrary: cur cnt d ws)
  case Nil
  then show ?case by simp
next
  case (Cons c cs)
  obtain us vs where ws: "ws = us @ vs" "signal T [c] us" "signal T cs vs"
    using signal_append [of T "[c]" cs ws] Cons.prems(4) by auto
  have "cnt \<noteq> 0" using Cons.prems(3) by (auto dest: spec [of _ 0])
  then obtain e where e: "process_all us d = Some e"
    "receiving T bs (if c then cur OR cnt else cur) (drop_bit 1 cnt) e"
    using bit_any [OF Cons.prems(1,2) _ ws(2)] by blast
  have "\<forall>i < length cs. drop_bit i (drop_bit 1 cnt) \<noteq> 0"
    using Cons.prems(3) by (auto simp: dest: spec [of _ "Suc _"])
  from Cons.IH [OF e(2) Cons.prems(2) this ws(3)] show ?case
    using e(1) by (auto simp: ws(1) process_all_append)
qed

lemma or_if: "(if c then x OR k else x) = x OR (if c then k else (0 :: u8))"
  by simp

lemma bit_if: "bit (if c then k else 0) j \<longleftrightarrow> c \<and> bit (k :: u8) j"
  by simp

lemma gather_byte: "gather (byte_bits b) 0 0x80 = b"
proof -
  have "gather (byte_bits b) 0 0x80 =
    ((((((((if bit b 7 then 0x80 else 0) OR (if bit b 6 then 0x40 else 0)) OR (if bit b 5 then 0x20 else 0)) OR
      (if bit b 4 then 0x10 else 0)) OR (if bit b 3 then 8 else 0)) OR (if bit b 2 then 4 else 0)) OR
      (if bit b 1 then 2 else 0)) OR (if bit b 0 then 1 else 0))"
    (is "_ = ?e")
    unfolding byte_bits_def list.map gather.simps or_if by simp
  also have "?e = b"
  proof (rule bit_word_eqI)
    fix j assume "j < LENGTH(8)"
    then have "j = 0 \<or> j = 1 \<or> j = 2 \<or> j = 3 \<or> j = 4 \<or> j = 5 \<or> j = 6 \<or> j = 7"
      using below_8 [of j] by simp
    then show "bit ?e j = bit b j"
      unfolding bit_or_iff bit_if by (elim disjE; simp)
  qed
  finally show ?thesis .
qed

lemma one_byte:
  assumes "receiving T bs 0 0x80 d" "good_timings T" "signal T (byte_bits b) ws"
  shows "\<exists>d'. process_all ws d = Some d' \<and> receiving T bs b 0 d'"
proof -
  have "\<forall>i < length (byte_bits b). drop_bit i (0x80 :: u8) \<noteq> 0"
  proof (intro allI impI)
    fix i assume "i < length (byte_bits b)"
    then have "i < 8" by (simp add: byte_bits_def)
    then show "drop_bit i (0x80 :: u8) \<noteq> 0" by (elim disjE [OF below_8] disjE; simp)
  qed
  moreover have "drop_bit (length (byte_bits b)) (0x80 :: u8) = 0" by (simp add: byte_bits_def)
  ultimately show ?thesis
    using some_bits [OF assms(1,2) _ assms(3)] by (simp add: gather_byte)
qed

lemma logon_first_snoc: "logon_first (bs @ [b]) \<longleftrightarrow> logon_first bs \<or> (bs = [] \<and> (b = 254 \<or> b = 253))"
  by (cases bs) (auto simp: logon_first_def)

lemma byte_boundary:
  assumes "receiving T bs b 0 d" "good_timings T" "length bs < 31" "signal T [False] ws"
  shows "\<exists>d'. process_all ws d = Some d' \<and> receiving T (bs @ [b]) 0 0x80 d'"
proof -
  from assms(1) obtain p where d: "parse_state d = DCC_DATA" "have_packet d" "parse_count d = 0" "timings d = T"
    "xor_state d = xor_loop bs 0" "check_crc d = logon_first bs"
    "crc_state d = (if logon_first bs then crc_loop bs 0 else 0)"
    and p: "pkt d = Some p" "packet_wf p" "header_raw_data p = 4" "feedback_key p = 0" "used_bytes p = bs"
    "unat (dlc p) = length bs" "length bs < 32" "payload p ! length bs = b"
    by (rule receivingE)
  obtain x y where ws: "ws = [x, y]" "half_wave T False x" "half_wave T False y"
    using assms(4) by (auto split: list.splits)
  have w: "wave d DCC_ZERO x" "\<not> wave d DCC_ONE x" "wave d DCC_ZERO y"
    using assms(2) ws d by (auto simp: wave_def half_wave_def good_timings_def)
  let ?d = "goto DCC_DATA_ZERO d"
  let ?p = "p\<lparr>dlc := dlc p + 1, payload := (payload p)[length bs + 1 := 0]\<rparr>"
  have 1: "process_data x d = Some ?d"
    using d w by (simp add: process_data_def in_data_def)
  have f: "finish_byte ?d = Some ((byte_done ?d p)\<lparr>pkt := Some ?p\<rparr>)"
    using p assms(3) finish_byte_eq [of ?d p] by simp
  let ?e = "goto DCC_DATA ((byte_done ?d p)\<lparr>pkt := Some ?p, parse_count := 0x80\<rparr>)"
  have 2: "process_data y ?d = Some ?e"
    using d w by (simp add: process_data_def in_data_zero_def f wave_def)
  have dlc0: "dlc p = 0 \<longleftrightarrow> bs = []" using p(6) by (auto simp: unat_eq_0)
  have c: "check_crc ?e = logon_first (bs @ [b])"
    using d p by (auto simp: byte_done_def Let_def logon_first_snoc dlc0)
  have crc: "crc_state ?e = (if logon_first (bs @ [b]) then crc_loop (bs @ [b]) 0 else 0)"
    using d p c by (cases "bs = []") (auto simp: byte_done_def Let_def crc_loop_append logon_first_snoc dlc0
        logon_first_def)
  have u: "unat (dlc p + 1) = length bs + 1" using dlc_suc [of p] p by simp
  have "used_bytes ?p = bs @ [b]"
    using p u wf_array [OF p(2)] by (simp add: used_bytes_def take_Suc_conv_app_nth)
  then have "receiving T (bs @ [b]) 0 0x80 ?e"
    using d p u c crc assms(3) wf_array [OF p(2)]
    by (simp add: receiving_def packet_wf_def xor_loop_append)
  then show ?thesis using 1 2 by (simp add: ws(1))
qed

definition received :: "u8 list \<Rightarrow> packet \<Rightarrow> bool" where
  "received bs p \<longleftrightarrow> packet_wf p \<and> used_bytes p = bs \<and> unat (dlc p) = length bs \<and> feedback_key p = 0 \<and>
     header_raw_data p =
       (if xor_loop bs 0 \<noteq> 0 \<or> (logon_first bs \<and> length bs > 7 \<and> crc_loop (butlast bs) 0 \<noteq> 0)
        then 0x84 else 4)"

lemma last_bit:
  assumes "receiving T bs b 0 d" "good_timings T" "signal T [True] ws"
  shows "\<exists>d' q. process_all ws d = Some d' \<and> parse_state d' = DCC_MAYBE_CUTOUT \<and> timings d' = T \<and>
     pkt d' = Some q \<and> received (bs @ [b]) q"
proof -
  from assms(1) obtain p where d: "parse_state d = DCC_DATA" "have_packet d" "parse_count d = 0" "timings d = T"
    "xor_state d = xor_loop bs 0" "check_crc d = logon_first bs"
    "crc_state d = (if logon_first bs then crc_loop bs 0 else 0)"
    and p: "pkt d = Some p" "packet_wf p" "header_raw_data p = 4" "feedback_key p = 0" "used_bytes p = bs"
    "unat (dlc p) = length bs" "length bs < 32" "payload p ! length bs = b"
    by (rule receivingE)
  obtain x y where ws: "ws = [x, y]" "half_wave T True x" "half_wave T True y"
    using assms(3) by (auto split: list.splits)
  have w: "wave d DCC_ONE x" "wave d DCC_ONE y"
    using ws d by (auto simp: wave_def half_wave_def)
  let ?bad = "logon_first bs \<and> length bs > 6 \<and> crc_loop bs 0 \<noteq> 0"
  have six: "dlc p > 6 \<longleftrightarrow> length bs > 6" using p(6) by (simp add: word_less_nat_alt)
  have x: "xor_loop bs 0 XOR b = xor_loop (bs @ [b]) 0" by (simp add: xor_loop_append)
  let ?q = "p\<lparr>header_raw_data := (if ?bad \<or> xor_loop (bs @ [b]) 0 \<noteq> 0 then 0x84 else 4), dlc := dlc p + 1\<rparr>"
  have f: "\<exists>e. finish_packet (goto DCC_DATA_ONE d) = Some e \<and> pkt e = Some ?q \<and> timings e = T"
    using d p six wf_array [OF p(2)]
    by (auto simp: finish_packet_def or_header_def cur_byte_def inc_dlc_def x dallas_check_ok_def Let_def)
  then obtain e where e: "finish_packet (goto DCC_DATA_ONE d) = Some e" "pkt e = Some ?q" "timings e = T"
    by blast
  have "process_all ws d = Some (goto DCC_MAYBE_CUTOUT e)"
    using d w e by (simp add: ws(1) process_data_def in_data_def in_data_one_def wave_def)
  moreover have u: "unat (dlc p + 1) = length bs + 1" using dlc_suc [of p] p by simp
  have "used_bytes ?q = bs @ [b]"
    using p u wf_array [OF p(2)] by (simp add: used_bytes_def take_Suc_conv_app_nth)
  moreover have "logon_first (bs @ [b]) \<longleftrightarrow> logon_first bs" if "length bs > 6"
    using that by (auto simp: logon_first_snoc)
  ultimately have "received (bs @ [b]) ?q"
    using p u by (auto simp: received_def packet_wf_def)
  then show ?thesis
    using \<open>process_all ws d = Some (goto DCC_MAYBE_CUTOUT e)\<close> e by auto
qed

lemma remaining_bytes:
  assumes "receiving T done 0 0x80 d" "good_timings T" "signal T (byte_bits b @ packet_bits rest) ws"
    "length done + length rest < 32"
  shows "\<exists>d' q. process_all ws d = Some d' \<and> parse_state d' = DCC_MAYBE_CUTOUT \<and> timings d' = T \<and>
     pkt d' = Some q \<and> received (done @ b # rest) q"
  using assms
proof (induction rest arbitrary: "done" b d ws)
  case Nil
  obtain us vs where ws: "ws = us @ vs" "signal T (byte_bits b) us" "signal T [True] vs"
    using signal_append [of T "byte_bits b" "packet_bits []" ws] Nil.prems(3) by auto
  obtain e where e: "process_all us d = Some e" "receiving T done b 0 e"
    using one_byte [OF Nil.prems(1,2) ws(2)] by blast
  then show ?case
    using last_bit [OF e(2) Nil.prems(2) ws(3)] by (simp add: ws(1) process_all_append)
next
  case (Cons c rest)
  obtain us vs where ws: "ws = us @ vs" "signal T (byte_bits b) us" "signal T ([False] @ (byte_bits c @ packet_bits rest)) vs"
    using signal_append [of T "byte_bits b" "packet_bits (c # rest)" ws] Cons.prems(3) by auto
  obtain xs ys where vs: "vs = xs @ ys" "signal T [False] xs" "signal T (byte_bits c @ packet_bits rest) ys"
    using signal_append [OF ws(3)] by blast
  obtain e where e: "process_all us d = Some e" "receiving T done b 0 e"
    using one_byte [OF Cons.prems(1,2) ws(2)] by blast
  have "length done < 31" using Cons.prems(4) by simp
  then obtain f where f: "process_all xs e = Some f" "receiving T (done @ [b]) 0 0x80 f"
    using byte_boundary [OF e(2) Cons.prems(2) _ vs(2)] by blast
  show ?case
    using Cons.IH [OF f(2) Cons.prems(2) vs(3)] Cons.prems(4) e(1) f(1)
    by (simp add: ws(1) vs(1) process_all_append)
qed

subsection \<open>The preamble\<close>

lemma preamble_count:
  "parse_state d = DCC_PREAMBLE \<Longrightarrow> timings d = T \<Longrightarrow> \<forall>v\<in>set ws. half_wave T True v \<Longrightarrow>
   process_all ws d = Some (d\<lparr>parse_count := parse_count d + of_nat (length ws)\<rparr>)"
proof (induction ws arbitrary: d)
  case Nil
  then show ?case by simp
next
  case (Cons w ws)
  have "process_data w d = Some (d\<lparr>parse_count := parse_count d + 1\<rparr>)"
    using Cons.prems by (simp add: process_data_def in_preamble_def wave_def half_wave_def)
  then show ?case
    using Cons.IH [of "d\<lparr>parse_count := parse_count d + 1\<rparr>"] Cons.prems by (simp add: ac_simps)
qed

lemma start_bit:
  assumes "parse_state d \<in> {UNKNOWN, DCC_PACKET_FINISHED}" "timings d = T" "good_timings T"
    and "pkt d = Some p" "packet_wf p"
    and "pre \<noteq> []" "\<forall>v\<in>set pre. half_wave T True v" "20 \<le> (length pre - 1) mod 256"
    and "signal T [False] ws"
  shows "\<exists>d'. process_all (pre @ ws) d = Some d' \<and> receiving T [] 0 0x80 d'"
proof -
  obtain v vs where pre: "pre = v # vs" using assms(6) by (cases pre) auto
  obtain x y where ws: "ws = [x, y]" "half_wave T False x" "half_wave T False y"
    using assms(9) by (auto split: list.splits)
  let ?a = "goto DCC_PREAMBLE (d\<lparr>parse_count := 0\<rparr>)"
  have 1: "process_data v d = Some ?a"
    using assms(1,2,7) by (auto simp: pre process_data_def in_idle_def wave_def half_wave_def)
  let ?b = "?a\<lparr>parse_count := of_nat (length vs)\<rparr>"
  have 2: "process_all vs ?a = Some ?b"
    using preamble_count [of ?a T vs] assms(2,7) by (simp add: pre)
  have "20 \<le> (of_nat (length vs) :: u8)"
    using assms(8) by (simp add: pre word_le_nat_alt unat_of_nat)
  then have 3: "process_data x ?b = Some (goto DCC_END_OF_PREAMBLE ?b)"
    using assms(2,3) ws by (auto simp: process_data_def in_preamble_def wave_def half_wave_def good_timings_def)
  let ?c = "goto DCC_END_OF_PREAMBLE ?b"
  let ?e = "(goto DCC_DATA ?c)\<lparr>parse_count := 0x80, xor_state := 0, crc_state := 0\<rparr>"
  let ?f = "?e\<lparr>pkt := Some ((cleared p)\<lparr>header_raw_data := 4\<rparr>), check_crc := False, have_packet := True\<rparr>"
  have "clear_packet ?e = Some (?e\<lparr>pkt := Some (cleared p), check_crc := False\<rparr>)"
    using clear_packet_Some [of ?e p] assms(4,5) by simp
  then have "process_data y ?c = Some ?f"
    using assms(2,4) ws(3)
    by (simp add: process_data_def in_end_of_preamble_def wave_def half_wave_def or_header_def
        dallas_init_def Let_def)
  moreover have "receiving T [] 0 0x80 ?f"
    using assms(2,5) by (simp add: receiving_def logon_first_def used_bytes_def)
  ultimately show ?thesis
    using 1 2 3 by (auto simp: pre ws(1) process_all_append)
qed

lemma decoder_receives:
  assumes "parse_state d \<in> {UNKNOWN, DCC_PACKET_FINISHED}" "good_timings (timings d)"
    and "pkt d = Some p" "packet_wf p"
    and "pre \<noteq> []" "\<forall>v\<in>set pre. half_wave (timings d) True v" "20 \<le> (length pre - 1) mod 256"
    and "signal (timings d) (packet_bits bs) ws" "bs \<noteq> []" "length bs \<le> 32"
  shows "\<exists>d' q. process_all (pre @ ws) d = Some d' \<and> parse_state d' = DCC_MAYBE_CUTOUT \<and>
     pkt d' = Some q \<and> received bs q"
proof -
  obtain b rest where bs: "bs = b # rest" using assms(9) by (cases bs) auto
  obtain us vs where ws: "ws = us @ vs" "signal (timings d) [False] us"
    "signal (timings d) (byte_bits b @ packet_bits rest) vs"
    using signal_append [of "timings d" "[False]" "byte_bits b @ packet_bits rest" ws] assms(8)
    by (auto simp: bs)
  obtain e where e: "process_all (pre @ us) d = Some e" "receiving (timings d) [] 0 0x80 e"
    using start_bit [OF assms(1) refl assms(2-7) ws(2)] by blast
  obtain d' q where "process_all vs e = Some d'" "parse_state d' = DCC_MAYBE_CUTOUT" "pkt d' = Some q"
    "received bs q"
    using remaining_bytes [OF e(2) assms(2) ws(3)] assms(10) by (auto simp: bs)
  moreover have "process_all (pre @ ws) d = Option.bind (process_all (pre @ us) d) (process_all vs)"
    using process_all_append [of "pre @ us" vs d] by (simp add: ws(1))
  ultimately show ?thesis
    using e(1) by auto
qed

text \<open>C33: The decoder receives exactly the bytes that are sent: from an idle decoder with a packet
  to fill, any half-waves within tolerance that form a preamble and then the bits of 1 to
  32 bytes leave a packet with those bytes. The checksum error is flagged exactly when the
  exclusive or of the bytes is not zero or, in the logon partitions from eight bytes on,
  the CRC-8 fails. The preamble is counted in eight bits.\<close>

theorem decoder_receives_packet:
  assumes "parse_state d \<in> {UNKNOWN, DCC_PACKET_FINISHED}" "good_timings (timings d)"
    and "pkt d = Some p" "packet_wf p"
    and "pre \<noteq> []" "\<forall>v\<in>set pre. half_wave (timings d) True v" "20 \<le> (length pre - 1) mod 256"
    and "signal (timings d) (packet_bits bs) ws" "bs \<noteq> []" "length bs \<le> 32"
  shows "\<exists>d' q. process_all (pre @ ws) d = Some d' \<and> parse_state d' = DCC_MAYBE_CUTOUT \<and>
     pkt d' = Some q \<and> received bs q"
  by (rule decoder_receives [OF assms])

subsection \<open>From the packet builder to the decoder\<close>

lemma word_times: "unat (t :: u32) * k < 2 ^ 32 \<Longrightarrow> unat (t * of_nat k) = unat t * k"
  by (cases "k < 2 ^ 32") (auto simp: unat_word_ariths unat_of_nat, cases "unat t", auto simp: unat_eq_0)

lemma constructed_timings:
  assumes "0 < t" "t \<le> 400000"
  shows "good_timings (timings (new_decoder t d0))"
proof -
  have t: "0 < unat t" "unat t \<le> 400000"
    using assms by (auto simp: word_less_nat_alt word_le_nat_alt)
  have "unat (t * 64) = unat t * 64" "unat (t * 95) = unat t * 95"
    using word_times [of t 64] word_times [of t 95] t by simp_all
  then have "t * 64 < t * 95"
    using t(1) by (simp add: word_less_nat_alt)
  then show ?thesis
    by (auto simp: good_timings_def new_decoder_def timing_set_def timing_match_def)
qed

lemma sealed_received:
  assumes "received (m @ check_bytes m) q" "m \<noteq> []"
  shows "header_raw_data q = 4"
proof -
  have "crc_loop (butlast (m @ check_bytes m)) 0 = 0"
    if "logon_first (m @ check_bytes m)" "length (m @ check_bytes m) > 7"
  proof -
    have "m ! 0 = 254 \<or> m ! 0 = 253"
      using that(1) assms(2) by (auto simp: logon_first_def nth_append)
    moreover have "length m \<ge> 6"
      using that(2) by (simp add: check_bytes_length split: if_splits)
    ultimately have "is_logon_message m"
      by (auto simp: is_logon_message_def ADDRESS_LOGON_def ADDRESS_EXT_def)
    then show ?thesis
      by (simp add: check_bytes_def Let_def butlast_append crc_loop_append dallas_init_def dallas_16_eq)
  qed
  then show ?thesis
    using assms(1) xor_check_bytes [of m] by (auto simp: received_def)
qed

text \<open>C10: Builder, track and decoder agree: when a message of at least one byte is sealed by
  \<open>add_dcc_checksum\<close> and its bytes go over the track within the tolerances, a decoder
  just constructed (for a timer of 1 to 400000 ticks per microsecond) and given a packet
  to fill ends the packet with the very bytes of the sealed one, marked as complete and
  without a checksum error.\<close>

theorem sealed_packet_arrives:
  assumes "packet_wf p" "used_bytes p \<noteq> []" "add_dcc_checksum p = Some s"
    and "0 < t" "t \<le> 400000" "packet_wf r" "set_packet (Some r) (new_decoder t d0) = Some d"
    and "pre \<noteq> []" "\<forall>v\<in>set pre. half_wave (timings d) True v" "20 \<le> (length pre - 1) mod 256"
    and "signal (timings d) (packet_bits (used_bytes s)) ws"
  shows "\<exists>d' q. process_all (pre @ ws) d = Some d' \<and> parse_state d' = DCC_MAYBE_CUTOUT \<and>
     pkt d' = Some q \<and> used_bytes q = used_bytes s \<and> hdr_skip_ec q \<and> \<not> hdr_csum_error q"
proof -
  let ?m = "used_bytes p"
  have d: "parse_state d = UNKNOWN" "timings d = timings (new_decoder t d0)" "pkt d = Some (cleared r)"
    using assms(6,7) clear_packet_Some [of "(new_decoder t d0)\<lparr>pkt := Some r\<rparr>" r]
    by (auto simp: set_packet_def new_decoder_def)
  have room: "unat (dlc p) + length (check_bytes ?m) \<le> 32"
    and "s = set_skip_ec (add_bytes (check_bytes ?m) p)"
    using assms(1,3) by (auto simp: add_dcc_checksum_eq split: if_splits)
  then have s: "used_bytes s = ?m @ check_bytes ?m"
    using assms(1) by (simp add: used_bytes_extend)
  moreover have "length ?m + length (check_bytes ?m) \<le> 32"
    using room assms(1) by (simp add: used_bytes_length)
  ultimately obtain d' q where q: "process_all (pre @ ws) d = Some d'" "parse_state d' = DCC_MAYBE_CUTOUT"
    "pkt d' = Some q" "received (?m @ check_bytes ?m) q"
    using decoder_receives [of d "cleared r" pre "used_bytes s" ws] d constructed_timings [OF assms(4,5), of d0]
      assms(2,6,8-11) by auto
  have "header_raw_data q = 4" "used_bytes q = used_bytes s"
    using sealed_received [OF q(4) assms(2)] q(4) by (simp_all add: s received_def)
  then show ?thesis
    using q(1-3) by (simp add: hdr_skip_ec_def hdr_csum_error_def)
qed

text \<open>Half-waves of 58 and 100 microseconds on a timer of one tick per microsecond.\<close>

definition nominal :: "bool list \<Rightarrow> u32 list" where
  "nominal bs = concat (map (\<lambda>b. if b then [58, 58] else [100, 100]) bs)"

lemma nominal_signal:
  "half_wave T True 58 \<Longrightarrow> half_wave T False 100 \<Longrightarrow> signal T bs (nominal bs)"
  by (induction bs) (auto simp: nominal_def)

definition ready :: decoder where
  "ready = (new_decoder 1 zero_memory)\<lparr>pkt := Some (cleared packet_clear), check_crc := False,
     xor_state := 0, crc_state := 0\<rparr>"

lemma packet_clear_wf: "packet_wf packet_clear"
  by (simp add: packet_wf_def packet_clear_def MAX_PAYLOAD_def)

lemma ready_facts:
  "set_packet (Some packet_clear) (new_decoder 1 zero_memory) = Some ready"
  "parse_state ready = UNKNOWN" "pkt ready = Some (cleared packet_clear)"
  "timings ready = timings (new_decoder 1 zero_memory)"
  "half_wave (timings (new_decoder 1 zero_memory)) True 58"
  "half_wave (timings (new_decoder 1 zero_memory)) False 100"
  using clear_packet_Some [of "(new_decoder 1 zero_memory)\<lparr>pkt := Some packet_clear\<rparr>" packet_clear]
    packet_clear_wf
  by (simp_all add: ready_def set_packet_def new_decoder_def half_wave_def timing_set_def timing_match_def)

theorem decoder_receives_packet_witness:
  "\<exists>d' q. process_all (replicate 24 58 @ nominal (packet_bits [0xFF, 0, 0xFF])) ready = Some d' \<and>
     parse_state d' = DCC_MAYBE_CUTOUT \<and> pkt d' = Some q \<and> received [0xFF, 0, 0xFF] q"
  by (rule decoder_receives_packet [where p = "cleared packet_clear"])
     (simp_all add: ready_facts constructed_timings packet_clear_wf nominal_signal del: signal.simps packet_bits.simps)

definition idle_message :: packet where
  "idle_message = add_bytes [0xFF, 0] packet_clear"

lemma idle_message_facts: "packet_wf idle_message" "used_bytes idle_message = [0xFF, 0]"
  "\<not> hdr_skip_ec idle_message" "dlc idle_message = 2"
  using packet_wf_extend [of packet_clear "[0xFF, 0]"] used_bytes_extend [of packet_clear "[0xFF, 0]"]
    packet_clear_wf
  by (simp_all add: idle_message_def) (simp_all add: packet_clear_def used_bytes_def hdr_skip_ec_def add_bytes_def)

theorem sealed_packet_arrives_witness:
  "\<exists>s d' q. add_dcc_checksum idle_message = Some s \<and>
     process_all (replicate 24 58 @ nominal (packet_bits (used_bytes s))) ready = Some d' \<and>
     parse_state d' = DCC_MAYBE_CUTOUT \<and>
     pkt d' = Some q \<and> used_bytes q = used_bytes s \<and> hdr_skip_ec q \<and> \<not> hdr_csum_error q"
proof -
  obtain s where s: "add_dcc_checksum idle_message = Some s"
    using idle_message_facts by (simp add: add_dcc_checksum_eq check_bytes_length)
  show ?thesis
    using sealed_packet_arrives [of idle_message s 1 packet_clear zero_memory ready "replicate 24 58"
        "nominal (packet_bits (used_bytes s))"] s
    by (simp add: idle_message_facts packet_clear_wf ready_facts nominal_signal)
qed

end
