(* ===== verification/ExecQueue.thy ===== *)
theory ExecQueue
  imports LinkedList
begin

section \<open>Queues of executables (utils/Queue.hxx, utils/QMember.hxx)\<close>

text \<open>
  Everything that waits on an executor is a \<open>QMember\<close>: an object with one \<open>next\<close>
  pointer. The model keeps the \<open>next\<close> members of all objects in one store, from
  addresses to addresses, so that an object used by two lists at once would corrupt
  both, as in the code. The null pointer is 0. A failing assertion or a null
  dereference is \<open>None\<close>. The methods that take the lock are atomic steps, so the
  locked and the unlocked form of a method are one definition.
\<close>

subsection \<open>The store of next pointers\<close>

type_synonym addr = nat
type_synonym links = "addr \<Rightarrow> addr"

definition get_next :: "links \<Rightarrow> addr \<Rightarrow> addr option" where
  "get_next nx a = (if a = 0 then None else Some (nx a))"

definition set_next :: "addr \<Rightarrow> addr \<Rightarrow> links \<Rightarrow> links option" where
  "set_next a v nx = (if a = 0 then None else Some (nx(a := v)))"

lemma get_next_in [simp]: "a \<noteq> 0 \<Longrightarrow> get_next nx a = Some (nx a)"
  by (simp add: get_next_def)

lemma set_next_in [simp]: "a \<noteq> 0 \<Longrightarrow> set_next a v nx = Some (nx(a := v))"
  by (simp add: set_next_def)

subsection \<open>Q\<close>

record queue =
  q_head :: addr
  q_tail :: addr
  q_count :: u32

definition q_new :: queue where
  "q_new = \<lparr>q_head = 0, q_tail = 0, q_count = 0\<rparr>"

definition q_insert :: "addr \<Rightarrow> links \<times> queue \<Rightarrow> (links \<times> queue) option" where
  "q_insert item = (\<lambda>(nx, q). do {
     n \<leftarrow> get_next nx item;
     hassert (n = 0);
     hassert (item \<noteq> q_tail q);
     (nx, q) \<leftarrow> (if q_head q = 0 then Some (nx, q\<lparr>q_head := item, q_tail := item\<rparr>)
                 else do {
                   nx \<leftarrow> set_next (q_tail q) item nx;
                   Some (nx, q\<lparr>q_tail := item\<rparr>)
                 });
     nx \<leftarrow> set_next item 0 nx;
     Some (nx, q\<lparr>q_count := q_count q + 1\<rparr>)
   })"

definition q_next :: "links \<times> queue \<Rightarrow> (addr \<times> links \<times> queue) option" where
  "q_next = (\<lambda>(nx, q).
     if q_head q = 0 then Some (0, nx, q)
     else do {
       let q = q\<lparr>q_count := q_count q - 1\<rparr>;
       let qm = q_head q;
       let q = (if q_head q = q_tail q then q\<lparr>q_tail := 0\<rparr> else q);
       n \<leftarrow> get_next nx qm;
       let q = q\<lparr>q_head := n\<rparr>;
       nx \<leftarrow> set_next qm 0 nx;
       Some (qm, nx, q)
     })"

definition q_pending :: "queue \<Rightarrow> u32" where
  "q_pending q = q_count q"

definition q_empty :: "queue \<Rightarrow> bool" where
  "q_empty q \<longleftrightarrow> q_head q = 0"

subsection \<open>What a queue holds\<close>

definition q_rep :: "links \<times> queue \<Rightarrow> addr list \<Rightarrow> bool" where
  "q_rep s xs \<longleftrightarrow> distinct xs \<and> 0 \<notin> set xs \<and> chain (fst s) xs 0 \<and>
     q_head (snd s) = hd_or xs 0 \<and> q_tail (snd s) = last_or xs 0 \<and> q_count (snd s) = of_nat (length xs)"

lemma chain_append [simp]: "chain nx (xs @ ys) n \<longleftrightarrow> chain nx xs (hd_or ys n) \<and> chain nx ys n"
  by (induction xs) auto

lemma q_rep_new: "q_rep (nx, q_new) []"
  by (simp add: q_rep_def q_new_def)

lemma q_rep_cong: "q_rep (nx, q) xs \<Longrightarrow> (\<And>a. a \<in> set xs \<Longrightarrow> nx' a = nx a) \<Longrightarrow> q_rep (nx', q) xs"
  using chain_cong [of xs nx nx'] by (simp add: q_rep_def)

text \<open>The assertions of \<open>insert\<close> catch every member that is already in the queue.\<close>

lemma q_insert_twice:
  assumes "q_rep (nx, q) xs" "item \<in> set xs"
  shows "q_insert item (nx, q) = None"
proof -
  obtain ys zs where xs: "xs = ys @ item # zs" using assms(2) split_list by fastforce
  then have "nx item = hd_or zs 0" "item \<noteq> 0"
    using assms(1) by (auto simp: q_rep_def)
  moreover have "hd_or zs 0 = 0 \<Longrightarrow> item = q_tail q"
    using assms(1) xs by (cases zs) (auto simp: q_rep_def)
  ultimately show ?thesis
    by (auto simp: q_insert_def)
qed

lemma q_insert_fresh:
  assumes "q_rep (nx, q) xs" "item \<notin> set xs" "item \<noteq> 0" "nx item = 0"
  obtains nx' q' where "q_insert item (nx, q) = Some (nx', q')" "q_rep (nx', q') (xs @ [item])"
    "\<And>a. a \<notin> set xs \<Longrightarrow> nx' a = nx a"
proof (cases "xs = []")
  case True
  then have "q_insert item (nx, q) = Some (nx(item := 0), q\<lparr>q_head := item, q_tail := item, q_count := q_count q + 1\<rparr>)"
    using assms by (simp add: q_insert_def q_rep_def)
  moreover have "q_rep (nx(item := 0), q\<lparr>q_head := item, q_tail := item, q_count := q_count q + 1\<rparr>) (xs @ [item])"
    using assms True by (simp add: q_rep_def)
  ultimately show ?thesis
    using that assms(4) by auto
next
  case False
  then obtain ys y where xs: "xs = ys @ [y]" by (cases xs rule: rev_cases) auto
  let ?nx = "nx(y := item, item := 0)"
  let ?q = "q\<lparr>q_tail := item, q_count := q_count q + 1\<rparr>"
  have "q_head q \<noteq> 0" "q_tail q = y" "y \<noteq> 0" "item \<noteq> y"
    using assms xs by (auto simp: q_rep_def) (cases ys; auto)
  then have "q_insert item (nx, q) = Some (?nx, ?q)"
    using assms by (simp add: q_insert_def)
  moreover have "q_rep (?nx, ?q) (xs @ [item])"
    using assms xs \<open>item \<noteq> y\<close> by (auto simp: q_rep_def)
  moreover have "?nx a = nx a" if "a \<notin> set xs" for a
    using that xs assms(4) by auto
  ultimately show ?thesis using that by blast
qed

lemma q_insert_Some:
  assumes "q_rep (nx, q) xs" "q_insert item (nx, q) = Some s"
  shows "item \<notin> set xs \<and> item \<noteq> 0 \<and> nx item = 0 \<and> q_rep s (xs @ [item])"
proof -
  have "item \<notin> set xs" using q_insert_twice [OF assms(1)] assms(2) by auto
  moreover have "item \<noteq> 0" using assms(2) by (cases "item = 0") (simp_all add: q_insert_def get_next_def)
  moreover have "nx item = 0" using assms(2) \<open>item \<noteq> 0\<close> by (auto simp: q_insert_def split: if_splits)
  ultimately show ?thesis
    using q_insert_fresh [OF assms(1)] assms(2) by (metis option.inject)
qed

lemma q_next_nil: "q_rep (nx, q) [] \<Longrightarrow> q_next (nx, q) = Some (0, nx, q)"
  by (simp add: q_rep_def q_next_def)

lemma q_next_cons:
  assumes "q_rep (nx, q) (x # xs)"
  obtains q' where "q_next (nx, q) = Some (x, nx(x := 0), q')" "q_rep (nx(x := 0), q') xs"
proof -
  have t: "(q_head q = q_tail q) = (xs = [])"
    using assms by (cases xs rule: rev_cases) (auto simp: q_rep_def)
  let ?q = "q\<lparr>q_count := q_count q - 1, q_tail := (if xs = [] then 0 else q_tail q), q_head := hd_or xs 0\<rparr>"
  have "q_next (nx, q) = Some (x, nx(x := 0), ?q)"
    using assms t by (cases q) (auto simp: q_rep_def q_next_def Let_def)
  moreover have "q_rep (nx(x := 0), ?q) xs"
    using assms by (cases xs) (auto simp: q_rep_def)
  ultimately show ?thesis using that by blast
qed

lemma q_empty_iff: "q_rep (nx, q) xs \<Longrightarrow> q_empty q \<longleftrightarrow> xs = []"
  by (cases xs) (auto simp: q_rep_def q_empty_def)

end
