(* ===== verification/QListQueue.thy ===== *)
theory QListQueue
  imports ExecQueue
begin

section \<open>The priority queue of an executor (QList, utils/Queue.hxx)\<close>

text \<open>
  A list of queues, the lower index the higher priority. All of them link through the
  same \<open>next\<close> pointers; \<open>qlist_rep\<close> says that they hold disjoint lists of members.
  The abstract priority queue is the list of those lists.
\<close>

definition q_at :: "nat \<Rightarrow> (links \<times> queue \<Rightarrow> (links \<times> queue) option) \<Rightarrow> links \<times> queue list \<Rightarrow>
    (links \<times> queue list) option" where
  "q_at i f = (\<lambda>(nx, qs). do {
     q \<leftarrow> array_get qs i;
     (nx, q) \<leftarrow> f (nx, q);
     qs \<leftarrow> array_set qs i q;
     Some (nx, qs)
   })"

definition qlist_insert :: "addr \<Rightarrow> nat \<Rightarrow> links \<times> queue list \<Rightarrow> (links \<times> queue list) option" where
  "qlist_insert item index s =
     (let index = (if index \<ge> length (snd s) then length (snd s) - 1 else index)
      in q_at index (q_insert item) s)"

definition qlist_next_at :: "nat \<Rightarrow> links \<times> queue list \<Rightarrow> (addr \<times> links \<times> queue list) option" where
  "qlist_next_at i = (\<lambda>(nx, qs). do {
     q \<leftarrow> array_get qs i;
     (item, nx, q) \<leftarrow> q_next (nx, q);
     qs \<leftarrow> array_set qs i q;
     Some (item, nx, qs)
   })"

text \<open>The loop over the queues: \<open>k\<close> of them are left, from index \<open>i\<close> on.\<close>

fun qlist_scan :: "nat \<Rightarrow> nat \<Rightarrow> links \<times> queue list \<Rightarrow> ((addr \<times> nat) \<times> links \<times> queue list) option" where
  "qlist_scan 0 i s = Some ((0, 0), s)"
| "qlist_scan (Suc k) i s = do {
     (result, s) \<leftarrow> qlist_next_at i s;
     if result \<noteq> 0 then Some ((result, i), s) else qlist_scan k (i + 1) s
   }"

definition qlist_next :: "links \<times> queue list \<Rightarrow> ((addr \<times> nat) \<times> links \<times> queue list) option" where
  "qlist_next s = qlist_scan (length (snd s)) 0 s"

definition qlist_pending :: "queue list \<Rightarrow> u32" where
  "qlist_pending qs = foldl (\<lambda>result q. result + q_pending q) 0 qs"

definition qlist_empty :: "queue list \<Rightarrow> bool" where
  "qlist_empty qs = list_all q_empty qs"

subsection \<open>The abstract priority queue\<close>

fun pq_next :: "nat \<Rightarrow> 'a list list \<Rightarrow> ('a \<times> nat \<times> 'a list list) option" where
  "pq_next i [] = None"
| "pq_next i ((x # xs) # xss) = Some (x, i, xs # xss)"
| "pq_next i ([] # xss) = map_option (\<lambda>(x, j, yss). (x, j, [] # yss)) (pq_next (i + 1) xss)"

definition pq_insert :: "'a \<Rightarrow> nat \<Rightarrow> 'a list list \<Rightarrow> 'a list list" where
  "pq_insert x p xss = (let i = min p (length xss - 1) in xss[i := xss ! i @ [x]])"

lemma pq_insert_members: "xss \<noteq> [] \<Longrightarrow> set (concat (pq_insert x p xss)) = insert x (set (concat xss))"
proof -
  assume "xss \<noteq> []"
  then have i: "min p (length xss - 1) < length xss" by (cases xss) auto
  have "set (concat (xss[i := xss ! i @ [x]])) = insert x (set (concat xss))" if "i < length xss" for i
    using that by (induction xss arbitrary: i) (auto split: nat.splits)
  with i show ?thesis by (simp add: pq_insert_def Let_def)
qed

lemma pq_next_members:
  "pq_next i xss = Some (x, j, yss) \<Longrightarrow> distinct (concat xss) \<Longrightarrow>
   set (concat yss) = set (concat xss) - {x} \<and> length yss = length xss"
proof (induction i xss arbitrary: x j yss rule: pq_next.induct)
  case (3 i xss)
  then obtain zss where "pq_next (i + 1) xss = Some (x, j, zss)" "yss = [] # zss" by auto
  with 3 show ?case by simp
qed auto

definition qlist_rep :: "links \<times> queue list \<Rightarrow> addr list list \<Rightarrow> bool" where
  "qlist_rep s xss \<longleftrightarrow> distinct (concat xss) \<and> list_all2 (\<lambda>q xs. q_rep (fst s, q) xs) (snd s) xss"

lemma qlist_rep_new: "qlist_rep (nx, replicate n q_new) (replicate n [])"
  by (induction n) (auto simp: qlist_rep_def q_rep_new)

lemma qlist_rep_split:
  assumes "qlist_rep (nx, qs) xss" "i < length xss"
  obtains as q bs ass xs bss where "qs = as @ q # bs" "xss = ass @ xs # bss" "length as = i" "length ass = i"
    "xs = xss ! i" "q = qs ! i"
    "list_all2 (\<lambda>q xs. q_rep (nx, q) xs) as ass" "q_rep (nx, q) xs" "list_all2 (\<lambda>q xs. q_rep (nx, q) xs) bs bss"
proof -
  have l: "length qs = length xss" using assms(1) by (auto simp: qlist_rep_def dest: list_all2_lengthD)
  then have 1: "qs = take i qs @ qs ! i # drop (Suc i) qs" "xss = take i xss @ xss ! i # drop (Suc i) xss"
    using assms(2) by (auto simp: id_take_nth_drop)
  have a: "list_all2 (\<lambda>q xs. q_rep (nx, q) xs) qs xss" using assms(1) by (simp add: qlist_rep_def)
  show ?thesis
    using that [OF 1] l assms(2) list_all2_nthD [OF a, of i] list_all2_takeI [OF a, of i]
      list_all2_dropI [OF a, of "Suc i"] by simp
qed

lemma qs_cong:
  "list_all2 (\<lambda>q xs. q_rep (nx, q) xs) qs xss \<Longrightarrow> (\<And>a. a \<in> set (concat xss) \<Longrightarrow> nx' a = nx a) \<Longrightarrow>
   list_all2 (\<lambda>q xs. q_rep (nx', q) xs) qs xss"
proof (induction rule: list_all2_induct)
  case (Cons q qs xs xss)
  then show ?case using q_rep_cong [of nx q xs nx'] by auto
qed simp

text \<open>Links outside the lists can change.\<close>

lemma qlist_rep_cong:
  "qlist_rep (nx, qs) xss \<Longrightarrow> (\<And>a. a \<in> set (concat xss) \<Longrightarrow> nx' a = nx a) \<Longrightarrow> qlist_rep (nx', qs) xss"
  using qs_cong [of nx qs xss nx'] by (simp add: qlist_rep_def)

lemma qlist_insert_ok:
  assumes "qlist_rep (nx, qs) xss" "xss \<noteq> []" "item \<notin> set (concat xss)" "item \<noteq> 0" "nx item = 0"
  obtains nx' qs' where "qlist_insert item p (nx, qs) = Some (nx', qs')"
    "qlist_rep (nx', qs') (pq_insert item p xss)" "\<And>a. a \<notin> set (concat xss) \<Longrightarrow> nx' a = nx a"
proof -
  define i where "i = min p (length xss - 1)"
  have l: "length qs = length xss" using assms(1) by (auto simp: qlist_rep_def dest: list_all2_lengthD)
  have i: "i < length xss" "(if p \<ge> length qs then length qs - 1 else p) = i"
    using assms(2) l by (cases xss; auto simp: i_def)+
  from assms(1) i(1) obtain as q bs ass xs bss where s: "qs = as @ q # bs" "xss = ass @ xs # bss"
    "length as = i" "length ass = i"
    and r: "list_all2 (\<lambda>q xs. q_rep (nx, q) xs) as ass" "q_rep (nx, q) xs"
      "list_all2 (\<lambda>q xs. q_rep (nx, q) xs) bs bss"
    by (rule qlist_rep_split)
  have fresh: "item \<notin> set xs" using assms(3) s(2) by simp
  obtain nx' q' where q: "q_insert item (nx, q) = Some (nx', q')" "q_rep (nx', q') (xs @ [item])"
    "\<And>a. a \<notin> set xs \<Longrightarrow> nx' a = nx a"
    using q_insert_fresh [OF r(2) fresh assms(4,5)] by blast
  have d: "distinct (concat xss)" using assms(1) by (simp add: qlist_rep_def)
  have "list_all2 (\<lambda>q xs. q_rep (nx', q) xs) as ass"
    by (rule qs_cong [OF r(1)], rule q(3)) (use d s(2) in auto)
  moreover have "list_all2 (\<lambda>q xs. q_rep (nx', q) xs) bs bss"
    by (rule qs_cong [OF r(3)], rule q(3)) (use d s(2) in auto)
  ultimately have "list_all2 (\<lambda>q xs. q_rep (nx', q) xs) (as @ q' # bs) (ass @ (xs @ [item]) # bss)"
    by (intro list_all2_appendI list_all2_Cons [THEN iffD2] conjI q(2))
  moreover have "distinct (concat (ass @ (xs @ [item]) # bss))"
    using d assms(3) unfolding s(2) by auto
  ultimately have "qlist_rep (nx', as @ q' # bs) (ass @ (xs @ [item]) # bss)"
    unfolding qlist_rep_def fst_conv snd_conv by blast
  moreover have "pq_insert item p xss = ass @ (xs @ [item]) # bss"
  proof -
    have "pq_insert item p xss = xss[i := xss ! i @ [item]]" by (simp add: pq_insert_def i_def Let_def)
    then show ?thesis by (simp add: s(2) flip: s(4))
  qed
  moreover have "qlist_insert item p (nx, qs) = Some (nx', as @ q' # bs)"
  proof -
    have "qlist_insert item p (nx, qs) = q_at i (q_insert item) (nx, qs)"
      using i(2) by (auto simp: qlist_insert_def Let_def)
    then show ?thesis using q(1) by (simp add: q_at_def s(1) flip: s(3))
  qed
  ultimately show ?thesis
    using that q(3) s(2) by auto
qed

text \<open>The scan takes from the first queue that is not empty.\<close>

lemma qlist_next_at_ok:
  assumes "list_all2 (\<lambda>q xs. q_rep (nx, q) xs) as ass" "q_rep (nx, q) (x # xs)"
    "list_all2 (\<lambda>q xs. q_rep (nx, q) xs) bs bss" "distinct (concat (ass @ (x # xs) # bss))"
  obtains qs' where "qlist_next_at (length as) (nx, as @ q # bs) = Some (x, nx(x := 0), qs')"
    "qlist_rep (nx(x := 0), qs') (ass @ xs # bss)" "length qs' = length (as @ q # bs)"
proof -
  obtain q' where q: "q_next (nx, q) = Some (x, nx(x := 0), q')" "q_rep (nx(x := 0), q') xs"
    using q_next_cons [OF assms(2)] by blast
  have "list_all2 (\<lambda>q xs. q_rep (nx(x := 0), q) xs) as ass"
    by (rule qs_cong [OF assms(1)]) (use assms(4) in auto)
  moreover have "list_all2 (\<lambda>q xs. q_rep (nx(x := 0), q) xs) bs bss"
    by (rule qs_cong [OF assms(3)]) (use assms(4) in auto)
  ultimately have "qlist_rep (nx(x := 0), as @ q' # bs) (ass @ xs # bss)"
    using q(2) assms(4) by (auto simp: qlist_rep_def list_all2_appendI)
  then show ?thesis
    using that [of "as @ q' # bs"] q(1) by (simp add: qlist_next_at_def nth_append)
qed

lemma qlist_scan_ok:
  assumes "list_all2 (\<lambda>q xs. q_rep (nx, q) xs) as (replicate (length as) [])"
    "list_all2 (\<lambda>q xs. q_rep (nx, q) xs) bs bss" "distinct (concat bss)"
  shows "case pq_next (length as) bss of
      None \<Rightarrow> qlist_scan (length bs) (length as) (nx, as @ bs) = Some ((0, 0), nx, as @ bs)
    | Some (x, j, yss) \<Rightarrow> \<exists>qs'. qlist_scan (length bs) (length as) (nx, as @ bs) = Some ((x, j), nx(x := 0), qs') \<and>
        qlist_rep (nx(x := 0), qs') (replicate (length as) [] @ yss) \<and> x \<in> set (concat bss)"
  using assms
proof (induction bss arbitrary: as bs)
  case Nil
  then show ?case by simp
next
  case (Cons xs bss)
  then obtain q bs' where bs: "bs = q # bs'" "q_rep (nx, q) xs" "list_all2 (\<lambda>q xs. q_rep (nx, q) xs) bs' bss"
    by (auto simp: list_all2_Cons2)
  show ?case
  proof (cases xs)
    case Nil
    have "replicate (length (as @ [q])) [] = replicate (length as) [] @ [[] :: addr list]"
      by (simp add: replicate_append_same)
    then have e: "list_all2 (\<lambda>q xs. q_rep (nx, q) xs) (as @ [q]) (replicate (length (as @ [q])) [])"
      using Cons.prems(1) bs(2) Nil by (simp only:) (simp add: list_all2_appendI)
    have "qlist_next_at (length as) (nx, as @ bs) = Some (0, nx, as @ bs)"
      using q_next_nil [of nx q] bs Nil by (simp add: qlist_next_at_def nth_append)
    then have "qlist_scan (length bs) (length as) (nx, as @ bs) =
        qlist_scan (length bs') (length (as @ [q])) (nx, (as @ [q]) @ bs')"
      by (simp add: bs(1))
    then show ?thesis
      using Cons.IH [OF e bs(3)] Cons.prems(3) Nil bs(1)
      by (auto simp: replicate_app_Cons_same split: option.splits)
  next
    case (Cons x xs')
    have "distinct (concat (replicate (length as) [] @ (x # xs') # bss))"
      using \<open>distinct (concat (xs # bss))\<close> Cons by simp
    from qlist_next_at_ok [OF \<open>list_all2 _ as _\<close> bs(2) [unfolded Cons] bs(3) this]
    obtain qs' where "qlist_next_at (length as) (nx, as @ q # bs') = Some (x, nx(x := 0), qs')"
      "qlist_rep (nx(x := 0), qs') (replicate (length as) [] @ xs' # bss)" by blast
    moreover have "x \<noteq> 0" using bs(2) Cons by (auto simp: q_rep_def)
    ultimately show ?thesis by (simp add: bs(1) Cons)
  qed
qed

lemma qlist_next_ok:
  assumes "qlist_rep (nx, qs) xss"
  shows "case pq_next 0 xss of
      None \<Rightarrow> qlist_next (nx, qs) = Some ((0, 0), nx, qs)
    | Some (x, j, yss) \<Rightarrow> \<exists>qs'. qlist_next (nx, qs) = Some ((x, j), nx(x := 0), qs') \<and>
        qlist_rep (nx(x := 0), qs') yss \<and> x \<in> set (concat xss)"
  using qlist_scan_ok [of nx "[]" qs xss] assms by (auto simp: qlist_next_def qlist_rep_def split: option.splits)

lemma qlist_empty_iff: "qlist_rep (nx, qs) xss \<Longrightarrow> qlist_empty qs \<longleftrightarrow> concat xss = []"
proof -
  have "list_all2 (\<lambda>q xs. q_rep (nx, q) xs) qs xss \<Longrightarrow> list_all q_empty qs \<longleftrightarrow> concat xss = []"
    by (induction rule: list_all2_induct) (auto simp: q_empty_iff)
  then show "qlist_rep (nx, qs) xss \<Longrightarrow> ?thesis" by (simp add: qlist_rep_def qlist_empty_def)
qed

end
