(* ===== verification/QListRun.thy ===== *)
theory QListRun
  imports QListQueue
begin

section \<open>The priority queue refines its specification\<close>

text \<open>
  Any sequence of insertions and removals on the linked queues gives the results of the
  abstract priority queue, as long as no member is inserted while it is waiting; the
  specification says what that means, and the assertions of the code catch it only
  within one priority band.
\<close>

datatype pq_op = PQ_insert addr nat | PQ_next

fun qlist_run :: "pq_op list \<Rightarrow> links \<times> queue list \<Rightarrow> ((addr \<times> nat) list \<times> links \<times> queue list) option" where
  "qlist_run [] s = Some ([], s)"
| "qlist_run (PQ_insert x p # ops) s = do { s \<leftarrow> qlist_insert x p s; qlist_run ops s }"
| "qlist_run (PQ_next # ops) s = do {
     (r, s) \<leftarrow> qlist_next s;
     (rs, s) \<leftarrow> qlist_run ops s;
     Some (r # rs, s)
   }"

fun pq_run :: "pq_op list \<Rightarrow> addr list list \<Rightarrow> ((addr \<times> nat) list \<times> addr list list) option" where
  "pq_run [] xss = Some ([], xss)"
| "pq_run (PQ_insert x p # ops) xss =
     (if x = 0 \<or> x \<in> set (concat xss) then None else pq_run ops (pq_insert x p xss))"
| "pq_run (PQ_next # ops) xss = (case pq_next 0 xss of
     None \<Rightarrow> map_option (\<lambda>(rs, yss). ((0, 0) # rs, yss)) (pq_run ops xss)
   | Some (x, j, yss) \<Rightarrow> map_option (\<lambda>(rs, zss). ((x, j) # rs, zss)) (pq_run ops yss))"

definition loose :: "links \<Rightarrow> addr set \<Rightarrow> bool" where
  "loose nx A \<longleftrightarrow> (\<forall>a. a \<notin> A \<longrightarrow> nx a = 0)"

lemma qlist_run_ok:
  assumes "qlist_rep (nx, qs) xss" "xss \<noteq> []" "loose nx (set (concat xss))" "pq_run ops xss = Some (rs, yss)"
  shows "\<exists>nx' qs'. qlist_run ops (nx, qs) = Some (rs, nx', qs') \<and> qlist_rep (nx', qs') yss"
  using assms
proof (induction ops arbitrary: nx qs xss rs)
  case Nil
  then show ?case by simp
next
  case (Cons op ops)
  show ?case
  proof (cases op)
    case (PQ_insert x p)
    then have x: "x \<noteq> 0" "x \<notin> set (concat xss)" and r: "pq_run ops (pq_insert x p xss) = Some (rs, yss)"
      using Cons.prems(4) by (auto split: if_splits)
    have "nx x = 0" using Cons.prems(3) x(2) by (simp add: loose_def)
    then obtain nx' qs' where s: "qlist_insert x p (nx, qs) = Some (nx', qs')"
      "qlist_rep (nx', qs') (pq_insert x p xss)" "\<And>a. a \<notin> set (concat xss) \<Longrightarrow> nx' a = nx a"
      using qlist_insert_ok [OF Cons.prems(1,2) x(2,1)] by blast
    have "loose nx' (set (concat (pq_insert x p xss)))"
      using Cons.prems(3) s(3) unfolding pq_insert_members [OF Cons.prems(2)] loose_def by simp
    moreover have "pq_insert x p xss \<noteq> []" using Cons.prems(2) by (simp add: pq_insert_def Let_def)
    ultimately show ?thesis
      using Cons.IH [OF s(2) _ _ r] s(1) PQ_insert by simp
  next
    case PQ_next
    show ?thesis
    proof (cases "pq_next 0 xss")
      case None
      then obtain rs' where r: "pq_run ops xss = Some (rs', yss)" "rs = (0, 0) # rs'"
        using Cons.prems(4) PQ_next by auto
      show ?thesis
        using Cons.IH [OF Cons.prems(1-3) r(1)] qlist_next_ok [OF Cons.prems(1)] None r(2) PQ_next by auto
    next
      case (Some t)
      obtain x j zss where t: "pq_next 0 xss = Some (x, j, zss)" using Some by (cases t) auto
      then obtain rs' where r: "pq_run ops zss = Some (rs', yss)" "rs = (x, j) # rs'"
        using Cons.prems(4) PQ_next by auto
      obtain qs' where q: "qlist_next (nx, qs) = Some ((x, j), nx(x := 0), qs')" "qlist_rep (nx(x := 0), qs') zss"
        using qlist_next_ok [OF Cons.prems(1)] t by auto
      have m: "set (concat zss) = set (concat xss) - {x}" "length zss = length xss"
        using pq_next_members [OF t] Cons.prems(1) by (auto simp: qlist_rep_def)
      have "loose (nx(x := 0)) (set (concat zss))"
        using Cons.prems(3) unfolding m(1) loose_def by simp
      moreover have "zss \<noteq> []" using m(2) Cons.prems(2) by auto
      ultimately obtain nx' qs'' where "qlist_run ops (nx(x := 0), qs') = Some (rs', nx', qs'')"
        "qlist_rep (nx', qs'') yss"
        using Cons.IH [OF q(2) _ _ r(1)] by blast
      then show ?thesis
        by (simp add: PQ_next q(1) r(2))
    qed
  qed
qed

text \<open>C8: The priority queue of an executor refines its specification: from empty queues and
  unlinked members, any sequence of insertions and removals that never inserts a member
  that is still waiting passes every assertion and returns exactly what the abstract
  priority queue returns (the oldest member of the highest priority that has one, with
  that priority, or nothing when all are empty).\<close>

theorem qlist_refines_priority_queue:
  assumes "0 < n" "pq_run ops (replicate n []) = Some (rs, yss)"
  shows "\<exists>nx qs. qlist_run ops (\<lambda>_. 0, replicate n q_new) = Some (rs, nx, qs) \<and> qlist_rep (nx, qs) yss"
  by (rule qlist_run_ok [OF qlist_rep_new _ _ assms(2)]) (use assms(1) in \<open>simp_all add: loose_def\<close>)

theorem qlist_refines_priority_queue_witness:
  "\<exists>nx qs. qlist_run [PQ_insert 7 9, PQ_insert 8 0, PQ_insert 9 0, PQ_next, PQ_next, PQ_next, PQ_next]
       (\<lambda>_. 0, replicate 2 q_new) = Some ([(8, 0), (9, 0), (7, 1), (0, 0)], nx, qs) \<and>
     qlist_rep (nx, qs) [[], []]"
  by (rule qlist_refines_priority_queue) (simp_all add: numeral_2_eq_2 pq_insert_def)

text \<open>The assertions of \<open>insert\<close> do not catch a member that waits as the last one of another
  priority band: it is accepted and then handed out twice.\<close>

theorem qlist_double_insert_accepted:
  "\<exists>s. qlist_run [PQ_insert 7 0, PQ_insert 7 1, PQ_next, PQ_next] (\<lambda>_. 0, replicate 2 q_new) =
     Some ([(7, 0), (7, 1)], s)"
  by (simp add: numeral_2_eq_2 qlist_insert_def q_at_def q_insert_def q_new_def qlist_next_def
      qlist_next_at_def q_next_def Let_def array_get_def array_set_def)

end
