(* ===== verification/QAsync.thy ===== *)
theory QAsync
  imports ExecQueue
begin

section \<open>The asynchronous queue (QAsync, utils/Queue.hxx)\<close>

text \<open>
  One queue that holds either items without a taker or flows without an item; \<open>waiting\<close>
  says which. Each method is one critical section; the call \<open>alloc_result\<close> that follows
  it outside of the lock is an output.
\<close>

record qasync =
  waiting :: bool
  qa_impl :: queue

datatype qa_out = Alloc_result addr addr | Pulled addr

definition qa_new :: qasync where
  "qa_new = \<lparr>waiting = True, qa_impl = q_new\<rparr>"

definition qa_insert :: "addr \<Rightarrow> links \<times> qasync \<Rightarrow> (qa_out list \<times> links \<times> qasync) option" where
  "qa_insert item = (\<lambda>(nx, s).
     if waiting s then
       (if q_empty (qa_impl s) then do {
          let s = s\<lparr>waiting := False\<rparr>;
          (nx, q) \<leftarrow> q_insert item (nx, qa_impl s);
          Some ([], nx, s\<lparr>qa_impl := q\<rparr>)
        } else do {
          (executable, nx, q) \<leftarrow> q_next (nx, qa_impl s);
          Some (if executable \<noteq> 0 then [Alloc_result executable item] else [], nx, s\<lparr>qa_impl := q\<rparr>)
        })
     else do {
       (nx, q) \<leftarrow> q_insert item (nx, qa_impl s);
       Some ([], nx, s\<lparr>qa_impl := q\<rparr>)
     })"

definition qa_next_async :: "addr \<Rightarrow> links \<times> qasync \<Rightarrow> (qa_out list \<times> links \<times> qasync) option" where
  "qa_next_async flow = (\<lambda>(nx, s).
     if waiting s then do {
       (nx, q) \<leftarrow> q_insert flow (nx, qa_impl s);
       Some ([], nx, s\<lparr>qa_impl := q\<rparr>)
     } else do {
       (qm, nx, q) \<leftarrow> q_next (nx, qa_impl s);
       if qm = 0 then do {
         (nx, q) \<leftarrow> q_insert flow (nx, q);
         Some ([], nx, s\<lparr>qa_impl := q, waiting := True\<rparr>)
       } else Some ([Alloc_result flow qm], nx, s\<lparr>qa_impl := q\<rparr>)
     })"

definition qa_next :: "links \<times> qasync \<Rightarrow> (qa_out list \<times> links \<times> qasync) option" where
  "qa_next = (\<lambda>(nx, s).
     if waiting s then Some ([], nx, s)
     else do {
       (qm, nx, q) \<leftarrow> q_next (nx, qa_impl s);
       Some (if qm \<noteq> 0 then [Pulled qm] else [], nx, s\<lparr>qa_impl := q\<rparr>)
     })"

definition qa_pending :: "qasync \<Rightarrow> u32" where
  "qa_pending s = (if waiting s then 0 else q_pending (qa_impl s))"

definition qa_empty :: "qasync \<Rightarrow> bool" where
  "qa_empty s \<longleftrightarrow> (if waiting s then True else q_empty (qa_impl s))"

subsection \<open>Runs\<close>

datatype qa_op = QA_insert addr | QA_next_async addr | QA_next

fun qa_step :: "qa_op \<Rightarrow> links \<times> qasync \<Rightarrow> (qa_out list \<times> links \<times> qasync) option" where
  "qa_step (QA_insert x) s = qa_insert x s"
| "qa_step (QA_next_async f) s = qa_next_async f s"
| "qa_step QA_next s = qa_next s"

fun qa_run :: "qa_op list \<Rightarrow> links \<times> qasync \<Rightarrow> (qa_out list \<times> links \<times> qasync) option" where
  "qa_run [] s = Some ([], s)"
| "qa_run (op # ops) s = do {
     (out, s) \<leftarrow> qa_step op s;
     (outs, s) \<leftarrow> qa_run ops s;
     Some (out @ outs, s)
   }"

definition op_items :: "qa_op \<Rightarrow> addr list" where
  "op_items op = (case op of QA_insert x \<Rightarrow> [x] | _ \<Rightarrow> [])"

definition op_flows :: "qa_op \<Rightarrow> addr list" where
  "op_flows op = (case op of QA_next_async f \<Rightarrow> [f] | _ \<Rightarrow> [])"

definition out_item :: "qa_out \<Rightarrow> addr" where
  "out_item r = (case r of Alloc_result f x \<Rightarrow> x | Pulled x \<Rightarrow> x)"

definition out_flows :: "qa_out \<Rightarrow> addr list" where
  "out_flows r = (case r of Alloc_result f x \<Rightarrow> [f] | Pulled x \<Rightarrow> [])"

text \<open>The items and the flows that are waiting; one of the lists is empty.\<close>

definition qa_rep :: "links \<times> qasync \<Rightarrow> addr list \<Rightarrow> addr list \<Rightarrow> bool" where
  "qa_rep = (\<lambda>(nx, s) items flows. q_rep (nx, qa_impl s) (if waiting s then flows else items) \<and>
     (if waiting s then items = [] else flows = []))"

lemma qa_rep_new: "qa_rep (nx, qa_new) [] []"
  by (simp add: qa_rep_def qa_new_def q_rep_new)

lemma q_rep_nonzero: "q_rep s (x # xs) \<Longrightarrow> x \<noteq> 0"
  by (auto simp: q_rep_def)

lemma q_next_Some:
  assumes "q_rep (nx, q) xs" "q_next (nx, q) = Some (x, s)"
  shows "(xs = [] \<and> x = 0 \<and> s = (nx, q)) \<or> (\<exists>ys. xs = x # ys \<and> x \<noteq> 0 \<and> q_rep s ys)"
proof (cases xs)
  case Nil
  then show ?thesis using q_next_nil [of nx q] assms by auto
next
  case (Cons y ys)
  then show ?thesis using q_next_cons [of nx q y ys] assms q_rep_nonzero by (metis option.inject prod.inject)
qed

lemma qa_step_ok:
  assumes "qa_rep s items flows" "qa_step op s = Some (out, s')"
  shows "\<exists>items' flows'. qa_rep s' items' flows' \<and> items @ op_items op = map out_item out @ items' \<and>
     flows @ op_flows op = concat (map out_flows out) @ flows'"
proof -
  obtain nx t where s: "s = (nx, t)" by (cases s)
  show ?thesis
  proof (cases op)
    case (QA_insert x)
    show ?thesis
    proof (cases "waiting t \<and> flows \<noteq> []")
      case True
      then obtain f fs where f: "flows = f # fs" by (cases flows) auto
      have r: "q_rep (nx, qa_impl t) (f # fs)" and i: "items = []"
        using True assms(1) by (simp_all add: qa_rep_def s f)
      then obtain q' where "q_next (nx, qa_impl t) = Some (f, nx(f := 0), q')" "q_rep (nx(f := 0), q') fs"
        using q_next_cons by blast
      then show ?thesis
        using True assms(2) r i q_rep_nonzero [OF r] QA_insert q_empty_iff [OF r]
        by (auto simp: s f qa_insert_def qa_rep_def op_items_def op_flows_def out_item_def out_flows_def)
    next
      case False
      then have r: "q_rep (nx, qa_impl t) items" and f: "flows = []"
        using assms(1) by (auto simp: qa_rep_def s split: if_splits)
      then show ?thesis
        using assms False QA_insert q_empty_iff [OF r] q_insert_Some [OF r, of x]
        by (auto simp: s qa_insert_def qa_rep_def op_items_def op_flows_def split: if_splits Option.bind_splits)
    qed
  next
    case (QA_next_async f)
    show ?thesis
    proof (cases "waiting t")
      case True
      then have r: "q_rep (nx, qa_impl t) flows" "items = []"
        using assms(1) by (auto simp: qa_rep_def s)
      then show ?thesis
        using assms True QA_next_async q_insert_Some [OF r(1), of f]
        by (auto simp: s qa_next_async_def qa_rep_def op_items_def op_flows_def split: Option.bind_splits)
    next
      case False
      then have r: "q_rep (nx, qa_impl t) items" "flows = []"
        using assms(1) by (auto simp: qa_rep_def s)
      then show ?thesis
        using assms False QA_next_async q_next_Some [OF r(1)] q_insert_Some [of nx "qa_impl t" "[]" f]
        by (auto simp: s qa_next_async_def qa_rep_def op_items_def op_flows_def out_item_def out_flows_def
            split: Option.bind_splits if_splits)
    qed
  next
    case QA_next
    show ?thesis
    proof (cases "waiting t")
      case True
      then show ?thesis
        using assms QA_next by (auto simp: s qa_next_def op_items_def op_flows_def)
    next
      case False
      then have r: "q_rep (nx, qa_impl t) items" "flows = []"
        using assms(1) by (auto simp: qa_rep_def s)
      then show ?thesis
        using assms False QA_next q_next_Some [OF r(1)]
        by (auto simp: s qa_next_def qa_rep_def op_items_def op_flows_def out_item_def out_flows_def
            split: Option.bind_splits if_splits)
    qed
  qed
qed

lemma qa_run_ok:
  assumes "qa_rep s items flows" "qa_run ops s = Some (outs, s')"
  shows "\<exists>items' flows'. qa_rep s' items' flows' \<and>
     items @ concat (map op_items ops) = map out_item outs @ items' \<and>
     flows @ concat (map op_flows ops) = concat (map out_flows outs) @ flows'"
  using assms
proof (induction ops arbitrary: s items flows outs)
  case Nil
  then show ?case by auto
next
  case (Cons op ops)
  then obtain out t outs' where t: "qa_step op s = Some (out, t)" "qa_run ops t = Some (outs', s')" "outs = out @ outs'"
    by (auto split: Option.bind_splits prod.splits)
  obtain i f where r: "qa_rep t i f" "items @ op_items op = map out_item out @ i"
    "flows @ op_flows op = concat (map out_flows out) @ f"
    using qa_step_ok [OF Cons.prems(1) t(1)] by blast
  obtain i' f' where i': "qa_rep s' i' f'" "i @ concat (map op_items ops) = map out_item outs' @ i'"
    "f @ concat (map op_flows ops) = concat (map out_flows outs') @ f'"
    using Cons.IH [OF r(1) t(2)] by blast
  have "items @ concat (map op_items (op # ops)) = (items @ op_items op) @ concat (map op_items ops)"
    "flows @ concat (map op_flows (op # ops)) = (flows @ op_flows op) @ concat (map op_flows ops)"
    by simp_all
  then show ?case
    unfolding r(2,3) append_assoc i'(2,3) using i'(1) t(3) by auto
qed

subsection \<open>Runs go through\<close>

text \<open>\<open>U\<close> holds the members used so far; all others are unlinked.\<close>

definition unused_free :: "links \<Rightarrow> addr set \<Rightarrow> bool" where
  "unused_free nx U \<longleftrightarrow> (\<forall>a. a \<notin> U \<longrightarrow> nx a = 0)"

lemma q_insert_total:
  assumes "q_rep (nx, q) xs" "unused_free nx U" "set xs \<subseteq> U" "x \<notin> U" "x \<noteq> 0"
  shows "\<exists>nx' q'. q_insert x (nx, q) = Some (nx', q') \<and> unused_free nx' (insert x U)"
proof -
  have "x \<notin> set xs" "nx x = 0" using assms by (auto simp: unused_free_def)
  from q_insert_fresh [OF assms(1) this(1) assms(5) this(2)]
  obtain nx' q' where "q_insert x (nx, q) = Some (nx', q')" "\<And>a. a \<notin> set xs \<Longrightarrow> nx' a = nx a" by blast
  moreover from this(2) have "unused_free nx' (insert x U)"
    using assms(2,3) by (metis insertCI subsetD unused_free_def)
  ultimately show ?thesis by blast
qed

lemma q_next_total:
  assumes "q_rep (nx, q) xs" "unused_free nx U"
  shows "\<exists>x nx' q'. q_next (nx, q) = Some (x, nx', q') \<and> unused_free nx' U \<and> (x = 0 \<longrightarrow> (nx', q') = (nx, q))"
proof (cases xs)
  case Nil
  then show ?thesis using q_next_nil [of nx q] assms by auto
next
  case (Cons y ys)
  then obtain q' where "q_next (nx, q) = Some (y, nx(y := 0), q')" using q_next_cons assms(1) by metis
  then show ?thesis using assms Cons q_rep_nonzero [of _ y ys] by (auto simp: unused_free_def)
qed

lemma unused_free_mono: "unused_free nx U \<Longrightarrow> U \<subseteq> V \<Longrightarrow> unused_free nx V"
  by (auto simp: unused_free_def)

lemma qa_step_total:
  assumes "qa_rep s items flows" "unused_free (fst s) U" "set items \<union> set flows \<subseteq> U"
    "\<forall>x \<in> set (op_items op @ op_flows op). x \<notin> U \<and> x \<noteq> 0"
  shows "\<exists>out s'. qa_step op s = Some (out, s') \<and> unused_free (fst s') (U \<union> set (op_items op @ op_flows op))"
proof -
  obtain nx t where s: "s = (nx, t)" by (cases s)
  define xs where "xs = (if waiting t then flows else items)"
  have r: "q_rep (nx, qa_impl t) xs" "set xs \<subseteq> U" and u: "unused_free nx U"
    using assms(1-3) by (auto simp: qa_rep_def s xs_def)
  note ins = q_insert_total [OF r(1) u r(2)] and nxt = q_next_total [OF r(1) u]
  show ?thesis
  proof (cases op)
    case (QA_insert x)
    then show ?thesis
      using assms(4) ins [of x] nxt
      by (auto simp: s qa_insert_def op_items_def op_flows_def intro: unused_free_mono)
  next
    case (QA_next_async f)
    then show ?thesis
      using assms(4) ins [of f] nxt
      by (auto simp: s qa_next_async_def op_items_def op_flows_def intro: unused_free_mono)
  next
    case QA_next
    then show ?thesis
      using nxt u by (auto simp: s qa_next_def op_items_def op_flows_def)
  qed
qed

lemma qa_run_total:
  assumes "qa_rep s items flows" "unused_free (fst s) U" "set items \<union> set flows \<subseteq> U"
    "distinct (concat (map (\<lambda>op. op_items op @ op_flows op) ops))"
    "\<forall>x \<in> set (concat (map (\<lambda>op. op_items op @ op_flows op) ops)). x \<notin> U \<and> x \<noteq> 0"
  shows "qa_run ops s \<noteq> None"
  using assms
proof (induction ops arbitrary: s items flows U)
  case Nil
  then show ?case by simp
next
  case (Cons op ops)
  let ?V = "U \<union> set (op_items op @ op_flows op)"
  obtain out s' where s': "qa_step op s = Some (out, s')" "unused_free (fst s') ?V"
  proof -
    have "\<forall>x \<in> set (op_items op @ op_flows op). x \<notin> U \<and> x \<noteq> 0" using Cons.prems(5) by auto
    from qa_step_total [OF Cons.prems(1-3) this] show ?thesis using that by blast
  qed
  obtain i f where r: "qa_rep s' i f" "items @ op_items op = map out_item out @ i"
    "flows @ op_flows op = concat (map out_flows out) @ f"
    using qa_step_ok [OF Cons.prems(1) s'(1)] by blast
  have "set i \<subseteq> set (items @ op_items op)" "set f \<subseteq> set (flows @ op_flows op)"
    unfolding r(2,3) by simp_all
  then have "set i \<union> set f \<subseteq> ?V" using Cons.prems(3) by auto
  then have "qa_run ops s' \<noteq> None"
    by (rule Cons.IH [OF r(1) s'(2)]) (use Cons.prems(4,5) in auto)
  then show ?case using s'(1) by auto
qed

text \<open>C35: However producers, asynchronous takers and polls interleave on an asynchronous queue (each
  member being used once), every assertion holds, the items come out in the order they were
  inserted and the flows are served in the order they asked, each with one item, nothing is
  lost or duplicated, and an item and a flow never wait for each other.\<close>

theorem qasync_matches_in_order:
  assumes "distinct (concat (map (\<lambda>op. op_items op @ op_flows op) ops))"
    "0 \<notin> set (concat (map (\<lambda>op. op_items op @ op_flows op) ops))"
  shows "\<exists>outs s items flows. qa_run ops (\<lambda>_. 0, qa_new) = Some (outs, s) \<and>
     concat (map op_items ops) = map out_item outs @ items \<and>
     concat (map op_flows ops) = concat (map out_flows outs) @ flows \<and> (items = [] \<or> flows = [])"
proof -
  have "\<forall>x \<in> set (concat (map (\<lambda>op. op_items op @ op_flows op) ops)). x \<notin> {} \<and> x \<noteq> 0"
    by (intro ballI conjI notI) (simp, use assms(2) in \<open>simp only:\<close>)
  from qa_run_total [OF qa_rep_new _ _ assms(1) this] have "qa_run ops (\<lambda>_. 0, qa_new) \<noteq> None"
    by (simp add: unused_free_def)
  then obtain outs s where r: "qa_run ops (\<lambda>_. 0, qa_new) = Some (outs, s)" by auto
  obtain items flows where "qa_rep s items flows" "concat (map op_items ops) = map out_item outs @ items"
    "concat (map op_flows ops) = concat (map out_flows outs) @ flows"
    using qa_run_ok [OF qa_rep_new r] by auto
  moreover from this(1) have "items = [] \<or> flows = []" by (auto simp: qa_rep_def split: prod.splits if_splits)
  ultimately show ?thesis using r by blast
qed

theorem qasync_matches_in_order_witness:
  "\<exists>outs s items flows. qa_run [QA_next_async 1, QA_insert 5, QA_insert 6, QA_next, QA_next_async 2]
       (\<lambda>_. 0, qa_new) = Some (outs, s) \<and>
     [5, 6] = map out_item outs @ items \<and> [1, 2] = concat (map out_flows outs) @ flows \<and>
     (items = [] \<or> flows = [])"
  using qasync_matches_in_order [of "[QA_next_async 1, QA_insert 5, QA_insert 6, QA_next, QA_next_async 2]"]
  by (simp add: op_items_def op_flows_def)

end
