(* ===== verification/ExecTimers.thy ===== *)
theory ExecTimers
  imports QListQueue OsTime
begin

section \<open>Timers of an executor (executor/Timer.hxx, executor/Timer.cpp)\<close>

text \<open>
  The timers that run are a linked list behind the member \<open>activeTimers_\<close> of the
  \<open>ActiveTimers\<close> object (address \<open>ANCHOR\<close>), ordered by deadline; the object itself is an
  executable (address \<open>SELF\<close>) that is queued to wake up the executor. A timer links
  through the same \<open>next\<close> pointer when it is in that list and when it is queued for
  execution. Times are \<open>long long\<close>; a signed overflow, a failing assertion, a null
  dereference and a loop that does not end are \<open>None\<close>. The clock is an argument. The
  wakeup of a sleeping \<open>select\<close> is not modelled.
\<close>

subsection \<open>State\<close>

definition ANCHOR :: addr where "ANCHOR = 1"
definition SELF :: addr where "SELF = 2"

definition UINT_MAX :: nat where "UINT_MAX = 4294967295"

record timer =
  t_priority :: nat
  t_when :: int
  t_period :: int
  t_active :: bool
  t_expired :: bool
  t_cancelled :: bool

definition timer_new :: timer where
  "timer_new = \<lparr>t_priority = UINT_MAX, t_when = 0, t_period = 0, t_active = False, t_expired = False,
     t_cancelled = False\<rparr>"

record world =
  links :: links
  queues :: "queue list"
  timers :: "addr \<Rightarrow> timer"
  is_pending :: bool

definition upd_timer :: "addr \<Rightarrow> (timer \<Rightarrow> timer) \<Rightarrow> world \<Rightarrow> world" where
  "upd_timer t f w = w\<lparr>timers := (timers w)(t := f (timers w t))\<rparr>"

subsection \<open>The executor's queue\<close>

definition exec_add :: "addr \<Rightarrow> nat \<Rightarrow> world \<Rightarrow> world option" where
  "exec_add msg priority w = do {
     (nx, qs) \<leftarrow> qlist_insert msg (if priority \<ge> length (queues w) then length (queues w) - 1 else priority)
                  (links w, queues w);
     Some (w\<lparr>links := nx, queues := qs\<rparr>)
   }"

definition exec_next :: "world \<Rightarrow> ((addr \<times> nat) \<times> world) option" where
  "exec_next w = do {
     (r, nx, qs) \<leftarrow> qlist_next (links w, queues w);
     Some (r, w\<lparr>links := nx, queues := qs\<rparr>)
   }"

definition exec_empty :: "world \<Rightarrow> bool" where
  "exec_empty w = qlist_empty (queues w)"

subsection \<open>ActiveTimers\<close>

definition at_notify :: "world \<Rightarrow> world option" where
  "at_notify w = (if \<not> is_pending w then exec_add SELF UINT_MAX (w\<lparr>is_pending := True\<rparr>) else Some w)"

definition at_run :: "world \<Rightarrow> world" where
  "at_run w = w\<lparr>is_pending := False\<rparr>"

definition at_empty :: "world \<Rightarrow> bool" where
  "at_empty w \<longleftrightarrow> links w ANCHOR = 0"

text \<open>The address of the member whose \<open>next\<close> pointer the code keeps in \<open>last\<close>.\<close>

partial_function (option) insert_scan :: "links \<Rightarrow> (addr \<Rightarrow> timer) \<Rightarrow> int \<Rightarrow> addr \<Rightarrow> addr option" where
  "insert_scan nx ts when last_member = do {
     current_timer \<leftarrow> get_next nx last_member;
     if current_timer \<noteq> 0 \<and> t_when (ts current_timer) \<le> when then insert_scan nx ts when current_timer
     else Some last_member
   }"

definition insert_locked :: "addr \<Rightarrow> world \<Rightarrow> world option" where
  "insert_locked timer w = do {
     hassert (timer \<noteq> 0);
     n \<leftarrow> get_next (links w) timer;
     hassert (n = 0);
     last_member \<leftarrow> insert_scan (links w) (timers w) (t_when (timers w timer)) ANCHOR;
     current_timer \<leftarrow> get_next (links w) last_member;
     nx \<leftarrow> set_next timer current_timer (links w);
     nx \<leftarrow> set_next last_member timer nx;
     at_notify (w\<lparr>links := nx\<rparr>)
   }"

partial_function (option) remove_scan :: "links \<Rightarrow> addr \<Rightarrow> addr \<Rightarrow> addr option" where
  "remove_scan nx timer last_member = do {
     c \<leftarrow> get_next nx last_member;
     if c \<noteq> 0 \<and> c \<noteq> timer then remove_scan nx timer c else Some last_member
   }"

definition remove_locked :: "addr \<Rightarrow> world \<Rightarrow> world option" where
  "remove_locked timer w = do {
     hassert (timer \<noteq> 0);
     last_member \<leftarrow> remove_scan (links w) timer ANCHOR;
     c \<leftarrow> get_next (links w) last_member;
     hassert (c = timer);
     n \<leftarrow> get_next (links w) timer;
     nx \<leftarrow> set_next last_member n (links w);
     nx \<leftarrow> set_next timer 0 nx;
     Some (w\<lparr>links := nx\<rparr>)
   }"

definition schedule_timer :: "addr \<Rightarrow> world \<Rightarrow> world option" where
  "schedule_timer timer w = insert_locked timer w"

definition update_timer :: "addr \<Rightarrow> world \<Rightarrow> world option" where
  "update_timer timer w = do {
     hassert (timer \<noteq> 0);
     w \<leftarrow> remove_locked timer w;
     insert_locked timer w
   }"

definition remove_timer :: "addr \<Rightarrow> world \<Rightarrow> world option" where
  "remove_timer timer w = do {
     hassert (timer \<noteq> 0);
     w \<leftarrow> remove_locked timer w;
     Some (upd_timer timer (\<lambda>t. t\<lparr>t_active := False\<rparr>) w)
   }"

text \<open>The loop of \<open>get_next_timeout\<close>, with what it keeps in \<open>found_timer\<close>.\<close>

partial_function (option) expire_loop :: "int \<Rightarrow> bool \<Rightarrow> world \<Rightarrow> (bool \<times> world) option" where
  "expire_loop now found_timer w = do {
     current_timer \<leftarrow> get_next (links w) ANCHOR;
     if current_timer \<noteq> 0 \<and> t_when (timers w current_timer) \<le> now then do {
       n \<leftarrow> get_next (links w) current_timer;
       nx \<leftarrow> set_next ANCHOR n (links w);
       nx \<leftarrow> set_next current_timer 0 nx;
       let w = upd_timer current_timer (\<lambda>t. t\<lparr>t_active := False, t_expired := True\<rparr>) (w\<lparr>links := nx\<rparr>);
       w \<leftarrow> exec_add current_timer (t_priority (timers w current_timer)) w;
       expire_loop now True w
     } else Some (found_timer, w)
   }"

definition get_next_timeout :: "int \<Rightarrow> world \<Rightarrow> (int \<times> world) option" where
  "get_next_timeout now w = do {
     (found_timer, w) \<leftarrow> expire_loop now False w;
     current_timer \<leftarrow> get_next (links w) ANCHOR;
     if found_timer then Some (0, w)
     else if current_timer \<noteq> 0 then do {
       ret \<leftarrow> ll (t_when (timers w current_timer) - now);
       Some (ret, w)
     }
     else do {
       ret \<leftarrow> SEC_TO_NSEC 3600;
       Some (ret, w)
     }
   }"

subsection \<open>Timer\<close>

definition timer_start :: "int \<Rightarrow> int \<Rightarrow> addr \<Rightarrow> world \<Rightarrow> world option" where
  "timer_start now period t w = do {
     hassert (\<not> t_active (timers w t));
     hassert (\<not> t_expired (timers w t));
     when \<leftarrow> ll (now + period);
     schedule_timer t (upd_timer t (\<lambda>x. x\<lparr>t_active := True, t_cancelled := False, t_when := when,
       t_period := period\<rparr>) w)
   }"

definition timer_start_absolute :: "int \<Rightarrow> int \<Rightarrow> addr \<Rightarrow> world \<Rightarrow> world option" where
  "timer_start_absolute now expiry_time_nsec t w = do {
     hassert (\<not> t_active (timers w t));
     hassert (\<not> t_expired (timers w t));
     period \<leftarrow> ll (expiry_time_nsec - now);
     schedule_timer t (upd_timer t (\<lambda>x. x\<lparr>t_active := True, t_cancelled := False,
       t_when := expiry_time_nsec, t_period := period\<rparr>) w)
   }"

definition timer_restart :: "int \<Rightarrow> addr \<Rightarrow> world \<Rightarrow> world option" where
  "timer_restart now t w =
     (if t_expired (timers w t) then Some w
      else do {
        when \<leftarrow> ll (now + t_period (timers w t));
        let w = upd_timer t (\<lambda>x. x\<lparr>t_when := when, t_cancelled := False\<rparr>) w;
        if t_active (timers w t) then update_timer t w
        else schedule_timer t (upd_timer t (\<lambda>x. x\<lparr>t_active := True\<rparr>) w)
      })"

definition timer_trigger :: "addr \<Rightarrow> world \<Rightarrow> world option" where
  "timer_trigger t w =
     (if t_expired (timers w t) then Some w
      else do {
        hassert (t_active (timers w t));
        update_timer t (upd_timer t (\<lambda>x. x\<lparr>t_cancelled := True, t_when := 2\<rparr>) w)
      })"

definition timer_ensure_triggered :: "addr \<Rightarrow> world \<Rightarrow> world option" where
  "timer_ensure_triggered t w = (if t_active (timers w t) then timer_trigger t w else Some w)"

definition timer_cancel :: "addr \<Rightarrow> world \<Rightarrow> world option" where
  "timer_cancel t w = do {
     let w = upd_timer t (\<lambda>x. x\<lparr>t_when := LLONG_MAX\<rparr>) w;
     hassert (\<not> t_expired (timers w t));
     let w = upd_timer t (\<lambda>x. x\<lparr>t_cancelled := True\<rparr>) w;
     if t_active (timers w t) then remove_timer t w else Some w
   }"

definition timer_is_triggered :: "addr \<Rightarrow> world \<Rightarrow> bool" where
  "timer_is_triggered t w = t_cancelled (timers w t)"

definition timer_set_triggered :: "addr \<Rightarrow> world \<Rightarrow> world" where
  "timer_set_triggered t w = upd_timer t (\<lambda>x. x\<lparr>t_cancelled := True\<rparr>) w"

definition timer_update_period :: "int \<Rightarrow> addr \<Rightarrow> world \<Rightarrow> world" where
  "timer_update_period period t w = upd_timer t (\<lambda>x. x\<lparr>t_period := period\<rparr>) w"

definition timer_delete :: "addr \<Rightarrow> world \<Rightarrow> world option" where
  "timer_delete t w = do {
     hassert (\<not> t_active (timers w t));
     hassert (\<not> t_expired (timers w t));
     Some w
   }"

definition TIMER_NONE :: int where "TIMER_NONE = 0"
definition TIMER_RESTART :: int where "TIMER_RESTART = 1"
definition TIMER_DELETE :: int where "TIMER_DELETE = -1"

text \<open>
  \<open>run\<close> before and after the call of the virtual method \<open>timeout\<close> of the client; \<open>now\<close> is
  the clock when that has returned.
\<close>

definition timer_begin :: "addr \<Rightarrow> world \<Rightarrow> world" where
  "timer_begin t w = upd_timer t (\<lambda>x. x\<lparr>t_expired := False\<rparr>) w"

definition timer_finish :: "int \<Rightarrow> int \<Rightarrow> addr \<Rightarrow> world \<Rightarrow> world option" where
  "timer_finish new_period now t w =
     (if new_period = TIMER_RESTART then do {
        when \<leftarrow> ll (t_when (timers w t) + t_period (timers w t));
        schedule_timer t (upd_timer t (\<lambda>x. x\<lparr>t_when := when, t_active := True\<rparr>) w)
      }
      else if new_period = TIMER_DELETE then timer_delete t w
      else if new_period > 0 then timer_start now new_period t w
      else Some w)"

definition timer_run :: "(world \<Rightarrow> (int \<times> world) option) \<Rightarrow> int \<Rightarrow> addr \<Rightarrow> world \<Rightarrow> world option" where
  "timer_run timeout now t w = do {
     (new_period, w) \<leftarrow> timeout (timer_begin t w);
     timer_finish new_period now t w
   }"

end
