(* ===== verification/TimersInv.thy ===== *)
theory TimersInv
  imports ExecTimers
begin

section \<open>The timer list and the executor's queue\<close>

text \<open>
  \<open>linked w xs xss\<close>: the timer list holds \<open>xs\<close>, the priority bands hold \<open>xss\<close>, no member
  is in two places and all other members are unlinked. The lemmas give each list
  operation on the linked structure as an operation on the lists, and with it that
  every loop ends and every assertion holds.
\<close>

definition linked :: "world \<Rightarrow> addr list \<Rightarrow> addr list list \<Rightarrow> bool" where
  "linked w xs xss \<longleftrightarrow>
     chain (links w) (ANCHOR # xs) 0 \<and> distinct (ANCHOR # xs @ concat xss) \<and> 0 \<notin> set (xs @ concat xss) \<and>
     qlist_rep (links w, queues w) xss \<and> xss \<noteq> [] \<and>
     (\<forall>a. a \<notin> set (ANCHOR # xs @ concat xss) \<longrightarrow> links w a = 0)"

lemma linkedD:
  assumes "linked w xs xss"
  shows "chain (links w) (ANCHOR # xs) 0" "distinct (ANCHOR # xs @ concat xss)" "0 \<notin> set (xs @ concat xss)"
    "qlist_rep (links w, queues w) xss" "xss \<noteq> []"
    and "a \<notin> set (ANCHOR # xs @ concat xss) \<Longrightarrow> links w a = 0"
  using assms by (auto simp: linked_def)

lemma linked_cong: "linked w xs xss \<Longrightarrow> links w' = links w \<Longrightarrow> queues w' = queues w \<Longrightarrow> linked w' xs xss"
  by (simp add: linked_def)

lemma upd_timer_fields [simp]:
  "links (upd_timer t f w) = links w" "queues (upd_timer t f w) = queues w"
  "is_pending (upd_timer t f w) = is_pending w"
  "timers (upd_timer t f w) = (timers w)(t := f (timers w t))"
  by (simp_all add: upd_timer_def)

lemma linked_upd_timer [simp]: "linked (upd_timer t f w) xs xss = linked w xs xss"
  by (simp add: linked_def)

lemma anchor_nonzero [simp]: "ANCHOR \<noteq> 0" "ANCHOR \<noteq> SELF" "SELF \<noteq> ANCHOR" "SELF \<noteq> 0" "0 < ANCHOR" "0 < SELF"
  by (simp_all add: ANCHOR_def SELF_def)

lemma pq_insert_length [simp]: "length (pq_insert x p xss) = length xss"
  by (simp add: pq_insert_def Let_def)

lemma pq_insert_nonempty [simp]: "pq_insert x p xss = [] \<longleftrightarrow> xss = []"
  using pq_insert_length [of x p xss] by (metis length_0_conv)

lemma qlist_rep_length: "qlist_rep (nx, qs) xss \<Longrightarrow> length qs = length xss"
  by (auto simp: qlist_rep_def dest: list_all2_lengthD)

subsection \<open>Queueing\<close>

lemma exec_add_ok:
  assumes "linked w xs xss" "x \<notin> set (ANCHOR # xs @ concat xss)" "x \<noteq> 0"
  obtains w' where "exec_add x p w = Some w'" "linked w' xs (pq_insert x p xss)" "timers w' = timers w"
    "is_pending w' = is_pending w"
proof -
  note w = linkedD(1-5) [OF assms(1)] and l = linkedD(6) [OF assms(1)]
  let ?p = "if p \<ge> length (queues w) then length (queues w) - 1 else p"
  have p: "pq_insert x ?p xss = pq_insert x p xss"
    using qlist_rep_length [OF w(4)] by (simp add: pq_insert_def Let_def)
  have "x \<notin> set (concat xss)" "links w x = 0" using assms(2) l by auto
  from qlist_insert_ok [OF w(4,5) this(1) assms(3) this(2), of ?p]
  obtain nx qs where i: "qlist_insert x ?p (links w, queues w) = Some (nx, qs)"
    "qlist_rep (nx, qs) (pq_insert x p xss)" "\<And>a. a \<notin> set (concat xss) \<Longrightarrow> nx a = links w a"
    unfolding p by blast
  let ?w = "w\<lparr>links := nx, queues := qs\<rparr>"
  have "chain nx (ANCHOR # xs) 0 = chain (links w) (ANCHOR # xs) 0"
    by (rule chain_cong, rule i(3)) (use w(2) in auto)
  moreover have "distinct (ANCHOR # xs @ concat (pq_insert x p xss))"
    using w(2) assms(2) i(2) unfolding distinct.simps distinct_append set_append pq_insert_members [OF w(5)]
    by (auto simp: qlist_rep_def)
  moreover have "0 \<notin> set (xs @ concat (pq_insert x p xss))"
    using w(3) assms(3) unfolding set_append pq_insert_members [OF w(5)] by simp
  moreover have "nx a = 0" if "a \<notin> set (ANCHOR # xs @ concat (pq_insert x p xss))" for a
    using that i(3) [of a] l [of a] unfolding set_append list.set pq_insert_members [OF w(5)] by simp
  ultimately have "linked ?w xs (pq_insert x p xss)"
    using w(1,5) i(2) unfolding linked_def by simp
  then show ?thesis
    using that [of ?w] i(1) by (simp add: exec_add_def)
qed

definition wake :: "world \<Rightarrow> addr list list \<Rightarrow> addr list list" where
  "wake w xss = (if is_pending w then xss else pq_insert SELF UINT_MAX xss)"

lemma at_notify_ok:
  assumes "linked w xs xss" "SELF \<notin> set xs" "\<not> is_pending w \<Longrightarrow> SELF \<notin> set (concat xss)"
  obtains w' where "at_notify w = Some w'" "linked w' xs (wake w xss)" "timers w' = timers w" "is_pending w'"
proof (cases "is_pending w")
  case True
  then show ?thesis using that assms(1) by (simp add: at_notify_def wake_def)
next
  case False
  have l: "linked (w\<lparr>is_pending := True\<rparr>) xs xss" by (rule linked_cong [OF assms(1)]) simp_all
  have "SELF \<notin> set (ANCHOR # xs @ concat xss)" using assms(2,3) False by simp
  from exec_add_ok [OF l this, of UINT_MAX] show ?thesis
    using that False by (auto simp: at_notify_def wake_def)
qed

subsection \<open>The timer list\<close>

definition place :: "(addr \<Rightarrow> timer) \<Rightarrow> addr \<Rightarrow> addr list \<Rightarrow> addr list" where
  "place ts t xs = takeWhile (\<lambda>x. t_when (ts x) \<le> t_when (ts t)) xs @
     t # dropWhile (\<lambda>x. t_when (ts x) \<le> t_when (ts t)) xs"

lemma place_members [simp]: "set (place ts t xs) = insert t (set xs)"
proof -
  have "set (takeWhile P xs) \<union> set (dropWhile P xs) = set xs" for P
    by (metis set_append takeWhile_dropWhile_id)
  then show ?thesis by (auto simp: place_def)
qed

lemma insert_scan_ok:
  "chain nx (a # ys) 0 \<Longrightarrow> 0 \<notin> set (a # ys) \<Longrightarrow>
   insert_scan nx ts when a = Some (last_or (takeWhile (\<lambda>x. t_when (ts x) \<le> when) ys) a)"
proof (induction ys arbitrary: a)
  case Nil
  then show ?case by (subst insert_scan.simps) simp
next
  case (Cons y ys)
  then show ?case by (subst insert_scan.simps) simp
qed

lemma remove_scan_ok:
  "chain nx (a # us @ t # vs) 0 \<Longrightarrow> 0 \<notin> set (a # us @ t # vs) \<Longrightarrow> t \<notin> set us \<Longrightarrow>
   remove_scan nx t a = Some (last_or us a)"
proof (induction us arbitrary: a)
  case Nil
  then show ?case by (subst remove_scan.simps) simp
next
  case (Cons u us)
  then show ?case by (subst remove_scan.simps) auto
qed

lemma chain_insert:
  assumes "chain nx (a # us @ vs) 0" "distinct (a # us @ vs)" "t \<notin> set (a # us @ vs)"
  shows "chain (nx(t := hd_or vs 0, last_or us a := t)) (a # us @ t # vs) 0"
proof (cases us rule: rev_cases)
  case Nil
  then show ?thesis using assms by auto
next
  case (snoc ys y)
  then show ?thesis using assms by auto
qed

lemma chain_remove:
  assumes "chain nx (a # us @ t # vs) 0" "distinct (a # us @ t # vs)"
  shows "chain (nx(last_or us a := hd_or vs 0, t := 0)) (a # us @ vs) 0"
proof (cases us rule: rev_cases)
  case Nil
  then show ?thesis using assms by auto
next
  case (snoc ys y)
  then show ?thesis using assms by auto
qed

lemma chain_next_last: "chain nx (a # us @ vs) 0 \<Longrightarrow> nx (last_or us a) = hd_or vs 0"
  by (induction us arbitrary: a) auto

lemma insert_locked_ok:
  assumes "linked w xs xss" "t \<notin> set (ANCHOR # xs @ concat xss)" "t \<noteq> 0"
    and "SELF \<notin> insert t (set xs)" "\<not> is_pending w \<Longrightarrow> SELF \<notin> set (concat xss)"
  obtains w' where "insert_locked t w = Some w'" "linked w' (place (timers w) t xs) (wake w xss)"
    "timers w' = timers w" "is_pending w'"
proof -
  note w = linkedD(1-5) [OF assms(1)] and l = linkedD(6) [OF assms(1)]
  define us where "us = takeWhile (\<lambda>x. t_when (timers w x) \<le> t_when (timers w t)) xs"
  define vs where "vs = dropWhile (\<lambda>x. t_when (timers w x) \<le> t_when (timers w t)) xs"
  have xs: "xs = us @ vs" by (simp add: us_def vs_def)
  have pl: "place (timers w) t xs = us @ t # vs" by (simp add: place_def us_def vs_def)
  define m where "m = last_or us ANCHOR"
  have m: "m \<in> insert ANCHOR (set us)" using last_or_in_or [of us ANCHOR] by (simp add: m_def)
  have m0: "m \<noteq> 0" using m w(3) xs by (cases "m = 0") auto
  have s: "insert_scan (links w) (timers w) (t_when (timers w t)) ANCHOR = Some m"
    using insert_scan_ok [OF w(1), of "timers w" "t_when (timers w t)"] w(3) by (simp add: m_def us_def)
  have c: "links w m = hd_or vs 0" using chain_next_last w(1) xs by (simp add: m_def)
  let ?nx = "(links w)(t := hd_or vs 0, m := t)"
  let ?w = "w\<lparr>links := ?nx\<rparr>"
  have "chain ?nx (ANCHOR # us @ t # vs) 0"
    unfolding m_def by (rule chain_insert) (use w(1,2) assms(2) xs in auto)
  moreover have "qlist_rep (?nx, queues w) xss"
    by (rule qlist_rep_cong [OF w(4)]) (use m w(2) assms(2) xs in auto)
  moreover have "?nx a = 0" if "a \<notin> set (ANCHOR # (us @ t # vs) @ concat xss)" for a
    using that l [of a] m xs by auto
  ultimately have lk: "linked ?w (us @ t # vs) xss"
    using w(2,3,5) assms(2,3) xs unfolding linked_def by auto
  have "SELF \<notin> set (us @ t # vs)" using assms(4) xs by simp
  from at_notify_ok [OF lk this] assms(5)
  obtain w' where w': "at_notify ?w = Some w'" "linked w' (us @ t # vs) (wake ?w xss)" "timers w' = timers w"
    "is_pending w'" by auto
  have "links w t = 0" by (rule l [OF assms(2)])
  then have "insert_locked t w = Some w'"
    using w'(1) s c m0 assms(3) by (simp add: insert_locked_def)
  then show ?thesis using that w'(2-4) by (simp add: pl wake_def)
qed

lemma remove_locked_ok:
  assumes "linked w xs xss" "t \<in> set xs"
  obtains w' where "remove_locked t w = Some w'" "linked w' (remove1 t xs) xss"
    "timers w' = timers w" "is_pending w' = is_pending w"
proof -
  note w = linkedD(1-5) [OF assms(1)] and l = linkedD(6) [OF assms(1)]
  obtain us vs where xs: "xs = us @ t # vs" using assms(2) split_list by fastforce
  have r: "remove1 t xs = us @ vs" using w(2) xs by (simp add: remove1_append)
  define m where "m = last_or us ANCHOR"
  have m: "m \<in> insert ANCHOR (set us)" using last_or_in_or [of us ANCHOR] by (simp add: m_def)
  have m0: "m \<noteq> 0" "t \<noteq> 0" "t \<noteq> m" using m w(2,3) xs by auto
  have s: "remove_scan (links w) t ANCHOR = Some m"
    using remove_scan_ok [of "links w" ANCHOR us t vs] w(1-3) xs by (simp add: m_def)
  have c: "links w m = t" "links w t = hd_or vs 0"
    using chain_next_last [of "links w" ANCHOR us "t # vs"] w(1) xs by (simp_all add: m_def)
  let ?nx = "(links w)(m := hd_or vs 0, t := 0)"
  let ?w = "w\<lparr>links := ?nx\<rparr>"
  have "chain ?nx (ANCHOR # us @ vs) 0"
    unfolding m_def by (rule chain_remove) (use w(1,2) xs in auto)
  moreover have "qlist_rep (?nx, queues w) xss"
    by (rule qlist_rep_cong [OF w(4)]) (use m w(2) xs in auto)
  moreover have "?nx a = 0" if "a \<notin> set (ANCHOR # (us @ vs) @ concat xss)" for a
    using that l [of a] m xs by auto
  ultimately have "linked ?w (us @ vs) xss"
    using w(2,3,5) xs unfolding linked_def by auto
  moreover have "remove_locked t w = Some ?w"
    using s c m0 by (simp add: remove_locked_def)
  ultimately show ?thesis using that r by simp
qed

end
