(* ===== verification/TimersOps.thy ===== *)
theory TimersOps
  imports TimersInv
begin

section \<open>What the timer operations do\<close>

text \<open>
  \<open>sched T held w xs xss\<close>: the structure is linked, and the flags tell the truth: a timer
  (of the set \<open>T\<close>) is active exactly when it is in the timer list, expired exactly when it
  is queued or has just been taken from the queue (\<open>held\<close>, 0 when nothing is), and
  \<open>isPending_\<close> says the same of the \<open>ActiveTimers\<close> object. \<open>by_deadline\<close> is the order of
  the list.
\<close>

definition sched :: "addr set \<Rightarrow> addr \<Rightarrow> world \<Rightarrow> addr list \<Rightarrow> addr list list \<Rightarrow> bool" where
  "sched T held w xs xss \<longleftrightarrow>
     linked w xs xss \<and> set xs \<subseteq> T \<and> 0 \<notin> T \<and> ANCHOR \<notin> T \<and> SELF \<notin> T \<and>
     held \<notin> set (ANCHOR # xs @ concat xss) \<and>
     (\<forall>t\<in>T. t_active (timers w t) = (t \<in> set xs) \<and>
            t_expired (timers w t) = (t \<in> set (concat xss) \<or> t = held)) \<and>
     is_pending w = (SELF \<in> set (concat xss) \<or> held = SELF)"

definition by_deadline :: "world \<Rightarrow> addr list \<Rightarrow> bool" where
  "by_deadline w xs = sorted (map (\<lambda>t. t_when (timers w t)) xs)"

lemma schedD:
  assumes "sched T held w xs xss"
  shows "linked w xs xss" "set xs \<subseteq> T" "0 \<notin> T" "ANCHOR \<notin> T" "SELF \<notin> T"
    "held \<notin> set (ANCHOR # xs @ concat xss)"
    and "t \<in> T \<Longrightarrow> t_active (timers w t) = (t \<in> set xs)"
    and "t \<in> T \<Longrightarrow> t_expired (timers w t) = (t \<in> set (concat xss) \<or> t = held)"
    and "is_pending w = (SELF \<in> set (concat xss) \<or> held = SELF)"
  using assms by (auto simp: sched_def)

lemma wake_members:
  "xss \<noteq> [] \<Longrightarrow> set (concat (wake w xss)) = (if is_pending w then set (concat xss) else insert SELF (set (concat xss)))"
  using pq_insert_members [of xss SELF UINT_MAX] by (simp add: wake_def)

lemma wake_SELF:
  assumes "sched T held w xs xss"
  shows "SELF \<in> set (concat (wake w xss)) \<or> held = SELF"
  using schedD(9) [OF assms] wake_members [OF linkedD(5) [OF schedD(1) [OF assms]], of w] by auto

lemma deadline_upd:
  "t \<notin> set xs \<Longrightarrow> map (\<lambda>x. t_when ((ts(t := v)) x)) xs = map (\<lambda>x. t_when (ts x)) xs"
  by (rule map_cong) auto

lemma place_sorted:
  assumes "sorted (map (\<lambda>x. t_when (ts x)) xs)"
  shows "sorted (map (\<lambda>x. t_when (ts x)) (place ts t xs))"
proof -
  let ?k = "\<lambda>x. t_when (ts x)"
  have s: "sorted (map ?k (takeWhile P xs))" "sorted (map ?k (dropWhile P xs))" for P
    using assms by (metis map_append sorted_append takeWhile_dropWhile_id)+
  have "\<forall>x\<in>set (takeWhile (\<lambda>x. ?k x \<le> ?k t) xs). ?k x \<le> ?k t"
    by (auto dest: set_takeWhileD)
  moreover have "\<forall>x\<in>set (dropWhile (\<lambda>x. ?k x \<le> ?k t) xs). ?k t \<le> ?k x"
  proof (cases "dropWhile (\<lambda>x. ?k x \<le> ?k t) xs")
    case (Cons y ys)
    then have "\<not> ?k y \<le> ?k t" by (simp add: dropWhile_eq_Cons_conv)
    moreover have "sorted (map ?k (y # ys))" using s(2) Cons by metis
    ultimately show ?thesis unfolding Cons by auto
  next
    case Nil
    show ?thesis unfolding Nil by simp
  qed
  ultimately show ?thesis
    using s unfolding place_def by (auto simp: sorted_append) (meson order_trans)
qed

text \<open>Putting a timer that is nowhere into the list.\<close>

lemma sched_insert:
  assumes "sched T held w xs xss" "t \<in> T" "\<not> t_active (timers w t)" "\<not> t_expired (timers w t)"
    and "t_active (f (timers w t))" "\<not> t_expired (f (timers w t))"
  obtains w' where "insert_locked t (upd_timer t f w) = Some w'"
    "sched T held w' (place ((timers w)(t := f (timers w t))) t xs) (wake w xss)"
    "timers w' = (timers w)(t := f (timers w t))" "by_deadline w xs \<Longrightarrow>
     by_deadline w' (place ((timers w)(t := f (timers w t))) t xs)"
proof -
  note s = schedD [OF assms(1)]
  have t: "t \<notin> set xs" "t \<notin> set (concat xss)" "t \<noteq> held" "t \<noteq> 0" "t \<noteq> ANCHOR" "t \<noteq> SELF"
    using s(3-5) s(7,8) [OF assms(2)] assms(2-4) by (cases "t = 0"; auto)+
  let ?ts = "(timers w)(t := f (timers w t))"
  have l: "linked (upd_timer t f w) xs xss" using s(1) by simp
  have "t \<notin> set (ANCHOR # xs @ concat xss)" "SELF \<notin> insert t (set xs)"
    "\<not> is_pending (upd_timer t f w) \<Longrightarrow> SELF \<notin> set (concat xss)"
    using t s(2,5,9) by auto
  from insert_locked_ok [OF l this(1) t(4) this(2,3)]
  obtain w' where w': "insert_locked t (upd_timer t f w) = Some w'" "linked w' (place ?ts t xs) (wake w xss)"
    "timers w' = ?ts" "is_pending w'"
    by (auto simp: wake_def)
  have m: "x \<in> set (concat (wake w xss)) \<longleftrightarrow> x \<in> set (concat xss)" if "x \<in> T" for x
    using wake_members [OF linkedD(5) [OF s(1)], of w] that s(5) by auto
  have "held \<notin> set (ANCHOR # place ?ts t xs @ concat (wake w xss))"
    using s(6,9) t(3) unfolding set_append list.set place_members wake_members [OF linkedD(5) [OF s(1)]]
    by auto
  moreover have "\<forall>x\<in>T. t_active (timers w' x) = (x \<in> set (place ?ts t xs)) \<and>
      t_expired (timers w' x) = (x \<in> set (concat (wake w xss)) \<or> x = held)"
    using s(7,8) m assms(5,6) t w'(3) by auto
  moreover have "SELF \<in> set (concat (wake w xss)) \<or> held = SELF"
    by (rule wake_SELF [OF assms(1)])
  ultimately have "sched T held w' (place ?ts t xs) (wake w xss)"
    using s(2-5) assms(2) w'(2,4) unfolding sched_def by auto
  moreover have "by_deadline w' (place ?ts t xs)" if "by_deadline w xs"
    unfolding by_deadline_def w'(3)
    by (rule place_sorted) (use that in \<open>unfold deadline_upd [OF t(1)] by_deadline_def\<close>)
  ultimately show ?thesis using that w'(1,3) by blast
qed

text \<open>Moving a timer within the list, and taking it out.\<close>

lemma sched_update:
  assumes "sched T held w xs xss" "t \<in> T" "t_active (timers w t)"
    and "t_active (f (timers w t))" "\<not> t_expired (f (timers w t))"
  obtains w' where "update_timer t (upd_timer t f w) = Some w'"
    "sched T held w' (place ((timers w)(t := f (timers w t))) t (remove1 t xs)) (wake w xss)"
    "timers w' = (timers w)(t := f (timers w t))" "by_deadline w xs \<Longrightarrow>
     by_deadline w' (place ((timers w)(t := f (timers w t))) t (remove1 t xs))"
proof -
  note s = schedD [OF assms(1)]
  have d: "distinct (ANCHOR # xs @ concat xss)" using linkedD(2) [OF s(1)] .
  have t: "t \<in> set xs" "t \<notin> set (concat xss)" "t \<noteq> held" "t \<noteq> 0" "t \<noteq> ANCHOR" "t \<noteq> SELF"
    using s(3-5) s(6) s(7) [OF assms(2)] assms(2,3) d by (cases "t = 0"; auto)+
  let ?ts = "(timers w)(t := f (timers w t))" and ?w = "upd_timer t f w" and ?ys = "remove1 t xs"
  have ys: "set ?ys = set xs - {t}" using d by simp
  have "linked ?w xs xss" using s(1) by simp
  from remove_locked_ok [OF this t(1)]
  obtain v where v: "remove_locked t ?w = Some v" "linked v ?ys xss" "timers v = ?ts" "is_pending v = is_pending w"
    by auto
  have "t \<notin> set (ANCHOR # ?ys @ concat xss)" "SELF \<notin> insert t (set ?ys)"
    "\<not> is_pending v \<Longrightarrow> SELF \<notin> set (concat xss)"
    using t s(2,5,9) ys v(4) by auto
  from insert_locked_ok [OF v(2) this(1) t(4) this(2,3)]
  obtain w' where w': "insert_locked t v = Some w'" "linked w' (place ?ts t ?ys) (wake w xss)"
    "timers w' = ?ts" "is_pending w'"
    using v(3,4) by (auto simp: wake_def)
  have m: "x \<in> set (concat (wake w xss)) \<longleftrightarrow> x \<in> set (concat xss)" if "x \<in> T" for x
    using wake_members [OF linkedD(5) [OF s(1)], of w] that s(5) by auto
  have "held \<notin> set (ANCHOR # place ?ts t ?ys @ concat (wake w xss))"
    using s(6,9) t(3) ys unfolding set_append list.set place_members wake_members [OF linkedD(5) [OF s(1)]]
    by auto
  moreover have "\<forall>x\<in>T. t_active (timers w' x) = (x \<in> set (place ?ts t ?ys)) \<and>
      t_expired (timers w' x) = (x \<in> set (concat (wake w xss)) \<or> x = held)"
    using s(7,8) m assms(4,5) t ys w'(3) by auto
  moreover have "SELF \<in> set (concat (wake w xss)) \<or> held = SELF"
    by (rule wake_SELF [OF assms(1)])
  ultimately have "sched T held w' (place ?ts t ?ys) (wake w xss)"
    using s(2-5) assms(2) w'(2,4) ys unfolding sched_def by auto
  moreover have "by_deadline w' (place ?ts t ?ys)" if "by_deadline w xs"
  proof -
    have n: "t \<notin> set ?ys" using ys by simp
    have "sorted (map (\<lambda>x. t_when (timers w x)) ?ys)"
      using that unfolding by_deadline_def by (rule sorted_map_remove1)
    then have "sorted (map (\<lambda>x. t_when (?ts x)) ?ys)" unfolding deadline_upd [OF n] .
    then show ?thesis unfolding by_deadline_def w'(3) by (rule place_sorted)
  qed
  moreover have "update_timer t ?w = Some w'"
    using v(1) w'(1) t(4) by (simp add: update_timer_def)
  ultimately show ?thesis using that w'(3) by blast
qed

lemma sched_remove:
  assumes "sched T held w xs xss" "t \<in> T" "t_active (timers w t)"
    and "t_active (f (timers w t))" "\<not> t_expired (f (timers w t))"
  obtains w' where "remove_timer t (upd_timer t f w) = Some w'" "sched T held w' (remove1 t xs) xss"
    "timers w' = (timers w)(t := (f (timers w t))\<lparr>t_active := False\<rparr>)"
    "by_deadline w xs \<Longrightarrow> by_deadline w' (remove1 t xs)"
proof -
  note s = schedD [OF assms(1)]
  have d: "distinct (ANCHOR # xs @ concat xss)" using linkedD(2) [OF s(1)] .
  have t: "t \<in> set xs" "t \<notin> set (concat xss)" "t \<noteq> held" "t \<noteq> 0"
    using s(3) s(6) s(7) [OF assms(2)] assms(2,3) d by (cases "t = 0"; auto)+
  have ys: "set (remove1 t xs) = set xs - {t}" using d by simp
  have "linked (upd_timer t f w) xs xss" using s(1) by simp
  from remove_locked_ok [OF this t(1)]
  obtain v where v: "remove_locked t (upd_timer t f w) = Some v" "linked v (remove1 t xs) xss"
    "timers v = (timers w)(t := f (timers w t))" "is_pending v = is_pending w"
    by auto
  let ?w = "upd_timer t (\<lambda>t. t\<lparr>t_active := False\<rparr>) v"
  have "sched T held ?w (remove1 t xs) xss"
    using s(2-9) v t ys assms(4,5) unfolding sched_def by auto
  moreover have "by_deadline ?w (remove1 t xs)" if "by_deadline w xs"
  proof -
    have n: "t \<notin> set (remove1 t xs)" using ys by simp
    have "sorted (map (\<lambda>x. t_when (timers w x)) (remove1 t xs))"
      using that unfolding by_deadline_def by (rule sorted_map_remove1)
    then show ?thesis unfolding by_deadline_def upd_timer_fields v(3) deadline_upd [OF n] .
  qed
  moreover have "remove_timer t (upd_timer t f w) = Some ?w"
    using v(1) t(4) by (simp add: remove_timer_def)
  ultimately show ?thesis using that v(3) by simp
qed

subsection \<open>Expiry\<close>

definition expired_timer :: "timer \<Rightarrow> timer" where
  "expired_timer x = x\<lparr>t_active := False, t_expired := True\<rparr>"

definition queue_all :: "(addr \<Rightarrow> timer) \<Rightarrow> addr list \<Rightarrow> addr list list \<Rightarrow> addr list list" where
  "queue_all ts xs xss = fold (\<lambda>t. pq_insert t (t_priority (ts t))) xs xss"

lemma expire_one:
  assumes "sched T held w (x # xs) xss" "t_when (timers w x) \<le> now"
  obtains w' where "sched T held w' xs (pq_insert x (t_priority (timers w x)) xss)"
    "timers w' = (timers w)(x := expired_timer (timers w x))"
    "expire_loop now b w = expire_loop now True w'"
proof -
  note s = schedD [OF assms(1)] and l = linkedD [OF schedD(1) [OF assms(1)]]
  have x: "x \<noteq> 0" "links w ANCHOR = x" "links w x = hd_or xs 0" "x \<in> T"
    using l(1,3) s(2) by (cases "x = 0"; auto)+
  let ?nx = "(links w)(ANCHOR := hd_or xs 0, x := 0)"
  let ?w = "upd_timer x expired_timer (w\<lparr>links := ?nx\<rparr>)"
  have "chain ?nx (ANCHOR # xs) 0"
    using chain_remove [of "links w" ANCHOR "[]" x xs] l(1,2) by simp
  moreover have "qlist_rep (?nx, queues w) xss"
    by (rule qlist_rep_cong [OF l(4)]) (use l(2) in auto)
  moreover have "?nx a = 0" if "a \<notin> set (ANCHOR # xs @ concat xss)" for a
    using that l(6) [of a] by auto
  ultimately have "linked (w\<lparr>links := ?nx\<rparr>) xs xss"
    using l(2,3,5) unfolding linked_def by auto
  then have lk: "linked ?w xs xss" by simp
  have out: "x \<notin> set (ANCHOR # xs @ concat xss)" using l(2) by auto
  from exec_add_ok [OF lk out x(1), of "t_priority (timers w x)"]
  obtain w' where w': "exec_add x (t_priority (timers w x)) ?w = Some w'"
    "linked w' xs (pq_insert x (t_priority (timers w x)) xss)"
    "timers w' = (timers w)(x := expired_timer (timers w x))" "is_pending w' = is_pending w"
    by auto
  have m: "set (concat (pq_insert x p xss)) = insert x (set (concat xss))" for p
    by (rule pq_insert_members [OF l(5)])
  have "held \<notin> set (ANCHOR # xs @ concat (pq_insert x (t_priority (timers w x)) xss))"
    using s(6) unfolding set_append list.set m by auto
  moreover have "\<forall>y\<in>T. t_active (timers w' y) = (y \<in> set xs) \<and>
     t_expired (timers w' y) = (y \<in> set (concat (pq_insert x (t_priority (timers w x)) xss)) \<or> y = held)"
    unfolding m w'(3) using s(7,8) out by (auto simp: expired_timer_def)
  moreover have "is_pending w' = (SELF \<in> set (concat (pq_insert x (t_priority (timers w x)) xss)) \<or> held = SELF)"
    unfolding m w'(4) using s(5,9) x(4) by auto
  ultimately have "sched T held w' xs (pq_insert x (t_priority (timers w x)) xss)"
    using s(2-5) w'(2) unfolding sched_def by auto
  moreover have "expire_loop now b w = expire_loop now True w'"
  proof -
    have e: "(\<lambda>t. t\<lparr>t_active := False, t_expired := True\<rparr>) = expired_timer"
      by (rule ext) (simp add: expired_timer_def)
    have "t_priority (timers ?w x) = t_priority (timers w x)" by (simp add: expired_timer_def)
    then show ?thesis
      by (subst expire_loop.simps) (use x assms(2) w'(1) in \<open>simp add: e\<close>)
  qed
  ultimately show ?thesis using that w'(3) by blast
qed

lemma expire_loop_ok:
  fixes now :: int
  assumes "sched T held w xs xss"
  defines "es \<equiv> takeWhile (\<lambda>x. t_when (timers w x) \<le> now) xs"
  shows "\<exists>w'. expire_loop now b w = Some (b \<or> es \<noteq> [], w') \<and>
     sched T held w' (dropWhile (\<lambda>x. t_when (timers w x) \<le> now) xs) (queue_all (timers w) es xss) \<and>
     timers w' = (\<lambda>x. if x \<in> set es then expired_timer (timers w x) else timers w x)"
  using assms(1) unfolding es_def
proof (induction xs arbitrary: w xss b)
  case Nil
  have "links w ANCHOR = 0" using linkedD(1) [OF schedD(1) [OF Nil]] by simp
  then have "expire_loop now b w = Some (b, w)" by (subst expire_loop.simps) simp
  with Nil show ?case by (simp add: queue_all_def)
next
  case (Cons x xs)
  note l = linkedD [OF schedD(1) [OF Cons.prems]]
  show ?case
  proof (cases "t_when (timers w x) \<le> now")
    case False
    have "links w ANCHOR = x" using l(1) by simp
    with False have "expire_loop now b w = Some (b, w)" by (subst expire_loop.simps) simp
    with False Cons.prems show ?thesis by (simp add: queue_all_def)
  next
    case True
    obtain v where v: "sched T held v xs (pq_insert x (t_priority (timers w x)) xss)"
      "timers v = (timers w)(x := expired_timer (timers w x))"
      "expire_loop now b w = expire_loop now True v"
      using expire_one [OF Cons.prems True] by metis
    have x: "x \<notin> set xs" using l(2) by simp
    then have eq: "takeWhile (\<lambda>x. t_when (timers v x) \<le> now) xs = takeWhile (\<lambda>x. t_when (timers w x) \<le> now) xs"
      "dropWhile (\<lambda>x. t_when (timers v x) \<le> now) xs = dropWhile (\<lambda>x. t_when (timers w x) \<le> now) xs"
      unfolding v(2) by (auto intro!: takeWhile_cong dropWhile_cong)
    have sub: "set (takeWhile (\<lambda>x. t_when (timers w x) \<le> now) xs) \<subseteq> set xs" by (auto dest: set_takeWhileD)
    then have q: "queue_all (timers v) (takeWhile (\<lambda>x. t_when (timers w x) \<le> now) xs) yss =
        queue_all (timers w) (takeWhile (\<lambda>x. t_when (timers w x) \<le> now) xs) yss" for yss
      unfolding queue_all_def using x v(2) by (intro fold_cong) auto
    obtain w' where w': "expire_loop now True v = Some (True, w')"
      "sched T held w' (dropWhile (\<lambda>x. t_when (timers w x) \<le> now) xs)
         (queue_all (timers w) (takeWhile (\<lambda>x. t_when (timers w x) \<le> now) xs)
            (pq_insert x (t_priority (timers w x)) xss))"
      "timers w' = (\<lambda>y. if y \<in> set (takeWhile (\<lambda>x. t_when (timers w x) \<le> now) xs)
         then expired_timer (timers v y) else timers v y)"
      using Cons.IH [OF v(1), of True] unfolding eq q by auto
    have "timers w' = (\<lambda>y. if y \<in> set (takeWhile (\<lambda>x. t_when (timers w x) \<le> now) (x # xs))
         then expired_timer (timers w y) else timers w y)"
      using w'(3) v(2) True sub x by (auto simp: fun_eq_iff)
    then show ?thesis
      using w'(1,2) v(3) True by (simp add: queue_all_def)
  qed
qed

subsection \<open>Taking the next executable\<close>

lemma sched_next:
  assumes "sched T 0 w xs xss"
  shows "case pq_next 0 xss of
      None \<Rightarrow> exec_next w = Some ((0, 0), w)
    | Some (x, j, yss) \<Rightarrow> \<exists>w'. exec_next w = Some ((x, j), w') \<and> sched T x w' xs yss \<and> timers w' = timers w"
proof (cases "pq_next 0 xss")
  case None
  then show ?thesis
    using qlist_next_ok [OF linkedD(4) [OF schedD(1) [OF assms]]] by (simp add: exec_next_def)
next
  case (Some r)
  obtain x j yss where r: "pq_next 0 xss = Some (x, j, yss)" using Some by (cases r) auto
  note s = schedD [OF assms] and l = linkedD [OF schedD(1) [OF assms]]
  obtain qs where q: "qlist_next (links w, queues w) = Some ((x, j), (links w)(x := 0), qs)"
    "qlist_rep ((links w)(x := 0), qs) yss" "x \<in> set (concat xss)"
    using qlist_next_ok [OF l(4)] r by auto
  let ?w = "w\<lparr>links := (links w)(x := 0), queues := qs\<rparr>"
  have m: "set (concat yss) = set (concat xss) - {x}" "length yss = length xss"
    using pq_next_members [OF r] l(2) by simp_all
  have "chain ((links w)(x := 0)) (ANCHOR # xs) 0 = chain (links w) (ANCHOR # xs) 0"
    by (rule chain_cong) (use q(3) l(2) in auto)
  moreover have "distinct (concat yss)" using q(2) by (simp add: qlist_rep_def)
  moreover have "((links w)(x := 0)) a = 0" if "a \<notin> set (ANCHOR # xs @ concat yss)" for a
    using that l(6) [of a] unfolding set_append list.set m(1) by auto
  ultimately have "linked ?w xs yss"
    using l q(2) m unfolding linked_def distinct.simps distinct_append set_append list.set m(1) by auto
  moreover have "x \<notin> set (ANCHOR # xs @ concat yss)"
    using l(2) q(3) unfolding set_append list.set m(1) by auto
  ultimately have "sched T x ?w xs yss"
    using s(2-9) l(3) q(3) unfolding sched_def set_append list.set m(1) by auto
  then show ?thesis using q(1) r by (simp add: exec_next_def)
qed

text \<open>The executable that was taken starts to run.\<close>

lemma sched_timer_begins:
  "sched T t w xs xss \<Longrightarrow> t \<in> T \<Longrightarrow> \<not> t_expired (f (timers w t)) \<Longrightarrow>
   t_active (f (timers w t)) = t_active (timers w t) \<Longrightarrow> sched T 0 (upd_timer t f w) xs xss"
  using linkedD(3) [of w xs xss] unfolding sched_def by (cases "t = 0") auto

lemma sched_other_begins: "sched T x w xs xss \<Longrightarrow> x \<notin> T \<Longrightarrow> x \<noteq> SELF \<Longrightarrow> sched T 0 w xs xss"
  using linkedD(3) [of w xs xss] unfolding sched_def by auto

lemma sched_self_begins: "sched T SELF w xs xss \<Longrightarrow> sched T 0 (at_run w) xs xss"
  using linkedD(3) [of w xs xss] linked_cong [of w xs xss "at_run w"] unfolding sched_def at_run_def by auto

end
