(* ===== verification/TimersRun.thy ===== *)
theory TimersRun
  imports TimersOps
begin

section \<open>Runs of an executor and its timers\<close>

text \<open>
  The events are the calls that clients and the executor make: the timer operations, the
  queueing of other executables, \<open>get_next_timeout\<close>, taking the next executable and
  running it. The two halves of \<open>Timer::run\<close> are two events, so that the client's
  \<open>timeout\<close> can make any calls in between. \<open>held\<close> is the executable that was taken and
  does not run yet. \<open>event_ok\<close> is what the comments of the code ask of the caller, and
  \<open>sums_fit\<close> says that the sums of times that the call computes are values of \<open>long long\<close>.
\<close>

datatype sched_event =
  Ev_start int int addr | Ev_start_absolute int int addr | Ev_restart int addr | Ev_trigger addr
| Ev_ensure_triggered addr | Ev_cancel addr | Ev_set_triggered addr | Ev_update_period int addr
| Ev_finish int int addr | Ev_add addr nat | Ev_timeout int | Ev_next | Ev_begin

definition world_new :: "nat \<Rightarrow> world" where
  "world_new n = \<lparr>links = (\<lambda>_. 0), queues = replicate n q_new, timers = (\<lambda>_. timer_new), is_pending = False\<rparr>"

definition begin_run :: "addr set \<Rightarrow> addr \<Rightarrow> world \<Rightarrow> world" where
  "begin_run T x w = (if x = SELF then at_run w else if x \<in> T then timer_begin x w else w)"

fun ev_step :: "addr set \<Rightarrow> sched_event \<Rightarrow> addr \<times> world \<Rightarrow> (addr \<times> world) option" where
  "ev_step T (Ev_start now period t) (held, w) = map_option (Pair held) (timer_start now period t w)"
| "ev_step T (Ev_start_absolute now e t) (held, w) = map_option (Pair held) (timer_start_absolute now e t w)"
| "ev_step T (Ev_restart now t) (held, w) = map_option (Pair held) (timer_restart now t w)"
| "ev_step T (Ev_trigger t) (held, w) = map_option (Pair held) (timer_trigger t w)"
| "ev_step T (Ev_ensure_triggered t) (held, w) = map_option (Pair held) (timer_ensure_triggered t w)"
| "ev_step T (Ev_cancel t) (held, w) = map_option (Pair held) (timer_cancel t w)"
| "ev_step T (Ev_set_triggered t) (held, w) = Some (held, timer_set_triggered t w)"
| "ev_step T (Ev_update_period p t) (held, w) = Some (held, timer_update_period p t w)"
| "ev_step T (Ev_finish r now t) (held, w) = map_option (Pair held) (timer_finish r now t w)"
| "ev_step T (Ev_add x p) (held, w) = map_option (Pair held) (exec_add x p w)"
| "ev_step T (Ev_timeout now) (held, w) = map_option (\<lambda>r. (held, snd r)) (get_next_timeout now w)"
| "ev_step T Ev_next (held, w) = map_option (\<lambda>r. (fst (fst r), snd r)) (exec_next w)"
| "ev_step T Ev_begin (held, w) = Some (0, begin_run T held w)"

definition in_range :: "int \<Rightarrow> bool" where
  "in_range x \<longleftrightarrow> - LLONG_MAX - 1 \<le> x \<and> x \<le> LLONG_MAX"

definition idle :: "addr \<Rightarrow> world \<Rightarrow> bool" where
  "idle t w \<longleftrightarrow> \<not> t_active (timers w t) \<and> \<not> t_expired (timers w t)"

definition queued :: "addr \<Rightarrow> world \<Rightarrow> bool" where
  "queued x w \<longleftrightarrow> links w x \<noteq> 0 \<or> (\<exists>q\<in>set (queues w). q_tail q = x)"

fun event_ok :: "addr set \<Rightarrow> sched_event \<Rightarrow> addr \<times> world \<Rightarrow> bool" where
  "event_ok T (Ev_start now period t) (held, w) \<longleftrightarrow> t \<in> T \<and> idle t w"
| "event_ok T (Ev_start_absolute now e t) (held, w) \<longleftrightarrow> t \<in> T \<and> idle t w \<and> in_range e"
| "event_ok T (Ev_restart now t) (held, w) \<longleftrightarrow> t \<in> T"
| "event_ok T (Ev_trigger t) (held, w) \<longleftrightarrow> t \<in> T \<and> \<not> idle t w"
| "event_ok T (Ev_ensure_triggered t) (held, w) \<longleftrightarrow> t \<in> T"
| "event_ok T (Ev_cancel t) (held, w) \<longleftrightarrow> t \<in> T \<and> \<not> t_expired (timers w t)"
| "event_ok T (Ev_set_triggered t) (held, w) \<longleftrightarrow> t \<in> T"
| "event_ok T (Ev_update_period p t) (held, w) \<longleftrightarrow> t \<in> T"
| "event_ok T (Ev_finish r now t) (held, w) \<longleftrightarrow> t \<in> T \<and> (r = TIMER_RESTART \<or> r = TIMER_DELETE \<or> r > TIMER_RESTART \<longrightarrow> idle t w)"
| "event_ok T (Ev_add x p) (held, w) \<longleftrightarrow> x \<notin> T \<and> x \<notin> {0, ANCHOR, SELF, held} \<and> \<not> queued x w"
| "event_ok T (Ev_timeout now) (held, w) \<longleftrightarrow> 0 \<le> now"
| "event_ok T Ev_next (held, w) \<longleftrightarrow> held = 0"
| "event_ok T Ev_begin (held, w) \<longleftrightarrow> True"

fun sums_fit :: "sched_event \<Rightarrow> addr \<times> world \<Rightarrow> bool" where
  "sums_fit (Ev_start now period t) (held, w) \<longleftrightarrow> in_range (now + period)"
| "sums_fit (Ev_start_absolute now e t) (held, w) \<longleftrightarrow> in_range (e - now)"
| "sums_fit (Ev_restart now t) (held, w) \<longleftrightarrow> t_expired (timers w t) \<or> in_range (now + t_period (timers w t))"
| "sums_fit (Ev_finish r now t) (held, w) \<longleftrightarrow>
     (r = TIMER_RESTART \<longrightarrow> in_range (t_when (timers w t) + t_period (timers w t))) \<and>
     (r > TIMER_RESTART \<longrightarrow> in_range (now + r))"
| "sums_fit e s \<longleftrightarrow> True"

inductive sched_run :: "addr set \<Rightarrow> addr \<times> world \<Rightarrow> addr \<times> world \<Rightarrow> bool" for T s0 where
  start: "sched_run T s0 s0"
| step: "sched_run T s0 s \<Longrightarrow> event_ok T e s \<Longrightarrow> ev_step T e s = Some s' \<Longrightarrow> sched_run T s0 s'"

subsection \<open>The invariant\<close>

definition sched_inv :: "addr set \<Rightarrow> addr \<times> world \<Rightarrow> bool" where
  "sched_inv T = (\<lambda>(held, w). (\<exists>xs xss. sched T held w xs xss \<and> by_deadline w xs) \<and>
     (\<forall>t\<in>T. in_range (t_when (timers w t))))"

lemma ll_range: "in_range x \<Longrightarrow> ll x = Some x"
  by (simp add: in_range_def ll_def)

lemma sched_invI:
  "sched T held w xs xss \<Longrightarrow> by_deadline w xs \<Longrightarrow> (\<And>t. t \<in> T \<Longrightarrow> in_range (t_when (timers w t))) \<Longrightarrow>
   sched_inv T (held, w)"
  by (auto simp: sched_inv_def)

text \<open>The three ways in which an operation changes the list.\<close>

lemma inv_insert:
  assumes "sched_inv T (held, w)" "t \<in> T" "idle t w" "t_active (f (timers w t))" "\<not> t_expired (f (timers w t))"
    and "in_range (t_when (f (timers w t)))"
  shows "\<exists>w'. schedule_timer t (upd_timer t f w) = Some w' \<and> sched_inv T (held, w')"
proof -
  obtain xs xss where s: "sched T held w xs xss" "by_deadline w xs"
    and r: "\<And>x. x \<in> T \<Longrightarrow> in_range (t_when (timers w x))"
    using assms(1) by (auto simp: sched_inv_def)
  from sched_insert [where f = f, OF s(1) assms(2) _ _ assms(4,5)] assms(3) s(2)
  obtain w' where "insert_locked t (upd_timer t f w) = Some w'"
    "sched T held w' (place ((timers w)(t := f (timers w t))) t xs) (wake w xss)"
    "timers w' = (timers w)(t := f (timers w t))" "by_deadline w' (place ((timers w)(t := f (timers w t))) t xs)"
    unfolding idle_def by metis
  then show ?thesis
    using assms(6) r by (auto simp: schedule_timer_def intro!: sched_invI)
qed

lemma inv_update:
  assumes "sched_inv T (held, w)" "t \<in> T" "t_active (timers w t)" "t_active (f (timers w t))"
    "\<not> t_expired (f (timers w t))" and "in_range (t_when (f (timers w t)))"
  shows "\<exists>w'. update_timer t (upd_timer t f w) = Some w' \<and> sched_inv T (held, w')"
proof -
  obtain xs xss where s: "sched T held w xs xss" "by_deadline w xs"
    and r: "\<And>x. x \<in> T \<Longrightarrow> in_range (t_when (timers w x))"
    using assms(1) by (auto simp: sched_inv_def)
  from sched_update [where f = f, OF s(1) assms(2-5)] s(2)
  obtain w' where "update_timer t (upd_timer t f w) = Some w'"
    "sched T held w' (place ((timers w)(t := f (timers w t))) t (remove1 t xs)) (wake w xss)"
    "timers w' = (timers w)(t := f (timers w t))"
    "by_deadline w' (place ((timers w)(t := f (timers w t))) t (remove1 t xs))"
    by metis
  then show ?thesis
    using assms(6) r by (auto intro!: sched_invI)
qed

lemma inv_remove:
  assumes "sched_inv T (held, w)" "t \<in> T" "t_active (timers w t)" "t_active (f (timers w t))"
    "\<not> t_expired (f (timers w t))" and "in_range (t_when (f (timers w t)))"
  shows "\<exists>w'. remove_timer t (upd_timer t f w) = Some w' \<and> sched_inv T (held, w')"
proof -
  obtain xs xss where s: "sched T held w xs xss" "by_deadline w xs"
    and r: "\<And>x. x \<in> T \<Longrightarrow> in_range (t_when (timers w x))"
    using assms(1) by (auto simp: sched_inv_def)
  from sched_remove [where f = f, OF s(1) assms(2-5)] s(2)
  obtain w' where "remove_timer t (upd_timer t f w) = Some w'" "sched T held w' (remove1 t xs) xss"
    "timers w' = (timers w)(t := (f (timers w t))\<lparr>t_active := False\<rparr>)" "by_deadline w' (remove1 t xs)"
    by metis
  then show ?thesis
    using assms(6) r by (auto intro!: sched_invI)
qed

text \<open>Changes of fields that the list does not depend on.\<close>

lemma inv_fields:
  assumes "sched_inv T (held, w)" "t \<in> T" "t_active (f (timers w t)) = t_active (timers w t)"
    "t_expired (f (timers w t)) = t_expired (timers w t)" "in_range (t_when (f (timers w t)))"
    and "t_active (timers w t) \<Longrightarrow> t_when (f (timers w t)) = t_when (timers w t)"
  shows "sched_inv T (held, upd_timer t f w)"
proof -
  obtain xs xss where s: "sched T held w xs xss" "by_deadline w xs"
    and r: "\<And>x. x \<in> T \<Longrightarrow> in_range (t_when (timers w x))"
    using assms(1) by (auto simp: sched_inv_def)
  have "sched T held (upd_timer t f w) xs xss"
    using s(1) assms(3,4) unfolding sched_def by auto
  moreover have "map (\<lambda>x. t_when (timers (upd_timer t f w) x)) xs = map (\<lambda>x. t_when (timers w x)) xs"
    using assms(6) schedD(7) [OF s(1) assms(2)] by auto
  then have "by_deadline (upd_timer t f w) xs"
    using s(2) unfolding by_deadline_def by (simp only:)
  ultimately show ?thesis
    by (rule sched_invI) (use assms(5) r in auto)
qed

lemma upd_timer_twice [simp]: "upd_timer t g (upd_timer t f w) = upd_timer t (\<lambda>x. g (f x)) w"
  by (simp add: upd_timer_def)

subsection \<open>Expiry, exactly\<close>

definition due :: "int \<Rightarrow> world \<Rightarrow> addr \<Rightarrow> bool" where
  "due now w t \<longleftrightarrow> t_when (timers w t) \<le> now"

lemma sorted_split:
  assumes "sorted (map k xs)"
  shows "takeWhile (\<lambda>x. k x \<le> c) xs = filter (\<lambda>x. k x \<le> c) xs"
    and "dropWhile (\<lambda>x. k x \<le> c) xs = filter (\<lambda>x. \<not> k x \<le> c) xs"
proof -
  have "takeWhile (\<lambda>x. k x \<le> c) xs = filter (\<lambda>x. k x \<le> c) xs \<and>
     dropWhile (\<lambda>x. k x \<le> c) xs = filter (\<lambda>x. \<not> k x \<le> c) xs"
    using assms
  proof (induction xs)
    case (Cons x xs)
    have "\<forall>y\<in>set xs. k x \<le> k y" using Cons.prems by simp
    then have "filter (\<lambda>x. k x \<le> c) xs = []" "filter (\<lambda>x. \<not> k x \<le> c) xs = xs" if "\<not> k x \<le> c"
      using that by (auto simp: filter_empty_conv filter_id_conv dest: order_trans)
    then show ?case using Cons by simp
  qed simp
  then show "takeWhile (\<lambda>x. k x \<le> c) xs = filter (\<lambda>x. k x \<le> c) xs"
    "dropWhile (\<lambda>x. k x \<le> c) xs = filter (\<lambda>x. \<not> k x \<le> c) xs" by simp_all
qed

definition timeout_result :: "int \<Rightarrow> world \<Rightarrow> addr list \<Rightarrow> int" where
  "timeout_result now w xs =
     (case xs of [] \<Rightarrow> 3600000000000 | x # _ \<Rightarrow> if due now w x then 0 else t_when (timers w x) - now)"

lemma get_next_timeout_ok:
  assumes "sched T held w xs xss" "by_deadline w xs" "\<And>t. t \<in> T \<Longrightarrow> in_range (t_when (timers w t))" "0 \<le> now"
  shows "\<exists>w'. get_next_timeout now w = Some (timeout_result now w xs, w') \<and>
     sched T held w' (filter (\<lambda>x. \<not> due now w x) xs) (queue_all (timers w) (filter (due now w) xs) xss) \<and>
     by_deadline w' (filter (\<lambda>x. \<not> due now w x) xs) \<and>
     timers w' = (\<lambda>x. if x \<in> set xs \<and> due now w x then expired_timer (timers w x) else timers w x)"
proof -
  let ?k = "\<lambda>t. t_when (timers w t)"
  note split = sorted_split [of ?k xs now, OF assms(2) [unfolded by_deadline_def]]
  obtain w' where w': "expire_loop now False w = Some (filter (due now w) xs \<noteq> [], w')"
    "sched T held w' (filter (\<lambda>x. \<not> due now w x) xs) (queue_all (timers w) (filter (due now w) xs) xss)"
    "timers w' = (\<lambda>x. if x \<in> set xs \<and> due now w x then expired_timer (timers w x) else timers w x)"
    using expire_loop_ok [OF assms(1), of now False] unfolding split due_def by auto
  have wh: "t_when (timers w' x) = t_when (timers w x)" for x by (simp add: w'(3) expired_timer_def)
  have so: "sorted (map ?k (filter P xs))" for P
    using assms(2) unfolding by_deadline_def by (rule sorted_filter)
  have b: "by_deadline w' (filter (\<lambda>x. \<not> due now w x) xs)"
    unfolding by_deadline_def wh by (rule so)
  note c = linkedD(1) [OF schedD(1) [OF w'(2)]]
  have "get_next_timeout now w = Some (timeout_result now w xs, w')"
  proof (cases xs)
    case Nil
    then have "links w' ANCHOR = 0" using c by simp
    then show ?thesis
      using w'(1) Nil by (simp add: get_next_timeout_def timeout_result_def SEC_TO_NSEC_def ll_def LLONG_MAX_def)
  next
    case (Cons x ys)
    have xT: "x \<in> T" "x \<noteq> 0"
      using schedD(2,3) [OF assms(1)] Cons by (cases "x = 0"; auto)+
    show ?thesis
    proof (cases "due now w x")
      case True
      then show ?thesis
        using w'(1) Cons by (simp add: get_next_timeout_def timeout_result_def)
    next
      case False
      then have "filter (due now w) xs = []"
        using assms(2) Cons by (fastforce simp: by_deadline_def filter_empty_conv due_def)
      moreover have "links w' ANCHOR = x" using c False Cons by simp
      moreover have "ll (t_when (timers w x) - now) = Some (t_when (timers w x) - now)"
        using assms(3) [OF xT(1)] assms(4) False by (intro ll_range) (simp add: in_range_def due_def)
      ultimately show ?thesis
        using w'(1) Cons False xT(2) wh by (simp add: get_next_timeout_def timeout_result_def)
    qed
  qed
  with w'(2,3) b show ?thesis by blast
qed

subsection \<open>Every event\<close>

lemma queued_member:
  assumes "linked w xs xss" "x \<in> set (concat xss)"
  shows "queued x w"
proof -
  obtain i where i: "i < length xss" "x \<in> set (xss ! i)"
    using assms(2) by (metis in_set_conv_nth set_concat UN_iff)
  obtain q where q: "q \<in> set (queues w)" "q_rep (links w, q) (xss ! i)"
    using qlist_rep_split [OF linkedD(4) [OF assms(1)] i(1)] by (metis in_set_conv_decomp)
  obtain ys zs where "xss ! i = ys @ x # zs" using i(2) split_list by fastforce
  then show ?thesis
    using q by (cases zs) (auto simp: q_rep_def queued_def)
qed

lemma add_event:
  assumes "sched_inv T (held, w)" "event_ok T (Ev_add x p) (held, w)"
  shows "\<exists>w'. exec_add x p w = Some w' \<and> sched_inv T (held, w')"
proof -
  obtain xs xss where s: "sched T held w xs xss" "by_deadline w xs"
    and r: "\<And>t. t \<in> T \<Longrightarrow> in_range (t_when (timers w t))"
    using assms(1) by (auto simp: sched_inv_def)
  note d = schedD [OF s(1)]
  have x: "x \<notin> set (concat xss)" "x \<notin> set xs" "x \<noteq> ANCHOR" "x \<noteq> held" "x \<noteq> SELF" "x \<noteq> 0" "x \<notin> T"
    using assms(2) queued_member [OF d(1)] d(2) by auto
  have "x \<notin> set (ANCHOR # xs @ concat xss)" using x by simp
  from exec_add_ok [OF d(1) this x(6)]
  obtain w' where w': "exec_add x p w = Some w'" "linked w' xs (pq_insert x p xss)" "timers w' = timers w"
    "is_pending w' = is_pending w" by blast
  have m: "set (concat (pq_insert x p xss)) = insert x (set (concat xss))"
    by (rule pq_insert_members [OF linkedD(5) [OF d(1)]])
  have "sched T held w' xs (pq_insert x p xss)"
    using d(2-9) x w'(2-4) unfolding sched_def set_append list.set m by auto
  then have "sched_inv T (held, w')"
    by (rule sched_invI) (use s(2) r w'(3) in \<open>simp_all add: by_deadline_def\<close>)
  with w'(1) show ?thesis by blast
qed

lemma timeout_event:
  assumes "sched_inv T (held, w)" "0 \<le> now"
  shows "\<exists>r w'. get_next_timeout now w = Some (r, w') \<and> sched_inv T (held, w')"
proof -
  obtain xs xss where s: "sched T held w xs xss" "by_deadline w xs"
    and r: "\<And>t. t \<in> T \<Longrightarrow> in_range (t_when (timers w t))"
    using assms(1) by (auto simp: sched_inv_def)
  from get_next_timeout_ok [OF s r assms(2)] obtain w' where
    w': "get_next_timeout now w = Some (timeout_result now w xs, w')"
    "sched T held w' (filter (\<lambda>x. \<not> due now w x) xs) (queue_all (timers w) (filter (due now w) xs) xss)"
    "by_deadline w' (filter (\<lambda>x. \<not> due now w x) xs)"
    "timers w' = (\<lambda>x. if x \<in> set xs \<and> due now w x then expired_timer (timers w x) else timers w x)"
    by auto
  have "sched_inv T (held, w')"
    by (rule sched_invI [OF w'(2,3)]) (use r in \<open>simp add: w'(4) expired_timer_def\<close>)
  with w'(1) show ?thesis by blast
qed

lemma next_event:
  assumes "sched_inv T (0, w)"
  shows "\<exists>x j w'. exec_next w = Some ((x, j), w') \<and> sched_inv T (x, w')"
proof -
  obtain xs xss where s: "sched T 0 w xs xss" "by_deadline w xs"
    and r: "\<And>t. t \<in> T \<Longrightarrow> in_range (t_when (timers w t))"
    using assms(1) by (auto simp: sched_inv_def)
  show ?thesis
  proof (cases "pq_next 0 xss")
    case None
    then show ?thesis using sched_next [OF s(1)] assms by auto
  next
    case (Some y)
    then obtain x j yss w' where "exec_next w = Some ((x, j), w')" "sched T x w' xs yss" "timers w' = timers w"
      using sched_next [OF s(1)] by (cases y) auto
    moreover from this have "sched_inv T (x, w')"
      by (intro sched_invI) (use s(2) r in \<open>simp_all add: by_deadline_def\<close>)
    ultimately show ?thesis by blast
  qed
qed

lemma begin_event:
  assumes "sched_inv T (held, w)"
  shows "sched_inv T (0, begin_run T held w)"
proof -
  obtain xs xss where s: "sched T held w xs xss" "by_deadline w xs"
    and r: "\<And>t. t \<in> T \<Longrightarrow> in_range (t_when (timers w t))"
    using assms(1) by (auto simp: sched_inv_def)
  have "sched T 0 (begin_run T held w) xs xss"
    using s(1) sched_self_begins [of T w xs xss] sched_other_begins [of T held w xs xss]
      sched_timer_begins [of T held w xs xss "\<lambda>x. x\<lparr>t_expired := False\<rparr>"]
    by (auto simp: begin_run_def timer_begin_def)
  moreover have w: "t_when (timers (begin_run T held w) x) = t_when (timers w x)" for x
    by (simp add: begin_run_def timer_begin_def at_run_def)
  moreover have "by_deadline (begin_run T held w) xs"
    using s(2) unfolding by_deadline_def w .
  ultimately show ?thesis by (intro sched_invI) (use r in simp_all)
qed

lemma flags_exclusive:
  assumes "sched_inv T (held, w)" "t \<in> T" "t_active (timers w t)"
  shows "\<not> t_expired (timers w t)"
proof -
  obtain xs xss where s: "sched T held w xs xss" using assms(1) by (auto simp: sched_inv_def)
  show ?thesis
    using schedD(6-8) [OF s] linkedD(2) [OF schedD(1) [OF s]] assms(2,3) by auto
qed

lemma LLONG_range: "in_range LLONG_MAX" "in_range 2"
  by (simp_all add: in_range_def LLONG_MAX_def)

lemma trigger_event:
  assumes "sched_inv T (held, w)" "t \<in> T" "\<not> idle t w"
  shows "\<exists>w'. timer_trigger t w = Some w' \<and> sched_inv T (held, w')"
proof (cases "t_expired (timers w t)")
  case True
  then show ?thesis using assms(1) by (simp add: timer_trigger_def)
next
  case False
  with inv_update [OF assms(1,2), of "\<lambda>x. x\<lparr>t_cancelled := True, t_when := 2\<rparr>"] assms(3)
  show ?thesis by (simp add: timer_trigger_def idle_def LLONG_range)
qed

lemma cancel_event:
  assumes "sched_inv T (held, w)" "t \<in> T" "\<not> t_expired (timers w t)"
  shows "\<exists>w'. timer_cancel t w = Some w' \<and> sched_inv T (held, w')"
  using inv_remove [OF assms(1,2), of "\<lambda>x. x\<lparr>t_when := LLONG_MAX, t_cancelled := True\<rparr>"]
    inv_fields [OF assms(1,2), of "\<lambda>x. x\<lparr>t_when := LLONG_MAX, t_cancelled := True\<rparr>"] assms(3)
  by (cases "t_active (timers w t)") (simp_all add: timer_cancel_def LLONG_range Let_def)

lemma start_event:
  assumes "sched_inv T (held, w)" "t \<in> T" "idle t w" "in_range (now + period)"
  shows "\<exists>w'. timer_start now period t w = Some w' \<and> sched_inv T (held, w')"
  using inv_insert [OF assms(1-3), of "\<lambda>x. x\<lparr>t_active := True, t_cancelled := False, t_when := now + period,
       t_period := period\<rparr>"] assms(3,4)
  by (simp add: timer_start_def idle_def ll_range)

lemma start_absolute_event:
  assumes "sched_inv T (held, w)" "t \<in> T" "idle t w" "in_range e" "in_range (e - now)"
  shows "\<exists>w'. timer_start_absolute now e t w = Some w' \<and> sched_inv T (held, w')"
  using inv_insert [OF assms(1-3), of "\<lambda>x. x\<lparr>t_active := True, t_cancelled := False, t_when := e,
       t_period := e - now\<rparr>"] assms(3-5)
  by (simp add: timer_start_absolute_def idle_def ll_range)

lemma restart_event:
  assumes "sched_inv T (held, w)" "t \<in> T" "t_expired (timers w t) \<or> in_range (now + t_period (timers w t))"
  shows "\<exists>w'. timer_restart now t w = Some w' \<and> sched_inv T (held, w')"
proof (cases "t_expired (timers w t)")
  case True
  then show ?thesis using assms(1) by (simp add: timer_restart_def)
next
  case False
  let ?f = "\<lambda>x. x\<lparr>t_when := now + t_period (timers w t), t_cancelled := False\<rparr>"
  show ?thesis
  proof (cases "t_active (timers w t)")
    case True
    with inv_update [OF assms(1,2), of ?f] False assms(3) show ?thesis
      by (simp add: timer_restart_def ll_range Let_def)
  next
    case inactive: False
    with inv_insert [OF assms(1,2), of "\<lambda>x. (?f x)\<lparr>t_active := True\<rparr>"] False assms(3) show ?thesis
      by (simp add: timer_restart_def ll_range Let_def idle_def)
  qed
qed

lemma finish_event:
  assumes "sched_inv T (held, w)" "event_ok T (Ev_finish r now t) (held, w)" "sums_fit (Ev_finish r now t) (held, w)"
  shows "\<exists>w'. timer_finish r now t w = Some w' \<and> sched_inv T (held, w')"
proof -
  have t: "t \<in> T" using assms(2) by simp
  consider (restart) "r = TIMER_RESTART" | (delete) "r = TIMER_DELETE" | (start) "r > TIMER_RESTART"
    | (none) "r \<noteq> TIMER_RESTART" "r \<noteq> TIMER_DELETE" "\<not> r > 0"
    by (auto simp: TIMER_RESTART_def TIMER_DELETE_def) linarith
  then show ?thesis
  proof cases
    case restart
    with inv_insert [OF assms(1) t, of "\<lambda>x. x\<lparr>t_when := t_when (timers w t) + t_period (timers w t), t_active := True\<rparr>"]
      assms(2,3) show ?thesis by (simp add: timer_finish_def ll_range idle_def)
  next
    case delete
    then show ?thesis
      using assms by (simp add: timer_finish_def timer_delete_def idle_def TIMER_RESTART_def TIMER_DELETE_def)
  next
    case start
    then show ?thesis
      using assms(2,3) start_event [OF assms(1) t, of now r]
      by (simp add: timer_finish_def TIMER_RESTART_def TIMER_DELETE_def)
  next
    case none
    then show ?thesis using assms(1) by (simp add: timer_finish_def)
  qed
qed

lemma any_event:
  assumes "sched_inv T s" "event_ok T e s" "sums_fit e s"
  shows "\<exists>s'. ev_step T e s = Some s' \<and> sched_inv T s'"
proof -
  obtain held w where s: "s = (held, w)" by (cases s)
  note i = assms(1) [unfolded s] and o = assms(2,3) [unfolded s]
  show ?thesis
  proof (cases e)
    case (Ev_start now period t)
    with start_event [OF i, of t now period] o show ?thesis by (auto simp: s)
  next
    case (Ev_start_absolute now ex t)
    with start_absolute_event [OF i, of t ex now] o show ?thesis by (auto simp: s)
  next
    case (Ev_restart now t)
    with restart_event [OF i, of t now] o show ?thesis by (auto simp: s)
  next
    case (Ev_trigger t)
    with trigger_event [OF i, of t] o show ?thesis by (auto simp: s)
  next
    case (Ev_ensure_triggered t)
    with trigger_event [OF i, of t] i o show ?thesis by (auto simp: s timer_ensure_triggered_def idle_def)
  next
    case (Ev_cancel t)
    with cancel_event [OF i, of t] o show ?thesis by (auto simp: s)
  next
    case (Ev_set_triggered t)
    with inv_fields [OF i, of t "\<lambda>x. x\<lparr>t_cancelled := True\<rparr>"] i o show ?thesis
      by (auto simp: s timer_set_triggered_def sched_inv_def)
  next
    case (Ev_update_period p t)
    with inv_fields [OF i, of t "\<lambda>x. x\<lparr>t_period := p\<rparr>"] i o show ?thesis
      by (auto simp: s timer_update_period_def sched_inv_def)
  next
    case (Ev_finish r now t)
    with finish_event [OF i, of r now t] o show ?thesis by (auto simp: s)
  next
    case (Ev_add x p)
    with add_event [OF i, of x p] o show ?thesis by (auto simp: s)
  next
    case (Ev_timeout now)
    with timeout_event [OF i, of now] o show ?thesis by (auto simp: s)
  next
    case Ev_next
    with next_event [of T w] i o show ?thesis by (auto simp: s)
  next
    case Ev_begin
    with begin_event [OF i] show ?thesis by (simp add: s)
  qed
qed

text \<open>A sum that does not fit ends the call.\<close>

lemma ll_none: "\<not> in_range x \<Longrightarrow> ll x = None"
  by (auto simp: in_range_def ll_def)

lemma step_fits:
  assumes "event_ok T e s" "ev_step T e s = Some s'"
  shows "sums_fit e s"
proof (rule ccontr)
  assume n: "\<not> sums_fit e s"
  obtain held w where s: "s = (held, w)" by (cases s)
  have "ev_step T e s = None"
    using assms(1) n unfolding s
    by (cases e)
      (auto simp: ll_none timer_start_def timer_start_absolute_def timer_restart_def timer_finish_def idle_def
        TIMER_RESTART_def TIMER_DELETE_def Let_def)
  then show False using assms(2) by simp
qed

lemma world_new_inv:
  assumes "0 < n" "0 \<notin> T" "ANCHOR \<notin> T" "SELF \<notin> T"
  shows "sched_inv T (0, world_new n)"
proof (rule sched_invI)
  have "linked (world_new n) [] (replicate n [])"
    using assms(1) by (auto simp: linked_def world_new_def qlist_rep_new)
  then show "sched T 0 (world_new n) [] (replicate n [])"
    using assms(2-4) by (auto simp: sched_def world_new_def timer_new_def) (metis neq0_conv)
qed (simp_all add: by_deadline_def world_new_def timer_new_def in_range_def LLONG_MAX_def)

lemma sched_run_inv: "sched_run T s0 s \<Longrightarrow> sched_inv T s0 \<Longrightarrow> sched_inv T s"
proof (induction rule: sched_run.induct)
  case (step s e s')
  then show ?case using any_event step_fits by (metis option.inject)
qed simp

end
