(* ===== verification/TimersSpec.thy ===== *)
theory TimersSpec
  imports TimersRun
begin

section \<open>What the timers of an executor promise\<close>

text \<open>
  The properties hold in every state that callers who follow the comments of the code can
  reach, with any number of timers \<open>T\<close> and priority bands \<open>n\<close> and in any order of
  calls.
\<close>

text \<open>C6: The only thing that can go wrong in a call on the timers of an executor that follows the documented
  preconditions is a time that overflows: exactly when the deadline or period that the call computes fits a
  \<open>long long\<close>, the call returns: the searches of the linked list end, no assertion fires and no null
  pointer is used.\<close>

theorem timer_calls_return:
  assumes "sched_run T (0, world_new n) s" "event_ok T e s"
    and "0 < n" "0 \<notin> T" "ANCHOR \<notin> T" "SELF \<notin> T"
  shows "(\<exists>s'. ev_step T e s = Some s') \<longleftrightarrow> sums_fit e s"
  using any_event [OF sched_run_inv [OF assms(1) world_new_inv [OF assms(3-6)]] assms(2)] step_fits [OF assms(2)] by blast

text \<open>The comment of \<open>start\<close> sets no limit to the period, but the longest one overflows.\<close>

lemma longest_period_overflows:
  "0 < now \<Longrightarrow> timer_start now LLONG_MAX t w = None"
  by (simp add: timer_start_def ll_def)

text \<open>C7: In every reachable state the list behind \<open>activeTimers_\<close> is well linked and ordered by
  deadline, and each timer's flags are true: active exactly when it is in that list,
  expired exactly when it waits in the executor's queue or was just taken from it, and
  never both.\<close>

theorem timer_flags_true:
  assumes "sched_run T (0, world_new n) (held, w)" "0 < n" "0 \<notin> T" "ANCHOR \<notin> T" "SELF \<notin> T"
  shows "\<exists>xs xss. chain (links w) (ANCHOR # xs) 0 \<and> qlist_rep (links w, queues w) xss \<and>
     sorted (map (\<lambda>t. t_when (timers w t)) xs) \<and>
     (\<forall>t\<in>T. t_active (timers w t) = (t \<in> set xs) \<and>
            t_expired (timers w t) = (t \<in> set (concat xss) \<or> t = held) \<and>
            \<not> (t_active (timers w t) \<and> t_expired (timers w t)))"
proof -
  have i: "sched_inv T (held, w)"
    by (rule sched_run_inv [OF assms(1) world_new_inv [OF assms(2-5)]])
  then obtain xs xss where s: "sched T held w xs xss" "by_deadline w xs"
    by (auto simp: sched_inv_def)
  show ?thesis
    by (intro exI [of _ xs] exI [of _ xss])
       (use s flags_exclusive [OF i] linkedD(1,4) [OF schedD(1) [OF s(1)]] schedD(7,8) [OF s(1)] in
         \<open>auto simp: by_deadline_def\<close>)
qed

text \<open>C4: \<open>get_next_timeout\<close> moves exactly the active timers whose deadline has come, in the order of
  their deadlines, to the executor's queue at their priority, leaves all others, and
  returns 0 if there was one, else the time to the first deadline, or an hour if no timer
  is active.\<close>

theorem get_next_timeout_exact:
  assumes "sched_run T (0, world_new n) (held, w)" "0 < n" "0 \<notin> T" "ANCHOR \<notin> T" "SELF \<notin> T" "0 \<le> now"
  shows "\<exists>xs xss w'. chain (links w) (ANCHOR # xs) 0 \<and> qlist_rep (links w, queues w) xss \<and>
     set xs = {t \<in> T. t_active (timers w t)} \<and>
     get_next_timeout now w = Some (timeout_result now w xs, w') \<and>
     chain (links w') (ANCHOR # filter (\<lambda>x. \<not> due now w x) xs) 0 \<and>
     qlist_rep (links w', queues w') (queue_all (timers w) (filter (due now w) xs) xss) \<and>
     (\<forall>t. timers w' t = (if t \<in> set xs \<and> due now w t then expired_timer (timers w t) else timers w t))"
proof -
  have i: "sched_inv T (held, w)"
    by (rule sched_run_inv [OF assms(1) world_new_inv [OF assms(2-5)]])
  then obtain xs xss where s: "sched T held w xs xss" "by_deadline w xs"
    and r: "\<And>t. t \<in> T \<Longrightarrow> in_range (t_when (timers w t))"
    by (auto simp: sched_inv_def)
  from get_next_timeout_ok [OF s r assms(6)] obtain w' where
    w': "get_next_timeout now w = Some (timeout_result now w xs, w')"
    "sched T held w' (filter (\<lambda>x. \<not> due now w x) xs) (queue_all (timers w) (filter (due now w) xs) xss)"
    "timers w' = (\<lambda>x. if x \<in> set xs \<and> due now w x then expired_timer (timers w x) else timers w x)"
    by auto
  have "set xs = {t \<in> T. t_active (timers w t)}"
    using schedD(2,7) [OF s(1)] by auto
  then show ?thesis
    using w' linkedD(1,4) [OF schedD(1) [OF s(1)]] linkedD(1,4) [OF schedD(1) [OF w'(2)]] by auto
qed

fun run_events :: "addr set \<Rightarrow> sched_event list \<Rightarrow> addr \<times> world \<Rightarrow> (addr \<times> world) option" where
  "run_events T [] s = Some s"
| "run_events T (e # es) s = (if event_ok T e s then Option.bind (ev_step T e s) (run_events T es) else None)"

lemma run_events_reach: "run_events T es s = Some s' \<Longrightarrow> sched_run T s0 s \<Longrightarrow> sched_run T s0 s'"
  by (induction es arbitrary: s) (auto split: if_splits Option.bind_splits intro: sched_run.step)

lemma scan_steps:
  "l \<noteq> 0 \<Longrightarrow> nx l \<noteq> 0 \<Longrightarrow> t_when (ts (nx l)) \<le> k \<Longrightarrow> insert_scan nx ts k l = insert_scan nx ts k (nx l)"
  "l \<noteq> 0 \<Longrightarrow> nx l = 0 \<or> k < t_when (ts (nx l)) \<Longrightarrow> insert_scan nx ts k l = Some l"
  "l \<noteq> 0 \<Longrightarrow> nx l \<noteq> 0 \<Longrightarrow> nx l \<noteq> t \<Longrightarrow> remove_scan nx t l = remove_scan nx t (nx l)"
  "l \<noteq> 0 \<Longrightarrow> nx l = 0 \<or> nx l = t \<Longrightarrow> remove_scan nx t l = Some l"
  by (subst insert_scan.simps remove_scan.simps; auto)+

lemma expire_stop: "links w ANCHOR = 0 \<or> now < t_when (timers w (links w ANCHOR)) \<Longrightarrow>
   expire_loop now b w = Some (b, w)"
  by (subst expire_loop.simps) auto

lemma expire_go: "links w ANCHOR = c \<Longrightarrow> c \<noteq> 0 \<Longrightarrow> t_when (timers w c) \<le> now \<Longrightarrow>
   expire_loop now b w = do {
     w \<leftarrow> exec_add c (t_priority (timers w c))
            (upd_timer c expired_timer (w\<lparr>links := (links w)(ANCHOR := links w c, c := 0)\<rparr>));
     expire_loop now True w }"
proof -
  assume a: "links w ANCHOR = c" "c \<noteq> 0" "t_when (timers w c) \<le> now"
  have e: "(\<lambda>t. t\<lparr>t_active := False, t_expired := True\<rparr>) = expired_timer"
    by (rule ext) (simp add: expired_timer_def)
  show ?thesis by (subst expire_loop.simps) (use a in \<open>simp add: e, simp add: expired_timer_def\<close>)
qed

lemmas run_code = UINT_MAX_def begin_run_def at_run_def timer_begin_def timer_finish_def exec_next_def
  qlist_next_def qlist_next_at_def q_next_def get_next_timeout_def expire_go expire_stop expired_timer_def
  timer_trigger_def update_timer_def remove_locked_def TIMER_RESTART_def TIMER_DELETE_def
  world_new_def idle_def in_range_def LLONG_MAX_def timer_new_def timer_start_def ll_def
  schedule_timer_def insert_locked_def upd_timer_def ANCHOR_def SELF_def scan_steps at_notify_def exec_add_def
  qlist_insert_def q_at_def q_insert_def q_new_def array_get_def array_set_def

text \<open>\<open>trigger\<close> puts the deadline to 2 nanoseconds after the epoch, and \<open>RESTART\<close> counts the
  period from there and keeps the mark of the trigger: a periodic timer that was triggered
  and restarted expires again at the same instant, without its period having passed, and
  still claims to have been triggered.\<close>

theorem trigger_breaks_restart:
  assumes "0 < p" "p < 1000000000000000" "0 \<le> now0" "now0 < 1000000000000000" "2 + p \<le> now" "now < 1000000000000000"
  shows "\<exists>w. run_events {10} [Ev_start now0 p 10, Ev_trigger 10, Ev_timeout now, Ev_next, Ev_begin, Ev_next,
       Ev_begin, Ev_finish TIMER_RESTART now 10, Ev_timeout now] (0, world_new 1) = Some (0, w) \<and>
     t_expired (timers w 10) \<and> t_when (timers w 10) = 2 + p \<and> timer_is_triggered 10 w"
  using assms by (simp add: run_code timer_is_triggered_def)

theorem trigger_breaks_restart_witness:
  "\<exists>w. run_events {10} [Ev_start 5000 1000 10, Ev_trigger 10, Ev_timeout 5001, Ev_next, Ev_begin, Ev_next,
       Ev_begin, Ev_finish TIMER_RESTART 5001 10, Ev_timeout 5001] (0, world_new 1) = Some (0, w) \<and>
     t_expired (timers w 10) \<and> t_when (timers w 10) = 1002 \<and> timer_is_triggered 10 w"
  using trigger_breaks_restart [of 1000 5000 5001] by simp

lemma one_started:
  obtains w where "sched_run {10} (0, world_new 1) (0, w)" "t_active (timers w 10)" "t_when (timers w 10) = 1100"
    "t_period (timers w 10) = 100" "\<not> t_expired (timers w 10)"
proof -
  have "\<exists>w. run_events {10} [Ev_start 1000 100 10] (0, world_new 1) = Some (0, w) \<and>
      t_active (timers w 10) \<and> t_when (timers w 10) = 1100 \<and> t_period (timers w 10) = 100 \<and> \<not> t_expired (timers w 10)"
    by (simp add: run_code)
  then show ?thesis using that run_events_reach [OF _ sched_run.start] by blast
qed

lemma demo_timers: "0 \<notin> {10 :: addr}" "ANCHOR \<notin> {10}" "SELF \<notin> {10}"
  by (simp_all add: ANCHOR_def SELF_def)

theorem timer_calls_return_witness:
  "\<exists>w. t_active (timers w 10) \<and> (\<exists>s'. ev_step {10} (Ev_trigger 10) (0, w) = Some s') \<and>
     (\<exists>s'. ev_step {10} (Ev_restart 2000 10) (0, w) = Some s') \<and>
     \<not> (\<exists>s'. ev_step {10} (Ev_restart LLONG_MAX 10) (0, w) = Some s')"
proof -
  obtain w where w: "sched_run {10} (0, world_new 1) (0, w)" "t_active (timers w 10)" "t_period (timers w 10) = 100"
    "\<not> t_expired (timers w 10)"
    by (rule one_started)
  note r = timer_calls_return [OF w(1) _ zero_less_one demo_timers]
  show ?thesis
    using r [of "Ev_trigger 10"] r [of "Ev_restart 2000 10"] r [of "Ev_restart LLONG_MAX 10"] w(2-4)
    by (auto simp: idle_def in_range_def LLONG_MAX_def)
qed

theorem timer_flags_true_witness:
  "\<exists>(w :: world) xs. t_active (timers w 10) \<and> chain (links w) (ANCHOR # xs) 0 \<and> 10 \<in> set xs"
proof -
  obtain w where w: "sched_run {10} (0, world_new 1) (0, w)" "t_active (timers w 10)" by (rule one_started)
  obtain xs where "chain (links w) (ANCHOR # xs) 0" "10 \<in> set xs"
    using timer_flags_true [OF w(1) zero_less_one demo_timers] w(2) by (metis insertI1)
  with w(2) show ?thesis by blast
qed

theorem get_next_timeout_exact_witness:
  "\<exists>w w' r. t_active (timers w 10) \<and> get_next_timeout 1100 w = Some (r, w') \<and> t_expired (timers w' 10)"
proof -
  obtain w where w: "sched_run {10} (0, world_new 1) (0, w)" "t_active (timers w 10)" "t_when (timers w 10) = 1100"
    by (rule one_started)
  obtain xs w' where x: "set xs = {t \<in> {10}. t_active (timers w t)}"
    "get_next_timeout 1100 w = Some (timeout_result 1100 w xs, w')"
    "\<forall>t. timers w' t = (if t \<in> set xs \<and> due 1100 w t then expired_timer (timers w t) else timers w t)"
    using get_next_timeout_exact [OF w(1) _ demo_timers, of 1100] by auto
  have "t_expired (timers w' 10)"
    using x(1,3) w(2,3) by (simp add: due_def expired_timer_def)
  then show ?thesis using w(2) x(2) by blast
qed

end
