(* ===== verification/Railcom.thy ===== *)
theory Railcom
  imports Crc
begin

section \<open>RailCom feedback (dcc/RailCom.hxx, dcc/RailCom.cpp, dcc/railcom.h)\<close>

text \<open>
  What the decoders send back during the cutout: the 4/8 code of six bits per byte, the
  structure that holds the bytes of the two channels, and the messages of the automatic
  logon that a decoder sends. The bytes that \<open>append12\<close> and \<open>append36\<close> store
  through a pointer are the lists they return.
\<close>

subsection \<open>The 4/8 code\<close>

definition INV :: u8 where "INV = 0xff"
definition ACK :: u8 where "ACK = 0xfe"
definition NACK :: u8 where "NACK = 0xfd"
definition BUSY :: u8 where "BUSY = 0xfc"
definition RESVD1 :: u8 where "RESVD1 = 0xfb"
definition RESVD2 :: u8 where "RESVD2 = 0xfa"

definition CODE_ACK :: u8 where "CODE_ACK = 0xf0"
definition CODE_ACK2 :: u8 where "CODE_ACK2 = 0x0f"
definition CODE_NACK :: u8 where "CODE_NACK = 0x3c"
definition CODE_BUSY :: u8 where "CODE_BUSY = 0xE1"

lemmas codes = INV_def ACK_def NACK_def BUSY_def RESVD1_def RESVD2_def

definition railcom_decode :: "u8 list" where
  "railcom_decode =
    [INV, INV, INV, INV, INV, INV, INV, INV, INV, INV, INV, INV, INV, INV, INV, ACK,
     INV, INV, INV, INV, INV, INV, INV, 0x33, INV, INV, INV, 0x34, INV, 0x35, 0x36, INV,
     INV, INV, INV, INV, INV, INV, INV, 0x3A, INV, INV, INV, 0x3B, INV, 0x3C, 0x37, INV,
     INV, INV, INV, 0x3F, INV, 0x3D, 0x38, INV, INV, 0x3E, 0x39, INV, NACK, INV, INV, INV,
     INV, INV, INV, INV, INV, INV, INV, 0x24, INV, INV, INV, 0x23, INV, 0x22, 0x21, INV,
     INV, INV, INV, 0x1F, INV, 0x1E, 0x20, INV, INV, 0x1D, 0x1C, INV, 0x1B, INV, INV, INV,
     INV, INV, INV, 0x19, INV, 0x18, 0x1A, INV, INV, 0x17, 0x16, INV, 0x15, INV, INV, INV,
     INV, 0x25, 0x14, INV, 0x13, INV, INV, INV, 0x32, INV, INV, INV, INV, INV, INV, INV,
     INV, INV, INV, INV, INV, INV, INV, RESVD2, INV, INV, INV, 0x0E, INV, 0x0D, 0x0C, INV,
     INV, INV, INV, 0x0A, INV, 0x09, 0x0B, INV, INV, 0x08, 0x07, INV, 0x06, INV, INV, INV,
     INV, INV, INV, 0x04, INV, 0x03, 0x05, INV, INV, 0x02, 0x01, INV, 0x00, INV, INV, INV,
     INV, 0x0F, 0x10, INV, 0x11, INV, INV, INV, 0x12, INV, INV, INV, INV, INV, INV, INV,
     INV, INV, INV, RESVD1, INV, 0x2B, 0x30, INV, INV, 0x2A, 0x2F, INV, 0x31, INV, INV, INV,
     INV, 0x29, 0x2E, INV, 0x2D, INV, INV, INV, 0x2C, INV, INV, INV, INV, INV, INV, INV,
     INV, BUSY, 0x28, INV, 0x27, INV, INV, INV, 0x26, INV, INV, INV, INV, INV, INV, INV,
     ACK, INV, INV, INV, INV, INV, INV, INV, INV, INV, INV, INV, INV, INV, INV, INV]"

definition railcom_encode :: "u8 list" where
  "railcom_encode =
    [0xac, 0xaa, 0xa9, 0xa5, 0xa3, 0xa6, 0x9c, 0x9a, 0x99, 0x95, 0x93, 0x96, 0x8e, 0x8d, 0x8b, 0xb1,
     0xb2, 0xb4, 0xb8, 0x74, 0x72, 0x6c, 0x6a, 0x69, 0x65, 0x63, 0x66, 0x5c, 0x5a, 0x59, 0x55, 0x53,
     0x56, 0x4e, 0x4d, 0x4b, 0x47, 0x71, 0xe8, 0xe4, 0xe2, 0xd1, 0xc9, 0xc5, 0xd8, 0xd4, 0xd2, 0xca,
     0xc6, 0xcc, 0x78, 0x17, 0x1b, 0x1d, 0x1e, 0x2e, 0x36, 0x3a, 0x27, 0x2b, 0x2d, 0x35, 0x39, 0x33]"

definition decode_byte :: "u8 \<Rightarrow> u8" where
  "decode_byte b = railcom_decode ! unat b"

definition encode_bits :: "u8 \<Rightarrow> u8" where
  "encode_bits x = railcom_encode ! unat (x AND 0x3F)"

subsection \<open>Feedback messages\<close>

definition RMOB_POM :: u8 where "RMOB_POM = 0"
definition RMOB_ADRHIGH :: u8 where "RMOB_ADRHIGH = 1"
definition RMOB_ADRLOW :: u8 where "RMOB_ADRLOW = 2"
definition RMOB_EXT :: u8 where "RMOB_EXT = 3"
definition RMOB_DYN :: u8 where "RMOB_DYN = 7"
definition RMOB_XPOM0 :: u8 where "RMOB_XPOM0 = 8"
definition RMOB_XPOM3 :: u8 where "RMOB_XPOM3 = 11"
definition RMOB_LOGON_ASSIGN_FEEDBACK :: u8 where "RMOB_LOGON_ASSIGN_FEEDBACK = 13"
definition RMOB_LOGON_ENABLE_FEEDBACK :: u8 where "RMOB_LOGON_ENABLE_FEEDBACK = 15"

record feedback =
  ch1Size :: u8
  ch1Data :: "u8 list"
  ch2Size :: u8
  ch2Data :: "u8 list"
  channel :: u8
  feedbackKey :: u64

definition feedback_reset :: "u32 \<Rightarrow> feedback \<Rightarrow> feedback" where
  "feedback_reset key fb = fb\<lparr>feedbackKey := ucast key, ch1Size := 0, ch2Size := 0, channel := 0\<rparr>"

definition add_ch1_data :: "u8 \<Rightarrow> feedback \<Rightarrow> feedback option" where
  "add_ch1_data b fb =
     (if ch1Size fb < 2 then do {
        d \<leftarrow> array_set (ch1Data fb) (unat (ch1Size fb)) b;
        Some (fb\<lparr>ch1Data := d, ch1Size := ch1Size fb + 1\<rparr>)
      } else Some fb)"

definition add_ch2_data :: "u8 \<Rightarrow> feedback \<Rightarrow> feedback option" where
  "add_ch2_data b fb =
     (if ch2Size fb < 6 then do {
        d \<leftarrow> array_set (ch2Data fb) (unat (ch2Size fb)) b;
        Some (fb\<lparr>ch2Data := d, ch2Size := ch2Size fb + 1\<rparr>)
      } else Some fb)"

definition encode12 :: "u8 \<Rightarrow> u8 \<Rightarrow> u16" where
  "encode12 nibble data =
     push_bit 8 (ucast (encode_bits (push_bit 2 nibble OR drop_bit 6 data))) OR ucast (encode_bits data)"

definition append12 :: "u8 \<Rightarrow> u8 \<Rightarrow> u8 list" where
  "append12 nibble data = [encode_bits (push_bit 2 nibble OR drop_bit 6 data), encode_bits data]"

definition append36 :: "u8 \<Rightarrow> u32 \<Rightarrow> u8 list" where
  "append36 nibble data =
     [encode_bits (push_bit 2 nibble OR ucast (drop_bit 30 data)), encode_bits (ucast (drop_bit 24 data)),
      encode_bits (ucast (drop_bit 18 data)), encode_bits (ucast (drop_bit 12 data)),
      encode_bits (ucast (drop_bit 6 data)), encode_bits (ucast data)]"

definition add_did_feedback :: "u64 \<Rightarrow> feedback \<Rightarrow> feedback" where
  "add_did_feedback decoder_id fb =
     fb\<lparr>ch1Size := 2, ch2Size := 6,
        ch1Data := append12 RMOB_LOGON_ENABLE_FEEDBACK (ucast (drop_bit 36 decoder_id AND 0xff)),
        ch2Data := append36 (ucast (drop_bit 32 decoder_id AND 0xf)) (ucast (decoder_id AND 0xffffffff))\<rparr>"

definition add_shortinfo_feedback :: "u16 \<Rightarrow> u8 \<Rightarrow> u8 \<Rightarrow> u8 \<Rightarrow> feedback \<Rightarrow> feedback" where
  "add_shortinfo_feedback requested_address max_fn psupp ssupp fb =
     (let a = (requested_address AND 0x3FFF) OR 0x8000;
          m = dallas_update16 dallas_init (ucast (drop_bit 8 a));
          m = dallas_update16 m (ucast (a AND 0xff));
          m = dallas_update16 m max_fn;
          m = dallas_update16 m psupp;
          m = dallas_update16 m ssupp;
          lp = push_bit 24 (ucast max_fn) OR push_bit 16 (ucast psupp) OR push_bit 8 (ucast ssupp) OR ucast m
      in fb\<lparr>ch1Size := 2, ch2Size := 6,
            ch1Data := append12 (ucast (drop_bit 12 a)) (ucast (drop_bit 4 a AND 0xff)),
            ch2Data := append36 (ucast (a AND 0xf)) lp\<rparr>)"

definition add_assign_feedback :: "u8 \<Rightarrow> u16 \<Rightarrow> u8 \<Rightarrow> u8 \<Rightarrow> feedback \<Rightarrow> feedback" where
  "add_assign_feedback changeflags changecount supp2 supp3 fb =
     (let changecount = changecount AND 0xFFF;
          h = push_bit 4 RMOB_LOGON_ASSIGN_FEEDBACK OR drop_bit 4 changeflags;
          m = dallas_update16 dallas_init h;
          h = push_bit 4 (changeflags AND 0xf) OR ucast (drop_bit 8 changecount);
          m = dallas_update16 m h;
          h = ucast (changecount AND 0xff);
          m = dallas_update16 m h;
          m = dallas_update16 m supp2;
          m = dallas_update16 m supp3;
          lp = push_bit 24 (ucast (changecount AND 0xff)) OR push_bit 16 (ucast supp2) OR
               push_bit 8 (ucast supp3) OR ucast m
      in fb\<lparr>ch1Size := 2, ch2Size := 6, ch1Data := append12 RMOB_LOGON_ASSIGN_FEEDBACK changeflags,
            ch2Data := append36 (ucast (drop_bit 8 changecount)) lp\<rparr>)"

lemma table_lengths [simp]: "length railcom_decode = 256" "length railcom_encode = 64"
  by (simp_all add: railcom_decode_def railcom_encode_def)

definition weight4 :: "u8 \<Rightarrow> bool" where
  "weight4 b \<longleftrightarrow> length (filter (bit b) [0..<8]) = 4"

text \<open>The table is the code of the bytes with four one bits.\<close>

lemma encode_table: "list_all (\<lambda>x. decode_byte (railcom_encode ! x) = of_nat x) [0..<64]"
  by code_simp

fun rows :: "(u8 \<Rightarrow> u8 \<Rightarrow> bool) \<Rightarrow> u8 \<Rightarrow> u8 list \<Rightarrow> bool" where
  "rows P x [] = True"
| "rows P x (d # ds) = (P x d \<and> rows P (x + 1) ds)"

lemma rows_nth: "rows P x ds \<Longrightarrow> i < length ds \<Longrightarrow> P (x + of_nat i) (ds ! i)"
proof (induction ds arbitrary: x i)
  case (Cons d ds)
  show ?case
  proof (cases i)
    case (Suc j)
    then have "P (x + 1 + of_nat j) (ds ! j)" using Cons.IH [of "x + 1" j] Cons.prems by simp
    then show ?thesis by (simp add: Suc ac_simps)
  qed (use Cons.prems in simp)
qed simp

lemma decode_rows:
  "rows (\<lambda>x d. (d \<noteq> INV) = weight4 x \<and> (d \<ge> 64 \<or> railcom_encode ! unat d = x)) 0 railcom_decode"
  by code_simp

lemma decode_table:
  "(decode_byte b \<noteq> INV) = weight4 b \<and>
   (decode_byte b \<ge> 64 \<or> railcom_encode ! unat (decode_byte b) = b)"
  using rows_nth [OF decode_rows, of "unat b"] by (simp add: decode_byte_def)

lemma decode_encode: "decode_byte (encode_bits x) = x AND 0x3F"
proof -
  have "unat (x AND 0x3F) < 64"
    using word_and_mask_bound [of x 6] by (simp add: mask_eq_exp_minus_1)
  then have "decode_byte (railcom_encode ! unat (x AND 0x3F)) = of_nat (unat (x AND 0x3F))"
    using encode_table by (simp add: list_all_iff)
  then show ?thesis by (simp add: encode_bits_def)
qed

lemma decode_weight: "decode_byte b \<noteq> INV \<longleftrightarrow> weight4 b"
  using decode_table by blast

lemma encode_decode: "decode_byte b < 64 \<Longrightarrow> encode_bits (decode_byte b) = b"
proof -
  assume b: "decode_byte b < 64"
  then have "railcom_encode ! unat (decode_byte b) = b"
    using decode_table [of b] by auto
  moreover have "decode_byte b AND 0x3F = decode_byte b"
  proof -
    have "unat (decode_byte b) < 2 ^ 6" using b by (simp add: word_less_nat_alt)
    then have "take_bit 6 (decode_byte b) = decode_byte b" by (rule take_bit_unat_less)
    then show ?thesis by (simp add: take_bit_eq_mask mask_eq_exp_minus_1)
  qed
  ultimately show ?thesis using b by (auto simp: encode_bits_def)
qed

lemma flip_weight:
  assumes "weight4 b" "k < 8"
  shows "\<not> weight4 (b XOR push_bit k 1)"
proof -
  let ?S = "{i. i < 8 \<and> bit b i}"
  have card: "length (filter P [0..<8]) = card {i. i < 8 \<and> P i}" for P
    by (subst distinct_card [symmetric]) (auto intro: arg_cong [where f = card])
  have "{i. i < 8 \<and> bit (b XOR push_bit k 1) i} = (if bit b k then ?S - {k} else insert k ?S)"
    using assms(2) by (auto simp: bit_simps)
  moreover have "card ?S = 4" using assms(1) by (simp add: weight4_def card)
  moreover have "finite ?S" by simp
  ultimately show ?thesis using assms(2) by (simp add: weight4_def card)
qed

text \<open>The 4/8 code: decoding inverts encoding on six bits, a byte is valid exactly when four of
  its bits are set, the data bytes are exactly the encodings, and so every single bit
  error in a valid byte makes it invalid.\<close>

theorem railcom_code:
  "decode_byte (encode_bits x) = x AND 0x3F \<and>
   (decode_byte b = INV \<longleftrightarrow> \<not> weight4 b) \<and>
   (decode_byte b < 64 \<longrightarrow> encode_bits (decode_byte b) = b) \<and>
   (decode_byte b \<noteq> INV \<and> k < 8 \<longrightarrow> decode_byte (b XOR push_bit k 1) = INV)"
proof -
  have "decode_byte (b XOR push_bit k 1) = INV" if "decode_byte b \<noteq> INV" "k < 8"
  proof -
    have "\<not> weight4 (b XOR push_bit k 1)"
      using flip_weight that decode_weight by blast
    then show ?thesis using decode_weight by blast
  qed
  then show ?thesis
    using decode_encode decode_weight encode_decode by blast
qed

theorem railcom_code_witness:
  "decode_byte (encode_bits 5) = 5 \<and> encode_bits (decode_byte 0xa6) = 0xa6 \<and> decode_byte (0xa6 XOR push_bit 3 1) = INV"
proof -
  have "decode_byte 0xa6 = 5" by code_simp
  moreover have "(5 :: u8) \<noteq> INV" "(5 :: u8) < 64" by (simp_all add: INV_def)
  ultimately show ?thesis using railcom_code [of 5 "0xa6" 3] by simp
qed

end
