(* ===== verification/RailcomParse.thy ===== *)
theory RailcomParse
  imports Railcom Text
begin

section \<open>Splitting RailCom data into packets (parse_railcom_data)\<close>

text \<open>
  \<open>parse_scan\<close> is the loop over the received bytes; an access behind the array is
  \<open>None\<close>. The vector of packets is the list that is returned.
\<close>

record railcom_packet =
  hw_channel :: u8
  railcom_channel :: u8
  rp_type :: u8
  argument :: u32

definition RP_GARBAGE :: u8 where "RP_GARBAGE = 0"
definition RP_ACK :: u8 where "RP_ACK = 1"
definition RP_NACK :: u8 where "RP_NACK = 2"
definition RP_BUSY :: u8 where "RP_BUSY = 3"
definition RP_MOB_POM :: u8 where "RP_MOB_POM = 4"
definition RP_MOB_ADRHIGH :: u8 where "RP_MOB_ADRHIGH = 5"
definition RP_MOB_ADRLOW :: u8 where "RP_MOB_ADRLOW = 6"
definition RP_MOB_EXT :: u8 where "RP_MOB_EXT = 7"
definition RP_MOB_DYN :: u8 where "RP_MOB_DYN = 8"
definition RP_MOB_XPOM0 :: u8 where "RP_MOB_XPOM0 = 9"

lemmas rp_types = RP_GARBAGE_def RP_ACK_def RP_NACK_def RP_BUSY_def RP_MOB_POM_def RP_MOB_ADRHIGH_def
  RP_MOB_ADRLOW_def RP_MOB_EXT_def RP_MOB_DYN_def RP_MOB_XPOM0_def
lemmas rmob_ids = RMOB_POM_def RMOB_ADRHIGH_def RMOB_ADRLOW_def RMOB_EXT_def RMOB_DYN_def RMOB_XPOM0_def
  RMOB_XPOM3_def

definition special_type :: "u8 \<Rightarrow> u8" where
  "special_type decoded =
     (if decoded = ACK then RP_ACK else if decoded = NACK then RP_NACK
      else if decoded = BUSY then RP_BUSY else 0xff)"

definition datagram_kind :: "u8 list \<Rightarrow> nat \<Rightarrow> nat \<Rightarrow> u8 \<Rightarrow> (u8 \<times> nat) option" where
  "datagram_kind ptr sz ofs packet_id =
     (if packet_id = RMOB_ADRHIGH then Some (RP_MOB_ADRHIGH, 2)
      else if packet_id = RMOB_ADRLOW then Some (RP_MOB_ADRLOW, 2)
      else if packet_id = RMOB_EXT then Some (RP_MOB_EXT, 2)
      else if packet_id = RMOB_POM then
        (if sz = 6 \<and> ofs = 0 then do {
           b \<leftarrow> array_get ptr 2;
           Some (RP_MOB_POM, if decode_byte b < 64 then 6 else 2)
         } else Some (RP_MOB_POM, 2))
      else if RMOB_XPOM0 \<le> packet_id \<and> packet_id \<le> RMOB_XPOM3 then
        Some (RP_MOB_XPOM0 + (packet_id - RMOB_XPOM0), 6)
      else if packet_id = RMOB_DYN then Some (RP_MOB_DYN, 3)
      else Some (0xff, 255))"

fun arg_loop :: "nat \<Rightarrow> u8 list \<Rightarrow> nat \<Rightarrow> u8 \<Rightarrow> u32 \<Rightarrow> (u8 \<times> u32) option" where
  "arg_loop 0 ptr ofs ty arg = Some (ty, arg)"
| "arg_loop (Suc k) ptr ofs ty arg = do {
     b \<leftarrow> array_get ptr (ofs + 1);
     let decoded = decode_byte b;
     arg_loop k ptr (ofs + 1) (if decoded \<ge> 64 then RP_GARBAGE else ty) (push_bit 6 arg OR ucast decoded)
   }"

function parse_scan :: "u8 \<Rightarrow> u8 \<Rightarrow> u8 list \<Rightarrow> nat \<Rightarrow> nat \<Rightarrow> railcom_packet list option" where
  "parse_scan fb_channel ch ptr sz ofs =
     (if ofs < sz then do {
        b \<leftarrow> array_get ptr ofs;
        let decoded = decode_byte b;
        if special_type decoded \<noteq> 0xff then do {
          rest \<leftarrow> parse_scan fb_channel ch ptr sz (ofs + 1);
          Some (\<lparr>hw_channel = fb_channel, railcom_channel = ch, rp_type = special_type decoded, argument = 0\<rparr> # rest)
        }
        else if decoded \<ge> 64 then
          Some [\<lparr>hw_channel = fb_channel, railcom_channel = ch, rp_type = RP_GARBAGE, argument = 0\<rparr>]
        else do {
          (ty, len) \<leftarrow> datagram_kind ptr sz ofs (drop_bit 2 decoded);
          if ofs + len > sz then
            Some [\<lparr>hw_channel = fb_channel, railcom_channel = ch, rp_type = RP_GARBAGE, argument = 0\<rparr>]
          else do {
            (ty, arg) \<leftarrow> arg_loop (len - 1) ptr ofs ty (ucast (decoded AND 3));
            rest \<leftarrow> parse_scan fb_channel ch ptr sz (ofs + (len - 1) + 1);
            Some (\<lparr>hw_channel = fb_channel, railcom_channel = ch, rp_type = ty, argument = arg\<rparr> # rest)
          }
        }
      } else Some [])"
  by pat_completeness auto
termination
  by (relation "measure (\<lambda>(_, _, _, sz, ofs). sz - ofs)") auto

declare parse_scan.simps [simp del]

definition parse_internal :: "u8 \<Rightarrow> u8 \<Rightarrow> u8 list \<Rightarrow> nat \<Rightarrow> railcom_packet list option" where
  "parse_internal fb_channel ch ptr sz = (if sz = 0 then Some [] else parse_scan fb_channel ch ptr sz 0)"

definition parse_railcom_data :: "feedback \<Rightarrow> railcom_packet list option" where
  "parse_railcom_data fb =
     (if channel fb = 0xff then Some []
      else if ch1Size fb = 1 \<and> decode_byte (ch1Data fb ! 0) \<noteq> INV \<and> ch2Size fb \<ge> 1 then do {
        hassert (unat (ch1Size fb) \<le> length (ch1Data fb) \<and> unat (ch2Size fb) \<le> length (ch2Data fb) \<and>
                 unat (ch1Size fb) + unat (ch2Size fb) \<le> 8);
        let data = take (unat (ch1Size fb)) (ch1Data fb) @ take (unat (ch2Size fb)) (ch2Data fb);
        parse_internal (channel fb) 2 data (unat (ch1Size fb) + unat (ch2Size fb))
      }
      else do {
        out1 \<leftarrow> parse_internal (channel fb) 1 (ch1Data fb) (unat (ch1Size fb));
        out2 \<leftarrow> parse_internal (channel fb) 2 (ch2Data fb) (unat (ch2Size fb));
        Some (out1 @ out2)
      })"

text \<open>dcc/RailcomDebug.cpp: the text of a feedback structure.\<close>

fun debug_bytes :: "u8 list \<Rightarrow> nat list \<Rightarrow> string option" where
  "debug_bytes data [] = Some []"
| "debug_bytes data (i # is) = do {
     b \<leftarrow> array_get data i;
     rest \<leftarrow> debug_bytes data is;
     Some ('' '' @ hex2 b @ ''='' @ hex2 (decode_byte b) @ rest)
   }"

definition railcom_debug :: "feedback \<Rightarrow> string option" where
  "railcom_debug fb = do {
     ch1 \<leftarrow> debug_bytes (ch1Data fb) [0..<unat (ch1Size fb)];
     ch2 \<leftarrow> debug_bytes (ch2Data fb) [0..<unat (ch2Size fb)];
     Some (''ch1('' @ dec (unat (ch1Size fb)) @ '') '' @ ch1 @ '' ch2('' @ dec (unat (ch2Size fb)) @ '') '' @ ch2)
   }"

lemma railcom_debug_example: "railcom_debug \<lparr>ch1Size = 1, ch1Data = [0xa3, 0], ch2Size = 1, ch2Data = [0, 0, 0, 0, 0, 0], channel = 0,
     feedbackKey = 0\<rparr> = Some ''ch1(1)  a3=04 ch2(1)  00=ff''"
  by code_simp

subsection \<open>Memory safety\<close>

definition feedback_wf :: "feedback \<Rightarrow> bool" where
  "feedback_wf fb \<longleftrightarrow> length (ch1Data fb) = 2 \<and> length (ch2Data fb) = 6 \<and>
     unat (ch1Size fb) \<le> 2 \<and> unat (ch2Size fb) \<le> 6"

lemma arg_loop_Some: "ofs + k < length ptr \<Longrightarrow> \<exists>r. arg_loop k ptr ofs ty arg = Some r"
  by (induction k arbitrary: ofs ty arg) (auto simp: Let_def)

lemma datagram_kind_Some:
  assumes "sz \<le> length ptr"
  shows "\<exists>ty len. datagram_kind ptr sz ofs i = Some (ty, len) \<and> 1 < len"
  using assms by (auto simp: datagram_kind_def)

lemma parse_scan_Some:
  assumes "sz \<le> length ptr"
  shows "\<exists>ps. parse_scan c ch ptr sz ofs = Some ps \<and> length ps \<le> sz - ofs"
  using assms
proof (induction c ch ptr sz ofs rule: parse_scan.induct)
  case (1 c ch ptr sz ofs)
  show ?case
  proof (cases "ofs < sz")
    case False
    then show ?thesis by (simp add: parse_scan.simps [of c ch ptr sz ofs])
  next
    case True
    define d where "d = decode_byte (ptr ! ofs)"
    have b: "array_get ptr ofs = Some (ptr ! ofs)" using True "1.prems" by simp
    show ?thesis
    proof (cases "special_type d \<noteq> 0xff")
      case special: True
      then obtain ps where "parse_scan c ch ptr sz (ofs + 1) = Some ps" "length ps \<le> sz - (ofs + 1)"
        using "1.IH"(1) [OF True b refl] "1.prems" d_def by blast
      with special True b show ?thesis
        by (simp add: parse_scan.simps [of c ch ptr sz ofs] flip: d_def)
    next
      case plain: False
      obtain ty len where k: "datagram_kind ptr sz ofs (drop_bit 2 d) = Some (ty, len)" "1 < len"
        using datagram_kind_Some [OF "1.prems"] by blast
      show ?thesis
      proof (cases "d \<ge> 64 \<or> ofs + len > sz")
        case True
        with plain \<open>ofs < sz\<close> b k show ?thesis
          by (auto simp: parse_scan.simps [of c ch ptr sz ofs] simp flip: d_def)
      next
        case False
        then have le: "ofs + len \<le> sz" by auto
        then have "ofs + (len - 1) < length ptr" using k(2) "1.prems" by linarith
        then obtain ty' arg where a: "arg_loop (len - 1) ptr ofs ty (ucast (d AND 3)) = Some (ty', arg)"
          using arg_loop_Some by fastforce
        obtain ps where "parse_scan c ch ptr sz (ofs + (len - 1) + 1) = Some ps"
          "length ps \<le> sz - (ofs + (len - 1) + 1)"
          using "1.IH"(2) [OF True b refl] plain False k a "1.prems" d_def by fastforce
        with plain False True b k a show ?thesis
          by (simp add: parse_scan.simps [of c ch ptr sz ofs] flip: d_def) (use k(2) le in linarith)
      qed
    qed
  qed
qed

lemma parse_internal_Some:
  "sz \<le> length ptr \<Longrightarrow> \<exists>ps. parse_internal c ch ptr sz = Some ps \<and> length ps \<le> sz"
  using parse_scan_Some [of sz ptr c ch 0] by (auto simp: parse_internal_def)

text \<open>Whatever bytes the hardware put into a feedback structure, parsing ends without reading
  outside of the channels' arrays or overflowing the joint buffer, and yields at most one
  packet per received byte.\<close>

theorem parse_railcom_safe:
  assumes "feedback_wf fb"
  shows "\<exists>ps. parse_railcom_data fb = Some ps \<and> length ps \<le> unat (ch1Size fb) + unat (ch2Size fb)"
proof (cases "channel fb = 0xff \<or> (ch1Size fb = 1 \<and> decode_byte (ch1Data fb ! 0) \<noteq> INV \<and> ch2Size fb \<ge> 1)")
  case True
  let ?d = "take (unat (ch1Size fb)) (ch1Data fb) @ take (unat (ch2Size fb)) (ch2Data fb)"
  have "unat (ch1Size fb) + unat (ch2Size fb) \<le> length ?d" using assms by (simp add: feedback_wf_def)
  from parse_internal_Some [OF this, of "channel fb" 2] show ?thesis
    using assms True by (auto simp: parse_railcom_data_def feedback_wf_def)
next
  case False
  have "unat (ch1Size fb) \<le> length (ch1Data fb)" "unat (ch2Size fb) \<le> length (ch2Data fb)"
    using assms by (simp_all add: feedback_wf_def)
  from parse_internal_Some [OF this(1), of "channel fb" 1] parse_internal_Some [OF this(2), of "channel fb" 2]
  show ?thesis using False by (auto simp: parse_railcom_data_def)
qed

definition no_feedback :: feedback where
  "no_feedback = \<lparr>ch1Size = 0, ch1Data = [0, 0], ch2Size = 0, ch2Data = [0, 0, 0, 0, 0, 0], channel = 0,
     feedbackKey = 0\<rparr>"

theorem parse_railcom_safe_witness:
  "\<exists>ps. parse_railcom_data (no_feedback\<lparr>ch1Size := 1, ch2Size := 6\<rparr>) = Some ps \<and> length ps \<le> 7"
  using parse_railcom_safe [of "no_feedback\<lparr>ch1Size := 1, ch2Size := 6\<rparr>"]
  by (simp add: feedback_wf_def no_feedback_def)

subsection \<open>Datagrams that were encoded are read back\<close>

lemma low_six: "(x :: u8) AND 0x3F = take_bit 6 x"
  by (simp add: take_bit_eq_mask mask_eq_exp_minus_1)

lemma decode_small: "decode_byte (encode_bits x) < 64"
  using word_and_mask_bound [of x 6] by (simp add: decode_encode word_less_nat_alt mask_eq_exp_minus_1)

lemma and_63_less: "(x :: u8) AND 0x3F < 64"
  using decode_small [of x] by (simp only: decode_encode)

lemma not_ge_64: "(x :: u8) < 64 \<Longrightarrow> (64 \<le> x) = False"
  by simp

lemma not_special: "d < 64 \<Longrightarrow> special_type d = 0xff"
  by (auto simp: special_type_def codes)

lemma first_code: "drop_bit 2 ((push_bit 2 n OR x) AND 0x3F) = n" "((push_bit 2 n OR x) AND 0x3F) AND 3 = x"
  if "n < 16" "x < 4" for n x :: u8
proof -
  have n: "take_bit 4 n = n" and x: "take_bit 2 x = x"
    using that by (auto intro!: take_bit_unat_less simp: word_less_nat_alt)
  have 1: "bit n i \<Longrightarrow> i < 4" for i using n by (metis bit_take_bit_iff)
  have 2: "bit x i \<Longrightarrow> i < 2" for i using x by (metis bit_take_bit_iff)
  have m: "(0x3F :: u8) = mask 6" "(3 :: u8) = mask 2" by (simp_all add: mask_eq_exp_minus_1)
  show "drop_bit 2 ((push_bit 2 n OR x) AND 0x3F) = n"
    unfolding m by (rule bit_word_eqI) (auto simp: bit_simps dest: 1 2)
  show "((push_bit 2 n OR x) AND 0x3F) AND 3 = x"
    unfolding m by (rule bit_word_eqI) (auto simp: bit_simps dest: 1 2)
qed

lemma high_two: "drop_bit 6 (d :: u8) < 4"
proof -
  have "unat d div 64 < 4" by (simp add: div_less_iff_less_mult)
  then show ?thesis unfolding word_less_nat_alt unat_drop_bit_eq by (simp add: drop_bit_eq_div)
qed

lemma bits_8: "bit (d :: u8) j \<Longrightarrow> j < 8"
  using bit_imp_le_length [of d j] by simp

lemma join_12: "push_bit 6 (ucast (drop_bit 6 d)) OR ucast (d AND 0x3F) = (ucast (d :: u8) :: u32)"
proof (rule bit_word_eqI)
  have m: "(0x3F :: u8) = mask 6" by (simp add: mask_eq_exp_minus_1)
  fix j assume "j < LENGTH(32)"
  then show "bit (push_bit 6 (ucast (drop_bit 6 d)) OR ucast (d AND 0x3F) :: u32) j = bit (ucast d :: u32) j"
    unfolding m by (auto simp: bit_simps dest: bits_8)
qed

lemma below_32:
  assumes "j < (32 :: nat)"
  shows "j \<in> {0, 1, 2, 3, 4, 5, 6, 7, 8, 9, 10, 11, 12, 13, 14, 15, 16, 17, 18, 19, 20, 21, 22, 23, 24, 25, 26,
    27, 28, 29, 30, 31}"
  using assms by (simp add: less_Suc_eq eval_nat_numeral)

lemma join_36:
  "push_bit 6 (push_bit 6 (push_bit 6 (push_bit 6 (push_bit 6 (ucast (ucast (drop_bit 30 D) :: u8)) OR
     ucast (ucast (drop_bit 24 D) AND 0x3F :: u8)) OR ucast (ucast (drop_bit 18 D) AND 0x3F :: u8)) OR
     ucast (ucast (drop_bit 12 D) AND 0x3F :: u8)) OR ucast (ucast (drop_bit 6 D) AND 0x3F :: u8)) OR
     ucast (ucast D AND 0x3F :: u8) = (D :: u32)" (is "?l = D")
proof (rule bit_word_eqI)
  have m: "(0x3F :: u8) = mask 6" by (simp add: mask_eq_exp_minus_1)
  fix j assume "j < LENGTH(32)"
  then have "j \<in> {0, 1, 2, 3, 4, 5, 6, 7, 8, 9, 10, 11, 12, 13, 14, 15, 16, 17, 18, 19, 20, 21, 22, 23, 24, 25, 26,
    27, 28, 29, 30, 31}" using below_32 by simp
  then show "bit ?l j = bit D j"
    unfolding m by (elim insertE emptyE; simp add: bit_simps)
qed

definition two_byte_type :: "u8 \<Rightarrow> u8" where
  "two_byte_type n = (if n = RMOB_POM then RP_MOB_POM else if n = RMOB_ADRHIGH then RP_MOB_ADRHIGH
     else if n = RMOB_ADRLOW then RP_MOB_ADRLOW else RP_MOB_EXT)"

lemma scan_two:
  assumes "decode_byte b0 < 64" "decode_byte b1 < 64"
    and "datagram_kind [b0, b1] 2 0 (drop_bit 2 (decode_byte b0)) = Some (ty, 2)"
  shows "parse_internal c ch [b0, b1] 2 = Some [\<lparr>hw_channel = c, railcom_channel = ch, rp_type = ty,
     argument = push_bit 6 (ucast (decode_byte b0 AND 3)) OR ucast (decode_byte b1)\<rparr>]"
proof -
  have "arg_loop 1 [b0, b1] 0 ty x = Some (ty, push_bit 6 x OR ucast (decode_byte b1))" for x
    using assms(2) by (simp add: array_get_def Let_def not_ge_64)
  then show ?thesis
    unfolding parse_internal_def using assms not_special [OF assms(1)]
    by (subst parse_scan.simps)
       (simp add: array_get_def Let_def not_ge_64 parse_scan.simps [of c ch _ 2 "Suc (Suc 0)"])
qed

lemma scan_six:
  assumes "\<forall>b \<in> {b0, b1, b2, b3, b4, b5}. decode_byte b < 64"
    and "datagram_kind [b0, b1, b2, b3, b4, b5] 6 0 (drop_bit 2 (decode_byte b0)) = Some (ty, 6)"
  shows "parse_internal c ch [b0, b1, b2, b3, b4, b5] 6 = Some [\<lparr>hw_channel = c, railcom_channel = ch, rp_type = ty,
     argument = push_bit 6 (push_bit 6 (push_bit 6 (push_bit 6 (push_bit 6 (ucast (decode_byte b0 AND 3)) OR
       ucast (decode_byte b1)) OR ucast (decode_byte b2)) OR ucast (decode_byte b3)) OR
       ucast (decode_byte b4)) OR ucast (decode_byte b5)\<rparr>]"
proof -
  have five: "(5 :: nat) = Suc (Suc (Suc (Suc (Suc 0))))" by simp
  have "arg_loop 5 [b0, b1, b2, b3, b4, b5] 0 ty x = Some (ty, push_bit 6 (push_bit 6 (push_bit 6 (push_bit 6
       (push_bit 6 x OR ucast (decode_byte b1)) OR ucast (decode_byte b2)) OR ucast (decode_byte b3)) OR
       ucast (decode_byte b4)) OR ucast (decode_byte b5))" for x
    unfolding five using assms(1) by (simp add: array_get_def Let_def not_ge_64)
  then show ?thesis
    unfolding parse_internal_def using assms(2) assms(1) not_special [of "decode_byte b0"]
    by (subst parse_scan.simps) (simp add: array_get_def Let_def not_ge_64 parse_scan.simps [of c ch _ 6 6])
qed

lemma two_byte_datagram:
  assumes "n \<in> {RMOB_POM, RMOB_ADRHIGH, RMOB_ADRLOW, RMOB_EXT}"
  shows "parse_internal c ch (append12 n d) 2 =
     Some [\<lparr>hw_channel = c, railcom_channel = ch, rp_type = two_byte_type n, argument = ucast d\<rparr>]"
proof -
  have n: "n < 16" using assms by (auto simp: rmob_ids)
  have "datagram_kind ptr 2 0 n = Some (two_byte_type n, 2)" for ptr
    using assms by (auto simp: datagram_kind_def two_byte_type_def rmob_ids)
  then show ?thesis
    unfolding append12_def
    by (subst scan_two [where ty = "two_byte_type n"])
       (simp_all only: and_63_less decode_encode first_code [OF n high_two] join_12)
qed

definition six_byte_type :: "u8 \<Rightarrow> u8" where
  "six_byte_type n = (if n = RMOB_POM then RP_MOB_POM else RP_MOB_XPOM0 + (n - RMOB_XPOM0))"

lemma six_byte_datagram:
  assumes "n \<in> {0, 8, 9, 10, 11}"
  shows "parse_internal c ch (append36 n D) 6 =
     Some [\<lparr>hw_channel = c, railcom_channel = ch, rp_type = six_byte_type n, argument = D\<rparr>]"
proof -
  have n: "n < 16" using assms by auto
  have top: "(ucast (drop_bit 30 D) :: u8) < 4"
  proof -
    have "unat D div 2 ^ 30 < 4" by (simp add: div_less_iff_less_mult unat_less_power [of D, simplified])
    then have "unat (drop_bit 30 D) < 4" unfolding unat_drop_bit_eq by (simp add: drop_bit_eq_div)
    then show ?thesis by (simp add: word_less_nat_alt unsigned_ucast_eq take_bit_nat_eq_self)
  qed
  have "datagram_kind [b0, b1, encode_bits x, b3, b4, b5] 6 0 n = Some (six_byte_type n, 6)" for b0 b1 x b3 b4 b5
    using assms decode_small [of x] by (auto simp: datagram_kind_def six_byte_type_def rmob_ids array_get_def)
  then show ?thesis
    unfolding append36_def
    by (subst scan_six [where ty = "six_byte_type n"])
       (simp_all only: and_63_less ball_simps simp_thms decode_encode first_code [OF n top] join_36)
qed

text \<open>What a decoder encodes, the command station reads back: a two-byte datagram with the
  identifier of a CV, address or extended answer gives one packet of that kind with the
  eight data bits, and a six-byte datagram of a CV or XPOM answer gives one packet with
  all 32 data bits.\<close>

theorem railcom_datagrams_read_back:
  assumes "n \<in> {RMOB_POM, RMOB_ADRHIGH, RMOB_ADRLOW, RMOB_EXT}" "m \<in> {0, 8, 9, 10, 11}"
  shows "parse_internal c ch (append12 n d) 2 =
       Some [\<lparr>hw_channel = c, railcom_channel = ch, rp_type = two_byte_type n, argument = ucast d\<rparr>] \<and>
     parse_internal c ch (append36 m D) 6 =
       Some [\<lparr>hw_channel = c, railcom_channel = ch, rp_type = six_byte_type m, argument = D\<rparr>]"
  using two_byte_datagram [OF assms(1)] six_byte_datagram [OF assms(2)] by blast

theorem railcom_datagrams_read_back_witness:
  "parse_internal 0 1 (append12 RMOB_ADRLOW 0x2A) 2 =
       Some [\<lparr>hw_channel = 0, railcom_channel = 1, rp_type = RP_MOB_ADRLOW, argument = 0x2A\<rparr>] \<and>
     parse_internal 0 1 (append36 9 0xDEADBEEF) 6 =
       Some [\<lparr>hw_channel = 0, railcom_channel = 1, rp_type = 10, argument = 0xDEADBEEF\<rparr>]"
  using railcom_datagrams_read_back [where n = RMOB_ADRLOW and m = 9 and c = 0 and ch = 1 and d = "0x2A" and D = "0xDEADBEEF"]
  by (simp add: two_byte_type_def six_byte_type_def rmob_ids rp_types)

end
