(* ===== verification/LogonFeedback.thy ===== *)
theory LogonFeedback
  imports RailcomParse
begin

section \<open>Feedback to the automatic logon (dcc/LogonFeedback.hxx)\<close>

text \<open>
  \<open>parse_code\<close> packs the eight bytes of a feedback into one 64-bit word: 48 bits of
  payload, the number of valid bytes and the error bits. The call of the callback object
  is the event that \<open>logon_send\<close> returns; the classification of the packet by the
  callback object is an argument. A shift by 64 or more is undefined in C++ and is a fault.
\<close>

datatype packet_type = UNKNOWN | GET_DATA_START | GET_DATA_CONT | LOGON_ENABLE | SELECT_SHORTINFO | LOGON_ASSIGN
  | MISC_254

datatype logon_event = Process_select_shortinfo u64 bool u64 | Process_logon_assign u64 bool u64
  | Process_decoder_id u64 bool u64

abbreviation "ERROR_SHIFT \<equiv> (56 :: nat)"
abbreviation "LENGTH_SHIFT \<equiv> (48 :: nat)"
definition ERROR_MASK :: u64 where "ERROR_MASK = push_bit ERROR_SHIFT 0xff"
definition LENGTH_OFFSET :: u64 where "LENGTH_OFFSET = push_bit LENGTH_SHIFT 1"
definition PAYLOAD_MASK :: u64 where "PAYLOAD_MASK = LENGTH_OFFSET - 1"
definition ERROR_MISSING_DATA :: u64 where "ERROR_MISSING_DATA = push_bit ERROR_SHIFT 1"
definition ERROR_ACK :: u64 where "ERROR_ACK = push_bit ERROR_SHIFT 2"
definition ERROR_OUT_OF_ORDER :: u64 where "ERROR_OUT_OF_ORDER = push_bit ERROR_SHIFT 4"
definition ERROR_GARBAGE :: u64 where "ERROR_GARBAGE = push_bit ERROR_SHIFT 8"
definition ERROR_UNKNOWN :: u64 where "ERROR_UNKNOWN = push_bit ERROR_SHIFT 16"

definition append_data :: "u64 \<Rightarrow> u32 \<Rightarrow> u8 \<Rightarrow> (u64 \<times> u32) option" where
  "append_data data sh next_byte = do {
     let code = decode_byte next_byte;
     data \<leftarrow>
       (if code < 64 then do {
          hassert (sh < 64);
          let data = data OR push_bit (unat sh) (ucast code);
          let data = (if drop_bit ERROR_SHIFT data \<noteq> 0 then data OR ERROR_OUT_OF_ORDER else data);
          Some (data + LENGTH_OFFSET)
        }
        else if code = ACK then Some (data OR ERROR_ACK)
        else if code = INV then Some (data OR ERROR_GARBAGE)
        else Some (data OR ERROR_UNKNOWN));
     Some (data, sh - 6)
   }"

fun parse_channel :: "u8 \<Rightarrow> u8 list \<Rightarrow> nat list \<Rightarrow> u64 \<times> u32 \<Rightarrow> (u64 \<times> u32) option" where
  "parse_channel sz bytes [] st = Some st"
| "parse_channel sz bytes (i # is) (data, sh) = do {
     st \<leftarrow> (if i < unat sz then do {
              b \<leftarrow> array_get bytes i;
              append_data data sh b
            } else Some (data OR ERROR_MISSING_DATA, sh));
     parse_channel sz bytes is st
   }"

definition parse_code :: "feedback \<Rightarrow> u64 option" where
  "parse_code fb = do {
     st \<leftarrow> parse_channel (ch1Size fb) (ch1Data fb) [0..<2] (0, 48 - 6);
     (data, sh) \<leftarrow> parse_channel (ch2Size fb) (ch2Data fb) [0..<6] st;
     Some data
   }"

definition has_crc_error :: "u64 \<Rightarrow> bool" where
  "has_crc_error data \<longleftrightarrow>
     \<not> dallas_check_ok (foldl (\<lambda>m i. dallas_update16 m (ucast (drop_bit i data AND 0xff))) dallas_init
       [40, 32, 24, 16, 8, 0])"

definition logon_send :: "(u64 \<Rightarrow> packet_type) \<Rightarrow> feedback \<Rightarrow> logon_event option option" where
  "logon_send classify_packet fb =
     (let type = classify_packet (feedbackKey fb) in
      if type = UNKNOWN then Some None
      else do {
        data \<leftarrow> parse_code fb;
        let any_error = (data AND ERROR_MASK \<noteq> 0);
        let key = feedbackKey fb;
        Some (case type of
           SELECT_SHORTINFO \<Rightarrow> Some (Process_select_shortinfo key
             (any_error \<or> has_crc_error data \<or> drop_bit 47 data AND 1 \<noteq> 1) (data AND PAYLOAD_MASK))
         | LOGON_ASSIGN \<Rightarrow> Some (Process_logon_assign key
             (any_error \<or> has_crc_error data \<or> drop_bit 44 data AND 0xf \<noteq> ucast RMOB_LOGON_ASSIGN_FEEDBACK)
             (data AND PAYLOAD_MASK))
         | LOGON_ENABLE \<Rightarrow> Some (Process_decoder_id key
             (any_error \<or> drop_bit 44 data AND 0xf \<noteq> ucast RMOB_LOGON_ENABLE_FEEDBACK)
             (data AND PAYLOAD_MASK))
         | _ \<Rightarrow> None)
      })"

subsection \<open>The three fields of the word\<close>

text \<open>Error bits, number of valid bytes, payload.\<close>

definition packed :: "u64 \<Rightarrow> u64 \<Rightarrow> u64 \<Rightarrow> u64" where
  "packed e n v = push_bit 56 e OR push_bit 48 n OR v"

definition fields_ok :: "u64 \<Rightarrow> u64 \<Rightarrow> u64 \<Rightarrow> bool" where
  "fields_ok e n v \<longleftrightarrow> e < 32 \<and> n \<le> 8 \<and> v < 2 ^ 48"

lemma word_bits_below: "(w :: u64) < 2 ^ k \<Longrightarrow> k < 64 \<Longrightarrow> bit w i \<Longrightarrow> i < k"
  by (metis bit_take_bit_iff less_mask_eq take_bit_eq_mask)

lemma packed_bits:
  assumes "fields_ok e n v"
  shows "drop_bit 56 (packed e n v) = e" "take_bit 48 (packed e n v) = v"
    "take_bit 8 (drop_bit 48 (packed e n v)) = n"
proof -
  have "e < 2 ^ 5" "n < 2 ^ 4" "v < 2 ^ 48"
    using assms by (auto simp: fields_ok_def word_less_nat_alt word_le_nat_alt)
  note b = this [THEN word_bits_below, simplified]
  show "drop_bit 56 (packed e n v) = e" "take_bit 48 (packed e n v) = v"
    "take_bit 8 (drop_bit 48 (packed e n v)) = n"
    unfolding packed_def by (rule bit_word_eqI; auto simp: bit_simps dest: b)+
qed

lemma packed_sum:
  assumes "fields_ok e n v"
  shows "packed e n v = push_bit 56 e + push_bit 48 n + v"
proof -
  have "n < 2 ^ 4" "v < 2 ^ 48"
    using assms by (auto simp: fields_ok_def word_less_nat_alt word_le_nat_alt)
  note b = this [THEN word_bits_below, simplified]
  have "push_bit 56 e + push_bit 48 n = push_bit 56 e OR push_bit 48 n"
    by (rule disjunctive_add) (auto simp: bit_simps dest: b)
  moreover have "(push_bit 56 e OR push_bit 48 n) + v = (push_bit 56 e OR push_bit 48 n) OR v"
    by (rule disjunctive_add) (auto simp: bit_simps dest: b)
  ultimately show ?thesis by (simp add: packed_def ac_simps)
qed

lemma packed_next:
  assumes "fields_ok e n v" "n < 8"
  shows "packed e n v + LENGTH_OFFSET = packed e (n + 1) v" "fields_ok e (n + 1) v"
proof -
  show ok: "fields_ok e (n + 1) v"
    using assms by (auto simp: fields_ok_def) (metis inc_le)
  show "packed e n v + LENGTH_OFFSET = packed e (n + 1) v"
    by (simp add: packed_sum [OF assms(1)] packed_sum [OF ok] LENGTH_OFFSET_def push_bit_add)
qed

lemma packed_error: "packed e n v OR push_bit 56 k = packed (e OR k) n v"
  by (rule bit_word_eqI) (auto simp: packed_def bit_simps)

lemma packed_errors:
  "packed e n v OR ERROR_MISSING_DATA = packed (e OR 1) n v" "packed e n v OR ERROR_ACK = packed (e OR 2) n v"
  "packed e n v OR ERROR_OUT_OF_ORDER = packed (e OR 4) n v" "packed e n v OR ERROR_GARBAGE = packed (e OR 8) n v"
  "packed e n v OR ERROR_UNKNOWN = packed (e OR 16) n v"
  by (simp_all only: packed_error ERROR_MISSING_DATA_def ERROR_ACK_def ERROR_OUT_OF_ORDER_def ERROR_GARBAGE_def
      ERROR_UNKNOWN_def)

lemma packed_payload: "packed e n v OR x = packed e n (v OR x)"
  by (simp add: packed_def ac_simps)

lemma unat_exp: "k < 64 \<Longrightarrow> unat (2 ^ k :: u64) = 2 ^ k"
proof -
  assume "k < 64"
  then have "unat (of_nat (2 ^ k) :: u64) = 2 ^ k"
    using power_strict_increasing [of k 64 "2 :: nat"] \<open>k < 64\<close>
    unfolding unat_of_nat by (simp add: take_bit_nat_eq_self_iff)
  then show ?thesis by simp
qed

lemma bits_below_word: "(\<And>i. bit w i \<Longrightarrow> i < k) \<Longrightarrow> k < 64 \<Longrightarrow> w < 2 ^ k" for w :: u64
proof -
  assume "\<And>i. bit w i \<Longrightarrow> i < k" "k < 64"
  then have "take_bit k w = w" by (intro bit_word_eqI) (auto simp: bit_simps)
  then have "unat w < 2 ^ k" by (metis take_bit_nat_less_exp unsigned_take_bit_eq)
  then show ?thesis using unat_exp [OF \<open>k < 64\<close>] by (simp add: word_less_nat_alt)
qed

lemma or_less: "a < 2 ^ k \<Longrightarrow> b < 2 ^ k \<Longrightarrow> k < 64 \<Longrightarrow> a OR b < 2 ^ k" for a b :: u64
  by (rule bits_below_word) (auto simp: bit_simps dest: word_bits_below)

lemma code_bits: "c < 64 \<Longrightarrow> bit (c :: u8) i \<Longrightarrow> i < 6"
  using take_bit_unat_less [of c 6] by (auto simp: word_less_nat_alt) (metis bit_take_bit_iff)

lemma payload_less:
  assumes "c < 64" "(sh :: u32) \<le> 42"
  shows "push_bit (unat sh) (ucast (c :: u8) :: u64) < 2 ^ 48"
proof (rule bits_below_word)
  fix i assume "bit (push_bit (unat sh) (ucast c :: u64)) i"
  then have "unat sh \<le> i" "i - unat sh < 6" using code_bits [OF assms(1)] by (auto simp: bit_simps)
  moreover have "unat sh \<le> 42" using assms(2) by (simp add: word_le_nat_alt)
  ultimately show "i < 48" by linarith
qed simp

definition late :: "u64 \<Rightarrow> u64" where
  "late e = (if e = 0 then 0 else e OR 4)"

lemma append_code:
  assumes "fields_ok e n v" "n < 8" "sh \<le> 42" "decode_byte b < 64"
  defines "x \<equiv> push_bit (unat sh) (ucast (decode_byte b))"
  shows "append_data (packed e n v) sh b = Some (packed (late e) (n + 1) (v OR x), sh - 6)"
    "fields_ok (late e) (n + 1) (v OR x)"
proof -
  have x: "fields_ok e n (v OR x)"
    using assms(1) or_less [where k = 48 and a = v and b = x] payload_less [OF assms(4,3)]
    by (simp add: fields_ok_def x_def)
  then have y: "fields_ok (late e) n (v OR x)"
    using or_less [where k = 5 and a = e and b = 4] by (auto simp: fields_ok_def late_def)
  then show "fields_ok (late e) (n + 1) (v OR x)" using packed_next(2) assms(2) by blast
  have "sh < 64" using assms(3) by (simp add: word_less_nat_alt word_le_nat_alt)
  then show "append_data (packed e n v) sh b = Some (packed (late e) (n + 1) (v OR x), sh - 6)"
    using assms(4) packed_next(1) [OF y assms(2)] packed_next(1) [OF x assms(2)]
    by (auto simp: append_data_def packed_payload [of e n v x] packed_bits(1) [OF x] packed_errors late_def Let_def
        simp flip: x_def)
qed

definition code_error :: "u8 \<Rightarrow> u64" where
  "code_error c = (if c = ACK then 2 else if c = INV then 8 else 16)"

lemma append_other:
  assumes "fields_ok e n v" "\<not> decode_byte b < 64"
  shows "append_data (packed e n v) sh b = Some (packed (e OR code_error (decode_byte b)) n v, sh - 6)"
    "fields_ok (e OR code_error (decode_byte b)) n v" "e OR code_error (decode_byte b) \<noteq> 0"
proof -
  have "code_error (decode_byte b) < 2 ^ 5" "code_error (decode_byte b) \<noteq> 0"
    by (auto simp: code_error_def)
  then show "fields_ok (e OR code_error (decode_byte b)) n v" "e OR code_error (decode_byte b) \<noteq> 0"
    using assms(1) or_less [where k = 5 and a = e and b = "code_error (decode_byte b)"]
    by (auto simp: fields_ok_def or_eq_0_iff)
  show "append_data (packed e n v) sh b = Some (packed (e OR code_error (decode_byte b)) n v, sh - 6)"
    using assms(2) by (auto simp: append_data_def packed_errors code_error_def codes)
qed

subsection \<open>All eight bytes\<close>

text \<open>The bytes in the order they are read, \<open>None\<close> for a missing one.\<close>

fun add_codes :: "u8 option list \<Rightarrow> u64 \<times> u32 \<Rightarrow> (u64 \<times> u32) option" where
  "add_codes [] st = Some st"
| "add_codes (None # bs) (data, sh) = add_codes bs (data OR ERROR_MISSING_DATA, sh)"
| "add_codes (Some b # bs) (data, sh) = Option.bind (append_data data sh b) (add_codes bs)"

definition logon_received :: "u8 \<Rightarrow> u8 list \<Rightarrow> nat list \<Rightarrow> u8 option list" where
  "logon_received sz bytes = map (\<lambda>i. if i < unat sz then Some (bytes ! i) else None)"

lemma parse_channel_bytes:
  "\<forall>i \<in> set is. i < length bytes \<Longrightarrow> parse_channel sz bytes is = add_codes (logon_received sz bytes is)"
proof (induction "is")
  case (Cons i "is")
  then have "parse_channel sz bytes is = add_codes (logon_received sz bytes is)" "i < length bytes" by simp_all
  then have "parse_channel sz bytes (i # is) st = add_codes (logon_received sz bytes (i # is)) st" for st
    by (cases st) (simp add: logon_received_def)
  then show ?case ..
qed (simp add: logon_received_def fun_eq_iff)

lemma parse_bytes_append: "add_codes (xs @ ys) st = Option.bind (add_codes xs st) (add_codes ys)"
proof (induction xs st rule: add_codes.induct)
  case (3 b bs data sh)
  then show ?case by (cases "append_data data sh b") auto
qed simp_all

definition feedback_bytes :: "feedback \<Rightarrow> u8 option list" where
  "feedback_bytes fb = logon_received (ch1Size fb) (ch1Data fb) [0..<2] @ logon_received (ch2Size fb) (ch2Data fb) [0..<6]"

lemma parse_code_bytes:
  assumes "length (ch1Data fb) = 2" "length (ch2Data fb) = 6"
  shows "parse_code fb = map_option fst (add_codes (feedback_bytes fb) (0, 42))"
proof -
  have "parse_channel (ch1Size fb) (ch1Data fb) [0..<2] = add_codes (logon_received (ch1Size fb) (ch1Data fb) [0..<2])"
    "parse_channel (ch2Size fb) (ch2Data fb) [0..<6] = add_codes (logon_received (ch2Size fb) (ch2Data fb) [0..<6])"
    using assms by (intro parse_channel_bytes; simp)+
  then show ?thesis
    by (auto simp: parse_code_def feedback_bytes_def parse_bytes_append map_option_case Option.bind_assoc
        split: option.splits Option.bind_splits)
qed

fun valid_byte :: "u8 option \<Rightarrow> bool" where
  "valid_byte None = False"
| "valid_byte (Some b) = (decode_byte b < 64)"

fun join_codes :: "u8 list \<Rightarrow> nat \<Rightarrow> u64 \<Rightarrow> u64" where
  "join_codes [] k v = v"
| "join_codes (b # bs) k v = join_codes bs (k - 6) (v OR push_bit k (ucast (decode_byte b)))"

lemma next_shift: "0 < k \<Longrightarrow> (of_nat (6 * k) :: u32) - 6 = of_nat (6 * (k - 1))"
  by (cases k) simp_all

lemma shift_le: "k \<le> 7 \<Longrightarrow> (of_nat (6 * k) :: u32) \<le> 42" "k \<le> 7 \<Longrightarrow> unat (of_nat (6 * k) :: u32) = 6 * k"
proof -
  assume "k \<le> 7"
  then show u: "unat (of_nat (6 * k) :: u32) = 6 * k"
    by (simp only: unat_of_nat) (simp add: take_bit_nat_eq_self_iff)
  then show "(of_nat (6 * k) :: u32) \<le> 42"
    using \<open>k \<le> 7\<close> by (simp only: word_le_nat_alt u) simp
qed

lemma unat_next: "n < 8 \<Longrightarrow> unat (n + 1 :: u64) = unat n + 1"
proof -
  assume "n < 8"
  then have "unat n < 8" by (simp add: word_less_nat_alt)
  then have "unat (of_nat (unat n + 1) :: u64) = unat n + 1"
    unfolding unat_of_nat by (simp add: take_bit_nat_eq_self_iff)
  then show ?thesis by (simp add: ac_simps)
qed

lemma late_0 [simp]: "late e = 0 \<longleftrightarrow> e = 0"
  by (auto simp: late_def or_eq_0_iff)

lemma parse_bytes_result:
  assumes "fields_ok e n v" "unat n + length bs \<le> 8" "length bs \<le> Suc k" "k \<le> 7"
  shows "\<exists>e' n' v' sh'. add_codes bs (packed e n v, of_nat (6 * k)) = Some (packed e' n' v', sh') \<and>
     fields_ok e' n' v' \<and> (e' = 0 \<longleftrightarrow> e = 0 \<and> list_all valid_byte bs) \<and>
     (e = 0 \<and> list_all valid_byte bs \<longrightarrow>
        n' = n + of_nat (length bs) \<and> v' = join_codes (map the bs) (6 * k) v)"
  using assms
proof (induction bs arbitrary: e n v k)
  case (Cons x bs)
  have k: "0 < k \<or> bs = []" using Cons.prems by (cases bs) auto
  show ?case
  proof (cases x)
    case None
    have "e OR 1 < 2 ^ 5" using or_less [where k = 5 and a = e and b = 1] Cons.prems by (simp add: fields_ok_def)
    then have "fields_ok (e OR 1) n v" using Cons.prems by (simp add: fields_ok_def)
    moreover have "unat n + length bs \<le> 8" "length bs \<le> Suc k" "k \<le> 7" using Cons.prems by simp_all
    ultimately show ?thesis
      using Cons.IH [of "e OR 1" n v k] None by (auto simp: packed_errors or_eq_0_iff)
  next
    case (Some b)
    show ?thesis
    proof (cases "decode_byte b < 64")
      case True
      let ?x = "push_bit (6 * k) (ucast (decode_byte b))"
      have n: "n < 8" "unat (n + 1) + length bs \<le> 8"
        using Cons.prems unat_next by (simp_all add: word_less_nat_alt)
      from append_code [OF Cons.prems(1) n(1) shift_le(1) True] 
      have st: "append_data (packed e n v) (of_nat (6 * k)) b =
          Some (packed (late e) (n + 1) (v OR ?x), of_nat (6 * k) - 6)"
        "fields_ok (late e) (n + 1) (v OR ?x)"
        using Cons.prems(4) shift_le(2) by auto
      show ?thesis
      proof (cases "bs = []")
        case True
        then show ?thesis using st Some \<open>decode_byte b < 64\<close>
          by - (rule exI [of _ "late e"], rule exI [of _ "n + 1"], rule exI [of _ "v OR ?x"], auto)
      next
        case False
        with k have "0 < k" by simp
        then have le: "length bs \<le> Suc (k - 1)" "k - 1 \<le> 7" using Cons.prems(3,4) by simp_all
        obtain e' n' v' sh' where
          "add_codes bs (packed (late e) (n + 1) (v OR ?x), of_nat (6 * (k - 1))) = Some (packed e' n' v', sh')"
          "fields_ok e' n' v'" "e' = 0 \<longleftrightarrow> e = 0 \<and> list_all valid_byte bs"
          "e = 0 \<and> list_all valid_byte bs \<longrightarrow>
             n' = n + 1 + of_nat (length bs) \<and> v' = join_codes (map the bs) (6 * (k - 1)) (v OR ?x)"
          using Cons.IH [OF st(2) n(2) le] unfolding late_0 by blast
        then show ?thesis
          using st(1) Some \<open>decode_byte b < 64\<close> next_shift [OF \<open>0 < k\<close>]
          by - (rule exI [of _ e'], rule exI [of _ n'], rule exI [of _ v'], auto simp: algebra_simps diff_mult_distrib2)
      qed
    next
      case False
      from append_other [OF Cons.prems(1) False] have st: "append_data (packed e n v) (of_nat (6 * k)) b =
          Some (packed (e OR code_error (decode_byte b)) n v, of_nat (6 * k) - 6)"
        "fields_ok (e OR code_error (decode_byte b)) n v" "e OR code_error (decode_byte b) \<noteq> 0" by auto
      show ?thesis
      proof (cases "bs = []")
        case True
        then show ?thesis using st Some False by auto
      next
        case ne: False
        with k have "0 < k" by simp
        then show ?thesis
          using Cons.IH [OF st(2), of "k - 1"] Cons.prems(2,3,4) st Some False
          by (auto simp: next_shift)
      qed
    qed
  qed
qed auto

lemma parse_code_result:
  assumes "length (ch1Data fb) = 2" "length (ch2Data fb) = 6"
  shows "\<exists>e n v. parse_code fb = Some (packed e n v) \<and> fields_ok e n v \<and>
     (e = 0 \<longleftrightarrow> list_all valid_byte (feedback_bytes fb)) \<and>
     (list_all valid_byte (feedback_bytes fb) \<longrightarrow> n = 8 \<and> v = join_codes (map the (feedback_bytes fb)) 42 0)"
proof -
  have n: "length (feedback_bytes fb) = 8" by (simp add: feedback_bytes_def logon_received_def)
  have "fields_ok 0 0 0" "unat (0 :: u64) + length (feedback_bytes fb) \<le> 8" "length (feedback_bytes fb) \<le> Suc 7"
    by (simp_all add: fields_ok_def n)
  from parse_bytes_result [OF this le_refl] show ?thesis
    unfolding parse_code_bytes [OF assms] n by (auto simp: packed_def)
qed

definition payload_bytes :: "u64 \<Rightarrow> u8 list" where
  "payload_bytes v = map (\<lambda>i. ucast (drop_bit i v)) [40, 32, 24, 16, 8, 0]"

lemma and_masks: "x AND 0xff = take_bit 8 x" "x AND 0xf = take_bit 4 x" "x AND 1 = take_bit 1 x" for x :: u64
  by (simp_all add: take_bit_eq_mask mask_eq_exp_minus_1)

lemma byte_of: "ucast (drop_bit i v AND 0xff) = (ucast (drop_bit i v) :: u8)" for v :: u64
  unfolding and_masks by (rule bit_word_eqI) (simp add: bit_simps)

lemma has_crc_error_bytes:
  "has_crc_error v \<longleftrightarrow> \<not> dallas_check_ok (foldl dallas_update16 dallas_init (payload_bytes v))"
  by (simp only: has_crc_error_def payload_bytes_def byte_of foldl_map)

lemma packed_reads:
  assumes "fields_ok e n v"
  shows "packed e n v AND ERROR_MASK = 0 \<longleftrightarrow> e = 0" "packed e n v AND PAYLOAD_MASK = v"
    "drop_bit 47 (packed e n v) AND 1 = drop_bit 47 v" "drop_bit 44 (packed e n v) AND 0xf = drop_bit 44 v"
    "has_crc_error (packed e n v) = has_crc_error v"
proof -
  let ?w = "packed e n v"
  have v: "take_bit 48 ?w = v" and e: "drop_bit 56 ?w = e" using packed_bits [OF assms] by auto
  have m: "ERROR_MASK = push_bit 56 (mask 8)" "PAYLOAD_MASK = mask 48"
    by (simp_all add: ERROR_MASK_def PAYLOAD_MASK_def LENGTH_OFFSET_def mask_eq_exp_minus_1)
  show "?w AND PAYLOAD_MASK = v" using v by (simp add: m take_bit_eq_mask)
  have "?w AND ERROR_MASK = push_bit 56 (drop_bit 56 ?w)"
    unfolding m by (rule bit_word_eqI) (auto simp: bit_simps)
  moreover have "drop_bit 56 (packed e 0 0) = e" using assms by (intro packed_bits) (simp add: fields_ok_def)
  then have "drop_bit 56 (push_bit 56 e) = e" by (simp add: packed_def)
  then have "push_bit 56 e = 0 \<longleftrightarrow> e = 0" by (metis drop_bit_of_0 push_bit_of_0)
  ultimately show "?w AND ERROR_MASK = 0 \<longleftrightarrow> e = 0" using e by simp
  have "drop_bit 47 ?w AND 1 = drop_bit 47 (take_bit 48 ?w)" "drop_bit 44 ?w AND 0xf = drop_bit 44 (take_bit 48 ?w)"
    using take_bit_drop_bit [of 1 47 ?w] take_bit_drop_bit [of 4 44 ?w] unfolding and_masks by simp_all
  then show "drop_bit 47 ?w AND 1 = drop_bit 47 v" "drop_bit 44 ?w AND 0xf = drop_bit 44 v" unfolding v .
  have "ucast (drop_bit i ?w) = (ucast (drop_bit i (take_bit 48 ?w)) :: u8)" if "i \<le> 40" for i
    using that by (intro bit_word_eqI) (auto simp: bit_simps)
  from this this [of 0] have "payload_bytes ?w = payload_bytes v" by (simp add: payload_bytes_def v)
  then show "has_crc_error ?w = has_crc_error v" by (simp only: has_crc_error_bytes)
qed

definition logon_word :: "u8 \<Rightarrow> u8 \<Rightarrow> u8 \<Rightarrow> u32 \<Rightarrow> u64" where
  "logon_word n d m D = push_bit 44 (ucast n) OR push_bit 36 (ucast d) OR push_bit 32 (ucast m) OR ucast D"

definition digit6 :: "nat \<Rightarrow> u64 \<Rightarrow> u8" where
  "digit6 k v = take_bit 6 (ucast (drop_bit k v))"

lemma digit6_push: "k \<le> 42 \<Longrightarrow> bit (push_bit k (ucast (digit6 k v)) :: u64) j \<longleftrightarrow> k \<le> j \<and> j < k + 6 \<and> bit v j"
  by (auto simp: digit6_def bit_simps)

lemma join_digits:
  assumes "v < 2 ^ 48"
  shows "push_bit 42 (ucast (digit6 42 v)) OR push_bit 36 (ucast (digit6 36 v)) OR push_bit 30 (ucast (digit6 30 v)) OR
     push_bit 24 (ucast (digit6 24 v)) OR push_bit 18 (ucast (digit6 18 v)) OR push_bit 12 (ucast (digit6 12 v)) OR
     push_bit 6 (ucast (digit6 6 v)) OR ucast (digit6 0 v) = v" (is "?l = v")
proof (rule bit_word_eqI)
  fix j
  have z: "bit (ucast (digit6 0 v) :: u64) j \<longleftrightarrow> j < 6 \<and> bit v j"
    using digit6_push [of 0 v j] by simp
  have "bit ?l j \<longleftrightarrow> bit v j \<and> j < 48"
    by (simp add: bit_or_iff digit6_push z) auto
  then show "bit ?l j = bit v j" using word_bits_below [OF assms] by auto
qed

lemma six_cases: "j < (6 :: nat) \<Longrightarrow> j = 0 \<or> j = 1 \<or> j = 2 \<or> j = 3 \<or> j = 4 \<or> j = 5"
  by linarith

lemma logon_digits:
  fixes n d m :: u8 and D :: u32
  assumes "n < 16" "m < 16"
  defines v: "v \<equiv> logon_word n d m D"
  shows "(push_bit 2 n OR drop_bit 6 d) AND 0x3F = digit6 42 v" "d AND 0x3F = digit6 36 v"
    "(push_bit 2 m OR ucast (drop_bit 30 D)) AND 0x3F = digit6 30 v" "ucast (drop_bit 24 D) AND 0x3F = digit6 24 v"
    "ucast (drop_bit 18 D) AND 0x3F = digit6 18 v" "ucast (drop_bit 12 D) AND 0x3F = digit6 12 v"
    "ucast (drop_bit 6 D) AND 0x3F = digit6 6 v" "ucast D AND 0x3F = digit6 0 v" "v < 2 ^ 48"
proof -
  have "take_bit 4 n = n" "take_bit 4 m = m"
    using assms(1,2) by (auto intro!: take_bit_unat_less simp: word_less_nat_alt)
  then have b: "bit n i \<Longrightarrow> i < 4" "bit m i \<Longrightarrow> i < 4" "bit d i \<Longrightarrow> i < 8" "bit D i \<Longrightarrow> i < 32" for i
    using bit_imp_le_length [of d i] bit_imp_le_length [of D i] by (metis bit_take_bit_iff, metis bit_take_bit_iff, auto)
  have c: "\<not> bit n (4 + i)" "\<not> bit m (4 + i)" "\<not> bit d (8 + i)" "\<not> bit D (32 + i)" for i
    using b by fastforce+
  note c' = c(1) [of 0, simplified] c(1) [of 1, simplified] c(2) [of 0, simplified] c(2) [of 1, simplified]
  show "(push_bit 2 n OR drop_bit 6 d) AND 0x3F = digit6 42 v" "d AND 0x3F = digit6 36 v"
    "(push_bit 2 m OR ucast (drop_bit 30 D)) AND 0x3F = digit6 30 v" "ucast (drop_bit 24 D) AND 0x3F = digit6 24 v"
    "ucast (drop_bit 18 D) AND 0x3F = digit6 18 v" "ucast (drop_bit 12 D) AND 0x3F = digit6 12 v"
    "ucast (drop_bit 6 D) AND 0x3F = digit6 6 v" "ucast D AND 0x3F = digit6 0 v"
    unfolding low_six digit6_def v logon_word_def
    by (rule bit_word_eqI; (simp only: bit_take_bit_iff); (rule conj_cong [OF refl]);
        (drule six_cases); (elim disjE); (simp add: bit_simps c'; auto dest: b))+
  show "v < 2 ^ 48"
    unfolding v logon_word_def by (rule bits_below_word) (auto simp: bit_simps dest: b)
qed

lemma join_logon:
  assumes "n < 16" "m < 16"
  shows "join_codes (append12 n d @ append36 m D) 42 0 = logon_word n d m D"
proof -
  note d = logon_digits [OF assms, where d = d and D = D]
  show ?thesis
    unfolding append12_def append36_def append.simps join_codes.simps decode_encode d(1-8)
    using join_digits [OF d(9)] by (simp add: ac_simps)
qed

subsection \<open>What the callback object is told\<close>

text \<open>The event for a payload without error bits.\<close>

definition event_for :: "packet_type \<Rightarrow> u64 \<Rightarrow> bool \<Rightarrow> u64 \<Rightarrow> logon_event option" where
  "event_for type key err v = (case type of
       SELECT_SHORTINFO \<Rightarrow> Some (Process_select_shortinfo key (err \<or> has_crc_error v \<or> drop_bit 47 v \<noteq> 1) v)
     | LOGON_ASSIGN \<Rightarrow> Some (Process_logon_assign key
         (err \<or> has_crc_error v \<or> drop_bit 44 v \<noteq> ucast RMOB_LOGON_ASSIGN_FEEDBACK) v)
     | LOGON_ENABLE \<Rightarrow> Some (Process_decoder_id key (err \<or> drop_bit 44 v \<noteq> ucast RMOB_LOGON_ENABLE_FEEDBACK) v)
     | _ \<Rightarrow> None)"

lemma logon_send_event:
  assumes "length (ch1Data fb) = 2" "length (ch2Data fb) = 6"
  shows "\<exists>v. logon_send classify fb =
       Some (event_for (classify (feedbackKey fb)) (feedbackKey fb) (\<not> list_all valid_byte (feedback_bytes fb)) v) \<and>
     (list_all valid_byte (feedback_bytes fb) \<longrightarrow> v = join_codes (map the (feedback_bytes fb)) 42 0)"
proof -
  obtain e n v where p: "parse_code fb = Some (packed e n v)" "fields_ok e n v"
    "e = 0 \<longleftrightarrow> list_all valid_byte (feedback_bytes fb)"
    "list_all valid_byte (feedback_bytes fb) \<longrightarrow> v = join_codes (map the (feedback_bytes fb)) 42 0"
    using parse_code_result [OF assms] by blast
  define w where "w = packed e n v"
  note r = packed_reads [OF p(2), folded w_def]
  have "logon_send classify fb =
      Some (event_for (classify (feedbackKey fb)) (feedbackKey fb) (\<not> list_all valid_byte (feedback_bytes fb)) v)"
    by (cases "classify (feedbackKey fb)") (simp_all add: logon_send_def event_for_def p(1) r flip: p(3) w_def)
  with p(4) show ?thesis by blast
qed

lemma sent_bytes:
  assumes "n < 16" "m < 16"
    and "ch1Size fb = 2" "ch2Size fb = 6" "ch1Data fb = append12 n d" "ch2Data fb = append36 m D"
  shows "logon_send classify fb =
     Some (event_for (classify (feedbackKey fb)) (feedbackKey fb) False (logon_word n d m D))"
proof -
  have u: "[0..<2] = [0, 1 :: nat]" "[0..<6] = [0, 1, 2, 3, 4, 5 :: nat]" by (simp_all add: upt_rec)
  have b: "feedback_bytes fb = map Some (append12 n d @ append36 m D)"
    using assms(3-6) unfolding feedback_bytes_def logon_received_def append12_def append36_def u by simp
  have "list_all valid_byte (feedback_bytes fb)"
    unfolding b append12_def append36_def by (simp add: decode_small)
  moreover have "map the (feedback_bytes fb) = append12 n d @ append36 m D" unfolding b by (simp add: comp_def)
  moreover have "length (ch1Data fb) = 2" "length (ch2Data fb) = 6"
    using assms(5,6) by (simp_all add: append12_def append36_def)
  ultimately show ?thesis
    using logon_send_event [of fb classify] join_logon [OF assms(1,2), of d D] by auto
qed

lemma nibble_bits: "take_bit 4 n = n \<Longrightarrow> bit n i \<Longrightarrow> i < 4" for n :: u8
  by (metis bit_take_bit_iff)

lemma eight_cases: "j < LENGTH(8) \<Longrightarrow> j = 0 \<or> j = 1 \<or> j = 2 \<or> j = 3 \<or> j = 4 \<or> j = 5 \<or> j = 6 \<or> j = 7"
  by (simp, linarith)

lemma logon_payload:
  assumes "take_bit 4 n = n" "take_bit 4 m = m"
  shows "payload_bytes (logon_word n d m D) =
    [push_bit 4 n OR drop_bit 4 d, push_bit 4 d OR m, ucast (drop_bit 24 D), ucast (drop_bit 16 D),
     ucast (drop_bit 8 D), ucast D]"
proof -
  note b = nibble_bits [OF assms(1)] nibble_bits [OF assms(2)] bits_8
  have d: "bit D i \<Longrightarrow> i < 32" for i using bit_imp_le_length [of D i] by simp
  have n: "\<not> bit n 4" "\<not> bit n 5" "\<not> bit n 6" "\<not> bit n 7" "\<not> bit m 4" "\<not> bit m 5" "\<not> bit m 6" "\<not> bit m 7"
    using b(1,2) by force+
  show ?thesis
    unfolding payload_bytes_def logon_word_def list.map list.inject
    by (intro conjI; (rule bit_word_eqI | rule refl); (drule eight_cases); (elim disjE); (simp add: bit_simps n);
        auto dest: b d)
qed

lemma logon_top: "take_bit 4 m = m \<Longrightarrow> drop_bit 44 (logon_word n d m D) = ucast n"
proof (rule bit_word_eqI)
  fix i assume "take_bit 4 m = m"
  note nibble_bits [OF this, of "12 + i"]
  moreover have "\<not> bit d (8 + i)" "\<not> bit D (44 + i)"
    using bits_8 [of d "8 + i"] bit_imp_le_length [of D "44 + i"] by auto
  ultimately show "bit (drop_bit 44 (logon_word n d m D)) i = bit (ucast n :: u64) i"
    by (auto simp: logon_word_def bit_simps dest: bits_8)
qed

lemma four_bytes:
  defines "D a b c d \<equiv> push_bit 24 (ucast a) OR push_bit 16 (ucast b) OR push_bit 8 (ucast c) OR ucast (d :: u8) :: u32"
  shows "ucast (drop_bit 24 (D a b c d)) = (a :: u8)" "ucast (drop_bit 16 (D a b c d)) = (b :: u8)"
    "ucast (drop_bit 8 (D a b c d)) = (c :: u8)" "ucast (D a b c d) = d"
  unfolding D_def by (rule bit_word_eqI; auto simp: bit_simps dest: bits_8)+

lemma dallas_own: "dallas_update16 s s = 0"
proof -
  have "byte_right (0x8c :: u8) 0 = 0" by code_simp
  then show ?thesis by (simp add: dallas_16_eq)
qed

lemma payload_crc:
  assumes "payload_bytes v = [b0, b1, b2, b3, b4, foldl dallas_update16 dallas_init [b0, b1, b2, b3, b4]]"
  shows "\<not> has_crc_error v"
  using assms by (simp add: has_crc_error_bytes dallas_own dallas_check_ok_def)

lemma word_split:
  fixes a :: u16
  shows "take_bit 4 (ucast (drop_bit 12 a) :: u8) = ucast (drop_bit 12 a)" "take_bit 4 (ucast (a AND 0xf) :: u8) = ucast (a AND 0xf)"
    "push_bit 4 (ucast (drop_bit 12 a)) OR drop_bit 4 (ucast (drop_bit 4 a AND 0xff)) = (ucast (drop_bit 8 a) :: u8)"
    "push_bit 4 (ucast (drop_bit 4 a AND 0xff)) OR ucast (a AND 0xf) = (ucast (a AND 0xff) :: u8)"
proof -
  have m: "(0xff :: u16) = mask 8" "(0xf :: u16) = mask 4" by (simp_all add: mask_eq_exp_minus_1)
  have a: "bit a i \<Longrightarrow> i < 16" for i using bit_imp_le_length [of a i] by simp
  show "take_bit 4 (ucast (drop_bit 12 a) :: u8) = ucast (drop_bit 12 a)"
    "take_bit 4 (ucast (a AND 0xf) :: u8) = ucast (a AND 0xf)"
    "push_bit 4 (ucast (drop_bit 12 a)) OR drop_bit 4 (ucast (drop_bit 4 a AND 0xff)) = (ucast (drop_bit 8 a) :: u8)"
    "push_bit 4 (ucast (drop_bit 4 a AND 0xff)) OR ucast (a AND 0xf) = (ucast (a AND 0xff) :: u8)"
    unfolding m by (rule bit_word_eqI; auto simp: bit_simps dest: a)+
qed

lemma nibble_less: "take_bit 4 n = n \<Longrightarrow> n < 16" for n :: u8
proof -
  assume "take_bit 4 n = n"
  then have "unat n = take_bit 4 (unat n)" by (metis unsigned_take_bit_eq)
  then have "unat n < 16" using take_bit_nat_less_exp [of 4 "unat n"] by simp
  then show ?thesis by (simp add: word_less_nat_alt)
qed

lemma did_sent:
  assumes "classify (feedbackKey fb) = LOGON_ENABLE"
  shows "logon_send classify (add_did_feedback did fb) =
     Some (Some (Process_decoder_id (feedbackKey fb) False (push_bit 44 15 OR take_bit 44 did)))"
proof -
  define v where "v = logon_word RMOB_LOGON_ENABLE_FEEDBACK (ucast (drop_bit 36 did AND 0xff))
    (ucast (drop_bit 32 did AND 0xf)) (ucast (did AND 0xffffffff))"
  have m: "(0xffffffff :: u64) = mask 32" "(0xff :: u64) = mask 8" "(0xf :: u64) = mask 4" "(15 :: u64) = mask 4"
    "ucast RMOB_LOGON_ENABLE_FEEDBACK = (mask 4 :: u64)"
    by (simp_all add: mask_eq_exp_minus_1 RMOB_LOGON_ENABLE_FEEDBACK_def)
  have v: "v = push_bit 44 15 OR take_bit 44 did"
    unfolding v_def logon_word_def m
    by (rule bit_word_eqI, rename_tac i, case_tac "i < 36") (auto simp: bit_simps)
  have "drop_bit 44 v = 15" unfolding v m by (rule bit_word_eqI) (auto simp: bit_simps)
  moreover have "take_bit 4 RMOB_LOGON_ENABLE_FEEDBACK = RMOB_LOGON_ENABLE_FEEDBACK"
    by (simp add: RMOB_LOGON_ENABLE_FEEDBACK_def)
  moreover have "take_bit 4 (ucast (drop_bit 32 did AND 0xf) :: u8) = ucast (drop_bit 32 did AND 0xf)"
    unfolding m by (rule bit_word_eqI) (auto simp: bit_simps)
  ultimately have "logon_send classify (add_did_feedback did fb) = Some (event_for LOGON_ENABLE (feedbackKey fb) False v)"
    using assms unfolding v_def
    by (subst sent_bytes [OF nibble_less nibble_less]) (auto simp: add_did_feedback_def)
  then show ?thesis using \<open>drop_bit 44 v = 15\<close> by (simp add: event_for_def m RMOB_LOGON_ENABLE_FEEDBACK_def v)
qed

lemma shortinfo_sent:
  assumes "classify (feedbackKey fb) = SELECT_SHORTINFO"
  shows "\<exists>w. logon_send classify (add_shortinfo_feedback addr fn p s fb) =
       Some (Some (Process_select_shortinfo (feedbackKey fb) False w)) \<and>
     butlast (payload_bytes w) = [0x80 OR (ucast (drop_bit 8 addr) AND 0x3f), ucast addr, fn, p, s]"
proof -
  define a where "a = (addr AND 0x3FFF) OR 0x8000"
  define crc where "crc = foldl dallas_update16 dallas_init [ucast (drop_bit 8 a), ucast (a AND 0xff), fn, p, s]"
  define v where "v = logon_word (ucast (drop_bit 12 a)) (ucast (drop_bit 4 a AND 0xff)) (ucast (a AND 0xf))
    (push_bit 24 (ucast fn) OR push_bit 16 (ucast p) OR push_bit 8 (ucast s) OR ucast crc)"
  have b: "payload_bytes v = [ucast (drop_bit 8 a), ucast (a AND 0xff), fn, p, s, crc]"
    unfolding v_def logon_payload [OF word_split(1,2)] word_split four_bytes ..
  have "drop_bit 47 v = 1"
  proof -
    have "bit a 15" by (simp add: a_def bit_simps)
    have "hd (payload_bytes v) = ucast (drop_bit 8 a)" unfolding b by simp
    then have "bit (ucast (drop_bit 40 v) :: u8) 7 = bit (ucast (drop_bit 8 a) :: u8) 7"
      by (simp add: payload_bytes_def)
    then have "bit v 47" using \<open>bit a 15\<close> by (simp add: bit_simps)
    moreover have "v < 2 ^ 48" unfolding v_def by (rule logon_digits(9) [OF nibble_less nibble_less]; rule word_split)
    then have "\<not> bit v (48 + i)" for i using word_bits_below [of v 48 "48 + i"] by auto
    then have "bit v (47 + i) \<Longrightarrow> i = 0" for i by (cases i) (auto simp: add.commute [of 47])
    ultimately show ?thesis by (intro bit_word_eqI) (auto simp: bit_simps)
  qed
  moreover have "\<not> has_crc_error v" by (rule payload_crc) (simp only: b crc_def)
  moreover define fb' where "fb' = add_shortinfo_feedback addr fn p s fb"
  have f: "ch1Size fb' = 2" "ch2Size fb' = 6"
    "ch1Data fb' = append12 (ucast (drop_bit 12 a)) (ucast (drop_bit 4 a AND 0xff))"
    "ch2Data fb' = append36 (ucast (a AND 0xf))
       (push_bit 24 (ucast fn) OR push_bit 16 (ucast p) OR push_bit 8 (ucast s) OR ucast crc)"
    "feedbackKey fb' = feedbackKey fb"
    unfolding fb'_def add_shortinfo_feedback_def Let_def crc_def foldl.simps a_def by simp_all
  have "logon_send classify fb' = Some (event_for SELECT_SHORTINFO (feedbackKey fb) False v)"
    using sent_bytes [OF word_split(1,2) [THEN nibble_less] f(1-4), of classify] unfolding f(5) assms v_def .
  moreover have "ucast (drop_bit 8 a) = 0x80 OR (ucast (drop_bit 8 addr) AND 0x3f :: u8)" "ucast (a AND 0xff) = (ucast addr :: u8)"
    by (rule bit_word_eqI; (drule eight_cases); (elim disjE); simp add: a_def bit_simps)+
  ultimately show ?thesis using b unfolding fb'_def by (auto simp: event_for_def)
qed

lemma assign_sent:
  assumes "classify (feedbackKey fb) = LOGON_ASSIGN"
  shows "\<exists>w. logon_send classify (add_assign_feedback cf cc s2 s3 fb) =
       Some (Some (Process_logon_assign (feedbackKey fb) False w)) \<and>
     butlast (payload_bytes w) =
       [0xD0 OR drop_bit 4 cf, push_bit 4 cf OR (ucast (drop_bit 8 cc) AND 0xf), ucast cc, s2, s3]"
proof -
  define c where "c = cc AND 0xFFF"
  define h1 h2 where "h1 = push_bit 4 RMOB_LOGON_ASSIGN_FEEDBACK OR drop_bit 4 cf"
    and "h2 = push_bit 4 (cf AND 0xf) OR ucast (drop_bit 8 c)"
  define crc where "crc = foldl dallas_update16 dallas_init [h1, h2, ucast (c AND 0xff), s2, s3]"
  define v where "v = logon_word RMOB_LOGON_ASSIGN_FEEDBACK cf (ucast (drop_bit 8 c))
    (push_bit 24 (ucast (ucast (c AND 0xff) :: u8)) OR push_bit 16 (ucast s2) OR push_bit 8 (ucast s3) OR ucast crc)"
  have m: "(0xFFF :: u16) = mask 12" "(0xff :: u16) = mask 8" "(0xf :: u8) = mask 4"
    by (simp_all add: mask_eq_exp_minus_1)
  have n: "take_bit 4 RMOB_LOGON_ASSIGN_FEEDBACK = RMOB_LOGON_ASSIGN_FEEDBACK"
    "take_bit 4 (ucast (drop_bit 8 c) :: u8) = ucast (drop_bit 8 c)"
    by (simp add: RMOB_LOGON_ASSIGN_FEEDBACK_def) (rule bit_word_eqI; auto simp: c_def m bit_simps)
  have "push_bit 4 cf OR ucast (drop_bit 8 c) = h2"
    unfolding h2_def m by (rule bit_word_eqI) (auto simp: bit_simps)
  then have b: "payload_bytes v = [h1, h2, ucast (c AND 0xff), s2, s3, crc]"
    unfolding v_def logon_payload [OF n] four_bytes by (simp only: h1_def)
  have "drop_bit 44 v = 13"
    unfolding v_def logon_top [OF n(2)] by (simp add: RMOB_LOGON_ASSIGN_FEEDBACK_def)
  moreover have "\<not> has_crc_error v" by (rule payload_crc) (simp only: b crc_def)
  moreover have "ucast (ucast (c AND 0xff) :: u8) = (ucast (c AND 0xff) :: u32)"
    unfolding m by (rule bit_word_eqI) (auto simp: bit_simps)
  then have "logon_send classify (add_assign_feedback cf cc s2 s3 fb) = Some (event_for LOGON_ASSIGN (feedbackKey fb) False v)"
    using assms n unfolding v_def
    by (subst sent_bytes [OF nibble_less nibble_less])
       (auto simp: add_assign_feedback_def c_def crc_def h1_def h2_def Let_def)
  moreover have "h1 = 0xD0 OR drop_bit 4 cf" by (simp add: h1_def RMOB_LOGON_ASSIGN_FEEDBACK_def)
  moreover have "h2 = push_bit 4 cf OR (ucast (drop_bit 8 cc) AND 0xf)" "ucast (c AND 0xff) = (ucast cc :: u8)"
    unfolding h2_def c_def m by (rule bit_word_eqI; auto simp: bit_simps dest: bits_8)+
  ultimately show ?thesis using b by (auto simp: event_for_def RMOB_LOGON_ASSIGN_FEEDBACK_def)
qed

text \<open>C19: What a decoder reports for the automatic logon is what the command station is told: the
  feedback that the library encodes for a decoder identification, given in the low 44 bits of the argument,
  a short information and an assignment is recognised without an error, with the identification and with
  all the bytes of the message.\<close>

theorem logon_feedback_arrives:
  "(classify (feedbackKey fb) = LOGON_ENABLE \<longrightarrow>
     logon_send classify (add_did_feedback did fb) =
       Some (Some (Process_decoder_id (feedbackKey fb) False (push_bit 44 15 OR take_bit 44 did)))) \<and>
   (classify (feedbackKey fb) = SELECT_SHORTINFO \<longrightarrow>
     (\<exists>w. logon_send classify (add_shortinfo_feedback addr fn p s fb) =
          Some (Some (Process_select_shortinfo (feedbackKey fb) False w)) \<and>
        butlast (payload_bytes w) = [0x80 OR (ucast (drop_bit 8 addr) AND 0x3f), ucast addr, fn, p, s])) \<and>
   (classify (feedbackKey fb) = LOGON_ASSIGN \<longrightarrow>
     (\<exists>w. logon_send classify (add_assign_feedback cf cc s2 s3 fb) =
          Some (Some (Process_logon_assign (feedbackKey fb) False w)) \<and>
        butlast (payload_bytes w) =
          [0xD0 OR drop_bit 4 cf, push_bit 4 cf OR (ucast (drop_bit 8 cc) AND 0xf), ucast cc, s2, s3]))"
  using did_sent shortinfo_sent assign_sent by blast

theorem logon_feedback_arrives_witness:
  "logon_send (\<lambda>_. LOGON_ENABLE) (add_did_feedback 0x123456789AB no_feedback) =
     Some (Some (Process_decoder_id 0 False 0xF123456789AB)) \<and>
   (\<exists>w. logon_send (\<lambda>_. SELECT_SHORTINFO) (add_shortinfo_feedback 100 28 0 3 no_feedback) =
      Some (Some (Process_select_shortinfo 0 False w)) \<and> butlast (payload_bytes w) = [0x80, 100, 28, 0, 3])"
  using logon_feedback_arrives [of "\<lambda>_. LOGON_ENABLE" no_feedback "0x123456789AB"]
    logon_feedback_arrives [of "\<lambda>_. SELECT_SHORTINFO" no_feedback 0 100 28 0 3]
  by (simp add: no_feedback_def)

text \<open>The comment of \<open>add_did_feedback\<close> asks for an identification that is justified to the most significant bit. Given like
  that, the upper 20 of its bits do not arrive.\<close>

lemma documented_did_cut:
  assumes "classify (feedbackKey fb) = LOGON_ENABLE"
  shows "logon_send classify (add_did_feedback (push_bit 20 i) fb) =
    Some (Some (Process_decoder_id (feedbackKey fb) False (push_bit 44 15 OR push_bit 20 (take_bit 24 i))))"
proof -
  have "take_bit 44 (push_bit 20 i) = push_bit 20 (take_bit 24 i)" by (simp add: take_bit_push_bit)
  then show ?thesis using did_sent [of classify fb "push_bit 20 i"] assms by simp
qed

definition event_error :: "logon_event \<Rightarrow> bool" where
  "event_error e = (case e of Process_select_shortinfo _ err _ \<Rightarrow> err | Process_logon_assign _ err _ \<Rightarrow> err
     | Process_decoder_id _ err _ \<Rightarrow> err)"

lemma valid_received:
  assumes "list_all valid_byte (logon_received sz bytes [0..<length bytes])" "bytes \<noteq> []"
  shows "length bytes \<le> unat sz" "b \<in> set bytes \<Longrightarrow> decode_byte b < 64 \<and> weight4 b"
proof -
  have v: "i < unat sz \<and> decode_byte (bytes ! i) < 64" if "i < length bytes" for i
  proof -
    have "valid_byte (logon_received sz bytes [0..<length bytes] ! i)"
      using assms(1) that by (simp add: list_all_length) (simp add: logon_received_def)
    then show ?thesis using that by (auto simp: logon_received_def split: if_splits)
  qed
  from v [of "length bytes - 1"] assms(2) show "length bytes \<le> unat sz" by (cases bytes) auto
  show "decode_byte b < 64 \<and> weight4 b" if "b \<in> set bytes"
    using that v decode_weight by (fastforce simp: in_set_conv_nth INV_def)
qed

lemma event_for_error: "event_for ty key err v = Some e \<Longrightarrow> \<not> event_error e \<Longrightarrow> \<not> err"
  by (auto simp: event_for_def event_error_def split: packet_type.splits)

text \<open>No damaged answer is taken for good: whatever feedback arrives, its evaluation ends without an
  access outside of the arrays or an undefined shift, and an event without the error flag
  means that all eight bytes arrived and that each is a data byte of the code.\<close>

theorem logon_damage_reported:
  assumes "length (ch1Data fb) = 2" "length (ch2Data fb) = 6"
  shows "\<exists>r. logon_send classify fb = Some r \<and>
     (\<forall>e. r = Some e \<and> \<not> event_error e \<longrightarrow>
        unat (ch1Size fb) \<ge> 2 \<and> unat (ch2Size fb) \<ge> 6 \<and>
        (\<forall>b \<in> set (ch1Data fb @ ch2Data fb). decode_byte b < 64 \<and> weight4 b))"
proof -
  have ne: "ch1Data fb \<noteq> []" "ch2Data fb \<noteq> []" using assms by auto
  have "list_all valid_byte (feedback_bytes fb) \<Longrightarrow> unat (ch1Size fb) \<ge> 2 \<and> unat (ch2Size fb) \<ge> 6 \<and>
        (\<forall>b \<in> set (ch1Data fb @ ch2Data fb). decode_byte b < 64 \<and> weight4 b)"
  proof -
    assume "list_all valid_byte (feedback_bytes fb)"
    then have r: "list_all valid_byte (logon_received (ch1Size fb) (ch1Data fb) [0..<length (ch1Data fb)])"
      "list_all valid_byte (logon_received (ch2Size fb) (ch2Data fb) [0..<length (ch2Data fb)])"
      unfolding assms by (simp_all add: feedback_bytes_def)
    show ?thesis
      using valid_received [OF r(1) ne(1)] valid_received [OF r(2) ne(2)] unfolding assms by auto
  qed
  then show ?thesis
    using logon_send_event [OF assms, of classify] event_for_error by blast
qed

theorem logon_damage_reported_witness:
  "\<exists>r. logon_send (\<lambda>_. LOGON_ENABLE) no_feedback = Some r \<and> (\<forall>e. r = Some e \<longrightarrow> event_error e)"
  using logon_damage_reported [of no_feedback "\<lambda>_. LOGON_ENABLE"] by (auto simp: no_feedback_def)

end
