(* ===== verification/RailcomBroadcast.thy ===== *)
theory RailcomBroadcast
  imports RailcomParse
begin

section \<open>Address broadcasts (dcc/RailcomBroadcastDecoder.hxx, dcc/RailcomBroadcastDecoder.cpp)\<close>

text \<open>
  The state machine that finds the address of the decoder in a block from the broadcasts of
  its high and low address bytes. An access outside of the channel's array is \<open>None\<close>.
\<close>

record broadcast_decoder =
  currentH :: u8
  currentL :: u8
  countH :: u8
  countL :: u8
  currentAddress :: u16
  lastAddress :: u16

definition MIN_REPEAT_COUNT :: u8 where "MIN_REPEAT_COUNT = 3"
definition MIN_EMPTY_COUNT :: u8 where "MIN_EMPTY_COUNT = 8"

definition broadcast_new :: broadcast_decoder where
  "broadcast_new = \<lparr>currentH = 0, currentL = 0, countH = 0, countL = 0, currentAddress = 0, lastAddress = 0\<rparr>"

definition current_address :: "broadcast_decoder \<Rightarrow> u16" where
  "current_address s = currentAddress s"

fun garbage_scan :: "u8 list \<Rightarrow> nat list \<Rightarrow> bool option" where
  "garbage_scan data [] = Some False"
| "garbage_scan data (i # is) = do {
     b \<leftarrow> array_get data i;
     if decode_byte b = INV then Some True else garbage_scan data is
   }"

definition notify_empty :: "broadcast_decoder \<Rightarrow> broadcast_decoder" where
  "notify_empty s =
     (let s = (if countH s \<noteq> 0 then s\<lparr>countH := countH s - 1\<rparr> else s);
          s = (if countL s \<noteq> 0 then s\<lparr>countL := countL s - 1\<rparr> else s)
      in if countH s = 0 \<or> countL s = 0 then s\<lparr>currentAddress := 0\<rparr> else s)"

definition set_occupancy :: "bool \<Rightarrow> broadcast_decoder \<Rightarrow> broadcast_decoder" where
  "set_occupancy value s = (if value then s else notify_empty s)"

definition low_seen :: "u8 \<Rightarrow> broadcast_decoder \<Rightarrow> broadcast_decoder" where
  "low_seen payload s =
     (if currentL s = payload then (if countL s < MIN_EMPTY_COUNT then s\<lparr>countL := countL s + 2\<rparr> else s)
      else s\<lparr>currentL := payload, countL := 0\<rparr>)"

definition high_seen :: "u8 \<Rightarrow> broadcast_decoder \<Rightarrow> broadcast_decoder" where
  "high_seen payload s =
     (if currentH s = payload then (if countH s < MIN_EMPTY_COUNT then s\<lparr>countH := countH s + 2\<rparr> else s)
      else s\<lparr>currentH := payload, countH := 0\<rparr>)"

definition take_address :: "broadcast_decoder \<Rightarrow> broadcast_decoder" where
  "take_address s =
     (if countL s \<ge> MIN_REPEAT_COUNT * 2 \<and> countH s \<ge> MIN_REPEAT_COUNT * 2
      then s\<lparr>currentAddress := push_bit 8 (ucast (currentH s)) OR ucast (currentL s)\<rparr> else s)"

definition process_channel :: "u8 list \<Rightarrow> nat \<Rightarrow> broadcast_decoder \<Rightarrow> (bool \<times> broadcast_decoder) option" where
  "process_channel data sz s = do {
     garbage \<leftarrow> garbage_scan data [0..<sz];
     if garbage then Some (True, s)
     else if sz < 2 then Some (True, s)
     else do {
       b0 \<leftarrow> array_get data 0;
       let type = drop_bit 2 (decode_byte b0);
       if sz = 2 then do {
         let payload = decode_byte b0 AND 0x3;
         let payload = push_bit 6 payload;
         b1 \<leftarrow> array_get data 1;
         let payload = payload OR decode_byte b1;
         if type = RMOB_ADRLOW then Some (True, take_address (low_seen payload s))
         else if type = RMOB_ADRHIGH then Some (True, take_address (high_seen payload s))
         else Some (False, s)
       } else Some (False, s)
     }
   }"

definition process_packet :: "feedback \<Rightarrow> broadcast_decoder \<Rightarrow> (bool \<times> broadcast_decoder) option" where
  "process_packet packet s =
     (if ch1Size packet \<noteq> 0 then do {
        (r, s) \<leftarrow> process_channel (ch1Data packet) (unat (ch1Size packet)) s;
        Some (r \<and> ch2Size packet = 0, s)
      }
      else let s = notify_empty s in Some (if ch2Size packet = 0 then True else False, s))"

subsection \<open>Runs of the state machine\<close>

datatype broadcast_event = Packet feedback | Occupancy bool

fun broadcast_step :: "broadcast_event \<Rightarrow> broadcast_decoder \<Rightarrow> broadcast_decoder option" where
  "broadcast_step (Packet fb) s = map_option snd (process_packet fb s)"
| "broadcast_step (Occupancy v) s = Some (set_occupancy v s)"

inductive reached :: "broadcast_event list \<Rightarrow> broadcast_decoder \<Rightarrow> bool" where
  start: "reached [] broadcast_new"
| step: "reached es s \<Longrightarrow> broadcast_step e s = Some s' \<Longrightarrow> reached (es @ [e]) s'"

inductive_cases reached_lastE: "reached (es @ [e]) s"

text \<open>The address byte that an event carries, if it is a valid broadcast of that half.\<close>

definition broadcast_payload :: "u8 \<Rightarrow> broadcast_event \<Rightarrow> u8 option" where
  "broadcast_payload half e = (case e of
       Packet fb \<Rightarrow>
         (let c0 = decode_byte (ch1Data fb ! 0); c1 = decode_byte (ch1Data fb ! 1) in
          if ch1Size fb = 2 \<and> c0 \<noteq> INV \<and> c1 \<noteq> INV \<and> drop_bit 2 c0 = half
          then Some (push_bit 6 (c0 AND 3) OR c1) else None)
     | Occupancy v \<Rightarrow> None)"

definition is_empty_event :: "broadcast_event \<Rightarrow> bool" where
  "is_empty_event e = (case e of Packet fb \<Rightarrow> ch1Size fb = 0 | Occupancy v \<Rightarrow> \<not> v)"

fun event_wf :: "broadcast_event \<Rightarrow> bool" where
  "event_wf (Packet fb) = feedback_wf fb"
| "event_wf (Occupancy v) = True"

definition abstract_step :: "broadcast_event \<Rightarrow> broadcast_decoder \<Rightarrow> broadcast_decoder" where
  "abstract_step e s =
     (if is_empty_event e then notify_empty s
      else case broadcast_payload RMOB_ADRLOW e of
        Some p \<Rightarrow> take_address (low_seen p s)
      | None \<Rightarrow> (case broadcast_payload RMOB_ADRHIGH e of
          Some p \<Rightarrow> take_address (high_seen p s)
        | None \<Rightarrow> s))"

lemma ch1_sizes:
  assumes "feedback_wf fb"
  shows "ch1Size fb = 0 \<or> ch1Size fb = 1 \<or> ch1Size fb = 2" "\<exists>b0 b1. ch1Data fb = [b0, b1]"
proof -
  have "unat (ch1Size fb) = 0 \<or> unat (ch1Size fb) = 1 \<or> unat (ch1Size fb) = 2"
    using assms by (auto simp: feedback_wf_def)
  then show "ch1Size fb = 0 \<or> ch1Size fb = 1 \<or> ch1Size fb = 2"
    by (auto simp: word_unat_eq_iff)
  show "\<exists>b0 b1. ch1Data fb = [b0, b1]"
    using assms by (auto simp: feedback_wf_def length_Suc_conv numeral_2_eq_2)
qed

lemma broadcast_step_eq:
  assumes "event_wf e"
  shows "broadcast_step e s = Some (abstract_step e s)"
proof (cases e)
  case (Packet fb)
  then have wf: "feedback_wf fb" using assms by simp
  obtain b0 b1 where b: "ch1Data fb = [b0, b1]" using ch1_sizes(2) [OF wf] by blast
  have u: "[0..<2] = [0, 1 :: nat]" "[0..<1] = [0 :: nat]" by (simp_all add: upt_rec)
  from ch1_sizes(1) [OF wf] show ?thesis
  proof (elim disjE)
    assume "ch1Size fb = 0"
    then show ?thesis
      by (simp add: Packet process_packet_def abstract_step_def is_empty_event_def Let_def)
  next
    assume "ch1Size fb = 1"
    then show ?thesis
      by (simp add: Packet process_packet_def process_channel_def abstract_step_def is_empty_event_def Let_def
          broadcast_payload_def b u array_get_def)
  next
    assume "ch1Size fb = 2"
    then show ?thesis
      by (auto simp: Packet process_packet_def process_channel_def abstract_step_def is_empty_event_def Let_def
          broadcast_payload_def b u array_get_def RMOB_ADRLOW_def RMOB_ADRHIGH_def)
  qed
qed (simp add: abstract_step_def is_empty_event_def broadcast_payload_def set_occupancy_def)

definition seen :: "u8 \<Rightarrow> u8 \<Rightarrow> broadcast_event list \<Rightarrow> nat" where
  "seen half p es = length (filter (\<lambda>e. broadcast_payload half e = Some p) es)"

definition occupancy_inv :: "broadcast_event list \<Rightarrow> broadcast_decoder \<Rightarrow> bool" where
  "occupancy_inv es s \<longleftrightarrow> unat (countH s) \<le> 9 \<and> unat (countL s) \<le> 9 \<and>
     unat (countH s) \<le> 2 * seen RMOB_ADRHIGH (currentH s) es \<and>
     unat (countL s) \<le> 2 * seen RMOB_ADRLOW (currentL s) es \<and>
     (currentAddress s \<noteq> 0 \<longrightarrow> (\<exists>h l. currentAddress s = push_bit 8 (ucast h) OR ucast l \<and>
        3 \<le> seen RMOB_ADRHIGH h es \<and> 3 \<le> seen RMOB_ADRLOW l es))"

lemma seen_snoc: "seen half p (es @ [e]) = seen half p es + (if broadcast_payload half e = Some p then 1 else 0)"
  by (simp add: seen_def)

lemma seen_mono: "seen half p es \<le> seen half p (es @ [e])"
  by (simp add: seen_snoc)

lemma count_down: "(c :: u8) \<noteq> 0 \<Longrightarrow> unat (c - 1) = unat c - 1"
  by (rule unat_minus_one)

lemma count_up: "(c :: u8) < 8 \<Longrightarrow> unat (c + 2) = unat c + 2 \<and> unat c + 2 \<le> 9"
proof -
  assume "c < 8"
  then have "unat c < 8" by (simp add: word_less_nat_alt)
  then have "unat (of_nat (unat c + 2) :: u8) = unat c + 2"
    unfolding unat_of_nat by (simp add: take_bit_nat_eq_self_iff)
  then have "unat (c + 2) = unat c + 2" by (simp add: ac_simps)
  then show ?thesis using \<open>unat c < 8\<close> by simp
qed

lemma inv_snoc: "occupancy_inv es s \<Longrightarrow> occupancy_inv (es @ [e]) s"
  using seen_mono [of _ _ es e] unfolding occupancy_inv_def by (meson le_trans mult_le_mono2)

lemma notify_empty_inv: "occupancy_inv es s \<Longrightarrow> occupancy_inv es (notify_empty s)"
  by (auto simp: occupancy_inv_def notify_empty_def Let_def count_down)

lemma low_seen_inv:
  assumes "occupancy_inv es s" "broadcast_payload RMOB_ADRLOW e = Some p"
  shows "occupancy_inv (es @ [e]) (low_seen p s)"
proof -
  have "occupancy_inv (es @ [e]) s" using inv_snoc assms(1) by blast
  moreover have "unat (countL s + 2) \<le> 2 * seen RMOB_ADRLOW p (es @ [e])" if "currentL s = p" "countL s < 8"
    using that assms count_up [of "countL s"] by (simp add: occupancy_inv_def seen_snoc)
  ultimately show ?thesis
    using count_up [of "countL s"] by (auto simp: occupancy_inv_def low_seen_def MIN_EMPTY_COUNT_def)
qed

lemma high_seen_inv:
  assumes "occupancy_inv es s" "broadcast_payload RMOB_ADRHIGH e = Some p"
  shows "occupancy_inv (es @ [e]) (high_seen p s)"
proof -
  have "occupancy_inv (es @ [e]) s" using inv_snoc assms(1) by blast
  moreover have "unat (countH s + 2) \<le> 2 * seen RMOB_ADRHIGH p (es @ [e])" if "currentH s = p" "countH s < 8"
    using that assms count_up [of "countH s"] by (simp add: occupancy_inv_def seen_snoc)
  ultimately show ?thesis
    using count_up [of "countH s"] by (auto simp: occupancy_inv_def high_seen_def MIN_EMPTY_COUNT_def)
qed

lemma take_address_inv:
  assumes "occupancy_inv es s"
  shows "occupancy_inv es (take_address s)"
proof -
  have "3 \<le> seen RMOB_ADRHIGH (currentH s) es \<and> 3 \<le> seen RMOB_ADRLOW (currentL s) es"
    if "countL s \<ge> 6" "countH s \<ge> 6"
    using assms that by (simp add: occupancy_inv_def word_le_nat_alt)
  then show ?thesis
    using assms by (auto simp: occupancy_inv_def take_address_def MIN_REPEAT_COUNT_def)
qed

lemma abstract_step_inv: "occupancy_inv es s \<Longrightarrow> occupancy_inv (es @ [e]) (abstract_step e s)"
  by (auto simp: abstract_step_def notify_empty_inv inv_snoc low_seen_inv high_seen_inv take_address_inv
      split: option.splits)

lemma reached_inv: "reached es s \<Longrightarrow> list_all event_wf es \<Longrightarrow> occupancy_inv es s"
proof (induction rule: reached.induct)
  case start
  show ?case by (simp add: occupancy_inv_def broadcast_new_def seen_def)
next
  case (step es s e s')
  then have "s' = abstract_step e s" "occupancy_inv es s" by (simp_all add: broadcast_step_eq)
  then show ?case using abstract_step_inv by blast
qed

subsection \<open>What the reported address means\<close>

text \<open>What stands on the track, without the tables of the decoder: a transmitter has sent the address byte \<open>p\<close> as the
  datagram with id \<open>half\<close>. \<open>plain_channel1\<close> says that channel 1 had data words or garbage in it, but none
  of the other code words.\<close>

definition sends :: "u8 \<Rightarrow> u8 \<Rightarrow> broadcast_event \<Rightarrow> bool" where
  "sends half p e = (case e of Packet fb \<Rightarrow> ch1Size fb = 2 \<and> ch1Data fb = append12 half p | Occupancy v \<Rightarrow> False)"

definition plain_channel1 :: "broadcast_event \<Rightarrow> bool" where
  "plain_channel1 e = (case e of Packet fb \<Rightarrow> list_all (\<lambda>b. b \<notin> {ACK, NACK, BUSY, RESVD1, RESVD2})
       (map decode_byte (take (unat (ch1Size fb)) (ch1Data fb))) | Occupancy v \<Rightarrow> True)"

lemma decode_words: "decode_byte b < 64 \<or> decode_byte b \<in> {INV, ACK, NACK, BUSY, RESVD1, RESVD2}"
proof -
  have "rows (\<lambda>x d. d < 64 \<or> d \<in> {INV, ACK, NACK, BUSY, RESVD1, RESVD2}) 0 railcom_decode" by code_simp
  from rows_nth [OF this, of "unat b"] show ?thesis by (simp add: decode_byte_def)
qed

lemma split_word:
  assumes "c < 64" "c1 < (64 :: u8)"
  shows "(push_bit 2 (drop_bit 2 c) OR drop_bit 6 (push_bit 6 (c AND 3) OR c1)) AND 0x3F = c"
    "(push_bit 6 (c AND 3) OR c1) AND 0x3F = c1"
proof -
  have m: "(0x3F :: u8) = mask 6" "(3 :: u8) = mask 2" by (simp_all add: mask_eq_exp_minus_1)
  have "take_bit 6 c = c" "take_bit 6 c1 = c1"
    using assms by (simp_all add: take_bit_unat_less word_less_nat_alt)
  then have t: "bit c n \<longrightarrow> n < 6" "bit c1 n \<longrightarrow> n < 6" for n by (metis bit_take_bit_iff)+
  show "(push_bit 2 (drop_bit 2 c) OR drop_bit 6 (push_bit 6 (c AND 3) OR c1)) AND 0x3F = c"
    unfolding m
  proof (rule bit_word_eqI)
    fix n
    assume "n < LENGTH(8)"
    moreover have "2 + (n - 2) = n" if "\<not> n < 2" using that by simp
    ultimately show "bit ((push_bit 2 (drop_bit 2 c) OR drop_bit 6 (push_bit 6 (c AND mask 2) OR c1)) AND mask 6) n = bit c n"
      using t [of n] t [of "n + 6"] by (cases "n < 2") (auto simp: bit_simps ac_simps)
  qed
  show "(push_bit 6 (c AND 3) OR c1) AND 0x3F = c1"
    unfolding m by (rule bit_word_eqI) (use t in \<open>auto simp: bit_simps\<close>)
qed

lemma encode_masked: "encode_bits x = encode_bits (x AND 0x3F)"
  by (simp add: encode_bits_def and.assoc)

lemma payload_sent:
  assumes "event_wf e" "plain_channel1 e" "broadcast_payload half e = Some p"
  shows "sends half p e"
proof -
  obtain fb where e: "e = Packet fb" using assms(3) by (cases e) (auto simp: broadcast_payload_def)
  obtain b0 b1 where b: "ch1Data fb = [b0, b1]" using ch1_sizes(2) [of fb] assms(1) e by auto
  let ?c0 = "decode_byte b0" and ?c1 = "decode_byte b1"
  have p: "ch1Size fb = 2" "?c0 \<noteq> INV" "?c1 \<noteq> INV" "drop_bit 2 ?c0 = half" "p = push_bit 6 (?c0 AND 3) OR ?c1"
    using assms(3) by (auto simp: broadcast_payload_def e b Let_def split: if_splits)
  have "?c0 < 64" "?c1 < 64"
    using assms(2) p(1-3) decode_words [of b0] decode_words [of b1] by (auto simp: plain_channel1_def e b)
  note w = this
  have "encode_bits (push_bit 2 half OR drop_bit 6 p) = b0" "encode_bits p = b1"
    using split_word [OF w] encode_decode [OF w(1)] encode_decode [OF w(2)] encode_masked p(4,5) by metis+
  then show ?thesis by (simp add: sends_def e b p(1) append12_def)
qed

lemma filter_more: "(\<And>x. x \<in> set xs \<Longrightarrow> P x \<Longrightarrow> Q x) \<Longrightarrow> length (filter P xs) \<le> length (filter Q xs)"
  by (induction xs) auto

text \<open>C15: A reported address was really sent: in whatever order packets, empty cutouts and occupancy
  changes arrive, with any garbage among them, as long as no acknowledgement, busy or reserved word stands in channel 1, a
  nonzero address has at least three datagrams for each of its bytes behind it, as a transmitter encodes them.\<close>

theorem broadcast_address_repeated:
  assumes "reached es s" "list_all event_wf es" "list_all plain_channel1 es" "current_address s \<noteq> 0"
  shows "\<exists>h l. current_address s = push_bit 8 (ucast h) OR ucast l \<and>
     3 \<le> length (filter (sends RMOB_ADRHIGH h) es) \<and> 3 \<le> length (filter (sends RMOB_ADRLOW l) es)"
proof -
  obtain h l where "current_address s = push_bit 8 (ucast h) OR ucast l" "3 \<le> seen RMOB_ADRHIGH h es" "3 \<le> seen RMOB_ADRLOW l es"
    using reached_inv [OF assms(1,2)] assms(4) by (auto simp: occupancy_inv_def current_address_def)
  moreover have "seen half p es \<le> length (filter (sends half p) es)" for half p
    unfolding seen_def by (rule filter_more) (use payload_sent assms(2,3) in \<open>auto simp: list_all_iff\<close>)
  ultimately show ?thesis by (meson le_trans)
qed

fun broadcast_run :: "broadcast_event list \<Rightarrow> broadcast_decoder \<Rightarrow> broadcast_decoder option" where
  "broadcast_run [] s = Some s"
| "broadcast_run (e # es) s = Option.bind (broadcast_step e s) (broadcast_run es)"

lemma broadcast_run_eq: "list_all event_wf es \<Longrightarrow> broadcast_run es s = Some (fold abstract_step es s)"
  by (induction es arbitrary: s) (simp_all add: broadcast_step_eq)

definition progress :: "u8 \<Rightarrow> nat \<Rightarrow> u8 \<Rightarrow> u8 \<Rightarrow> bool" where
  "progress p k cur cnt \<longleftrightarrow> (0 < k \<longrightarrow> cur = p \<and> (6 \<le> unat cnt \<or> 2 * k \<le> unat cnt + 2))"

lemma progress_step:
  "progress p k cur cnt \<Longrightarrow> progress p (Suc k) p (if cur = p then if cnt < 8 then cnt + 2 else cnt else 0)"
  using count_up [of cnt] by (auto simp: progress_def word_less_nat_alt not_less)

definition locked :: "u8 \<Rightarrow> u8 \<Rightarrow> nat \<Rightarrow> nat \<Rightarrow> broadcast_decoder \<Rightarrow> bool" where
  "locked h l hk lk s \<longleftrightarrow> progress h hk (currentH s) (countH s) \<and> progress l lk (currentL s) (countL s)"

lemma locked_low: "locked h l hk lk s \<Longrightarrow> locked h l hk (Suc lk) (low_seen l s)"
  using progress_step [of l lk "currentL s" "countL s"]
  by (auto simp: locked_def low_seen_def MIN_EMPTY_COUNT_def)

lemma locked_high: "locked h l hk lk s \<Longrightarrow> locked h l (Suc hk) lk (high_seen h s)"
  using progress_step [of h hk "currentH s" "countH s"]
  by (auto simp: locked_def high_seen_def MIN_EMPTY_COUNT_def)

lemma locked_address:
  assumes "locked h l hk lk s"
  shows "locked h l hk lk (take_address s)"
    "4 \<le> hk \<Longrightarrow> 4 \<le> lk \<Longrightarrow> currentAddress (take_address s) = push_bit 8 (ucast h) OR ucast l"
  using assms by (auto simp: locked_def take_address_def progress_def MIN_REPEAT_COUNT_def word_le_nat_alt)

definition broadcast_of :: "u8 \<Rightarrow> u8 \<Rightarrow> broadcast_event \<Rightarrow> bool" where
  "broadcast_of h l e \<longleftrightarrow> broadcast_payload RMOB_ADRHIGH e = Some h \<or> broadcast_payload RMOB_ADRLOW e = Some l"

lemma payload_facts:
  "broadcast_payload half e = Some p \<Longrightarrow> \<not> is_empty_event e"
  "broadcast_payload half e = Some p \<Longrightarrow> broadcast_payload half' e = Some q \<Longrightarrow> half = half'"
  by (auto simp: broadcast_payload_def is_empty_event_def Let_def split: broadcast_event.splits if_splits)

lemma halves: "RMOB_ADRHIGH \<noteq> RMOB_ADRLOW"
  by (simp add: RMOB_ADRHIGH_def RMOB_ADRLOW_def)

lemma broadcasts_lock:
  assumes "list_all (broadcast_of h l) es"
  shows "locked h l (seen RMOB_ADRHIGH h es) (seen RMOB_ADRLOW l es) (fold abstract_step es s) \<and>
    (4 \<le> seen RMOB_ADRHIGH h es \<and> 4 \<le> seen RMOB_ADRLOW l es \<longrightarrow>
       currentAddress (fold abstract_step es s) = push_bit 8 (ucast h) OR ucast l)"
  using assms
proof (induction es rule: rev_induct)
  case Nil
  show ?case by (simp add: seen_def locked_def progress_def)
next
  case (snoc e es)
  let ?s = "fold abstract_step es s"
  have l: "locked h l (seen RMOB_ADRHIGH h es) (seen RMOB_ADRLOW l es) ?s" using snoc by simp
  from snoc.prems have "broadcast_of h l e" by simp
  then consider (low) "broadcast_payload RMOB_ADRLOW e = Some l" "broadcast_payload RMOB_ADRHIGH e = None"
    | (high) "broadcast_payload RMOB_ADRHIGH e = Some h" "broadcast_payload RMOB_ADRLOW e = None"
    using payload_facts(2) halves unfolding broadcast_of_def by (metis option.exhaust)
  then show ?case
  proof cases
    case low
    then have "abstract_step e ?s = take_address (low_seen l ?s)"
      using payload_facts(1) by (auto simp: abstract_step_def)
    then show ?thesis using locked_address [OF locked_low [OF l]] low by (simp add: seen_snoc)
  next
    case high
    then have "abstract_step e ?s = take_address (high_seen h ?s)"
      using payload_facts(1) by (auto simp: abstract_step_def)
    then show ?thesis using locked_address [OF locked_high [OF l]] high by (simp add: seen_snoc)
  qed
qed

lemma notify_empty_count:
  "unat (countH (notify_empty s)) = unat (countH s) - 1"
  "countH (notify_empty s) = 0 \<Longrightarrow> currentAddress (notify_empty s) = 0"
  by (auto simp: notify_empty_def Let_def count_down)

lemma empties_count:
  "list_all is_empty_event es \<Longrightarrow> es \<noteq> [] \<Longrightarrow>
     unat (countH (fold abstract_step es s)) = unat (countH s) - length es \<and>
     (countH (fold abstract_step es s) = 0 \<longrightarrow> currentAddress (fold abstract_step es s) = 0)"
proof (induction es rule: rev_induct)
  case (snoc e es)
  then have "unat (countH (fold abstract_step es s)) = unat (countH s) - length es" by (cases "es = []") auto
  moreover have "fold abstract_step (es @ [e]) s = notify_empty (fold abstract_step es s)"
    using snoc.prems by (simp add: abstract_step_def)
  ultimately show ?case using notify_empty_count [of "fold abstract_step es s"] by simp
qed simp

text \<open>C17: The address is found and lost in time: from any state, four valid broadcasts of each
  half of the same address, in any order, make it the current address, and nine
  cutouts without data make the decoder forget it.\<close>

theorem broadcast_found_and_lost:
  assumes "list_all event_wf es" "list_all event_wf gone"
    and "list_all (broadcast_of h l) es"
    and "4 \<le> length (filter (\<lambda>e. broadcast_payload RMOB_ADRHIGH e = Some h) es)"
    and "4 \<le> length (filter (\<lambda>e. broadcast_payload RMOB_ADRLOW e = Some l) es)"
    and "reached before s" "list_all event_wf before" "list_all is_empty_event gone" "9 \<le> length gone"
  shows "(\<exists>s'. broadcast_run es s = Some s' \<and> current_address s' = push_bit 8 (ucast h) OR ucast l) \<and>
     (\<exists>s'. broadcast_run gone s = Some s' \<and> current_address s' = 0)"
proof -
  have "unat (countH s) \<le> 9" using reached_inv [OF assms(6,7)] by (simp add: occupancy_inv_def)
  moreover have "gone \<noteq> []" using assms(9) by auto
  ultimately have "unat (countH (fold abstract_step gone s)) = 0" "currentAddress (fold abstract_step gone s) = 0"
    using empties_count [OF assms(8), of s] assms(9) by (auto simp: unat_eq_0)
  then show ?thesis
    using broadcasts_lock [OF assms(3)] assms(1,2,4,5) by (simp add: broadcast_run_eq current_address_def seen_def)
qed

definition address_packet :: "u8 \<Rightarrow> u8 \<Rightarrow> broadcast_event" where
  "address_packet half d = Packet (no_feedback\<lparr>ch1Size := 2, ch1Data := append12 half d\<rparr>)"

lemma run_reaches: "broadcast_run es s = Some s' \<Longrightarrow> reached before s \<Longrightarrow> reached (before @ es) s'"
proof (induction es arbitrary: s before)
  case (Cons e es)
  then obtain t where "broadcast_step e s = Some t" "broadcast_run es t = Some s'" by (auto split: Option.bind_splits)
  then show ?case using Cons.IH [of t "before @ [e]"] reached.step Cons.prems(2) by fastforce
qed simp

theorem broadcast_address_repeated_witness:
  "let es = concat (replicate 4 [address_packet RMOB_ADRHIGH 0x03, address_packet RMOB_ADRLOW 0xE8]) in
     (\<exists>s. broadcast_run es broadcast_new = Some s \<and> current_address s = 1000) \<and>
     (\<exists>h l. (1000 :: u16) = push_bit 8 (ucast h) OR ucast l \<and>
       3 \<le> length (filter (sends RMOB_ADRHIGH h) es) \<and> 3 \<le> length (filter (sends RMOB_ADRLOW l) es))"
proof -
  define a b where "a = address_packet RMOB_ADRHIGH 0x03" and "b = address_packet RMOB_ADRLOW 0xE8"
  let ?es = "concat (replicate 4 [a, b])"
  have w: "event_wf a" "event_wf b" "plain_channel1 a" "plain_channel1 b"
    unfolding a_def b_def by code_simp+
  have "map_option current_address (broadcast_run ?es broadcast_new) = Some 1000" unfolding a_def b_def by code_simp
  then obtain s where s: "broadcast_run ?es broadcast_new = Some s" "current_address s = 1000" by auto
  have l: "list_all event_wf ?es" "list_all plain_channel1 ?es" using w by (simp_all add: numeral_eq_Suc)
  have "reached ?es s" using run_reaches [OF s(1) start] by simp
  from broadcast_address_repeated [OF this l] s show ?thesis unfolding a_def b_def Let_def by simp
qed

text \<open>The decoder does not look for the other code words: with a byte for ACK in the place of the second half of each address byte it
  reports an address that nobody has sent.\<close>

definition ack_packet :: "u8 \<Rightarrow> broadcast_event" where
  "ack_packet half = Packet (no_feedback\<lparr>ch1Size := 2, ch1Data := [encode_bits (push_bit 2 half), 0x0f]\<rparr>)"

lemma ack_taken_for_data:
  "map_option current_address (broadcast_run (concat (replicate 4 [ack_packet RMOB_ADRHIGH, ack_packet RMOB_ADRLOW])) broadcast_new) =
     Some 0xFEFE" "decode_byte 0x0f = ACK"
  by code_simp+

theorem broadcast_found_and_lost_witness:
  "let a = address_packet RMOB_ADRHIGH 0x03; b = address_packet RMOB_ADRLOW 0xE8 in
     \<exists>s'. broadcast_run [a, b, a, b, a, b, a, b] broadcast_new = Some s' \<and> current_address s' = 1000"
proof -
  define a b where "a = address_packet RMOB_ADRHIGH 0x03" and "b = address_packet RMOB_ADRLOW 0xE8"
  have p: "broadcast_payload RMOB_ADRHIGH a = Some 0x03" "broadcast_payload RMOB_ADRLOW a = None"
    "broadcast_payload RMOB_ADRLOW b = Some 0xE8" "broadcast_payload RMOB_ADRHIGH b = None"
    unfolding a_def b_def by code_simp+
  have w: "event_wf a" "event_wf b"
    by (simp_all add: a_def b_def address_packet_def feedback_wf_def append12_def no_feedback_def)
  define s' where "s' = [a, b, a, b, a, b, a, b]"
  have "list_all event_wf s'" "list_all (broadcast_of 0x03 0xE8) s'"
    "4 \<le> length (filter (\<lambda>e. broadcast_payload RMOB_ADRHIGH e = Some 0x03) s')"
    "4 \<le> length (filter (\<lambda>e. broadcast_payload RMOB_ADRLOW e = Some 0xE8) s')"
    "list_all event_wf (replicate 9 (Occupancy False))" "list_all is_empty_event (replicate 9 (Occupancy False))"
    "9 \<le> length (replicate 9 (Occupancy False))" "list_all event_wf []"
    by (simp_all add: s'_def p w broadcast_of_def is_empty_event_def list_all_iff)
  from broadcast_found_and_lost [OF this(1,5,2,3,4) start this(8,6,7)]
  show ?thesis unfolding s'_def a_def b_def Let_def by simp
qed

end
