(* ===== verification/OlcbDefs.thy ===== *)
theory OlcbDefs
  imports Endian
begin

section \<open>Messages and their payload (openlcb/Defs.hxx, openlcb/If.hxx, openlcb/If.cpp)\<close>

text \<open>
  Message type indicators, node handles, the generic message, and the conversions between
  node ids, error codes and the bytes of a payload. Strings are lists of bytes. A node
  object is the number that stands for its address. The conversions go through the memory
  of the host as the code does; \<open>big\<close> is the byte order of the host, and the lemmas
  show that it does not matter.
\<close>

type_synonym mti = u16
type_synonym payload = "u8 list"

definition MTI_NONE :: mti where "MTI_NONE = 0x0000"
definition MTI_DATAGRAM :: mti where "MTI_DATAGRAM = 0x1C48"
definition MTI_STREAM_DATA :: mti where "MTI_STREAM_DATA = 0x1F88"
definition MTI_EVENT_MASK :: mti where "MTI_EVENT_MASK = 0x0004"
definition MTI_ADDRESS_MASK :: mti where "MTI_ADDRESS_MASK = 0x0008"
definition MTI_PRIORITY_MASK :: mti where "MTI_PRIORITY_MASK = 0x0c00"
definition MTI_DATAGRAM_MASK :: mti where "MTI_DATAGRAM_MASK = 0x1000"
definition MTI_SPECIAL_MASK :: mti where "MTI_SPECIAL_MASK = 0x2000"
definition MTI_RESERVED_MASK :: mti where "MTI_RESERVED_MASK = 0xc000"
definition ERROR_PERMANENT :: u16 where "ERROR_PERMANENT = 0x1000"

lemmas mti_masks = MTI_EVENT_MASK_def MTI_ADDRESS_MASK_def MTI_PRIORITY_MASK_def MTI_DATAGRAM_MASK_def
  MTI_SPECIAL_MASK_def MTI_RESERVED_MASK_def

definition get_mti_address :: "mti \<Rightarrow> bool" where
  "get_mti_address m \<longleftrightarrow> m AND MTI_ADDRESS_MASK \<noteq> 0"

definition get_mti_event :: "mti \<Rightarrow> bool" where
  "get_mti_event m \<longleftrightarrow> m AND MTI_EVENT_MASK \<noteq> 0"

definition get_mti_datagram :: "mti \<Rightarrow> bool" where
  "get_mti_datagram m \<longleftrightarrow> m AND MTI_DATAGRAM_MASK \<noteq> 0"

definition mti_priority :: "mti \<Rightarrow> u32" where
  "mti_priority m = ucast (drop_bit 10 (m AND MTI_PRIORITY_MASK))"

datatype event_state = VALID | INVALID | RESERVED | UNKNOWN_STATE

definition invert_event_state :: "event_state \<Rightarrow> event_state" where
  "invert_event_state s = (case s of VALID \<Rightarrow> INVALID | INVALID \<Rightarrow> VALID | _ \<Rightarrow> s)"

definition to_event_state :: "bool \<Rightarrow> event_state" where
  "to_event_state b = (if b then VALID else INVALID)"

definition event_state_code :: "event_state \<Rightarrow> mti" where
  "event_state_code s = (case s of VALID \<Rightarrow> 0 | INVALID \<Rightarrow> 1 | RESERVED \<Rightarrow> 2 | UNKNOWN_STATE \<Rightarrow> 3)"

definition mti_plus :: "mti \<Rightarrow> event_state \<Rightarrow> mti" where
  "mti_plus m s = m + event_state_code s"

record node_handle =
  nh_id :: node_id
  nh_alias :: node_alias

definition nh_none :: node_handle where
  "nh_none = \<lparr>nh_id = 0, nh_alias = 0\<rparr>"

record gen_message =
  gm_src :: node_handle
  gm_dst :: node_handle
  gm_mti :: mti
  gm_dstNode :: "nat option"
  gm_payload :: payload
  gm_flagsSrc :: u4
  gm_flagsDst :: u4

definition gm_reset :: "mti \<Rightarrow> node_id \<Rightarrow> node_handle \<Rightarrow> payload \<Rightarrow> gen_message" where
  "gm_reset m s d p = \<lparr>gm_src = \<lparr>nh_id = s, nh_alias = 0\<rparr>, gm_dst = d, gm_mti = m, gm_dstNode = None,
     gm_payload = p, gm_flagsSrc = 0, gm_flagsDst = 0\<rparr>"

definition gm_clear :: gen_message where
  "gm_clear = gm_reset 0 0 nh_none []"

definition set_flag_dst :: "u4 \<Rightarrow> gen_message \<Rightarrow> gen_message" where
  "set_flag_dst f m = m\<lparr>gm_flagsDst := gm_flagsDst m OR f\<rparr>"

definition has_flag_dst :: "u4 \<Rightarrow> gen_message \<Rightarrow> bool" where
  "has_flag_dst f m \<longleftrightarrow> gm_flagsDst m AND f = f"

definition DSTFLAG_NOT_FIRST_MESSAGE :: u4 where "DSTFLAG_NOT_FIRST_MESSAGE = 2"
definition DSTFLAG_NOT_LAST_MESSAGE :: u4 where "DSTFLAG_NOT_LAST_MESSAGE = 4"

definition gm_priority :: "gen_message \<Rightarrow> u32" where
  "gm_priority m = mti_priority (gm_mti m)"

subsection \<open>Node ids\<close>

text \<open>The value that eight bytes in memory have.\<close>

definition value_le :: "u8 list \<Rightarrow> u64" where
  "value_le bs = foldr (\<lambda>b w. push_bit 8 w OR ucast b) bs 0"

definition from_memory :: "bool \<Rightarrow> u8 list \<Rightarrow> u64" where
  "from_memory big bs = value_le (if big then rev bs else bs)"

definition node_id_to_data :: "bool \<Rightarrow> node_id \<Rightarrow> u8 list" where
  "node_id_to_data big nid = take 6 (drop 2 (in_memory big 8 (htobe64 big nid)))"

definition node_id_to_buffer :: "bool \<Rightarrow> node_id \<Rightarrow> u8 list" where
  "node_id_to_buffer big nid = take 6 (drop 2 (in_memory big 8 (htobe64 big nid)))"

definition data_to_node_id :: "bool \<Rightarrow> u8 list \<Rightarrow> node_id option" where
  "data_to_node_id big buf = do {
     hassert (6 \<le> length buf);
     let d = [0, 0] @ take 6 buf;
     Some (be64toh big (from_memory big d))
   }"

definition buffer_to_node_id :: "bool \<Rightarrow> u8 list \<Rightarrow> node_id option" where
  "buffer_to_node_id big buf = do {
     hassert (length buf = 6);
     data_to_node_id big buf
   }"

definition eventid_to_buffer :: "bool \<Rightarrow> u64 \<Rightarrow> payload" where
  "eventid_to_buffer big eventid = in_memory big 8 (htobe64 big eventid)"

definition be_bytes6 :: "node_id \<Rightarrow> u8 list" where
  "be_bytes6 nid = map (\<lambda>i. ucast (drop_bit i nid)) [40, 32, 24, 16, 8, 0]"

lemma length_be_bytes6 [simp]: "length (be_bytes6 nid) = 6"
  by (simp add: be_bytes6_def)

lemma in_memory_be: "in_memory big 8 (htobe64 big x) = rev (bytes_le 8 x)"
  by (simp add: in_memory_def host_order_defs bswap_bytes)

lemma bytes_le_8: "bytes_le 8 x = map (\<lambda>i. ucast (drop_bit i x)) [0, 8, 16, 24, 32, 40, 48, 56]"
  by (simp add: bytes_le_def upt_rec)

lemma node_id_bytes: "node_id_to_data big nid = be_bytes6 nid" "node_id_to_buffer big nid = be_bytes6 nid"
  by (simp_all add: node_id_to_data_def node_id_to_buffer_def in_memory_be bytes_le_8 be_bytes6_def)

lemma eventid_bytes:
  "eventid_to_buffer big e = map (\<lambda>i. ucast (drop_bit i e)) [56, 48, 40, 32, 24, 16, 8, 0]"
  by (simp add: eventid_to_buffer_def in_memory_be bytes_le_8)

lemma no_bit_8: "8 \<le> n \<Longrightarrow> \<not> bit (b :: u8) n"
  using bit_imp_le_length [of b n] by auto

lemma length_bytes_le [simp]: "length (bytes_le n x) = n"
  by (simp add: bytes_le_def)

lemma bytes_value:
  assumes "length bs = 8"
  shows "bytes_le 8 (value_le bs) = bs"
proof -
  have "\<exists>b0 b1 b2 b3 b4 b5 b6 b7. bs = [b0, b1, b2, b3, b4, b5, b6, b7]"
    using assms by (auto simp: length_Suc_conv eval_nat_numeral)
  then obtain b0 b1 b2 b3 b4 b5 b6 b7 where bs: "bs = [b0, b1, b2, b3, b4, b5, b6, b7]" by blast
  show ?thesis
    unfolding bs bytes_le_8 value_le_def list.map list.inject foldr.simps o_def id_apply
    by (intro conjI; (rule refl | rule byte_eqI); drule less_8; elim disjE; simp add: bit_simps no_bit_8)
qed

lemma from_memory_be: "length bs = 8 \<Longrightarrow> be64toh big (from_memory big bs) = value_le (rev bs)"
  by (rule bytes_le_inject [where n = 8])
    (simp_all add: from_memory_def host_order_defs bswap_bytes bytes_value)

lemma value_bytes: "value_le (bytes_le 8 x) = x"
  by (rule bytes_le_inject [where n = 8]) (simp_all add: bytes_value)

definition node_id_of :: "u8 list \<Rightarrow> node_id" where
  "node_id_of bs = value_le (rev ([0, 0] @ bs))"

lemma data_to_node_id_eq: "6 \<le> length buf \<Longrightarrow> data_to_node_id big buf = Some (node_id_of (take 6 buf))"
  by (simp add: data_to_node_id_def from_memory_be node_id_of_def del: append.simps)

lemma node_id_of_bytes: "node_id_of (be_bytes6 nid) = take_bit 48 nid"
proof -
  have "rev ([0, 0] @ be_bytes6 nid) = bytes_le 8 (take_bit 48 nid)"
    by (simp add: be_bytes6_def bytes_le_8)
       (intro conjI; rule byte_eqI; drule less_8; elim disjE; simp add: bit_simps)
  then show ?thesis by (simp only: node_id_of_def value_bytes)
qed

lemma data_node_id_roundtrip [simp]: "data_to_node_id big (be_bytes6 nid @ rest) = Some (take_bit 48 nid)"
  by (simp add: data_to_node_id_eq node_id_of_bytes)

subsection \<open>Error codes\<close>

definition error_to_data :: "u16 \<Rightarrow> u8 list" where
  "error_to_data error_code = [ucast (drop_bit 8 error_code), ucast (error_code AND 0xff)]"

definition data_to_error :: "u8 list \<Rightarrow> u16 option" where
  "data_to_error p = do {
     p0 \<leftarrow> array_get p 0;
     p1 \<leftarrow> array_get p 1;
     Some (push_bit 8 (ucast p0) OR ucast p1)
   }"

definition error_to_buffer_mti :: "u16 \<Rightarrow> u16 \<Rightarrow> payload" where
  "error_to_buffer_mti error_code m =
     error_to_data error_code @ [ucast (drop_bit 8 m), ucast (m AND 0xff)]"

definition error_to_buffer :: "u16 \<Rightarrow> payload" where
  "error_to_buffer error_code = error_to_data error_code"

definition append_error_to_buffer :: "u16 \<Rightarrow> payload \<Rightarrow> payload" where
  "append_error_to_buffer error_code p = p @ [ucast (drop_bit 8 error_code), ucast (error_code AND 0xff)]"

definition buffer_to_error :: "payload \<Rightarrow> u16 \<times> mti \<times> u8 list" where
  "buffer_to_error p =
     (if 2 \<le> length p then push_bit 8 (ucast (p ! 0)) OR ucast (p ! 1) else ERROR_PERMANENT,
      if 4 \<le> length p then push_bit 8 (ucast (p ! 2)) OR ucast (p ! 3) else 0,
      if 4 < length p then drop 4 p else [])"

definition error_payload :: "u16 \<Rightarrow> mti \<Rightarrow> payload" where
  "error_payload error_code incoming_mti = error_to_data error_code @ error_to_data incoming_mti"

lemma join_halves: "push_bit 8 (ucast (ucast (drop_bit 8 e) :: u8)) OR ucast (ucast (e AND 0xff) :: u8) = (e :: u16)"
proof -
  have m: "(0xff :: u16) = mask 8" by (simp add: mask_eq_exp_minus_1)
  have b: "bit e i \<Longrightarrow> i < 16" for i using bit_imp_le_length [of e i] by simp
  show ?thesis unfolding m by (rule bit_word_eqI) (auto simp: bit_simps dest: b)
qed

lemma length_error_to_data [simp]: "length (error_to_data e) = 2"
  by (simp add: error_to_data_def)

lemma data_to_error_append [simp]: "data_to_error (error_to_data e @ rest) = Some e"
  by (simp add: data_to_error_def error_to_data_def join_halves)

text \<open>What is written into a payload is read back, on a host of either byte order: the 48 bits of
  a node id, an error code with its message type indicator and msg, and a payload that is
  too short gives a permanent error and no indicator.\<close>

theorem payload_fields_roundtrip:
  "buffer_to_node_id big (node_id_to_buffer big' n) = Some (take_bit 48 n) \<and>
   data_to_error (error_to_data e) = Some e \<and>
   buffer_to_error (error_to_buffer_mti e m @ msg) = (e, m, msg) \<and>
   buffer_to_error (error_payload e m) = (e, m, []) \<and>
   buffer_to_error (append_error_to_buffer e []) = (e, 0, []) \<and>
   (length p < 2 \<longrightarrow> buffer_to_error p = (ERROR_PERMANENT, 0, []))"
proof -
  have "buffer_to_node_id big (node_id_to_buffer big' n) = Some (take_bit 48 n)"
    using data_node_id_roundtrip [of big n "[]"] by (simp add: buffer_to_node_id_def node_id_bytes)
  moreover have "data_to_error (error_to_data e) = Some e" using data_to_error_append [of e "[]"] by simp
  moreover have "buffer_to_error (error_to_buffer_mti e m @ msg) = (e, m, msg)"
    using join_halves [of e] join_halves [of m]
    by (cases msg) (simp_all add: buffer_to_error_def error_to_buffer_mti_def error_to_data_def)
  ultimately show ?thesis
    using join_halves [of e] join_halves [of m]
    by (simp add: buffer_to_error_def error_payload_def append_error_to_buffer_def error_to_data_def)
qed

theorem payload_fields_roundtrip_witness:
  "buffer_to_error [0x10] = (ERROR_PERMANENT, 0, []) \<and>
   buffer_to_node_id False (node_id_to_buffer True 0x050101011812) = Some 0x050101011812"
  using payload_fields_roundtrip [of False True "0x050101011812" 0 0 "[]" "[0x10]"] by simp

end
