(* ===== verification/OlcbTcp.thy ===== *)
theory OlcbTcp
  imports OlcbDefs
begin

section \<open>Messages on a TCP connection (openlcb/IfTcpImpl.hxx, TcpDefs)\<close>

text \<open>
  The binary form of a message: flags, size, gateway, time stamp, then the message type,
  source, destination and payload. \<open>store\<close> is a write through a pointer into the
  string, a fault when it leaves it. The output parameter of the parser is the message in the
  result; a false return is \<open>Some None\<close>, a failed assertion or a bad access \<open>None\<close>.
\<close>

definition FLAGS_OPENLCB_MSG :: u16 where "FLAGS_OPENLCB_MSG = 0x8000"
definition FLAGS_CHAINING :: u16 where "FLAGS_CHAINING = 0x4000"
definition FLAGS_FRAGMENT_NOT_FIRST :: u16 where "FLAGS_FRAGMENT_NOT_FIRST = 0x0800"
definition FLAGS_FRAGMENT_NOT_LAST :: u16 where "FLAGS_FRAGMENT_NOT_LAST = 0x0400"

definition HDR_FLAG_OFS :: nat where "HDR_FLAG_OFS = 0"
definition HDR_SIZE_OFS :: nat where "HDR_SIZE_OFS = 2"
definition HDR_GATEWAY_OFS :: nat where "HDR_GATEWAY_OFS = 2 + 3"
definition HDR_SIZE_END :: nat where "HDR_SIZE_END = HDR_GATEWAY_OFS"
definition HDR_TIMESTAMP_OFS :: nat where "HDR_TIMESTAMP_OFS = 2 + 3 + 6"
definition HDR_LEN :: nat where "HDR_LEN = 2 + 3 + 6 + 6"
definition MSG_MTI_OFS :: nat where "MSG_MTI_OFS = 0"
definition MSG_SRC_OFS :: nat where "MSG_SRC_OFS = 2"
definition MSG_DST_OFS :: nat where "MSG_DST_OFS = 2 + 6"
definition MSG_ADR_PAYLOAD_OFS :: nat where "MSG_ADR_PAYLOAD_OFS = 2 + 6 + 6"
definition MSG_GLOBAL_PAYLOAD_OFS :: nat where "MSG_GLOBAL_PAYLOAD_OFS = MSG_DST_OFS"
definition MIN_MESSAGE_SIZE :: nat where "MIN_MESSAGE_SIZE = MSG_GLOBAL_PAYLOAD_OFS + HDR_LEN"
definition ABS_MTI_OFS :: nat where "ABS_MTI_OFS = HDR_LEN + MSG_MTI_OFS"

lemmas tcp_layout = HDR_FLAG_OFS_def HDR_SIZE_OFS_def HDR_GATEWAY_OFS_def HDR_SIZE_END_def HDR_TIMESTAMP_OFS_def
  HDR_LEN_def MSG_MTI_OFS_def MSG_SRC_OFS_def MSG_DST_OFS_def MSG_ADR_PAYLOAD_OFS_def MSG_GLOBAL_PAYLOAD_OFS_def
  MIN_MESSAGE_SIZE_def ABS_MTI_OFS_def

definition store :: "nat \<Rightarrow> u8 list \<Rightarrow> u8 list \<Rightarrow> u8 list option" where
  "store ofs bs target = do {
     hassert (ofs + length bs \<le> length target);
     Some (take ofs target @ bs @ drop (ofs + length bs) target)
   }"

definition render_tcp_message :: "bool \<Rightarrow> gen_message \<Rightarrow> node_id \<Rightarrow> u64 \<Rightarrow> u8 list option" where
  "render_tcp_message big msg gateway_node_id seq = (
     let has_dst = get_mti_address (gm_mti msg);
         target = replicate (HDR_LEN + length (gm_payload msg) +
           (if has_dst then MSG_ADR_PAYLOAD_OFS else MSG_GLOBAL_PAYLOAD_OFS)) 0;
         sz = (of_nat (length target - HDR_SIZE_END) :: u32)
     in do {
       target \<leftarrow> store HDR_FLAG_OFS (error_to_data FLAGS_OPENLCB_MSG) target;
       target \<leftarrow> store HDR_SIZE_OFS [ucast (drop_bit 16 sz AND 0xff)] target;
       target \<leftarrow> store (HDR_SIZE_OFS + 1) [ucast (drop_bit 8 sz AND 0xff)] target;
       target \<leftarrow> store (HDR_SIZE_OFS + 2) [ucast (sz AND 0xff)] target;
       target \<leftarrow> store HDR_GATEWAY_OFS (node_id_to_data big gateway_node_id) target;
       target \<leftarrow> store HDR_TIMESTAMP_OFS (node_id_to_data big seq) target;
       target \<leftarrow> store (HDR_LEN + MSG_MTI_OFS) (error_to_data (gm_mti msg)) target;
       target \<leftarrow> store (HDR_LEN + MSG_SRC_OFS) (node_id_to_data big (nh_id (gm_src msg))) target;
       if has_dst then do {
         target \<leftarrow> store (HDR_LEN + MSG_DST_OFS) (node_id_to_data big (nh_id (gm_dst msg))) target;
         store (HDR_LEN + MSG_ADR_PAYLOAD_OFS) (gm_payload msg) target
       } else store (HDR_LEN + MSG_GLOBAL_PAYLOAD_OFS) (gm_payload msg) target
     })"

definition get_tcp_message_len :: "u8 list \<Rightarrow> nat \<Rightarrow> int option" where
  "get_tcp_message_len data len =
     (if len < HDR_SIZE_END then Some (-1)
      else do {
        s0 \<leftarrow> array_get data HDR_SIZE_OFS;
        s1 \<leftarrow> array_get data (HDR_SIZE_OFS + 1);
        s2 \<leftarrow> array_get data (HDR_SIZE_OFS + 2);
        let sz = (ucast s0 :: u32);
        let sz = push_bit 8 sz OR ucast s1;
        let sz = push_bit 8 sz OR ucast s2;
        Some (sint (sz + of_nat HDR_SIZE_END))
      })"

text \<open>Behind the bytes of a string there is one zero that may be read, too.\<close>

definition parse_tcp_message :: "bool \<Rightarrow> u8 list \<Rightarrow> gen_message option option" where
  "parse_tcp_message big src = do {
     expected_size \<leftarrow> get_tcp_message_len src (length src);
     if expected_size > int (length src) \<or> expected_size < int MIN_MESSAGE_SIZE then Some None
     else do {
       flags \<leftarrow> data_to_error src;
       if flags AND FLAGS_OPENLCB_MSG = 0 then Some None
       else do {
         let tgt = gm_clear;
         hassert (flags AND FLAGS_CHAINING = 0);
         let tgt = (if flags AND FLAGS_FRAGMENT_NOT_FIRST \<noteq> 0 then set_flag_dst DSTFLAG_NOT_FIRST_MESSAGE tgt else tgt);
         let tgt = (if flags AND FLAGS_FRAGMENT_NOT_LAST \<noteq> 0 then set_flag_dst DSTFLAG_NOT_LAST_MESSAGE tgt else tgt);
         let msg = drop HDR_LEN src;
         m \<leftarrow> data_to_error (drop MSG_MTI_OFS msg);
         src_id \<leftarrow> data_to_node_id big (drop MSG_SRC_OFS msg);
         let tgt = tgt\<lparr>gm_mti := m, gm_src := \<lparr>nh_id = src_id, nh_alias = 0\<rparr>, gm_dst := nh_none\<rparr>;
         let payload_bytes = expected_size - int HDR_LEN;
         (tgt, payload_ofs) \<leftarrow>
           (if get_mti_address m then do {
              dst_id \<leftarrow> data_to_node_id big (drop MSG_DST_OFS (msg @ [0]));
              Some (tgt\<lparr>gm_dst := \<lparr>nh_id = dst_id, nh_alias = 0\<rparr>\<rparr>, MSG_ADR_PAYLOAD_OFS)
            } else Some (tgt, MSG_GLOBAL_PAYLOAD_OFS));
         let payload_bytes = payload_bytes - int payload_ofs;
         if payload_bytes < 0 then Some None
         else do {
           hassert (payload_ofs + nat payload_bytes \<le> length msg);
           Some (Some (tgt\<lparr>gm_payload := take (nat payload_bytes) (drop payload_ofs msg)\<rparr>))
         }
       }
     }
   }"

definition guess_priority :: "u8 list \<Rightarrow> u32 option" where
  "guess_priority tcp_payload =
     (if length tcp_payload < ABS_MTI_OFS + 2 then Some (- 1)
      else do {
        m \<leftarrow> data_to_error (drop ABS_MTI_OFS tcp_payload);
        Some (mti_priority m)
      })"

definition get_sequence_number :: "int \<Rightarrow> int \<Rightarrow> int" where
  "get_sequence_number now_ns seq =
     (let current_time_ms = (if now_ns < 0 then - (- now_ns div 1000000) else now_ns div 1000000) in if current_time_ms > seq then current_time_ms else seq + 1)"

subsection \<open>The rendered bytes\<close>

lemma store_next:
  assumes "length pre = ofs" "length bs \<le> n"
  shows "store ofs bs (pre @ replicate n 0) = Some ((pre @ bs) @ replicate (n - length bs) 0)"
  using assms by (simp add: store_def drop_replicate)

definition size_bytes :: "nat \<Rightarrow> u8 list" where
  "size_bytes n = (let sz = (of_nat n :: u32) in
     [ucast (drop_bit 16 sz AND 0xff), ucast (drop_bit 8 sz AND 0xff), ucast (sz AND 0xff)])"

definition tcp_body :: "gen_message \<Rightarrow> u8 list" where
  "tcp_body m = error_to_data (gm_mti m) @ be_bytes6 (nh_id (gm_src m)) @
     (if get_mti_address (gm_mti m) then be_bytes6 (nh_id (gm_dst m)) else []) @ gm_payload m"

definition tcp_frame :: "gen_message \<Rightarrow> node_id \<Rightarrow> u64 \<Rightarrow> u8 list" where
  "tcp_frame m gw sq = error_to_data FLAGS_OPENLCB_MSG @ size_bytes (12 + length (tcp_body m)) @
     be_bytes6 gw @ be_bytes6 sq @ tcp_body m"

lemma length_size_bytes [simp]: "length (size_bytes n) = 3"
  by (simp add: size_bytes_def Let_def)

lemma render_frame: "render_tcp_message big msg gw sq = Some (tcp_frame msg gw sq)"
proof -
  define d where "d = (if get_mti_address (gm_mti msg) then 6 else 0 :: nat)"
  define n where "n = 25 + d + length (gm_payload msg)"
  have len: "HDR_LEN + length (gm_payload msg) +
      (if get_mti_address (gm_mti msg) then MSG_ADR_PAYLOAD_OFS else MSG_GLOBAL_PAYLOAD_OFS) = n"
    by (simp add: tcp_layout n_def d_def)
  have body: "12 + length (tcp_body msg) = n - 5"
    by (simp add: tcp_body_def n_def d_def)
  have len': "HDR_LEN + length (gm_payload msg) + MSG_ADR_PAYLOAD_OFS = n" if "get_mti_address (gm_mti msg)"
    using that len by simp
  let ?sz = "of_nat (n - 5) :: u32"
  define p1 where "p1 = error_to_data FLAGS_OPENLCB_MSG"
  define p2 where "p2 = p1 @ [ucast (drop_bit 16 ?sz AND 0xff)]"
  define p3 where "p3 = p2 @ [ucast (drop_bit 8 ?sz AND 0xff)]"
  define p4 where "p4 = p3 @ [ucast (?sz AND 0xff)]"
  define p5 where "p5 = p4 @ be_bytes6 gw"
  define p6 where "p6 = p5 @ be_bytes6 sq"
  define p7 where "p7 = p6 @ error_to_data (gm_mti msg)"
  define p8 where "p8 = p7 @ be_bytes6 (nh_id (gm_src msg))"
  define p9 where "p9 = p8 @ be_bytes6 (nh_id (gm_dst msg))"
  have l: "length p1 = 2" "length p2 = 3" "length p3 = 4" "length p4 = 5" "length p5 = 11" "length p6 = 17"
    "length p7 = 19" "length p8 = 25" "length p9 = 31"
    by (simp_all add: p1_def p2_def p3_def p4_def p5_def p6_def p7_def p8_def p9_def)
  have n: "25 \<le> n" by (simp add: n_def)
  have r: "store 0 p1 (replicate n 0) = Some (p1 @ replicate (n - 2) 0)"
    using store_next [of "[]" 0 p1 n] l n by simp
  have st: "store (length pre) bs (pre @ replicate k 0) = Some ((pre @ bs) @ replicate (k - length bs) 0)"
    if "length bs \<le> k" for bs pre k
    using store_next [OF refl that] .
  have c: "store 2 [ucast (drop_bit 16 ?sz AND 0xff)] (p1 @ replicate (n - 2) 0) = Some (p2 @ replicate (n - 3) 0)"
    "store 3 [ucast (drop_bit 8 ?sz AND 0xff)] (p2 @ replicate (n - 3) 0) = Some (p3 @ replicate (n - 4) 0)"
    "store 4 [ucast (?sz AND 0xff)] (p3 @ replicate (n - 4) 0) = Some (p4 @ replicate (n - 5) 0)"
    "store 5 (be_bytes6 gw) (p4 @ replicate (n - 5) 0) = Some (p5 @ replicate (n - 11) 0)"
    "store 11 (be_bytes6 sq) (p5 @ replicate (n - 11) 0) = Some (p6 @ replicate (n - 17) 0)"
    "store 17 (error_to_data (gm_mti msg)) (p6 @ replicate (n - 17) 0) = Some (p7 @ replicate (n - 19) 0)"
    "store 19 (be_bytes6 (nh_id (gm_src msg))) (p7 @ replicate (n - 19) 0) = Some (p8 @ replicate (n - 25) 0)"
    using st [of "[ucast (drop_bit 16 ?sz AND 0xff)]" "n - 2" p1] st [of "[ucast (drop_bit 8 ?sz AND 0xff)]" "n - 3" p2]
      st [of "[ucast (?sz AND 0xff)]" "n - 4" p3] st [of "be_bytes6 gw" "n - 5" p4] st [of "be_bytes6 sq" "n - 11" p5]
      st [of "error_to_data (gm_mti msg)" "n - 17" p6] st [of "be_bytes6 (nh_id (gm_src msg))" "n - 19" p7] n l
    by (simp_all add: p2_def p3_def p4_def p5_def p6_def p7_def p8_def)
  have e: "get_mti_address (gm_mti msg) \<Longrightarrow>
      store 25 (be_bytes6 (nh_id (gm_dst msg))) (p8 @ replicate (n - 25) 0) = Some (p9 @ replicate (n - 31) 0)"
    "get_mti_address (gm_mti msg) \<Longrightarrow>
      store 31 (gm_payload msg) (p9 @ replicate (n - 31) 0) = Some (p9 @ gm_payload msg)"
    "\<not> get_mti_address (gm_mti msg) \<Longrightarrow>
      store 25 (gm_payload msg) (p8 @ replicate (n - 25) 0) = Some (p8 @ gm_payload msg)"
    using st [of "be_bytes6 (nh_id (gm_dst msg))" "n - 25" p8] st [of "gm_payload msg" "n - 31" p9]
      st [of "gm_payload msg" "n - 25" p8] l
    by (simp_all add: n_def d_def p9_def)
  have o: "HDR_FLAG_OFS = 0" "HDR_SIZE_OFS = 2" "HDR_SIZE_OFS + 1 = 3" "HDR_SIZE_OFS + 2 = 4" "HDR_GATEWAY_OFS = 5"
    "HDR_TIMESTAMP_OFS = 11" "HDR_LEN + MSG_MTI_OFS = 17" "HDR_LEN + MSG_SRC_OFS = 19" "HDR_LEN + MSG_DST_OFS = 25"
    "HDR_LEN + MSG_ADR_PAYLOAD_OFS = 31" "HDR_LEN + MSG_GLOBAL_PAYLOAD_OFS = 25" "HDR_SIZE_END = 5"
    by (simp_all add: tcp_layout)
  have o': "2 + 1 = (3 :: nat)" "2 + 2 = (4 :: nat)" by simp_all
  have fin: "tcp_frame msg gw sq = (if get_mti_address (gm_mti msg) then p9 else p8) @ gm_payload msg"
    unfolding tcp_frame_def body size_bytes_def Let_def p1_def p2_def p3_def p4_def p5_def p6_def p7_def p8_def p9_def
    unfolding tcp_body_def by simp
  show ?thesis
    unfolding render_tcp_message_def Let_def len node_id_bytes o length_replicate p1_def [symmetric]
    by (simp only: r c bind.bind_lunit e fin o' if_True if_False split: if_split) (simp add: e)
qed

lemma size_value:
  assumes "n < 2 ^ 24"
  defines "b \<equiv> size_bytes n"
  shows "sint ((push_bit 8 (push_bit 8 (ucast (b ! 0) :: u32) OR ucast (b ! 1)) OR ucast (b ! 2)) + of_nat HDR_SIZE_END) = int n + 5"
proof -
  let ?sz = "of_nat n :: u32"
  have u: "unat ?sz = n" using assms(1) by (simp only: unat_of_nat) (simp add: take_bit_nat_eq_self_iff)
  have "take_bit 24 n = n" using assms(1) by (simp add: take_bit_nat_eq_self_iff)
  then have hi: "bit n i \<Longrightarrow> i < 24" for i by (metis bit_take_bit_iff)
  have m: "(0xff :: u32) = mask 8" by (simp add: mask_eq_exp_minus_1)
  have "push_bit 8 (push_bit 8 (ucast (b ! 0) :: u32) OR ucast (b ! 1)) OR ucast (b ! 2) = ?sz"
    unfolding b_def size_bytes_def Let_def m
    by (rule bit_word_eqI, rename_tac i, case_tac "i < 16") (auto simp: bit_simps dest: hi)
  moreover have "sint (?sz + 5) = int n + 5"
  proof -
    have "sint (of_nat (n + 5) :: u32) = int (n + 5)"
      using assms(1) by (simp only: signed_of_nat) (simp add: signed_take_bit_int_eq_self_iff)
    then show ?thesis by (simp add: ac_simps)
  qed
  ultimately show ?thesis by (simp add: tcp_layout)
qed

lemma frame_len:
  assumes "length (tcp_frame m gw sq) < 2 ^ 24"
  shows "5 \<le> len \<Longrightarrow> get_tcp_message_len (tcp_frame m gw sq @ rest) len = Some (int (length (tcp_frame m gw sq)))"
proof -
  let ?n = "12 + length (tcp_body m)"
  have n: "length (tcp_frame m gw sq) = ?n + 5" by (simp add: tcp_frame_def)
  have "array_get (tcp_frame m gw sq @ rest) (2 + i) = Some (size_bytes ?n ! i)" if "i < 3" for i
    using that by (simp add: array_get_def tcp_frame_def nth_append)
  from this [of 0] this [of 1] this [of 2] show ?thesis if "5 \<le> len"
    using that size_value [of ?n] assms unfolding n
    by (simp add: get_tcp_message_len_def Let_def) (simp add: tcp_layout)
qed

subsection \<open>Parsing what was rendered\<close>

lemma header_drop:
  "drop 17 (tcp_frame m gw sq @ rest) = tcp_body m @ rest"
  by (simp add: tcp_frame_def)

lemma parse_frame:
  assumes "length (tcp_frame m gw sq) < 2 ^ 24"
  shows "parse_tcp_message big (tcp_frame m gw sq @ rest) =
    Some (Some (gm_clear\<lparr>gm_mti := gm_mti m,
      gm_src := \<lparr>nh_id = take_bit 48 (nh_id (gm_src m)), nh_alias = 0\<rparr>,
      gm_dst := \<lparr>nh_id = (if get_mti_address (gm_mti m) then take_bit 48 (nh_id (gm_dst m)) else 0), nh_alias = 0\<rparr>,
      gm_payload := gm_payload m\<rparr>))"
proof -
  let ?f = "tcp_frame m gw sq @ rest"
  let ?n = "length (tcp_frame m gw sq)"
  have n: "?n = 17 + length (tcp_body m)" by (simp add: tcp_frame_def)
  have l: "get_tcp_message_len ?f (length ?f) = Some (int ?n)"
    using frame_len [OF assms] n by simp
  have fl: "data_to_error ?f = Some FLAGS_OPENLCB_MSG" by (simp add: tcp_frame_def)
  have z: "FLAGS_OPENLCB_MSG AND FLAGS_OPENLCB_MSG \<noteq> 0" "FLAGS_OPENLCB_MSG AND FLAGS_CHAINING = 0"
    "FLAGS_OPENLCB_MSG AND FLAGS_FRAGMENT_NOT_FIRST = 0" "FLAGS_OPENLCB_MSG AND FLAGS_FRAGMENT_NOT_LAST = 0"
    by (simp_all add: FLAGS_OPENLCB_MSG_def FLAGS_CHAINING_def FLAGS_FRAGMENT_NOT_FIRST_def FLAGS_FRAGMENT_NOT_LAST_def)
  have h: "drop HDR_LEN ?f = tcp_body m @ rest" using header_drop by (simp add: HDR_LEN_def)
  have lb: "length (tcp_body m) = (if get_mti_address (gm_mti m) then 14 else 8) + length (gm_payload m)"
    by (simp add: tcp_body_def)
  have a: "data_to_error (drop MSG_MTI_OFS (tcp_body m @ rest)) = Some (gm_mti m)"
    "data_to_node_id big (drop MSG_SRC_OFS (tcp_body m @ rest)) = Some (take_bit 48 (nh_id (gm_src m)))"
    "get_mti_address (gm_mti m) \<Longrightarrow>
       data_to_node_id big (drop MSG_DST_OFS ((tcp_body m @ rest) @ [0])) = Some (take_bit 48 (nh_id (gm_dst m)))"
    "get_mti_address (gm_mti m) \<Longrightarrow> drop MSG_ADR_PAYLOAD_OFS (tcp_body m @ rest) = gm_payload m @ rest"
    "\<not> get_mti_address (gm_mti m) \<Longrightarrow> drop MSG_GLOBAL_PAYLOAD_OFS (tcp_body m @ rest) = gm_payload m @ rest"
    by (simp_all add: tcp_body_def MSG_MTI_OFS_def MSG_SRC_OFS_def MSG_DST_OFS_def MSG_ADR_PAYLOAD_OFS_def
        MSG_GLOBAL_PAYLOAD_OFS_def)
  have ok: "\<not> (int ?n > int (length ?f) \<or> int ?n < int MIN_MESSAGE_SIZE)"
    using n lb by (simp add: tcp_layout)
  show ?thesis
    unfolding parse_tcp_message_def l bind.bind_lunit if_not_P [OF ok] fl Let_def if_not_P [OF z(1)] h a(1,2)
    using n lb a(3,4,5) z
    by (simp add: gm_clear_def gm_reset_def nh_none_def) (auto simp: tcp_layout)
qed

text \<open>C25: A message sent over TCP arrives as it was: rendering never leaves the string, its length is
  the one that the receiver reads from the header, and parsing the bytes, whatever follows
  them, gives back the type, the 48-bit addresses and the payload, on hosts of either
  byte order, as long as the size fits the 24 bits of the header.\<close>

theorem tcp_message_roundtrip:
  assumes "length (gm_payload m) < 2 ^ 24 - 31"
  shows "\<exists>bytes. render_tcp_message big m gw sq = Some bytes \<and>
     get_tcp_message_len (bytes @ rest) (length (bytes @ rest)) = Some (int (length bytes)) \<and>
     parse_tcp_message big' (bytes @ rest) =
       Some (Some (gm_clear\<lparr>gm_mti := gm_mti m,
         gm_src := \<lparr>nh_id = take_bit 48 (nh_id (gm_src m)), nh_alias = 0\<rparr>,
         gm_dst := \<lparr>nh_id = (if get_mti_address (gm_mti m) then take_bit 48 (nh_id (gm_dst m)) else 0), nh_alias = 0\<rparr>,
         gm_payload := gm_payload m\<rparr>))"
proof -
  have "length (tcp_frame m gw sq) < 2 ^ 24" "5 \<le> length (tcp_frame m gw sq @ rest)"
    using assms by (simp_all add: tcp_frame_def tcp_body_def)
  then show ?thesis using render_frame [of big m gw sq] frame_len [of m gw sq _ rest] parse_frame [of m gw sq big' rest] by blast
qed

definition demo_message :: gen_message where
  "demo_message = gm_reset 0x0488 0x050101011801 \<lparr>nh_id = 0x050101011802, nh_alias = 0\<rparr> [5, 1, 1, 1, 0x18, 2]"

theorem tcp_message_roundtrip_witness:
  "\<exists>bytes. render_tcp_message False demo_message 7 9 = Some bytes \<and>
     map_option (map_option gm_payload) (parse_tcp_message True bytes) = Some (Some [5, 1, 1, 1, 0x18, 2])"
  using tcp_message_roundtrip [of demo_message False 7 9 "[]" True] by (auto simp: demo_message_def gm_reset_def)

lemma data_to_error_Some: "2 \<le> length p \<Longrightarrow> \<exists>e. data_to_error p = Some e"
  by (auto simp: data_to_error_def array_get_def)

lemma get_len_Some: "len \<le> length d \<Longrightarrow> \<exists>e. get_tcp_message_len d len = Some e"
  by (auto simp: get_tcp_message_len_def tcp_layout Let_def)

text \<open>C40: What a peer can do with a malformed message: parsing fails an assertion or reads behind the
  string exactly when a complete OpenLCB message has the chaining flag, or has an addressed
  type but is shorter than 30 bytes: the destination needs 31, of which the last may be the zero that ends
  a string. Every other input is parsed or refused.\<close>

theorem tcp_parse_faults_iff:
  "parse_tcp_message big src = None \<longleftrightarrow>
     (\<exists>e flags m. get_tcp_message_len src (length src) = Some e \<and> 25 \<le> e \<and> e \<le> int (length src) \<and>
        data_to_error src = Some flags \<and> flags AND FLAGS_OPENLCB_MSG \<noteq> 0 \<and>
        data_to_error (drop 17 src) = Some m \<and>
        (flags AND FLAGS_CHAINING \<noteq> 0 \<or> get_mti_address m \<and> length src < 30))"
proof -
  obtain e where e: "get_tcp_message_len src (length src) = Some e" using get_len_Some by blast
  show ?thesis
  proof (cases "25 \<le> e \<and> e \<le> int (length src)")
    case False
    then show ?thesis using e by (auto simp: parse_tcp_message_def tcp_layout)
  next
    case True
    then have l: "25 \<le> length src" by linarith
    obtain flags m where f: "data_to_error src = Some flags" "data_to_error (drop 17 src) = Some m"
      using data_to_error_Some [of src] data_to_error_Some [of "drop 17 src"] l by fastforce
    have s: "data_to_node_id big (drop (Suc (Suc 17)) src) = Some (node_id_of (take 6 (drop 19 src)))"
      using l by (simp add: data_to_node_id_eq)
    have d: "data_to_node_id big (drop 25 src @ [0]) =
        (if 30 \<le> length src then Some (node_id_of (take 6 (drop 25 src @ [0]))) else None)"
      by (auto simp: data_to_node_id_eq) (simp add: data_to_node_id_def)
    show ?thesis
      using True e f l s d
      by (auto simp: parse_tcp_message_def tcp_layout Let_def)
  qed
qed

theorem tcp_parse_faults_iff_witness:
  "parse_tcp_message False ([0x80, 0, 0, 0, 20] @ replicate 12 0 @ [0x04, 0x88] @ replicate 6 1) = None"
proof -
  let ?src = "[0x80, 0, 0, 0, 20] @ replicate 12 0 @ [0x04, 0x88] @ replicate 6 1 :: u8 list"
  have "get_tcp_message_len ?src (length ?src) = Some 25" by code_simp
  moreover have "data_to_error ?src = Some 0x8000" "data_to_error (drop 17 ?src) = Some 0x488" by code_simp+
  moreover have "(0x8000 :: u16) AND FLAGS_OPENLCB_MSG \<noteq> 0" "get_mti_address 0x488" by code_simp+
  moreover have "25 \<le> int (length ?src)" "length ?src < 30" by simp_all
  ultimately show ?thesis unfolding tcp_parse_faults_iff by auto
qed

end
