(* ===== verification/OlcbTcpStream.thy ===== *)
theory OlcbTcpStream
  imports OlcbTcp
begin

section \<open>Cutting a TCP stream into messages (openlcb/IfTcpImpl.hxx, FdToTcpParser)\<close>

text \<open>
  The states of the flow between two reads are one call of \<open>parse_loop\<close>; it returns the
  messages that were passed on. A read takes what the kernel has, at most the room behind
  \<open>bufEnd\<close>. Accesses outside of the buffer and a negative length to append are faults.
\<close>

definition READ_BUFFER_SIZE :: nat where "READ_BUFFER_SIZE = 300"

record tcp_parser =
  tp_buffer :: "u8 list"
  bufEnd :: nat
  bufOfs :: nat
  expectedLen :: int
  tp_msg :: "u8 list"

definition start_msg :: "tcp_parser \<Rightarrow> tcp_parser" where
  "start_msg s = s\<lparr>tp_msg := [], expectedLen := -1\<rparr>"

definition tcp_parser_new :: "u8 list \<Rightarrow> tcp_parser" where
  "tcp_parser_new buf = start_msg \<lparr>tp_buffer = buf, bufEnd = 0, bufOfs = 0, expectedLen = 0, tp_msg = []\<rparr>"

definition copy_bytes :: "tcp_parser \<Rightarrow> (tcp_parser \<times> bool) option" where
  "copy_bytes s =
     (let available = int (bufEnd s) - int (bufOfs s);
          needed = expectedLen s - int (length (tp_msg s));
          needed = (if needed > available then available else needed)
      in do {
        hassert (0 \<le> needed \<and> bufOfs s + nat needed \<le> length (tp_buffer s));
        let s = s\<lparr>tp_msg := tp_msg s @ take (nat needed) (drop (bufOfs s) (tp_buffer s)),
                 bufOfs := bufOfs s + nat needed\<rparr>;
        if int (length (tp_msg s)) \<ge> expectedLen s then Some (s, True)
        else do {
          hassert (bufOfs s \<ge> bufEnd s);
          Some (s, False)
        }
      })"

definition parse_bytes :: "tcp_parser \<Rightarrow> (tcp_parser \<times> bool) option" where
  "parse_bytes s =
     (if bufEnd s \<le> bufOfs s then Some (s, False)
      else let available = bufEnd s - bufOfs s in
        if expectedLen s < 0 then do {
          len \<leftarrow> get_tcp_message_len (drop (bufOfs s) (tp_buffer s)) available;
          let s = s\<lparr>expectedLen := len\<rparr>;
          if len < 0 then
            (if bufOfs s > READ_BUFFER_SIZE div 2 then do {
               hassert (bufOfs s + available \<le> length (tp_buffer s));
               Some (s\<lparr>tp_buffer := take available (drop (bufOfs s) (tp_buffer s)) @ drop available (tp_buffer s),
                       bufEnd := bufEnd s - bufOfs s, bufOfs := 0\<rparr>, False)
             } else Some (s, False))
          else copy_bytes s
        }
        else copy_bytes s)"

lemma copy_progress:
  assumes "copy_bytes s = Some (s', True)" "bufOfs s < bufEnd s"
  shows "bufEnd s' = bufEnd s" "bufOfs s \<le> bufOfs s'" "bufOfs s' \<le> bufEnd s"
    "int (length (tp_msg s)) < expectedLen s \<Longrightarrow> bufOfs s < bufOfs s'"
  using assms by (auto simp: copy_bytes_def Let_def split: if_splits)

definition len24 :: "u8 \<Rightarrow> u8 \<Rightarrow> u8 \<Rightarrow> nat" where
  "len24 s0 s1 s2 = 65536 * unat s0 + 256 * unat s1 + unat s2"

lemma push_or: "push_bit 8 x OR ucast b = x * 256 + (ucast (b :: u8) :: u32)"
proof -
  have "push_bit 8 x + ucast b = push_bit 8 x OR (ucast b :: u32)"
    by (rule disjunctive_add) (auto simp: bit_simps no_bit_8)
  then show ?thesis by (simp add: push_bit_eq_mult ac_simps)
qed

lemma len24_less: "len24 s0 s1 s2 < 2 ^ 24"
  using word8_lt_256 [of s0] word8_lt_256 [of s1] word8_lt_256 [of s2] by (simp add: len24_def del: word8_lt_256)

lemma get_len_eq:
  "get_tcp_message_len d n = (if n < 5 then Some (-1)
     else if 5 \<le> length d then Some (int (len24 (d ! 2) (d ! 3) (d ! 4)) + 5) else None)"
proof -
  have "sint ((push_bit 8 (push_bit 8 (ucast s0 :: u32) OR ucast s1) OR ucast s2) + 5) = int (len24 s0 s1 s2) + 5" for s0 s1 s2
  proof -
    have u: "(ucast (b :: u8) :: u32) = of_nat (unat b)" for b by simp
    have "(push_bit 8 (push_bit 8 (ucast s0 :: u32) OR ucast s1) OR ucast s2) + 5 = of_nat (len24 s0 s1 s2 + 5)"
      unfolding push_or unfolding u len24_def by (simp add: algebra_simps)
    moreover have "sint (of_nat (len24 s0 s1 s2 + 5) :: u32) = int (len24 s0 s1 s2 + 5)"
      using len24_less [of s0 s1 s2] by (simp only: signed_of_nat) (simp add: signed_take_bit_int_eq_self_iff)
    ultimately show ?thesis by simp
  qed
  then show ?thesis by (auto simp: get_tcp_message_len_def tcp_layout Let_def array_get_def split: Option.bind_splits)
qed

lemma get_len_pos: "get_tcp_message_len d n = Some e \<Longrightarrow> e < 0 \<or> 0 < e"
  by (auto simp: get_len_eq split: if_splits)

lemma parse_bytes_complete:
  assumes "parse_bytes s = Some (s', True)"
  shows "bufEnd s' = bufEnd s \<and> bufOfs s < bufEnd s \<and> bufOfs s \<le> bufOfs s' \<and>
    (tp_msg s = [] \<and> expectedLen s < 0 \<longrightarrow> bufOfs s < bufOfs s' \<and> bufOfs s' \<le> bufEnd s)"
proof (cases "expectedLen s < 0")
  case True
  with assms obtain len where l: "get_tcp_message_len (drop (bufOfs s) (tp_buffer s)) (bufEnd s - bufOfs s) = Some len"
    "0 \<le> len" "copy_bytes (s\<lparr>expectedLen := len\<rparr>) = Some (s', True)" "bufOfs s < bufEnd s"
    by (auto simp: parse_bytes_def Let_def split: if_splits Option.bind_splits)
  then show ?thesis using copy_progress [OF l(3)] get_len_pos [OF l(1)] by auto
next
  case False
  then have "copy_bytes s = Some (s', True)" "bufOfs s < bufEnd s"
    using assms by (auto simp: parse_bytes_def Let_def split: if_splits)
  then show ?thesis using copy_progress [of s s'] False by auto
qed

function parse_loop :: "tcp_parser \<Rightarrow> (tcp_parser \<times> u8 list list) option" where
  "parse_loop s = do {
     (s', complete) \<leftarrow> parse_bytes s;
     if complete then do {
       (s'', msgs) \<leftarrow> parse_loop (start_msg s');
       Some (s'', tp_msg s' # msgs)
     } else Some (s', [])
   }"
  by pat_completeness auto
termination
proof (relation "measure (\<lambda>s. 2 * (bufEnd s - bufOfs s) + (if tp_msg s = [] \<and> expectedLen s < 0 then 0 else 1))")
  fix s p s' complete
  assume "parse_bytes s = Some p" "(s', complete) = p" "complete"
  then have "parse_bytes s = Some (s', True)" by auto
  from parse_bytes_complete [OF this]
  show "(start_msg s', s) \<in> measure (\<lambda>s. 2 * (bufEnd s - bufOfs s) + (if tp_msg s = [] \<and> expectedLen s < 0 then 0 else 1))"
    by (auto simp: start_msg_def)
qed simp

declare parse_loop.simps [simp del]

definition read_more_bytes :: "tcp_parser \<Rightarrow> tcp_parser" where
  "read_more_bytes s = (if bufEnd s \<le> bufOfs s then s\<lparr>bufOfs := 0, bufEnd := 0\<rparr> else s)"

definition read_room :: "tcp_parser \<Rightarrow> nat" where
  "read_room s = READ_BUFFER_SIZE - bufEnd s"

definition read_done :: "u8 list \<Rightarrow> tcp_parser \<Rightarrow> (tcp_parser \<times> u8 list list) option" where
  "read_done bytes s = do {
     hassert (bufEnd s + length bytes \<le> length (tp_buffer s));
     let s = s\<lparr>tp_buffer := take (bufEnd s) (tp_buffer s) @ bytes @ drop (bufEnd s + length bytes) (tp_buffer s)\<rparr>;
     let remaining = READ_BUFFER_SIZE - bufEnd s - length bytes;
     parse_loop (s\<lparr>bufEnd := READ_BUFFER_SIZE - remaining\<rparr>)
   }"

subsection \<open>The messages of a stream\<close>

definition message_len :: "u8 list \<Rightarrow> nat" where
  "message_len xs = 5 + len24 (xs ! 2) (xs ! 3) (xs ! 4)"

function split_stream :: "u8 list \<Rightarrow> u8 list list \<times> u8 list" where
  "split_stream xs =
     (if length xs < 5 \<or> length xs < message_len xs then ([], xs)
      else let (ms, r) = split_stream (drop (message_len xs) xs) in (take (message_len xs) xs # ms, r))"
  by pat_completeness auto
termination
  by (relation "measure length") (auto simp: message_len_def)

declare split_stream.simps [simp del]

definition unread :: "tcp_parser \<Rightarrow> u8 list" where
  "unread s = take (bufEnd s - bufOfs s) (drop (bufOfs s) (tp_buffer s))"

definition buffer_ok :: "tcp_parser \<Rightarrow> bool" where
  "buffer_ok s \<longleftrightarrow> length (tp_buffer s) = READ_BUFFER_SIZE \<and> bufOfs s \<le> bufEnd s \<and> bufEnd s \<le> READ_BUFFER_SIZE"

definition in_message :: "tcp_parser \<Rightarrow> u8 list \<Rightarrow> bool" where
  "in_message s pend \<longleftrightarrow> pend = tp_msg s @ unread s \<and> 5 \<le> length pend \<and>
     expectedLen s = int (message_len pend) \<and> length (tp_msg s) < message_len pend"

definition parser_inv :: "tcp_parser \<Rightarrow> u8 list \<Rightarrow> bool" where
  "parser_inv s pend \<longleftrightarrow> buffer_ok s \<and>
     (expectedLen s = -1 \<and> tp_msg s = [] \<and> pend = unread s \<or> in_message s pend)"

lemma length_unread: "buffer_ok s \<Longrightarrow> length (unread s) = bufEnd s - bufOfs s"
  by (auto simp: buffer_ok_def unread_def min_def)

lemma copy_bytes_eq:
  assumes "buffer_ok s" "bufOfs s < bufEnd s" "in_message s pend"
  shows "if message_len pend \<le> length pend
     then \<exists>s'. copy_bytes s = Some (s', True) \<and> tp_msg s' = take (message_len pend) pend \<and>
        parser_inv (start_msg s') (drop (message_len pend) pend)
     else \<exists>s'. copy_bytes s = Some (s', False) \<and> parser_inv s' pend \<and> bufOfs s' = bufEnd s'"
proof -
  define L where "L = message_len pend"
  let ?m = "length (tp_msg s)" and ?a = "bufEnd s - bufOfs s"
  have p: "pend = tp_msg s @ unread s" "5 \<le> length pend" "expectedLen s = int L" "?m < L"
    using assms(3) unfolding in_message_def L_def by blast+
  have lp: "length pend = ?m + ?a" using p(1) length_unread [OF assms(1)] by simp
  show ?thesis
  proof (cases "L \<le> length pend")
    case True
    let ?s = "s\<lparr>tp_msg := tp_msg s @ take (L - ?m) (drop (bufOfs s) (tp_buffer s)), bufOfs := bufOfs s + (L - ?m)\<rparr>"
    have k: "L - ?m \<le> ?a" using True lp p(4) by linarith
    have t: "take (L - ?m) (drop (bufOfs s) (tp_buffer s)) = take (L - ?m) (unread s)"
      using k by (simp add: unread_def min_def)
    have "copy_bytes s = Some (?s, True)"
      using k p(3,4) assms(1,2) by (auto simp: copy_bytes_def Let_def buffer_ok_def nat_diff_distrib)
    moreover have "tp_msg ?s = take L pend" using p(4) by (simp add: t p(1))
    moreover have "unread ?s = drop L pend"
      using k p(4) by (simp add: unread_def p(1) drop_take ac_simps)
    moreover have "buffer_ok ?s" using assms(1,2) k by (auto simp: buffer_ok_def)
    ultimately show ?thesis using True unfolding L_def by (auto simp: parser_inv_def start_msg_def buffer_ok_def unread_def)
  next
    case False
    let ?s = "s\<lparr>tp_msg := tp_msg s @ take ?a (drop (bufOfs s) (tp_buffer s)), bufOfs := bufOfs s + ?a\<rparr>"
    have k: "?a < L - ?m" using False lp by linarith
    have "copy_bytes s = Some (?s, False)"
      using k p(3,4) assms(1,2) by (auto simp: copy_bytes_def Let_def buffer_ok_def nat_diff_distrib of_nat_diff)
    moreover have "tp_msg ?s = pend" by (simp add: p(1) unread_def)
    moreover have "unread ?s = []" using assms(2) by (simp add: unread_def)
    moreover have "buffer_ok ?s" "bufOfs ?s = bufEnd ?s" using assms(1,2) by (auto simp: buffer_ok_def)
    ultimately show ?thesis using False p(2,3) unfolding L_def by (auto simp: parser_inv_def in_message_def)
  qed
qed

definition has_room :: "tcp_parser \<Rightarrow> bool" where
  "has_room s \<longleftrightarrow> bufEnd s \<le> bufOfs s \<or> bufEnd s < READ_BUFFER_SIZE"

definition no_message :: "u8 list \<Rightarrow> bool" where
  "no_message xs \<longleftrightarrow> length xs < 5 \<or> length xs < message_len xs"

lemma short_prefix:
  assumes "parser_inv s pend" "expectedLen s = -1" "bufOfs s < bufEnd s" "length (unread s) < 5"
  shows "\<exists>s'. parse_bytes s = Some (s', False) \<and> parser_inv s' pend \<and> has_room s'"
proof -
  have b: "buffer_ok s" "tp_msg s = []" "pend = unread s"
    using assms(1,2) by (auto simp: parser_inv_def in_message_def)
  have a: "bufEnd s - bufOfs s < 5" using assms(4) length_unread [OF b(1)] by simp
  have l: "get_tcp_message_len (drop (bufOfs s) (tp_buffer s)) (bufEnd s - bufOfs s) = Some (-1)"
    using a by (simp add: get_len_eq)
  show ?thesis
  proof (cases "bufOfs s > READ_BUFFER_SIZE div 2")
    case True
    define s' where "s' = s\<lparr>expectedLen := -1, tp_buffer := take (bufEnd s - bufOfs s) (drop (bufOfs s) (tp_buffer s)) @
      drop (bufEnd s - bufOfs s) (tp_buffer s), bufEnd := bufEnd s - bufOfs s, bufOfs := 0\<rparr>"
    have "parse_bytes s = Some (s', False)"
      using assms(2,3) b(1) l True by (simp add: parse_bytes_def Let_def s'_def buffer_ok_def)
    moreover have "unread s' = unread s" "buffer_ok s'" "has_room s'"
      using b(1) a assms(3) by (auto simp: s'_def unread_def buffer_ok_def has_room_def READ_BUFFER_SIZE_def min_def)
    ultimately show ?thesis using b by (auto simp: parser_inv_def s'_def)
  next
    case False
    have "parse_bytes s = Some (s\<lparr>expectedLen := -1\<rparr>, False)"
      using assms(2,3) l False by (simp add: parse_bytes_def Let_def)
    moreover have "s\<lparr>expectedLen := -1\<rparr> = s" using assms(2) by simp
    moreover have "has_room s" using False a by (auto simp: has_room_def READ_BUFFER_SIZE_def)
    ultimately show ?thesis using assms(1) by auto
  qed
qed

lemma parse_bytes_eq:
  assumes "parser_inv s pend"
  shows "if no_message pend
     then \<exists>s'. parse_bytes s = Some (s', False) \<and> parser_inv s' pend \<and> has_room s'
     else \<exists>s'. parse_bytes s = Some (s', True) \<and> tp_msg s' = take (message_len pend) pend \<and>
        parser_inv (start_msg s') (drop (message_len pend) pend)"
proof (cases "bufEnd s \<le> bufOfs s")
  case True
  then have "unread s = []" by (simp add: unread_def)
  then have "no_message pend" using assms by (auto simp: parser_inv_def in_message_def no_message_def)
  moreover have "parse_bytes s = Some (s, False)" using True by (simp add: parse_bytes_def)
  ultimately show ?thesis using assms True by (auto simp: has_room_def)
next
  case False
  then have lt: "bufOfs s < bufEnd s" by simp
  have b: "buffer_ok s" using assms by (simp add: parser_inv_def)
  show ?thesis
  proof (cases "in_message s pend")
    case True
    then have "\<not> expectedLen s < 0" by (simp add: in_message_def)
    then have "parse_bytes s = copy_bytes s" using False by (simp add: parse_bytes_def Let_def)
    then show ?thesis using copy_bytes_eq [OF b lt True] True
      by (auto simp: no_message_def in_message_def has_room_def split: if_splits)
  next
    case new: False
    then have e: "expectedLen s = -1" "tp_msg s = []" "pend = unread s"
      using assms by (auto simp: parser_inv_def)
    show ?thesis
    proof (cases "length (unread s) < 5")
      case True
      then show ?thesis using short_prefix [OF assms e(1) lt] e(3) by (simp add: no_message_def)
    next
      case long: False
      have a: "5 \<le> bufEnd s - bufOfs s" "5 \<le> length (drop (bufOfs s) (tp_buffer s))"
        using long length_unread [OF b] b by (auto simp: buffer_ok_def)
      have "drop (bufOfs s) (tp_buffer s) ! i = pend ! i" if "i < 5" for i
        using that a(1) b by (simp add: e(3) unread_def)
      from this [of 2] this [of 3] this [of 4] have l: "get_tcp_message_len (drop (bufOfs s) (tp_buffer s)) (bufEnd s - bufOfs s) = Some (int (message_len pend))"
        using a by (simp add: get_len_eq message_len_def del: nth_drop)
      define t where "t = s\<lparr>expectedLen := int (message_len pend)\<rparr>"
      have "parse_bytes s = copy_bytes t"
        using lt e(1) l by (simp add: parse_bytes_def Let_def t_def)
      moreover have t: "buffer_ok t" "bufOfs t < bufEnd t" "unread t = unread s"
        using b lt by (auto simp: t_def buffer_ok_def unread_def)
      have "in_message t pend" using t(3) e(2,3) long by (auto simp: in_message_def t_def message_len_def unread_def)
      note copy_bytes_eq [OF t(1,2) this]
      ultimately show ?thesis using long e(3)
        by (auto simp: no_message_def has_room_def split: if_splits)
    qed
  qed
qed

lemma parse_loop_refines:
  "parser_inv s pend \<Longrightarrow> \<exists>s'. parse_loop s = Some (s', fst (split_stream pend)) \<and>
     parser_inv s' (snd (split_stream pend)) \<and> has_room s'"
proof (induction s arbitrary: pend rule: parse_loop.induct)
  case (1 s)
  show ?case
  proof (cases "no_message pend")
    case True
    then show ?thesis using parse_bytes_eq [OF "1.prems"]
      by (subst parse_loop.simps) (auto simp: split_stream.simps [of pend] no_message_def)
  next
    case False
    then obtain s' where s': "parse_bytes s = Some (s', True)" "tp_msg s' = take (message_len pend) pend"
      "parser_inv (start_msg s') (drop (message_len pend) pend)"
      using parse_bytes_eq [OF "1.prems"] by auto
    from "1.IH" [OF s'(1) refl _ s'(3)] obtain s'' where
      "parse_loop (start_msg s') = Some (s'', fst (split_stream (drop (message_len pend) pend)))"
      "parser_inv s'' (snd (split_stream (drop (message_len pend) pend)))" "has_room s''" by auto
    then show ?thesis using s' False
      by (subst parse_loop.simps) (auto simp: split_stream.simps [of pend] no_message_def split_beta)
  qed
qed

lemma message_len_append: "5 \<le> length xs \<Longrightarrow> message_len (xs @ ys) = message_len xs"
  by (simp add: message_len_def nth_append)

lemma split_append:
  "split_stream (xs @ ys) =
     (fst (split_stream xs) @ fst (split_stream (snd (split_stream xs) @ ys)),
      snd (split_stream (snd (split_stream xs) @ ys)))"
proof (induction xs rule: split_stream.induct)
  case (1 xs)
  show ?case
  proof (cases "length xs < 5 \<or> length xs < message_len xs")
    case True
    then show ?thesis by (simp add: split_stream.simps [of xs])
  next
    case False
    then have "message_len (xs @ ys) = message_len xs" "message_len xs \<le> length xs" "5 \<le> length xs"
      using message_len_append by auto
    with 1 [OF False] False show ?thesis
      by (simp add: split_stream.simps [of xs] split_stream.simps [of "xs @ ys"] split_beta)
  qed
qed

subsection \<open>Reading with arbitrary boundaries\<close>

text \<open>The kernel delivers at most \<open>n\<close> bytes of the stream in a read, and never more than the room.\<close>

fun read_run :: "nat list \<Rightarrow> u8 list \<Rightarrow> tcp_parser \<Rightarrow> (tcp_parser \<times> u8 list list \<times> u8 list) option" where
  "read_run [] stream s = Some (s, [], stream)"
| "read_run (n # ns) stream s =
     (let s = read_more_bytes s; k = min n (read_room s)
      in do {
        (s, ms) \<leftarrow> read_done (take k stream) s;
        (s, ms', rest) \<leftarrow> read_run ns (drop k stream) s;
        Some (s, ms @ ms', rest)
      })"

lemma read_more_inv:
  assumes "parser_inv s pend" "has_room s"
  shows "parser_inv (read_more_bytes s) pend" "0 < read_room (read_more_bytes s)"
  using assms by (auto simp: parser_inv_def read_more_bytes_def buffer_ok_def in_message_def unread_def has_room_def
      read_room_def READ_BUFFER_SIZE_def)

lemma read_done_refines:
  assumes "parser_inv s pend" "length bytes \<le> read_room s"
  shows "\<exists>s'. read_done bytes s = Some (s', fst (split_stream (pend @ bytes))) \<and>
     parser_inv s' (snd (split_stream (pend @ bytes))) \<and> has_room s'"
proof -
  define t where "t = s\<lparr>tp_buffer := take (bufEnd s) (tp_buffer s) @ bytes @ drop (bufEnd s + length bytes) (tp_buffer s),
    bufEnd := bufEnd s + length bytes\<rparr>"
  have b: "buffer_ok s" "bufEnd s + length bytes \<le> READ_BUFFER_SIZE"
    using assms by (auto simp: parser_inv_def read_room_def buffer_ok_def)
  have u: "unread t = unread s @ bytes"
  proof -
    have m: "min READ_BUFFER_SIZE (bufEnd s) = bufEnd s" using b by (simp add: min_def)
    then show ?thesis using b by (simp add: unread_def t_def buffer_ok_def drop_take)
  qed
  have bt: "buffer_ok t" using b by (auto simp: t_def buffer_ok_def min_def)
  have "parser_inv t (pend @ bytes)"
    using assms(1) u bt message_len_append [of pend bytes]
    by (auto simp: parser_inv_def in_message_def) (auto simp: t_def)
  moreover have "read_done bytes s = parse_loop t"
    using b by (simp add: read_done_def Let_def t_def buffer_ok_def)
  ultimately show ?thesis using parse_loop_refines by simp
qed

lemma split_no_message: "no_message xs \<Longrightarrow> split_stream xs = ([], xs)"
  by (simp add: split_stream.simps [of xs] no_message_def)

lemma split_rest: "no_message (snd (split_stream xs))"
proof (induction xs rule: split_stream.induct)
  case (1 xs)
  then show ?case by (cases "no_message xs") (auto simp: split_stream.simps [of xs] no_message_def split_beta)
qed

lemma read_run_refines:
  assumes "parser_inv s pend" "has_room s" "no_message pend"
  shows "\<exists>s' consumed rest. read_run ns stream s = Some (s', fst (split_stream (pend @ consumed)), rest) \<and>
     stream = consumed @ rest \<and> parser_inv s' (snd (split_stream (pend @ consumed))) \<and> has_room s'"
  using assms
proof (induction ns arbitrary: s pend stream)
  case Nil
  then show ?case using split_no_message [of pend] by auto
next
  case (Cons n ns)
  let ?s = "read_more_bytes s"
  define k where "k = min n (read_room ?s)"
  have "length (take k stream) \<le> read_room ?s" by (simp add: k_def)
  from read_done_refines [OF read_more_inv(1) [OF Cons.prems(1,2)] this] obtain t where
    t: "read_done (take k stream) ?s = Some (t, fst (split_stream (pend @ take k stream)))"
    "parser_inv t (snd (split_stream (pend @ take k stream)))" "has_room t" by blast
  from Cons.IH [OF t(2,3) split_rest, of "drop k stream"] obtain s' consumed rest where
    r: "read_run ns (drop k stream) t =
        Some (s', fst (split_stream (snd (split_stream (pend @ take k stream)) @ consumed)), rest)"
    "drop k stream = consumed @ rest"
    "parser_inv s' (snd (split_stream (snd (split_stream (pend @ take k stream)) @ consumed)))" "has_room s'" by blast
  have "read_run (n # ns) stream s = Some (s', fst (split_stream (pend @ take k stream @ consumed)), rest)"
    using t(1) r(1) split_append [of "pend @ take k stream" consumed] by (simp add: Let_def flip: k_def)
  moreover have "stream = (take k stream @ consumed) @ rest" using r(2) by (metis append.assoc append_take_drop_id)
  moreover have "parser_inv s' (snd (split_stream (pend @ take k stream @ consumed)))"
    using r(3) split_append [of "pend @ take k stream" consumed] by simp
  ultimately show ?case using r(4) by blast
qed

lemma parser_new_inv: "length buf = READ_BUFFER_SIZE \<Longrightarrow> parser_inv (tcp_parser_new buf) [] \<and> has_room (tcp_parser_new buf)"
  by (simp add: parser_inv_def tcp_parser_new_def start_msg_def buffer_ok_def unread_def has_room_def)

definition rendered :: "u8 list list \<Rightarrow> bool" where
  "rendered frames \<longleftrightarrow> list_all (\<lambda>f. \<exists>m gw sq. f = tcp_frame m gw sq \<and> length (gm_payload m) < 2 ^ 24 - 31) frames"

lemma split_frames:
  assumes "rendered frames"
  shows "split_stream (concat frames) = (frames, [])"
  using assms unfolding rendered_def
proof (induction frames)
  case (Cons f frames)
  then obtain m gw sq where f: "f = tcp_frame m gw sq" "length (gm_payload m) < 2 ^ 24 - 31" by auto
  let ?xs = "f @ concat frames"
  have "length f < 2 ^ 24" "5 \<le> length f" using f by (simp_all add: tcp_frame_def tcp_body_def)
  then have "get_tcp_message_len ?xs (length ?xs) = Some (int (length f))"
    using frame_len [of m gw sq "length ?xs" "concat frames"] f(1) by simp
  then have "message_len ?xs = length f"
    using \<open>5 \<le> length f\<close> by (simp add: get_len_eq message_len_def split: if_splits)
  then show ?case using Cons \<open>5 \<le> length f\<close> by (subst split_stream.simps) simp
qed (simp add: split_stream.simps)

text \<open>C20: However the bytes of a connection are cut into reads, the messages passed on are exactly the
  messages of the byte stream: no access leaves the buffer, every read has room for at
  least one byte, and the parser ends with the unfinished rest. A stream of messages that
  were rendered for TCP, once read completely, gives exactly these messages in order.\<close>

theorem tcp_stream_messages:
  assumes "length buf = READ_BUFFER_SIZE"
  shows "\<exists>s' consumed rest. read_run ns stream (tcp_parser_new buf) = Some (s', fst (split_stream consumed), rest) \<and>
     stream = consumed @ rest \<and> 0 < read_room (read_more_bytes s') \<and>
     parser_inv s' (snd (split_stream consumed)) \<and>
     (rest = [] \<and> stream = concat frames \<and>
      rendered frames
        \<longrightarrow> fst (split_stream consumed) = frames)"
proof -
  obtain s' consumed rest where "read_run ns stream (tcp_parser_new buf) = Some (s', fst (split_stream consumed), rest)"
    "stream = consumed @ rest" "parser_inv s' (snd (split_stream consumed))" "has_room s'"
    using read_run_refines [of "tcp_parser_new buf" "[]" ns stream] parser_new_inv [OF assms]
    by (auto simp: no_message_def)
  moreover from this(3,4) have "0 < read_room (read_more_bytes s')" by (rule read_more_inv(2))
  moreover have "fst (split_stream (concat frames)) = frames"
    if "rendered frames"
    by (simp only: split_frames [OF that] fst_conv)
  moreover have "fst (split_stream consumed) = frames" if "rest = [] \<and> stream = concat frames \<and>
      rendered frames"
  proof -
    from that have r: "rest = []" "stream = concat frames" "rendered frames" by blast+
    then have "consumed = concat frames" using \<open>stream = consumed @ rest\<close> by (simp only: append_Nil2)
    then show ?thesis by (simp only: split_frames [OF r(3)] fst_conv)
  qed
  ultimately show ?thesis by blast
qed

definition demo_frames :: "u8 list list" where
  "demo_frames = [tcp_frame demo_message 7 9, tcp_frame (gm_reset 0x5B4 0x050101011801 nh_none [1, 2, 3, 4, 5, 6, 7, 8]) 7 10]"

lemma demo_reads: "map_option (snd \<circ> snd) (read_run [3, 40, 500] (concat demo_frames) (tcp_parser_new (replicate 300 0))) = Some []"
  by code_simp

theorem tcp_stream_messages_witness:
  "\<exists>s'. read_run [3, 40, 500] (concat demo_frames) (tcp_parser_new (replicate 300 0)) = Some (s', demo_frames, [])"
proof -
  have l: "length (replicate 300 0 :: u8 list) = READ_BUFFER_SIZE" by (simp add: READ_BUFFER_SIZE_def)
  have f: "rendered demo_frames"
  proof -
    have "length (gm_payload demo_message) < 2 ^ 24 - 31"
      "length (gm_payload (gm_reset 0x5B4 0x050101011801 nh_none [1, 2, 3, 4, 5, 6, 7, 8])) < 2 ^ 24 - 31"
      by (simp_all add: demo_message_def gm_reset_def)
    then show ?thesis unfolding rendered_def demo_frames_def by (simp only: list.pred_inject) blast
  qed
  from tcp_stream_messages [OF l, of "[3, 40, 500]" "concat demo_frames" demo_frames] obtain s' consumed rest where
    "read_run [3, 40, 500] (concat demo_frames) (tcp_parser_new (replicate 300 0)) = Some (s', fst (split_stream consumed), rest)"
    "rest = [] \<Longrightarrow> fst (split_stream consumed) = demo_frames"
    using f by blast
  moreover from this(1) demo_reads have "rest = []" by simp
  ultimately show ?thesis by simp
qed

end
