(* ===== verification/CanDefs.thy ===== *)
theory CanDefs
  imports OlcbDefs CanFrame
begin

section \<open>Fields of the CAN identifier (openlcb/CanDefs.hxx, openlcb/CanDefs.cpp)\<close>

text \<open>
  The getters and setters of the 29-bit identifier. The enumerations for frame type, message
  kind and priority are the numbers they have in the code. A setter gives the changed
  identifier back.
\<close>

definition SRC_MASK :: u32 where "SRC_MASK = 0x00000fff"
definition MTI_MASK :: u32 where "MTI_MASK = 0x00fff000"
definition DST_MASK :: u32 where "DST_MASK = 0x00fff000"
definition CAN_FRAME_TYPE_MASK :: u32 where "CAN_FRAME_TYPE_MASK = 0x07000000"
definition FRAME_TYPE_MASK :: u32 where "FRAME_TYPE_MASK = 0x08000000"
definition PRIORITY_MASK :: u32 where "PRIORITY_MASK = 0x10000000"
definition CONTROL_FIELD_MASK :: u32 where "CONTROL_FIELD_MASK = 0x07fff000"

lemmas can_masks = SRC_MASK_def MTI_MASK_def DST_MASK_def CAN_FRAME_TYPE_MASK_def FRAME_TYPE_MASK_def
  PRIORITY_MASK_def CONTROL_FIELD_MASK_def

definition GLOBAL_ADDRESSED :: u32 where "GLOBAL_ADDRESSED = 1"
definition DATAGRAM_ONE_FRAME :: u32 where "DATAGRAM_ONE_FRAME = 2"
definition DATAGRAM_FIRST_FRAME :: u32 where "DATAGRAM_FIRST_FRAME = 3"
definition DATAGRAM_MIDDLE_FRAME :: u32 where "DATAGRAM_MIDDLE_FRAME = 4"
definition DATAGRAM_FINAL_FRAME :: u32 where "DATAGRAM_FINAL_FRAME = 5"
definition STREAM_DATA :: u32 where "STREAM_DATA = 7"
definition CONTROL_MSG :: u32 where "CONTROL_MSG = 0"
definition NMRANET_MSG :: u32 where "NMRANET_MSG = 1"
definition HIGH_PRIORITY :: u32 where "HIGH_PRIORITY = 0"
definition NORMAL_PRIORITY :: u32 where "NORMAL_PRIORITY = 1"
definition RID_FRAME :: u16 where "RID_FRAME = 0x0700"
definition AMD_FRAME :: u16 where "AMD_FRAME = 0x0701"
definition AME_FRAME :: u16 where "AME_FRAME = 0x0702"
definition AMR_FRAME :: u16 where "AMR_FRAME = 0x0703"
definition NOT_FIRST_FRAME :: u8 where "NOT_FIRST_FRAME = 0x20"
definition NOT_LAST_FRAME :: u8 where "NOT_LAST_FRAME = 0x10"
definition RESERVED_ALIAS_NODE_BITS :: node_id where "RESERVED_ALIAS_NODE_BITS = 0xF000"
definition RESERVED_ALIAS_NODE_MASK :: node_id where "RESERVED_ALIAS_NODE_MASK = 0xFFFFFFFFF000"

lemmas can_types = GLOBAL_ADDRESSED_def DATAGRAM_ONE_FRAME_def DATAGRAM_FIRST_FRAME_def DATAGRAM_MIDDLE_FRAME_def
  DATAGRAM_FINAL_FRAME_def STREAM_DATA_def CONTROL_MSG_def NMRANET_MSG_def HIGH_PRIORITY_def NORMAL_PRIORITY_def
lemmas control_fields = RID_FRAME_def AMD_FRAME_def AME_FRAME_def AMR_FRAME_def

definition get_src :: "u32 \<Rightarrow> node_alias" where
  "get_src cid = ucast (cid AND SRC_MASK)"

definition get_mti :: "u32 \<Rightarrow> mti" where
  "get_mti cid = ucast (drop_bit 12 (cid AND MTI_MASK))"

definition get_dst :: "u32 \<Rightarrow> node_alias" where
  "get_dst cid = ucast (drop_bit 12 (cid AND DST_MASK))"

definition get_can_frame_type :: "u32 \<Rightarrow> u32" where
  "get_can_frame_type cid = drop_bit 24 (cid AND CAN_FRAME_TYPE_MASK)"

definition get_frame_type :: "u32 \<Rightarrow> u32" where
  "get_frame_type cid = drop_bit 27 (cid AND FRAME_TYPE_MASK)"

definition get_priority :: "u32 \<Rightarrow> u32" where
  "get_priority cid = drop_bit 28 (cid AND PRIORITY_MASK)"

definition is_cid_frame :: "u32 \<Rightarrow> bool" where
  "is_cid_frame cid \<longleftrightarrow> drop_bit 24 cid AND 0x1C = 0x14"

definition is_stream_frame :: "u32 \<Rightarrow> bool" where
  "is_stream_frame cid \<longleftrightarrow> drop_bit 24 cid AND 0xF = 0xF"

definition set_mti :: "mti \<Rightarrow> u32 \<Rightarrow> u32" where
  "set_mti m cid = (cid AND NOT MTI_MASK) OR push_bit 12 (ucast m)"

definition set_src :: "node_alias \<Rightarrow> u32 \<Rightarrow> u32" where
  "set_src src cid = (cid AND NOT SRC_MASK) OR ucast src"

definition set_dst :: "node_alias \<Rightarrow> u32 \<Rightarrow> u32" where
  "set_dst dst cid = (cid AND NOT DST_MASK) OR push_bit 12 (ucast dst)"

definition set_can_frame_type :: "u32 \<Rightarrow> u32 \<Rightarrow> u32" where
  "set_can_frame_type ty cid = (cid AND NOT CAN_FRAME_TYPE_MASK) OR push_bit 24 ty"

definition set_frame_type :: "u32 \<Rightarrow> u32 \<Rightarrow> u32" where
  "set_frame_type ty cid = (cid AND NOT FRAME_TYPE_MASK) OR push_bit 27 ty"

definition set_priority :: "u32 \<Rightarrow> u32 \<Rightarrow> u32" where
  "set_priority p cid = (cid AND NOT PRIORITY_MASK) OR push_bit 28 p"

definition set_fields :: "node_alias \<Rightarrow> mti \<Rightarrow> u32 \<Rightarrow> u32 \<Rightarrow> u32 \<Rightarrow> u32" where
  "set_fields src m can_type ty prio =
     ucast src + push_bit 12 (ucast m) + push_bit 24 can_type + push_bit 27 ty + push_bit 28 prio"

definition set_datagram_fields :: "node_alias \<Rightarrow> node_alias \<Rightarrow> u32 \<Rightarrow> u32" where
  "set_datagram_fields src dst can_type =
     ucast src + push_bit 12 (ucast dst) + push_bit 24 can_type + push_bit 27 NMRANET_MSG + push_bit 28 NORMAL_PRIORITY"

definition nmranet_mti :: "u32 \<Rightarrow> mti" where
  "nmranet_mti cid =
     (let ty = get_can_frame_type cid in
      if ty = GLOBAL_ADDRESSED then get_mti cid
      else if ty = DATAGRAM_ONE_FRAME \<or> ty = DATAGRAM_FIRST_FRAME \<or> ty = DATAGRAM_MIDDLE_FRAME \<or>
              ty = DATAGRAM_FINAL_FRAME then MTI_DATAGRAM
      else if ty = STREAM_DATA then MTI_STREAM_DATA
      else MTI_NONE)"

definition can_identifier :: "mti \<Rightarrow> node_alias \<Rightarrow> u32" where
  "can_identifier m src =
     (ucast src AND SRC_MASK) + (push_bit 12 (ucast m) AND MTI_MASK) + push_bit 24 1 + push_bit 27 1 + push_bit 28 1"

definition get_control_field :: "u32 \<Rightarrow> u16" where
  "get_control_field cid = ucast (drop_bit 12 (cid AND CONTROL_FIELD_MASK))"

definition set_control_fields :: "node_alias \<Rightarrow> u16 \<Rightarrow> u32 \<Rightarrow> u32" where
  "set_control_fields src field seq =
     ucast src OR push_bit 12 (ucast field) OR push_bit 24 seq OR push_bit 27 0 OR push_bit 28 1"

definition control_init :: "can_frame \<Rightarrow> node_alias \<Rightarrow> u16 \<Rightarrow> u32 \<Rightarrow> can_frame" where
  "control_init frame src field seq =
     (SET_CAN_FRAME_ID_EFF frame (set_control_fields src field seq))\<lparr>can_dlc := 0\<rparr>"

definition get_reserved_alias_node_id :: "node_alias \<Rightarrow> node_id" where
  "get_reserved_alias_node_id a = RESERVED_ALIAS_NODE_BITS OR ucast a"

definition is_reserved_alias_node_id :: "node_id \<Rightarrow> bool" where
  "is_reserved_alias_node_id i \<longleftrightarrow> i AND RESERVED_ALIAS_NODE_MASK = RESERVED_ALIAS_NODE_BITS"

subsection \<open>Which bits the fields are\<close>

lemma masks_shifted: "SRC_MASK = mask 12" "MTI_MASK = push_bit 12 (mask 12)" "DST_MASK = push_bit 12 (mask 12)"
  "CAN_FRAME_TYPE_MASK = push_bit 24 (mask 3)" "FRAME_TYPE_MASK = push_bit 27 (mask 1)"
  "PRIORITY_MASK = push_bit 28 (mask 1)" "CONTROL_FIELD_MASK = push_bit 12 (mask 15)"
  by (simp_all add: can_masks mask_eq_exp_minus_1)

lemmas getters = get_src_def get_mti_def get_dst_def get_can_frame_type_def get_frame_type_def get_priority_def
  get_control_field_def

lemma bit_getters:
  "bit (get_src c) i \<longleftrightarrow> i < 12 \<and> bit c i"
  "bit (get_mti c) i \<longleftrightarrow> i < 12 \<and> bit c (12 + i)"
  "bit (get_dst c) i \<longleftrightarrow> i < 12 \<and> bit c (12 + i)"
  "bit (get_can_frame_type c) i \<longleftrightarrow> i < 3 \<and> bit c (24 + i)"
  "bit (get_frame_type c) i \<longleftrightarrow> i < 1 \<and> bit c (27 + i)"
  "bit (get_priority c) i \<longleftrightarrow> i < 1 \<and> bit c (28 + i)"
  "bit (get_control_field c) i \<longleftrightarrow> i < 15 \<and> bit c (12 + i)"
  using bit_imp_le_length [of c "12 + i"] bit_imp_le_length [of c "24 + i"]
  by (auto simp: getters masks_shifted bit_simps)

lemma small_bits: "take_bit n w = w \<Longrightarrow> bit w i \<Longrightarrow> i < n" for w :: "'a::len word"
  by (metis bit_take_bit_iff)

definition fields_fit :: "node_alias \<Rightarrow> mti \<Rightarrow> u32 \<Rightarrow> u32 \<Rightarrow> u32 \<Rightarrow> bool" where
  "fields_fit s m t f p \<longleftrightarrow> take_bit 12 s = s \<and> take_bit 12 m = m \<and> take_bit 3 t = t \<and> take_bit 1 f = f \<and> take_bit 1 p = p"

lemma set_fields_or:
  assumes "fields_fit s m t f p"
  shows "set_fields s m t f p = ucast s OR push_bit 12 (ucast m) OR push_bit 24 t OR push_bit 27 f OR push_bit 28 p"
proof -
  have b: "bit s i \<Longrightarrow> i < 12" "bit m i \<Longrightarrow> i < 12" "bit t i \<Longrightarrow> i < 3" "bit f i \<Longrightarrow> i < 1" "bit p i \<Longrightarrow> i < 1" for i
    using assms small_bits unfolding fields_fit_def by metis+
  let ?a = "ucast s :: u32" and ?b = "push_bit 12 (ucast m) :: u32" and ?c = "push_bit 24 t" and ?d = "push_bit 27 f"
    and ?e = "push_bit 28 p"
  have 1: "?a + ?b = ?a OR ?b" by (rule disjunctive_add) (auto simp: bit_simps dest: b)
  have 2: "(?a OR ?b) + ?c = (?a OR ?b) OR ?c" by (rule disjunctive_add) (auto simp: bit_simps dest: b)
  have 3: "((?a OR ?b) OR ?c) + ?d = ((?a OR ?b) OR ?c) OR ?d" by (rule disjunctive_add) (auto simp: bit_simps dest: b)
  have 4: "(((?a OR ?b) OR ?c) OR ?d) + ?e = (((?a OR ?b) OR ?c) OR ?d) OR ?e"
    by (rule disjunctive_add) (auto simp: bit_simps dest: b)
  show ?thesis unfolding set_fields_def 1 2 3 4 by (simp only: or.assoc)
qed

lemma set_fields_get:
  assumes "fields_fit s m t f p"
  shows "get_src (set_fields s m t f p) = s" "get_mti (set_fields s m t f p) = m" "get_dst (set_fields s m t f p) = m"
    "get_can_frame_type (set_fields s m t f p) = t" "get_frame_type (set_fields s m t f p) = f"
    "get_priority (set_fields s m t f p) = p"
proof -
  have b: "bit s i \<Longrightarrow> i < 12" "bit m i \<Longrightarrow> i < 12" "bit t i \<Longrightarrow> i < 3" "bit f i \<Longrightarrow> i < 1" "bit p i \<Longrightarrow> i < 1" for i
    using assms small_bits unfolding fields_fit_def by metis+
  have n: "\<not> bit s (12 + i)" "\<not> bit s (24 + i)" "\<not> bit s (27 + i)" "\<not> bit s (28 + i)" "\<not> bit m (12 + i)"
    "\<not> bit m (15 + i)" "\<not> bit m (16 + i)" "\<not> bit t (3 + i)" "\<not> bit t (4 + i)" "\<not> bit f (Suc i)" for i
    using b by fastforce+
  show "get_src (set_fields s m t f p) = s" "get_mti (set_fields s m t f p) = m" "get_dst (set_fields s m t f p) = m"
    "get_can_frame_type (set_fields s m t f p) = t" "get_frame_type (set_fields s m t f p) = f"
    "get_priority (set_fields s m t f p) = p"
    unfolding set_fields_or [OF assms]
    by (rule bit_word_eqI; simp add: bit_getters bit_or_iff bit_push_bit_iff bit_unsigned_iff n; auto dest: b)+
qed

lemmas setters = set_src_def set_mti_def set_dst_def set_can_frame_type_def set_frame_type_def set_priority_def

lemma bit_single: "bit (134217728 :: int) i \<longleftrightarrow> i = 27" "bit (268435456 :: int) i \<longleftrightarrow> i = 28"
proof -
  have "(134217728 :: int) = 2 ^ 27" "(268435456 :: int) = 2 ^ 28" by simp_all
  then show "bit (134217728 :: int) i \<longleftrightarrow> i = 27" "bit (268435456 :: int) i \<longleftrightarrow> i = 28"
    by (auto simp only: bit_exp_iff possible_bit_int)
qed

lemma setter_getter:
  assumes "fields_fit s m t f p"
  shows "get_src (set_src s c) = s" "get_mti (set_src s c) = get_mti c" "get_dst (set_src s c) = get_dst c"
    "get_can_frame_type (set_src s c) = get_can_frame_type c" "get_frame_type (set_src s c) = get_frame_type c" "get_priority (set_src s c) = get_priority c"
    "get_src (set_mti m c) = get_src c" "get_mti (set_mti m c) = m" "get_dst (set_mti m c) = m"
    "get_can_frame_type (set_mti m c) = get_can_frame_type c" "get_frame_type (set_mti m c) = get_frame_type c" "get_priority (set_mti m c) = get_priority c"
    "get_src (set_dst m c) = get_src c" "get_mti (set_dst m c) = m" "get_dst (set_dst m c) = m"
    "get_can_frame_type (set_dst m c) = get_can_frame_type c" "get_frame_type (set_dst m c) = get_frame_type c" "get_priority (set_dst m c) = get_priority c"
    "get_src (set_can_frame_type t c) = get_src c" "get_mti (set_can_frame_type t c) = get_mti c" "get_dst (set_can_frame_type t c) = get_dst c"
    "get_can_frame_type (set_can_frame_type t c) = t" "get_frame_type (set_can_frame_type t c) = get_frame_type c" "get_priority (set_can_frame_type t c) = get_priority c"
    "get_src (set_frame_type f c) = get_src c" "get_mti (set_frame_type f c) = get_mti c" "get_dst (set_frame_type f c) = get_dst c"
    "get_can_frame_type (set_frame_type f c) = get_can_frame_type c" "get_frame_type (set_frame_type f c) = f" "get_priority (set_frame_type f c) = get_priority c"
    "get_src (set_priority p c) = get_src c" "get_mti (set_priority p c) = get_mti c" "get_dst (set_priority p c) = get_dst c"
    "get_can_frame_type (set_priority p c) = get_can_frame_type c" "get_frame_type (set_priority p c) = get_frame_type c" "get_priority (set_priority p c) = p"
proof -
  have b: "bit s i \<Longrightarrow> i < 12" "bit m i \<Longrightarrow> i < 12" "bit t i \<Longrightarrow> i < 3" "bit f i \<Longrightarrow> i < 1" "bit p i \<Longrightarrow> i < 1" for i
    using assms small_bits unfolding fields_fit_def by metis+
  have n: "\<not> bit s (12 + i)" "\<not> bit s (24 + i)" "\<not> bit s (27 + i)" "\<not> bit s (28 + i)" "\<not> bit m (12 + i)"
    "\<not> bit m (15 + i)" "\<not> bit m (16 + i)" "\<not> bit t (3 + i)" "\<not> bit t (4 + i)" "\<not> bit f (Suc i)" for i
    using b by fastforce+
  show "get_src (set_src s c) = s" "get_mti (set_src s c) = get_mti c" "get_dst (set_src s c) = get_dst c"
    "get_can_frame_type (set_src s c) = get_can_frame_type c" "get_frame_type (set_src s c) = get_frame_type c" "get_priority (set_src s c) = get_priority c"
    "get_src (set_mti m c) = get_src c" "get_mti (set_mti m c) = m" "get_dst (set_mti m c) = m"
    "get_can_frame_type (set_mti m c) = get_can_frame_type c" "get_frame_type (set_mti m c) = get_frame_type c" "get_priority (set_mti m c) = get_priority c"
    "get_src (set_dst m c) = get_src c" "get_mti (set_dst m c) = m" "get_dst (set_dst m c) = m"
    "get_can_frame_type (set_dst m c) = get_can_frame_type c" "get_frame_type (set_dst m c) = get_frame_type c" "get_priority (set_dst m c) = get_priority c"
    "get_src (set_can_frame_type t c) = get_src c" "get_mti (set_can_frame_type t c) = get_mti c" "get_dst (set_can_frame_type t c) = get_dst c"
    "get_can_frame_type (set_can_frame_type t c) = t" "get_frame_type (set_can_frame_type t c) = get_frame_type c" "get_priority (set_can_frame_type t c) = get_priority c"
    "get_src (set_frame_type f c) = get_src c" "get_mti (set_frame_type f c) = get_mti c" "get_dst (set_frame_type f c) = get_dst c"
    "get_can_frame_type (set_frame_type f c) = get_can_frame_type c" "get_frame_type (set_frame_type f c) = f" "get_priority (set_frame_type f c) = get_priority c"
    "get_src (set_priority p c) = get_src c" "get_mti (set_priority p c) = get_mti c" "get_dst (set_priority p c) = get_dst c"
    "get_can_frame_type (set_priority p c) = get_can_frame_type c" "get_frame_type (set_priority p c) = get_frame_type c" "get_priority (set_priority p c) = p"
    unfolding setters masks_shifted
    by (rule bit_word_eqI; simp add: bit_getters bit_simps bit_single n; auto simp: bit_single dest: b)+
qed

lemma reserved_ids: "take_bit 12 a = a \<Longrightarrow> is_reserved_alias_node_id (get_reserved_alias_node_id a)"
proof -
  assume "take_bit 12 a = a"
  then have b: "bit a i \<Longrightarrow> i < 12" for i by (rule small_bits)
  have m: "RESERVED_ALIAS_NODE_MASK = push_bit 12 (mask 36)" "RESERVED_ALIAS_NODE_BITS = push_bit 12 (mask 4)"
    by (simp_all add: RESERVED_ALIAS_NODE_MASK_def RESERVED_ALIAS_NODE_BITS_def mask_eq_exp_minus_1)
  show ?thesis
    unfolding is_reserved_alias_node_id_def get_reserved_alias_node_id_def m
    by (rule bit_word_eqI) (auto simp: bit_simps dest: b)
qed

lemma control_fields_get:
  assumes "take_bit 12 s = s" "take_bit 12 fld = fld" "take_bit 3 sq = sq"
  shows "get_src (set_control_fields s fld sq) = s" "get_mti (set_control_fields s fld sq) = fld"
    "get_can_frame_type (set_control_fields s fld sq) = sq"
    "get_frame_type (set_control_fields s fld sq) = CONTROL_MSG" "get_priority (set_control_fields s fld sq) = NORMAL_PRIORITY"
    "sq = 0 \<Longrightarrow> get_control_field (set_control_fields s fld sq) = fld"
proof -
  have b: "bit s i \<Longrightarrow> i < 12" "bit fld i \<Longrightarrow> i < 12" "bit sq i \<Longrightarrow> i < 3" for i
    using assms small_bits by metis+
  have n: "\<not> bit s (12 + i)" "\<not> bit s (24 + i)" "\<not> bit s (27 + i)" "\<not> bit s (28 + i)" "\<not> bit fld (12 + i)"
    "\<not> bit fld (15 + i)" "\<not> bit fld (16 + i)" "\<not> bit sq (3 + i)" "\<not> bit sq (4 + i)" for i
    using b by fastforce+
  show "get_src (set_control_fields s fld sq) = s" "get_mti (set_control_fields s fld sq) = fld"
    "get_can_frame_type (set_control_fields s fld sq) = sq"
    "get_frame_type (set_control_fields s fld sq) = CONTROL_MSG" "get_priority (set_control_fields s fld sq) = NORMAL_PRIORITY"
    "sq = 0 \<Longrightarrow> get_control_field (set_control_fields s fld sq) = fld"
    unfolding set_control_fields_def can_types
    by (rule bit_word_eqI; simp add: bit_getters bit_simps bit_single n; auto simp: bit_single dest: b)+
qed

lemma can_identifier_fields:
  assumes "take_bit 12 s = s" "take_bit 12 m = m"
  shows "can_identifier m s = set_fields s m GLOBAL_ADDRESSED NMRANET_MSG NORMAL_PRIORITY"
proof -
  have b: "bit s i \<Longrightarrow> i < 12" "bit m i \<Longrightarrow> i < 12" for i
    using assms small_bits by metis+
  have "(ucast s :: u32) AND SRC_MASK = ucast s" "push_bit 12 (ucast m) AND MTI_MASK = push_bit 12 (ucast m)"
    unfolding masks_shifted by (rule bit_word_eqI; auto simp: bit_simps dest: b)+
  then show ?thesis by (simp add: can_identifier_def set_fields_def can_types)
qed

text \<open>The fields of a CAN identifier do not disturb each other: after setting all fields each is
  read back, a single setter changes its own field and no other, and the message type that
  a receiver derives from the identifier of a global or addressed message is the one sent.\<close>

theorem can_id_fields_independent:
  assumes "fields_fit s m t f p"
  shows "get_src (set_fields s m t f p) = s \<and> get_mti (set_fields s m t f p) = m \<and>
     get_can_frame_type (set_fields s m t f p) = t \<and> get_frame_type (set_fields s m t f p) = f \<and>
     get_priority (set_fields s m t f p) = p \<and>
     get_mti (set_mti m c) = m \<and> get_src (set_mti m c) = get_src c \<and>
     get_can_frame_type (set_mti m c) = get_can_frame_type c \<and> get_priority (set_mti m c) = get_priority c \<and>
     get_src (set_src s c) = s \<and> get_mti (set_src s c) = get_mti c \<and>
     get_can_frame_type (set_can_frame_type t c) = t \<and> get_src (set_can_frame_type t c) = get_src c \<and>
     get_mti (set_can_frame_type t c) = get_mti c \<and> get_frame_type (set_can_frame_type t c) = get_frame_type c \<and>
     nmranet_mti (can_identifier m s) = m"
proof -
  have "take_bit 12 s = s" "take_bit 12 m = m" using assms by (simp_all add: fields_fit_def)
  moreover from this have "fields_fit s m GLOBAL_ADDRESSED NMRANET_MSG NORMAL_PRIORITY"
    by (simp add: fields_fit_def can_types)
  ultimately show ?thesis
    using set_fields_get [OF assms] setter_getter [OF assms] set_fields_get
    by (simp add: nmranet_mti_def can_identifier_fields)
qed

theorem can_id_fields_independent_witness:
  "get_src (set_fields 0x123 0x5B4 1 1 1) = 0x123 \<and> get_mti (set_mti 0x5B4 0x19FFF123) = 0x5B4 \<and>
   get_src (set_mti 0x5B4 0x19FFF123) = get_src 0x19FFF123"
  using can_id_fields_independent [of "0x123" "0x5B4" 1 1 1 "0x19FFF123"] by (simp add: fields_fit_def)

end
