(* ===== verification/CanMessages.thy ===== *)
theory CanMessages
  imports CanDefs AliasCacheSpec
begin

section \<open>Messages as CAN frames (openlcb/IfCanImpl.hxx, openlcb/IfCan.cpp)\<close>

text \<open>
  The writer splits an addressed message into frames of at most six payload bytes behind the
  two bytes of the destination; the parser collects them in a map. The allocations of buffers
  are taken to succeed at once, so one frame is one step. \<open>junk\<close> is what the array of a
  new frame holds. Each step of the parser returns the message that it passes to the
  dispatcher, if any; a failed assertion or an access outside of the frame is \<open>None\<close>.
\<close>

subsection \<open>Sending (CanMessageWriteFlow)\<close>

definition new_frame :: "u8 list \<Rightarrow> can_frame" where
  "new_frame junk = SET_CAN_FRAME_EFF (CLR_CAN_FRAME_RTR (CLR_CAN_FRAME_ERR
     \<lparr>can_id = 0, can_dlc = 0, can_rtr = True, can_eff = True, can_err = True, can_data = junk\<rparr>))"

definition put_data :: "nat \<Rightarrow> u8 list \<Rightarrow> can_frame \<Rightarrow> can_frame option" where
  "put_data ofs bs f = do {
     hassert (ofs + length bs \<le> length (can_data f));
     Some (f\<lparr>can_data := take ofs (can_data f) @ bs @ drop (ofs + length bs) (can_data f)\<rparr>)
   }"

definition fill_can_frame_buffer ::
    "u8 list \<Rightarrow> gen_message \<Rightarrow> node_alias \<Rightarrow> node_alias \<Rightarrow> u8 \<Rightarrow> (can_frame option \<times> u8 \<times> bool) option" where
  "fill_can_frame_buffer junk nmsg srcAlias dstAlias dataOffset =
     (let f = new_frame junk; m = gm_mti nmsg; data = gm_payload nmsg in
      if m AND (MTI_DATAGRAM_MASK OR MTI_SPECIAL_MASK OR MTI_RESERVED_MASK) \<noteq> 0 then Some (None, dataOffset, False)
      else do {
        hassert (m AND NOT 0xfff = 0);
        let f = SET_CAN_FRAME_ID_EFF f (set_fields srcAlias m GLOBAL_ADDRESSED NMRANET_MSG NORMAL_PRIORITY);
        if get_mti_address m then do {
          let d0 = ucast (drop_bit 8 dstAlias);
          let d1 = ucast (dstAlias AND 0xff);
          if data = [] then do {
            f \<leftarrow> put_data 0 [d0, d1] f;
            Some (Some (f\<lparr>can_dlc := 2\<rparr>), dataOffset, False)
          }
          else do {
            let d0 = (if dataOffset \<noteq> 0 then d0 OR NOT_FIRST_FRAME else d0);
            let len = length data - unat dataOffset;
            let need_more_frames = (len > 6);
            let d0 = (if need_more_frames then d0 OR NOT_LAST_FRAME else d0);
            let len = (if need_more_frames then 6 else len);
            hassert (unat dataOffset + len \<le> length data);
            f \<leftarrow> put_data 0 [d0, d1] f;
            f \<leftarrow> put_data 2 (take len (drop (unat dataOffset) data)) f;
            Some (Some (f\<lparr>can_dlc := 2 + of_nat len\<rparr>), dataOffset + of_nat len, need_more_frames)
          }
        }
        else if data \<noteq> [] then do {
          hassert (length data \<le> 8);
          f \<leftarrow> put_data 0 data f;
          Some (Some (f\<lparr>can_dlc := of_nat (length data)\<rparr>), dataOffset, False)
        }
        else Some (Some f, dataOffset, False)
      })"

text \<open>The loop over \<open>get_can_frame_buffer\<close>; 256 rounds are more than the offset can count.\<close>

fun write_frames :: "nat \<Rightarrow> u8 list \<Rightarrow> gen_message \<Rightarrow> node_alias \<Rightarrow> node_alias \<Rightarrow> u8 \<Rightarrow> can_frame list option" where
  "write_frames 0 junk nmsg srcAlias dstAlias dataOffset = None"
| "write_frames (Suc fuel) junk nmsg srcAlias dstAlias dataOffset = do {
     (f, dataOffset, more) \<leftarrow> fill_can_frame_buffer junk nmsg srcAlias dstAlias dataOffset;
     rest \<leftarrow> (if more then write_frames fuel junk nmsg srcAlias dstAlias dataOffset else Some []);
     Some ((case f of None \<Rightarrow> [] | Some f \<Rightarrow> [f]) @ rest)
   }"

definition send_message :: "u8 list \<Rightarrow> gen_message \<Rightarrow> node_alias \<Rightarrow> node_alias \<Rightarrow> can_frame list option" where
  "send_message junk nmsg srcAlias dstAlias = do {
     hassert (length (gm_payload nmsg) < 256);
     write_frames 256 junk nmsg srcAlias dstAlias 0
   }"

subsection \<open>Receiving\<close>

record if_can =
  local_aliases :: alias_cache
  remote_aliases :: alias_cache
  local_nodes :: "node_id \<Rightarrow> nat option"
  pendingBuffers :: "u32 \<Rightarrow> payload option"
  parse_buf :: payload

definition source_id :: "node_alias \<Rightarrow> if_can \<Rightarrow> (if_can \<times> node_id) option" where
  "source_id a st =
     (if a \<noteq> 0 then do {
        (c, i) \<leftarrow> lookup_alias a (remote_aliases st);
        let st = st\<lparr>remote_aliases := c\<rparr>;
        if i = 0 then do {
          (c, i) \<leftarrow> lookup_alias a (local_aliases st);
          Some (st\<lparr>local_aliases := c\<rparr>, i)
        } else Some (st, i)
      } else Some (st, 0))"

definition addressed_send_to_if :: "u32 \<Rightarrow> node_handle \<Rightarrow> if_can \<Rightarrow> (if_can \<times> gen_message) option" where
  "addressed_send_to_if fid dstHandle st = do {
     let src = ucast (fid AND SRC_MASK);
     (st', i) \<leftarrow> source_id src st;
     Some (st'\<lparr>parse_buf := []\<rparr>,
       \<lparr>gm_src = \<lparr>nh_id = i, nh_alias = src\<rparr>, gm_dst = dstHandle,
        gm_mti = ucast (drop_bit 12 (fid AND MTI_MASK)), gm_dstNode = local_nodes st (nh_id dstHandle),
        gm_payload = parse_buf st, gm_flagsSrc = 0, gm_flagsDst = 0\<rparr>)
   }"

definition buffer_key :: "node_alias \<Rightarrow> u32 \<Rightarrow> u32" where
  "buffer_key dst fid =
     (let k = (ucast dst :: u64);
          k = push_bit 12 k OR ucast (get_src fid);
          k = push_bit 12 k OR ucast (get_mti fid)
      in ucast k)"

definition frame_tail :: "can_frame \<Rightarrow> payload option" where
  "frame_tail f = do {
     let dlc = unat (can_dlc f);
     hassert (dlc \<le> length (can_data f));
     Some (if dlc > 2 then drop 2 (take dlc (can_data f)) else [])
   }"

definition addressed_entry :: "can_frame \<Rightarrow> if_can \<Rightarrow> (if_can \<times> gen_message option) option" where
  "addressed_entry f st =
     (let fid = GET_CAN_FRAME_ID_EFF f in
      if can_dlc f < 2 then Some (st, None)
      else do {
        d0 \<leftarrow> array_get (can_data f) 0;
        d1 \<leftarrow> array_get (can_data f) 1;
        let dst = push_bit 8 (ucast (d0 AND 0xf)) OR ucast d1;
        (c, dst_id) \<leftarrow> lookup_alias dst (local_aliases st);
        let st = st\<lparr>local_aliases := c\<rparr>;
        if dst_id = 0 then Some (st, None)
        else do {
          more \<leftarrow> frame_tail f;
          let dstHandle = \<lparr>nh_id = dst_id, nh_alias = dst\<rparr>;
          if d0 AND (NOT_FIRST_FRAME OR NOT_LAST_FRAME) \<noteq> 0 then do {
            let key = buffer_key dst fid;
            let mapped_buffer = (case pendingBuffers st key of None \<Rightarrow> [] | Some b \<Rightarrow> b);
            let mapped_buffer = (if d0 AND NOT_FIRST_FRAME = 0 then [] else mapped_buffer);
            let mapped_buffer = mapped_buffer @ more;
            if d0 AND NOT_LAST_FRAME \<noteq> 0 then
              Some (st\<lparr>pendingBuffers := (pendingBuffers st)(key := Some mapped_buffer)\<rparr>, None)
            else do {
              (st, m) \<leftarrow> addressed_send_to_if fid dstHandle
                (st\<lparr>parse_buf := mapped_buffer, pendingBuffers := (pendingBuffers st)(key := None)\<rparr>);
              Some (st, Some m)
            }
          }
          else do {
            (st, m) \<leftarrow> addressed_send_to_if fid dstHandle (st\<lparr>parse_buf := more\<rparr>);
            Some (st, Some m)
          }
        }
      })"

definition global_entry :: "can_frame \<Rightarrow> if_can \<Rightarrow> (if_can \<times> gen_message option) option" where
  "global_entry f st =
     (let fid = GET_CAN_FRAME_ID_EFF f; dlc = unat (can_dlc f); src = ucast (fid AND SRC_MASK) in do {
        hassert (dlc \<le> length (can_data f));
        (st, i) \<leftarrow> source_id src st;
        Some (st, Some \<lparr>gm_src = \<lparr>nh_id = i, nh_alias = src\<rparr>, gm_dst = nh_none,
          gm_mti = ucast (drop_bit 12 (fid AND MTI_MASK)), gm_dstNode = None,
          gm_payload = take dlc (can_data f), gm_flagsSrc = 0, gm_flagsDst = 0\<rparr>)
      })"

definition ADDRESSED_FILTER :: u32 where
  "ADDRESSED_FILTER = push_bit 24 GLOBAL_ADDRESSED OR push_bit 27 NMRANET_MSG OR push_bit 28 NORMAL_PRIORITY OR
     push_bit 12 (ucast MTI_ADDRESS_MASK)"
definition GLOBAL_FILTER :: u32 where
  "GLOBAL_FILTER = push_bit 24 GLOBAL_ADDRESSED OR push_bit 27 NMRANET_MSG OR push_bit 28 NORMAL_PRIORITY"
definition MESSAGE_MASK :: u32 where
  "MESSAGE_MASK = NOT 0x1FFFFFFF OR CAN_FRAME_TYPE_MASK OR FRAME_TYPE_MASK OR PRIORITY_MASK OR
     push_bit 12 (ucast MTI_ADDRESS_MASK)"

definition frame_id :: "can_frame \<Rightarrow> u32" where
  "frame_id f = (if IS_CAN_FRAME_EFF f then GET_CAN_FRAME_ID_EFF f else GET_CAN_FRAME_ID f OR push_bit 30 1)"

text \<open>The dispatcher calls the parser whose filter the identifier matches.\<close>

definition dispatch_frame :: "can_frame \<Rightarrow> if_can \<Rightarrow> (if_can \<times> gen_message option) option" where
  "dispatch_frame f st =
     (if frame_id f AND MESSAGE_MASK = ADDRESSED_FILTER AND MESSAGE_MASK then addressed_entry f st
      else if frame_id f AND MESSAGE_MASK = GLOBAL_FILTER AND MESSAGE_MASK then global_entry f st
      else Some (st, None))"

end
