(* ===== verification/CanReassembly.thy ===== *)
theory CanReassembly
  imports CanMessages
begin

section \<open>Fragments of a message and their reassembly\<close>

text \<open>
  What the writer produces for a message, and what the parsers make of one of its
  fragments and of any other frame.
\<close>

subsection \<open>Looking up aliases\<close>

text \<open>What the parsers rely on: a lookup answers from the directory and keeps it.\<close>

locale alias_directory =
  fixes inv :: "'c \<Rightarrow> bool" and entry :: "'c \<Rightarrow> node_alias \<Rightarrow> node_id"
    and lookup :: "node_alias \<Rightarrow> 'c \<Rightarrow> ('c \<times> node_id) option"
  assumes lookup_ok: "inv c \<Longrightarrow> unat a < 4096 \<Longrightarrow>
    \<exists>d. lookup a c = Some (d, entry c a) \<and> inv d \<and> (\<forall>b. unat b < 4096 \<longrightarrow> entry d b = entry c b)"
begin

definition same_entries :: "'c \<Rightarrow> 'c \<Rightarrow> bool" where
  "same_entries c d \<longleftrightarrow> inv d \<and> (\<forall>b. unat b < 4096 \<longrightarrow> entry d b = entry c b)"

lemma lookup_same: "inv c \<Longrightarrow> unat a < 4096 \<Longrightarrow> \<exists>d. lookup a c = Some (d, entry c a) \<and> same_entries c d"
  using lookup_ok unfolding same_entries_def by blast

lemma same_entries_refl: "inv c \<Longrightarrow> same_entries c c"
  by (simp add: same_entries_def)

lemma same_entries_trans: "same_entries c d \<Longrightarrow> same_entries d e \<Longrightarrow> same_entries c e"
  by (simp add: same_entries_def)

end

definition alias_entry :: "alias_cache \<Rightarrow> node_alias \<Rightarrow> node_id" where
  "alias_entry c a = (case for_each c of None \<Rightarrow> 0
     | Some l \<Rightarrow> (case List.find (\<lambda>p. snd p = a) l of None \<Rightarrow> 0 | Some p \<Rightarrow> fst p))"

lemma alias_unique:
  assumes "ac_inv c" "for_each c = Some l" "p \<in> set l" "q \<in> set l" "snd p = a" "snd q = a" "unat a < 4096"
  shows "p = q"
proof -
  obtain lru free where r: "ac_repr c lru free" using assms(1) by (auto simp: ac_inv_def)
  then have l: "l = resolved (pairs c lru)" using for_each_ok assms(2) by simp
  obtain i j where i: "i \<in> set lru" "p = (ikey c i, resolve_notresponding (akey c i))"
    and j: "j \<in> set lru" "q = (ikey c j, resolve_notresponding (akey c j))"
    using assms(3,4) unfolding l resolved_pairs_mem by blast
  have "good_alias k (akey c k)" if "k \<in> set lru" for k
    using ac_reprD(3) [OF r] that by (simp add: ac_data_def)
  moreover have "a \<noteq> NOT_RESPONDING" using assms(7) by (auto simp: NOT_RESPONDING_def)
  ultimately have "akey c i = a" "akey c j = a"
    using i j assms(5,6,7) resolve_good by (metis snd_conv)+
  then have "i = j" using i(1) j(1) ac_repr_inj(1) [OF r] by (auto simp: inj_on_def)
  then show ?thesis using i(2) j(2) by simp
qed

lemma find_unique:
  assumes "\<And>p q. p \<in> set l \<Longrightarrow> q \<in> set l \<Longrightarrow> P p \<Longrightarrow> P q \<Longrightarrow> p = q" "set k = set l"
  shows "List.find P k = List.find P l"
proof (cases "\<exists>p \<in> set l. P p")
  case True
  then obtain p where p: "p \<in> set l" "P p" by blast
  have "List.find P m = Some p" if "set m = set l" for m
    using that p assms(1)
    by (metis (no_types, lifting) find_Some_iff2 find_None_iff2 nth_mem option.exhaust)
  then show ?thesis using assms(2) by metis
next
  case False
  then show ?thesis using assms(2) by (metis find_None_iff)
qed

text \<open>A consistent cache with at least one entry.\<close>

definition cache_ok :: "alias_cache \<Rightarrow> bool" where
  "cache_ok c \<longleftrightarrow> ac_inv c \<and> 0 < entries c"

interpretation ad: alias_directory cache_ok alias_entry lookup_alias
proof
  fix c a
  assume ok: "cache_ok c" and a: "unat (a :: node_alias) < 4096"
  then have c: "ac_inv c" by (simp add: cache_ok_def)
  obtain l where l: "for_each c = Some l" using c for_each_ok by (auto simp: ac_inv_def)
  obtain d where d: "lookup_alias a c = Some (d, case List.find (\<lambda>p. snd p = a) l of None \<Rightarrow> 0 | Some p \<Rightarrow> fst p)"
    "ac_inv d" "for_each d = Some (to_front (\<lambda>p. snd p = a) l)" "same_config c d"
    using lookup_alias_contents [OF c a l] by blast
  have "cache_ok d" using ok d(2,4) by (simp add: cache_ok_def same_config_def)
  have same: "alias_entry d b = alias_entry c b" if b: "unat b < 4096" for b
  proof -
    have "set (to_front (\<lambda>p. snd p = a) l) = set l" by (auto simp: to_front_def)
    moreover have "p = q" if "p \<in> set l" "q \<in> set l" "snd p = b" "snd q = b" for p q
      using alias_unique [OF c l that b] .
    ultimately have "List.find (\<lambda>p. snd p = b) (to_front (\<lambda>p. snd p = a) l) = List.find (\<lambda>p. snd p = b) l"
      by (intro find_unique) blast+
    then show ?thesis by (simp add: alias_entry_def l d(3))
  qed
  have "lookup_alias a c = Some (d, alias_entry c a)" using d(1) l by (simp add: alias_entry_def)
  with same \<open>cache_ok d\<close> show "\<exists>d. lookup_alias a c = Some (d, alias_entry c a) \<and> cache_ok d \<and>
      (\<forall>b. unat b < 4096 \<longrightarrow> alias_entry d b = alias_entry c b)"
    by blast
qed

subsection \<open>Fragments\<close>

definition flag_byte :: "bool \<Rightarrow> bool \<Rightarrow> u8" where
  "flag_byte nf nl = (if nf then NOT_FIRST_FRAME else 0) OR (if nl then NOT_LAST_FRAME else 0)"

definition message_id :: "node_alias \<Rightarrow> mti \<Rightarrow> u32" where
  "message_id s m = set_fields s m GLOBAL_ADDRESSED NMRANET_MSG NORMAL_PRIORITY"

definition carries :: "node_alias \<Rightarrow> node_alias \<Rightarrow> mti \<Rightarrow> can_frame \<Rightarrow> bool \<times> bool \<times> u8 list \<Rightarrow> bool" where
  "carries s d m f = (\<lambda>(nf, nl, bs). can_eff f \<and> length bs \<le> 6 \<and>
     can_id f = message_id s m \<and>
     length (can_data f) = 8 \<and> can_dlc f = 2 + of_nat (length bs) \<and>
     take (2 + length bs) (can_data f) = [ucast (drop_bit 8 d) OR flag_byte nf nl, ucast (d AND 0xff)] @ bs)"

fun fragments :: "bool \<Rightarrow> u8 list list \<Rightarrow> (bool \<times> bool \<times> u8 list) list" where
  "fragments nf [] = []"
| "fragments nf (c # cs) = (nf, cs \<noteq> [], c) # fragments True cs"

fun chunks :: "u8 list \<Rightarrow> u8 list list" where
  "chunks bs = (if length bs > 6 then take 6 bs # chunks (drop 6 bs) else [bs])"

declare chunks.simps [simp del]

lemma concat_chunks: "concat (chunks bs) = bs"
  by (induction bs rule: chunks.induct) (subst chunks.simps, simp)

lemma chunks_not_Nil: "chunks bs \<noteq> []"
  by (subst chunks.simps) simp

text \<open>Message types that travel as addressed messages.\<close>

definition addressed_mti :: "mti \<Rightarrow> bool" where
  "addressed_mti m \<longleftrightarrow> take_bit 12 m = m \<and> get_mti_address m"

lemma addressed_mti_masks:
  assumes "addressed_mti m"
  shows "m AND (MTI_DATAGRAM_MASK OR MTI_SPECIAL_MASK OR MTI_RESERVED_MASK) = 0" "m AND - 4096 = 0" "bit m 3"
proof -
  have b: "bit m i \<Longrightarrow> i < 12" for i using assms small_bits unfolding addressed_mti_def by metis
  have "MTI_DATAGRAM_MASK OR MTI_SPECIAL_MASK OR MTI_RESERVED_MASK = push_bit 12 (mask 4)"
    "(- 4096 :: mti) = push_bit 12 (mask 4)" by (simp_all add: mti_masks mask_eq_exp_minus_1)
  moreover have "m AND push_bit 12 (mask 4) = 0" by (rule bit_word_eqI) (auto simp: bit_simps dest: b)
  ultimately show "m AND (MTI_DATAGRAM_MASK OR MTI_SPECIAL_MASK OR MTI_RESERVED_MASK) = 0" "m AND - 4096 = 0"
    by simp_all
  show "bit m 3"
    using assms and_exp_eq_0_iff_not_bit [of m 3] by (simp add: addressed_mti_def get_mti_address_def mti_masks)
qed

lemma bit_15: "bit (32768 :: int) i \<longleftrightarrow> i = 15" "bit (32768 :: u32) i \<longleftrightarrow> i = 15"
proof -
  have "(32768 :: int) = 2 ^ 15" "(32768 :: u32) = 2 ^ 15" by simp_all
  then show "bit (32768 :: int) i \<longleftrightarrow> i = 15" "bit (32768 :: u32) i \<longleftrightarrow> i = 15"
    using bit_exp_iff [of 15 i, where 'a = u32] by (auto simp only: bit_exp_iff possible_bit_int) auto
qed

lemma message_mask: "MESSAGE_MASK = push_bit 24 (mask 8) OR push_bit 15 1" "ADDRESSED_FILTER AND MESSAGE_MASK = 0x19008000"
  "GLOBAL_FILTER AND MESSAGE_MASK = 0x19000000"
  by (simp_all add: MESSAGE_MASK_def ADDRESSED_FILTER_def GLOBAL_FILTER_def can_masks can_types mti_masks mask_eq_exp_minus_1)

lemma message_id_props:
  assumes "take_bit 12 s = s" "addressed_mti m"
  shows "message_id s m AND 0x1FFFFFFF = message_id s m" "get_src (message_id s m) = s" "get_mti (message_id s m) = m"
    "message_id s m AND MESSAGE_MASK = ADDRESSED_FILTER AND MESSAGE_MASK"
proof -
  have bs: "bit s i \<Longrightarrow> i < 12" and bm: "bit m i \<Longrightarrow> i < 12" for i
    using assms small_bits unfolding addressed_mti_def by metis+
  have m3: "bit m 3" using addressed_mti_masks assms(2) by blast
  have fit: "fields_fit s m GLOBAL_ADDRESSED NMRANET_MSG NORMAL_PRIORITY"
    using assms by (simp add: fields_fit_def addressed_mti_def can_types)
  show "get_src (message_id s m) = s" "get_mti (message_id s m) = m"
    using set_fields_get [OF fit] by (simp_all add: message_id_def)
  have id: "message_id s m = ucast s OR push_bit 12 (ucast m) OR 0x19000000"
    using set_fields_or [OF fit] by (simp add: message_id_def can_types or.assoc)
  have k: "ucast s AND (0x1FFFFFFF :: u32) = ucast s" "push_bit 12 (ucast m) AND (0x1FFFFFFF :: u32) = push_bit 12 (ucast m)"
  proof -
    have "(0x1FFFFFFF :: u32) = mask 29" by (simp add: mask_eq_exp_minus_1)
    moreover have "ucast s AND (mask 29 :: u32) = ucast s" "push_bit 12 (ucast m) AND (mask 29 :: u32) = push_bit 12 (ucast m)"
      by (rule bit_word_eqI; auto simp: bit_simps dest: bs bm)+
    ultimately show "ucast s AND (0x1FFFFFFF :: u32) = ucast s" "push_bit 12 (ucast m) AND (0x1FFFFFFF :: u32) = push_bit 12 (ucast m)"
      by simp_all
  qed
  show "message_id s m AND 0x1FFFFFFF = message_id s m"
    unfolding id bit.conj_disj_distrib2 k by simp
  have "ucast s AND MESSAGE_MASK = 0" unfolding message_mask
    by (rule bit_word_eqI) (auto simp: bit_simps bit_15 dest: bs)
  moreover have "push_bit 12 (ucast m) AND MESSAGE_MASK = push_bit 15 1" unfolding message_mask
    by (rule bit_word_eqI) (use m3 in \<open>auto simp: bit_simps bit_15 dest: bm\<close>)
  moreover have "(0x19000000 :: u32) AND MESSAGE_MASK = 0x19000000"
    by (simp add: message_mask mask_eq_exp_minus_1)
  ultimately show "message_id s m AND MESSAGE_MASK = ADDRESSED_FILTER AND MESSAGE_MASK"
    unfolding id bit.conj_disj_distrib2 message_mask(2) by simp
qed

lemmas frame_flags = new_frame_def SET_CAN_FRAME_EFF_def CLR_CAN_FRAME_RTR_def CLR_CAN_FRAME_ERR_def SET_CAN_FRAME_ID_EFF_def

subsection \<open>The writer\<close>

lemma put_data_at: "length (can_data f) = 8 \<Longrightarrow> ofs + length bs \<le> 8 \<Longrightarrow>
   \<exists>f'. put_data ofs bs f = Some f' \<and> f' = f\<lparr>can_data := can_data f'\<rparr> \<and> length (can_data f') = 8 \<and>
     take (ofs + length bs) (can_data f') = take ofs (can_data f) @ bs"
  by (simp add: put_data_def)

lemma next_offset: "unat ofs + 6 < 256 \<Longrightarrow> unat (ofs + 6) = unat ofs + 6" for ofs :: u8
  by (simp add: unat_word_ariths)

lemma fill_fragment:
  assumes "length junk = 8" "take_bit 12 s = s" "addressed_mti (gm_mti g)" "length (gm_payload g) < 256"
    "unat ofs \<le> length (gm_payload g)" "gm_payload g = [] \<Longrightarrow> ofs = 0"
  shows "\<exists>f ofs'. fill_can_frame_buffer junk g s d ofs = Some (Some f, ofs', 6 < length (gm_payload g) - unat ofs) \<and>
     carries s d (gm_mti g) f (ofs \<noteq> 0, 6 < length (gm_payload g) - unat ofs, take 6 (drop (unat ofs) (gm_payload g))) \<and>
     (6 < length (gm_payload g) - unat ofs \<longrightarrow> unat ofs' = unat ofs + 6)"
proof -
  note m = addressed_mti_masks [OF assms(3)] message_id_props(1) [OF assms(2,3)]
  note assms(3) [unfolded addressed_mti_def]
  show ?thesis
  proof (cases "gm_payload g = []")
    case True
    then show ?thesis
      using m assms
      by (auto simp: fill_can_frame_buffer_def frame_flags addressed_mti_def carries_def flag_byte_def put_data_def
          message_id_def)
  next
    case False
    then show ?thesis
      using m assms
      by (auto simp: fill_can_frame_buffer_def frame_flags addressed_mti_def carries_def flag_byte_def put_data_def
          message_id_def Let_def or.assoc next_offset)
  qed
qed

lemma write_fragments:
  assumes "length junk = 8" "take_bit 12 s = s" "addressed_mti (gm_mti g)" "length (gm_payload g) < 256"
  shows "unat ofs \<le> length (gm_payload g) \<Longrightarrow> (gm_payload g = [] \<Longrightarrow> ofs = 0) \<Longrightarrow>
     length (gm_payload g) - unat ofs < fuel \<Longrightarrow>
     \<exists>fs. write_frames fuel junk g s d ofs = Some fs \<and>
       list_all2 (carries s d (gm_mti g)) fs (fragments (ofs \<noteq> 0) (chunks (drop (unat ofs) (gm_payload g))))"
proof (induction fuel arbitrary: ofs)
  case (Suc fuel)
  let ?rest = "drop (unat ofs) (gm_payload g)"
  obtain f ofs' where f: "fill_can_frame_buffer junk g s d ofs = Some (Some f, ofs', 6 < length (gm_payload g) - unat ofs)"
    "carries s d (gm_mti g) f (ofs \<noteq> 0, 6 < length (gm_payload g) - unat ofs, take 6 ?rest)"
    "6 < length (gm_payload g) - unat ofs \<longrightarrow> unat ofs' = unat ofs + 6"
    using fill_fragment [OF assms Suc.prems(1,2)] by blast
  show ?case
  proof (cases "6 < length ?rest")
    case True
    then have o: "unat ofs' = unat ofs + 6" "6 < length (gm_payload g) - unat ofs" using f(3) by simp_all
    then obtain fs where "write_frames fuel junk g s d ofs' = Some fs"
      "list_all2 (carries s d (gm_mti g)) fs (fragments (ofs' \<noteq> 0) (chunks (drop (unat ofs') (gm_payload g))))"
      using Suc.IH [of ofs'] Suc.prems by fastforce
    moreover have "ofs' \<noteq> 0" using o by auto
    moreover have "chunks ?rest = take 6 ?rest # chunks (drop (unat ofs') (gm_payload g))"
      using True o by (subst chunks.simps) (simp add: add.commute)
    ultimately show ?thesis using f(1,2) o by (simp add: chunks_not_Nil)
  next
    case False
    then have "chunks ?rest = [?rest]" by (subst chunks.simps) simp
    then show ?thesis using f(1,2) False by simp
  qed
qed simp

lemma send_fragments:
  assumes "length junk = 8" "take_bit 12 s = s" "addressed_mti (gm_mti g)" "length (gm_payload g) < 256"
  shows "\<exists>fs. send_message junk g s d = Some fs \<and>
     list_all2 (carries s d (gm_mti g)) fs (fragments False (chunks (gm_payload g)))"
  using write_fragments [OF assms, of 0 256 d] assms(4) by (simp add: send_message_def)

subsection \<open>The parser\<close>

definition if_ok :: "if_can \<Rightarrow> bool" where
  "if_ok st \<longleftrightarrow> cache_ok (local_aliases st) \<and> cache_ok (remote_aliases st)"

text \<open>What no frame changes: the entries of the alias caches and the nodes.\<close>

definition kept :: "if_can \<Rightarrow> if_can \<Rightarrow> bool" where
  "kept st st' \<longleftrightarrow> ad.same_entries (local_aliases st) (local_aliases st') \<and>
     ad.same_entries (remote_aliases st) (remote_aliases st') \<and> local_nodes st' = local_nodes st"

lemma kept_ok: "kept st st' \<Longrightarrow> if_ok st'"
  by (simp add: kept_def if_ok_def ad.same_entries_def)

lemma kept_refl: "if_ok st \<Longrightarrow> kept st st"
  by (simp add: kept_def if_ok_def ad.same_entries_def)

lemma kept_trans: "kept a b \<Longrightarrow> kept b c \<Longrightarrow> kept a c"
  using ad.same_entries_trans by (auto simp: kept_def)

lemma kept_pending [simp]: "kept a (b\<lparr>pendingBuffers := q\<rparr>) = kept a b" "kept a (b\<lparr>parse_buf := p\<rparr>) = kept a b"
  "kept (a\<lparr>pendingBuffers := q\<rparr>) b = kept a b" "kept (a\<lparr>parse_buf := p\<rparr>) b = kept a b"
  by (simp_all add: kept_def)

lemma if_ok_pending [simp]: "if_ok (b\<lparr>pendingBuffers := q\<rparr>) = if_ok b" "if_ok (b\<lparr>parse_buf := p\<rparr>) = if_ok b"
  by (simp_all add: if_ok_def)

definition source_of :: "if_can \<Rightarrow> node_alias \<Rightarrow> node_id" where
  "source_of st a = (if a = 0 then 0
     else if alias_entry (remote_aliases st) a \<noteq> 0 then alias_entry (remote_aliases st) a
     else alias_entry (local_aliases st) a)"

definition received_message :: "if_can \<Rightarrow> node_alias \<Rightarrow> node_alias \<Rightarrow> mti \<Rightarrow> payload \<Rightarrow> gen_message" where
  "received_message st s d m bs = (let i = alias_entry (local_aliases st) d in
     \<lparr>gm_src = \<lparr>nh_id = source_of st s, nh_alias = s\<rparr>, gm_dst = \<lparr>nh_id = i, nh_alias = d\<rparr>,
      gm_mti = m, gm_dstNode = local_nodes st i, gm_payload = bs, gm_flagsSrc = 0, gm_flagsDst = 0\<rparr>)"

lemma source_of_kept: "kept st st' \<Longrightarrow> unat a < 4096 \<Longrightarrow> source_of st' a = source_of st a"
  by (simp add: kept_def source_of_def ad.same_entries_def)

lemma received_kept:
  "kept st st' \<Longrightarrow> unat s < 4096 \<Longrightarrow> unat d < 4096 \<Longrightarrow> received_message st' s d m bs = received_message st s d m bs"
  by (simp add: received_message_def source_of_kept) (simp add: kept_def ad.same_entries_def)

definition same_buffers :: "if_can \<Rightarrow> if_can \<Rightarrow> bool" where
  "same_buffers st st' \<longleftrightarrow> pendingBuffers st' = pendingBuffers st \<and> parse_buf st' = parse_buf st"

lemma local_lookup:
  assumes "if_ok st" "unat a < 4096"
  shows "\<exists>c. lookup_alias a (local_aliases st) = Some (c, alias_entry (local_aliases st) a) \<and> kept st (st\<lparr>local_aliases := c\<rparr>)"
  using ad.lookup_same [of "local_aliases st" a] ad.same_entries_refl [of "remote_aliases st"] assms
  by (auto simp: if_ok_def kept_def)

lemma remote_lookup:
  assumes "if_ok st" "unat a < 4096"
  shows "\<exists>c. lookup_alias a (remote_aliases st) = Some (c, alias_entry (remote_aliases st) a) \<and> kept st (st\<lparr>remote_aliases := c\<rparr>)"
  using ad.lookup_same [of "remote_aliases st" a] ad.same_entries_refl [of "local_aliases st"] assms
  by (auto simp: if_ok_def kept_def)

lemma source_id_ok:
  assumes "if_ok st" "unat a < 4096"
  shows "\<exists>st'. source_id a st = Some (st', source_of st a) \<and> kept st st' \<and> same_buffers st st'"
proof -
  obtain c where c: "lookup_alias a (remote_aliases st) = Some (c, alias_entry (remote_aliases st) a)"
    "kept st (st\<lparr>remote_aliases := c\<rparr>)" using remote_lookup assms by blast
  obtain e where e: "lookup_alias a (local_aliases st) = Some (e, alias_entry (local_aliases st) a)"
    "kept (st\<lparr>remote_aliases := c\<rparr>) (st\<lparr>remote_aliases := c, local_aliases := e\<rparr>)"
    using local_lookup [OF kept_ok [OF c(2)] assms(2)] by auto
  show ?thesis
    using c e kept_trans [OF c(2) e(2)] kept_refl [OF assms(1)]
    by (simp add: source_id_def source_of_def same_buffers_def)
qed

lemma alias_small: "take_bit 12 a = a \<Longrightarrow> unat (a :: node_alias) < 4096"
proof -
  assume "take_bit 12 a = a"
  then have "unat a = take_bit 12 (unat a)" by (metis unsigned_take_bit_eq)
  then show ?thesis using take_bit_nat_less_exp [of 12 "unat a"] by simp
qed

lemma get_src_small: "unat (get_src fid) < 4096"
  by (intro alias_small bit_word_eqI) (auto simp: bit_simps bit_getters)

definition dst_of :: "can_frame \<Rightarrow> node_alias" where
  "dst_of f = push_bit 8 (ucast (can_data f ! 0 AND 0xf)) OR ucast (can_data f ! 1)"

lemma dst_of_small: "unat (dst_of f) < 4096"
proof -
  have m: "(0xf :: u8) = mask 4" by (simp add: mask_eq_exp_minus_1)
  show ?thesis
    unfolding dst_of_def m by (intro alias_small bit_word_eqI) (auto simp: bit_simps dest: bit_imp_le_length)
qed

definition key_of :: "can_frame \<Rightarrow> u32" where
  "key_of f = buffer_key (dst_of f) (can_id f)"

definition sound_frame :: "can_frame \<Rightarrow> bool" where
  "sound_frame f \<longleftrightarrow> length (can_data f) = 8 \<and> unat (can_dlc f) \<le> 8"

lemma addressed_send_ok:
  assumes "if_ok st" "nh_id dh = alias_entry (local_aliases st) d" "nh_alias dh = d"
  shows "\<exists>st'. addressed_send_to_if fid dh st = Some (st', received_message st (get_src fid) d (get_mti fid) (parse_buf st)) \<and>
     kept st st' \<and> pendingBuffers st' = pendingBuffers st"
proof -
  obtain st' where s: "source_id (get_src fid) st = Some (st', source_of st (get_src fid))" "kept st st'" "same_buffers st st'"
    using source_id_ok [OF assms(1) get_src_small] by blast
  have "dh = \<lparr>nh_id = alias_entry (local_aliases st) d, nh_alias = d\<rparr>" using assms(2,3) by simp
  then show ?thesis
    using s unfolding addressed_send_to_if_def get_src_def [symmetric] get_mti_def [symmetric]
    by (simp add: received_message_def same_buffers_def Let_def)
qed

text \<open>What is collected after a frame: the earlier fragments, unless it is the first one.\<close>

definition collected :: "can_frame \<Rightarrow> if_can \<Rightarrow> payload" where
  "collected f st = (if can_data f ! 0 AND NOT_FIRST_FRAME = 0 then []
      else case pendingBuffers st (key_of f) of None \<Rightarrow> [] | Some b \<Rightarrow> b) @ drop 2 (take (unat (can_dlc f)) (can_data f))"

lemma addressed_entry_ok:
  assumes "if_ok st" "sound_frame f" "\<not> can_dlc f < 2" "alias_entry (local_aliases st) (dst_of f) \<noteq> 0"
  defines "d0 \<equiv> can_data f ! 0"
  shows "\<exists>st'. addressed_entry f st = Some (st',
       if d0 AND NOT_LAST_FRAME \<noteq> 0 then None
       else Some (received_message st (get_src (can_id f)) (dst_of f) (get_mti (can_id f)) (collected f st))) \<and>
     kept st st' \<and>
     pendingBuffers st' = (if d0 AND NOT_LAST_FRAME \<noteq> 0 then (pendingBuffers st)(key_of f := Some (collected f st))
       else if d0 AND NOT_FIRST_FRAME \<noteq> 0 then (pendingBuffers st)(key_of f := None) else pendingBuffers st)"
proof -
  obtain c where c: "lookup_alias (dst_of f) (local_aliases st) = Some (c, alias_entry (local_aliases st) (dst_of f))"
    "kept st (st\<lparr>local_aliases := c\<rparr>)" using local_lookup [OF assms(1) dst_of_small] by blast
  let ?st = "st\<lparr>local_aliases := c\<rparr>" and ?id = "alias_entry (local_aliases st) (dst_of f)"
  have e: "alias_entry c (dst_of f) = ?id" using c(2) dst_of_small by (simp add: kept_def ad.same_entries_def)
  have tail: "frame_tail f = Some (drop 2 (take (unat (can_dlc f)) (can_data f)))"
    using assms(2) by (simp add: frame_tail_def sound_frame_def Let_def)
  have data: "can_data f ! 0 = d0" "0 < length (can_data f)" "1 < length (can_data f)"
    using assms(2) by (simp_all add: d0_def sound_frame_def)
  have both: "d0 AND (NOT_FIRST_FRAME OR NOT_LAST_FRAME) = 0 \<longleftrightarrow> d0 AND NOT_FIRST_FRAME = 0 \<and> d0 AND NOT_LAST_FRAME = 0"
    by (simp add: bit.conj_disj_distrib or_eq_0_iff)
  have r: "received_message (?st\<lparr>parse_buf := p, pendingBuffers := q\<rparr>) (get_src (can_id f)) (dst_of f) (get_mti (can_id f)) bs =
      received_message st (get_src (can_id f)) (dst_of f) (get_mti (can_id f)) bs" for p q bs
    using c(2) by (intro received_kept get_src_small dst_of_small) simp
  have send: "\<exists>st'. addressed_send_to_if (can_id f) \<lparr>nh_id = ?id, nh_alias = dst_of f\<rparr> (?st\<lparr>parse_buf := p, pendingBuffers := q\<rparr>) =
        Some (st', received_message st (get_src (can_id f)) (dst_of f) (get_mti (can_id f)) p) \<and> kept st st' \<and> pendingBuffers st' = q" for p q
    using addressed_send_ok [of "?st\<lparr>parse_buf := p, pendingBuffers := q\<rparr>" "\<lparr>nh_id = ?id, nh_alias = dst_of f\<rparr>" "dst_of f" "can_id f"]
      kept_ok [OF c(2)] e c(2) kept_trans by (auto simp: r)
  have dst: "push_bit 8 (ucast (d0 AND 15)) OR ucast (can_data f ! Suc 0) = dst_of f"
    "buffer_key (dst_of f) (can_id f) = key_of f"
    by (simp_all add: dst_of_def key_of_def d0_def)
  have start: "addressed_entry f st = (if d0 AND (NOT_FIRST_FRAME OR NOT_LAST_FRAME) \<noteq> 0 then
       (if d0 AND NOT_LAST_FRAME \<noteq> 0
        then Some (?st\<lparr>pendingBuffers := (pendingBuffers st)(key_of f := Some (collected f st))\<rparr>, None)
        else Option.bind (addressed_send_to_if (can_id f) \<lparr>nh_id = ?id, nh_alias = dst_of f\<rparr>
            (?st\<lparr>parse_buf := collected f st, pendingBuffers := (pendingBuffers st)(key_of f := None)\<rparr>)) (\<lambda>(st, m). Some (st, Some m)))
     else Option.bind (addressed_send_to_if (can_id f) \<lparr>nh_id = ?id, nh_alias = dst_of f\<rparr>
            (?st\<lparr>parse_buf := drop 2 (take (unat (can_dlc f)) (can_data f))\<rparr>)) (\<lambda>(st, m). Some (st, Some m)))"
    using assms(3,4) c(1) data tail
    by (simp add: addressed_entry_def GET_CAN_FRAME_ID_EFF_def Let_def dst collected_def)
  show ?thesis
  proof (cases "d0 AND NOT_LAST_FRAME \<noteq> 0")
    case True
    then show ?thesis using start c(2) both by simp
  next
    case False
    show ?thesis
    proof (cases "d0 AND NOT_FIRST_FRAME \<noteq> 0")
      case True
      then show ?thesis
        using start False both send [where p = "collected f st" and q = "(pendingBuffers st)(key_of f := None)"] by auto
    next
      case nf: False
      then have "collected f st = drop 2 (take (unat (can_dlc f)) (can_data f))" by (simp add: collected_def data)
      moreover have "?st\<lparr>parse_buf := p, pendingBuffers := pendingBuffers st\<rparr> = ?st\<lparr>parse_buf := p\<rparr>" for p by simp
      ultimately show ?thesis
        using start False both nf send [where p = "collected f st" and q = "pendingBuffers st"] by auto
    qed
  qed
qed

definition frame_key :: "can_frame \<Rightarrow> u32 option" where
  "frame_key f = (if frame_id f AND MESSAGE_MASK = ADDRESSED_FILTER AND MESSAGE_MASK \<and> \<not> can_dlc f < 2
     then Some (key_of f) else None)"

definition between :: "node_alias \<Rightarrow> node_alias \<Rightarrow> mti \<Rightarrow> gen_message \<Rightarrow> bool" where
  "between s d m x \<longleftrightarrow> nh_alias (gm_src x) = s \<and> nh_alias (gm_dst x) = d \<and> gm_mti x = m"

lemma extended_frame:
  assumes "frame_id f AND MESSAGE_MASK = F AND MESSAGE_MASK" "\<not> bit F 30"
  shows "frame_id f = can_id f"
proof -
  have "bit MESSAGE_MASK 30" by (simp add: message_mask bit_simps)
  then have "\<not> bit (frame_id f) 30" using assms by (metis bit_and_iff)
  then show ?thesis
    by (auto simp: frame_id_def GET_CAN_FRAME_ID_EFF_def GET_CAN_FRAME_ID_def bit_simps split: if_splits)
qed

lemma filters_30: "\<not> bit ADDRESSED_FILTER 30" "\<not> bit GLOBAL_FILTER 30"
  by (simp_all add: ADDRESSED_FILTER_def GLOBAL_FILTER_def can_types mti_masks)

lemma global_mti:
  assumes "frame_id f AND MESSAGE_MASK = GLOBAL_FILTER AND MESSAGE_MASK"
  shows "\<not> bit (get_mti (can_id f)) 3"
proof -
  have "bit MESSAGE_MASK 15" "\<not> bit GLOBAL_FILTER 15"
    by (simp_all add: message_mask bit_simps bit_15) (simp add: GLOBAL_FILTER_def can_types mti_masks)
  then have "\<not> bit (frame_id f) 15" using assms by (metis bit_and_iff)
  then show ?thesis using extended_frame [OF assms filters_30(2)] by (simp add: bit_getters)
qed

lemma other_step:
  assumes "if_ok st" "sound_frame f" "frame_key f \<noteq> Some (buffer_key d (message_id s m))"
    "take_bit 12 s = s" "addressed_mti m"
  shows "\<exists>st' r. dispatch_frame f st = Some (st', r) \<and> kept st st' \<and>
     pendingBuffers st' (buffer_key d (message_id s m)) = pendingBuffers st (buffer_key d (message_id s m)) \<and>
     (\<forall>x. r = Some x \<longrightarrow> \<not> between s d m x)"
proof (cases "frame_id f AND MESSAGE_MASK = ADDRESSED_FILTER AND MESSAGE_MASK")
  case True
  then have p: "dispatch_frame f st = addressed_entry f st" by (simp add: dispatch_frame_def)
  show ?thesis
  proof (cases "can_dlc f < 2")
    case small: True
    then show ?thesis using kept_refl [OF assms(1)] by (simp add: p addressed_entry_def Let_def)
  next
    case False
    then have k: "key_of f \<noteq> buffer_key d (message_id s m)" using True assms(3) by (simp add: frame_key_def)
    show ?thesis
    proof (cases "alias_entry (local_aliases st) (dst_of f) = 0")
      case none: True
      obtain c where c: "lookup_alias (dst_of f) (local_aliases st) = Some (c, alias_entry (local_aliases st) (dst_of f))"
        "kept st (st\<lparr>local_aliases := c\<rparr>)" using local_lookup [OF assms(1) dst_of_small] by blast
      have "addressed_entry f st = Some (st\<lparr>local_aliases := c\<rparr>, None)"
        using assms(2) False c none
        by (simp add: addressed_entry_def Let_def dst_of_def [symmetric] sound_frame_def del: One_nat_def)
      then show ?thesis using c(2) by (simp add: p)
    next
      case some: False
      have "\<not> between s d m (received_message st (get_src (can_id f)) (dst_of f) (get_mti (can_id f)) bs)" for bs
        using k message_id_props [OF assms(4,5)] by (auto simp: between_def received_message_def Let_def key_of_def buffer_key_def)
      then show ?thesis
        using addressed_entry_ok [OF assms(1,2) False some] k by (auto simp: p split: if_splits)
    qed
  qed
next
  case False
  show ?thesis
  proof (cases "frame_id f AND MESSAGE_MASK = GLOBAL_FILTER AND MESSAGE_MASK")
    case True
    obtain st' where st': "source_id (get_src (can_id f)) st = Some (st', source_of st (get_src (can_id f)))" "kept st st'"
        "same_buffers st st'" using source_id_ok [OF assms(1) get_src_small] by blast
    have "get_mti (can_id f) \<noteq> m" using global_mti [OF True] addressed_mti_masks(3) [OF assms(5)] by auto
    then show ?thesis
      using False True st' assms(2)
      unfolding dispatch_frame_def global_entry_def GET_CAN_FRAME_ID_EFF_def Let_def get_src_def [symmetric] get_mti_def [symmetric]
      by (simp add: sound_frame_def same_buffers_def between_def)
  next
    case no: False
    then show ?thesis using False kept_refl [OF assms(1)] by (simp add: dispatch_frame_def)
  qed
qed

lemma fragment_dlc: "n \<le> 6 \<Longrightarrow> unat (2 + of_nat n :: u4) = 2 + n"
  by (simp add: unat_word_ariths unat_of_nat)

lemma first_byte:
  fixes d :: u16 and nf nl :: bool
  assumes "take_bit 12 d = d"
  defines "d0 \<equiv> ucast (drop_bit 8 d) OR flag_byte nf nl :: u8"
  shows "d0 AND NOT_LAST_FRAME \<noteq> 0 \<longleftrightarrow> nl" "d0 AND NOT_FIRST_FRAME \<noteq> 0 \<longleftrightarrow> nf"
    "push_bit 8 (ucast (d0 AND 0xf)) OR ucast (ucast (d AND 0xff) :: u8) = (d :: u16)"
proof -
  have b: "bit d i \<Longrightarrow> i < 12" for i using assms(1) small_bits by metis
  have hi: "ucast (drop_bit 8 d) AND (NOT_LAST_FRAME :: u8) = 0" "ucast (drop_bit 8 d) AND (NOT_FIRST_FRAME :: u8) = 0"
  proof -
    have "NOT_LAST_FRAME = 2 ^ 4" "NOT_FIRST_FRAME = 2 ^ 5"
      by (simp_all add: NOT_LAST_FRAME_def NOT_FIRST_FRAME_def)
    moreover have "\<not> bit (ucast (drop_bit 8 d) :: u8) 4" "\<not> bit (ucast (drop_bit 8 d) :: u8) 5"
      using b [of 12] b [of 13] by (auto simp: bit_simps)
    ultimately show "ucast (drop_bit 8 d) AND (NOT_LAST_FRAME :: u8) = 0" "ucast (drop_bit 8 d) AND (NOT_FIRST_FRAME :: u8) = 0"
      by (metis and_exp_eq_0_iff_not_bit)+
  qed
  show "d0 AND NOT_LAST_FRAME \<noteq> 0 \<longleftrightarrow> nl" "d0 AND NOT_FIRST_FRAME \<noteq> 0 \<longleftrightarrow> nf"
    unfolding d0_def bit.conj_disj_distrib2 hi by (simp_all add: flag_byte_def NOT_LAST_FRAME_def NOT_FIRST_FRAME_def)
  have f: "flag_byte nf nl AND mask 4 = 0" by (simp add: mask_eq_exp_minus_1 flag_byte_def NOT_LAST_FRAME_def NOT_FIRST_FRAME_def)
  have m: "(0xf :: u8) = mask 4" "(0xff :: u16) = mask 8" by (simp_all add: mask_eq_exp_minus_1)
  show "push_bit 8 (ucast (d0 AND 0xf)) OR ucast (ucast (d AND 0xff) :: u8) = (d :: u16)"
    unfolding d0_def m bit.conj_disj_distrib2 f or.right_neutral
    by (rule bit_word_eqI) (auto simp: bit_simps dest: b)
qed

lemma own_frame:
  assumes "carries s d m f (nf, nl, bs)" "take_bit 12 s = s" "take_bit 12 d = d" "addressed_mti m"
  shows "sound_frame f" "\<not> can_dlc f < 2" "dst_of f = d" "get_src (can_id f) = s" "get_mti (can_id f) = m"
    "key_of f = buffer_key d (message_id s m)" "frame_id f AND MESSAGE_MASK = ADDRESSED_FILTER AND MESSAGE_MASK"
    "can_data f ! 0 AND NOT_LAST_FRAME \<noteq> 0 \<longleftrightarrow> nl" "can_data f ! 0 AND NOT_FIRST_FRAME \<noteq> 0 \<longleftrightarrow> nf"
    "drop 2 (take (unat (can_dlc f)) (can_data f)) = bs"
proof -
  have c: "length bs \<le> 6" "can_id f = message_id s m" "length (can_data f) = 8" "can_dlc f = 2 + of_nat (length bs)"
    "take (2 + length bs) (can_data f) = [ucast (drop_bit 8 d) OR flag_byte nf nl, ucast (d AND 0xff)] @ bs" "can_eff f"
    using assms(1) by (simp_all add: carries_def)
  have u: "unat (can_dlc f) = 2 + length bs" using c(1,4) fragment_dlc by simp
  have "can_data f ! 0 = take (2 + length bs) (can_data f) ! 0" "can_data f ! 1 = take (2 + length bs) (can_data f) ! 1"
    by simp_all
  then have d: "can_data f ! 0 = ucast (drop_bit 8 d) OR flag_byte nf nl" "can_data f ! 1 = ucast (d AND 0xff)"
    unfolding c(5) by simp_all
  note i = message_id_props [OF assms(2,4)]
  show "sound_frame f" "\<not> can_dlc f < 2" using u c(1,3) by (simp_all add: sound_frame_def word_less_nat_alt)
  show dst: "dst_of f = d" unfolding dst_of_def d first_byte(3) [OF assms(3)] ..
  show "get_src (can_id f) = s" "get_mti (can_id f) = m" by (simp_all add: c(2) i)
  show "key_of f = buffer_key d (message_id s m)" by (simp add: key_of_def dst c(2))
  show "frame_id f AND MESSAGE_MASK = ADDRESSED_FILTER AND MESSAGE_MASK"
    using c(2,6) i(4) by (simp add: frame_id_def IS_CAN_FRAME_EFF_def GET_CAN_FRAME_ID_EFF_def)
  show "can_data f ! 0 AND NOT_LAST_FRAME \<noteq> 0 \<longleftrightarrow> nl" "can_data f ! 0 AND NOT_FIRST_FRAME \<noteq> 0 \<longleftrightarrow> nf"
    unfolding d by (rule first_byte [OF assms(3)])+
  show "drop 2 (take (unat (can_dlc f)) (can_data f)) = bs" unfolding u c(5) by simp
qed

subsection \<open>A message among other traffic\<close>

fun parse_run :: "can_frame list \<Rightarrow> if_can \<Rightarrow> (if_can \<times> gen_message list) option" where
  "parse_run [] st = Some (st, [])"
| "parse_run (f # fs) st = do {
     (st, r) \<leftarrow> dispatch_frame f st;
     (st, ms) \<leftarrow> parse_run fs st;
     Some (st, (case r of None \<Rightarrow> ms | Some x \<Rightarrow> x # ms))
   }"

lemma own_step:
  assumes "if_ok st" "carries s d m f (nf, nl, bs)" "take_bit 12 s = s" "take_bit 12 d = d" "addressed_mti m"
    "alias_entry (local_aliases st) d \<noteq> 0"
  defines "K \<equiv> buffer_key d (message_id s m)"
  defines "acc \<equiv> (if nf then (case pendingBuffers st K of None \<Rightarrow> [] | Some b \<Rightarrow> b) else []) @ bs"
  shows "\<exists>st'. dispatch_frame f st = Some (st', if nl then None else Some (received_message st s d m acc)) \<and> kept st st' \<and>
     (nl \<longrightarrow> pendingBuffers st' K = Some acc)"
proof -
  note o = own_frame [OF assms(2-5)]
  have "collected f st = acc" using o(6,9,10) by (auto simp: collected_def acc_def K_def)
  moreover have "dispatch_frame f st = addressed_entry f st" using o(7) by (simp add: dispatch_frame_def)
  ultimately show ?thesis
    using addressed_entry_ok [OF assms(1) o(1,2)] assms(6) o(3,4,5,6,8) by (auto simp: K_def)
qed

lemma dispatch_kept:
  assumes "if_ok st" "sound_frame f"
  shows "\<exists>st' r. dispatch_frame f st = Some (st', r) \<and> kept st st'"
proof (cases "frame_key f = Some (buffer_key 0 (message_id 0 8))")
  case False
  moreover have "addressed_mti 8" by (simp add: addressed_mti_def get_mti_address_def mti_masks)
  ultimately show ?thesis using other_step [OF assms, of 0 0 8] by auto
next
  case True
  moreover have "buffer_key 0 (message_id 0 8) \<noteq> buffer_key 1 (message_id 0 8)"
    by (simp add: buffer_key_def message_id_def set_fields_def can_types getters can_masks)
  moreover have "addressed_mti 8" by (simp add: addressed_mti_def get_mti_address_def mti_masks)
  ultimately show ?thesis using other_step [OF assms, of 1 0 8] by auto
qed

subsection \<open>The key of a reassembly buffer is too short\<close>

lemma buffer_key_low: "take_bit 8 d = take_bit 8 e \<Longrightarrow> buffer_key d fid = buffer_key e fid"
proof -
  assume a: "take_bit 8 d = take_bit 8 e"
  have "bit d i = bit e i" if "i < 8" for i using a that by (metis bit_take_bit_iff)
  then show ?thesis
    unfolding buffer_key_def Let_def by (intro bit_word_eqI) (auto simp: bit_simps)
qed

text \<open>The key has the destination above bit 24 but is cut to 32 bits: two local nodes whose
  aliases agree in eight bits share a buffer, and the first fragment for one node
  throws away what was collected for the other. The message that is then delivered has the
  bytes of both.\<close>

theorem fragments_of_two_nodes_mixed:
  assumes "if_ok st" "carries s d m f1 (False, True, b1)" "carries s e m f2 (False, True, b2)" "carries s d m f3 (True, False, b3)"
    "take_bit 12 s = s" "take_bit 12 d = d" "take_bit 12 e = e" "addressed_mti m" "take_bit 8 d = take_bit 8 e"
    "alias_entry (local_aliases st) d \<noteq> 0" "alias_entry (local_aliases st) e \<noteq> 0"
  shows "\<exists>st'. parse_run [f1, f2, f3] st = Some (st', [received_message st s d m (b2 @ b3)])"
proof -
  have small: "unat s < 4096" "unat d < 4096" "unat e < 4096" using assms(5-7) alias_small by blast+
  have entry: "alias_entry (local_aliases st') d \<noteq> 0 \<and> alias_entry (local_aliases st') e \<noteq> 0" if "kept st st'" for st'
    using that small assms(10,11) by (simp add: kept_def ad.same_entries_def)
  obtain st1 where 1: "dispatch_frame f1 st = Some (st1, None)" "kept st st1"
    using own_step [OF assms(1,2,5,6,8,10)] by auto
  obtain st2 where 2: "dispatch_frame f2 st1 = Some (st2, None)" "kept st1 st2"
    "pendingBuffers st2 (buffer_key e (message_id s m)) = Some b2"
    using own_step [OF kept_ok [OF 1(2)] assms(3,5,7,8)] entry [OF 1(2)] by auto
  have k: "kept st st2" using kept_trans 1(2) 2(2) by blast
  obtain st3 where "dispatch_frame f3 st2 = Some (st3, Some (received_message st2 s d m (b2 @ b3)))"
    using own_step [OF kept_ok [OF 2(2)] assms(4,5,6,8)] entry [OF k] 2(3) buffer_key_low [OF assms(9)] by auto
  then show ?thesis using 1(1) 2(1) received_kept [OF k small(1,2)] by simp
qed

end
