(* ===== verification/AliasFlows.thy ===== *)
theory AliasFlows
  imports CanReassembly AliasCacheRun
begin

section \<open>Alias handling of a CAN node (openlcb/IfCan.cpp, openlcb/AliasAllocator.cpp)\<close>

text \<open>
  The flows of a CAN interface that reserve, defend, learn and give up aliases. A handler of
  a frame is one step, since the buffers that it asks for are taken to be free; the
  allocator has one step per state of its flow. \<open>nd_out\<close> is the queue of the frame write
  flow, with whom to notify when the frame has left. \<open>junk\<close> is what the array of a new frame holds.
  The alias that a client waits for is taken by calling \<open>get_allocated_alias\<close> again.
\<close>

type_synonym u12 = "12 word"

datatype alias_state = STATE_EMPTY | STATE_CHECKING | STATE_RESERVED | STATE_ASSIGNED | STATE_CONFLICT

record alias_info =
  ai_alias :: u12
  ai_state :: alias_state
  ai_realloc :: bool

definition alias_info_init :: alias_info where
  "alias_info_init = \<lparr>ai_alias = 0, ai_state = STATE_EMPTY, ai_realloc = True\<rparr>"

definition do_not_reallocate :: "alias_info \<Rightarrow> alias_info" where
  "do_not_reallocate m = m\<lparr>ai_realloc := False\<rparr>"

datatype sent_note = No_note | Note_allocator | Note_global

datatype alloc_state = AL_IDLE | AL_ENTRY | AL_HANDLE_CID | AL_SEND_CID | AL_WAIT_SENT | AL_WAIT_DONE | AL_SEND_RID |
  AL_CONFLICT

datatype global_state = GQ_TERMINATED | GQ_RERUN | GQ_FIND | GQ_FILL | GQ_WAIT_SENT

record can_node =
  nd_if :: if_can
  nd_out :: "(can_frame \<times> sent_note) list"
  use_conflicts :: nat
  if_id :: node_id
  seed12 :: u12
  cid_frame_sequence :: "3 word"
  conflict_detected :: bool
  test_conflicts :: nat
  reserveUnusedAliases :: u8
  al_state :: alloc_state
  al_message :: alias_info
  al_queue :: "alias_info list"
  al_handler :: "u12 option"
  waitingClients :: "nat list"
  gq_state :: global_state
  needRerun :: bool
  nextIndex :: nat

definition send_frame :: "can_frame \<Rightarrow> sent_note \<Rightarrow> can_node \<Rightarrow> can_node" where
  "send_frame f note nd = nd\<lparr>nd_out := nd_out nd @ [(f, note)]\<rparr>"

text \<open>Using a cache of the interface.\<close>

definition with_local :: "(alias_cache \<Rightarrow> (alias_cache \<times> 'a) option) \<Rightarrow> can_node \<Rightarrow> (can_node \<times> 'a) option" where
  "with_local g nd = do { (c, r) \<leftarrow> g (local_aliases (nd_if nd)); Some (nd\<lparr>nd_if := nd_if nd\<lparr>local_aliases := c\<rparr>\<rparr>, r) }"

definition with_remote :: "(alias_cache \<Rightarrow> (alias_cache \<times> 'a) option) \<Rightarrow> can_node \<Rightarrow> (can_node \<times> 'a) option" where
  "with_remote g nd = do { (c, r) \<leftarrow> g (remote_aliases (nd_if nd)); Some (nd\<lparr>nd_if := nd_if nd\<lparr>remote_aliases := c\<rparr>\<rparr>, r) }"

definition remove_unit :: "node_alias \<Rightarrow> alias_cache \<Rightarrow> (alias_cache \<times> unit) option" where
  "remove_unit a c = do { c \<leftarrow> remove a c; Some (c, ()) }"

text \<open>An address in a control frame.\<close>

definition control_frame :: "u8 list \<Rightarrow> node_alias \<Rightarrow> u16 \<Rightarrow> u32 \<Rightarrow> can_frame" where
  "control_frame junk src field seq = control_init (new_frame junk) src field seq"

definition id_frame :: "bool \<Rightarrow> u8 list \<Rightarrow> node_alias \<Rightarrow> u16 \<Rightarrow> node_id \<Rightarrow> can_frame option" where
  "id_frame big junk src field nid = put_data 0 (node_id_to_data big nid) ((control_frame junk src field 0)\<lparr>can_dlc := 6\<rparr>)"

subsection \<open>Frames with an alias of this node (AliasConflictHandler)\<close>

definition send_reserved_alias :: "u8 list \<Rightarrow> node_alias \<Rightarrow> can_node \<Rightarrow> can_node" where
  "send_reserved_alias junk a nd = send_frame (control_frame junk a RID_FRAME 0) No_note nd"

definition send_release_alias :: "bool \<Rightarrow> u8 list \<Rightarrow> node_alias \<Rightarrow> can_node \<Rightarrow> can_node option" where
  "send_release_alias big junk a nd = do {
     (nd, node) \<leftarrow> with_local (lookup_alias a) nd;
     (nd, _) \<leftarrow> with_local (remove_unit a) nd;
     if node = 0 \<or> is_reserved_alias_node_id node then Some nd
     else do {
       f \<leftarrow> id_frame big junk a AMR_FRAME node;
       Some (send_frame f No_note nd)
     }
   }"

definition conflict_entry :: "bool \<Rightarrow> u8 list \<Rightarrow> can_frame \<Rightarrow> can_node \<Rightarrow> can_node option" where
  "conflict_entry big junk f nd =
     (let fid = GET_CAN_FRAME_ID_EFF f; a = get_src fid in
      if get_priority fid \<noteq> NORMAL_PRIORITY then Some nd
      else do {
        (nd, node) \<leftarrow> (if a \<noteq> 0 then with_local (lookup_alias a) nd else Some (nd, 0));
        if node = 0 then Some nd
        else do {
          let dst = get_dst fid;
          (nd, dnode) \<leftarrow> (if is_stream_frame fid \<and> dst \<noteq> 0 then with_local (lookup_alias dst) nd else Some (nd, 0));
          if is_stream_frame fid \<and> dnode \<noteq> 0 then Some nd
          else if is_cid_frame fid then Some (send_reserved_alias junk a nd)
          else send_release_alias big junk a (nd\<lparr>use_conflicts := use_conflicts nd + 1\<rparr>)
        }
      })"

subsection \<open>Learning aliases (RemoteAliasCacheUpdater)\<close>

definition payload_id :: "bool \<Rightarrow> can_frame \<Rightarrow> node_id option" where
  "payload_id big f = (if can_dlc f = 6 then data_to_node_id big (can_data f) else Some 0)"

definition amd_update :: "node_id \<Rightarrow> node_alias \<Rightarrow> can_node \<Rightarrow> can_node option" where
  "amd_update node a nd =
     (if node = 0 then Some nd
      else do {
        (nd, old) \<leftarrow> with_remote (lookup_id node) nd;
        if old = a then Some nd
        else do {
          (nd, _) \<leftarrow> (if old \<noteq> 0 then with_remote (remove_unit old) nd else Some (nd, ()));
          (nd, _) \<leftarrow> with_remote (add node a) nd;
          Some nd
        }
      })"

definition amr_update :: "node_id \<Rightarrow> node_alias \<Rightarrow> can_node \<Rightarrow> can_node option" where
  "amr_update node a nd = do {
     nd \<leftarrow> (if node \<noteq> 0 then do {
         (nd, old) \<leftarrow> with_remote (lookup_id node) nd;
         if old \<noteq> 0 \<and> old \<noteq> a then do { (nd, _) \<leftarrow> with_remote (remove_unit old) nd; Some nd } else Some nd
       } else Some nd);
     (nd, _) \<leftarrow> with_remote (remove_unit a) nd;
     Some nd
   }"

definition remote_entry :: "bool \<Rightarrow> can_frame \<Rightarrow> can_node \<Rightarrow> can_node option" where
  "remote_entry big f nd =
     (let fid = GET_CAN_FRAME_ID_EFF f; a = get_src fid in
      if get_frame_type fid \<noteq> CONTROL_MSG \<or> a = 0 then Some nd
      else do {
        node \<leftarrow> payload_id big f;
        if get_control_field fid = AMD_FRAME then amd_update node a nd
        else if get_control_field fid = AMR_FRAME then amr_update node a nd
        else Some nd
      })"

subsection \<open>Answering enquiries (AMEQueryHandler, AMEGlobalQueryHandler)\<close>

definition ame_entry :: "bool \<Rightarrow> can_frame \<Rightarrow> can_node \<Rightarrow> can_node option" where
  "ame_entry big f nd =
     (let fid = GET_CAN_FRAME_ID_EFF f in
      if get_frame_type fid \<noteq> CONTROL_MSG \<or> get_control_field fid \<noteq> AME_FRAME \<or> can_dlc f \<noteq> 6 then Some nd
      else do {
        node \<leftarrow> payload_id big f;
        (nd, a) \<leftarrow> with_local (lookup_id node) nd;
        if node = 0 \<or> a = 0 then Some nd
        else Some (send_frame (SET_CAN_FRAME_ID_EFF f (set_control_fields a AMD_FRAME 0)) No_note nd)
      })"

definition global_query :: "can_frame \<Rightarrow> can_node \<Rightarrow> can_node" where
  "global_query f nd =
     (if can_dlc f \<noteq> 0 then nd
      else nd\<lparr>needRerun := True, nd_if := nd_if nd\<lparr>remote_aliases := clear (remote_aliases (nd_if nd))\<rparr>,
        gq_state := (if gq_state nd = GQ_TERMINATED then GQ_RERUN else gq_state nd)\<rparr>)"

definition answers :: "alias_cache \<Rightarrow> nat \<Rightarrow> bool option" where
  "answers c i = map_option (\<lambda>r. case r of None \<Rightarrow> False | Some (n, _) \<Rightarrow> drop_bit 40 n \<noteq> 0) (retrieve i c)"

function find_next :: "alias_cache \<Rightarrow> nat \<Rightarrow> nat option" where
  "find_next c i = (if i < entries c then (case answers c i of None \<Rightarrow> None
       | Some r \<Rightarrow> if r then Some i else find_next c (Suc i))
     else Some i)"
  by auto
termination by (relation "measure (\<lambda>(c, i). entries c - i)") auto

declare find_next.simps [simp del]

definition global_step :: "bool \<Rightarrow> u8 list \<Rightarrow> can_node \<Rightarrow> can_node option" where
  "global_step big junk nd = (let c = local_aliases (nd_if nd) in
     case gq_state nd of
       GQ_TERMINATED \<Rightarrow> Some nd
     | GQ_WAIT_SENT \<Rightarrow> Some nd
     | GQ_RERUN \<Rightarrow> Some (nd\<lparr>needRerun := False, nextIndex := 0, gq_state := GQ_FIND\<rparr>)
     | GQ_FIND \<Rightarrow> do {
         i \<leftarrow> find_next c (nextIndex nd);
         Some (nd\<lparr>nextIndex := i, gq_state := (if i < entries c then GQ_FILL
             else if needRerun nd then GQ_RERUN else GQ_TERMINATED)\<rparr>)
       }
     | GQ_FILL \<Rightarrow> do {
         r \<leftarrow> retrieve (nextIndex nd) c;
         case r of None \<Rightarrow> Some (nd\<lparr>gq_state := GQ_FIND\<rparr>)
         | Some (node, a) \<Rightarrow> do {
             f \<leftarrow> put_data 0 (node_id_to_data big node)
               ((SET_CAN_FRAME_ID_EFF (new_frame junk) (set_control_fields a AMD_FRAME 0))\<lparr>can_dlc := 6\<rparr>);
             Some ((send_frame f Note_global nd)\<lparr>nextIndex := nextIndex nd + 1, gq_state := GQ_WAIT_SENT\<rparr>)
           }
       })"

subsection \<open>Reserving aliases (AliasAllocator)\<close>

definition reinit_seed :: "can_node \<Rightarrow> can_node" where
  "reinit_seed nd = (let i = if_id nd in
     nd\<lparr>seed12 := ucast (drop_bit 30 i) XOR ucast (drop_bit 18 i) XOR ucast (drop_bit 6 i) XOR
        ucast ((ucast (drop_bit 42 i) :: u16) OR ucast (push_bit 6 i))\<rparr>)"

definition seed_offset :: "node_id \<Rightarrow> u16" where
  "seed_offset i = push_bit 1 (ucast (drop_bit 36 i) XOR ucast (drop_bit 24 i) XOR ucast (drop_bit 12 i) XOR ucast i) OR 1"

definition advance_seed :: "can_node \<Rightarrow> can_node" where
  "advance_seed nd = nd\<lparr>seed12 := seed12 nd + ucast (seed_offset (if_id nd))\<rparr>"

text \<open>The loop of \<open>get_new_seed\<close>: \<open>None\<close> when the fuel is used up.\<close>

fun get_new_seed :: "nat \<Rightarrow> can_node \<Rightarrow> (can_node \<times> u12) option" where
  "get_new_seed 0 nd = None"
| "get_new_seed (Suc fuel) nd =
     (let ret = seed12 nd; nd = advance_seed nd in
      if ret = 0 then get_new_seed fuel nd
      else do {
        (nd, i) \<leftarrow> with_local (lookup_alias (ucast ret)) nd;
        if i \<noteq> 0 then get_new_seed fuel nd
        else do {
          (nd, i) \<leftarrow> with_remote (lookup_alias (ucast ret)) nd;
          if i \<noteq> 0 then get_new_seed fuel nd else Some (nd, ret)
        }
      })"

definition register_conflicts :: "can_node \<Rightarrow> can_node" where
  "register_conflicts nd = nd\<lparr>al_handler := Some (ai_alias (al_message nd))\<rparr>"

definition unregister_conflicts :: "can_node \<Rightarrow> can_node option" where
  "unregister_conflicts nd = do {
     hassert (al_handler nd = Some (ai_alias (al_message nd)));
     Some (nd\<lparr>al_handler := None\<rparr>)
   }"

definition alloc_entry :: "nat \<Rightarrow> can_node \<Rightarrow> can_node option" where
  "alloc_entry fuel nd = do {
     let nd = nd\<lparr>cid_frame_sequence := 7, conflict_detected := False\<rparr>;
     hassert (ai_state (al_message nd) = STATE_EMPTY);
     nd \<leftarrow> (if ai_alias (al_message nd) = 0 then do {
          (nd, a) \<leftarrow> get_new_seed fuel nd;
          Some (nd\<lparr>al_message := al_message nd\<lparr>ai_alias := a\<rparr>\<rparr>)
        } else Some nd);
     Some ((register_conflicts nd)\<lparr>al_state := AL_HANDLE_CID\<rparr>)
   }"

definition handle_allocate_for_cid_frame :: "can_node \<Rightarrow> can_node" where
  "handle_allocate_for_cid_frame nd =
     nd\<lparr>al_state := (if 4 \<le> cid_frame_sequence nd then AL_SEND_CID else AL_WAIT_DONE)\<rparr>"

definition cid_frame :: "u8 list \<Rightarrow> node_id \<Rightarrow> u12 \<Rightarrow> 3 word \<Rightarrow> can_frame" where
  "cid_frame junk i a sq = control_frame junk (ucast a) (ucast (drop_bit (12 * (unat sq - 4)) i AND 0xfff)) (ucast sq)"

definition send_cid_frame :: "u8 list \<Rightarrow> can_node \<Rightarrow> can_node" where
  "send_cid_frame junk nd =
     (if conflict_detected nd then nd\<lparr>al_state := AL_CONFLICT\<rparr>
      else (send_frame (cid_frame junk (if_id nd) (ai_alias (al_message nd)) (cid_frame_sequence nd)) Note_allocator nd)
        \<lparr>cid_frame_sequence := cid_frame_sequence nd - 1, al_state := AL_WAIT_SENT\<rparr>)"

definition handle_alias_conflict :: "can_node \<Rightarrow> can_node option" where
  "handle_alias_conflict nd = do {
     nd \<leftarrow> unregister_conflicts nd;
     Some (nd\<lparr>al_message := al_message nd\<lparr>ai_alias := 0, ai_state := STATE_EMPTY\<rparr>, al_state := AL_ENTRY\<rparr>)
   }"

definition wait_done :: "can_node \<Rightarrow> can_node" where
  "wait_done nd = nd\<lparr>al_state := (if conflict_detected nd then AL_CONFLICT else AL_SEND_RID)\<rparr>"

definition add_allocated_alias :: "node_alias \<Rightarrow> can_node \<Rightarrow> can_node option" where
  "add_allocated_alias a nd = do {
     (nd, _) \<leftarrow> with_local (add (get_reserved_alias_node_id a) a) nd;
     Some (nd\<lparr>waitingClients := tl (waitingClients nd)\<rparr>)
   }"

definition send_rid_frame :: "u8 list \<Rightarrow> can_node \<Rightarrow> can_node option" where
  "send_rid_frame junk nd =
     (let a = ai_alias (al_message nd) in
      if conflict_detected nd then Some (nd\<lparr>al_state := AL_CONFLICT\<rparr>)
      else do {
        let nd = send_frame (control_frame junk (ucast a) RID_FRAME 0) No_note nd;
        nd \<leftarrow> unregister_conflicts (nd\<lparr>al_message := al_message nd\<lparr>ai_state := STATE_RESERVED\<rparr>\<rparr>);
        nd \<leftarrow> add_allocated_alias (ucast a) nd;
        Some (nd\<lparr>al_state := AL_IDLE\<rparr>)
      })"

definition alloc_step :: "nat \<Rightarrow> u8 list \<Rightarrow> can_node \<Rightarrow> can_node option" where
  "alloc_step fuel junk nd = (case al_state nd of
       AL_IDLE \<Rightarrow> Some (case al_queue nd of [] \<Rightarrow> nd
         | m # q \<Rightarrow> nd\<lparr>al_message := m, al_queue := q, al_state := AL_ENTRY\<rparr>)
     | AL_ENTRY \<Rightarrow> alloc_entry fuel nd
     | AL_HANDLE_CID \<Rightarrow> Some (handle_allocate_for_cid_frame nd)
     | AL_SEND_CID \<Rightarrow> Some (send_cid_frame junk nd)
     | AL_WAIT_SENT \<Rightarrow> Some nd
     | AL_WAIT_DONE \<Rightarrow> Some (wait_done nd)
     | AL_SEND_RID \<Rightarrow> send_rid_frame junk nd
     | AL_CONFLICT \<Rightarrow> handle_alias_conflict nd)"

text \<open>The conflict handler of the allocator; it also ends the sleep of \<open>AL_WAIT_DONE\<close>.\<close>

definition alloc_conflict :: "can_node \<Rightarrow> can_node" where
  "alloc_conflict nd =
     (if conflict_detected nd then nd
      else nd\<lparr>conflict_detected := True, test_conflicts := test_conflicts nd + 1\<rparr>)"

definition CONFLICT_MASK :: u32 where "CONFLICT_MASK = NOT 0x1FFFF000"

definition alloc_frame :: "can_frame \<Rightarrow> can_node \<Rightarrow> can_node" where
  "alloc_frame f nd = (case al_handler nd of None \<Rightarrow> nd
     | Some a \<Rightarrow> if frame_id f AND CONFLICT_MASK = ucast a AND CONFLICT_MASK then alloc_conflict nd else nd)"

definition seed_allocator :: "nat \<Rightarrow> can_node \<Rightarrow> can_node" where
  "seed_allocator n nd = nd\<lparr>al_queue := al_queue nd @ replicate n alias_info_init\<rparr>"

text \<open>The loops over the reserved aliases: \<open>None\<close> when the fuel is used up.\<close>

fun num_reserved_aliases :: "nat \<Rightarrow> node_id \<Rightarrow> nat \<Rightarrow> can_node \<Rightarrow> (can_node \<times> nat) option" where
  "num_reserved_aliases 0 found_id cnt nd = None"
| "num_reserved_aliases (Suc fuel) found_id cnt nd = do {
     (nd, r) \<leftarrow> with_local (next_entry found_id) nd;
     case r of None \<Rightarrow> Some (nd, cnt)
     | Some (i, a) \<Rightarrow> if is_reserved_alias_node_id i then num_reserved_aliases fuel i (cnt + 1) nd else Some (nd, cnt)
   }"

fun clear_reserved_aliases :: "nat \<Rightarrow> can_node \<Rightarrow> can_node option" where
  "clear_reserved_aliases 0 nd = None"
| "clear_reserved_aliases (Suc fuel) nd = do {
     (nd, r) \<leftarrow> with_local (next_entry (get_reserved_alias_node_id 0)) nd;
     case r of None \<Rightarrow> Some nd
     | Some (i, a) \<Rightarrow> if is_reserved_alias_node_id i then do {
           (nd, _) \<leftarrow> with_local (remove_unit a) nd;
           clear_reserved_aliases fuel nd
         } else Some nd
   }"

definition get_allocated_alias :: "node_id \<Rightarrow> nat \<Rightarrow> can_node \<Rightarrow> (can_node \<times> node_alias) option" where
  "get_allocated_alias destination_id client nd = do {
     (nd, r) \<leftarrow> with_local (next_entry (get_reserved_alias_node_id 0)) nd;
     (nd, a, allocate_new) \<leftarrow> (case r of
         Some (found_id, a) \<Rightarrow>
           if found_id = get_reserved_alias_node_id a then do {
             (nd, _) \<leftarrow> with_local (add destination_id a) nd;
             if reserveUnusedAliases nd \<noteq> 0 then do {
               (nd, r) \<leftarrow> with_local (next_entry (get_reserved_alias_node_id 0)) nd;
               Some (nd, a, (case r of None \<Rightarrow> True | Some (next_id, _) \<Rightarrow> \<not> is_reserved_alias_node_id next_id))
             } else Some (nd, a, False)
           } else Some (nd\<lparr>waitingClients := waitingClients nd @ [client]\<rparr>, 0, True)
       | None \<Rightarrow> Some (nd\<lparr>waitingClients := waitingClients nd @ [client]\<rparr>, 0, True));
     Some (if allocate_new then nd\<lparr>al_queue := al_queue nd @ [do_not_reallocate alias_info_init]\<rparr> else nd, a)
   }"

definition return_alias :: "bool \<Rightarrow> u8 list \<Rightarrow> node_id \<Rightarrow> node_alias \<Rightarrow> can_node \<Rightarrow> can_node option" where
  "return_alias big junk i a nd = do {
     f \<leftarrow> id_frame big junk a AMR_FRAME i;
     add_allocated_alias a (send_frame f No_note nd)
   }"

definition delete_local_node :: "bool \<Rightarrow> u8 list \<Rightarrow> node_id \<Rightarrow> can_node \<Rightarrow> can_node option" where
  "delete_local_node big junk i nd = do {
     hassert (local_nodes (nd_if nd) i \<noteq> None);
     let nd = nd\<lparr>nd_if := nd_if nd\<lparr>local_nodes := (local_nodes (nd_if nd))(i := None)\<rparr>\<rparr>;
     (nd, a) \<leftarrow> with_local (lookup_id i) nd;
     if a \<noteq> 0 then do {
       (nd, _) \<leftarrow> with_local (remove_unit a) nd;
       (nd, _) \<leftarrow> with_local (add (get_reserved_alias_node_id a) a) nd;
       return_alias big junk i a nd
     } else Some nd
   }"

subsection \<open>A message needs an alias (CanMessageWriteFlow)\<close>

text \<open>The alias to send with, or \<open>None\<close> in the second component when the flow waits for one.\<close>

definition find_local_alias :: "bool \<Rightarrow> u8 list \<Rightarrow> node_id \<Rightarrow> nat \<Rightarrow> can_node \<Rightarrow> (can_node \<times> node_alias option) option" where
  "find_local_alias big junk i client nd = do {
     (nd, a) \<leftarrow> with_local (lookup_id i) nd;
     if a \<noteq> 0 then Some (nd, Some a)
     else do {
       (nd, a) \<leftarrow> get_allocated_alias i client nd;
       if a = 0 then Some (nd, None)
       else do {
         f \<leftarrow> id_frame big junk a AMD_FRAME i;
         Some (send_frame f No_note nd, Some a)
       }
     }
   }"

subsection \<open>Dispatching a frame\<close>

definition CONTROL_FILTER :: u32 where "CONTROL_FILTER = push_bit 27 CONTROL_MSG"
definition CONTROL_MASK :: u32 where "CONTROL_MASK = NOT 0x1FFFFFFF OR FRAME_TYPE_MASK"
definition AME_FILTER :: u32 where "AME_FILTER = push_bit 27 CONTROL_MSG OR push_bit 12 (ucast AME_FRAME)"
definition AME_MASK :: u32 where "AME_MASK = NOT 0x1FFFFFFF OR FRAME_TYPE_MASK OR CONTROL_FIELD_MASK"
definition ANY_EXT_MASK :: u32 where "ANY_EXT_MASK = NOT (push_bit 30 1 - 1)"

definition matches :: "can_frame \<Rightarrow> u32 \<Rightarrow> u32 \<Rightarrow> bool" where
  "matches f i m \<longleftrightarrow> frame_id f AND m = i AND m"

text \<open>The handlers in the order of their registration.\<close>

definition control_handlers :: "bool \<Rightarrow> u8 list \<Rightarrow> can_frame \<Rightarrow> can_node \<Rightarrow> can_node option" where
  "control_handlers big junk f nd = do {
     nd \<leftarrow> (if matches f 0 ANY_EXT_MASK then conflict_entry big junk f nd else Some nd);
     nd \<leftarrow> (if matches f CONTROL_FILTER CONTROL_MASK then remote_entry big f nd else Some nd);
     if matches f AME_FILTER AME_MASK then do {
       nd \<leftarrow> ame_entry big f nd;
       Some (global_query f nd)
     } else Some nd
   }"

definition node_frame :: "bool \<Rightarrow> u8 list \<Rightarrow> can_frame \<Rightarrow> can_node \<Rightarrow> (can_node \<times> gen_message option) option" where
  "node_frame big junk f nd = do {
     nd \<leftarrow> control_handlers big junk f nd;
     (i, r) \<leftarrow> dispatch_frame f (nd_if nd);
     Some (alloc_frame f (nd\<lparr>nd_if := i\<rparr>), r)
   }"

text \<open>The first frame of the queue leaves; its sender goes on.\<close>

definition frame_sent :: "can_node \<Rightarrow> can_node" where
  "frame_sent nd = (case nd_out nd of [] \<Rightarrow> nd
     | (f, note) # q \<Rightarrow>
        (let nd = nd\<lparr>nd_out := q\<rparr> in
         case note of No_note \<Rightarrow> nd
         | Note_allocator \<Rightarrow> nd\<lparr>al_state := AL_HANDLE_CID\<rparr>
         | Note_global \<Rightarrow> nd\<lparr>gq_state := GQ_FIND\<rparr>))"

end
