(* ===== verification/AliasNode.thy ===== *)
theory AliasNode
  imports AliasFlows AliasCacheGen
begin

section \<open>What the alias flows of a node keep\<close>

text \<open>
  The contract of an alias cache with what the flows use of it, its interpretation on the
  model of the cache, and for every handler and flow: that it succeeds, which aliases the node
  owns afterwards, and what it puts into the queue of outgoing frames.
\<close>

subsection \<open>A directory that can be changed\<close>

definition proper_id :: "node_id \<Rightarrow> bool" where
  "proper_id i \<longleftrightarrow> i \<noteq> 0 \<and> unat i < 2 ^ 48"

locale alias_store = alias_directory inv entry find for inv :: "'c \<Rightarrow> bool" and entry and find +
  fixes put :: "node_id \<Rightarrow> node_alias \<Rightarrow> 'c \<Rightarrow> ('c \<times> 'l) option"
    and drop_alias :: "node_alias \<Rightarrow> 'c \<Rightarrow> ('c \<times> unit) option"
    and find_id :: "node_id \<Rightarrow> 'c \<Rightarrow> ('c \<times> node_alias) option"
    and after :: "node_id \<Rightarrow> 'c \<Rightarrow> ('c \<times> (node_id \<times> node_alias) option) option"
  assumes put_ok: "inv c \<Longrightarrow> proper_id i \<Longrightarrow> valid_alias a \<Longrightarrow>
      \<exists>d l. put i a c = Some (d, l) \<and> inv d \<and>
        (\<forall>b. unat b < 4096 \<longrightarrow> (if b = a then entry d b = i else entry d b = 0 \<or> entry d b = entry c b))"
    and drop_ok: "inv c \<Longrightarrow> \<exists>d. drop_alias a c = Some (d, ()) \<and> inv d \<and>
        (\<forall>b. unat b < 4096 \<longrightarrow> (if b = a then entry d b = 0 else entry d b = 0 \<or> entry d b = entry c b))"
    and find_id_ok: "inv c \<Longrightarrow> i \<noteq> 0 \<Longrightarrow> \<exists>d a. find_id i c = Some (d, a) \<and> inv d \<and>
        (\<forall>b. unat b < 4096 \<longrightarrow> entry d b = entry c b) \<and> (a = 0 \<or> valid_alias a \<and> (unat a < 4096 \<longrightarrow> entry c a = i))"
    and after_ok: "inv c \<Longrightarrow> \<exists>d r. after i c = Some (d, r) \<and> inv d \<and>
        (\<forall>b. unat b < 4096 \<longrightarrow> entry d b = entry c b) \<and>
        (\<forall>j a. r = Some (j, a) \<longrightarrow> i < j \<and> valid_alias a \<and> (unat a < 4096 \<longrightarrow> entry c a = j))"
begin

definition grows :: "node_alias set \<Rightarrow> 'c \<Rightarrow> 'c \<Rightarrow> bool" where
  "grows A c d \<longleftrightarrow> inv d \<and> (\<forall>b. unat b < 4096 \<longrightarrow> b \<notin> A \<longrightarrow> entry d b \<noteq> 0 \<longrightarrow> entry c b \<noteq> 0)"

lemma grows_refl: "inv c \<Longrightarrow> grows A c c"
  by (simp add: grows_def)

lemma grows_trans: "grows A c d \<Longrightarrow> grows A d e \<Longrightarrow> grows A c e"
  by (auto simp: grows_def)

lemma find_grows: "inv c \<Longrightarrow> unat a < 4096 \<Longrightarrow> \<exists>d. find a c = Some (d, entry c a) \<and> grows {} c d"
  using lookup_ok [of c a] by (force simp: grows_def)

lemma put_grows:
  assumes "inv c" "proper_id i" "valid_alias a"
  shows "\<exists>d l. put i a c = Some (d, l) \<and> grows {a} c d \<and> (unat a < 4096 \<longrightarrow> entry d a = i)"
proof -
  obtain d l where d: "put i a c = Some (d, l)" "inv d"
    "\<And>b. unat b < 4096 \<Longrightarrow> (if b = a then entry d b = i else entry d b = 0 \<or> entry d b = entry c b)"
    using put_ok [OF assms] by blast
  have "grows {a} c d" unfolding grows_def using d(2,3) by (metis singletonI)
  then show ?thesis using d(1) d(3) [of a] by auto
qed

lemma drop_grows:
  assumes "inv c"
  shows "\<exists>d. drop_alias a c = Some (d, ()) \<and> grows {} c d \<and> (unat a < 4096 \<longrightarrow> entry d a = 0)"
proof -
  obtain d where d: "drop_alias a c = Some (d, ())" "inv d"
    "\<And>b. unat b < 4096 \<Longrightarrow> (if b = a then entry d b = 0 else entry d b = 0 \<or> entry d b = entry c b)"
    using drop_ok [OF assms] by blast
  have "grows {} c d" unfolding grows_def using d(2,3) by metis
  then show ?thesis using d(1) d(3) [of a] by auto
qed

lemma find_id_grows: "inv c \<Longrightarrow> i \<noteq> 0 \<Longrightarrow>
    \<exists>d a. find_id i c = Some (d, a) \<and> grows {} c d \<and> (a = 0 \<or> valid_alias a \<and> (unat a < 4096 \<longrightarrow> entry c a = i))"
  using find_id_ok [of c i] unfolding grows_def by metis

lemma after_grows: "inv c \<Longrightarrow> \<exists>d r. after i c = Some (d, r) \<and> grows {} c d \<and>
    (\<forall>j a. r = Some (j, a) \<longrightarrow> i < j \<and> valid_alias a \<and> (unat a < 4096 \<longrightarrow> entry c a = j))"
  using after_ok [of c i] unfolding grows_def by metis

end

lemma alias_entry_mem:
  assumes "ac_inv c" "for_each c = Some l" "unat a < 4096"
  shows "alias_entry c a \<noteq> 0 \<longleftrightarrow> a \<in> snd ` set l" "(i, a) \<in> set l \<Longrightarrow> alias_entry c a = i"
proof -
  have 1: "alias_entry c a = i" if p: "(i, a) \<in> set l" for i
  proof -
    have "List.find (\<lambda>p. snd p = a) l \<noteq> None" using p by (auto simp: find_None_iff)
    then obtain q where q: "List.find (\<lambda>p. snd p = a) l = Some q" by blast
    then have "q \<in> set l" "snd q = a" by (auto simp: find_Some_iff)
    then have "q = (i, a)" using alias_unique [OF assms(1,2) _ p _ _ assms(3)] by simp
    then show ?thesis using q by (simp add: alias_entry_def assms(2))
  qed
  then show "(i, a) \<in> set l \<Longrightarrow> alias_entry c a = i" .
  have "alias_entry c a = 0" if "a \<notin> snd ` set l"
  proof -
    have "List.find (\<lambda>p. snd p = a) l = None" using that by (force simp: find_None_iff)
    then show ?thesis by (simp add: alias_entry_def assms(2))
  qed
  then show "alias_entry c a \<noteq> 0 \<longleftrightarrow> a \<in> snd ` set l"
    using 1 contents_ids [OF assms(1,2)] by (metis (no_types, lifting) fst_conv imageE prod.collapse)
qed

lemma alias_entry_zero: "cache_ok c \<Longrightarrow> alias_entry c 0 = 0"
proof -
  assume "cache_ok c"
  then have c: "ac_inv c" by (simp add: cache_ok_def)
  obtain l where l: "for_each c = Some l" using c for_each_ok by (auto simp: ac_inv_def)
  have "0 \<notin> snd ` set l" using contents_distinct [OF c l] by (auto simp: list_all_iff valid_alias_def)
  then show ?thesis using alias_entry_mem(1) [OF c l, of 0] by simp
qed

text \<open>When the contents of a cache become some of the old ones.\<close>

lemma alias_entry_shrink:
  assumes "ac_inv c" "for_each c = Some l" "ac_inv d" "for_each d = Some k" "unat b < 4096"
    "\<And>i. (i, b) \<in> set k \<Longrightarrow> (i, b) \<in> set l"
  shows "alias_entry d b = 0 \<or> alias_entry d b = alias_entry c b"
proof (cases "alias_entry d b = 0")
  case False
  then obtain i where "(i, b) \<in> set k" using alias_entry_mem(1) [OF assms(3,4,5)] by force
  then show ?thesis
    using alias_entry_mem(2) [OF assms(3,4,5)] alias_entry_mem(2) [OF assms(1,2,5)] assms(6) by metis
qed simp

lemma alias_entry_same:
  assumes "ac_inv c" "for_each c = Some l" "ac_inv d" "for_each d = Some k" "unat b < 4096" "set k = set l"
  shows "alias_entry d b = alias_entry c b"
  using alias_entry_shrink [OF assms(1-5)] alias_entry_shrink [OF assms(3,4,1,2,5)] assms(6) by auto

lemma remove_any:
  assumes "ac_inv c" "for_each c = Some l"
  shows "\<exists>d k. remove a c = Some d \<and> ac_inv d \<and> same_config c d \<and> for_each d = Some k \<and> set k \<subseteq> set l"
proof -
  obtain lru free where r: "ac_repr c lru free" using assms(1) by (auto simp: ac_inv_def)
  then have l: "l = resolved (pairs c lru)" using for_each_ok assms(2) by simp
  show ?thesis
  proof (cases "a \<in> akey c ` set lru")
    case False
    obtain d where d: "remove a c = Some d" "ac_repr d lru free" "pool d = pool c" "same_config c d"
      using remove_miss [OF r False] by blast
    have "pairs d lru = pairs c lru" by (rule pairs_cong) (simp_all add: akey_def ikey_def d(3))
    with d for_each_ok [OF d(2)] show ?thesis by (auto simp: ac_inv_def l)
  next
    case True
    then obtain x where x: "x \<in> set lru" "akey c x = a" by auto
    obtain xs ys where s: "lru = xs @ x # ys" using x(1) by (meson split_list)
    obtain d where d: "remove a c = Some d" "ac_repr d (xs @ ys) (x # free)" "akey d = akey c"
      "ikey d = (ikey c)(x := 0)" "same_config c d"
      using remove_hit [OF r [unfolded s]] x(2) by auto
    have "pairs d (xs @ ys) = pairs c (xs @ ys)"
      using ac_repr_inj(3) [OF r] by (intro pairs_cong) (auto simp: d(3,4) s)
    then have "set (resolved (pairs d (xs @ ys))) \<subseteq> set l"
      by (auto simp: l s resolved_pairs_mem)
    with d for_each_ok [OF d(2)] show ?thesis by (auto simp: ac_inv_def)
  qed
qed

lemma next_reads:
  assumes "next_entry b c = Some (d, r)"
  shows "same_config c d"
  using assms
  by (auto simp: next_entry_def same_config_def Let_def split: if_splits prod.splits bind_splits)

interpretation st: alias_store cache_ok alias_entry lookup_alias add remove_unit lookup_id next_entry
proof
  fix c i a
  assume "cache_ok c" and i: "proper_id i" and a: "valid_alias a"
  then have c: "ac_inv c" "0 < entries c" by (simp_all add: cache_ok_def)
  obtain l where l: "for_each c = Some l" using c(1) for_each_ok by (auto simp: ac_inv_def)
  obtain d r log where d: "run_op (Add i a) c = Some (d, r, log)" "ac_inv d" "same_config c d"
    "for_each d = Some (fst (spec_add (entries c) i a a l))"
    using run_op_refines [OF c(1,2) _ l, of "Add i a"] i a by (auto simp: proper_id_def)
  let ?k = "fst (spec_add (entries c) i a a l)"
  have k: "(i, a) \<in> set ?k" "\<And>p. p \<in> set ?k \<Longrightarrow> p = (i, a) \<or> p \<in> set l"
    by (auto simp: spec_add_def Let_def dest: in_set_butlastD split: if_splits)
  have "if b = a then alias_entry d b = i else alias_entry d b = 0 \<or> alias_entry d b = alias_entry c b"
    if b: "unat b < 4096" for b
    using alias_entry_mem(2) [OF d(2,4) b] k alias_entry_shrink [OF c(1) l d(2,4) b] by auto
  moreover have "add i a c = Some (d, log)" using d(1) by (auto split: bind_splits)
  moreover have "cache_ok d" using c(2) d(2,3) by (simp add: cache_ok_def same_config_def)
  ultimately show "\<exists>d l. add i a c = Some (d, l) \<and> cache_ok d \<and> (\<forall>b. unat b < 4096 \<longrightarrow>
      (if b = a then alias_entry d b = i else alias_entry d b = 0 \<or> alias_entry d b = alias_entry c b))" by blast
next
  fix c a
  assume "cache_ok c"
  then have c: "ac_inv c" "0 < entries c" by (simp_all add: cache_ok_def)
  obtain l where l: "for_each c = Some l" using c(1) for_each_ok by (auto simp: ac_inv_def)
  obtain d k where d: "remove a c = Some d" "ac_inv d" "same_config c d" "for_each d = Some k" "set k \<subseteq> set l"
    using remove_any [OF c(1) l] by blast
  have "alias_entry d a = 0" if "unat a < 4096"
    using alias_entry_mem(1) [OF d(2,4) that] remove_contents [OF c(1) that l] d(1,4) by auto
  then have "if b = a then alias_entry d b = 0 else alias_entry d b = 0 \<or> alias_entry d b = alias_entry c b"
    if b: "unat b < 4096" for b
    using b alias_entry_shrink [OF c(1) l d(2,4) b] d(5) by auto
  moreover have "cache_ok d" using c(2) d(2,3) by (simp add: cache_ok_def same_config_def)
  ultimately show "\<exists>d. remove_unit a c = Some (d, ()) \<and> cache_ok d \<and> (\<forall>b. unat b < 4096 \<longrightarrow>
      (if b = a then alias_entry d b = 0 else alias_entry d b = 0 \<or> alias_entry d b = alias_entry c b))"
    using d(1) by (simp add: remove_unit_def)
next
  fix c i
  assume "cache_ok c" and i: "i \<noteq> (0 :: node_id)"
  then have c: "ac_inv c" "0 < entries c" by (simp_all add: cache_ok_def)
  obtain l where l: "for_each c = Some l" using c(1) for_each_ok by (auto simp: ac_inv_def)
  let ?a = "case List.find (\<lambda>p. fst p = i) l of None \<Rightarrow> 0 | Some p \<Rightarrow> snd p"
  obtain d where d: "lookup_id i c = Some (d, ?a)" "ac_inv d" "same_config c d" "for_each d = Some (to_front (\<lambda>p. fst p = i) l)"
    using lookup_id_contents [OF c(1) i l] by blast
  have same: "set (to_front (\<lambda>p. fst p = i) l) = set l" by (auto simp: to_front_def)
  have "?a = 0 \<or> valid_alias ?a \<and> (unat ?a < 4096 \<longrightarrow> alias_entry c ?a = i)"
  proof (cases "List.find (\<lambda>p. fst p = i) l")
    case (Some p)
    then have p: "p \<in> set l" "fst p = i" by (auto simp: find_Some_iff)
    then have "valid_alias (snd p)" using contents_distinct [OF c(1) l] by (simp add: list_all_iff)
    then show ?thesis using Some p alias_entry_mem(2) [OF c(1) l, of "snd p" i] by (metis option.simps(5) prod.collapse)
  qed simp
  moreover have "cache_ok d" using c(2) d(2,3) by (simp add: cache_ok_def same_config_def)
  ultimately show "\<exists>d a. lookup_id i c = Some (d, a) \<and> cache_ok d \<and> (\<forall>b. unat b < 4096 \<longrightarrow> alias_entry d b = alias_entry c b) \<and>
      (a = 0 \<or> valid_alias a \<and> (unat a < 4096 \<longrightarrow> alias_entry c a = i))"
    using d(1) alias_entry_same [OF c(1) l d(2,4) _ same] by blast
next
  fix c i
  assume "cache_ok c"
  then have c: "ac_inv c" "0 < entries c" by (simp_all add: cache_ok_def)
  obtain l where l: "for_each c = Some l" using c(1) for_each_ok by (auto simp: ac_inv_def)
  obtain d r where d: "next_entry i c = Some (d, r)" "ac_inv d" "for_each d = Some l"
    "case r of None \<Rightarrow> \<forall>p \<in> set l. fst p \<le> i | Some p \<Rightarrow> p \<in> set l \<and> i < fst p \<and> (\<forall>q \<in> set l. i < fst q \<longrightarrow> fst p \<le> fst q)"
    using next_entry_contents [OF c(1) l] by blast
  have "i < j \<and> valid_alias a \<and> (unat a < 4096 \<longrightarrow> alias_entry c a = j)" if "r = Some (j, a)" for j a
  proof -
    have m: "(j, a) \<in> set l" "i < j" using d(4) that by simp_all
    have "valid_alias a" using contents_distinct [OF c(1) l] m(1) by (force simp: list_all_iff)
    then show ?thesis using m alias_entry_mem(2) [OF c(1) l _ m(1)] by blast
  qed
  moreover have "cache_ok d" using c(2) d(2) next_reads [OF d(1)] by (simp add: cache_ok_def same_config_def)
  ultimately show "\<exists>d r. next_entry i c = Some (d, r) \<and> cache_ok d \<and> (\<forall>b. unat b < 4096 \<longrightarrow> alias_entry d b = alias_entry c b) \<and>
      (\<forall>j a. r = Some (j, a) \<longrightarrow> i < j \<and> valid_alias a \<and> (unat a < 4096 \<longrightarrow> alias_entry c a = j))"
    using d(1) alias_entry_same [OF c(1) l d(2,3)] by blast
qed

subsection \<open>What a node owns and does beside its allocator\<close>

definition own :: "can_node \<Rightarrow> u12 set" where
  "own nd = {a. alias_entry (local_aliases (nd_if nd)) (ucast a) \<noteq> 0}"

definition nd_ok :: "can_node \<Rightarrow> bool" where
  "nd_ok nd \<longleftrightarrow> if_ok (nd_if nd)"

definition alloc_part :: "can_node \<Rightarrow> alloc_state \<times> alias_info \<times> u12 option \<times> 3 word \<times> bool" where
  "alloc_part nd = (al_state nd, al_message nd, al_handler nd, cid_frame_sequence nd, conflict_detected nd)"

definition plain_frames :: "(can_frame \<times> sent_note) list \<Rightarrow> bool" where
  "plain_frames fs \<longleftrightarrow> (\<forall>(f, n) \<in> set fs. sound_frame f \<and> n \<noteq> Note_allocator)"

text \<open>A step that leaves the allocator alone, takes no new alias and only queues frames.\<close>

definition aside :: "can_node \<Rightarrow> can_node \<Rightarrow> bool" where
  "aside nd nd' \<longleftrightarrow> nd_ok nd' \<and> own nd' \<subseteq> own nd \<and> alloc_part nd' = alloc_part nd \<and>
     (\<exists>fs. nd_out nd' = nd_out nd @ fs \<and> plain_frames fs)"

lemma aside_refl: "nd_ok nd \<Longrightarrow> aside nd nd"
  by (simp add: aside_def plain_frames_def)

lemma aside_trans: "aside a b \<Longrightarrow> aside b c \<Longrightarrow> aside a c"
  unfolding aside_def plain_frames_def by fastforce

lemma aside_ok: "aside a b \<Longrightarrow> nd_ok b"
  by (simp add: aside_def)

lemma aside_own: "aside a b \<Longrightarrow> x \<in> own b \<Longrightarrow> x \<in> own a"
  by (auto simp: aside_def)

lemma ucast12_small: "unat (ucast (a :: u12) :: u16) < 4096"
  by (intro alias_small bit_word_eqI) (auto simp: bit_simps dest: bit_imp_le_length)

lemma ucast12_back: "ucast (ucast (a :: u12) :: u16) = a"
  by (rule bit_word_eqI) (auto simp: bit_simps)

lemma ucast12_16: "unat (b :: u16) < 4096 \<Longrightarrow> ucast (ucast b :: u12) = b"
proof -
  assume "unat b < 4096"
  then have "take_bit 12 b = b" by (intro take_bit_unat_less) simp
  then have "\<And>i. bit b i \<Longrightarrow> i < 12" by (rule small_bits)
  then show ?thesis by (intro bit_word_eqI) (auto simp: bit_simps)
qed

lemma ucast12_0: "ucast (a :: u12) = (0 :: u16) \<longleftrightarrow> a = 0"
  using ucast12_back [of a] by (metis ucast_0)

lemma own_grows:
  assumes "st.grows (ucast ` A) (local_aliases (nd_if nd)) (local_aliases (nd_if nd'))"
  shows "own nd' \<subseteq> own nd \<union> A"
proof
  fix x
  assume "x \<in> own nd'"
  moreover have "ucast x \<notin> (ucast :: u12 \<Rightarrow> u16) ` A" if "x \<notin> A"
    using that by (metis (no_types) imageE ucast12_back)
  ultimately show "x \<in> own nd \<union> A"
    using assms ucast12_small [of x] by (auto simp: own_def st.grows_def)
qed

lemma asideI:
  assumes "st.grows (ucast ` A) (local_aliases (nd_if nd)) (local_aliases (nd_if nd'))" "A \<subseteq> own nd"
    "cache_ok (remote_aliases (nd_if nd'))" "alloc_part nd' = alloc_part nd"
    "nd_out nd' = nd_out nd @ fs" "plain_frames fs"
  shows "aside nd nd'"
  using assms own_grows [OF assms(1)] by (auto simp: aside_def nd_ok_def if_ok_def st.grows_def)

lemmas node_defs = with_local_def with_remote_def nd_ok_def if_ok_def alloc_part_def plain_frames_def

subsection \<open>Using the caches\<close>

lemma local_find:
  assumes "nd_ok nd" "unat a < 4096"
  shows "\<exists>nd'. with_local (lookup_alias a) nd = Some (nd', alias_entry (local_aliases (nd_if nd)) a) \<and> aside nd nd' \<and>
     nd_out nd' = nd_out nd \<and> own nd' = own nd"
proof -
  let ?c = "local_aliases (nd_if nd)"
  obtain d where d: "lookup_alias a ?c = Some (d, alias_entry ?c a)" "ad.same_entries ?c d"
    using ad.lookup_same [of ?c a] assms by (auto simp: nd_ok_def if_ok_def)
  let ?nd = "nd\<lparr>nd_if := nd_if nd\<lparr>local_aliases := d\<rparr>\<rparr>"
  have "own ?nd = own nd" using d(2) ucast12_small by (simp add: own_def ad.same_entries_def)
  moreover have "aside nd ?nd"
    using d(2) assms(1) calculation by (simp add: aside_def ad.same_entries_def node_defs)
  ultimately show ?thesis using d(1) by (simp add: with_local_def)
qed

lemma local_find_id:
  assumes "nd_ok nd" "i \<noteq> 0"
  shows "\<exists>nd' a. with_local (lookup_id i) nd = Some (nd', a) \<and> aside nd nd' \<and> nd_out nd' = nd_out nd \<and>
     (a = 0 \<or> valid_alias a) \<and> (a \<noteq> 0 \<longrightarrow> unat a < 4096 \<longrightarrow> ucast a \<in> own nd)"
proof -
  let ?c = "local_aliases (nd_if nd)"
  obtain d a where d: "lookup_id i ?c = Some (d, a)" "st.grows {} ?c d"
    "a = 0 \<or> valid_alias a \<and> (unat a < 4096 \<longrightarrow> alias_entry ?c a = i)"
    using st.find_id_grows [of ?c i] assms by (auto simp: nd_ok_def if_ok_def)
  have "aside nd (nd\<lparr>nd_if := nd_if nd\<lparr>local_aliases := d\<rparr>\<rparr>)"
    using d(2) assms(1) by (intro asideI [where A = "{}" and fs = "[]"]) (simp_all add: node_defs)
  moreover have "a \<noteq> 0 \<longrightarrow> unat a < 4096 \<longrightarrow> ucast a \<in> own nd"
    using d(3) assms(2) by (auto simp: own_def ucast12_16)
  ultimately show ?thesis using d(1,3) by (auto simp: with_local_def)
qed

lemma local_remove:
  assumes "nd_ok nd"
  shows "\<exists>nd'. with_local (remove_unit a) nd = Some (nd', ()) \<and> aside nd nd' \<and> nd_out nd' = nd_out nd"
proof -
  let ?c = "local_aliases (nd_if nd)"
  obtain d where d: "remove_unit a ?c = Some (d, ())" "st.grows {} ?c d"
    using st.drop_grows [of ?c a] assms by (auto simp: nd_ok_def if_ok_def)
  have "aside nd (nd\<lparr>nd_if := nd_if nd\<lparr>local_aliases := d\<rparr>\<rparr>)"
    using d(2) assms(1) by (intro asideI [where A = "{}" and fs = "[]"]) (simp_all add: node_defs)
  then show ?thesis using d(1) by (auto simp: with_local_def)
qed

lemma local_add:
  assumes "nd_ok nd" "proper_id i" "valid_alias a"
  shows "\<exists>nd' l. with_local (add i a) nd = Some (nd', l) \<and> nd_ok nd' \<and> nd_out nd' = nd_out nd \<and>
     alloc_part nd' = alloc_part nd \<and> own nd' \<subseteq> own nd \<union> {x. ucast x = a} \<and> (unat a < 4096 \<longrightarrow> ucast a \<in> own nd')"
proof -
  let ?c = "local_aliases (nd_if nd)"
  obtain d l where d: "add i a ?c = Some (d, l)" "st.grows {a} ?c d" "unat a < 4096 \<longrightarrow> alias_entry d a = i"
    using st.put_grows [of ?c i a] assms by (auto simp: nd_ok_def if_ok_def)
  let ?nd = "nd\<lparr>nd_if := nd_if nd\<lparr>local_aliases := d\<rparr>\<rparr>"
  have "own ?nd \<subseteq> own nd \<union> {x. ucast x = a}"
    using d(2) ucast12_small by (auto simp: own_def st.grows_def)
  moreover have "unat a < 4096 \<longrightarrow> ucast a \<in> own ?nd"
    using d(3) assms(2) by (auto simp: own_def ucast12_16 proper_id_def)
  moreover have "nd_ok ?nd" using d(2) assms(1) by (simp add: node_defs st.grows_def)
  ultimately show ?thesis using d(1) by (auto simp: with_local_def alloc_part_def)
qed

lemma local_next:
  assumes "nd_ok nd"
  shows "\<exists>nd' r. with_local (next_entry i) nd = Some (nd', r) \<and> aside nd nd' \<and> nd_out nd' = nd_out nd \<and> own nd' = own nd \<and>
     (\<forall>j a. r = Some (j, a) \<longrightarrow> i < j \<and> valid_alias a \<and> (unat a < 4096 \<longrightarrow> ucast a \<in> own nd))"
proof -
  let ?c = "local_aliases (nd_if nd)"
  obtain d r where d: "next_entry i ?c = Some (d, r)" "cache_ok d" "\<forall>b. unat b < 4096 \<longrightarrow> alias_entry d b = alias_entry ?c b"
    "\<forall>j a. r = Some (j, a) \<longrightarrow> i < j \<and> valid_alias a \<and> (unat a < 4096 \<longrightarrow> alias_entry ?c a = j)"
    using st.after_ok [of ?c i] assms by (auto simp: nd_ok_def if_ok_def)
  let ?nd = "nd\<lparr>nd_if := nd_if nd\<lparr>local_aliases := d\<rparr>\<rparr>"
  have o: "own ?nd = own nd" using d(3) ucast12_small by (simp add: own_def)
  moreover have "aside nd ?nd" using d(2) assms(1) o by (simp add: aside_def node_defs)
  moreover have "ucast a \<in> own nd" if "r = Some (j, a)" "unat a < 4096" for j a
    using d(4) that by (auto simp: own_def ucast12_16)
  ultimately show ?thesis using d(1,4) by (auto simp: with_local_def)
qed

lemma remote_aside:
  assumes "nd_ok nd" "cache_ok d"
  shows "aside nd (nd\<lparr>nd_if := nd_if nd\<lparr>remote_aliases := d\<rparr>\<rparr>)"
  using assms by (simp add: aside_def own_def node_defs)

lemma remote_ops:
  assumes "nd_ok nd"
  shows "i \<noteq> 0 \<Longrightarrow> \<exists>nd' a. with_remote (lookup_id i) nd = Some (nd', a) \<and> aside nd nd'"
    "\<exists>nd'. with_remote (remove_unit a) nd = Some (nd', ()) \<and> aside nd nd'"
    "proper_id i \<Longrightarrow> valid_alias a \<Longrightarrow> \<exists>nd' l. with_remote (add i a) nd = Some (nd', l) \<and> aside nd nd'"
proof -
  let ?c = "remote_aliases (nd_if nd)"
  have c: "cache_ok ?c" using assms by (simp add: nd_ok_def if_ok_def)
  show "\<exists>nd' a. with_remote (lookup_id i) nd = Some (nd', a) \<and> aside nd nd'" if "i \<noteq> 0"
    using st.find_id_grows [OF c that] remote_aside [OF assms] by (force simp: with_remote_def st.grows_def)
  show "\<exists>nd'. with_remote (remove_unit a) nd = Some (nd', ()) \<and> aside nd nd'"
    using st.drop_grows [OF c, of a] remote_aside [OF assms] by (force simp: with_remote_def st.grows_def)
  show "\<exists>nd' l. with_remote (add i a) nd = Some (nd', l) \<and> aside nd nd'" if "proper_id i" "valid_alias a"
    using st.put_grows [OF c that] remote_aside [OF assms] by (force simp: with_remote_def st.grows_def)
qed

subsection \<open>Frames\<close>

definition from_alias :: "u12 \<Rightarrow> can_frame \<Rightarrow> bool" where
  "from_alias a f \<longleftrightarrow> can_eff f \<and> can_id f AND NOT 0x1FFFFFFF = 0 \<and> get_src (can_id f) = ucast a"

definition claiming :: "u12 \<Rightarrow> can_frame \<Rightarrow> bool" where
  "claiming a f \<longleftrightarrow> from_alias a f \<and> is_cid_frame (can_id f)"

lemma control_frame_sound: "length junk = 8 \<Longrightarrow> sound_frame (control_frame junk a fld sq)"
  by (simp add: sound_frame_def control_frame_def control_init_def frame_flags)

lemma id_frame_sound:
  assumes "length junk = 8"
  shows "\<exists>f. id_frame big junk a fld i = Some f \<and> sound_frame f"
  using assms
  by (simp add: id_frame_def control_frame_def control_init_def frame_flags put_data_def node_id_bytes sound_frame_def)

lemma aside_send: "nd_ok nd \<Longrightarrow> sound_frame f \<Longrightarrow> n \<noteq> Note_allocator \<Longrightarrow> aside nd (send_frame f n nd)"
  by (simp add: aside_def send_frame_def own_def node_defs)

lemma sent_last: "(f, n) \<in> set (nd_out (send_frame f n nd))"
  by (simp add: send_frame_def)

lemma value_le_bits: "bit (value_le bs) n \<Longrightarrow> n < 8 * length bs"
proof (induction bs arbitrary: n)
  case (Cons b bs)
  then have "bit (push_bit 8 (value_le bs)) n \<or> bit b n" by (auto simp: value_le_def bit_simps)
  then show ?case using Cons.IH [of "n - 8"] bit_imp_le_length [of b n] by (auto simp: bit_simps)
qed (simp add: value_le_def)

lemma node_id_small: "length bs = 6 \<Longrightarrow> unat (node_id_of bs) < 2 ^ 48"
proof -
  assume l: "length bs = 6"
  have "node_id_of bs = value_le (rev bs)" by (simp add: node_id_of_def value_le_def)
  then have "take_bit 48 (node_id_of bs) = node_id_of bs"
    using value_le_bits [of "rev bs"] l by (intro bit_word_eqI) (auto simp: bit_simps)
  then have "unat (node_id_of bs) = take_bit 48 (unat (node_id_of bs))" by (metis unsigned_take_bit_eq)
  then show ?thesis using take_bit_nat_less_exp [of 48 "unat (node_id_of bs)"] by simp
qed

lemma payload_id_sound: "sound_frame f \<Longrightarrow> \<exists>i. payload_id big f = Some i \<and> unat i < 2 ^ 48"
  using node_id_small [of "take 6 (can_data f)"]
  by (simp add: payload_id_def data_to_node_id_eq sound_frame_def)

text \<open>The identifiers of the frames of the allocator and of the conflict handler.\<close>

lemma ucast12_fits: "take_bit 12 (ucast (a :: u12) :: u16) = ucast a"
  by (rule bit_word_eqI) (auto simp: bit_simps dest: bit_imp_le_length)

lemma is_cid_bits: "is_cid_frame c \<longleftrightarrow> bit c 26 \<and> \<not> bit c 27 \<and> bit c 28"
proof -
  have "drop_bit 24 c AND 0x1C = push_bit 2 (take_bit 3 (drop_bit 26 c))"
  proof -
    have "(0x1C :: u32) = push_bit 2 (mask 3)" by (simp add: mask_eq_exp_minus_1)
    then have "drop_bit 24 c AND 0x1C = drop_bit 24 c AND push_bit 2 (mask 3)" by (simp only:)
    also have "\<dots> = push_bit 2 (take_bit 3 (drop_bit 26 c))"
      by (rule bit_word_eqI) (auto simp: bit_simps)
    finally show ?thesis .
  qed
  moreover have "push_bit 2 (take_bit 3 y) = 0x14 \<longleftrightarrow> bit y 0 \<and> \<not> bit y 1 \<and> bit y 2" for y :: u32
  proof -
    have "take_bit 3 y = of_bool (bit y 0) + 2 * (of_bool (bit y 1) + 2 * of_bool (bit y 2))"
      by (rule bit_word_eqI)
        (auto simp: bit_simps less_Suc_eq numeral_3_eq_3 eval_nat_numeral bit_Suc split: if_splits)
    then show ?thesis by (cases "bit y 0"; cases "bit y 1"; cases "bit y 2") simp_all
  qed
  ultimately show ?thesis by (simp add: is_cid_frame_def bit_simps)
qed

lemma stream_bit: "is_stream_frame c \<Longrightarrow> bit c 27"
proof -
  assume "is_stream_frame c"
  then have "bit (drop_bit 24 c AND 0xF) 3" by (simp add: is_stream_frame_def)
  then show ?thesis by (simp add: bit_simps)
qed

lemma control_from:
  assumes "take_bit 12 fld = fld" "take_bit 3 sq = sq"
  shows "from_alias a (control_frame junk (ucast a) fld sq)"
    "get_priority (can_id (control_frame junk (ucast a) fld sq)) = NORMAL_PRIORITY"
    "is_cid_frame (can_id (control_frame junk (ucast a) fld sq)) \<longleftrightarrow> bit sq 2"
proof -
  note c = control_fields_get [OF ucast12_fits [of a] assms]
  let ?i = "set_control_fields (ucast a) fld sq"
  have b: "bit fld i \<Longrightarrow> i < 12" "bit sq i \<Longrightarrow> i < 3" "bit a i \<Longrightarrow> i < 12" for i
    using assms small_bits bit_imp_le_length [of a i] by (metis, metis, simp)
  have bits: "bit ?i k \<longleftrightarrow> k < 32 \<and> (bit a k \<or> 12 \<le> k \<and> bit fld (k - 12) \<or> 24 \<le> k \<and> bit sq (k - 24) \<or> k = 28)" for k
    unfolding set_control_fields_def
    by (auto simp: bit_simps bit_single dest: b)
  have id: "can_id (control_frame junk (ucast a) fld sq) = ?i"
  proof -
    have "take_bit 29 ?i = ?i"
      by (rule bit_word_eqI) (auto simp: bit_take_bit_iff bits dest: b)
    moreover have "?i AND 0x1FFFFFFF = take_bit 29 ?i" by (simp add: take_bit_eq_mask mask_eq_exp_minus_1)
    ultimately show ?thesis by (simp add: control_frame_def control_init_def frame_flags)
  qed
  have "?i AND NOT (mask 29) = 0"
    by (rule bit_word_eqI) (auto simp: bit_simps bits dest: b)
  then have "?i AND NOT 0x1FFFFFFF = 0" by (simp add: mask_eq_exp_minus_1)
  then show "from_alias a (control_frame junk (ucast a) fld sq)"
    using c(1) id by (simp add: from_alias_def) (simp add: control_frame_def control_init_def frame_flags)
  show "get_priority (can_id (control_frame junk (ucast a) fld sq)) = NORMAL_PRIORITY" using c(5) id by simp
  show "is_cid_frame (can_id (control_frame junk (ucast a) fld sq)) \<longleftrightarrow> bit sq 2"
    unfolding id is_cid_bits bits using b(1) [of 14] b(1) [of 15] b(2) [of 3] b(3) [of 26] b(3) [of 27] by auto
qed

lemma rid_frame_from: "from_alias a (control_frame junk (ucast a) RID_FRAME 0)"
  by (rule control_from) (simp_all add: control_fields)

subsection \<open>The handlers\<close>

lemma release_ok:
  assumes "nd_ok nd" "length junk = 8" "unat a < 4096"
  shows "\<exists>nd'. send_release_alias big junk a nd = Some nd' \<and> aside nd nd'"
proof -
  obtain n1 i where 1: "with_local (lookup_alias a) nd = Some (n1, i)" "aside nd n1"
    using local_find [OF assms(1,3)] by blast
  obtain n2 where 2: "with_local (remove_unit a) n1 = Some (n2, ())" "aside n1 n2"
    using local_remove [OF aside_ok [OF 1(2)]] by blast
  obtain f where f: "id_frame big junk a AMR_FRAME i = Some f" "sound_frame f" using id_frame_sound [OF assms(2)] by blast
  have 3: "aside nd n2" using aside_trans 1(2) 2(2) by blast
  moreover have "aside nd (send_frame f No_note n2)"
    using aside_trans [OF 3 aside_send [OF aside_ok [OF 3] f(2)]] by simp
  ultimately show ?thesis using 1(1) 2(1) f(1) by (simp add: send_release_alias_def)
qed

lemma counted: "aside (nd\<lparr>use_conflicts := n\<rparr>) nd' \<longleftrightarrow> aside nd nd'" "nd_ok (nd\<lparr>use_conflicts := n\<rparr>) \<longleftrightarrow> nd_ok nd"
  by (simp_all add: aside_def own_def node_defs)

lemma conflict_entry_ok:
  assumes "nd_ok nd" "length junk = 8"
  shows "\<exists>nd'. conflict_entry big junk f nd = Some nd' \<and> aside nd nd' \<and>
    (\<forall>a \<in> own nd. claiming a f \<longrightarrow> (\<exists>g n. (g, n) \<in> set (nd_out nd') \<and> from_alias a g))"
proof (cases "get_priority (can_id f) = NORMAL_PRIORITY")
  case False
  have "\<not> claiming a f" for a
  proof
    assume "claiming a f"
    then have "bit (get_priority (can_id f)) 0" by (simp add: claiming_def is_cid_bits bit_getters)
    then have "get_priority (can_id f) = NORMAL_PRIORITY"
      by (intro bit_word_eqI) (auto simp: bit_getters NORMAL_PRIORITY_def bit_1_iff)
    with False show False by simp
  qed
  then show ?thesis using False aside_refl [OF assms(1)] by (simp add: conflict_entry_def GET_CAN_FRAME_ID_EFF_def)
next
  case p: True
  let ?s = "get_src (can_id f)"
  obtain n1 i where 1: "(if ?s \<noteq> 0 then with_local (lookup_alias ?s) nd else Some (nd, 0)) = Some (n1, i)" "aside nd n1"
    "own n1 = own nd" "i = 0 \<longleftrightarrow> ?s = 0 \<or> alias_entry (local_aliases (nd_if nd)) ?s = 0"
    using local_find [OF assms(1) get_src_small [of "can_id f"]] aside_refl [OF assms(1)]
    by (cases "?s = 0") auto
  show ?thesis
  proof (cases "i = 0")
    case True
    have "a \<notin> own nd" if "claiming a f" for a
    proof -
      have "?s = ucast a" using that by (simp add: claiming_def from_alias_def)
      moreover have "alias_entry (local_aliases (nd_if nd)) 0 = 0"
        using alias_entry_zero assms(1) by (simp add: nd_ok_def if_ok_def)
      ultimately show ?thesis using True 1(4) by (auto simp: own_def)
    qed
    then show ?thesis using True 1 p by (auto simp: conflict_entry_def GET_CAN_FRAME_ID_EFF_def Let_def)
  next
    case False
    let ?d = "get_dst (can_id f)"
    have small: "unat ?d < 4096"
      by (intro alias_small bit_word_eqI) (auto simp: bit_simps bit_getters)
    obtain n2 j where 2: "(if is_stream_frame (can_id f) \<and> ?d \<noteq> 0 then with_local (lookup_alias ?d) n1 else Some (n1, 0)) = Some (n2, j)"
      "aside n1 n2" "own n2 = own n1"
      using local_find [OF aside_ok [OF 1(2)] small] aside_refl [OF aside_ok [OF 1(2)]]
      by (cases "is_stream_frame (can_id f) \<and> ?d \<noteq> 0") auto
    have n2: "aside nd n2" using aside_trans 1(2) 2(2) by blast
    have e: "conflict_entry big junk f nd = (if is_stream_frame (can_id f) \<and> j \<noteq> 0 then Some n2
        else if is_cid_frame (can_id f) then Some (send_reserved_alias junk ?s n2)
        else send_release_alias big junk ?s (n2\<lparr>use_conflicts := use_conflicts n2 + 1\<rparr>))"
      using 1(1) 2(1) p False by (simp add: conflict_entry_def GET_CAN_FRAME_ID_EFF_def Let_def)
    show ?thesis
    proof (cases "is_cid_frame (can_id f)")
      case True
      then have "\<not> is_stream_frame (can_id f)" using stream_bit is_cid_bits by blast
      then have e2: "conflict_entry big junk f nd = Some (send_frame (control_frame junk ?s RID_FRAME 0) No_note n2)"
        using e True by (simp add: send_reserved_alias_def)
      have "aside nd (send_frame (control_frame junk ?s RID_FRAME 0) No_note n2)"
        using aside_trans [OF n2 aside_send [OF aside_ok [OF n2] control_frame_sound [OF assms(2)]]] by simp
      moreover have "from_alias a (control_frame junk ?s RID_FRAME 0)" if "claiming a f" for a
        using that rid_frame_from by (simp add: claiming_def from_alias_def)
      ultimately show ?thesis using e2 sent_last by blast
    next
      case no: False
      then have c: "\<not> claiming a f" for a by (simp add: claiming_def)
      obtain n3 where "send_release_alias big junk ?s (n2\<lparr>use_conflicts := use_conflicts n2 + 1\<rparr>) = Some n3"
        "aside (n2\<lparr>use_conflicts := use_conflicts n2 + 1\<rparr>) n3"
        using release_ok [of "n2\<lparr>use_conflicts := use_conflicts n2 + 1\<rparr>" junk ?s big] assms(2)
          get_src_small [of "can_id f"] aside_ok [OF n2] unfolding counted by blast
      then show ?thesis using e n2 aside_trans no c by (auto simp: counted)
    qed
  qed
qed

lemma amd_ok:
  assumes "nd_ok nd" "unat i < 2 ^ 48" "valid_alias a"
  shows "\<exists>nd'. amd_update i a nd = Some nd' \<and> aside nd nd'"
proof (cases "i = 0")
  case True
  then show ?thesis using aside_refl [OF assms(1)] by (simp add: amd_update_def)
next
  case False
  obtain n1 old where 1: "with_remote (lookup_id i) nd = Some (n1, old)" "aside nd n1"
    using remote_ops(1) [OF assms(1) False] by blast
  obtain n2 where 2: "with_remote (remove_unit old) n1 = Some (n2, ())" "aside n1 n2"
    using remote_ops(2) [OF aside_ok [OF 1(2)]] by blast
  obtain n3 where 3: "(if old \<noteq> 0 then with_remote (remove_unit old) n1 else Some (n1, ())) = Some (n3, ())" "aside nd n3"
    using 2 1(2) aside_trans by (cases "old = 0") auto
  have p: "proper_id i" using False assms(2) by (simp add: proper_id_def)
  obtain n4 l where 4: "with_remote (add i a) n3 = Some (n4, l)" "aside n3 n4"
    using remote_ops(3) [OF aside_ok [OF 3(2)] p assms(3)] by blast
  have "aside nd n4" using aside_trans 3(2) 4(2) by blast
  then show ?thesis using 1 3(1) 4(1) False by (simp add: amd_update_def)
qed

lemma amr_ok:
  assumes "nd_ok nd"
  shows "\<exists>nd'. amr_update i a nd = Some nd' \<and> aside nd nd'"
proof -
  have "\<exists>n2. (if i \<noteq> 0 then Option.bind (with_remote (lookup_id i) nd) (\<lambda>(nd, old).
         if old \<noteq> 0 \<and> old \<noteq> a then Option.bind (with_remote (remove_unit old) nd) (\<lambda>(nd, _). Some nd) else Some nd)
       else Some nd) = Some n2 \<and> aside nd n2"
  proof (cases "i = 0")
    case False
    obtain n1 old where 1: "with_remote (lookup_id i) nd = Some (n1, old)" "aside nd n1"
      using remote_ops(1) [OF assms False] by blast
    obtain n2 where 2: "with_remote (remove_unit old) n1 = Some (n2, ())" "aside n1 n2"
      using remote_ops(2) [OF aside_ok [OF 1(2)]] by blast
    have "aside nd n2" using aside_trans 1(2) 2(2) by blast
    then show ?thesis using 1 2(1) False by simp
  qed (simp add: aside_refl [OF assms])
  then obtain n2 where 2: "(if i \<noteq> 0 then Option.bind (with_remote (lookup_id i) nd) (\<lambda>(nd, old).
         if old \<noteq> 0 \<and> old \<noteq> a then Option.bind (with_remote (remove_unit old) nd) (\<lambda>(nd, _). Some nd) else Some nd)
       else Some nd) = Some n2" "aside nd n2" by blast
  obtain n3 where 3: "with_remote (remove_unit a) n2 = Some (n3, ())" "aside n2 n3"
    using remote_ops(2) [OF aside_ok [OF 2(2)]] by blast
  have "aside nd n3" using aside_trans 2(2) 3(2) by blast
  then show ?thesis using 2(1) 3(1) by (simp add: amr_update_def)
qed

lemma remote_entry_ok:
  assumes "nd_ok nd" "sound_frame f"
  shows "\<exists>nd'. remote_entry big f nd = Some nd' \<and> aside nd nd'"
proof -
  obtain i where i: "payload_id big f = Some i" "unat i < 2 ^ 48" using payload_id_sound [OF assms(2)] by blast
  have "get_src (can_id f) \<noteq> 0 \<Longrightarrow> valid_alias (get_src (can_id f))"
    using get_src_small by (simp add: valid_alias_def)
  then show ?thesis
    using amd_ok [OF assms(1) i(2)] amr_ok [OF assms(1)] i(1) aside_refl [OF assms(1)]
    by (auto simp: remote_entry_def GET_CAN_FRAME_ID_EFF_def Let_def)
qed

text \<open>An enquiry for the node id zero.\<close>

definition zero_enquiry :: "bool \<Rightarrow> can_frame \<Rightarrow> bool" where
  "zero_enquiry big f \<longleftrightarrow> matches f AME_FILTER AME_MASK \<and> can_dlc f = 6 \<and> payload_id big f = Some 0"

lemma ame_entry_ok:
  assumes "nd_ok nd" "sound_frame f" "\<not> (can_dlc f = 6 \<and> payload_id big f = Some 0)"
  shows "\<exists>nd'. ame_entry big f nd = Some nd' \<and> aside nd nd'"
proof (cases "get_frame_type (can_id f) \<noteq> CONTROL_MSG \<or> get_control_field (can_id f) \<noteq> AME_FRAME \<or> can_dlc f \<noteq> 6")
  case True
  then show ?thesis using aside_refl [OF assms(1)] by (simp add: ame_entry_def GET_CAN_FRAME_ID_EFF_def)
next
  case False
  obtain i where i: "payload_id big f = Some i" using payload_id_sound [OF assms(2)] by blast
  then have "i \<noteq> 0" using False assms(3) by auto
  then obtain n1 a where 1: "with_local (lookup_id i) nd = Some (n1, a)" "aside nd n1"
    using local_find_id [OF assms(1)] by blast
  have "sound_frame (SET_CAN_FRAME_ID_EFF f k)" for k using assms(2) by (simp add: sound_frame_def frame_flags)
  then have "aside nd (send_frame (SET_CAN_FRAME_ID_EFF f k) No_note n1)" for k
    using aside_trans [OF 1(2) aside_send [OF aside_ok [OF 1(2)]]] by simp
  then show ?thesis using False i 1 by (simp add: ame_entry_def GET_CAN_FRAME_ID_EFF_def)
qed

lemma cache_ok_clear: "cache_ok c \<Longrightarrow> cache_ok (clear c)"
  using clear_contents [of c] ac_inv_sizes [of c] by (auto simp: cache_ok_def same_config_def)

lemma global_query_ok: "nd_ok nd \<Longrightarrow> aside nd (global_query f nd)"
  using cache_ok_clear by (auto simp: global_query_def aside_def own_def node_defs)

subsection \<open>Hearing a frame\<close>

lemma conflict_filter: "frame_id f AND CONFLICT_MASK = ucast (a :: u12) AND CONFLICT_MASK \<longleftrightarrow> from_alias a f"
proof -
  have m: "CONFLICT_MASK = mask 12 OR NOT (mask 29)" "(- 536870912 :: u32) = NOT (mask 29)"
    by (simp_all add: CONFLICT_MASK_def mask_eq_exp_minus_1)
  have a: "ucast a AND CONFLICT_MASK = (ucast a :: u32)"
    unfolding m by (rule bit_word_eqI) (auto simp: bit_simps dest: bit_imp_le_length)
  show ?thesis
  proof (cases "can_eff f")
    case True
    have "can_id f AND (mask 12 OR NOT (mask 29)) = ucast a \<longleftrightarrow> can_id f AND NOT (mask 29) = 0 \<and> get_src (can_id f) = ucast a"
      (is "?l \<longleftrightarrow> ?r")
    proof
      assume l: ?l
      have b: "bit (can_id f) i \<and> (i < 12 \<or> 29 \<le> i) \<longleftrightarrow> bit a i" if "i < 32" for i
        using arg_cong [OF l, of "\<lambda>w. bit w i"] that by (auto simp: bit_simps)
      have hi: "\<not> bit a i" if "12 \<le> i" for i using that bit_imp_le_length [of a i] by auto
      have "can_id f AND NOT (mask 29) = 0"
      proof (rule bit_word_eqI)
        fix i assume "i < LENGTH(32)"
        then show "bit (can_id f AND NOT (mask 29)) i = bit 0 i" using b [of i] hi [of i] by (simp add: bit_simps) linarith
      qed
      moreover have "get_src (can_id f) = ucast a"
      proof (rule bit_word_eqI)
        fix i assume "i < LENGTH(16)"
        then show "bit (get_src (can_id f)) i = bit (ucast a :: u16) i"
          using b [of i] hi [of i] by (simp add: bit_getters bit_simps) linarith
      qed
      ultimately show ?r by simp
    next
      assume r: ?r
      show ?l
      proof (rule bit_word_eqI)
        fix i assume i: "i < LENGTH(32)"
        have "\<not> (bit (can_id f) i \<and> 29 \<le> i)"
          using arg_cong [OF conjunct1 [OF r], of "\<lambda>w. bit w i"] i by (auto simp: bit_simps)
        moreover have "i < 12 \<Longrightarrow> bit (can_id f) i \<longleftrightarrow> bit a i"
          using arg_cong [OF conjunct2 [OF r], of "\<lambda>w. bit w i"] by (auto simp: bit_getters bit_simps)
        moreover have "12 \<le> i \<Longrightarrow> \<not> bit a i" using bit_imp_le_length [of a i] by auto
        ultimately show "bit (can_id f AND (mask 12 OR NOT (mask 29))) i = bit (ucast a :: u32) i"
          using i by (simp add: bit_simps) linarith
      qed
    qed
    then show ?thesis using True
      unfolding a by (simp add: from_alias_def frame_id_def IS_CAN_FRAME_EFF_def GET_CAN_FRAME_ID_EFF_def m)
  next
    case False
    have "bit (frame_id f AND CONFLICT_MASK) 30"
      using False by (simp add: frame_id_def IS_CAN_FRAME_EFF_def GET_CAN_FRAME_ID_def m bit_simps)
    moreover have "\<not> bit (ucast a :: u32) 30" by (auto simp: bit_simps dest: bit_imp_le_length)
    ultimately show ?thesis using False unfolding a by (metis from_alias_def)
  qed
qed

lemma from_alias_extended: "from_alias a f \<Longrightarrow> matches f 0 ANY_EXT_MASK"
proof -
  assume f: "from_alias a f"
  have m: "ANY_EXT_MASK = NOT (mask 30)" by (simp add: ANY_EXT_MASK_def mask_eq_exp_minus_1)
  have "can_id f AND NOT (mask 29) = 0" using f by (simp add: from_alias_def mask_eq_exp_minus_1)
  then have "bit (can_id f) i \<Longrightarrow> i < 29" for i
    using bit_and_iff [of "can_id f" "NOT (mask 29)" i] bit_imp_le_length [of "can_id f" i] by (auto simp: bit_simps)
  then have "can_id f AND NOT (mask 30) = 0"
    by (intro bit_word_eqI) (force simp: bit_simps)
  then show ?thesis
    using f by (simp add: matches_def m from_alias_def frame_id_def IS_CAN_FRAME_EFF_def GET_CAN_FRAME_ID_EFF_def)
qed

definition hears :: "can_node \<Rightarrow> can_frame \<Rightarrow> bool" where
  "hears nd f \<longleftrightarrow> (\<exists>a. al_handler nd = Some a \<and> from_alias a f)"

definition heard :: "can_frame \<Rightarrow> can_node \<Rightarrow> can_node \<Rightarrow> bool" where
  "heard f nd nd' \<longleftrightarrow> nd_ok nd' \<and> own nd' \<subseteq> own nd \<and>
     alloc_part nd' = (al_state nd, al_message nd, al_handler nd, cid_frame_sequence nd, conflict_detected nd \<or> hears nd f) \<and>
     (\<exists>fs. nd_out nd' = nd_out nd @ fs \<and> plain_frames fs) \<and>
     (\<forall>a \<in> own nd. claiming a f \<longrightarrow> (\<exists>g n. (g, n) \<in> set (nd_out nd') \<and> from_alias a g))"

lemma control_handlers_ok:
  assumes "nd_ok nd" "sound_frame f" "length junk = 8" "\<not> zero_enquiry big f"
  shows "\<exists>nd'. control_handlers big junk f nd = Some nd' \<and> aside nd nd' \<and>
    (\<forall>a \<in> own nd. claiming a f \<longrightarrow> (\<exists>g n. (g, n) \<in> set (nd_out nd') \<and> from_alias a g))"
proof -
  obtain n1 where 1: "(if matches f 0 ANY_EXT_MASK then conflict_entry big junk f nd else Some nd) = Some n1" "aside nd n1"
    "\<forall>a \<in> own nd. claiming a f \<longrightarrow> (\<exists>g n. (g, n) \<in> set (nd_out n1) \<and> from_alias a g)"
    using conflict_entry_ok [OF assms(1,3), of big f] aside_refl [OF assms(1)] from_alias_extended
    by (cases "matches f 0 ANY_EXT_MASK") (auto simp: claiming_def)
  obtain n2 where 2: "(if matches f CONTROL_FILTER CONTROL_MASK then remote_entry big f n1 else Some n1) = Some n2" "aside n1 n2"
    using remote_entry_ok [OF aside_ok [OF 1(2)] assms(2), of big] aside_refl [OF aside_ok [OF 1(2)]]
    by (cases "matches f CONTROL_FILTER CONTROL_MASK") auto
  obtain n3 where 3: "(if matches f AME_FILTER AME_MASK then Option.bind (ame_entry big f n2) (\<lambda>nd. Some (global_query f nd)) else Some n2) =
      Some n3" "aside n2 n3"
  proof (cases "matches f AME_FILTER AME_MASK")
    case True
    then have "\<not> (can_dlc f = 6 \<and> payload_id big f = Some 0)" using assms(4) by (simp add: zero_enquiry_def)
    then obtain n where n: "ame_entry big f n2 = Some n" "aside n2 n"
      using ame_entry_ok [OF aside_ok [OF 2(2)] assms(2)] by blast
    have "aside n2 (global_query f n)" using aside_trans [OF n(2) global_query_ok [OF aside_ok [OF n(2)]]] .
    then show ?thesis using that True n(1) by simp
  qed (use that aside_refl [OF aside_ok [OF 2(2)]] in simp)
  have "aside n1 n3" using aside_trans 2(2) 3(2) by blast
  moreover from this have "set (nd_out n1) \<subseteq> set (nd_out n3)" by (auto simp: aside_def)
  moreover have "control_handlers big junk f nd = Some n3" using 1(1) 2(1) 3(1) by (simp add: control_handlers_def)
  ultimately show ?thesis using 1(3) aside_trans [OF 1(2)] by blast
qed

lemma node_frame_ok:
  assumes "nd_ok nd" "sound_frame f" "length junk = 8" "\<not> zero_enquiry big f"
  shows "\<exists>nd' r. node_frame big junk f nd = Some (nd', r) \<and> heard f nd nd'"
proof -
  obtain n1 where 1: "control_handlers big junk f nd = Some n1" "aside nd n1"
    "\<forall>a \<in> own nd. claiming a f \<longrightarrow> (\<exists>g n. (g, n) \<in> set (nd_out n1) \<and> from_alias a g)"
    using control_handlers_ok [OF assms] by blast
  obtain i r where 2: "dispatch_frame f (nd_if n1) = Some (i, r)" "kept (nd_if n1) i"
    using dispatch_kept [OF aside_ok [OF 1(2), unfolded nd_ok_def] assms(2)] by blast
  let ?n = "n1\<lparr>nd_if := i\<rparr>"
  have o: "own ?n = own n1" using 2(2) ucast12_small by (simp add: own_def kept_def ad.same_entries_def)
  have n: "nd_ok ?n" using kept_ok [OF 2(2)] by (simp add: nd_ok_def)
  have h: "al_handler n1 = al_handler nd" "alloc_part ?n = alloc_part nd"
    using 1(2) by (simp_all add: aside_def alloc_part_def)
  have "heard f nd (alloc_frame f ?n)"
    using 1(2,3) o n h
    by (auto simp: heard_def aside_def alloc_frame_def alloc_conflict_def conflict_filter hears_def own_def node_defs
        split: option.splits)
  then show ?thesis using 1(1) 2(1) by (simp add: node_frame_def)
qed

lemma ame_fields:
  assumes "matches f AME_FILTER AME_MASK"
  shows "get_frame_type (can_id f) = CONTROL_MSG" "get_control_field (can_id f) = AME_FRAME"
proof -
  have m: "AME_MASK = 0xEFFFF000" "AME_FILTER AND AME_MASK = 0x702000"
    by (simp_all add: AME_MASK_def AME_FILTER_def can_masks can_types control_fields)
  have e: "frame_id f AND 0xEFFFF000 = 0x702000" using assms m by (simp add: matches_def)
  have "can_eff f"
  proof (rule ccontr)
    assume "\<not> can_eff f"
    then have "bit (frame_id f AND 0xEFFFF000) 30"
      by (simp add: frame_id_def IS_CAN_FRAME_EFF_def GET_CAN_FRAME_ID_def bit_simps)
    then show False unfolding e by simp
  qed
  then have c: "can_id f AND 0xEFFFF000 = 0x702000"
    using e by (simp add: frame_id_def IS_CAN_FRAME_EFF_def GET_CAN_FRAME_ID_EFF_def)
  have s: "FRAME_TYPE_MASK = 0xEFFFF000 AND FRAME_TYPE_MASK" "CONTROL_FIELD_MASK = 0xEFFFF000 AND CONTROL_FIELD_MASK"
    by (simp_all add: can_masks)
  have "can_id f AND FRAME_TYPE_MASK = 0" "can_id f AND CONTROL_FIELD_MASK = 0x702000"
    by (subst s, simp only: and.assoc [symmetric] c, simp add: can_masks)+
  then show "get_frame_type (can_id f) = CONTROL_MSG" "get_control_field (can_id f) = AME_FRAME"
    by (simp_all add: getters can_types control_fields)
qed

lemma node_frame_faults:
  assumes "nd_ok nd" "sound_frame f" "length junk = 8" "zero_enquiry big f"
  shows "node_frame big junk f nd = None"
proof -
  obtain n1 where 1: "(if matches f 0 ANY_EXT_MASK then conflict_entry big junk f nd else Some nd) = Some n1" "aside nd n1"
    using conflict_entry_ok [OF assms(1,3), of big f] aside_refl [OF assms(1)] by (cases "matches f 0 ANY_EXT_MASK") auto
  obtain n2 where 2: "(if matches f CONTROL_FILTER CONTROL_MASK then remote_entry big f n1 else Some n1) = Some n2"
    using remote_entry_ok [OF aside_ok [OF 1(2)] assms(2), of big] by (cases "matches f CONTROL_FILTER CONTROL_MASK") auto
  have z: "matches f AME_FILTER AME_MASK" "can_dlc f = 6" "payload_id big f = Some 0"
    using assms(4) by (simp_all add: zero_enquiry_def)
  have "get_frame_type (can_id f) = CONTROL_MSG" "get_control_field (can_id f) = AME_FRAME"
    using ame_fields [OF z(1)] .
  then have "ame_entry big f n2 = None"
    using z by (simp add: ame_entry_def GET_CAN_FRAME_ID_EFF_def with_local_def lookup_id_def)
  then show ?thesis using 1(1) 2 z(1) by (simp add: node_frame_def control_handlers_def)
qed

end
