(* ===== verification/AliasAlloc.thy ===== *)
theory AliasAlloc
  imports AliasNode
begin

section \<open>Steps of one node: calls of clients and the allocator\<close>

text \<open>
  What a client of a node can do, and what a step of its allocator does to the aliases that the
  node owns or claims.
\<close>

subsection \<open>Calls of clients\<close>

inductive client_step :: "can_node \<Rightarrow> can_node \<Rightarrow> bool" where
  allocate: "get_allocated_alias i client nd = Some (nd', a) \<Longrightarrow> proper_id i \<Longrightarrow> client_step nd nd'"
| write_message: "find_local_alias big junk i client nd = Some (nd', r) \<Longrightarrow> proper_id i \<Longrightarrow> length junk = 8 \<Longrightarrow> client_step nd nd'"
| delete_node: "delete_local_node big junk i nd = Some nd' \<Longrightarrow> proper_id i \<Longrightarrow> length junk = 8 \<Longrightarrow> client_step nd nd'"
| give_back: "return_alias big junk i a nd = Some nd' \<Longrightarrow> valid_alias a \<Longrightarrow> ucast a \<in> own nd \<Longrightarrow> unat a < 4096 \<Longrightarrow>
    length junk = 8 \<Longrightarrow> client_step nd nd'"
| seed_aliases: "client_step nd (seed_allocator n nd)"
| clear_aliases: "clear_reserved_aliases fuel nd = Some nd' \<Longrightarrow> client_step nd nd'"
| count_aliases: "num_reserved_aliases fuel i cnt nd = Some (nd', n) \<Longrightarrow> client_step nd nd'"
| answer: "global_step big junk nd = Some nd' \<Longrightarrow> length junk = 8 \<Longrightarrow> client_step nd nd'"
| send_other: "sound_frame f \<Longrightarrow> client_step nd (send_frame f No_note nd)"

lemma valid_small: "valid_alias a \<Longrightarrow> a \<noteq> NOT_RESPONDING \<Longrightarrow> unat a < 4096"
  by (simp add: valid_alias_def)

lemma reserved_id: "valid_alias a \<Longrightarrow> proper_id (get_reserved_alias_node_id a)"
proof -
  have b: "bit (get_reserved_alias_node_id a) 15"
    by (simp add: get_reserved_alias_node_id_def RESERVED_ALIAS_NODE_BITS_def bit_or_iff)
  have "bit (get_reserved_alias_node_id a) i \<Longrightarrow> i < 16" for i
  proof -
    have m: "RESERVED_ALIAS_NODE_BITS = push_bit 12 (mask 4)" by (simp add: RESERVED_ALIAS_NODE_BITS_def mask_eq_exp_minus_1)
    assume "bit (get_reserved_alias_node_id a) i"
    then show "i < 16" unfolding get_reserved_alias_node_id_def m by (auto simp: bit_simps dest: bit_imp_le_length)
  qed
  then have "take_bit 16 (get_reserved_alias_node_id a) = get_reserved_alias_node_id a"
    by (intro bit_word_eqI) (auto simp: bit_simps)
  then have "unat (get_reserved_alias_node_id a) = take_bit 16 (unat (get_reserved_alias_node_id a))"
    by (metis unsigned_take_bit_eq)
  then have "unat (get_reserved_alias_node_id a) < 2 ^ 48"
    using take_bit_nat_less_exp [of 16 "unat (get_reserved_alias_node_id a)"] by simp
  moreover have "get_reserved_alias_node_id a \<noteq> 0" using b by auto
  ultimately show ?thesis by (simp add: proper_id_def)
qed

text \<open>Storing an alias that the node has, or none that counts.\<close>

lemma add_aside:
  assumes "aside b nd" "proper_id i" "valid_alias a" "unat a < 4096 \<longrightarrow> ucast a \<in> own b"
  shows "\<exists>nd' l. with_local (add i a) nd = Some (nd', l) \<and> aside b nd'"
proof -
  obtain nd' l where n: "with_local (add i a) nd = Some (nd', l)" "nd_ok nd'" "nd_out nd' = nd_out nd"
    "alloc_part nd' = alloc_part nd" "own nd' \<subseteq> own nd \<union> {x. ucast x = a}"
    using local_add [OF aside_ok [OF assms(1)] assms(2,3)] by blast
  have "x \<in> own b" if "ucast x = a" for x
    using that assms(4) ucast12_small [of x] ucast12_back [of x] by auto
  then have "aside b nd'" using n assms(1) by (auto simp: aside_def)
  then show ?thesis using n by blast
qed

lemma waiting_aside: "aside nd (nd\<lparr>waitingClients := w\<rparr>) \<longleftrightarrow> nd_ok nd" "aside nd (nd\<lparr>al_queue := q\<rparr>) \<longleftrightarrow> nd_ok nd"
  by (auto simp: aside_def own_def node_defs)

lemma add_allocated_aside:
  assumes "aside b nd" "valid_alias a" "unat a < 4096 \<longrightarrow> ucast a \<in> own b"
  shows "\<exists>nd'. add_allocated_alias a nd = Some nd' \<and> aside b nd'"
proof -
  obtain n1 l where 1: "with_local (add (get_reserved_alias_node_id a) a) nd = Some (n1, l)" "aside b n1"
    using add_aside [OF assms(1) reserved_id [OF assms(2)] assms(2,3)] by blast
  have "aside b (n1\<lparr>waitingClients := tl (waitingClients n1)\<rparr>)"
    using aside_trans [OF 1(2)] aside_ok [OF 1(2)] waiting_aside by blast
  then show ?thesis using 1(1) by (simp add: add_allocated_alias_def)
qed

lemma queued_aside: "aside b n \<Longrightarrow> aside b (n\<lparr>al_queue := q\<rparr>)" "aside b n \<Longrightarrow> aside b (n\<lparr>waitingClients := w\<rparr>)"
  using aside_trans aside_ok waiting_aside by blast+

lemma send_aside: "aside b n \<Longrightarrow> sound_frame f \<Longrightarrow> note \<noteq> Note_allocator \<Longrightarrow> aside b (send_frame f note n)"
  using aside_trans aside_ok aside_send by blast

lemma get_allocated_aside:
  assumes "aside b nd" "proper_id i"
  shows "\<exists>nd' a. get_allocated_alias i client nd = Some (nd', a) \<and> aside b nd'"
proof -
  let ?r0 = "get_reserved_alias_node_id 0"
  obtain n1 r where 1: "with_local (next_entry ?r0) nd = Some (n1, r)" "aside nd n1"
    "\<forall>j a. r = Some (j, a) \<longrightarrow> ?r0 < j \<and> valid_alias a \<and> (unat a < 4096 \<longrightarrow> ucast a \<in> own nd)"
    using local_next [OF aside_ok [OF assms(1)], of ?r0] by blast
  have b1: "aside b n1" using aside_trans assms(1) 1(2) by blast
  note q = queued_aside(1) [OF queued_aside(2) [OF b1]]
  show ?thesis
  proof (cases "\<exists>j a. r = Some (j, a) \<and> j = get_reserved_alias_node_id a")
    case False
    then show ?thesis using 1(1) q by (auto simp: get_allocated_alias_def split: option.splits)
  next
    case True
    then obtain a where r: "r = Some (get_reserved_alias_node_id a, a)" by blast
    then have a: "valid_alias a" "unat a < 4096 \<longrightarrow> ucast a \<in> own b"
      using 1(3) assms(1) aside_own by blast+
    obtain n2 l where 2: "with_local (add i a) n1 = Some (n2, l)" "aside b n2"
      using add_aside [OF b1 assms(2) a] by blast
    obtain n3 r3 where 3: "with_local (next_entry ?r0) n2 = Some (n3, r3)" "aside n2 n3"
      using local_next [OF aside_ok [OF 2(2)], of ?r0] by blast
    have b3: "aside b n3" using aside_trans 2(2) 3(2) by blast
    then show ?thesis
      using 1(1) r 2 3(1) queued_aside(1) [OF b3] by (auto simp: get_allocated_alias_def)
  qed
qed

lemma find_local_aside:
  assumes "nd_ok nd" "proper_id i" "length junk = 8"
  shows "\<exists>nd' r. find_local_alias big junk i client nd = Some (nd', r) \<and> aside nd nd'"
proof -
  have i: "i \<noteq> 0" using assms(2) by (simp add: proper_id_def)
  obtain n1 a where 1: "with_local (lookup_id i) nd = Some (n1, a)" "aside nd n1"
    using local_find_id [OF assms(1) i] by blast
  obtain n2 c where 2: "get_allocated_alias i client n1 = Some (n2, c)" "aside nd n2"
    using get_allocated_aside [OF 1(2) assms(2)] by blast
  obtain f where f: "id_frame big junk c AMD_FRAME i = Some f" "sound_frame f" using id_frame_sound [OF assms(3)] by blast
  show ?thesis using 1 2 f send_aside [OF 2(2) f(2)] by (auto simp: find_local_alias_def)
qed

lemma return_aside:
  assumes "aside b nd" "valid_alias a" "unat a < 4096 \<longrightarrow> ucast a \<in> own b" "length junk = 8"
  shows "\<exists>nd'. return_alias big junk i a nd = Some nd' \<and> aside b nd'"
proof -
  obtain f where f: "id_frame big junk a AMR_FRAME i = Some f" "sound_frame f" using id_frame_sound [OF assms(4)] by blast
  show ?thesis
    using add_allocated_aside [OF send_aside [OF assms(1) f(2)] assms(2,3)] f(1) by (auto simp: return_alias_def)
qed

lemma delete_aside:
  assumes "nd_ok nd" "proper_id i" "length junk = 8" "local_nodes (nd_if nd) i \<noteq> None"
  shows "\<exists>nd'. delete_local_node big junk i nd = Some nd' \<and> aside nd nd'"
proof -
  let ?n0 = "nd\<lparr>nd_if := nd_if nd\<lparr>local_nodes := (local_nodes (nd_if nd))(i := None)\<rparr>\<rparr>"
  have 0: "aside nd ?n0" using assms(1) by (simp add: aside_def own_def node_defs)
  have i: "i \<noteq> 0" using assms(2) by (simp add: proper_id_def)
  obtain n1 a where 1: "with_local (lookup_id i) ?n0 = Some (n1, a)" "aside ?n0 n1"
    "a = 0 \<or> valid_alias a" "a \<noteq> 0 \<longrightarrow> unat a < 4096 \<longrightarrow> ucast a \<in> own ?n0"
    using local_find_id [OF aside_ok [OF 0] i] by blast
  have b1: "aside nd n1" using aside_trans 0 1(2) by blast
  show ?thesis
  proof (cases "a = 0")
    case True
    then show ?thesis using 1(1) b1 assms(4) by (simp add: delete_local_node_def Let_def)
  next
    case False
    then have a: "valid_alias a" "unat a < 4096 \<longrightarrow> ucast a \<in> own nd" using 1(3,4) aside_own [OF 0] by blast+
    obtain n2 where 2: "with_local (remove_unit a) n1 = Some (n2, ())" "aside n1 n2"
      using local_remove [OF aside_ok [OF b1]] by blast
    have b2: "aside nd n2" using aside_trans b1 2(2) by blast
    obtain n3 l where 3: "with_local (add (get_reserved_alias_node_id a) a) n2 = Some (n3, l)" "aside nd n3"
      using add_aside [OF b2 reserved_id [OF a(1)] a] by blast
    show ?thesis
      using return_aside [OF 3(2) a assms(3), of big i] 1(1) 2(1) 3(1) False assms(4)
      by (auto simp: delete_local_node_def Let_def)
  qed
qed

lemma query_fields: "aside b (n\<lparr>needRerun := x\<rparr>) \<longleftrightarrow> aside b n" "aside b (n\<lparr>nextIndex := y\<rparr>) \<longleftrightarrow> aside b n"
  "aside b (n\<lparr>gq_state := z\<rparr>) \<longleftrightarrow> aside b n"
  by (simp_all add: aside_def own_def node_defs)

lemma global_step_aside:
  assumes "nd_ok nd" "length junk = 8" "global_step big junk nd = Some nd'"
  shows "aside nd nd'"
proof -
  note r = aside_refl [OF assms(1)]
  have f: "\<exists>f. put_data 0 (node_id_to_data big i) ((SET_CAN_FRAME_ID_EFF (new_frame junk) k)\<lparr>can_dlc := 6\<rparr>) = Some f \<and> sound_frame f" for i k
    using assms(2) by (simp add: frame_flags put_data_def node_id_bytes sound_frame_def)
  show ?thesis
  proof (cases "gq_state nd")
    case GQ_FILL
    then obtain res where o: "retrieve (nextIndex nd) (local_aliases (nd_if nd)) = Some res"
      using assms(3) by (auto simp: global_step_def Let_def split: bind_splits)
    show ?thesis
    proof (cases res)
      case None
      then show ?thesis using assms(3) GQ_FILL o r by (auto simp: global_step_def Let_def query_fields)
    next
      case (Some p)
      obtain i a where p: "p = (i, a)" by fastforce
      obtain f where "put_data 0 (node_id_to_data big i)
          ((SET_CAN_FRAME_ID_EFF (new_frame junk) (set_control_fields a AMD_FRAME 0))\<lparr>can_dlc := 6\<rparr>) = Some f" "sound_frame f"
        using f by blast
      then show ?thesis
        using assms(3) GQ_FILL o Some p send_aside [OF r, of f Note_global]
        by (auto simp: global_step_def Let_def query_fields)
    qed
  qed (use assms(3) r in \<open>auto simp: global_step_def Let_def query_fields split: bind_splits\<close>)
qed

lemma clear_reserved_aside:
  "clear_reserved_aliases fuel nd = Some nd' \<Longrightarrow> nd_ok nd \<Longrightarrow> aside nd nd'"
proof (induction fuel arbitrary: nd)
  case (Suc fuel)
  obtain n1 r where 1: "with_local (next_entry (get_reserved_alias_node_id 0)) nd = Some (n1, r)" "aside nd n1"
    using local_next [OF Suc.prems(2)] by blast
  show ?case
  proof (cases "\<exists>i a. r = Some (i, a) \<and> is_reserved_alias_node_id i")
    case True
    then obtain i a where r: "r = Some (i, a)" "is_reserved_alias_node_id i" by blast
    obtain n2 where 2: "with_local (remove_unit a) n1 = Some (n2, ())" "aside n1 n2"
      using local_remove [OF aside_ok [OF 1(2)]] by blast
    have "aside n2 nd'" using Suc.IH [OF _ aside_ok [OF 2(2)]] Suc.prems(1) 1(1) 2(1) r by simp
    then show ?thesis using aside_trans 1(2) 2(2) by blast
  qed (use Suc.prems(1) 1 in \<open>auto split: option.splits prod.splits if_splits\<close>)
qed simp

lemma num_reserved_aside:
  "num_reserved_aliases fuel i cnt nd = Some (nd', n) \<Longrightarrow> nd_ok nd \<Longrightarrow> aside nd nd'"
proof (induction fuel arbitrary: i cnt nd)
  case (Suc fuel)
  obtain n1 r where 1: "with_local (next_entry i) nd = Some (n1, r)" "aside nd n1"
    using local_next [OF Suc.prems(2)] by blast
  then show ?case
    using Suc.prems(1) Suc.IH [OF _ aside_ok [OF 1(2)]] aside_trans [OF 1(2)]
    by (auto split: option.splits prod.splits if_splits)
qed simp

lemma client_aside: "client_step nd nd' \<Longrightarrow> nd_ok nd \<Longrightarrow> aside nd nd'"
proof (induction rule: client_step.induct)
  case (allocate i client nd nd' a)
  then show ?case using get_allocated_aside [OF aside_refl [OF allocate(3)] allocate(2), of client] by auto
next
  case (write_message big junk i client nd nd' r)
  then show ?case using find_local_aside [OF write_message(4,2,3), of big client] by auto
next
  case (delete_node big junk i nd nd')
  then have "local_nodes (nd_if nd) i \<noteq> None"
    by (cases "local_nodes (nd_if nd) i = None") (simp_all add: delete_local_node_def)
  then show ?case using delete_aside [OF delete_node(4,2,3), of big] delete_node(1) by auto
next
  case (give_back big junk i a nd nd')
  then show ?case using return_aside [OF aside_refl [OF give_back(6)], of a junk big i] by auto
next
  case (seed_aliases nd n)
  then show ?case using waiting_aside by (simp add: seed_allocator_def)
next
  case (clear_aliases fuel nd nd')
  then show ?case using clear_reserved_aside by blast
next
  case (count_aliases fuel i cnt nd nd' n)
  then show ?case using num_reserved_aside by blast
next
  case (answer big junk nd nd')
  then show ?case using global_step_aside by blast
next
  case (send_other f nd)
  then show ?case using aside_send by blast
qed

subsection \<open>The allocator of one node\<close>

definition reserving :: "can_node \<Rightarrow> bool" where
  "reserving nd \<longleftrightarrow> al_state nd \<notin> {AL_IDLE, AL_ENTRY}"

abbreviation pending :: "can_node \<Rightarrow> u12" where
  "pending nd \<equiv> ai_alias (al_message nd)"

text \<open>All four frames of the check have left and nobody has objected so far.\<close>

definition claims :: "can_node \<Rightarrow> u12 \<Rightarrow> bool" where
  "claims nd a \<longleftrightarrow> \<not> conflict_detected nd \<and> pending nd = a \<and>
     (al_state nd = AL_HANDLE_CID \<and> cid_frame_sequence nd < 4 \<or> al_state nd \<in> {AL_WAIT_DONE, AL_SEND_RID})"

definition own_notes :: "can_node \<Rightarrow> can_frame list" where
  "own_notes nd = map fst (filter (\<lambda>(f, n). n = Note_allocator) (nd_out nd))"

definition al_inv :: "can_node \<Rightarrow> bool" where
  "al_inv nd \<longleftrightarrow> nd_ok nd \<and> (\<forall>(f, n) \<in> set (nd_out nd). sound_frame f) \<and>
     al_handler nd = (if reserving nd then Some (pending nd) else None) \<and>
     (reserving nd \<longrightarrow> pending nd \<noteq> 0) \<and>
     (al_state nd = AL_SEND_CID \<longrightarrow> 4 \<le> cid_frame_sequence nd) \<and>
     (if al_state nd = AL_WAIT_SENT then (\<exists>f. own_notes nd = [f] \<and> claiming (pending nd) f) else own_notes nd = [])"

lemma alloc_part_eq:
  assumes "alloc_part nd' = (st, m, h, q, c)"
  shows "al_state nd' = st" "al_message nd' = m" "al_handler nd' = h" "cid_frame_sequence nd' = q" "conflict_detected nd' = c"
  using assms by (simp_all add: alloc_part_def)

lemma plain_notes: "plain_frames fs \<Longrightarrow> filter (\<lambda>(f, n). n = Note_allocator) fs = []"
  by (auto simp: plain_frames_def filter_empty_conv)

lemma aside_al_inv:
  assumes "aside nd nd'" "al_inv nd"
  shows "al_inv nd'" "claims nd' = claims nd" "al_state nd' = al_state nd" "\<exists>fs. nd_out nd' = nd_out nd @ fs"
  using assms
  by (auto simp: aside_def al_inv_def alloc_part_def reserving_def own_notes_def plain_notes claims_def plain_frames_def
      fun_eq_iff split: if_splits)

lemma heard_al_inv:
  assumes "heard f nd nd'" "al_inv nd"
  shows "al_inv nd'" "claims nd' a \<Longrightarrow> claims nd a \<and> \<not> from_alias a f" "\<exists>fs. nd_out nd' = nd_out nd @ fs"
    "al_state nd' = al_state nd" "own nd' \<subseteq> own nd" "a \<in> own nd \<Longrightarrow> claiming a f \<Longrightarrow> \<exists>(g, n) \<in> set (nd_out nd'). from_alias a g"
proof -
  have p: "al_state nd' = al_state nd" "al_message nd' = al_message nd" "al_handler nd' = al_handler nd"
    "cid_frame_sequence nd' = cid_frame_sequence nd" "conflict_detected nd' \<longleftrightarrow> conflict_detected nd \<or> hears nd f"
    using assms(1) by (simp_all add: heard_def alloc_part_def)
  obtain fs where fs: "nd_out nd' = nd_out nd @ fs" "plain_frames fs" using assms(1) by (auto simp: heard_def)
  have ok: "nd_ok nd'" using assms(1) by (simp add: heard_def)
  show "al_inv nd'"
    using assms(2) p fs ok
    by (auto simp: al_inv_def reserving_def own_notes_def plain_notes plain_frames_def split: if_splits)
  show "claims nd' a \<Longrightarrow> claims nd a \<and> \<not> from_alias a f"
    using assms(2) p by (auto simp: claims_def al_inv_def reserving_def hears_def)
  show "\<exists>fs. nd_out nd' = nd_out nd @ fs" using fs by blast
  show "al_state nd' = al_state nd" by (rule p)
  show "own nd' \<subseteq> own nd" using assms(1) by (simp add: heard_def)
  show "a \<in> own nd \<Longrightarrow> claiming a f \<Longrightarrow> \<exists>(g, n) \<in> set (nd_out nd'). from_alias a g"
    using assms(1) by (fastforce simp: heard_def)
qed

lemma frame_sent_al_inv:
  assumes "nd_out nd = (f, n) # q" "al_inv nd"
  shows "al_inv (frame_sent nd)" "own (frame_sent nd) = own nd" "sound_frame f"
    "claims (frame_sent nd) a \<Longrightarrow> claims nd a \<and> al_state (frame_sent nd) = al_state nd \<or>
       claiming a f \<and> al_state (frame_sent nd) = AL_HANDLE_CID"
    "nd_out (frame_sent nd) = q" "al_state (frame_sent nd) = AL_WAIT_DONE \<Longrightarrow> al_state nd = AL_WAIT_DONE"
proof -
  show "own (frame_sent nd) = own nd" using assms(1) by (cases n) (simp_all add: frame_sent_def own_def Let_def)
  show "sound_frame f" using assms by (auto simp: al_inv_def)
  show "nd_out (frame_sent nd) = q" "al_state (frame_sent nd) = AL_WAIT_DONE \<Longrightarrow> al_state nd = AL_WAIT_DONE"
    using assms(1) by (cases n; simp add: frame_sent_def Let_def)+
  show "al_inv (frame_sent nd)"
    using assms by (cases n) (auto simp: al_inv_def frame_sent_def own_notes_def reserving_def nd_ok_def Let_def split: if_splits)
  show "claims (frame_sent nd) a \<Longrightarrow> claims nd a \<and> al_state (frame_sent nd) = al_state nd \<or>
       claiming a f \<and> al_state (frame_sent nd) = AL_HANDLE_CID"
    using assms by (cases n) (auto simp: al_inv_def frame_sent_def own_notes_def claims_def Let_def split: if_splits)
qed

text \<open>A step of the allocator: it takes an alias only with a claim, and announces it.\<close>

definition alloc_change :: "can_node \<Rightarrow> can_node \<Rightarrow> bool" where
  "alloc_change nd nd' \<longleftrightarrow> al_inv nd' \<and> (\<exists>fs. nd_out nd' = nd_out nd @ fs) \<and>
     (\<forall>a. claims nd' a \<longrightarrow> claims nd a \<and> (al_state nd = AL_HANDLE_CID \<and> al_state nd' = AL_WAIT_DONE \<or>
        al_state nd = AL_WAIT_DONE \<and> al_state nd' = AL_SEND_RID)) \<and>
     (\<forall>a \<in> own nd'. a \<in> own nd \<or> claims nd a \<and> al_state nd = AL_SEND_RID)"

lemma seed_part: "alloc_part (advance_seed nd) = alloc_part nd" "nd_ok (advance_seed nd) = nd_ok nd"
  "nd_out (advance_seed nd) = nd_out nd" "own (advance_seed nd) = own nd"
  by (simp_all add: advance_seed_def own_def node_defs)

lemma get_new_seed_aside:
  "get_new_seed fuel nd = Some (nd', a) \<Longrightarrow> nd_ok nd \<Longrightarrow> aside nd nd' \<and> a \<noteq> 0 \<and> nd_out nd' = nd_out nd"
proof (induction fuel arbitrary: nd)
  case (Suc fuel)
  let ?n = "advance_seed nd" and ?a = "ucast (seed12 nd) :: node_alias"
  have n: "aside nd ?n" "nd_ok ?n" using Suc.prems(2) seed_part [of nd] by (simp_all add: aside_def plain_frames_def)
  show ?case
  proof (cases "seed12 nd = 0")
    case True
    then have "get_new_seed fuel ?n = Some (nd', a)" using Suc.prems(1) by simp
    then show ?thesis using Suc.IH [OF _ n(2)] aside_trans [OF n(1)] seed_part(3) by metis
  next
    case z: False
    obtain n1 where 1: "with_local (lookup_alias ?a) ?n = Some (n1, alias_entry (local_aliases (nd_if ?n)) ?a)" "aside ?n n1"
      "nd_out n1 = nd_out ?n"
      using local_find [OF n(2) ucast12_small] by blast
    have b1: "aside nd n1" using aside_trans n(1) 1(2) by blast
    show ?thesis
    proof (cases "alias_entry (local_aliases (nd_if ?n)) ?a = 0")
      case False
      then have "get_new_seed fuel n1 = Some (nd', a)" using Suc.prems(1) z 1(1) by (simp add: Let_def)
      then show ?thesis using Suc.IH [OF _ aside_ok [OF b1]] aside_trans [OF b1] 1(3) seed_part(3) by metis
    next
      case l: True
      have r: "cache_ok (remote_aliases (nd_if n1))" using aside_ok [OF b1] by (simp add: nd_ok_def if_ok_def)
      obtain d where d: "lookup_alias ?a (remote_aliases (nd_if n1)) = Some (d, alias_entry (remote_aliases (nd_if n1)) ?a)" "cache_ok d"
        using ad.lookup_same [OF r ucast12_small] by (auto simp: ad.same_entries_def)
      let ?n2 = "n1\<lparr>nd_if := nd_if n1\<lparr>remote_aliases := d\<rparr>\<rparr>"
      have 2: "with_remote (lookup_alias ?a) n1 = Some (?n2, alias_entry (remote_aliases (nd_if n1)) ?a)" "aside nd ?n2"
        "nd_out ?n2 = nd_out nd"
        using d aside_trans [OF b1 remote_aside [OF aside_ok [OF b1] d(2)]] 1(3) seed_part(3)
        by (simp_all add: with_remote_def)
      show ?thesis
      proof (cases "alias_entry (remote_aliases (nd_if n1)) ?a = 0")
        case False
        then have "get_new_seed fuel ?n2 = Some (nd', a)" using Suc.prems(1) z 1(1) 2(1) l by (simp add: Let_def)
        then show ?thesis using Suc.IH [OF _ aside_ok [OF 2(2)]] aside_trans [OF 2(2)] 2(3) by metis
      next
        case True
        then have "nd' = ?n2" "a = seed12 nd" using Suc.prems(1) z 1(1) 2(1) l by (simp_all add: Let_def)
        then show ?thesis using 2 z by simp
      qed
    qed
  qed
qed simp

lemma same_change:
  assumes "al_inv nd" "al_inv nd'" "nd_out nd' = nd_out nd" "own nd' \<subseteq> own nd"
    "\<And>a. claims nd' a \<Longrightarrow> claims nd a \<and> (al_state nd = AL_HANDLE_CID \<and> al_state nd' = AL_WAIT_DONE \<or>
        al_state nd = AL_WAIT_DONE \<and> al_state nd' = AL_SEND_RID)"
  shows "alloc_change nd nd'"
  using assms by (auto simp: alloc_change_def)

lemma cid_sequence: "4 \<le> sq \<Longrightarrow> bit sq 2" for sq :: "3 word"
proof -
  assume "4 \<le> sq"
  then have "4 \<le> unat sq" by (simp add: word_le_nat_alt)
  moreover have "unat sq < 8" using unat_less_power [of sq] by simp
  ultimately have "unat sq div 4 = 1" by presburger
  then have "bit (unat sq) 2" by (simp add: bit_iff_odd)
  then show "bit sq 2" by (simp add: bit_unsigned_iff)
qed

lemma cid_claims:
  assumes "4 \<le> sq"
  shows "claiming a (cid_frame junk i a sq)"
proof -
  have "take_bit 12 (ucast (drop_bit k i AND 0xfff :: u64) :: u16) = ucast (drop_bit k i AND 0xfff)" for k
  proof -
    have m: "(0xfff :: u64) = mask 12" by (simp add: mask_eq_exp_minus_1)
    show ?thesis unfolding m by (rule bit_word_eqI) (auto simp: bit_simps)
  qed
  moreover have "take_bit 3 (ucast sq :: u32) = ucast sq"
    by (rule bit_word_eqI) (auto simp: bit_simps dest: bit_imp_le_length)
  ultimately show ?thesis
    using control_from(1,3) cid_sequence [OF assms] by (simp add: claiming_def cid_frame_def bit_simps)
qed

lemma cid_sound: "length junk = 8 \<Longrightarrow> sound_frame (cid_frame junk i a sq)"
  by (simp add: cid_frame_def control_frame_sound)

lemma entry_change:
  assumes "al_inv nd" "al_state nd = AL_ENTRY" "alloc_entry fuel nd = Some nd'"
  shows "alloc_change nd nd'"
proof -
  let ?n0 = "nd\<lparr>cid_frame_sequence := 7, conflict_detected := False\<rparr>"
  have ok: "nd_ok ?n0" using assms(1) by (simp add: al_inv_def nd_ok_def)
  obtain n1 a where 1: "aside ?n0 n1" "a \<noteq> 0" "nd_out n1 = nd_out nd" "al_handler n1 = al_handler nd"
    "nd' = n1\<lparr>al_message := al_message nd\<lparr>ai_alias := a\<rparr>, al_handler := Some a, al_state := AL_HANDLE_CID\<rparr>"
  proof (cases "pending nd = 0")
    case True
    then obtain n1 a where n: "get_new_seed fuel ?n0 = Some (n1, a)"
      "nd' = (register_conflicts (n1\<lparr>al_message := al_message n1\<lparr>ai_alias := a\<rparr>\<rparr>))\<lparr>al_state := AL_HANDLE_CID\<rparr>"
      using assms(3) by (auto simp: alloc_entry_def Let_def split: bind_splits if_splits)
    have g: "aside ?n0 n1" "a \<noteq> 0" "nd_out n1 = nd_out ?n0" using get_new_seed_aside [OF n(1) ok] by simp_all
    have "al_message n1 = al_message nd" "al_handler n1 = al_handler nd"
      using g(1) by (simp_all add: aside_def alloc_part_def)
    then show ?thesis using that [OF g(1,2)] g(3) n(2) by (simp add: register_conflicts_def)
  next
    case False
    then have "nd' = (register_conflicts ?n0)\<lparr>al_state := AL_HANDLE_CID\<rparr>"
      using assms(3) by (auto simp: alloc_entry_def Let_def split: if_splits)
    then show ?thesis using that [OF aside_refl [OF ok] False] by (simp add: register_conflicts_def)
  qed
  have p: "cid_frame_sequence n1 = 7" "own n1 \<subseteq> own nd" "nd_ok n1"
    using 1(1) by (auto simp: aside_def alloc_part_def own_def)
  show ?thesis
    using assms(1,2) 1(2,3,5) p
    by (intro same_change) (auto simp: al_inv_def reserving_def own_notes_def claims_def own_def node_defs)
qed

lemma rid_change:
  assumes "al_inv nd" "al_state nd = AL_SEND_RID" "length junk = 8" "send_rid_frame junk nd = Some nd'"
  shows "alloc_change nd nd'"
proof (cases "conflict_detected nd")
  case True
  then have "nd' = nd\<lparr>al_state := AL_CONFLICT\<rparr>" using assms(4) by (simp add: send_rid_frame_def Let_def)
  then show ?thesis
    using assms(1,2) True
    by (intro same_change) (auto simp: al_inv_def reserving_def own_notes_def claims_def own_def node_defs)
next
  case False
  let ?a = "pending nd" and ?f = "control_frame junk (ucast (pending nd)) RID_FRAME 0"
  let ?n = "(send_frame ?f No_note nd)\<lparr>al_message := al_message nd\<lparr>ai_state := STATE_RESERVED\<rparr>, al_handler := None\<rparr>"
  have h: "al_handler nd = Some ?a" "?a \<noteq> 0" "nd_ok nd" using assms(1,2) by (simp_all add: al_inv_def reserving_def)
  have v: "valid_alias (ucast ?a)" using h(2) ucast12_small ucast12_0 by (simp add: valid_alias_def)
  have ok: "nd_ok ?n" using h(3) by (simp add: nd_ok_def send_frame_def)
  obtain n1 l where 1: "with_local (add (get_reserved_alias_node_id (ucast ?a)) (ucast ?a)) ?n = Some (n1, l)" "nd_ok n1"
    "nd_out n1 = nd_out ?n" "alloc_part n1 = alloc_part ?n" "own n1 \<subseteq> own ?n \<union> {x. ucast x = (ucast ?a :: u16)}"
    using local_add [OF ok reserved_id [OF v] v] by blast
  have "unregister_conflicts ((send_frame ?f No_note nd)\<lparr>al_message := al_message nd\<lparr>ai_state := STATE_RESERVED\<rparr>\<rparr>) = Some ?n"
    using h(1) by (simp add: unregister_conflicts_def send_frame_def)
  then have n: "nd' = n1\<lparr>waitingClients := tl (waitingClients n1), al_state := AL_IDLE\<rparr>"
    using assms(4) False 1(1) by (simp add: send_rid_frame_def add_allocated_alias_def Let_def send_frame_def)
  have out: "nd_out nd' = nd_out nd @ [(?f, No_note)]" "al_handler nd' = None" "al_state nd' = AL_IDLE" "nd_ok nd'"
    using 1(2,3,4) n by (simp_all add: send_frame_def nd_ok_def alloc_part_def)
  have inv: "al_inv nd'"
    using assms(1,2) out control_frame_sound [OF assms(3)] by (auto simp: al_inv_def reserving_def own_notes_def)
  have "x = ?a" if "ucast x = (ucast ?a :: u16)" for x using that ucast12_back by metis
  then have own: "own nd' \<subseteq> own nd \<union> {?a}" using 1(5) n by (auto simp: own_def send_frame_def)
  have "claims nd ?a" using False assms(2) by (simp add: claims_def)
  then show ?thesis
    using inv own out(1,3) assms(2) by (auto simp: alloc_change_def claims_def)
qed

lemma alloc_step_change:
  assumes "al_inv nd" "alloc_step fuel junk nd = Some nd'" "length junk = 8"
  shows "alloc_change nd nd'"
proof (cases "al_state nd")
  case AL_IDLE
  then show ?thesis
    using assms(1,2) by (intro same_change) (auto simp: alloc_step_def al_inv_def reserving_def own_notes_def claims_def own_def node_defs
        split: list.splits)
next
  case AL_ENTRY
  then show ?thesis using entry_change assms by (simp add: alloc_step_def)
next
  case AL_HANDLE_CID
  then show ?thesis
    using assms(1,2)
    by (intro same_change) (auto simp: alloc_step_def handle_allocate_for_cid_frame_def al_inv_def reserving_def own_notes_def
        claims_def own_def node_defs not_le split: if_splits)
next
  case AL_SEND_CID
  show ?thesis
  proof (cases "conflict_detected nd")
    case True
    then show ?thesis
      using assms(1,2) AL_SEND_CID
      by (intro same_change) (auto simp: alloc_step_def send_cid_frame_def al_inv_def reserving_def own_notes_def claims_def own_def
          node_defs)
  next
    case False
    let ?f = "cid_frame junk (if_id nd) (pending nd) (cid_frame_sequence nd)"
    have n: "nd' = (send_frame ?f Note_allocator nd)\<lparr>cid_frame_sequence := cid_frame_sequence nd - 1, al_state := AL_WAIT_SENT\<rparr>"
      using assms(2) AL_SEND_CID False by (simp add: alloc_step_def send_cid_frame_def)
    have out: "nd_out nd' = nd_out nd @ [(?f, Note_allocator)]" "own nd' = own nd" "al_state nd' = AL_WAIT_SENT"
      "pending nd' = pending nd" "al_handler nd' = al_handler nd" "nd_ok nd' = nd_ok nd"
      by (simp_all add: n send_frame_def own_def nd_ok_def)
    have "claiming (pending nd) ?f" using assms(1) AL_SEND_CID by (intro cid_claims) (simp add: al_inv_def)
    then have "al_inv nd'"
      using assms(1) AL_SEND_CID cid_sound [OF assms(3)] by (simp add: al_inv_def reserving_def own_notes_def out)
    then show ?thesis by (auto simp: alloc_change_def claims_def out)
  qed
next
  case AL_WAIT_SENT
  then show ?thesis using assms(1,2) by (intro same_change) (auto simp: alloc_step_def claims_def)
next
  case AL_WAIT_DONE
  then show ?thesis
    using assms(1,2)
    by (intro same_change) (auto simp: alloc_step_def wait_done_def al_inv_def reserving_def own_notes_def claims_def own_def node_defs
        split: if_splits)
next
  case AL_SEND_RID
  then show ?thesis using rid_change assms by (simp add: alloc_step_def)
next
  case AL_CONFLICT
  then show ?thesis
    using assms(1,2)
    by (intro same_change) (auto simp: alloc_step_def handle_alias_conflict_def unregister_conflicts_def al_inv_def reserving_def
        own_notes_def claims_def own_def node_defs split: if_splits)
qed

end
