(* ===== verification/AliasBus.thy ===== *)
theory AliasBus
  imports AliasAlloc
begin

section \<open>Nodes on a bus: no alias has two owners\<close>

text \<open>
  Any number of nodes on one CAN bus, in time. A step is a call by a client of one node, a step of
  the allocator of one node, a frame that leaves the queue of one node and is received by all
  the others, a frame that one node handles, a node that restarts, or time that passes. Received frames
  wait until their node handles them, in order. The allocator leaves its sleep when its 200 ms are over or
  when a conflict wakes it up. About the bus only one thing is assumed: \<open>d\<close> bounds the
  time from the queueing of a frame until every node has handled it. Times are in milliseconds.
\<close>

subsection \<open>The bus\<close>

definition can_node_new :: "node_id \<Rightarrow> nat \<Rightarrow> nat \<Rightarrow> u8 \<Rightarrow> can_node" where
  "can_node_new i local_size remote_size reserve = reinit_seed
     \<lparr>nd_if = \<lparr>local_aliases = alias_cache_new 0 local_size False, remote_aliases = alias_cache_new 0 remote_size False,
        local_nodes = (\<lambda>_. None), pendingBuffers = (\<lambda>_. None), parse_buf = []\<rparr>,
      nd_out = [], use_conflicts = 0, if_id = i, seed12 = 0, cid_frame_sequence = 0, conflict_detected = False,
      test_conflicts = 0, reserveUnusedAliases = reserve, al_state = AL_IDLE, al_message = alias_info_init, al_queue = [],
      al_handler = None, waitingClients = [], gq_state = GQ_TERMINATED, needRerun = False, nextIndex = 0\<rparr>"

definition fresh_node :: "can_node \<Rightarrow> bool" where
  "fresh_node nd \<longleftrightarrow> (\<exists>i n k r. 0 < n \<and> n \<le> 4096 \<and> 0 < k \<and> k \<le> 4096 \<and> nd = can_node_new i n k r)"

record station =
  st_node :: can_node
  st_born :: "nat list"
  st_inbox :: "(can_frame \<times> nat) list"
  st_since :: nat

text \<open>\<open>st_born\<close> has the times at which the frames of the queue were put there, and each received frame comes
  with this time; \<open>st_since\<close> is the time at which the allocator went to sleep.\<close>

definition station_new :: "can_node \<Rightarrow> station" where
  "station_new nd = \<lparr>st_node = nd, st_born = [], st_inbox = [], st_since = 0\<rparr>"

definition took_step :: "nat \<Rightarrow> can_node \<Rightarrow> station \<Rightarrow> station" where
  "took_step t nd' st = st\<lparr>st_node := nd',
     st_born := st_born st @ replicate (length (nd_out nd') - length (nd_out (st_node st))) t,
     st_since := (if al_state nd' = AL_WAIT_DONE \<and> al_state (st_node st) \<noteq> AL_WAIT_DONE then t else st_since st)\<rparr>"

definition left_queue :: "station \<Rightarrow> station" where
  "left_queue st = st\<lparr>st_node := frame_sent (st_node st), st_born := tl (st_born st)\<rparr>"

definition in_flight :: "station \<Rightarrow> nat set" where
  "in_flight st = set (st_born st) \<union> snd ` set (st_inbox st)"

definition ALIAS_WAIT_MSEC :: nat where "ALIAS_WAIT_MSEC = 200"

type_synonym bus = "nat \<times> station list"

inductive bus_step :: "nat \<Rightarrow> bus \<Rightarrow> bus \<Rightarrow> bool" for d where
  client: "i < length s \<Longrightarrow> client_step (st_node (s ! i)) nd' \<Longrightarrow> bus_step d (t, s) (t, s[i := took_step t nd' (s ! i)])"
| allocator: "i < length s \<Longrightarrow> alloc_step fuel junk (st_node (s ! i)) = Some nd' \<Longrightarrow> length junk = 8 \<Longrightarrow>
    (al_state (st_node (s ! i)) = AL_WAIT_DONE \<Longrightarrow>
       conflict_detected (st_node (s ! i)) \<or> st_since (s ! i) + ALIAS_WAIT_MSEC \<le> t) \<Longrightarrow>
    bus_step d (t, s) (t, s[i := took_step t nd' (s ! i)])"
| transmit: "i < length s \<Longrightarrow> nd_out (st_node (s ! i)) = (f, n) # q \<Longrightarrow> st_born (s ! i) = b # bs \<Longrightarrow>
    length s' = length s \<Longrightarrow> s' ! i = left_queue (s ! i) \<Longrightarrow>
    (\<forall>j < length s. j \<noteq> i \<longrightarrow> s' ! j = (s ! j)\<lparr>st_inbox := st_inbox (s ! j) @ [(f, b)]\<rparr>) \<Longrightarrow>
    bus_step d (t, s) (t, s')"
| handle: "i < length s \<Longrightarrow> st_inbox (s ! i) = (f, b) # q \<Longrightarrow> length junk = 8 \<Longrightarrow>
    node_frame big junk f (st_node (s ! i)) = Some (nd', r) \<Longrightarrow>
    bus_step d (t, s) (t, s[i := (took_step t nd' (s ! i))\<lparr>st_inbox := q\<rparr>])"
| restart: "i < length s \<Longrightarrow> fresh_node nd \<Longrightarrow> bus_step d (t, s) (t, s[i := station_new nd])"
| wait: "(\<forall>st \<in> set s. \<forall>b \<in> in_flight st. t + k \<le> b + d) \<Longrightarrow> bus_step d (t, s) (t + k, s)"

inductive bus_reachable :: "nat \<Rightarrow> bus \<Rightarrow> bool" for d where
  start: "(\<forall>nd \<in> set nds. fresh_node nd) \<Longrightarrow> bus_reachable d (0, map station_new nds)"
| step: "bus_reachable d s \<Longrightarrow> bus_step d s u \<Longrightarrow> bus_reachable d u"

subsection \<open>Claims and frames on their way\<close>

abbreviation owns :: "station \<Rightarrow> u12 set" where
  "owns x \<equiv> own (st_node x)"

abbreviation claiming_st :: "station \<Rightarrow> u12 \<Rightarrow> bool" where
  "claiming_st x a \<equiv> claims (st_node x) a"

abbreviation announces :: "station \<Rightarrow> bool" where
  "announces x \<equiv> al_state (st_node x) = AL_SEND_RID"

text \<open>Since when a node has waited for objections to its claim.\<close>

definition limit :: "nat \<Rightarrow> station \<Rightarrow> nat" where
  "limit t x = (if al_state (st_node x) = AL_HANDLE_CID then t else st_since x)"

definition sent :: "station \<Rightarrow> (can_frame \<times> nat) list" where
  "sent x = zip (map fst (nd_out (st_node x))) (st_born x)"

text \<open>A frame with the alias is on its way from \<open>x\<close> to \<open>y\<close>, and a check of it has not been handled by \<open>x\<close>.\<close>

definition alarm :: "station \<Rightarrow> station \<Rightarrow> u12 \<Rightarrow> nat \<Rightarrow> bool" where
  "alarm x y a u \<longleftrightarrow> (\<exists>(f, b) \<in> set (sent x) \<union> set (st_inbox y). from_alias a f \<and> b \<le> u)"

definition probed :: "station \<Rightarrow> u12 \<Rightarrow> nat \<Rightarrow> bool" where
  "probed x a u \<longleftrightarrow> (\<exists>(f, b) \<in> set (st_inbox x). claiming a f \<and> b \<le> u)"

lemma alarmI: "(f, b) \<in> set (sent x) \<union> set (st_inbox y) \<Longrightarrow> from_alias a f \<Longrightarrow> b \<le> u \<Longrightarrow> alarm x y a u"
  unfolding alarm_def by blast

lemma later: "alarm x y a u \<Longrightarrow> u \<le> v \<Longrightarrow> alarm x y a v" "probed x a u \<Longrightarrow> u \<le> v \<Longrightarrow> probed x a v"
proof -
  show "alarm x y a u \<Longrightarrow> u \<le> v \<Longrightarrow> alarm x y a v" unfolding alarm_def by (blast intro: order_trans)
  show "probed x a u \<Longrightarrow> u \<le> v \<Longrightarrow> probed x a v" unfolding probed_def by (blast intro: order_trans)
qed

definition st_inv :: "nat \<Rightarrow> nat \<Rightarrow> station \<Rightarrow> bool" where
  "st_inv d t x \<longleftrightarrow> al_inv (st_node x) \<and> length (st_born x) = length (nd_out (st_node x)) \<and> st_since x \<le> t \<and>
     (\<forall>b \<in> in_flight x. b \<le> t \<and> t \<le> b + d) \<and> (\<forall>(f, b) \<in> set (st_inbox x). sound_frame f)"

definition pair_inv :: "nat \<Rightarrow> nat \<Rightarrow> station \<Rightarrow> station \<Rightarrow> bool" where
  "pair_inv d t x y \<longleftrightarrow> (\<forall>a. a \<in> owns x \<longrightarrow> a \<notin> owns y) \<and>
     (\<forall>a. claiming_st y a \<longrightarrow> a \<in> owns x \<longrightarrow> \<not> announces y \<and> (alarm x y a (limit t y + d) \<or> probed x a (limit t y))) \<and>
     (\<forall>a. claiming_st x a \<longrightarrow> claiming_st y a \<longrightarrow> \<not> (announces x \<and> announces y) \<and>
        (if announces y then probed y a (limit t x) else if announces x then probed x a (limit t y)
         else probed y a (limit t x) \<or> probed x a (limit t y)))"

definition bus_inv :: "nat \<Rightarrow> bus \<Rightarrow> bool" where
  "bus_inv d = (\<lambda>(t, s). (\<forall>i < length s. st_inv d t (s ! i)) \<and>
     (\<forall>i < length s. \<forall>j < length s. i \<noteq> j \<longrightarrow> pair_inv d t (s ! i) (s ! j)))"

lemma pair_invD:
  assumes "pair_inv d t x y"
  shows "a \<in> owns x \<Longrightarrow> a \<notin> owns y"
    "claiming_st y a \<Longrightarrow> a \<in> owns x \<Longrightarrow> \<not> announces y"
    "claiming_st y a \<Longrightarrow> a \<in> owns x \<Longrightarrow> alarm x y a (limit t y + d) \<or> probed x a (limit t y)"
    "claiming_st x a \<Longrightarrow> claiming_st y a \<Longrightarrow> \<not> (announces x \<and> announces y)"
    "claiming_st x a \<Longrightarrow> claiming_st y a \<Longrightarrow> announces y \<Longrightarrow> probed y a (limit t x)"
    "claiming_st x a \<Longrightarrow> claiming_st y a \<Longrightarrow> announces x \<Longrightarrow> probed x a (limit t y)"
    "claiming_st x a \<Longrightarrow> claiming_st y a \<Longrightarrow> probed y a (limit t x) \<or> probed x a (limit t y)"
  using assms unfolding pair_inv_def by metis+

lemma pair_invI:
  assumes "\<And>a. a \<in> owns x \<Longrightarrow> a \<notin> owns y"
    "\<And>a. claiming_st y a \<Longrightarrow> a \<in> owns x \<Longrightarrow> \<not> announces y"
    "\<And>a. claiming_st y a \<Longrightarrow> a \<in> owns x \<Longrightarrow> alarm x y a (limit t y + d) \<or> probed x a (limit t y)"
    "\<And>a. claiming_st x a \<Longrightarrow> claiming_st y a \<Longrightarrow> \<not> (announces x \<and> announces y)"
    "\<And>a. claiming_st x a \<Longrightarrow> claiming_st y a \<Longrightarrow> announces y \<Longrightarrow> probed y a (limit t x)"
    "\<And>a. claiming_st x a \<Longrightarrow> claiming_st y a \<Longrightarrow> announces x \<Longrightarrow> probed x a (limit t y)"
    "\<And>a. claiming_st x a \<Longrightarrow> claiming_st y a \<Longrightarrow> probed y a (limit t x) \<or> probed x a (limit t y)"
  shows "pair_inv d t x y"
  unfolding pair_inv_def using assms by simp

text \<open>After the wait nothing is left of what could have been on its way when it began.\<close>

lemma alarm_late:
  assumes "alarm x y a (u + d)" "st_inv d t x" "st_inv d t y" "d < 100"
  shows "t < u + ALIAS_WAIT_MSEC"
proof -
  obtain f b where "(f, b) \<in> set (sent x) \<union> set (st_inbox y)" "b \<le> u + d" using assms(1) by (auto simp: alarm_def)
  then have "b \<in> in_flight x \<union> in_flight y" by (force simp: sent_def in_flight_def dest: set_zip_rightD)
  then have "t \<le> b + d" using assms(2,3) by (auto simp: st_inv_def)
  then show ?thesis using \<open>b \<le> u + d\<close> assms(4) by (simp add: ALIAS_WAIT_MSEC_def)
qed

lemma probe_late:
  assumes "probed x a u" "st_inv d t x" "d < 100"
  shows "t < u + ALIAS_WAIT_MSEC"
proof -
  obtain f b where "(f, b) \<in> set (st_inbox x)" "b \<le> u" using assms(1) by (auto simp: probed_def)
  then have "t \<le> b + d" using assms(2) by (force simp: st_inv_def in_flight_def)
  then show ?thesis using \<open>b \<le> u\<close> assms(3) by (simp add: ALIAS_WAIT_MSEC_def)
qed

lemma update_pair:
  assumes "bus_inv d (t, s)" "i < length s" "st_inv d t x"
    "\<And>j. j < length s \<Longrightarrow> j \<noteq> i \<Longrightarrow> pair_inv d t (s ! i) (s ! j) \<Longrightarrow> pair_inv d t (s ! j) (s ! i) \<Longrightarrow> st_inv d t (s ! j) \<Longrightarrow>
       pair_inv d t x (s ! j) \<and> pair_inv d t (s ! j) x"
  shows "bus_inv d (t, s[i := x])"
  unfolding bus_inv_def prod.case
proof (intro conjI allI impI)
  show "st_inv d t (s[i := x] ! k)" if "k < length (s[i := x])" for k
    using assms(1,3) that by (cases "k = i") (auto simp: bus_inv_def)
  show "pair_inv d t (s[i := x] ! k) (s[i := x] ! j)"
    if "k < length (s[i := x])" "j < length (s[i := x])" "k \<noteq> j" for k j
    using that assms(1,2) assms(4) [of j] assms(4) [of k] by (cases "k = i"; cases "j = i") (auto simp: bus_inv_def)
qed

subsection \<open>Each step keeps the invariant\<close>

text \<open>What a step of a node adds to its queue.\<close>

lemma took_step_facts:
  assumes "st_inv d t x" "nd_out nd' = nd_out (st_node x) @ fs" "al_inv nd'"
  shows "st_inv d t (took_step t nd' x)" "set (sent x) \<subseteq> set (sent (took_step t nd' x))"
    "st_inbox (took_step t nd' x) = st_inbox x" "st_node (took_step t nd' x) = nd'"
    "(g, n) \<in> set (nd_out nd') \<Longrightarrow> \<exists>b. (g, b) \<in> set (sent (took_step t nd' x)) \<and> b \<le> t"
proof -
  have b: "st_born (took_step t nd' x) = st_born x @ replicate (length fs) t" by (simp add: took_step_def assms(2))
  have l: "length (st_born x) = length (nd_out (st_node x))" using assms(1) by (simp add: st_inv_def)
  show n: "st_inbox (took_step t nd' x) = st_inbox x" "st_node (took_step t nd' x) = nd'" by (simp_all add: took_step_def)
  have f: "in_flight (took_step t nd' x) \<subseteq> in_flight x \<union> {t}" by (auto simp: in_flight_def b n)
  have x: "st_since x \<le> t" "b \<in> in_flight x \<Longrightarrow> b \<le> t \<and> t \<le> b + d" "\<forall>(f, b) \<in> set (st_inbox x). sound_frame f" for b
    using assms(1) by (auto simp only: st_inv_def)
  have "st_since (took_step t nd' x) \<le> t" using x(1) by (simp add: took_step_def)
  moreover have "b \<le> t \<and> t \<le> b + d" if "b \<in> in_flight (took_step t nd' x)" for b using that f x(2) by auto
  moreover have "length (st_born (took_step t nd' x)) = length (nd_out nd')" by (simp add: b l assms(2))
  ultimately show inv: "st_inv d t (took_step t nd' x)" using assms(3) x(3) unfolding st_inv_def n by blast
  show "set (sent x) \<subseteq> set (sent (took_step t nd' x))" by (simp add: sent_def b n assms(2) l)
  assume "(g, n) \<in> set (nd_out nd')"
  then obtain k where k: "k < length (nd_out nd')" "nd_out nd' ! k = (g, n)" by (auto simp: in_set_conv_nth)
  have l': "length (st_born (took_step t nd' x)) = length (nd_out nd')" using inv by (simp add: st_inv_def n)
  then have "(g, st_born (took_step t nd' x) ! k) \<in> set (sent (took_step t nd' x))"
    using k by (force simp: sent_def n in_set_zip)
  moreover have "st_born (took_step t nd' x) ! k \<le> t"
    using inv k(1) l' nth_mem [of k "st_born (took_step t nd' x)"] by (simp add: st_inv_def in_flight_def)
  ultimately show "\<exists>b. (g, b) \<in> set (sent (took_step t nd' x)) \<and> b \<le> t" by blast
qed

text \<open>What becomes of two nodes when no alias is taken: a claim is an old one or has just been checked, and
  a check that is handled ends the claim or is answered.\<close>

definition keeps :: "nat \<Rightarrow> nat \<Rightarrow> station \<Rightarrow> station \<Rightarrow> station \<Rightarrow> station \<Rightarrow> bool" where
  "keeps d t x y x' y' \<longleftrightarrow> (\<forall>a. a \<in> owns x' \<longrightarrow> a \<in> owns x) \<and>
     (\<forall>a. claiming_st x' a \<longrightarrow> claiming_st x a \<and> limit t x' = limit t x \<and> (announces x' \<longleftrightarrow> announces x) \<or>
        \<not> announces x' \<and> probed y' a (limit t x')) \<and>
     (\<forall>a u. claiming_st y' a \<longrightarrow> alarm x y a u \<longrightarrow> alarm x' y' a u) \<and>
     (\<forall>a. claiming_st y' a \<longrightarrow> probed x a (limit t y') \<longrightarrow>
        probed x' a (limit t y') \<or> \<not> claiming_st x' a \<and> (a \<in> owns x' \<longrightarrow> alarm x' y' a (limit t y' + d)))"

lemma keepsI:
  assumes "\<And>a. a \<in> owns x' \<Longrightarrow> a \<in> owns x"
    "\<And>a. claiming_st x' a \<Longrightarrow> claiming_st x a \<and> limit t x' = limit t x \<and> (announces x' \<longleftrightarrow> announces x) \<or>
        \<not> announces x' \<and> probed y' a (limit t x')"
    "\<And>a u. claiming_st y' a \<Longrightarrow> alarm x y a u \<Longrightarrow> alarm x' y' a u"
    "\<And>a. claiming_st y' a \<Longrightarrow> probed x a (limit t y') \<Longrightarrow>
        probed x' a (limit t y') \<or> \<not> claiming_st x' a \<and> (a \<in> owns x' \<longrightarrow> alarm x' y' a (limit t y' + d))"
  shows "keeps d t x y x' y'"
  unfolding keeps_def using assms by simp

lemma keepsD:
  assumes "keeps d t x y x' y'"
  shows "a \<in> owns x' \<Longrightarrow> a \<in> owns x"
    "claiming_st x' a \<Longrightarrow> claiming_st x a \<and> limit t x' = limit t x \<and> (announces x' \<longleftrightarrow> announces x) \<or>
        \<not> announces x' \<and> probed y' a (limit t x')"
    "claiming_st y' a \<Longrightarrow> alarm x y a u \<Longrightarrow> alarm x' y' a u"
    "claiming_st y' a \<Longrightarrow> probed x a (limit t y') \<Longrightarrow>
        probed x' a (limit t y') \<or> \<not> claiming_st x' a \<and> (a \<in> owns x' \<longrightarrow> alarm x' y' a (limit t y' + d))"
  using assms unfolding keeps_def by simp_all

lemma keeps_pair:
  assumes "keeps d t x y x' y'" "keeps d t y x y' x'" "pair_inv d t x y"
  shows "pair_inv d t x' y'"
proof (rule pair_invI)
  note x = keepsD [OF assms(1)] and y = keepsD [OF assms(2)] and p = pair_invD [OF assms(3)]
  fix a
  show "a \<in> owns x' \<Longrightarrow> a \<notin> owns y'" using p(1) x(1) y(1) by blast
  show "claiming_st y' a \<Longrightarrow> a \<in> owns x' \<Longrightarrow> \<not> announces y'" using p(2) x(1) y(2) by blast
  show "claiming_st y' a \<Longrightarrow> a \<in> owns x' \<Longrightarrow> alarm x' y' a (limit t y' + d) \<or> probed x' a (limit t y')"
    using p(3) [of a] x(1,3,4) [of a] y(2) [of a] by metis
  show "claiming_st x' a \<Longrightarrow> claiming_st y' a \<Longrightarrow> \<not> (announces x' \<and> announces y')" using p(4) x(2) y(2) by blast
  show "claiming_st x' a \<Longrightarrow> claiming_st y' a \<Longrightarrow> announces y' \<Longrightarrow> probed y' a (limit t x')"
    using p(5) [of a] x(2) [of a] y(2,4) [of a] by metis
  show "claiming_st x' a \<Longrightarrow> claiming_st y' a \<Longrightarrow> announces x' \<Longrightarrow> probed x' a (limit t y')"
    using p(6) [of a] x(2,4) [of a] y(2) [of a] by metis
  show "claiming_st x' a \<Longrightarrow> claiming_st y' a \<Longrightarrow> probed y' a (limit t x') \<or> probed x' a (limit t y')"
    using p(7) [of a] x(2,4) [of a] y(2,4) [of a] by metis
qed

lemma keeps_both:
  assumes "keeps d t x y x' y'" "keeps d t y x y' x'" "pair_inv d t x y" "pair_inv d t y x"
  shows "pair_inv d t x' y' \<and> pair_inv d t y' x'"
  using keeps_pair [OF assms(1,2,3)] keeps_pair [OF assms(2,1,4)] ..

text \<open>The other node does not take part in a step, and no frame gets lost.\<close>

lemma mono_frames:
  assumes "set (sent x) \<subseteq> set (sent x')" "set (st_inbox x) \<subseteq> set (st_inbox x')"
  shows "alarm x y a u \<Longrightarrow> alarm x' y a u" "alarm y x a u \<Longrightarrow> alarm y x' a u" "probed x a u \<Longrightarrow> probed x' a u"
  using assms by (auto simp: alarm_def probed_def)

lemma quiet_pair:
  assumes "\<And>a. a \<in> owns x' \<Longrightarrow> a \<in> owns x"
    "\<And>a. claiming_st x' a \<Longrightarrow> claiming_st x a \<and> limit t x' = limit t x \<and> (announces x' \<longleftrightarrow> announces x)"
    "set (sent x) \<subseteq> set (sent x')" "set (st_inbox x) \<subseteq> set (st_inbox x')"
  shows "keeps d t x y x' y" "keeps d t y x y x'"
  using mono_frames [OF assms(3,4)] assms(1,2) by (intro keepsI; blast)+

lemma client_inv:
  assumes "bus_inv d (t, s)" "i < length s" "client_step (st_node (s ! i)) nd'"
  shows "bus_inv d (t, s[i := took_step t nd' (s ! i)])"
proof -
  let ?x = "s ! i"
  have i: "st_inv d t ?x" "al_inv (st_node ?x)" using assms(1,2) by (auto simp: bus_inv_def st_inv_def)
  then have a: "aside (st_node ?x) nd'" using client_aside [OF assms(3)] by (simp add: al_inv_def)
  note n = aside_al_inv [OF a i(2)]
  obtain fs where fs: "nd_out nd' = nd_out (st_node ?x) @ fs" using n(4) by blast
  note f = took_step_facts [OF i(1) fs n(1)]
  have "limit t (took_step t nd' ?x) = limit t ?x" by (auto simp: limit_def took_step_def n(3))
  then have k: "keeps d t ?x y (took_step t nd' ?x) y" "keeps d t y ?x y (took_step t nd' ?x)" for y
    using quiet_pair [of "took_step t nd' ?x" ?x t] f(2,3) aside_own [OF a] by (simp_all add: f(4) n(2,3))
  show ?thesis using update_pair [OF assms(1,2) f(1)] keeps_both [OF k] by blast
qed

text \<open>A step of the allocator. When it ends its wait or takes the alias, no other node has a right to the alias.\<close>

lemma allocator_inv:
  assumes "bus_inv d (t, s)" "i < length s" "alloc_change (st_node (s ! i)) nd'" "d < 100"
    "al_state (st_node (s ! i)) = AL_WAIT_DONE \<Longrightarrow>
       conflict_detected (st_node (s ! i)) \<or> st_since (s ! i) + ALIAS_WAIT_MSEC \<le> t"
  shows "bus_inv d (t, s[i := took_step t nd' (s ! i)])"
proof -
  let ?y = "s ! i" and ?y' = "took_step t nd' (s ! i)"
  have i: "st_inv d t ?y" "al_inv (st_node ?y)" using assms(1,2) by (auto simp: bus_inv_def st_inv_def)
  obtain fs where fs: "nd_out nd' = nd_out (st_node ?y) @ fs" using assms(3) by (auto simp: alloc_change_def)
  have inv: "al_inv nd'" using assms(3) by (simp add: alloc_change_def)
  note f = took_step_facts [OF i(1) fs inv]
  have mono: "alarm x ?y a u \<Longrightarrow> alarm x ?y' a u" "alarm ?y x a u \<Longrightarrow> alarm ?y' x a u" "probed ?y a u \<Longrightarrow> probed ?y' a u" for x a u
    using mono_frames [OF f(2)] f(3) by simp_all
  have own: "a \<in> owns ?y' \<Longrightarrow> a \<in> owns ?y \<or> claiming_st ?y a \<and> announces ?y" for a
    using assms(3) unfolding alloc_change_def f(4) by blast
  have c: "claiming_st ?y a" "limit t ?y' = limit t ?y" "announces ?y' \<Longrightarrow> limit t ?y + ALIAS_WAIT_MSEC \<le> t" if "claiming_st ?y' a" for a
  proof -
    have a: "claiming_st ?y a" "al_state (st_node ?y) = AL_HANDLE_CID \<and> al_state nd' = AL_WAIT_DONE \<or>
        al_state (st_node ?y) = AL_WAIT_DONE \<and> al_state nd' = AL_SEND_RID"
      using assms(3) that unfolding alloc_change_def f(4) by blast+
    show "claiming_st ?y a" by (rule a)
    show "limit t ?y' = limit t ?y" using a(2) by (auto simp: limit_def took_step_def)
    show "announces ?y' \<Longrightarrow> limit t ?y + ALIAS_WAIT_MSEC \<le> t"
      using a assms(5) by (auto simp: limit_def f(4) claims_def)
  qed
  show ?thesis
  proof (rule update_pair [OF assms(1,2) f(1)])
    fix j
    let ?x = "s ! j"
    assume "pair_inv d t ?y ?x" "pair_inv d t ?x ?y" and x: "st_inv d t ?x"
    note yx = pair_invD [OF this(1)] and xy = pair_invD [OF this(2)]
    have late: "\<not> alarm ?x ?y a (limit t ?y + d)" "\<not> probed ?x a (limit t ?y)" if "claiming_st ?y' a" "announces ?y'" for a
      using alarm_late [OF _ x i(1) assms(4)] probe_late [OF _ x assms(4)] c(3) [OF that] by (meson not_le)+
    have both: "\<not> (announces ?x \<and> announces ?y')" "announces ?y' \<Longrightarrow> probed ?y' a (limit t ?x)"
      "announces ?x \<Longrightarrow> probed ?x a (limit t ?y')" "probed ?y' a (limit t ?x) \<or> probed ?x a (limit t ?y')"
      if "claiming_st ?x a" "claiming_st ?y' a" for a
      using xy(6,7) [of a] late [OF that(2)] c(1,2) [OF that(2)] that mono(3) by metis+
    have "pair_inv d t ?x ?y'"
    proof (rule pair_invI)
      fix a
      show "a \<in> owns ?x \<Longrightarrow> a \<notin> owns ?y'" using own xy(1,2) by blast
      show "claiming_st ?y' a \<Longrightarrow> a \<in> owns ?x \<Longrightarrow> \<not> announces ?y'" using xy(3) [of a] late [of a] c(1) [of a] by blast
      show "claiming_st ?y' a \<Longrightarrow> a \<in> owns ?x \<Longrightarrow> alarm ?x ?y' a (limit t ?y' + d) \<or> probed ?x a (limit t ?y')"
        using xy(3) [of a] c(1,2) [of a] mono(1) by metis
    qed (use both in \<open>blast+\<close>)
    moreover have "pair_inv d t ?y' ?x"
    proof (rule pair_invI)
      fix a
      show "a \<in> owns ?y' \<Longrightarrow> a \<notin> owns ?x" using own xy(1,2) by blast
      show "claiming_st ?x a \<Longrightarrow> a \<in> owns ?y' \<Longrightarrow> \<not> announces ?x" using own yx(2) xy(4) by blast
      show "claiming_st ?x a \<Longrightarrow> a \<in> owns ?y' \<Longrightarrow> alarm ?y' ?x a (limit t ?x + d) \<or> probed ?y' a (limit t ?x)"
        using own [of a] yx(3) [of a] xy(5) [of a] mono(2,3) by blast
    qed (use both in \<open>blast+\<close>)
    ultimately show "pair_inv d t ?y' ?x \<and> pair_inv d t ?x ?y'" by blast
  qed
qed

lemma left_station:
  assumes "st_inv d t x" "nd_out (st_node x) = (f, n) # q" "st_born x = b # bs"
  shows "st_inv d t (left_queue x)" "st_inv d t y \<Longrightarrow> st_inv d t (y\<lparr>st_inbox := st_inbox y @ [(f, b)]\<rparr>)"
proof -
  have a: "al_inv (st_node x)" using assms(1) by (simp add: st_inv_def)
  note g = frame_sent_al_inv [OF assms(2) a]
  have "b \<le> t \<and> t \<le> b + d" using assms(1,3) by (simp add: st_inv_def in_flight_def)
  then show "st_inv d t y \<Longrightarrow> st_inv d t (y\<lparr>st_inbox := st_inbox y @ [(f, b)]\<rparr>)"
    using g(3) unfolding st_inv_def in_flight_def by auto
  have n: "st_node (left_queue x) = frame_sent (st_node x)" "st_born (left_queue x) = bs" "st_inbox (left_queue x) = st_inbox x"
    "st_since (left_queue x) = st_since x"
    by (simp_all add: left_queue_def assms(3))
  show "st_inv d t (left_queue x)" using assms g(1) unfolding st_inv_def in_flight_def n g(5) by auto
qed

lemma handled_station:
  assumes "st_inv d t x" "st_inbox x = (f, b) # q" "heard f (st_node x) nd'"
  shows "st_inv d t ((took_step t nd' x)\<lparr>st_inbox := q\<rparr>)"
proof -
  let ?x1 = "took_step t nd' x" and ?x' = "(took_step t nd' x)\<lparr>st_inbox := q\<rparr>"
  have a: "al_inv (st_node x)" using assms(1) by (simp add: st_inv_def)
  note h = heard_al_inv [OF assms(3) a]
  obtain fs where fs: "nd_out nd' = nd_out (st_node x) @ fs" using h(3) by blast
  note k = took_step_facts [OF assms(1) fs h(1)]
  have fl: "in_flight ?x' \<subseteq> in_flight ?x1" "set (st_inbox ?x') \<subseteq> set (st_inbox ?x1)" "st_node ?x' = nd'"
    "st_born ?x' = st_born ?x1" "st_since ?x' = st_since ?x1"
    using assms(2) k(3,4) by (auto simp: in_flight_def)
  show ?thesis using k(1) fl(1,2) unfolding st_inv_def fl(3,4,5) k(4) by auto
qed

text \<open>A frame leaves the queue of a node and comes to all the others.\<close>

lemma transmit_inv:
  assumes "bus_inv d (t, s)" "i < length s" "nd_out (st_node (s ! i)) = (f, n) # q" "st_born (s ! i) = b # bs"
    "length s' = length s" "s' ! i = left_queue (s ! i)"
    "\<And>j. j < length s \<Longrightarrow> j \<noteq> i \<Longrightarrow> s' ! j = (s ! j)\<lparr>st_inbox := st_inbox (s ! j) @ [(f, b)]\<rparr>"
  shows "bus_inv d (t, s')"
proof -
  let ?x = "s ! i"
  have inv: "st_inv d t (s ! j)" "al_inv (st_node (s ! j))" if "j < length s" for j
    using assms(1) that by (auto simp: bus_inv_def st_inv_def)
  note x = inv [OF assms(2)]
  note g = frame_sent_al_inv [OF assms(3) x(2)]
  have n: "st_node (s' ! i) = frame_sent (st_node ?x)" "st_born (s' ! i) = bs" "st_inbox (s' ! i) = st_inbox ?x"
    "st_since (s' ! i) = st_since ?x"
    by (simp_all add: assms(6) left_queue_def assms(4))
  have b: "b \<le> t \<and> t \<le> b + d" using x(1) assms(4) by (simp add: st_inv_def in_flight_def)
  have xi: "st_inv d t (s' ! i)" unfolding assms(6) by (rule left_station(1) [OF x(1) assms(3,4)])
  have yi: "st_inv d t (s' ! j)" if "j < length s" "j \<noteq> i" for j
    unfolding assms(7) [OF that] by (rule left_station(2) [OF x(1) assms(3,4) inv(1) [OF that(1)]])
  have sx: "sent ?x = (f, b) # sent (s' ! i)" by (simp add: sent_def n g(5) assms(3,4))
  have k: "keeps d t ?x (s ! j) (s' ! i) (s' ! j)" "keeps d t (s ! j) ?x (s' ! j) (s' ! i)" if j: "j < length s" "j \<noteq> i" for j
  proof -
    have y: "st_node (s' ! j) = st_node (s ! j)" "st_inbox (s' ! j) = st_inbox (s ! j) @ [(f, b)]" "sent (s' ! j) = sent (s ! j)"
      "limit t (s' ! j) = limit t (s ! j)"
      by (simp_all add: assms(7) [OF j] sent_def limit_def)
    show "keeps d t ?x (s ! j) (s' ! i) (s' ! j)"
    proof (rule keepsI)
      fix a
      show "a \<in> owns (s' ! i) \<Longrightarrow> a \<in> owns ?x" by (simp add: n g(2))
      have "probed (s' ! j) a t" if "claiming a f" using that b by (auto simp: probed_def y(2))
      then show "claiming_st (s' ! i) a \<Longrightarrow> claiming_st ?x a \<and> limit t (s' ! i) = limit t ?x \<and> (announces (s' ! i) \<longleftrightarrow> announces ?x) \<or>
          \<not> announces (s' ! i) \<and> probed (s' ! j) a (limit t (s' ! i))"
        using g(4) [of a] unfolding n limit_def by (auto simp: n)
      show "alarm ?x (s ! j) a u \<Longrightarrow> alarm (s' ! i) (s' ! j) a u" for u
        unfolding alarm_def y sx by auto
      show "probed ?x a u \<Longrightarrow> probed (s' ! i) a u \<or> P" for u P
        by (simp add: probed_def n)
    qed
    show "keeps d t (s ! j) ?x (s' ! j) (s' ! i)"
    proof (rule keepsI)
      fix a
      show "alarm (s ! j) ?x a u \<Longrightarrow> alarm (s' ! j) (s' ! i) a u" for u
        by (simp add: alarm_def y n)
      show "probed (s ! j) a u \<Longrightarrow> probed (s' ! j) a u \<or> P" for u P
        unfolding probed_def y by auto
    qed (simp_all add: y)
  qed
  have other: "keeps d t (s ! j) (s ! k) (s' ! j) (s' ! k)" if "j < length s" "j \<noteq> i" "k < length s" "k \<noteq> i" for j k
  proof -
    have y: "st_node (s' ! l) = st_node (s ! l)" "set (st_inbox (s ! l)) \<subseteq> set (st_inbox (s' ! l))" "sent (s' ! l) = sent (s ! l)"
      "limit t (s' ! l) = limit t (s ! l)" if "l \<in> {j, k}" for l
      using that assms(7) [OF \<open>j < length s\<close> \<open>j \<noteq> i\<close>] assms(7) [OF \<open>k < length s\<close> \<open>k \<noteq> i\<close>] by (auto simp: sent_def limit_def)
    show ?thesis
    proof (rule keepsI)
      show "alarm (s ! j) (s ! k) a u \<Longrightarrow> alarm (s' ! j) (s' ! k) a u" for a u
        using y by (auto simp: alarm_def)
      show "probed (s ! j) a u \<Longrightarrow> probed (s' ! j) a u \<or> P" for a u P
        using y by (auto simp: probed_def)
    qed (simp_all add: y)
  qed
  have "pair_inv d t (s' ! j) (s' ! k)" if "j < length s" "k < length s" "j \<noteq> k" for j k
  proof -
    have "keeps d t (s ! j) (s ! k) (s' ! j) (s' ! k)" "keeps d t (s ! k) (s ! j) (s' ! k) (s' ! j)"
      using k other that by metis+
    moreover have "pair_inv d t (s ! j) (s ! k)" using assms(1) that by (simp add: bus_inv_def)
    ultimately show ?thesis by (rule keeps_pair)
  qed
  then show ?thesis using xi yi assms(5) by (auto simp: bus_inv_def)
qed

text \<open>A node handles a frame: it ends its claim to the alias of the frame, or answers when it owns it.\<close>

lemma handle_inv:
  assumes "bus_inv d (t, s)" "i < length s" "st_inbox (s ! i) = (f, b) # q" "heard f (st_node (s ! i)) nd'"
  shows "bus_inv d (t, s[i := (took_step t nd' (s ! i))\<lparr>st_inbox := q\<rparr>])"
proof -
  let ?x = "s ! i" and ?x1 = "took_step t nd' (s ! i)" and ?x' = "(took_step t nd' (s ! i))\<lparr>st_inbox := q\<rparr>"
  have i: "st_inv d t ?x" "al_inv (st_node ?x)" using assms(1,2) by (auto simp: bus_inv_def st_inv_def)
  note h = heard_al_inv [OF assms(4) i(2)]
  obtain fs where fs: "nd_out nd' = nd_out (st_node ?x) @ fs" using h(3) by blast
  note k = took_step_facts [OF i(1) fs h(1)]
  have n: "st_node ?x' = nd'" "st_inbox ?x' = q" "sent ?x' = sent ?x1" "limit t ?x' = limit t ?x1"
    by (simp_all add: k(4) sent_def limit_def)
  have l: "limit t ?x1 = limit t ?x" by (auto simp: limit_def took_step_def h(4))
  note inv = handled_station [OF i(1) assms(3,4)]
  have b: "t \<le> b + d" using i(1) assms(3) by (auto simp: st_inv_def in_flight_def)
  have cf: "claiming a f \<Longrightarrow> from_alias a f" for a by (simp add: claiming_def)
  have "keeps d t ?x y ?x' y" for y
  proof (rule keepsI)
    fix a
    show "a \<in> owns ?x' \<Longrightarrow> a \<in> owns ?x" using h(5) by (auto simp: n)
    show "claiming_st ?x' a \<Longrightarrow> claiming_st ?x a \<and> limit t ?x' = limit t ?x \<and> (announces ?x' \<longleftrightarrow> announces ?x) \<or> P" for P
      using h(2) by (simp add: n h(4) l)
    show "alarm ?x y a u \<Longrightarrow> alarm ?x' y a u" for u using k(2) by (auto simp: alarm_def n)
    assume "probed ?x a (limit t y)"
    then obtain g c where g: "(g, c) \<in> set ((f, b) # q)" "claiming a g" "c \<le> limit t y" unfolding probed_def assms(3) by blast
    show "probed ?x' a (limit t y) \<or> \<not> claiming_st ?x' a \<and> (a \<in> owns ?x' \<longrightarrow> alarm ?x' y a (limit t y + d))"
    proof (cases "(g, c) \<in> set q")
      case True
      then show ?thesis using g by (auto simp: probed_def n)
    next
      case False
      then have f: "claiming a f" "b \<le> limit t y" using g by auto
      have "alarm ?x' y a (limit t y + d)" if "a \<in> owns ?x'"
      proof -
        have "a \<in> owns ?x" using that h(5) by (auto simp: n)
        then obtain e m where "(e, m) \<in> set (nd_out nd')" "from_alias a e" using h(6) f(1) by blast
        then obtain c where "(e, c) \<in> set (sent ?x')" "c \<le> t" using k(5) n(3) by metis
        moreover have "c \<le> limit t y + d" using \<open>c \<le> t\<close> b f(2) by simp
        ultimately show ?thesis using alarmI [of e c ?x' y a] \<open>from_alias a e\<close> by blast
      qed
      then show ?thesis using h(2) cf [OF f(1)] by (auto simp: n)
    qed
  qed
  moreover have "keeps d t y ?x y ?x'" for y
  proof (rule keepsI)
    fix a u
    assume c: "claiming_st ?x' a" and "alarm y ?x a u"
    then obtain g e where g: "(g, e) \<in> set (sent y) \<union> set ((f, b) # q)" "from_alias a g" "e \<le> u" unfolding alarm_def assms(3) by blast
    have "\<not> from_alias a f" using h(2) c by (simp add: n)
    then have "(g, e) \<in> set (sent y) \<union> set q" using g(1,2) by auto
    then show "alarm y ?x' a u" using g(2,3) unfolding alarm_def n by blast
  qed simp_all
  ultimately show ?thesis using update_pair [OF assms(1,2) inv] keeps_both by blast
qed

lemma waited_station: "st_inv d t x \<Longrightarrow> \<forall>b \<in> in_flight x. t + k \<le> b + d \<Longrightarrow> st_inv d (t + k) x"
  unfolding st_inv_def by fastforce

text \<open>Time passes: the time since which a node has waited only gets later.\<close>

lemma wait_inv:
  assumes "bus_inv d (t, s)" "\<forall>st \<in> set s. \<forall>b \<in> in_flight st. t + k \<le> b + d"
  shows "bus_inv d (t + k, s)"
proof -
  have "st_inv d (t + k) x" if "st_inv d t x" "x \<in> set s" for x
    using waited_station assms(2) that by blast
  moreover have "pair_inv d (t + k) x y" if "pair_inv d t x y" for x y
  proof (rule pair_invI)
    have l: "limit t z \<le> limit (t + k) z" for z by (simp add: limit_def)
    note p = pair_invD [OF that]
    fix a
    show "a \<in> owns x \<Longrightarrow> a \<notin> owns y" by (rule p)
    show "claiming_st y a \<Longrightarrow> a \<in> owns x \<Longrightarrow> \<not> announces y" by (rule p)
    show "claiming_st x a \<Longrightarrow> claiming_st y a \<Longrightarrow> \<not> (announces x \<and> announces y)" by (rule p)
    show "claiming_st y a \<Longrightarrow> a \<in> owns x \<Longrightarrow> alarm x y a (limit (t + k) y + d) \<or> probed x a (limit (t + k) y)"
      using p(3) later l by (meson add_le_mono1)
    show "claiming_st x a \<Longrightarrow> claiming_st y a \<Longrightarrow> announces y \<Longrightarrow> probed y a (limit (t + k) x)" using p(5) later(2) l by blast
    show "claiming_st x a \<Longrightarrow> claiming_st y a \<Longrightarrow> announces x \<Longrightarrow> probed x a (limit (t + k) y)" using p(6) later(2) l by blast
    show "claiming_st x a \<Longrightarrow> claiming_st y a \<Longrightarrow> probed y a (limit (t + k) x) \<or> probed x a (limit (t + k) y)"
      using p(7) later(2) l by blast
  qed
  ultimately show ?thesis using assms(1) by (simp add: bus_inv_def)
qed

lemma new_cache_ok: "0 < n \<Longrightarrow> n \<le> 4096 \<Longrightarrow> cache_ok (alias_cache_new 0 n False) \<and> alias_entry (alias_cache_new 0 n False) a = 0"
  using alias_cache_new_ok [of n 0 False] alias_cache_new_contents [of n 0 False] by (simp add: cache_ok_def alias_entry_def)

lemma fresh_inv: "fresh_node nd \<Longrightarrow> al_inv nd \<and> own nd = {} \<and> \<not> claims nd a \<and> nd_out nd = []"
  using new_cache_ok
  by (auto simp: fresh_node_def can_node_new_def reinit_seed_def al_inv_def reserving_def own_notes_def own_def claims_def
      nd_ok_def if_ok_def Let_def)

lemma new_station_inv:
  assumes "fresh_node nd"
  shows "st_inv d t (station_new nd)" "pair_inv d t (station_new nd) y" "pair_inv d t y (station_new nd)"
  using fresh_inv [OF assms] by (auto simp: st_inv_def pair_inv_def station_new_def in_flight_def)

lemma node_heard:
  assumes "st_inv d t x" "(f, b) \<in> set (st_inbox x)" "length junk = 8" "node_frame big junk f (st_node x) = Some (nd', r)"
  shows "heard f (st_node x) nd'"
proof -
  have ok: "nd_ok (st_node x)" and f: "sound_frame f" using assms(1,2) by (auto simp: st_inv_def al_inv_def)
  then have "\<not> zero_enquiry big f" using node_frame_faults [OF ok f assms(3)] assms(4) by auto
  then show ?thesis using node_frame_ok [OF ok f assms(3), of big] assms(4) by auto
qed

lemma step_inv: "bus_step d u v \<Longrightarrow> bus_inv d u \<Longrightarrow> d < 100 \<Longrightarrow> bus_inv d v"
proof (induction rule: bus_step.induct)
  case (client i s nd' t)
  then show ?case using client_inv by blast
next
  case (allocator i s fuel junk nd' t)
  have "alloc_change (st_node (s ! i)) nd'"
    using alloc_step_change [OF _ allocator(2,3)] allocator(1,5) by (simp add: bus_inv_def st_inv_def)
  then show ?case using allocator_inv [OF allocator(5,1) _ allocator(6)] allocator(4) by blast
next
  case (transmit i s f n q b bs s' t)
  then show ?case using transmit_inv by blast
next
  case (handle i s f b q junk big nd' r t)
  have "st_inv d t (s ! i)" using handle(1,5) by (simp add: bus_inv_def)
  then have "heard f (st_node (s ! i)) nd'" using node_heard [OF _ _ handle(3,4)] handle(2) by auto
  then show ?case using handle_inv [OF handle(5,1,2)] by blast
next
  case (restart i s nd t)
  then show ?case using update_pair [OF restart(3,1)] new_station_inv by blast
next
  case (wait s t k)
  then show ?case using wait_inv by blast
qed

lemma reachable_inv: "bus_reachable d u \<Longrightarrow> d < 100 \<Longrightarrow> bus_inv d u"
proof (induction rule: bus_reachable.induct)
  case (start nds)
  then show ?case using new_station_inv by (simp add: bus_inv_def)
next
  case (step u v)
  then show ?case using step_inv by blast
qed

text \<open>What each node keeps, however long a frame is under way.\<close>

definition nodes_inv :: "nat \<Rightarrow> bus \<Rightarrow> bool" where
  "nodes_inv d = (\<lambda>(t, s). \<forall>i < length s. st_inv d t (s ! i))"

lemma update_node: "nodes_inv d (t, s) \<Longrightarrow> st_inv d t x \<Longrightarrow> nodes_inv d (t, s[i := x])"
  unfolding nodes_inv_def prod.case length_list_update by (metis nth_list_update_eq nth_list_update_neq)

lemma nodes_step: "bus_step d u v \<Longrightarrow> nodes_inv d u \<Longrightarrow> nodes_inv d v"
proof (induction rule: bus_step.induct)
  case (client i s nd' t)
  then have i: "st_inv d t (s ! i)" "al_inv (st_node (s ! i))" by (auto simp: nodes_inv_def st_inv_def)
  then have "aside (st_node (s ! i)) nd'" using client_aside [OF client(2)] by (simp add: al_inv_def)
  then show ?case using aside_al_inv(1,4) i took_step_facts(1) update_node [OF client(3)] by metis
next
  case (allocator i s fuel junk nd' t)
  then have i: "st_inv d t (s ! i)" "al_inv (st_node (s ! i))" by (auto simp: nodes_inv_def st_inv_def)
  then have "alloc_change (st_node (s ! i)) nd'" using alloc_step_change allocator(2,3) by blast
  then show ?case using i took_step_facts(1) update_node [OF allocator(5)] unfolding alloc_change_def by metis
next
  case (transmit i s f n q b bs s' t)
  have x: "st_inv d t (s ! j)" if "j < length s" for j using transmit(7) that by (simp add: nodes_inv_def)
  note l = left_station [OF x [OF transmit(1)] transmit(2,3)]
  have "st_inv d t (s' ! j)" if "j < length s" for j
    using l(1) l(2) [OF x [OF that]] transmit(5,6) that by (cases "j = i") simp_all
  then show ?case using transmit(4) by (simp add: nodes_inv_def)
next
  case (handle i s f b q junk big nd' r t)
  have i: "st_inv d t (s ! i)" using handle(1,5) by (simp add: nodes_inv_def)
  then have "heard f (st_node (s ! i)) nd'" using node_heard [OF _ _ handle(3,4)] handle(2) by auto
  then show ?case using update_node [OF handle(5)] handled_station [OF i handle(2)] by blast
next
  case (restart i s nd t)
  then show ?case using update_node new_station_inv(1) by blast
next
  case (wait s t k)
  then show ?case unfolding nodes_inv_def prod.case using waited_station nth_mem by blast
qed

lemma reachable_nodes: "bus_reachable d u \<Longrightarrow> nodes_inv d u"
proof (induction rule: bus_reachable.induct)
  case (start nds)
  then show ?case using new_station_inv by (simp add: nodes_inv_def)
next
  case (step u v)
  then show ?case using nodes_step by blast
qed

text \<open>C1: No alias ever has two owners: take any number of freshly started nodes on a bus, with any calls
  of their clients, any restarts and any order of their steps, in which every node handles every frame within
  less than 100 ms of its queueing (a check and the answer to it then take less than the 200 ms for which
  the allocator sleeps). An alias that is in the local alias cache of one node, reserved or in use, is never
  in that of another.\<close>

theorem alias_has_one_owner:
  assumes "bus_reachable d (t, s)" "d < 100" "i < length s" "j < length s" "i \<noteq> j" "unat a < 4096"
    "alias_entry (local_aliases (nd_if (st_node (s ! i)))) a \<noteq> 0"
  shows "alias_entry (local_aliases (nd_if (st_node (s ! j)))) a = 0"
proof -
  have "pair_inv d t (s ! i) (s ! j)" using reachable_inv [OF assms(1,2)] assms(3-5) by (simp add: bus_inv_def)
  moreover have "ucast a \<in> owns (s ! i)" using assms(6,7) by (simp add: own_def ucast12_16)
  ultimately have "ucast a \<notin> owns (s ! j)" by (simp add: pair_inv_def)
  then show ?thesis using assms(6) by (simp add: own_def ucast12_16)
qed

lemma fresh_new: "fresh_node (can_node_new i 1 1 0)"
  unfolding fresh_node_def by (rule exI [of _ i], rule exI [of _ 1], rule exI [of _ 1], rule exI [of _ 0]) simp

subsection \<open>A run\<close>

text \<open>Of two fresh nodes, the first reserves an alias while the second only listens.\<close>

lemma cid_field:
  assumes "claiming a f"
  shows "get_control_field (can_id f) \<notin> {AMD_FRAME, AMR_FRAME, AME_FRAME}"
proof -
  have "bit (get_control_field (can_id f)) 14"
    using assms by (simp add: claiming_def is_cid_bits getters can_masks bit_simps)
  then show ?thesis by (auto simp: control_fields)
qed

lemma unowned_conflict:
  assumes "nd_ok y" "from_alias a f" "a \<notin> own y"
  shows "\<exists>y'. conflict_entry big junk f y = Some y' \<and> nd_out y' = nd_out y"
proof -
  obtain y' where "with_local (lookup_alias (ucast a)) y = Some (y', 0)" "nd_out y' = nd_out y"
    using local_find [OF assms(1) ucast12_small, of a] assms(3) by (auto simp: own_def)
  then show ?thesis using assms(2) by (simp add: conflict_entry_def from_alias_def GET_CAN_FRAME_ID_EFF_def Let_def)
qed

lemma listens:
  assumes "nd_ok y" "claiming a f" "a \<notin> own y" "can_dlc f = 0" "sound_frame f" "length junk = 8"
  shows "\<exists>y' r. node_frame big junk f y = Some (y', r) \<and> heard f y y' \<and> nd_out y' = nd_out y"
proof -
  have f: "from_alias a f" "GET_CAN_FRAME_ID_EFF f = can_id f"
    using assms(2) by (simp_all add: claiming_def from_alias_def GET_CAN_FRAME_ID_EFF_def)
  obtain n where 1: "conflict_entry big junk f y = Some n" "nd_out n = nd_out y"
    using unowned_conflict [OF assms(1) f(1) assms(3)] by blast
  have "\<not> matches f AME_FILTER AME_MASK" using ame_fields(2) cid_field [OF assms(2)] by blast
  then have 2: "control_handlers big junk f y = Some n" "\<not> zero_enquiry big f"
    using 1 from_alias_extended [OF f(1)] cid_field [OF assms(2)] assms(4)
    by (auto simp: control_handlers_def remote_entry_def payload_id_def f(2) Let_def zero_enquiry_def)
  obtain y' r where y: "node_frame big junk f y = Some (y', r)" "heard f y y'"
    using node_frame_ok [OF assms(1,5,6) 2(2)] by blast
  then have "nd_out y' = nd_out n"
    using 2(1) by (auto simp: node_frame_def alloc_frame_def alloc_conflict_def split: bind_splits option.splits if_splits)
  then show ?thesis using y 1(2) by auto
qed

lemma quiet_station:
  "nd_out nd' = nd_out (st_node x) \<Longrightarrow> al_state nd' \<noteq> AL_WAIT_DONE \<or> al_state (st_node x) = AL_WAIT_DONE \<Longrightarrow> took_step t nd' x = x\<lparr>st_node := nd'\<rparr>"
  by (cases x) (auto simp: took_step_def)

lemma sent_station:
  "nd_out nd' = nd_out (st_node x) @ [p] \<Longrightarrow> al_state nd' \<noteq> AL_WAIT_DONE \<Longrightarrow>
     took_step t nd' x = x\<lparr>st_node := nd', st_born := st_born x @ [t]\<rparr>"
  by (cases x) (auto simp: took_step_def)

text \<open>Before each of the four frames of the check, and after the last; nothing is on its way.\<close>

definition in_check :: "nat \<Rightarrow> u12 \<Rightarrow> 3 word \<Rightarrow> can_node \<Rightarrow> can_node \<Rightarrow> bool" where
  "in_check d a q x y \<longleftrightarrow> (\<exists>u. bus_reachable d (0, [\<lparr>st_node = x, st_born = [], st_inbox = [], st_since = 0\<rparr>,
       \<lparr>st_node = y, st_born = [], st_inbox = [], st_since = u\<rparr>])) \<and>
     al_state x = AL_HANDLE_CID \<and> cid_frame_sequence x = q \<and>
     \<not> conflict_detected x \<and> pending x = a \<and> nd_out x = [] \<and> nd_out y = [] \<and> own x = {} \<and> own y = {} \<and> al_state y = AL_IDLE"

lemma one_more_check:
  assumes "in_check d a q x y" "4 \<le> q"
  shows "\<exists>x' y'. in_check d a (q - 1) x' y'"
proof -
  let ?f = "cid_frame (replicate 8 0) (if_id x) a q"
  obtain u where "bus_reachable d (0, [\<lparr>st_node = x, st_born = [], st_inbox = [], st_since = 0\<rparr>,
       \<lparr>st_node = y, st_born = [], st_inbox = [], st_since = u\<rparr>])" using assms(1) by (auto simp: in_check_def)
  note r = this
  have c: "al_state x = AL_HANDLE_CID" "cid_frame_sequence x = q" "\<not> conflict_detected x" "pending x = a"
    "nd_out x = []" "nd_out y = []" "own x = {}" "own y = {}" "al_state y = AL_IDLE"
    using assms(1) by (simp_all add: in_check_def)
  let ?S = "\<lambda>nd b i. \<lparr>st_node = nd, st_born = b, st_inbox = i, st_since = (0 :: nat)\<rparr>"
  let ?y = "\<lparr>st_node = y, st_born = [], st_inbox = [], st_since = u\<rparr>"
  let ?x1 = "x\<lparr>al_state := AL_SEND_CID\<rparr>"
  let ?x2 = "(send_frame ?f Note_allocator ?x1)\<lparr>cid_frame_sequence := q - 1, al_state := AL_WAIT_SENT\<rparr>"
  let ?x3 = "frame_sent ?x2"
  have "bus_step d (0, [?S x [] [], ?y]) (0, [?S ?x1 [] [], ?y])"
    using bus_step.allocator [of 0 "[?S x [] [], ?y]" 0 "replicate 8 0" ?x1 0 d] c assms(2)
    by (simp add: alloc_step_def handle_allocate_for_cid_frame_def quiet_station)
  then have 1: "bus_reachable d (0, [?S ?x1 [] [], ?y])" using r bus_reachable.step by blast
  have "bus_step d (0, [?S ?x1 [] [], ?y]) (0, [?S ?x2 [0] [], ?y])"
    using bus_step.allocator [of 0 "[?S ?x1 [] [], ?y]" 0 "replicate 8 0" ?x2 0 d] c
      sent_station [of ?x2 "?S ?x1 [] []" "(?f, Note_allocator)" 0]
    by (simp add: alloc_step_def send_cid_frame_def send_frame_def)
  then have 2: "bus_reachable d (0, [?S ?x2 [0] [], ?y])" using 1 bus_reachable.step by blast
  have "bus_step d (0, [?S ?x2 [0] [], ?y]) (0, [?S ?x3 [] [], ?y\<lparr>st_inbox := [(?f, 0)]\<rparr>])"
    using bus_step.transmit [of 0 "[?S ?x2 [0] [], ?y]" ?f Note_allocator "[]" 0 "[]" "[?S ?x3 [] [], ?y\<lparr>st_inbox := [(?f, 0)]\<rparr>]" d 0] c(5)
    by (auto simp: send_frame_def left_queue_def less_Suc_eq)
  then have 3: "bus_reachable d (0, [?S ?x3 [] [], ?y\<lparr>st_inbox := [(?f, 0)]\<rparr>])" using 2 bus_reachable.step by blast
  have y: "al_inv y" using reachable_nodes [OF r] by (auto simp: nodes_inv_def st_inv_def less_Suc_eq)
  then have ok: "nd_ok y" by (simp add: al_inv_def)
  have j: "length (replicate 8 0 :: u8 list) = 8" by simp
  have f: "can_dlc ?f = 0" by (simp add: cid_frame_def control_frame_def control_init_def)
  obtain y' m where h: "node_frame False (replicate 8 0) ?f y = Some (y', m)" "heard ?f y y'" "nd_out y' = nd_out y"
    using listens [OF ok cid_claims [OF assms(2)] _ f cid_sound [OF j] j] c(8) by (metis empty_iff)
  have i: "al_state y' = AL_IDLE" using heard_al_inv(4) [OF h(2) y] c(9) by simp
  have "bus_step d (0, [?S ?x3 [] [], ?y\<lparr>st_inbox := [(?f, 0)]\<rparr>]) (0, [?S ?x3 [] [], ?y\<lparr>st_node := y'\<rparr>])"
    using bus_step.handle [of 1 "[?S ?x3 [] [], ?y\<lparr>st_inbox := [(?f, 0)]\<rparr>]" ?f 0 "[]" "replicate 8 0" False y' m d 0] h(1,3) i
    by (simp add: quiet_station)
  then have "bus_reachable d (0, [?S ?x3 [] [], ?y\<lparr>st_node := y'\<rparr>])" using 3 bus_reachable.step by blast
  moreover have "own y' = {}" using h(2) c(8) by (simp add: heard_def)
  moreover have "own ?x3 = own x" by (simp add: own_def frame_sent_def send_frame_def c(5))
  ultimately have "in_check d a (q - 1) ?x3 y'"
    using c h(3) i by (auto simp: in_check_def frame_sent_def send_frame_def)
  then show ?thesis by blast
qed

lemma after_check:
  assumes "in_check d a 3 x y"
  shows "\<exists>t x' y'. bus_reachable d (t, [x', y']) \<and> a \<in> owns x'"
proof -
  obtain u where "bus_reachable d (0, [\<lparr>st_node = x, st_born = [], st_inbox = [], st_since = 0\<rparr>,
       \<lparr>st_node = y, st_born = [], st_inbox = [], st_since = u\<rparr>])" using assms(1) by (auto simp: in_check_def)
  note r = this
  have c: "al_state x = AL_HANDLE_CID" "cid_frame_sequence x = 3" "\<not> conflict_detected x" "pending x = a"
    "nd_out x = []" "nd_out y = []"
    using assms by (simp_all add: in_check_def)
  let ?S = "\<lambda>nd. \<lparr>st_node = nd, st_born = [], st_inbox = [], st_since = (0 :: nat)\<rparr>"
  let ?y = "\<lparr>st_node = y, st_born = [], st_inbox = [], st_since = u\<rparr>"
  let ?x1 = "x\<lparr>al_state := AL_WAIT_DONE\<rparr>"
  let ?x2 = "x\<lparr>al_state := AL_SEND_RID\<rparr>"
  let ?x3 = "(send_frame (control_frame (replicate 8 0) (ucast a) RID_FRAME 0) No_note ?x2)
    \<lparr>al_message := al_message x\<lparr>ai_state := STATE_RESERVED\<rparr>, al_handler := None\<rparr>"
  have "bus_step d (0, [?S x, ?y]) (0, [?S ?x1, ?y])"
    using bus_step.allocator [of 0 "[?S x, ?y]" 0 "replicate 8 0" ?x1 0 d] c
    by (simp add: alloc_step_def handle_allocate_for_cid_frame_def took_step_def)
  then have 1: "bus_reachable d (0, [?S ?x1, ?y])" using r bus_reachable.step by blast
  have "bus_step d (0, [?S ?x1, ?y]) (0 + 200, [?S ?x1, ?y])" by (rule bus_step.wait) (simp add: in_flight_def)
  then have 2: "bus_reachable d (200, [?S ?x1, ?y])" using 1 bus_reachable.step by auto
  have "bus_step d (200, [?S ?x1, ?y]) (200, [?S ?x2, ?y])"
    using bus_step.allocator [of 0 "[?S ?x1, ?y]" 0 "replicate 8 0" ?x2 200 d] c
    by (simp add: alloc_step_def wait_done_def quiet_station ALIAS_WAIT_MSEC_def)
  then have 3: "bus_reachable d (200, [?S ?x2, ?y])" using 2 bus_reachable.step by blast
  have "al_inv x" using reachable_nodes [OF r] by (auto simp: nodes_inv_def st_inv_def less_Suc_eq)
  then have inv: "nd_ok x" "al_handler x = Some a" "a \<noteq> 0" using c(1,4) by (auto simp: al_inv_def reserving_def)
  have v: "valid_alias (ucast a)" using inv(3) ucast12_small ucast12_0 by (simp add: valid_alias_def)
  have "nd_ok ?x3" using inv(1) by (simp add: nd_ok_def send_frame_def)
  then obtain x4 l where 4: "with_local (add (get_reserved_alias_node_id (ucast a)) (ucast a)) ?x3 = Some (x4, l)" "a \<in> own x4"
    using local_add [OF _ reserved_id [OF v] v] ucast12_small ucast12_back by metis
  let ?x5 = "x4\<lparr>waitingClients := tl (waitingClients x4), al_state := AL_IDLE\<rparr>"
  have "bus_step d (200, [?S ?x2, ?y]) (200, [took_step 200 ?x5 (?S ?x2), ?y])"
    using bus_step.allocator [of 0 "[?S ?x2, ?y]" 0 "replicate 8 0" ?x5 200 d] c(3,4) inv(2) 4(1)
    by (simp add: alloc_step_def send_rid_frame_def unregister_conflicts_def add_allocated_alias_def send_frame_def)
  then have "bus_reachable d (200, [took_step 200 ?x5 (?S ?x2), ?y])" using 3 bus_reachable.step by blast
  moreover have "owns (took_step 200 ?x5 (?S ?x2)) = own x4" by (simp add: own_def took_step_def)
  ultimately show ?thesis using 4(2) by blast
qed

text \<open>A seed that neither cache knows is taken at once.\<close>

lemma seed_taken:
  assumes "nd_ok nd" "seed12 nd \<noteq> 0" "seed12 nd \<notin> own nd" "alias_entry (remote_aliases (nd_if nd)) (ucast (seed12 nd)) = 0"
  shows "\<exists>nd'. get_new_seed (Suc fuel) nd = Some (nd', seed12 nd) \<and> aside nd nd' \<and> nd_out nd' = nd_out nd \<and> if_id nd' = if_id nd"
proof -
  let ?s = "seed12 nd" and ?n0 = "advance_seed nd" and ?c = "local_aliases (nd_if nd)" and ?r = "remote_aliases (nd_if nd)"
  have c: "cache_ok ?c" "cache_ok ?r" using assms(1) by (simp_all add: nd_ok_def if_ok_def)
  obtain d where d: "lookup_alias (ucast ?s) ?c = Some (d, 0)" "ad.same_entries ?c d"
    using ad.lookup_same [OF c(1) ucast12_small, of ?s] assms(3) by (auto simp: own_def)
  obtain e where e: "lookup_alias (ucast ?s) ?r = Some (e, 0)" "ad.same_entries ?r e"
    using ad.lookup_same [OF c(2) ucast12_small, of ?s] assms(4) by auto
  let ?n = "?n0\<lparr>nd_if := nd_if nd\<lparr>local_aliases := d, remote_aliases := e\<rparr>\<rparr>"
  have "own ?n = own nd" using d(2) ucast12_small by (simp add: own_def ad.same_entries_def)
  moreover have "nd_ok ?n" using assms(1) d(2) e(2) by (simp add: nd_ok_def if_ok_def ad.same_entries_def)
  moreover have "get_new_seed (Suc fuel) nd = Some (?n, ?s)"
    using assms(2) d(1) e(1) by (simp add: with_local_def with_remote_def advance_seed_def Let_def)
  ultimately show ?thesis by (auto simp: aside_def advance_seed_def alloc_part_def plain_frames_def)
qed

lemma fresh_check:
  assumes "fresh_node x" "fresh_node y" "seed12 x \<noteq> 0"
  shows "\<exists>x'. in_check d (seed12 x) 7 x' y"
proof -
  let ?a = "seed12 x"
  let ?S = "station_new"
  have r: "bus_reachable d (0, [?S x, ?S y])" using assms bus_reachable.start [of "[x, y]" d] by simp
  have x: "nd_ok x" "own x = {}" "nd_out x = []" "al_state x = AL_IDLE" "al_queue x = []" "al_handler x = None"
    "alias_entry (remote_aliases (nd_if x)) (ucast ?a) = 0"
    using assms(1) fresh_inv [OF assms(1)] new_cache_ok
    by (auto simp: fresh_node_def can_node_new_def reinit_seed_def al_inv_def Let_def)
  have y: "own y = {}" "nd_out y = []" "al_state y = AL_IDLE"
    using assms(2) fresh_inv [OF assms(2)] by (auto simp: fresh_node_def can_node_new_def reinit_seed_def Let_def)
  have q: "took_step 0 nd (?S m) = ?S nd" if "nd_out nd = nd_out m" "al_state nd \<noteq> AL_WAIT_DONE" for nd m
    using that by (simp add: took_step_def station_new_def)
  have n: "st_node (?S m) = m" for m by (simp add: station_new_def)
  let ?x1 = "seed_allocator 1 x"
  let ?x2 = "?x1\<lparr>al_message := alias_info_init, al_queue := [], al_state := AL_ENTRY\<rparr>"
  have "bus_step d (0, [?S x, ?S y]) (0, [?S ?x1, ?S y])"
    using bus_step.client [of 0 "[?S x, ?S y]" ?x1 d 0] client_step.seed_aliases [of x 1] q [of ?x1 x] x(4)
    by (simp add: n seed_allocator_def)
  then have 1: "bus_reachable d (0, [?S ?x1, ?S y])" using r bus_reachable.step by blast
  have "bus_step d (0, [?S ?x1, ?S y]) (0, [?S ?x2, ?S y])"
    using bus_step.allocator [of 0 "[?S ?x1, ?S y]" 0 "replicate 8 0" ?x2 0 d] x q [of ?x2 ?x1]
    by (simp add: n alloc_step_def seed_allocator_def)
  then have 2: "bus_reachable d (0, [?S ?x2, ?S y])" using 1 bus_reachable.step by blast
  let ?x3 = "?x2\<lparr>cid_frame_sequence := 7, conflict_detected := False\<rparr>"
  have "nd_ok ?x3" "seed12 ?x3 = ?a" "own ?x3 = {}" "alias_entry (remote_aliases (nd_if ?x3)) (ucast (seed12 ?x3)) = 0"
    using x by (simp_all add: seed_allocator_def nd_ok_def own_def)
  then obtain x4 where 4: "get_new_seed 1 ?x3 = Some (x4, ?a)" "aside ?x3 x4" "nd_out x4 = nd_out ?x3"
    using seed_taken [of ?x3 0] assms(3) by auto
  have p: "al_message x4 = alias_info_init" "cid_frame_sequence x4 = 7" "\<not> conflict_detected x4" "own x4 = {}"
    using 4(2) x(2) by (auto simp: aside_def alloc_part_def own_def seed_allocator_def)
  let ?x5 = "(register_conflicts (x4\<lparr>al_message := alias_info_init\<lparr>ai_alias := ?a\<rparr>\<rparr>))\<lparr>al_state := AL_HANDLE_CID\<rparr>"
  have "alloc_step 1 (replicate 8 0) ?x2 = Some ?x5"
    using 4(1) p(1) by (simp add: alloc_step_def alloc_entry_def Let_def alias_info_init_def)
  moreover have o: "nd_out ?x5 = nd_out ?x2" "nd_out ?x2 = []" using 4(3) x(3) by (simp_all add: register_conflicts_def seed_allocator_def)
  ultimately have "bus_step d (0, [?S ?x2, ?S y]) (0, [?S ?x5, ?S y])"
    using bus_step.allocator [of 0 "[?S ?x2, ?S y]" 1 "replicate 8 0" ?x5 0 d] q [OF o(1)] by (simp add: n)
  then have "bus_reachable d (0, [?S ?x5, ?S y])" using 2 bus_reachable.step by blast
  moreover have "own ?x5 = {}" using p(4) by (simp add: own_def register_conflicts_def)
  moreover have "nd_out ?x5 = []" using o by simp
  ultimately have "in_check d ?a 7 ?x5 y"
    using p y unfolding in_check_def by (auto simp: register_conflicts_def station_new_def)
  then show ?thesis by blast
qed

lemma first_node_reserves:
  assumes "fresh_node x" "fresh_node y" "seed12 x \<noteq> 0"
  shows "\<exists>t x' y'. bus_reachable d (t, [x', y']) \<and> seed12 x \<in> owns x'"
proof -
  obtain x7 y7 where 7: "in_check d (seed12 x) 7 x7 y7" using fresh_check [OF assms] by blast
  obtain x6 y6 where 6: "in_check d (seed12 x) 6 x6 y6" using one_more_check [OF 7] by auto
  obtain x5 y5 where 5: "in_check d (seed12 x) 5 x5 y5" using one_more_check [OF 6] by auto
  obtain x4 y4 where 4: "in_check d (seed12 x) 4 x4 y4" using one_more_check [OF 5] by auto
  obtain x3 y3 where 3: "in_check d (seed12 x) 3 x3 y3" using one_more_check [OF 4] by auto
  show ?thesis using after_check [OF 3] by blast
qed

lemma seed_of_new: "seed12 (can_node_new 0x050101011801 1 1 0) = 101"
  by (simp add: can_node_new_def reinit_seed_def Let_def)

theorem alias_has_one_owner_witness:
  "\<exists>t x y. bus_reachable 99 (t, [x, y]) \<and> alias_entry (local_aliases (nd_if (st_node x))) 101 \<noteq> 0 \<and>
     alias_entry (local_aliases (nd_if (st_node y))) 101 = 0"
proof -
  obtain t x y where r: "bus_reachable 99 (t, [x, y])" "101 \<in> owns x"
    using first_node_reserves [OF fresh_new [of "0x050101011801"] fresh_new [of "0x050101011802"], of 99] seed_of_new by auto
  then have a: "alias_entry (local_aliases (nd_if (st_node ([x, y] ! 0)))) 101 \<noteq> 0" by (simp add: own_def)
  have "alias_entry (local_aliases (nd_if (st_node ([x, y] ! 1)))) 101 = 0"
    by (rule alias_has_one_owner [OF r(1) _ _ _ _ _ a]) simp_all
  then show ?thesis using a r(1) by auto
qed

subsection \<open>The frame that no node can handle\<close>

text \<open>C39: A node of the bus can handle every frame in every state that can be reached, with one
  exception: an alias mapping enquiry whose six data bytes are all zero. There the lookup of the
  node identifier 0 violates the assertion of the alias cache before the handler checks for it.\<close>

theorem frame_stops_node:
  assumes "bus_reachable d (t, s)" "i < length s" "length (can_data f) = 8" "unat (can_dlc f) \<le> 8" "length junk = 8"
  shows "node_frame big junk f (st_node (s ! i)) = None \<longleftrightarrow>
    matches f AME_FILTER AME_MASK \<and> can_dlc f = 6 \<and> payload_id big f = Some 0"
proof -
  have "nd_ok (st_node (s ! i))"
    using reachable_nodes [OF assms(1)] assms(2) by (simp add: nodes_inv_def st_inv_def al_inv_def)
  moreover have "sound_frame f" using assms(3,4) by (simp add: sound_frame_def)
  ultimately show ?thesis
    using node_frame_ok [OF _ _ assms(5), of "st_node (s ! i)" f big] node_frame_faults [OF _ _ assms(5), of "st_node (s ! i)" f big]
    unfolding zero_enquiry_def by (metis option.distinct(1))
qed

definition empty_enquiry :: can_frame where
  "empty_enquiry = (control_frame (replicate 8 0) 0x123 AME_FRAME 0)\<lparr>can_dlc := 6\<rparr>"

theorem frame_stops_node_witness:
  "node_frame False (replicate 8 0) empty_enquiry (can_node_new 0x050101011801 1 1 0) = None \<and>
   node_frame False (replicate 8 0) (empty_enquiry\<lparr>can_dlc := 0\<rparr>) (can_node_new 0x050101011801 1 1 0) \<noteq> None"
proof -
  let ?s = "map station_new [can_node_new 0x050101011801 1 1 0]"
  have r: "bus_reachable 99 (0, ?s)" by (rule bus_reachable.start) (use fresh_new in simp)
  have n: "st_node (?s ! 0) = can_node_new 0x050101011801 1 1 0" by (simp add: station_new_def)
  note w = frame_stops_node [OF r, of 0 _ "replicate 8 0" False, unfolded n]
  have e: "matches empty_enquiry AME_FILTER AME_MASK" "can_dlc empty_enquiry = 6" "length (can_data empty_enquiry) = 8"
    "can_data empty_enquiry = replicate 8 0"
    by (simp_all add: empty_enquiry_def control_frame_def control_init_def frame_flags matches_def AME_FILTER_def AME_MASK_def
       can_masks can_types control_fields frame_id_def IS_CAN_FRAME_EFF_def GET_CAN_FRAME_ID_EFF_def GET_CAN_FRAME_ID_def
       set_control_fields_def)
  have "payload_id False empty_enquiry = Some 0"
    using e by (simp add: payload_id_def data_to_node_id_eq node_id_of_def value_le_def numeral_eq_Suc)
  then show ?thesis using w [of empty_enquiry] w [of "empty_enquiry\<lparr>can_dlc := 0\<rparr>"] e by simp
qed

end
