(* ===== verification/CanDelivery.thy ===== *)
theory CanDelivery
  imports AliasBus
begin

section \<open>A message that reaches a node among all the traffic of its bus\<close>

text \<open>
  Every frame goes through all the handlers that are registered with the dispatcher of the
  receiving node: the conflict handler, the handlers that learn and answer about aliases, the two message
  parsers and the conflict handler of the allocator.
\<close>

fun node_run :: "bool \<Rightarrow> u8 list \<Rightarrow> can_frame list \<Rightarrow> can_node \<Rightarrow> (can_node \<times> gen_message list) option" where
  "node_run big junk [] nd = Some (nd, [])"
| "node_run big junk (f # fs) nd = do {
     (nd, r) \<leftarrow> node_frame big junk f nd;
     (nd, ms) \<leftarrow> node_run big junk fs nd;
     Some (nd, (case r of None \<Rightarrow> ms | Some x \<Rightarrow> x # ms))
   }"

text \<open>What other frames may be: their source is not an alias of the node, they do not share the
  reassembly buffer, and they are no enquiry for the node id zero.\<close>

definition bystander :: "bool \<Rightarrow> if_can \<Rightarrow> node_alias \<Rightarrow> node_alias \<Rightarrow> mti \<Rightarrow> can_frame \<Rightarrow> bool" where
  "bystander big st s d m f \<longleftrightarrow> sound_frame f \<and> frame_key f \<noteq> Some (buffer_key d (message_id s m)) \<and>
     (can_eff f \<longrightarrow> alias_entry (local_aliases st) (get_src (can_id f)) = 0) \<and> \<not> zero_enquiry big f"

text \<open>Frames that say which node has which alias.\<close>

definition alias_news :: "can_frame \<Rightarrow> bool" where
  "alias_news f \<longleftrightarrow> get_frame_type (can_id f) = CONTROL_MSG \<and>
     get_control_field (can_id f) \<in> {AMD_FRAME, AMR_FRAME, AME_FRAME}"

definition calm :: "if_can \<Rightarrow> if_can \<Rightarrow> bool" where
  "calm st st' \<longleftrightarrow> ad.same_entries (local_aliases st) (local_aliases st') \<and> cache_ok (remote_aliases st') \<and>
     local_nodes st' = local_nodes st"

lemma kept_calm: "kept st st' \<Longrightarrow> calm st st'"
  by (simp add: kept_def calm_def ad.same_entries_def)

lemma calm_ok: "calm st st' \<Longrightarrow> if_ok st'"
  by (simp add: calm_def if_ok_def ad.same_entries_def)

lemma calm_trans: "calm a b \<Longrightarrow> calm b c \<Longrightarrow> calm a c"
  using ad.same_entries_trans by (auto simp: calm_def)

lemma calm_entry: "calm st st' \<Longrightarrow> unat a < 4096 \<Longrightarrow> alias_entry (local_aliases st') a = alias_entry (local_aliases st) a"
  by (simp add: calm_def ad.same_entries_def)

lemma received_calm:
  "calm st st' \<Longrightarrow> unat d < 4096 \<Longrightarrow>
   (received_message st' s d m bs)\<lparr>gm_src := h\<rparr> = (received_message st s d m bs)\<lparr>gm_src := h\<rparr>"
  by (simp add: received_message_def calm_def ad.same_entries_def Let_def)

lemma bystander_calm: "calm st st' \<Longrightarrow> bystander big st' s d m f = bystander big st s d m f"
  using calm_entry get_src_small by (simp add: bystander_def)

text \<open>What the handlers before the parsers keep.\<close>

definition passed :: "can_frame \<Rightarrow> can_node \<Rightarrow> can_node \<Rightarrow> bool" where
  "passed f nd nd' \<longleftrightarrow> calm (nd_if nd) (nd_if nd') \<and> pendingBuffers (nd_if nd') = pendingBuffers (nd_if nd) \<and>
     (\<not> alias_news f \<longrightarrow> kept (nd_if nd) (nd_if nd'))"

lemma passed_refl: "nd_ok nd \<Longrightarrow> passed f nd nd"
  using kept_refl [of "nd_if nd"] kept_calm by (simp add: passed_def nd_ok_def)

lemma passed_trans: "passed f a b \<Longrightarrow> passed f b c \<Longrightarrow> passed f a c"
  unfolding passed_def using calm_trans kept_trans by metis

lemma passed_ok: "passed f a b \<Longrightarrow> nd_ok b"
  unfolding passed_def nd_ok_def by (blast dest: calm_ok)

lemma passed_out: "passed f a (b\<lparr>nd_out := q\<rparr>) = passed f a b"
  by (simp add: passed_def)

lemma passed_local:
  assumes "nd_ok nd" "cache_ok c" "\<forall>b. unat b < 4096 \<longrightarrow> alias_entry c b = alias_entry (local_aliases (nd_if nd)) b"
  shows "passed f nd (nd\<lparr>nd_if := nd_if nd\<lparr>local_aliases := c\<rparr>\<rparr>)"
  using assms by (simp add: passed_def calm_def kept_def ad.same_entries_def nd_ok_def if_ok_def)

lemma extended_matches: "matches f 0 ANY_EXT_MASK \<Longrightarrow> can_eff f"
proof (rule ccontr)
  have m: "ANY_EXT_MASK = NOT (mask 30)" by (simp add: ANY_EXT_MASK_def mask_eq_exp_minus_1)
  assume "matches f 0 ANY_EXT_MASK" "\<not> can_eff f"
  then have "(GET_CAN_FRAME_ID f OR push_bit 30 1) AND NOT (mask 30) = 0"
    by (simp add: matches_def m frame_id_def IS_CAN_FRAME_EFF_def)
  then have "\<not> bit ((GET_CAN_FRAME_ID f OR push_bit 30 1) AND NOT (mask 30)) 30" by simp
  then show False by (simp add: bit_simps)
qed

lemma conflict_passed:
  assumes "nd_ok nd" "can_eff f \<longrightarrow> alias_entry (local_aliases (nd_if nd)) (get_src (can_id f)) = 0"
  shows "\<exists>nd'. (if matches f 0 ANY_EXT_MASK then conflict_entry big junk f nd else Some nd) = Some nd' \<and> passed f nd nd'"
proof (cases "matches f 0 ANY_EXT_MASK")
  case True
  let ?a = "get_src (can_id f)" and ?c = "local_aliases (nd_if nd)"
  have z: "alias_entry ?c ?a = 0" using assms(2) extended_matches [OF True] by blast
  obtain c where c: "lookup_alias ?a ?c = Some (c, 0)" "ad.same_entries ?c c"
    using ad.lookup_same [OF _ get_src_small, of ?c "can_id f"] assms(1) z by (auto simp: nd_ok_def if_ok_def)
  have "passed f nd (nd\<lparr>nd_if := nd_if nd\<lparr>local_aliases := c\<rparr>\<rparr>)"
    using c(2) assms(1) by (intro passed_local) (simp_all add: ad.same_entries_def)
  then show ?thesis using True c(1) passed_refl [OF assms(1)]
    by (auto simp: conflict_entry_def GET_CAN_FRAME_ID_EFF_def Let_def with_local_def)
qed (use passed_refl [OF assms(1)] in simp)

definition remote_only :: "can_node \<Rightarrow> can_node \<Rightarrow> bool" where
  "remote_only nd nd' \<longleftrightarrow> (\<exists>c. nd_if nd' = (nd_if nd)\<lparr>remote_aliases := c\<rparr>)"

lemma remote_only_trans: "remote_only a b \<Longrightarrow> remote_only b c \<Longrightarrow> remote_only a c"
  by (auto simp: remote_only_def)

lemma remote_only_refl: "remote_only nd nd"
proof -
  have "nd_if nd = (nd_if nd)\<lparr>remote_aliases := remote_aliases (nd_if nd)\<rparr>" by simp
  then show ?thesis unfolding remote_only_def by blast
qed

lemma with_remote_only: "with_remote g nd = Some (nd', r) \<Longrightarrow> remote_only nd nd'"
  by (auto simp: with_remote_def remote_only_def split: bind_splits)

lemma amd_only: "amd_update i a nd = Some nd' \<Longrightarrow> remote_only nd nd'"
  unfolding amd_update_def
  by (auto split: bind_splits if_splits dest!: with_remote_only intro: remote_only_refl) (blast intro: remote_only_trans)+

lemma amr_only: "amr_update i a nd = Some nd' \<Longrightarrow> remote_only nd nd'"
  unfolding amr_update_def
  by (auto split: bind_splits if_splits dest!: with_remote_only intro: remote_only_refl) (blast intro: remote_only_trans)+

lemma remote_entry_only: "remote_entry big f nd = Some nd' \<Longrightarrow> remote_only nd nd'"
  unfolding remote_entry_def Let_def
  by (auto split: bind_splits if_splits dest: amd_only amr_only intro: remote_only_refl)

lemma remote_only_passed: "nd_ok nd \<Longrightarrow> nd_ok nd' \<Longrightarrow> remote_only nd nd' \<Longrightarrow> alias_news f \<Longrightarrow> passed f nd nd'"
  by (auto simp: remote_only_def passed_def calm_def nd_ok_def if_ok_def intro: ad.same_entries_refl)

lemma remote_passed:
  assumes "nd_ok nd" "sound_frame f"
  shows "\<exists>nd'. remote_entry big f nd = Some nd' \<and> passed f nd nd'"
proof -
  obtain nd' where n: "remote_entry big f nd = Some nd'" "aside nd nd'" using remote_entry_ok [OF assms] by blast
  show ?thesis
  proof (cases "alias_news f")
    case True
    then show ?thesis using n remote_only_passed [OF assms(1) aside_ok [OF n(2)] remote_entry_only [OF n(1)]] by blast
  next
    case False
    then have "nd' = nd"
      using n(1) by (auto simp: remote_entry_def GET_CAN_FRAME_ID_EFF_def Let_def alias_news_def split: if_splits bind_splits)
    then show ?thesis using n(1) passed_refl [OF assms(1)] by blast
  qed
qed

lemma enquiry_passed:
  assumes "nd_ok nd" "sound_frame f" "\<not> zero_enquiry big f" "matches f AME_FILTER AME_MASK"
  shows "\<exists>nd'. ame_entry big f nd = Some nd' \<and> passed f nd (global_query f nd')"
proof -
  have news: "alias_news f" using ame_fields [OF assms(4)] by (simp add: alias_news_def)
  have g: "passed f n (global_query f n)" if "nd_ok n" for n
    using that news cache_ok_clear passed_refl [OF that]
    by (auto simp: global_query_def passed_def calm_def nd_ok_def if_ok_def intro: ad.same_entries_refl)
  show ?thesis
  proof (cases "can_dlc f = 6")
    case False
    then have "ame_entry big f nd = Some nd" by (simp add: ame_entry_def GET_CAN_FRAME_ID_EFF_def)
    then show ?thesis using g [OF assms(1)] by blast
  next
    case True
    obtain i where i: "payload_id big f = Some i" using payload_id_sound [OF assms(2)] by blast
    then have i0: "i \<noteq> 0" using True assms(3,4) by (auto simp: zero_enquiry_def)
    obtain c a where c: "lookup_id i (local_aliases (nd_if nd)) = Some (c, a)" "cache_ok c"
      "\<forall>b. unat b < 4096 \<longrightarrow> alias_entry c b = alias_entry (local_aliases (nd_if nd)) b"
      using st.find_id_ok [OF _ i0, of "local_aliases (nd_if nd)"] assms(1) by (auto simp: nd_ok_def if_ok_def)
    let ?n = "nd\<lparr>nd_if := nd_if nd\<lparr>local_aliases := c\<rparr>\<rparr>"
    have p: "passed f nd ?n" by (rule passed_local [OF assms(1) c(2,3)])
    let ?n' = "if a = 0 then ?n else send_frame (SET_CAN_FRAME_ID_EFF f (set_control_fields a AMD_FRAME 0)) No_note ?n"
    have e: "ame_entry big f nd = Some ?n'"
      using True i i0 c(1) ame_fields [OF assms(4)] by (simp add: ame_entry_def GET_CAN_FRAME_ID_EFF_def with_local_def)
    have n: "passed f nd ?n'" using p by (simp add: send_frame_def passed_out)
    show ?thesis using e passed_trans [OF n g [OF passed_ok [OF n]]] by blast
  qed
qed

lemma handlers_passed:
  assumes "nd_ok nd" "sound_frame f" "\<not> zero_enquiry big f"
    "can_eff f \<longrightarrow> alias_entry (local_aliases (nd_if nd)) (get_src (can_id f)) = 0"
  shows "\<exists>nd'. control_handlers big junk f nd = Some nd' \<and> passed f nd nd'"
proof -
  obtain n1 where 1: "(if matches f 0 ANY_EXT_MASK then conflict_entry big junk f nd else Some nd) = Some n1" "passed f nd n1"
    using conflict_passed [OF assms(1,4)] by blast
  obtain n2 where 2: "(if matches f CONTROL_FILTER CONTROL_MASK then remote_entry big f n1 else Some n1) = Some n2" "passed f n1 n2"
    using remote_passed [OF passed_ok [OF 1(2)] assms(2)] passed_refl [OF passed_ok [OF 1(2)]]
    by (cases "matches f CONTROL_FILTER CONTROL_MASK") auto
  obtain n3 where 3: "(if matches f AME_FILTER AME_MASK then Option.bind (ame_entry big f n2) (\<lambda>nd. Some (global_query f nd)) else Some n2) =
      Some n3" "passed f n2 n3"
  proof (cases "matches f AME_FILTER AME_MASK")
    case True
    then show ?thesis using that enquiry_passed [OF passed_ok [OF 2(2)] assms(2,3)] by auto
  qed (use that passed_refl [OF passed_ok [OF 2(2)]] in simp)
  show ?thesis
    using 1(1) 2(1) 3(1) passed_trans [OF passed_trans [OF 1(2) 2(2)] 3(2)] by (simp add: control_handlers_def)
qed

lemma alloc_frame_if: "nd_if (alloc_frame f nd) = nd_if nd"
  by (simp add: alloc_frame_def alloc_conflict_def split: option.split)

subsection \<open>One frame\<close>

lemma bystander_step:
  assumes "nd_ok nd" "bystander big (nd_if nd) s d m f" "take_bit 12 s = s" "addressed_mti m"
  defines "K \<equiv> buffer_key d (message_id s m)"
  shows "\<exists>nd' r. node_frame big junk f nd = Some (nd', r) \<and> calm (nd_if nd) (nd_if nd') \<and>
     (\<not> alias_news f \<longrightarrow> kept (nd_if nd) (nd_if nd')) \<and>
     pendingBuffers (nd_if nd') K = pendingBuffers (nd_if nd) K \<and> (\<forall>x. r = Some x \<longrightarrow> \<not> between s d m x)"
proof -
  have f: "sound_frame f" "frame_key f \<noteq> Some (buffer_key d (message_id s m))" "\<not> zero_enquiry big f"
    "can_eff f \<longrightarrow> alias_entry (local_aliases (nd_if nd)) (get_src (can_id f)) = 0"
    using assms(2) by (simp_all add: bystander_def)
  obtain n1 where 1: "control_handlers big junk f nd = Some n1" "passed f nd n1"
    using handlers_passed [OF assms(1) f(1,3,4)] by blast
  have "if_ok (nd_if n1)" using passed_ok [OF 1(2)] by (simp add: nd_ok_def)
  from other_step [OF this f(1,2) assms(3,4)] obtain i r where
    2: "dispatch_frame f (nd_if n1) = Some (i, r)" "kept (nd_if n1) i" "pendingBuffers i K = pendingBuffers (nd_if n1) K"
      "\<forall>x. r = Some x \<longrightarrow> \<not> between s d m x"
    unfolding K_def by blast
  show ?thesis
    using 1 2 calm_trans [OF _ kept_calm [OF 2(2)]] kept_trans [OF _ 2(2)]
    by (simp add: node_frame_def alloc_frame_if passed_def)
qed

lemma own_handled:
  assumes "carries s d m f b" "take_bit 12 s = s" "take_bit 12 d = d" "addressed_mti m"
  shows "\<not> alias_news f" "\<not> zero_enquiry big f"
proof -
  obtain nf nl bs where b: "b = (nf, nl, bs)" by (cases b)
  have m: "frame_id f AND MESSAGE_MASK = ADDRESSED_FILTER AND MESSAGE_MASK" using own_frame(7) assms b by blast
  have "frame_id f = can_id f" by (rule extended_frame [OF m filters_30(1)])
  moreover have "bit MESSAGE_MASK 27" "bit ADDRESSED_FILTER 27"
    by (simp_all add: message_mask bit_simps) (simp add: ADDRESSED_FILTER_def can_types mti_masks)
  ultimately have "bit (can_id f) 27" using m by (metis bit_and_iff)
  then have "get_frame_type (can_id f) \<noteq> CONTROL_MSG"
    using bit_getters(5) [of "can_id f" 0] by (auto simp: CONTROL_MSG_def)
  then show "\<not> alias_news f" "\<not> zero_enquiry big f"
    using ame_fields by (auto simp: alias_news_def zero_enquiry_def)
qed

lemma fragment_step:
  assumes "nd_ok nd" "carries s d m f (nf, nl, bs)" "take_bit 12 s = s" "take_bit 12 d = d" "addressed_mti m"
    "alias_entry (local_aliases (nd_if nd)) d \<noteq> 0" "alias_entry (local_aliases (nd_if nd)) s = 0"
  defines "K \<equiv> buffer_key d (message_id s m)"
  defines "acc \<equiv> (if nf then (case pendingBuffers (nd_if nd) K of None \<Rightarrow> [] | Some b \<Rightarrow> b) else []) @ bs"
  shows "\<exists>nd'. node_frame big junk f nd = Some (nd', if nl then None else Some (received_message (nd_if nd) s d m acc)) \<and>
     kept (nd_if nd) (nd_if nd') \<and> (nl \<longrightarrow> pendingBuffers (nd_if nd') K = Some acc)"
proof -
  note o = own_frame [OF assms(2-5)]
  obtain n1 where 1: "control_handlers big junk f nd = Some n1" "passed f nd n1"
    using handlers_passed [OF assms(1) o(1) own_handled(2) [OF assms(2-5)]] assms(7) o(4) by blast
  have k: "kept (nd_if nd) (nd_if n1)" "pendingBuffers (nd_if n1) = pendingBuffers (nd_if nd)"
    using 1(2) own_handled(1) [OF assms(2-5)] by (simp_all add: passed_def)
  have small: "unat s < 4096" "unat d < 4096" using assms(3,4) alias_small by blast+
  have e: "alias_entry (local_aliases (nd_if n1)) d \<noteq> 0" using calm_entry [OF kept_calm [OF k(1)] small(2)] assms(6) by simp
  obtain i where 2: "dispatch_frame f (nd_if n1) = Some (i, if nl then None else Some (received_message (nd_if n1) s d m acc))"
    "kept (nd_if n1) i" "nl \<longrightarrow> pendingBuffers i K = Some acc"
    using own_step [OF kept_ok [OF k(1)] assms(2-5) e] unfolding K_def [symmetric] k(2) acc_def [symmetric] by blast
  show ?thesis
    using 1(1) 2 kept_trans [OF k(1) 2(2)] received_kept [OF k(1) small]
    by (simp add: node_frame_def alloc_frame_if)
qed

subsection \<open>A run of frames\<close>

definition plain_news :: "bool \<Rightarrow> if_can \<Rightarrow> if_can \<Rightarrow> bool" where
  "plain_news quiet st st' \<longleftrightarrow> calm st st' \<and> (quiet \<longrightarrow> kept st st')"

lemma plain_news_trans: "plain_news q a b \<Longrightarrow> plain_news q b c \<Longrightarrow> plain_news q a c"
  unfolding plain_news_def using calm_trans kept_trans by blast

lemma run_bystanders:
  assumes "take_bit 12 s = s" "addressed_mti m"
  shows "nd_ok nd \<Longrightarrow> \<forall>f \<in> set os. bystander big (nd_if nd) s d m f \<Longrightarrow> (q \<Longrightarrow> \<forall>f \<in> set os. \<not> alias_news f) \<Longrightarrow>
    \<exists>nd' ms. node_run big junk os nd = Some (nd', ms) \<and> plain_news q (nd_if nd) (nd_if nd') \<and> filter (between s d m) ms = []"
proof (induction os arbitrary: nd)
  case Nil
  then show ?case using kept_refl kept_calm by (auto simp: plain_news_def nd_ok_def)
next
  case (Cons f os)
  obtain n1 r where 1: "node_frame big junk f nd = Some (n1, r)" "plain_news q (nd_if nd) (nd_if n1)"
    "\<forall>x. r = Some x \<longrightarrow> \<not> between s d m x"
    using bystander_step [OF Cons.prems(1) _ assms, of big d f] Cons.prems(2,3) by (fastforce simp: plain_news_def)
  have c: "calm (nd_if nd) (nd_if n1)" using 1(2) by (simp add: plain_news_def)
  have "\<forall>f \<in> set os. bystander big (nd_if n1) s d m f" using Cons.prems(2) bystander_calm [OF c] by simp
  then obtain nd' ms where "node_run big junk os n1 = Some (nd', ms)" "plain_news q (nd_if n1) (nd_if nd')"
    "filter (between s d m) ms = []"
    using Cons.IH [of n1] Cons.prems(3) calm_ok [OF c] by (auto simp: nd_ok_def)
  then show ?case using 1 plain_news_trans [OF 1(2)] by (cases r) auto
qed

text \<open>The message that is delivered: all fields but the node id of the source.\<close>

definition delivered :: "if_can \<Rightarrow> node_alias \<Rightarrow> node_alias \<Rightarrow> mti \<Rightarrow> payload \<Rightarrow> node_id \<Rightarrow> gen_message" where
  "delivered st s d m bs i = (received_message st s d m bs)\<lparr>gm_src := \<lparr>nh_id = i, nh_alias = s\<rparr>\<rparr>"

lemma received_delivered: "received_message st s d m bs = delivered st s d m bs (source_of st s)"
  by (simp add: delivered_def received_message_def Let_def)

lemma delivered_calm: "calm st st' \<Longrightarrow> unat d < 4096 \<Longrightarrow> delivered st' s d m bs i = delivered st s d m bs i"
  unfolding delivered_def by (rule received_calm)

lemma between_delivered: "between s d m (delivered st s d m bs i)"
  by (simp add: between_def delivered_def received_message_def Let_def)

lemma news_source: "plain_news q st st' \<Longrightarrow> unat s < 4096 \<Longrightarrow> q \<Longrightarrow> source_of st' s = source_of st s"
  by (simp add: plain_news_def source_of_kept)

lemma run_fragments:
  assumes "take_bit 12 s = s" "take_bit 12 d = d" "addressed_mti m"
  defines "K \<equiv> buffer_key d (message_id s m)"
  shows "nd_ok nd \<Longrightarrow> alias_entry (local_aliases (nd_if nd)) d \<noteq> 0 \<Longrightarrow> alias_entry (local_aliases (nd_if nd)) s = 0 \<Longrightarrow>
     gs \<in> shuffles fs os \<Longrightarrow> \<forall>f \<in> set os. bystander big (nd_if nd) s d m f \<Longrightarrow> (q \<Longrightarrow> \<forall>f \<in> set os. \<not> alias_news f) \<Longrightarrow>
     cs \<noteq> [] \<Longrightarrow> list_all2 (carries s d m) fs (fragments nf cs) \<Longrightarrow>
     (nf \<Longrightarrow> pendingBuffers (nd_if nd) K = Some acc) \<Longrightarrow> (\<not> nf \<Longrightarrow> acc = []) \<Longrightarrow>
    \<exists>nd' ms i. node_run big junk gs nd = Some (nd', ms) \<and> (q \<longrightarrow> i = source_of (nd_if nd) s) \<and>
      filter (between s d m) ms = [delivered (nd_if nd) s d m (acc @ concat cs) i]"
proof (induction gs arbitrary: nd fs os cs nf acc)
  case Nil
  then show ?case by (cases cs) auto
next
  case (Cons g gs)
  have small: "unat s < 4096" "unat d < 4096"
    using assms(1,2) alias_small by blast+
  have next_node: "nd_ok n \<and> alias_entry (local_aliases (nd_if n)) d \<noteq> 0 \<and> alias_entry (local_aliases (nd_if n)) s = 0 \<and>
      (\<forall>bs i. delivered (nd_if n) s d m bs i = delivered (nd_if nd) s d m bs i) \<and>
      (\<forall>f. bystander big (nd_if n) s d m f = bystander big (nd_if nd) s d m f)" if c: "calm (nd_if nd) (nd_if n)" for n
    using calm_ok [OF c] calm_entry [OF c] small Cons.prems(2,3) delivered_calm [OF c] bystander_calm [OF c]
    by (simp add: nd_ok_def)
  consider (own) fs' where "fs = g # fs'" "gs \<in> shuffles fs' os" | (other) os' where "os = g # os'" "gs \<in> shuffles fs os'"
    using Cons.prems(4) by (auto simp: Cons_in_shuffles_iff neq_Nil_conv)
  then show ?case
  proof cases
    case own
    obtain c cs' where cs: "cs = c # cs'" using Cons.prems(7) by (cases cs) auto
    then have g: "carries s d m g (nf, cs' \<noteq> [], c)" "list_all2 (carries s d m) fs' (fragments True cs')"
      using Cons.prems(8) own(1) by auto
    have acc: "(if nf then (case pendingBuffers (nd_if nd) K of None \<Rightarrow> [] | Some b \<Rightarrow> b) else []) @ c = acc @ c"
      using Cons.prems(9,10) by auto
    obtain n1 where 1: "node_frame big junk g nd = Some (n1, if cs' \<noteq> [] then None else Some (received_message (nd_if nd) s d m (acc @ c)))"
      "kept (nd_if nd) (nd_if n1)" "cs' \<noteq> [] \<longrightarrow> pendingBuffers (nd_if n1) K = Some (acc @ c)"
      using fragment_step [OF Cons.prems(1) g(1) assms(1-3) Cons.prems(2,3)] unfolding K_def [symmetric] acc by blast
    note n1 = next_node [OF kept_calm [OF 1(2)]]
    show ?thesis
    proof (cases "cs' = []")
      case True
      then have "gs = os" using own(2) g(2) by simp
      then obtain nd' ms where "node_run big junk gs n1 = Some (nd', ms)" "filter (between s d m) ms = []"
        using run_bystanders [OF assms(1,3), of n1 os big d q] n1 Cons.prems(5,6) by blast
      then show ?thesis
        using 1(1) True cs between_delivered [of s d m] by (auto simp: received_delivered)
    next
      case False
      obtain nd' ms i where "node_run big junk gs n1 = Some (nd', ms)" "q \<longrightarrow> i = source_of (nd_if n1) s"
        "filter (between s d m) ms = [delivered (nd_if n1) s d m ((acc @ c) @ concat cs') i]"
        using Cons.IH [of n1 fs' os cs' True "acc @ c"] n1 own(2) Cons.prems(5,6) False g(2) 1(3) by blast
      then show ?thesis
        using 1(1) False cs n1 source_of_kept [OF 1(2) small(1)] by auto
    qed
  next
    case other
    obtain n1 r where 1: "node_frame big junk g nd = Some (n1, r)" "plain_news q (nd_if nd) (nd_if n1)"
      "pendingBuffers (nd_if n1) K = pendingBuffers (nd_if nd) K" "\<forall>x. r = Some x \<longrightarrow> \<not> between s d m x"
      using bystander_step [OF Cons.prems(1) _ assms(1,3), of big d g] Cons.prems(5,6) other(1)
      unfolding K_def by (fastforce simp: plain_news_def)
    have c: "calm (nd_if nd) (nd_if n1)" using 1(2) by (simp add: plain_news_def)
    note n1 = next_node [OF c]
    obtain nd' ms i where "node_run big junk gs n1 = Some (nd', ms)" "q \<longrightarrow> i = source_of (nd_if n1) s"
      "filter (between s d m) ms = [delivered (nd_if n1) s d m (acc @ concat cs) i]"
      using Cons.IH [of n1 fs os' cs nf acc] n1 other Cons.prems(5-10) 1(3) by auto
    then show ?thesis
      using 1(1,4) n1 news_source [OF 1(2) small(1)] by (cases r) auto
  qed
qed

text \<open>C13: An addressed message that the writer splits into frames is put together again by a node
  whose dispatcher runs every handler, whatever other frames of the bus come between: they may
  be messages for anybody and frames of the alias protocol that reserve, announce, enquire for or release aliases. The
  source of the message must not be an alias of the node itself and the destination must be one. Of the other
  frames it is asked that none has the same reassembly buffer, comes from an alias of the node (the node gives the alias
  up then) or enquires for the node id zero (an assertion fails then). Every frame is handled,
  and exactly one message from this source to this destination with this type is delivered, with the whole
  payload and the local node of the destination; the node id of its source is what the
  caches had for the alias when no frame brings news of aliases.\<close>

theorem message_reassembled:
  assumes "length junk = 8" "take_bit 12 s = s" "take_bit 12 d = d" "addressed_mti (gm_mti g)"
    "length (gm_payload g) < 256" "nd_ok nd" "alias_entry (local_aliases (nd_if nd)) d \<noteq> 0"
    "alias_entry (local_aliases (nd_if nd)) s = 0" "\<forall>f \<in> set os. bystander big (nd_if nd) s d (gm_mti g) f"
  shows "\<exists>fs. send_message junk g s d = Some fs \<and>
    (\<forall>gs \<in> shuffles fs os. \<exists>nd' ms i. node_run big junk' gs nd = Some (nd', ms) \<and>
      filter (between s d (gm_mti g)) ms = [delivered (nd_if nd) s d (gm_mti g) (gm_payload g) i] \<and>
      ((\<forall>f \<in> set os. \<not> alias_news f) \<longrightarrow> i = source_of (nd_if nd) s))"
proof -
  obtain fs where fs: "send_message junk g s d = Some fs"
    "list_all2 (carries s d (gm_mti g)) fs (fragments False (chunks (gm_payload g)))"
    using send_fragments [OF assms(1,2,4,5)] by blast
  have "\<exists>nd' ms i. node_run big junk' gs nd = Some (nd', ms) \<and> ((\<forall>f \<in> set os. \<not> alias_news f) \<longrightarrow> i = source_of (nd_if nd) s) \<and>
      filter (between s d (gm_mti g)) ms = [delivered (nd_if nd) s d (gm_mti g) ([] @ concat (chunks (gm_payload g))) i]"
    if "gs \<in> shuffles fs os" for gs
    by (rule run_fragments [OF assms(2,3,4,6,7,8) that assms(9) _ chunks_not_Nil fs(2)]) simp_all
  then show ?thesis using fs(1) unfolding concat_chunks append.left_neutral by metis
qed

definition demo_node :: can_node where
  "demo_node = (can_node_new 0x050101011801 2 2 0)\<lparr>nd_if := \<lparr>local_aliases = demo_cache, remote_aliases = demo_cache,
     local_nodes = (\<lambda>_. Some 5), pendingBuffers = (\<lambda>_. None), parse_buf = []\<rparr>\<rparr>"

lemma demo_node_ok: "nd_ok demo_node" "alias_entry (local_aliases (nd_if demo_node)) 0x123 \<noteq> 0"
  "alias_entry (local_aliases (nd_if demo_node)) 0x456 = 0" "alias_entry (local_aliases (nd_if demo_node)) 0x789 = 0"
  using demo_cache_ok(1,2) demo_cache_contents
  by (simp_all add: demo_node_def nd_ok_def if_ok_def cache_ok_def alias_entry_def NOT_RESPONDING_def)

text \<open>Node \<open>0x789\<close> announces its alias and asks everybody for theirs.\<close>

definition demo_announce :: can_frame where
  "demo_announce = (control_frame [5, 1, 1, 1, 0x18, 2, 0, 0] 0x789 AMD_FRAME 0)\<lparr>can_dlc := 6\<rparr>"

definition demo_enquire :: can_frame where
  "demo_enquire = control_frame (replicate 8 0) 0x789 AME_FRAME 0"

lemmas frame_values = control_frame_def control_init_def frame_flags matches_def AME_FILTER_def AME_MASK_def
  can_masks can_types control_fields frame_id_def IS_CAN_FRAME_EFF_def GET_CAN_FRAME_ID_EFF_def GET_CAN_FRAME_ID_def
  set_control_fields_def message_mask getters ADDRESSED_FILTER_def mti_masks mask_eq_exp_minus_1

lemma demo_bystanders:
  "bystander False (nd_if demo_node) 0x456 0x123 0x488 demo_announce"
  "bystander False (nd_if demo_node) 0x456 0x123 0x488 demo_enquire"
  "alias_news demo_announce"
  using demo_node_ok(4)
  by (simp_all add: bystander_def demo_announce_def demo_enquire_def sound_frame_def frame_key_def zero_enquiry_def
     alias_news_def frame_values)

theorem message_reassembled_witness:
  "\<exists>f1 f2 nd' ms i. send_message (replicate 8 0) (gm_reset 0x488 0 nh_none [1, 2, 3, 4, 5, 6, 7, 8]) 0x456 0x123 = Some [f1, f2] \<and>
     node_run False (replicate 8 0) [demo_announce, f1, demo_enquire, f2] demo_node = Some (nd', ms) \<and>
     filter (between 0x456 0x123 0x488) ms = [delivered (nd_if demo_node) 0x456 0x123 0x488 [1, 2, 3, 4, 5, 6, 7, 8] i]"
proof -
  let ?g = "gm_reset 0x488 0 nh_none [1, 2, 3, 4, 5, 6, 7, 8]" and ?os = "[demo_announce, demo_enquire]"
  have g: "gm_mti ?g = 0x488" "gm_payload ?g = [1, 2, 3, 4, 5, 6, 7, 8]" "addressed_mti 0x488"
    by (simp_all add: addressed_mti_def get_mti_address_def mti_masks gm_reset_def)
  obtain fs where fs: "send_message (replicate 8 0) ?g 0x456 0x123 = Some fs"
    "\<forall>gs \<in> shuffles fs ?os. \<exists>nd' ms i. node_run False (replicate 8 0) gs demo_node = Some (nd', ms) \<and>
       filter (between 0x456 0x123 0x488) ms = [delivered (nd_if demo_node) 0x456 0x123 0x488 [1, 2, 3, 4, 5, 6, 7, 8] i]"
    using message_reassembled [of "replicate 8 0" "0x456" "0x123" ?g demo_node ?os False "replicate 8 0"]
      demo_node_ok demo_bystanders g by auto
  have "list_all2 (carries 0x456 0x123 0x488) fs (fragments False (chunks [1, 2, 3, 4, 5, 6, 7, 8]))"
    using send_fragments [of "replicate 8 0" "0x456" ?g "0x123"] fs(1) g by auto
  then have "length fs = 2"
    by (auto dest!: list_all2_lengthD simp: chunks.simps)
  then obtain f1 f2 where "fs = [f1, f2]" by (auto simp: length_Suc_conv numeral_2_eq_2)
  then show ?thesis using fs by (force simp: Cons_in_shuffles_iff)
qed

end
