(* ===== verification/AliasSeed.thy ===== *)
theory AliasSeed
  imports AliasBus
begin

section \<open>The search for an unused alias\<close>

text \<open>
  The loop of \<open>get_new_seed\<close> walks through the 4096 values of the seed. The step is odd, so
  that every value is met once before one repeats, and the search ends exactly when an alias
  is free.
\<close>

definition free_alias :: "can_node \<Rightarrow> u12 \<Rightarrow> bool" where
  "free_alias nd a \<longleftrightarrow> a \<noteq> 0 \<and> alias_entry (local_aliases (nd_if nd)) (ucast a) = 0 \<and>
     alias_entry (remote_aliases (nd_if nd)) (ucast a) = 0"

lemma odd_invertible:
  fixes w :: u12
  assumes "odd w"
  shows "\<exists>v. w * v = 1"
proof -
  have "odd (unat w)" using assms by (simp flip: bit_0 add: bit_unsigned_iff)
  then have "coprime (unat w) (2 ^ 12)" by (simp add: coprime_power_right_iff del: power_numeral)
  then have "gcd (unat w) 4096 = 1" by simp
  moreover have "unat w \<noteq> 0" using assms by (metis even_zero unat_eq_0)
  ultimately obtain x y where "unat w * x = 4096 * y + 1"
    using bezout_nat [of "unat w" 4096] by auto
  then have "(of_nat (unat w * x) :: u12) = of_nat (4096 * y + 1)" by simp
  moreover have "(of_nat (4096 * y + 1) :: u12) = 1"
  proof -
    have "(of_nat 4096 :: u12) = 0" by simp
    then show ?thesis by (simp only: of_nat_add of_nat_mult mult_zero_left add_0_left of_nat_1)
  qed
  ultimately have "w * of_nat x = 1" by (simp only: of_nat_mult of_nat_unat ucast_id)
  then show ?thesis ..
qed

lemma odd_step_reaches:
  fixes w s t :: u12
  assumes "odd w"
  shows "\<exists>k < 4096. s + of_nat k * w = t"
proof -
  obtain v where v: "w * v = 1" using odd_invertible [OF assms] by blast
  let ?k = "unat ((t - s) * v)"
  have "of_nat ?k * w = (t - s) * (w * v)" by (simp add: ac_simps)
  then have "s + of_nat ?k * w = t" by (simp add: v)
  moreover have "?k < 4096" using unsigned_less [of "(t - s) * v"] by simp
  ultimately show ?thesis by blast
qed

definition seed_step :: "can_node \<Rightarrow> u12" where
  "seed_step nd = ucast (seed_offset (if_id nd))"

lemma seed_step_odd: "odd (seed_step nd)"
proof -
  have "bit (seed_step nd) 0" by (simp only: seed_step_def seed_offset_def bit_unsigned_iff bit_or_iff) simp
  then show ?thesis by (simp add: bit_0)
qed

definition looked :: "can_node \<Rightarrow> can_node \<Rightarrow> bool" where
  "looked nd nd' \<longleftrightarrow> nd_ok nd' \<and> if_id nd' = if_id nd \<and> (\<forall>a. free_alias nd' a = free_alias nd a) \<and>
     seed12 nd' = seed12 nd + seed_step nd"

lemma get_new_seed_step:
  assumes "nd_ok nd"
  shows "\<exists>nd'. looked nd nd' \<and> get_new_seed (Suc fuel) nd =
    (if free_alias nd (seed12 nd) then Some (nd', seed12 nd) else get_new_seed fuel nd')"
proof -
  let ?s = "seed12 nd" and ?c = "local_aliases (nd_if nd)" and ?r = "remote_aliases (nd_if nd)"
  let ?n = "\<lambda>d e. (advance_seed nd)\<lparr>nd_if := nd_if nd\<lparr>local_aliases := d, remote_aliases := e\<rparr>\<rparr>"
  have c: "cache_ok ?c" "cache_ok ?r" using assms by (simp_all add: nd_ok_def if_ok_def)
  obtain d where d: "lookup_alias (ucast ?s) ?c = Some (d, alias_entry ?c (ucast ?s))" "ad.same_entries ?c d"
    using ad.lookup_same [OF c(1) ucast12_small, of ?s] by auto
  obtain e where e: "lookup_alias (ucast ?s) ?r = Some (e, alias_entry ?r (ucast ?s))" "ad.same_entries ?r e"
    using ad.lookup_same [OF c(2) ucast12_small, of ?s] by auto
  have l: "looked nd (?n d' e')" if "ad.same_entries ?c d'" "ad.same_entries ?r e'" for d' e'
    using that assms ucast12_small
    by (auto simp: looked_def nd_ok_def if_ok_def ad.same_entries_def free_alias_def advance_seed_def seed_step_def)
  show ?thesis
  proof (cases "?s = 0 \<or> alias_entry ?c (ucast ?s) \<noteq> 0")
    case True
    show ?thesis
    proof (cases "?s = 0")
      case True
      then show ?thesis
        using l [OF ad.same_entries_refl [OF c(1)] ad.same_entries_refl [OF c(2)]]
        by (auto simp: free_alias_def Let_def advance_seed_def)
    next
      case False
      then show ?thesis
        using True d(1) l [OF d(2) ad.same_entries_refl [OF c(2)]]
        by (auto simp: free_alias_def Let_def advance_seed_def with_local_def)
    qed
  next
    case False
    then show ?thesis
      using d(1) e(1) l [OF d(2) e(2)]
      by (auto simp: free_alias_def Let_def advance_seed_def with_local_def with_remote_def)
  qed
qed

lemma get_new_seed_result:
  "nd_ok nd \<Longrightarrow> get_new_seed fuel nd = Some (nd', a) \<Longrightarrow> free_alias nd a"
proof (induction fuel arbitrary: nd)
  case (Suc fuel)
  obtain n where "looked nd n" "get_new_seed (Suc fuel) nd =
      (if free_alias nd (seed12 nd) then Some (n, seed12 nd) else get_new_seed fuel n)"
    using get_new_seed_step [OF Suc.prems(1)] by blast
  then show ?case using Suc by (auto simp: looked_def split: if_splits)
qed simp

lemma get_new_seed_ends:
  "nd_ok nd \<Longrightarrow> free_alias nd (seed12 nd + of_nat k * seed_step nd) \<Longrightarrow> k < fuel \<Longrightarrow> get_new_seed fuel nd \<noteq> None"
proof (induction k arbitrary: nd fuel)
  case 0
  then obtain f where "fuel = Suc f" by (cases fuel) auto
  then show ?case using get_new_seed_step [OF 0(1), of f] 0(2) by auto
next
  case (Suc k)
  then obtain f where f: "fuel = Suc f" by (cases fuel) auto
  obtain n where n: "looked nd n" "get_new_seed (Suc f) nd =
      (if free_alias nd (seed12 nd) then Some (n, seed12 nd) else get_new_seed f n)"
    using get_new_seed_step [OF Suc.prems(1)] by blast
  have "seed_step n = seed_step nd" using n(1) by (simp add: looked_def seed_step_def)
  then have "free_alias n (seed12 n + of_nat k * seed_step n)"
    using n(1) Suc.prems(2) by (simp add: looked_def algebra_simps)
  then have "get_new_seed f n \<noteq> None" using Suc n(1) f by (simp add: looked_def)
  then show ?case using n(2) f by simp
qed

text \<open>C5: The search for a new alias ends exactly when there is a free alias, one that is not 0
  and in neither alias cache, and then after at most 4096 rounds, with a free alias. When none
  is free the loop never ends.\<close>

theorem alias_search_ends:
  assumes "bus_reachable d (t, s)" "i < length s" "4096 \<le> fuel"
  shows "case get_new_seed fuel (st_node (s ! i)) of Some (nd', a) \<Rightarrow> free_alias (st_node (s ! i)) a
    | None \<Rightarrow> (\<forall>a. \<not> free_alias (st_node (s ! i)) a)"
proof -
  let ?n = "st_node (s ! i)"
  have ok: "nd_ok ?n" using reachable_nodes [OF assms(1)] assms(2) by (simp add: nodes_inv_def st_inv_def al_inv_def)
  show ?thesis
  proof (cases "get_new_seed fuel ?n")
    case None
    have "\<not> free_alias ?n a" for a
    proof -
      obtain k where "k < 4096" "seed12 ?n + of_nat k * seed_step ?n = a"
        using odd_step_reaches [OF seed_step_odd] by blast
      then show ?thesis using get_new_seed_ends [OF ok, of k fuel] None assms(3) by auto
    qed
    then show ?thesis using None by simp
  next
    case (Some p)
    then show ?thesis using get_new_seed_result [OF ok] by (cases p) simp
  qed
qed

theorem alias_search_ends_witness:
  "\<exists>nd' a. get_new_seed 4096 (can_node_new 0x050101011801 1 1 0) = Some (nd', a) \<and>
     free_alias (can_node_new 0x050101011801 1 1 0) a"
proof -
  let ?n = "can_node_new 0x050101011801 1 1 0"
  have r: "bus_reachable 0 (0, map station_new [?n])" by (rule bus_reachable.start) (use fresh_new in simp)
  have "free_alias ?n 1"
    using new_cache_ok [of 1] by (simp add: free_alias_def can_node_new_def reinit_seed_def Let_def)
  then show ?thesis using alias_search_ends [OF r, of 0 4096] by (auto simp: station_new_def split: option.splits)
qed

text \<open>Two node ids that are only 2047 apart can have the same step.\<close>

lemma steps_collide:
  "seed_offset 0x050101010801 AND 0xFFF = seed_offset 0x050101011000 AND 0xFFF"
  by (simp add: seed_offset_def)

end
