(* ===== verification/EventRange.thy ===== *)
theory EventRange
  imports Prelude "HOL-Library.Log_Nat"
begin

section \<open>Ranges of events (openlcb/RoutingLogic.cpp, EventService.cpp, EventHandler.cpp, EventHandlerTemplates.cpp)\<close>

text \<open>
  A range of \<open>2 ^ k\<close> events is one event id whose lowest \<open>k\<close> bits are all equal and differ from the
  next bit. The functions that read such an id, that make one for a given range, and that
  align a range for the registry. A base and a mask stand for the events from \<open>base\<close> to
  \<open>base + mask\<close>. A shift of a 64-bit number by 64 is undefined and gives \<open>None\<close>.
\<close>

type_synonym event_id = u64

function range_loop :: "event_id \<Rightarrow> u64 \<Rightarrow> u64 \<Rightarrow> nat \<Rightarrow> u64 \<times> nat" where
  "range_loop e m value ret =
     (if ret < 64 \<and> e AND m = value then range_loop e (push_bit 1 m) (push_bit 1 value) (Suc ret) else (m, ret))"
  by auto
termination by (relation "measure (\<lambda>(e, m, v, ret). 64 - ret)") auto

declare range_loop.simps [simp del]

definition event_range_to_bit_count :: "event_id \<Rightarrow> event_id \<times> nat" where
  "event_range_to_bit_count e = (case range_loop e 1 (e AND 1) 0 of (m, ret) \<Rightarrow> (e AND NOT (m - 1), ret))"

definition DecodeRange :: "event_id \<Rightarrow> event_id \<times> u64" where
  "DecodeRange e =
     (let m = (if e AND 1 \<noteq> 0 then drop_bit 1 (e XOR (e + 1)) else drop_bit 1 (e XOR (e - 1)))
      in (e AND NOT m, m))"

text \<open>The loop of \<open>EncodeRange\<close>: \<open>None\<close> when the fuel is used up.\<close>

fun encode_loop :: "nat \<Rightarrow> u64 \<Rightarrow> u64 \<Rightarrow> u64 \<Rightarrow> (u64 \<times> u64) option" where
  "encode_loop 0 start shift stop = None"
| "encode_loop (Suc fuel) start shift stop =
     (if start + shift < stop then encode_loop fuel (start AND NOT shift) (push_bit 1 shift) stop else Some (start, shift))"

definition EncodeRange :: "nat \<Rightarrow> u64 \<Rightarrow> u32 \<Rightarrow> u64 option" where
  "EncodeRange fuel start sz = do {
     (b, shift) \<leftarrow> encode_loop fuel start 1 (start + ucast sz - 1);
     Some (if b AND shift \<noteq> 0 then b else b OR (shift - 1))
   }"

definition builtin_clz :: "u32 \<Rightarrow> nat" where
  "builtin_clz w = 32 - floorlog 2 (unat w)"

function align_loop :: "event_id \<Rightarrow> u32 \<Rightarrow> nat \<Rightarrow> (event_id \<times> nat) option" where
  "align_loop event sz log2 =
     (let log2 = log2 + 1 in
      if 64 \<le> log2 then None
      else
        (let rounded_range = push_bit log2 1; new_event = event AND NOT (rounded_range - 1) in
         if new_event + (rounded_range - 1) < event + ucast (sz - 1) then align_loop event sz log2
         else Some (new_event, log2)))"
  by auto
termination by (relation "measure (\<lambda>(e, s, k). 64 - k)") auto

declare align_loop.simps [simp del]

definition align_mask :: "event_id \<Rightarrow> u32 \<Rightarrow> (event_id \<times> nat) option" where
  "align_mask event sz = (if sz \<le> 1 then Some (event, 0) else align_loop event sz (32 - builtin_clz (sz - 1) - 1))"

subsection \<open>Aligned blocks\<close>

text \<open>The events from \<open>b\<close> on under a mask of \<open>k\<close> bits.\<close>

definition block_of :: "nat \<Rightarrow> u64 \<Rightarrow> u64" where
  "block_of k e = e AND NOT (mask k)"

lemma block_bits: "bit (block_of k e) i \<longleftrightarrow> k \<le> i \<and> bit e i"
  by (auto simp: block_of_def bit_simps dest: bit_imp_le_length)

lemma block_unat: "unat (block_of k e) = unat e - unat e mod 2 ^ k"
proof -
  have "unat (block_of k e) = push_bit k (drop_bit k (unat e))"
    by (rule bit_eqI) (auto simp: bit_unsigned_iff bit_push_bit_iff bit_drop_bit_eq block_bits)
  then show ?thesis by (simp add: push_bit_eq_mult drop_bit_eq_div minus_mod_eq_div_mult)
qed

lemma mask_unat: "k \<le> 64 \<Longrightarrow> unat (mask k :: u64) = 2 ^ k - 1"
proof -
  assume k: "k \<le> 64"
  have "unat (mask k :: u64) = mask k"
    by (rule bit_eqI) (use k in \<open>auto simp: bit_unsigned_iff bit_mask_iff\<close>)
  then show ?thesis by (simp add: mask_eq_exp_minus_1)
qed

lemma block_plus_mask: "block_of k e + mask k = e OR mask k"
proof -
  have "block_of k e AND mask k = 0" by (rule bit_word_eqI) (auto simp: block_bits bit_simps)
  then have "block_of k e + mask k = block_of k e OR mask k" by (rule disjunctive_add_eq_or)
  also have "\<dots> = e OR mask k" by (rule bit_word_eqI) (auto simp: block_bits bit_simps)
  finally show ?thesis .
qed

lemma shifted_mask: "k < 64 \<Longrightarrow> push_bit k 1 - 1 = (mask k :: u64)"
  by (simp add: mask_eq_exp_minus_1 push_bit_eq_mult)

text \<open>An id reads as \<open>k\<close> when its lowest \<open>k\<close> bits are equal and the next one differs.\<close>

definition reads_as :: "event_id \<Rightarrow> nat \<Rightarrow> bool" where
  "reads_as e k \<longleftrightarrow> 0 < k \<and> k < 64 \<and> (\<forall>i < k. bit e i = bit e 0) \<and> bit e k \<noteq> bit e 0"

lemma reads_as_exists: "e \<noteq> 0 \<Longrightarrow> e \<noteq> - 1 \<Longrightarrow> \<exists>k. reads_as e k"
proof -
  assume e: "e \<noteq> 0" "e \<noteq> - 1"
  have "\<exists>k < 64. bit e k \<noteq> bit e 0"
  proof (rule ccontr)
    assume "\<not> ?thesis"
    then have a: "bit e k = bit e 0" if "k < 64" for k using that by blast
    show False
    proof (cases "bit e 0")
      case True
      have "e = - 1" by (rule bit_word_eqI) (use a True in simp)
      then show ?thesis using e by simp
    next
      case False
      have "e = 0" by (rule bit_word_eqI) (use a False in simp)
      then show ?thesis using e by simp
    qed
  qed
  then obtain k where k: "k < 64 \<and> bit e k \<noteq> bit e 0" "\<forall>i. i < 64 \<and> bit e i \<noteq> bit e 0 \<longrightarrow> k \<le> i"
    using LeastI_ex [of "\<lambda>k. k < 64 \<and> bit e k \<noteq> bit e 0"] Least_le [of "\<lambda>k. k < 64 \<and> bit e k \<noteq> bit e 0"] by blast
  have "reads_as e k" unfolding reads_as_def
  proof (intro conjI)
    show "0 < k" using k(1) by (cases k) auto
    show "\<forall>i < k. bit e i = bit e 0" using k by (meson leD less_trans)
  qed (use k(1) in auto)
  then show ?thesis ..
qed

lemma reads_as_unique: "reads_as e k \<Longrightarrow> reads_as e j \<Longrightarrow> k = j"
  unfolding reads_as_def by (metis linorder_neqE_nat)

lemma range_loop_read:
  assumes "reads_as e k" "i \<le> k"
  shows "range_loop e (push_bit i 1) (push_bit i (e AND 1)) i = (push_bit k 1, k)"
  using assms(2)
proof (induction rule: inc_induct)
  case base
  have "bit (e AND push_bit k 1) k \<noteq> bit (push_bit k (e AND 1)) k"
  proof -
    have "bit e k \<noteq> bit e 0" "k < 64" using assms(1) unfolding reads_as_def by blast+
    then show ?thesis by (simp add: bit_simps bit_1_iff)
  qed
  then have "e AND push_bit k 1 \<noteq> push_bit k (e AND 1)" by metis
  then show ?case by (simp add: range_loop.simps)
next
  case (step n)
  have "e AND push_bit n 1 = push_bit n (e AND 1)"
  proof (rule bit_word_eqI)
    fix j
    assume "j < LENGTH(64)"
    have "bit e n = bit e 0" using step(2) assms(1) unfolding reads_as_def by blast
    then show "bit (e AND push_bit n 1) j = bit (push_bit n (e AND 1)) j"
      using \<open>j < LENGTH(64)\<close> by (auto simp: bit_simps bit_1_iff le_diff_conv2)
  qed
  moreover have "n < 64" using step(2) assms(1) by (simp add: reads_as_def)
  moreover have "range_loop e (push_bit 1 (push_bit n 1)) (push_bit 1 (push_bit n (e AND 1))) (Suc n) = (push_bit k 1, k)"
    using step(3) by (simp only: push_bit_push_bit plus_1_eq_Suc)
  ultimately show ?case by (subst range_loop.simps) (simp only: if_True simp_thms)
qed

lemma event_range_read: "reads_as e k \<Longrightarrow> event_range_to_bit_count e = (block_of k e, k)"
proof -
  assume r: "reads_as e k"
  then have "range_loop e 1 (e AND 1) 0 = (push_bit k 1, k)" using range_loop_read [OF r, of 0] by simp
  moreover have "push_bit k 1 - 1 = (mask k :: u64)" using r by (intro shifted_mask) (simp add: reads_as_def)
  ultimately show ?thesis by (simp only: event_range_to_bit_count_def block_of_def prod.case)
qed

lemma decode_read:
  assumes "reads_as e k"
  shows "DecodeRange e = (block_of k e, mask k)"
proof -
  have k: "0 < k" "k < 64" "bit e k \<noteq> bit e 0"
    using assms unfolding reads_as_def by blast+
  let ?h = "block_of (Suc k) e"
  have lo: "?h + push_bit k 1 = ?h OR push_bit k 1" "?h + mask k = ?h OR mask k"
    by (rule disjunctive_add; auto simp: block_bits bit_simps bit_1_iff)+
  have step: "?h + mask k + 1 = ?h + push_bit k 1"
    using shifted_mask [OF k(2)] by (metis add.assoc diff_add_cancel)
  have x: "(?h OR mask k) XOR (?h OR push_bit k 1) = mask (Suc k)"
    by (rule bit_word_eqI) (auto simp: block_bits bit_simps bit_1_iff)
  have d: "drop_bit 1 (mask (Suc k) :: u64) = mask k"
    by (rule bit_word_eqI) (use k(2) in \<open>auto simp: bit_simps\<close>)
  show ?thesis
  proof (cases "bit e 0")
    case True
    have t: "bit e i" if "i < k" for i using assms True that unfolding reads_as_def by blast
    have e: "e = ?h OR mask k"
    proof (rule bit_word_eqI)
      fix j
      assume "j < LENGTH(64)"
      then show "bit e j = bit (?h OR mask k) j"
        using k t True by (cases "j < k"; cases "j = k") (auto simp: block_bits bit_simps)
    qed
    have "e + 1 = ?h OR push_bit k 1" using e lo step by metis
    then have "e XOR (e + 1) = mask (Suc k)" using e x by metis
    moreover have "e AND 1 \<noteq> 0" using True by (simp add: and_one_eq bit_0 odd_iff_mod_2_eq_one)
    ultimately show ?thesis using d by (simp add: DecodeRange_def block_of_def Let_def)
  next
    case False
    have t: "\<not> bit e i" if "i < k" for i using assms False that unfolding reads_as_def by blast
    have e: "e = ?h OR push_bit k 1"
    proof (rule bit_word_eqI)
      fix j
      assume "j < LENGTH(64)"
      then show "bit e j = bit (?h OR push_bit k 1) j"
        using k t False by (cases "j < k"; cases "j = k") (auto simp: block_bits bit_simps bit_1_iff)
    qed
    have "e - 1 = ?h OR mask k" using e lo step by (metis add_diff_cancel_right')
    then have "e XOR (e - 1) = mask (Suc k)" using e x by (metis xor.commute)
    moreover have "e AND 1 = 0" using False by (simp add: and_one_eq bit_0 even_iff_mod_2_eq_zero)
    ultimately show ?thesis using d by (simp add: DecodeRange_def block_of_def Let_def)
  qed
qed

lemma all_events: "event_range_to_bit_count 0 = (0, 64)" "event_range_to_bit_count (- 1) = (0, 64)"
  by code_simp+

lemma half_of_all_events: "DecodeRange 0 = (0, mask 63)" "DecodeRange (- 1) = (push_bit 63 1, mask 63)"
  by code_simp+

text \<open>C24: The router and the event service read the same range from an event id: the same base and
  as many bits in the mask as the router counts. The one exception are the two ids that stand for all events,
  of which the event service takes only one half.\<close>

theorem range_readers_agree:
  "DecodeRange e = (case event_range_to_bit_count e of (b, k) \<Rightarrow>
     if k = 64 then (e AND push_bit 63 1, mask 63) else (b, mask k))"
proof (cases "e = 0 \<or> e = - 1")
  case True
  then show ?thesis using all_events half_of_all_events by auto
next
  case False
  then obtain k where k: "reads_as e k" using reads_as_exists by blast
  then have "k \<noteq> 64" by (simp add: reads_as_def)
  then show ?thesis using decode_read [OF k] event_range_read [OF k] by simp
qed

subsection \<open>Ranges of any size\<close>

lemma block_next: "block_of k b AND NOT (push_bit k 1) = block_of (Suc k) b"
  by (rule bit_word_eqI) (auto simp: block_bits bit_simps bit_1_iff)

lemma block_0: "block_of 0 b = b"
  by (simp add: block_of_def)

lemma shift_next: "push_bit 1 (push_bit k 1) = (push_bit (Suc k) 1 :: u64)"
  by (simp only: push_bit_push_bit plus_1_eq_Suc)

lemma shift_unat: "j < 64 \<Longrightarrow> unat (push_bit j 1 :: u64) = 2 ^ j"
proof -
  assume j: "j < 64"
  have "(push_bit j 1 :: u64) = of_nat (2 ^ j)" by (simp add: push_bit_eq_mult)
  moreover have "(2 :: nat) ^ j < 2 ^ 64" using j by (intro power_strict_increasing) simp_all
  ultimately show ?thesis by (simp only: unat_of_nat take_bit_nat_eq_self_iff) (simp add: take_bit_nat_eq_self)
qed

lemma encode_loop_step:
  "encode_loop (Suc fuel) (block_of k b) (push_bit k 1) stop =
     (if block_of k b + push_bit k 1 < stop then encode_loop fuel (block_of (Suc k) b) (push_bit (Suc k) 1) stop
      else Some (block_of k b, push_bit k 1))"
  by (simp only: encode_loop.simps block_next shift_next)

lemma encode_stuck: "0 < stop \<Longrightarrow> encode_loop fuel 0 0 stop = None"
  by (induction fuel) simp_all

lemma encode_loop_result:
  "encode_loop fuel (block_of k b) (push_bit k 1) stop = Some (x, sh) \<Longrightarrow> k < 64 \<Longrightarrow>
    \<exists>j < 64. x = block_of j b \<and> sh = push_bit j 1 \<and> \<not> block_of j b + push_bit j 1 < stop"
proof (induction fuel arbitrary: k)
  case (Suc fuel)
  show ?case
  proof (cases "block_of k b + push_bit k 1 < stop")
    case True
    then have r: "encode_loop fuel (block_of (Suc k) b) (push_bit (Suc k) 1) stop = Some (x, sh)"
      using Suc.prems(1) by (simp only: encode_loop_step if_True)
    show ?thesis
    proof (cases "k = 63")
      case k: True
      have "block_of (Suc 63) b = 0" by (rule bit_word_eqI) (simp add: block_bits)
      moreover have "push_bit (Suc 63) 1 = (0 :: u64)" by simp
      moreover have "0 < stop" using True by (metis le_less_trans word_zero_le)
      ultimately show ?thesis using r encode_stuck unfolding k by (metis option.distinct(1))
    next
      case False
      then show ?thesis using Suc.IH [OF r] Suc.prems(2) by simp
    qed
  next
    case False
    then show ?thesis using Suc.prems by (auto simp only: encode_loop_step if_False option.inject prod.inject)
  qed
qed simp

lemma encode_loop_returns:
  assumes "\<not> block_of j b + push_bit j 1 < stop"
  shows "k \<le> j \<Longrightarrow> j - k < fuel \<Longrightarrow> encode_loop fuel (block_of k b) (push_bit k 1) stop \<noteq> None"
proof (induction fuel arbitrary: k)
  case (Suc fuel)
  show ?case
  proof (cases "k = j")
    case True
    then show ?thesis using assms by simp
  next
    case False
    have "encode_loop fuel (block_of (Suc k) b) (push_bit (Suc k) 1) stop \<noteq> None"
      by (rule Suc.IH) (use Suc.prems False in arith)+
    then show ?thesis unfolding encode_loop_step by (simp only: option.distinct split: if_split) simp
  qed
qed simp

text \<open>Where the loop has stopped, the block reaches up to the end, but not always past it.\<close>

lemma stopped_reaches:
  assumes "\<not> block_of j b + push_bit j 1 < stop" "0 < stop" "j < 64"
  shows "unat stop \<le> unat (block_of j b) + 2 ^ j"
proof -
  have p: "unat (push_bit j 1 :: u64) = 2 ^ j"
    using assms(3) by (rule shift_unat)
  have "unat stop \<le> unat (block_of j b + push_bit j 1)"
    using assms(1) by (simp add: word_less_nat_alt)
  also have "\<dots> \<le> unat (block_of j b) + 2 ^ j"
    using p unat_word_ariths(1) [of "block_of j b" "push_bit j 1"] mod_less_eq_dividend by metis
  finally show ?thesis .
qed

lemma block_fits:
  assumes "k < 64"
  shows "unat (block_of k e) + 2 ^ k \<le> 2 ^ 64"
proof -
  let ?q = "(2 :: nat) ^ k"
  have "unat (block_of k e) = ?q * (unat e div ?q)" by (simp add: block_unat minus_mod_eq_mult_div)
  moreover have "unat e div ?q < 2 ^ (64 - k)"
  proof (rule less_mult_imp_div_less)
    have "unat e < 2 ^ 64" using unsigned_less [of e] by simp
    then show "unat e < 2 ^ (64 - k) * ?q" using assms by (simp flip: power_add)
  qed
  then have "?q * Suc (unat e div ?q) \<le> ?q * 2 ^ (64 - k)" by (intro mult_le_mono2) simp
  moreover have "?q * 2 ^ (64 - k) = 2 ^ 64" using assms by (simp flip: power_add)
  ultimately show ?thesis by (simp add: algebra_simps)
qed

text \<open>Reading an id covers the id itself and its neighbour.\<close>

lemma decode_pair:
  assumes "even (unat r)"
  shows "case DecodeRange r of (b, m) \<Rightarrow> unat b \<le> unat r \<and> unat r + 1 \<le> unat b + unat m \<and> unat b + unat m < 2 ^ 64"
proof (cases "r = 0")
  case True
  have "unat (mask 63 :: u64) = 2 ^ 63 - 1" by (rule mask_unat) simp
  then show ?thesis unfolding True half_of_all_events by simp
next
  case False
  moreover have "r \<noteq> - 1"
  proof
    assume "r = - 1"
    moreover have "(mask 64 :: u64) = - 1" by (rule bit_word_eqI) (simp add: bit_mask_iff)
    ultimately have "unat r = unat (mask 64 :: u64)" by simp
    then show False using assms mask_unat [of 64] by simp
  qed
  ultimately obtain k where k: "reads_as r k" using reads_as_exists by blast
  then have p: "0 < k" "k < 64" by (simp_all add: reads_as_def)
  let ?q = "(2 :: nat) ^ k"
  have q: "even ?q" "0 < ?q" using p by simp_all
  have "unat r mod ?q < ?q" by simp
  moreover have "even (unat r mod ?q)" using assms q(1) by (simp add: dvd_mod_iff)
  ultimately have m: "unat r mod ?q + 1 \<le> ?q - 1" using q by (metis One_nat_def Suc_lessI Suc_pred add.commute even_Suc less_Suc_eq_le plus_1_eq_Suc)
  have u: "unat (mask k :: u64) = ?q - 1" using p by (intro mask_unat) simp
  have "unat (block_of k r) + ?q \<le> 2 ^ 64" using block_fits p(2) by blast
  moreover have "unat r mod ?q \<le> unat r" by simp
  moreover have "unat (block_of k r) = unat r - unat r mod ?q" by (rule block_unat)
  ultimately show ?thesis unfolding decode_read [OF k] prod.case u using m q(2) by linarith
qed

lemma block_decoded:
  assumes "0 < j" "j < 64" "r = (if bit b j then block_of j b else block_of j b OR mask j)"
  shows "DecodeRange r = (block_of j b, mask j)"
proof -
  have bits: "bit r i = (if i < j then \<not> bit b j else bit b i)" if "i < 64" for i
    using assms(2) that by (auto simp: assms(3) block_bits bit_simps)
  have "reads_as r j" using assms(1,2) bits unfolding reads_as_def by auto
  moreover have "block_of j r = block_of j b"
    by (rule bit_word_eqI) (use bits in \<open>auto simp: block_bits\<close>)
  ultimately show ?thesis using decode_read by metis
qed

lemma encoded_covers:
  assumes "even (unat start)" "odd (unat stop)" "j < 64" "\<not> block_of j start + push_bit j 1 < stop"
    "r = (if block_of j start AND push_bit j 1 \<noteq> 0 then block_of j start else block_of j start OR (push_bit j 1 - 1))"
  shows "case DecodeRange r of (b, m) \<Rightarrow> unat b \<le> unat start \<and> unat stop \<le> unat b + unat m \<and> unat b + unat m < 2 ^ 64"
proof -
  have p: "0 < stop" using assms(2) by (metis even_zero unat_0 word_gt_0)
  have s: "unat stop \<le> unat (block_of j start) + 2 ^ j" using stopped_reaches [OF assms(4) p assms(3)] .
  have bj: "block_of j start AND push_bit j 1 \<noteq> 0 \<longleftrightarrow> bit start j"
  proof -
    have "bit (block_of j start AND push_bit j 1) i \<longleftrightarrow> i = j \<and> bit start j" for i
      using assms(3) by (auto simp: block_bits bit_simps bit_1_iff)
    then show ?thesis by (metis bit_eqI bit_0_eq bot_apply bot_bool_def)
  qed
  show ?thesis
  proof (cases "j = 0")
    case True
    have "r = start" using assms(5) True by (simp add: block_0)
    moreover have "unat stop \<le> unat start + 1" using s True by (simp add: block_0)
    ultimately show ?thesis using decode_pair [OF assms(1)] by (auto split: prod.splits)
  next
    case False
    then have d: "DecodeRange r = (block_of j start, mask j)"
    proof (intro block_decoded)
      show "r = (if bit start j then block_of j start else block_of j start OR mask j)"
        using assms(5) by (simp only: bj shifted_mask [OF assms(3)])
    qed (use assms(3) False in simp_all)
    have "even (unat (block_of j start) + 2 ^ j)"
      using assms(1) False by (simp add: block_unat dvd_diff_nat dvd_mod_iff)
    then have "unat stop \<noteq> unat (block_of j start) + 2 ^ j" using assms(2) by metis
    moreover have "unat (mask j :: u64) = 2 ^ j - 1" using assms(3) by (intro mask_unat) simp
    moreover have "unat (block_of j start) \<le> unat start" by (simp add: block_unat)
    moreover have "unat (block_of j start) + 2 ^ j \<le> 2 ^ 64" using block_fits assms(3) by blast
    moreover have "0 < (2 :: nat) ^ j" by simp
    ultimately show ?thesis using s unfolding d prod.case by linarith
  qed
qed

lemma even_unat: "even (unat (w :: 'a::len word)) \<longleftrightarrow> even w"
proof -
  have "bit (unat w) 0 \<longleftrightarrow> possible_bit TYPE(nat) 0 \<and> bit w 0" by (rule bit_unsigned_iff)
  then show ?thesis by (simp add: bit_0)
qed

lemma unat_ucast_u64: "unat (ucast (sz :: u32) :: u64) = unat sz"
  by (simp add: unsigned_ucast_eq take_bit_nat_eq_self unsigned_less [of sz, THEN order.strict_trans2])

lemma encode_result:
  assumes "even (unat start)" "even (unat sz)" "EncodeRange fuel start sz = Some r"
  shows "case DecodeRange r of (b, m) \<Rightarrow> unat b \<le> unat start \<and> unat (start + ucast sz - 1) \<le> unat b + unat m \<and>
    unat b + unat m < 2 ^ 64"
proof -
  let ?stop = "start + ucast sz - 1 :: u64"
  have "even (unat (ucast sz :: u64))" using assms(2) by (simp only: unat_ucast_u64)
  then have "even start" "even (ucast sz :: u64)" using assms(1) by (simp_all only: even_unat)
  then have "odd ?stop" by simp
  then have o: "odd (unat ?stop)" by (simp only: even_unat not_False_eq_True)
  obtain x sh where l: "encode_loop fuel (block_of 0 start) (push_bit 0 1) ?stop = Some (x, sh)"
    "r = (if x AND sh \<noteq> 0 then x else x OR (sh - 1))"
    using assms(3) by (auto simp: EncodeRange_def block_0 split: bind_splits)
  have "\<exists>j < 64. x = block_of j start \<and> sh = push_bit j 1 \<and> \<not> block_of j start + push_bit j 1 < ?stop"
    using l(1) by (rule encode_loop_result) simp
  then obtain j where j: "j < 64" "x = block_of j start" "sh = push_bit j 1" "\<not> block_of j start + push_bit j 1 < ?stop"
    by blast
  show ?thesis by (rule encoded_covers [OF assms(1) o j(1,4) l(2) [unfolded j(2,3)]])
qed

lemma range_stop:
  assumes "0 < unat sz" "unat start + unat sz \<le> 2 ^ 64"
  shows "unat (start + ucast (sz :: u32) - 1 :: u64) = unat start + unat sz - 1"
proof -
  have "unat (ucast sz :: u64) = unat sz" by (rule unat_ucast_u64)
  then have o: "unat (ucast sz - 1 :: u64) = unat sz - 1" using assms(1) by (subst unat_minus_one) (auto simp flip: unat_eq_0)
  have "unat start + (unat sz - 1) < 2 ^ 64" using assms by simp
  then have "unat (start + (ucast sz - 1)) = unat start + (unat sz - 1)" by (simp only: unat_word_ariths o) simp
  then have "unat (start + (ucast sz - 1)) = unat start + unat sz - 1" using assms(1) by linarith
  then show ?thesis unfolding add_diff_eq .
qed

lemma encoded_covers_all:
  assumes "even (unat start)" "even (unat sz)" "unat start + unat sz \<le> 2 ^ 64" "EncodeRange fuel start sz = Some r"
    "unat start \<le> unat e" "unat e < unat start + unat sz"
  shows "case DecodeRange r of (b, m) \<Rightarrow> b \<le> e \<and> e \<le> b + m"
proof -
  have stop: "unat (start + ucast sz - 1) = unat start + unat sz - 1" using assms(3,5,6) by (intro range_stop) simp_all
  obtain b m where d: "DecodeRange r = (b, m)" by fastforce
  have i: "unat b \<le> unat start" "unat (start + ucast sz - 1) \<le> unat b + unat m" "unat b + unat m < 2 ^ 64"
    using encode_result [OF assms(1,2,4)] d by simp_all
  then have "unat (b + m) = unat b + unat m" by (simp add: unat_word_ariths)
  then have "b \<le> e \<and> e \<le> b + m" using i assms(5,6) stop by (simp add: word_le_nat_alt)
  then show ?thesis using d by simp
qed

text \<open>When the loop ends.\<close>

lemma encode_stops:
  "EncodeRange 64 start sz \<noteq> None \<longleftrightarrow> (\<exists>j < 64. \<not> block_of j start + push_bit j 1 < start + ucast sz - 1)"
  "EncodeRange fuel start sz \<noteq> None \<Longrightarrow> EncodeRange 64 start sz \<noteq> None"
proof -
  let ?stop = "start + ucast sz - 1 :: u64"
  have e: "EncodeRange f start sz \<noteq> None \<longleftrightarrow> encode_loop f (block_of 0 start) (push_bit 0 1) ?stop \<noteq> None" for f
    by (simp add: EncodeRange_def block_0 split: bind_splits)
  have 1: "\<exists>j < 64. \<not> block_of j start + push_bit j 1 < ?stop" if n: "EncodeRange f start sz \<noteq> None" for f
  proof -
    obtain x sh where "encode_loop f (block_of 0 start) (push_bit 0 1) ?stop = Some (x, sh)" using n e by force
    from encode_loop_result [OF this] show ?thesis by auto
  qed
  have 2: "EncodeRange 64 start sz \<noteq> None" if j: "j < 64" "\<not> block_of j start + push_bit j 1 < ?stop" for j
    unfolding e by (rule encode_loop_returns [OF j(2)]) (use j(1) in simp_all)
  show "EncodeRange 64 start sz \<noteq> None \<longleftrightarrow> (\<exists>j < 64. \<not> block_of j start + push_bit j 1 < ?stop)"
    using 1 2 by blast
  show "EncodeRange fuel start sz \<noteq> None \<Longrightarrow> EncodeRange 64 start sz \<noteq> None" using 1 2 by blast
qed

definition inner_block :: "nat \<Rightarrow> u64 \<Rightarrow> u32 \<Rightarrow> bool" where
  "inner_block j start sz \<longleftrightarrow> unat start + unat sz \<le> unat (block_of j start) + 2 ^ j \<and> unat (block_of j start) + 2 ^ j < 2 ^ 64"

lemma stops_where:
  assumes "even (unat start)" "even (unat sz)" "0 < unat sz" "unat start + unat sz \<le> 2 ^ 64" "j < 64"
  shows "\<not> block_of j start + push_bit j 1 < start + ucast sz - 1 \<longleftrightarrow> (if j = 0 then unat sz = 2 else inner_block j start sz)"
proof -
  let ?stop = "start + ucast sz - 1 :: u64" and ?n = "unat (block_of j start) + 2 ^ j"
  have stop: "unat ?stop = unat start + unat sz - 1" using range_stop assms(3,4) by blast
  have sh: "unat (push_bit j 1 :: u64) = 2 ^ j" using assms(5) by (rule shift_unat)
  have sum: "unat (block_of j start + push_bit j 1) = ?n mod 2 ^ 64" by (simp only: unat_word_ariths sh) simp
  have n: "?n \<le> 2 ^ 64" using block_fits assms(5) by blast
  have o: "odd (unat start + unat sz - 1)" using assms(1-3) by presburger
  show ?thesis
  proof (cases "j = 0")
    case True
    have "unat start < 18446744073709551616" using unsigned_less [of start] by simp
    then have "unat start + 1 < 18446744073709551616" using assms(1) by presburger
    moreover have "2 \<le> unat sz" using assms(2,3) by presburger
    ultimately show ?thesis using True sum stop by (auto simp: word_less_nat_alt block_0)
  next
    case False
    then have e: "even ?n" using assms(1) by (simp add: block_unat dvd_diff_nat dvd_mod_iff)
    show ?thesis
    proof (cases "?n = 2 ^ 64")
      case True
      then show ?thesis using False sum stop odd_pos [OF o] by (simp add: word_less_nat_alt inner_block_def)
    next
      case no: False
      then have "unat (block_of j start + push_bit j 1) = ?n" using sum n by simp
      moreover have "?n \<noteq> unat start + unat sz - 1" using e o by metis
      ultimately show ?thesis using False no n stop assms(3) by (auto simp: word_less_nat_alt inner_block_def)
    qed
  qed
qed

text \<open>C27: The id that is made for a range of events with even start and even length is read by the
  other nodes as a range that covers all of them. An id is made exactly when there are only two events or they lie in an aligned
  block of a power of two that does not end at the top of the event space; otherwise the loop never ends.\<close>

theorem encoded_range_covers:
  assumes "even (unat start)" "even (unat sz)" "0 < unat sz" "unat start + unat sz \<le> 2 ^ 64"
  shows "case EncodeRange 64 start sz of
     Some r \<Rightarrow> (unat sz = 2 \<or> (\<exists>j < 64. inner_block j start sz)) \<and>
       (\<forall>e. unat start \<le> unat e \<and> unat e < unat start + unat sz \<longrightarrow> (case DecodeRange r of (b, m) \<Rightarrow> b \<le> e \<and> e \<le> b + m))
   | None \<Rightarrow> unat sz \<noteq> 2 \<and> (\<forall>j < 64. \<not> inner_block j start sz) \<and> (\<forall>fuel. EncodeRange fuel start sz = None)"
proof -
  have z: "\<not> inner_block 0 start sz \<or> unat sz = 2" using assms(2,3) by (simp add: inner_block_def block_0) presburger
  have "EncodeRange 64 start sz \<noteq> None \<longleftrightarrow> (\<exists>j < 64. if j = 0 then unat sz = 2 else inner_block j start sz)"
    unfolding encode_stops(1) using stops_where [OF assms] by blast
  also have "\<dots> \<longleftrightarrow> unat sz = 2 \<or> (\<exists>j < 64. inner_block j start sz)" using z by (metis zero_less_numeral)
  finally have i: "EncodeRange 64 start sz \<noteq> None \<longleftrightarrow> unat sz = 2 \<or> (\<exists>j < 64. inner_block j start sz)" .
  show ?thesis
  proof (cases "EncodeRange 64 start sz")
    case None
    then have "\<forall>fuel. EncodeRange fuel start sz = None" using encode_stops(2) by metis
    then show ?thesis using None i by simp
  next
    case (Some r)
    then have "\<forall>e. unat start \<le> unat e \<and> unat e < unat start + unat sz \<longrightarrow>
        (case DecodeRange r of (b, m) \<Rightarrow> b \<le> e \<and> e \<le> b + m)"
      by (intro allI impI, elim conjE) (rule encoded_covers_all [OF assms(1,2,4) Some])
    then show ?thesis using Some i by simp
  qed
qed

theorem encoded_range_covers_witness:
  "(\<exists>r. EncodeRange 64 0xC501010118000004 6 = Some r \<and>
     (case DecodeRange r of (b, m) \<Rightarrow> b \<le> 0xC501010118000009 \<and> 0xC501010118000009 \<le> b + m)) \<and>
   EncodeRange 1000 0xFFFFFFFFFFFFFF00 256 = None"
proof -
  have "inner_block 4 0xC501010118000004 6" by (simp add: inner_block_def block_unat)
  then have "EncodeRange 64 0xC501010118000004 6 \<noteq> None"
    using encoded_range_covers [of "0xC501010118000004" 6] by (auto split: option.splits)
  moreover have "list_all (\<lambda>j. \<not> inner_block j 0xFFFFFFFFFFFFFF00 256) [0..<64]"
    by (simp add: inner_block_def block_unat upt_rec)
  then have "\<forall>j < 64. \<not> inner_block j 0xFFFFFFFFFFFFFF00 256" by (simp add: list_all_iff)
  then have "EncodeRange 1000 0xFFFFFFFFFFFFFF00 256 = None"
    using encoded_range_covers [of "0xFFFFFFFFFFFFFF00" 256] by (auto split: option.splits)
  ultimately show ?thesis using encoded_range_covers [of "0xC501010118000004" 6] by (auto split: option.splits)
qed

text \<open>With an odd number of events the last one can be left out, and at the end of the event
  space the loop never ends.\<close>

lemma odd_range_misses: "EncodeRange 64 0 3 = Some 1 \<and> DecodeRange 1 = (0, 1)"
  by code_simp

lemma encode_never_returns: "EncodeRange fuel 0xFFFFFFFFFFFFFF00 256 = None"
proof -
  let ?b = "0xFFFFFFFFFFFFFF00 :: u64" and ?s = "0xFFFFFFFFFFFFFFFF :: u64"
  have all: "list_all (\<lambda>j. block_of j ?b + push_bit j 1 < ?s) [0..<64]" by code_simp
  have "encode_loop fuel (block_of 0 ?b) (push_bit 0 1) ?s = None"
  proof (rule ccontr)
    assume "\<not> ?thesis"
    then obtain x sh where "encode_loop fuel (block_of 0 ?b) (push_bit 0 1) ?s = Some (x, sh)" by auto
    then have "\<exists>j < 64. x = block_of j ?b \<and> sh = push_bit j 1 \<and> \<not> block_of j ?b + push_bit j 1 < ?s"
      by (rule encode_loop_result) simp
    then obtain j where j: "j < 64" "\<not> block_of j ?b + push_bit j 1 < ?s" by blast
    have "j \<in> set [0..<64]" using j(1) by (simp only: set_upt atLeastLessThan_iff) simp
    then show False using all j(2) unfolding list_all_iff by blast
  qed
  then show ?thesis by (simp add: EncodeRange_def block_0)
qed

subsection \<open>Aligned ranges for the registry\<close>

definition block_covers :: "nat \<Rightarrow> event_id \<Rightarrow> u32 \<Rightarrow> bool" where
  "block_covers k event sz \<longleftrightarrow> unat event + unat sz \<le> unat (block_of k event) + 2 ^ k"

lemma align_test:
  assumes "unat event + unat sz \<le> 2 ^ 64" "0 < sz" "k < 64"
  shows "block_of k event + mask k < event + ucast (sz - 1) \<longleftrightarrow> \<not> block_covers k event sz"
proof -
  have f: "unat (block_of k event) + 2 ^ k \<le> 2 ^ 64" "0 < (2 :: nat) ^ k" using block_fits [OF assms(3)] by simp_all
  have "unat (mask k :: u64) = 2 ^ k - 1" using assms(3) by (intro mask_unat) simp
  then have l: "unat (block_of k event + mask k) = unat (block_of k event) + 2 ^ k - 1"
    using f by (simp add: unat_word_ariths)
  have z: "0 < unat sz" using assms(2) by (simp add: unat_gt_0 word_gt_0)
  have s: "unat (ucast (sz - 1) :: u64) = unat sz - 1" using assms(2) by (simp only: unat_ucast_u64) (simp add: unat_minus_one word_gt_0)
  have r: "unat (event + ucast (sz - 1)) = unat event + unat sz - 1"
    using assms(1) z by (simp add: unat_word_ariths s)
  show ?thesis unfolding word_less_nat_alt l r block_covers_def using f(2) z by linarith
qed

lemma align_loop_step:
  assumes "unat event + unat sz \<le> 2 ^ 64" "0 < sz"
  shows "align_loop event sz l = (if 64 \<le> Suc l then None
    else if block_covers (Suc l) event sz then Some (block_of (Suc l) event, Suc l) else align_loop event sz (Suc l))"
proof (cases "64 \<le> Suc l")
  case True
  then show ?thesis by (subst align_loop.simps) simp
next
  case False
  then have k: "Suc l < 64" by simp
  have "event AND NOT (push_bit (Suc l) 1 - 1) = block_of (Suc l) event"
    by (simp only: shifted_mask [OF k] block_of_def)
  then show ?thesis
    using align_test [OF assms k]
    by (subst align_loop.simps) (simp only: Let_def Suc_eq_plus1 [symmetric] shifted_mask [OF k] not_le if_not_P k if_P refl split: if_split, simp)
qed

lemma align_loop_result:
  assumes "unat event + unat sz \<le> 2 ^ 64" "0 < sz"
  shows "case align_loop event sz l of None \<Rightarrow> \<forall>k. l < k \<longrightarrow> k < 64 \<longrightarrow> \<not> block_covers k event sz
    | Some (b, k) \<Rightarrow> l < k \<and> k < 64 \<and> b = block_of k event \<and> block_covers k event sz \<and>
        (\<forall>j. l < j \<longrightarrow> j < k \<longrightarrow> \<not> block_covers j event sz)"
proof (induction "64 - l" arbitrary: l)
  case 0
  then show ?case using align_loop_step [OF assms, of l] by auto
next
  case (Suc n)
  note step = align_loop_step [OF assms, of l]
  consider "64 \<le> Suc l" | "Suc l < 64" "block_covers (Suc l) event sz" | "Suc l < 64" "\<not> block_covers (Suc l) event sz"
    by linarith
  then show ?case
  proof cases
    case 3
    then have IH: "case align_loop event sz (Suc l) of None \<Rightarrow> \<forall>k. Suc l < k \<longrightarrow> k < 64 \<longrightarrow> \<not> block_covers k event sz
      | Some (b, k) \<Rightarrow> Suc l < k \<and> k < 64 \<and> b = block_of k event \<and> block_covers k event sz \<and>
          (\<forall>j. Suc l < j \<longrightarrow> j < k \<longrightarrow> \<not> block_covers j event sz)"
      using Suc(1) [of "Suc l"] Suc(2) by simp
    have "align_loop event sz l = align_loop event sz (Suc l)" using step 3 by simp
    moreover have "\<not> block_covers j event sz" if "l < j" "j \<noteq> Suc l \<longrightarrow> \<not> block_covers j event sz" for j
      using that 3(2) by metis
    moreover have "Suc l < j" if "l < j" "j \<noteq> Suc l" for j using that by simp
    ultimately show ?thesis using IH by (fastforce split: option.splits)
  qed (use step in auto)
qed

text \<open>C31: For every range of events the registry gets the smallest aligned block that covers it,
  unless the range crosses the middle of the event space: then the loop shifts by 64, which is undefined.\<close>

theorem align_mask_smallest:
  assumes "0 < sz" "unat event + unat sz \<le> 2 ^ 64"
  shows "case align_mask event sz of
      None \<Rightarrow> unat event < 2 ^ 63 \<and> 2 ^ 63 < unat event + unat sz
    | Some (b, k) \<Rightarrow> k < 64 \<and> b = block_of k event \<and> unat b \<le> unat event \<and> unat event + unat sz \<le> unat b + 2 ^ k \<and>
        (\<forall>j < k. unat (block_of j event) + 2 ^ j < unat event + unat sz)"
proof (cases "sz \<le> 1")
  case True
  then have "unat sz = 1" using assms(1) by (simp add: word_le_nat_alt word_less_nat_alt)
  then show ?thesis using True by (simp add: align_mask_def block_0)
next
  case False
  let ?n = "floorlog 2 (unat (sz - 1))" and ?l = "32 - builtin_clz (sz - 1) - 1"
  have s: "unat (sz - 1) = unat sz - 1" "1 < unat sz"
    using False assms(1) by (auto simp: unat_minus_one word_gt_0 word_le_nat_alt)
  have n: "2 ^ (?n - 1) \<le> unat sz - 1" "unat sz - 1 < 2 ^ ?n"
    using floorlog_bounds [of "unat (sz - 1)" 2] s by simp_all
  have "unat (sz - 1) < 2 ^ 32" using unsigned_less [of "sz - 1"] by simp
  then have "?n \<le> 32" by (intro floorlog_leI) simp_all
  then have l: "?l = ?n - 1" by (simp add: builtin_clz_def)
  have low: "\<not> block_covers j event sz" if "j \<le> ?l" for j
  proof -
    have "(2 :: nat) ^ j \<le> 2 ^ (?n - 1)" using that l by (intro power_increasing) simp_all
    then have "2 ^ j < unat sz" using n(1) s(2) by linarith
    moreover have "unat (block_of j event) \<le> unat event" by (simp add: block_unat)
    ultimately show ?thesis by (simp add: block_covers_def)
  qed
  note r = align_loop_result [OF assms(2,1), of ?l]
  have a: "align_mask event sz = align_loop event sz ?l" using False by (simp add: align_mask_def)
  show ?thesis
  proof (cases "align_loop event sz ?l")
    case None
    then have "\<not> block_covers 63 event sz" using r low [of 63] by (cases "?l < 63") auto
    then have c: "unat (block_of 63 event) + 2 ^ 63 < unat event + unat sz" by (simp add: block_covers_def)
    have "unat event < 2 ^ 63"
    proof (rule ccontr)
      assume "\<not> ?thesis"
      then have e: "2 ^ 63 \<le> unat event" by simp
      moreover have "unat event < 2 ^ 64" using unsigned_less [of event] by simp
      ultimately have "(unat event - 2 ^ 63) mod 2 ^ 63 = unat event - 2 ^ 63" by (intro mod_less) simp
      then have "unat event mod 2 ^ 63 = unat event - 2 ^ 63" using le_mod_geq [OF e] by simp
      then have "unat event - unat event mod 2 ^ 63 = 2 ^ 63" using e by linarith
      then show False using c assms(2) by (simp add: block_unat)
    qed
    then show ?thesis using c a None by (simp add: block_unat)
  next
    case (Some p)
    obtain b k where p: "p = (b, k)" by fastforce
    have k: "?l < k" "k < 64" "b = block_of k event" "block_covers k event sz" "\<forall>j. ?l < j \<longrightarrow> j < k \<longrightarrow> \<not> block_covers j event sz"
      using r Some p by simp_all
    have "\<not> block_covers j event sz" if "j < k" for j using low k(5) that by (cases "?l < j") auto
    moreover have "unat (block_of k event) \<le> unat event" by (simp add: block_unat)
    ultimately show ?thesis using a Some p k(2-4) by (simp add: block_covers_def not_le)
  qed
qed

theorem align_mask_smallest_witness:
  "case align_mask 0x0501010118000004 6 of None \<Rightarrow> False | Some (b, k) \<Rightarrow> k < 64 \<and> unat b + 2 ^ k \<ge> 0x050101011800000A"
proof -
  note w = align_mask_smallest [of 6 "0x0501010118000004"]
  show ?thesis
  proof (cases "align_mask 0x0501010118000004 6")
    case None
    then show ?thesis using w by simp
  next
    case (Some p)
    then show ?thesis using w by (cases p) simp
  qed
qed

end
