(* ===== verification/EventTree.thy ===== *)
theory EventTree
  imports EventRange OlcbDefs SortedListSet "HOL-Library.Multiset"
begin

section \<open>The registries of event handlers (openlcb/EventHandlerContainer.hxx, EventHandlerContainer.cpp)\<close>

text \<open>
  \<open>TreeEventHandlers\<close> keeps one sorted set of entries for each number of mask bits; an iteration
  over the handlers of a report takes a window of each set. \<open>VectorEventHandlers\<close> keeps a list and
  gives all of it. The ordered map is a list sorted by its keys. An iterator is a position in the map and two
  positions in the current set; leaving an array is \<open>None\<close>, as is a shift by more than 63. How the sort
  orders entries of one event is not specified, so what an iteration gives is stated as a multiset.
\<close>

record registry_entry =
  re_event :: event_id
  re_handler :: nat
  re_user_arg :: u32

record event_report =
  er_event :: event_id
  er_mask :: u64
  er_src :: node_handle
  er_dst :: "nat option"
  er_state :: event_state

type_synonym mask_map = "(u8 \<times> registry_entry sorted_list_set) list"

record event_tree =
  handlers :: mask_map
  dirtyCounter :: u32

text \<open>\<open>handlers_[k]\<close>, which makes an empty set where there is none.\<close>

fun at_mask :: "u8 \<Rightarrow> (registry_entry sorted_list_set \<Rightarrow> registry_entry sorted_list_set) \<Rightarrow> mask_map \<Rightarrow> mask_map" where
  "at_mask k f [] = [(k, f sls_new)]"
| "at_mask k f ((j, s) # hs) =
     (if k < j then (k, f sls_new) # (j, s) # hs
      else if k = j then (j, f s) # hs
      else (j, s) # at_mask k f hs)"

definition set_dirty :: "event_tree \<Rightarrow> event_tree" where
  "set_dirty t = t\<lparr>dirtyCounter := dirtyCounter t + 1\<rparr>"

definition tree_register :: "registry_entry \<Rightarrow> u32 \<Rightarrow> event_tree \<Rightarrow> event_tree" where
  "tree_register entry m t = (set_dirty t)\<lparr>handlers := at_mask (ucast m) (sls_insert entry) (handlers t)\<rparr>"

definition unregisters :: "nat \<Rightarrow> u32 \<Rightarrow> u32 \<Rightarrow> registry_entry \<Rightarrow> bool" where
  "unregisters h arg arg_mask e \<longleftrightarrow> re_handler e = h \<and> re_user_arg e AND arg_mask = arg AND arg_mask"

definition sls_remove_if :: "('d \<Rightarrow> 'k::linorder) \<Rightarrow> ('d \<Rightarrow> bool) \<Rightarrow> 'd sorted_list_set \<Rightarrow> 'd sorted_list_set" where
  "sls_remove_if key P s =
     (let t = fst (sls_begin key s); kept = filter (\<lambda>d. \<not> P d) (container t) in
      if length kept \<noteq> sls_end t then sls_lazy_init key (t\<lparr>container := kept\<rparr>) else t)"

definition tree_unregister :: "nat \<Rightarrow> u32 \<Rightarrow> u32 \<Rightarrow> event_tree \<Rightarrow> event_tree" where
  "tree_unregister h arg arg_mask t =
     (set_dirty t)\<lparr>handlers := map (\<lambda>(k, s). (k, sls_remove_if re_event (unregisters h arg arg_mask) s)) (handlers t)\<rparr>"

definition tree_reserve :: "event_tree \<Rightarrow> event_tree" where
  "tree_reserve t = t\<lparr>handlers := at_mask 0 id (handlers t)\<rparr>"

definition get_epoch :: "event_tree \<Rightarrow> u32" where
  "get_epoch t = dirtyCounter t"

subsection \<open>Iterating\<close>

record tree_iterator =
  it_mask :: nat
  it_pos :: nat
  it_end :: nat

definition clear_iteration :: "event_tree \<Rightarrow> tree_iterator \<Rightarrow> tree_iterator" where
  "clear_iteration t it = it\<lparr>it_mask := length (handlers t)\<rparr>"

definition iterator_new :: "event_tree \<Rightarrow> event_tree \<times> tree_iterator" where
  "iterator_new t = (let t = t\<lparr>handlers := at_mask 0 id (handlers t)\<rparr> in
     (t, clear_iteration t \<lparr>it_mask = 0, it_pos = 0, it_end = 0\<rparr>))"

definition window_start :: "event_report \<Rightarrow> u8 \<Rightarrow> event_id" where
  "window_start r k = er_event r AND NOT (push_bit (unat k) 1 - 1)"

definition setup_current_mask :: "event_report \<Rightarrow> event_tree \<Rightarrow> tree_iterator \<Rightarrow> (event_tree \<times> tree_iterator) option" where
  "setup_current_mask r t it = do {
     (k, s) \<leftarrow> array_get (handlers t) (it_mask it);
     if k = 64 then
       (let (s, b) = sls_begin re_event s in
        Some (t\<lparr>handlers := (handlers t)[it_mask it := (k, s)]\<rparr>, it\<lparr>it_pos := b, it_end := sls_end s\<rparr>))
     else do {
       hassert (unat k < 64);
       (let (s, lb) = sls_lower_bound re_event (window_start r k) s;
            (s, ub) = sls_upper_bound re_event (er_event r + er_mask r) s
        in Some (t\<lparr>handlers := (handlers t)[it_mask it := (k, s)]\<rparr>, it\<lparr>it_pos := lb, it_end := ub\<rparr>))
     }
   }"

definition init_iteration :: "event_report \<Rightarrow> event_tree \<Rightarrow> tree_iterator \<Rightarrow> (event_tree \<times> tree_iterator) option" where
  "init_iteration r t it = setup_current_mask r t (it\<lparr>it_mask := 0\<rparr>)"

lemma setup_keeps:
  "setup_current_mask r t it = Some (t', it') \<Longrightarrow> length (handlers t') = length (handlers t) \<and> it_mask it' = it_mask it"
  by (auto simp: setup_current_mask_def Let_def split: bind_splits prod.splits if_splits)

function next_handler :: "event_report \<Rightarrow> event_tree \<Rightarrow> tree_iterator \<Rightarrow>
    (event_tree \<times> tree_iterator \<times> registry_entry option) option" where
  "next_handler r t it =
     (if it_mask it < length (handlers t) then
        (if it_pos it = it_end it then
           (let it = it\<lparr>it_mask := it_mask it + 1\<rparr> in
            if it_mask it < length (handlers t) then do {
              (t, it) \<leftarrow> setup_current_mask r t it;
              next_handler r t it
            } else Some (t, it, None))
         else do {
           e \<leftarrow> array_get (container (snd (handlers t ! it_mask it))) (it_pos it);
           Some (t, it\<lparr>it_pos := it_pos it + 1\<rparr>, Some e)
         })
      else Some (t, it, None))"
  by auto
termination
  by (relation "measure (\<lambda>(r, t, it). length (handlers t) - it_mask it)") (auto dest: setup_keeps)

declare next_handler.simps [simp del]

subsection \<open>A list of handlers\<close>

record event_vector =
  handler_list :: "registry_entry list"
  vec_dirty :: u32

definition vector_register :: "registry_entry \<Rightarrow> u32 \<Rightarrow> event_vector \<Rightarrow> event_vector" where
  "vector_register entry m v = v\<lparr>handler_list := entry # handler_list v, vec_dirty := vec_dirty v + 1\<rparr>"

definition vector_unregister :: "nat \<Rightarrow> u32 \<Rightarrow> u32 \<Rightarrow> event_vector \<Rightarrow> event_vector" where
  "vector_unregister h arg arg_mask v =
     v\<lparr>handler_list := filter (\<lambda>e. \<not> unregisters h arg arg_mask e) (handler_list v), vec_dirty := vec_dirty v + 1\<rparr>"

definition full_init :: "event_report \<Rightarrow> event_vector \<Rightarrow> nat \<Rightarrow> (event_vector \<times> nat) option" where
  "full_init r v it = Some (v, 0)"

definition full_clear :: "event_vector \<Rightarrow> nat" where
  "full_clear v = length (handler_list v)"

definition full_next :: "event_report \<Rightarrow> event_vector \<Rightarrow> nat \<Rightarrow> (event_vector \<times> nat \<times> registry_entry option) option" where
  "full_next r v it =
     (if it = length (handler_list v) then Some (v, it, None)
      else do { e \<leftarrow> array_get (handler_list v) it; Some (v, it + 1, Some e) })"

end
