(* ===== verification/EventTreeSpec.thy ===== *)
theory EventTreeSpec
  imports EventTree
begin

section \<open>What an iteration over the event handlers gives\<close>

text \<open>
  The contract of an event registry with its iterator, and its two interpretations. \<open>wanted\<close> is what
  an iteration for a report has to give, \<open>rest\<close> what it still gives from a position on.
\<close>

locale event_registry =
  fixes ok :: "'s \<Rightarrow> bool" and epoch :: "'s \<Rightarrow> u32" and touched :: "'s \<Rightarrow> 's \<Rightarrow> bool"
    and wanted :: "event_report \<Rightarrow> 's \<Rightarrow> registry_entry multiset"
    and good :: "event_report \<Rightarrow> bool"
    and start :: "event_report \<Rightarrow> 's \<Rightarrow> 'i \<Rightarrow> ('s \<times> 'i) option"
    and step :: "event_report \<Rightarrow> 's \<Rightarrow> 'i \<Rightarrow> ('s \<times> 'i \<times> registry_entry option) option"
    and rest :: "event_report \<Rightarrow> 's \<Rightarrow> 'i \<Rightarrow> registry_entry list"
    and stands :: "event_report \<Rightarrow> 's \<Rightarrow> 'i \<Rightarrow> bool"
  assumes start_ok: "ok s \<Longrightarrow> good r \<Longrightarrow>
      \<exists>s' i'. start r s i = Some (s', i') \<and> touched s s' \<and> stands r s' i' \<and> mset (rest r s' i') = wanted r s"
    and step_ok: "ok s \<Longrightarrow> good r \<Longrightarrow> stands r s i \<Longrightarrow>
      \<exists>s' i'. step r s i = Some (s', i', case rest r s i of [] \<Rightarrow> None | e # _ \<Rightarrow> Some e) \<and> touched s s' \<and> stands r s' i' \<and>
        rest r s' i' = tl (rest r s i)"
    and touch_ok: "touched s s' \<Longrightarrow> ok s \<Longrightarrow> ok s' \<and> epoch s' = epoch s \<and> wanted r s' = wanted r s"
    and touch_keeps: "touched s s' \<Longrightarrow> ok s \<Longrightarrow> good r \<Longrightarrow> stands r s i \<Longrightarrow> stands r s' i \<and> rest r s' i = rest r s i"

subsection \<open>Sorted sets\<close>

definition set_ok :: "registry_entry sorted_list_set \<Rightarrow> bool" where
  "set_ok s \<longleftrightarrow> sortedCount s \<le> length (container s) \<and>
     (sortedCount s = length (container s) \<longrightarrow> sorted (map re_event (container s)))"

abbreviation lazy :: "registry_entry sorted_list_set \<Rightarrow> registry_entry sorted_list_set" where
  "lazy \<equiv> sls_lazy_init re_event"

lemma lazy_facts:
  assumes "set_ok s"
  shows "sorted (map re_event (container (lazy s)))" "sortedCount (lazy s) = length (container (lazy s))"
    "mset (container (lazy s)) = mset (container s)" "set_ok (lazy s)" "lazy (lazy s) = lazy s"
  using assms by (auto simp: set_ok_def sls_lazy_init_def)

text \<open>The window between two bounds of a sorted list.\<close>

lemma sorted_window:
  fixes key :: "'d \<Rightarrow> 'k::linorder"
  assumes "sorted (map key xs)" "lo \<le> hi"
  shows "take (length (takeWhile (\<lambda>d. \<not> hi < key d) xs) - length (takeWhile (\<lambda>d. key d < lo) xs))
      (drop (length (takeWhile (\<lambda>d. key d < lo) xs)) xs) = filter (\<lambda>d. lo \<le> key d \<and> key d \<le> hi) xs"
    "length (takeWhile (\<lambda>d. key d < lo) xs) \<le> length (takeWhile (\<lambda>d. \<not> hi < key d) xs)"
proof -
  have tw: "takeWhile (\<lambda>d. \<not> hi < key d) ys = filter (\<lambda>d. key d \<le> hi) ys" if "sorted (map key ys)" for ys
    using that by (induction ys) (auto simp: not_less intro!: filter_False [symmetric], use order_trans in blast)
  have dw: "dropWhile (\<lambda>d. key d < lo) ys = filter (\<lambda>d. lo \<le> key d) ys" if "sorted (map key ys)" for ys
    using that by (induction ys) (auto simp: not_less intro!: filter_True [symmetric])
  let ?a = "takeWhile (\<lambda>d. key d < lo) xs"
  have lt: "\<forall>d \<in> set ?a. \<not> hi < key d" using assms(2) by (auto dest: set_takeWhileD)
  have split: "takeWhile (\<lambda>d. \<not> hi < key d) xs = ?a @ takeWhile (\<lambda>d. \<not> hi < key d) (dropWhile (\<lambda>d. key d < lo) xs)"
    using takeWhile_append2 [of ?a "\<lambda>d. \<not> hi < key d" "dropWhile (\<lambda>d. key d < lo) xs"] lt by simp
  then show "length ?a \<le> length (takeWhile (\<lambda>d. \<not> hi < key d) xs)" by simp
  have d: "drop (length ?a) xs = dropWhile (\<lambda>d. key d < lo) xs" by (simp add: dropWhile_eq_drop)
  let ?t = "takeWhile (\<lambda>d. \<not> hi < key d) (dropWhile (\<lambda>d. key d < lo) xs)"
  have "length (takeWhile (\<lambda>d. \<not> hi < key d) xs) - length ?a = length ?t" using split by simp
  moreover have "take (length ?t) (dropWhile (\<lambda>d. key d < lo) xs) = ?t" by (metis takeWhile_eq_take)
  moreover have "sorted (map key (dropWhile (\<lambda>d. key d < lo) xs))"
    using assms(1) by (metis d drop_map sorted_wrt_drop)
  ultimately show "take (length (takeWhile (\<lambda>d. \<not> hi < key d) xs) - length ?a) (drop (length ?a) xs) =
      filter (\<lambda>d. lo \<le> key d \<and> key d \<le> hi) xs"
    using tw dw [OF assms(1)] d by (auto simp: conj_commute intro: filter_cong)
qed

subsection \<open>The tree keeps the contract\<close>

definition in_window :: "event_report \<Rightarrow> u8 \<Rightarrow> registry_entry \<Rightarrow> bool" where
  "in_window r k e \<longleftrightarrow> k = 64 \<or> window_start r k \<le> re_event e \<and> re_event e \<le> er_event r + er_mask r"

definition tree_match :: "event_report \<Rightarrow> u8 \<times> registry_entry sorted_list_set \<Rightarrow> registry_entry list" where
  "tree_match r = (\<lambda>(k, s). filter (in_window r k) (container (lazy s)))"

definition tree_ok :: "event_tree \<Rightarrow> bool" where
  "tree_ok t \<longleftrightarrow> handlers t \<noteq> [] \<and> (\<forall>(k, s) \<in> set (handlers t). k \<le> 64 \<and> set_ok s)"

definition good_report :: "event_report \<Rightarrow> bool" where
  "good_report r \<longleftrightarrow> er_event r \<le> er_event r + er_mask r"

abbreviation set_at :: "event_tree \<Rightarrow> nat \<Rightarrow> registry_entry sorted_list_set" where
  "set_at t i \<equiv> snd (handlers t ! i)"

definition tree_touched :: "event_tree \<Rightarrow> event_tree \<Rightarrow> bool" where
  "tree_touched t u \<longleftrightarrow> dirtyCounter u = dirtyCounter t \<and> length (handlers u) = length (handlers t) \<and>
     (\<forall>i < length (handlers t). fst (handlers u ! i) = fst (handlers t ! i) \<and>
        (set_at u i = set_at t i \<or> set_at u i = lazy (set_at t i)))"

definition tree_wanted :: "event_report \<Rightarrow> event_tree \<Rightarrow> registry_entry multiset" where
  "tree_wanted r t = mset (concat (map (tree_match r) (handlers t)))"

definition tree_stands :: "event_report \<Rightarrow> event_tree \<Rightarrow> tree_iterator \<Rightarrow> bool" where
  "tree_stands r t i \<longleftrightarrow> (it_mask i < length (handlers t) \<longrightarrow>
     lazy (set_at t (it_mask i)) = set_at t (it_mask i) \<and> it_pos i \<le> it_end i \<and>
     it_end i \<le> length (container (set_at t (it_mask i))))"

definition tree_rest :: "event_report \<Rightarrow> event_tree \<Rightarrow> tree_iterator \<Rightarrow> registry_entry list" where
  "tree_rest r t i = (if it_mask i < length (handlers t)
     then take (it_end i - it_pos i) (drop (it_pos i) (container (set_at t (it_mask i)))) @
       concat (map (tree_match r) (drop (Suc (it_mask i)) (handlers t)))
     else [])"

lemma set_at_ok: "tree_ok t \<Longrightarrow> i < length (handlers t) \<Longrightarrow> set_ok (set_at t i) \<and> fst (handlers t ! i) \<le> 64"
  by (auto simp: tree_ok_def case_prod_unfold)

lemma touched_refl: "tree_touched t t"
  by (simp add: tree_touched_def)

lemma touched_trans:
  assumes "tree_ok t" "tree_touched t u" "tree_touched u v"
  shows "tree_touched t v"
proof -
  have "set_at v i = set_at t i \<or> set_at v i = lazy (set_at t i)" if "i < length (handlers t)" for i
    using assms(2,3) that lazy_facts(5) set_at_ok [OF assms(1) that] unfolding tree_touched_def by metis
  then show ?thesis using assms(2,3) by (simp add: tree_touched_def)
qed

lemma touched_match:
  assumes "tree_ok t" "tree_touched t u"
  shows "map (tree_match r) (handlers u) = map (tree_match r) (handlers t)"
proof (rule nth_equalityI)
  show "length (map (tree_match r) (handlers u)) = length (map (tree_match r) (handlers t))"
    using assms(2) by (simp add: tree_touched_def)
  fix i
  assume "i < length (map (tree_match r) (handlers u))"
  then have i: "i < length (handlers t)" "i < length (handlers u)"
    using assms(2) by (simp_all add: tree_touched_def)
  have "fst (handlers u ! i) = fst (handlers t ! i)" "lazy (set_at u i) = lazy (set_at t i)"
    using assms(2) i lazy_facts(5) set_at_ok [OF assms(1) i(1)] unfolding tree_touched_def by metis+
  then show "map (tree_match r) (handlers u) ! i = map (tree_match r) (handlers t) ! i"
    using i by (simp add: tree_match_def case_prod_unfold)
qed

lemma touched_ok:
  assumes "tree_ok t" "tree_touched t u"
  shows "tree_ok u" "get_epoch u = get_epoch t" "tree_wanted r u = tree_wanted r t"
proof -
  have l: "length (handlers u) = length (handlers t)" using assms(2) by (simp add: tree_touched_def)
  have "set_ok (set_at u i) \<and> fst (handlers u ! i) \<le> 64" if "i < length (handlers t)" for i
    using set_at_ok [OF assms(1) that] assms(2) that lazy_facts(4) unfolding tree_touched_def by metis
  moreover have "handlers u \<noteq> []" using l assms(1) by (auto simp: tree_ok_def)
  ultimately show "tree_ok u" using l by (simp add: tree_ok_def all_set_conv_all_nth case_prod_unfold)
  show "get_epoch u = get_epoch t" using assms(2) by (simp add: tree_touched_def get_epoch_def)
  show "tree_wanted r u = tree_wanted r t" using touched_match [OF assms] by (simp add: tree_wanted_def)
qed

lemma touched_keeps:
  assumes "tree_touched t u" "tree_ok t" "tree_stands r t i"
  shows "tree_stands r u i" "tree_rest r u i = tree_rest r t i"
proof -
  have l: "length (handlers u) = length (handlers t)" using assms(1) by (simp add: tree_touched_def)
  have s: "set_at u (it_mask i) = set_at t (it_mask i)" if "it_mask i < length (handlers t)"
    using assms(1,3) that by (auto simp: tree_touched_def tree_stands_def)
  then show "tree_stands r u i" using assms(3) l by (simp add: tree_stands_def)
  show "tree_rest r u i = tree_rest r t i"
    using s l touched_match [OF assms(2,1), of r] by (simp add: tree_rest_def drop_map [symmetric])
qed

text \<open>Replacing one set by its sorted version.\<close>

lemma sort_one_touched:
  assumes "i < length (handlers t)" "handlers t ! i = (k, s)"
  shows "tree_touched t (t\<lparr>handlers := (handlers t)[i := (k, lazy s)]\<rparr>)"
  using assms by (auto simp: tree_touched_def nth_list_update)

lemma window_bounds: "good_report r \<Longrightarrow> window_start r k \<le> er_event r + er_mask r"
  unfolding good_report_def window_start_def by (rule order.trans [OF word_and_le2])

lemma setup_window:
  assumes "tree_ok t" "good_report r" "it_mask i < length (handlers t)"
  shows "\<exists>u j. setup_current_mask r t i = Some (u, j) \<and> tree_touched t u \<and> tree_stands r u j \<and> it_mask j = it_mask i \<and>
    tree_rest r u j = concat (map (tree_match r) (drop (it_mask i) (handlers t)))"
proof -
  let ?n = "it_mask i"
  obtain k s where ks: "handlers t ! ?n = (k, s)" by fastforce
  have ok: "set_ok s" "k \<le> 64" using set_at_ok [OF assms(1,3)] ks by simp_all
  note lz = lazy_facts [OF ok(1)]
  let ?u = "t\<lparr>handlers := (handlers t)[?n := (k, lazy s)]\<rparr>"
  have u: "tree_touched t ?u" using sort_one_touched [OF assms(3) ks] .
  have d: "drop ?n (handlers t) = (k, s) # drop (Suc ?n) (handlers t)" using ks assms(3) by (metis Cons_nth_drop_Suc)
  have rest: "tree_stands r ?u j \<and> tree_rest r ?u j = concat (map (tree_match r) (drop ?n (handlers t)))"
    if j: "it_mask j = ?n" "it_pos j \<le> it_end j" "it_end j \<le> length (container (lazy s))"
      "take (it_end j - it_pos j) (drop (it_pos j) (container (lazy s))) = filter (in_window r k) (container (lazy s))" for j
    using j assms(3) lz(5) d by (simp add: tree_stands_def tree_rest_def tree_match_def)
  show ?thesis
  proof (cases "k = 64")
    case True
    let ?j = "i\<lparr>it_pos := 0, it_end := length (container (lazy s))\<rparr>"
    have "setup_current_mask r t i = Some (?u, ?j)"
      using ks assms(3) True lz(2) by (simp add: setup_current_mask_def sls_begin_def sls_end_def array_get_in)
    moreover have "filter (in_window r k) (container (lazy s)) = container (lazy s)" using True by (simp add: in_window_def)
    ultimately show ?thesis using u rest [of ?j] by simp
  next
    case False
    let ?lb = "length (takeWhile (\<lambda>d. re_event d < window_start r k) (container (lazy s)))"
    let ?ub = "length (takeWhile (\<lambda>d. \<not> er_event r + er_mask r < re_event d) (container (lazy s)))"
    let ?j = "i\<lparr>it_pos := ?lb, it_end := ?ub\<rparr>"
    have "k < 64" using False ok(2) by simp
    then have "unat k < 64" by (simp add: word_less_nat_alt)
    then have "setup_current_mask r t i = Some (?u, ?j)"
      using ks assms(3) False lz(5)
      by (simp add: setup_current_mask_def sls_lower_bound_def sls_upper_bound_def Let_def array_get_in)
    moreover have "?ub \<le> length (container (lazy s))" by (rule length_takeWhile_le)
    moreover have "filter (\<lambda>d. window_start r k \<le> re_event d \<and> re_event d \<le> er_event r + er_mask r) (container (lazy s)) =
        filter (in_window r k) (container (lazy s))"
      by (rule filter_cong) (use False in \<open>simp_all add: in_window_def\<close>)
    ultimately show ?thesis
      using u rest [of ?j] sorted_window [OF lz(1) window_bounds [OF assms(2)]] by simp
  qed
qed

lemma init_ok:
  assumes "tree_ok t" "good_report r"
  shows "\<exists>u j. init_iteration r t i = Some (u, j) \<and> tree_touched t u \<and> tree_stands r u j \<and> mset (tree_rest r u j) = tree_wanted r t"
  using setup_window [OF assms, of "i\<lparr>it_mask := 0\<rparr>"] assms(1)
  by (auto simp: init_iteration_def tree_wanted_def tree_ok_def)

lemma next_ok:
  assumes "tree_ok t" "good_report r" "tree_stands r t i"
  shows "\<exists>u j. next_handler r t i = Some (u, j, case tree_rest r t i of [] \<Rightarrow> None | e # _ \<Rightarrow> Some e) \<and> tree_touched t u \<and>
    tree_stands r u j \<and> tree_rest r u j = tl (tree_rest r t i)"
  using assms
proof (induction r t i rule: next_handler.induct)
  case (1 r t i)
  let ?n = "it_mask i" and ?c = "container (set_at t (it_mask i))"
  show ?case
  proof (cases "?n < length (handlers t)")
    case False
    then show ?thesis using 1(4) touched_refl [of t] by (simp add: next_handler.simps tree_rest_def)
  next
    case n: True
    have st: "it_pos i \<le> it_end i" "it_end i \<le> length ?c" using 1(4) n by (simp_all add: tree_stands_def)
    show ?thesis
    proof (cases "it_pos i = it_end i")
      case False
      then have p: "it_pos i < length ?c" "it_pos i < it_end i" using st by simp_all
      have "take (it_end i - it_pos i) (drop (it_pos i) ?c) =
          ?c ! it_pos i # take (it_end i - Suc (it_pos i)) (drop (Suc (it_pos i)) ?c)"
        using p by (simp add: Cons_nth_drop_Suc [symmetric] take_Cons' Suc_diff_Suc [symmetric])
      then have "tree_rest r t i = ?c ! it_pos i # tree_rest r t (i\<lparr>it_pos := it_pos i + 1\<rparr>)"
        using n by (simp add: tree_rest_def)
      moreover have "tree_stands r t (i\<lparr>it_pos := it_pos i + 1\<rparr>)" using 1(4) n p by (simp add: tree_stands_def)
      moreover have "next_handler r t i = Some (t, i\<lparr>it_pos := it_pos i + 1\<rparr>, Some (?c ! it_pos i))"
        using n False p(1) by (simp add: next_handler.simps array_get_in)
      ultimately show ?thesis using touched_refl [of t] by simp
    next
      case True
      let ?i = "i\<lparr>it_mask := ?n + 1\<rparr>"
      have rest: "tree_rest r t i = concat (map (tree_match r) (drop (Suc ?n) (handlers t)))"
        using n True by (simp add: tree_rest_def)
      show ?thesis
      proof (cases "Suc ?n < length (handlers t)")
        case False
        then have "next_handler r t i = Some (t, ?i, None)" "tree_rest r t i = []" "tree_rest r t ?i = []" "tree_stands r t ?i"
          using n True rest by (simp_all add: next_handler.simps [of r t i] tree_rest_def tree_stands_def)
        then show ?thesis using touched_refl [of t] by simp
      next
        case m: True
        then obtain u j where u: "setup_current_mask r t ?i = Some (u, j)" "tree_touched t u" "tree_stands r u j"
          "it_mask j = Suc ?n" "tree_rest r u j = concat (map (tree_match r) (drop (Suc ?n) (handlers t)))"
          using setup_window [OF 1(2,3), of ?i] by auto
        have "next_handler r t i = next_handler r u j"
          using n True m u(1) by (simp add: next_handler.simps [of r t i])
        moreover have "\<exists>v k. next_handler r u j = Some (v, k, case tree_rest r u j of [] \<Rightarrow> None | e # _ \<Rightarrow> Some e) \<and>
            tree_touched u v \<and> tree_stands r v k \<and> tree_rest r v k = tl (tree_rest r u j)"
          by (rule 1(1) [OF n True refl _ u(1) refl]) (use m u(2,3) touched_ok(1) [OF 1(2)] 1(3) in simp_all)
        ultimately obtain v k where v: "next_handler r t i = Some (v, k, case tree_rest r t i of [] \<Rightarrow> None | e # _ \<Rightarrow> Some e)"
          "tree_touched u v" "tree_stands r v k" "tree_rest r v k = tl (tree_rest r t i)"
          unfolding u(5) rest by auto
        show ?thesis using v(1,3,4) touched_trans [OF 1(2) u(2) v(2)] by blast
      qed
    qed
  qed
qed

interpretation tree: event_registry tree_ok get_epoch tree_touched tree_wanted good_report init_iteration next_handler tree_rest
  tree_stands
proof (unfold_locales, goal_cases)
  case (1 s r i)
  then show ?case using init_ok by blast
next
  case (2 s r i)
  then show ?case using next_ok by blast
next
  case (3 s s' r)
  then show ?case using touched_ok by blast
next
  case (4 s s' r i)
  then show ?case using touched_keeps by blast
qed

subsection \<open>The list keeps the contract\<close>

interpretation vector: event_registry "\<lambda>_. True" vec_dirty "(=)" "\<lambda>r v. mset (handler_list v)" "\<lambda>_. True"
  full_init full_next "\<lambda>r v i. drop i (handler_list v)" "\<lambda>r v i. i \<le> length (handler_list v)"
proof (unfold_locales, goal_cases)
  case (2 v r i)
  then show ?case
    by (cases "i = length (handler_list v)")
      (auto simp: full_next_def array_get_in Cons_nth_drop_Suc [symmetric])
qed (simp_all add: full_init_def)

subsection \<open>What is registered\<close>

definition tree_contents :: "event_tree \<Rightarrow> (u8 \<times> registry_entry) multiset" where
  "tree_contents t = mset (concat (map (\<lambda>(k, s). map (Pair k) (container s)) (handlers t)))"

lemma wanted_contents:
  assumes "tree_ok t"
  shows "tree_wanted r t = image_mset snd (filter_mset (\<lambda>(k, e). in_window r k e) (tree_contents t))"
proof -
  have "mset (concat (map (tree_match r) hs)) =
      image_mset snd (filter_mset (\<lambda>(k, e). in_window r k e) (mset (concat (map (\<lambda>(k, s). map (Pair k) (container s)) hs))))"
    if "\<forall>(k, s) \<in> set hs. set_ok s" for hs
    using that
  proof (induction hs)
    case (Cons p hs)
    obtain k s where p: "p = (k, s)" by fastforce
    have "mset (tree_match r p) = filter_mset (in_window r k) (mset (container s))"
      using lazy_facts(3) [of s] Cons.prems by (simp add: p tree_match_def mset_filter)
    moreover have "image_mset snd (filter_mset (\<lambda>(k, e). in_window r k e) (mset (map (Pair k) xs))) =
        filter_mset (in_window r k) (mset xs)" for xs
      by (induction xs) simp_all
    ultimately show ?case using Cons by (simp add: p)
  qed simp
  then show ?thesis using assms by (fastforce simp: tree_wanted_def tree_contents_def tree_ok_def)
qed

lemma at_mask_sets:
  assumes "\<forall>(k, s) \<in> set hs. k \<le> 64 \<and> set_ok s" "m \<le> 64" "\<And>s. set_ok s \<Longrightarrow> set_ok (f s)"
  shows "\<forall>(k, s) \<in> set (at_mask m f hs). k \<le> 64 \<and> set_ok s"
proof -
  have n: "set_ok (f sls_new)" using assms(3) by (simp add: set_ok_def sls_new_def)
  show ?thesis using assms(1) by (induction hs) (use n assms(2,3) in \<open>auto split: if_splits\<close>)
qed

lemma at_mask_contents:
  assumes "\<And>s. mset (container (f s)) = M + mset (container s)"
  shows "mset (concat (map (\<lambda>(k, s). map (Pair k) (container s)) (at_mask m f hs))) =
    image_mset (Pair m) M + mset (concat (map (\<lambda>(k, s). map (Pair k) (container s)) hs))"
  using assms assms [of sls_new] by (induction hs) (auto simp: sls_new_def ac_simps)

lemma at_mask_some: "at_mask m f hs \<noteq> []"
  by (cases hs) (auto split: if_splits)

lemma insert_set_ok: "set_ok s \<Longrightarrow> set_ok (sls_insert e s)"
  by (simp add: set_ok_def sls_insert_def)

lemma register_ok:
  assumes "tree_ok t" "m \<le> 64"
  shows "tree_ok (tree_register e m t)" "get_epoch (tree_register e m t) = get_epoch t + 1"
    "tree_contents (tree_register e m t) = add_mset (ucast m, e) (tree_contents t)"
proof -
  have m: "(ucast m :: u8) \<le> 64"
  proof -
    have "unat m \<le> 64" using assms(2) by (simp add: word_le_nat_alt)
    then show ?thesis by (simp add: word_le_nat_alt unsigned_ucast_eq take_bit_nat_eq_self)
  qed
  show "tree_ok (tree_register e m t)"
    using at_mask_sets [of "handlers t" "ucast m" "sls_insert e"] m insert_set_ok assms(1) at_mask_some
    by (simp add: tree_ok_def tree_register_def set_dirty_def)
  show "get_epoch (tree_register e m t) = get_epoch t + 1"
    by (simp add: tree_register_def set_dirty_def get_epoch_def)
  show "tree_contents (tree_register e m t) = add_mset (ucast m, e) (tree_contents t)"
    using at_mask_contents [of "sls_insert e" "{#e#}" "ucast m" "handlers t"]
    by (simp add: tree_contents_def tree_register_def set_dirty_def sls_insert_def)
qed

lemma remove_if_ok:
  assumes "set_ok s"
  shows "set_ok (sls_remove_if re_event P s)"
    "mset (container (sls_remove_if re_event P s)) = filter_mset (\<lambda>e. \<not> P e) (mset (container s))"
proof -
  note lz = lazy_facts [OF assms]
  have f: "length (filter (\<lambda>d. \<not> P d) (container (lazy s))) = length (container (lazy s)) \<Longrightarrow>
      filter (\<lambda>d. \<not> P d) (container (lazy s)) = container (lazy s)"
    by (metis filter_id_conv length_filter_less less_irrefl)
  show "set_ok (sls_remove_if re_event P s)"
    using lz(4) by (auto simp: sls_remove_if_def sls_begin_def sls_end_def Let_def set_ok_def sls_lazy_init_def)
  have "mset (container (sls_remove_if re_event P s)) = mset (filter (\<lambda>d. \<not> P d) (container (lazy s)))"
  proof (cases "length (filter (\<lambda>d. \<not> P d) (container (lazy s))) = length (container (lazy s))")
    case True
    then show ?thesis using f lz(2) by (simp add: sls_remove_if_def sls_begin_def sls_end_def Let_def del: mset_filter)
  next
    case False
    then show ?thesis using lz(2)
      by (simp add: sls_remove_if_def sls_begin_def sls_end_def Let_def sls_lazy_init_def [of _ "_\<lparr>container := _\<rparr>"])
  qed
  then show "mset (container (sls_remove_if re_event P s)) = filter_mset (\<lambda>e. \<not> P e) (mset (container s))"
    using lz(3) by (simp add: mset_filter)
qed

lemma unregister_ok:
  assumes "tree_ok t"
  shows "tree_ok (tree_unregister h a m t)" "get_epoch (tree_unregister h a m t) = get_epoch t + 1"
    "tree_contents (tree_unregister h a m t) = filter_mset (\<lambda>(k, e). \<not> unregisters h a m e) (tree_contents t)"
proof -
  let ?P = "unregisters h a m"
  show "tree_ok (tree_unregister h a m t)"
    using assms remove_if_ok(1) by (fastforce simp: tree_ok_def tree_unregister_def set_dirty_def)
  show "get_epoch (tree_unregister h a m t) = get_epoch t + 1"
    by (simp add: tree_unregister_def set_dirty_def get_epoch_def)
  have "mset (concat (map (\<lambda>(k, s). map (Pair k) (container (sls_remove_if re_event ?P s))) hs)) =
      filter_mset (\<lambda>(k, e). \<not> ?P e) (mset (concat (map (\<lambda>(k, s). map (Pair k) (container s)) hs)))"
    if "\<forall>(k, s) \<in> set hs. set_ok s" for hs
    using that
  proof (induction hs)
    case (Cons p hs)
    obtain k s where p: "p = (k, s)" by fastforce
    have "mset (map (Pair k) (container (sls_remove_if re_event ?P s))) =
        filter_mset (\<lambda>(k, e). \<not> ?P e) (mset (map (Pair k) (container s)))"
      using remove_if_ok(2) [of s ?P] Cons.prems by (simp add: p filter_mset_image_mset case_prod_unfold)
    then show ?case using Cons by (simp add: p)
  qed simp
  then show "tree_contents (tree_unregister h a m t) = filter_mset (\<lambda>(k, e). \<not> ?P e) (tree_contents t)"
    using assms by (fastforce simp: tree_contents_def tree_unregister_def set_dirty_def tree_ok_def case_prod_unfold o_def)
qed

end
