(* ===== verification/EventFlow.thy ===== *)
theory EventFlow
  imports EventTreeSpec
begin

section \<open>Event messages reach the handlers (openlcb/EventService.cpp, EventServiceImpl.hxx)\<close>

text \<open>
  A flow takes an event message, makes a report of it and calls the handlers that the registry
  gives for it, one after the other. It gives way to other flows between two calls, and handlers
  can be registered and removed at any time: the epoch of the registry tells the flow to start over. The
  iterator is used through its interface, whose implementation is an argument. \<open>fl_changes\<close> is not in
  the code: it counts the changes of the registry since the flow last looked at the epoch, which has 32 bits;
  the steps assume that it stays below \<open>2 ^ 32\<close>.
\<close>

definition MTI_CONSUMER_IDENTIFY :: mti where "MTI_CONSUMER_IDENTIFY = 0x08F4"
definition MTI_CONSUMER_IDENTIFIED_RANGE :: mti where "MTI_CONSUMER_IDENTIFIED_RANGE = 0x04A4"
definition MTI_CONSUMER_IDENTIFIED_UNKNOWN :: mti where "MTI_CONSUMER_IDENTIFIED_UNKNOWN = 0x04C7"
definition MTI_CONSUMER_IDENTIFIED_VALID :: mti where "MTI_CONSUMER_IDENTIFIED_VALID = 0x04C4"
definition MTI_CONSUMER_IDENTIFIED_INVALID :: mti where "MTI_CONSUMER_IDENTIFIED_INVALID = 0x04C5"
definition MTI_CONSUMER_IDENTIFIED_RESERVED :: mti where "MTI_CONSUMER_IDENTIFIED_RESERVED = 0x04C6"
definition MTI_PRODUCER_IDENTIFY :: mti where "MTI_PRODUCER_IDENTIFY = 0x0914"
definition MTI_PRODUCER_IDENTIFIED_RANGE :: mti where "MTI_PRODUCER_IDENTIFIED_RANGE = 0x0524"
definition MTI_PRODUCER_IDENTIFIED_UNKNOWN :: mti where "MTI_PRODUCER_IDENTIFIED_UNKNOWN = 0x0547"
definition MTI_PRODUCER_IDENTIFIED_VALID :: mti where "MTI_PRODUCER_IDENTIFIED_VALID = 0x0544"
definition MTI_PRODUCER_IDENTIFIED_INVALID :: mti where "MTI_PRODUCER_IDENTIFIED_INVALID = 0x0545"
definition MTI_PRODUCER_IDENTIFIED_RESERVED :: mti where "MTI_PRODUCER_IDENTIFIED_RESERVED = 0x0546"
definition MTI_EVENTS_IDENTIFY_ADDRESSED :: mti where "MTI_EVENTS_IDENTIFY_ADDRESSED = 0x0968"
definition MTI_EVENTS_IDENTIFY_GLOBAL :: mti where "MTI_EVENTS_IDENTIFY_GLOBAL = 0x0970"
definition MTI_EVENT_REPORT :: mti where "MTI_EVENT_REPORT = 0x05B4"

datatype handler_fn = Event_report | Identify_consumer | Consumer_range_identified | Consumer_identified |
  Identify_producer | Producer_range_identified | Producer_identified | Identify_global

definition network_to_event_id :: "bool \<Rightarrow> payload \<Rightarrow> event_id" where
  "network_to_event_id big p = be64toh big (from_memory big (take 8 p))"

definition decoded :: "event_report \<Rightarrow> event_report" where
  "decoded rep = (case DecodeRange (er_event rep) of (b, m) \<Rightarrow> rep\<lparr>er_event := b, er_mask := m\<rparr>)"

definition event_switch :: "gen_message \<Rightarrow> event_report \<Rightarrow> event_report \<times> handler_fn option" where
  "event_switch msg rep =
     (let m = gm_mti msg in
      if m = MTI_EVENT_REPORT then (rep, Some Event_report)
      else if m = MTI_CONSUMER_IDENTIFY then (rep, Some Identify_consumer)
      else if m = MTI_CONSUMER_IDENTIFIED_RANGE then (decoded rep, Some Consumer_range_identified)
      else if m = MTI_CONSUMER_IDENTIFIED_UNKNOWN then (rep\<lparr>er_state := UNKNOWN_STATE\<rparr>, Some Consumer_identified)
      else if m = MTI_CONSUMER_IDENTIFIED_VALID then (rep\<lparr>er_state := VALID\<rparr>, Some Consumer_identified)
      else if m = MTI_CONSUMER_IDENTIFIED_INVALID then (rep\<lparr>er_state := INVALID\<rparr>, Some Consumer_identified)
      else if m = MTI_CONSUMER_IDENTIFIED_RESERVED then (rep\<lparr>er_state := RESERVED\<rparr>, Some Consumer_identified)
      else if m = MTI_PRODUCER_IDENTIFY then (rep, Some Identify_producer)
      else if m = MTI_PRODUCER_IDENTIFIED_RANGE then (decoded rep, Some Producer_range_identified)
      else if m = MTI_PRODUCER_IDENTIFIED_UNKNOWN then (rep\<lparr>er_state := UNKNOWN_STATE\<rparr>, Some Producer_identified)
      else if m = MTI_PRODUCER_IDENTIFIED_VALID then (rep\<lparr>er_state := VALID\<rparr>, Some Producer_identified)
      else if m = MTI_PRODUCER_IDENTIFIED_INVALID then (rep\<lparr>er_state := INVALID\<rparr>, Some Producer_identified)
      else if m = MTI_PRODUCER_IDENTIFIED_RESERVED then (rep\<lparr>er_state := RESERVED\<rparr>, Some Producer_identified)
      else if m = MTI_EVENTS_IDENTIFY_ADDRESSED then
        (if er_dst rep = None then (rep, None) else (rep, Some Identify_global))
      else if m = MTI_EVENTS_IDENTIFY_GLOBAL then (rep, Some Identify_global)
      else (rep, None))"

text \<open>The report of a message, and the handler function to call, if the message is not dropped.\<close>

definition event_message :: "bool \<Rightarrow> gen_message \<Rightarrow> event_report \<Rightarrow> event_report \<times> handler_fn option" where
  "event_message big msg rep =
     (let rep = rep\<lparr>er_src := gm_src msg, er_dst := gm_dstNode msg\<rparr> in
      if gm_mti msg AND MTI_EVENT_MASK = MTI_EVENT_MASK then
        (if length (gm_payload msg) \<noteq> 8 then (rep, None)
         else event_switch msg (rep\<lparr>er_event := network_to_event_id big (gm_payload msg), er_mask := 0\<rparr>))
      else event_switch msg (rep\<lparr>er_event := 0, er_mask := - 1\<rparr>))"

subsection \<open>The flow\<close>

datatype flow_state = FL_IDLE | FL_ITERATE | FL_CALL registry_entry u32 | FL_WAIT

record ('s, 'i) event_flow =
  fl_registry :: 's
  fl_it :: 'i
  fl_state :: flow_state
  fl_report :: event_report
  fl_fn :: handler_fn
  fl_epoch :: u32
  fl_calls :: "registry_entry list"
  fl_changes :: nat

text \<open>The iterator of the flow is set to the beginning.\<close>

definition look_up :: "('s \<Rightarrow> u32) \<Rightarrow> (event_report \<Rightarrow> 's \<Rightarrow> 'i \<Rightarrow> ('s \<times> 'i) option) \<Rightarrow> ('s, 'i) event_flow \<Rightarrow>
    ('s, 'i) event_flow option" where
  "look_up epoch start fl = do {
     let fl = fl\<lparr>fl_epoch := epoch (fl_registry fl), fl_changes := 0\<rparr>;
     (s, i) \<leftarrow> start (fl_report fl) (fl_registry fl) (fl_it fl);
     Some (fl\<lparr>fl_registry := s, fl_it := i\<rparr>)
   }"

definition flow_entry :: "('s \<Rightarrow> u32) \<Rightarrow> (event_report \<Rightarrow> 's \<Rightarrow> 'i \<Rightarrow> ('s \<times> 'i) option) \<Rightarrow> bool \<Rightarrow> gen_message \<Rightarrow>
    ('s, 'i) event_flow \<Rightarrow> ('s, 'i) event_flow option" where
  "flow_entry epoch start big msg fl =
     (case event_message big msg (fl_report fl) of
        (rep, None) \<Rightarrow> Some (fl\<lparr>fl_report := rep\<rparr>)
      | (rep, Some f) \<Rightarrow> do {
          fl \<leftarrow> look_up epoch start (fl\<lparr>fl_report := rep, fl_fn := f, fl_calls := []\<rparr>);
          Some (fl\<lparr>fl_state := FL_ITERATE\<rparr>)
        })"

text \<open>\<open>dispatch_event\<close> of the flow and of its derived class, which calls the handler itself.\<close>

definition dispatch_event :: "bool \<Rightarrow> ('s \<Rightarrow> u32) \<Rightarrow> registry_entry \<Rightarrow> ('s, 'i) event_flow \<Rightarrow> ('s, 'i) event_flow" where
  "dispatch_event inline epoch e fl =
     (if inline then
        (if fl_epoch fl \<noteq> epoch (fl_registry fl) then fl\<lparr>fl_state := FL_ITERATE\<rparr>
         else fl\<lparr>fl_calls := fl_calls fl @ [e], fl_state := FL_WAIT\<rparr>)
      else fl\<lparr>fl_state := FL_CALL e (fl_epoch fl)\<rparr>)"

definition iterate_next :: "bool \<Rightarrow> ('s \<Rightarrow> u32) \<Rightarrow> ('s \<Rightarrow> 'i \<Rightarrow> 'i) \<Rightarrow> (event_report \<Rightarrow> 's \<Rightarrow> 'i \<Rightarrow> ('s \<times> 'i) option) \<Rightarrow>
    (event_report \<Rightarrow> 's \<Rightarrow> 'i \<Rightarrow> ('s \<times> 'i \<times> registry_entry option) option) \<Rightarrow>
    ('s, 'i) event_flow \<Rightarrow> ('s, 'i) event_flow option" where
  "iterate_next inline epoch clear start step fl = do {
     fl \<leftarrow> (if fl_epoch fl \<noteq> epoch (fl_registry fl)
        then look_up epoch start (fl\<lparr>fl_it := clear (fl_registry fl) (fl_it fl)\<rparr>) else Some fl);
     (s, i, e) \<leftarrow> step (fl_report fl) (fl_registry fl) (fl_it fl);
     let fl = fl\<lparr>fl_registry := s, fl_it := i\<rparr>;
     Some (case e of None \<Rightarrow> fl\<lparr>fl_state := FL_IDLE\<rparr> | Some e \<Rightarrow> dispatch_event inline epoch e fl)
   }"

text \<open>\<open>EventCallerFlow\<close>: the call is dropped when the registry has changed since it was ordered.\<close>

definition caller_entry :: "('s \<Rightarrow> u32) \<Rightarrow> ('s, 'i) event_flow \<Rightarrow> ('s, 'i) event_flow" where
  "caller_entry epoch fl = (case fl_state fl of
       FL_CALL e ep \<Rightarrow> if ep \<noteq> epoch (fl_registry fl) then fl\<lparr>fl_state := FL_ITERATE\<rparr>
         else fl\<lparr>fl_calls := fl_calls fl @ [e], fl_state := FL_WAIT\<rparr>
     | _ \<Rightarrow> fl)"

definition handler_done :: "('s, 'i) event_flow \<Rightarrow> ('s, 'i) event_flow" where
  "handler_done fl = (case fl_state fl of FL_WAIT \<Rightarrow> fl\<lparr>fl_state := FL_ITERATE\<rparr> | _ \<Rightarrow> fl)"

end
