(* ===== verification/EventFlowSpec.thy ===== *)
theory EventFlowSpec
  imports EventFlow
begin

section \<open>Every matching handler is called\<close>

text \<open>
  The flow over any registry that keeps the contract, then the flow over the tree with handlers
  registered and removed, and other flows iterating, between any two of its steps.
\<close>

definition pending_call :: "flow_state \<Rightarrow> registry_entry multiset" where
  "pending_call st = (case st of FL_CALL e ep \<Rightarrow> {#e#} | _ \<Rightarrow> {#})"

context event_registry
begin

definition in_pass :: "('s, 'i) event_flow \<Rightarrow> bool" where
  "in_pass fl \<longleftrightarrow> stands (fl_report fl) (fl_registry fl) (fl_it fl) \<and>
     (\<exists>q p. fl_calls fl = q @ p \<and>
        mset p + pending_call (fl_state fl) + mset (rest (fl_report fl) (fl_registry fl) (fl_it fl)) =
        wanted (fl_report fl) (fl_registry fl))"

definition following :: "('s, 'i) event_flow \<Rightarrow> bool" where
  "following fl \<longleftrightarrow> ok (fl_registry fl) \<and> epoch (fl_registry fl) = fl_epoch fl + of_nat (fl_changes fl) \<and>
     fl_changes fl < 2 ^ 32 \<and> (\<forall>e ep. fl_state fl = FL_CALL e ep \<longrightarrow> ep = fl_epoch fl) \<and>
     (fl_state fl \<noteq> FL_IDLE \<longrightarrow> good (fl_report fl) \<and> (fl_changes fl = 0 \<longrightarrow> in_pass fl))"

lemma same_epoch: "following fl \<Longrightarrow> fl_epoch fl = epoch (fl_registry fl) \<longleftrightarrow> fl_changes fl = 0"
proof -
  assume f: "following fl"
  then have "(of_nat (fl_changes fl) :: u32) = 0 \<longleftrightarrow> fl_changes fl = 0"
    by (auto simp: following_def word_of_nat_eq_0_iff dest: dvd_imp_le)
  then show ?thesis using f by (simp add: following_def)
qed

lemma look_up_follows:
  assumes "ok (fl_registry fl)" "good (fl_report fl)"
  shows "\<exists>fl'. look_up epoch start fl = Some fl' \<and> ok (fl_registry fl') \<and> epoch (fl_registry fl') = fl_epoch fl' \<and>
    fl_changes fl' = 0 \<and> fl_report fl' = fl_report fl \<and> fl_calls fl' = fl_calls fl \<and> fl_state fl' = fl_state fl \<and>
    touched (fl_registry fl) (fl_registry fl') \<and>
    stands (fl_report fl) (fl_registry fl') (fl_it fl') \<and>
    mset (rest (fl_report fl) (fl_registry fl') (fl_it fl')) = wanted (fl_report fl) (fl_registry fl')"
proof -
  obtain s i where "start (fl_report fl) (fl_registry fl) (fl_it fl) = Some (s, i)" "touched (fl_registry fl) s"
    "stands (fl_report fl) s i" "mset (rest (fl_report fl) s i) = wanted (fl_report fl) (fl_registry fl)"
    using start_ok [OF assms] by blast
  then show ?thesis using touch_ok [OF _ assms(1)] by (simp add: look_up_def)
qed

text \<open>The position of a flow that has looked at the current epoch.\<close>

definition up_to_date :: "('s, 'i) event_flow \<Rightarrow> bool" where
  "up_to_date fl \<longleftrightarrow> ok (fl_registry fl) \<and> epoch (fl_registry fl) = fl_epoch fl \<and> fl_changes fl = 0 \<and>
     fl_state fl = FL_ITERATE \<and> good (fl_report fl) \<and> in_pass fl"

lemma refresh:
  assumes "following fl" "fl_state fl = FL_ITERATE"
  shows "\<exists>fl'. (if fl_epoch fl \<noteq> epoch (fl_registry fl)
        then look_up epoch start (fl\<lparr>fl_it := clear (fl_registry fl) (fl_it fl)\<rparr>) else Some fl) = Some fl' \<and>
    up_to_date fl' \<and> (fl_registry fl' = fl_registry fl \<or> touched (fl_registry fl) (fl_registry fl')) \<and>
    fl_report fl' = fl_report fl \<and> fl_calls fl' = fl_calls fl"
proof (cases "fl_changes fl = 0")
  case True
  then have "up_to_date fl" using assms by (simp add: following_def up_to_date_def)
  then show ?thesis using same_epoch [OF assms(1)] True by simp
next
  case False
  let ?fl = "fl\<lparr>fl_it := clear (fl_registry fl) (fl_it fl)\<rparr>"
  have "ok (fl_registry ?fl)" "good (fl_report ?fl)" using assms by (simp_all add: following_def)
  then obtain fl' where l: "look_up epoch start ?fl = Some fl'" "ok (fl_registry fl')" "epoch (fl_registry fl') = fl_epoch fl'"
    "fl_changes fl' = 0" "fl_report fl' = fl_report fl" "fl_calls fl' = fl_calls fl" "fl_state fl' = fl_state fl"
    "touched (fl_registry fl) (fl_registry fl')" "stands (fl_report fl) (fl_registry fl') (fl_it fl')"
    "mset (rest (fl_report fl) (fl_registry fl') (fl_it fl')) = wanted (fl_report fl) (fl_registry fl')"
    using look_up_follows [of ?fl] by auto
  have "\<exists>q p. fl_calls fl' = q @ p \<and> mset p + mset (rest (fl_report fl) (fl_registry fl') (fl_it fl')) =
      wanted (fl_report fl) (fl_registry fl')" by (intro exI [of _ "fl_calls fl'"] exI [of _ "[]"]) (simp add: l(10))
  then have "up_to_date fl'"
    using l assms(2) \<open>good (fl_report ?fl)\<close> by (simp add: up_to_date_def in_pass_def pending_call_def)
  then show ?thesis using l(1,5,6,8) same_epoch [OF assms(1)] False by auto
qed

lemma pass_advance:
  assumes "up_to_date fl"
  shows "\<exists>s i e fl'. step (fl_report fl) (fl_registry fl) (fl_it fl) = Some (s, i, e) \<and> touched (fl_registry fl) s \<and>
    fl' = (case e of None \<Rightarrow> fl\<lparr>fl_registry := s, fl_it := i, fl_state := FL_IDLE\<rparr>
      | Some e \<Rightarrow> dispatch_event inline epoch e (fl\<lparr>fl_registry := s, fl_it := i\<rparr>)) \<and>
    following fl' \<and> fl_report fl' = fl_report fl \<and> fl_registry fl' = s \<and>
    (\<forall>e. fl_calls fl' = fl_calls fl @ [e] \<longrightarrow> e \<in># wanted (fl_report fl') s) \<and>
    (fl_state fl' = FL_IDLE \<longrightarrow> (\<exists>q p. fl_calls fl' = q @ p \<and> mset p = wanted (fl_report fl') s))"
proof -
  let ?r = "fl_report fl" and ?s = "fl_registry fl"
  note u = assms [unfolded up_to_date_def in_pass_def]
  have ok: "ok ?s" "good ?r" "stands ?r ?s (fl_it fl)" using u by simp_all
  obtain q p where p: "fl_calls fl = q @ p" "mset p + mset (rest ?r ?s (fl_it fl)) = wanted ?r ?s"
    using u by (auto simp: pending_call_def)
  obtain s i where n: "step ?r ?s (fl_it fl) = Some (s, i, case rest ?r ?s (fl_it fl) of [] \<Rightarrow> None | e # _ \<Rightarrow> Some e)"
    "touched ?s s" "stands ?r s i" "rest ?r s i = tl (rest ?r ?s (fl_it fl))"
    using step_ok [OF ok] by blast
  note t = touch_ok [OF n(2) ok(1)]
  show ?thesis
  proof (cases "rest ?r ?s (fl_it fl)")
    case Nil
    moreover have "\<exists>q' p'. fl_calls fl = q' @ p' \<and> mset p' = wanted ?r ?s"
      by (rule exI [of _ q], rule exI [of _ p]) (use p Nil in simp)
    ultimately show ?thesis using n t u by (simp add: following_def)
  next
    case (Cons e es)
    have "\<exists>q' p'. fl_calls fl @ [e] = q' @ p' \<and> mset p' + mset es = wanted ?r ?s"
      by (rule exI [of _ q], rule exI [of _ "p @ [e]"]) (use p Cons in simp)
    moreover have "\<exists>q' p'. fl_calls fl = q' @ p' \<and> mset p' + {#e#} + mset es = wanted ?r ?s"
      by (rule exI [of _ q], rule exI [of _ p]) (use p Cons in simp)
    moreover have "e \<in># wanted ?r ?s" using p(2) Cons by (metis list.set_intros(1) set_mset_mset union_iff)
    ultimately show ?thesis
      using n t u Cons by (simp add: dispatch_event_def following_def in_pass_def pending_call_def)
  qed
qed

lemma iterate_keeps:
  assumes "following fl" "fl_state fl = FL_ITERATE"
  shows "\<exists>fl'. iterate_next inline epoch clear start step fl = Some fl' \<and> following fl' \<and>
    (\<exists>s. (s = fl_registry fl \<or> touched (fl_registry fl) s) \<and> touched s (fl_registry fl')) \<and> fl_report fl' = fl_report fl \<and>
    (\<forall>e. fl_calls fl' = fl_calls fl @ [e] \<longrightarrow> e \<in># wanted (fl_report fl') (fl_registry fl')) \<and>
    (fl_state fl' = FL_IDLE \<longrightarrow> (\<exists>q p. fl_calls fl' = q @ p \<and> mset p = wanted (fl_report fl') (fl_registry fl')))"
proof -
  obtain f where f: "(if fl_epoch fl \<noteq> epoch (fl_registry fl)
      then look_up epoch start (fl\<lparr>fl_it := clear (fl_registry fl) (fl_it fl)\<rparr>) else Some fl) = Some f" "up_to_date f"
    "fl_registry f = fl_registry fl \<or> touched (fl_registry fl) (fl_registry f)" "fl_report f = fl_report fl" "fl_calls f = fl_calls fl"
    using refresh [OF assms] by blast
  obtain s i e fl' where n: "step (fl_report f) (fl_registry f) (fl_it f) = Some (s, i, e)" "touched (fl_registry f) s"
    "fl' = (case e of None \<Rightarrow> f\<lparr>fl_registry := s, fl_it := i, fl_state := FL_IDLE\<rparr>
      | Some e \<Rightarrow> dispatch_event inline epoch e (f\<lparr>fl_registry := s, fl_it := i\<rparr>))"
    "following fl'" "fl_report fl' = fl_report f" "fl_registry fl' = s"
    "\<forall>e. fl_calls fl' = fl_calls f @ [e] \<longrightarrow> e \<in># wanted (fl_report fl') s"
    "fl_state fl' = FL_IDLE \<longrightarrow> (\<exists>q p. fl_calls fl' = q @ p \<and> mset p = wanted (fl_report fl') s)"
    using pass_advance [OF f(2), of inline] by blast
  have "iterate_next inline epoch clear start step fl = Some fl'"
    using f(1) n(1,3) by (simp add: iterate_next_def Let_def)
  then show ?thesis using n f(3,4,5) by metis
qed

lemma entry_keeps:
  assumes "following fl" "fl_state fl = FL_IDLE" "event_message big msg (fl_report fl) = (rep, f)" "f \<noteq> None \<Longrightarrow> good rep"
  shows "\<exists>fl'. flow_entry epoch start big msg fl = Some fl' \<and> following fl' \<and> fl_report fl' = rep \<and>
    (fl_registry fl' = fl_registry fl \<or> touched (fl_registry fl) (fl_registry fl')) \<and>
    fl_state fl' = (if f = None then FL_IDLE else FL_ITERATE)"
proof (cases f)
  case None
  then show ?thesis using assms(1-3) by (simp add: flow_entry_def following_def)
next
  case (Some g)
  let ?fl = "fl\<lparr>fl_report := rep, fl_fn := g, fl_calls := []\<rparr>"
  obtain fl' where l: "look_up epoch start ?fl = Some fl'" "ok (fl_registry fl')" "epoch (fl_registry fl') = fl_epoch fl'"
    "fl_changes fl' = 0" "fl_report fl' = rep" "fl_calls fl' = []"
    "touched (fl_registry fl) (fl_registry fl')" "stands rep (fl_registry fl') (fl_it fl')"
    "mset (rest rep (fl_registry fl') (fl_it fl')) = wanted rep (fl_registry fl')"
    using look_up_follows [of ?fl] assms(1,4) Some by (auto simp: following_def)
  then have "following (fl'\<lparr>fl_state := FL_ITERATE\<rparr>)"
    using assms(4) Some by (simp add: following_def in_pass_def pending_call_def)
  then show ?thesis using l assms(3) Some by (simp add: flow_entry_def)
qed

lemma caller_keeps:
  assumes "following fl" "fl_state fl = FL_CALL e ep"
  shows "following (caller_entry epoch fl)"
    "ep = epoch (fl_registry fl) \<Longrightarrow> e \<in># wanted (fl_report fl) (fl_registry fl)"
proof -
  have ep: "ep = fl_epoch fl" using assms by (simp add: following_def)
  have p: "\<exists>q p. fl_calls fl = q @ p \<and> mset p + {#e#} + mset (rest (fl_report fl) (fl_registry fl) (fl_it fl)) =
      wanted (fl_report fl) (fl_registry fl)" if "fl_changes fl = 0"
    using assms that by (simp add: following_def in_pass_def pending_call_def)
  show "e \<in># wanted (fl_report fl) (fl_registry fl)" if "ep = epoch (fl_registry fl)"
  proof -
    have "fl_changes fl = 0" using same_epoch [OF assms(1)] ep that by simp
    then show ?thesis using p by (metis multi_member_this union_mset_add_mset_left union_iff add_mset_add_single)
  qed
  have "\<exists>q' p'. fl_calls fl @ [e] = q' @ p' \<and> mset p' + mset (rest (fl_report fl) (fl_registry fl) (fl_it fl)) =
      wanted (fl_report fl) (fl_registry fl)" if z: "fl_changes fl = 0"
  proof -
    obtain q p where "fl_calls fl = q @ p" "mset p + {#e#} + mset (rest (fl_report fl) (fl_registry fl) (fl_it fl)) =
      wanted (fl_report fl) (fl_registry fl)" using p [OF z] by blast
    then show ?thesis by (intro exI [of _ q] exI [of _ "p @ [e]"]) simp
  qed
  then show "following (caller_entry epoch fl)"
    using assms same_epoch [OF assms(1)] ep
    by (auto simp: caller_entry_def following_def in_pass_def pending_call_def)
qed

lemma done_keeps: "following fl \<Longrightarrow> following (handler_done fl)"
  by (auto simp: handler_done_def following_def in_pass_def pending_call_def split: flow_state.splits)

lemma touch_follows:
  assumes "following fl" "touched (fl_registry fl) s"
  shows "following (fl\<lparr>fl_registry := s\<rparr>)"
proof -
  have ok: "ok (fl_registry fl)" using assms(1) by (simp add: following_def)
  note t = touch_ok [OF assms(2) ok]
  have "stands (fl_report fl) s (fl_it fl) \<and> rest (fl_report fl) s (fl_it fl) = rest (fl_report fl) (fl_registry fl) (fl_it fl)"
    if "fl_state fl \<noteq> FL_IDLE" "fl_changes fl = 0"
    using touch_keeps [OF assms(2) ok] assms(1) that by (simp add: following_def in_pass_def)
  then show ?thesis using assms(1) t by (auto simp: following_def in_pass_def)
qed

lemma change_follows:
  assumes "following fl" "ok s" "epoch s = epoch (fl_registry fl) + 1" "fl_changes fl + 1 < 2 ^ 32"
  shows "following (fl\<lparr>fl_registry := s, fl_changes := fl_changes fl + 1\<rparr>)"
  using assms by (auto simp: following_def)

end

subsection \<open>Reports\<close>

text \<open>Two ranges of events have one in common.\<close>

definition aligned :: "nat \<Rightarrow> event_id \<Rightarrow> bool" where
  "aligned k e \<longleftrightarrow> block_of k e = e"

definition concerns :: "event_report \<Rightarrow> u8 \<times> registry_entry \<Rightarrow> bool" where
  "concerns r = (\<lambda>(k, e). \<exists>x. er_event r \<le> x \<and> x \<le> er_event r + er_mask r \<and> block_of (unat k) x = re_event e)"

lemma block_mono: "a \<le> b \<Longrightarrow> block_of k a \<le> block_of k b"
proof -
  assume "a \<le> b"
  then have "unat a div 2 ^ k \<le> unat b div 2 ^ k" by (simp add: word_le_nat_alt div_le_mono)
  moreover have "unat (block_of k x) = 2 ^ k * (unat x div 2 ^ k)" for x by (simp add: block_unat minus_mod_eq_mult_div)
  ultimately show ?thesis by (simp add: word_le_nat_alt)
qed

lemma block_below: "block_of k e \<le> e"
  by (simp add: word_le_nat_alt block_unat)

lemma block_idem: "block_of k (block_of k e) = block_of k e"
  by (rule bit_word_eqI) (auto simp: block_bits)

lemma window_concerns:
  assumes "good_report r" "k \<le> 64" "aligned (unat k) (re_event e)"
  shows "in_window r k e \<longleftrightarrow> concerns r (k, e)"
proof (cases "k = 64")
  case True
  have "block_of 64 x = 0" for x by (rule bit_word_eqI) (simp add: block_bits)
  then have "concerns r (k, e)" using True assms(1,3) by (auto simp: concerns_def aligned_def good_report_def)
  then show ?thesis using True by (simp add: in_window_def)
next
  case False
  have "k < 64" using False assms(2) by simp
  then have k: "unat k < 64" by (simp add: word_less_nat_alt)
  have w: "window_start r k = block_of (unat k) (er_event r)" by (simp only: window_start_def shifted_mask [OF k] block_of_def)
  let ?e = "re_event e" and ?lo = "er_event r" and ?hi = "er_event r + er_mask r"
  have e: "block_of (unat k) ?e = ?e" using assms(3) by (simp add: aligned_def)
  show ?thesis
  proof
    assume "in_window r k e"
    then have i: "block_of (unat k) ?lo \<le> ?e" "?e \<le> ?hi" using False w by (simp_all add: in_window_def)
    show "concerns r (k, e)"
    proof (cases "?lo \<le> ?e")
      case True
      then show ?thesis using i(2) e by (auto simp: concerns_def)
    next
      case False
      then have "?e \<le> block_of (unat k) ?lo" using block_mono [of ?e ?lo "unat k"] e by simp
      then have "block_of (unat k) ?lo = ?e" using i(1) by simp
      then show ?thesis using assms(1) by (auto simp: concerns_def good_report_def)
    qed
  next
    assume "concerns r (k, e)"
    then obtain x where x: "?lo \<le> x" "x \<le> ?hi" "block_of (unat k) x = ?e" by (auto simp: concerns_def)
    then have "?e \<le> ?hi" using block_below [of "unat k" x] by simp
    moreover have "block_of (unat k) ?lo \<le> ?e" using block_mono [OF x(1), of "unat k"] x(3) by simp
    ultimately show "in_window r k e" using w by (simp add: in_window_def)
  qed
qed

lemma decode_good: "DecodeRange e = (b, m) \<Longrightarrow> b \<le> b + m"
proof -
  assume d: "DecodeRange e = (b, m)"
  have "e = 0 \<or> e = - 1 \<or> (\<exists>k. reads_as e k)" using reads_as_exists by blast
  then show ?thesis
  proof (elim disjE exE)
    assume "e = 0"
    then show ?thesis using d half_of_all_events by simp
  next
    assume "e = - 1"
    then have "b = push_bit 63 1" "m = mask 63" using d half_of_all_events by simp_all
    moreover have "push_bit 63 1 \<le> (push_bit 63 1 + mask 63 :: u64)" by code_simp
    ultimately show ?thesis by simp
  next
    fix k
    assume k: "reads_as e k"
    then have "b = block_of k e" "m = mask k" using d decode_read by simp_all
    moreover have "block_of k e \<le> e OR mask k" by (rule order.trans [OF block_below]) (simp add: le_word_or2)
    ultimately show ?thesis by (simp add: block_plus_mask)
  qed
qed

lemma decoded_good: "good_report (decoded rep)"
  using decode_good by (auto simp: decoded_def good_report_def split: prod.splits)

lemma event_switch_good:
  assumes "event_switch msg rep = (rep', f)" "er_event rep \<le> er_event rep + er_mask rep"
  shows "good_report rep'"
  using assms decoded_good
  by (auto simp: event_switch_def Let_def good_report_def split: if_splits)

lemma event_message_good: "event_message big msg rep = (rep', Some f) \<Longrightarrow> good_report rep'"
  using event_switch_good by (fastforce simp: event_message_def Let_def split: if_splits)

subsection \<open>The flow over the tree\<close>

type_synonym tree_flow = "(event_tree, tree_iterator) event_flow"

definition tree_new :: event_tree where
  "tree_new = \<lparr>handlers = [], dirtyCounter = 0\<rparr>"

definition flow_new :: tree_flow where
  "flow_new = (case iterator_new tree_new of (t, i) \<Rightarrow>
     \<lparr>fl_registry = t, fl_it = i, fl_state = FL_IDLE,
      fl_report = \<lparr>er_event = 0, er_mask = 0, er_src = nh_none, er_dst = None, er_state = VALID\<rparr>,
      fl_fn = Event_report, fl_epoch = 0, fl_calls = [], fl_changes = 0\<rparr>)"

abbreviation tree_iterate :: "bool \<Rightarrow> tree_flow \<Rightarrow> tree_flow option" where
  "tree_iterate inline \<equiv> iterate_next inline get_epoch clear_iteration init_iteration next_handler"

text \<open>\<open>inline\<close> tells which of the two flows it is. What iterations of other flows do to the
  registry is \<open>tree_touched\<close>, by \<open>init_ok\<close> and \<open>next_ok\<close>. Ranges are registered as \<open>align_mask\<close> gives them.\<close>

inductive flow_step :: "bool \<Rightarrow> tree_flow \<Rightarrow> tree_flow \<Rightarrow> bool" for inline where
  message: "fl_state fl = FL_IDLE \<Longrightarrow> flow_entry get_epoch init_iteration big msg fl = Some fl' \<Longrightarrow> flow_step inline fl fl'"
| iterate: "fl_state fl = FL_ITERATE \<Longrightarrow> tree_iterate inline fl = Some fl' \<Longrightarrow> flow_step inline fl fl'"
| caller: "fl_state fl = FL_CALL e ep \<Longrightarrow> flow_step inline fl (caller_entry get_epoch fl)"
| handled: "flow_step inline fl (handler_done fl)"
| others: "tree_touched (fl_registry fl) t \<Longrightarrow> flow_step inline fl (fl\<lparr>fl_registry := t\<rparr>)"
| register: "m \<le> 64 \<Longrightarrow> aligned (unat m) (re_event e) \<Longrightarrow> fl_changes fl + 1 < 2 ^ 32 \<Longrightarrow>
    flow_step inline fl (fl\<lparr>fl_registry := tree_register e m (fl_registry fl), fl_changes := fl_changes fl + 1\<rparr>)"
| unregister: "fl_changes fl + 1 < 2 ^ 32 \<Longrightarrow>
    flow_step inline fl (fl\<lparr>fl_registry := tree_unregister h a m (fl_registry fl), fl_changes := fl_changes fl + 1\<rparr>)"

inductive flow_reachable :: "bool \<Rightarrow> tree_flow \<Rightarrow> bool" for inline where
  start: "flow_reachable inline flow_new"
| step: "flow_reachable inline fl \<Longrightarrow> flow_step inline fl fl' \<Longrightarrow> flow_reachable inline fl'"

definition contents_ok :: "event_tree \<Rightarrow> bool" where
  "contents_ok t \<longleftrightarrow> (\<forall>(k, e) \<in># tree_contents t. k \<le> 64 \<and> aligned (unat k) (re_event e))"

text \<open>The entries that a report concerns.\<close>

definition concerned :: "event_report \<Rightarrow> event_tree \<Rightarrow> registry_entry multiset" where
  "concerned r t = image_mset snd (filter_mset (concerns r) (tree_contents t))"

lemma wanted_concerned:
  assumes "tree_ok t" "contents_ok t" "good_report r"
  shows "tree_wanted r t = concerned r t"
proof -
  have "filter_mset (\<lambda>(k, e). in_window r k e) (tree_contents t) = filter_mset (concerns r) (tree_contents t)"
    using assms(2) window_concerns [OF assms(3)] by (intro filter_mset_cong) (auto simp: contents_ok_def)
  then show ?thesis using wanted_contents [OF assms(1)] by (simp add: concerned_def)
qed

lemma touched_contents:
  assumes "tree_ok t" "tree_touched t u"
  shows "tree_contents u = tree_contents t"
proof -
  let ?f = "\<lambda>(k, s). mset (map (Pair k) (container s))"
  have m: "mset (concat (map (\<lambda>(k, s). map (Pair k) (container s)) hs)) = sum_list (map ?f hs)" for hs
    by (induction hs) (simp_all add: case_prod_unfold)
  have "map ?f (handlers u) = map ?f (handlers t)"
  proof (rule nth_equalityI)
    fix i
    assume "i < length (map ?f (handlers u))"
    then have i: "i < length (handlers t)" "i < length (handlers u)" using assms(2) by (simp_all add: tree_touched_def)
    have "fst (handlers u ! i) = fst (handlers t ! i)" "mset (container (set_at u i)) = mset (container (set_at t i))"
      using assms(2) i lazy_facts(3) set_at_ok [OF assms(1) i(1)] unfolding tree_touched_def by metis+
    then show "map ?f (handlers u) ! i = map ?f (handlers t) ! i" using i by (simp add: case_prod_unfold)
  qed (use assms(2) in \<open>simp add: tree_touched_def\<close>)
  then show ?thesis by (simp only: tree_contents_def m)
qed

definition flow_inv :: "tree_flow \<Rightarrow> bool" where
  "flow_inv fl \<longleftrightarrow> tree.following fl \<and> contents_ok (fl_registry fl)"

lemma ok_of: "tree.following fl \<Longrightarrow> tree_ok (fl_registry fl)"
  by (simp add: tree.following_def)

lemma touched_inv: "flow_inv fl \<Longrightarrow> tree_touched (fl_registry fl) t \<Longrightarrow> contents_ok t"
proof -
  assume f: "flow_inv fl" and t: "tree_touched (fl_registry fl) t"
  then have ok: "tree_ok (fl_registry fl)" using ok_of by (simp add: flow_inv_def)
  show ?thesis using f by (simp add: contents_ok_def flow_inv_def touched_contents [OF ok t])
qed

lemma new_inv: "flow_inv flow_new"
proof -
  have "tree_contents (fl_registry flow_new) = {#}" "tree_ok (fl_registry flow_new)"
    by (simp_all add: flow_new_def iterator_new_def tree_new_def tree_contents_def tree_ok_def set_ok_def sls_new_def Let_def)
  then show ?thesis
    by (simp add: flow_inv_def tree.following_def contents_ok_def)
      (simp add: flow_new_def iterator_new_def tree_new_def get_epoch_def Let_def)
qed

lemma aligned_ucast: "m \<le> 64 \<Longrightarrow> aligned (unat m) x \<Longrightarrow> (ucast (m :: u32) :: u8) \<le> 64 \<and> aligned (unat (ucast m :: u8)) x"
proof -
  assume m: "m \<le> 64" "aligned (unat m) x"
  then have "unat m \<le> 64" by (simp add: word_le_nat_alt)
  then have "unat (ucast m :: u8) = unat m" by (simp add: unsigned_ucast_eq take_bit_nat_eq_self)
  then show ?thesis using m \<open>unat m \<le> 64\<close> by (simp add: word_le_nat_alt)
qed

lemma flow_step_inv: "flow_step inline fl fl' \<Longrightarrow> flow_inv fl \<Longrightarrow> flow_inv fl'"
proof (induction rule: flow_step.induct)
  case (message fl big msg fl')
  obtain rep f where m: "event_message big msg (fl_report fl) = (rep, f)" by fastforce
  then have "f \<noteq> None \<Longrightarrow> good_report rep" using event_message_good by fastforce
  then obtain fl2 where "flow_entry get_epoch init_iteration big msg fl = Some fl2" "tree.following fl2"
    "fl_registry fl2 = fl_registry fl \<or> tree_touched (fl_registry fl) (fl_registry fl2)"
    using tree.entry_keeps [OF _ message(1) m] message(3) by (auto simp: flow_inv_def)
  then show ?case using message(2,3) touched_inv [OF message(3)] by (auto simp: flow_inv_def)
next
  case (iterate fl fl')
  have f: "tree.following fl" using iterate(3) by (simp add: flow_inv_def)
  obtain s where t: "tree.following fl'" "s = fl_registry fl \<or> tree_touched (fl_registry fl) s" "tree_touched s (fl_registry fl')"
    using tree.iterate_keeps [OF f iterate(1), of inline clear_iteration] iterate(2) by auto
  have c: "contents_ok s" "tree_ok s"
    using t(2) touched_inv [OF iterate(3)] touched_ok(1) [OF ok_of [OF f]] ok_of [OF f] iterate(3) by (auto simp: flow_inv_def)
  have "contents_ok (fl_registry fl')" using c(1) by (simp add: contents_ok_def touched_contents [OF c(2) t(3)])
  then show ?case using t(1) by (simp add: flow_inv_def)
next
  case (caller fl e ep)
  have "fl_registry (caller_entry get_epoch fl) = fl_registry fl" by (simp add: caller_entry_def caller(1))
  then show ?case using tree.caller_keeps(1) caller by (auto simp: flow_inv_def)
next
  case (handled fl)
  have "fl_registry (handler_done fl) = fl_registry fl" by (simp add: handler_done_def split: flow_state.split)
  then show ?case using tree.done_keeps handled by (auto simp: flow_inv_def)
next
  case (others fl t)
  then show ?case using tree.touch_follows touched_inv by (auto simp: flow_inv_def)
next
  case (register m e fl)
  have f: "tree.following fl" "contents_ok (fl_registry fl)" using register(4) by (simp_all add: flow_inv_def)
  note r = register_ok [OF ok_of [OF f(1)] register(1), of e]
  have "contents_ok (tree_register e m (fl_registry fl))"
    using f(2) aligned_ucast [OF register(1,2)] by (simp add: contents_ok_def r(3))
  then show ?case using tree.change_follows [OF f(1) r(1,2) register(3)] by (simp add: flow_inv_def)
next
  case (unregister fl h a m)
  have f: "tree.following fl" "contents_ok (fl_registry fl)" using unregister(2) by (simp_all add: flow_inv_def)
  note r = unregister_ok [OF ok_of [OF f(1)], of h a m]
  have "contents_ok (tree_unregister h a m (fl_registry fl))"
    using f(2) by (simp add: contents_ok_def r(3))
  then show ?case using tree.change_follows [OF f(1) r(1,2) unregister(1)] by (simp add: flow_inv_def)
qed

lemma flow_reachable_inv: "flow_reachable inline fl \<Longrightarrow> flow_inv fl"
  by (induction rule: flow_reachable.induct) (use new_inv flow_step_inv in blast)+

text \<open>What the interface calls \<open>wanted\<close> is what the report concerns.\<close>

lemma wanted_now:
  assumes "flow_inv fl" "fl_state fl \<noteq> FL_IDLE \<or> good_report (fl_report fl)"
  shows "tree_wanted (fl_report fl) (fl_registry fl) = concerned (fl_report fl) (fl_registry fl)"
proof -
  have "tree.following fl" "contents_ok (fl_registry fl)" using assms(1) by (simp_all add: flow_inv_def)
  moreover from this(1) have "good_report (fl_report fl)" using assms(2) by (auto simp: tree.following_def)
  ultimately show ?thesis using wanted_concerned ok_of by blast
qed

text \<open>C3: No step of the flow ever fails, and every handler is called: in every state that can be
  reached, with handlers registered and removed and other flows iterating between any two steps, the flow takes any message
  when it is idle and the iteration step succeeds when it is due; and when this step ends the iteration, the calls
  since the last start of the iterator were exactly one for every handler entry that is registered at that
  moment and has an event in common with the report. Ranges are registered aligned, as the interface
  asks for, and the registry changes less than \<open>2 ^ 32\<close> times between two looks of the flow at its epoch.\<close>

theorem every_handler_called:
  assumes "flow_reachable inline fl"
  shows "(fl_state fl = FL_IDLE \<longrightarrow> flow_entry get_epoch init_iteration big msg fl \<noteq> None) \<and>
    (fl_state fl = FL_ITERATE \<longrightarrow> (\<exists>fl'. tree_iterate inline fl = Some fl' \<and>
       (fl_state fl' = FL_IDLE \<longrightarrow> (\<exists>q p. fl_calls fl' = q @ p \<and> mset p = concerned (fl_report fl') (fl_registry fl')))))"
proof (intro conjI impI)
  have f: "tree.following fl" using flow_reachable_inv [OF assms(1)] by (simp add: flow_inv_def)
  show "flow_entry get_epoch init_iteration big msg fl \<noteq> None" if "fl_state fl = FL_IDLE"
  proof -
    obtain rep g where m: "event_message big msg (fl_report fl) = (rep, g)" by fastforce
    then have "g \<noteq> None \<Longrightarrow> good_report rep" using event_message_good by fastforce
    then show ?thesis using tree.entry_keeps [OF f that m] by auto
  qed
  assume it: "fl_state fl = FL_ITERATE"
  obtain fl' where i: "tree_iterate inline fl = Some fl'" "fl_report fl' = fl_report fl"
    "fl_state fl' = FL_IDLE \<longrightarrow> (\<exists>q p. fl_calls fl' = q @ p \<and> mset p = tree_wanted (fl_report fl') (fl_registry fl'))"
    using tree.iterate_keeps [OF f it] by blast
  have "flow_inv fl'"
    using flow_step_inv flow_step.iterate [OF it i(1)] flow_reachable_inv [OF assms(1)] by blast
  moreover have "good_report (fl_report fl)" using f it by (simp add: tree.following_def)
  ultimately have "tree_wanted (fl_report fl') (fl_registry fl') = concerned (fl_report fl') (fl_registry fl')"
    using wanted_now [of fl'] i(2) by metis
  then show "\<exists>fl'. tree_iterate inline fl = Some fl' \<and>
       (fl_state fl' = FL_IDLE \<longrightarrow> (\<exists>q p. fl_calls fl' = q @ p \<and> mset p = concerned (fl_report fl') (fl_registry fl')))"
    using i(1,3) by metis
qed

text \<open>C14: A handler is only called while it is registered for the report that it gets: whichever step
  of the flow makes a call, the iteration step itself or the flow that carries out a call from the queue, the
  entry that it calls is in the registry at that moment and has an event in common with the report.\<close>

theorem called_while_registered:
  assumes "flow_reachable inline fl" "flow_step inline fl fl'" "fl_calls fl' = fl_calls fl @ [e]"
  shows "e \<in># concerned (fl_report fl') (fl_registry fl')"
proof -
  have v: "flow_inv fl'" "flow_inv fl" using flow_reachable_inv assms(1) flow_step_inv [OF assms(2)] by blast+
  then have f: "tree.following fl" by (simp add: flow_inv_def)
  show ?thesis using assms(2,3)
  proof (cases rule: flow_step.cases)
    case (message big msg)
    then show ?thesis
      using assms(3) by (auto simp: flow_entry_def look_up_def split: prod.splits option.splits bind_splits)
  next
    case iterate
    have "fl_report fl' = fl_report fl" "e \<in># tree_wanted (fl_report fl') (fl_registry fl')"
      using tree.iterate_keeps [OF f iterate(1), of inline clear_iteration] iterate(2) assms(3) by auto
    moreover have "good_report (fl_report fl)" using f iterate(1) by (simp add: tree.following_def)
    ultimately show ?thesis using wanted_now [OF v(1)] by metis
  next
    case (caller e' ep)
    then have "ep = get_epoch (fl_registry fl)" "e' = e" "fl_registry fl' = fl_registry fl" "fl_report fl' = fl_report fl"
      using assms(3) by (auto simp: caller_entry_def split: if_splits)
    then show ?thesis using tree.caller_keeps(2) [OF f, of e ep] caller(2) wanted_now [OF v(2)] by simp
  qed (use assms(3) in \<open>auto simp: handler_done_def split: flow_state.splits\<close>)
qed

subsection \<open>A run\<close>

definition demo_entry :: registry_entry where
  "demo_entry = \<lparr>re_event = 5, re_handler = 7, re_user_arg = 0\<rparr>"

definition demo_event_message :: gen_message where
  "demo_event_message = gm_reset MTI_EVENT_REPORT 1 nh_none [0, 0, 0, 0, 0, 0, 0, 5]"

definition demo_tree :: "nat \<Rightarrow> event_tree" where
  "demo_tree n = \<lparr>handlers = [(0, \<lparr>container = [demo_entry], sortedCount = n\<rparr>)], dirtyCounter = 1\<rparr>"

definition demo_flow :: "flow_state \<Rightarrow> nat \<Rightarrow> tree_flow" where
  "demo_flow st pos = \<lparr>fl_registry = demo_tree 1, fl_it = \<lparr>it_mask = 0, it_pos = pos, it_end = 1\<rparr>, fl_state = st,
     fl_report = \<lparr>er_event = 5, er_mask = 0, er_src = \<lparr>nh_id = 1, nh_alias = 0\<rparr>, er_dst = None, er_state = VALID\<rparr>,
     fl_fn = Event_report, fl_epoch = 1, fl_calls = [], fl_changes = 0\<rparr>"

lemma flow_new_value: "flow_new = \<lparr>fl_registry = \<lparr>handlers = [(0, sls_new)], dirtyCounter = 0\<rparr>,
    fl_it = \<lparr>it_mask = 1, it_pos = 0, it_end = 0\<rparr>, fl_state = FL_IDLE,
    fl_report = \<lparr>er_event = 0, er_mask = 0, er_src = nh_none, er_dst = None, er_state = VALID\<rparr>,
    fl_fn = Event_report, fl_epoch = 0, fl_calls = [], fl_changes = 0\<rparr>"
  by (simp add: flow_new_def iterator_new_def tree_new_def clear_iteration_def Let_def)

lemma demo_registered: "flow_reachable inline (flow_new\<lparr>fl_registry := demo_tree 0, fl_changes := 1\<rparr>)"
proof -
  have "tree_register demo_entry 0 (fl_registry flow_new) = demo_tree 0" by code_simp
  moreover have "aligned (unat (0 :: u32)) (re_event demo_entry)" by (simp add: aligned_def block_0)
  ultimately have "flow_step inline flow_new (flow_new\<lparr>fl_registry := demo_tree 0, fl_changes := 1\<rparr>)"
    using flow_step.register [of 0 demo_entry flow_new inline] by (simp add: flow_new_value)
  then show ?thesis using flow_reachable.start flow_reachable.step by blast
qed

lemma demo_report: "event_message False demo_event_message (fl_report flow_new) =
    (\<lparr>er_event = 5, er_mask = 0, er_src = \<lparr>nh_id = 1, nh_alias = 0\<rparr>, er_dst = None, er_state = VALID\<rparr>, Some Event_report)"
  by code_simp

lemma demo_init:
  "init_iteration \<lparr>er_event = 5, er_mask = 0, er_src = \<lparr>nh_id = 1, nh_alias = 0\<rparr>, er_dst = None, er_state = VALID\<rparr> (demo_tree 0) i =
     Some (demo_tree 1, i\<lparr>it_mask := 0, it_pos := 0, it_end := 1\<rparr>)"
  by (simp add: init_iteration_def setup_current_mask_def demo_tree_def array_get_def sls_lower_bound_def sls_upper_bound_def
      sls_lazy_init_def window_start_def demo_entry_def Let_def)

lemma demo_iterating: "flow_reachable inline (demo_flow FL_ITERATE 0)"
proof -
  let ?fl = "flow_new\<lparr>fl_registry := demo_tree 0, fl_changes := 1\<rparr> :: tree_flow"
  have "flow_entry get_epoch init_iteration False demo_event_message ?fl = Some (demo_flow FL_ITERATE 0)"
    using demo_report
    by (simp add: flow_entry_def look_up_def demo_init demo_flow_def flow_new_value)
      (simp add: demo_tree_def get_epoch_def)
  then have "flow_step inline ?fl (demo_flow FL_ITERATE 0)"
    by (intro flow_step.message) (simp_all add: flow_new_value)
  then show ?thesis using demo_registered flow_reachable.step by blast
qed

lemma demo_called: "tree_iterate False (demo_flow FL_ITERATE 0) = Some (demo_flow (FL_CALL demo_entry 1) 1)"
  by (simp add: iterate_next_def demo_flow_def get_epoch_def demo_tree_def next_handler.simps array_get_def dispatch_event_def)

text \<open>The same message with the handler called by the flow itself.\<close>

definition demo_finish :: "flow_state \<Rightarrow> tree_flow" where
  "demo_finish st = (demo_flow st 1)\<lparr>fl_calls := [demo_entry]\<rparr>"

lemma demo_inline: "tree_iterate True (demo_flow FL_ITERATE 0) = Some (demo_finish FL_WAIT)"
  by (simp add: iterate_next_def demo_flow_def demo_finish_def get_epoch_def demo_tree_def next_handler.simps array_get_def
      dispatch_event_def)

lemma demo_last: "flow_reachable True (demo_finish FL_ITERATE)"
proof -
  have "flow_reachable True (demo_finish FL_WAIT)"
    using flow_step.iterate [OF _ demo_inline] demo_iterating flow_reachable.step by (simp add: demo_flow_def) blast
  moreover have "handler_done (demo_finish FL_WAIT) = demo_finish FL_ITERATE"
    by (simp add: handler_done_def demo_finish_def demo_flow_def)
  ultimately show ?thesis using flow_step.handled flow_reachable.step by metis
qed

lemma demo_end: "map_option (\<lambda>fl. (fl_state fl, fl_calls fl)) (tree_iterate True (demo_finish FL_ITERATE)) = Some (FL_IDLE, [demo_entry])"
  by (simp add: iterate_next_def demo_flow_def demo_finish_def get_epoch_def demo_tree_def next_handler.simps array_get_def
      setup_current_mask_def)

theorem every_handler_called_witness:
  "\<exists>fl'. tree_iterate True (demo_finish FL_ITERATE) = Some fl' \<and> fl_state fl' = FL_IDLE \<and> fl_calls fl' = [demo_entry] \<and>
     (\<exists>q p. [demo_entry] = q @ p \<and> mset p = concerned (fl_report fl') (fl_registry fl'))"
proof -
  have "fl_state (demo_finish FL_ITERATE) = FL_ITERATE" by (simp add: demo_flow_def demo_finish_def)
  then show ?thesis using every_handler_called [OF demo_last] demo_end by fastforce
qed

theorem called_while_registered_witness:
  "demo_entry \<in># concerned (fl_report (demo_finish FL_WAIT)) (demo_tree 1)"
proof -
  have "flow_step True (demo_flow FL_ITERATE 0) (demo_finish FL_WAIT)"
    using flow_step.iterate [OF _ demo_inline] by (simp add: demo_flow_def)
  then have "demo_entry \<in># concerned (fl_report (demo_finish FL_WAIT)) (fl_registry (demo_finish FL_WAIT))"
    by (rule called_while_registered [OF demo_iterating]) (simp add: demo_flow_def demo_finish_def)
  then show ?thesis by (simp add: demo_flow_def demo_finish_def)
qed

end
