(* ===== verification/EventHandlers.thy ===== *)
theory EventHandlers
  imports EventFlow
begin

section \<open>Event handlers (openlcb/EventHandlerTemplates.hxx, EventHandlerTemplates.cpp)\<close>

text \<open>
  Handlers that keep a bit, a range of bits or a range of bytes in step with events. A handler gives
  its new state and the messages that it writes, as type and event id; the notification that it is done comes once
  for each call and is left out. \<open>MTI + 1\<close> of a valid state is the invalid one.
\<close>

type_synonym event_write = "mti \<times> event_id"

text \<open>The message that a write of the node with id \<open>nid\<close> becomes.\<close>

definition written :: "bool \<Rightarrow> node_id \<Rightarrow> event_write \<Rightarrow> gen_message" where
  "written big nid w = gm_reset (fst w) nid nh_none (eventid_to_buffer big (snd w))"

subsection \<open>A range of bits (BitRangeEventPC)\<close>

record bit_range =
  br_base :: event_id
  br_data :: "u32 list"
  br_size :: u32

definition br_register :: "nat \<Rightarrow> bit_range \<Rightarrow> event_tree \<Rightarrow> event_tree option" where
  "br_register h b t = do {
     (e, m) \<leftarrow> align_mask (br_base b) (br_size b * 2);
     Some (tree_register \<lparr>re_event = e, re_handler = h, re_user_arg = 0\<rparr> (of_nat m) t)
   }"

definition GetBitAndMask :: "u32 \<Rightarrow> bit_range \<Rightarrow> (nat \<times> u32) option" where
  "GetBitAndMask n b = (if n \<ge> br_size b then None else Some (unat (drop_bit 5 n), push_bit (unat (n AND 31)) 1))"

definition br_get :: "u32 \<Rightarrow> bit_range \<Rightarrow> bool option" where
  "br_get n b = do {
     hassert (n < br_size b);
     (case GetBitAndMask n b of None \<Rightarrow> Some False
      | Some (ofs, m) \<Rightarrow> do { w \<leftarrow> array_get (br_data b) ofs; Some (w AND m \<noteq> 0) })
   }"

text \<open>Storing a n through the pointer and mask of \<open>GetBitAndMask\<close>; a null pointer faults.\<close>

definition br_store :: "u32 \<Rightarrow> bool \<Rightarrow> bit_range \<Rightarrow> bit_range option" where
  "br_store n v b = do {
     (ofs, m) \<leftarrow> GetBitAndMask n b;
     w \<leftarrow> array_get (br_data b) ofs;
     d \<leftarrow> array_set (br_data b) ofs (if v then w OR m else w AND NOT m);
     Some (b\<lparr>br_data := d\<rparr>)
   }"

definition br_set :: "u32 \<Rightarrow> bool \<Rightarrow> bit_range \<Rightarrow> (bit_range \<times> event_write list) option" where
  "br_set n v b = do {
     old \<leftarrow> br_get n b;
     if old \<noteq> v then do {
       b \<leftarrow> br_store n v b;
       let event = br_base b + ucast (n * 2);
       Some (b, [(MTI_EVENT_REPORT, if v then event else event + 1)])
     } else Some (b, [])
   }"

definition br_event :: "event_id \<Rightarrow> bit_range \<Rightarrow> (u32 \<times> bool) option" where
  "br_event e b =
     (if e < br_base b then None
      else (let d = e - br_base b; v = (d AND 1 = 0); d = drop_bit 1 d in
            if d \<ge> ucast (br_size b) then None else Some (ucast d, v)))"

definition br_handle_event_report :: "event_report \<Rightarrow> bit_range \<Rightarrow> bit_range option" where
  "br_handle_event_report r b = (case br_event (er_event r) b of None \<Rightarrow> Some b | Some (n, v) \<Rightarrow> br_store n v b)"

definition br_HandleIdentifyBase :: "mti \<Rightarrow> event_report \<Rightarrow> bit_range \<Rightarrow> event_write list option" where
  "br_HandleIdentifyBase mti_valid r b = (case br_event (er_event r) b of None \<Rightarrow> Some []
     | Some (n, v) \<Rightarrow> do {
         old \<leftarrow> br_get n b;
         Some [(if old \<noteq> v then mti_valid + 1 else mti_valid, er_event r)]
       })"

definition br_handle_identify_producer :: "event_report \<Rightarrow> bit_range \<Rightarrow> event_write list option" where
  "br_handle_identify_producer = br_HandleIdentifyBase MTI_PRODUCER_IDENTIFIED_VALID"

definition br_handle_identify_consumer :: "event_report \<Rightarrow> bit_range \<Rightarrow> event_write list option" where
  "br_handle_identify_consumer = br_HandleIdentifyBase MTI_CONSUMER_IDENTIFIED_VALID"

text \<open>\<open>node\<close> is the node of the handler.\<close>

definition br_handle_identify_global :: "nat \<Rightarrow> event_report \<Rightarrow> bit_range \<Rightarrow> event_write list option" where
  "br_handle_identify_global node r b =
     (if er_dst r \<noteq> None \<and> er_dst r \<noteq> Some node then Some []
      else do {
        rg \<leftarrow> EncodeRange 64 (br_base b) (br_size b * 2);
        Some [(MTI_PRODUCER_IDENTIFIED_RANGE, rg), (MTI_CONSUMER_IDENTIFIED_RANGE, rg)]
      })"

definition br_SendIdentified :: "bit_range \<Rightarrow> event_write option" where
  "br_SendIdentified b = map_option (Pair MTI_PRODUCER_IDENTIFIED_RANGE) (EncodeRange 64 (br_base b) (br_size b * 2))"

text \<open>\<open>BitRangeEventP\<close> announces that it produces its events, and not that it consumes them.\<close>

definition br_producer_identify_global :: "nat \<Rightarrow> event_report \<Rightarrow> bit_range \<Rightarrow> event_write list option" where
  "br_producer_identify_global node r b =
     (if er_dst r \<noteq> None \<and> er_dst r \<noteq> Some node then Some []
      else do {
        rg \<leftarrow> EncodeRange 64 (br_base b) (br_size b * 2);
        Some [(MTI_PRODUCER_IDENTIFIED_RANGE, rg)]
      })"

subsection \<open>A range of bytes (ByteRangeEventC, ByteRangeEventP)\<close>

record byte_range =
  by_base :: event_id
  by_data :: "u8 list"
  by_size :: u32

definition by_register :: "nat \<Rightarrow> byte_range \<Rightarrow> event_tree \<Rightarrow> event_tree option" where
  "by_register h b t = do {
     (e, m) \<leftarrow> align_mask (by_base b) (by_size b * 256);
     Some (tree_register \<lparr>re_event = e, re_handler = h, re_user_arg = 0\<rparr> (of_nat m) t)
   }"

definition by_DecodeEventId :: "event_id \<Rightarrow> byte_range \<Rightarrow> (nat \<times> u8) option" where
  "by_DecodeEventId e b =
     (if e < by_base b then None
      else (let e = e - by_base b; v = ucast (e AND 0xff); e = drop_bit 8 e in
            if e \<ge> ucast (by_size b) then None else Some (unat e, v)))"

definition by_handle_event_report :: "event_report \<Rightarrow> byte_range \<Rightarrow> byte_range option" where
  "by_handle_event_report r b = (case by_DecodeEventId (er_event r) b of None \<Rightarrow> Some b
     | Some (i, v) \<Rightarrow> do { d \<leftarrow> array_set (by_data b) i v; Some (b\<lparr>by_data := d\<rparr>) })"

definition by_handle_identify_consumer :: "event_report \<Rightarrow> byte_range \<Rightarrow> event_write list option" where
  "by_handle_identify_consumer r b = (case by_DecodeEventId (er_event r) b of None \<Rightarrow> Some []
     | Some (i, v) \<Rightarrow> do {
         w \<leftarrow> array_get (by_data b) i;
         Some [(if w \<noteq> v then MTI_CONSUMER_IDENTIFIED_VALID + 1 else MTI_CONSUMER_IDENTIFIED_VALID, er_event r)]
       })"

definition by_CurrentEventId :: "u32 \<Rightarrow> byte_range \<Rightarrow> event_id option" where
  "by_CurrentEventId i b = do {
     w \<leftarrow> array_get (by_data b) (unat i);
     Some (by_base b + ucast (push_bit 8 i) + ucast w)
   }"

definition by_Update :: "u32 \<Rightarrow> byte_range \<Rightarrow> event_write option" where
  "by_Update i b = map_option (Pair MTI_EVENT_REPORT) (by_CurrentEventId i b)"

definition by_handle_identify_producer :: "event_report \<Rightarrow> byte_range \<Rightarrow> event_write list option" where
  "by_handle_identify_producer r b = (case by_DecodeEventId (er_event r) b of None \<Rightarrow> Some []
     | Some (i, v) \<Rightarrow> do {
         w \<leftarrow> array_get (by_data b) i;
         if w \<noteq> v then do {
           u \<leftarrow> by_Update (of_nat i) b;
           Some [u, (MTI_PRODUCER_IDENTIFIED_VALID + 1, er_event r)]
         } else Some [(MTI_PRODUCER_IDENTIFIED_VALID, er_event r)]
       })"

definition by_handle_consumer_identified :: "event_report \<Rightarrow> byte_range \<Rightarrow> event_write list option" where
  "by_handle_consumer_identified r b = (case by_DecodeEventId (er_event r) b of None \<Rightarrow> Some []
     | Some (i, v) \<Rightarrow> map_option (\<lambda>u. [u]) (by_Update (of_nat i) b))"

text \<open>There are four buffers for messages; a fifth byte would not pass the assertion.\<close>

definition by_handle_consumer_range_identified :: "event_report \<Rightarrow> byte_range \<Rightarrow> event_write list option" where
  "by_handle_consumer_range_identified r b =
     (if er_event r + er_mask r < by_base b \<or> er_event r \<ge> by_base b + ucast (by_size b * 256) then Some []
      else do {
        let first = (case by_DecodeEventId (er_event r) b of None \<Rightarrow> 0 | Some (i, v) \<Rightarrow> i);
        let stop = (case by_DecodeEventId (er_event r + er_mask r) b of None \<Rightarrow> unat (by_size b) | Some (i, v) \<Rightarrow> i + 1);
        us \<leftarrow> those (map (\<lambda>i. by_Update (of_nat i) b) (take 4 [first..<stop]));
        hassert (stop \<le> first + 4);
        Some us
      })"

definition by_handle_identify_global :: "bool \<Rightarrow> nat \<Rightarrow> event_report \<Rightarrow> byte_range \<Rightarrow> event_write list option" where
  "by_handle_identify_global producer node r b =
     (if er_dst r \<noteq> None \<and> er_dst r \<noteq> Some node then Some []
      else do {
        rg \<leftarrow> EncodeRange 64 (by_base b) (by_size b * 256);
        Some [(if producer then MTI_PRODUCER_IDENTIFIED_RANGE else MTI_CONSUMER_IDENTIFIED_RANGE, rg)]
      })"

definition by_SendIdentified :: "bool \<Rightarrow> byte_range \<Rightarrow> event_write option" where
  "by_SendIdentified producer b =
     map_option (Pair (if producer then MTI_PRODUCER_IDENTIFIED_RANGE else MTI_CONSUMER_IDENTIFIED_RANGE))
       (EncodeRange 64 (by_base b) (by_size b * 256))"

subsection \<open>Kinds of bits (DistributedBit, NetworkInitializedBit, MemoryBit)\<close>

record distributed_bit =
  db_state :: event_state
  db_requested :: event_state

definition db_new :: distributed_bit where
  "db_new = \<lparr>db_state = UNKNOWN_STATE, db_requested = INVALID\<rparr>"

definition db_set_state :: "bool \<Rightarrow> distributed_bit \<Rightarrow> distributed_bit" where
  "db_set_state v b = b\<lparr>db_state := to_event_state v\<rparr>"

definition db_set_requested_state :: "bool \<Rightarrow> distributed_bit \<Rightarrow> distributed_bit" where
  "db_set_requested_state v b = b\<lparr>db_requested := to_event_state v\<rparr>"

definition db_toggle_state :: "distributed_bit \<Rightarrow> distributed_bit" where
  "db_toggle_state b = b\<lparr>db_requested := (if db_state b = UNKNOWN_STATE then VALID else invert_event_state (db_state b))\<rparr>"

record network_bit =
  isKnown :: bool
  localState :: bool

definition nb_new :: "bool \<Rightarrow> network_bit" where
  "nb_new default_local_state = \<lparr>isKnown = False, localState = default_local_state\<rparr>"

definition nb_get_current_state :: "network_bit \<Rightarrow> event_state" where
  "nb_get_current_state b = (if \<not> isKnown b then UNKNOWN_STATE else if localState b then VALID else INVALID)"

definition nb_set_state :: "bool \<Rightarrow> network_bit \<Rightarrow> network_bit" where
  "nb_set_state v b = b\<lparr>isKnown := True, localState := v\<rparr>"

definition nb_toggle_state :: "network_bit \<Rightarrow> network_bit" where
  "nb_toggle_state b = nb_set_state (\<not> localState b) b"

definition nb_reset :: "network_bit \<Rightarrow> network_bit" where
  "nb_reset b = b\<lparr>isKnown := False\<rparr>"

record 'w memory_bit =
  mb_word :: 'w
  mb_mask :: 'w

definition mb_get_current_state :: "'a::len word memory_bit \<Rightarrow> event_state" where
  "mb_get_current_state b = (if mb_word b AND mb_mask b \<noteq> 0 then VALID else INVALID)"

definition mb_set_state :: "bool \<Rightarrow> 'a::len word memory_bit \<Rightarrow> 'a word memory_bit" where
  "mb_set_state v b = b\<lparr>mb_word := (if v then mb_word b OR mb_mask b else mb_word b AND NOT (mb_mask b))\<rparr>"

subsection \<open>A bit with two events (BitEventHandler and its derived classes)\<close>

text \<open>The events of the bit, the node id and the node of its interface; \<open>get\<close> and \<open>put\<close> are the methods
  \<open>get_current_state\<close> and \<open>set_state\<close> of its kind.\<close>

record bit_ids =
  bi_on :: event_id
  bi_off :: event_id
  bi_node_id :: node_id
  bi_node :: nat

definition EVENT_ON :: u32 where "EVENT_ON = 1"
definition EVENT_OFF :: u32 where "EVENT_OFF = 2"
definition BOTH_ON_IS_ZERO :: u32 where "BOTH_ON_IS_ZERO = 4"
definition BOTH_OFF_IS_ZERO :: u32 where "BOTH_OFF_IS_ZERO = 8"

definition bit_register_handler :: "nat \<Rightarrow> event_id \<Rightarrow> event_id \<Rightarrow> event_tree \<Rightarrow> event_tree" where
  "bit_register_handler h event_on event_off t =
     (if event_on XOR event_off = 1 then
        tree_register \<lparr>re_event = event_on AND NOT 1, re_handler = h,
          re_user_arg = (if event_on AND 1 \<noteq> 0 then BOTH_OFF_IS_ZERO else BOTH_ON_IS_ZERO)\<rparr> 1 t
      else
        tree_register \<lparr>re_event = event_off, re_handler = h, re_user_arg = EVENT_OFF\<rparr> 0
          (tree_register \<lparr>re_event = event_on, re_handler = h, re_user_arg = EVENT_ON\<rparr> 0 t))"

definition SendIdentified :: "mti \<Rightarrow> ('s \<Rightarrow> event_state) \<Rightarrow> bit_ids \<Rightarrow> 's \<Rightarrow> event_write list" where
  "SendIdentified mti_valid get b s =
     [(mti_plus mti_valid (get s), bi_on b), (mti_plus mti_valid (invert_event_state (get s)), bi_off b)]"

definition SendEventReport :: "event_state \<Rightarrow> bit_ids \<Rightarrow> event_write option" where
  "SendEventReport requested b =
     (if requested = VALID then Some (MTI_EVENT_REPORT, bi_on b)
      else if requested = INVALID then Some (MTI_EVENT_REPORT, bi_off b)
      else None)"

definition HandlePCIdentify :: "mti \<Rightarrow> ('s \<Rightarrow> event_state) \<Rightarrow> bit_ids \<Rightarrow> event_report \<Rightarrow> 's \<Rightarrow> event_write list" where
  "HandlePCIdentify m get b r s =
     (if nh_id (er_src r) = bi_node_id b then []
      else if er_event r = bi_on b then [(mti_plus m (get s), er_event r)]
      else if er_event r = bi_off b then [(mti_plus m (invert_event_state (get s)), er_event r)]
      else [])"

definition bit_handle_identify_producer :: "('s \<Rightarrow> event_state) \<Rightarrow> bit_ids \<Rightarrow> event_report \<Rightarrow> 's \<Rightarrow> event_write list" where
  "bit_handle_identify_producer = HandlePCIdentify MTI_PRODUCER_IDENTIFIED_VALID"

definition bit_handle_identify_consumer :: "('s \<Rightarrow> event_state) \<Rightarrow> bit_ids \<Rightarrow> event_report \<Rightarrow> 's \<Rightarrow> event_write list" where
  "bit_handle_identify_consumer = HandlePCIdentify MTI_CONSUMER_IDENTIFIED_VALID"

text \<open>\<open>handle_producer_identified\<close> of the consumer and \<open>handle_consumer_identified\<close> of \<open>BitEventPC\<close>, which are equal.\<close>

definition bit_handle_identified :: "(bool \<Rightarrow> 's \<Rightarrow> 's) \<Rightarrow> bit_ids \<Rightarrow> event_report \<Rightarrow> 's \<Rightarrow> 's" where
  "bit_handle_identified put b r s =
     (if er_state r \<notin> {VALID, INVALID} then s
      else (let value = (er_state r = VALID) in
            if er_event r = bi_on b then put value s
            else if er_event r = bi_off b then put (\<not> value) s
            else s))"

definition bit_handle_event_report :: "(bool \<Rightarrow> 's \<Rightarrow> 's) \<Rightarrow> bit_ids \<Rightarrow> event_report \<Rightarrow> 's \<Rightarrow> 's" where
  "bit_handle_event_report put b r s =
     (if er_event r = bi_on b then put True s else if er_event r = bi_off b then put False s else s)"

definition SendQuery :: "mti \<Rightarrow> bit_ids \<Rightarrow> event_write" where
  "SendQuery m b = (m, bi_on b)"

definition bit_handle_identify_global :: "bool \<Rightarrow> bool \<Rightarrow> ('s \<Rightarrow> event_state) \<Rightarrow> bit_ids \<Rightarrow> event_report \<Rightarrow> 's \<Rightarrow>
    event_write list" where
  "bit_handle_identify_global producer consumer get b r s =
     (if er_dst r \<noteq> None \<and> er_dst r \<noteq> Some (bi_node b) then []
      else (if producer then SendIdentified MTI_PRODUCER_IDENTIFIED_VALID get b s else []) @
        (if consumer then SendIdentified MTI_CONSUMER_IDENTIFIED_VALID get b s else []))"

end
