(* ===== verification/EventHandlersSpec.thy ===== *)
theory EventHandlersSpec
  imports EventHandlers
begin

section \<open>Handlers on both sides of an event agree\<close>

text \<open>
  What a range of bits or bytes writes makes a range of the same events on another node take the
  same values, and a consumer that asks for a bit learns it from the answer. The bits are used through
  the locale \<open>bit_interface\<close>, which the three kinds of bits interpret.
\<close>

subsection \<open>Messages\<close>

lemma event_id_back: "network_to_event_id big (eventid_to_buffer big e) = e"
  by (simp add: network_to_event_id_def eventid_to_buffer_def in_memory_be from_memory_be value_bytes)

lemma payload_8 [simp]: "length (eventid_to_buffer big e) = 8"
  by (simp add: eventid_bytes)

lemma event_message_written:
  assumes "m AND MTI_EVENT_MASK = MTI_EVENT_MASK"
  shows "event_message big (written big nid (m, e)) rep =
    event_switch (written big nid (m, e))
      (rep\<lparr>er_src := \<lparr>nh_id = nid, nh_alias = 0\<rparr>, er_dst := None, er_event := e, er_mask := 0\<rparr>)"
  using assms by (simp add: event_message_def written_def gm_reset_def event_id_back Let_def)

lemma report_written:
  "event_message big (written big nid (MTI_EVENT_REPORT, e)) rep =
    (rep\<lparr>er_src := \<lparr>nh_id = nid, nh_alias = 0\<rparr>, er_dst := None, er_event := e, er_mask := 0\<rparr>, Some Event_report)"
  by (subst event_message_written)
    (simp_all add: MTI_EVENT_REPORT_def MTI_EVENT_MASK_def event_switch_def written_def gm_reset_def)

lemmas mti_values = MTI_EVENT_MASK_def MTI_EVENT_REPORT_def MTI_CONSUMER_IDENTIFY_def MTI_CONSUMER_IDENTIFIED_RANGE_def
  MTI_CONSUMER_IDENTIFIED_UNKNOWN_def MTI_CONSUMER_IDENTIFIED_VALID_def MTI_CONSUMER_IDENTIFIED_INVALID_def
  MTI_CONSUMER_IDENTIFIED_RESERVED_def MTI_PRODUCER_IDENTIFY_def MTI_PRODUCER_IDENTIFIED_RANGE_def
  MTI_PRODUCER_IDENTIFIED_UNKNOWN_def MTI_PRODUCER_IDENTIFIED_VALID_def MTI_PRODUCER_IDENTIFIED_INVALID_def
  MTI_PRODUCER_IDENTIFIED_RESERVED_def

subsection \<open>Ranges of bits\<close>

definition br_wf :: "bit_range \<Rightarrow> bool" where
  "br_wf b \<longleftrightarrow> unat (br_size b) \<le> 32 * length (br_data b) \<and> unat (br_base b) + 2 * unat (br_size b) \<le> 2 ^ 64 \<and>
     unat (br_size b) \<le> 2 ^ 31"

lemma and_31: "unat ((n :: u32) AND 31) = unat n mod 32"
proof -
  have "n AND 31 = take_bit 5 n" by (simp add: take_bit_eq_mask mask_eq_exp_minus_1)
  then show ?thesis by (simp only: unsigned_take_bit_eq) (simp add: take_bit_eq_mod)
qed

lemma drop_5: "unat (drop_bit 5 (n :: u32)) = unat n div 32"
  by (simp add: drop_bit_eq_div unat_div_distrib)

lemma bit_and_mask: "n < br_size b \<Longrightarrow> GetBitAndMask n b = Some (unat n div 32, push_bit (unat n mod 32) 1)"
  by (simp add: GetBitAndMask_def and_31 drop_5 not_le)

lemma word_in: "br_wf b \<Longrightarrow> n < br_size b \<Longrightarrow> unat n div 32 < length (br_data b)"
  by (auto simp: br_wf_def word_less_nat_alt)

lemma masked_bit: "w AND push_bit k 1 \<noteq> 0 \<longleftrightarrow> bit (w :: u32) k"
  by (simp add: push_bit_of_1 and_exp_eq_0_iff_not_bit)

lemma br_get_in: "br_wf b \<Longrightarrow> n < br_size b \<Longrightarrow> br_get n b = Some (bit (br_data b ! (unat n div 32)) (unat n mod 32))"
  using word_in [of b n] masked_bit by (simp add: br_get_def bit_and_mask)

lemma br_store_in:
  assumes "br_wf b" "n < br_size b"
  obtains b' where "br_store n v b = Some b'" "br_wf b'" "br_size b' = br_size b" "br_base b' = br_base b"
    "\<And>m. m < br_size b \<Longrightarrow> br_get m b' = (if m = n then Some v else br_get m b)"
proof -
  let ?i = "unat n div 32"
  let ?m = "push_bit (unat n mod 32) 1 :: u32"
  let ?w = "if v then br_data b ! ?i OR ?m else br_data b ! ?i AND NOT ?m"
  let ?b = "b\<lparr>br_data := (br_data b)[?i := ?w]\<rparr>"
  have i: "?i < length (br_data b)" using assms by (rule word_in)
  have s: "br_store n v b = Some ?b" using i by (simp add: br_store_def bit_and_mask [OF assms(2)])
  have wf: "br_wf ?b" using assms(1) by (simp add: br_wf_def)
  have g: "br_get m ?b = (if m = n then Some v else br_get m b)" if m: "m < br_size b" for m
  proof -
    have e: "m = n \<longleftrightarrow> unat m div 32 = ?i \<and> unat m mod 32 = unat n mod 32"
      by (metis div_mult_mod_eq word_unat_eq_iff)
    have "br_get m ?b = Some (bit ((br_data b)[?i := ?w] ! (unat m div 32)) (unat m mod 32))"
      using br_get_in [OF wf, of m] m by simp
    also have "\<dots> = Some (if unat m div 32 = ?i then bit ?w (unat m mod 32) else bit (br_data b ! (unat m div 32)) (unat m mod 32))"
      using i by (simp add: nth_list_update)
    also have "bit ?w (unat m mod 32) = (if unat m mod 32 = unat n mod 32 then v else bit (br_data b ! ?i) (unat m mod 32))"
      by (auto simp: bit_simps)
    finally show ?thesis using br_get_in [OF assms(1) m] e by auto
  qed
  show thesis using that [OF s wf _ _ g] by simp
qed

lemma ranged_offset:
  assumes "unat (base :: u64) + k * unat (sz :: u32) \<le> 2 ^ 64" "unat (d :: u64) < k * unat sz"
  shows "base \<le> base + d" "base + d - base = d"
proof -
  have "unat base + unat d < 2 ^ 64" using assms by linarith
  then show "base \<le> base + d" by (simp add: no_olen_add_nat)
qed simp

lemma br_event_offset:
  assumes "br_base b \<le> br_base b + d" "br_base b + d - br_base b = d" "(d AND 1 = 0) = v" "drop_bit 1 d = ucast n"
    "n < br_size b"
  shows "br_event (br_base b + d) b = Some (n, v)"
proof -
  have "\<not> ucast (br_size b) \<le> (ucast n :: u64)" using assms(5) by (simp add: not_le word_less_nat_alt unat_ucast_u64)
  moreover have "ucast (ucast n :: u64) = n" by (simp add: word_unat_eq_iff unsigned_ucast_eq take_bit_nat_eq_self)
  ultimately show ?thesis using assms(1-4) by (simp add: br_event_def Let_def not_less)
qed

lemma br_event_of:
  assumes "br_wf b" "n < br_size b"
  shows "br_event (if v then br_base b + ucast (n * 2) else br_base b + ucast (n * 2) + 1) b = Some (n, v)"
proof -
  let ?d = "ucast (n * 2) + (if v then 0 else 1) :: u64"
  have n: "2 * unat n + 1 < 2 ^ 32" using assms by (auto simp: br_wf_def word_less_nat_alt)
  have d: "unat ?d = 2 * unat n + (if v then 0 else 1)"
  proof -
    have "unat (n * 2) = 2 * unat n" using n by (simp add: unat_word_ariths)
    then have "unat (ucast (n * 2) :: u64) = 2 * unat n" by (simp add: unat_ucast_u64)
    then show ?thesis using n by (cases v) (simp_all add: unat_word_ariths)
  qed
  have e: "(if v then br_base b + ucast (n * 2) else br_base b + ucast (n * 2) + 1) = br_base b + ?d" by simp
  have lt: "unat ?d < 2 * unat (br_size b)" using assms(2) by (auto simp: d word_less_nat_alt)
  have o: "br_base b \<le> br_base b + ?d" "br_base b + ?d - br_base b = ?d"
    using assms(1) lt by (auto simp: br_wf_def intro!: ranged_offset [of _ 2 "br_size b"])
  have odd: "(?d AND 1 = 0) = v"
  proof -
    have "?d AND 1 = 0 \<longleftrightarrow> even (unat ?d)" by (simp only: and_one_eq even_unat flip: even_iff_mod_2_eq_zero)
    then show ?thesis by (simp add: d)
  qed
  have "unat (drop_bit 1 ?d) = unat ?d div 2" by (simp only: drop_bit_eq_div unat_div_distrib power_one_right) simp
  also have "\<dots> = unat n" unfolding d by (cases v) simp_all
  finally have half: "drop_bit 1 ?d = ucast n" by (simp only: word_unat_eq_iff unat_ucast_u64)
  show ?thesis unfolding e by (rule br_event_offset [OF o odd half assms(2)])
qed

text \<open>The handler of a range gets the messages that were written, in order.\<close>

fun br_receive :: "bool \<Rightarrow> node_id \<Rightarrow> event_report \<Rightarrow> event_write list \<Rightarrow> bit_range \<Rightarrow> bit_range option" where
  "br_receive big nid rep [] r = Some r"
| "br_receive big nid rep (w # ws) r = (case event_message big (written big nid w) rep of
     (rep', Some Event_report) \<Rightarrow> Option.bind (br_handle_event_report rep' r) (br_receive big nid rep ws)
   | _ \<Rightarrow> br_receive big nid rep ws r)"

text \<open>C18: Setting a bit of a range and delivering what was written to a range of the same events on another
  node keeps the two ranges equal: both then have the new value at that bit, and all other bits are
  as they were, whichever byte order the machines have.\<close>

theorem bit_ranges_agree:
  assumes "br_wf s" "br_wf r" "br_base r = br_base s" "br_size r = br_size s" "n < br_size s"
    "\<forall>m < br_size s. br_get m r = br_get m s"
  shows "\<exists>s' ws r'. br_set n v s = Some (s', ws) \<and> br_receive big nid rep ws r = Some r' \<and>
    (\<forall>m < br_size s. br_get m s' = (if m = n then Some v else br_get m s) \<and> br_get m r' = br_get m s')"
proof -
  have old: "br_get n s = Some (bit (br_data s ! (unat n div 32)) (unat n mod 32))" using assms by (simp add: br_get_in)
  show ?thesis
  proof (cases "br_get n s = Some v")
    case True
    then show ?thesis using assms(6) by (auto simp: br_set_def)
  next
    case False
    obtain s' where s': "br_store n v s = Some s'" "br_base s' = br_base s"
      "\<And>m. m < br_size s \<Longrightarrow> br_get m s' = (if m = n then Some v else br_get m s)"
      using br_store_in [of s n v] assms(1,5) by metis
    obtain r' where r': "br_store n v r = Some r'"
      "\<And>m. m < br_size s \<Longrightarrow> br_get m r' = (if m = n then Some v else br_get m r)"
      using br_store_in [of r n v] assms(2,4,5) by metis
    let ?e = "if v then br_base s + ucast (n * 2) else br_base s + ucast (n * 2) + 1"
    have "br_set n v s = Some (s', [(MTI_EVENT_REPORT, ?e)])"
      using False old s'(1,2) by (simp add: br_set_def Let_def)
    moreover have "br_event ?e r = Some (n, v)" using br_event_of [of r n v] assms(2-5) by (cases v) simp_all
    then have "br_receive big nid rep [(MTI_EVENT_REPORT, ?e)] r = Some r'"
      using r'(1) by (simp add: report_written br_handle_event_report_def)
    ultimately show ?thesis using s'(3) r'(2) assms(6) by auto
  qed
qed

subsection \<open>Ranges of bytes\<close>

definition mb_ok :: "'a::len word memory_bit \<Rightarrow> bool" where "mb_ok b \<longleftrightarrow> mb_mask b \<noteq> 0"

definition by_wf :: "byte_range \<Rightarrow> bool" where
  "by_wf b \<longleftrightarrow> unat (by_size b) \<le> length (by_data b) \<and> unat (by_base b) + 256 * unat (by_size b) \<le> 2 ^ 64 \<and>
     unat (by_size b) \<le> 2 ^ 24"

lemma by_decode_of:
  assumes "by_wf b" "i < by_size b"
  shows "by_DecodeEventId (by_base b + ucast (push_bit 8 i) + ucast (w :: u8)) b = Some (unat i, w)"
proof -
  let ?d = "ucast (push_bit 8 i) + ucast w :: u64"
  have i: "unat i < 16777216" using assms by (auto simp: by_wf_def word_less_nat_alt)
  have "unat (push_bit 8 i) = 256 * unat i"
    using i by (simp add: push_bit_eq_mult unat_word_ariths)
  then have p: "unat (ucast (push_bit 8 i) :: u64) = 256 * unat i" by (simp only: unat_ucast_u64)
  have w8: "unat w < 256" using unat_less_power [of w] by simp
  then have w: "unat (ucast w :: u64) = unat w" "unat w < 256"
    by (simp_all add: unsigned_ucast_eq take_bit_nat_eq_self_iff order.strict_trans [OF w8])
  have "256 * unat i + unat w < 18446744073709551616" using i w8 by linarith
  then have d: "unat ?d = 256 * unat i + unat w" by (simp add: unat_word_ariths p w)
  have "unat i + 1 \<le> unat (by_size b)" using assms(2) by (simp add: word_less_nat_alt)
  then have "unat ?d < 256 * unat (by_size b)" unfolding d using w8 by linarith
  then have o: "by_base b \<le> by_base b + ?d" "by_base b + ?d - by_base b = ?d"
    using assms(1) by (auto simp: by_wf_def intro!: ranged_offset [of _ 256 "by_size b"])
  have "unat (drop_bit 8 ?d) = unat ?d div 2 ^ 8" by (simp only: drop_bit_eq_div unat_div_distrib) simp
  also have "\<dots> = unat i" unfolding d by simp
  finally have h: "unat (drop_bit 8 ?d) = unat i" .
  have v: "(ucast (?d AND 0xff) :: u8) = w"
  proof -
    have "?d AND 0xff = take_bit 8 ?d" by (simp add: take_bit_eq_mask mask_eq_exp_minus_1)
    then have "unat (?d AND 0xff) = unat w" using w8 by (simp only: unsigned_take_bit_eq d) (simp add: take_bit_eq_mod)
    then show ?thesis by (simp add: word_unat_eq_iff unsigned_ucast_eq take_bit_nat_eq_self)
  qed
  have "\<not> ucast (by_size b) \<le> drop_bit 8 ?d" using assms(2) by (simp only: word_le_nat_alt h unat_ucast_u64) (simp add: word_less_nat_alt)
  then show ?thesis
    using o v h by (simp only: by_DecodeEventId_def Let_def add.assoc not_less [symmetric] if_False)
qed

fun by_receive :: "bool \<Rightarrow> node_id \<Rightarrow> event_report \<Rightarrow> event_write \<Rightarrow> byte_range \<Rightarrow> byte_range option" where
  "by_receive big nid rep w c = (case event_message big (written big nid w) rep of
     (rep', Some Event_report) \<Rightarrow> by_handle_event_report rep' c | _ \<Rightarrow> Some c)"

text \<open>C32: What the producer of a range of bytes writes for byte \<open>i\<close> makes a consumer of the same events take
  over that byte and no other.\<close>

theorem byte_range_copied:
  assumes "by_wf p" "by_wf c" "by_base c = by_base p" "by_size c = by_size p" "i < by_size p"
  shows "\<exists>w. by_Update i p = Some w \<and>
    by_receive big nid rep w c = Some (c\<lparr>by_data := (by_data c)[unat i := by_data p ! unat i]\<rparr>)"
proof -
  have i: "unat i < length (by_data p)" "unat i < length (by_data c)"
    using assms by (auto simp: by_wf_def word_less_nat_alt)
  let ?e = "by_base p + ucast (push_bit 8 i) + ucast (by_data p ! unat i)"
  have "by_Update i p = Some (MTI_EVENT_REPORT, ?e)"
    using i(1) by (simp add: by_Update_def by_CurrentEventId_def)
  moreover have "by_DecodeEventId ?e c = Some (unat i, by_data p ! unat i)"
    using by_decode_of [of c i] assms by simp
  ultimately show ?thesis using i(2) by (simp add: report_written by_handle_event_report_def)
qed

subsection \<open>Bits\<close>

text \<open>What the handlers of a bit rely on: a state that is set is read back.\<close>

locale bit_interface =
  fixes ok :: "'s \<Rightarrow> bool" and get :: "'s \<Rightarrow> event_state" and put :: "bool \<Rightarrow> 's \<Rightarrow> 's"
  assumes get_put: "ok s \<Longrightarrow> get (put v s) = to_event_state v"
    and ok_put: "ok s \<Longrightarrow> ok (put v s)"
begin

lemma event_state_flip: "to_event_state (\<not> v) = invert_event_state (to_event_state v)"
  by (simp add: to_event_state_def invert_event_state_def)

lemma bit_reported:
  assumes "ok s" "er_event r = (if v then bi_on b else bi_off b)" "bi_on b \<noteq> bi_off b"
  shows "get (bit_handle_event_report put b r s) = to_event_state v"
  using assms get_put [of s] by (simp add: bit_handle_event_report_def)

lemma learned:
  assumes "ok s" "er_event r = bi_on b" "er_state r = st" "st \<in> {VALID, INVALID}"
  shows "get (bit_handle_identified put b r s) = st"
  using assms get_put [of s] by (auto simp: bit_handle_identified_def Let_def to_event_state_def)

lemma not_learned: "er_state r \<notin> {VALID, INVALID} \<Longrightarrow> bit_handle_identified put b r s = s"
  by (simp add: bit_handle_identified_def)

end

interpretation distributed: bit_interface "\<lambda>b. True" db_state db_set_state
  by unfold_locales (simp_all add: db_set_state_def)

interpretation network: bit_interface "\<lambda>b. True" nb_get_current_state nb_set_state
  by unfold_locales (simp_all add: nb_set_state_def nb_get_current_state_def to_event_state_def)

lemma masked: "(w OR m) AND m = (m :: 'a::len word)" "(w AND NOT m) AND m = 0"
  by (rule bit_word_eqI; auto simp: bit_simps)+

interpretation memory: bit_interface mb_ok mb_get_current_state mb_set_state
  by unfold_locales (auto simp: mb_ok_def mb_set_state_def mb_get_current_state_def to_event_state_def masked)

text \<open>C26: A consumer that asks the other node for its bit gets one answer, whose message is one of the
  identified messages, and then has the state of the producer if that is known; else it keeps its own.\<close>

theorem bit_query_answered:
  assumes "bi_on p = bi_on c" "bi_node_id p \<noteq> bi_node_id c"
  shows "\<exists>rep1 w rep2. event_message big (written big (bi_node_id c) (SendQuery MTI_PRODUCER_IDENTIFY c)) rep =
      (rep1, Some Identify_producer) \<and> bit_handle_identify_producer get p rep1 s = [w] \<and>
    event_message big (written big (bi_node_id p) w) rep' = (rep2, Some Producer_identified) \<and>
    (let t' = bit_handle_identified nb_set_state c rep2 t in
     if get s \<in> {VALID, INVALID} then nb_get_current_state t' = get s else t' = t)"
proof -
  let ?rep = "\<lambda>nid rep. rep\<lparr>er_src := \<lparr>nh_id = nid, nh_alias = 0\<rparr>, er_dst := None, er_event := bi_on c, er_mask := 0\<rparr>"
  let ?w = "(mti_plus MTI_PRODUCER_IDENTIFIED_VALID (get s), bi_on c)"
  let ?rep2 = "(?rep (bi_node_id p) rep')\<lparr>er_state := get s\<rparr>"
  have q: "event_message big (written big (bi_node_id c) (SendQuery MTI_PRODUCER_IDENTIFY c)) rep =
      (?rep (bi_node_id c) rep, Some Identify_producer)"
    unfolding SendQuery_def
    by (subst event_message_written) (simp_all add: event_switch_def written_def gm_reset_def mti_values)
  have a: "bit_handle_identify_producer get p (?rep (bi_node_id c) rep) s = [?w]"
    using assms by (auto simp: bit_handle_identify_producer_def HandlePCIdentify_def)
  have m: "event_message big (written big (bi_node_id p) ?w) rep' = (?rep2, Some Producer_identified)"
    by (cases "get s"; subst event_message_written)
      (simp_all add: event_switch_def written_def gm_reset_def mti_plus_def event_state_code_def mti_values)
  have "let t' = bit_handle_identified nb_set_state c ?rep2 t in
      if get s \<in> {VALID, INVALID} then nb_get_current_state t' = get s else t' = t"
    using network.learned [where s = t and r = ?rep2 and b = c and st = "get s"] by (simp add: Let_def network.not_learned)
  then show ?thesis using q a m by blast
qed

subsection \<open>Examples\<close>

definition no_report :: event_report where
  "no_report = \<lparr>er_event = 0, er_mask = 0, er_src = nh_none, er_dst = None, er_state = VALID\<rparr>"

definition demo_bits :: bit_range where
  "demo_bits = \<lparr>br_base = 0x0501010118000000, br_data = [0, 2], br_size = 40\<rparr>"

theorem bit_ranges_agree_witness:
  "\<exists>s' ws r'. br_set 34 True demo_bits = Some (s', ws) \<and> br_receive False 1 no_report ws demo_bits = Some r' \<and>
    br_get 33 r' = Some True \<and> br_get 34 r' = Some True \<and> br_get 35 r' = Some False"
proof -
  have old: "br_get 33 demo_bits = Some True" "br_get 35 demo_bits = Some False" by code_simp+
  have wf: "br_wf demo_bits" by (simp add: br_wf_def demo_bits_def)
  have sz: "br_size demo_bits = 40" by (simp add: demo_bits_def)
  obtain s' ws r' where r: "br_set 34 True demo_bits = Some (s', ws)" "br_receive False 1 no_report ws demo_bits = Some r'"
    "\<forall>m < 40. br_get m s' = (if m = 34 then Some True else br_get m demo_bits) \<and> br_get m r' = br_get m s'"
    using bit_ranges_agree [OF wf wf, of 34 True False 1 no_report] by (auto simp: sz)
  then show ?thesis using r(3) [rule_format, of 33] r(3) [rule_format, of 34] r(3) [rule_format, of 35] old by simp
qed

definition demo_bytes :: "u8 list \<Rightarrow> byte_range" where
  "demo_bytes d = \<lparr>by_base = 0x0501010118010000, by_data = d, by_size = 3\<rparr>"

theorem byte_range_copied_witness:
  "\<exists>w. by_Update 1 (demo_bytes [7, 8, 9]) = Some w \<and>
    by_receive True 1 no_report w (demo_bytes [1, 2, 3]) = Some (demo_bytes [1, 8, 3])"
  using byte_range_copied [of "demo_bytes [7, 8, 9]" "demo_bytes [1, 2, 3]" 1 True 1 no_report]
  by (simp add: demo_bytes_def by_wf_def)

theorem bit_query_answered_witness:
  "\<exists>rep1 w rep2. bit_handle_identify_producer (\<lambda>s. INVALID) \<lparr>bi_on = 4, bi_off = 6, bi_node_id = 8, bi_node = 0\<rparr> rep1 () = [w] \<and>
    event_message False (written False 8 w) no_report = (rep2, Some Producer_identified) \<and>
    nb_get_current_state (bit_handle_identified nb_set_state \<lparr>bi_on = 4, bi_off = 5, bi_node_id = 9, bi_node = 0\<rparr> rep2 (nb_new True)) =
      INVALID"
  using bit_query_answered [where p = "\<lparr>bi_on = 4, bi_off = 6, bi_node_id = 8, bi_node = 0\<rparr>"
      and c = "\<lparr>bi_on = 4, bi_off = 5, bi_node_id = 9, bi_node = 0\<rparr>" and big = False and rep = no_report and rep' = no_report
      and get = "\<lambda>s. INVALID" and t = "nb_new True" and s = "()"]
  by (simp add: Let_def) blast

text \<open>A consumer that announces a range of more than four bytes stops the producer.\<close>

lemma fifth_byte_stops:
  "by_handle_consumer_range_identified (no_report\<lparr>er_event := 0x4000, er_mask := 0x7ff\<rparr>)
     \<lparr>by_base = 0x4000, by_data = [1, 2, 3, 4, 5], by_size = 5\<rparr> = None"
  "by_handle_consumer_range_identified (no_report\<lparr>er_event := 0x4000, er_mask := 0x3ff\<rparr>)
     \<lparr>by_base = 0x4000, by_data = [1, 2, 3, 4, 5], by_size = 5\<rparr> =
     Some [(MTI_EVENT_REPORT, 0x4001), (MTI_EVENT_REPORT, 0x4102), (MTI_EVENT_REPORT, 0x4203), (MTI_EVENT_REPORT, 0x4304)]"
  by code_simp+

end
