(* ===== verification/Routing.thy ===== *)
theory Routing
  imports EventRange
begin

section \<open>Routing tables (openlcb/RoutingLogic.hxx)\<close>

text \<open>
  Where a gateway sends addressed messages, and which events have a listener on which port. Ports
  are numbers and \<open>nullptr\<close> is \<open>None\<close>; addresses are of any type. The sets of events
  are kept per number of mask bits, in a list by this number. The lock only makes the methods exclude each other.
\<close>

type_synonym port = nat
type_synonym event_set = "(nat \<times> event_id list) list"

record 'a router =
  addressRoutingTable :: "'a \<Rightarrow> port option option"
  eventRoutingTable :: "port \<Rightarrow> event_set option"

definition router_new :: "'a router" where
  "router_new = \<lparr>addressRoutingTable = (\<lambda>_. None), eventRoutingTable = (\<lambda>_. None)\<rparr>"

definition remove_port :: "port \<Rightarrow> 'a router \<Rightarrow> 'a router" where
  "remove_port p r = r\<lparr>eventRoutingTable := (eventRoutingTable r)(p := None),
     addressRoutingTable := (\<lambda>a. if addressRoutingTable r a = Some (Some p) then Some None else addressRoutingTable r a)\<rparr>"

definition add_node_id_to_route :: "port \<Rightarrow> 'a \<Rightarrow> 'a router \<Rightarrow> 'a router" where
  "add_node_id_to_route p a r = r\<lparr>addressRoutingTable := (addressRoutingTable r)(a := Some (Some p))\<rparr>"

definition lookup_port_for_address :: "'a \<Rightarrow> 'a router \<Rightarrow> port option" where
  "lookup_port_for_address a r = (case addressRoutingTable r a of None \<Rightarrow> None | Some p \<Rightarrow> p)"

text \<open>\<open>registeredConsumers_[k].insert(e)\<close>\<close>

fun insert_at :: "nat \<Rightarrow> event_id \<Rightarrow> event_set \<Rightarrow> event_set" where
  "insert_at k e [] = [(k, [e])]"
| "insert_at k e ((j, s) # m) =
     (if k < j then (k, [e]) # (j, s) # m
      else if k = j then (j, List.insert e s) # m
      else (j, s) # insert_at k e m)"

definition add_consumer :: "port \<Rightarrow> nat \<Rightarrow> event_id \<Rightarrow> 'a router \<Rightarrow> 'a router" where
  "add_consumer p k e r = r\<lparr>eventRoutingTable := (eventRoutingTable r)
     (p := Some (insert_at k e (case eventRoutingTable r p of None \<Rightarrow> [] | Some m \<Rightarrow> m)))\<rparr>"

definition register_consumer :: "port \<Rightarrow> event_id \<Rightarrow> 'a router \<Rightarrow> 'a router" where
  "register_consumer p e r = add_consumer p 0 e r"

definition register_consumer_range :: "port \<Rightarrow> event_id \<Rightarrow> 'a router \<Rightarrow> 'a router" where
  "register_consumer_range p encoded_range r = (case event_range_to_bit_count encoded_range of (b, k) \<Rightarrow> add_consumer p k b r)"

definition register_producer :: "port \<Rightarrow> event_id \<Rightarrow> 'a router \<Rightarrow> 'a router" where
  "register_producer p e r = register_consumer p e r"

definition register_producer_range :: "port \<Rightarrow> event_id \<Rightarrow> 'a router \<Rightarrow> 'a router" where
  "register_producer_range p encoded_range r = register_consumer_range p encoded_range r"

definition check_pcer :: "port \<Rightarrow> event_id \<Rightarrow> 'a router \<Rightarrow> bool" where
  "check_pcer p e r = (case eventRoutingTable r p of None \<Rightarrow> False
     | Some m \<Rightarrow> list_ex (\<lambda>(k, s).
         if k = 0 then e \<in> set s
         else if k = 64 then s \<noteq> []
         else e AND NOT (push_bit k 1 - 1) \<in> set s) m)"

subsection \<open>Calls\<close>

datatype 'a router_call = Remove_port port | Add_node port 'a | Consumer port event_id | Consumer_range port event_id |
  Producer port event_id | Producer_range port event_id

fun router_do :: "'a router_call \<Rightarrow> 'a router \<Rightarrow> 'a router" where
  "router_do (Remove_port p) r = remove_port p r"
| "router_do (Add_node p a) r = add_node_id_to_route p a r"
| "router_do (Consumer p e) r = register_consumer p e r"
| "router_do (Consumer_range p e) r = register_consumer_range p e r"
| "router_do (Producer p e) r = register_producer p e r"
| "router_do (Producer_range p e) r = register_producer_range p e r"

text \<open>What the calls mean: the ranges announced on each port, as base and number of bits, and the last
  port on which each address was seen. The first call of the list is the last one made.\<close>

fun announced :: "'a router_call list \<Rightarrow> port \<Rightarrow> (event_id \<times> nat) set" where
  "announced [] p = {}"
| "announced (Remove_port q # cs) p = (if q = p then {} else announced cs p)"
| "announced (Consumer q e # cs) p = (if q = p then insert (e, 0) (announced cs p) else announced cs p)"
| "announced (Producer q e # cs) p = (if q = p then insert (e, 0) (announced cs p) else announced cs p)"
| "announced (Consumer_range q e # cs) p =
     (if q = p then insert (event_range_to_bit_count e) (announced cs p) else announced cs p)"
| "announced (Producer_range q e # cs) p =
     (if q = p then insert (event_range_to_bit_count e) (announced cs p) else announced cs p)"
| "announced (Add_node q a # cs) p = announced cs p"

fun seen_at :: "'a router_call list \<Rightarrow> 'a \<Rightarrow> port option" where
  "seen_at [] a = None"
| "seen_at (Add_node q b # cs) a = (if b = a then Some q else seen_at cs a)"
| "seen_at (Remove_port q # cs) a = (if seen_at cs a = Some q then None else seen_at cs a)"
| "seen_at (Consumer q e # cs) a = seen_at cs a"
| "seen_at (Producer q e # cs) a = seen_at cs a"
| "seen_at (Consumer_range q e # cs) a = seen_at cs a"
| "seen_at (Producer_range q e # cs) a = seen_at cs a"

definition entries_of :: "event_set \<Rightarrow> (event_id \<times> nat) set" where
  "entries_of m = (\<Union>(k, s) \<in> set m. (\<lambda>e. (e, k)) ` set s)"

lemma entries_Cons: "entries_of ((k, s) # m) = (\<lambda>e. (e, k)) ` set s \<union> entries_of m" "entries_of [] = {}"
  by (simp_all add: entries_of_def)

lemma entries_insert: "entries_of (insert_at k e m) = insert (e, k) (entries_of m)"
  by (induction m) (auto simp: entries_Cons split: if_splits)

definition router_rel :: "'a router_call list \<Rightarrow> 'a router \<Rightarrow> bool" where
  "router_rel cs r \<longleftrightarrow> (\<forall>p. (case eventRoutingTable r p of None \<Rightarrow> {} | Some m \<Rightarrow> entries_of m) = announced cs p) \<and>
     (\<forall>a. lookup_port_for_address a r = seen_at cs a)"

lemma add_consumer_rel:
  "router_rel cs r \<Longrightarrow> (case eventRoutingTable (add_consumer q k e r) p of None \<Rightarrow> {} | Some m \<Rightarrow> entries_of m) =
     (if q = p then insert (e, k) (announced cs p) else announced cs p)"
proof -
  assume "router_rel cs r"
  then have a: "(case eventRoutingTable r p of None \<Rightarrow> {} | Some m \<Rightarrow> entries_of m) = announced cs p"
    by (simp add: router_rel_def)
  have "entries_of [] = {}" by (simp add: entries_of_def)
  then show ?thesis using a by (auto simp: add_consumer_def entries_insert split: option.splits)
qed

lemma add_consumer_seen: "lookup_port_for_address a (add_consumer q k e r) = lookup_port_for_address a r"
  by (simp add: lookup_port_for_address_def add_consumer_def)

lemmas registers = register_consumer_def register_producer_def register_consumer_range_def register_producer_range_def

lemma router_do_rel:
  assumes "router_rel cs r"
  shows "router_rel (c # cs) (router_do c r)"
proof -
  have ev: "(case eventRoutingTable r p of None \<Rightarrow> {} | Some m \<Rightarrow> entries_of m) = announced cs p" for p
    using assms by (simp add: router_rel_def)
  have ad: "(case addressRoutingTable r a of None \<Rightarrow> None | Some p \<Rightarrow> p) = seen_at cs a" for a
    using assms by (simp add: router_rel_def lookup_port_for_address_def)
  show ?thesis
  proof (cases c)
    case (Remove_port q)
    then show ?thesis
      using ev ad [symmetric] by (auto simp: router_rel_def remove_port_def lookup_port_for_address_def split: option.split)
  next
    case (Add_node q a)
    then show ?thesis
      using ev ad by (auto simp: router_rel_def add_node_id_to_route_def lookup_port_for_address_def)
  qed (use assms in \<open>auto simp: router_rel_def registers add_consumer_rel [OF assms] add_consumer_seen split: prod.splits\<close>)
qed

lemma router_run_rel: "router_rel cs (foldr router_do cs router_new)"
proof (induction cs)
  case Nil
  then show ?case by (simp add: router_rel_def router_new_def lookup_port_for_address_def)
next
  case (Cons c cs)
  then show ?case using router_do_rel by simp
qed

lemma range_of_all: "event_range_to_bit_count e = (b, k) \<Longrightarrow> 0 < k \<and> k \<le> 64 \<and> (k = 64 \<longrightarrow> b = 0)"
proof -
  assume e: "event_range_to_bit_count e = (b, k)"
  consider "e = 0" | "e = - 1" | k where "reads_as e k" using reads_as_exists by blast
  then show ?thesis
  proof cases
    case 3
    then show ?thesis using e event_range_read [OF 3] unfolding reads_as_def by simp
  qed (use e all_events in simp_all)
qed

lemma announced_ranges: "(b, k) \<in> announced cs p \<Longrightarrow> k = 0 \<or> k < 64 \<or> k = 64 \<and> b = 0"
proof (induction cs)
  case (Cons c cs)
  have r: "(b, k) = event_range_to_bit_count e \<Longrightarrow> k = 0 \<or> k < 64 \<or> k = 64 \<and> b = 0" for e
    using range_of_all [of e b k] by (metis le_neq_implies_less)
  show ?case
    using Cons r by (cases c) (simp_all split: if_splits, blast+)
qed simp

lemma pcer_entries: "check_pcer p e r \<longleftrightarrow>
    (\<exists>(b, k) \<in> (case eventRoutingTable r p of None \<Rightarrow> {} | Some m \<Rightarrow> entries_of m).
       if k = 0 then b = e else if k = 64 then True else e AND NOT (push_bit k 1 - 1) = b)"
proof (cases "eventRoutingTable r p")
  case (Some m)
  have "(\<exists>(k, s) \<in> set m. if k = 0 then e \<in> set s else if k = 64 then s \<noteq> [] else f k \<in> set s) \<longleftrightarrow>
      (\<exists>(b, k) \<in> entries_of m. if k = 0 then b = e else if k = 64 then True else f k = b)" for f
  proof (induction m)
    case (Cons q m)
    obtain k s where q: "q = (k, s)" by fastforce
    have "(\<exists>(b, j) \<in> (\<lambda>e. (e, k)) ` set s. if j = 0 then b = e else if j = 64 then True else f j = b) \<longleftrightarrow>
        (if k = 0 then e \<in> set s else if k = 64 then s \<noteq> [] else f k \<in> set s)"
      by (cases s) auto
    then show ?case using Cons by (simp only: q entries_Cons bex_Un list.set bex_simps prod.case)
  qed (simp add: entries_Cons)
  then show ?thesis by (simp only: check_pcer_def Some option.case list_ex_iff)
qed (simp add: check_pcer_def)

text \<open>C21: Whatever calls a gateway has made, it forwards an event to a port exactly when the event lies in
  one of the ranges that were announced there since the port was last removed, where a single event is a range of
  no bits; and it sends an addressed message to the port where the address was last seen, unless that port
  has been removed since.\<close>

theorem router_follows_announcements:
  "(check_pcer p e (foldr router_do cs router_new) \<longleftrightarrow> (\<exists>(b, k) \<in> announced cs p. block_of k e = b)) \<and>
   lookup_port_for_address a (foldr router_do cs router_new) = seen_at cs a"
proof -
  let ?r = "foldr router_do cs router_new"
  have rel: "(case eventRoutingTable ?r p of None \<Rightarrow> {} | Some m \<Rightarrow> entries_of m) = announced cs p"
    using router_run_rel [of cs] by (simp only: router_rel_def)
  have b: "(if k = 0 then b = e else if k = 64 then True else e AND NOT (push_bit k 1 - 1) = b) \<longleftrightarrow> block_of k e = b"
    if m: "(b, k) \<in> announced cs p" for b k
  proof -
    consider "k = 0" | "0 < k" "k < 64" | "k = 64" "b = 0" using announced_ranges [OF m] by blast
    then show ?thesis
    proof cases
      case 2
      then show ?thesis by (simp only: shifted_mask block_of_def) auto
    next
      case 3
      have "block_of 64 e = 0" by (rule bit_word_eqI) (simp add: block_bits)
      then show ?thesis using 3 by simp
    qed (auto simp: block_0)
  qed
  have "check_pcer p e ?r \<longleftrightarrow> (\<exists>(b, k) \<in> announced cs p. block_of k e = b)"
    unfolding pcer_entries rel 
  proof (rule bex_cong [OF refl])
    fix x
    assume x: "x \<in> announced cs p"
    obtain c k where "x = (c, k)" by fastforce
    then show "(case x of (b, k) \<Rightarrow> if k = 0 then b = e else if k = 64 then True else e AND NOT (push_bit k 1 - 1) = b) =
        (case x of (b, k) \<Rightarrow> block_of k e = b)"
      using b [of c k] x by (simp only: prod.case)
  qed
  moreover have "lookup_port_for_address a ?r = seen_at cs a"
    using router_run_rel [of cs] by (simp only: router_rel_def)
  ultimately show ?thesis ..
qed

subsection \<open>Announced and forwarded\<close>

lemma in_decoded_block:
  assumes "k < 64" "b = block_of k r" "b \<le> e" "e \<le> b + mask k"
  shows "block_of k e = b"
proof -
  let ?q = "(2 :: nat) ^ k"
  have u: "unat (block_of k x) = ?q * (unat x div ?q)" for x by (simp add: block_unat minus_mod_eq_mult_div)
  have f: "unat (block_of k r) + ?q \<le> 2 ^ 64" using block_fits assms(1) by blast
  have "unat (mask k :: u64) = ?q - 1" using assms(1) by (intro mask_unat) simp
  then have "unat (b + mask k) = unat b + ?q - 1" using f assms(2) by (simp add: unat_word_ariths)
  then have le: "unat b \<le> unat e" "unat e \<le> unat b + ?q - 1" using assms(3,4) by (simp_all only: word_le_nat_alt)
  have q: "0 < ?q" by simp
  have b: "unat b = ?q * (unat r div ?q)" using u assms(2) by simp
  have "?q * (unat r div ?q) \<le> unat e" "unat e < ?q * Suc (unat r div ?q)"
    unfolding mult_Suc_right b [symmetric] using le q by linarith+
  then have "unat e div ?q = unat r div ?q" by (intro div_nat_eqI) (simp_all add: ac_simps)
  then have "unat (block_of k e) = unat b" using u assms(2) by simp
  then show ?thesis by (simp add: word_unat_eq_iff)
qed

text \<open>C28: Announcing and forwarding fit together: when a consumer of a range of events with even start and even
  length announces the id that \<open>EncodeRange\<close> returns for the range, a gateway forwards each event of the
  range to its port.\<close>

theorem announced_range_forwarded:
  assumes "even (unat start)" "even (unat sz)" "unat start + unat sz \<le> 2 ^ 64" "EncodeRange fuel start sz = Some r"
    "unat start \<le> unat e" "unat e < unat start + unat sz"
  shows "check_pcer p e (register_consumer_range p r router)"
proof -
  have r: "case DecodeRange r of (b, m) \<Rightarrow> b \<le> e \<and> e \<le> b + m"
    using encoded_covers_all [OF assms] .
  obtain b k where c: "event_range_to_bit_count r = (b, k)" by fastforce
  have "(b, k) \<in> (case eventRoutingTable (register_consumer_range p r router) p of None \<Rightarrow> {} | Some m \<Rightarrow> entries_of m)"
    by (simp add: register_consumer_range_def c add_consumer_def entries_insert)
  moreover have "if k = 0 then b = e else if k = 64 then True else e AND NOT (push_bit k 1 - 1) = b"
  proof (cases "r = 0 \<or> r = - 1")
    case True
    then show ?thesis using c all_events by auto
  next
    case False
    then obtain j where j: "reads_as r j" using reads_as_exists by blast
    then have k: "0 < k" "k < 64" "b = block_of k r" "DecodeRange r = (b, mask k)"
    proof -
      have kj: "k = j" "b = block_of j r" using c event_range_read [OF j] by (metis prod.inject)+
      then show "0 < k" "k < 64" "b = block_of k r" "DecodeRange r = (b, mask k)"
        using j decode_read [OF j] by (simp_all only: reads_as_def)
    qed
    have "block_of k e = b" using in_decoded_block [OF k(2,3)] r k(4) by simp
    then show ?thesis using k(1,2) by (simp only: shifted_mask block_of_def) simp
  qed
  ultimately show ?thesis using pcer_entries by blast
qed

theorem announced_range_forwarded_witness:
  "EncodeRange 64 0xC501010118000004 6 = Some 0xC50101011800000F \<and>
     check_pcer 3 0xC501010118000009 (register_consumer_range 3 0xC50101011800000F (router_new :: nat router))"
proof -
  have e: "EncodeRange 64 0xC501010118000004 6 = Some 0xC50101011800000F" by code_simp
  have "check_pcer 3 0xC501010118000009 (register_consumer_range 3 0xC50101011800000F (router_new :: nat router))"
    by (rule announced_range_forwarded [OF _ _ _ e]) simp_all
  then show ?thesis using e by blast
qed

end
