(* ===== verification/Spec2Isabelle.thy ===== *)
theory Spec2Isabelle
  imports GcFormat AliasCacheRun AliasCacheGen AliasCacheCheck HalfSpec OsHost OsTime OsTasks OsHeap Atomics Endian OsMisc
    Crc DccCalls DccProgramming DccAddressing DccLogon DccMarklin DccDecoderRun QListRun QAsync TimersSpec
    LogonFeedback RailcomBroadcast OlcbTcpStream CanDelivery AliasSeed
    EventFlowSpec EventHandlersSpec Routing
begin

text \<open>
  Verification of OpenMRNLite, the OpenLCB and DCC stack for microcontrollers. File names
  below are relative to \<open>src/src\<close>.

  \<^bold>\<open>The program and its parts.\<close> A node runs on one executor thread: flows are queued by
  priority (\<open>utils/Queue.hxx\<close>, \<open>executor/Executor.hxx\<close>) or by time
  (\<open>executor/Timer.cpp\<close>) over the operating system layer (\<open>os\<close>). Frames from a CAN bus, from
  the text protocol of the GridConnect adapters (\<open>utils/gc_format.cpp\<close>) or from a TCP stream
  (\<open>openlcb/IfTcpImpl.hxx\<close>) become generic messages (\<open>openlcb/If.hxx\<close>); on CAN the 48-bit node
  ids travel as 12-bit aliases that the alias cache (\<open>openlcb/AliasCache.cpp\<close>) translates. The
  other half of the library drives and listens to the track: packets for DCC and Marklin
  decoders (\<open>dcc/Packet.cpp\<close>), the decoder of the track signal (\<open>dcc/Receiver.hxx\<close>), and the
  RailCom feedback (\<open>dcc/RailCom.cpp\<close> and its users).

  \<^bold>\<open>Theories.\<close> Each group is in the order of its imports.
  \<^item> \<open>Prelude\<close>: machine integers, failing assertions and array accesses as options,
    lemmas on lists, maps and words. \<open>Text\<close>: decimal and hexadecimal printing as \<open>printf\<close>
    and the integer helpers do it, with parsing lemmas.
  \<^item> \<open>CanFrame\<close>, \<open>GcFormat\<close> (\<open>include/can_frame.h\<close>, \<open>utils/gc_format.cpp\<close>, \<open>utils/GcStreamParser.cpp\<close>):
    the frame, generating and parsing GridConnect packets, and the stream parser; round
    trip through a noisy stream, framing, length bounds, memory safety.
  \<^item> \<open>SortedListSet\<close>, \<open>LinkedList\<close>, \<open>AliasCache\<close>, \<open>AliasCacheInv\<close>, \<open>AliasCacheOps\<close>, \<open>AliasCacheAdd\<close>,
    \<open>AliasCacheSpec\<close>, \<open>AliasCacheRun\<close>, \<open>AliasCacheGen\<close>, \<open>AliasCacheCheck\<close> (\<open>utils/SortedListMap.hxx\<close>,
    \<open>openlcb/AliasCache.cpp\<close>): the pool with its doubly linked LRU list, the free list and two
    sorted index vectors. \<open>ac_inv\<close> is the representation invariant, \<open>for_each\<close> the abstraction to a
    recency list; every operation refines the specification, runs of operations do, the
    generator of aliases ends with a fresh one, the self check passes.
  \<^item> \<open>HalfPrecision\<close>, \<open>HalfSpec\<close> (\<open>utils/ieeehalfprecision.c\<close>): the conversions on the bits of
    half, single and double numbers; round trip and nearest rounding on the real values.
  \<^item> \<open>OsHost\<close>, \<open>OsTime\<close>, \<open>OsTasks\<close>, \<open>OsHeap\<close>, \<open>OsMisc\<close>, \<open>Atomics\<close>, \<open>Endian\<close> (\<open>os\<close>, \<open>freertos_drivers\<close>,
    \<open>utils/atomic.c\<close>, \<open>include/endian.h\<close>, \<open>utils/logging.h\<close>): mutexes, semaphores and queues of the
    single-threaded port, clocks and sleeping, the task list of FreeRTOS with thread creation
    as a step relation, \<open>sbrk\<close>, watchdog, atomic builtins under interrupts as an interleaving,
    byte order.
  \<^item> \<open>CrcTables\<close>, \<open>Crc\<close> (\<open>utils/Crc.cpp\<close>): the three checksums in all their table layouts equal one
    reference by polynomial division; detection of byte errors; zero after the checksum.
  \<^item> \<open>DccDefs\<close>, \<open>DccPacket\<close>, \<open>DccPacketSpec\<close>, \<open>DccCalls\<close>, \<open>DccFunctions\<close>, \<open>DccProgramming\<close>, \<open>DccAddressing\<close>,
    \<open>DccLogon\<close>, \<open>DccMarklin\<close>, \<open>DccDebug\<close>, \<open>DccRoundtrip\<close> (\<open>dcc/Packet.cpp\<close>, \<open>dcc/Defs.hxx\<close>, \<open>dcc/Address.hxx\<close>,
    \<open>dcc/DccDebug.cpp\<close>): every packet builder, the constants, and the printer; invariant of the
    building calls, the checksum, and what each packet prints as, which is an independent reading.
  \<^item> \<open>DccDecoder\<close>, \<open>DccDecoderInv\<close>, \<open>DccDecoderRun\<close> (\<open>dcc/Receiver.hxx\<close>): the decoder of half-bit
    times; a packet of the builders sent as a signal arrives; memory safety on any signal.
  \<^item> \<open>Railcom\<close>, \<open>RailcomParse\<close>, \<open>LogonFeedback\<close>, \<open>RailcomBroadcast\<close> (\<open>dcc/RailCom.cpp\<close>, \<open>dcc/RailcomDebug.cpp\<close>,
    \<open>dcc/LogonFeedback.hxx\<close>, \<open>dcc/RailcomBroadcastDecoder.cpp\<close>): the 4/8 code, datagrams, the answers to
    the automatic logon, and the detection of which locomotive stands in a block.
  \<^item> \<open>Fifo\<close>, \<open>QListQueue\<close>, \<open>QListRun\<close>, \<open>QAsync\<close>, \<open>ExecQueue\<close>, \<open>ExecTimers\<close>, \<open>TimersInv\<close>, \<open>TimersOps\<close>, \<open>TimersRun\<close>,
    \<open>TimersSpec\<close> (\<open>utils/Queue.hxx\<close>, \<open>executor/Executor.hxx\<close>, \<open>executor/Timer.cpp\<close>, \<open>executor/Timer.hxx\<close>): intrusive lists as a
    store of cells; the priority queue refines one FIFO per priority, waiting flows are served
    in order, active timers stay sorted with true flags and each call returns.
  \<^item> \<open>OlcbDefs\<close>, \<open>OlcbTcp\<close>, \<open>OlcbTcpStream\<close> (\<open>openlcb/Defs.hxx\<close>, \<open>openlcb/If.hxx\<close>, \<open>openlcb/If.cpp\<close>,
    \<open>openlcb/IfTcpImpl.hxx\<close>): messages, payload fields, the TCP format and the flow that cuts a byte
    stream into messages, whatever the sizes of the reads.
  \<^item> \<open>CanDefs\<close>, \<open>CanMessages\<close>, \<open>CanReassembly\<close>, \<open>CanDelivery\<close> (\<open>openlcb/CanDefs.hxx\<close>, \<open>openlcb/IfCanImpl.hxx\<close>,
    \<open>openlcb/IfCan.cpp\<close>): the fields of identifiers; an addressed message is cut into frames, sent among other
    traffic and put together again by a node that runs all handlers of its frame dispatcher on every frame, its aliases
    resolved by the verified cache.
  \<^item> \<open>AliasFlows\<close>, \<open>AliasNode\<close>, \<open>AliasAlloc\<close>, \<open>AliasBus\<close>, \<open>AliasSeed\<close> (\<open>openlcb/AliasAllocator.cpp\<close>, \<open>openlcb/IfCan.cpp\<close>):
    the allocator as a step function on a node with its caches and its queue of frames, the handlers of
    alias frames, what each keeps of the aliases that a node owns; nodes on a bus as a timed step
    relation, in which frames wait in the queues of the sender and of each receiver and the allocator
    sleeps for 200 ms, with an invariant that gives each alias one owner; the walk of the seed.
  \<^item> \<open>EventRange\<close>, \<open>EventTree\<close>, \<open>EventTreeSpec\<close>, \<open>EventFlow\<close>, \<open>EventFlowSpec\<close>, \<open>EventHandlers\<close>, \<open>EventHandlersSpec\<close>,
    \<open>Routing\<close> (\<open>openlcb/EventService.cpp\<close>, \<open>openlcb/EventHandlerContainer.cpp\<close>, \<open>openlcb/EventHandlerTemplates.cpp\<close>,
    \<open>openlcb/RoutingLogic.hxx\<close>): ranges of events in one id, the registries of handlers with their iterators, the
    flow that calls the handlers of a message while others register and leave, as a step relation; the
    handlers of bits and bytes, which agree on both sides of the bus; the routing tables as a refinement
    of what was announced.

  \<^bold>\<open>How the code is read.\<close> Structs are records, unsigned integers are words of their width,
  signed ones are \<open>int\<close> where the code cannot overflow them (or the wrap is written out). A failed \<open>HASSERT\<close> and an access
  outside of an array are \<open>None\<close>, so a theorem that gives \<open>Some\<close> says that neither happens. Pointers
  into pools and intrusive lists are indices or cell numbers of an explicit store. What a class
  calls in code that is not here (kernels, user callbacks, sockets) is an argument, an event
  in the result, or a transition of the environment. Interfaces between components are locales (the FIFO of the
  executor, the list operations of the timers, the index vectors of the alias cache, the directory of
  aliases of the parsers and its extension with updates, the event registry, and the bit behind a pair of
  events), each interpreted on the model's own definitions.

  \<^bold>\<open>Bounds and fuel.\<close> Loops over intrusive lists take the number of cells as fuel; the
  termination theorems (such as \<open>timer_calls_return\<close>) show that this is enough on every state that
  the invariant allows. The search for a fresh alias gets fuel by the length of the cycle of the generator,
  and 4096 rounds, one per alias, in the allocator. The range encoder gets 64, one per bit.
  The loop of the frame writer gets 256 rounds, more than its 8-bit offset can count; \<open>message_reassembled\<close> shows that it
  returns. Other recursions are structural or have a termination proof.

  \<^bold>\<open>Time.\<close> Times are numbers that an event or a step brings along. On the bus of \<open>AliasBus\<close> the one assumption
  about the environment is a bound \<open>d\<close> on the time from the queueing of a frame until every node has
  handled it; \<open>alias_has_one_owner\<close> needs \<open>d\<close> below 100 ms, half of the sleep of the allocator, since a claim and its answer both
  have to travel. For timers, the documented conditions do not keep sums of times within 64 bits;
  \<open>timer_calls_return\<close> says for which calls they fit, and that exactly those return.

  \<^bold>\<open>Not modelled.\<close> The board projects under \<open>src/examples\<close> and everything vendored (HAL, CMSIS, FreeRTOS,
  ThreadX): code of other projects. Drivers, sockets, Bluetooth and the wrappers of kernels: input and
  output. The flows that resolve remote aliases with timeouts, carry datagrams, streams,
  traction and configuration: asynchronous state machines around the parts above, and the templates
  that describe configuration memory. What is
  partly modelled says so in its component of the manifest.
\<close>

end
